(* ===== verification/Zend_Prelude.thy ===== *)
theory Zend_Prelude
  imports Main "HOL-Library.Word" "HOL-Library.Monad_Syntax" "HOL-Library.Multiset"
begin

text \<open>
  Shared ground of the development: the types of the C program (bytes, machine integers,
  pointers), the memory an engine structure lives in, and the generic facts on options, lists
  and words that every component uses.

  A pointer is \<open>nat option\<close>, \<open>None\<close> being \<open>NULL\<close>. A structure whose nodes are
  allocated one by one owns an arena: a partial map from addresses to nodes, and the next address
  the allocator hands out. Reading or writing through \<open>NULL\<close>, or through an address that is
  not (or no longer) allocated, is undefined behaviour in C; here it makes the whole computation
  \<open>None\<close>. So a theorem that an operation returns \<open>Some\<close> also says that it touches live
  memory only, and that its loops end. The allocators \<open>emalloc\<close> and \<open>pemalloc\<close> never
  return \<open>NULL\<close> (they end the request, \<open>Zend/zend_alloc.c\<close>), so allocation always
  succeeds here.
\<close>

type_synonym ptr = "nat option"
type_synonym byte = "8 word"
type_synonym uint = "32 word"
type_synonym ulong = "64 word"

named_theorems arena_simps \<open>reading and writing an arena\<close>
named_theorems dll_intros \<open>building doubly linked segments\<close>

subsection \<open>Arenas\<close>

record 'n arena =
  cells :: "nat \<rightharpoonup> 'n"
  brk :: nat

definition arena_ok :: "('n, 'z) arena_scheme \<Rightarrow> bool" where
  "arena_ok s \<longleftrightarrow> (\<forall>a \<in> dom (cells s). a < brk s)"

definition deref :: "('n, 'z) arena_scheme \<Rightarrow> ptr \<Rightarrow> 'n option" where
  "deref s p = (case p of None \<Rightarrow> None | Some a \<Rightarrow> cells s a)"

definition poke :: "('n \<Rightarrow> 'n) \<Rightarrow> ptr \<Rightarrow> ('n, 'z) arena_scheme \<Rightarrow> ('n, 'z) arena_scheme option" where
  "poke f p s = (case p of None \<Rightarrow> None
     | Some a \<Rightarrow> (case cells s a of None \<Rightarrow> None
         | Some n \<Rightarrow> Some (s\<lparr>cells := (cells s)(a \<mapsto> f n)\<rparr>)))"

definition emalloc :: "'n \<Rightarrow> ('n, 'z) arena_scheme \<Rightarrow> nat \<times> ('n, 'z) arena_scheme" where
  "emalloc n s = (brk s, s\<lparr>cells := (cells s)(brk s \<mapsto> n), brk := Suc (brk s)\<rparr>)"

definition efree :: "ptr \<Rightarrow> ('n, 'z) arena_scheme \<Rightarrow> ('n, 'z) arena_scheme option" where
  "efree p s = (case p of None \<Rightarrow> None
     | Some a \<Rightarrow> (case cells s a of None \<Rightarrow> None
         | Some n \<Rightarrow> Some (s\<lparr>cells := (cells s)(a := None)\<rparr>)))"

text \<open>\<open>if (p) *p = f(*p)\<close>: the write that the list code guards by a \<open>NULL\<close> test.\<close>

definition poke_if :: "('n \<Rightarrow> 'n) \<Rightarrow> ptr \<Rightarrow> ('n, 'z) arena_scheme \<Rightarrow> ('n, 'z) arena_scheme option" where
  "poke_if f p s = (if p = None then Some s else poke f p s)"

lemma deref_None [arena_simps, simp]: "deref s None = None"
  by (simp add: deref_def)

lemma deref_Some [arena_simps, simp]: "deref s (Some a) = cells s a"
  by (simp add: deref_def)

lemma poke_Some [arena_simps]:
  "cells s a = Some n \<Longrightarrow> poke f (Some a) s = Some (s\<lparr>cells := (cells s)(a \<mapsto> f n)\<rparr>)"
  by (simp add: poke_def)

lemma efree_Some [arena_simps]:
  "cells s a = Some n \<Longrightarrow> efree (Some a) s = Some (s\<lparr>cells := (cells s)(a := None)\<rparr>)"
  by (simp add: efree_def)

lemma poke_if_None [arena_simps, simp]: "poke_if f None s = Some s"
  by (simp add: poke_if_def)

lemma poke_if_Some [arena_simps]: "poke_if f (Some a) s = poke f (Some a) s"
  by (simp add: poke_if_def)

lemma arena_ok_fresh: "arena_ok s \<Longrightarrow> cells s (brk s) = None"
  by (auto simp: arena_ok_def)

lemma bind_map_option_eq: "Option.bind (map_option f x) g = Option.bind x (\<lambda>n. g (f n))"
  by (cases x) auto

lemma bind_const: "Option.bind x (\<lambda>_. v) = (if x = None then None else v)"
  by (cases x) auto

lemmas cell_simps = bind_map_option_eq bind_const option.map_comp comp_def

subsection \<open>C integers and arrays\<close>

text \<open>
  A signed \<open>int\<close> result outside 32 bits is undefined behaviour: \<open>c_int\<close> is \<open>None\<close> there. An
  array of pointers (or a \<open>NULL\<close> one) is \<open>'d option list option\<close>, an element being \<open>None\<close>
  where it has not been written or where what it pointed to is freed.
\<close>

definition INT_MAX :: int where "INT_MAX = 2 ^ 31 - 1"

definition c_int :: "int \<Rightarrow> int option" where
  "c_int i = (if - (2 ^ 31) \<le> i \<and> i \<le> INT_MAX then Some i else None)"

lemma c_int_Some [simp]: "- (2 ^ 31) \<le> i \<Longrightarrow> i \<le> INT_MAX \<Longrightarrow> c_int i = Some i"
  by (simp add: c_int_def)

text \<open>
  A \<open>long\<close> has 64 bits; storing one in an \<open>int\<close> keeps its low bits.
\<close>

definition to_int :: "int \<Rightarrow> int" where
  "to_int x = signed_take_bit 31 x"

definition c_long :: "int \<Rightarrow> int option" where
  "c_long i = (if - (2 ^ 63) \<le> i \<and> i < 2 ^ 63 then Some i else None)"

lemma to_int_id: "- (2 ^ 31) \<le> x \<Longrightarrow> x < 2 ^ 31 \<Longrightarrow> to_int x = x"
  by (simp add: to_int_def signed_take_bit_int_eq_self)

text \<open>The return codes of \<open>Zend/zend.h\<close>.\<close>

definition SUCCESS :: int where "SUCCESS = 0"
definition FAILURE :: int where "FAILURE = -1"

lemma codes_differ [simp]: "SUCCESS \<noteq> FAILURE" "FAILURE \<noteq> SUCCESS"
  by (simp_all add: SUCCESS_def FAILURE_def)

type_synonym 'd slots = "'d option list"

definition slot :: "'d slots option \<Rightarrow> int \<Rightarrow> 'd option" where
  "slot els i = (case els of None \<Rightarrow> None
     | Some xs \<Rightarrow> if 0 \<le> i \<and> nat i < length xs then xs ! nat i else None)"

definition set_slot :: "'d slots option \<Rightarrow> int \<Rightarrow> 'd option \<Rightarrow> 'd slots option option" where
  "set_slot els i v = (case els of None \<Rightarrow> None
     | Some xs \<Rightarrow> if 0 \<le> i \<and> nat i < length xs then Some (Some (xs[nat i := v])) else None)"

text \<open>\<open>erealloc\<close>: the old contents up to the new size, then uninitialised slots.\<close>

definition erealloc :: "'d slots option \<Rightarrow> int \<Rightarrow> 'd slots option" where
  "erealloc els n = (let xs = (case els of None \<Rightarrow> [] | Some xs \<Rightarrow> xs)
     in Some (take (nat n) xs @ replicate (nat n - length xs) None))"

text \<open>The array starts with the values \<open>ds\<close> and has \<open>n\<close> slots in all.\<close>

definition holds :: "'d slots option \<Rightarrow> int \<Rightarrow> 'd list \<Rightarrow> bool" where
  "holds els n ds \<longleftrightarrow> (case els of None \<Rightarrow> n = 0 \<and> ds = []
     | Some xs \<Rightarrow> int (length xs) = n \<and> length ds \<le> length xs \<and> take (length ds) xs = map Some ds)"

lemma holds_slot:
  assumes "holds els n ds" and "i < length ds"
  shows "slot els (int i) = Some (ds ! i)"
proof (cases els)
  case None
  then show ?thesis using assms by (simp add: holds_def)
next
  case (Some xs)
  then have "take (length ds) xs ! i = map Some ds ! i" using assms by (simp add: holds_def)
  then show ?thesis using assms Some by (simp add: holds_def slot_def)
qed

lemma holds_erealloc:
  "holds els n ds \<Longrightarrow> n \<le> m \<Longrightarrow> 0 \<le> n \<Longrightarrow> holds (erealloc els m) m ds"
  by (auto simp: holds_def erealloc_def split: option.splits)

lemma holds_set_slot:
  assumes "holds els n ds" and "int (length ds) < n"
  shows "\<exists>els'. set_slot els (int (length ds)) (Some d) = Some els' \<and> holds els' n (ds @ [d])"
proof (cases els)
  case None
  then show ?thesis using assms by (simp add: holds_def)
next
  case (Some xs)
  then have "take (Suc (length ds)) (xs[length ds := Some d]) = map Some ds @ [Some d]"
    using assms by (simp add: holds_def take_Suc_conv_app_nth)
  then show ?thesis using assms Some by (simp add: holds_def set_slot_def)
qed

lemma holds_butlast:
  assumes "holds els n (ds @ [d])" shows "holds els n ds"
proof (cases els)
  case None then show ?thesis using assms by (simp add: holds_def)
next
  case (Some xs)
  then have "take (length ds) (take (Suc (length ds)) xs) = map Some ds" using assms by (simp add: holds_def)
  then show ?thesis using assms Some by (simp add: holds_def min_def)
qed

lemma holds_clear_slot:
  assumes "holds els n (ds @ [d])"
  shows "\<exists>els'. set_slot els (int (length ds)) None = Some els' \<and> holds els' n ds"
  using assms holds_butlast [OF assms]
  by (auto simp: holds_def set_slot_def split: option.splits)

subsection \<open>Lists\<close>

text \<open>The first and last elements of a list of addresses, as pointers.\<close>

definition fst_or :: "'a list \<Rightarrow> 'a option \<Rightarrow> 'a option" where
  "fst_or xs q = (case xs of [] \<Rightarrow> q | x # _ \<Rightarrow> Some x)"

definition lst_or :: "'a option \<Rightarrow> 'a list \<Rightarrow> 'a option" where
  "lst_or p xs = (if xs = [] then p else Some (last xs))"

lemma fst_or_simps [simp]: "fst_or [] q = q" "fst_or (x # xs) q = Some x"
  by (simp_all add: fst_or_def)

lemma lst_or_simps [simp]: "lst_or p [] = p" "lst_or p (x # xs) = lst_or (Some x) xs"
  by (simp_all add: lst_or_def)

lemma fst_or_append [simp]: "fst_or (xs @ ys) q = fst_or xs (fst_or ys q)"
  by (cases xs) auto

lemma lst_or_append [simp]: "lst_or p (xs @ ys) = lst_or (lst_or p xs) ys"
  by (simp add: lst_or_def)

lemma fst_or_None_iff [simp]: "fst_or xs None = None \<longleftrightarrow> xs = []"
  by (cases xs) auto

lemma lst_or_None_iff [simp]: "lst_or None xs = None \<longleftrightarrow> xs = []"
  by (simp add: lst_or_def)

lemma lst_or_snoc [simp]: "lst_or p (xs @ [x]) = Some x"
  by simp

lemma lst_or_SomeD: "lst_or None xs = Some a \<Longrightarrow> \<exists>ys. xs = ys @ [a]"
  by (metis append_butlast_last_id lst_or_def option.distinct(1) option.inject)

lemma fst_or_SomeD: "fst_or xs None = Some a \<Longrightarrow> \<exists>ys. xs = a # ys"
  by (cases xs) auto

lemma fst_or_in: "fst_or xs None = Some a \<Longrightarrow> a \<in> set xs"
  by (auto dest: fst_or_SomeD)

lemma lst_or_in: "lst_or None xs = Some a \<Longrightarrow> a \<in> set xs"
  by (auto dest: lst_or_SomeD)

lemmas end_in = fst_or_in lst_or_in fst_or_in [OF sym] lst_or_in [OF sym]

lemma distinct_split_unique:
  "distinct (ys @ x # zs) \<Longrightarrow> x \<notin> set ys \<and> x \<notin> set zs"
  by auto

lemma map_upd_notin [simp]:
  "a \<notin> set xs \<Longrightarrow> map (\<lambda>x. g ((f(a := v)) x)) xs = map (\<lambda>x. g (f x)) xs"
  by (rule map_cong) auto

end
