(* ===== verification/Zend_Stack.thy ===== *)
theory Zend_Stack
  imports Zend_Prelude
begin

text \<open>
  \<open>Zend/zend_stack.c\<close> and \<open>Zend/zend_ptr_stack.c\<close>: the two array stacks of the engine, with
  their \<open>int\<close> sizes, the growth of the array and the raw reads.
\<close>

subsection \<open>\<open>zend_stack\<close>: copies of elements\<close>

definition STACK_BLOCK_SIZE :: int where "STACK_BLOCK_SIZE = 64"

record 'd zend_stack =
  stk_top :: int
  stk_max :: int
  stk_elements :: "'d slots option"

definition zend_stack_init :: "'d zend_stack \<Rightarrow> int \<times> 'd zend_stack" where
  "zend_stack_init stack = (SUCCESS, stack\<lparr>stk_top := 0, stk_max := 0, stk_elements := None\<rparr>)"

text \<open>\<open>erealloc\<close> does not fail, so the test of its result has no branch here.\<close>

definition zend_stack_push :: "'d \<Rightarrow> 'd zend_stack \<Rightarrow> (int \<times> 'd zend_stack) option" where
  "zend_stack_push element stack = do {
     stack \<leftarrow> (if stk_top stack \<ge> stk_max stack then do {
                 m \<leftarrow> c_int (stk_max stack + STACK_BLOCK_SIZE);
                 Some (stack\<lparr>stk_max := m, stk_elements := erealloc (stk_elements stack) m\<rparr>)
               } else Some stack);
     els \<leftarrow> set_slot (stk_elements stack) (stk_top stack) (Some element);
     t \<leftarrow> c_int (stk_top stack + 1);
     Some (stk_top stack, stack\<lparr>stk_elements := els, stk_top := t\<rparr>)
   }"

definition zend_stack_top :: "'d zend_stack \<Rightarrow> (int \<times> 'd option) option" where
  "zend_stack_top stack =
     (if stk_top stack > 0 then do {
        e \<leftarrow> slot (stk_elements stack) (stk_top stack - 1);
        Some (SUCCESS, Some e)
      } else Some (FAILURE, None))"

definition zend_stack_del_top :: "'d zend_stack \<Rightarrow> (int \<times> 'd zend_stack) option" where
  "zend_stack_del_top stack =
     (if stk_top stack > 0 then do {
        _ \<leftarrow> slot (stk_elements stack) (stk_top stack - 1);
        els \<leftarrow> set_slot (stk_elements stack) (stk_top stack - 1) None;
        Some (SUCCESS, stack\<lparr>stk_top := stk_top stack - 1, stk_elements := els\<rparr>)
      } else Some (SUCCESS, stack))"

definition zend_stack_int_top :: "int zend_stack \<Rightarrow> int option" where
  "zend_stack_int_top stack = do {
     (r, e) \<leftarrow> zend_stack_top stack;
     (case e of None \<Rightarrow> Some FAILURE | Some e \<Rightarrow> if r = FAILURE then Some FAILURE else Some e)
   }"

definition zend_stack_is_empty :: "'d zend_stack \<Rightarrow> int" where
  "zend_stack_is_empty stack = (if stk_top stack = 0 then 1 else 0)"

text \<open>The loop \<open>for (i = 0; i < stack->top; i++) efree(stack->elements[i])\<close>.\<close>

fun free_slots :: "nat \<Rightarrow> nat \<Rightarrow> 'd slots option \<Rightarrow> 'd slots option option" where
  "free_slots i 0 els = Some els"
| "free_slots i (Suc n) els = do {
     _ \<leftarrow> slot els (int i);
     els \<leftarrow> set_slot els (int i) None;
     free_slots (Suc i) n els
   }"

definition zend_stack_destroy :: "'d zend_stack \<Rightarrow> (int \<times> 'd zend_stack) option" where
  "zend_stack_destroy stack =
     (if stk_elements stack \<noteq> None then do {
        _ \<leftarrow> free_slots 0 (nat (stk_top stack)) (stk_elements stack);
        Some (SUCCESS, stack\<lparr>stk_elements := None\<rparr>)
      } else Some (SUCCESS, stack))"

definition zend_stack_base :: "'d zend_stack \<Rightarrow> 'd slots option" where
  "zend_stack_base stack = stk_elements stack"

definition zend_stack_count :: "'d zend_stack \<Rightarrow> int" where
  "zend_stack_count stack = stk_top stack"

text \<open>
  The callback of the apply functions returns whether to stop, and works on its own state.
\<close>

datatype apply_order = ZEND_STACK_APPLY_TOPDOWN | ZEND_STACK_APPLY_BOTTOMUP

fun apply_down :: "('d \<Rightarrow> 's \<Rightarrow> bool \<times> 's) \<Rightarrow> 'd slots option \<Rightarrow> nat \<Rightarrow> 's \<Rightarrow> 's option" where
  "apply_down f els 0 st = Some st"
| "apply_down f els (Suc i) st = do {
     d \<leftarrow> slot els (int i);
     (case f d st of (stop, st) \<Rightarrow> if stop then Some st else apply_down f els i st)
   }"

fun apply_up :: "('d \<Rightarrow> 's \<Rightarrow> bool \<times> 's) \<Rightarrow> 'd slots option \<Rightarrow> nat \<Rightarrow> nat \<Rightarrow> 's \<Rightarrow> 's option" where
  "apply_up f els i 0 st = Some st"
| "apply_up f els i (Suc n) st = do {
     d \<leftarrow> slot els (int i);
     (case f d st of (stop, st) \<Rightarrow> if stop then Some st else apply_up f els (Suc i) n st)
   }"

definition zend_stack_apply ::
  "'d zend_stack \<Rightarrow> apply_order \<Rightarrow> ('d \<Rightarrow> 's \<Rightarrow> bool \<times> 's) \<Rightarrow> 's \<Rightarrow> 's option" where
  "zend_stack_apply stack type apply_function st =
     (case type of
        ZEND_STACK_APPLY_TOPDOWN \<Rightarrow> apply_down apply_function (stk_elements stack) (nat (stk_top stack)) st
      | ZEND_STACK_APPLY_BOTTOMUP \<Rightarrow> apply_up apply_function (stk_elements stack) 0 (nat (stk_top stack)) st)"

definition zend_stack_apply_with_argument ::
  "'d zend_stack \<Rightarrow> apply_order \<Rightarrow> ('d \<Rightarrow> 'a \<Rightarrow> 's \<Rightarrow> bool \<times> 's) \<Rightarrow> 'a \<Rightarrow> 's \<Rightarrow> 's option" where
  "zend_stack_apply_with_argument stack type apply_function arg st =
     (case type of
        ZEND_STACK_APPLY_TOPDOWN \<Rightarrow>
          apply_down (\<lambda>d. apply_function d arg) (stk_elements stack) (nat (stk_top stack)) st
      | ZEND_STACK_APPLY_BOTTOMUP \<Rightarrow>
          apply_up (\<lambda>d. apply_function d arg) (stk_elements stack) 0 (nat (stk_top stack)) st)"

subsection \<open>\<open>zend_ptr_stack\<close>: pointers, with a running \<open>top_element\<close>\<close>

text \<open>\<open>top_element\<close> points into \<open>elements\<close>; it is the index of the slot it points at.\<close>

definition PTR_STACK_BLOCK_SIZE :: int where "PTR_STACK_BLOCK_SIZE = 64"

record 'd zend_ptr_stack =
  ptop :: int
  pmax :: int
  pelements :: "'d slots option"
  top_element :: int
  ppersistent :: bool

definition zend_ptr_stack_init_ex :: "bool \<Rightarrow> 'd zend_ptr_stack \<Rightarrow> 'd zend_ptr_stack" where
  "zend_ptr_stack_init_ex pers stack =
     stack\<lparr>top_element := 0, pelements := None, ptop := 0, pmax := 0, ppersistent := pers\<rparr>"

definition zend_ptr_stack_init :: "'d zend_ptr_stack \<Rightarrow> 'd zend_ptr_stack" where
  "zend_ptr_stack_init stack = zend_ptr_stack_init_ex False stack"

text \<open>The \<open>do ... while\<close> loop of \<open>ZEND_PTR_STACK_RESIZE_IF_NEEDED\<close>.\<close>

partial_function (option) grow_max :: "int \<Rightarrow> int \<Rightarrow> int option" where
  "grow_max need m = do {
     m \<leftarrow> c_int (m + PTR_STACK_BLOCK_SIZE);
     if need > m then grow_max need m else Some m
   }"

definition resize_if_needed :: "int \<Rightarrow> 'd zend_ptr_stack \<Rightarrow> 'd zend_ptr_stack option" where
  "resize_if_needed n stack = do {
     need \<leftarrow> c_int (ptop stack + n);
     if need > pmax stack then do {
       m \<leftarrow> grow_max need (pmax stack);
       Some (stack\<lparr>pmax := m, pelements := erealloc (pelements stack) m, top_element := ptop stack\<rparr>)
     } else Some stack
   }"

text \<open>\<open>stack->top++; *(stack->top_element++) = elem\<close>\<close>

definition put_element :: "'d \<Rightarrow> 'd zend_ptr_stack \<Rightarrow> 'd zend_ptr_stack option" where
  "put_element elem stack = do {
     t \<leftarrow> c_int (ptop stack + 1);
     els \<leftarrow> set_slot (pelements stack) (top_element stack) (Some elem);
     Some (stack\<lparr>ptop := t, pelements := els, top_element := top_element stack + 1\<rparr>)
   }"

text \<open>\<open>elem = *(--stack->top_element); stack->top--\<close>: the slot keeps its pointer.\<close>

definition take_element :: "'d zend_ptr_stack \<Rightarrow> ('d \<times> 'd zend_ptr_stack) option" where
  "take_element stack = do {
     d \<leftarrow> slot (pelements stack) (top_element stack - 1);
     t \<leftarrow> c_int (ptop stack - 1);
     Some (d, stack\<lparr>ptop := t, top_element := top_element stack - 1\<rparr>)
   }"

fun put_elements :: "'d list \<Rightarrow> 'd zend_ptr_stack \<Rightarrow> 'd zend_ptr_stack option" where
  "put_elements [] stack = Some stack"
| "put_elements (e # es) stack = do { stack \<leftarrow> put_element e stack; put_elements es stack }"

fun take_elements :: "nat \<Rightarrow> 'd zend_ptr_stack \<Rightarrow> ('d list \<times> 'd zend_ptr_stack) option" where
  "take_elements 0 stack = Some ([], stack)"
| "take_elements (Suc n) stack = do {
     (d, stack) \<leftarrow> take_element stack;
     (ds, stack) \<leftarrow> take_elements n stack;
     Some (d # ds, stack)
   }"

definition zend_ptr_stack_n_push :: "'d list \<Rightarrow> 'd zend_ptr_stack \<Rightarrow> 'd zend_ptr_stack option" where
  "zend_ptr_stack_n_push args stack = do {
     stack \<leftarrow> resize_if_needed (int (length args)) stack;
     put_elements args stack
   }"

text \<open>The popped values in the order they are popped, that is, of the \<open>void **\<close> arguments.\<close>

definition zend_ptr_stack_n_pop :: "nat \<Rightarrow> 'd zend_ptr_stack \<Rightarrow> ('d list \<times> 'd zend_ptr_stack) option" where
  "zend_ptr_stack_n_pop n stack = take_elements n stack"

definition zend_ptr_stack_push :: "'d \<Rightarrow> 'd zend_ptr_stack \<Rightarrow> 'd zend_ptr_stack option" where
  "zend_ptr_stack_push ptr stack = do { stack \<leftarrow> resize_if_needed 1 stack; put_element ptr stack }"

definition zend_ptr_stack_pop :: "'d zend_ptr_stack \<Rightarrow> ('d \<times> 'd zend_ptr_stack) option" where
  "zend_ptr_stack_pop stack = take_element stack"

text \<open>The unrolled pushes and pops of the header move \<open>top\<close> once, by the whole count.\<close>

definition store_element :: "'d \<Rightarrow> 'd zend_ptr_stack \<Rightarrow> 'd zend_ptr_stack option" where
  "store_element e stack = do {
     els \<leftarrow> set_slot (pelements stack) (top_element stack) (Some e);
     Some (stack\<lparr>pelements := els, top_element := top_element stack + 1\<rparr>)
   }"

definition fetch_element :: "'d zend_ptr_stack \<Rightarrow> ('d \<times> 'd zend_ptr_stack) option" where
  "fetch_element stack = do {
     d \<leftarrow> slot (pelements stack) (top_element stack - 1);
     Some (d, stack\<lparr>top_element := top_element stack - 1\<rparr>)
   }"

definition zend_ptr_stack_2_push :: "'d \<Rightarrow> 'd \<Rightarrow> 'd zend_ptr_stack \<Rightarrow> 'd zend_ptr_stack option" where
  "zend_ptr_stack_2_push a b stack = do {
     stack \<leftarrow> resize_if_needed 2 stack;
     t \<leftarrow> c_int (ptop stack + 2);
     stack \<leftarrow> store_element a (stack\<lparr>ptop := t\<rparr>);
     store_element b stack
   }"

definition zend_ptr_stack_3_push :: "'d \<Rightarrow> 'd \<Rightarrow> 'd \<Rightarrow> 'd zend_ptr_stack \<Rightarrow> 'd zend_ptr_stack option" where
  "zend_ptr_stack_3_push a b c stack = do {
     stack \<leftarrow> resize_if_needed 3 stack;
     t \<leftarrow> c_int (ptop stack + 3);
     stack \<leftarrow> store_element a (stack\<lparr>ptop := t\<rparr>);
     stack \<leftarrow> store_element b stack;
     store_element c stack
   }"

definition zend_ptr_stack_2_pop :: "'d zend_ptr_stack \<Rightarrow> ('d \<times> 'd \<times> 'd zend_ptr_stack) option" where
  "zend_ptr_stack_2_pop stack = do {
     (a, stack) \<leftarrow> fetch_element stack;
     (b, stack) \<leftarrow> fetch_element stack;
     t \<leftarrow> c_int (ptop stack - 2);
     Some (a, b, stack\<lparr>ptop := t\<rparr>)
   }"

definition zend_ptr_stack_3_pop :: "'d zend_ptr_stack \<Rightarrow> ('d \<times> 'd \<times> 'd \<times> 'd zend_ptr_stack) option" where
  "zend_ptr_stack_3_pop stack = do {
     (a, stack) \<leftarrow> fetch_element stack;
     (b, stack) \<leftarrow> fetch_element stack;
     (c, stack) \<leftarrow> fetch_element stack;
     t \<leftarrow> c_int (ptop stack - 3);
     Some (a, b, c, stack\<lparr>ptop := t\<rparr>)
   }"

text \<open>
  \<open>zend_ptr_stack_destroy\<close> frees the array and leaves every field as it is: \<open>elements\<close> still
  points to what is an array no more, and has no slots.
\<close>

definition zend_ptr_stack_destroy :: "'d zend_ptr_stack \<Rightarrow> 'd zend_ptr_stack" where
  "zend_ptr_stack_destroy stack = (if pelements stack \<noteq> None then stack\<lparr>pelements := Some []\<rparr> else stack)"

definition zend_ptr_stack_apply :: "'d zend_ptr_stack \<Rightarrow> ('d \<Rightarrow> 's \<Rightarrow> 's) \<Rightarrow> 's \<Rightarrow> 's option" where
  "zend_ptr_stack_apply stack func st =
     apply_down (\<lambda>d st. (False, func d st)) (pelements stack) (nat (ptop stack)) st"

text \<open>The elements \<open>zend_ptr_stack_clean\<close> frees, last one first.\<close>

fun free_down :: "'d slots option \<Rightarrow> nat \<Rightarrow> 'd list option" where
  "free_down els 0 = Some []"
| "free_down els (Suc i) = do {
     d \<leftarrow> slot els (int i);
     ds \<leftarrow> free_down els i;
     Some (d # ds)
   }"

definition zend_ptr_stack_clean ::
  "'d zend_ptr_stack \<Rightarrow> ('d \<Rightarrow> 's \<Rightarrow> 's) \<Rightarrow> bool \<Rightarrow> 's \<Rightarrow> ('d list \<times> 's \<times> 'd zend_ptr_stack) option" where
  "zend_ptr_stack_clean stack func free_elements st = do {
     st \<leftarrow> zend_ptr_stack_apply stack func st;
     freed \<leftarrow> (if free_elements then free_down (pelements stack) (nat (ptop stack)) else Some []);
     Some (freed, st, stack\<lparr>ptop := 0, top_element := 0\<rparr>)
   }"

definition zend_ptr_stack_num_elements :: "'d zend_ptr_stack \<Rightarrow> int" where
  "zend_ptr_stack_num_elements stack = ptop stack"

end
