(* ===== verification/Lifo.thy ===== *)
theory Lifo
  imports Zend_Prelude
begin

text \<open>
  The interface of a last-in first-out store, as the compiler and the executor use one: a push, a
  pop, and a look at the top. \<open>rep s ds\<close> says that the store \<open>s\<close> holds \<open>ds\<close>, last element
  on top; \<open>room n\<close> that a store of \<open>n\<close> elements takes one more. \<open>zend_stack\<close>,
  \<open>zend_ptr_stack\<close> and \<open>zend_llist\<close> are shown to be such stores, and get the lemmas of this
  theory by interpretation.
\<close>

datatype 'd lifo_op = Push 'd | Pop

fun run_ops :: "('d \<Rightarrow> 's \<Rightarrow> 's option) \<Rightarrow> ('s \<Rightarrow> 's option) \<Rightarrow> 'd lifo_op list \<Rightarrow> 's \<Rightarrow> 's option" where
  "run_ops push pop [] s = Some s"
| "run_ops push pop (Push d # ops) s = do { s \<leftarrow> push d s; run_ops push pop ops s }"
| "run_ops push pop (Pop # ops) s = do { s \<leftarrow> pop s; run_ops push pop ops s }"

text \<open>The same operations on a list; popping the empty list is an error.\<close>

fun spec_ops :: "'d lifo_op list \<Rightarrow> 'd list \<Rightarrow> 'd list option" where
  "spec_ops [] ds = Some ds"
| "spec_ops (Push d # ops) ds = spec_ops ops (ds @ [d])"
| "spec_ops (Pop # ops) ds = (if ds = [] then None else spec_ops ops (butlast ds))"

locale lifo =
  fixes rep :: "'s \<Rightarrow> 'd list \<Rightarrow> bool"
    and push :: "'d \<Rightarrow> 's \<Rightarrow> 's option"
    and pop :: "'s \<Rightarrow> 's option"
    and peek :: "'s \<Rightarrow> 'd option"
    and room :: "nat \<Rightarrow> bool"
  assumes rep_push: "rep s ds \<Longrightarrow> room (length ds) \<Longrightarrow> \<exists>s'. push d s = Some s' \<and> rep s' (ds @ [d])"
    and rep_pop: "rep s (ds @ [d]) \<Longrightarrow> \<exists>s'. pop s = Some s' \<and> rep s' ds"
    and rep_peek: "rep s (ds @ [d]) \<Longrightarrow> peek s = Some d"
begin

lemma run_simulates:
  assumes "rep s ds" and "spec_ops ops ds = Some ds'"
    and "\<forall>k < length ds + length ops. room k"
  shows "\<exists>s'. run_ops push pop ops s = Some s' \<and> rep s' ds'"
  using assms
proof (induction ops arbitrary: s ds)
  case Nil
  then show ?case by simp
next
  case (Cons x ops)
  show ?case
  proof (cases x)
    case (Push d)
    obtain k where k: "push d s = Some k" "rep k (ds @ [d])"
      using rep_push [OF Cons.prems(1)] Cons.prems(3) by force
    show ?thesis using Cons.IH [OF k(2)] Cons.prems Push k(1) by simp
  next
    case Pop
    then have "ds \<noteq> []" "spec_ops ops (butlast ds) = Some ds'"
      using Cons.prems(2) by (auto split: if_splits)
    then have "rep s (butlast ds @ [last ds])" using Cons.prems(1) by simp
    then obtain k where k: "pop s = Some k" "rep k (butlast ds)" using rep_pop by blast
    show ?thesis using Cons.IH [OF k(2)] Cons.prems(3) Pop k(1) \<open>spec_ops ops (butlast ds) = Some ds'\<close>
      by simp
  qed
qed

lemma push_then_peek:
  "rep s ds \<Longrightarrow> room (length ds) \<Longrightarrow> \<exists>s'. push d s = Some s' \<and> peek s' = Some d"
  using rep_push rep_peek by metis

lemma push_then_pop:
  assumes "rep s ds" and "room (length ds)"
  shows "\<exists>s1 s2. push d s = Some s1 \<and> pop s1 = Some s2 \<and> rep s2 ds"
  using rep_push [OF assms] rep_pop by metis

end

end
