(* ===== verification/Zend_Stack_Correct.thy ===== *)
theory Zend_Stack_Correct
  imports Zend_Stack Lifo
begin

text \<open>
  The two array stacks implement the list of their elements: \<open>stack_rep\<close> and
  \<open>ptr_stack_rep\<close> are the representation relations, and both are interpreted as \<open>lifo\<close> stores
  for as long as the \<open>int\<close> sizes do not overflow.
\<close>

definition room :: "nat \<Rightarrow> bool" where
  "room n \<longleftrightarrow> int n + 64 \<le> INT_MAX"

subsection \<open>\<open>zend_stack\<close>\<close>

definition stack_rep :: "'d zend_stack \<Rightarrow> 'd list \<Rightarrow> bool" where
  "stack_rep s ds \<longleftrightarrow> stk_top s = int (length ds) \<and> stk_top s \<le> stk_max s \<and>
     stk_max s \<le> INT_MAX \<and> holds (stk_elements s) (stk_max s) ds"

lemma stack_rep_init: "stack_rep (snd (zend_stack_init s)) []"
  by (simp add: zend_stack_init_def stack_rep_def holds_def INT_MAX_def)

lemma stack_rep_push:
  assumes "stack_rep s ds" and "room (length ds)"
  shows "\<exists>s'. zend_stack_push d s = Some (int (length ds), s') \<and> stack_rep s' (ds @ [d])"
proof -
  note r = assms(1) [unfolded stack_rep_def]
  define s1 where "s1 = (if stk_top s \<ge> stk_max s
    then s\<lparr>stk_max := stk_max s + 64, stk_elements := erealloc (stk_elements s) (stk_max s + 64)\<rparr> else s)"
  have s1: "stk_top s1 = int (length ds)" "int (length ds) < stk_max s1" "stk_max s1 \<le> INT_MAX"
    "holds (stk_elements s1) (stk_max s1) ds"
    using r assms(2) by (auto simp: s1_def room_def intro: holds_erealloc)
  obtain els where els: "set_slot (stk_elements s1) (int (length ds)) (Some d) = Some els"
    "holds els (stk_max s1) (ds @ [d])"
    using holds_set_slot [OF s1(4,2)] by blast
  have "zend_stack_push d s = Some (int (length ds), s1\<lparr>stk_elements := els, stk_top := int (length ds) + 1\<rparr>)"
    using r assms(2) s1 els(1)
    by (cases "stk_top s \<ge> stk_max s")
       (simp_all add: zend_stack_push_def STACK_BLOCK_SIZE_def room_def s1_def)
  then show ?thesis using s1 els by (auto simp: stack_rep_def)
qed

lemma stack_rep_top:
  assumes "stack_rep s (ds @ [d])" shows "zend_stack_top s = Some (SUCCESS, Some d)"
  using assms holds_slot [of "stk_elements s" "stk_max s" "ds @ [d]" "length ds"]
  by (simp add: stack_rep_def zend_stack_top_def)

lemma stack_rep_top_empty: "stack_rep s [] \<Longrightarrow> zend_stack_top s = Some (FAILURE, None)"
  by (simp add: stack_rep_def zend_stack_top_def)

lemma stack_rep_del_top:
  assumes "stack_rep s (ds @ [d])"
  shows "\<exists>s'. zend_stack_del_top s = Some (SUCCESS, s') \<and> stack_rep s' ds"
proof -
  note r = assms [unfolded stack_rep_def]
  have "holds (stk_elements s) (stk_max s) (ds @ [d])" using r by simp
  from holds_clear_slot [OF this] holds_slot [OF this, of "length ds"] r show ?thesis
    by (auto simp: zend_stack_del_top_def stack_rep_def)
qed

definition stack_push :: "'d \<Rightarrow> 'd zend_stack \<Rightarrow> 'd zend_stack option" where
  "stack_push d s = map_option snd (zend_stack_push d s)"

definition stack_pop :: "'d zend_stack \<Rightarrow> 'd zend_stack option" where
  "stack_pop s = map_option snd (zend_stack_del_top s)"

definition stack_peek :: "'d zend_stack \<Rightarrow> 'd option" where
  "stack_peek s = Option.bind (zend_stack_top s) snd"

interpretation zs: lifo stack_rep stack_push stack_pop stack_peek room
proof unfold_locales
  fix s :: "'d zend_stack" and ds d
  assume "stack_rep s ds" "room (length ds)"
  then show "\<exists>s'. stack_push d s = Some s' \<and> stack_rep s' (ds @ [d])"
    using stack_rep_push by (force simp: stack_push_def)
next
  fix s :: "'d zend_stack" and ds d
  assume a: "stack_rep s (ds @ [d])"
  show "\<exists>s'. stack_pop s = Some s' \<and> stack_rep s' ds"
    using stack_rep_del_top [OF a] by (auto simp: stack_pop_def)
  show "stack_peek s = Some d" using stack_rep_top [OF a] by (simp add: stack_peek_def)
qed

lemma free_slots_run:
  assumes "holds els n (us @ ds)"
  shows "\<exists>els'. free_slots (length us) (length ds) els = Some els'"
proof -
  have "\<exists>els'. free_slots i k els = Some els'"
    if "\<forall>j. i \<le> j \<and> j < i + k \<longrightarrow> slot els (int j) \<noteq> None" for i k and els :: "'a slots option"
    using that
  proof (induction k arbitrary: i els)
    case (Suc k)
    then have "slot els (int i) \<noteq> None" by simp
    then obtain xs where xs: "els = Some xs" "i < length xs" "xs ! i \<noteq> None"
      by (auto simp: slot_def split: option.splits if_splits)
    have "\<forall>j. Suc i \<le> j \<and> j < Suc i + k \<longrightarrow> slot (Some (xs[i := None])) (int j) \<noteq> None"
      using Suc.prems xs by (auto simp: slot_def split: if_splits)
    from Suc.IH [OF this] xs show ?case by (auto simp: slot_def set_slot_def)
  qed simp
  moreover have "\<forall>j. length us \<le> j \<and> j < length us + length ds \<longrightarrow> slot els (int j) \<noteq> None"
    using holds_slot [OF assms] by auto
  ultimately show ?thesis by blast
qed

lemma stack_rep_destroy:
  assumes "stack_rep s ds"
  shows "\<exists>s'. zend_stack_destroy s = Some (SUCCESS, s') \<and> stk_elements s' = None \<and> stk_top s' = stk_top s"
  using assms free_slots_run [of "stk_elements s" "stk_max s" "[]" ds]
  by (auto simp: zend_stack_destroy_def stack_rep_def)

text \<open>The two orders of \<open>zend_stack_apply\<close>, as folds that stop.\<close>

fun fold_until :: "('d \<Rightarrow> 's \<Rightarrow> bool \<times> 's) \<Rightarrow> 'd list \<Rightarrow> 's \<Rightarrow> 's" where
  "fold_until f [] st = st"
| "fold_until f (d # ds) st = (case f d st of (stop, st) \<Rightarrow> if stop then st else fold_until f ds st)"

lemma fold_until_all: "fold_until (\<lambda>d st. (False, f d st)) ds st = fold f ds st"
  by (induction ds arbitrary: st) auto

lemma apply_down_run:
  "holds els n (ds @ us) \<Longrightarrow> apply_down f els (length ds) st = Some (fold_until f (rev ds) st)"
proof (induction ds arbitrary: us st rule: rev_induct)
  case (snoc d ds)
  have "holds els n (ds @ (d # us))" using snoc.prems by simp
  then show ?case
    using snoc.IH holds_slot [OF snoc.prems, of "length ds"] by (auto split: prod.splits)
qed simp

lemma apply_up_run:
  "holds els n (us @ ds) \<Longrightarrow> apply_up f els (length us) (length ds) st = Some (fold_until f ds st)"
proof (induction ds arbitrary: us st)
  case (Cons d ds)
  have "holds els n ((us @ [d]) @ ds)" using Cons.prems by simp
  from Cons.IH [OF this] holds_slot [OF Cons.prems, of "length us"] show ?case
    by (auto split: prod.splits)
qed simp

lemma stack_rep_apply:
  assumes "stack_rep s ds"
  shows "zend_stack_apply s order f st =
    Some (fold_until f (case order of ZEND_STACK_APPLY_TOPDOWN \<Rightarrow> rev ds | ZEND_STACK_APPLY_BOTTOMUP \<Rightarrow> ds) st)"
  using assms apply_down_run [of "stk_elements s" "stk_max s" ds "[]" f st]
    apply_up_run [of "stk_elements s" "stk_max s" "[]" ds f st]
  by (cases order) (simp_all add: zend_stack_apply_def stack_rep_def)

subsection \<open>\<open>zend_ptr_stack\<close>\<close>

definition ptr_stack_rep :: "'d zend_ptr_stack \<Rightarrow> 'd list \<Rightarrow> bool" where
  "ptr_stack_rep s ds \<longleftrightarrow> ptop s = int (length ds) \<and> top_element s = ptop s \<and> ptop s \<le> pmax s \<and>
     pmax s \<le> INT_MAX \<and> holds (pelements s) (pmax s) ds"

lemma ptr_stack_rep_init: "ptr_stack_rep (zend_ptr_stack_init s) []"
  by (simp add: zend_ptr_stack_init_def zend_ptr_stack_init_ex_def ptr_stack_rep_def holds_def INT_MAX_def)

lemma grow_max_run:
  assumes "m < need" and "0 \<le> m" and "need + 64 \<le> INT_MAX"
  shows "\<exists>m'. grow_max need m = Some m' \<and> need \<le> m' \<and> m' < need + 64"
  using assms
proof (induction "nat (need - m)" arbitrary: m rule: less_induct)
  case less
  have c: "c_int (m + 64) = Some (m + 64)" using less.prems by simp
  show ?case
  proof (cases "need > m + 64")
    case True
    then show ?thesis using less.hyps [of "m + 64"] less.prems c
      by (simp add: grow_max.simps [of need m] PTR_STACK_BLOCK_SIZE_def)
  next
    case False
    then show ?thesis using less.prems c by (simp add: grow_max.simps [of need m] PTR_STACK_BLOCK_SIZE_def)
  qed
qed

lemma resize_run:
  assumes "ptr_stack_rep s ds" and "room (length ds + n)"
  shows "\<exists>s'. resize_if_needed (int n) s = Some s' \<and> ptr_stack_rep s' ds \<and>
    int (length ds + n) \<le> pmax s'"
proof -
  note r = assms(1) [unfolded ptr_stack_rep_def]
  have c: "c_int (int (length ds) + int n) = Some (int (length ds) + int n)"
    using assms(2) by (simp add: room_def)
  show ?thesis
  proof (cases "int (length ds) + int n > pmax s")
    case True
    obtain m where "grow_max (int (length ds) + int n) (pmax s) = Some m" "int (length ds) + int n \<le> m"
      "m < int (length ds) + int n + 64"
      using grow_max_run [OF True] r assms(2) by (auto simp: room_def)
    then show ?thesis using True c r assms(2) holds_erealloc [of "pelements s" "pmax s" ds m]
      by (auto simp: resize_if_needed_def ptr_stack_rep_def room_def)
  next
    case False
    then show ?thesis using c r by (simp add: resize_if_needed_def ptr_stack_rep_def)
  qed
qed

lemma put_element_run:
  assumes "ptr_stack_rep s ds" and "int (length ds) < pmax s"
  shows "\<exists>s'. put_element d s = Some s' \<and> ptr_stack_rep s' (ds @ [d]) \<and> pmax s' = pmax s"
proof -
  note r = assms(1) [unfolded ptr_stack_rep_def]
  obtain els where els: "set_slot (pelements s) (int (length ds)) (Some d) = Some els" "holds els (pmax s) (ds @ [d])"
    using holds_set_slot [of "pelements s" "pmax s" ds d] r assms(2) by blast
  have "c_int (int (length ds) + 1) = Some (int (length ds) + 1)" using r assms(2) by simp
  then show ?thesis using r els assms(2) by (auto simp: put_element_def ptr_stack_rep_def)
qed

lemma put_elements_run:
  assumes "ptr_stack_rep s ds" and "int (length ds + length es) \<le> pmax s"
  shows "\<exists>s'. put_elements es s = Some s' \<and> ptr_stack_rep s' (ds @ es)"
  using assms
proof (induction es arbitrary: s ds)
  case (Cons e es)
  obtain k where k: "put_element e s = Some k" "ptr_stack_rep k (ds @ [e])" "pmax k = pmax s"
    using put_element_run [OF Cons.prems(1)] Cons.prems(2) by force
  show ?case using Cons.IH [OF k(2)] Cons.prems(2) k by simp
qed simp

lemma ptr_stack_rep_n_push:
  assumes "ptr_stack_rep s ds" and "room (length ds + length es)"
  shows "\<exists>s'. zend_ptr_stack_n_push es s = Some s' \<and> ptr_stack_rep s' (ds @ es)"
proof -
  obtain k where "resize_if_needed (int (length es)) s = Some k" "ptr_stack_rep k ds"
    "int (length ds + length es) \<le> pmax k"
    using resize_run [OF assms] by blast
  then show ?thesis using put_elements_run [of k ds es] by (simp add: zend_ptr_stack_n_push_def)
qed

lemma push_is_n_push: "zend_ptr_stack_push d s = zend_ptr_stack_n_push [d] s"
  by (cases "resize_if_needed 1 s")
     (simp_all add: zend_ptr_stack_push_def zend_ptr_stack_n_push_def split: bind_splits)

lemma take_element_run:
  assumes "ptr_stack_rep s (ds @ [d])"
  shows "\<exists>s'. take_element s = Some (d, s') \<and> ptr_stack_rep s' ds"
proof -
  note r = assms [unfolded ptr_stack_rep_def]
  have "slot (pelements s) (int (length ds)) = Some d" "holds (pelements s) (pmax s) ds"
    using holds_slot [of "pelements s" "pmax s" "ds @ [d]" "length ds"] holds_butlast [of "pelements s" "pmax s" ds d] r
    by simp_all
  moreover have "c_int (int (length ds)) = Some (int (length ds))" using r by simp
  ultimately show ?thesis using r by (simp add: take_element_def ptr_stack_rep_def)
qed

lemma take_elements_run:
  "ptr_stack_rep s (ds @ es) \<Longrightarrow> \<exists>s'. take_elements (length es) s = Some (rev es, s') \<and> ptr_stack_rep s' ds"
proof (induction es arbitrary: s rule: rev_induct)
  case (snoc e es)
  obtain k where k: "take_element s = Some (e, k)" "ptr_stack_rep k (ds @ es)"
    using take_element_run [of s "ds @ es" e] snoc.prems by auto
  from snoc.IH [OF k(2)] k(1) show ?case by auto
qed simp

definition ptr_stack_peek :: "'d zend_ptr_stack \<Rightarrow> 'd option" where
  "ptr_stack_peek s = map_option fst (zend_ptr_stack_pop s)"

definition ptr_stack_drop :: "'d zend_ptr_stack \<Rightarrow> 'd zend_ptr_stack option" where
  "ptr_stack_drop s = map_option snd (zend_ptr_stack_pop s)"

definition room_push :: "nat \<Rightarrow> bool" where
  "room_push n \<longleftrightarrow> room (n + 1)"

interpretation ps: lifo ptr_stack_rep zend_ptr_stack_push ptr_stack_drop ptr_stack_peek room_push
proof unfold_locales
  fix s :: "'d zend_ptr_stack" and ds d
  assume "ptr_stack_rep s ds" "room_push (length ds)"
  then show "\<exists>s'. zend_ptr_stack_push d s = Some s' \<and> ptr_stack_rep s' (ds @ [d])"
    using ptr_stack_rep_n_push [of s ds "[d]"] by (simp add: push_is_n_push room_push_def)
next
  fix s :: "'d zend_ptr_stack" and ds d
  assume a: "ptr_stack_rep s (ds @ [d])"
  show "\<exists>s'. ptr_stack_drop s = Some s' \<and> ptr_stack_rep s' ds"
    using take_element_run [OF a] by (auto simp: ptr_stack_drop_def zend_ptr_stack_pop_def)
  show "ptr_stack_peek s = Some d"
    using take_element_run [OF a] by (auto simp: ptr_stack_peek_def zend_ptr_stack_pop_def)
qed

text \<open>The unrolled variants of the header do what the loops do.\<close>

lemma unrolled_push_2:
  assumes "ptr_stack_rep s ds" and "room (length ds + 2)"
  shows "zend_ptr_stack_2_push a b s = zend_ptr_stack_n_push [a, b] s"
proof -
  obtain k where k: "resize_if_needed 2 s = Some k" "ptr_stack_rep k ds" "int (length ds + 2) \<le> pmax k"
    using resize_run [OF assms] by auto
  have "ptop k = int (length ds)" "pmax k \<le> INT_MAX" using k(2) by (auto simp: ptr_stack_rep_def)
  then have "0 \<le> ptop k" "ptop k + 2 \<le> INT_MAX" using k(3) by auto
  then show ?thesis using k(1)
    by (cases "set_slot (pelements k) (top_element k) (Some a)")
       (simp_all add: zend_ptr_stack_2_push_def zend_ptr_stack_n_push_def store_element_def put_element_def
         split: bind_splits)
qed

lemma unrolled_push_3:
  assumes "ptr_stack_rep s ds" and "room (length ds + 3)"
  shows "zend_ptr_stack_3_push a b c s = zend_ptr_stack_n_push [a, b, c] s"
proof -
  obtain k where k: "resize_if_needed 3 s = Some k" "ptr_stack_rep k ds" "int (length ds + 3) \<le> pmax k"
    using resize_run [OF assms] by auto
  have "ptop k = int (length ds)" "pmax k \<le> INT_MAX" using k(2) by (auto simp: ptr_stack_rep_def)
  then have "0 \<le> ptop k" "ptop k + 3 \<le> INT_MAX" using k(3) by auto
  then show ?thesis using k(1)
    by (simp add: zend_ptr_stack_3_push_def zend_ptr_stack_n_push_def store_element_def put_element_def
         split: bind_splits)
qed

lemma unrolled_pop_2:
  assumes "ptr_stack_rep s (ds @ [b, a])"
  shows "\<exists>s'. zend_ptr_stack_2_pop s = Some (a, b, s') \<and> zend_ptr_stack_n_pop 2 s = Some ([a, b], s')"
proof -
  note r = assms [unfolded ptr_stack_rep_def]
  have "holds (pelements s) (pmax s) (ds @ [b, a])" using r by simp
  note sl = holds_slot [OF this, of "length ds"] holds_slot [OF this, of "Suc (length ds)"]
  show ?thesis using r sl
    by (simp add: zend_ptr_stack_2_pop_def zend_ptr_stack_n_pop_def fetch_element_def take_element_def
        nth_append numeral_2_eq_2 algebra_simps)
qed

lemma ptr_stack_rep_clean:
  assumes "ptr_stack_rep s ds"
  shows "\<exists>s'. zend_ptr_stack_clean s func fr st =
      Some ((if fr then rev ds else []), fold func (rev ds) st, s') \<and>
    ptr_stack_rep s' [] \<and> pelements s' = pelements s"
proof -
  note r = assms [unfolded ptr_stack_rep_def]
  have "holds (pelements s) (pmax s) (ds @ [])" using r by simp
  then have "apply_down (\<lambda>d st. (False, func d st)) (pelements s) (length ds) st = Some (fold func (rev ds) st)"
    using apply_down_run fold_until_all by metis
  moreover have "free_down (pelements s) (length ds) = Some (rev ds)"
    if "holds (pelements s) (pmax s) (ds @ us)" for us
    using that
  proof (induction ds arbitrary: us rule: rev_induct)
    case (snoc d ds)
    have "holds (pelements s) (pmax s) (ds @ d # us)" using snoc.prems by simp
    from snoc.IH [OF this] holds_slot [OF snoc.prems, of "length ds"] show ?case by simp
  qed simp
  from this [of "[]"] have "free_down (pelements s) (length ds) = Some (rev ds)" using r by simp
  moreover have "holds (pelements s) (pmax s) []"
    using r by (auto simp: holds_def split: option.splits)
  ultimately show ?thesis using r
    by (auto simp: zend_ptr_stack_clean_def zend_ptr_stack_apply_def ptr_stack_rep_def)
qed

subsection \<open>Properties\<close>

definition sample_stack :: "int zend_stack" where
  "sample_stack = \<lparr>stk_top = 2, stk_max = 64, stk_elements = Some (map Some [7, 8] @ replicate 62 None)\<rparr>"

definition sample_ptr_stack :: "int zend_ptr_stack" where
  "sample_ptr_stack = \<lparr>ptop = 2, pmax = 64, pelements = Some (map Some [7, 8] @ replicate 62 None),
     top_element = 2, ppersistent = False\<rparr>"

lemma sample_rep: "stack_rep sample_stack [7, 8]" "ptr_stack_rep sample_ptr_stack [7, 8]"
  by (simp_all add: stack_rep_def ptr_stack_rep_def sample_stack_def sample_ptr_stack_def holds_def INT_MAX_def)

text \<open>
  A \<open>zend_stack\<close> is a stack: every sequence of pushes and \<open>zend_stack_del_top\<close>s that
  never pops the empty stack and stays below the \<open>int\<close> bound leaves the elements the same
  sequence leaves of a list, with no access outside the grown array and no signed overflow.
\<close>

theorem zend_stack_simulates_list:
  assumes "stack_rep s ds" and "spec_ops ops ds = Some ds'"
    and "int (length ds + length ops) + 64 \<le> INT_MAX"
  shows "\<exists>s'. run_ops stack_push stack_pop ops s = Some s' \<and> stack_rep s' ds'"
  by (rule zs.run_simulates [OF assms(1,2)]) (use assms(3) in \<open>auto simp: room_def\<close>)

lemma zend_stack_simulates_list_witness:
  "\<exists>s'. run_ops stack_push stack_pop [Push 1, Pop, Pop, Push 2] sample_stack = Some s' \<and> stack_rep s' [7, 2]"
  by (rule zend_stack_simulates_list [OF sample_rep(1)]) (simp_all add: INT_MAX_def)

text \<open>
  \<open>zend_ptr_stack_n_push\<close> of any number of pointers grows the array as often as needed and
  pushes them in order; popping as many gives them back last first, and the stack as it was.
\<close>

theorem ptr_stack_n_push_n_pop:
  assumes "ptr_stack_rep s ds" and "int (length ds + length es) + 64 \<le> INT_MAX"
  shows "\<exists>s1 s2. zend_ptr_stack_n_push es s = Some s1 \<and> ptr_stack_rep s1 (ds @ es) \<and>
    zend_ptr_stack_n_pop (length es) s1 = Some (rev es, s2) \<and> ptr_stack_rep s2 ds"
proof -
  obtain s1 where s1: "zend_ptr_stack_n_push es s = Some s1" "ptr_stack_rep s1 (ds @ es)"
    using ptr_stack_rep_n_push [OF assms(1), of es] assms(2) by (auto simp: room_def)
  then show ?thesis using take_elements_run [OF s1(2)] by (auto simp: zend_ptr_stack_n_pop_def)
qed

lemma ptr_stack_n_push_n_pop_witness:
  "\<exists>s1 s2. zend_ptr_stack_n_push (replicate 200 5) sample_ptr_stack = Some s1 \<and>
    ptr_stack_rep s1 ([7, 8] @ replicate 200 5) \<and>
    zend_ptr_stack_n_pop (length (replicate 200 (5 :: int))) s1 = Some (rev (replicate 200 5), s2) \<and> ptr_stack_rep s2 [7, 8]"
  by (rule ptr_stack_n_push_n_pop [OF sample_rep(2)]) (simp add: INT_MAX_def)

text \<open>
  The hand-unrolled \<open>zend_ptr_stack_2_push\<close> and \<open>zend_ptr_stack_3_push\<close>, which move
  \<open>top\<close> once, leave the same stack as the loop of \<open>zend_ptr_stack_n_push\<close>.
\<close>

theorem ptr_stack_unrolled_pushes:
  assumes "ptr_stack_rep s ds" and "int (length ds) + 67 \<le> INT_MAX"
  shows "zend_ptr_stack_2_push a b s = zend_ptr_stack_n_push [a, b] s \<and>
    zend_ptr_stack_3_push a b c s = zend_ptr_stack_n_push [a, b, c] s"
  using unrolled_push_2 [OF assms(1)] unrolled_push_3 [OF assms(1)] assms(2) by (simp_all add: room_def)

lemma ptr_stack_unrolled_pushes_witness:
  "zend_ptr_stack_3_push 1 2 3 sample_ptr_stack = zend_ptr_stack_n_push [1, 2, 3] sample_ptr_stack"
  using ptr_stack_unrolled_pushes [OF sample_rep(2)] by (simp add: INT_MAX_def)

end
