(* ===== verification/Dll.thy ===== *)
theory Dll
  imports Zend_Prelude
begin

text \<open>
  Doubly linked segments, on two pointer fields \<open>nx\<close> and \<open>pv\<close> given as functions. The
  engine links nodes this way in \<open>zend_llist\<close>, in the insertion-order list of a hash table and
  in each of its bucket chains; all three use the lemmas of this theory.
\<close>

fun dseg :: "(nat \<Rightarrow> ptr) \<Rightarrow> (nat \<Rightarrow> ptr) \<Rightarrow> ptr \<Rightarrow> nat list \<Rightarrow> ptr \<Rightarrow> bool" where
  "dseg nx pv p [] q = True"
| "dseg nx pv p (x # xs) q \<longleftrightarrow> pv x = p \<and> nx x = fst_or xs q \<and> dseg nx pv (Some x) xs q"

lemma dseg_append [simp]:
  "dseg nx pv p (xs @ ys) q \<longleftrightarrow> dseg nx pv p xs (fst_or ys q) \<and> dseg nx pv (lst_or p xs) ys q"
  by (induction xs arbitrary: p) auto

lemma dseg_cong:
  "\<forall>x \<in> set xs. nx' x = nx x \<and> pv' x = pv x \<Longrightarrow> dseg nx' pv' p xs q = dseg nx pv p xs q"
  by (induction xs arbitrary: p) auto

lemma dseg_frame:
  "dseg nx pv p xs q \<Longrightarrow> \<forall>x \<in> set xs. nx' x = nx x \<and> pv' x = pv x \<Longrightarrow> dseg nx' pv' p xs q"
  by (simp add: dseg_cong [of xs nx' nx pv' pv])

lemma dseg_nx_notin [simp]: "a \<notin> set xs \<Longrightarrow> dseg (nx(a := v)) pv p xs q = dseg nx pv p xs q"
  by (rule dseg_cong) auto

lemma dseg_pv_notin [simp]: "a \<notin> set xs \<Longrightarrow> dseg nx (pv(a := v)) p xs q = dseg nx pv p xs q"
  by (rule dseg_cong) auto

text \<open>Redirecting the two ends: the segment's last node to \<open>q'\<close>, its first one back to \<open>p'\<close>.\<close>

lemma dseg_set_end:
  assumes "dseg nx pv p (xs @ [a]) q" and "a \<notin> set xs"
  shows "dseg (nx(a := q')) pv p (xs @ [a]) q'"
  using assms by simp

lemma dseg_set_start:
  assumes "dseg nx pv p (a # xs) q" and "a \<notin> set xs"
  shows "dseg nx (pv(a := p')) p' (a # xs) q"
  using assms by simp

text \<open>The general form of unlinking: the neighbours of the removed node are joined.\<close>

lemma dseg_unlink:
  assumes seg: "dseg nx pv p (ys @ x # zs) q" and dist: "distinct (ys @ x # zs)"
    and nx': "\<forall>b \<in> set ys \<union> set zs. nx' b = (if lst_or None ys = Some b then fst_or zs q else nx b)"
    and pv': "\<forall>b \<in> set ys \<union> set zs. pv' b = (if fst_or zs None = Some b then lst_or p ys else pv b)"
  shows "dseg nx' pv' p (ys @ zs) q"
proof -
  have 1: "dseg nx' pv' p ys (fst_or zs q)"
  proof (cases ys rule: rev_cases)
    case (snoc us u)
    have "\<forall>b \<in> set us. nx' b = nx b \<and> pv' b = pv b"
      using dist nx' pv' snoc by (auto dest: fst_or_in)
    then have "dseg nx' pv' p us (Some u)" using seg snoc by (auto intro: dseg_frame)
    moreover have "nx' u = fst_or zs q" using nx' snoc by simp
    moreover have "pv' u = lst_or p us" using pv' dist seg snoc by (auto dest: fst_or_in)
    ultimately show ?thesis using snoc by simp
  qed simp
  have 2: "dseg nx' pv' (lst_or p ys) zs q"
  proof (cases zs)
    case (Cons u us)
    have "\<forall>b \<in> set us. nx' b = nx b \<and> pv' b = pv b"
      using dist nx' pv' Cons by (auto dest: lst_or_in)
    then have "dseg nx' pv' (Some u) us q" using seg Cons by (auto intro: dseg_frame)
    moreover have "pv' u = lst_or p ys" using pv' Cons by simp
    moreover have "nx' u = fst_or us q" using nx' dist seg Cons by (auto dest: lst_or_in)
    ultimately show ?thesis using Cons by simp
  qed simp
  from 1 2 show ?thesis by simp
qed

text \<open>Whole lists, with head and tail pointers.\<close>

definition dll :: "(nat \<Rightarrow> ptr) \<Rightarrow> (nat \<Rightarrow> ptr) \<Rightarrow> ptr \<Rightarrow> ptr \<Rightarrow> nat list \<Rightarrow> bool" where
  "dll nx pv h t xs \<longleftrightarrow>
     distinct xs \<and> h = fst_or xs None \<and> t = lst_or None xs \<and> dseg nx pv None xs None"

lemma dll_Nil [simp]: "dll nx pv h t [] \<longleftrightarrow> h = None \<and> t = None"
  by (auto simp: dll_def)

lemma dll_cong:
  "\<forall>x \<in> set xs. nx' x = nx x \<and> pv' x = pv x \<Longrightarrow> dll nx' pv' h t xs = dll nx pv h t xs"
  by (simp add: dll_def dseg_cong [of xs nx' nx pv' pv])

lemma dll_distinct: "dll nx pv h t xs \<Longrightarrow> distinct xs"
  by (simp add: dll_def)

lemma dll_unlink:
  assumes "dll nx pv h t (ys @ x # zs)"
    and "\<forall>b \<in> set ys \<union> set zs. nx' b = (if pv x = Some b then nx x else nx b)"
    and "\<forall>b \<in> set ys \<union> set zs. pv' b = (if nx x = Some b then pv x else pv b)"
    and "h' = (if pv x = None then nx x else h)" and "t' = (if nx x = None then pv x else t)"
  shows "dll nx' pv' h' t' (ys @ zs)"
proof -
  have x: "pv x = lst_or None ys" "nx x = fst_or zs None" and d: "distinct (ys @ x # zs)"
    and s: "dseg nx pv None (ys @ x # zs) None"
    using assms(1) by (simp_all add: dll_def)
  have "dseg nx' pv' None (ys @ zs) None"
    by (rule dseg_unlink [OF s d]) (use assms(2,3) x in simp_all)
  moreover have "h' = fst_or (ys @ zs) None" "t' = lst_or None (ys @ zs)"
    using assms(1,4,5) x by (cases ys; simp add: dll_def lst_or_def)+
  ultimately show ?thesis using d by (simp add: dll_def)
qed

lemma dll_snoc:
  assumes "dll nx pv h t xs" and "a \<notin> set xs"
    and "nx' a = None" and "pv' a = t"
    and "\<forall>b \<in> set xs. nx' b = (if t = Some b then Some a else nx b)"
    and "\<forall>b \<in> set xs. pv' b = pv b"
  shows "dll nx' pv' (if h = None then Some a else h) (Some a) (xs @ [a])"
proof -
  have "dseg nx' pv' None xs (Some a)"
  proof (cases xs rule: rev_cases)
    case (snoc us u)
    have t: "t = Some u" using assms(1) snoc by (simp add: dll_def)
    have "\<forall>b \<in> set us. nx' b = nx b \<and> pv' b = pv b"
      using assms snoc t by (auto simp: dll_def)
    moreover have "dseg nx pv None us (Some u)" "nx' u = Some a" "pv' u = lst_or None us"
      using assms snoc t by (auto simp: dll_def)
    ultimately show ?thesis using snoc by (auto intro: dseg_frame)
  qed simp
  then show ?thesis using assms by (cases xs) (auto simp: dll_def)
qed

lemma dll_cons:
  assumes "dll nx pv h t xs" and "a \<notin> set xs"
    and "nx' a = h" and "pv' a = None"
    and "\<forall>b \<in> set xs. pv' b = (if h = Some b then Some a else pv b)"
    and "\<forall>b \<in> set xs. nx' b = nx b"
  shows "dll nx' pv' (Some a) (if t = None then Some a else t) (a # xs)"
proof -
  have "dseg nx' pv' (Some a) xs None"
  proof (cases xs)
    case (Cons u us)
    have "\<forall>b \<in> set us. nx' b = nx b \<and> pv' b = pv b"
      using assms Cons by (auto simp: dll_def)
    moreover have "dseg nx pv (Some u) us None" "nx' u = fst_or us None" "pv' u = Some a"
      using assms Cons by (auto simp: dll_def)
    ultimately show ?thesis using Cons by (auto intro: dseg_frame)
  qed simp
  then show ?thesis using assms by (auto simp: dll_def lst_or_def)
qed

end
