(* ===== verification/Zend_Qsort.thy ===== *)
theory Zend_Qsort
  imports Zend_Prelude
begin

text \<open>
  \<open>Zend/zend_qsort.c\<close>: the in-place quicksort of the engine, with its explicit stack of
  pending segments. The array is a list, positions are \<open>int\<close> (the code's \<open>char *\<close>
  pointers divided by the element size \<open>siz\<close>; \<open>end\<close> may lie one element before the
  array). \<open>begin_stack\<close> and \<open>end_stack\<close> have \<open>QSORT_STACK_SIZE\<close> entries on the C
  stack: a push beyond them is a buffer overflow, the result \<open>None\<close> here.
\<close>

definition QSORT_STACK_SIZE :: nat where
  "QSORT_STACK_SIZE = 8 * 8"

definition at :: "'a list \<Rightarrow> int \<Rightarrow> 'a" where
  "at xs i = xs ! nat i"

subsection \<open>Swapping two elements, byte by byte\<close>

text \<open>
  \<open>_zend_qsort_swap\<close> works on a memory of bytes: first four bytes at a time, then the rest
  one by one. \<open>swap_block m a b n\<close> is one exchange of \<open>n\<close> bytes.
\<close>

definition swap_block :: "(nat \<Rightarrow> byte) \<Rightarrow> nat \<Rightarrow> nat \<Rightarrow> nat \<Rightarrow> nat \<Rightarrow> byte" where
  "swap_block m a b n =
     (let m1 = (\<lambda>k. if a \<le> k \<and> k < a + n then m (b + (k - a)) else m k)
      in (\<lambda>k. if b \<le> k \<and> k < b + n then m (a + (k - b)) else m1 k))"

function swap_ints :: "(nat \<Rightarrow> byte) \<Rightarrow> nat \<Rightarrow> nat \<Rightarrow> nat \<Rightarrow> nat \<Rightarrow> (nat \<Rightarrow> byte) \<times> nat \<times> nat \<times> nat" where
  "swap_ints m a b i siz =
     (if i \<le> siz then swap_ints (swap_block m a b 4) (a + 4) (b + 4) (i + 4) siz
      else (m, a, b, i))"
  by pat_completeness auto
termination
  by (relation "measure (\<lambda>(m, a, b, i, siz). siz + 1 - i)") auto

function swap_chars :: "(nat \<Rightarrow> byte) \<Rightarrow> nat \<Rightarrow> nat \<Rightarrow> nat \<Rightarrow> nat \<Rightarrow> nat \<Rightarrow> byte" where
  "swap_chars m a b i siz =
     (if i \<le> siz then swap_chars (swap_block m a b 1) (a + 1) (b + 1) (i + 1) siz else m)"
  by pat_completeness auto
termination
  by (relation "measure (\<lambda>(m, a, b, i, siz). siz + 1 - i)") auto

declare swap_ints.simps [simp del] swap_chars.simps [simp del]

definition zend_qsort_swap :: "(nat \<Rightarrow> byte) \<Rightarrow> nat \<Rightarrow> nat \<Rightarrow> nat \<Rightarrow> nat \<Rightarrow> byte" where
  "zend_qsort_swap m a b siz =
     (case swap_ints m a b 4 siz of (m, a, b, i) \<Rightarrow> swap_chars m a b (i - 4 + 1) siz)"

subsection \<open>The sort\<close>

definition swap :: "'a list \<Rightarrow> int \<Rightarrow> int \<Rightarrow> 'a list" where
  "swap xs i j = xs[nat i := at xs j, nat j := at xs i]"

function scan_up :: "('a \<Rightarrow> 'a \<Rightarrow> int) \<Rightarrow> 'a list \<Rightarrow> int \<Rightarrow> int \<Rightarrow> int \<Rightarrow> int" where
  "scan_up compare xs lo seg1 seg2 =
     (if seg1 < seg2 \<and> compare (at xs lo) (at xs seg1) > 0
      then scan_up compare xs lo (seg1 + 1) seg2 else seg1)"
  by pat_completeness auto
termination
  by (relation "measure (\<lambda>(c, xs, b, s1, s2). nat (s2 - s1))") auto

function scan_down :: "('a \<Rightarrow> 'a \<Rightarrow> int) \<Rightarrow> 'a list \<Rightarrow> int \<Rightarrow> int \<Rightarrow> int \<Rightarrow> int" where
  "scan_down compare xs lo seg1 seg2 =
     (if seg2 \<ge> seg1 \<and> compare (at xs seg2) (at xs lo) > 0
      then scan_down compare xs lo seg1 (seg2 - 1) else seg2)"
  by pat_completeness auto
termination
  by (relation "measure (\<lambda>(c, xs, b, s1, s2). nat (s2 + 1 - s1))") auto

declare scan_up.simps [simp del] scan_down.simps [simp del]

lemma scan_up_bounds: "seg1 \<le> scan_up compare xs lo seg1 seg2 \<and>
    scan_up compare xs lo seg1 seg2 \<le> max seg1 seg2"
  by (induction compare xs lo seg1 seg2 rule: scan_up.induct)
     (subst (1 2) scan_up.simps, fastforce)

lemma scan_down_bounds: "scan_down compare xs lo seg1 seg2 \<le> seg2 \<and>
    min seg2 (seg1 - 1) \<le> scan_down compare xs lo seg1 seg2"
  by (induction compare xs lo seg1 seg2 rule: scan_down.induct)
     (subst (1 2) scan_down.simps, fastforce)

text \<open>The \<open>while (1)\<close> loop: the partitioned array, and where \<open>seg2\<close> stops.\<close>

function partition_loop ::
  "('a \<Rightarrow> 'a \<Rightarrow> int) \<Rightarrow> 'a list \<Rightarrow> int \<Rightarrow> int \<Rightarrow> int \<Rightarrow> 'a list \<times> int" where
  "partition_loop compare xs lo seg1 seg2 =
     (let seg1 = scan_up compare xs lo seg1 seg2;
          seg2 = scan_down compare xs lo seg1 seg2
      in if seg1 \<ge> seg2 then (xs, seg2)
         else partition_loop compare (swap xs seg1 seg2) lo (seg1 + 1) (seg2 - 1))"
  by pat_completeness auto
termination
proof (relation "measure (\<lambda>(c, xs, b, s1, s2). nat (s2 + 1 - s1))", goal_cases)
  case (2 compare xs lo seg1 seg2 s1 s2)
  then show ?case
    using scan_up_bounds [of seg1 compare xs lo seg2]
      scan_down_bounds [of compare xs lo s1 seg2] by auto
qed simp

declare partition_loop.simps [simp del]

lemma partition_loop_bounds:
  "seg1 \<le> seg2 + 1 \<Longrightarrow> seg1 - 1 \<le> snd (partition_loop compare xs lo seg1 seg2) \<and>
     snd (partition_loop compare xs lo seg1 seg2) \<le> seg2"
proof (induction compare xs lo seg1 seg2 rule: partition_loop.induct)
  case (1 compare xs lo seg1 seg2)
  let ?s1 = "scan_up compare xs lo seg1 seg2"
  let ?s2 = "scan_down compare xs lo ?s1 seg2"
  have b: "seg1 \<le> ?s1" "?s1 \<le> max seg1 seg2" "?s2 \<le> seg2" "min seg2 (?s1 - 1) \<le> ?s2"
    using scan_up_bounds [of seg1 compare xs lo seg2]
      scan_down_bounds [of compare xs lo ?s1 seg2] by auto
  show ?case
  proof (cases "?s1 \<ge> ?s2")
    case True
    then show ?thesis using b "1.prems" by (auto simp: partition_loop.simps [of compare xs lo seg1] Let_def)
  next
    case False
    then show ?thesis using b "1.IH" [OF refl refl] by (auto simp: partition_loop.simps [of compare xs lo seg1] Let_def)
  qed
qed

text \<open>
  \<open>pivot_index\<close> is \<open>begin + (offset - (offset % siz))\<close> in elements; \<open>offset\<close> is a
  32-bit \<open>uint\<close>, half the segment's bytes. \<open>split_segment\<close> is the body of
  \<open>while (begin < end)\<close> up to \<open>seg2p = seg2\<close>.
\<close>

definition pivot_index :: "nat \<Rightarrow> int \<Rightarrow> int \<Rightarrow> int" where
  "pivot_index siz lo hi =
     (let offset = (((hi - lo) * int siz) div 2) mod 2 ^ 32
      in lo + (offset - offset mod int siz) div int siz)"

definition split_segment ::
  "('a \<Rightarrow> 'a \<Rightarrow> int) \<Rightarrow> nat \<Rightarrow> 'a list \<Rightarrow> int \<Rightarrow> int \<Rightarrow> 'a list \<times> int" where
  "split_segment compare siz xs lo hi =
     (let xs = swap xs lo (pivot_index siz lo hi);
          (xs, seg2) = partition_loop compare xs lo (lo + 1) hi
      in (swap xs lo seg2, seg2))"

text \<open>
  The two loops as one function: the segment at work, and the pending ones above slot
  \<open>loop = length stack\<close>. The longer half is pushed, the shorter one is next.
\<close>

lemma split_segment_bounds:
  assumes "(ys, m) = split_segment compare siz xs lo hi" and "lo < hi"
  shows "lo \<le> m \<and> m \<le> hi"
proof -
  have "m = snd (partition_loop compare (swap xs lo (pivot_index siz lo hi)) lo (lo + 1) hi)"
    using assms(1) by (simp add: split_segment_def Let_def split: prod.splits)
  then show ?thesis
    using partition_loop_bounds [of "lo + 1" hi compare "swap xs lo (pivot_index siz lo hi)" lo] assms(2)
    by simp
qed

function qsort_loop :: "('a \<Rightarrow> 'a \<Rightarrow> int) \<Rightarrow> nat \<Rightarrow> 'a list \<Rightarrow> int \<Rightarrow> int
    \<Rightarrow> (int \<times> int) list \<Rightarrow> 'a list option" where
  "qsort_loop compare siz xs lo hi stack =
     (if lo < hi then
        (case split_segment compare siz xs lo hi of (xs, seg2p) \<Rightarrow>
           if seg2p - lo \<le> hi - seg2p then
             (if seg2p + 1 < hi then
                (if length stack < QSORT_STACK_SIZE
                 then qsort_loop compare siz xs lo (seg2p - 1) ((seg2p + 1, hi) # stack)
                 else None)
              else qsort_loop compare siz xs lo (seg2p - 1) stack)
           else
             (if seg2p - 1 > lo then
                (if length stack < QSORT_STACK_SIZE
                 then qsort_loop compare siz xs (seg2p + 1) hi ((lo, seg2p - 1) # stack)
                 else None)
              else qsort_loop compare siz xs (seg2p + 1) hi stack))
      else (case stack of [] \<Rightarrow> Some xs
              | (b, e) # rest \<Rightarrow> qsort_loop compare siz xs b e rest))"
  by pat_completeness auto
termination
  by (relation "measures [\<lambda>(c, n, xs, b, e, st). nat (e - b + 1) + (\<Sum>(b, e) \<leftarrow> st. nat (e - b + 1)),
        \<lambda>(c, n, xs, b, e, st). length st]")
     (auto dest!: split_segment_bounds)

declare qsort_loop.simps [simp del]

definition zend_qsort :: "('a \<Rightarrow> 'a \<Rightarrow> int) \<Rightarrow> nat \<Rightarrow> 'a list \<Rightarrow> 'a list option" where
  "zend_qsort compare siz xs = qsort_loop compare siz xs 0 (int (length xs) - 1) []"

end
