(* ===== verification/Zend_Qsort_Correct.thy ===== *)
theory Zend_Qsort_Correct
  imports Zend_Qsort
begin

text \<open>
  Correctness of \<open>zend_qsort\<close>: for every comparison function the array is permuted and the
  explicit stack stays below \<open>QSORT_STACK_SIZE\<close>; for a comparison that is a total preorder on
  the elements the result is sorted.
\<close>

subsection \<open>The byte-level swap\<close>

definition apart_blocks :: "nat \<Rightarrow> nat \<Rightarrow> nat \<Rightarrow> bool" where
  "apart_blocks a b n \<longleftrightarrow> a = b \<or> a + n \<le> b \<or> b + n \<le> a"

lemma swap_block_step:
  assumes "apart_blocks a b (n + k)"
  shows "swap_block (swap_block m a b n) (a + n) (b + n) k = swap_block m a b (n + k)"
proof (cases "a = b")
  case False
  with assms have d: "a + (n + k) \<le> b \<or> b + (n + k) \<le> a" by (simp add: apart_blocks_def)
  show ?thesis
  proof
    fix x
    consider i where "x = b + i" "i < n" | i where "x = b + n + i" "i < k"
      | i where "x = a + i" "i < n" | i where "x = a + n + i" "i < k"
      | "\<not> (b \<le> x \<and> x < b + (n + k))" "\<not> (a \<le> x \<and> x < a + (n + k))"
      by (metis add.assoc add_less_cancel_left le_Suc_ex not_le)
    then show "swap_block (swap_block m a b n) (a + n) (b + n) k x = swap_block m a b (n + k) x"
    proof cases
      case 5
      then have "\<not> (b \<le> x \<and> x < b + n)" "\<not> (a \<le> x \<and> x < a + n)"
        "\<not> (b + n \<le> x \<and> x < b + n + k)" "\<not> (a + n \<le> x \<and> x < a + n + k)" by auto
      with 5 show ?thesis unfolding swap_block_def Let_def by (simp only: if_False)
    qed (use d in \<open>elim disjE; simp add: swap_block_def Let_def add.assoc\<close>)+
  qed
qed (auto simp: swap_block_def Let_def fun_eq_iff)

lemma swap_ints_eq:
  assumes "apart_blocks a b siz" and "m' = swap_block m a b n" and "n \<le> siz"
  shows "\<exists>k. swap_ints m' (a + n) (b + n) (n + 4) siz = (swap_block m a b k, a + k, b + k, k + 4) \<and> k \<le> siz"
  using assms(2,3)
proof (induction "siz - n" arbitrary: n m' rule: less_induct)
  case less
  show ?case
  proof (cases "n + 4 \<le> siz")
    case True
    have "apart_blocks a b (n + 4)" using assms(1) True by (auto simp: apart_blocks_def)
    then have "swap_block m' (a + n) (b + n) 4 = swap_block m a b (n + 4)"
      using less.prems by (simp add: swap_block_step)
    with less.hyps [of "n + 4"] True show ?thesis
      by (simp add: swap_ints.simps [of m' "a + n"] add.assoc)
  next
    case False
    then have "swap_ints m' (a + n) (b + n) (n + 4) siz = (m', a + n, b + n, n + 4)"
      by (simp add: swap_ints.simps [of m' "a + n"])
    then show ?thesis using less.prems by auto
  qed
qed

lemma swap_chars_eq:
  assumes "apart_blocks a b siz" and "m' = swap_block m a b n" and "n \<le> siz"
  shows "swap_chars m' (a + n) (b + n) (n + 1) siz = swap_block m a b siz"
  using assms(2,3)
proof (induction "siz - n" arbitrary: n m' rule: less_induct)
  case less
  show ?case
  proof (cases "n + 1 \<le> siz")
    case True
    have "apart_blocks a b (n + 1)" using assms(1) True by (auto simp: apart_blocks_def)
    then have "swap_block m' (a + n) (b + n) 1 = swap_block m a b (n + 1)"
      using less.prems by (simp only: swap_block_step)
    with less.hyps [of "n + 1"] True show ?thesis
      by (simp add: swap_chars.simps [of m' "a + n"] add.assoc)
  next
    case False
    then have "swap_chars m' (a + n) (b + n) (n + 1) siz = m'"
      by (simp add: swap_chars.simps [of m' "a + n"])
    then show ?thesis using less.prems False by (simp add: le_Suc_eq not_less_eq_eq)
  qed
qed

lemma qsort_swap_exchanges:
  assumes "apart_blocks a b siz"
  shows "zend_qsort_swap m a b siz = swap_block m a b siz"
proof -
  have m: "m = swap_block m a b 0" by (auto simp: swap_block_def Let_def fun_eq_iff)
  obtain k where k: "swap_ints m a b 4 siz = (swap_block m a b k, a + k, b + k, k + 4)" "k \<le> siz"
    using swap_ints_eq [OF assms m, of] by auto
  then show ?thesis
    using swap_chars_eq [OF assms HOL.refl, of k m] by (simp add: zend_qsort_swap_def)
qed

subsection \<open>Rearranging one segment\<close>

text \<open>\<open>ys\<close> is \<open>xs\<close> with the elements of positions \<open>lo..hi\<close> moved around.\<close>

definition moves :: "int \<Rightarrow> int \<Rightarrow> 'a list \<Rightarrow> 'a list \<Rightarrow> bool" where
  "moves lo hi xs ys \<longleftrightarrow> mset ys = mset xs \<and> length ys = length xs \<and>
     (\<forall>j. 0 \<le> j \<longrightarrow> j < int (length xs) \<longrightarrow>
        (if lo \<le> j \<and> j \<le> hi then \<exists>k. lo \<le> k \<and> k \<le> hi \<and> at ys j = at xs k else at ys j = at xs j))"

lemma moves_refl [simp]: "moves lo hi xs xs"
  by (auto simp: moves_def)

lemma moves_inside:
  assumes "moves lo hi xs ys" and "lo \<le> j" and "j \<le> hi" and "0 \<le> lo" and "hi < int (length xs)"
  obtains k where "lo \<le> k" and "k \<le> hi" and "at ys j = at xs k"
proof -
  have "0 \<le> j" "j < int (length xs)" "lo \<le> j \<and> j \<le> hi" using assms by auto
  then have "\<exists>k. lo \<le> k \<and> k \<le> hi \<and> at ys j = at xs k"
    using assms(1) unfolding moves_def by presburger
  then show ?thesis using that by blast
qed

lemma moves_outside:
  "moves lo hi xs ys \<Longrightarrow> 0 \<le> j \<Longrightarrow> j < int (length xs) \<Longrightarrow> j < lo \<or> hi < j \<Longrightarrow> at ys j = at xs j"
  unfolding moves_def by (smt (verit))

lemma moves_source:
  assumes "moves lo hi xs ys" and "0 \<le> j" and "j < int (length xs)"
  shows "\<exists>k. at ys j = at xs k \<and> (if lo \<le> j \<and> j \<le> hi then lo \<le> k \<and> k \<le> hi else k = j)"
  using assms by (auto simp: moves_def dest!: spec [of _ j] split: if_splits)

lemma moves_length: "moves lo hi xs ys \<Longrightarrow> length ys = length xs"
  by (simp add: moves_def)

lemma moves_mset: "moves lo hi xs ys \<Longrightarrow> mset ys = mset xs"
  by (simp add: moves_def)

lemma moves_trans:
  assumes "moves lo hi xs ys" and "moves lo hi ys zs" and "0 \<le> lo" and "hi < int (length xs)"
  shows "moves lo hi xs zs"
proof -
  have "\<exists>k. lo \<le> k \<and> k \<le> hi \<and> at zs j = at xs k" if j: "lo \<le> j" "j \<le> hi" for j
  proof -
    have hi: "hi < int (length ys)" using assms(4) moves_length [OF assms(1)] by simp
    obtain k where k: "lo \<le> k" "k \<le> hi" "at zs j = at ys k"
      by (rule moves_inside [OF assms(2) j assms(3) hi])
    obtain l where "lo \<le> l" "l \<le> hi" "at ys k = at xs l"
      by (rule moves_inside [OF assms(1) k(1,2) assms(3,4)])
    with k show ?thesis by metis
  qed
  then show ?thesis
    using moves_outside [OF assms(1)] moves_outside [OF assms(2)] assms(1,2)
      moves_length [OF assms(1)] moves_mset [OF assms(1)] moves_length [OF assms(2)] moves_mset [OF assms(2)]
    unfolding moves_def [of lo hi xs zs] by auto
qed

lemma moves_mono:
  "moves lo hi xs ys \<Longrightarrow> lo' \<le> lo \<Longrightarrow> hi \<le> hi' \<Longrightarrow> moves lo' hi' xs ys"
  unfolding moves_def by (smt (verit))

lemma length_swap [simp]: "length (swap xs i j) = length xs"
  by (simp add: swap_def)

lemma at_swap:
  assumes "0 \<le> i" "i < int (length xs)" "0 \<le> j" "j < int (length xs)" "0 \<le> k"
  shows "at (swap xs i j) k = (if k = j then at xs i else if k = i then at xs j else at xs k)"
  using assms by (auto simp: swap_def at_def nth_list_update nat_eq_iff)

lemma mset_swap_int:
  assumes "0 \<le> i" "i < int (length xs)" "0 \<le> j" "j < int (length xs)"
  shows "mset (swap xs i j) = mset xs"
  using assms by (simp add: swap_def at_def mset_swap)

lemma moves_swap:
  assumes "0 \<le> lo" "lo \<le> i" "i \<le> hi" "lo \<le> j" "j \<le> hi" "hi < int (length xs)"
  shows "moves lo hi xs (swap xs i j)"
  unfolding moves_def using assms by (auto simp: mset_swap_int at_swap)

lemma pivot_index_bounds:
  assumes "lo < hi" and "0 < siz"
  shows "lo \<le> pivot_index siz lo hi" and "pivot_index siz lo hi \<le> hi"
proof -
  let ?h = "((hi - lo) * int siz) div 2"
  let ?o = "?h mod 2 ^ 32"
  have h: "0 \<le> ?h" using assms by (simp add: pos_imp_zdiv_nonneg_iff)
  have "?o \<le> ?h" using h by (simp add: zmod_le_nonneg_dividend)
  also have "\<dots> \<le> (hi - lo) * int siz" using h by linarith
  finally have o: "?o \<le> (hi - lo) * int siz" .
  have d: "(?o - ?o mod int siz) div int siz = ?o div int siz"
    using assms(2) by (simp only: minus_mod_eq_mult_div) simp
  have "?o div int siz \<le> (hi - lo) * int siz div int siz"
    using o assms by (intro zdiv_mono1) auto
  then have "?o div int siz \<le> hi - lo" using assms by simp
  moreover have "0 \<le> ?o div int siz" using assms by (simp add: pos_imp_zdiv_nonneg_iff)
  ultimately show "lo \<le> pivot_index siz lo hi" and "pivot_index siz lo hi \<le> hi"
    unfolding pivot_index_def Let_def d by simp_all
qed

subsection \<open>The partition\<close>

lemma partition_loop_moves:
  assumes "0 \<le> lo" and "lo < seg1" and "seg1 \<le> seg2 + 1" and "seg2 \<le> hi" and "hi < int (length xs)"
  shows "moves (lo + 1) hi xs (fst (partition_loop compare xs lo seg1 seg2))"
  using assms
proof (induction compare xs lo seg1 seg2 rule: partition_loop.induct)
  case (1 compare xs lo seg1 seg2)
  let ?s1 = "scan_up compare xs lo seg1 seg2"
  let ?s2 = "scan_down compare xs lo ?s1 seg2"
  have b: "seg1 \<le> ?s1" "?s1 \<le> max seg1 seg2" "?s2 \<le> seg2"
    using scan_up_bounds [of seg1 compare xs lo seg2] scan_down_bounds [of compare xs lo ?s1 seg2]
    by auto
  show ?case
  proof (cases "?s1 \<ge> ?s2")
    case True
    then show ?thesis by (simp add: partition_loop.simps [of compare xs lo seg1] Let_def)
  next
    case False
    have "moves (lo + 1) hi xs (swap xs ?s1 ?s2)"
      by (rule moves_swap) (use b False "1.prems" in auto)
    moreover have "moves (lo + 1) hi (swap xs ?s1 ?s2)
        (fst (partition_loop compare (swap xs ?s1 ?s2) lo (?s1 + 1) (?s2 - 1)))"
      by (rule "1.IH" [OF refl refl False]) (use b False "1.prems" in auto)
    ultimately have "moves (lo + 1) hi xs
        (fst (partition_loop compare (swap xs ?s1 ?s2) lo (?s1 + 1) (?s2 - 1)))"
      by (rule moves_trans) (use "1.prems" in auto)
    then show ?thesis using False by (simp add: partition_loop.simps [of compare xs lo seg1] Let_def)
  qed
qed

lemma scan_up_skips:
  "seg1 \<le> k \<Longrightarrow> k < scan_up compare xs lo seg1 seg2 \<Longrightarrow> compare (at xs lo) (at xs k) > 0"
proof (induction compare xs lo seg1 seg2 rule: scan_up.induct)
  case (1 compare xs lo seg1 seg2)
  then show ?case
    by (cases "k = seg1") (auto simp: scan_up.simps [of compare xs lo seg1] split: if_splits)
qed

lemma scan_up_stops:
  "scan_up compare xs lo seg1 seg2 < seg2 \<Longrightarrow>
     \<not> compare (at xs lo) (at xs (scan_up compare xs lo seg1 seg2)) > 0"
proof (induction compare xs lo seg1 seg2 rule: scan_up.induct)
  case (1 compare xs lo seg1 seg2)
  then show ?case by (auto simp: scan_up.simps [of compare xs lo seg1] split: if_splits)
qed

lemma scan_down_skips:
  "scan_down compare xs lo seg1 seg2 < k \<Longrightarrow> k \<le> seg2 \<Longrightarrow> compare (at xs k) (at xs lo) > 0"
proof (induction compare xs lo seg1 seg2 rule: scan_down.induct)
  case (1 compare xs lo seg1 seg2)
  then show ?case
    by (cases "k = seg2") (auto simp: scan_down.simps [of compare xs lo seg1 seg2] split: if_splits)
qed

lemma scan_down_stops:
  "seg1 \<le> scan_down compare xs lo seg1 seg2 \<Longrightarrow>
     \<not> compare (at xs (scan_down compare xs lo seg1 seg2)) (at xs lo) > 0"
proof (induction compare xs lo seg1 seg2 rule: scan_down.induct)
  case (1 compare xs lo seg1 seg2)
  then show ?case by (auto simp: scan_down.simps [of compare xs lo seg1 seg2] split: if_splits)
qed

text \<open>A comparison function as the sort expects it: a total preorder on a set of elements.\<close>

locale compare_order =
  fixes compare :: "'a \<Rightarrow> 'a \<Rightarrow> int" and A :: "'a set"
  assumes total: "a \<in> A \<Longrightarrow> b \<in> A \<Longrightarrow> compare a b > 0 \<Longrightarrow> compare b a \<le> 0"
    and trans: "a \<in> A \<Longrightarrow> b \<in> A \<Longrightarrow> c \<in> A \<Longrightarrow> compare a b \<le> 0 \<Longrightarrow> compare b c \<le> 0
      \<Longrightarrow> compare a c \<le> 0"
begin

lemma refl: "a \<in> A \<Longrightarrow> compare a a \<le> 0"
  using total [of a a] by force

definition partitioned :: "'a list \<Rightarrow> int \<Rightarrow> int \<Rightarrow> int \<Rightarrow> 'a \<Rightarrow> bool" where
  "partitioned xs lo m hi p \<longleftrightarrow>
     (\<forall>k. lo < k \<and> k \<le> m \<longrightarrow> compare (at xs k) p \<le> 0) \<and>
     (\<forall>k. m < k \<and> k \<le> hi \<longrightarrow> compare p (at xs k) \<le> 0)"

lemma at_in: "set xs \<subseteq> A \<Longrightarrow> 0 \<le> k \<Longrightarrow> k < int (length xs) \<Longrightarrow> at xs k \<in> A"
  unfolding at_def by (metis nat_less_iff nth_mem subset_eq)

lemma partition_loop_partitions:
  assumes "0 \<le> lo" and "lo < seg1" and "seg1 \<le> seg2 + 1" and "seg2 \<le> hi" and "hi < int (length xs)"
    and "set xs \<subseteq> A"
    and "\<forall>k. lo < k \<and> k < seg1 \<longrightarrow> compare (at xs k) (at xs lo) \<le> 0"
    and "\<forall>k. seg2 < k \<and> k \<le> hi \<longrightarrow> compare (at xs lo) (at xs k) \<le> 0"
  shows "partitioned (fst (partition_loop compare xs lo seg1 seg2)) lo
    (snd (partition_loop compare xs lo seg1 seg2)) hi (at xs lo)"
  using assms
proof (induction "nat (seg2 + 1 - seg1)" arbitrary: xs seg1 seg2 rule: less_induct)
  case (less seg1 seg2 xs)
  let ?s1 = "scan_up compare xs lo seg1 seg2"
  let ?s2 = "scan_down compare xs lo ?s1 seg2"
  have b: "seg1 \<le> ?s1" "?s1 \<le> max seg1 seg2" "?s2 \<le> seg2" "min seg2 (?s1 - 1) \<le> ?s2"
    using scan_up_bounds [of seg1 compare xs lo seg2] scan_down_bounds [of compare xs lo ?s1 seg2]
    by auto
  have inA: "at xs k \<in> A" if "lo \<le> k" "k \<le> hi" for k
    using that less.prems by (intro at_in) auto
  have below: "compare (at xs k) (at xs lo) \<le> 0" if "lo < k" "k < ?s1" for k
  proof (cases "k < seg1")
    case True then show ?thesis using that less.prems by auto
  next
    case False
    then show ?thesis
      using that b less.prems scan_up_skips [of seg1 k compare xs lo seg2] total inA by force
  qed
  have above: "compare (at xs lo) (at xs k) \<le> 0" if "?s2 < k" "k \<le> hi" for k
  proof (cases "k \<le> seg2")
    case True
    have "lo < k" using that b less.prems by linarith
    then show ?thesis
      using True that b less.prems scan_down_skips [of compare xs lo ?s1 seg2 k] total inA by force
  next
    case False then show ?thesis using that less.prems by auto
  qed
  show ?case
  proof (cases "?s1 \<ge> ?s2")
    case True
    have "compare (at xs k) (at xs lo) \<le> 0" if "lo < k" "k \<le> ?s2" for k
    proof (cases "k < ?s1")
      case False
      then have "?s1 \<le> ?s2" "k = ?s2" using that True by auto
      then show ?thesis using scan_down_stops [of ?s1 compare xs lo seg2] by simp
    qed (use below that in auto)
    then show ?thesis using True above
      by (simp add: partition_loop.simps [of compare xs lo seg1] Let_def partitioned_def)
  next
    case False
    let ?ys = "swap xs ?s1 ?s2"
    have ok: "0 \<le> ?s1" "?s1 < int (length xs)" "0 \<le> ?s2" "?s2 < int (length xs)"
      using False b less.prems by auto
    have lo: "at ?ys lo = at xs lo" using ok False b less.prems by (simp add: at_swap)
    have A: "set ?ys \<subseteq> A"
      using mset_swap_int [OF ok] less.prems by (metis set_mset_mset)
    have s1: "compare (at xs ?s2) (at xs lo) \<le> 0"
      using scan_down_stops [of ?s1 compare xs lo seg2] False by simp
    have s2: "compare (at xs lo) (at xs ?s1) \<le> 0"
      using scan_up_stops [of compare xs lo seg1 seg2] False b by auto
    have "partitioned (fst (partition_loop compare ?ys lo (?s1 + 1) (?s2 - 1))) lo
        (snd (partition_loop compare ?ys lo (?s1 + 1) (?s2 - 1))) hi (at ?ys lo)"
    proof (rule less.hyps)
      show "\<forall>k. lo < k \<and> k < ?s1 + 1 \<longrightarrow> compare (at ?ys k) (at ?ys lo) \<le> 0"
        using below s1 ok False less.prems lo by (auto simp: at_swap)
      show "\<forall>k. ?s2 - 1 < k \<and> k \<le> hi \<longrightarrow> compare (at ?ys lo) (at ?ys k) \<le> 0"
        using above s2 ok False less.prems lo by (auto simp: at_swap)
    qed (use b False less.prems A in auto)
    then show ?thesis using False lo
      by (simp add: partition_loop.simps [of compare xs lo seg1] Let_def)
  qed
qed

lemma split_segment_sorts:
  assumes "(ys, m) = split_segment compare siz xs lo hi" and "0 \<le> lo" and "lo < hi"
    and "hi < int (length xs)" and "0 < siz" and "set xs \<subseteq> A"
  shows "\<forall>i j. lo \<le> i \<and> i < j \<and> j \<le> hi \<and> i \<le> m \<and> m \<le> j \<longrightarrow> compare (at ys i) (at ys j) \<le> 0"
proof -
  let ?xs = "swap xs lo (pivot_index siz lo hi)"
  let ?r = "partition_loop compare ?xs lo (lo + 1) hi"
  let ?p = "at ?xs lo"
  note piv = pivot_index_bounds [OF assms(3,5)]
  have A: "set ?xs \<subseteq> A"
  proof -
    have "mset ?xs = mset xs" by (rule mset_swap_int) (use assms piv in auto)
    then show ?thesis using assms by (metis set_mset_mset)
  qed
  have mv: "moves (lo + 1) hi ?xs (fst ?r)"
    by (rule partition_loop_moves) (use assms in auto)
  have m: "lo \<le> m" "m \<le> hi" using split_segment_bounds [OF assms(1,3)] by auto
  have ys: "ys = swap (fst ?r) lo m" and m_def: "m = snd ?r"
    using assms(1) by (auto simp: split_segment_def Let_def split: prod.splits)
  have "partitioned (fst ?r) lo m hi ?p"
    unfolding m_def by (rule partition_loop_partitions) (use assms A in auto)
  moreover have p: "at (fst ?r) lo = ?p"
    by (rule moves_outside [OF mv]) (use assms in auto)
  moreover have len: "length (fst ?r) = length xs" using mv by (simp add: moves_def)
  moreover have pA: "?p \<in> A" by (rule at_in [OF A]) (use assms in auto)
  ultimately have parts: "\<forall>k. lo \<le> k \<and> k \<le> m \<longrightarrow> compare (at ys k) ?p \<le> 0"
    "\<forall>k. m \<le> k \<and> k \<le> hi \<longrightarrow> compare ?p (at ys k) \<le> 0"
    using refl [of ?p] m assms unfolding ys partitioned_def by (auto simp: at_swap)
  have "at ys m = ?p" unfolding ys using m assms len p by (simp add: at_swap)
  moreover have "set ys \<subseteq> A"
  proof -
    have "mset ys = mset (fst ?r)" unfolding ys by (rule mset_swap_int) (use m assms len in auto)
    then show ?thesis using moves_mset [OF mv] A by (metis set_mset_mset)
  qed
  moreover have "length ys = length xs" using len by (simp add: ys)
  ultimately have inA: "at ys k \<in> A" if "lo \<le> k" "k \<le> hi" for k
    by (intro at_in) (use that assms in auto)
  show ?thesis
  proof (intro allI impI, elim conjE)
    fix i j assume "lo \<le> i" "i < j" "j \<le> hi" "i \<le> m" "m \<le> j"
    then show "compare (at ys i) (at ys j) \<le> 0"
      using trans [OF inA pA inA, of i j] parts by simp
  qed
qed

text \<open>What the pending segments leave to be sorted.\<close>

definition sorted_but :: "'a list \<Rightarrow> (int \<times> int) list \<Rightarrow> bool" where
  "sorted_but xs segs \<longleftrightarrow> (\<forall>i j. 0 \<le> i \<and> i < j \<and> j < int (length xs) \<longrightarrow>
     (\<exists>(b, e) \<in> set segs. b \<le> i \<and> j \<le> e) \<or> compare (at xs i) (at xs j) \<le> 0)"

lemma sorted_but_drop: "sorted_but xs ((b, e) # segs) \<Longrightarrow> e \<le> b \<Longrightarrow> sorted_but xs segs"
  by (fastforce simp: sorted_but_def)

lemma sorted_but_perm: "sorted_but xs segs \<Longrightarrow> set segs = set segs' \<Longrightarrow> sorted_but xs segs'"
  by (simp add: sorted_but_def)

end

fun apart :: "(int \<times> int) list \<Rightarrow> bool" where
  "apart [] = True"
| "apart (x # xs) \<longleftrightarrow> (\<forall>y \<in> set xs. snd x < fst y \<or> snd y < fst x) \<and> apart xs"

context compare_order
begin

lemma sorted_but_split:
  assumes s: "sorted_but xs ((lo, hi) # st)" and a: "apart ((lo, hi) # st)" and mv: "moves lo hi xs ys"
    and r: "0 \<le> lo" "hi < int (length xs)"
    and p: "\<forall>i j. lo \<le> i \<and> i < j \<and> j \<le> hi \<and> i \<le> m \<and> m \<le> j \<longrightarrow> compare (at ys i) (at ys j) \<le> 0"
  shows "sorted_but ys ((lo, m - 1) # (m + 1, hi) # st)"
  unfolding sorted_but_def
proof (intro allI impI, elim conjE)
  fix i j :: int assume ij: "0 \<le> i" "i < j" "j < int (length ys)"
  have len: "length ys = length xs" by (rule moves_length [OF mv])
  let ?in = "\<lambda>k. lo \<le> k \<and> k \<le> hi"
  have keep: "(\<exists>(b, e) \<in> set st. b \<le> i \<and> j \<le> e) \<or> compare (at ys i) (at ys j) \<le> 0"
    if "\<not> (?in i \<and> ?in j)"
  proof -
    obtain k where k: "at ys i = at xs k" "if ?in i then ?in k else k = i"
      using moves_source [OF mv, of i] ij len by auto
    obtain l where l: "at ys j = at xs l" "if ?in j then ?in l else l = j"
      using moves_source [OF mv, of j] ij len by auto
    have kl: "0 \<le> k" "k < l" "l < int (length xs)" using k l that ij r len by (auto split: if_splits)
    show ?thesis
    proof (cases "\<exists>(b, e) \<in> set st. b \<le> k \<and> l \<le> e")
      case True
      then have "\<exists>(b, e) \<in> set st. b \<le> i \<and> j \<le> e" using a k l that ij by (fastforce split: if_splits)
      then show ?thesis ..
    next
      case False
      moreover have "\<not> (lo \<le> k \<and> l \<le> hi)" using k l that ij by (auto split: if_splits)
      ultimately have "compare (at xs k) (at xs l) \<le> 0"
        using s [unfolded sorted_but_def, rule_format, of k l] kl by auto
      then show ?thesis using k l by simp
    qed
  qed
  show "(\<exists>(b, e) \<in> set ((lo, m - 1) # (m + 1, hi) # st). b \<le> i \<and> j \<le> e) \<or>
      compare (at ys i) (at ys j) \<le> 0"
  proof (cases "?in i \<and> ?in j")
    case True
    then show ?thesis using p ij by (cases "j < m"; cases "m < i"; auto)
  next
    case False
    then show ?thesis using keep by auto
  qed
qed

end

subsection \<open>The whole sort\<close>

lemma split_segment_moves:
  assumes "(ys, m) = split_segment compare siz xs lo hi" and "0 \<le> lo" and "lo < hi"
    and "hi < int (length xs)" and "0 < siz"
  shows "moves lo hi xs ys"
proof -
  let ?xs = "swap xs lo (pivot_index siz lo hi)"
  let ?r = "partition_loop compare ?xs lo (lo + 1) hi"
  have m: "lo \<le> m" "m \<le> hi" using split_segment_bounds [OF assms(1,3)] by auto
  have ys: "ys = swap (fst ?r) lo m"
    using assms(1) by (auto simp: split_segment_def Let_def split: prod.splits)
  have 1: "moves lo hi xs ?xs"
    by (rule moves_swap) (use assms pivot_index_bounds [OF assms(3,5)] in auto)
  have 2: "moves lo hi ?xs (fst ?r)"
    by (rule moves_mono [OF partition_loop_moves]) (use assms in auto)
  have 3: "moves lo hi (fst ?r) ys"
    unfolding ys by (rule moves_swap) (use m assms moves_length [OF 2] in auto)
  show ?thesis
    by (rule moves_trans [OF moves_trans [OF 1 2] 3]) (use assms in auto)
qed

text \<open>A segment waiting above \<open>d\<close> others is at most \<open>2 ^ d\<close> times shorter than the array.\<close>

fun depth_ok :: "nat \<Rightarrow> (int \<times> int) list \<Rightarrow> bool" where
  "depth_ok n [] = True"
| "depth_ok n ((b, e) # st) \<longleftrightarrow> nat (e - b + 1) * 2 ^ length st \<le> n \<and> depth_ok n st"

definition in_range :: "nat \<Rightarrow> (int \<times> int) list \<Rightarrow> bool" where
  "in_range n segs \<longleftrightarrow> (\<forall>(b, e) \<in> set segs. 0 \<le> b \<and> e < int n)"

lemma qsort_loop_total:
  assumes "0 < siz" and "N < 2 ^ 64" and "in_range (length xs) ((lo, hi) # st)"
    and "depth_ok N ((lo, hi) # st)"
  shows "\<exists>ys. qsort_loop compare siz xs lo hi st = Some ys \<and> mset ys = mset xs"
  using assms
proof (induction compare siz xs lo hi st rule: qsort_loop.induct)
  case (1 compare siz xs lo hi st)
  show ?case
  proof (cases "lo < hi")
    case False
    show ?thesis
    proof (cases st)
      case Nil
      with False show ?thesis by (simp add: qsort_loop.simps [of compare siz xs lo hi])
    next
      case (Cons be rest)
      obtain b e where "be = (b, e)" by (cases be)
      with 1 False Cons show ?thesis
        by (simp add: qsort_loop.simps [of compare siz xs lo hi] in_range_def)
    qed
  next
    case True
    obtain ys m where sp: "(ys, m) = split_segment compare siz xs lo hi" by (metis surj_pair)
    have r: "0 \<le> lo" "hi < int (length xs)" using "1.prems" by (auto simp: in_range_def)
    have m: "lo \<le> m" "m \<le> hi" using split_segment_bounds [OF sp True] by auto
    have mv: "moves lo hi xs ys"
      by (rule split_segment_moves [OF sp]) (use r True "1.prems" in auto)
    note len = moves_length [OF mv] and ms = moves_mset [OF mv]
    have N: "nat (hi - lo + 1) * 2 ^ length st \<le> N" using "1.prems" by simp
    have K: "nat k * 2 ^ length st \<le> N" if "k \<le> hi - lo + 1" for k
      by (rule order_trans [OF mult_right_mono [OF nat_mono [OF that]] N]) simp
    have K2: "nat k * 2 ^ Suc (length st) \<le> N" if "2 * k \<le> hi - lo + 1" for k
      using K [OF that] by (simp add: nat_mult_distrib)
    have d: "length st < QSORT_STACK_SIZE"
    proof -
      have "2 * 2 ^ length st \<le> nat (hi - lo + 1) * 2 ^ length st"
        using True by (intro mult_right_mono) linarith+
      then have "2 ^ Suc (length st) \<le> N" unfolding power_Suc using N by (rule order_trans)
      then have "(2::nat) ^ Suc (length st) < 2 ^ 64" using "1.prems"(2) by (rule le_less_trans)
      then show ?thesis unfolding QSORT_STACK_SIZE_def by (simp only: power_strict_increasing_iff)
    qed
    consider (rightbig) "m - lo \<le> hi - m" "m + 1 < hi" | (right) "m - lo \<le> hi - m" "\<not> m + 1 < hi"
      | (leftbig) "\<not> m - lo \<le> hi - m" "m - 1 > lo" | (left) "\<not> m - lo \<le> hi - m" "\<not> m - 1 > lo"
      by linarith
    then show ?thesis
    proof cases
      case rightbig
      have "\<exists>zs. qsort_loop compare siz ys lo (m - 1) ((m + 1, hi) # st) = Some zs \<and> mset zs = mset ys"
        by (rule "1.IH"(1) [OF True sp rightbig d])
           (use "1.prems" r m len rightbig in \<open>auto simp: in_range_def K K2 simp del: power_Suc\<close>)
      then show ?thesis using True rightbig d ms sp [symmetric]
        by (simp add: qsort_loop.simps [of compare siz xs lo hi])
    next
      case right
      have "\<exists>zs. qsort_loop compare siz ys lo (m - 1) st = Some zs \<and> mset zs = mset ys"
        by (rule "1.IH"(2) [OF True sp right])
           (use "1.prems" r m len right in \<open>auto simp: in_range_def K\<close>)
      then show ?thesis using True right d ms sp [symmetric]
        by (simp add: qsort_loop.simps [of compare siz xs lo hi])
    next
      case leftbig
      have "\<exists>zs. qsort_loop compare siz ys (m + 1) hi ((lo, m - 1) # st) = Some zs \<and> mset zs = mset ys"
        by (rule "1.IH"(3) [OF True sp leftbig d])
           (use "1.prems" r m len leftbig in \<open>auto simp: in_range_def K K2 simp del: power_Suc\<close>)
      then show ?thesis using True leftbig d ms sp [symmetric]
        by (simp add: qsort_loop.simps [of compare siz xs lo hi])
    next
      case left
      have "\<exists>zs. qsort_loop compare siz ys (m + 1) hi st = Some zs \<and> mset zs = mset ys"
        by (rule "1.IH"(4) [OF True sp left])
           (use "1.prems" r m len left in \<open>auto simp: in_range_def K\<close>)
      then show ?thesis using True left d ms sp [symmetric]
        by (simp add: qsort_loop.simps [of compare siz xs lo hi])
    qed
  qed
qed

context compare_order
begin

lemma qsort_loop_sorts:
  assumes "0 < siz" and "in_range (length xs) ((lo, hi) # st)" and "apart ((lo, hi) # st)"
    and "set xs \<subseteq> A" and "sorted_but xs ((lo, hi) # st)"
    and "qsort_loop compare siz xs lo hi st = Some ys"
  shows "sorted_but ys []"
  using assms
proof (induction "2 * nat (hi - lo + 1) + 2 * (\<Sum>(b, e) \<leftarrow> st. nat (e - b + 1)) + length st"
    arbitrary: xs lo hi st rule: less_induct)
  case (less lo hi st xs)
  show ?case
  proof (cases "lo < hi")
    case False
    have s: "sorted_but xs st" using less.prems(5) False by (auto intro: sorted_but_drop)
    show ?thesis
    proof (cases st)
      case Nil
      with s False less.prems(6) show ?thesis by (simp add: qsort_loop.simps [of compare siz xs lo hi])
    next
      case (Cons be rest)
      obtain b e where be: "be = (b, e)" by (cases be)
      show ?thesis
        by (rule less.hyps [of e b rest xs])
           (use be Cons s False less.prems in
             \<open>auto simp: qsort_loop.simps [of compare siz xs lo hi] in_range_def\<close>)
    qed
  next
    case True
    obtain ys' m where sp: "(ys', m) = split_segment compare siz xs lo hi" by (metis surj_pair)
    have r: "0 \<le> lo" "hi < int (length xs)" using less.prems by (auto simp: in_range_def)
    have m: "lo \<le> m" "m \<le> hi" using split_segment_bounds [OF sp True] by auto
    have mv: "moves lo hi xs ys'"
      by (rule split_segment_moves [OF sp]) (use r True less.prems in auto)
    note len = moves_length [OF mv]
    have A: "set ys' \<subseteq> A" using moves_mset [OF mv] less.prems(4) by (metis set_mset_mset)
    have sb: "sorted_but ys' ((lo, m - 1) # (m + 1, hi) # st)"
      by (rule sorted_but_split [OF less.prems(5,3) mv r split_segment_sorts [OF sp r(1) True r(2)]])
         (use less.prems in auto)
    have ap: "apart ((lo, m - 1) # (m + 1, hi) # st)" using less.prems(3) m by auto
    have rg: "in_range (length ys') ((lo, m - 1) # (m + 1, hi) # st)"
      using less.prems(2) m len by (auto simp: in_range_def)
    note step = less.prems(6) [unfolded qsort_loop.simps [of compare siz xs lo hi]]
    let ?w = "nat (hi - lo + 1)"
    have w: "nat (m - lo) + nat (hi - m) < ?w" "nat (m - lo) + nat (hi - m) + 1 \<le> ?w" using m True by auto
    consider (rightbig) "m - lo \<le> hi - m" "m + 1 < hi" | (right) "m - lo \<le> hi - m" "\<not> m + 1 < hi"
      | (leftbig) "\<not> m - lo \<le> hi - m" "m - 1 > lo" | (left) "\<not> m - lo \<le> hi - m" "\<not> m - 1 > lo"
      by linarith
    then show ?thesis
    proof cases
      case rightbig
      show ?thesis
        by (rule less.hyps [of "m - 1" lo "(m + 1, hi) # st" ys'])
           (use True rightbig step sp [symmetric] A sb ap rg w less.prems in \<open>auto split: if_splits\<close>)
    next
      case right
      have "sorted_but ys' ((lo, m - 1) # st)"
        by (rule sorted_but_drop [of _ "m + 1" hi], rule sorted_but_perm [OF sb]) (use right in auto)
      then show ?thesis
        by (intro less.hyps [of "m - 1" lo st ys'])
           (use True right step sp [symmetric] A ap rg w less.prems in \<open>auto simp: in_range_def split: if_splits\<close>)
    next
      case leftbig
      have "sorted_but ys' ((m + 1, hi) # (lo, m - 1) # st)"
        by (rule sorted_but_perm [OF sb]) auto
      then show ?thesis
        by (intro less.hyps [of hi "m + 1" "(lo, m - 1) # st" ys'])
           (use True leftbig step sp [symmetric] A ap rg w less.prems in \<open>auto simp: in_range_def split: if_splits\<close>)
    next
      case left
      have "sorted_but ys' ((m + 1, hi) # st)"
        by (rule sorted_but_drop [of _ lo "m - 1"], rule sorted_but_perm [OF sb]) (use left in auto)
      then show ?thesis
        by (intro less.hyps [of hi "m + 1" st ys'])
           (use True left step sp [symmetric] A ap rg w less.prems in \<open>auto simp: in_range_def split: if_splits\<close>)
    qed
  qed
qed

lemma qsort_sorted:
  assumes "0 < siz" and "set xs \<subseteq> A" and "zend_qsort compare siz xs = Some ys"
  shows "sorted_wrt (\<lambda>a b. compare a b \<le> 0) ys"
proof -
  have "sorted_but ys []"
    by (rule qsort_loop_sorts [OF assms(1) _ _ assms(2) _ assms(3) [unfolded zend_qsort_def]])
       (auto simp: in_range_def sorted_but_def)
  then have s: "compare (at ys i) (at ys j) \<le> 0" if "0 \<le> i" "i < j" "j < int (length ys)" for i j
    using that by (simp add: sorted_but_def)
  show ?thesis
    unfolding sorted_wrt_iff_nth_less
  proof (intro allI impI)
    fix i j assume "i < j" "j < length ys"
    then show "compare (ys ! i) (ys ! j) \<le> 0" using s [of "int i" "int j"] by (simp add: at_def)
  qed
qed

end

lemma zend_qsort_total:
  assumes "0 < siz" and "length xs < 2 ^ 64"
  shows "\<exists>ys. zend_qsort compare siz xs = Some ys \<and> mset ys = mset xs"
  unfolding zend_qsort_def
  by (rule qsort_loop_total [OF assms]) (simp_all add: in_range_def)

subsection \<open>Properties\<close>

text \<open>
  C8: for a comparison function that is a total preorder on the elements, \<open>zend_qsort\<close> returns,
  without overflowing its stack of pending segments, a permutation of the array that is sorted.
\<close>

theorem zend_qsort_sorts:
  assumes "0 < siz" and "length xs < 2 ^ 64"
    and "\<And>a b. a \<in> set xs \<Longrightarrow> b \<in> set xs \<Longrightarrow> compare a b > 0 \<Longrightarrow> compare b a \<le> 0"
    and "\<And>a b c. a \<in> set xs \<Longrightarrow> b \<in> set xs \<Longrightarrow> c \<in> set xs \<Longrightarrow> compare a b \<le> 0 \<Longrightarrow> compare b c \<le> 0
      \<Longrightarrow> compare a c \<le> 0"
  shows "\<exists>ys. zend_qsort compare siz xs = Some ys \<and> mset ys = mset xs \<and>
    sorted_wrt (\<lambda>a b. compare a b \<le> 0) ys"
proof -
  obtain ys where ys: "zend_qsort compare siz xs = Some ys" "mset ys = mset xs"
    using zend_qsort_total [OF assms(1,2)] by blast
  have "compare_order compare (set xs)"
    by (rule compare_order.intro) (fact assms)+
  then show ?thesis using compare_order.qsort_sorted [OF _ assms(1) subset_refl ys(1)] ys by blast
qed

lemma zend_qsort_sorts_witness:
  "\<exists>ys. zend_qsort (\<lambda>a b. a - b) 4 [3, 1, 2 :: int] = Some ys \<and> mset ys = mset [3, 1, 2] \<and>
    sorted_wrt (\<lambda>a b. a - b \<le> 0) ys"
  by (rule zend_qsort_sorts) auto

text \<open>
  C27: whatever the comparison function answers, consistent or not, \<open>zend_qsort\<close> ends, its 64
  entries of pending segments are enough, and the array is permuted.
\<close>

theorem zend_qsort_never_overflows:
  assumes "0 < siz" and "length xs < 2 ^ 64"
  shows "\<exists>ys. zend_qsort compare siz xs = Some ys \<and> mset ys = mset xs"
  using assms by (rule zend_qsort_total)

lemma zend_qsort_never_overflows_witness:
  "\<exists>ys. zend_qsort (\<lambda>_ _. 1) 8 [True, False, True] = Some ys \<and> mset ys = mset [True, False, True]"
  by (rule zend_qsort_never_overflows) auto

text \<open>
  The byte-wise swap of two elements, four bytes at a time and then one at a time, exchanges
  exactly their \<open>siz\<close> bytes, for elements that are the same or do not overlap.
\<close>

theorem zend_qsort_swap_exchanges_elements:
  assumes "a = b \<or> a + siz \<le> b \<or> b + siz \<le> a"
  shows "zend_qsort_swap m a b siz k =
    (if a \<le> k \<and> k < a + siz then m (b + (k - a))
     else if b \<le> k \<and> k < b + siz then m (a + (k - b)) else m k)"
  using qsort_swap_exchanges [of a b siz m] assms
  by (auto simp: apart_blocks_def swap_block_def)

lemma zend_qsort_swap_exchanges_elements_witness:
  "zend_qsort_swap (\<lambda>k. of_nat k) 0 7 7 3 = 10 \<and> zend_qsort_swap (\<lambda>k. of_nat k) 0 7 7 9 = 2"
  using zend_qsort_swap_exchanges_elements [of 0 7 7 "\<lambda>k. of_nat k" 3]
    zend_qsort_swap_exchanges_elements [of 0 7 7 "\<lambda>k. of_nat k" 9] by simp

end
