(* ===== verification/Zend_Llist.thy ===== *)
theory Zend_Llist
  imports Dll Zend_Qsort_Correct
begin

text \<open>
  \<open>Zend/zend_llist.c\<close>: the doubly linked list of the engine, pointer by pointer. A list owns
  the arena its elements are allocated from; \<open>destroyed\<close> records, in order, the data the list's
  destructor was called on (\<open>dtor\<close> says whether there is one). \<open>data\<close> is the element's
  copied bytes, a value of type \<open>'d\<close>. \<open>count\<close> is a \<open>size_t\<close>.
\<close>

record 'd llist_element =
  next_el :: ptr
  prev_el :: ptr
  data_el :: 'd

record 'd zend_llist = "'d llist_element arena" +
  head_el :: ptr
  tail_el :: ptr
  count_el :: ulong
  size_el :: nat
  dtor :: bool
  persistent :: bool
  traverse_ptr :: ptr
  destroyed :: "'d list"

text \<open>\<open>zend_llist_init\<close> leaves \<open>traverse_ptr\<close> as it was, and allocates nothing.\<close>

definition zend_llist_init :: "nat \<Rightarrow> bool \<Rightarrow> bool \<Rightarrow> 'd zend_llist \<Rightarrow> 'd zend_llist" where
  "zend_llist_init sz dt pers l =
     l\<lparr>head_el := None, tail_el := None, count_el := 0, size_el := sz, dtor := dt, persistent := pers\<rparr>"

definition zend_llist_add_element :: "'d \<Rightarrow> 'd zend_llist \<Rightarrow> 'd zend_llist option" where
  "zend_llist_add_element element l =
     (let (tmp, l) = emalloc \<lparr>next_el = None, prev_el = tail_el l, data_el = element\<rparr> l in
      do {
        l \<leftarrow> (if tail_el l \<noteq> None then poke (next_el_update (\<lambda>_. Some tmp)) (tail_el l) l
             else Some (l\<lparr>head_el := Some tmp\<rparr>));
        Some (l\<lparr>tail_el := Some tmp, count_el := count_el l + 1\<rparr>)
      })"

definition zend_llist_prepend_element :: "'d \<Rightarrow> 'd zend_llist \<Rightarrow> 'd zend_llist option" where
  "zend_llist_prepend_element element l =
     (let (tmp, l) = emalloc \<lparr>next_el = head_el l, prev_el = None, data_el = element\<rparr> l in
      do {
        l \<leftarrow> (if head_el l \<noteq> None then poke (prev_el_update (\<lambda>_. Some tmp)) (head_el l) l
             else Some (l\<lparr>tail_el := Some tmp\<rparr>));
        Some (l\<lparr>head_el := Some tmp, count_el := count_el l + 1\<rparr>)
      })"

definition call_dtor :: "'d \<Rightarrow> 'd zend_llist \<Rightarrow> 'd zend_llist" where
  "call_dtor d l = (if dtor l then l\<lparr>destroyed := destroyed l @ [d]\<rparr> else l)"

text \<open>The macro \<open>DEL_LLIST_ELEMENT(current, l)\<close>.\<close>

definition del_llist_element :: "ptr \<Rightarrow> 'd zend_llist \<Rightarrow> 'd zend_llist option" where
  "del_llist_element current l = do {
     c \<leftarrow> deref l current;
     l \<leftarrow> (if prev_el c \<noteq> None then poke (next_el_update (\<lambda>_. next_el c)) (prev_el c) l
          else Some (l\<lparr>head_el := next_el c\<rparr>));
     l \<leftarrow> (if next_el c \<noteq> None then poke (prev_el_update (\<lambda>_. prev_el c)) (next_el c) l
          else Some (l\<lparr>tail_el := prev_el c\<rparr>));
     l \<leftarrow> efree current (call_dtor (data_el c) l);
     Some (l\<lparr>count_el := count_el l - 1\<rparr>)
   }"

partial_function (option) del_element_loop ::
  "('d \<Rightarrow> bool) \<Rightarrow> ptr \<Rightarrow> 'd zend_llist \<Rightarrow> 'd zend_llist option" where
  "del_element_loop matches current l =
     (if current = None then Some l
      else do {
        c \<leftarrow> deref l current;
        if matches (data_el c) then del_llist_element current l
        else del_element_loop matches (next_el c) l
      })"

definition zend_llist_del_element ::
  "'e \<Rightarrow> ('d \<Rightarrow> 'e \<Rightarrow> bool) \<Rightarrow> 'd zend_llist \<Rightarrow> 'd zend_llist option" where
  "zend_llist_del_element element compare l =
     del_element_loop (\<lambda>d. compare d element) (head_el l) l"

partial_function (option) destroy_loop :: "ptr \<Rightarrow> 'd zend_llist \<Rightarrow> 'd zend_llist option" where
  "destroy_loop current l =
     (if current = None then Some l
      else do {
        c \<leftarrow> deref l current;
        l \<leftarrow> efree current (call_dtor (data_el c) l);
        destroy_loop (next_el c) l
      })"

text \<open>\<open>zend_llist_destroy\<close> frees every element but leaves \<open>head\<close> and \<open>tail\<close> dangling.\<close>

definition zend_llist_destroy :: "'d zend_llist \<Rightarrow> 'd zend_llist option" where
  "zend_llist_destroy l = do {
     l \<leftarrow> destroy_loop (head_el l) l;
     Some (l\<lparr>count_el := 0\<rparr>)
   }"

definition zend_llist_clean :: "'d zend_llist \<Rightarrow> 'd zend_llist option" where
  "zend_llist_clean l = do {
     l \<leftarrow> zend_llist_destroy l;
     Some (l\<lparr>head_el := None, tail_el := None\<rparr>)
   }"

text \<open>
  \<open>zend_llist_remove_tail\<close> returns the address of the old tail's data, that is, of the element
  it lies in: \<open>data\<close> is a part of the element that is freed just before.
\<close>

definition zend_llist_remove_tail :: "'d zend_llist \<Rightarrow> (ptr \<times> 'd zend_llist) option" where
  "zend_llist_remove_tail l =
     (case tail_el l of
        None \<Rightarrow> Some (None, l)
      | Some old_tail \<Rightarrow> do {
          c \<leftarrow> deref l (Some old_tail);
          l \<leftarrow> (if prev_el c \<noteq> None then poke (next_el_update (\<lambda>_. None)) (prev_el c) l
               else Some (l\<lparr>head_el := None\<rparr>));
          l \<leftarrow> efree (Some old_tail) (call_dtor (data_el c) (l\<lparr>tail_el := prev_el c\<rparr>));
          Some (Some old_tail, l\<lparr>count_el := count_el l - 1\<rparr>)
        })"

partial_function (option) copy_loop ::
  "'d zend_llist \<Rightarrow> ptr \<Rightarrow> 'd zend_llist \<Rightarrow> 'd zend_llist option" where
  "copy_loop src p dst =
     (if p = None then Some dst
      else do {
        c \<leftarrow> deref src p;
        dst \<leftarrow> zend_llist_add_element (data_el c) dst;
        copy_loop src (next_el c) dst
      })"

definition zend_llist_copy :: "'d zend_llist \<Rightarrow> 'd zend_llist \<Rightarrow> 'd zend_llist option" where
  "zend_llist_copy dst src =
     copy_loop src (head_el src) (zend_llist_init (size_el src) (dtor src) (persistent src) dst)"

partial_function (option) apply_with_del_loop ::
  "('d \<Rightarrow> bool) \<Rightarrow> ptr \<Rightarrow> 'd zend_llist \<Rightarrow> 'd zend_llist option" where
  "apply_with_del_loop func element l =
     (if element = None then Some l
      else do {
        c \<leftarrow> deref l element;
        l \<leftarrow> (if func (data_el c) then del_llist_element element l else Some l);
        apply_with_del_loop func (next_el c) l
      })"

definition zend_llist_apply_with_del :: "('d \<Rightarrow> bool) \<Rightarrow> 'd zend_llist \<Rightarrow> 'd zend_llist option" where
  "zend_llist_apply_with_del func l = apply_with_del_loop func (head_el l) l"

text \<open>
  \<open>zend_llist_apply\<close>: \<open>func\<close> may change the data in place and the caller's own state \<open>'s\<close>.
  The two variants with arguments differ in what they hand to \<open>func\<close> beside the data.
\<close>

partial_function (option) apply_loop ::
  "('d \<Rightarrow> 's \<Rightarrow> 'd \<times> 's) \<Rightarrow> ptr \<Rightarrow> 'd zend_llist \<Rightarrow> 's \<Rightarrow> ('d zend_llist \<times> 's) option" where
  "apply_loop func element l st =
     (if element = None then Some (l, st)
      else do {
        c \<leftarrow> deref l element;
        let (d, st) = func (data_el c) st;
        l \<leftarrow> poke (data_el_update (\<lambda>_. d)) element l;
        c \<leftarrow> deref l element;
        apply_loop func (next_el c) l st
      })"

definition zend_llist_apply ::
  "('d \<Rightarrow> 's \<Rightarrow> 'd \<times> 's) \<Rightarrow> 'd zend_llist \<Rightarrow> 's \<Rightarrow> ('d zend_llist \<times> 's) option" where
  "zend_llist_apply func l st = apply_loop func (head_el l) l st"

definition zend_llist_apply_with_argument ::
  "('d \<Rightarrow> 'a \<Rightarrow> 's \<Rightarrow> 'd \<times> 's) \<Rightarrow> 'a \<Rightarrow> 'd zend_llist \<Rightarrow> 's \<Rightarrow> ('d zend_llist \<times> 's) option" where
  "zend_llist_apply_with_argument func arg l st = apply_loop (\<lambda>d. func d arg) (head_el l) l st"

definition zend_llist_apply_with_arguments ::
  "('d \<Rightarrow> nat \<Rightarrow> 'a list \<Rightarrow> 's \<Rightarrow> 'd \<times> 's) \<Rightarrow> 'a list \<Rightarrow> 'd zend_llist \<Rightarrow> 's \<Rightarrow> ('d zend_llist \<times> 's) option" where
  "zend_llist_apply_with_arguments func args l st =
     apply_loop (\<lambda>d. func d (length args) args) (head_el l) l st"

subsection \<open>Sorting\<close>

partial_function (option) collect_loop :: "'d zend_llist \<Rightarrow> ptr \<Rightarrow> (nat \<times> 'd) list option" where
  "collect_loop l element =
     (case element of None \<Rightarrow> Some []
      | Some a \<Rightarrow> do {
          c \<leftarrow> deref l element;
          rest \<leftarrow> collect_loop l (next_el c);
          Some ((a, data_el c) # rest)
        })"

text \<open>The \<open>for (i = 1; i < l->count; i++)\<close> loop that links \<open>elements[i-1]\<close> and \<open>elements[i]\<close>.\<close>

fun relink_loop :: "nat \<Rightarrow> nat list \<Rightarrow> 'd zend_llist \<Rightarrow> 'd zend_llist option" where
  "relink_loop a [] l = do {
     l \<leftarrow> poke (next_el_update (\<lambda>_. None)) (Some a) l;
     Some (l\<lparr>tail_el := Some a\<rparr>)
   }"
| "relink_loop a (b # bs) l = do {
     l \<leftarrow> poke (prev_el_update (\<lambda>_. Some a)) (Some b) l;
     l \<leftarrow> poke (next_el_update (\<lambda>_. Some b)) (Some a) l;
     relink_loop b bs l
   }"

text \<open>\<open>comp_func\<close> compares two elements by their data; the array holds pointers, eight bytes each.\<close>

definition zend_llist_sort :: "('d \<Rightarrow> 'd \<Rightarrow> int) \<Rightarrow> 'd zend_llist \<Rightarrow> 'd zend_llist option" where
  "zend_llist_sort comp_func l =
     (if count_el l = 0 then Some l
      else do {
        elements \<leftarrow> collect_loop l (head_el l);
        sorted \<leftarrow> zend_qsort (\<lambda>x y. comp_func (snd x) (snd y)) 8 elements;
        (case map fst sorted of
           [] \<Rightarrow> None
         | a # as \<Rightarrow> do {
             l \<leftarrow> poke (prev_el_update (\<lambda>_. None)) (Some a) (l\<lparr>head_el := Some a\<rparr>);
             relink_loop a as l
           })
      })"

subsection \<open>Traversal\<close>

text \<open>
  The position is \<open>l->traverse_ptr\<close>, or the caller's own when \<open>pos\<close> is given. Each function
  returns the data (\<open>None\<close> is the \<open>NULL\<close> it returns at the ends), the caller's position and
  the list.
\<close>

definition put_pos :: "ptr option \<Rightarrow> ptr \<Rightarrow> 'd zend_llist \<Rightarrow> ptr option \<times> 'd zend_llist" where
  "put_pos pos p l = (case pos of None \<Rightarrow> (None, l\<lparr>traverse_ptr := p\<rparr>) | Some _ \<Rightarrow> (Some p, l))"

definition get_pos :: "ptr option \<Rightarrow> 'd zend_llist \<Rightarrow> ptr" where
  "get_pos pos l = (case pos of None \<Rightarrow> traverse_ptr l | Some p \<Rightarrow> p)"

definition data_or_null :: "'d zend_llist \<Rightarrow> ptr \<Rightarrow> 'd option option" where
  "data_or_null l p = (if p = None then Some None else do { c \<leftarrow> deref l p; Some (Some (data_el c)) })"

definition zend_llist_get_first_ex ::
  "'d zend_llist \<Rightarrow> ptr option \<Rightarrow> ('d option \<times> ptr option \<times> 'd zend_llist) option" where
  "zend_llist_get_first_ex l pos = do {
     d \<leftarrow> data_or_null l (head_el l);
     Some (d, put_pos pos (head_el l) l)
   }"

definition zend_llist_get_last_ex ::
  "'d zend_llist \<Rightarrow> ptr option \<Rightarrow> ('d option \<times> ptr option \<times> 'd zend_llist) option" where
  "zend_llist_get_last_ex l pos = do {
     d \<leftarrow> data_or_null l (tail_el l);
     Some (d, put_pos pos (tail_el l) l)
   }"

definition zend_llist_get_next_ex ::
  "'d zend_llist \<Rightarrow> ptr option \<Rightarrow> ('d option \<times> ptr option \<times> 'd zend_llist) option" where
  "zend_llist_get_next_ex l pos =
     (let current = get_pos pos l in
      if current = None then Some (None, pos, l)
      else do {
        c \<leftarrow> deref l current;
        d \<leftarrow> data_or_null l (next_el c);
        Some (d, put_pos pos (next_el c) l)
      })"

definition zend_llist_get_prev_ex ::
  "'d zend_llist \<Rightarrow> ptr option \<Rightarrow> ('d option \<times> ptr option \<times> 'd zend_llist) option" where
  "zend_llist_get_prev_ex l pos =
     (let current = get_pos pos l in
      if current = None then Some (None, pos, l)
      else do {
        c \<leftarrow> deref l current;
        d \<leftarrow> data_or_null l (prev_el c);
        Some (d, put_pos pos (prev_el c) l)
      })"

text \<open>\<open>int zend_llist_count\<close> cuts the \<open>size_t\<close> down to an \<open>int\<close>.\<close>

definition zend_llist_count :: "'d zend_llist \<Rightarrow> int" where
  "zend_llist_count l = sint (ucast (count_el l) :: 32 word)"

end
