(* ===== verification/Zend_Llist_Correct.thy ===== *)
theory Zend_Llist_Correct
  imports Zend_Llist Lifo
begin

text \<open>
  Correctness of \<open>zend_llist\<close>: a well-formed list represents a HOL list of data, every operation
  keeps it well formed, touches live elements only, ends, and does to the represented list what
  its name says.
\<close>

definition lnx :: "'d zend_llist \<Rightarrow> nat \<Rightarrow> ptr" where
  "lnx l a = Option.bind (cells l a) next_el"

definition lpv :: "'d zend_llist \<Rightarrow> nat \<Rightarrow> ptr" where
  "lpv l a = Option.bind (cells l a) prev_el"

definition ldata :: "'d zend_llist \<Rightarrow> nat \<Rightarrow> 'd option" where
  "ldata l a = map_option data_el (cells l a)"

definition llist_ok :: "'d zend_llist \<Rightarrow> nat list \<Rightarrow> bool" where
  "llist_ok l xs \<longleftrightarrow> arena_ok l \<and> dll (lnx l) (lpv l) (head_el l) (tail_el l) xs \<and>
     dom (cells l) = set xs \<and> count_el l = of_nat (length xs)"

text \<open>\<open>llist_rep l ds\<close>: the list holds the data \<open>ds\<close> in this order, and nothing else is allocated.\<close>

definition llist_rep :: "'d zend_llist \<Rightarrow> 'd list \<Rightarrow> bool" where
  "llist_rep l ds \<longleftrightarrow> (\<exists>xs. llist_ok l xs \<and> map (ldata l) xs = map Some ds)"

lemmas llist_fields = lnx_def lpv_def ldata_def

lemma llist_okD:
  assumes "llist_ok l xs"
  shows "distinct xs" "head_el l = fst_or xs None" "tail_el l = lst_or None xs"
    "dseg (lnx l) (lpv l) None xs None" "dom (cells l) = set xs" "count_el l = of_nat (length xs)"
    "arena_ok l"
  using assms by (auto simp: llist_ok_def dll_def)

lemma llist_ok_cell:
  "llist_ok l xs \<Longrightarrow> a \<in> set xs \<Longrightarrow> \<exists>c. cells l a = Some c \<and> next_el c = lnx l a \<and> prev_el c = lpv l a"
  by (drule llist_okD(5), drule equalityD2) (auto simp: llist_fields dest!: subsetD)

lemma llist_ok_fresh: "llist_ok l xs \<Longrightarrow> brk l \<notin> set xs \<and> cells l (brk l) = None"
  by (metis arena_ok_fresh domIff llist_ok_def)

lemma llist_rep_Nil [simp]: "llist_rep l [] \<longleftrightarrow> llist_ok l []"
  by (simp add: llist_rep_def)

lemma llist_rep_init:
  "cells l = Map.empty \<Longrightarrow> llist_rep (zend_llist_init sz dt pers l) []"
  by (simp add: llist_ok_def zend_llist_init_def arena_ok_def)

subsection \<open>Adding at the two ends\<close>

lemma llist_ok_add:
  assumes "llist_ok l xs"
  shows "\<exists>l'. zend_llist_add_element d l = Some l' \<and> llist_ok l' (xs @ [brk l]) \<and>
    ldata l' = (ldata l)(brk l \<mapsto> d) \<and> destroyed l' = destroyed l \<and> dtor l' = dtor l"
proof -
  let ?t = "brk l"
  note ok = llist_okD [OF assms] and fr = llist_ok_fresh [OF assms]
  have dll: "dll (lnx l) (lpv l) (head_el l) (tail_el l) xs" using assms by (simp add: llist_ok_def)
  show ?thesis
  proof (cases "tail_el l")
    case None
    then have "xs = []" using ok by simp
    then show ?thesis using ok fr None
      by (auto simp: zend_llist_add_element_def emalloc_def llist_ok_def dll_def llist_fields
          arena_ok_def fun_eq_iff)
  next
    case (Some b)
    have b: "b \<in> set xs" "b \<noteq> ?t" using ok fr Some by (auto dest: end_in)
    obtain c where c: "cells l b = Some c" "next_el c = lnx l b" "prev_el c = lpv l b"
      using llist_ok_cell [OF assms b(1)] by blast
    let ?l = "l\<lparr>cells := (cells l)(?t \<mapsto> \<lparr>next_el = None, prev_el = tail_el l, data_el = d\<rparr>,
        b \<mapsto> c\<lparr>next_el := Some ?t\<rparr>), brk := Suc ?t, tail_el := Some ?t, count_el := count_el l + 1\<rparr>"
    have run: "zend_llist_add_element d l = Some ?l"
      using c b Some by (simp add: zend_llist_add_element_def emalloc_def poke_def)
    have "dll (lnx ?l) (lpv ?l) (if head_el l = None then Some ?t else head_el l) (Some ?t) (xs @ [?t])"
      by (rule dll_snoc [OF dll]) (use fr b c Some in \<open>auto simp: llist_fields\<close>)
    moreover have "head_el l \<noteq> None" using Some ok by auto
    ultimately have "llist_ok ?l (xs @ [?t])"
      using ok c b by (auto simp: llist_ok_def arena_ok_def)
    moreover have "ldata ?l = (ldata l)(?t \<mapsto> d)" using c b by (auto simp: ldata_def fun_eq_iff)
    ultimately show ?thesis using run by auto
  qed
qed

lemma llist_ok_prepend:
  assumes "llist_ok l xs"
  shows "\<exists>l'. zend_llist_prepend_element d l = Some l' \<and> llist_ok l' (brk l # xs) \<and>
    ldata l' = (ldata l)(brk l \<mapsto> d) \<and> destroyed l' = destroyed l"
proof -
  let ?t = "brk l"
  note ok = llist_okD [OF assms] and fr = llist_ok_fresh [OF assms]
  have dll: "dll (lnx l) (lpv l) (head_el l) (tail_el l) xs" using assms by (simp add: llist_ok_def)
  show ?thesis
  proof (cases "head_el l")
    case None
    then have "xs = []" using ok by simp
    then show ?thesis using ok fr None
      by (auto simp: zend_llist_prepend_element_def emalloc_def llist_ok_def dll_def llist_fields
          arena_ok_def fun_eq_iff)
  next
    case (Some b)
    have b: "b \<in> set xs" "b \<noteq> ?t" using ok fr Some by (auto dest: end_in)
    obtain c where c: "cells l b = Some c" "next_el c = lnx l b" "prev_el c = lpv l b"
      using llist_ok_cell [OF assms b(1)] by blast
    let ?l = "l\<lparr>cells := (cells l)(?t \<mapsto> \<lparr>next_el = head_el l, prev_el = None, data_el = d\<rparr>,
        b \<mapsto> c\<lparr>prev_el := Some ?t\<rparr>), brk := Suc ?t, head_el := Some ?t, count_el := count_el l + 1\<rparr>"
    have run: "zend_llist_prepend_element d l = Some ?l"
      using c b Some by (simp add: zend_llist_prepend_element_def emalloc_def poke_def)
    have "dll (lnx ?l) (lpv ?l) (Some ?t) (if tail_el l = None then Some ?t else tail_el l) (?t # xs)"
      by (rule dll_cons [OF dll]) (use fr b c Some in \<open>auto simp: llist_fields\<close>)
    moreover have "tail_el l \<noteq> None" using Some ok by auto
    ultimately have "llist_ok ?l (?t # xs)"
      using ok c b by (auto simp: llist_ok_def arena_ok_def)
    moreover have "ldata ?l = (ldata l)(?t \<mapsto> d)" using c b by (auto simp: ldata_def fun_eq_iff)
    ultimately show ?thesis using run by auto
  qed
qed

lemma llist_rep_add:
  assumes "llist_rep l ds"
  shows "\<exists>l'. zend_llist_add_element d l = Some l' \<and> llist_rep l' (ds @ [d]) \<and>
    destroyed l' = destroyed l \<and> dtor l' = dtor l"
proof -
  obtain xs where xs: "llist_ok l xs" "map (ldata l) xs = map Some ds"
    using assms by (auto simp: llist_rep_def)
  from llist_ok_add [OF xs(1), of d] llist_ok_fresh [OF xs(1)] xs(2) show ?thesis
    unfolding llist_rep_def by (fastforce intro!: exI [of _ "xs @ [brk l]"])
qed

lemma llist_rep_prepend:
  assumes "llist_rep l ds"
  shows "\<exists>l'. zend_llist_prepend_element d l = Some l' \<and> llist_rep l' (d # ds) \<and> destroyed l' = destroyed l"
proof -
  obtain xs where xs: "llist_ok l xs" "map (ldata l) xs = map Some ds"
    using assms by (auto simp: llist_rep_def)
  from llist_ok_prepend [OF xs(1), of d] llist_ok_fresh [OF xs(1)] xs(2) show ?thesis
    unfolding llist_rep_def by (fastforce intro!: exI [of _ "brk l # xs"])
qed

subsection \<open>Unlinking one element\<close>

lemma llist_ok_del:
  assumes "llist_ok l (ys @ a # zs)"
  shows "\<exists>l' d. del_llist_element (Some a) l = Some l' \<and> llist_ok l' (ys @ zs) \<and> ldata l a = Some d \<and>
    (\<forall>b. b \<noteq> a \<longrightarrow> ldata l' b = ldata l b) \<and> (\<forall>b. b \<in> set zs \<longrightarrow> lnx l' b = lnx l b) \<and>
    destroyed l' = destroyed l @ (if dtor l then [d] else []) \<and> dtor l' = dtor l"
proof -
  note ok = llist_okD [OF assms]
  have dll: "dll (lnx l) (lpv l) (head_el l) (tail_el l) (ys @ a # zs)" using assms by (simp add: llist_ok_def)
  obtain c where c: "cells l a = Some c" "next_el c = lnx l a" "prev_el c = lpv l a"
    using llist_ok_cell [OF assms] by auto
  have nb: "lpv l a = lst_or None ys" "lnx l a = fst_or zs None" using ok by auto
  have dist: "a \<notin> set ys" "a \<notin> set zs" "set ys \<inter> set zs = {}" using ok by auto
  define m1 where "m1 = (case lpv l a of None \<Rightarrow> cells l
     | Some p \<Rightarrow> (cells l)(p := map_option (next_el_update (\<lambda>_. lnx l a)) (cells l p)))"
  define m2 where "m2 = (case lnx l a of None \<Rightarrow> m1
     | Some n \<Rightarrow> m1(n := map_option (prev_el_update (\<lambda>_. lpv l a)) (m1 n)))"
  define l' where "l' = l\<lparr>cells := m2(a := None),
     head_el := (if lpv l a = None then lnx l a else head_el l),
     tail_el := (if lnx l a = None then lpv l a else tail_el l),
     count_el := count_el l - 1, destroyed := destroyed l @ (if dtor l then [data_el c] else [])\<rparr>"
  have dom: "dom m1 = dom (cells l)" "dom m2 = dom (cells l)"
    by (auto simp: m1_def m2_def dom_def split: option.splits if_splits)
  have in_dom: "\<forall>p. lpv l a = Some p \<longrightarrow> p \<in> dom (cells l) \<and> p \<noteq> a"
    "\<forall>p. lnx l a = Some p \<longrightarrow> p \<in> dom (cells l) \<and> p \<noteq> a"
    using nb ok dist by (auto dest: end_in)
  have a: "m1 a = cells l a" "m2 a = cells l a"
    using in_dom by (auto simp: m1_def m2_def split: option.splits)
  have 1: "(if prev_el c \<noteq> None then poke (next_el_update (\<lambda>_. next_el c)) (prev_el c) l
      else Some (l\<lparr>head_el := next_el c\<rparr>)) =
      Some (l\<lparr>cells := m1, head_el := (if lpv l a = None then lnx l a else head_el l)\<rparr>)"
    using in_dom c by (auto simp: m1_def poke_def split: option.splits)
  have 2: "(if next_el c \<noteq> None then poke (prev_el_update (\<lambda>_. prev_el c)) (next_el c) k
      else Some (k\<lparr>tail_el := prev_el c\<rparr>)) =
      Some (k\<lparr>cells := m2, tail_el := (if lnx l a = None then lpv l a else tail_el k)\<rparr>)"
    if "cells k = m1" for k :: "'a zend_llist"
    using in_dom c dom that by (auto simp: m2_def poke_def split: option.splits)
  have run: "del_llist_element (Some a) l = Some l'"
    unfolding del_llist_element_def deref_Some c(1) Option.bind_lunit 1
    by (subst 2) (auto simp: a c(1) call_dtor_def efree_def l'_def)
  have cells': "cells l' = m2(a := None)" by (simp add: l'_def)
  have live: "\<exists>n. cells l p = Some n" if "lpv l a = Some p \<or> lnx l a = Some p" for p
    using in_dom that by auto
  have m2: "m2 b = (let m = (if lpv l a = Some b then map_option (next_el_update (\<lambda>_. lnx l a)) (cells l b)
      else cells l b) in if lnx l a = Some b then map_option (prev_el_update (\<lambda>_. lpv l a)) m else m)" for b
    by (auto simp: m1_def m2_def split: option.splits)
  have flds: "\<forall>b. b \<noteq> a \<longrightarrow> ldata l' b = ldata l b"
    by (simp add: ldata_def cells' m2 Let_def cell_simps)
  have flds_nx: "\<forall>b. b \<noteq> a \<longrightarrow> lnx l' b = (if lpv l a = Some b then lnx l a else lnx l b)"
  proof (intro allI impI)
    fix b assume "b \<noteq> a"
    then show "lnx l' b = (if lpv l a = Some b then lnx l a else lnx l b)"
      using live [of b] by (cases "lpv l a = Some b")
        (auto simp: lnx_def [of l' b] lnx_def [of l b] cells' m2 Let_def cell_simps)
  qed
  have flds_pv: "\<forall>b. b \<noteq> a \<longrightarrow> lpv l' b = (if lnx l a = Some b then lpv l a else lpv l b)"
  proof (intro allI impI)
    fix b assume "b \<noteq> a"
    then show "lpv l' b = (if lnx l a = Some b then lpv l a else lpv l b)"
      using live [of b] by (cases "lnx l a = Some b")
        (auto simp: lpv_def [of l' b] lpv_def [of l b] cells' m2 Let_def cell_simps)
  qed
  have "dll (lnx l') (lpv l') (head_el l') (tail_el l') (ys @ zs)"
  proof (rule dll_unlink [OF dll])
    show "\<forall>b \<in> set ys \<union> set zs. lnx l' b = (if lpv l a = Some b then lnx l a else lnx l b)"
      by (intro ballI flds_nx [rule_format]) (use dist in auto)
    show "\<forall>b \<in> set ys \<union> set zs. lpv l' b = (if lnx l a = Some b then lpv l a else lpv l b)"
      by (intro ballI flds_pv [rule_format]) (use dist in auto)
  qed (simp_all add: l'_def)
  moreover have "dom (cells l') = set (ys @ zs)"
    using dom ok dist by (auto simp: l'_def)
  moreover have "arena_ok l'" using ok(7) dom by (auto simp: arena_ok_def l'_def)
  ultimately have "llist_ok l' (ys @ zs)" using ok(6) by (simp add: llist_ok_def l'_def)
  moreover have "ldata l a = Some (data_el c)" using c by (simp add: ldata_def)
  moreover have "lnx l' b = lnx l b" if "b \<in> set zs" for b
  proof -
    have "lpv l a \<noteq> Some b" using nb that dist by (auto dest: end_in)
    then show ?thesis using flds_nx that dist by auto
  qed
  ultimately show ?thesis using run flds by (auto simp: l'_def)
qed

subsection \<open>Walking and deleting\<close>

text \<open>A node in the middle of a well-formed list: its cell, and where it points.\<close>

lemma llist_ok_at:
  assumes "llist_ok l (us @ a # vs)" and "ldata l a = Some d"
  obtains c where "cells l a = Some c" "data_el c = d" "next_el c = fst_or vs None" "prev_el c = lst_or None us"
proof -
  obtain c where c: "cells l a = Some c" "next_el c = lnx l a" "prev_el c = lpv l a"
    using llist_ok_cell [OF assms(1)] by auto
  moreover have "lnx l a = fst_or vs None" "lpv l a = lst_or None us" using llist_okD(4) [OF assms(1)] by auto
  moreover have "data_el c = d" using c assms(2) by (simp add: ldata_def)
  ultimately show ?thesis using that by simp
qed

lemma del_element_loop_run:
  assumes "llist_ok l (us @ vs)" and "map (ldata l) vs = map Some ds"
  shows "\<exists>l' vs'. del_element_loop P (fst_or vs None) l = Some l' \<and> llist_ok l' (us @ vs') \<and>
    map (ldata l') vs' = map Some (takeWhile (\<lambda>d. \<not> P d) ds @ drop 1 (dropWhile (\<lambda>d. \<not> P d) ds)) \<and>
    (\<forall>b \<in> set us. ldata l' b = ldata l b) \<and>
    destroyed l' = destroyed l @ (if dtor l then take 1 (dropWhile (\<lambda>d. \<not> P d) ds) else [])"
  using assms
proof (induction vs arbitrary: us ds)
  case Nil
  then show ?case by (auto simp: del_element_loop.simps [of P None])
next
  case (Cons a vs)
  then obtain d ds' where ds: "ds = d # ds'" "ldata l a = Some d" "map (ldata l) vs = map Some ds'"
    by (cases ds) auto
  obtain c where c: "cells l a = Some c" "data_el c = d" "next_el c = fst_or vs None"
    using Cons.prems(1) ds(2) by (rule llist_ok_at)
  have dist: "a \<notin> set us" "a \<notin> set vs" using llist_okD(1) [OF Cons.prems(1)] by auto
  show ?case
  proof (cases "P d")
    case True
    obtain l' where l': "del_llist_element (Some a) l = Some l'" "llist_ok l' (us @ vs)"
      "\<forall>b. b \<noteq> a \<longrightarrow> ldata l' b = ldata l b" "destroyed l' = destroyed l @ (if dtor l then [d] else [])"
      using llist_ok_del [OF Cons.prems(1)] ds(2) by auto
    have "map (ldata l') vs = map Some ds'" using l'(3) dist ds(3) by (metis map_eq_conv)
    then show ?thesis
      using l' c ds dist True by (auto simp: del_element_loop.simps [of P "Some a"] intro!: exI [of _ vs])
  next
    case False
    obtain l' vs' where "del_element_loop P (fst_or vs None) l = Some l'" "llist_ok l' ((us @ [a]) @ vs')"
      "map (ldata l') vs' = map Some (takeWhile (\<lambda>d. \<not> P d) ds' @ drop 1 (dropWhile (\<lambda>d. \<not> P d) ds'))"
      "\<forall>b \<in> set (us @ [a]). ldata l' b = ldata l b"
      "destroyed l' = destroyed l @ (if dtor l then take 1 (dropWhile (\<lambda>d. \<not> P d) ds') else [])"
      using Cons.IH [of "us @ [a]" ds'] Cons.prems(1) ds(3) by auto
    then show ?thesis
      using c ds False by (intro exI [of _ l'] exI [of _ "a # vs'"])
        (simp add: del_element_loop.simps [of P "Some a"])
  qed
qed

lemma llist_rep_del_element:
  fixes compare :: "'d \<Rightarrow> 'e \<Rightarrow> bool" and element :: 'e
  assumes "llist_rep l ds"
  defines "keep \<equiv> \<lambda>d. \<not> compare d element"
  shows "\<exists>l'. zend_llist_del_element element compare l = Some l' \<and>
    llist_rep l' (takeWhile keep ds @ drop 1 (dropWhile keep ds)) \<and>
    destroyed l' = destroyed l @ (if dtor l then take 1 (dropWhile keep ds) else [])"
proof -
  obtain xs where "llist_ok l ([] @ xs)" "map (ldata l) xs = map Some ds" "head_el l = fst_or xs None"
    using assms(1) by (auto simp: llist_rep_def dest: llist_okD(2))
  from del_element_loop_run [OF this(1,2), of "\<lambda>d. compare d element"] this(3) show ?thesis
    unfolding zend_llist_del_element_def llist_rep_def keep_def by auto
qed

lemma apply_with_del_loop_run:
  assumes "llist_ok l (us @ vs)" and "map (ldata l) vs = map Some ds"
  shows "\<exists>l' vs'. apply_with_del_loop f (fst_or vs None) l = Some l' \<and> llist_ok l' (us @ vs') \<and>
    map (ldata l') vs' = map Some (filter (\<lambda>d. \<not> f d) ds) \<and>
    (\<forall>b \<in> set us. ldata l' b = ldata l b) \<and> dtor l' = dtor l \<and>
    destroyed l' = destroyed l @ (if dtor l then filter f ds else [])"
  using assms
proof (induction vs arbitrary: l us ds)
  case Nil
  then show ?case by (auto simp: apply_with_del_loop.simps [of f None])
next
  case (Cons a vs)
  then obtain d ds' where ds: "ds = d # ds'" "ldata l a = Some d" "map (ldata l) vs = map Some ds'"
    by (cases ds) auto
  obtain c where c: "cells l a = Some c" "data_el c = d" "next_el c = fst_or vs None"
    using Cons.prems(1) ds(2) by (rule llist_ok_at)
  have dist: "a \<notin> set us" "a \<notin> set vs" using llist_okD(1) [OF Cons.prems(1)] by auto
  show ?case
  proof (cases "f d")
    case True
    obtain k where k: "del_llist_element (Some a) l = Some k" "llist_ok k (us @ vs)" "dtor k = dtor l"
      "\<forall>b. b \<noteq> a \<longrightarrow> ldata k b = ldata l b" "destroyed k = destroyed l @ (if dtor l then [d] else [])"
      using llist_ok_del [OF Cons.prems(1)] ds(2) by auto
    have "map (ldata k) vs = map Some ds'" using k(4) dist ds(3) by (metis map_eq_conv)
    from Cons.IH [OF k(2) this] obtain l' vs' where
      "apply_with_del_loop f (fst_or vs None) k = Some l'" "llist_ok l' (us @ vs')"
      "map (ldata l') vs' = map Some (filter (\<lambda>d. \<not> f d) ds')" "\<forall>b \<in> set us. ldata l' b = ldata k b"
      "dtor l' = dtor k" "destroyed l' = destroyed k @ (if dtor k then filter f ds' else [])"
      by auto
    then show ?thesis using k c ds dist True
      by (intro exI [of _ l'] exI [of _ vs']) (auto simp: apply_with_del_loop.simps [of f "Some a"])
  next
    case False
    obtain l' vs' where "apply_with_del_loop f (fst_or vs None) l = Some l'" "llist_ok l' ((us @ [a]) @ vs')"
      "map (ldata l') vs' = map Some (filter (\<lambda>d. \<not> f d) ds')" "\<forall>b \<in> set (us @ [a]). ldata l' b = ldata l b"
      "dtor l' = dtor l" "destroyed l' = destroyed l @ (if dtor l then filter f ds' else [])"
      using Cons.IH [of l "us @ [a]" ds'] Cons.prems(1) ds(3) by auto
    then show ?thesis using c ds False
      by (intro exI [of _ l'] exI [of _ "a # vs'"]) (simp add: apply_with_del_loop.simps [of f "Some a"])
  qed
qed

lemma llist_rep_apply_with_del:
  assumes "llist_rep l ds"
  shows "\<exists>l'. zend_llist_apply_with_del f l = Some l' \<and> llist_rep l' (filter (\<lambda>d. \<not> f d) ds) \<and>
    destroyed l' = destroyed l @ (if dtor l then filter f ds else [])"
proof -
  obtain xs where "llist_ok l ([] @ xs)" "map (ldata l) xs = map Some ds" "head_el l = fst_or xs None"
    using assms by (auto simp: llist_rep_def dest: llist_okD(2))
  from apply_with_del_loop_run [OF this(1,2), of f] this(3) show ?thesis
    unfolding zend_llist_apply_with_del_def llist_rep_def by auto
qed

subsection \<open>Destroying\<close>

lemma destroy_loop_run:
  assumes "distinct vs" and "dom (cells l) = set vs" and "dseg (lnx l) (lpv l) p vs None"
    and "map (ldata l) vs = map Some ds"
  shows "\<exists>l'. destroy_loop (fst_or vs None) l = Some l' \<and> cells l' = Map.empty \<and> brk l' = brk l \<and>
    dtor l' = dtor l \<and> destroyed l' = destroyed l @ (if dtor l then ds else [])"
  using assms
proof (induction vs arbitrary: l p ds)
  case Nil
  then show ?case by (auto simp: destroy_loop.simps [of None])
next
  case (Cons a vs)
  then obtain d ds' where ds: "ds = d # ds'" "ldata l a = Some d" "map (ldata l) vs = map Some ds'"
    by (cases ds) auto
  obtain c where c: "cells l a = Some c" "data_el c = d" "next_el c = fst_or vs None"
    using Cons.prems ds(2) by (auto simp: llist_fields)
  obtain k where k: "efree (Some a) (call_dtor d l) = Some k" "cells k = (cells l)(a := None)"
    "dtor k = dtor l" "brk k = brk l" "destroyed k = destroyed l @ (if dtor l then [d] else [])"
    using c by (cases "dtor l") (simp_all add: efree_def call_dtor_def)
  have same: "lnx k b = lnx l b" "lpv k b = lpv l b" "ldata k b = ldata l b" if "b \<in> set vs" for b
    using Cons.prems(1) k(2) that by (auto simp: llist_fields)
  have "\<exists>l'. destroy_loop (fst_or vs None) k = Some l' \<and> cells l' = Map.empty \<and> brk l' = brk k \<and>
    dtor l' = dtor k \<and> destroyed l' = destroyed k @ (if dtor k then ds' else [])"
  proof (rule Cons.IH)
    show "dseg (lnx k) (lpv k) (Some a) vs None"
      by (rule dseg_frame [of "lnx l" "lpv l"]) (use Cons.prems(3) same in simp_all)
    show "map (ldata k) vs = map Some ds'" using ds(3) same(3) by (metis map_eq_conv)
    show "distinct vs" using Cons.prems(1) by simp
    show "dom (cells k) = set vs" using k(2) Cons.prems(1,2) by auto
  qed
  then show ?case using c k ds(1) by (auto simp: destroy_loop.simps [of "Some a"])
qed

lemma llist_destroyed:
  assumes "llist_rep l ds"
  shows "\<exists>l'. zend_llist_destroy l = Some l' \<and> cells l' = Map.empty \<and> count_el l' = 0 \<and>
    destroyed l' = destroyed l @ (if dtor l then ds else [])"
proof -
  obtain xs where xs: "llist_ok l xs" "map (ldata l) xs = map Some ds"
    using assms by (auto simp: llist_rep_def)
  note ok = llist_okD [OF xs(1)]
  from destroy_loop_run [OF ok(1,5,4) xs(2)] ok(2) show ?thesis
    by (auto simp: zend_llist_destroy_def)
qed

lemma llist_rep_clean:
  assumes "llist_rep l ds"
  shows "\<exists>l'. zend_llist_clean l = Some l' \<and> llist_rep l' [] \<and>
    destroyed l' = destroyed l @ (if dtor l then ds else [])"
proof -
  obtain l' where "zend_llist_destroy l = Some l'" "cells l' = Map.empty" "count_el l' = 0"
    "destroyed l' = destroyed l @ (if dtor l then ds else [])"
    using llist_destroyed [OF assms] by blast
  then show ?thesis by (auto simp: zend_llist_clean_def llist_ok_def arena_ok_def)
qed

subsection \<open>Removing the tail, copying, applying\<close>

lemma remove_tail_is_del:
  assumes "llist_ok l (ys @ [a])"
  shows "zend_llist_remove_tail l = map_option (Pair (Some a)) (del_llist_element (Some a) l)"
proof -
  note ok = llist_okD [OF assms]
  obtain c where c: "cells l a = Some c" "next_el c = lnx l a" using llist_ok_cell [OF assms] by auto
  have "lnx l a = None" "tail_el l = Some a" using ok by auto
  with c show ?thesis
    by (cases "prev_el c"; cases "dtor l")
       (auto simp: zend_llist_remove_tail_def del_llist_element_def poke_def call_dtor_def efree_def
         split: option.splits)
qed

lemma llist_rep_remove_tail:
  assumes "llist_rep l (ds @ [d])"
  shows "\<exists>p l'. zend_llist_remove_tail l = Some (p, l') \<and> llist_rep l' ds \<and> p \<noteq> None \<and>
    deref l p \<noteq> None \<and> deref l' p = None \<and> destroyed l' = destroyed l @ (if dtor l then [d] else [])"
proof -
  obtain xs where xs: "llist_ok l xs" "map (ldata l) xs = map Some (ds @ [d])"
    using assms by (auto simp: llist_rep_def)
  then obtain ys a where ya: "xs = ys @ [a]" "map (ldata l) ys = map Some ds" "ldata l a = Some d"
    by (cases xs rule: rev_cases) auto
  obtain l' where l': "del_llist_element (Some a) l = Some l'" "llist_ok l' ys"
    "\<forall>b. b \<noteq> a \<longrightarrow> ldata l' b = ldata l b" "destroyed l' = destroyed l @ (if dtor l then [d] else [])"
    using llist_ok_del [of l ys a "[]"] xs ya by auto
  have "a \<notin> set ys" using llist_okD(1) [OF xs(1)] ya by simp
  moreover from this have "map (ldata l') ys = map (ldata l) ys" using l'(3) by (intro map_cong) auto
  ultimately have "map (ldata l') ys = map Some ds" "cells l' a = None" "cells l a \<noteq> None"
    using ya llist_okD(5) [OF l'(2)] llist_okD(5) [OF xs(1)] by auto
  then show ?thesis using remove_tail_is_del [of l ys a] xs ya l' by (auto simp: llist_rep_def)
qed

lemma copy_loop_run:
  assumes "llist_ok src (us @ vs)" and "map (ldata src) vs = map Some ds" and "llist_rep dst es"
  shows "\<exists>dst'. copy_loop src (fst_or vs None) dst = Some dst' \<and> llist_rep dst' (es @ ds) \<and>
    destroyed dst' = destroyed dst"
  using assms
proof (induction vs arbitrary: us ds dst es)
  case Nil
  then show ?case by (auto simp: copy_loop.simps [of src None])
next
  case (Cons a vs)
  then obtain d ds' where ds: "ds = d # ds'" "ldata src a = Some d" "map (ldata src) vs = map Some ds'"
    by (cases ds) auto
  obtain c where c: "cells src a = Some c" "data_el c = d" "next_el c = fst_or vs None"
    using Cons.prems(1) ds(2) by (rule llist_ok_at)
  obtain k where k: "zend_llist_add_element d dst = Some k" "llist_rep k (es @ [d])" "destroyed k = destroyed dst"
    using llist_rep_add [OF Cons.prems(3)] by blast
  show ?case
    using Cons.IH [of "us @ [a]" ds' k "es @ [d]"] Cons.prems(1) k c ds
    by (auto simp: copy_loop.simps [of src "Some a"])
qed

lemma llist_rep_copy:
  assumes "llist_rep src ds" and "cells dst = Map.empty"
  shows "\<exists>dst'. zend_llist_copy dst src = Some dst' \<and> llist_rep dst' ds \<and> destroyed dst' = destroyed dst"
proof -
  obtain xs where xs: "llist_ok src ([] @ xs)" "map (ldata src) xs = map Some ds" "head_el src = fst_or xs None"
    using assms by (auto simp: llist_rep_def dest: llist_okD(2))
  from copy_loop_run [OF xs(1,2) llist_rep_init [OF assms(2)]] xs(3) show ?thesis
    by (simp add: zend_llist_copy_def zend_llist_init_def)
qed

text \<open>What \<open>apply\<close> does to the list of data: the function sees the data in list order.\<close>

fun map_state :: "('d \<Rightarrow> 's \<Rightarrow> 'd \<times> 's) \<Rightarrow> 'd list \<Rightarrow> 's \<Rightarrow> 'd list \<times> 's" where
  "map_state f [] st = ([], st)"
| "map_state f (d # ds) st =
     (case f d st of (d', st) \<Rightarrow> case map_state f ds st of (ds', st) \<Rightarrow> (d' # ds', st))"

lemma llist_ok_set_data:
  assumes "llist_ok l xs" and "a \<in> set xs"
  obtains k where "poke (data_el_update (\<lambda>_. d)) (Some a) l = Some k" "llist_ok k xs"
    "ldata k = (ldata l)(a \<mapsto> d)" "lnx k = lnx l" "destroyed k = destroyed l"
proof -
  obtain c where c: "cells l a = Some c" using llist_ok_cell [OF assms] by auto
  define k where "k = l\<lparr>cells := (cells l)(a \<mapsto> c\<lparr>data_el := d\<rparr>)\<rparr>"
  have f: "lnx k = lnx l" "lpv k = lpv l" "ldata k = (ldata l)(a \<mapsto> d)"
    using c by (auto simp: k_def llist_fields fun_eq_iff)
  have "llist_ok k xs" unfolding llist_ok_def f
    using llist_okD [OF assms(1)] assms c by (auto simp: k_def arena_ok_def dll_def)
  then show ?thesis using f c by (intro that [of k]) (auto simp: k_def poke_def)
qed

lemma apply_loop_run:
  assumes "llist_ok l (us @ vs)" and "map (ldata l) vs = map Some ds"
  shows "\<exists>l'. apply_loop f (fst_or vs None) l st = Some (l', snd (map_state f ds st)) \<and> llist_ok l' (us @ vs) \<and>
    map (ldata l') vs = map Some (fst (map_state f ds st)) \<and>
    (\<forall>b. b \<notin> set vs \<longrightarrow> ldata l' b = ldata l b) \<and> destroyed l' = destroyed l"
  using assms
proof (induction vs arbitrary: l us ds st)
  case Nil
  then show ?case by (auto simp: apply_loop.simps [of f None])
next
  case (Cons a vs)
  then obtain d ds' where ds: "ds = d # ds'" "ldata l a = Some d" "map (ldata l) vs = map Some ds'"
    by (cases ds) auto
  obtain d1 st1 where f: "f d st = (d1, st1)" by (cases "f d st")
  obtain c where c: "cells l a = Some c" "data_el c = d"
    using Cons.prems(1) ds(2) by (rule llist_ok_at)
  have a: "a \<in> set (us @ a # vs)" "a \<notin> set vs" using llist_okD(1) [OF Cons.prems(1)] by auto
  obtain k where k: "poke (data_el_update (\<lambda>_. d1)) (Some a) l = Some k" "llist_ok k (us @ a # vs)"
    "ldata k = (ldata l)(a \<mapsto> d1)" "destroyed k = destroyed l"
    by (rule llist_ok_set_data [OF Cons.prems(1) a(1)])
  obtain c' where c': "cells k a = Some c'" "next_el c' = fst_or vs None"
    using k(2) by (rule llist_ok_at) (simp add: k(3))
  have "map (ldata k) vs = map Some ds'" using ds(3) a(2) k(3) by (simp add: fun_upd_def cong: map_cong) (smt (verit) map_eq_conv)
  then obtain l' where l': "apply_loop f (fst_or vs None) k st1 = Some (l', snd (map_state f ds' st1))"
    "llist_ok l' (us @ a # vs)" "map (ldata l') vs = map Some (fst (map_state f ds' st1))"
    "\<forall>b. b \<notin> set vs \<longrightarrow> ldata l' b = ldata k b" "destroyed l' = destroyed k"
    using Cons.IH [of k "us @ [a]" ds' st1] k(2) by auto
  have "apply_loop f (Some a) l st = apply_loop f (fst_or vs None) k st1"
    using c c' k(1) f by (simp add: apply_loop.simps [of f "Some a" l])
  then show ?case using l' a k ds(1) f
    by (intro exI [of _ l']) (auto split: prod.splits)
qed

lemma llist_rep_apply:
  assumes "llist_rep l ds"
  shows "\<exists>l'. zend_llist_apply f l st = Some (l', snd (map_state f ds st)) \<and>
    llist_rep l' (fst (map_state f ds st)) \<and> destroyed l' = destroyed l"
proof -
  obtain xs where "llist_ok l ([] @ xs)" "map (ldata l) xs = map Some ds" "head_el l = fst_or xs None"
    using assms by (auto simp: llist_rep_def dest: llist_okD(2))
  from apply_loop_run [OF this(1,2), of f st] this(3) show ?thesis
    unfolding zend_llist_apply_def llist_rep_def by auto
qed

subsection \<open>Sorting\<close>

lemma collect_loop_run:
  assumes "llist_ok l (us @ vs)" and "map (ldata l) vs = map Some ds"
  shows "collect_loop l (fst_or vs None) = Some (zip vs ds)"
  using assms
proof (induction vs arbitrary: us ds)
  case Nil
  then show ?case by (simp add: collect_loop.simps [of l None])
next
  case (Cons a vs)
  then obtain d ds' where ds: "ds = d # ds'" "ldata l a = Some d" "map (ldata l) vs = map Some ds'"
    by (cases ds) auto
  obtain c where c: "cells l a = Some c" "data_el c = d" "next_el c = fst_or vs None"
    using Cons.prems(1) ds(2) by (rule llist_ok_at)
  then show ?case using Cons.IH [of "us @ [a]" ds'] Cons.prems(1) ds
    by (simp add: collect_loop.simps [of l "Some a"])
qed

lemma relink_loop_run:
  assumes "distinct (a # as)" and "set (a # as) \<subseteq> dom (cells l)"
  shows "\<exists>l'. relink_loop a as l = Some l' \<and> dseg (lnx l') (lpv l') (lpv l a) (a # as) None \<and>
    tail_el l' = lst_or None (a # as) \<and> head_el l' = head_el l \<and> ldata l' = ldata l \<and> dom (cells l') = dom (cells l) \<and>
    brk l' = brk l \<and> count_el l' = count_el l \<and> destroyed l' = destroyed l \<and>
    (\<forall>b. b \<notin> set (a # as) \<longrightarrow> lnx l' b = lnx l b) \<and> (\<forall>b. b \<notin> set as \<longrightarrow> lpv l' b = lpv l b)"
  using assms
proof (induction as arbitrary: a l)
  case Nil
  then obtain c where c: "cells l a = Some c" by auto
  define k where "k = l\<lparr>cells := (cells l)(a \<mapsto> c\<lparr>next_el := None\<rparr>), tail_el := Some a\<rparr>"
  have "relink_loop a [] l = Some k" using c by (simp add: k_def poke_def)
  moreover have "lnx k = (lnx l)(a := None)" "lpv k = lpv l" "ldata k = ldata l" "dom (cells k) = dom (cells l)"
    using c by (auto simp: k_def llist_fields fun_eq_iff)
  ultimately show ?case by (intro exI [of _ k]) (auto simp: k_def)
next
  case (Cons b bs)
  then obtain ca cb where c: "cells l a = Some ca" "cells l b = Some cb" and ab: "a \<noteq> b" by auto
  define k where "k = l\<lparr>cells := (cells l)(b \<mapsto> cb\<lparr>prev_el := Some a\<rparr>, a \<mapsto> ca\<lparr>next_el := Some b\<rparr>)\<rparr>"
  have run: "relink_loop a (b # bs) l = relink_loop b bs k" using c ab by (simp add: k_def poke_def)
  have f: "lnx k = (lnx l)(a := Some b)" "lpv k = (lpv l)(b := Some a)" "ldata k = ldata l"
    "dom (cells k) = dom (cells l)" "brk k = brk l" "count_el k = count_el l" "destroyed k = destroyed l" "head_el k = head_el l"
    using c ab by (auto simp: k_def llist_fields fun_eq_iff)
  show ?case using Cons.IH [of b k] Cons.prems ab unfolding f run by auto
qed

lemma llist_rep_sort:
  assumes "llist_rep l ds" and "length ds < 2 ^ 64"
  shows "\<exists>l' ds'. zend_llist_sort comp_func l = Some l' \<and> llist_rep l' ds' \<and> mset ds' = mset ds \<and>
    destroyed l' = destroyed l \<and>
    (compare_order comp_func (set ds) \<longrightarrow> sorted_wrt (\<lambda>a b. comp_func a b \<le> 0) ds')"
proof -
  obtain xs where xs: "llist_ok l xs" "map (ldata l) xs = map Some ds"
    using assms by (auto simp: llist_rep_def)
  note ok = llist_okD [OF xs(1)]
  have len: "length xs = length ds" using xs(2) by (metis length_map)
  have cnt: "count_el l = 0 \<longleftrightarrow> xs = []"
    using ok(6) assms(2) len by (auto simp: word_of_nat_eq_0_iff dvd_imp_le dest!: dvd_imp_le)
  show ?thesis
  proof (cases "xs = []")
    case True
    then show ?thesis using cnt assms len by (auto simp: zend_llist_sort_def intro!: exI [of _ "[]"])
  next
    case False
    let ?cmp = "\<lambda>x y. comp_func (snd x) (snd y)"
    have col: "collect_loop l (head_el l) = Some (zip xs ds)"
      using collect_loop_run [of l "[]" xs ds] xs ok(2) by simp
    obtain zs where zs: "zend_qsort ?cmp 8 (zip xs ds) = Some zs" "mset zs = mset (zip xs ds)"
      using zend_qsort_total [of 8 "zip xs ds" ?cmp] assms(2) len by auto
    have perm: "mset (map fst zs) = mset xs" "mset (map snd zs) = mset ds"
      using zs(2) len by (metis map_fst_zip mset_map, metis map_snd_zip mset_map)
    have in_zip: "set zs = set (zip xs ds)" using zs(2) by (metis set_mset_mset)
    have zdata: "map (ldata l) (map fst zs) = map Some (map snd zs)"
    proof -
      have "ldata l a = Some d" if "(a, d) \<in> set (zip xs ds)" for a d
        using that xs(2) len by (metis in_set_zip length_map nth_map fst_conv snd_conv)
      then show ?thesis using in_zip by auto
    qed
    obtain a as where as: "map fst zs = a # as" using perm False by (metis list.exhaust mset_zero_iff)
    have d: "distinct (a # as)" "set (a # as) = set xs"
      using perm(1) ok(1) as by (metis mset_eq_imp_distinct_iff, metis set_mset_mset)
    then obtain c where c: "cells l a = Some c" using ok(5) by auto
    define k where "k = l\<lparr>head_el := Some a, cells := (cells l)(a \<mapsto> c\<lparr>prev_el := None\<rparr>)\<rparr>"
    have k: "poke (prev_el_update (\<lambda>_. None)) (Some a) (l\<lparr>head_el := Some a\<rparr>) = Some k"
      "lpv k a = None" "dom (cells k) = dom (cells l)" "ldata k = ldata l" "head_el k = Some a"
      "destroyed k = destroyed l" "count_el k = count_el l" "brk k = brk l"
      using c by (auto simp: k_def llist_fields poke_def fun_eq_iff)
    have sub: "set (a # as) \<subseteq> dom (cells k)" using d(2) ok(5) k(3) by simp
    obtain l' where l': "relink_loop a as k = Some l'" "dseg (lnx l') (lpv l') None (a # as) None"
      "tail_el l' = lst_or None (a # as)" "head_el l' = Some a" "ldata l' = ldata l" "dom (cells l') = dom (cells l)"
      "brk l' = brk l" "count_el l' = count_el l" "destroyed l' = destroyed l"
      using relink_loop_run [OF d(1) sub] unfolding k by blast
    have sz: "length (a # as) = length xs" using perm(1) as by (metis size_mset)
    have "arena_ok l'" using ok(7) l'(6,7) by (simp add: arena_ok_def)
    moreover have "dll (lnx l') (lpv l') (head_el l') (tail_el l') (a # as)"
      unfolding dll_def l'(3,4) using d(1) l'(2) by simp
    ultimately have "llist_ok l' (a # as)"
      unfolding llist_ok_def sz l'(6,8) using d(2) ok(5,6) by blast
    then have rep: "llist_rep l' (map snd zs)"
      using zdata l'(5) unfolding llist_rep_def as by auto
    have run: "zend_llist_sort comp_func l = Some l'"
      using False cnt col zs(1) as k(1) l'(1) by (simp add: zend_llist_sort_def)
    have "sorted_wrt (\<lambda>a b. comp_func a b \<le> 0) (map snd zs)" if "compare_order comp_func (set ds)"
    proof -
      have sd: "x \<in> set (zip xs ds) \<Longrightarrow> snd x \<in> set ds" for x
        by (cases x) (auto dest: set_zip_rightD)
      have "compare_order ?cmp (set (zip xs ds))"
        by (rule compare_order.intro)
           (use compare_order.total [OF that] compare_order.trans [OF that] sd in \<open>blast+\<close>)
      from compare_order.qsort_sorted [OF this _ _ zs(1)] show ?thesis by (simp add: sorted_wrt_map)
    qed
    then show ?thesis using run rep perm(2) l'(9) by blast
  qed
qed

subsection \<open>Traversal, and the list as a stack\<close>

lemma llist_rep_get_first:
  "llist_rep l (d # ds) \<Longrightarrow> \<exists>a. zend_llist_get_first_ex l pos = Some (Some d, put_pos pos (Some a) l) \<and> head_el l = Some a"
proof -
  assume "llist_rep l (d # ds)"
  then obtain a xs where xs: "llist_ok l (a # xs)" "ldata l a = Some d"
    by (auto simp: llist_rep_def Cons_eq_map_conv map_eq_Cons_conv)
  then obtain c where "cells l a = Some c" "data_el c = d" using llist_ok_at [of l "[]" a xs d] by auto
  moreover have "head_el l = Some a" using llist_okD(2) [OF xs(1)] by simp
  ultimately show ?thesis by (simp add: zend_llist_get_first_ex_def data_or_null_def)
qed

lemma llist_rep_get_last:
  assumes "llist_rep l (ds @ [d])"
  shows "\<exists>a. zend_llist_get_last_ex l pos = Some (Some d, put_pos pos (Some a) l) \<and> tail_el l = Some a"
proof -
  obtain xs where xs: "llist_ok l xs" "map (ldata l) xs = map Some (ds @ [d])"
    using assms by (auto simp: llist_rep_def)
  then obtain ys a where ya: "xs = ys @ [a]" "ldata l a = Some d"
    by (cases xs rule: rev_cases) auto
  then obtain c where "cells l a = Some c" "data_el c = d" using xs(1) llist_ok_at [of l ys a "[]" d] by auto
  moreover have "tail_el l = Some a" using llist_okD(3) [OF xs(1)] ya by simp
  ultimately show ?thesis by (simp add: zend_llist_get_last_ex_def data_or_null_def)
qed

text \<open>A whole traversal: the data from a position to the end, with the caller's own position.\<close>

partial_function (option) forward_from :: "'d zend_llist \<Rightarrow> ptr \<Rightarrow> 'd list option" where
  "forward_from l p = do {
     (d, pos, _) \<leftarrow> zend_llist_get_next_ex l (Some p);
     (case (d, pos) of
        (Some d, Some q) \<Rightarrow> do { ds \<leftarrow> forward_from l q; Some (d # ds) }
      | _ \<Rightarrow> Some [])
   }"

lemma forward_from_run:
  assumes "llist_ok l (us @ a # vs)" and "map (ldata l) (a # vs) = map Some (d # ds)"
  shows "forward_from l (Some a) = Some ds"
  using assms
proof (induction vs arbitrary: us a d ds)
  case Nil
  then obtain c where "cells l a = Some c" "next_el c = None" using llist_ok_at [of l us a "[]" d] by auto
  then show ?case using Nil
    by (simp add: forward_from.simps [of l "Some a"] zend_llist_get_next_ex_def get_pos_def put_pos_def data_or_null_def)
next
  case (Cons b vs)
  obtain e es where ds: "ds = e # es" using Cons.prems(2) by (cases ds) auto
  obtain c where c: "cells l a = Some c" "next_el c = Some b"
    using llist_ok_at [of l us a "b # vs" d] Cons.prems by auto
  obtain cb where "cells l b = Some cb" "data_el cb = e"
    using llist_ok_at [of l "us @ [a]" b vs e] Cons.prems ds by auto
  moreover have "forward_from l (Some b) = Some es"
    using Cons.IH [of "us @ [a]" b e es] Cons.prems ds by simp
  ultimately show ?case using c ds
    by (simp add: forward_from.simps [of l "Some a"] zend_llist_get_next_ex_def get_pos_def put_pos_def data_or_null_def)
qed

definition llist_pop :: "'d zend_llist \<Rightarrow> 'd zend_llist option" where
  "llist_pop l = map_option snd (zend_llist_remove_tail l)"

definition llist_peek :: "'d zend_llist \<Rightarrow> 'd option" where
  "llist_peek l = Option.bind (zend_llist_get_last_ex l None) fst"

interpretation zl: lifo llist_rep zend_llist_add_element llist_pop llist_peek "\<lambda>_. True"
proof unfold_locales
  fix l :: "'d zend_llist" and ds d
  assume "llist_rep l ds"
  then show "\<exists>l'. zend_llist_add_element d l = Some l' \<and> llist_rep l' (ds @ [d])"
    using llist_rep_add [of l ds d] by metis
next
  fix l :: "'d zend_llist" and ds d
  assume a: "llist_rep l (ds @ [d])"
  show "\<exists>l'. llist_pop l = Some l' \<and> llist_rep l' ds"
  proof -
    obtain p l' where "zend_llist_remove_tail l = Some (p, l')" "llist_rep l' ds"
      using llist_rep_remove_tail [OF a] by blast
    then show ?thesis by (simp add: llist_pop_def)
  qed
  show "llist_peek l = Some d"
  proof -
    obtain x where "zend_llist_get_last_ex l None = Some (Some d, put_pos None (Some x) l)"
      using llist_rep_get_last [OF a, of None] by blast
    then show ?thesis by (simp add: llist_peek_def)
  qed
qed

subsection \<open>Properties\<close>

text \<open>A list of four-byte elements with a destructor, holding 3, 1, 2: where the witnesses evaluate.\<close>

definition empty_llist :: "int zend_llist" where
  "empty_llist = zend_llist_init 4 True False
     \<lparr>cells = Map.empty, brk = 0, head_el = None, tail_el = None, count_el = 0, size_el = 0, dtor = False,
      persistent = False, traverse_ptr = None, destroyed = []\<rparr>"

definition sample_llist :: "int zend_llist" where
  "sample_llist = the (run_ops zend_llist_add_element llist_pop [Push 3, Push 1, Push 5, Pop, Push 2] empty_llist)"

lemma sample_llist_rep: "llist_rep sample_llist [3, 1, 2]"
proof -
  have "llist_rep empty_llist []" unfolding empty_llist_def by (rule llist_rep_init) simp
  then show ?thesis
    using zl.run_simulates [of empty_llist "[]" "[Push 3, Push 1, Push 5, Pop, Push 2]" "[3, 1, 2]"]
    by (auto simp: sample_llist_def)
qed

text \<open>
  C28: a \<open>zend_llist\<close> used at its tail is a stack: every sequence of \<open>zend_llist_add_element\<close>
  and \<open>zend_llist_remove_tail\<close> that never pops the empty list runs on live memory only and
  leaves the elements the same sequence leaves of a plain list, linked both ways, counted, and with
  nothing else allocated.
\<close>

theorem llist_simulates_list:
  assumes "llist_rep l ds" and "spec_ops ops ds = Some ds'"
  shows "\<exists>l'. run_ops zend_llist_add_element llist_pop ops l = Some l' \<and> llist_rep l' ds'"
  using zl.run_simulates [OF assms] by simp

lemma llist_simulates_list_witness:
  "\<exists>l'. run_ops zend_llist_add_element llist_pop [Pop, Push 7] sample_llist = Some l' \<and> llist_rep l' [3, 1, 7]"
  by (rule llist_simulates_list [OF sample_llist_rep]) simp

text \<open>
  C29: \<open>zend_llist_del_element\<close> removes the first element that the comparison accepts and no other,
  and calls the destructor on that one only; with no such element the list is unchanged.
\<close>

theorem llist_del_element_removes_first:
  fixes compare :: "'d \<Rightarrow> 'e \<Rightarrow> bool" and element :: 'e
  assumes "llist_rep l ds"
  defines "keep \<equiv> \<lambda>d. \<not> compare d element"
  shows "\<exists>l'. zend_llist_del_element element compare l = Some l' \<and>
    llist_rep l' (takeWhile keep ds @ drop 1 (dropWhile keep ds)) \<and>
    destroyed l' = destroyed l @ (if dtor l then take 1 (dropWhile keep ds) else [])"
  unfolding keep_def using assms(1) by (rule llist_rep_del_element)

lemma llist_del_element_removes_first_witness:
  "\<exists>l'. zend_llist_del_element 2 (\<lambda>d e. d < e) sample_llist = Some l' \<and> llist_rep l' [3, 2]"
  using llist_del_element_removes_first [OF sample_llist_rep, of "2 :: int" "\<lambda>d e. d < e"] by auto

text \<open>
  \<open>zend_llist_apply_with_del\<close> keeps exactly the elements its callback rejects, in their
  order, although it unlinks elements while it walks, and destroys each of the others once.
\<close>

theorem llist_apply_with_del_filters:
  assumes "llist_rep l ds"
  shows "\<exists>l'. zend_llist_apply_with_del f l = Some l' \<and> llist_rep l' (filter (\<lambda>d. \<not> f d) ds) \<and>
    destroyed l' = destroyed l @ (if dtor l then filter f ds else [])"
  using assms by (rule llist_rep_apply_with_del)

lemma llist_apply_with_del_filters_witness:
  "\<exists>l'. zend_llist_apply_with_del (\<lambda>d. d < 3) sample_llist = Some l' \<and> llist_rep l' [3]"
  using llist_apply_with_del_filters [OF sample_llist_rep, of "\<lambda>d. d < 3"] by auto

text \<open>
  \<open>zend_llist_sort\<close> permutes the elements in place, relinks the list both ways from the
  sorted array of pointers, and yields a sorted list for a comparison that is a total preorder.
\<close>

theorem llist_sort_sorts:
  assumes "llist_rep l ds" and "length ds < 2 ^ 64"
    and "\<And>a b. a \<in> set ds \<Longrightarrow> b \<in> set ds \<Longrightarrow> comp_func a b > 0 \<Longrightarrow> comp_func b a \<le> 0"
    and "\<And>a b c. a \<in> set ds \<Longrightarrow> b \<in> set ds \<Longrightarrow> c \<in> set ds \<Longrightarrow> comp_func a b \<le> 0 \<Longrightarrow>
      comp_func b c \<le> 0 \<Longrightarrow> comp_func a c \<le> 0"
  shows "\<exists>l' ds'. zend_llist_sort comp_func l = Some l' \<and> llist_rep l' ds' \<and> mset ds' = mset ds \<and>
    sorted_wrt (\<lambda>a b. comp_func a b \<le> 0) ds' \<and> destroyed l' = destroyed l"
proof -
  have "compare_order comp_func (set ds)" by (rule compare_order.intro) (fact assms)+
  then show ?thesis using llist_rep_sort [OF assms(1,2), of comp_func] by blast
qed

lemma llist_sort_sorts_witness:
  "\<exists>l' ds'. zend_llist_sort (\<lambda>a b. a - b) sample_llist = Some l' \<and> llist_rep l' ds' \<and>
    mset ds' = mset [3, 1, 2] \<and> sorted_wrt (\<lambda>a b. a - b \<le> 0) ds' \<and> destroyed l' = destroyed sample_llist"
  by (rule llist_sort_sorts [OF sample_llist_rep]) auto

text \<open>
  \<open>zend_llist_clean\<close> destroys every element once, in order, frees all of them, and leaves an
  empty list that can be used again.
\<close>

theorem llist_clean_releases_all:
  assumes "llist_rep l ds"
  shows "\<exists>l'. zend_llist_clean l = Some l' \<and> llist_rep l' [] \<and>
    destroyed l' = destroyed l @ (if dtor l then ds else [])"
  using assms by (rule llist_rep_clean)

lemma llist_clean_releases_all_witness:
  "\<exists>l'. zend_llist_clean sample_llist = Some l' \<and> llist_rep l' []"
  using llist_clean_releases_all [OF sample_llist_rep] by blast

text \<open>
  \<open>zend_llist_remove_tail\<close> takes off the last element and destroys it, but the non-\<open>NULL\<close>
  pointer it returns points into the element it has just freed: no caller can read it.
\<close>

theorem llist_remove_tail_dangles:
  assumes "llist_rep l (ds @ [d])"
  shows "\<exists>p l'. zend_llist_remove_tail l = Some (p, l') \<and> llist_rep l' ds \<and> p \<noteq> None \<and>
    deref l p \<noteq> None \<and> deref l' p = None \<and> destroyed l' = destroyed l @ (if dtor l then [d] else [])"
  using assms by (rule llist_rep_remove_tail)

lemma llist_remove_tail_dangles_witness:
  "\<exists>p l'. zend_llist_remove_tail sample_llist = Some (p, l') \<and> p \<noteq> None \<and> deref l' p = None"
  using llist_remove_tail_dangles [of sample_llist "[3, 1]" 2] sample_llist_rep by auto

end
