(* ===== verification/Zend_Hash_Func.thy ===== *)
theory Zend_Hash_Func
  imports Zend_Prelude
begin

unbundle bit_operations_syntax

text \<open>
  The string hash of \<open>Zend/zend_hash.h\<close> (DJBX33A), with its loop unrolled eight times and its
  fall-through \<open>switch\<close>, and the recognition of numeric strings by \<open>ZEND_HANDLE_NUMERIC_EX\<close>.
  Keys are lists of bytes; \<open>char\<close> is signed, so a byte is sign-extended when it is added to the
  64-bit hash.
\<close>

definition hash_step :: "ulong \<Rightarrow> byte \<Rightarrow> ulong" where
  "hash_step hash c = (push_bit 5 hash + hash) + scast c"

text \<open>The \<open>switch (nKeyLength)\<close>: the cases fall through from the number of bytes left.\<close>

fun hash_tail :: "nat \<Rightarrow> byte list \<Rightarrow> ulong \<Rightarrow> ulong" where
  "hash_tail (Suc n) (c # cs) hash = hash_tail n cs (hash_step hash c)"
| "hash_tail _ _ hash = hash"

fun inline_hash_loop :: "ulong \<Rightarrow> byte list \<Rightarrow> ulong" where
  "inline_hash_loop hash (c1 # c2 # c3 # c4 # c5 # c6 # c7 # c8 # cs) =
     (let hash = hash_step hash c1;
          hash = hash_step hash c2;
          hash = hash_step hash c3;
          hash = hash_step hash c4;
          hash = hash_step hash c5;
          hash = hash_step hash c6;
          hash = hash_step hash c7;
          hash = hash_step hash c8
      in inline_hash_loop hash cs)"
| "inline_hash_loop hash cs = hash_tail (length cs) cs hash"

definition zend_inline_hash_func :: "byte list \<Rightarrow> ulong" where
  "zend_inline_hash_func arKey = inline_hash_loop 5381 arKey"

definition zend_hash_func :: "byte list \<Rightarrow> ulong" where
  "zend_hash_func arKey = zend_inline_hash_func arKey"

definition zend_get_hash_value :: "byte list \<Rightarrow> ulong" where
  "zend_get_hash_value arKey = zend_inline_hash_func arKey"

lemma hash_tail_fold: "hash_tail (length cs) cs hash = foldl hash_step hash cs"
  by (induction cs arbitrary: hash) auto

lemma inline_hash_fold: "inline_hash_loop hash cs = foldl hash_step hash cs"
  by (induction hash cs rule: inline_hash_loop.induct) (simp_all add: Let_def)

subsection \<open>Numeric strings\<close>

text \<open>
  \<open>ZEND_HANDLE_NUMERIC_EX(key, length, idx, func)\<close> runs \<open>func\<close> with \<open>idx\<close> when the key
  is the canonical decimal of a \<open>long\<close>: the result is \<open>Some idx\<close> then, and \<open>None\<close> when the
  macro falls through to the string code. \<open>length\<close> counts the terminating NUL of the key, which
  is the last byte of the list. \<open>SIZEOF_LONG\<close> is 8, so \<open>MAX_LENGTH_OF_LONG\<close> is 20 and the
  branch for 4-byte longs is not there.
\<close>

definition MAX_LENGTH_OF_LONG :: nat where "MAX_LENGTH_OF_LONG = 20"

definition LONG_MAX :: ulong where "LONG_MAX = 2 ^ 63 - 1"

definition is_digit :: "byte \<Rightarrow> bool" where
  "is_digit c \<longleftrightarrow> 48 \<le> c \<and> c \<le> 57"

text \<open>\<open>while (++tmp != end && *tmp >= '0' && *tmp <= '9')\<close>: the index, and whether \<open>end\<close> was reached.\<close>

fun read_digits :: "ulong \<Rightarrow> byte list \<Rightarrow> ulong \<times> bool" where
  "read_digits idx [] = (idx, True)"
| "read_digits idx (c # cs) =
     (if is_digit c then read_digits (idx * 10 + ucast (c - 48)) cs else (idx, False))"

definition handle_numeric :: "byte list \<Rightarrow> ulong option" where
  "handle_numeric key =
     (case key of
        [] \<Rightarrow> None
      | first # rest \<Rightarrow>
          let tmp = (if first = 45 then rest else key) in
          (case tmp of
             [] \<Rightarrow> None
           | d # ds \<Rightarrow>
               if \<not> is_digit d then None
               else if last key \<noteq> 0 \<or> (d = 48 \<and> length key > 2)
                 \<or> length tmp - 1 > MAX_LENGTH_OF_LONG - 1 then None
               else
                 (case read_digits (ucast (d - 48)) (butlast ds) of
                    (idx, at_end) \<Rightarrow>
                      if \<not> at_end then None
                      else if first = 45 then
                        (if idx - 1 > LONG_MAX then None else Some (0 - idx))
                      else if idx > LONG_MAX then None
                      else Some idx)))"

end
