(* ===== verification/Zend_Hash_Func_Correct.thy ===== *)
theory Zend_Hash_Func_Correct
  imports Zend_Hash_Func
begin

text \<open>
  The string hash against its definition as a fold, and the recognition of numeric keys against
  decimal printing: \<open>decimal z\<close> is what \<open>%ld\<close> prints for \<open>z\<close>.
\<close>

subsection \<open>Decimal notation\<close>

fun digits :: "nat \<Rightarrow> byte list" where
  "digits n = (if n < 10 then [48 + of_nat n] else digits (n div 10) @ [48 + of_nat (n mod 10)])"

declare digits.simps [simp del]

definition decimal :: "int \<Rightarrow> byte list" where
  "decimal z = (if z < 0 then 45 # digits (nat (- z)) else digits (nat z))"

definition digit_value :: "byte list \<Rightarrow> nat" where
  "digit_value ds = foldl (\<lambda>v c. v * 10 + unat (c - 48)) 0 ds"

lemma digit_value_simps [simp]:
  "digit_value [] = 0" "digit_value (ds @ [c]) = digit_value ds * 10 + unat (c - 48)"
  by (simp_all add: digit_value_def)

lemma unat_48 [simp]: "n < 10 \<Longrightarrow> unat (48 + of_nat n :: byte) = 48 + n"
  by (simp add: unat_word_ariths unat_of_nat)

lemma is_digit_iff: "is_digit c \<longleftrightarrow> (\<exists>n < 10. c = 48 + of_nat n)"
proof
  assume "is_digit c"
  then have "48 \<le> unat c" "unat c \<le> 57" by (simp_all add: is_digit_def word_le_nat_alt)
  then have "unat c - 48 < 10" "c = 48 + of_nat (unat c - 48)"
    by (simp_all add: of_nat_diff)
  then show "\<exists>n < 10. c = 48 + of_nat n" by blast
next
  assume "\<exists>n < 10. c = 48 + of_nat n"
  then show "is_digit c" by (auto simp: is_digit_def word_le_nat_alt)
qed

lemma digit_unat [simp]: "n < 10 \<Longrightarrow> unat (of_nat n :: byte) = n"
  by (simp add: unat_of_nat)

lemma is_digit_of_nat [simp]: "n < 10 \<Longrightarrow> is_digit (48 + of_nat n)"
  by (auto simp: is_digit_iff)

lemma digits_are_digits: "\<forall>c \<in> set (digits n). is_digit c"
proof (induction n rule: digits.induct)
  case (1 n)
  then show ?case by (subst digits.simps) auto
qed

lemma digits_not_Nil [simp]: "digits n \<noteq> []"
  by (subst digits.simps) simp

lemma digit_value_digits [simp]: "digit_value (digits n) = n"
proof (induction n rule: digits.induct)
  case (1 n)
  show ?case
  proof (cases "n < 10")
    case True
    then have "digits n = [] @ [48 + of_nat n]" by (simp add: digits.simps [of n])
    then show ?thesis using True by (simp only: digit_value_simps) simp
  next
    case False
    then have "digits n = digits (n div 10) @ [48 + of_nat (n mod 10)]" by (simp add: digits.simps [of n])
    then show ?thesis using 1 [OF False] by simp
  qed
qed

text \<open>No leading zero: the first digit is not \<open>0\<close> unless it is the only one.\<close>

lemma digits_first: "hd (digits n) = 48 \<Longrightarrow> n = 0"
proof (induction n rule: digits.induct)
  case (1 n)
  show ?case
  proof (cases "n < 10")
    case True
    then have "unat (48 + of_nat n :: byte) = unat (48 :: byte)" using "1.prems" by (simp add: digits.simps [of n])
    then show ?thesis using True by simp
  next
    case False
    then have "n div 10 = 0" using 1 by (simp add: digits.simps [of n])
    then show ?thesis using False by simp
  qed
qed

lemma digits_digit_value:
  assumes "\<forall>c \<in> set ds. is_digit c" and "ds \<noteq> []" and "hd ds \<noteq> 48 \<or> length ds = 1"
  shows "digits (digit_value ds) = ds"
  using assms
proof (induction ds rule: rev_induct)
  case (snoc c ds)
  obtain n where n: "n < 10" "c = 48 + of_nat n" using snoc.prems(1) by (auto simp: is_digit_iff)
  show ?case
  proof (cases "ds = []")
    case True
    then show ?thesis using n digit_value_simps(2) [of "[]" c] by (simp add: digits.simps)
  next
    case False
    then have ds: "hd ds \<noteq> 48" using snoc.prems(3) by (cases ds) auto
    then have IH: "digits (digit_value ds) = ds" using snoc.IH snoc.prems(1) False by simp
    have "digit_value ds \<noteq> 0"
    proof
      assume "digit_value ds = 0"
      then have "ds = [48]" using IH by (simp add: digits.simps)
      then show False using ds by simp
    qed
    then show ?thesis using IH n by (subst digits.simps) simp
  qed
qed simp

lemma digit_value_bound: "\<forall>c \<in> set ds. is_digit c \<Longrightarrow> digit_value ds < 10 ^ length ds"
proof (induction ds rule: rev_induct)
  case (snoc c ds)
  obtain n where "n < 10" "c = 48 + of_nat n" using snoc.prems by (auto simp: is_digit_iff)
  then show ?case using snoc by simp
qed simp

lemma digits_length: "n < 10 ^ Suc k \<Longrightarrow> length (digits n) \<le> Suc k"
proof (induction k arbitrary: n)
  case 0
  then show ?case by (simp add: digits.simps [of n])
next
  case (Suc k)
  show ?case
  proof (cases "n < 10")
    case True
    then show ?thesis by (simp add: digits.simps [of n])
  next
    case False
    have "n div 10 < 10 ^ Suc k" using Suc.prems by (simp add: less_mult_imp_div_less)
    then show ?thesis using Suc.IH [of "n div 10"] False by (simp add: digits.simps [of n])
  qed
qed

subsection \<open>\<open>ZEND_HANDLE_NUMERIC_EX\<close>\<close>

lemma read_digits_run:
  "\<forall>c \<in> set ds. is_digit c \<Longrightarrow>
    read_digits (of_nat v) ds = (of_nat (foldl (\<lambda>v c. v * 10 + unat (c - 48)) v ds), True)"
proof (induction ds arbitrary: v)
  case (Cons c ds)
  have "of_nat v * 10 + ucast (c - 48) = (of_nat (v * 10 + unat (c - 48)) :: ulong)"
    by simp
  then show ?case using Cons.IH [of "v * 10 + unat (c - 48)"] Cons.prems
    by (simp del: of_nat_add of_nat_mult)
qed simp

lemma read_digits_stops: "snd (read_digits v ds) \<longleftrightarrow> (\<forall>c \<in> set ds. is_digit c)"
  by (induction ds arbitrary: v) auto

lemma read_digits_value:
  assumes "\<forall>c \<in> set (d # ds). is_digit c"
  shows "read_digits (ucast (d - 48)) ds = (of_nat (digit_value (d # ds)), True)"
  using read_digits_run [of ds "unat (d - 48)"] assms by (simp add: digit_value_def)

text \<open>What the macro does with the digits, once they are known to be digits.\<close>

definition accept :: "bool \<Rightarrow> nat \<Rightarrow> ulong option" where
  "accept neg v = (if neg then (if v - 1 < 2 ^ 63 then Some (- of_nat v) else None)
     else if v < 2 ^ 63 then Some (of_nat v) else None)"

lemma accept_eq:
  assumes "v < 2 ^ 64" and "neg \<Longrightarrow> 0 < v"
  shows "(if neg then (if (of_nat v :: ulong) - 1 > LONG_MAX then None else Some (0 - of_nat v))
      else if (of_nat v :: ulong) > LONG_MAX then None else Some (of_nat v)) = accept neg v"
proof -
  have u: "unat (of_nat v :: ulong) = v" using assms(1) by (simp add: unat_of_nat)
  have m: "unat LONG_MAX = 2 ^ 63 - 1" by (simp add: LONG_MAX_def)
  show ?thesis
  proof (cases neg)
    case True
    then have "(of_nat v :: ulong) - 1 = of_nat (v - 1)" using assms(2) by (simp add: of_nat_diff)
    moreover have "unat (of_nat (v - 1) :: ulong) = v - 1" using assms(1) by (simp add: unat_of_nat)
    ultimately show ?thesis using True m by (auto simp: accept_def word_less_nat_alt)
  next
    case False
    then show ?thesis using u m by (auto simp: accept_def word_less_nat_alt)
  qed
qed

definition canonical :: "bool \<Rightarrow> byte list \<Rightarrow> bool" where
  "canonical neg ds \<longleftrightarrow> (\<forall>c \<in> set ds. is_digit c) \<and> ds \<noteq> [] \<and> length ds \<le> 19 \<and>
     (hd ds = 48 \<longrightarrow> \<not> neg \<and> length ds = 1)"

lemma is_digit_not: "\<not> is_digit 45" "\<not> is_digit 0"
  by (simp_all add: is_digit_def)

lemma canonical_neg_pos:
  assumes "canonical True ds" shows "0 < digit_value ds"
proof (rule ccontr)
  assume "\<not> 0 < digit_value ds"
  then have "digits 0 = ds" using digits_digit_value [of ds] assms by (auto simp: canonical_def)
  then have "ds = [48]" by (simp add: digits.simps)
  then show False using assms by (simp add: canonical_def)
qed

lemma handle_numeric_canonical:
  assumes "canonical neg ds"
  shows "handle_numeric ((if neg then [45] else []) @ ds @ [0]) = accept neg (digit_value ds)"
proof -
  obtain d cs where ds: "ds = d # cs" using assms by (cases ds) (auto simp: canonical_def)
  have d: "is_digit d" "d \<noteq> 45" using assms is_digit_not by (auto simp: canonical_def ds)
  have len: "\<not> MAX_LENGTH_OF_LONG - Suc 0 < Suc (length cs)" using assms by (simp add: canonical_def ds MAX_LENGTH_OF_LONG_def)
  have rd: "read_digits (ucast (d - 48)) cs = (of_nat (digit_value ds), True)"
    using read_digits_value [of d cs] assms by (simp add: canonical_def ds)
  have "digit_value ds < 10 ^ length ds" using digit_value_bound assms by (simp add: canonical_def)
  moreover have "(10 :: nat) ^ length ds \<le> 10 ^ 19" using assms by (intro power_increasing) (auto simp: canonical_def)
  ultimately have bound: "digit_value ds < 2 ^ 64" by simp
  have pos: "0 < digit_value ds" if neg using canonical_neg_pos assms that by simp
  have z: "d = 48 \<longrightarrow> \<not> neg \<and> cs = []" using assms by (simp add: canonical_def ds)
  show ?thesis
    using accept_eq [OF bound, of neg] pos d len rd z
    by (auto simp: handle_numeric_def ds Let_def)
qed

lemma handle_numeric_shape:
  assumes "handle_numeric key = Some idx"
  obtains neg ds where "key = (if neg then [45] else []) @ ds @ [0]" "canonical neg ds"
proof -
  obtain first rest where key: "key = first # rest"
    using assms by (cases key) (auto simp: handle_numeric_def)
  define neg where "neg \<longleftrightarrow> first = 45"
  define tmp where "tmp = (if first = 45 then rest else key)"
  have T: "(if first = 45 then rest else first # rest) = tmp" by (simp add: tmp_def key)
  obtain d cs where tmp: "tmp = d # cs"
    using assms by (cases tmp) (simp_all add: handle_numeric_def key T Let_def)
  have H: "is_digit d" "last key = 0" "d = 48 \<longrightarrow> length key \<le> 2" "length cs \<le> 19"
    "snd (read_digits (ucast (d - 48)) (butlast cs))"
    using assms tmp
    by (auto simp: handle_numeric_def key T Let_def MAX_LENGTH_OF_LONG_def
        split: if_splits prod.splits)
  have "last tmp = 0" using H(2) tmp by (auto simp: tmp_def key split: if_splits)
  moreover have "d \<noteq> 0" using H(1) is_digit_not by auto
  ultimately have cs: "cs \<noteq> []" "last cs = 0" using tmp by (auto split: if_splits)
  then have cs': "cs = butlast cs @ [0]" by (metis append_butlast_last_id)
  have "key = (if neg then [45] else []) @ (d # butlast cs) @ [0]"
    using tmp cs' by (auto simp: tmp_def neg_def key split: if_splits)
  moreover from this have "canonical neg (d # butlast cs)"
    using H read_digits_stops by (auto simp: canonical_def)
  ultimately show thesis by (rule that)
qed

lemma canonical_digits: "v < 10 ^ 19 \<Longrightarrow> (neg \<Longrightarrow> 0 < v) \<Longrightarrow> canonical neg (digits v)"
  using digits_first [of v] digits_length [of v 18]
  by (auto simp: canonical_def digits_are_digits digits.simps [of 0])

lemma decimal_cases:
  assumes "- (2 ^ 63) \<le> z" and "z < 2 ^ 63"
  shows "canonical (z < 0) (digits (nat \<bar>z\<bar>)) \<and> decimal z = (if z < 0 then [45] else []) @ digits (nat \<bar>z\<bar>)
    \<and> accept (z < 0) (nat \<bar>z\<bar>) = Some (word_of_int z)"
proof -
  have "nat \<bar>z\<bar> < 10 ^ 19" using assms by simp
  then show ?thesis using assms canonical_digits [of "nat \<bar>z\<bar>" "z < 0"]
    by (auto simp: decimal_def accept_def of_nat_nat)
qed

lemma accept_Some:
  assumes "accept neg v = Some idx"
  shows "\<exists>z. - (2 ^ 63) \<le> z \<and> z < 2 ^ 63 \<and> idx = word_of_int z \<and> z = (if neg then - int v else int v)"
  using assms by (auto simp: accept_def split: if_splits)

subsection \<open>Properties\<close>

text \<open>
  C30: the hash function, unrolled eight times with a fall-through \<open>switch\<close> for the rest, is the
  fold \<open>hash * 33 + c\<close> over all bytes of the key, from 5381, modulo \<open>2^64\<close>.
\<close>

theorem inline_hash_is_times_33:
  "zend_inline_hash_func key = foldl (\<lambda>hash c. hash * 33 + scast c) 5381 key"
proof -
  have "hash_step = (\<lambda>hash c. hash * 33 + scast c)"
    by (simp add: hash_step_def fun_eq_iff push_bit_eq_mult)
  then show ?thesis by (simp add: zend_inline_hash_func_def inline_hash_fold)
qed

text \<open>
  C31: the numeric-key macro takes a NUL-terminated key for an integer exactly when the key is
  the decimal notation of a 64-bit \<open>long\<close> as \<open>%ld\<close> prints it (no leading zeros, no \<open>-0\<close>, no
  overflow), and then yields that integer.
\<close>

theorem handle_numeric_iff_decimal:
  "handle_numeric key = Some idx \<longleftrightarrow>
    (\<exists>z. - (2 ^ 63) \<le> z \<and> z < 2 ^ 63 \<and> key = decimal z @ [0] \<and> idx = word_of_int z)"
proof
  assume h: "handle_numeric key = Some idx"
  then obtain neg ds where k: "key = (if neg then [45] else []) @ ds @ [0]" "canonical neg ds"
    by (rule handle_numeric_shape)
  then have "accept neg (digit_value ds) = Some idx" using handle_numeric_canonical h by metis
  then obtain z where z: "- (2 ^ 63) \<le> z" "z < 2 ^ 63" "idx = word_of_int z"
    "z = (if neg then - int (digit_value ds) else int (digit_value ds))"
    using accept_Some by blast
  have ds: "digits (digit_value ds) = ds" using k(2) digits_digit_value [of ds] by (auto simp: canonical_def)
  have "neg \<longrightarrow> digit_value ds \<noteq> 0" using k(2) canonical_neg_pos [of ds] by auto
  then have "key = decimal z @ [0]" using k(1) z(4) ds by (auto simp: decimal_def)
  then show "\<exists>z. - (2 ^ 63) \<le> z \<and> z < 2 ^ 63 \<and> key = decimal z @ [0] \<and> idx = word_of_int z" using z by blast
next
  assume "\<exists>z. - (2 ^ 63) \<le> z \<and> z < 2 ^ 63 \<and> key = decimal z @ [0] \<and> idx = word_of_int z"
  then obtain z where z: "- (2 ^ 63) \<le> z" "z < 2 ^ 63" "key = decimal z @ [0]" "idx = word_of_int z" by blast
  note d = decimal_cases [OF z(1,2)]
  then show "handle_numeric key = Some idx"
    using handle_numeric_canonical [of "z < 0" "digits (nat \<bar>z\<bar>)"] z by simp
qed

end
