(* ===== verification/Zend_Hash.thy ===== *)
theory Zend_Hash
  imports Zend_Hash_Func
begin

text \<open>
  \<open>Zend/zend_hash.c\<close>: the hash table behind every PHP array and symbol table, bucket by bucket
  and pointer by pointer. A table owns the arena of its buckets. Each bucket is on two doubly linked
  lists: the collision chain of its slot (\<open>pNext\<close>, \<open>pLast\<close>) and the insertion-order list of
  the table (\<open>pListNext\<close>, \<open>pListLast\<close>).

  The data a bucket holds (\<open>pData\<close>, copied from the caller, inline or in a block of its own) is a
  value of type \<open>'d\<close>. \<open>destroyed\<close> records the data that \<open>pDestructor\<close> was called on.
  \<open>can_grow\<close> is the answer of \<open>perealloc_recoverable\<close> by the number of bytes asked for, the
  one allocation that may fail. \<open>ulong\<close> is 64 bits, \<open>uint\<close> is 32 bits.
\<close>

subsection \<open>Keys\<close>

text \<open>
  A \<open>char *\<close> key: an interned string, whose address is determined by its contents; the copy of
  a key that lies right behind the bucket at some address of the table; or a buffer outside of the
  table's buckets, whose address is equal to none of theirs.
\<close>

datatype key_ptr = Interned "byte list" | Buf nat "byte list" | Outside "byte list"

fun kbytes :: "key_ptr \<Rightarrow> byte list" where
  "kbytes (Interned s) = s"
| "kbytes (Buf a s) = s"
| "kbytes (Outside s) = s"

fun IS_INTERNED :: "key_ptr \<Rightarrow> bool" where
  "IS_INTERNED (Interned s) = True"
| "IS_INTERNED _ = False"

text \<open>
  \<open>p->arKey == arKey\<close>, for the key of a bucket and a pointer of the caller, neither
  \<open>NULL\<close>.
\<close>

fun same_ptr :: "key_ptr \<Rightarrow> key_ptr \<Rightarrow> bool" where
  "same_ptr (Interned s) (Interned t) \<longleftrightarrow> s = t"
| "same_ptr (Buf a s) (Buf b t) \<longleftrightarrow> a = b"
| "same_ptr _ _ \<longleftrightarrow> False"

definition klen :: "key_ptr \<Rightarrow> uint" where
  "klen k = of_nat (length (kbytes k))"

subsection \<open>The table\<close>

record 'd bucket =
  b_h :: ulong
  nKeyLength :: uint
  pData :: 'd
  pListNext :: ptr
  pListLast :: ptr
  pNext :: ptr
  pLast :: ptr
  arKey :: "key_ptr option"

record 'd hashtable = "'d bucket arena" +
  nTableSize :: uint
  nTableMask :: uint
  nNumOfElements :: uint
  nNextFreeElement :: ulong
  pInternalPointer :: ptr
  pListHead :: ptr
  pListTail :: ptr
  arBuckets :: "ptr list"
  pDestructor :: bool
  ht_persistent :: bool
  nApplyCount :: "8 word"
  bApplyProtection :: bool
  ht_destroyed :: "'d list"
  can_grow :: "nat \<Rightarrow> bool"

definition HASH_UPDATE :: uint where "HASH_UPDATE = 1"
definition HASH_ADD :: uint where "HASH_ADD = 2"
definition HASH_NEXT_INSERT :: uint where "HASH_NEXT_INSERT = 4"

definition has_flag :: "uint \<Rightarrow> uint \<Rightarrow> bool" where
  "has_flag flag b \<longleftrightarrow> flag AND b \<noteq> 0"

text \<open>\<open>nIndex = h & ht->nTableMask\<close>, and the reads and writes of \<open>arBuckets[nIndex]\<close>.\<close>

definition nIndex :: "'d hashtable \<Rightarrow> ulong \<Rightarrow> nat" where
  "nIndex ht h = unat (h AND ucast (nTableMask ht))"

definition get_slot :: "'d hashtable \<Rightarrow> nat \<Rightarrow> ptr option" where
  "get_slot ht i = (if i < length (arBuckets ht) then Some (arBuckets ht ! i) else None)"

definition put_slot :: "nat \<Rightarrow> ptr \<Rightarrow> 'd hashtable \<Rightarrow> 'd hashtable option" where
  "put_slot i p ht = (if i < length (arBuckets ht) then Some (ht\<lparr>arBuckets := (arBuckets ht)[i := p]\<rparr>) else None)"

definition call_destructor :: "'d \<Rightarrow> 'd hashtable \<Rightarrow> 'd hashtable" where
  "call_destructor d ht = (if pDestructor ht then ht\<lparr>ht_destroyed := ht_destroyed ht @ [d]\<rparr> else ht)"

subsection \<open>The macros\<close>

definition CONNECT_TO_BUCKET_DLLIST :: "nat \<Rightarrow> nat \<Rightarrow> 'd hashtable \<Rightarrow> 'd hashtable option" where
  "CONNECT_TO_BUCKET_DLLIST element i ht = do {
     list_head \<leftarrow> get_slot ht i;
     ht \<leftarrow> poke (\<lambda>b. b\<lparr>pNext := list_head, pLast := None\<rparr>) (Some element) ht;
     poke_if (pLast_update (\<lambda>_. Some element)) list_head ht
   }"

definition CONNECT_TO_GLOBAL_DLLIST :: "nat \<Rightarrow> 'd hashtable \<Rightarrow> 'd hashtable option" where
  "CONNECT_TO_GLOBAL_DLLIST element ht = do {
     let last = pListTail ht;
     ht \<leftarrow> poke (\<lambda>b. b\<lparr>pListLast := last, pListNext := None\<rparr>) (Some element) (ht\<lparr>pListTail := Some element\<rparr>);
     ht \<leftarrow> poke_if (pListNext_update (\<lambda>_. Some element)) last ht;
     let ht = (if pListHead ht = None then ht\<lparr>pListHead := Some element\<rparr> else ht);
     Some (if pInternalPointer ht = None then ht\<lparr>pInternalPointer := Some element\<rparr> else ht)
   }"

definition CHECK_INIT :: "'d hashtable \<Rightarrow> 'd hashtable" where
  "CHECK_INIT ht =
     (if nTableMask ht = 0
      then ht\<lparr>arBuckets := replicate (unat (nTableSize ht)) None, nTableMask := nTableSize ht - 1\<rparr>
      else ht)"

subsection \<open>Initialisation\<close>

function size_loop :: "uint \<Rightarrow> nat \<Rightarrow> nat" where
  "size_loop nSize i = (if i < 32 \<and> push_bit i 1 < nSize then size_loop nSize (i + 1) else i)"
  by pat_completeness auto
termination
  by (relation "measure (\<lambda>(n, i). 32 - i)") auto

declare size_loop.simps [simp del]

text \<open>
  The shift \<open>1U << i\<close> is defined for \<open>i < 32\<close> only; the guard \<open>i < 32\<close> never stops the loop,
  since \<open>nSize\<close> is below \<open>2^31\<close> there. \<open>uninitialized_bucket\<close> is a one-element array
  holding \<open>NULL\<close>: the zero mask makes every lookup read it.
\<close>

definition zend_hash_init :: "uint \<Rightarrow> bool \<Rightarrow> bool \<Rightarrow> 'd hashtable \<Rightarrow> 'd hashtable" where
  "zend_hash_init nSize pDtor pers ht =
     ht\<lparr>nTableSize := (if nSize \<ge> 0x80000000 then 0x80000000 else push_bit (size_loop nSize 3) 1),
        nTableMask := 0, pDestructor := pDtor, arBuckets := [None],
        pListHead := None, pListTail := None, nNumOfElements := 0, nNextFreeElement := 0,
        pInternalPointer := None, ht_persistent := pers, nApplyCount := 0, bApplyProtection := True\<rparr>"

definition zend_hash_init_ex :: "uint \<Rightarrow> bool \<Rightarrow> bool \<Rightarrow> bool \<Rightarrow> 'd hashtable \<Rightarrow> 'd hashtable" where
  "zend_hash_init_ex nSize pDtor pers protect ht =
     (zend_hash_init nSize pDtor pers ht)\<lparr>bApplyProtection := protect\<rparr>"

definition zend_hash_set_apply_protection :: "'d hashtable \<Rightarrow> bool \<Rightarrow> 'd hashtable" where
  "zend_hash_set_apply_protection ht protect = ht\<lparr>bApplyProtection := protect\<rparr>"

subsection \<open>Rehashing and growing\<close>

partial_function (option) rehash_loop :: "ptr \<Rightarrow> 'd hashtable \<Rightarrow> 'd hashtable option" where
  "rehash_loop p ht =
     (case p of None \<Rightarrow> Some ht
      | Some a \<Rightarrow> do {
          b \<leftarrow> deref ht p;
          let i = nIndex ht (b_h b);
          ht \<leftarrow> CONNECT_TO_BUCKET_DLLIST a i ht;
          ht \<leftarrow> put_slot i p ht;
          b \<leftarrow> deref ht p;
          rehash_loop (pListNext b) ht
        })"

definition zend_hash_rehash :: "'d hashtable \<Rightarrow> (int \<times> 'd hashtable) option" where
  "zend_hash_rehash ht =
     (if nNumOfElements ht = 0 then Some (SUCCESS, ht)
      else do {
        ht \<leftarrow> rehash_loop (pListHead ht) (ht\<lparr>arBuckets := replicate (unat (nTableSize ht)) None\<rparr>);
        Some (SUCCESS, ht)
      })"

text \<open>\<open>realloc\<close> keeps the old slots; the new ones are uninitialised until \<open>zend_hash_rehash\<close>.\<close>

definition zend_hash_do_resize :: "'d hashtable \<Rightarrow> (int \<times> 'd hashtable) option" where
  "zend_hash_do_resize ht =
     (let size2 = push_bit 1 (nTableSize ht) in
      if size2 > 0 then
        (if can_grow ht (unat size2 * 8) then do {
           (_, ht) \<leftarrow> zend_hash_rehash
             (ht\<lparr>arBuckets := arBuckets ht @ replicate (unat size2 - length (arBuckets ht)) None,
                 nTableSize := size2, nTableMask := size2 - 1\<rparr>);
           Some (SUCCESS, ht)
         }
         else Some (FAILURE, ht))
      else Some (SUCCESS, ht))"

definition ZEND_HASH_IF_FULL_DO_RESIZE :: "'d hashtable \<Rightarrow> 'd hashtable option" where
  "ZEND_HASH_IF_FULL_DO_RESIZE ht =
     (if nNumOfElements ht > nTableSize ht then map_option snd (zend_hash_do_resize ht) else Some ht)"

subsection \<open>Walking a chain\<close>

text \<open>The \<open>while (p != NULL)\<close> loops over a collision chain: the first bucket that matches.\<close>

partial_function (option) chain_find :: "('d bucket \<Rightarrow> bool) \<Rightarrow> ptr \<Rightarrow> 'd hashtable \<Rightarrow> ptr option" where
  "chain_find match p ht =
     (if p = None then Some None
      else do {
        b \<leftarrow> deref ht p;
        if match b then Some p else chain_find match (pNext b) ht
      })"

text \<open>
  \<open>memcmp(p->arKey, arKey, nKeyLength)\<close> is called on buckets whose \<open>nKeyLength\<close> is the
  caller's. With length 0 it reads nothing; otherwise the bucket has a key.
\<close>

definition memcmp_eq :: "key_ptr option \<Rightarrow> key_ptr \<Rightarrow> uint \<Rightarrow> bool" where
  "memcmp_eq k key n \<longleftrightarrow> n = 0 \<or>
     (case k of None \<Rightarrow> False | Some k \<Rightarrow> take (unat n) (kbytes k) = take (unat n) (kbytes key))"

definition match_key :: "key_ptr \<Rightarrow> uint \<Rightarrow> ulong \<Rightarrow> 'd bucket \<Rightarrow> bool" where
  "match_key key n h b \<longleftrightarrow>
     (case arKey b of None \<Rightarrow> False | Some k \<Rightarrow> same_ptr k key) \<or>
     (b_h b = h \<and> nKeyLength b = n \<and> memcmp_eq (arKey b) key n)"

definition match_index :: "ulong \<Rightarrow> 'd bucket \<Rightarrow> bool" where
  "match_index h b \<longleftrightarrow> nKeyLength b = 0 \<and> b_h b = h"

subsection \<open>Adding and updating\<close>

text \<open>
  The functions return the code, the data pointer they store in \<open>*pDest\<close> (as the address of the
  bucket whose data it is; \<open>None\<close> where \<open>*pDest\<close> is not written) and the table.
\<close>

text \<open>
  The key a new bucket at address \<open>a\<close> keeps: the interned string, or its own copy of \<open>n\<close>
  bytes.
\<close>

definition store_key :: "key_ptr \<Rightarrow> uint \<Rightarrow> nat \<Rightarrow> key_ptr" where
  "store_key key n a = (if IS_INTERNED key then key else Buf a (take (unat n) (kbytes key)))"

definition new_bucket :: "ulong \<Rightarrow> uint \<Rightarrow> 'd \<Rightarrow> key_ptr option \<Rightarrow> 'd bucket" where
  "new_bucket h n d k = \<lparr>b_h = h, nKeyLength = n, pData = d, pListNext = None, pListLast = None,
     pNext = None, pLast = None, arKey = k\<rparr>"

definition zend_hash_add_or_update ::
  "'d hashtable \<Rightarrow> key_ptr \<Rightarrow> uint \<Rightarrow> 'd \<Rightarrow> uint \<Rightarrow> (int \<times> ptr \<times> 'd hashtable) option" where
  "zend_hash_add_or_update ht key n d flag =
     (if n = 0 then Some (FAILURE, None, ht)
      else do {
        let ht = CHECK_INIT ht;
        let h = zend_inline_hash_func (take (unat n) (kbytes key));
        let i = nIndex ht h;
        p \<leftarrow> get_slot ht i;
        p \<leftarrow> chain_find (match_key key n h) p ht;
        (if p \<noteq> None then
           (if has_flag flag HASH_ADD then Some (FAILURE, None, ht)
            else do {
              b \<leftarrow> deref ht p;
              ht \<leftarrow> poke (pData_update (\<lambda>_. d)) p (call_destructor (pData b) ht);
              Some (SUCCESS, p, ht)
            })
         else do {
           let a = brk ht;
           let (p, ht) = emalloc (new_bucket h n d (Some (store_key key n a))) ht;
           ht \<leftarrow> CONNECT_TO_BUCKET_DLLIST p i ht;
           ht \<leftarrow> CONNECT_TO_GLOBAL_DLLIST p ht;
           ht \<leftarrow> put_slot i (Some p) ht;
           ht \<leftarrow> ZEND_HASH_IF_FULL_DO_RESIZE (ht\<lparr>nNumOfElements := nNumOfElements ht + 1\<rparr>);
           Some (SUCCESS, Some p, ht)
         })
      })"

definition raise_next_free :: "ulong \<Rightarrow> 'd hashtable \<Rightarrow> 'd hashtable" where
  "raise_next_free h ht =
     (if sint h \<ge> sint (nNextFreeElement ht)
      then ht\<lparr>nNextFreeElement := (if h < LONG_MAX then h + 1 else LONG_MAX)\<rparr> else ht)"

definition zend_hash_index_update_or_next_insert ::
  "'d hashtable \<Rightarrow> ulong \<Rightarrow> 'd \<Rightarrow> uint \<Rightarrow> (int \<times> ptr \<times> 'd hashtable) option" where
  "zend_hash_index_update_or_next_insert ht h0 d flag = do {
     let ht = CHECK_INIT ht;
     let h = (if has_flag flag HASH_NEXT_INSERT then nNextFreeElement ht else h0);
     let i = nIndex ht h;
     p \<leftarrow> get_slot ht i;
     p \<leftarrow> chain_find (match_index h) p ht;
     (if p \<noteq> None then
        (if has_flag flag HASH_NEXT_INSERT \<or> has_flag flag HASH_ADD then Some (FAILURE, None, ht)
         else do {
           b \<leftarrow> deref ht p;
           ht \<leftarrow> poke (pData_update (\<lambda>_. d)) p (call_destructor (pData b) ht);
           Some (SUCCESS, p, raise_next_free h ht)
         })
      else do {
        let (p, ht) = emalloc (new_bucket h 0 d None) ht;
        ht \<leftarrow> CONNECT_TO_BUCKET_DLLIST p i ht;
        ht \<leftarrow> put_slot i (Some p) ht;
        ht \<leftarrow> CONNECT_TO_GLOBAL_DLLIST p ht;
        let ht = raise_next_free h ht;
        ht \<leftarrow> ZEND_HASH_IF_FULL_DO_RESIZE (ht\<lparr>nNumOfElements := nNumOfElements ht + 1\<rparr>);
        Some (SUCCESS, Some p, ht)
      })
   }"

definition zend_hash_quick_add_or_update ::
  "'d hashtable \<Rightarrow> key_ptr \<Rightarrow> uint \<Rightarrow> ulong \<Rightarrow> 'd \<Rightarrow> uint \<Rightarrow> (int \<times> ptr \<times> 'd hashtable) option" where
  "zend_hash_quick_add_or_update ht key n h d flag =
     (if n = 0 then zend_hash_index_update_or_next_insert ht h d HASH_UPDATE
      else do {
        let ht = CHECK_INIT ht;
        let i = nIndex ht h;
        p \<leftarrow> get_slot ht i;
        p \<leftarrow> chain_find (match_key key n h) p ht;
        (if p \<noteq> None then
           (if has_flag flag HASH_ADD then Some (FAILURE, None, ht)
            else do {
              b \<leftarrow> deref ht p;
              ht \<leftarrow> poke (pData_update (\<lambda>_. d)) p (call_destructor (pData b) ht);
              Some (SUCCESS, p, ht)
            })
         else do {
           let a = brk ht;
           let (p, ht) = emalloc (new_bucket h n d (Some (store_key key n a))) ht;
           ht \<leftarrow> CONNECT_TO_BUCKET_DLLIST p i ht;
           ht \<leftarrow> put_slot i (Some p) ht;
           ht \<leftarrow> CONNECT_TO_GLOBAL_DLLIST p ht;
           ht \<leftarrow> ZEND_HASH_IF_FULL_DO_RESIZE (ht\<lparr>nNumOfElements := nNumOfElements ht + 1\<rparr>);
           Some (SUCCESS, Some p, ht)
         })
      })"

text \<open>\<open>zend_hash_add_empty_element\<close> adds a fixed dummy datum.\<close>

definition zend_hash_add_empty_element ::
  "'d \<Rightarrow> 'd hashtable \<Rightarrow> key_ptr \<Rightarrow> uint \<Rightarrow> (int \<times> 'd hashtable) option" where
  "zend_hash_add_empty_element dummy ht key n =
     map_option (\<lambda>(r, _, ht). (r, ht)) (zend_hash_add_or_update ht key n dummy HASH_ADD)"

subsection \<open>Finding\<close>

text \<open>\<open>Some None\<close> is \<open>FAILURE\<close>, \<open>Some (Some d)\<close> is \<open>SUCCESS\<close> with the data.\<close>

definition data_at :: "'d hashtable \<Rightarrow> ptr \<Rightarrow> 'd option option" where
  "data_at ht p = (if p = None then Some None else do { b \<leftarrow> deref ht p; Some (Some (pData b)) })"

definition zend_hash_index_find :: "'d hashtable \<Rightarrow> ulong \<Rightarrow> 'd option option" where
  "zend_hash_index_find ht h = do {
     p \<leftarrow> get_slot ht (nIndex ht h);
     p \<leftarrow> chain_find (match_index h) p ht;
     data_at ht p
   }"

definition zend_hash_index_exists :: "'d hashtable \<Rightarrow> ulong \<Rightarrow> bool option" where
  "zend_hash_index_exists ht h = do {
     p \<leftarrow> get_slot ht (nIndex ht h);
     p \<leftarrow> chain_find (match_index h) p ht;
     Some (p \<noteq> None)
   }"

definition zend_hash_find :: "'d hashtable \<Rightarrow> key_ptr \<Rightarrow> uint \<Rightarrow> 'd option option" where
  "zend_hash_find ht key n = do {
     let h = zend_inline_hash_func (take (unat n) (kbytes key));
     p \<leftarrow> get_slot ht (nIndex ht h);
     p \<leftarrow> chain_find (match_key key n h) p ht;
     data_at ht p
   }"

definition zend_hash_quick_find :: "'d hashtable \<Rightarrow> key_ptr \<Rightarrow> uint \<Rightarrow> ulong \<Rightarrow> 'd option option" where
  "zend_hash_quick_find ht key n h =
     (if n = 0 then zend_hash_index_find ht h
      else do {
        p \<leftarrow> get_slot ht (nIndex ht h);
        p \<leftarrow> chain_find (match_key key n h) p ht;
        data_at ht p
      })"

definition zend_hash_exists :: "'d hashtable \<Rightarrow> key_ptr \<Rightarrow> uint \<Rightarrow> bool option" where
  "zend_hash_exists ht key n = do {
     let h = zend_inline_hash_func (take (unat n) (kbytes key));
     p \<leftarrow> get_slot ht (nIndex ht h);
     p \<leftarrow> chain_find (match_key key n h) p ht;
     Some (p \<noteq> None)
   }"

definition zend_hash_quick_exists :: "'d hashtable \<Rightarrow> key_ptr \<Rightarrow> uint \<Rightarrow> ulong \<Rightarrow> bool option" where
  "zend_hash_quick_exists ht key n h =
     (if n = 0 then zend_hash_index_exists ht h
      else do {
        p \<leftarrow> get_slot ht (nIndex ht h);
        p \<leftarrow> chain_find (match_key key n h) p ht;
        Some (p \<noteq> None)
      })"

definition zend_hash_num_elements :: "'d hashtable \<Rightarrow> int" where
  "zend_hash_num_elements ht = sint (nNumOfElements ht)"

definition zend_hash_next_free_element :: "'d hashtable \<Rightarrow> ulong" where
  "zend_hash_next_free_element ht = nNextFreeElement ht"

subsection \<open>Deleting\<close>

text \<open>Taking a bucket out of the insertion-order list, as every deleting function does it.\<close>

definition unlink_global :: "nat \<Rightarrow> 'd hashtable \<Rightarrow> 'd hashtable option" where
  "unlink_global p ht = do {
     b \<leftarrow> deref ht (Some p);
     ht \<leftarrow> (if pListLast b \<noteq> None then poke (pListNext_update (\<lambda>_. pListNext b)) (pListLast b) ht
           else Some (ht\<lparr>pListHead := pListNext b\<rparr>));
     ht \<leftarrow> (if pListNext b \<noteq> None then poke (pListLast_update (\<lambda>_. pListLast b)) (pListNext b) ht
           else Some (ht\<lparr>pListTail := pListLast b\<rparr>));
     Some (if pInternalPointer ht = Some p then ht\<lparr>pInternalPointer := pListNext b\<rparr> else ht)
   }"

text \<open>\<open>HASH_DEL_KEY\<close>, \<open>HASH_DEL_INDEX\<close>, \<open>HASH_DEL_KEY_QUICK\<close>.\<close>

datatype del_flag = HASH_DEL_KEY | HASH_DEL_INDEX | HASH_DEL_KEY_QUICK

definition match_del :: "key_ptr \<Rightarrow> uint \<Rightarrow> ulong \<Rightarrow> 'd bucket \<Rightarrow> bool" where
  "match_del key n h b \<longleftrightarrow> b_h b = h \<and> nKeyLength b = n \<and> (nKeyLength b = 0 \<or> memcmp_eq (arKey b) key n)"

definition zend_hash_del_key_or_index ::
  "'d hashtable \<Rightarrow> key_ptr \<Rightarrow> uint \<Rightarrow> ulong \<Rightarrow> del_flag \<Rightarrow> (int \<times> 'd hashtable) option" where
  "zend_hash_del_key_or_index ht key n h0 flag = do {
     let h = (if flag = HASH_DEL_KEY then zend_inline_hash_func (take (unat n) (kbytes key)) else h0);
     let i = nIndex ht h;
     first \<leftarrow> get_slot ht i;
     p \<leftarrow> chain_find (match_del key n h) first ht;
     (case p of
        None \<Rightarrow> Some (FAILURE, ht)
      | Some a \<Rightarrow> do {
          b \<leftarrow> deref ht p;
          ht \<leftarrow> (if p = first then put_slot i (pNext b) ht
                else poke (pNext_update (\<lambda>_. pNext b)) (pLast b) ht);
          ht \<leftarrow> poke_if (pLast_update (\<lambda>_. pLast b)) (pNext b) ht;
          ht \<leftarrow> unlink_global a ht;
          ht \<leftarrow> efree p (call_destructor (pData b) ht);
          Some (SUCCESS, ht\<lparr>nNumOfElements := nNumOfElements ht - 1\<rparr>)
        })
   }"

text \<open>
  \<open>zend_hash_apply_deleter\<close> deletes the bucket it is given, and returns the next one in
  insertion order. \<open>pListNext\<close> is read after the destructor ran.
\<close>

definition zend_hash_apply_deleter :: "'d hashtable \<Rightarrow> nat \<Rightarrow> (ptr \<times> 'd hashtable) option" where
  "zend_hash_apply_deleter ht p = do {
     b \<leftarrow> deref ht (Some p);
     ht \<leftarrow> (if pLast b \<noteq> None then poke (pNext_update (\<lambda>_. pNext b)) (pLast b) ht
           else put_slot (nIndex ht (b_h b)) (pNext b) ht);
     ht \<leftarrow> poke_if (pLast_update (\<lambda>_. pLast b)) (pNext b) ht;
     ht \<leftarrow> unlink_global p ht;
     let ht = call_destructor (pData b) (ht\<lparr>nNumOfElements := nNumOfElements ht - 1\<rparr>);
     b \<leftarrow> deref ht (Some p);
     let retval = pListNext b;
     ht \<leftarrow> efree (Some p) ht;
     Some (retval, ht)
   }"

subsection \<open>Destroying and cleaning\<close>

partial_function (option) free_loop :: "ptr \<Rightarrow> 'd hashtable \<Rightarrow> 'd hashtable option" where
  "free_loop p ht =
     (if p = None then Some ht
      else do {
        b \<leftarrow> deref ht p;
        ht \<leftarrow> efree p (call_destructor (pData b) ht);
        free_loop (pListNext b) ht
      })"

text \<open>Freeing \<open>arBuckets\<close>: there is no array any more, and the fields keep their values.\<close>

definition free_buckets :: "'d hashtable \<Rightarrow> 'd hashtable" where
  "free_buckets ht = (if nTableMask ht \<noteq> 0 then ht\<lparr>arBuckets := []\<rparr> else ht)"

definition zend_hash_destroy :: "'d hashtable \<Rightarrow> 'd hashtable option" where
  "zend_hash_destroy ht = do {
     ht \<leftarrow> free_loop (pListHead ht) ht;
     Some (free_buckets ht)
   }"

definition zend_hash_clean :: "'d hashtable \<Rightarrow> 'd hashtable option" where
  "zend_hash_clean ht =
     (let p = pListHead ht;
          ht = (if nTableMask ht \<noteq> 0 then ht\<lparr>arBuckets := replicate (unat (nTableSize ht)) None\<rparr> else ht)
      in free_loop p (ht\<lparr>pListHead := None, pListTail := None, nNumOfElements := 0,
           nNextFreeElement := 0, pInternalPointer := None\<rparr>))"

partial_function (option) graceful_loop :: "ptr \<Rightarrow> 'd hashtable \<Rightarrow> 'd hashtable option" where
  "graceful_loop p ht =
     (case p of None \<Rightarrow> Some ht
      | Some a \<Rightarrow> do { (p, ht) \<leftarrow> zend_hash_apply_deleter ht a; graceful_loop p ht })"

definition zend_hash_graceful_destroy :: "'d hashtable \<Rightarrow> 'd hashtable option" where
  "zend_hash_graceful_destroy ht = do {
     ht \<leftarrow> graceful_loop (pListHead ht) ht;
     Some (free_buckets ht)
   }"

partial_function (option) reverse_destroy_loop :: "'d hashtable \<Rightarrow> 'd hashtable option" where
  "reverse_destroy_loop ht =
     (case pListTail ht of None \<Rightarrow> Some ht
      | Some a \<Rightarrow> do { (_, ht) \<leftarrow> zend_hash_apply_deleter ht a; reverse_destroy_loop ht })"

definition zend_hash_graceful_reverse_destroy :: "'d hashtable \<Rightarrow> 'd hashtable option" where
  "zend_hash_graceful_reverse_destroy ht = do {
     ht \<leftarrow> reverse_destroy_loop ht;
     Some (free_buckets ht)
   }"

end
