(* ===== verification/Hash_Chains.thy ===== *)
theory Hash_Chains
  imports Dll Zend_Hash
begin

text \<open>
  The two kinds of links of a hash table, seen as functions on addresses, and the collision chains
  as a whole: \<open>chains_ok\<close> says that the array \<open>bs\<close> of first buckets and the chain links
  spread the buckets \<open>A\<close> over the slots as \<open>sl\<close> tells. Insertion at the front of a slot and
  removal are proved here once, for the operations, the rehashing and the key change alike.
\<close>

subsection \<open>Fields of the cells\<close>

type_synonym 'd cells_map = "nat \<rightharpoonup> 'd bucket"

definition gnx :: "'d cells_map \<Rightarrow> nat \<Rightarrow> ptr" where "gnx C a = Option.bind (C a) pListNext"
definition gpv :: "'d cells_map \<Rightarrow> nat \<Rightarrow> ptr" where "gpv C a = Option.bind (C a) pListLast"
definition cnx :: "'d cells_map \<Rightarrow> nat \<Rightarrow> ptr" where "cnx C a = Option.bind (C a) pNext"
definition cpv :: "'d cells_map \<Rightarrow> nat \<Rightarrow> ptr" where "cpv C a = Option.bind (C a) pLast"

text \<open>What a bucket holds beside its links.\<close>

definition payload :: "'d bucket \<Rightarrow> ulong \<times> uint \<times> 'd \<times> key_ptr option" where
  "payload b = (b_h b, nKeyLength b, pData b, arKey b)"

definition pay :: "'d cells_map \<Rightarrow> nat \<Rightarrow> (ulong \<times> uint \<times> 'd \<times> key_ptr option) option" where
  "pay C a = map_option payload (C a)"

named_theorems cell_upd \<open>fields of a map of cells after one cell changed\<close>

lemma field_upd [cell_upd]:
  "gnx (C(a \<mapsto> b)) = (gnx C)(a := pListNext b)" "gpv (C(a \<mapsto> b)) = (gpv C)(a := pListLast b)"
  "cnx (C(a \<mapsto> b)) = (cnx C)(a := pNext b)" "cpv (C(a \<mapsto> b)) = (cpv C)(a := pLast b)"
  "pay (C(a \<mapsto> b)) = (pay C)(a \<mapsto> payload b)"
  by (simp_all add: fun_eq_iff gnx_def gpv_def cnx_def cpv_def pay_def)

lemma field_free [cell_upd]:
  "gnx (C(a := None)) = (gnx C)(a := None)" "gpv (C(a := None)) = (gpv C)(a := None)"
  "cnx (C(a := None)) = (cnx C)(a := None)" "cpv (C(a := None)) = (cpv C)(a := None)"
  "pay (C(a := None)) = (pay C)(a := None)"
  by (simp_all add: fun_eq_iff gnx_def gpv_def cnx_def cpv_def pay_def)

lemma field_at:
  assumes "C a = Some b"
  shows "gnx C a = pListNext b" "gpv C a = pListLast b" "cnx C a = pNext b" "cpv C a = pLast b"
    "pay C a = Some (payload b)"
  using assms by (simp_all add: gnx_def gpv_def cnx_def cpv_def pay_def)

lemma field_same [cell_upd]:
  assumes "C a = Some b"
  shows "(gnx C)(a := pListNext b) = gnx C" "(gpv C)(a := pListLast b) = gpv C"
    "(cnx C)(a := pNext b) = cnx C" "(cpv C)(a := pLast b) = cpv C" "(pay C)(a \<mapsto> payload b) = pay C"
  by (simp_all add: fun_eq_iff gnx_def gpv_def cnx_def cpv_def pay_def assms)

lemma payload_links [cell_upd]:
  "payload (b\<lparr>pListNext := p\<rparr>) = payload b" "payload (b\<lparr>pListLast := p\<rparr>) = payload b"
  "payload (b\<lparr>pNext := p\<rparr>) = payload b" "payload (b\<lparr>pLast := p\<rparr>) = payload b"
  by (simp_all add: payload_def)

lemma dom_pay: "dom (pay C) = dom C"
  by (auto simp: pay_def)

subsection \<open>Chains\<close>

definition chains_ok :: "(nat \<Rightarrow> ptr) \<Rightarrow> (nat \<Rightarrow> ptr) \<Rightarrow> (nat \<Rightarrow> nat) \<Rightarrow> ptr list \<Rightarrow> nat set \<Rightarrow> bool" where
  "chains_ok nx pv sl bs A \<longleftrightarrow>
     (\<forall>i < length bs. \<exists>c. dll nx pv (bs ! i) (lst_or None c) c \<and> set c = {a \<in> A. sl a = i})"

lemma chains_okD:
  assumes "chains_ok nx pv sl bs A" and "i < length bs"
  obtains c where "dll nx pv (bs ! i) (lst_or None c) c" "set c = {a \<in> A. sl a = i}"
  using assms by (auto simp: chains_ok_def)

lemma chains_empty: "(\<And>i. i < length bs \<Longrightarrow> bs ! i = None) \<Longrightarrow> chains_ok nx pv sl bs {}"
  by (auto simp: chains_ok_def intro: exI [of _ "[]"])

lemma chains_cong:
  assumes "chains_ok nx pv sl bs A" and "\<forall>b \<in> A. nx' b = nx b \<and> pv' b = pv b \<and> sl' b = sl b"
  shows "chains_ok nx' pv' sl' bs A"
  unfolding chains_ok_def
proof (intro allI impI)
  fix i assume i: "i < length bs"
  obtain c where c: "dll nx pv (bs ! i) (lst_or None c) c" "set c = {a \<in> A. sl a = i}"
    using chains_okD [OF assms(1) i] .
  have "\<forall>b \<in> set c. nx' b = nx b \<and> pv' b = pv b" using c(2) assms(2) by auto
  from dll_cong [OF this] have "dll nx' pv' (bs ! i) (lst_or None c) c" using c(1) by simp
  moreover have "set c = {a \<in> A. sl' a = i}" using c(2) assms(2) by auto
  ultimately show "\<exists>c. dll nx' pv' (bs ! i) (lst_or None c) c \<and> set c = {a \<in> A. sl' a = i}" by blast
qed

lemma chains_first_in:
  assumes "chains_ok nx pv sl bs A" and "i < length bs" and "bs ! i = Some a"
  shows "a \<in> A \<and> sl a = i"
proof -
  obtain c where c: "dll nx pv (bs ! i) (lst_or None c) c" "set c = {a \<in> A. sl a = i}"
    using chains_okD [OF assms(1,2)] .
  then have "fst_or c None = Some a" using assms(3) by (simp add: dll_def)
  then show ?thesis using c(2) by (auto dest: fst_or_in)
qed

lemma chains_insert:
  assumes ok: "chains_ok nx pv sl bs A" and a: "a \<notin> A" and i: "i < length bs"
    and sl': "sl' a = i" "\<forall>b \<in> A. sl' b = sl b"
    and nx': "nx' a = bs ! i" "\<forall>b \<in> A. nx' b = nx b"
    and pv': "pv' a = None" "\<forall>b \<in> A. pv' b = (if bs ! i = Some b then Some a else pv b)"
  shows "chains_ok nx' pv' sl' (bs[i := Some a]) (insert a A)"
  unfolding chains_ok_def
proof (intro allI impI)
  fix j assume "j < length (bs[i := Some a])"
  then have j: "j < length bs" by simp
  obtain c where c: "dll nx pv (bs ! j) (lst_or None c) c" "set c = {b \<in> A. sl b = j}"
    using chains_okD [OF ok j] .
  show "\<exists>c. dll nx' pv' (bs[i := Some a] ! j) (lst_or None c) c \<and> set c = {b \<in> insert a A. sl' b = j}"
  proof (cases "j = i")
    case True
    have "dll nx' pv' (Some a) (if lst_or None c = None then Some a else lst_or None c) (a # c)"
    proof (rule dll_cons [OF c(1)])
      have sub: "set c \<subseteq> A" using c(2) by blast
      show "a \<notin> set c" using sub a by blast
      show "nx' a = bs ! j" "pv' a = None" using nx'(1) pv'(1) True by simp_all
      show "\<forall>b \<in> set c. pv' b = (if bs ! j = Some b then Some a else pv b)"
        unfolding True by (rule ballI, rule bspec [OF pv'(2)]) (rule subsetD [OF sub])
      show "\<forall>b \<in> set c. nx' b = nx b" using nx'(2) sub by blast
    qed
    moreover have "(if lst_or None c = None then Some a else lst_or None c) = lst_or None (a # c)"
      by (simp add: lst_or_def)
    moreover have "set (a # c) = {b \<in> insert a A. sl' b = j}"
    proof (rule set_eqI)
      fix x show "x \<in> set (a # c) \<longleftrightarrow> x \<in> {b \<in> insert a A. sl' b = j}"
        using sl' True a by (cases "x = a"; cases "x \<in> A") (simp_all add: c(2))
    qed
    ultimately have "dll nx' pv' (bs[i := Some a] ! j) (lst_or None (a # c)) (a # c)" "set (a # c) = {b \<in> insert a A. sl' b = j}"
      using True i by simp_all
    then show ?thesis by blast
  next
    case False
    have "bs ! i \<noteq> Some b" if "b \<in> set c" for b
      using chains_first_in [OF ok i] that c(2) False by auto
    then have "\<forall>b \<in> set c. nx' b = nx b \<and> pv' b = pv b" using c(2) nx'(2) pv'(2) by simp
    from dll_cong [OF this] have "dll nx' pv' (bs ! j) (lst_or None c) c" using c(1) by simp
    moreover have "set c = {b \<in> insert a A. sl' b = j}"
      unfolding c(2) using sl' False a by (auto cong: conj_cong)
    ultimately show ?thesis using False by auto
  qed
qed

lemma chains_at:
  assumes "chains_ok nx pv sl bs A" and "a \<in> A" and "sl a < length bs"
  obtains ys zs where "dll nx pv (bs ! sl a) (lst_or None (ys @ a # zs)) (ys @ a # zs)"
    "set (ys @ a # zs) = {b \<in> A. sl b = sl a}" "pv a = lst_or None ys" "nx a = fst_or zs None"
    "bs ! sl a = fst_or (ys @ a # zs) None"
proof -
  obtain c where c: "dll nx pv (bs ! sl a) (lst_or None c) c" "set c = {b \<in> A. sl b = sl a}"
    using chains_okD [OF assms(1,3)] .
  then have "a \<in> set c" using assms(2) by simp
  then obtain ys zs where "c = ys @ a # zs" by (metis split_list)
  then show thesis using c by (intro that [of ys zs]) (simp_all add: dll_def)
qed

lemma chains_first_iff:
  assumes "chains_ok nx pv sl bs A" and "a \<in> A" and "sl a < length bs"
  shows "bs ! sl a = Some a \<longleftrightarrow> pv a = None"
proof -
  obtain ys zs where y: "dll nx pv (bs ! sl a) (lst_or None (ys @ a # zs)) (ys @ a # zs)"
    "pv a = lst_or None ys" "bs ! sl a = fst_or (ys @ a # zs) None"
    by (rule chains_at [OF assms])
  show ?thesis
  proof (cases ys)
    case (Cons u us)
    then have "u \<noteq> a" using y(1) by (auto simp: dll_def)
    then show ?thesis using y Cons by (simp add: lst_or_def)
  qed (use y in simp)
qed

text \<open>The neighbours of a bucket in its chain are buckets of the same slot.\<close>

lemma chains_neighbours:
  assumes "chains_ok nx pv sl bs A" and "a \<in> A" and "sl a < length bs"
  shows "nx a = Some b \<Longrightarrow> b \<in> A - {a} \<and> sl b = sl a" and "pv a = Some b \<Longrightarrow> b \<in> A - {a} \<and> sl b = sl a"
proof -
  obtain ys zs where y: "dll nx pv (bs ! sl a) (lst_or None (ys @ a # zs)) (ys @ a # zs)"
    "set (ys @ a # zs) = {b \<in> A. sl b = sl a}" "pv a = lst_or None ys" "nx a = fst_or zs None"
    by (rule chains_at [OF assms])
  then have d: "a \<notin> set ys" "a \<notin> set zs" by (auto simp: dll_def)
  show "nx a = Some b \<Longrightarrow> b \<in> A - {a} \<and> sl b = sl a"
    using y d fst_or_in [of zs b] by auto
  show "pv a = Some b \<Longrightarrow> b \<in> A - {a} \<and> sl b = sl a"
    using y d lst_or_in [of ys b] by auto
qed

lemma chains_remove:
  assumes ok: "chains_ok nx pv sl bs A" and a: "a \<in> A" "sl a < length bs"
    and sl': "\<forall>b \<in> A - {a}. sl' b = sl b"
    and nx': "\<forall>b \<in> A - {a}. nx' b = (if pv a = Some b then nx a else nx b)"
    and pv': "\<forall>b \<in> A - {a}. pv' b = (if nx a = Some b then pv a else pv b)"
  shows "chains_ok nx' pv' sl' (if pv a = None then bs[sl a := nx a] else bs) (A - {a})"
    (is "chains_ok _ _ _ ?bs _")
  unfolding chains_ok_def
proof (intro allI impI)
  fix j assume "j < length ?bs"
  then have j: "j < length bs" by (simp split: if_splits)
  show "\<exists>c. dll nx' pv' (?bs ! j) (lst_or None c) c \<and> set c = {b \<in> A - {a}. sl' b = j}"
  proof (cases "j = sl a")
    case True
    obtain ys zs where y: "dll nx pv (bs ! sl a) (lst_or None (ys @ a # zs)) (ys @ a # zs)"
      "set (ys @ a # zs) = {b \<in> A. sl b = sl a}" "pv a = lst_or None ys" "nx a = fst_or zs None"
      "bs ! sl a = fst_or (ys @ a # zs) None"
      by (rule chains_at [OF ok a])
    then have d: "a \<notin> set ys" "a \<notin> set zs" by (auto simp: dll_def)
    have sub: "set ys \<union> set zs \<subseteq> A - {a}" using y(2) d by auto
    have "dll nx' pv' (?bs ! j) (lst_or None (ys @ zs)) (ys @ zs)"
    proof (rule dll_unlink [OF y(1)])
      show "\<forall>b \<in> set ys \<union> set zs. nx' b = (if pv a = Some b then nx a else nx b)" using nx' sub by blast
      show "\<forall>b \<in> set ys \<union> set zs. pv' b = (if nx a = Some b then pv a else pv b)" using pv' sub by blast
      show "?bs ! j = (if pv a = None then nx a else bs ! sl a)" using True a(2) by simp
      show "lst_or None (ys @ zs) = (if nx a = None then pv a else lst_or None (ys @ a # zs))"
        using y(3,4) by (simp add: lst_or_def)
    qed
    moreover have "set (ys @ zs) = {b \<in> A - {a}. sl' b = j}"
    proof -
      have "set (ys @ zs) = set (ys @ a # zs) - {a}" using d by auto
      also have "\<dots> = {b \<in> A - {a}. sl b = sl a}" using y(2) by auto
      also have "\<dots> = {b \<in> A - {a}. sl' b = j}" using sl' True by auto
      finally show ?thesis .
    qed
    ultimately show ?thesis by blast
  next
    case False
    obtain c where c: "dll nx pv (bs ! j) (lst_or None c) c" "set c = {b \<in> A. sl b = j}"
      using chains_okD [OF ok j] .
    have "nx' b = nx b \<and> pv' b = pv b" if "b \<in> set c" for b
    proof -
      have b: "b \<in> A - {a}" "sl b \<noteq> sl a" using that c(2) False by auto
      then have "nx a \<noteq> Some b" "pv a \<noteq> Some b" using chains_neighbours [OF ok a] by blast+
      then show ?thesis using nx' pv' b(1) by simp
    qed
    then have "\<forall>b \<in> set c. nx' b = nx b \<and> pv' b = pv b" by blast
    from dll_cong [OF this] have "dll nx' pv' (bs ! j) (lst_or None c) c" using c(1) by simp
    moreover have "set c = {b \<in> A - {a}. sl' b = j}" using c(2) sl' False by auto
    ultimately show ?thesis using False by auto
  qed
qed

end
