(* ===== verification/Zend_Hash_Inv.thy ===== *)
theory Zend_Hash_Inv
  imports Hash_Chains "HOL-Library.AList"
begin

text \<open>
  The invariant of a hash table, its meaning as an association list in insertion order
  (\<open>ht_rep\<close>), and the search of a collision chain. Keys are numbers or byte strings; in the
  code they are told apart by \<open>nKeyLength\<close>.
\<close>

subsection \<open>Keys and payloads\<close>

datatype hkey = Num ulong | Str "byte list"

fun hash_of :: "hkey \<Rightarrow> ulong" where
  "hash_of (Num h) = h"
| "hash_of (Str s) = zend_inline_hash_func s"

type_synonym 'd payload = "ulong \<times> uint \<times> 'd \<times> key_ptr option"

fun pkey :: "'d payload \<Rightarrow> hkey" where
  "pkey (h, n, d, k) = (if n = 0 then Num h else Str (case k of None \<Rightarrow> [] | Some k \<Rightarrow> kbytes k))"

fun pdata :: "'d payload \<Rightarrow> 'd" where
  "pdata (h, n, d, k) = d"

fun phash :: "'d payload \<Rightarrow> ulong" where
  "phash (h, n, d, k) = h"

text \<open>
  A numeric bucket has no key string; any other has a non-empty one, of its length and hash, that is
  interned or lies in the bucket itself.
\<close>

fun pay_ok :: "nat \<Rightarrow> 'd payload \<Rightarrow> bool" where
  "pay_ok a (h, n, d, None) \<longleftrightarrow> n = 0"
| "pay_ok a (h, n, d, Some k) \<longleftrightarrow> n \<noteq> 0 \<and> length (kbytes k) = unat n \<and>
     h = zend_inline_hash_func (kbytes k) \<and> (case k of Interned s \<Rightarrow> True | Buf x s \<Rightarrow> x = a | Outside s \<Rightarrow> False)"

lemma phash_key: "pay_ok a p \<Longrightarrow> phash p = hash_of (pkey p)"
  by (cases "(a, p)" rule: pay_ok.cases) auto

text \<open>\<open>pDest\<close> and the payload after \<open>UPDATE_DATA\<close>.\<close>

fun put_data :: "'d \<Rightarrow> 'd payload \<Rightarrow> 'd payload" where
  "put_data d (h, n, _, k) = (h, n, d, k)"

lemma put_data_simps [simp]:
  "pkey (put_data d p) = pkey p" "pdata (put_data d p) = d" "phash (put_data d p) = phash p"
  "pay_ok a (put_data d p) = pay_ok a p"
  by (cases "(a, p)" rule: pay_ok.cases; simp)+

lemma payload_put [cell_upd]: "payload (b\<lparr>pData := d\<rparr>) = put_data d (payload b)"
  by (simp add: payload_def)

definition slot_of :: "uint \<Rightarrow> (nat \<rightharpoonup> 'd payload) \<Rightarrow> nat \<Rightarrow> nat" where
  "slot_of m P a = (case P a of None \<Rightarrow> 0 | Some p \<Rightarrow> unat (phash p AND ucast m))"

abbreviation key_at :: "(nat \<rightharpoonup> 'd payload) \<Rightarrow> nat \<Rightarrow> hkey" where
  "key_at P a \<equiv> pkey (the (P a))"

definition entries :: "(nat \<rightharpoonup> 'd payload) \<Rightarrow> nat list \<Rightarrow> (hkey \<times> 'd) list" where
  "entries P L = map (\<lambda>a. (key_at P a, pdata (the (P a)))) L"

definition addr_of :: "(nat \<rightharpoonup> 'd payload) \<Rightarrow> nat list \<Rightarrow> hkey \<Rightarrow> ptr" where
  "addr_of P L K = find (\<lambda>a. key_at P a = K) L"

lemma entries_simps [simp]:
  "entries P [] = []" "entries P (a # L) = (key_at P a, pdata (the (P a))) # entries P L"
  "entries P (L @ M) = entries P L @ entries P M"
  by (simp_all add: entries_def)

lemma entries_cong: "\<forall>a \<in> set L. P' a = P a \<Longrightarrow> entries P' L = entries P L"
  by (simp add: entries_def)

lemma map_of_entries: "map_of (entries P L) K = map_option (\<lambda>a. pdata (the (P a))) (addr_of P L K)"
  by (induction L) (auto simp: addr_of_def)

lemma addr_of_None: "addr_of P L K = None \<longleftrightarrow> (\<forall>a \<in> set L. key_at P a \<noteq> K)"
  by (auto simp: addr_of_def find_None_iff)

lemma addr_of_SomeD: "addr_of P L K = Some a \<Longrightarrow> a \<in> set L \<and> key_at P a = K"
  by (auto simp: addr_of_def find_Some_iff)

lemma addr_of_unique:
  assumes "inj_on (key_at P) (set L)" and "a \<in> set L"
  shows "addr_of P L (key_at P a) = Some a"
proof (cases "addr_of P L (key_at P a)")
  case None
  then show ?thesis using assms(2) addr_of_None by metis
next
  case (Some b)
  then show ?thesis using addr_of_SomeD [OF Some] assms by (auto dest: inj_onD)
qed

lemma entries_keys: "fst ` set (entries P L) = key_at P ` set L"
  by (simp add: entries_def image_image)

subsection \<open>The invariant\<close>

definition table_ok :: "'d hashtable \<Rightarrow> bool" where
  "table_ok ht \<longleftrightarrow> (\<exists>k \<ge> 3. k \<le> 31 \<and> nTableSize ht = 2 ^ k \<and>
     (if nTableMask ht = 0 then arBuckets ht = [None]
      else nTableMask ht = 2 ^ k - 1 \<and> length (arBuckets ht) = 2 ^ k))"

definition next_ok :: "ulong \<Rightarrow> (nat \<rightharpoonup> 'd payload) \<Rightarrow> bool" where
  "next_ok nfe P \<longleftrightarrow> 0 \<le> sint nfe \<and>
     (\<forall>a p h. P a = Some p \<and> pkey p = Num h \<longrightarrow> sint h < sint nfe \<or> nfe = LONG_MAX)"

definition ht_ok :: "'d hashtable \<Rightarrow> nat list \<Rightarrow> bool" where
  "ht_ok ht L \<longleftrightarrow> arena_ok ht \<and>
     dll (gnx (cells ht)) (gpv (cells ht)) (pListHead ht) (pListTail ht) L \<and>
     dom (cells ht) = set L \<and> length L < 2 ^ 32 \<and> nNumOfElements ht = of_nat (length L) \<and>
     table_ok ht \<and> (nTableMask ht = 0 \<longrightarrow> L = []) \<and>
     chains_ok (cnx (cells ht)) (cpv (cells ht)) (slot_of (nTableMask ht) (pay (cells ht))) (arBuckets ht) (set L) \<and>
     (\<forall>a p. pay (cells ht) a = Some p \<longrightarrow> pay_ok a p) \<and>
     inj_on (key_at (pay (cells ht))) (set L) \<and>
     (\<forall>a. pInternalPointer ht = Some a \<longrightarrow> a \<in> set L) \<and>
     next_ok (nNextFreeElement ht) (pay (cells ht))"

text \<open>\<open>ht_rep ht es\<close>: the table holds the entries \<open>es\<close>, in insertion order.\<close>

definition ht_rep :: "'d hashtable \<Rightarrow> (hkey \<times> 'd) list \<Rightarrow> bool" where
  "ht_rep ht es \<longleftrightarrow> (\<exists>L. ht_ok ht L \<and> es = entries (pay (cells ht)) L)"

lemma ht_okD:
  assumes "ht_ok ht L"
  shows "arena_ok ht" "dll (gnx (cells ht)) (gpv (cells ht)) (pListHead ht) (pListTail ht) L"
    "dom (cells ht) = set L" "length L < 2 ^ 32" "nNumOfElements ht = of_nat (length L)" "table_ok ht"
    "nTableMask ht = 0 \<Longrightarrow> L = []"
    "chains_ok (cnx (cells ht)) (cpv (cells ht)) (slot_of (nTableMask ht) (pay (cells ht))) (arBuckets ht) (set L)"
    "\<And>a p. pay (cells ht) a = Some p \<Longrightarrow> pay_ok a p" "inj_on (key_at (pay (cells ht))) (set L)"
    "\<And>a. pInternalPointer ht = Some a \<Longrightarrow> a \<in> set L" "next_ok (nNextFreeElement ht) (pay (cells ht))"
    "distinct L" "pListHead ht = fst_or L None" "pListTail ht = lst_or None L"
  using assms by (simp_all add: ht_ok_def dll_def del: split_paired_All)

lemma ht_ok_cell:
  assumes "ht_ok ht L" and "a \<in> set L"
  obtains b where "cells ht a = Some b"
  using assms ht_okD(3) by (metis domD)

lemma ht_rep_distinct:
  assumes "ht_rep ht es" shows "distinct (map fst es)"
proof -
  obtain L where L: "ht_ok ht L" "es = entries (pay (cells ht)) L" using assms by (auto simp: ht_rep_def)
  have "map fst es = map (key_at (pay (cells ht))) L" by (simp add: L(2) entries_def)
  then show ?thesis using ht_okD(10,13) [OF L(1)] by (simp add: distinct_map)
qed

subsection \<open>Slots\<close>

lemma mask_less: "unat (h AND ucast (2 ^ k - 1 :: uint) :: ulong) < 2 ^ k" if "k \<le> 31"
proof -
  have e: "(2 ^ k - 1 :: uint) = mask k" by (simp add: mask_eq_decr_exp)
  have "ucast (mask k :: uint) = (mask k :: ulong)" using that by (simp add: ucast_mask_eq)
  then have "h AND ucast (2 ^ k - 1 :: uint) = take_bit k h" by (simp add: e take_bit_eq_mask)
  then have "unat (h AND ucast (2 ^ k - 1 :: uint)) = take_bit k (unat h)" by (simp add: unsigned_take_bit_eq)
  then show ?thesis by (simp add: take_bit_eq_mod)
qed

lemma nIndex_less: "table_ok ht \<Longrightarrow> nIndex ht h < length (arBuckets ht)"
  using mask_less by (auto simp: table_ok_def nIndex_def split: if_splits)

lemma slot_of_nIndex: "P a = Some p \<Longrightarrow> slot_of (nTableMask ht) P a = nIndex ht (phash p)"
  by (simp add: slot_of_def nIndex_def)

subsection \<open>Searching a chain\<close>

lemma chain_find_run:
  assumes "dseg (cnx (cells ht)) pv q c None" and "set c \<subseteq> dom (cells ht)"
  shows "chain_find M (fst_or c None) ht = Some (find (\<lambda>a. M (the (cells ht a))) c)"
  using assms
proof (induction c arbitrary: q)
  case Nil
  then show ?case by (simp add: chain_find.simps [of M None])
next
  case (Cons a c)
  then obtain b where b: "cells ht a = Some b" "pNext b = fst_or c None"
    by (auto simp: cnx_def)
  have "chain_find M (fst_or c None) ht = Some (find (\<lambda>a. M (the (cells ht a))) c)"
    using Cons by (intro Cons.IH [of "Some a"]) auto
  then show ?case using b by (simp add: chain_find.simps [of M "Some a"])
qed

lemma find_unique:
  assumes "\<And>a b. a \<in> S \<Longrightarrow> b \<in> S \<Longrightarrow> f a = K \<Longrightarrow> f b = K \<Longrightarrow> a = b"
    and "set xs \<subseteq> S" and "set ys \<subseteq> S" and "\<And>a. a \<in> S \<Longrightarrow> f a = K \<Longrightarrow> a \<in> set xs \<longleftrightarrow> a \<in> set ys"
  shows "find (\<lambda>a. f a = K) xs = find (\<lambda>a. f a = K) ys"
proof (cases "find (\<lambda>a. f a = K) xs")
  case None
  then have "find (\<lambda>a. f a = K) ys = None" using assms(3,4) by (auto simp: find_None_iff)
  then show ?thesis using None by simp
next
  case (Some a)
  then have a: "a \<in> set xs" "f a = K" by (auto simp: find_Some_iff)
  then have "a \<in> set ys" using assms(2,4) by auto
  then obtain b where "find (\<lambda>a. f a = K) ys = Some b" using a(2)
    by (cases "find (\<lambda>a. f a = K) ys") (auto simp: find_None_iff)
  moreover from this have "b \<in> set ys" "f b = K" by (auto simp: find_Some_iff)
  ultimately show ?thesis using Some a assms(1-3) by (metis subsetD)
qed

text \<open>A search in the slot of a key, with a test that recognises the key, finds its bucket.\<close>

lemma lookup_run:
  assumes ok: "ht_ok ht L" and M: "\<And>a b. cells ht a = Some b \<Longrightarrow> M b \<longleftrightarrow> pkey (payload b) = K"
  shows "\<exists>first. get_slot ht (nIndex ht (hash_of K)) = Some first \<and>
    arBuckets ht ! nIndex ht (hash_of K) = first \<and>
    chain_find M first ht = Some (addr_of (pay (cells ht)) L K)"
proof -
  let ?C = "cells ht" and ?i = "nIndex ht (hash_of K)"
  note o = ht_okD [OF ok]
  have i: "?i < length (arBuckets ht)" using nIndex_less [OF o(6)] .
  obtain c where c: "dll (cnx ?C) (cpv ?C) (arBuckets ht ! ?i) (lst_or None c) c"
    "set c = {a \<in> set L. slot_of (nTableMask ht) (pay ?C) a = ?i}"
    using chains_okD [OF o(8) i] .
  have sub: "set c \<subseteq> set L" using c(2) by blast
  have "chain_find M (arBuckets ht ! ?i) ht = Some (find (\<lambda>a. M (the (?C a))) c)"
    using chain_find_run [of ht "cpv ?C" None c M] c(1) sub o(3) by (simp add: dll_def)
  also have "find (\<lambda>a. M (the (?C a))) c = find (\<lambda>a. key_at (pay ?C) a = K) c"
  proof (rule find_cong [OF refl])
    fix a assume "a \<in> set c"
    then obtain b where b: "?C a = Some b" using sub o(3) by blast
    then show "M (the (?C a)) = (key_at (pay ?C) a = K)" using M [OF b] by (simp add: pay_def)
  qed
  also have "\<dots> = find (\<lambda>a. key_at (pay ?C) a = K) L"
  proof (rule find_unique [of "set L"])
    fix a assume a: "a \<in> set L" "key_at (pay ?C) a = K"
    then obtain b where b: "?C a = Some b" using o(3) by blast
    have p: "pay ?C a = Some (payload b)" using b by (simp add: pay_def)
    have "phash (payload b) = hash_of K" using phash_key [OF o(9) [OF p]] a(2) p by simp
    then have "slot_of (nTableMask ht) (pay ?C) a = ?i" using slot_of_nIndex [of "pay ?C" a "payload b" ht] p by simp
    then show "a \<in> set c \<longleftrightarrow> a \<in> set L" using a(1) c(2) by simp
  next
    fix a b assume "a \<in> set L" "b \<in> set L" "key_at (pay ?C) a = K" "key_at (pay ?C) b = K"
    then show "a = b" using o(10) by (simp add: inj_on_def)
  qed (use sub in simp_all)
  finally show ?thesis using i by (simp add: get_slot_def addr_of_def)
qed

end
