(* ===== verification/Zend_Hash_Insert.thy ===== *)
theory Zend_Hash_Insert
  imports Zend_Hash_Inv
begin

text \<open>
  Initialisation, growth and insertion: \<open>zend_hash_init\<close>, the lazy allocation of the slots, the
  linking of a new bucket, rehashing and doubling keep the invariant.
\<close>

subsection \<open>\<open>_zend_hash_init\<close>\<close>

lemma unat_pow2: "k < 32 \<Longrightarrow> unat (2 ^ k :: uint) = 2 ^ k"
proof -
  assume "k < 32"
  then have "(2 :: nat) ^ k < 2 ^ 32" by (intro power_strict_increasing) auto
  moreover have "unat (of_nat (2 ^ k) :: uint) = 2 ^ k mod 2 ^ LENGTH(32)"
    by (simp only: unat_of_nat)
  ultimately show ?thesis by simp
qed

lemma shift_less_iff: "i < 32 \<Longrightarrow> push_bit i 1 < (n :: uint) \<longleftrightarrow> 2 ^ i < unat n"
  by (simp add: push_bit_eq_mult word_less_nat_alt unat_pow2)

lemma size_loop_run:
  assumes "i \<le> 31" and "unat n \<le> 2 ^ 31"
  shows "i \<le> size_loop n i \<and> size_loop n i \<le> 31 \<and> unat n \<le> 2 ^ size_loop n i \<and>
    (i < size_loop n i \<longrightarrow> 2 ^ (size_loop n i - 1) < unat n)"
  using assms
proof (induction n i rule: size_loop.induct)
  case (1 n i)
  show ?case
  proof (cases "i < 32 \<and> push_bit i 1 < n")
    case True
    then have lt: "2 ^ i < unat n" using shift_less_iff by blast
    have "i < 31"
    proof (rule ccontr)
      assume "\<not> i < 31"
      then have "i = 31" using 1 by simp
      then show False using lt 1 by simp
    qed
    then have IH: "i + 1 \<le> size_loop n (i + 1)" "size_loop n (i + 1) \<le> 31" "unat n \<le> 2 ^ size_loop n (i + 1)"
      "i + 1 < size_loop n (i + 1) \<longrightarrow> 2 ^ (size_loop n (i + 1) - 1) < unat n"
      using "1.IH" [OF True] 1 by auto
    have "2 ^ (size_loop n (i + 1) - 1) < unat n"
      using IH lt by (cases "i + 1 < size_loop n (i + 1)") auto
    then show ?thesis using IH True by (simp add: size_loop.simps [of n i])
  next
    case False
    then have "unat n \<le> 2 ^ i" using 1 shift_less_iff [of i n] by auto
    then show ?thesis using False 1 by (simp add: size_loop.simps [of n i])
  qed
qed

lemma init_size:
  obtains k where "3 \<le> k" "k \<le> 31" "nTableSize (zend_hash_init n dt ps ht) = 2 ^ k"
    "unat n < 2 ^ 31 \<Longrightarrow> unat n \<le> 2 ^ k \<and> (k = 3 \<or> 2 ^ (k - 1) < unat n)"
proof (cases "n \<ge> 0x80000000")
  case True
  then have "\<not> unat n < 2 ^ 31" by (simp add: word_le_nat_alt)
  then show thesis using True by (intro that [of 31]) (simp_all add: zend_hash_init_def)
next
  case False
  then have "unat n \<le> 2 ^ 31" by (simp add: word_le_nat_alt)
  note run = size_loop_run [OF _ this, of 3]
  show thesis
    by (rule that [of "size_loop n 3"]) (use run False in \<open>auto simp: zend_hash_init_def push_bit_eq_mult\<close>)
qed

lemma ht_ok_init:
  assumes "cells ht = Map.empty"
  shows "ht_ok (zend_hash_init n dt ps ht) []"
proof -
  obtain k where k: "3 \<le> k" "k \<le> 31" "nTableSize (zend_hash_init n dt ps ht) = 2 ^ k" by (rule init_size)
  have t: "table_ok (zend_hash_init n dt ps ht)"
    unfolding table_ok_def by (rule exI [of _ k]) (use k in \<open>simp add: zend_hash_init_def\<close>)
  show ?thesis
    unfolding ht_ok_def using t assms
    by (auto simp: zend_hash_init_def arena_ok_def next_ok_def pay_def intro: chains_empty)
qed

lemma ht_ok_check_init:
  assumes "ht_ok ht L"
  shows "ht_ok (CHECK_INIT ht) L" and "nTableMask (CHECK_INIT ht) \<noteq> 0"
    and "cells (CHECK_INIT ht) = cells ht" and "brk (CHECK_INIT ht) = brk ht"
proof -
  note o = ht_okD [OF assms]
  obtain k where k: "3 \<le> k" "k \<le> 31" "nTableSize ht = 2 ^ k"
    "if nTableMask ht = 0 then arBuckets ht = [None] else nTableMask ht = 2 ^ k - 1 \<and> length (arBuckets ht) = 2 ^ k"
    using o(6) by (auto simp: table_ok_def)
  have u: "unat (2 ^ k :: uint) = 2 ^ k" using k(2) by (simp add: unat_pow2)
  have "(2 :: nat) ^ 3 \<le> 2 ^ k" using k(1) by (rule power_increasing) simp
  then have "unat (2 ^ k :: uint) \<noteq> unat (1 :: uint)" using u k(1) by simp
  then have "(2 ^ k :: uint) \<noteq> 1" by metis
  then have nz: "(2 ^ k - 1 :: uint) \<noteq> 0" by simp
  show "nTableMask (CHECK_INIT ht) \<noteq> 0" using nz k(3) by (simp add: CHECK_INIT_def)
  show "cells (CHECK_INIT ht) = cells ht" "brk (CHECK_INIT ht) = brk ht" by (simp_all add: CHECK_INIT_def)
  show "ht_ok (CHECK_INIT ht) L"
  proof (cases "nTableMask ht = 0")
    case True
    have t: "table_ok (CHECK_INIT ht)"
      unfolding table_ok_def by (rule exI [of _ k]) (use k True nz u in \<open>simp add: CHECK_INIT_def\<close>)
    have c: "chains_ok nx pv sl (arBuckets (CHECK_INIT ht)) {}" for nx pv sl
      by (rule chains_empty) (simp add: CHECK_INIT_def True)
    show ?thesis
      unfolding ht_ok_def using t c o(1-5,7,9-12) True
      by (cases "pInternalPointer ht") (simp_all add: CHECK_INIT_def arena_ok_def del: split_paired_All)
  next
    case False
    then show ?thesis using assms by (simp add: CHECK_INIT_def)
  qed
qed

subsection \<open>Linking a bucket\<close>

lemma connect_bucket_run:
  assumes "cells ht a = Some nb" and "i < length (arBuckets ht)"
    and "\<And>f. arBuckets ht ! i = Some f \<Longrightarrow> f \<noteq> a \<and> f \<in> dom (cells ht)"
  shows "\<exists>C'. CONNECT_TO_BUCKET_DLLIST a i ht = Some (ht\<lparr>cells := C'\<rparr>) \<and> dom C' = dom (cells ht) \<and>
    pay C' = pay (cells ht) \<and> gnx C' = gnx (cells ht) \<and> gpv C' = gpv (cells ht) \<and>
    cnx C' = (cnx (cells ht))(a := arBuckets ht ! i) \<and>
    cpv C' = (\<lambda>b. if b = a then None else if arBuckets ht ! i = Some b then Some a else cpv (cells ht) b)"
proof (cases "arBuckets ht ! i")
  case None
  then show ?thesis using assms(1,2)
    by (intro exI [of _ "(cells ht)(a \<mapsto> nb\<lparr>pNext := None, pLast := None\<rparr>)"])
       (auto simp: CONNECT_TO_BUCKET_DLLIST_def get_slot_def poke_def cell_upd fun_eq_iff)
next
  case (Some f)
  then obtain fb where f: "cells ht f = Some fb" "f \<noteq> a" using assms(3) by blast
  let ?C1 = "(cells ht)(a \<mapsto> nb\<lparr>pNext := Some f, pLast := None\<rparr>)"
  have f1: "?C1 f = Some fb" using f by simp
  have run: "CONNECT_TO_BUCKET_DLLIST a i ht = Some (ht\<lparr>cells := ?C1(f \<mapsto> fb\<lparr>pLast := Some a\<rparr>)\<rparr>)"
    using assms(1,2) Some f by (simp add: CONNECT_TO_BUCKET_DLLIST_def get_slot_def poke_def poke_if_def)
  have same: "(gnx ?C1)(f := pListNext fb) = gnx ?C1" "(gpv ?C1)(f := pListLast fb) = gpv ?C1"
    "(cnx ?C1)(f := pNext fb) = cnx ?C1" "(pay ?C1)(f \<mapsto> payload fb) = pay ?C1"
    using field_same [of ?C1 f fb] f1 by simp_all
  show ?thesis
    using run Some f assms(1) same
    by (intro exI [of _ "?C1(f \<mapsto> fb\<lparr>pLast := Some a\<rparr>)"])
       (auto simp: field_upd payload_links field_same [of "cells ht" a nb] fun_eq_iff)
qed

lemma connect_global_run:
  assumes "cells ht a = Some nb"
    and "\<And>f. pListTail ht = Some f \<Longrightarrow> f \<noteq> a \<and> f \<in> dom (cells ht)"
  shows "\<exists>C'. CONNECT_TO_GLOBAL_DLLIST a ht =
      Some (ht\<lparr>cells := C', pListTail := Some a,
        pListHead := (if pListHead ht = None then Some a else pListHead ht),
        pInternalPointer := (if pInternalPointer ht = None then Some a else pInternalPointer ht)\<rparr>) \<and>
    dom C' = dom (cells ht) \<and> pay C' = pay (cells ht) \<and> cnx C' = cnx (cells ht) \<and> cpv C' = cpv (cells ht) \<and>
    gpv C' = (gpv (cells ht))(a := pListTail ht) \<and>
    gnx C' = (\<lambda>b. if b = a then None else if pListTail ht = Some b then Some a else gnx (cells ht) b)"
proof (cases "pListTail ht")
  case None
  then show ?thesis using assms(1)
    by (intro exI [of _ "(cells ht)(a \<mapsto> nb\<lparr>pListLast := None, pListNext := None\<rparr>)"])
       (auto simp: CONNECT_TO_GLOBAL_DLLIST_def poke_def cell_upd fun_eq_iff Let_def)
next
  case (Some f)
  then obtain fb where f: "cells ht f = Some fb" "f \<noteq> a" using assms(2) by blast
  let ?C1 = "(cells ht)(a \<mapsto> nb\<lparr>pListLast := Some f, pListNext := None\<rparr>)"
  have f1: "?C1 f = Some fb" using f by simp
  have same: "(cnx ?C1)(f := pNext fb) = cnx ?C1" "(cpv ?C1)(f := pLast fb) = cpv ?C1"
    "(gpv ?C1)(f := pListLast fb) = gpv ?C1" "(pay ?C1)(f \<mapsto> payload fb) = pay ?C1"
    using field_same [of ?C1 f fb] f1 by simp_all
  have run: "CONNECT_TO_GLOBAL_DLLIST a ht =
      Some (ht\<lparr>cells := ?C1(f \<mapsto> fb\<lparr>pListNext := Some a\<rparr>), pListTail := Some a,
        pListHead := (if pListHead ht = None then Some a else pListHead ht),
        pInternalPointer := (if pInternalPointer ht = None then Some a else pInternalPointer ht)\<rparr>)"
    using assms(1) Some f by (simp add: CONNECT_TO_GLOBAL_DLLIST_def poke_def poke_if_def Let_def)
  show ?thesis
    using run Some f assms(1) same
    by (intro exI [of _ "?C1(f \<mapsto> fb\<lparr>pListNext := Some a\<rparr>)"])
       (auto simp: field_upd payload_links field_same [of "cells ht" a nb] fun_eq_iff)
qed

text \<open>\<open>_zend_hash_add_or_update\<close> links the two lists and sets the slot in another order.\<close>

lemma put_slot_connect_global:
  "do { ht \<leftarrow> CONNECT_TO_GLOBAL_DLLIST a ht; put_slot i p ht } =
   do { ht \<leftarrow> put_slot i p ht; CONNECT_TO_GLOBAL_DLLIST a ht }"
proof (cases "cells ht a")
  case None
  then show ?thesis by (simp add: put_slot_def CONNECT_TO_GLOBAL_DLLIST_def poke_def Let_def)
next
  case (Some b)
  note a = Some
  show ?thesis
  proof (cases "pListTail ht")
    case None
    then show ?thesis using a by (simp add: put_slot_def CONNECT_TO_GLOBAL_DLLIST_def poke_def Let_def)
  next
    case (Some f)
    then show ?thesis using a
      by (cases "f = a"; cases "cells ht f")
         (simp_all add: put_slot_def CONNECT_TO_GLOBAL_DLLIST_def poke_def poke_if_def Let_def)
  qed
qed

definition link_bucket :: "'d bucket \<Rightarrow> nat \<Rightarrow> 'd hashtable \<Rightarrow> 'd hashtable option" where
  "link_bucket nb i ht = do {
     let (p, ht) = emalloc nb ht;
     ht \<leftarrow> CONNECT_TO_BUCKET_DLLIST p i ht;
     ht \<leftarrow> put_slot i (Some p) ht;
     ht \<leftarrow> CONNECT_TO_GLOBAL_DLLIST p ht;
     Some (ht\<lparr>nNumOfElements := nNumOfElements ht + 1\<rparr>)
   }"

text \<open>The fields the linking does not touch.\<close>

definition same_table :: "'d hashtable \<Rightarrow> 'd hashtable \<Rightarrow> bool" where
  "same_table ht ht' \<longleftrightarrow> nTableSize ht' = nTableSize ht \<and> nTableMask ht' = nTableMask ht \<and>
     nNextFreeElement ht' = nNextFreeElement ht \<and> pDestructor ht' = pDestructor ht \<and>
     ht_persistent ht' = ht_persistent ht \<and> nApplyCount ht' = nApplyCount ht \<and>
     bApplyProtection ht' = bApplyProtection ht \<and> ht_destroyed ht' = ht_destroyed ht \<and>
     can_grow ht' = can_grow ht"

lemma link_bucket_run:
  assumes ok: "ht_ok ht L" and mask: "nTableMask ht \<noteq> 0" and len: "length L + 1 < 2 ^ 32"
    and nb: "pay_ok (brk ht) (payload nb)" "pkey (payload nb) = K" "\<forall>a \<in> set L. key_at (pay (cells ht)) a \<noteq> K"
    and i: "i = nIndex ht (b_h nb)"
    and next_ok': "next_ok nfe ((pay (cells ht))(brk ht \<mapsto> payload nb))"
  shows "\<exists>ht'. link_bucket nb i ht = Some ht' \<and> same_table ht ht' \<and>
    ht_ok (ht'\<lparr>nNextFreeElement := nfe\<rparr>) (L @ [brk ht]) \<and>
    pay (cells ht') = (pay (cells ht))(brk ht \<mapsto> payload nb) \<and>
    pInternalPointer ht' = (if pInternalPointer ht = None then Some (brk ht) else pInternalPointer ht)"
proof -
  let ?a = "brk ht"
  note o = ht_okD [OF ok]
  have fresh: "?a \<notin> set L" "cells ht ?a = None" using arena_ok_fresh [OF o(1)] o(3) by auto
  have il: "i < length (arBuckets ht)" using nIndex_less [OF o(6)] i by simp
  define s1 where "s1 = ht\<lparr>cells := (cells ht)(?a \<mapsto> nb), brk := Suc ?a\<rparr>"
  have em: "emalloc nb ht = (?a, s1)" by (simp add: emalloc_def s1_def)
  have s1c: "cells s1 ?a = Some nb" "arBuckets s1 = arBuckets ht" by (simp_all add: s1_def)
  have f1: "f \<noteq> ?a \<and> f \<in> dom (cells s1)" if "arBuckets s1 ! i = Some f" for f
  proof -
    have "f \<in> set L" using chains_first_in [OF o(8) il] that s1c(2) by simp
    then show ?thesis using fresh(1) o(3) by (auto simp: s1_def)
  qed
  obtain C2 where c2: "CONNECT_TO_BUCKET_DLLIST ?a i s1 = Some (s1\<lparr>cells := C2\<rparr>)" "dom C2 = dom (cells s1)"
    "pay C2 = pay (cells s1)" "gnx C2 = gnx (cells s1)" "gpv C2 = gpv (cells s1)"
    "cnx C2 = (cnx (cells s1))(?a := arBuckets s1 ! i)"
    "cpv C2 = (\<lambda>b. if b = ?a then None else if arBuckets s1 ! i = Some b then Some ?a else cpv (cells s1) b)"
    using connect_bucket_run [of s1 ?a nb i] s1c il f1 by auto
  define s3 where "s3 = s1\<lparr>cells := C2, arBuckets := (arBuckets ht)[i := Some ?a]\<rparr>"
  have ps: "put_slot i (Some ?a) (s1\<lparr>cells := C2\<rparr>) = Some s3" using il by (simp add: put_slot_def s3_def s1_def)
  obtain nb3 where nb3: "cells s3 ?a = Some nb3" using c2(2) s1c(1) by (auto simp: s3_def)
  have f3: "f \<noteq> ?a \<and> f \<in> dom (cells s3)" if "pListTail s3 = Some f" for f
  proof -
    have "lst_or None L = Some f" using that o(15) by (simp add: s3_def s1_def)
    then have "f \<in> set L" by (rule lst_or_in)
    then show ?thesis using fresh(1) o(3) c2(2) by (auto simp: s3_def s1_def)
  qed
  obtain C4 where c4: "CONNECT_TO_GLOBAL_DLLIST ?a s3 =
      Some (s3\<lparr>cells := C4, pListTail := Some ?a,
        pListHead := (if pListHead s3 = None then Some ?a else pListHead s3),
        pInternalPointer := (if pInternalPointer s3 = None then Some ?a else pInternalPointer s3)\<rparr>)"
    "dom C4 = dom (cells s3)" "pay C4 = pay (cells s3)" "cnx C4 = cnx (cells s3)" "cpv C4 = cpv (cells s3)"
    "gpv C4 = (gpv (cells s3))(?a := pListTail s3)"
    "gnx C4 = (\<lambda>b. if b = ?a then None else if pListTail s3 = Some b then Some ?a else gnx (cells s3) b)"
    using connect_global_run [OF nb3 f3] by auto
  define ht' where "ht' = s3\<lparr>cells := C4, pListTail := Some ?a,
    pListHead := (if pListHead s3 = None then Some ?a else pListHead s3),
    pInternalPointer := (if pInternalPointer s3 = None then Some ?a else pInternalPointer s3),
    nNumOfElements := nNumOfElements ht + 1\<rparr>"
  have run: "link_bucket nb i ht = Some ht'"
    by (simp add: link_bucket_def em c2(1) ps c4(1) Let_def) (simp add: ht'_def s3_def s1_def)
  have C3: "cells s3 = C2" by (simp add: s3_def)
  have P: "pay C4 = (pay (cells ht))(?a \<mapsto> payload nb)"
    using c4(3) c2(3) C3 by (simp add: s1_def field_upd)
  have D: "dom C4 = insert ?a (set L)" using c4(2) c2(2) C3 o(3) by (simp add: s1_def)
  have old: "gnx (cells s1) b = gnx (cells ht) b" "gpv (cells s1) b = gpv (cells ht) b"
    "cnx (cells s1) b = cnx (cells ht) b" "cpv (cells s1) b = cpv (cells ht) b" if "b \<in> set L" for b
    using that fresh(1) by (auto simp: s1_def field_upd)
  have tl: "pListTail s3 = pListTail ht" "pListHead s3 = pListHead ht" by (simp_all add: s3_def s1_def)
  have G: "dll (gnx C4) (gpv C4) (if pListHead ht = None then Some ?a else pListHead ht) (Some ?a) (L @ [?a])"
  proof (rule dll_snoc [OF o(2) fresh(1)])
    show "gnx C4 ?a = None" "gpv C4 ?a = pListTail ht" using c4(6,7) tl by simp_all
    show "\<forall>b \<in> set L. gnx C4 b = (if pListTail ht = Some b then Some ?a else gnx (cells ht) b)"
      using c4(7) tl C3 c2(4) old(1) fresh(1) by auto
    show "\<forall>b \<in> set L. gpv C4 b = gpv (cells ht) b" using c4(6) C3 c2(5) old(2) fresh(1) by auto
  qed
  have slot: "slot_of (nTableMask ht) (pay C4) ?a = i"
    using i by (simp add: P slot_of_def nIndex_def payload_def)
  have slots: "\<forall>b \<in> set L. slot_of (nTableMask ht) (pay C4) b = slot_of (nTableMask ht) (pay (cells ht)) b"
    using fresh(1) by (auto simp: P slot_of_def)
  have Ch: "chains_ok (cnx C4) (cpv C4) (slot_of (nTableMask ht) (pay C4)) ((arBuckets ht)[i := Some ?a]) (insert ?a (set L))"
  proof (rule chains_insert [OF o(8) fresh(1) il slot slots])
    show "cnx C4 ?a = arBuckets ht ! i" "cpv C4 ?a = None"
      using c4(4,5) C3 c2(6,7) s1c(2) by simp_all
    show "\<forall>b \<in> set L. cnx C4 b = cnx (cells ht) b" using c4(4) C3 c2(6) old(3) fresh(1) by auto
    show "\<forall>b \<in> set L. cpv C4 b = (if arBuckets ht ! i = Some b then Some ?a else cpv (cells ht) b)"
      using c4(5) C3 c2(7) s1c(2) old(4) fresh(1) by auto
  qed
  have keys: "inj_on (key_at (pay C4)) (set (L @ [?a]))"
  proof -
    have "key_at (pay C4) b = key_at (pay (cells ht)) b" if "b \<in> set L" for b
      using that fresh(1) by (auto simp: P)
    moreover have "key_at (pay C4) ?a = K" using nb(2) by (simp add: P)
    ultimately show ?thesis using o(10) nb(3) fresh(1) by (auto simp: inj_on_def)
  qed
  have pok: "pay_ok b p" if "pay C4 b = Some p" for b p
    using that nb(1) o(9) [of b p] by (auto simp: P split: if_splits)
  have tab: "table_ok (ht'\<lparr>nNextFreeElement := nfe\<rparr>)"
    using o(6) mask by (auto simp: table_ok_def ht'_def s3_def s1_def)
  have "ht_ok (ht'\<lparr>nNextFreeElement := nfe\<rparr>) (L @ [?a])"
    unfolding ht_ok_def
  proof (intro conjI)
    show "arena_ok (ht'\<lparr>nNextFreeElement := nfe\<rparr>)"
    proof -
      have "x < ?a" if "x \<in> set L" for x using o(1,3) that by (auto simp: arena_ok_def)
      then show ?thesis using D by (auto simp: arena_ok_def ht'_def s3_def s1_def less_Suc_eq)
    qed
    show "\<forall>a p. pay (cells (ht'\<lparr>nNextFreeElement := nfe\<rparr>)) a = Some p \<longrightarrow> pay_ok a p"
      using pok by (simp add: ht'_def del: split_paired_All)
    show "\<forall>a. pInternalPointer (ht'\<lparr>nNextFreeElement := nfe\<rparr>) = Some a \<longrightarrow> a \<in> set (L @ [?a])"
      using o(11) by (auto simp: ht'_def s3_def s1_def)
    show "table_ok (ht'\<lparr>nNextFreeElement := nfe\<rparr>)" by (rule tab)
    show "dll (gnx (cells (ht'\<lparr>nNextFreeElement := nfe\<rparr>))) (gpv (cells (ht'\<lparr>nNextFreeElement := nfe\<rparr>)))
      (pListHead (ht'\<lparr>nNextFreeElement := nfe\<rparr>)) (pListTail (ht'\<lparr>nNextFreeElement := nfe\<rparr>)) (L @ [?a])"
      using G by (cases "pListHead ht") (simp_all add: ht'_def tl)
  qed (use D Ch keys len mask next_ok' o(5) in \<open>simp_all add: ht'_def tl P, simp_all add: s3_def s1_def P\<close>)
  then show ?thesis
    using run P by (intro exI [of _ ht']) (simp add: same_table_def ht'_def s3_def s1_def)
qed

subsection \<open>Rehashing and growing\<close>

lemma rehash_loop_run:
  assumes "distinct (us @ vs)" and "dseg (gnx (cells ht)) (gpv (cells ht)) q vs None"
    and "set (us @ vs) \<subseteq> dom (cells ht)" and "\<forall>h. nIndex ht h < length (arBuckets ht)"
    and "chains_ok (cnx (cells ht)) (cpv (cells ht)) (slot_of (nTableMask ht) (pay (cells ht))) (arBuckets ht) (set us)"
  shows "\<exists>C' bs'. rehash_loop (fst_or vs None) ht = Some (ht\<lparr>cells := C', arBuckets := bs'\<rparr>) \<and>
    dom C' = dom (cells ht) \<and> pay C' = pay (cells ht) \<and> gnx C' = gnx (cells ht) \<and> gpv C' = gpv (cells ht) \<and>
    length bs' = length (arBuckets ht) \<and>
    chains_ok (cnx C') (cpv C') (slot_of (nTableMask ht) (pay C')) bs' (set (us @ vs))"
  using assms
proof (induction vs arbitrary: us ht q)
  case Nil
  then show ?case
    by (intro exI [of _ "cells ht"] exI [of _ "arBuckets ht"]) (simp add: rehash_loop.simps [of None])
next
  case (Cons a vs)
  obtain b where b: "cells ht a = Some b" using Cons.prems(3) by auto
  define i where "i = nIndex ht (b_h b)"
  have il: "i < length (arBuckets ht)" using Cons.prems(4) i_def by simp
  have a: "a \<notin> set us" using Cons.prems(1) by simp
  have f: "f \<noteq> a \<and> f \<in> dom (cells ht)" if "arBuckets ht ! i = Some f" for f
    using chains_first_in [OF Cons.prems(5) il that] a Cons.prems(3) by auto
  obtain C1 where c1: "CONNECT_TO_BUCKET_DLLIST a i ht = Some (ht\<lparr>cells := C1\<rparr>)" "dom C1 = dom (cells ht)"
    "pay C1 = pay (cells ht)" "gnx C1 = gnx (cells ht)" "gpv C1 = gpv (cells ht)"
    "cnx C1 = (cnx (cells ht))(a := arBuckets ht ! i)"
    "cpv C1 = (\<lambda>b. if b = a then None else if arBuckets ht ! i = Some b then Some a else cpv (cells ht) b)"
    using connect_bucket_run [OF b il f] by blast
  define bs1 where "bs1 = (arBuckets ht)[i := Some a]"
  define h1 where "h1 = ht\<lparr>cells := C1, arBuckets := bs1\<rparr>"
  have ps: "put_slot i (Some a) (ht\<lparr>cells := C1\<rparr>) = Some h1"
    using il by (simp add: put_slot_def h1_def bs1_def)
  obtain b1 where b1: "C1 a = Some b1" using c1(2) b by (metis domD domI)
  have nx: "pListNext b1 = fst_or vs None"
    using Cons.prems(2) c1(4) b1 field_at(1) [of C1 a b1] by simp
  have step: "rehash_loop (Some a) ht = rehash_loop (fst_or vs None) h1"
    using b c1(1) ps b1 nx by (simp add: rehash_loop.simps [of "Some a" ht] i_def) (simp add: h1_def)
  have sl: "slot_of (nTableMask ht) (pay C1) a = i"
    using b by (simp add: c1(3) slot_of_def pay_def payload_def i_def nIndex_def)
  have ch: "chains_ok (cnx C1) (cpv C1) (slot_of (nTableMask ht) (pay C1)) bs1 (insert a (set us))"
    unfolding bs1_def
  proof (rule chains_insert [OF Cons.prems(5) a il])
    show "slot_of (nTableMask ht) (pay C1) a = i" by (rule sl)
    show "\<forall>b \<in> set us. slot_of (nTableMask ht) (pay C1) b = slot_of (nTableMask ht) (pay (cells ht)) b"
      by (simp add: c1(3))
    show "cnx C1 a = arBuckets ht ! i" "cpv C1 a = None" by (simp_all add: c1(6,7))
    show "\<forall>b \<in> set us. cnx C1 b = cnx (cells ht) b" using a by (auto simp: c1(6))
    show "\<forall>b \<in> set us. cpv C1 b = (if arBuckets ht ! i = Some b then Some a else cpv (cells ht) b)"
      using a by (auto simp: c1(7))
  qed
  have IH: "\<exists>C' bs'. rehash_loop (fst_or vs None) h1 = Some (h1\<lparr>cells := C', arBuckets := bs'\<rparr>) \<and>
    dom C' = dom (cells h1) \<and> pay C' = pay (cells h1) \<and> gnx C' = gnx (cells h1) \<and> gpv C' = gpv (cells h1) \<and>
    length bs' = length (arBuckets h1) \<and>
    chains_ok (cnx C') (cpv C') (slot_of (nTableMask h1) (pay C')) bs' (set ((us @ [a]) @ vs))"
  proof (rule Cons.IH)
    show "distinct ((us @ [a]) @ vs)" using Cons.prems(1) by simp
    show "dseg (gnx (cells h1)) (gpv (cells h1)) (Some a) vs None" using Cons.prems(2) c1(4,5) by (simp add: h1_def)
    show "set ((us @ [a]) @ vs) \<subseteq> dom (cells h1)" using Cons.prems(3) c1(2) by (simp add: h1_def)
    show "\<forall>h. nIndex h1 h < length (arBuckets h1)" using Cons.prems(4) by (simp add: h1_def bs1_def nIndex_def)
    show "chains_ok (cnx (cells h1)) (cpv (cells h1)) (slot_of (nTableMask h1) (pay (cells h1))) (arBuckets h1) (set (us @ [a]))"
      using ch by (simp add: h1_def)
  qed
  then obtain C' bs' where r: "rehash_loop (fst_or vs None) h1 = Some (h1\<lparr>cells := C', arBuckets := bs'\<rparr>)"
    "dom C' = dom (cells h1)" "pay C' = pay (cells h1)" "gnx C' = gnx (cells h1)" "gpv C' = gpv (cells h1)"
    "length bs' = length (arBuckets h1)"
    "chains_ok (cnx C') (cpv C') (slot_of (nTableMask h1) (pay C')) bs' (set ((us @ [a]) @ vs))" by blast
  have e: "h1\<lparr>cells := C', arBuckets := bs'\<rparr> = ht\<lparr>cells := C', arBuckets := bs'\<rparr>" by (simp add: h1_def)
  show ?case
    by (intro exI [of _ C'] exI [of _ bs'])
       (use step r e c1 in \<open>simp add: h1_def bs1_def\<close>)
qed

lemma rehash_run:
  assumes "dll (gnx (cells ht)) (gpv (cells ht)) (pListHead ht) (pListTail ht) L" and "L \<noteq> []"
    and "dom (cells ht) = set L" and "length L < 2 ^ 32" and "nNumOfElements ht = of_nat (length L)"
    and "\<forall>h. nIndex ht h < unat (nTableSize ht)"
  shows "\<exists>C' bs'. zend_hash_rehash ht = Some (SUCCESS, ht\<lparr>cells := C', arBuckets := bs'\<rparr>) \<and>
    dom C' = dom (cells ht) \<and> pay C' = pay (cells ht) \<and> gnx C' = gnx (cells ht) \<and> gpv C' = gpv (cells ht) \<and>
    length bs' = unat (nTableSize ht) \<and>
    chains_ok (cnx C') (cpv C') (slot_of (nTableMask ht) (pay C')) bs' (set L)"
proof -
  define h1 where "h1 = ht\<lparr>arBuckets := replicate (unat (nTableSize ht)) None\<rparr>"
  have "unat (nNumOfElements ht) = length L" using assms(4,5) by (simp add: unat_of_nat)
  then have n: "nNumOfElements ht \<noteq> 0" using assms(2) by auto
  have "\<exists>C' bs'. rehash_loop (fst_or L None) h1 = Some (h1\<lparr>cells := C', arBuckets := bs'\<rparr>) \<and>
    dom C' = dom (cells h1) \<and> pay C' = pay (cells h1) \<and> gnx C' = gnx (cells h1) \<and> gpv C' = gpv (cells h1) \<and>
    length bs' = length (arBuckets h1) \<and>
    chains_ok (cnx C') (cpv C') (slot_of (nTableMask h1) (pay C')) bs' (set ([] @ L))"
  proof (rule rehash_loop_run)
    show "distinct ([] @ L)" using assms(1) by (simp add: dll_def)
    show "dseg (gnx (cells h1)) (gpv (cells h1)) None L None" using assms(1) by (simp add: dll_def h1_def)
    show "\<forall>h. nIndex h1 h < length (arBuckets h1)" using assms(6) by (simp add: h1_def nIndex_def)
    show "chains_ok (cnx (cells h1)) (cpv (cells h1)) (slot_of (nTableMask h1) (pay (cells h1))) (arBuckets h1) (set [])"
      unfolding set_empty list.set by (rule chains_empty) (simp add: h1_def)
  qed (use assms(3) in \<open>simp add: h1_def\<close>)
  then obtain C' bs' where r: "rehash_loop (fst_or L None) h1 = Some (h1\<lparr>cells := C', arBuckets := bs'\<rparr>)"
    "dom C' = dom (cells h1)" "pay C' = pay (cells h1)" "gnx C' = gnx (cells h1)" "gpv C' = gpv (cells h1)"
    "length bs' = length (arBuckets h1)"
    "chains_ok (cnx C') (cpv C') (slot_of (nTableMask h1) (pay C')) bs' (set ([] @ L))" by blast
  have "pListHead ht = fst_or L None" using assms(1) by (simp add: dll_def)
  then show ?thesis using n r
    by (intro exI [of _ C'] exI [of _ bs']) (simp add: zend_hash_rehash_def h1_def)
qed

text \<open>The entries, the order and everything that is not the slots.\<close>

definition same_store :: "'d hashtable \<Rightarrow> 'd hashtable \<Rightarrow> bool" where
  "same_store ht ht' \<longleftrightarrow> pay (cells ht') = pay (cells ht) \<and> brk ht' = brk ht \<and>
     nNextFreeElement ht' = nNextFreeElement ht \<and> pDestructor ht' = pDestructor ht \<and>
     pInternalPointer ht' = pInternalPointer ht \<and> ht_persistent ht' = ht_persistent ht \<and>
     nApplyCount ht' = nApplyCount ht \<and> bApplyProtection ht' = bApplyProtection ht \<and>
     ht_destroyed ht' = ht_destroyed ht \<and> can_grow ht' = can_grow ht"

lemma do_resize_run:
  assumes ok: "ht_ok ht L" and mask: "nTableMask ht \<noteq> 0" and ne: "L \<noteq> []"
  shows "\<exists>r ht'. zend_hash_do_resize ht = Some (r, ht') \<and> ht_ok ht' L \<and> same_store ht ht' \<and>
    (if nTableSize ht = 2 ^ 31 then r = SUCCESS \<and> ht' = ht
     else if can_grow ht (unat (2 * nTableSize ht) * 8) then
       r = SUCCESS \<and> nTableSize ht' = 2 * nTableSize ht \<and> nTableMask ht' = 2 * nTableSize ht - 1
     else r = FAILURE \<and> ht' = ht)"
proof -
  note o = ht_okD [OF ok]
  obtain k where k: "3 \<le> k" "k \<le> 31" "nTableSize ht = 2 ^ k" "nTableMask ht = 2 ^ k - 1"
    "length (arBuckets ht) = 2 ^ k" using o(6) mask by (auto simp: table_ok_def)
  have s2: "push_bit 1 (nTableSize ht) = 2 ^ Suc k" using k(3) by (simp add: push_bit_eq_mult)
  have full: "nTableSize ht = 2 ^ 31 \<longleftrightarrow> k = 31"
  proof
    assume "nTableSize ht = 2 ^ 31"
    then have "(2 :: nat) ^ k = 2 ^ 31" using k(2,3) unat_pow2 [of k] unat_pow2 [of 31] by simp
    then show "k = 31" by (rule power_inject_exp [THEN iffD1, rotated]) simp
  qed (use k(3) in simp)
  have d: "2 * nTableSize ht = 2 ^ Suc k" using k(3) by simp
  show ?thesis
  proof (cases "k < 31 \<and> can_grow ht (unat (2 ^ Suc k :: uint) * 8)")
    case False
    have "zend_hash_do_resize ht = Some (if k < 31 then FAILURE else SUCCESS, ht)"
    proof (cases "k < 31")
      case True
      have "unat (2 ^ Suc k :: uint) = 2 ^ Suc k" using True by (intro unat_pow2) simp
      then have "(2 ^ Suc k :: uint) > 0" by (simp add: word_greater_zero_iff) (metis unat_0 power_eq_0_iff power_Suc zero_neq_numeral)
      then show ?thesis using False True s2 by (simp add: zend_hash_do_resize_def)
    next
      case big: False
      then have "k = 31" using k(2) by simp
      then have "push_bit 1 (nTableSize ht) = 0" using s2 by simp
      then show ?thesis using big by (simp add: zend_hash_do_resize_def)
    qed
    then show ?thesis using ok False k(2) unfolding full d by (auto simp: same_store_def)
  next
    case True
    have u: "unat (2 ^ Suc k :: uint) = 2 ^ Suc k" using True by (intro unat_pow2) simp
    then have pos: "(2 ^ Suc k :: uint) > 0" by (simp add: word_greater_zero_iff) (metis unat_0 power_eq_0_iff power_Suc zero_neq_numeral)
    define h1 where "h1 = ht\<lparr>arBuckets := arBuckets ht @ replicate (unat (2 ^ Suc k :: uint) - length (arBuckets ht)) None,
      nTableSize := 2 ^ Suc k, nTableMask := 2 ^ Suc k - 1\<rparr>"
    have idx: "\<forall>h. nIndex h1 h < unat (nTableSize h1)"
      using mask_less [of "Suc k"] True u by (simp add: nIndex_def h1_def)
    obtain C' bs' where r: "zend_hash_rehash h1 = Some (SUCCESS, h1\<lparr>cells := C', arBuckets := bs'\<rparr>)"
      "dom C' = dom (cells h1)" "pay C' = pay (cells h1)" "gnx C' = gnx (cells h1)" "gpv C' = gpv (cells h1)"
      "length bs' = unat (nTableSize h1)"
      "chains_ok (cnx C') (cpv C') (slot_of (nTableMask h1) (pay C')) bs' (set L)"
      using rehash_run [of h1 L] o ne idx by (auto simp: h1_def)
    define ht' where "ht' = h1\<lparr>cells := C', arBuckets := bs'\<rparr>"
    have run: "zend_hash_do_resize ht = Some (SUCCESS, ht')"
      using r(1) True s2 pos by (simp add: zend_hash_do_resize_def h1_def ht'_def Let_def del: power_Suc)
    have same: "same_store ht ht'" using r(3) by (simp add: same_store_def ht'_def h1_def)
    have "(2 ^ Suc k - 1 :: uint) \<noteq> 0"
    proof
      assume "(2 ^ Suc k - 1 :: uint) = 0"
      then have "unat (2 ^ Suc k :: uint) = unat (1 :: uint)" by simp
      then show False using u k(1) by simp
    qed
    then have t: "table_ok ht'" "nTableMask ht' \<noteq> 0"
      using True k(1) r(6) u by (auto simp: table_ok_def ht'_def h1_def intro!: exI [of _ "Suc k"])
    have "ht_ok ht' L"
      unfolding ht_ok_def using o(1-5,9-12) t r
      by (cases "pInternalPointer ht") (simp_all add: ht'_def h1_def arena_ok_def del: split_paired_All)
    moreover have "nTableSize ht' = 2 ^ Suc k" "nTableMask ht' = 2 ^ Suc k - 1" by (simp_all add: ht'_def h1_def)
    ultimately show ?thesis using run same True unfolding full d by auto
  qed
qed

lemma if_full_resize_run:
  assumes "ht_ok ht L" and "nTableMask ht \<noteq> 0"
  shows "\<exists>ht'. ZEND_HASH_IF_FULL_DO_RESIZE ht = Some ht' \<and> ht_ok ht' L \<and> same_store ht ht'"
proof (cases "nNumOfElements ht > nTableSize ht")
  case True
  then have "L \<noteq> []" using ht_okD(5) [OF assms(1)] by auto
  from do_resize_run [OF assms this] show ?thesis using True by (auto simp: ZEND_HASH_IF_FULL_DO_RESIZE_def)
next
  case False
  then show ?thesis using assms(1) by (simp add: ZEND_HASH_IF_FULL_DO_RESIZE_def same_store_def)
qed

end
