(* ===== verification/Zend_Hash_Correct.thy ===== *)
theory Zend_Hash_Correct
  imports Zend_Hash_Insert
begin

text \<open>
  What the operations of a hash table do to its entries: look-up, update, insertion and deletion,
  by string, by string with a precomputed hash, and by number. \<open>key_valid\<close> is what a caller
  owes: a non-empty key of at most \<open>2^32 - 1\<close> bytes with its length, which, when its address is
  that of a key inside a bucket, is that key.
\<close>

subsection \<open>Keys given by pointers\<close>

definition key_valid :: "'d hashtable \<Rightarrow> key_ptr \<Rightarrow> uint \<Rightarrow> bool" where
  "key_valid ht key n \<longleftrightarrow> kbytes key \<noteq> [] \<and> length (kbytes key) < 2 ^ 32 \<and> n = klen key \<and>
     (\<forall>a b k. cells ht a = Some b \<and> arKey b = Some k \<and> same_ptr k key \<longrightarrow> kbytes k = kbytes key)"

lemma key_valid_interned:
  "s \<noteq> [] \<Longrightarrow> length s < 2 ^ 32 \<Longrightarrow> n = of_nat (length s) \<Longrightarrow> key_valid ht (Interned s) n"
  by (auto simp: key_valid_def klen_def elim!: same_ptr.elims)

lemma key_valid_outside:
  "s \<noteq> [] \<Longrightarrow> length s < 2 ^ 32 \<Longrightarrow> n = of_nat (length s) \<Longrightarrow> key_valid ht (Outside s) n"
  by (auto simp: key_valid_def klen_def elim!: same_ptr.elims)

lemma key_valid_cells: "cells s = cells ht \<Longrightarrow> key_valid s key n = key_valid ht key n"
  by (simp only: key_valid_def)

lemma key_validD:
  assumes "key_valid ht key n"
  shows "unat n = length (kbytes key)" "n \<noteq> 0" "take (unat n) (kbytes key) = kbytes key"
proof -
  have u: "unat n = length (kbytes key)" using assms by (simp add: key_valid_def klen_def unat_of_nat)
  then show "unat n = length (kbytes key)" "take (unat n) (kbytes key) = kbytes key" by simp_all
  show "n \<noteq> 0" using u assms by (auto simp: key_valid_def)
qed

lemma same_ptr_Interned [simp]: "IS_INTERNED k \<Longrightarrow> same_ptr k k"
  by (cases k) auto

lemma pay_ok_bucket:
  assumes "pay_ok a (payload b)"
  shows "arKey b = None \<longleftrightarrow> nKeyLength b = 0"
    "arKey b = Some k \<Longrightarrow> length (kbytes k) = unat (nKeyLength b) \<and> b_h b = zend_inline_hash_func (kbytes k)"
  using assms by (cases "arKey b"; simp add: payload_def)+

lemma pkey_bucket: "pkey (payload b) =
    (if nKeyLength b = 0 then Num (b_h b) else Str (case arKey b of None \<Rightarrow> [] | Some k \<Rightarrow> kbytes k))"
  by (simp add: payload_def)

lemma match_index_iff: "match_index h b \<longleftrightarrow> pkey (payload b) = Num h"
  by (auto simp: match_index_def pkey_bucket)

lemma match_key_iff:
  assumes ok: "ht_ok ht L" and v: "key_valid ht key n" and b: "cells ht a = Some b"
  shows "match_key key n (zend_inline_hash_func (kbytes key)) b \<longleftrightarrow> pkey (payload b) = Str (kbytes key)"
proof -
  have po: "pay_ok a (payload b)" using ht_okD(9) [OF ok] b by (simp add: pay_def)
  note kb = pay_ok_bucket [OF po] and kv = key_validD [OF v]
  show ?thesis
  proof (cases "arKey b")
    case None
    then show ?thesis using kb kv by (auto simp: match_key_def pkey_bucket)
  next
    case (Some k)
    note k = kb(2) [OF Some] and nz = kb(1)
    have same: "same_ptr k key \<Longrightarrow> kbytes k = kbytes key" using v b Some by (auto simp: key_valid_def)
    have mem: "nKeyLength b = n \<and> memcmp_eq (arKey b) key n \<longleftrightarrow> kbytes k = kbytes key"
    proof
      assume "nKeyLength b = n \<and> memcmp_eq (arKey b) key n"
      then show "kbytes k = kbytes key" using Some k kv by (simp add: memcmp_eq_def)
    next
      assume e: "kbytes k = kbytes key"
      then have "nKeyLength b = n" using k kv by (simp add: word_unat_eq_iff)
      then show "nKeyLength b = n \<and> memcmp_eq (arKey b) key n" using Some e by (auto simp: memcmp_eq_def)
    qed
    show ?thesis
    proof (cases "kbytes k = kbytes key")
      case True
      then show ?thesis using mem k nz Some by (simp add: match_key_def pkey_bucket)
    next
      case False
      then show ?thesis using mem same nz Some by (auto simp: match_key_def pkey_bucket)
    qed
  qed
qed

subsection \<open>Looking up\<close>

lemma data_at_run:
  assumes "ht_ok ht L"
  shows "data_at ht (addr_of (pay (cells ht)) L K) = Some (map_of (entries (pay (cells ht)) L) K)"
proof (cases "addr_of (pay (cells ht)) L K")
  case None
  then show ?thesis by (simp add: data_at_def map_of_entries)
next
  case (Some a)
  then obtain b where "cells ht a = Some b" using ht_ok_cell [OF assms] addr_of_SomeD by metis
  then show ?thesis using Some by (simp add: data_at_def map_of_entries pay_def payload_def)
qed

lemma key_lookup:
  assumes "ht_ok ht L" and "key_valid ht key n"
  shows "\<exists>first. get_slot ht (nIndex ht (zend_inline_hash_func (kbytes key))) = Some first \<and>
    chain_find (match_key key n (zend_inline_hash_func (kbytes key))) first ht =
      Some (addr_of (pay (cells ht)) L (Str (kbytes key)))"
  using lookup_run [OF assms(1), of "match_key key n (zend_inline_hash_func (kbytes key))" "Str (kbytes key)"]
    match_key_iff [OF assms] by auto

lemma index_lookup:
  assumes "ht_ok ht L"
  shows "\<exists>first. get_slot ht (nIndex ht h) = Some first \<and>
    chain_find (match_index h) first ht = Some (addr_of (pay (cells ht)) L (Num h))"
  using lookup_run [OF assms, of "match_index h" "Num h"] match_index_iff by auto

lemma find_run:
  assumes "ht_rep ht es" and "key_valid ht key n"
  shows "zend_hash_find ht key n = Some (map_of es (Str (kbytes key)))"
    and "zend_hash_exists ht key n = Some (map_of es (Str (kbytes key)) \<noteq> None)"
    and "zend_hash_quick_find ht key n (zend_inline_hash_func (kbytes key)) = Some (map_of es (Str (kbytes key)))"
    and "zend_hash_quick_exists ht key n (zend_inline_hash_func (kbytes key)) = Some (map_of es (Str (kbytes key)) \<noteq> None)"
proof -
  obtain L where L: "ht_ok ht L" "es = entries (pay (cells ht)) L" using assms(1) by (auto simp: ht_rep_def)
  note kv = key_validD [OF assms(2)]
  obtain first where f: "get_slot ht (nIndex ht (zend_inline_hash_func (kbytes key))) = Some first"
    "chain_find (match_key key n (zend_inline_hash_func (kbytes key))) first ht =
      Some (addr_of (pay (cells ht)) L (Str (kbytes key)))"
    using key_lookup [OF L(1) assms(2)] by blast
  note d = data_at_run [OF L(1), of "Str (kbytes key)"]
  show "zend_hash_find ht key n = Some (map_of es (Str (kbytes key)))"
    using f d kv by (simp add: zend_hash_find_def L(2) Let_def)
  show "zend_hash_exists ht key n = Some (map_of es (Str (kbytes key)) \<noteq> None)"
    using f kv by (simp add: map_of_entries zend_hash_exists_def L(2) Let_def)
  show "zend_hash_quick_find ht key n (zend_inline_hash_func (kbytes key)) = Some (map_of es (Str (kbytes key)))"
    using f d kv by (simp add: zend_hash_quick_find_def L(2))
  show "zend_hash_quick_exists ht key n (zend_inline_hash_func (kbytes key)) = Some (map_of es (Str (kbytes key)) \<noteq> None)"
    using f kv by (simp add: map_of_entries zend_hash_quick_exists_def L(2))
qed

lemma index_find_run:
  assumes "ht_rep ht es"
  shows "zend_hash_index_find ht h = Some (map_of es (Num h))"
    and "zend_hash_index_exists ht h = Some (map_of es (Num h) \<noteq> None)"
proof -
  obtain L where L: "ht_ok ht L" "es = entries (pay (cells ht)) L" using assms(1) by (auto simp: ht_rep_def)
  obtain first where f: "get_slot ht (nIndex ht h) = Some first"
    "chain_find (match_index h) first ht = Some (addr_of (pay (cells ht)) L (Num h))"
    using index_lookup [OF L(1)] by blast
  show "zend_hash_index_find ht h = Some (map_of es (Num h))"
    using f data_at_run [OF L(1)] by (simp add: zend_hash_index_find_def L(2))
  show "zend_hash_index_exists ht h = Some (map_of es (Num h) \<noteq> None)"
    using f by (simp add: map_of_entries zend_hash_index_exists_def L(2))
qed

subsection \<open>Updating in place\<close>

lemma entries_put:
  assumes "distinct L" and "inj_on (key_at P) (set L)" and "addr_of P L K = Some a" and "P a = Some p"
  shows "entries (P(a \<mapsto> put_data d p)) L = AList.update K d (entries P L)"
  using assms(1-3)
proof (induction L)
  case Nil
  then show ?case by (simp add: addr_of_def)
next
  case (Cons x L)
  show ?case
  proof (cases "key_at P x = K")
    case True
    then have "x = a" using Cons.prems(3) by (simp add: addr_of_def)
    moreover have "entries (P(a \<mapsto> put_data d p)) L = entries P L"
      using Cons.prems(1) \<open>x = a\<close> by (intro entries_cong) auto
    ultimately show ?thesis using assms(4) True by (simp del: fun_upd_apply add: fun_upd_same)
  next
    case False
    then have a: "addr_of P L K = Some a" using Cons.prems(3) by (simp add: addr_of_def)
    then have "x \<noteq> a" using addr_of_SomeD Cons.prems(1) by fastforce
    then show ?thesis using Cons a False by simp
  qed
qed

lemma entries_snoc:
  "addr_of P L K = None \<Longrightarrow> AList.update K d (entries P L) = entries P L @ [(K, d)]"
  by (induction L) (auto simp: addr_of_def split: if_splits)

text \<open>What never changes: the destructor, the protection against recursion and the allocator.\<close>

definition same_meta :: "'d hashtable \<Rightarrow> 'd hashtable \<Rightarrow> bool" where
  "same_meta ht ht' \<longleftrightarrow> pDestructor ht' = pDestructor ht \<and> ht_persistent ht' = ht_persistent ht \<and>
     nApplyCount ht' = nApplyCount ht \<and> bApplyProtection ht' = bApplyProtection ht \<and> can_grow ht' = can_grow ht"

lemma same_meta_refl [simp]: "same_meta ht ht"
  by (simp add: same_meta_def)

lemma same_meta_trans: "same_meta a b \<Longrightarrow> same_meta b c \<Longrightarrow> same_meta a c"
  by (simp add: same_meta_def)

lemma same_meta_check_init [simp]: "same_meta ht (CHECK_INIT ht)"
  by (simp add: same_meta_def CHECK_INIT_def)

definition store_data :: "'d \<Rightarrow> ptr \<Rightarrow> 'd hashtable \<Rightarrow> 'd hashtable option" where
  "store_data d p ht = do {
     b \<leftarrow> deref ht p;
     poke (pData_update (\<lambda>_. d)) p (call_destructor (pData b) ht)
   }"

lemma store_data_run:
  assumes ok: "ht_ok ht L" and a: "addr_of (pay (cells ht)) L K = Some a"
  shows "\<exists>ht' old. store_data d (Some a) ht = Some ht' \<and> ht_ok ht' L \<and> same_meta ht ht' \<and>
    map_of (entries (pay (cells ht)) L) K = Some old \<and>
    entries (pay (cells ht')) L = AList.update K d (entries (pay (cells ht)) L) \<and>
    ht_destroyed ht' = ht_destroyed ht @ (if pDestructor ht then [old] else []) \<and>
    nNextFreeElement ht' = nNextFreeElement ht \<and> addr_of (pay (cells ht')) L K = Some a"
proof -
  note o = ht_okD [OF ok]
  have aL: "a \<in> set L" "key_at (pay (cells ht)) a = K" using addr_of_SomeD [OF a] by auto
  obtain b where b: "cells ht a = Some b" using ht_ok_cell [OF ok aL(1)] .
  have p: "pay (cells ht) a = Some (payload b)" using b by (simp add: pay_def)
  define C' where "C' = (cells ht)(a \<mapsto> b\<lparr>pData := d\<rparr>)"
  define ds where "ds = ht_destroyed ht @ (if pDestructor ht then [pData b] else [])"
  define ht' where "ht' = ht\<lparr>cells := C', ht_destroyed := ds\<rparr>"
  have run: "store_data d (Some a) ht = Some ht'"
    using b by (simp add: store_data_def call_destructor_def poke_def ht'_def C'_def ds_def)
  have links: "gnx C' = gnx (cells ht)" "gpv C' = gpv (cells ht)" "cnx C' = cnx (cells ht)" "cpv C' = cpv (cells ht)"
    using field_same [of "cells ht" a b] b by (simp_all add: C'_def field_upd)
  have P: "pay C' = (pay (cells ht))(a \<mapsto> put_data d (payload b))"
    by (simp add: C'_def field_upd payload_put)
  have keys: "key_at (pay C') x = key_at (pay (cells ht)) x" for x using p by (simp add: P)
  have sl: "slot_of m (pay C') = slot_of m (pay (cells ht))" for m
    using p by (auto simp: P slot_of_def fun_eq_iff)
  have nx: "next_ok (nNextFreeElement ht) (pay C')"
    using o(12) p by (auto simp: next_ok_def P simp del: split_paired_All)
  have pok: "pay_ok x q" if "pay C' x = Some q" for x q
    using that o(9) [of x q] o(9) [OF p] by (auto simp: P split: if_splits)
  have D: "dom C' = dom (cells ht)" using b by (auto simp: C'_def)
  have "ht_ok ht' L"
    unfolding ht_ok_def using o(1-8,10,11) nx pok D
    by (auto simp: ht'_def links sl keys table_ok_def arena_ok_def simp del: split_paired_All)
  moreover have "entries (pay (cells ht')) L = AList.update K d (entries (pay (cells ht)) L)"
    using entries_put [OF o(13) o(10) a p] by (simp add: ht'_def P)
  moreover have "map_of (entries (pay (cells ht)) L) K = Some (pData b)"
    using a p by (simp add: map_of_entries payload_def)
  moreover have "addr_of (pay (cells ht')) L K = Some a"
    using a keys by (simp add: addr_of_def ht'_def)
  ultimately show ?thesis
    using run by (intro exI [of _ ht'] exI [of _ "pData b"])
      (simp add: ht'_def ds_def same_meta_def del: split_paired_All)
qed

subsection \<open>Adding and updating\<close>

lemma connect_global_put_slot:
  "do { ht \<leftarrow> CONNECT_TO_GLOBAL_DLLIST a ht; ht \<leftarrow> put_slot i p ht; f ht } =
   do { ht \<leftarrow> put_slot i p ht; ht \<leftarrow> CONNECT_TO_GLOBAL_DLLIST a ht; f ht }"
  using put_slot_connect_global [of a ht i p] by (metis Option.bind_assoc)

lemma link_then_resize:
  "do { let (p, ht) = emalloc nb ht;
        ht \<leftarrow> CONNECT_TO_BUCKET_DLLIST p i ht;
        ht \<leftarrow> put_slot i (Some p) ht;
        ht \<leftarrow> CONNECT_TO_GLOBAL_DLLIST p ht;
        ht \<leftarrow> ZEND_HASH_IF_FULL_DO_RESIZE (ht\<lparr>nNumOfElements := nNumOfElements ht + 1\<rparr>);
        Some (SUCCESS, Some p, ht) } =
   do { h1 \<leftarrow> link_bucket nb i ht; h2 \<leftarrow> ZEND_HASH_IF_FULL_DO_RESIZE h1; Some (SUCCESS, Some (brk ht), h2) }"
  by (simp add: link_bucket_def split_beta Let_def emalloc_def)

lemma insert_run:
  assumes ok: "ht_ok ht L" and mask: "nTableMask ht \<noteq> 0" and len: "length L + 1 < 2 ^ 32"
    and K: "addr_of (pay (cells ht)) L K = None"
    and nb: "pay_ok (brk ht) (payload nb)" "pkey (payload nb) = K"
    and nx: "next_ok nfe ((pay (cells ht))(brk ht \<mapsto> payload nb))"
  shows "\<exists>h1 ht'. link_bucket nb (nIndex ht (b_h nb)) ht = Some h1 \<and> nNextFreeElement h1 = nNextFreeElement ht \<and>
    ZEND_HASH_IF_FULL_DO_RESIZE (h1\<lparr>nNextFreeElement := nfe\<rparr>) = Some ht' \<and>
    ht_ok ht' (L @ [brk ht]) \<and> same_meta ht ht' \<and>
    entries (pay (cells ht')) (L @ [brk ht]) = AList.update K (pData nb) (entries (pay (cells ht)) L) \<and>
    ht_destroyed ht' = ht_destroyed ht \<and> nNextFreeElement ht' = nfe \<and> key_at (pay (cells ht')) (brk ht) = K"
proof -
  have fresh: "\<forall>a \<in> set L. key_at (pay (cells ht)) a \<noteq> K" using K by (simp add: addr_of_None)
  obtain h1 where h1: "link_bucket nb (nIndex ht (b_h nb)) ht = Some h1" "same_table ht h1"
    "ht_ok (h1\<lparr>nNextFreeElement := nfe\<rparr>) (L @ [brk ht])"
    "pay (cells h1) = (pay (cells ht))(brk ht \<mapsto> payload nb)"
    using link_bucket_run [OF ok mask len nb fresh HOL.refl nx] by blast
  have "nTableMask (h1\<lparr>nNextFreeElement := nfe\<rparr>) \<noteq> 0" using h1(2) mask by (simp add: same_table_def)
  then obtain ht' where ht': "ZEND_HASH_IF_FULL_DO_RESIZE (h1\<lparr>nNextFreeElement := nfe\<rparr>) = Some ht'"
    "ht_ok ht' (L @ [brk ht])" "same_store (h1\<lparr>nNextFreeElement := nfe\<rparr>) ht'"
    using if_full_resize_run [OF h1(3)] by blast
  have P: "pay (cells ht') = (pay (cells ht))(brk ht \<mapsto> payload nb)" using ht'(3) h1(4) by (simp add: same_store_def)
  have "brk ht \<notin> set L" using arena_ok_fresh [OF ht_okD(1) [OF ok]] ht_okD(3) [OF ok] by auto
  then have "entries (pay (cells ht')) L = entries (pay (cells ht)) L" by (intro entries_cong) (simp add: P)
  then have "entries (pay (cells ht')) (L @ [brk ht]) = AList.update K (pData nb) (entries (pay (cells ht)) L)"
    using nb(2) entries_snoc [OF K] by (simp add: P payload_def)
  moreover have "same_meta ht ht'" "ht_destroyed ht' = ht_destroyed ht" "nNextFreeElement ht' = nfe"
    using h1(2) ht'(3) by (simp_all add: same_meta_def same_table_def same_store_def)
  moreover have "nNextFreeElement h1 = nNextFreeElement ht" using h1(2) by (simp add: same_table_def)
  moreover have "key_at (pay (cells ht')) (brk ht) = K" using P nb(2) by simp
  ultimately show ?thesis using h1(1) ht'(1,2) by blast
qed

text \<open>\<open>p\<close> is the bucket of the key \<open>K\<close>.\<close>

definition dest_of :: "'d hashtable \<Rightarrow> hkey \<Rightarrow> ptr \<Rightarrow> bool" where
  "dest_of ht K p \<longleftrightarrow> p \<noteq> None \<and> (\<exists>L. ht_ok ht L \<and> addr_of (pay (cells ht)) L K = p)"

text \<open>
  The outcome of an addition or update: \<open>HASH_ADD\<close> of a present key fails and changes nothing;
  otherwise the entry is replaced at its place, and its old data destroyed, or appended.
\<close>

definition stored :: "'d hashtable \<Rightarrow> (hkey \<times> 'd) list \<Rightarrow> hkey \<Rightarrow> 'd \<Rightarrow> bool \<Rightarrow>
    int \<times> ptr \<times> 'd hashtable \<Rightarrow> bool" where
  "stored ht es K d only_new res \<longleftrightarrow> (case res of (r, p, ht') \<Rightarrow> same_meta ht ht' \<and>
     (if only_new \<and> map_of es K \<noteq> None
      then r = FAILURE \<and> p = None \<and> ht_rep ht' es \<and> ht_destroyed ht' = ht_destroyed ht
      else r = SUCCESS \<and> dest_of ht' K p \<and> ht_rep ht' (AList.update K d es) \<and>
        ht_destroyed ht' = ht_destroyed ht @
          (case map_of es K of None \<Rightarrow> [] | Some old \<Rightarrow> if pDestructor ht then [old] else [])))"

lemma dest_new:
  assumes "ht_ok ht (L @ [a])" and "K = key_at (pay (cells ht)) a"
  shows "dest_of ht K (Some a)"
  using addr_of_unique [OF ht_okD(10) [OF assms(1)], of a] assms by (auto simp: dest_of_def)

lemma check_init_frame:
  "ht_destroyed (CHECK_INIT ht) = ht_destroyed ht" "nNextFreeElement (CHECK_INIT ht) = nNextFreeElement ht"
  "pDestructor (CHECK_INIT ht) = pDestructor ht"
  by (simp_all add: CHECK_INIT_def)

lemma new_bucket_simps [simp]:
  "payload (new_bucket h n d k) = (h, n, d, k)" "b_h (new_bucket h n d k) = h" "pData (new_bucket h n d k) = d"
  by (simp_all add: new_bucket_def payload_def)

lemma quick_add_or_update_run:
  assumes rep: "ht_rep ht es" and v: "key_valid ht key n" and len: "length es + 1 < 2 ^ 32"
  defines "h \<equiv> zend_inline_hash_func (kbytes key)"
  shows "\<exists>r p ht'. zend_hash_quick_add_or_update ht key n h d flag = Some (r, p, ht') \<and>
    stored ht es (Str (kbytes key)) d (has_flag flag HASH_ADD) (r, p, ht') \<and> nNextFreeElement ht' = nNextFreeElement ht"
proof -
  obtain L where L: "ht_ok ht L" "es = entries (pay (cells ht)) L" using rep by (auto simp: ht_rep_def)
  define s where "s = CHECK_INIT ht"
  note s = ht_ok_check_init [OF L(1), folded s_def]
  have v': "key_valid s key n" using v key_valid_cells [OF s(3)] by simp
  note kv = key_validD [OF v]
  let ?K = "Str (kbytes key)"
  obtain first where f: "get_slot s (nIndex s h) = Some first"
    "chain_find (match_key key n h) first s = Some (addr_of (pay (cells ht)) L ?K)"
    using key_lookup [OF s(1) v'] s(3) by (auto simp: h_def)
  show ?thesis
  proof (cases "addr_of (pay (cells ht)) L ?K")
    case (Some a)
    then obtain old where old: "map_of es ?K = Some old" by (simp add: L(2) map_of_entries)
    show ?thesis
    proof (cases "has_flag flag HASH_ADD")
      case True
      then have "zend_hash_quick_add_or_update ht key n h d flag = Some (FAILURE, None, s)"
        using f kv Some by (simp add: zend_hash_quick_add_or_update_def s_def [symmetric])
      moreover have "ht_rep s es" using s L(2) by (auto simp: ht_rep_def)
      ultimately show ?thesis using True old check_init_frame [of ht] same_meta_check_init [of ht]
        by (simp add: stored_def s_def)
    next
      case False
      obtain ht' old' where h': "store_data d (Some a) s = Some ht'" "ht_ok ht' L" "same_meta s ht'"
        "map_of (entries (pay (cells s)) L) ?K = Some old'"
        "entries (pay (cells ht')) L = AList.update ?K d (entries (pay (cells s)) L)"
        "ht_destroyed ht' = ht_destroyed s @ (if pDestructor s then [old'] else [])"
        "nNextFreeElement ht' = nNextFreeElement s" "addr_of (pay (cells ht')) L ?K = Some a"
        using store_data_run [OF s(1), of ?K a d] Some s(3) by auto
      have "zend_hash_quick_add_or_update ht key n h d flag = Some (SUCCESS, Some a, ht')"
        using f kv Some False h'(1)
        by (cases "cells s a") (simp_all add: zend_hash_quick_add_or_update_def s_def [symmetric] store_data_def)
      moreover have "stored ht es ?K d False (SUCCESS, Some a, ht')"
      proof -
        have "dest_of ht' ?K (Some a)" using h'(2,8) by (auto simp: dest_of_def)
        moreover have "ht_rep ht' (AList.update ?K d es)" using h'(2,5) s(3) L(2) by (auto simp: ht_rep_def)
        moreover have "old' = old" using h'(4) old s(3) L(2) by simp
        ultimately show ?thesis using h'(3,6) old check_init_frame [of ht]
          by (simp add: stored_def s_def same_meta_trans [OF same_meta_check_init])
      qed
      ultimately show ?thesis using False h'(7) check_init_frame [of ht] by (simp add: s_def)
    qed
  next
    case None
    then have old: "map_of es ?K = None" by (simp add: L(2) map_of_entries)
    define nb where "nb = new_bucket h n d (Some (store_key key n (brk s)))"
    have nb: "pay_ok (brk s) (payload nb)" "pkey (payload nb) = ?K" "b_h nb = h" "pData nb = d"
      using kv by (cases key; simp add: nb_def store_key_def h_def)+
    have nx: "next_ok (nNextFreeElement s) ((pay (cells s))(brk s \<mapsto> payload nb))"
      using ht_okD(12) [OF s(1)] nb(2) by (auto simp: next_ok_def simp del: split_paired_All)
    have "length L + 1 < 2 ^ 32" using len by (simp add: L(2) entries_def)
    from insert_run [OF s(1,2) this _ nb(1,2) nx] None s(3)
    obtain h1 ht' where r: "link_bucket nb (nIndex s h) s = Some h1" "nNextFreeElement h1 = nNextFreeElement s"
      "ZEND_HASH_IF_FULL_DO_RESIZE (h1\<lparr>nNextFreeElement := nNextFreeElement s\<rparr>) = Some ht'"
      "ht_ok ht' (L @ [brk s])" "same_meta s ht'"
      "entries (pay (cells ht')) (L @ [brk s]) = AList.update ?K d (entries (pay (cells s)) L)"
      "ht_destroyed ht' = ht_destroyed s" "nNextFreeElement ht' = nNextFreeElement s"
      "key_at (pay (cells ht')) (brk s) = ?K"
      using nb(3,4) by auto
    have "h1\<lparr>nNextFreeElement := nNextFreeElement s\<rparr> = h1" using r(2) by simp
    then have "zend_hash_quick_add_or_update ht key n h d flag = Some (SUCCESS, Some (brk s), ht')"
      using f kv None r(1,3)
      by (simp add: zend_hash_quick_add_or_update_def s_def [symmetric] link_then_resize nb_def [symmetric])
    moreover have "ht_rep ht' (AList.update ?K d es)" using r(4,6) s(3) L(2) by (auto simp: ht_rep_def)
    then have "stored ht es ?K d (has_flag flag HASH_ADD) (SUCCESS, Some (brk s), ht')"
      using r(5,7) old check_init_frame [of ht] dest_new [OF r(4) r(9) [symmetric]]
      by (simp add: stored_def s_def same_meta_trans [OF same_meta_check_init])
    ultimately show ?thesis using r(8) check_init_frame [of ht] by (simp add: s_def)
  qed
qed

text \<open>\<open>_zend_hash_add_or_update\<close> is the quick version with the hash it computes.\<close>

lemma add_or_update_is_quick:
  assumes "key_valid ht key n"
  shows "zend_hash_add_or_update ht key n d flag =
    zend_hash_quick_add_or_update ht key n (zend_inline_hash_func (kbytes key)) d flag"
proof -
  note kv = key_validD [OF assms]
  show ?thesis using kv
    by (simp add: zend_hash_add_or_update_def zend_hash_quick_add_or_update_def connect_global_put_slot
        Let_def case_prod_beta cong: if_cong)
qed

end
