(* ===== verification/Zend_Hash_Delete.thy ===== *)
theory Zend_Hash_Delete
  imports Zend_Hash_Correct
begin

text \<open>
  Numeric keys, with \<open>nNextFreeElement\<close>, and deletion: taking a bucket out of both lists keeps
  the invariant, whether by key, by an apply function or when a table is destroyed.
\<close>

subsection \<open>Numeric keys\<close>

lemma sint_64: "sint (w :: ulong) = (if uint w < 2 ^ 63 then uint w else uint w - 2 ^ 64)"
proof -
  have b: "0 \<le> uint w" "uint w < 2 ^ 64" using uint_bounded [of w] by simp_all
  have s: "sint w = take_bit 64 (uint w) - 2 ^ 64 * of_bool (bit (uint w) 63)"
    by (simp add: sint_uint signed_take_bit_eq_take_bit_minus)
  have "bit (uint w) 63 \<longleftrightarrow> odd (uint w div 2 ^ 63)" by (rule bit_iff_odd)
  also have "\<dots> \<longleftrightarrow> \<not> uint w < 2 ^ 63"
  proof (cases "uint w < 2 ^ 63")
    case True
    then have "uint w div 2 ^ 63 = 0" using b by simp
    then show ?thesis using True by simp
  next
    case False
    then have "uint w div 2 ^ 63 = 1" using b(2) by (simp add: int_div_pos_eq [of _ _ 1 "uint w - 2 ^ 63"])
    then show ?thesis using False by simp
  qed
  finally have "bit (uint w) 63 \<longleftrightarrow> \<not> uint w < 2 ^ 63" .
  moreover have "take_bit 64 (uint w) = uint w" using b by (simp add: take_bit_int_eq_self)
  ultimately show ?thesis using s by simp
qed

lemma sint_inject: "sint (v :: ulong) = sint w \<longleftrightarrow> v = w"
  by (metis of_int_sint scast_id)

lemma LONG_MAX_sint: "sint LONG_MAX = 2 ^ 63 - 1" "uint LONG_MAX = 2 ^ 63 - 1"
  by (simp_all add: LONG_MAX_def)

lemma sint_le_LONG_MAX: "sint (w :: ulong) \<le> sint LONG_MAX"
  using uint_bounded [of w] by (simp add: sint_64 [of w] LONG_MAX_sint)

definition raised :: "ulong \<Rightarrow> ulong \<Rightarrow> ulong" where
  "raised h nfe = (if sint h \<ge> sint nfe then (if h < LONG_MAX then h + 1 else LONG_MAX) else nfe)"

lemma raise_next_free_eq: "raise_next_free h ht = ht\<lparr>nNextFreeElement := raised h (nNextFreeElement ht)\<rparr>"
  by (simp add: raise_next_free_def raised_def)

lemma raised_above:
  assumes "0 \<le> sint nfe"
  shows "sint nfe \<le> sint (raised h nfe) \<and> (sint h < sint (raised h nfe) \<or> raised h nfe = LONG_MAX)"
proof (cases "sint h \<ge> sint nfe \<and> h < LONG_MAX")
  case True
  then have u: "uint h < 2 ^ 63 - 1" using LONG_MAX_sint by (simp add: word_less_def)
  then have "uint (h + 1) = uint h + 1" by (simp add: uint_word_ariths)
  then have "sint (h + 1) = sint h + 1" using u by (simp add: sint_64)
  then show ?thesis using True by (simp add: raised_def)
next
  case False
  then show ?thesis using sint_le_LONG_MAX [of nfe] by (auto simp: raised_def)
qed

lemma next_ok_raised:
  assumes "next_ok nfe P" and "pkey q = Num h"
  shows "next_ok (raised h nfe) (P(a \<mapsto> q))"
  unfolding next_ok_def
proof (intro conjI allI impI)
  have n: "0 \<le> sint nfe" using assms(1) by (simp add: next_ok_def)
  note r = raised_above [OF n, of h]
  show "0 \<le> sint (raised h nfe)" using n r by linarith
  fix b p k assume p: "(P(a \<mapsto> q)) b = Some p \<and> pkey p = Num k"
  show "sint k < sint (raised h nfe) \<or> raised h nfe = LONG_MAX"
  proof (cases "b = a")
    case True
    then show ?thesis using p assms(2) r by simp
  next
    case False
    then have "sint k < sint nfe \<or> nfe = LONG_MAX" 
      using p assms(1) by (simp add: next_ok_def del: split_paired_All)
    then show ?thesis
    proof
      assume "nfe = LONG_MAX"
      then have "sint LONG_MAX \<le> sint (raised h nfe)" using r by simp
      then have "sint (raised h nfe) = sint LONG_MAX" using sint_le_LONG_MAX [of "raised h nfe"] by simp
      then have "raised h nfe = LONG_MAX" by (simp only: sint_inject)
      then show ?thesis by simp
    qed (use r in linarith)
  qed
qed

lemma ht_ok_raised:
  assumes "ht_ok ht L" and "addr_of (pay (cells ht)) L (Num h) = Some a"
  shows "ht_ok (ht\<lparr>nNextFreeElement := raised h (nNextFreeElement ht)\<rparr>) L"
proof -
  have "a \<in> set L" "key_at (pay (cells ht)) a = Num h" using addr_of_SomeD [OF assms(2)] by auto
  moreover from this obtain b where "cells ht a = Some b" using ht_ok_cell [OF assms(1)] by blast
  ultimately have p: "pay (cells ht) a = Some (payload b)" "pkey (payload b) = Num h" by (simp_all add: pay_def)
  have "(pay (cells ht))(a \<mapsto> payload b) = pay (cells ht)" using p(1) by auto
  then have n: "next_ok (raised h (nNextFreeElement ht)) (pay (cells ht))"
    using next_ok_raised [OF ht_okD(12) [OF assms(1)] p(2), of a] by simp
  have "table_ok (ht\<lparr>nNextFreeElement := x\<rparr>) = table_ok ht" "arena_ok (ht\<lparr>nNextFreeElement := x\<rparr>) = arena_ok ht" for x
    by (simp_all add: table_ok_def arena_ok_def)
  then show ?thesis
    using assms(1) n unfolding ht_ok_def by (simp del: split_paired_All)
qed

lemma index_update_or_next_insert_run:
  fixes idx :: ulong and flag :: uint
  assumes rep: "ht_rep ht es" and len: "length es + 1 < 2 ^ 32"
  defines "h \<equiv> (if has_flag flag HASH_NEXT_INSERT then nNextFreeElement ht else idx)"
  shows "\<exists>r p ht'. zend_hash_index_update_or_next_insert ht idx d flag = Some (r, p, ht') \<and>
    stored ht es (Num h) d (has_flag flag HASH_NEXT_INSERT \<or> has_flag flag HASH_ADD) (r, p, ht') \<and>
    nNextFreeElement ht' = (if r = SUCCESS then raised h (nNextFreeElement ht) else nNextFreeElement ht)"
proof -
  obtain L where L: "ht_ok ht L" "es = entries (pay (cells ht)) L" using rep by (auto simp: ht_rep_def)
  define s where "s = CHECK_INIT ht"
  note s = ht_ok_check_init [OF L(1), folded s_def]
  have nfe: "nNextFreeElement s = nNextFreeElement ht" by (simp add: s_def check_init_frame)
  let ?K = "Num h" and ?new = "has_flag flag HASH_NEXT_INSERT \<or> has_flag flag HASH_ADD"
  obtain first where f: "get_slot s (nIndex s h) = Some first"
    "chain_find (match_index h) first s = Some (addr_of (pay (cells ht)) L ?K)"
    using index_lookup [OF s(1)] s(3) by auto
  note body = zend_hash_index_update_or_next_insert_def [of ht idx d flag, unfolded Let_def,
    folded s_def, unfolded nfe, folded h_def]
  show ?thesis
  proof (cases "addr_of (pay (cells ht)) L ?K")
    case (Some a)
    then obtain old where old: "map_of es ?K = Some old" by (simp add: L(2) map_of_entries)
    show ?thesis
    proof (cases ?new)
      case True
      then have "zend_hash_index_update_or_next_insert ht idx d flag = Some (FAILURE, None, s)"
        using f Some by (simp add: body Let_def)
      moreover have "ht_rep s es" using s L(2) by (auto simp: ht_rep_def)
      ultimately show ?thesis using True old check_init_frame [of ht] same_meta_check_init [of ht]
        by (simp add: stored_def s_def)
    next
      case False
      obtain ht1 old' where h': "store_data d (Some a) s = Some ht1" "ht_ok ht1 L" "same_meta s ht1"
        "map_of (entries (pay (cells s)) L) ?K = Some old'"
        "entries (pay (cells ht1)) L = AList.update ?K d (entries (pay (cells s)) L)"
        "ht_destroyed ht1 = ht_destroyed s @ (if pDestructor s then [old'] else [])"
        "nNextFreeElement ht1 = nNextFreeElement s" "addr_of (pay (cells ht1)) L ?K = Some a"
        using store_data_run [OF s(1), of ?K a d] Some s(3) by auto
      define ht' where "ht' = raise_next_free h ht1"
      have e: "ht' = ht1\<lparr>nNextFreeElement := raised h (nNextFreeElement ht)\<rparr>"
        using h'(7) nfe by (simp add: ht'_def raise_next_free_eq)
      have run: "zend_hash_index_update_or_next_insert ht idx d flag = Some (SUCCESS, Some a, ht')"
        using f Some False h'(1)
        by (cases "cells s a") (simp_all add: body Let_def store_data_def ht'_def)
      have ok': "ht_ok ht' L" using ht_ok_raised [OF h'(2) h'(8)] h'(7) nfe by (simp add: e)
      then have "dest_of ht' ?K (Some a)" using h'(8) by (auto simp: dest_of_def e)
      moreover have "ht_rep ht' (AList.update ?K d es)" using ok' h'(5) s(3) L(2) by (auto simp: ht_rep_def e)
      moreover have "old' = old" using h'(4) old s(3) L(2) by simp
      ultimately have "stored ht es ?K d ?new (SUCCESS, Some a, ht')"
        using h'(3,6) old check_init_frame [of ht] False same_meta_trans [OF same_meta_check_init, of ht ht']
        by (simp add: stored_def s_def e same_meta_def)
      then show ?thesis using run by (simp add: e)
    qed
  next
    case None
    then have old: "map_of es ?K = None" by (simp add: L(2) map_of_entries)
    define nb where "nb = new_bucket h 0 d None"
    have nb: "pay_ok (brk s) (payload nb)" "pkey (payload nb) = ?K" "b_h nb = h" "pData nb = d"
      by (simp_all add: nb_def)
    have nx: "next_ok (raised h (nNextFreeElement ht)) ((pay (cells s))(brk s \<mapsto> payload nb))"
      using next_ok_raised [OF ht_okD(12) [OF s(1)] nb(2)] nfe by simp
    have "length L + 1 < 2 ^ 32" using len by (simp add: L(2) entries_def)
    from insert_run [OF s(1,2) this _ nb(1,2) nx] None s(3)
    obtain h1 ht' where r: "link_bucket nb (nIndex s h) s = Some h1" "nNextFreeElement h1 = nNextFreeElement s"
      "ZEND_HASH_IF_FULL_DO_RESIZE (h1\<lparr>nNextFreeElement := raised h (nNextFreeElement ht)\<rparr>) = Some ht'"
      "ht_ok ht' (L @ [brk s])" "same_meta s ht'"
      "entries (pay (cells ht')) (L @ [brk s]) = AList.update ?K d (entries (pay (cells s)) L)"
      "ht_destroyed ht' = ht_destroyed s" "nNextFreeElement ht' = raised h (nNextFreeElement ht)"
      "key_at (pay (cells ht')) (brk s) = ?K"
      using nb(3,4) by auto
    have order: "(x :: 'a hashtable)\<lparr>nNumOfElements := i, nNextFreeElement := j\<rparr> =
        x\<lparr>nNextFreeElement := j, nNumOfElements := i\<rparr>" for x i j by simp
    have run: "zend_hash_index_update_or_next_insert ht idx d flag = Some (SUCCESS, Some (brk s), ht')"
      using f None r(1-3) nfe
      by (auto simp: emalloc_def order body nb_def [symmetric] link_bucket_def raise_next_free_eq Let_def case_prod_beta split: bind_splits)
    moreover have "ht_rep ht' (AList.update ?K d es)" using r(4,6) s(3) L(2) by (auto simp: ht_rep_def)
    then have "stored ht es ?K d ?new (SUCCESS, Some (brk s), ht')"
      using r(5,7) old check_init_frame [of ht] dest_new [OF r(4) r(9) [symmetric]]
      by (simp add: stored_def s_def same_meta_trans [OF same_meta_check_init])
    ultimately show ?thesis using r(8) by simp
  qed
qed

subsection \<open>Unlinking a bucket\<close>

text \<open>One cell changed through a pointer that may be \<open>NULL\<close>.\<close>

definition upd_at :: "('d bucket \<Rightarrow> 'd bucket) \<Rightarrow> ptr \<Rightarrow> 'd cells_map \<Rightarrow> 'd cells_map" where
  "upd_at f p C = (case p of None \<Rightarrow> C | Some x \<Rightarrow> (case C x of None \<Rightarrow> C | Some b \<Rightarrow> C(x \<mapsto> f b)))"

lemma poke_upd_at: "x \<in> dom (cells ht) \<Longrightarrow> poke f (Some x) ht = Some (ht\<lparr>cells := upd_at f (Some x) (cells ht)\<rparr>)"
  by (auto simp: poke_def upd_at_def)

lemma upd_at_None [simp]: "upd_at f None C = C"
  by (simp add: upd_at_def)

lemma poke_if_upd_at:
  "(\<And>x. p = Some x \<Longrightarrow> x \<in> dom (cells ht)) \<Longrightarrow> poke_if f p ht = Some (ht\<lparr>cells := upd_at f p (cells ht)\<rparr>)"
  by (cases p) (simp_all add: poke_if_Some poke_upd_at)

lemma dom_upd_at [simp]: "dom (upd_at f p C) = dom C"
  by (auto simp: upd_at_def split: option.splits)

lemma upd_at_other: "p \<noteq> Some a \<Longrightarrow> upd_at f p C a = C a"
  by (auto simp: upd_at_def split: option.splits)

lemma fields_upd_at [simp]:
  "gpv (upd_at (pListNext_update g) p C) = gpv C" "cnx (upd_at (pListNext_update g) p C) = cnx C"
  "cpv (upd_at (pListNext_update g) p C) = cpv C" "pay (upd_at (pListNext_update g) p C) = pay C"
  "gnx (upd_at (pListLast_update g) p C) = gnx C" "cnx (upd_at (pListLast_update g) p C) = cnx C"
  "cpv (upd_at (pListLast_update g) p C) = cpv C" "pay (upd_at (pListLast_update g) p C) = pay C"
  "gnx (upd_at (pNext_update g) p C) = gnx C" "gpv (upd_at (pNext_update g) p C) = gpv C"
  "cpv (upd_at (pNext_update g) p C) = cpv C" "pay (upd_at (pNext_update g) p C) = pay C"
  "gnx (upd_at (pLast_update g) p C) = gnx C" "gpv (upd_at (pLast_update g) p C) = gpv C"
  "cnx (upd_at (pLast_update g) p C) = cnx C" "pay (upd_at (pLast_update g) p C) = pay C"
  by (auto simp: upd_at_def gnx_def gpv_def cnx_def cpv_def pay_def payload_def fun_eq_iff split: option.splits)

lemma fields_upd_at_set:
  assumes "\<And>x. p = Some x \<Longrightarrow> x \<in> dom C"
  shows "gnx (upd_at (pListNext_update (\<lambda>_. v)) p C) x = (if p = Some x then v else gnx C x)"
    "gpv (upd_at (pListLast_update (\<lambda>_. v)) p C) x = (if p = Some x then v else gpv C x)"
    "cnx (upd_at (pNext_update (\<lambda>_. v)) p C) x = (if p = Some x then v else cnx C x)"
    "cpv (upd_at (pLast_update (\<lambda>_. v)) p C) x = (if p = Some x then v else cpv C x)"
  using assms
  by (cases p; auto simp: upd_at_def gnx_def gpv_def cnx_def cpv_def split: option.splits; fastforce)+

text \<open>The table without the bucket \<open>b\<close> at \<open>a\<close>, which is still allocated.\<close>

definition del_cells :: "'d bucket \<Rightarrow> 'd cells_map \<Rightarrow> 'd cells_map" where
  "del_cells b C =
     upd_at (pListLast_update (\<lambda>_. pListLast b)) (pListNext b)
       (upd_at (pListNext_update (\<lambda>_. pListNext b)) (pListLast b)
         (upd_at (pLast_update (\<lambda>_. pLast b)) (pNext b)
           (upd_at (pNext_update (\<lambda>_. pNext b)) (pLast b) C)))"

definition unlinked :: "nat \<Rightarrow> 'd bucket \<Rightarrow> 'd hashtable \<Rightarrow> 'd hashtable" where
  "unlinked a b ht = ht\<lparr>cells := del_cells b (cells ht),
     arBuckets := (if pLast b = None then (arBuckets ht)[nIndex ht (b_h b) := pNext b] else arBuckets ht),
     pListHead := (if pListLast b = None then pListNext b else pListHead ht),
     pListTail := (if pListNext b = None then pListLast b else pListTail ht),
     pInternalPointer := (if pInternalPointer ht = Some a then pListNext b else pInternalPointer ht)\<rparr>"

definition removed :: "nat \<Rightarrow> 'd bucket \<Rightarrow> 'd hashtable \<Rightarrow> 'd hashtable" where
  "removed a b ht = (let s = unlinked a b ht in
     s\<lparr>cells := (cells s)(a := None), nNumOfElements := nNumOfElements ht - 1,
       ht_destroyed := ht_destroyed ht @ (if pDestructor ht then [pData b] else [])\<rparr>)"

lemma ht_ok_neighbours:
  assumes ok: "ht_ok ht (ys @ a # zs)" and b: "cells ht a = Some b"
  shows "pListNext b = fst_or zs None" "pListLast b = lst_or None ys"
    "pListNext b = Some x \<Longrightarrow> x \<in> dom (cells ht) \<and> x \<noteq> a" "pListLast b = Some x \<Longrightarrow> x \<in> dom (cells ht) \<and> x \<noteq> a"
    "pNext b = Some x \<Longrightarrow> x \<in> dom (cells ht) \<and> x \<noteq> a" "pLast b = Some x \<Longrightarrow> x \<in> dom (cells ht) \<and> x \<noteq> a"
    "slot_of (nTableMask ht) (pay (cells ht)) a = nIndex ht (b_h b)"
    "nIndex ht (b_h b) < length (arBuckets ht)"
proof -
  note o = ht_okD [OF ok]
  have g: "gnx (cells ht) a = fst_or zs None" "gpv (cells ht) a = lst_or None ys"
    using o(2) by (simp_all add: dll_def)
  then show e: "pListNext b = fst_or zs None" "pListLast b = lst_or None ys"
    using b by (simp_all add: gnx_def gpv_def)
  have d: "a \<notin> set ys" "a \<notin> set zs" using o(13) by simp_all
  show "pListNext b = Some x \<Longrightarrow> x \<in> dom (cells ht) \<and> x \<noteq> a"
    using e d o(3) by (auto dest: fst_or_in)
  show "pListLast b = Some x \<Longrightarrow> x \<in> dom (cells ht) \<and> x \<noteq> a"
    using e d o(3) by (auto dest: lst_or_in)
  show s: "slot_of (nTableMask ht) (pay (cells ht)) a = nIndex ht (b_h b)"
    using b by (simp add: slot_of_def pay_def payload_def nIndex_def)
  show i: "nIndex ht (b_h b) < length (arBuckets ht)" using nIndex_less [OF o(6)] .
  have "a \<in> set (ys @ a # zs)" by simp
  note nb = chains_neighbours [OF o(8) this]
  show "pNext b = Some x \<Longrightarrow> x \<in> dom (cells ht) \<and> x \<noteq> a"
    using nb(1) [of x] s i b o(3) by (simp add: cnx_def)
  show "pLast b = Some x \<Longrightarrow> x \<in> dom (cells ht) \<and> x \<noteq> a"
    using nb(2) [of x] s i b o(3) by (simp add: cpv_def)
qed

lemma del_cells_fields:
  assumes ok: "ht_ok ht (ys @ a # zs)" and b: "cells ht a = Some b"
  shows "gnx (del_cells b (cells ht)) x = (if pListLast b = Some x then pListNext b else gnx (cells ht) x)"
    "gpv (del_cells b (cells ht)) x = (if pListNext b = Some x then pListLast b else gpv (cells ht) x)"
    "cnx (del_cells b (cells ht)) x = (if pLast b = Some x then pNext b else cnx (cells ht) x)"
    "cpv (del_cells b (cells ht)) x = (if pNext b = Some x then pLast b else cpv (cells ht) x)"
    "pay (del_cells b (cells ht)) = pay (cells ht)" "dom (del_cells b (cells ht)) = dom (cells ht)"
    "del_cells b (cells ht) a = Some b"
proof -
  note n = ht_ok_neighbours [OF ok b]
  have dm: "\<And>x. pListNext b = Some x \<Longrightarrow> x \<in> dom (cells ht)" "\<And>x. pListLast b = Some x \<Longrightarrow> x \<in> dom (cells ht)"
    "\<And>x. pNext b = Some x \<Longrightarrow> x \<in> dom (cells ht)" "\<And>x. pLast b = Some x \<Longrightarrow> x \<in> dom (cells ht)"
    using n(3-6) by blast+
  note set = fields_upd_at_set [OF dm(1)] fields_upd_at_set [OF dm(2)] fields_upd_at_set [OF dm(3)] fields_upd_at_set [OF dm(4)]
  show "gnx (del_cells b (cells ht)) x = (if pListLast b = Some x then pListNext b else gnx (cells ht) x)"
    "gpv (del_cells b (cells ht)) x = (if pListNext b = Some x then pListLast b else gpv (cells ht) x)"
    "cnx (del_cells b (cells ht)) x = (if pLast b = Some x then pNext b else cnx (cells ht) x)"
    "cpv (del_cells b (cells ht)) x = (if pNext b = Some x then pLast b else cpv (cells ht) x)"
    by (simp_all add: del_cells_def fields_upd_at_set dm)
  show "pay (del_cells b (cells ht)) = pay (cells ht)" "dom (del_cells b (cells ht)) = dom (cells ht)"
    by (simp_all add: del_cells_def)
  have "pListNext b \<noteq> Some a" "pListLast b \<noteq> Some a" "pNext b \<noteq> Some a" "pLast b \<noteq> Some a"
    using n(3-6) by blast+
  then show "del_cells b (cells ht) a = Some b" using b by (simp add: del_cells_def upd_at_other)
qed

lemma ht_ok_removed:
  assumes ok: "ht_ok ht (ys @ a # zs)" and b: "cells ht a = Some b"
  shows "ht_ok (removed a b ht) (ys @ zs)" and "pay (cells (removed a b ht)) = (pay (cells ht))(a := None)"
proof -
  let ?C = "cells ht" and ?D = "(del_cells b (cells ht))(a := None)"
  note o = ht_okD [OF ok] and n = ht_ok_neighbours [OF ok b] and f = del_cells_fields [OF ok b]
  have d: "a \<notin> set ys" "a \<notin> set zs" "distinct (ys @ zs)" using o(13) by auto
  have A: "set (ys @ a # zs) - {a} = set (ys @ zs)" using d by auto
  have at: "gnx ?C a = pListNext b" "gpv ?C a = pListLast b" "cnx ?C a = pNext b" "cpv ?C a = pLast b"
    using b by (simp_all add: gnx_def gpv_def cnx_def cpv_def)
  have P: "pay ?D = (pay ?C)(a := None)" using f(5) by (simp add: field_free)
  have G: "dll (gnx ?D) (gpv ?D) (if pListLast b = None then pListNext b else pListHead ht)
      (if pListNext b = None then pListLast b else pListTail ht) (ys @ zs)"
  proof (rule dll_unlink [OF o(2)])
    show "\<forall>x \<in> set ys \<union> set zs. gnx ?D x = (if gpv ?C a = Some x then gnx ?C a else gnx ?C x)"
      using f(1) d at by (auto simp: field_free)
    show "\<forall>x \<in> set ys \<union> set zs. gpv ?D x = (if gnx ?C a = Some x then gpv ?C a else gpv ?C x)"
      using f(2) d at by (auto simp: field_free)
  qed (simp_all add: at)
  have aL: "a \<in> set (ys @ a # zs)" by simp
  have il: "slot_of (nTableMask ht) (pay ?C) a < length (arBuckets ht)" using n(7,8) by simp
  have "chains_ok (cnx ?D) (cpv ?D) (slot_of (nTableMask ht) (pay ?D))
      (if cpv ?C a = None then (arBuckets ht)[slot_of (nTableMask ht) (pay ?C) a := cnx ?C a] else arBuckets ht)
      (set (ys @ a # zs) - {a})"
  proof (rule chains_remove [OF o(8) aL il])
    show "\<forall>x \<in> set (ys @ a # zs) - {a}. slot_of (nTableMask ht) (pay ?D) x = slot_of (nTableMask ht) (pay ?C) x"
      by (simp add: P slot_of_def)
    show "\<forall>x \<in> set (ys @ a # zs) - {a}. cnx ?D x = (if cpv ?C a = Some x then cnx ?C a else cnx ?C x)"
      using f(3) at by (simp add: field_free)
    show "\<forall>x \<in> set (ys @ a # zs) - {a}. cpv ?D x = (if cnx ?C a = Some x then cpv ?C a else cpv ?C x)"
      using f(4) at by (simp add: field_free)
  qed
  then have Ch: "chains_ok (cnx ?D) (cpv ?D) (slot_of (nTableMask ht) (pay ?D))
      (if pLast b = None then (arBuckets ht)[nIndex ht (b_h b) := pNext b] else arBuckets ht) (set (ys @ zs))"
    unfolding A at n(7) .
  have keys: "inj_on (key_at (pay ?D)) (set (ys @ zs))"
  proof -
    have "key_at (pay ?D) x = key_at (pay ?C) x" if "x \<in> set (ys @ zs)" for x
      using that d by (auto simp: P)
    then show ?thesis using o(10) by (auto simp: inj_on_def)
  qed
  have pok: "pay_ok x q" if "pay ?D x = Some q" for x q
    using that o(9) [of x q] by (simp add: P split: if_splits)
  have nx: "next_ok (nNextFreeElement ht) (pay ?D)"
    using o(12) unfolding next_ok_def P by (simp del: split_paired_All)
  have ip: "x \<in> set (ys @ zs)" if "(if pInternalPointer ht = Some a then pListNext b else pInternalPointer ht) = Some x" for x
    using that n(1) o(11) [of x] fst_or_in [of zs x] by (auto split: if_splits)
  have D: "dom ?D = set (ys @ zs)" using f(6) o(3) A by (metis dom_fun_upd)
  have tab: "table_ok (removed a b ht)" "arena_ok (removed a b ht)"
  proof -
    have m: "nTableMask ht \<noteq> 0" using o(7) by auto
    show "table_ok (removed a b ht)" using o(6) m by (auto simp: table_ok_def removed_def unlinked_def Let_def)
    show "arena_ok (removed a b ht)"
      using o(1) D o(3) by (auto simp: arena_ok_def removed_def unlinked_def Let_def)
  qed
  have len: "length (ys @ zs) < 2 ^ 32" "nNumOfElements ht - 1 = of_nat (length (ys @ zs))"
    using o(4,5) by simp_all
  note proj = removed_def unlinked_def Let_def
  show "ht_ok (removed a b ht) (ys @ zs)"
    unfolding ht_ok_def
  proof (intro conjI)
    show "dll (gnx (cells (removed a b ht))) (gpv (cells (removed a b ht))) (pListHead (removed a b ht))
        (pListTail (removed a b ht)) (ys @ zs)"
      using G by (simp add: proj)
    show "dom (cells (removed a b ht)) = set (ys @ zs)" using D by (simp add: proj)
    show "nNumOfElements (removed a b ht) = of_nat (length (ys @ zs))" using len by (simp add: proj)
    show "chains_ok (cnx (cells (removed a b ht))) (cpv (cells (removed a b ht)))
        (slot_of (nTableMask (removed a b ht)) (pay (cells (removed a b ht)))) (arBuckets (removed a b ht)) (set (ys @ zs))"
      using Ch by (simp add: proj)
    show "\<forall>x q. pay (cells (removed a b ht)) x = Some q \<longrightarrow> pay_ok x q"
      using pok by (simp add: proj del: split_paired_All)
    show "inj_on (key_at (pay (cells (removed a b ht)))) (set (ys @ zs))" using keys by (simp add: proj)
    show "\<forall>x. pInternalPointer (removed a b ht) = Some x \<longrightarrow> x \<in> set (ys @ zs)" using ip by (simp add: proj)
    show "next_ok (nNextFreeElement (removed a b ht)) (pay (cells (removed a b ht)))" using nx by (simp add: proj)
    show "nTableMask (removed a b ht) = 0 \<longrightarrow> ys @ zs = []" using o(7) by (auto simp: proj)
  qed (use tab len in simp_all)
  show "pay (cells (removed a b ht)) = (pay (cells ht))(a := None)" using P by (simp add: proj)
qed

lemma unlink_run:
  assumes ok: "ht_ok ht (ys @ a # zs)" and b: "cells ht a = Some b"
  shows "do {
      h1 \<leftarrow> (if pLast b \<noteq> None then poke (pNext_update (\<lambda>_. pNext b)) (pLast b) ht
            else put_slot (nIndex ht (b_h b)) (pNext b) ht);
      h2 \<leftarrow> poke_if (pLast_update (\<lambda>_. pLast b)) (pNext b) h1;
      unlink_global a h2
    } = Some (unlinked a b ht)"
proof -
  note n = ht_ok_neighbours [OF ok b]
  define bs where "bs = (if pLast b = None then (arBuckets ht)[nIndex ht (b_h b) := pNext b] else arBuckets ht)"
  define C1 where "C1 = upd_at (pNext_update (\<lambda>_. pNext b)) (pLast b) (cells ht)"
  define C2 where "C2 = upd_at (pLast_update (\<lambda>_. pLast b)) (pNext b) C1"
  define C3 where "C3 = upd_at (pListNext_update (\<lambda>_. pListNext b)) (pListLast b) C2"
  define C4 where "C4 = upd_at (pListLast_update (\<lambda>_. pListLast b)) (pListNext b) C3"
  have dm: "dom C1 = dom (cells ht)" "dom C2 = dom (cells ht)" "dom C3 = dom (cells ht)"
    by (simp_all add: C1_def C2_def C3_def)
  have C4: "C4 = del_cells b (cells ht)" by (simp add: C4_def C3_def C2_def C1_def del_cells_def)
  have other: "pLast b \<noteq> Some a" "pNext b \<noteq> Some a" using n(5,6) by blast+
  have at: "C2 a = Some b" using b other by (simp add: C2_def C1_def upd_at_other)
  have 1: "(if pLast b \<noteq> None then poke (pNext_update (\<lambda>_. pNext b)) (pLast b) ht
      else put_slot (nIndex ht (b_h b)) (pNext b) ht) = Some (ht\<lparr>cells := C1, arBuckets := bs\<rparr>)"
  proof (cases "pLast b")
    case None
    then show ?thesis using n(8) by (simp add: put_slot_def C1_def bs_def)
  next
    case (Some x)
    then have "x \<in> dom (cells ht)" using n(6) by blast
    from poke_upd_at [OF this] show ?thesis using Some by (simp add: C1_def bs_def)
  qed
  have 2: "poke_if (pLast_update (\<lambda>_. pLast b)) (pNext b) (ht\<lparr>cells := C1, arBuckets := bs\<rparr>) =
      Some (ht\<lparr>cells := C2, arBuckets := bs\<rparr>)"
    using poke_if_upd_at [of "pNext b" "ht\<lparr>cells := C1, arBuckets := bs\<rparr>"] n(5) dm(1) by (simp add: C2_def)
  define h3 where "h3 = (if pListLast b = None then ht\<lparr>cells := C3, arBuckets := bs, pListHead := pListNext b\<rparr>
    else ht\<lparr>cells := C3, arBuckets := bs\<rparr>)"
  have 3: "(if pListLast b \<noteq> None then poke (pListNext_update (\<lambda>_. pListNext b)) (pListLast b) (ht\<lparr>cells := C2, arBuckets := bs\<rparr>)
      else Some (ht\<lparr>cells := C2, arBuckets := bs, pListHead := pListNext b\<rparr>)) = Some h3"
  proof (cases "pListLast b")
    case None
    then show ?thesis by (simp add: h3_def C3_def)
  next
    case (Some x)
    then have "x \<in> dom (cells (ht\<lparr>cells := C2, arBuckets := bs\<rparr>))" using n(4) dm(2) by simp
    from poke_upd_at [OF this] show ?thesis using Some by (simp add: h3_def C3_def)
  qed
  have 4: "(if pListNext b \<noteq> None then poke (pListLast_update (\<lambda>_. pListLast b)) (pListNext b) h3
      else Some (h3\<lparr>pListTail := pListLast b\<rparr>)) =
      Some (h3\<lparr>cells := C4, pListTail := (if pListNext b = None then pListLast b else pListTail h3)\<rparr>)"
  proof (cases "pListNext b")
    case None
    then show ?thesis by (simp add: h3_def C4_def)
  next
    case (Some x)
    then have "x \<in> dom (cells h3)" using n(3) dm(3) by (simp add: h3_def)
    from poke_upd_at [OF this] show ?thesis using Some by (simp add: h3_def C4_def)
  qed
  have "unlink_global a (ht\<lparr>cells := C2, arBuckets := bs\<rparr>) = Some (unlinked a b ht)"
  proof -
    have at': "deref (ht\<lparr>cells := C2, arBuckets := bs\<rparr>) (Some a) = Some b" using at by simp
    have "unlink_global a (ht\<lparr>cells := C2, arBuckets := bs\<rparr>) =
      (let h4 = h3\<lparr>cells := C4, pListTail := (if pListNext b = None then pListLast b else pListTail h3)\<rparr>
       in Some (if pInternalPointer h4 = Some a then h4\<lparr>pInternalPointer := pListNext b\<rparr> else h4))"
      by (simp only: unlink_global_def at' 3 4 Option.bind.bind_lunit Let_def)
    then show ?thesis by (simp add: h3_def unlinked_def C4 bs_def)
  qed
  then show ?thesis by (simp only: 1 2 Option.bind.bind_lunit)
qed

lemma apply_deleter_run:
  assumes ok: "ht_ok ht (ys @ a # zs)" and b: "cells ht a = Some b"
  shows "zend_hash_apply_deleter ht a = Some (fst_or zs None, removed a b ht)"
proof -
  note n = ht_ok_neighbours [OF ok b] and f = del_cells_fields [OF ok b]
  obtain h1 h2 where u: "(if pLast b \<noteq> None then poke (pNext_update (\<lambda>_. pNext b)) (pLast b) ht
      else put_slot (nIndex ht (b_h b)) (pNext b) ht) = Some h1"
    "poke_if (pLast_update (\<lambda>_. pLast b)) (pNext b) h1 = Some h2" "unlink_global a h2 = Some (unlinked a b ht)"
    using unlink_run [OF ok b] by (auto split: bind_splits)
  have "cells (unlinked a b ht) a = Some b" using f(7) by (simp add: unlinked_def)
  then show ?thesis using u b n(1)
    by (simp add: zend_hash_apply_deleter_def call_destructor_def removed_def efree_def Let_def)
       (simp add: unlinked_def)
qed

lemma split_at: "a \<in> set L \<Longrightarrow> \<exists>ys zs. L = ys @ a # zs"
  by (rule split_list)

lemma match_del_iff:
  assumes "pay_ok a (payload b)"
  shows "n = 0 \<Longrightarrow> match_del key n h b \<longleftrightarrow> pkey (payload b) = Num h"
    and "n \<noteq> 0 \<Longrightarrow> unat n = length (kbytes key) \<Longrightarrow>
      match_del key n (zend_inline_hash_func (kbytes key)) b \<longleftrightarrow> pkey (payload b) = Str (kbytes key)"
proof -
  show "match_del key n h b \<longleftrightarrow> pkey (payload b) = Num h" if "n = 0"
    using that by (auto simp: match_del_def pkey_bucket memcmp_eq_def)
  assume n: "n \<noteq> 0" "unat n = length (kbytes key)"
  show "match_del key n (zend_inline_hash_func (kbytes key)) b \<longleftrightarrow> pkey (payload b) = Str (kbytes key)"
  proof (cases "arKey b")
    case None
    then show ?thesis using pay_ok_bucket [OF assms] n by (auto simp: match_del_def pkey_bucket)
  next
    case (Some k)
    note k = pay_ok_bucket(2) [OF assms Some] and nz = pay_ok_bucket(1) [OF assms]
    have "nKeyLength b = n \<longleftrightarrow> length (kbytes k) = length (kbytes key)"
      using k n by (simp add: word_unat_eq_iff)
    then show ?thesis using Some k nz n by (auto simp: match_del_def pkey_bucket memcmp_eq_def)
  qed
qed

text \<open>Deleting by a key \<open>K\<close>, given as a string or as a number.\<close>

definition del_args :: "key_ptr \<Rightarrow> uint \<Rightarrow> ulong \<Rightarrow> del_flag \<Rightarrow> hkey \<Rightarrow> bool" where
  "del_args key n h flag K \<longleftrightarrow>
     (case K of
        Num i \<Rightarrow> n = 0 \<and> flag \<noteq> HASH_DEL_KEY \<and> h = i
      | Str s \<Rightarrow> s \<noteq> [] \<and> kbytes key = s \<and> length s < 2 ^ 32 \<and> n = of_nat (length s) \<and>
          (flag = HASH_DEL_KEY \<or> h = zend_inline_hash_func s))"

lemma entries_removed:
  assumes "ht_ok ht (ys @ a # zs)" and "P = pay (cells ht)"
  shows "entries (P(a := None)) (ys @ zs) = AList.delete (key_at P a) (entries P (ys @ a # zs))"
proof -
  note o = ht_okD [OF assms(1)]
  have d: "a \<notin> set ys" "a \<notin> set zs" using o(13) by auto
  have "key_at P a \<noteq> key_at P x" if "x \<in> set ys \<union> set zs" for x
    using o(10) that d assms(2) unfolding inj_on_def by auto
  then have "AList.delete (key_at P a) (entries P ys) = entries P ys" "AList.delete (key_at P a) (entries P zs) = entries P zs"
    by (auto simp: AList.delete_eq filter_id_conv entries_def)
  then have "AList.delete (key_at P a) (entries P (ys @ a # zs)) = entries P (ys @ zs)" by (simp add: AList.delete_eq)
  moreover have "entries (P(a := None)) (ys @ zs) = entries P (ys @ zs)" using d by (intro entries_cong) auto
  ultimately show ?thesis by simp
qed

lemma del_run:
  assumes rep: "ht_rep ht es" and args: "del_args key n h0 flag K"
  shows "\<exists>r ht'. zend_hash_del_key_or_index ht key n h0 flag = Some (r, ht') \<and>
    (r = SUCCESS \<longleftrightarrow> map_of es K \<noteq> None) \<and> (r = SUCCESS \<or> r = FAILURE) \<and>
    ht_rep ht' (AList.delete K es) \<and> same_meta ht ht' \<and> nNextFreeElement ht' = nNextFreeElement ht \<and>
    ht_destroyed ht' = ht_destroyed ht @
      (case map_of es K of None \<Rightarrow> [] | Some old \<Rightarrow> if pDestructor ht then [old] else [])"
proof -
  obtain L where L: "ht_ok ht L" "es = entries (pay (cells ht)) L" using rep by (auto simp: ht_rep_def)
  define h where "h = (if flag = HASH_DEL_KEY then zend_inline_hash_func (take (unat n) (kbytes key)) else h0)"
  have h: "h = hash_of K" "match_del key n h b \<longleftrightarrow> pkey (payload b) = K" if "pay_ok a (payload b)" for a and b :: "'a bucket"
  proof -
    show "h = hash_of K"
      using args by (cases K) (auto simp: del_args_def h_def unat_of_nat)
    show "match_del key n h b \<longleftrightarrow> pkey (payload b) = K"
    proof (cases K)
      case (Num i)
      then show ?thesis using args match_del_iff(1) [OF that] by (auto simp: del_args_def h_def)
    next
      case (Str s)
      have u: "unat n = length s" using args Str by (simp add: del_args_def unat_of_nat)
      then have "n \<noteq> 0" using args Str by (auto simp: del_args_def)
      moreover have "h = zend_inline_hash_func (kbytes key)" using args Str u by (auto simp: del_args_def h_def)
      ultimately show ?thesis using match_del_iff(2) [OF that, of n key] args Str u by (simp add: del_args_def)
    qed
  qed
  have hK: "h = hash_of K" using h(1) [of 0 "undefined\<lparr>nKeyLength := 0, arKey := None\<rparr>"] by (simp add: payload_def)
  have M: "\<And>a b. cells ht a = Some b \<Longrightarrow> match_del key n h b \<longleftrightarrow> pkey (payload b) = K"
  proof -
    fix a b assume "cells ht a = Some b"
    then have "pay (cells ht) a = Some (payload b)" by (simp add: pay_def)
    from h(2) [OF ht_okD(9) [OF L(1) this]]
    show "match_del key n h b \<longleftrightarrow> pkey (payload b) = K" .
  qed
  obtain first where f: "get_slot ht (nIndex ht h) = Some first"
    "arBuckets ht ! nIndex ht h = first" "chain_find (match_del key n h) first ht = Some (addr_of (pay (cells ht)) L K)"
    using lookup_run [OF L(1), of "match_del key n h" K] M hK by blast
  show ?thesis
  proof (cases "addr_of (pay (cells ht)) L K")
    case None
    then have "map_of es K = None" by (simp add: L(2) map_of_entries)
    moreover from this have "AList.delete K es = es" 
      by (simp add: map_of_eq_None_iff)
    moreover have "zend_hash_del_key_or_index ht key n h0 flag = Some (FAILURE, ht)"
      using f None by (simp add: zend_hash_del_key_or_index_def h_def [symmetric])
    ultimately show ?thesis using rep by simp
  next
    case (Some a)
    then have a: "a \<in> set L" "key_at (pay (cells ht)) a = K" using addr_of_SomeD by metis+
    obtain b where b: "cells ht a = Some b" using ht_ok_cell [OF L(1) a(1)] .
    have p: "pay (cells ht) a = Some (payload b)" using b by (simp add: pay_def)
    obtain ys zs where yz: "L = ys @ a # zs" using split_at [OF a(1)] by blast
    note ok = L(1) [unfolded yz]
    note n = ht_ok_neighbours [OF ok b] and fl = del_cells_fields [OF ok b]
    have bh: "b_h b = h"
      using phash_key [OF ht_okD(9) [OF L(1) p]] a(2) p hK by (simp add: payload_def)
    have "(Some a = first) = (pLast b = None)"
    proof -
      have "a \<in> set (ys @ a # zs)" by simp
      from chains_first_iff [OF ht_okD(8) [OF ok] this] n(7,8) f(2) bh show ?thesis
        using b by (auto simp: cpv_def)
    qed
    then have eq: "(if Some a = first then put_slot (nIndex ht h) (pNext b) ht
        else poke (pNext_update (\<lambda>_. pNext b)) (pLast b) ht) =
      (if pLast b \<noteq> None then poke (pNext_update (\<lambda>_. pNext b)) (pLast b) ht
        else put_slot (nIndex ht (b_h b)) (pNext b) ht)" using bh by simp
    obtain h1 h2 where u: "(if pLast b \<noteq> None then poke (pNext_update (\<lambda>_. pNext b)) (pLast b) ht
        else put_slot (nIndex ht (b_h b)) (pNext b) ht) = Some h1"
      "poke_if (pLast_update (\<lambda>_. pLast b)) (pNext b) h1 = Some h2" "unlink_global a h2 = Some (unlinked a b ht)"
      using unlink_run [OF ok b] by (auto split: bind_splits)
    have "cells (unlinked a b ht) a = Some b" using fl(7) by (simp add: unlinked_def)
    then have run: "zend_hash_del_key_or_index ht key n h0 flag = Some (SUCCESS, removed a b ht)"
      using f Some b eq u
      by (simp add: zend_hash_del_key_or_index_def h_def [symmetric] efree_def call_destructor_def)
         (simp add: removed_def unlinked_def)
    note rm = ht_ok_removed [OF ok b]
    have "ht_rep (removed a b ht) (AList.delete K es)"
      using rm entries_removed [OF ok HOL.refl] a(2) L(2) yz by (auto simp: ht_rep_def)
    moreover have "map_of es K = Some (pData b)" using Some p by (simp add: L(2) map_of_entries payload_def)
    moreover have "same_meta ht (removed a b ht)" "nNextFreeElement (removed a b ht) = nNextFreeElement ht"
      "ht_destroyed (removed a b ht) = ht_destroyed ht @ (if pDestructor ht then [pData b] else [])"
      by (simp_all add: removed_def unlinked_def same_meta_def Let_def)
    ultimately show ?thesis using run by simp
  qed
qed

end
