(* ===== verification/Zend_Hash_Destroy.thy ===== *)
theory Zend_Hash_Destroy
  imports Zend_Hash_Delete
begin

text \<open>
  The end of a table: \<open>zend_hash_destroy\<close>, \<open>zend_hash_clean\<close> and the two graceful variants
  call the destructor once on every datum, in the order of the list or in reverse, and leave no
  bucket allocated.
\<close>

definition data_of :: "(hkey \<times> 'd) list \<Rightarrow> 'd list" where
  "data_of es = map snd es"

lemma data_of_entries: "data_of (entries P L) = map (\<lambda>a. pdata (the (P a))) L"
  by (simp add: data_of_def entries_def comp_def)

lemma free_loop_run:
  assumes "distinct vs" and "dseg (gnx (cells ht)) (gpv (cells ht)) q vs None" and "dom (cells ht) = set vs"
  shows "free_loop (fst_or vs None) ht = Some (ht\<lparr>cells := Map.empty,
    ht_destroyed := ht_destroyed ht @ (if pDestructor ht then data_of (entries (pay (cells ht)) vs) else [])\<rparr>)"
  using assms
proof (induction vs arbitrary: ht q)
  case Nil
  then show ?case by (simp add: free_loop.simps [of None] data_of_def)
next
  case (Cons a vs)
  obtain b where b: "cells ht a = Some b" using Cons.prems(3) by (metis domD list.set_intros(1))
  have nx: "pListNext b = fst_or vs None" using Cons.prems(2) b by (simp add: gnx_def)
  define h1 where "h1 = ht\<lparr>ht_destroyed := ht_destroyed ht @ (if pDestructor ht then [pData b] else []),
    cells := (cells ht)(a := None)\<rparr>"
  have step: "free_loop (Some a) ht = free_loop (fst_or vs None) h1"
    using b nx by (simp add: free_loop.simps [of "Some a"] call_destructor_def efree_def h1_def)
  have a: "a \<notin> set vs" using Cons.prems(1) by simp
  have "dseg (gnx (cells h1)) (gpv (cells h1)) (Some a) vs None"
    using Cons.prems(2) a by (simp add: h1_def field_free)
  moreover have "dom (cells h1) = set vs" using Cons.prems(3) a by (auto simp: h1_def)
  ultimately have "free_loop (fst_or vs None) h1 = Some (h1\<lparr>cells := Map.empty,
    ht_destroyed := ht_destroyed h1 @ (if pDestructor h1 then data_of (entries (pay (cells h1)) vs) else [])\<rparr>)"
    using Cons.IH [of h1 "Some a"] Cons.prems(1) by simp
  moreover have "entries (pay (cells h1)) vs = entries (pay (cells ht)) vs"
    using a by (intro entries_cong) (simp add: h1_def field_free)
  moreover have "pdata (the (pay (cells ht) a)) = pData b" using b by (simp add: pay_def payload_def)
  ultimately show ?case using step by (simp add: h1_def data_of_def)
qed

lemma destroy_run:
  assumes "ht_rep ht es"
  shows "\<exists>ht'. zend_hash_destroy ht = Some ht' \<and> cells ht' = Map.empty \<and> same_meta ht ht' \<and>
    ht_destroyed ht' = ht_destroyed ht @ (if pDestructor ht then data_of es else [])"
proof -
  obtain L where L: "ht_ok ht L" "es = entries (pay (cells ht)) L" using assms by (auto simp: ht_rep_def)
  note o = ht_okD [OF L(1)]
  have "dseg (gnx (cells ht)) (gpv (cells ht)) None L None" using o(2) by (simp add: dll_def)
  from free_loop_run [OF o(13) this o(3)] show ?thesis
    using o(14) L(2) by (simp add: zend_hash_destroy_def free_buckets_def same_meta_def)
qed

lemma clean_run:
  assumes "ht_rep ht es"
  shows "\<exists>ht'. zend_hash_clean ht = Some ht' \<and> ht_rep ht' [] \<and> same_meta ht ht' \<and> nNextFreeElement ht' = 0 \<and>
    ht_destroyed ht' = ht_destroyed ht @ (if pDestructor ht then data_of es else [])"
proof -
  obtain L where L: "ht_ok ht L" "es = entries (pay (cells ht)) L" using assms by (auto simp: ht_rep_def)
  note o = ht_okD [OF L(1)]
  obtain k where k: "3 \<le> k" "k \<le> 31" "nTableSize ht = 2 ^ k"
    "if nTableMask ht = 0 then arBuckets ht = [None] else nTableMask ht = 2 ^ k - 1 \<and> length (arBuckets ht) = 2 ^ k"
    using o(6) by (auto simp: table_ok_def)
  define bs where "bs = (if nTableMask ht \<noteq> 0 then replicate (unat (nTableSize ht)) None else arBuckets ht)"
  have bs: "bs ! i = None" if "i < length bs" for i
    using that k(4) by (auto simp: bs_def split: if_splits)
  define h1 where "h1 = ht\<lparr>arBuckets := bs, pListHead := None, pListTail := None, nNumOfElements := 0,
    nNextFreeElement := 0, pInternalPointer := None\<rparr>"
  have "dseg (gnx (cells h1)) (gpv (cells h1)) None L None" using o(2) by (simp add: dll_def h1_def)
  moreover have "dom (cells h1) = set L" using o(3) by (simp add: h1_def)
  ultimately have run: "free_loop (fst_or L None) h1 = Some (h1\<lparr>cells := Map.empty,
      ht_destroyed := ht_destroyed h1 @ (if pDestructor h1 then data_of (entries (pay (cells h1)) L) else [])\<rparr>)"
    using free_loop_run [OF o(13)] by blast
  define ht' where "ht' = h1\<lparr>cells := Map.empty,
      ht_destroyed := ht_destroyed h1 @ (if pDestructor h1 then data_of (entries (pay (cells h1)) L) else [])\<rparr>"
  have "(if nTableMask ht \<noteq> 0 then ht\<lparr>arBuckets := replicate (unat (nTableSize ht)) None\<rparr> else ht)
      \<lparr>pListHead := None, pListTail := None, nNumOfElements := 0, nNextFreeElement := 0, pInternalPointer := None\<rparr> = h1"
    by (simp add: h1_def bs_def)
  then have "zend_hash_clean ht = free_loop (pListHead ht) h1" by (simp only: zend_hash_clean_def Let_def)
  then have "zend_hash_clean ht = Some ht'" using run o(14) by (simp only: ht'_def)
  moreover have "ht_ok ht' []"
  proof -
    have u: "unat (2 ^ k :: uint) = 2 ^ k" using k(2) by (intro unat_pow2) simp
    have t: "table_ok ht'"
      unfolding table_ok_def
      by (rule exI [of _ k]) (use k u in \<open>auto simp: ht'_def h1_def bs_def split: if_splits\<close>)
    have c: "chains_ok nx pv sl bs {}" for nx pv sl by (rule chains_empty) (rule bs)
    have "next_ok 0 (pay Map.empty)" by (simp add: next_ok_def pay_def)
    then show ?thesis unfolding ht_ok_def using t c
      by (simp add: ht'_def h1_def arena_ok_def) (simp add: pay_def)
  qed
  then have "ht_rep ht' []" by (auto simp: ht_rep_def)
  moreover have "same_meta ht ht'" "nNextFreeElement ht' = 0"
    "ht_destroyed ht' = ht_destroyed ht @ (if pDestructor ht then data_of es else [])"
    using L(2) by (simp_all add: ht'_def h1_def same_meta_def)
  ultimately show ?thesis by blast
qed

lemma removed_frame:
  "same_meta ht (removed a b ht)" "nNextFreeElement (removed a b ht) = nNextFreeElement ht"
  "ht_destroyed (removed a b ht) = ht_destroyed ht @ (if pDestructor ht then [pData b] else [])"
  "nTableMask (removed a b ht) = nTableMask ht"
  by (simp_all add: removed_def unlinked_def same_meta_def Let_def)

lemma graceful_loop_run:
  assumes "ht_ok ht L"
  shows "\<exists>ht'. graceful_loop (fst_or L None) ht = Some ht' \<and> ht_ok ht' [] \<and> same_meta ht ht' \<and>
    ht_destroyed ht' = ht_destroyed ht @ (if pDestructor ht then data_of (entries (pay (cells ht)) L) else [])"
  using assms
proof (induction L arbitrary: ht)
  case Nil
  then show ?case by (simp add: graceful_loop.simps [of None] data_of_def)
next
  case (Cons a L)
  obtain b where b: "cells ht a = Some b" using ht_ok_cell [OF Cons.prems, of a] by auto
  have ok: "ht_ok ht ([] @ a # L)" using Cons.prems by simp
  note rm = ht_ok_removed [OF ok b] and fr = removed_frame [where a = a and b = b and ht = ht]
  have "ht_ok (removed a b ht) L" using rm(1) by simp
  from Cons.IH [OF this] obtain ht' where r: "graceful_loop (fst_or L None) (removed a b ht) = Some ht'" "ht_ok ht' []"
    "same_meta (removed a b ht) ht'" "ht_destroyed ht' = ht_destroyed (removed a b ht) @
      (if pDestructor (removed a b ht) then data_of (entries (pay (cells (removed a b ht))) L) else [])" by blast
  have "entries (pay (cells (removed a b ht))) L = entries (pay (cells ht)) L"
    using ht_okD(13) [OF Cons.prems] by (intro entries_cong) (auto simp: rm(2))
  moreover have "pdata (the (pay (cells ht) a)) = pData b" using b by (simp add: pay_def payload_def)
  moreover have "pDestructor (removed a b ht) = pDestructor ht" using fr(1) by (simp add: same_meta_def)
  moreover have "graceful_loop (Some a) ht = Some ht'"
    using apply_deleter_run [OF ok b] r(1) by (simp add: graceful_loop.simps [of "Some a"])
  ultimately show ?case
    using r(2-4) fr same_meta_trans [OF fr(1) r(3)] by (simp add: data_of_def)
qed

lemma graceful_destroy_run:
  assumes "ht_rep ht es"
  shows "\<exists>ht'. zend_hash_graceful_destroy ht = Some ht' \<and> cells ht' = Map.empty \<and> same_meta ht ht' \<and>
    ht_destroyed ht' = ht_destroyed ht @ (if pDestructor ht then data_of es else [])"
proof -
  obtain L where L: "ht_ok ht L" "es = entries (pay (cells ht)) L" using assms by (auto simp: ht_rep_def)
  from graceful_loop_run [OF L(1)] obtain ht' where r: "graceful_loop (fst_or L None) ht = Some ht'" "ht_ok ht' []"
    "same_meta ht ht'" "ht_destroyed ht' = ht_destroyed ht @ (if pDestructor ht then data_of es else [])"
    using L(2) by blast
  have "cells ht' = Map.empty" using ht_okD(3) [OF r(2)] by simp
  then show ?thesis
    using r ht_okD(14) [OF L(1)] by (simp add: zend_hash_graceful_destroy_def free_buckets_def same_meta_def)
qed

lemma reverse_destroy_loop_run:
  assumes "ht_ok ht L"
  shows "\<exists>ht'. reverse_destroy_loop ht = Some ht' \<and> ht_ok ht' [] \<and> same_meta ht ht' \<and>
    ht_destroyed ht' = ht_destroyed ht @ (if pDestructor ht then rev (data_of (entries (pay (cells ht)) L)) else [])"
  using assms
proof (induction L arbitrary: ht rule: rev_induct)
  case Nil
  then have "pListTail ht = None" using ht_okD(15) by force
  then show ?case using Nil by (simp add: reverse_destroy_loop.simps [of ht] data_of_def)
next
  case (snoc a L)
  obtain b where b: "cells ht a = Some b" using ht_ok_cell [OF snoc.prems, of a] by auto
  note rm = ht_ok_removed [OF snoc.prems b] and fr = removed_frame [where a = a and b = b and ht = ht]
  have "ht_ok (removed a b ht) L" using rm(1) by simp
  from snoc.IH [OF this] obtain ht' where r: "reverse_destroy_loop (removed a b ht) = Some ht'" "ht_ok ht' []"
    "same_meta (removed a b ht) ht'" "ht_destroyed ht' = ht_destroyed (removed a b ht) @
      (if pDestructor (removed a b ht) then rev (data_of (entries (pay (cells (removed a b ht))) L)) else [])" by blast
  have "entries (pay (cells (removed a b ht))) L = entries (pay (cells ht)) L"
    using ht_okD(13) [OF snoc.prems] by (intro entries_cong) (auto simp: rm(2))
  moreover have "pdata (the (pay (cells ht) a)) = pData b" using b by (simp add: pay_def payload_def)
  moreover have "pDestructor (removed a b ht) = pDestructor ht" using fr(1) by (simp add: same_meta_def)
  moreover have "reverse_destroy_loop ht = Some ht'"
    using apply_deleter_run [OF snoc.prems b] r(1) ht_okD(15) [OF snoc.prems]
    by (simp add: reverse_destroy_loop.simps [of ht])
  ultimately show ?case
    using r(2-4) fr same_meta_trans [OF fr(1) r(3)] by (simp add: data_of_def)
qed

lemma graceful_reverse_destroy_run:
  assumes "ht_rep ht es"
  shows "\<exists>ht'. zend_hash_graceful_reverse_destroy ht = Some ht' \<and> cells ht' = Map.empty \<and> same_meta ht ht' \<and>
    ht_destroyed ht' = ht_destroyed ht @ (if pDestructor ht then rev (data_of es) else [])"
proof -
  obtain L where L: "ht_ok ht L" "es = entries (pay (cells ht)) L" using assms by (auto simp: ht_rep_def)
  from reverse_destroy_loop_run [OF L(1)] obtain ht' where r: "reverse_destroy_loop ht = Some ht'" "ht_ok ht' []"
    "same_meta ht ht'" "ht_destroyed ht' = ht_destroyed ht @ (if pDestructor ht then rev (data_of es) else [])"
    using L(2) by blast
  have "cells ht' = Map.empty" using ht_okD(3) [OF r(2)] by simp
  then show ?thesis
    using r by (simp add: zend_hash_graceful_reverse_destroy_def free_buckets_def same_meta_def)
qed

end
