(* ===== verification/Keyed_Store.thy ===== *)
theory Keyed_Store
  imports Zend_Prelude "HOL-Library.AList"
begin

text \<open>
  The interface of a store of data under keys that remembers the order of insertion, as the engine
  uses its hash tables: storing, deleting and looking up by an argument \<open>'a\<close> that stands for a
  key (a string pointer, a number, a string that may be a number). \<open>rep s es\<close> says that the store
  holds the entries \<open>es\<close> in this order; \<open>room n\<close> that a store of \<open>n\<close> entries takes one more.
\<close>

datatype ('a, 'd) store_op = Put 'a 'd | Del 'a

fun run_store :: "('a \<Rightarrow> 'd \<Rightarrow> 's \<Rightarrow> 's option) \<Rightarrow> ('a \<Rightarrow> 's \<Rightarrow> 's option) \<Rightarrow> ('a, 'd) store_op list \<Rightarrow> 's \<Rightarrow> 's option" where
  "run_store put del [] s = Some s"
| "run_store put del (Put a d # ops) s = do { s \<leftarrow> put a d s; run_store put del ops s }"
| "run_store put del (Del a # ops) s = do { s \<leftarrow> del a s; run_store put del ops s }"

text \<open>The same operations on a map from keys to data.\<close>

fun spec_store :: "('a \<Rightarrow> 'k) \<Rightarrow> ('a, 'd) store_op list \<Rightarrow> ('k \<rightharpoonup> 'd) \<Rightarrow> ('k \<rightharpoonup> 'd)" where
  "spec_store key [] m = m"
| "spec_store key (Put a d # ops) m = spec_store key ops (m(key a \<mapsto> d))"
| "spec_store key (Del a # ops) m = spec_store key ops (m(key a := None))"

fun op_arg :: "('a, 'd) store_op \<Rightarrow> 'a" where
  "op_arg (Put a d) = a"
| "op_arg (Del a) = a"

lemma length_update_le: "length (AList.update k d es) \<le> length es + 1"
  by (induction es) auto

locale keyed_store =
  fixes rep :: "'s \<Rightarrow> ('k \<times> 'd) list \<Rightarrow> bool"
    and put :: "'a \<Rightarrow> 'd \<Rightarrow> 's \<Rightarrow> 's option"
    and del :: "'a \<Rightarrow> 's \<Rightarrow> 's option"
    and look :: "'s \<Rightarrow> 'a \<Rightarrow> 'd option option"
    and key :: "'a \<Rightarrow> 'k"
    and arg :: "'a \<Rightarrow> bool"
    and room :: "nat \<Rightarrow> bool"
  assumes rep_put: "rep s es \<Longrightarrow> arg a \<Longrightarrow> room (length es) \<Longrightarrow>
      \<exists>s'. put a d s = Some s' \<and> rep s' (AList.update (key a) d es)"
    and rep_del: "rep s es \<Longrightarrow> arg a \<Longrightarrow> \<exists>s'. del a s = Some s' \<and> rep s' (AList.delete (key a) es)"
    and rep_look: "rep s es \<Longrightarrow> arg a \<Longrightarrow> look s a = Some (map_of es (key a))"
begin

lemma run_store_simulates:
  assumes "rep s es" and "\<forall>x \<in> set ops. arg (op_arg x)" and "\<forall>n < length es + length ops. room n"
  shows "\<exists>s' es'. run_store put del ops s = Some s' \<and> rep s' es' \<and>
    map_of es' = spec_store key ops (map_of es)"
  using assms
proof (induction ops arbitrary: s es)
  case Nil
  then show ?case by auto
next
  case (Cons x ops)
  show ?case
  proof (cases x)
    case (Put a d)
    obtain k where k: "put a d s = Some k" "rep k (AList.update (key a) d es)"
      using rep_put [OF Cons.prems(1), of a d] Cons.prems(2,3) Put by auto
    have "\<forall>n < length (AList.update (key a) d es) + length ops. room n"
      using Cons.prems(3) length_update_le [of "key a" d es] by auto
    from Cons.IH [OF k(2) _ this] show ?thesis using Cons.prems(2) Put k(1)
      by (simp add: update_conv' del: fun_upd_apply)
  next
    case (Del a)
    obtain k where k: "del a s = Some k" "rep k (AList.delete (key a) es)"
      using rep_del [OF Cons.prems(1), of a] Cons.prems(2) Del by auto
    have "\<forall>n < length (AList.delete (key a) es) + length ops. room n"
      using Cons.prems(3) length_delete_le [of "key a" es] by auto
    from Cons.IH [OF k(2) _ this] show ?thesis using Cons.prems(2) Del k(1)
      by (simp add: delete_conv' del: fun_upd_apply)
  qed
qed

lemma look_after_run:
  assumes "rep s es" and "\<forall>x \<in> set ops. arg (op_arg x)" and "\<forall>n < length es + length ops. room n" and "arg a"
  shows "\<exists>s'. run_store put del ops s = Some s' \<and> look s' a = Some (spec_store key ops (map_of es) (key a))"
  using run_store_simulates [OF assms(1-3)] rep_look [OF _ assms(4)] by fastforce

lemma look_after_put:
  assumes "rep s es" and "arg a" and "arg b" and "room (length es)"
  shows "\<exists>s'. put a d s = Some s' \<and> look s' b = (if key b = key a then Some (Some d) else look s b)"
  using rep_put [OF assms(1,2,4), of d] rep_look [OF _ assms(3)] assms(1) by (fastforce simp: update_conv')

lemma look_after_del:
  assumes "rep s es" and "arg a" and "arg b"
  shows "\<exists>s'. del a s = Some s' \<and> look s' b = (if key b = key a then Some None else look s b)"
  using rep_del [OF assms(1,2)] rep_look [OF _ assms(3)] assms(1) by (fastforce simp: delete_conv')

end

end
