(* ===== verification/Zend_Hash_Iter.thy ===== *)
theory Zend_Hash_Iter
  imports Zend_Hash
begin

text \<open>
  The rest of \<open>Zend/zend_hash.c\<close>: the apply functions with their recursion guard, copying and
  merging, the internal pointer, changing the current key, sorting, comparing, the minimum; and the
  symbol-table wrappers of \<open>zend_hash.h\<close>. Callbacks are functions that may change the datum they
  are given and their own state \<open>'s\<close>, but not the table. Source and target of a copy or merge are
  two tables.
\<close>

subsection \<open>The guard against recursion\<close>

text \<open>\<open>zend_error(E_ERROR, ...)\<close> does not return: it is the \<open>Inl\<close> outcome.\<close>

datatype zend_error = Nesting_level_too_deep

definition HASH_PROTECT_RECURSION :: "'d hashtable \<Rightarrow> zend_error + 'd hashtable" where
  "HASH_PROTECT_RECURSION ht =
     (if bApplyProtection ht then
        (if nApplyCount ht \<ge> 3 then Inl Nesting_level_too_deep
         else Inr (ht\<lparr>nApplyCount := nApplyCount ht + 1\<rparr>))
      else Inr ht)"

definition HASH_UNPROTECT_RECURSION :: "'d hashtable \<Rightarrow> 'd hashtable" where
  "HASH_UNPROTECT_RECURSION ht =
     (if bApplyProtection ht then ht\<lparr>nApplyCount := nApplyCount ht - 1\<rparr> else ht)"

subsection \<open>Applying a function to the elements\<close>

definition ZEND_HASH_APPLY_KEEP :: int where "ZEND_HASH_APPLY_KEEP = 0"
definition ZEND_HASH_APPLY_REMOVE :: int where "ZEND_HASH_APPLY_REMOVE = 1"
definition ZEND_HASH_APPLY_STOP :: int where "ZEND_HASH_APPLY_STOP = 2"

record zend_hash_key =
  hk_arKey :: "key_ptr option"
  hk_nKeyLength :: uint
  hk_h :: ulong

definition hash_key_of :: "'d bucket \<Rightarrow> zend_hash_key" where
  "hash_key_of p = \<lparr>hk_arKey = arKey p, hk_nKeyLength = nKeyLength p, hk_h = b_h p\<rparr>"

partial_function (option) hash_apply_loop ::
  "(zend_hash_key \<Rightarrow> 'd \<Rightarrow> 's \<Rightarrow> int \<times> 'd \<times> 's) \<Rightarrow> ptr \<Rightarrow> 'd hashtable \<Rightarrow> 's \<Rightarrow> ('d hashtable \<times> 's) option" where
  "hash_apply_loop apply_func p ht st =
     (case p of None \<Rightarrow> Some (ht, st)
      | Some a \<Rightarrow> do {
          b \<leftarrow> deref ht p;
          let (result, d, st) = apply_func (hash_key_of b) (pData b) st;
          ht \<leftarrow> poke (pData_update (\<lambda>_. d)) p ht;
          (p, ht) \<leftarrow> (if result AND ZEND_HASH_APPLY_REMOVE \<noteq> 0 then zend_hash_apply_deleter ht a
                     else do { b \<leftarrow> deref ht p; Some (pListNext b, ht) });
          if result AND ZEND_HASH_APPLY_STOP \<noteq> 0 then Some (ht, st)
          else hash_apply_loop apply_func p ht st
        })"

definition hash_apply_with ::
  "(zend_hash_key \<Rightarrow> 'd \<Rightarrow> 's \<Rightarrow> int \<times> 'd \<times> 's) \<Rightarrow> 'd hashtable \<Rightarrow> 's \<Rightarrow> (zend_error + 'd hashtable \<times> 's) option" where
  "hash_apply_with apply_func ht st =
     (case HASH_PROTECT_RECURSION ht of Inl e \<Rightarrow> Some (Inl e)
      | Inr ht \<Rightarrow> do {
          (ht, st) \<leftarrow> hash_apply_loop apply_func (pListHead ht) ht st;
          Some (Inr (HASH_UNPROTECT_RECURSION ht, st))
        })"

definition zend_hash_apply ::
  "'d hashtable \<Rightarrow> ('d \<Rightarrow> 's \<Rightarrow> int \<times> 'd \<times> 's) \<Rightarrow> 's \<Rightarrow> (zend_error + 'd hashtable \<times> 's) option" where
  "zend_hash_apply ht apply_func st = hash_apply_with (\<lambda>_. apply_func) ht st"

definition zend_hash_apply_with_argument ::
  "'d hashtable \<Rightarrow> ('d \<Rightarrow> 'a \<Rightarrow> 's \<Rightarrow> int \<times> 'd \<times> 's) \<Rightarrow> 'a \<Rightarrow> 's \<Rightarrow> (zend_error + 'd hashtable \<times> 's) option" where
  "zend_hash_apply_with_argument ht apply_func argument st = hash_apply_with (\<lambda>_ d. apply_func d argument) ht st"

definition zend_hash_apply_with_arguments ::
  "'d hashtable \<Rightarrow> ('d \<Rightarrow> nat \<Rightarrow> 'a list \<Rightarrow> zend_hash_key \<Rightarrow> 's \<Rightarrow> int \<times> 'd \<times> 's) \<Rightarrow> 'a list \<Rightarrow> 's \<Rightarrow>
    (zend_error + 'd hashtable \<times> 's) option" where
  "zend_hash_apply_with_arguments ht apply_func args st =
     hash_apply_with (\<lambda>hash_key d. apply_func d (length args) args hash_key) ht st"

partial_function (option) reverse_apply_loop ::
  "('d \<Rightarrow> 's \<Rightarrow> int \<times> 'd \<times> 's) \<Rightarrow> ptr \<Rightarrow> 'd hashtable \<Rightarrow> 's \<Rightarrow> ('d hashtable \<times> 's) option" where
  "reverse_apply_loop apply_func p ht st =
     (case p of None \<Rightarrow> Some (ht, st)
      | Some q \<Rightarrow> do {
          b \<leftarrow> deref ht p;
          let (result, d, st) = apply_func (pData b) st;
          ht \<leftarrow> poke (pData_update (\<lambda>_. d)) p ht;
          b \<leftarrow> deref ht p;
          ht \<leftarrow> (if result AND ZEND_HASH_APPLY_REMOVE \<noteq> 0 then map_option snd (zend_hash_apply_deleter ht q)
                else Some ht);
          if result AND ZEND_HASH_APPLY_STOP \<noteq> 0 then Some (ht, st)
          else reverse_apply_loop apply_func (pListLast b) ht st
        })"

definition zend_hash_reverse_apply ::
  "'d hashtable \<Rightarrow> ('d \<Rightarrow> 's \<Rightarrow> int \<times> 'd \<times> 's) \<Rightarrow> 's \<Rightarrow> (zend_error + 'd hashtable \<times> 's) option" where
  "zend_hash_reverse_apply ht apply_func st =
     (case HASH_PROTECT_RECURSION ht of Inl e \<Rightarrow> Some (Inl e)
      | Inr ht \<Rightarrow> do {
          (ht, st) \<leftarrow> reverse_apply_loop apply_func (pListTail ht) ht st;
          Some (Inr (HASH_UNPROTECT_RECURSION ht, st))
        })"

subsection \<open>Copying and merging\<close>

text \<open>
  A key of the source table, seen from the target: an interned string keeps its address, any other
  lies outside of the target's buckets. \<open>pCopyConstructor\<close> (\<open>None\<close> for \<open>NULL\<close>) changes the
  copied datum in place.
\<close>

fun outside :: "key_ptr \<Rightarrow> key_ptr" where
  "outside (Interned s) = Interned s"
| "outside k = Outside (kbytes k)"

definition call_ctor :: "('d \<Rightarrow> 'd) option \<Rightarrow> ptr \<Rightarrow> 'd hashtable \<Rightarrow> 'd hashtable option" where
  "call_ctor ctor p ht = (case ctor of None \<Rightarrow> Some ht | Some f \<Rightarrow> poke (pData_update f) p ht)"

partial_function (option) hash_copy_loop ::
  "('d \<Rightarrow> 'd) option \<Rightarrow> bool \<Rightarrow> 'd hashtable \<Rightarrow> ptr \<Rightarrow> 'd hashtable \<Rightarrow> 'd hashtable option" where
  "hash_copy_loop pCopyConstructor setTargetPointer source p target =
     (if p = None then Some target
      else do {
        b \<leftarrow> deref source p;
        let target = (if setTargetPointer \<and> pInternalPointer source = p then target\<lparr>pInternalPointer := None\<rparr> else target);
        (_, new_entry, target) \<leftarrow>
          (if nKeyLength b \<noteq> 0 then do {
             k \<leftarrow> arKey b;
             zend_hash_quick_add_or_update target (outside k) (nKeyLength b) (b_h b) (pData b) HASH_UPDATE
           }
           else zend_hash_index_update_or_next_insert target (b_h b) (pData b) HASH_UPDATE);
        target \<leftarrow> call_ctor pCopyConstructor new_entry target;
        hash_copy_loop pCopyConstructor setTargetPointer source (pListNext b) target
      })"

definition zend_hash_copy :: "'d hashtable \<Rightarrow> 'd hashtable \<Rightarrow> ('d \<Rightarrow> 'd) option \<Rightarrow> 'd hashtable option" where
  "zend_hash_copy target source pCopyConstructor = do {
     let setTargetPointer = (pInternalPointer target = None);
     target \<leftarrow> hash_copy_loop pCopyConstructor setTargetPointer source (pListHead source) target;
     Some (if pInternalPointer target = None then target\<lparr>pInternalPointer := pListHead target\<rparr> else target)
   }"

partial_function (option) hash_merge_loop ::
  "('d \<Rightarrow> 'd) option \<Rightarrow> uint \<Rightarrow> 'd hashtable \<Rightarrow> ptr \<Rightarrow> 'd hashtable \<Rightarrow> 'd hashtable option" where
  "hash_merge_loop pCopyConstructor mode source p target =
     (if p = None then Some target
      else do {
        b \<leftarrow> deref source p;
        target \<leftarrow>
          (if nKeyLength b > 0 then do {
             k \<leftarrow> arKey b;
             (r, t, target) \<leftarrow> zend_hash_quick_add_or_update target (outside k) (nKeyLength b) (b_h b) (pData b) mode;
             if r = SUCCESS then call_ctor pCopyConstructor t target else Some target
           }
           else do {
             present \<leftarrow> zend_hash_index_exists target (b_h b);
             if mode = HASH_UPDATE \<or> \<not> present then do {
               (r, t, target) \<leftarrow> zend_hash_index_update_or_next_insert target (b_h b) (pData b) HASH_UPDATE;
               if r = SUCCESS then call_ctor pCopyConstructor t target else Some target
             } else Some target
           });
        hash_merge_loop pCopyConstructor mode source (pListNext b) target
      })"

definition zend_hash_merge ::
  "'d hashtable \<Rightarrow> 'd hashtable \<Rightarrow> ('d \<Rightarrow> 'd) option \<Rightarrow> bool \<Rightarrow> 'd hashtable option" where
  "zend_hash_merge target source pCopyConstructor overwrite = do {
     let mode = (if overwrite then HASH_UPDATE else HASH_ADD);
     target \<leftarrow> hash_merge_loop pCopyConstructor mode source (pListHead source) target;
     Some (target\<lparr>pInternalPointer := pListHead target\<rparr>)
   }"

text \<open>\<open>merge_checker_func\<close> looks at the target, the source datum and its key.\<close>

definition zend_hash_replace_checker_wrapper ::
  "'d hashtable \<Rightarrow> 'd \<Rightarrow> 'd bucket \<Rightarrow> 'p \<Rightarrow> ('d hashtable \<Rightarrow> 'd \<Rightarrow> zend_hash_key \<Rightarrow> 'p \<Rightarrow> bool) \<Rightarrow> bool" where
  "zend_hash_replace_checker_wrapper target source_data p pParam merge_checker_func =
     merge_checker_func target source_data (hash_key_of p) pParam"

text \<open>A \<open>NULL\<close> key comes with length 0, and is not read.\<close>

definition key_arg :: "key_ptr option \<Rightarrow> key_ptr" where
  "key_arg k = (case k of None \<Rightarrow> Outside [] | Some k \<Rightarrow> outside k)"

partial_function (option) hash_merge_ex_loop ::
  "('d \<Rightarrow> 'd) option \<Rightarrow> ('d hashtable \<Rightarrow> 'd \<Rightarrow> zend_hash_key \<Rightarrow> 'p \<Rightarrow> bool) \<Rightarrow> 'p \<Rightarrow> 'd hashtable \<Rightarrow> ptr \<Rightarrow>
    'd hashtable \<Rightarrow> 'd hashtable option" where
  "hash_merge_ex_loop pCopyConstructor pMergeSource pParam source p target =
     (if p = None then Some target
      else do {
        b \<leftarrow> deref source p;
        target \<leftarrow>
          (if zend_hash_replace_checker_wrapper target (pData b) b pParam pMergeSource then do {
             (r, t, target) \<leftarrow>
               zend_hash_quick_add_or_update target (key_arg (arKey b)) (nKeyLength b) (b_h b) (pData b) HASH_UPDATE;
             if r = SUCCESS then call_ctor pCopyConstructor t target else Some target
           } else Some target);
        hash_merge_ex_loop pCopyConstructor pMergeSource pParam source (pListNext b) target
      })"

definition zend_hash_merge_ex ::
  "'d hashtable \<Rightarrow> 'd hashtable \<Rightarrow> ('d \<Rightarrow> 'd) option \<Rightarrow> ('d hashtable \<Rightarrow> 'd \<Rightarrow> zend_hash_key \<Rightarrow> 'p \<Rightarrow> bool) \<Rightarrow> 'p \<Rightarrow>
    'd hashtable option" where
  "zend_hash_merge_ex target source pCopyConstructor pMergeSource pParam = do {
     target \<leftarrow> hash_merge_ex_loop pCopyConstructor pMergeSource pParam source (pListHead source) target;
     Some (target\<lparr>pInternalPointer := pListHead target\<rparr>)
   }"

subsection \<open>The internal pointer\<close>

record HashPointer =
  hp_pos :: ptr
  hp_h :: ulong

definition zend_hash_get_pointer :: "'d hashtable \<Rightarrow> (int \<times> HashPointer) option" where
  "zend_hash_get_pointer ht =
     (if pInternalPointer ht \<noteq> None then do {
        b \<leftarrow> deref ht (pInternalPointer ht);
        Some (1, \<lparr>hp_pos = pInternalPointer ht, hp_h = b_h b\<rparr>)
      }
      else Some (0, \<lparr>hp_pos = None, hp_h = 0\<rparr>))"

text \<open>The loop \<open>while (p != NULL) { if (p == ptr->pos) ...; p = p->pNext; }\<close>.\<close>

partial_function (option) chain_has :: "ptr \<Rightarrow> ptr \<Rightarrow> 'd hashtable \<Rightarrow> bool option" where
  "chain_has pos p ht =
     (if p = None then Some False
      else if p = pos then Some True
      else do { b \<leftarrow> deref ht p; chain_has pos (pNext b) ht })"

definition zend_hash_set_pointer :: "'d hashtable \<Rightarrow> HashPointer \<Rightarrow> (int \<times> 'd hashtable) option" where
  "zend_hash_set_pointer ht ptr =
     (if hp_pos ptr = None then Some (1, ht\<lparr>pInternalPointer := None\<rparr>)
      else if pInternalPointer ht \<noteq> hp_pos ptr then do {
        p \<leftarrow> get_slot ht (nIndex ht (hp_h ptr));
        found \<leftarrow> chain_has (hp_pos ptr) p ht;
        Some (if found then (1, ht\<lparr>pInternalPointer := hp_pos ptr\<rparr>) else (0, ht))
      }
      else Some (1, ht))"

text \<open>\<open>pos\<close> is the caller's own position, \<open>None\<close> when the internal pointer is used.\<close>

definition ht_pos :: "'d hashtable \<Rightarrow> ptr option \<Rightarrow> ptr" where
  "ht_pos ht pos = (case pos of None \<Rightarrow> pInternalPointer ht | Some p \<Rightarrow> p)"

definition ht_set_pos :: "'d hashtable \<Rightarrow> ptr option \<Rightarrow> ptr \<Rightarrow> 'd hashtable \<times> ptr option" where
  "ht_set_pos ht pos p = (case pos of None \<Rightarrow> (ht\<lparr>pInternalPointer := p\<rparr>, None) | Some _ \<Rightarrow> (ht, Some p))"

definition zend_hash_internal_pointer_reset_ex :: "'d hashtable \<Rightarrow> ptr option \<Rightarrow> 'd hashtable \<times> ptr option" where
  "zend_hash_internal_pointer_reset_ex ht pos = ht_set_pos ht pos (pListHead ht)"

definition zend_hash_internal_pointer_end_ex :: "'d hashtable \<Rightarrow> ptr option \<Rightarrow> 'd hashtable \<times> ptr option" where
  "zend_hash_internal_pointer_end_ex ht pos = ht_set_pos ht pos (pListTail ht)"

definition zend_hash_move_forward_ex :: "'d hashtable \<Rightarrow> ptr option \<Rightarrow> (int \<times> 'd hashtable \<times> ptr option) option" where
  "zend_hash_move_forward_ex ht pos =
     (let current = ht_pos ht pos in
      if current \<noteq> None then do { b \<leftarrow> deref ht current; Some (SUCCESS, ht_set_pos ht pos (pListNext b)) }
      else Some (FAILURE, ht, pos))"

definition zend_hash_move_backwards_ex :: "'d hashtable \<Rightarrow> ptr option \<Rightarrow> (int \<times> 'd hashtable \<times> ptr option) option" where
  "zend_hash_move_backwards_ex ht pos =
     (let current = ht_pos ht pos in
      if current \<noteq> None then do { b \<leftarrow> deref ht current; Some (SUCCESS, ht_set_pos ht pos (pListLast b)) }
      else Some (FAILURE, ht, pos))"

text \<open>
  \<open>HASH_KEY_IS_STRING\<close> with the string and its length, \<open>HASH_KEY_IS_LONG\<close> with the number,
  \<open>HASH_KEY_NON_EXISTANT\<close>. With \<open>duplicate\<close>, \<open>estrndup\<close> copies all but the last byte of
  the key and ends the copy with NUL.
\<close>

datatype current_key = HASH_KEY_IS_STRING "byte list" uint | HASH_KEY_IS_LONG ulong | HASH_KEY_NON_EXISTANT

definition zend_hash_get_current_key_ex :: "'d hashtable \<Rightarrow> bool \<Rightarrow> ptr option \<Rightarrow> current_key option" where
  "zend_hash_get_current_key_ex ht duplicate pos =
     (let p = ht_pos ht pos in
      if p \<noteq> None then do {
        b \<leftarrow> deref ht p;
        if nKeyLength b \<noteq> 0 then do {
          k \<leftarrow> arKey b;
          let s = (if duplicate then take (unat (nKeyLength b) - 1) (kbytes k) @ [0] else kbytes k);
          Some (HASH_KEY_IS_STRING s (nKeyLength b))
        }
        else Some (HASH_KEY_IS_LONG (b_h b))
      }
      else Some HASH_KEY_NON_EXISTANT)"

definition zend_hash_get_current_key_type_ex :: "'d hashtable \<Rightarrow> ptr option \<Rightarrow> int option" where
  "zend_hash_get_current_key_type_ex ht pos =
     (let p = ht_pos ht pos in
      if p \<noteq> None then do { b \<leftarrow> deref ht p; Some (if nKeyLength b \<noteq> 0 then 1 else 2) }
      else Some 3)"

definition zend_hash_get_current_data_ex :: "'d hashtable \<Rightarrow> ptr option \<Rightarrow> 'd option option" where
  "zend_hash_get_current_data_ex ht pos = data_at ht (ht_pos ht pos)"

subsection \<open>Sorting\<close>

text \<open>
  The array of bucket pointers is sorted by \<open>sort_func\<close>, which the callers choose; \<open>compar\<close>
  compares two buckets. \<open>relink_from prev as\<close> is the loop that links \<open>arTmp\<close>. The counters are \<open>int\<close>s: the
  loop that fills \<open>arTmp\<close> overflows in a table of more than \<open>INT_MAX\<close> elements (\<open>None\<close>); \<open>j\<close> stays below \<open>i\<close>.
\<close>

partial_function (option) sort_collect :: "'d hashtable \<Rightarrow> ptr \<Rightarrow> (nat \<times> 'd bucket) list option" where
  "sort_collect ht p =
     (case p of None \<Rightarrow> Some []
      | Some a \<Rightarrow> do {
          b \<leftarrow> deref ht p;
          rest \<leftarrow> sort_collect ht (pListNext b);
          Some ((a, b) # rest)
        })"

fun relink_from :: "ptr \<Rightarrow> nat list \<Rightarrow> 'd hashtable \<Rightarrow> 'd hashtable option" where
  "relink_from prev [] ht = Some ht"
| "relink_from prev (a # as) ht = do {
     ht \<leftarrow> poke (\<lambda>b. b\<lparr>pListLast := prev, pListNext := (case as of [] \<Rightarrow> None | b # _ \<Rightarrow> Some b)\<rparr>) (Some a) ht;
     relink_from (Some a) as ht
   }"

text \<open>The renumbering changes \<open>nKeyLength\<close> and \<open>h\<close>, and leaves \<open>arKey\<close>.\<close>

partial_function (option) renumber_loop :: "int \<Rightarrow> ptr \<Rightarrow> 'd hashtable \<Rightarrow> (int \<times> 'd hashtable) option" where
  "renumber_loop i p ht =
     (if p = None then Some (i, ht)
      else do {
        ht \<leftarrow> poke (\<lambda>b. b\<lparr>nKeyLength := 0, b_h := word_of_int i\<rparr>) p ht;
        i \<leftarrow> c_int (i + 1);
        b \<leftarrow> deref ht p;
        renumber_loop i (pListNext b) ht
      })"

definition zend_hash_sort ::
  "((nat \<times> 'd bucket \<Rightarrow> nat \<times> 'd bucket \<Rightarrow> int) \<Rightarrow> (nat \<times> 'd bucket) list \<Rightarrow> (nat \<times> 'd bucket) list option) \<Rightarrow>
    ('d bucket \<Rightarrow> 'd bucket \<Rightarrow> int) \<Rightarrow> bool \<Rightarrow> 'd hashtable \<Rightarrow> (int \<times> 'd hashtable) option" where
  "zend_hash_sort sort_func compar renumber ht =
     (if \<not> nNumOfElements ht > 1 \<and> \<not> (renumber \<and> nNumOfElements ht > 0) then Some (SUCCESS, ht)
      else do {
        arTmp \<leftarrow> sort_collect ht (pListHead ht);
        i \<leftarrow> c_int (int (length arTmp));
        arTmp \<leftarrow> sort_func (\<lambda>x y. compar (snd x) (snd y)) arTmp;
        let as = map fst arTmp;
        (case as of
           [] \<Rightarrow> None
         | a # _ \<Rightarrow> do {
             ht \<leftarrow> relink_from None as (ht\<lparr>pListHead := Some a, pListTail := None, pInternalPointer := Some a\<rparr>);
             let ht = ht\<lparr>pListTail := Some (last as)\<rparr>;
             if renumber then do {
               (i, ht) \<leftarrow> renumber_loop 0 (pListHead ht) ht;
               (_, ht) \<leftarrow> zend_hash_rehash (ht\<lparr>nNextFreeElement := word_of_int i\<rparr>);
               Some (SUCCESS, ht)
             }
             else Some (SUCCESS, ht)
           })
      })"

subsection \<open>Comparing\<close>

text \<open>
  \<open>memcmp\<close>: the difference at the first byte that differs (C fixes only its sign). The differences
  of unsigned numbers are cut down to an \<open>int\<close>.
\<close>

fun memcmp_diff :: "byte list \<Rightarrow> byte list \<Rightarrow> int" where
  "memcmp_diff (a # as) (b # bs) = (if a = b then memcmp_diff as bs else uint a - uint b)"
| "memcmp_diff _ _ = 0"

definition uint_diff :: "uint \<Rightarrow> uint \<Rightarrow> int" where
  "uint_diff a b = sint (a - b)"

definition ulong_diff :: "ulong \<Rightarrow> ulong \<Rightarrow> int" where
  "ulong_diff a b = sint (ucast (a - b) :: 32 word)"

text \<open>The comparison of two keys when \<open>ordered\<close>.\<close>

definition compare_keys :: "'d bucket \<Rightarrow> 'd bucket \<Rightarrow> int option" where
  "compare_keys p1 p2 =
     (if nKeyLength p1 = 0 \<and> nKeyLength p2 = 0 then Some (ulong_diff (b_h p1) (b_h p2))
      else if uint_diff (nKeyLength p1) (nKeyLength p2) \<noteq> 0 then Some (uint_diff (nKeyLength p1) (nKeyLength p2))
      else do {
        k1 \<leftarrow> arKey p1;
        k2 \<leftarrow> arKey p2;
        Some (memcmp_diff (take (unat (nKeyLength p1)) (kbytes k1)) (take (unat (nKeyLength p1)) (kbytes k2)))
      })"

partial_function (option) hash_compare_loop ::
  "('d \<Rightarrow> 'd \<Rightarrow> int) \<Rightarrow> bool \<Rightarrow> 'd hashtable \<Rightarrow> 'd hashtable \<Rightarrow> ptr \<Rightarrow> ptr \<Rightarrow> int option" where
  "hash_compare_loop compar ordered ht1 ht2 p1 p2 =
     (if p1 = None then Some 0
      else if ordered \<and> p2 = None then Some 1
      else do {
        b1 \<leftarrow> deref ht1 p1;
        if ordered then do {
          b2 \<leftarrow> deref ht2 p2;
          result \<leftarrow> compare_keys b1 b2;
          if result \<noteq> 0 then Some result
          else if compar (pData b1) (pData b2) \<noteq> 0 then Some (compar (pData b1) (pData b2))
          else hash_compare_loop compar ordered ht1 ht2 (pListNext b1) (pListNext b2)
        }
        else do {
          d2 \<leftarrow> (if nKeyLength b1 = 0 then zend_hash_index_find ht2 (b_h b1)
                else zend_hash_quick_find ht2 (key_arg (arKey b1)) (nKeyLength b1) (b_h b1));
          (case d2 of
             None \<Rightarrow> Some 1
           | Some d2 \<Rightarrow>
               if compar (pData b1) d2 \<noteq> 0 then Some (compar (pData b1) d2)
               else hash_compare_loop compar ordered ht1 ht2 (pListNext b1) p2)
        }
      })"

definition zend_hash_compare ::
  "'d hashtable \<Rightarrow> 'd hashtable \<Rightarrow> ('d \<Rightarrow> 'd \<Rightarrow> int) \<Rightarrow> bool \<Rightarrow> (zend_error + int \<times> 'd hashtable \<times> 'd hashtable) option" where
  "zend_hash_compare ht1 ht2 compar ordered =
     (case HASH_PROTECT_RECURSION ht1 of Inl e \<Rightarrow> Some (Inl e)
      | Inr ht1 \<Rightarrow>
     (case HASH_PROTECT_RECURSION ht2 of Inl e \<Rightarrow> Some (Inl e)
      | Inr ht2 \<Rightarrow> do {
          let result = uint_diff (nNumOfElements ht1) (nNumOfElements ht2);
          result \<leftarrow> (if result \<noteq> 0 then Some result
                    else hash_compare_loop compar ordered ht1 ht2 (pListHead ht1) (if ordered then pListHead ht2 else None));
          Some (Inr (result, HASH_UNPROTECT_RECURSION ht1, HASH_UNPROTECT_RECURSION ht2))
        }))"

subsection \<open>Minimum and maximum\<close>

partial_function (option) minmax_loop ::
  "('d bucket \<Rightarrow> 'd bucket \<Rightarrow> int) \<Rightarrow> bool \<Rightarrow> 'd hashtable \<Rightarrow> 'd bucket \<Rightarrow> ptr \<Rightarrow> 'd bucket option" where
  "minmax_loop compar flag ht res p =
     (if p = None then Some res
      else do {
        b \<leftarrow> deref ht p;
        let res = (if flag then (if compar res b < 0 then b else res) else (if compar res b > 0 then b else res));
        minmax_loop compar flag ht res (pListNext b)
      })"

definition zend_hash_minmax ::
  "'d hashtable \<Rightarrow> ('d bucket \<Rightarrow> 'd bucket \<Rightarrow> int) \<Rightarrow> bool \<Rightarrow> (int \<times> 'd option) option" where
  "zend_hash_minmax ht compar flag =
     (if nNumOfElements ht = 0 then Some (FAILURE, None)
      else do {
        b \<leftarrow> deref ht (pListHead ht);
        res \<leftarrow> minmax_loop compar flag ht b (pListNext b);
        Some (SUCCESS, Some (pData res))
      })"

subsection \<open>Symbol tables\<close>

text \<open>The \<open>zend_symtable\<close> functions take the decimal strings for numbers.\<close>

definition sym_index :: "key_ptr \<Rightarrow> uint \<Rightarrow> ulong option" where
  "sym_index key n = handle_numeric (take (unat n) (kbytes key))"

definition zend_symtable_update ::
  "'d hashtable \<Rightarrow> key_ptr \<Rightarrow> uint \<Rightarrow> 'd \<Rightarrow> (int \<times> ptr \<times> 'd hashtable) option" where
  "zend_symtable_update ht key n d =
     (case sym_index key n of
        Some idx \<Rightarrow> zend_hash_index_update_or_next_insert ht idx d HASH_UPDATE
      | None \<Rightarrow> zend_hash_add_or_update ht key n d HASH_UPDATE)"

definition zend_symtable_del :: "'d hashtable \<Rightarrow> key_ptr \<Rightarrow> uint \<Rightarrow> (int \<times> 'd hashtable) option" where
  "zend_symtable_del ht key n =
     (case sym_index key n of
        Some idx \<Rightarrow> zend_hash_del_key_or_index ht (Outside []) 0 idx HASH_DEL_INDEX
      | None \<Rightarrow> zend_hash_del_key_or_index ht key n 0 HASH_DEL_KEY)"

definition zend_symtable_find :: "'d hashtable \<Rightarrow> key_ptr \<Rightarrow> uint \<Rightarrow> 'd option option" where
  "zend_symtable_find ht key n =
     (case sym_index key n of Some idx \<Rightarrow> zend_hash_index_find ht idx | None \<Rightarrow> zend_hash_find ht key n)"

definition zend_symtable_exists :: "'d hashtable \<Rightarrow> key_ptr \<Rightarrow> uint \<Rightarrow> bool option" where
  "zend_symtable_exists ht key n =
     (case sym_index key n of Some idx \<Rightarrow> zend_hash_index_exists ht idx | None \<Rightarrow> zend_hash_exists ht key n)"

subsection \<open>Changing the current key\<close>

text \<open>
  \<open>zend_hash_update_current_key_ex\<close> gives the current element another key and leaves it in its
  place of the list. Where the bucket has to be reallocated, \<open>malloc\<close> leaves the fields of the new
  one uninitialised: \<open>garbage\<close> is what \<open>arKey\<close> holds then. \<open>str_index\<close> is \<open>None\<close> for
  \<open>NULL\<close>.
\<close>

definition KEY_TYPE_STRING :: int where "KEY_TYPE_STRING = 1"
definition KEY_TYPE_LONG :: int where "KEY_TYPE_LONG = 2"
definition HASH_UPDATE_KEY_IF_BEFORE :: int where "HASH_UPDATE_KEY_IF_BEFORE = 1"
definition HASH_UPDATE_KEY_IF_AFTER :: int where "HASH_UPDATE_KEY_IF_AFTER = 2"
definition HASH_UPDATE_KEY_ANYWAY :: int where "HASH_UPDATE_KEY_ANYWAY = 3"

definition is_interned :: "key_ptr option \<Rightarrow> bool" where
  "is_interned k = (case k of None \<Rightarrow> False | Some k \<Rightarrow> IS_INTERNED k)"

text \<open>Taking a bucket out of its table and freeing it, as the two inlined copies do.\<close>

definition delete_bucket :: "nat \<Rightarrow> 'd hashtable \<Rightarrow> 'd hashtable option" where
  "delete_bucket p ht = do {
     b \<leftarrow> deref ht (Some p);
     first \<leftarrow> get_slot ht (nIndex ht (b_h b));
     ht \<leftarrow> (if Some p = first then put_slot (nIndex ht (b_h b)) (pNext b) ht
           else poke (pNext_update (\<lambda>_. pNext b)) (pLast b) ht);
     ht \<leftarrow> poke_if (pLast_update (\<lambda>_. pLast b)) (pNext b) ht;
     ht \<leftarrow> unlink_global p ht;
     ht \<leftarrow> efree (Some p) (call_destructor (pData b) ht);
     Some (ht\<lparr>nNumOfElements := nNumOfElements ht - 1\<rparr>)
   }"

text \<open>Whether \<open>q\<close> comes before the current bucket in the list.\<close>

partial_function (option) comes_before :: "ptr \<Rightarrow> ptr \<Rightarrow> 'd hashtable \<Rightarrow> bool option" where
  "comes_before q r ht =
     (if r = None then Some False
      else if r = q then Some True
      else do { b \<leftarrow> deref ht r; comes_before q (pListLast b) ht })"

text \<open>The new bucket takes the place of \<open>p\<close> in the list.\<close>

definition move_bucket :: "key_ptr option \<Rightarrow> nat \<Rightarrow> uint \<Rightarrow> 'd hashtable \<Rightarrow> (nat \<times> 'd hashtable) option" where
  "move_bucket garbage p str_length ht = do {
     b \<leftarrow> deref ht (Some p);
     let (q, ht) = emalloc (b\<lparr>nKeyLength := str_length, pNext := None, pLast := None, arKey := garbage\<rparr>) ht;
     ht \<leftarrow> (if pListNext b \<noteq> None then poke (pListLast_update (\<lambda>_. Some q)) (pListNext b) ht
           else Some (ht\<lparr>pListTail := Some q\<rparr>));
     ht \<leftarrow> (if pListLast b \<noteq> None then poke (pListNext_update (\<lambda>_. Some q)) (pListLast b) ht
           else Some (ht\<lparr>pListHead := Some q\<rparr>));
     let ht = (if pInternalPointer ht = Some p then ht\<lparr>pInternalPointer := Some q\<rparr> else ht);
     ht \<leftarrow> efree (Some p) ht;
     Some (q, ht)
   }"

definition rekey :: "key_ptr option \<Rightarrow> int \<Rightarrow> key_ptr option \<Rightarrow> uint \<Rightarrow> ulong \<Rightarrow> nat \<Rightarrow> ptr option \<Rightarrow> 'd hashtable \<Rightarrow>
    (int \<times> 'd hashtable \<times> ptr option) option" where
  "rekey garbage key_type str_index str_length h p pos ht = do {
     b \<leftarrow> deref ht (Some p);
     ht \<leftarrow> poke_if (pLast_update (\<lambda>_. pLast b)) (pNext b) ht;
     ht \<leftarrow> (if pLast b \<noteq> None then poke (pNext_update (\<lambda>_. pNext b)) (pLast b) ht
           else put_slot (nIndex ht (b_h b)) (pNext b) ht);
     (p, pos, ht) \<leftarrow>
       (if is_interned (arKey b) \<noteq> is_interned str_index \<or> \<not> is_interned (arKey b) \<and> nKeyLength b \<noteq> str_length
        then do {
          (q, ht) \<leftarrow> move_bucket garbage p str_length ht;
          Some (q, map_option (\<lambda>_. Some q) pos, ht)
        }
        else Some (p, pos, ht));
     ht \<leftarrow> (if key_type = KEY_TYPE_LONG then poke (b_h_update (\<lambda>_. h)) (Some p) ht
           else do {
             k \<leftarrow> str_index;
             poke (\<lambda>b. b\<lparr>b_h := h, nKeyLength := str_length, arKey := Some (store_key k str_length p)\<rparr>) (Some p) ht
           });
     ht \<leftarrow> CONNECT_TO_BUCKET_DLLIST p (nIndex ht h) ht;
     ht \<leftarrow> put_slot (nIndex ht h) (Some p) ht;
     Some (SUCCESS, ht, pos)
   }"

definition zend_hash_update_current_key_ex ::
  "key_ptr option \<Rightarrow> 'd hashtable \<Rightarrow> int \<Rightarrow> key_ptr option \<Rightarrow> uint \<Rightarrow> ulong \<Rightarrow> int \<Rightarrow> ptr option \<Rightarrow>
    (int \<times> 'd hashtable \<times> ptr option) option" where
  "zend_hash_update_current_key_ex garbage ht key_type str_index str_length0 num_index mode pos =
     (case ht_pos ht pos of
        None \<Rightarrow> Some (FAILURE, ht, pos)
      | Some p \<Rightarrow>
          if key_type \<noteq> KEY_TYPE_LONG \<and> key_type \<noteq> KEY_TYPE_STRING then Some (FAILURE, ht, pos)
          else do {
            b \<leftarrow> deref ht (Some p);
            (str_length, h, matches) \<leftarrow>
              (if key_type = KEY_TYPE_LONG then Some (0, num_index, match_index num_index)
               else do {
                 k \<leftarrow> str_index;
                 let h = zend_inline_hash_func (take (unat str_length0) (kbytes k));
                 Some (str_length0, h, match_key k str_length0 h)
               });
            if matches b then Some (SUCCESS, ht, pos)
            else do {
              first \<leftarrow> get_slot ht (nIndex ht h);
              q \<leftarrow> chain_find matches first ht;
              (case q of
                 None \<Rightarrow> rekey garbage key_type str_index str_length h p pos ht
               | Some qa \<Rightarrow> do {
                   earlier \<leftarrow> (if mode = HASH_UPDATE_KEY_ANYWAY then Some False else comes_before q (pListLast b) ht);
                   let found = (if earlier then HASH_UPDATE_KEY_IF_AFTER else HASH_UPDATE_KEY_IF_BEFORE);
                   if mode \<noteq> HASH_UPDATE_KEY_ANYWAY \<and> mode AND found \<noteq> 0 then do {
                     ht \<leftarrow> delete_bucket p ht;
                     Some (FAILURE, ht, pos)
                   }
                   else do {
                     ht \<leftarrow> delete_bucket qa ht;
                     rekey garbage key_type str_index str_length h p pos ht
                   }
                 })
            }
          })"

definition zend_symtable_update_current_key_ex ::
  "key_ptr option \<Rightarrow> 'd hashtable \<Rightarrow> key_ptr \<Rightarrow> uint \<Rightarrow> int \<Rightarrow> ptr option \<Rightarrow> (int \<times> 'd hashtable \<times> ptr option) option" where
  "zend_symtable_update_current_key_ex garbage ht key n mode pos =
     (case sym_index key n of
        Some idx \<Rightarrow> zend_hash_update_current_key_ex garbage ht KEY_TYPE_LONG None 0 idx mode pos
      | None \<Rightarrow> zend_hash_update_current_key_ex garbage ht KEY_TYPE_STRING (Some key) n 0 mode pos)"

end
