(* ===== verification/Zend_Hash_Store.thy ===== *)
theory Zend_Hash_Store
  imports Zend_Hash_Destroy Keyed_Store Zend_Hash_Iter
begin

text \<open>
  A hash table is a keyed store in four ways: by string, by string with a precomputed hash, by
  number, and as a symbol table whose decimal strings are numbers. The properties of the core
  operations are stated here.
\<close>

text \<open>The pointers a caller may use at any time: interned strings and buffers of its own.\<close>

fun own_key :: "key_ptr \<Rightarrow> bool" where
  "own_key (Buf a s) = False"
| "own_key k = (kbytes k \<noteq> [] \<and> length (kbytes k) < 2 ^ 32)"

lemma own_key_valid: "own_key k \<Longrightarrow> key_valid ht k (klen k)"
  by (cases k) (auto intro!: key_valid_interned key_valid_outside simp: klen_def)

definition table_room :: "nat \<Rightarrow> bool" where
  "table_room n \<longleftrightarrow> n + 1 < 2 ^ 32"

definition the_table :: "(int \<times> ptr \<times> 'd hashtable) option \<Rightarrow> 'd hashtable option" where
  "the_table = map_option (\<lambda>(_, _, ht). ht)"

definition hash_put :: "key_ptr \<Rightarrow> 'd \<Rightarrow> 'd hashtable \<Rightarrow> 'd hashtable option" where
  "hash_put k d ht = the_table (zend_hash_add_or_update ht k (klen k) d HASH_UPDATE)"

definition hash_del :: "key_ptr \<Rightarrow> 'd hashtable \<Rightarrow> 'd hashtable option" where
  "hash_del k ht = map_option snd (zend_hash_del_key_or_index ht k (klen k) 0 HASH_DEL_KEY)"

definition hash_look :: "'d hashtable \<Rightarrow> key_ptr \<Rightarrow> 'd option option" where
  "hash_look ht k = zend_hash_find ht k (klen k)"

definition quick_put :: "key_ptr \<Rightarrow> 'd \<Rightarrow> 'd hashtable \<Rightarrow> 'd hashtable option" where
  "quick_put k d ht = the_table (zend_hash_quick_add_or_update ht k (klen k) (zend_inline_hash_func (kbytes k)) d HASH_UPDATE)"

definition quick_del :: "key_ptr \<Rightarrow> 'd hashtable \<Rightarrow> 'd hashtable option" where
  "quick_del k ht = map_option snd (zend_hash_del_key_or_index ht k (klen k) (zend_inline_hash_func (kbytes k)) HASH_DEL_KEY_QUICK)"

definition quick_look :: "'d hashtable \<Rightarrow> key_ptr \<Rightarrow> 'd option option" where
  "quick_look ht k = zend_hash_quick_find ht k (klen k) (zend_inline_hash_func (kbytes k))"

definition index_put :: "ulong \<Rightarrow> 'd \<Rightarrow> 'd hashtable \<Rightarrow> 'd hashtable option" where
  "index_put h d ht = the_table (zend_hash_index_update_or_next_insert ht h d HASH_UPDATE)"

definition index_del :: "ulong \<Rightarrow> 'd hashtable \<Rightarrow> 'd hashtable option" where
  "index_del h ht = map_option snd (zend_hash_del_key_or_index ht (Outside []) 0 h HASH_DEL_INDEX)"

definition sym_put :: "key_ptr \<Rightarrow> 'd \<Rightarrow> 'd hashtable \<Rightarrow> 'd hashtable option" where
  "sym_put k d ht = the_table (zend_symtable_update ht k (klen k) d)"

definition sym_del :: "key_ptr \<Rightarrow> 'd hashtable \<Rightarrow> 'd hashtable option" where
  "sym_del k ht = map_option snd (zend_symtable_del ht k (klen k))"

definition sym_look :: "'d hashtable \<Rightarrow> key_ptr \<Rightarrow> 'd option option" where
  "sym_look ht k = zend_symtable_find ht k (klen k)"

text \<open>The key a symbol table takes a string for.\<close>

definition sym_key :: "key_ptr \<Rightarrow> hkey" where
  "sym_key k = (case handle_numeric (kbytes k) of Some i \<Rightarrow> Num i | None \<Rightarrow> Str (kbytes k))"

lemma flags [simp]:
  "has_flag HASH_UPDATE HASH_ADD = False" "has_flag HASH_ADD HASH_ADD = True"
  "has_flag HASH_UPDATE HASH_NEXT_INSERT = False" "has_flag HASH_NEXT_INSERT HASH_NEXT_INSERT = True"
  "has_flag HASH_NEXT_INSERT HASH_ADD = False"
  by (simp_all add: has_flag_def HASH_UPDATE_def HASH_ADD_def HASH_NEXT_INSERT_def)

lemma sym_index_own: "own_key k \<Longrightarrow> sym_index k (klen k) = handle_numeric (kbytes k)"
  using key_validD(3) [OF own_key_valid] by (metis sym_index_def)

lemma quick_put_rep:
  assumes "ht_rep ht es" and "own_key k" and "table_room (length es)"
  shows "\<exists>ht'. quick_put k d ht = Some ht' \<and> ht_rep ht' (AList.update (Str (kbytes k)) d es)"
  using quick_add_or_update_run [OF assms(1) own_key_valid [OF assms(2)], of d HASH_UPDATE] assms(3)
  by (auto simp: quick_put_def the_table_def stored_def table_room_def)

lemma hash_put_is_quick: "own_key k \<Longrightarrow> hash_put k d ht = quick_put k d ht"
  using add_or_update_is_quick [OF own_key_valid] by (metis hash_put_def quick_put_def)

lemma index_put_rep:
  assumes "ht_rep ht es" and "table_room (length es)"
  shows "\<exists>ht'. index_put h d ht = Some ht' \<and> ht_rep ht' (AList.update (Num h) d es)"
  using index_update_or_next_insert_run [OF assms(1), where flag = HASH_UPDATE and idx = h and d = d] assms(2)
  by (auto simp: index_put_def the_table_def stored_def table_room_def)

lemma del_rep:
  assumes "ht_rep ht es" and "del_args key n h flag K"
  shows "\<exists>ht'. map_option snd (zend_hash_del_key_or_index ht key n h flag) = Some ht' \<and> ht_rep ht' (AList.delete K es)"
  using del_run [OF assms] by auto

lemma own_del_args: "own_key k \<Longrightarrow> del_args k (klen k) h HASH_DEL_KEY (Str (kbytes k))"
  "own_key k \<Longrightarrow> h = zend_inline_hash_func (kbytes k) \<Longrightarrow> del_args k (klen k) h HASH_DEL_KEY_QUICK (Str (kbytes k))"
  "del_args (Outside []) 0 i HASH_DEL_INDEX (Num i)"
  by (cases k; simp add: del_args_def klen_def)+

interpretation zh: keyed_store ht_rep hash_put hash_del hash_look "Str \<circ> kbytes" own_key table_room
proof unfold_locales
  fix ht :: "'d hashtable" and es k d
  assume "ht_rep ht es" "own_key k"
  then show "\<exists>ht'. hash_del k ht = Some ht' \<and> ht_rep ht' (AList.delete ((Str \<circ> kbytes) k) es)"
    "hash_look ht k = Some (map_of es ((Str \<circ> kbytes) k))"
    using del_rep [OF _ own_del_args(1), of ht es k 0] find_run(1) [OF _ own_key_valid]
    by (simp_all only: hash_del_def hash_look_def comp_apply)
qed (auto simp: hash_put_is_quick quick_put_rep)

interpretation zq: keyed_store ht_rep quick_put quick_del quick_look "Str \<circ> kbytes" own_key table_room
proof unfold_locales
  fix ht :: "'d hashtable" and es k d
  assume "ht_rep ht es" "own_key k"
  then show "\<exists>ht'. quick_del k ht = Some ht' \<and> ht_rep ht' (AList.delete ((Str \<circ> kbytes) k) es)"
    "quick_look ht k = Some (map_of es ((Str \<circ> kbytes) k))"
    using del_rep [OF _ own_del_args(2) [OF _ HOL.refl], of ht es k] find_run(3) [OF _ own_key_valid]
    by (simp_all only: quick_del_def quick_look_def comp_apply)
qed (auto simp: quick_put_rep)

interpretation zi: keyed_store ht_rep index_put index_del zend_hash_index_find Num "\<lambda>_. True" table_room
proof unfold_locales
  fix ht :: "'d hashtable" and es h
  assume "ht_rep ht es"
  then show "\<exists>ht'. index_del h ht = Some ht' \<and> ht_rep ht' (AList.delete (Num h) es)"
    "zend_hash_index_find ht h = Some (map_of es (Num h))"
    using del_rep [OF _ own_del_args(3), of ht es h] index_find_run(1) by (simp_all only: index_del_def)
qed (auto simp: index_put_rep)

interpretation zsym: keyed_store ht_rep sym_put sym_del sym_look sym_key own_key table_room
proof unfold_locales
  fix ht :: "'d hashtable" and es k d
  assume r: "ht_rep ht es" and k: "own_key k"
  note s = sym_index_own [OF k]
  show "\<exists>ht'. sym_del k ht = Some ht' \<and> ht_rep ht' (AList.delete (sym_key k) es)"
    using del_rep [OF r] own_del_args(1) [OF k] own_del_args(3)
    by (auto simp: sym_del_def zend_symtable_del_def s sym_key_def split: option.split)
  show "sym_look ht k = Some (map_of es (sym_key k))"
    using index_find_run(1) [OF r] find_run(1) [OF r own_key_valid [OF k]]
    by (auto simp: sym_look_def zend_symtable_find_def s sym_key_def split: option.split)
  assume "table_room (length es)"
  then show "\<exists>ht'. sym_put k d ht = Some ht' \<and> ht_rep ht' (AList.update (sym_key k) d es)"
    using index_put_rep [OF r, of _ d] quick_put_rep [OF r k, of d] hash_put_is_quick [OF k, of d ht]
    by (auto simp: sym_put_def zend_symtable_update_def s sym_key_def index_put_def hash_put_def split: option.split)
qed

subsection \<open>A sample table\<close>

definition empty_table :: "'d hashtable" where
  "empty_table = zend_hash_init 0 True False \<lparr>cells = Map.empty, brk = 0, nTableSize = 0, nTableMask = 0, nNumOfElements = 0,
     nNextFreeElement = 0, pInternalPointer = None, pListHead = None, pListTail = None, arBuckets = [],
     pDestructor = False, ht_persistent = False, nApplyCount = 0, bApplyProtection = False, ht_destroyed = [],
     can_grow = (\<lambda>_. True)\<rparr>"

definition sample_table :: "int hashtable" where
  "sample_table = the (do {
     ht \<leftarrow> index_put 7 10 empty_table;
     ht \<leftarrow> hash_put (Outside [97, 0]) 20 ht;
     hash_put (Interned [98, 0]) 30 ht
   })"

definition sample_entries :: "(hkey \<times> int) list" where
  "sample_entries = [(Num 7, 10), (Str [97, 0], 20), (Str [98, 0], 30)]"

lemma empty_table_rep: "ht_rep empty_table []" and empty_table_next: "nNextFreeElement empty_table = 0"
proof -
  have "ht_ok (empty_table :: 'a hashtable) []" unfolding empty_table_def by (rule ht_ok_init) simp
  then show "ht_rep (empty_table :: 'a hashtable) []" by (auto simp: ht_rep_def)
  show "nNextFreeElement empty_table = 0" by (simp add: empty_table_def zend_hash_init_def)
qed

lemma empty_table_eq: "(empty_table :: int hashtable) =
  \<lparr>cells = Map.empty, brk = 0, nTableSize = 8, nTableMask = 0, nNumOfElements = 0, nNextFreeElement = 0,
   pInternalPointer = None, pListHead = None, pListTail = None, arBuckets = [None], pDestructor = True,
   ht_persistent = False, nApplyCount = 0, bApplyProtection = True, ht_destroyed = [], can_grow = (\<lambda>_. True)\<rparr>"
  by (simp add: empty_table_def zend_hash_init_def size_loop.simps)

lemmas ht_eval = index_put_def hash_put_def the_table_def zend_hash_index_update_or_next_insert_def
  zend_hash_add_or_update_def CHECK_INIT_def get_slot_def put_slot_def nIndex_def chain_find.simps emalloc_def deref_def
  poke_def poke_if_def CONNECT_TO_BUCKET_DLLIST_def CONNECT_TO_GLOBAL_DLLIST_def ZEND_HASH_IF_FULL_DO_RESIZE_def
  raise_next_free_def new_bucket_def LONG_MAX_def has_flag_def HASH_UPDATE_def HASH_ADD_def HASH_NEXT_INSERT_def
  klen_def store_key_def

lemma one_entry_table:
  obtains t where "index_put 7 10 (empty_table :: int hashtable) = Some t" "ht_rep t [(Num 7, 10)]" "nTableSize t = 8" "nTableMask t = 7"
    "can_grow t = (\<lambda>_. True)"
proof -
  obtain t where t: "index_put 7 10 (empty_table :: int hashtable) = Some t" "ht_rep t [(Num 7, 10)]"
    using zi.rep_put [OF empty_table_rep, of 7 10] by (auto simp: table_room_def)
  moreover have "map_option nTableSize (index_put 7 10 (empty_table :: int hashtable)) = Some 8"
    "map_option nTableMask (index_put 7 10 (empty_table :: int hashtable)) = Some 7"
    "map_option can_grow (index_put 7 10 (empty_table :: int hashtable)) = Some (\<lambda>_. True)"
    by (simp_all add: empty_table_eq ht_eval)
  ultimately show ?thesis using that by auto
qed

lemma sample_table_rep: "ht_rep sample_table sample_entries"
proof -
  obtain h1 where h1: "index_put 7 10 empty_table = Some h1" "ht_rep h1 [(Num 7, 10 :: int)]"
    using zi.rep_put [OF empty_table_rep, of 7 10] by (auto simp: table_room_def)
  obtain h2 where h2: "hash_put (Outside [97, 0]) 20 h1 = Some h2" "ht_rep h2 [(Num 7, 10), (Str [97, 0], 20)]"
    using zh.rep_put [OF h1(2), of "Outside [97, 0]" 20] by (auto simp: table_room_def)
  obtain h3 where h3: "hash_put (Interned [98, 0]) 30 h2 = Some h3" "ht_rep h3 sample_entries"
    using zh.rep_put [OF h2(2), of "Interned [98, 0]" 30] by (auto simp: table_room_def sample_entries_def)
  show ?thesis using h1(1) h2(1) h3 by (simp add: sample_table_def)
qed

text \<open>Numeric keys and \<open>nNextFreeElement\<close>.\<close>

lemma numeric_key_below:
  assumes "ht_rep ht es" and "map_of es (Num i) \<noteq> None"
  shows "sint i < sint (nNextFreeElement ht) \<or> nNextFreeElement ht = LONG_MAX"
proof -
  obtain L where L: "ht_ok ht L" "es = entries (pay (cells ht)) L" using assms(1) by (auto simp: ht_rep_def)
  obtain a where a: "addr_of (pay (cells ht)) L (Num i) = Some a"
    using assms(2) unfolding L(2) map_of_entries by auto
  then have aL: "a \<in> set L" "key_at (pay (cells ht)) a = Num i" using addr_of_SomeD by metis+
  then obtain b where "cells ht a = Some b" using ht_ok_cell [OF L(1)] by blast
  then have "pay (cells ht) a = Some (payload b)" "pkey (payload b) = Num i" using aL by (simp_all add: pay_def)
  then show ?thesis using ht_okD(12) [OF L(1)] unfolding next_ok_def by blast
qed

lemma next_free_taken:
  assumes "ht_rep ht es"
  shows "map_of es (Num (nNextFreeElement ht)) \<noteq> None \<longleftrightarrow> map_of es (Num LONG_MAX) \<noteq> None"
  using numeric_key_below [OF assms, of "nNextFreeElement ht"] numeric_key_below [OF assms, of LONG_MAX]
    sint_le_LONG_MAX [of "nNextFreeElement ht"] by auto

lemma next_free_above:
  assumes "ht_rep ht es" and "map_of es (Num i) \<noteq> None" and "map_of es (Num LONG_MAX) = None"
  shows "sint i < sint (nNextFreeElement ht)"
proof (cases "nNextFreeElement ht = LONG_MAX")
  case True
  then have "i \<noteq> LONG_MAX" using assms by auto
  then show ?thesis using sint_le_LONG_MAX [of i] sint_inject [of i LONG_MAX] True by auto
next
  case False
  then show ?thesis using numeric_key_below [OF assms(1,2)] by blast
qed

subsection \<open>Properties\<close>

text \<open>
  C14: looking up a string key, with or without a precomputed hash, finds the datum of that key in
  the table's entries and nothing else, whatever collides with it; \<open>zend_hash_exists\<close> agrees.
\<close>

theorem hash_find_is_map_of:
  assumes "ht_rep ht es" and "key_valid ht key n"
  shows "zend_hash_find ht key n = Some (map_of es (Str (kbytes key))) \<and>
    zend_hash_quick_find ht key n (zend_inline_hash_func (kbytes key)) = Some (map_of es (Str (kbytes key))) \<and>
    zend_hash_exists ht key n = Some (map_of es (Str (kbytes key)) \<noteq> None)"
  using find_run [OF assms] by simp

lemma hash_find_is_map_of_witness:
  "zend_hash_find sample_table (Interned [98, 0]) 2 = Some (Some 30) \<and>
   zend_hash_find sample_table (Outside [55, 0]) 2 = Some None"
  using hash_find_is_map_of [OF sample_table_rep, of "Interned [98, 0]" 2]
    hash_find_is_map_of [OF sample_table_rep, of "Outside [55, 0]" 2]
    own_key_valid [of "Interned [98, 0]" sample_table] own_key_valid [of "Outside [55, 0]" sample_table]
  by (simp add: klen_def sample_entries_def)

text \<open>
  C13: \<open>zend_hash_update\<close> replaces the datum of a present key at its place in the order and calls
  the destructor on the old one only, or appends a new entry at the end; growing included, every
  access is to live memory and the invariant is kept.
\<close>

theorem hash_update_replaces_or_appends:
  assumes "ht_rep ht es" and "key_valid ht key n" and "length es + 1 < 2 ^ 32"
  shows "\<exists>p ht'. zend_hash_add_or_update ht key n d HASH_UPDATE = Some (SUCCESS, p, ht') \<and>
    ht_rep ht' (AList.update (Str (kbytes key)) d es) \<and>
    ht_destroyed ht' = ht_destroyed ht @
      (case map_of es (Str (kbytes key)) of None \<Rightarrow> [] | Some old \<Rightarrow> if pDestructor ht then [old] else []) \<and>
    nNextFreeElement ht' = nNextFreeElement ht"
  using quick_add_or_update_run [OF assms, of d HASH_UPDATE] add_or_update_is_quick [OF assms(2), of d HASH_UPDATE]
  by (auto simp: stored_def)

lemma hash_update_replaces_or_appends_witness:
  "\<exists>p ht'. zend_hash_add_or_update sample_table (Outside [97, 0]) 2 21 HASH_UPDATE = Some (SUCCESS, p, ht') \<and>
    ht_rep ht' [(Num 7, 10), (Str [97, 0], 21), (Str [98, 0], 30)]"
  using hash_update_replaces_or_appends [OF sample_table_rep, of "Outside [97, 0]" 2 21]
    own_key_valid [of "Outside [97, 0]" sample_table]
  by (auto simp: klen_def sample_entries_def)

text \<open>
  C32: \<open>zend_hash_add\<close> fails exactly when the key is present, and then changes no entry and
  destroys nothing; otherwise it appends.
\<close>

theorem hash_add_only_new:
  assumes "ht_rep ht es" and "key_valid ht key n" and "length es + 1 < 2 ^ 32"
  shows "\<exists>r p ht'. zend_hash_add_or_update ht key n d HASH_ADD = Some (r, p, ht') \<and>
    (r = FAILURE \<longleftrightarrow> map_of es (Str (kbytes key)) \<noteq> None) \<and>
    ht_rep ht' (if r = FAILURE then es else es @ [(Str (kbytes key), d)]) \<and> ht_destroyed ht' = ht_destroyed ht"
proof -
  have "AList.update (Str (kbytes key)) d es = es @ [(Str (kbytes key), d)]" if "map_of es (Str (kbytes key)) = None"
    using that by (induction es) (auto split: if_splits)
  moreover obtain r p ht' where "zend_hash_add_or_update ht key n d HASH_ADD = Some (r, p, ht')"
    "stored ht es (Str (kbytes key)) d True (r, p, ht')"
    using quick_add_or_update_run [OF assms, of d HASH_ADD] add_or_update_is_quick [OF assms(2), of d HASH_ADD] by auto
  ultimately show ?thesis
    by (intro exI [of _ r] exI [of _ p] exI [of _ ht']) (auto simp: stored_def split: if_splits)
qed

lemma hash_add_only_new_witness:
  "\<exists>p ht'. zend_hash_add_or_update sample_table (Outside [97, 0]) 2 21 HASH_ADD = Some (FAILURE, p, ht') \<and>
    ht_rep ht' sample_entries"
  using hash_add_only_new [OF sample_table_rep, of "Outside [97, 0]" 2 21]
    own_key_valid [of "Outside [97, 0]" sample_table]
  by (auto simp: klen_def sample_entries_def)

text \<open>
  C33: \<open>zend_hash_next_index_insert\<close> appends at \<open>nNextFreeElement\<close>, which is above every numeric
  key of the table, and raises it; it fails, and changes nothing, exactly when the largest \<open>long\<close>
  is already taken.
\<close>

theorem hash_next_insert_above_all:
  assumes "ht_rep ht es" and "length es + 1 < 2 ^ 32"
  shows "\<exists>r p ht'. zend_hash_index_update_or_next_insert ht h d HASH_NEXT_INSERT = Some (r, p, ht') \<and>
    (if map_of es (Num LONG_MAX) \<noteq> None
     then r = FAILURE \<and> ht_rep ht' es
     else r = SUCCESS \<and> ht_rep ht' (es @ [(Num (nNextFreeElement ht), d)]) \<and>
       (\<forall>i. map_of es (Num i) \<noteq> None \<longrightarrow> sint i < sint (nNextFreeElement ht)) \<and>
       nNextFreeElement ht' = (if nNextFreeElement ht < LONG_MAX then nNextFreeElement ht + 1 else LONG_MAX))"
proof -
  let ?nfe = "nNextFreeElement ht"
  have app: "AList.update K d es = es @ [(K, d)]" if "map_of es K = None" for K
    using that by (induction es) (auto split: if_splits)
  obtain r p ht' where run: "zend_hash_index_update_or_next_insert ht h d HASH_NEXT_INSERT = Some (r, p, ht')"
    "stored ht es (Num ?nfe) d True (r, p, ht')"
    "nNextFreeElement ht' = (if r = SUCCESS then raised ?nfe ?nfe else ?nfe)"
    using index_update_or_next_insert_run [OF assms, where flag = HASH_NEXT_INSERT and idx = h and d = d] by auto
  show ?thesis
  proof (cases "map_of es (Num LONG_MAX)")
    case None
    then have "map_of es (Num ?nfe) = None" using next_free_taken [OF assms(1)] by simp
    then show ?thesis using run app [of "Num ?nfe"] next_free_above [OF assms(1) _ None] None
      by (auto simp: stored_def raised_def)
  next
    case (Some x)
    then have "map_of es (Num ?nfe) \<noteq> None" using next_free_taken [OF assms(1)] by simp
    then show ?thesis using run Some by (auto simp: stored_def)
  qed
qed

lemma hash_next_insert_above_all_witness:
  "\<exists>p ht'. zend_hash_index_update_or_next_insert sample_table 0 40 HASH_NEXT_INSERT = Some (SUCCESS, p, ht') \<and>
    ht_rep ht' (sample_entries @ [(Num (nNextFreeElement sample_table), 40)])"
  using hash_next_insert_above_all [OF sample_table_rep, of 0 40] by (auto simp: sample_entries_def LONG_MAX_def)

text \<open>
  C34: deleting by string, by string and hash, or by number removes the entry of that key only,
  keeps the order of the others, destroys its datum once, and reports \<open>FAILURE\<close> exactly for an
  absent key.
\<close>

theorem hash_del_removes_key:
  assumes "ht_rep ht es" and "del_args key n h flag K"
  shows "\<exists>r ht'. zend_hash_del_key_or_index ht key n h flag = Some (r, ht') \<and>
    r = (if map_of es K = None then FAILURE else SUCCESS) \<and> ht_rep ht' (AList.delete K es) \<and>
    ht_destroyed ht' = ht_destroyed ht @
      (case map_of es K of None \<Rightarrow> [] | Some old \<Rightarrow> if pDestructor ht then [old] else [])"
  using del_run [OF assms] by auto

lemma hash_del_removes_key_witness:
  "\<exists>ht'. zend_hash_del_key_or_index sample_table (Outside [97, 0]) 2 0 HASH_DEL_KEY = Some (SUCCESS, ht') \<and>
    ht_rep ht' [(Num 7, 10), (Str [98, 0], 30)]"
  using hash_del_removes_key [OF sample_table_rep, of "Outside [97, 0]" 2 0 HASH_DEL_KEY "Str [97, 0]"]
  by (auto simp: del_args_def sample_entries_def)

text \<open>
  C4: a symbol table is a map: after any sequence of updates and deletions, a look-up gives what the
  same sequence on a map from numbers and strings gives, a decimal string and its number being the
  same key.
\<close>

theorem symtable_simulates_map:
  assumes "ht_rep ht es" and "\<forall>x \<in> set ops. own_key (op_arg x)" and "own_key k"
    and "length es + length ops + 1 < 2 ^ 32"
  shows "\<exists>ht'. run_store sym_put sym_del ops ht = Some ht' \<and>
    zend_symtable_find ht' k (klen k) = Some (spec_store sym_key ops (map_of es) (sym_key k))"
proof -
  have "\<forall>n < length es + length ops. table_room n" using assms(4) by (simp add: table_room_def)
  from zsym.look_after_run [OF assms(1,2) this assms(3)] show ?thesis by (simp add: sym_look_def)
qed

lemma symtable_simulates_map_witness:
  "\<exists>ht'. run_store sym_put sym_del [Put (Outside [55, 0]) 11, Del (Interned [97, 0])] sample_table = Some ht' \<and>
    zend_symtable_find ht' (Outside [55, 0]) (klen (Outside [55, 0])) = Some (spec_store sym_key
      [Put (Outside [55, 0]) 11, Del (Interned [97, 0])] (map_of sample_entries) (sym_key (Outside [55, 0])))"
  by (rule symtable_simulates_map [OF sample_table_rep]) (simp_all add: sample_entries_def)

text \<open>
  A new table has the least power of two of at least 8 slots that is not below the size asked
  for, up to \<open>2^31\<close>, and holds nothing.
\<close>

theorem hash_init_size:
  assumes "cells ht = Map.empty" and "unat n < 2 ^ 31"
  shows "\<exists>k \<ge> 3. nTableSize (zend_hash_init n dt ps ht) = 2 ^ k \<and> k \<le> 31 \<and> unat n \<le> 2 ^ k \<and>
    (k = 3 \<or> 2 ^ (k - 1) < unat n) \<and> ht_rep (zend_hash_init n dt ps ht) []"
proof -
  have "ht_rep (zend_hash_init n dt ps ht) []" 
    unfolding ht_rep_def using ht_ok_init [OF assms(1), of n dt ps] by (intro exI [of _ "[]"]) simp
  then show ?thesis using init_size [of n dt ps ht] assms(2) by metis
qed

lemma hash_init_size_witness:
  "\<exists>k \<ge> 3. nTableSize (zend_hash_init 9 True True (empty_table\<lparr>cells := Map.empty\<rparr> :: int hashtable)) = 2 ^ k \<and> k \<le> 31 \<and>
    unat (9 :: uint) \<le> 2 ^ k \<and> (k = 3 \<or> 2 ^ (k - 1) < unat (9 :: uint)) \<and>
    ht_rep (zend_hash_init 9 True True (empty_table\<lparr>cells := Map.empty\<rparr> :: int hashtable)) []"
  by (rule hash_init_size) simp_all

text \<open>
  C17: growing doubles the slots and rechains every bucket, and changes no entry and no order. It fails, with
  the table as it was, exactly where the memory cannot be had; a table of \<open>2^31\<close> slots, whose size would
  overflow, stays as it is.
\<close>

theorem hash_resize_keeps_entries:
  assumes "ht_rep ht es" and "nTableMask ht \<noteq> 0" and "es \<noteq> []"
  shows "\<exists>r ht'. zend_hash_do_resize ht = Some (r, ht') \<and> ht_rep ht' es \<and>
    (if nTableSize ht = 2 ^ 31 then r = SUCCESS \<and> ht' = ht
     else if can_grow ht (unat (2 * nTableSize ht) * 8) then
       r = SUCCESS \<and> nTableSize ht' = 2 * nTableSize ht \<and> nTableMask ht' = 2 * nTableSize ht - 1
     else r = FAILURE \<and> ht' = ht)"
proof -
  obtain L where L: "ht_ok ht L" "es = entries (pay (cells ht)) L" using assms(1) by (auto simp: ht_rep_def)
  then have "L \<noteq> []" using assms(3) by auto
  from do_resize_run [OF L(1) assms(2) this] obtain r ht' where r: "zend_hash_do_resize ht = Some (r, ht')"
    "ht_ok ht' L" "same_store ht ht'" and c: "if nTableSize ht = 2 ^ 31 then r = SUCCESS \<and> ht' = ht
     else if can_grow ht (unat (2 * nTableSize ht) * 8) then
       r = SUCCESS \<and> nTableSize ht' = 2 * nTableSize ht \<and> nTableMask ht' = 2 * nTableSize ht - 1
     else r = FAILURE \<and> ht' = ht" by blast
  have "ht_rep ht' es" using r(2,3) L(2) by (auto simp: ht_rep_def same_store_def)
  then show ?thesis using r(1) c by blast
qed

lemma hash_resize_keeps_entries_witness:
  "\<exists>t t'. index_put 7 10 (empty_table :: int hashtable) = Some t \<and> zend_hash_do_resize t = Some (SUCCESS, t') \<and>
    ht_rep t' [(Num 7, 10)] \<and> nTableSize t' = 16"
proof -
  obtain t where t: "index_put 7 10 (empty_table :: int hashtable) = Some t" "ht_rep t [(Num 7, 10)]" "nTableSize t = 8" "nTableMask t = 7"
    "can_grow t = (\<lambda>_. True)" by (rule one_entry_table)
  from hash_resize_keeps_entries [OF t(2)] t show ?thesis by auto
qed

text \<open>
  C18: destroying a table, the graceful way or not, calls the destructor once on each datum in the
  order of insertion (in reverse for \<open>zend_hash_graceful_reverse_destroy\<close>) and frees every bucket;
  \<open>zend_hash_clean\<close> does so and leaves an empty table that can be used again.
\<close>

theorem hash_destroy_releases_all:
  assumes "ht_rep ht es"
  defines "all \<equiv> (if pDestructor ht then map snd es else [])"
  shows "(\<exists>ht'. zend_hash_destroy ht = Some ht' \<and> cells ht' = Map.empty \<and> ht_destroyed ht' = ht_destroyed ht @ all) \<and>
    (\<exists>ht'. zend_hash_graceful_destroy ht = Some ht' \<and> cells ht' = Map.empty \<and> ht_destroyed ht' = ht_destroyed ht @ all) \<and>
    (\<exists>ht'. zend_hash_graceful_reverse_destroy ht = Some ht' \<and> cells ht' = Map.empty \<and>
      ht_destroyed ht' = ht_destroyed ht @ rev all) \<and>
    (\<exists>ht'. zend_hash_clean ht = Some ht' \<and> ht_rep ht' [] \<and> ht_destroyed ht' = ht_destroyed ht @ all)"
proof -
  have a: "(if pDestructor ht then data_of es else []) = all" by (simp add: all_def data_of_def)
  have r: "(if pDestructor ht then rev (data_of es) else []) = rev all" by (simp add: all_def data_of_def)
  show ?thesis
    using destroy_run [OF assms(1)] graceful_destroy_run [OF assms(1)] graceful_reverse_destroy_run [OF assms(1)]
      clean_run [OF assms(1)] unfolding a r by blast
qed

lemma hash_destroy_releases_all_witness:
  "\<exists>ht'. zend_hash_destroy sample_table = Some ht' \<and> cells ht' = Map.empty"
  using hash_destroy_releases_all [OF sample_table_rep] by blast

end
