(* ===== verification/Zend_Hash_Iter_Correct.thy ===== *)
theory Zend_Hash_Iter_Correct
  imports Zend_Hash_Store
begin

text \<open>
  Applying functions to the elements, copying, merging, traversing and sorting, against the list of
  entries.
\<close>

subsection \<open>Changing a datum in place\<close>

lemma payload_upd_data:
  "payload (pData_update g b) = put_data (g (pData b)) (payload b)" "pListNext (pData_update g b) = pListNext b"
  "pListLast (pData_update g b) = pListLast b" "pNext (pData_update g b) = pNext b" "pLast (pData_update g b) = pLast b"
  by (simp_all add: payload_def)

lemma poke_data_run:
  assumes ok: "ht_ok ht L" and a: "a \<in> set L"
  shows "\<exists>C' p. pay (cells ht) a = Some p \<and> poke (pData_update g) (Some a) ht = Some (ht\<lparr>cells := C'\<rparr>) \<and>
    ht_ok (ht\<lparr>cells := C'\<rparr>) L \<and> pay C' = (pay (cells ht))(a \<mapsto> put_data (g (pdata p)) p)"
proof -
  note o = ht_okD [OF ok]
  obtain b where b: "cells ht a = Some b" using ht_ok_cell [OF ok a] .
  have p: "pay (cells ht) a = Some (payload b)" using b by (simp add: pay_def)
  define C' where "C' = (cells ht)(a \<mapsto> pData_update g b)"
  have run: "poke (pData_update g) (Some a) ht = Some (ht\<lparr>cells := C'\<rparr>)"
    using b by (simp add: poke_def C'_def)
  have links: "gnx C' = gnx (cells ht)" "gpv C' = gpv (cells ht)" "cnx C' = cnx (cells ht)" "cpv C' = cpv (cells ht)"
    using field_same [of "cells ht" a b] b by (simp_all add: C'_def field_upd payload_upd_data(2-5))
  have P: "pay C' = (pay (cells ht))(a \<mapsto> put_data (g (pData b)) (payload b))"
    by (simp only: C'_def field_upd payload_upd_data(1))
  have keys: "key_at (pay C') x = key_at (pay (cells ht)) x" for x using p by (simp add: P)
  have sl: "slot_of m (pay C') = slot_of m (pay (cells ht))" for m
    using p by (auto simp: P slot_of_def fun_eq_iff)
  have nx: "next_ok (nNextFreeElement ht) (pay C')"
    using o(12) p by (auto simp: next_ok_def P simp del: split_paired_All)
  have pok: "pay_ok x q" if "pay C' x = Some q" for x q
    using that o(9) [of x q] o(9) [OF p] by (auto simp: P split: if_splits)
  have D: "dom C' = dom (cells ht)" using b by (auto simp: C'_def)
  have "ht_ok (ht\<lparr>cells := C'\<rparr>) L"
    unfolding ht_ok_def using o(1-8,10,11) nx pok D
    by (auto simp: links sl keys table_ok_def arena_ok_def simp del: split_paired_All)
  moreover have "pdata (payload b) = pData b" by (simp add: payload_def)
  ultimately show ?thesis using run P p by metis
qed

lemma entries_split_put:
  assumes "distinct (us @ a # vs)" and "P a = Some p"
  shows "entries (P(a \<mapsto> put_data d p)) us = entries P us" "entries (P(a \<mapsto> put_data d p)) vs = entries P vs"
    "entries (P(a \<mapsto> put_data d p)) [a] = [(pkey p, d)]"
  using assms by (auto intro!: entries_cong)

subsection \<open>The apply functions\<close>

text \<open>What an apply function leaves of the entries, and what it destroys.\<close>

fun apply_spec :: "('d \<Rightarrow> 's \<Rightarrow> int \<times> 'd \<times> 's) \<Rightarrow> (hkey \<times> 'd) list \<Rightarrow> 's \<Rightarrow>
    (hkey \<times> 'd) list \<times> 'd list \<times> 's" where
  "apply_spec f [] st = ([], [], st)"
| "apply_spec f ((K, d) # es) st =
     (case f d st of (r, d', st) \<Rightarrow>
        let remove = (r AND ZEND_HASH_APPLY_REMOVE \<noteq> 0);
            kept = (if remove then [] else [(K, d')]);
            gone = (if remove then [d'] else [])
        in if r AND ZEND_HASH_APPLY_STOP \<noteq> 0 then (kept @ es, gone, st)
           else (case apply_spec f es st of (es', gone', st) \<Rightarrow> (kept @ es', gone @ gone', st)))"

text \<open>One round of an apply loop: the callback may change the datum, and have the element removed.\<close>

lemma apply_step:
  assumes ok: "ht_ok ht (us @ a # vs)"
  obtains b h1 b1 h2 ws where "cells ht a = Some b" "poke (pData_update (\<lambda>_. d)) (Some a) ht = Some h1"
    "cells h1 a = Some b1" "pListNext b1 = fst_or vs None" "pListLast b1 = lst_or None us"
    "zend_hash_apply_deleter h1 a = Some (fst_or vs None, removed a b1 h1)"
    "h2 = (if remove then removed a b1 h1 else h1)" "ht_ok h2 ((us @ ws) @ vs)" "same_meta ht h2"
    "nNextFreeElement h2 = nNextFreeElement ht"
    "ht_destroyed h2 = ht_destroyed ht @ (if pDestructor ht \<and> remove then [d] else [])"
    "entries (pay (cells h2)) us = entries (pay (cells ht)) us" "entries (pay (cells h2)) vs = entries (pay (cells ht)) vs"
    "entries (pay (cells h2)) ws = (if remove then [] else [(key_at (pay (cells ht)) a, d)])"
    "pdata (the (pay (cells ht) a)) = pData b"
proof -
  let ?P = "pay (cells ht)"
  have aL: "a \<in> set (us @ a # vs)" by simp
  obtain b where b: "cells ht a = Some b" using ht_ok_cell [OF ok aL] .
  obtain C1 p where c1: "?P a = Some p" "poke (pData_update (\<lambda>_. d)) (Some a) ht = Some (ht\<lparr>cells := C1\<rparr>)"
    "ht_ok (ht\<lparr>cells := C1\<rparr>) (us @ a # vs)" "pay C1 = ?P(a \<mapsto> put_data d p)"
    using poke_data_run [OF ok aL, of "\<lambda>_. d"] by blast
  define h1 where "h1 = ht\<lparr>cells := C1\<rparr>"
  have h1: "ht_ok h1 (us @ a # vs)" "pay (cells h1) = ?P(a \<mapsto> put_data d p)" "same_meta ht h1"
    "ht_destroyed h1 = ht_destroyed ht" "nNextFreeElement h1 = nNextFreeElement ht" "pDestructor h1 = pDestructor ht"
    using c1 by (simp_all add: h1_def same_meta_def)
  have dist: "distinct (us @ a # vs)" using ht_okD(13) [OF ok] .
  note es = entries_split_put [of us a vs ?P p d, OF dist c1(1)]
  obtain b1 where b1: "cells h1 a = Some b1" using ht_ok_cell [OF h1(1) aL] .
  note nb = ht_ok_neighbours [OF h1(1) b1]
  have "Some (payload b1) = pay (cells h1) a" using b1 by (simp add: pay_def)
  then have "payload b1 = put_data d p" using h1(2) by simp
  then have pd1: "pData b1 = d" by (cases p) (simp add: payload_def)
  define h2 where "h2 = (if remove then removed a b1 h1 else h1)"
  define ws where "ws = (if remove then [] else [a])"
  have e2: "entries (pay (cells h2)) xs = entries (pay (cells h1)) xs" if "a \<notin> set xs" for xs
    using that by (intro entries_cong) (auto simp: h2_def ht_ok_removed(2) [OF h1(1) b1])
  show thesis
  proof (rule that [of b h1 b1 h2 ws])
    show "zend_hash_apply_deleter h1 a = Some (fst_or vs None, removed a b1 h1)"
      using apply_deleter_run [OF h1(1) b1] .
    show "ht_ok h2 ((us @ ws) @ vs)" using ht_ok_removed(1) [OF h1(1) b1] h1(1) by (simp add: h2_def ws_def)
    show "same_meta ht h2" using same_meta_trans [OF h1(3) removed_frame(1)] h1(3) by (simp add: h2_def)
    show "nNextFreeElement h2 = nNextFreeElement ht" using h1(5) by (simp add: h2_def removed_frame)
    show "ht_destroyed h2 = ht_destroyed ht @ (if pDestructor ht \<and> remove then [d] else [])"
      using h1(4,6) pd1 by (simp add: h2_def removed_frame)
    show "entries (pay (cells h2)) us = entries ?P us" "entries (pay (cells h2)) vs = entries ?P vs"
      using e2 es h1(2) dist by simp_all
    show "entries (pay (cells h2)) ws = (if remove then [] else [(key_at ?P a, d)])"
      using es(3) h1(2) c1(1) by (simp add: h2_def ws_def)
    show "pdata (the (?P a)) = pData b" using b by (simp add: pay_def payload_def)
  qed (use b c1(2) b1 nb(1,2) in \<open>simp_all add: h1_def h2_def\<close>)
qed

lemma hash_apply_loop_run:
  assumes "ht_ok ht (us @ vs)"
    and "apply_spec f (entries (pay (cells ht)) vs) st = (es', gone, st')"
  shows "\<exists>ht' ws. hash_apply_loop (\<lambda>_. f) (fst_or vs None) ht st = Some (ht', st') \<and> ht_ok ht' (us @ ws) \<and>
    entries (pay (cells ht')) ws = es' \<and> entries (pay (cells ht')) us = entries (pay (cells ht)) us \<and>
    same_meta ht ht' \<and> nNextFreeElement ht' = nNextFreeElement ht \<and>
    ht_destroyed ht' = ht_destroyed ht @ (if pDestructor ht then gone else [])"
  using assms
proof (induction vs arbitrary: ht us st es' gone st')
  case Nil
  then show ?case by (intro exI [of _ ht] exI [of _ "[]"]) (simp add: hash_apply_loop.simps [of _ None])
next
  case (Cons a vs)
  let ?P = "pay (cells ht)"
  obtain r d st1 where f: "f (pdata (the (?P a))) st = (r, d, st1)" by (cases "f (pdata (the (?P a))) st")
  let ?remove = "r AND ZEND_HASH_APPLY_REMOVE \<noteq> 0" and ?stop = "r AND ZEND_HASH_APPLY_STOP \<noteq> 0"
  obtain b h1 b1 h2 ws where
    s1: "cells ht a = Some b" "poke (pData_update (\<lambda>_. d)) (Some a) ht = Some h1"
    "cells h1 a = Some b1" "pListNext b1 = fst_or vs None" "pListLast b1 = lst_or None us"
    "zend_hash_apply_deleter h1 a = Some (fst_or vs None, removed a b1 h1)"
    "h2 = (if ?remove then removed a b1 h1 else h1)" and h2: "ht_ok h2 ((us @ ws) @ vs)" "same_meta ht h2"
    "nNextFreeElement h2 = nNextFreeElement ht"
    "ht_destroyed h2 = ht_destroyed ht @ (if pDestructor ht \<and> ?remove then [d] else [])"
    and e2: "entries (pay (cells h2)) us = entries ?P us" "entries (pay (cells h2)) vs = entries ?P vs"
    "entries (pay (cells h2)) ws = (if ?remove then [] else [(key_at ?P a, d)])"
    and pd: "pdata (the (?P a)) = pData b"
    by (rule apply_step [OF Cons.prems(1), of d ?remove])
  have step: "hash_apply_loop (\<lambda>_. f) (Some a) ht st =
      (if ?stop then Some (h2, st1) else hash_apply_loop (\<lambda>_. f) (fst_or vs None) h2 st1)"
    using s1 f pd by (simp add: hash_apply_loop.simps [of _ "Some a"])
  have spec: "apply_spec f (entries ?P (a # vs)) st =
      (if ?stop then (entries (pay (cells h2)) ws @ entries ?P vs, if ?remove then [d] else [], st1)
       else (case apply_spec f (entries ?P vs) st1 of (es', gone', st) \<Rightarrow>
         (entries (pay (cells h2)) ws @ es', (if ?remove then [d] else []) @ gone', st)))"
    using f e2(3) by (simp add: Let_def)
  show ?case
  proof (cases ?stop)
    case True
    then have "es' = entries (pay (cells h2)) (ws @ vs)" "gone = (if ?remove then [d] else [])" "st' = st1"
      using spec Cons.prems(2) e2(2) by simp_all
    then show ?thesis using True step h2 e2
      by (intro exI [of _ h2] exI [of _ "ws @ vs"]) simp
  next
    case False
    obtain es1 gone1 st2 where sp: "apply_spec f (entries (pay (cells h2)) vs) st1 = (es1, gone1, st2)"
      by (cases "apply_spec f (entries (pay (cells h2)) vs) st1")
    obtain ht' xs where r: "hash_apply_loop (\<lambda>_. f) (fst_or vs None) h2 st1 = Some (ht', st2)"
      "ht_ok ht' ((us @ ws) @ xs)" "entries (pay (cells ht')) xs = es1"
      "entries (pay (cells ht')) (us @ ws) = entries (pay (cells h2)) (us @ ws)" "same_meta h2 ht'"
      "nNextFreeElement ht' = nNextFreeElement h2"
      "ht_destroyed ht' = ht_destroyed h2 @ (if pDestructor h2 then gone1 else [])"
      using Cons.IH [OF h2(1) sp] by blast
    have "entries (pay (cells ht')) us = entries (pay (cells h2)) us \<and>
        entries (pay (cells ht')) ws = entries (pay (cells h2)) ws"
      using r(4) by (simp add: entries_def)
    moreover have "es' = entries (pay (cells h2)) ws @ es1" "gone = (if ?remove then [d] else []) @ gone1" "st' = st2"
      using False spec sp Cons.prems(2) e2(2) by simp_all
    moreover have "pDestructor h2 = pDestructor ht" using h2(2) by (simp add: same_meta_def)
    ultimately show ?thesis
      using False step r h2 e2 same_meta_trans [OF h2(2) r(5)]
      by (intro exI [of _ ht'] exI [of _ "ws @ xs"]) simp
  qed
qed

lemma reverse_apply_loop_run:
  assumes "ht_ok ht (us @ vs)"
    and "apply_spec f (rev (entries (pay (cells ht)) us)) st = (es', gone, st')"
  shows "\<exists>ht' ws. reverse_apply_loop f (lst_or None us) ht st = Some (ht', st') \<and> ht_ok ht' (ws @ vs) \<and>
    rev (entries (pay (cells ht')) ws) = es' \<and> entries (pay (cells ht')) vs = entries (pay (cells ht)) vs \<and>
    same_meta ht ht' \<and> nNextFreeElement ht' = nNextFreeElement ht \<and>
    ht_destroyed ht' = ht_destroyed ht @ (if pDestructor ht then gone else [])"
  using assms
proof (induction us arbitrary: ht vs st es' gone st' rule: rev_induct)
  case Nil
  then show ?case by (intro exI [of _ ht] exI [of _ "[]"]) (simp add: reverse_apply_loop.simps [of _ None])
next
  case (snoc a us)
  let ?P = "pay (cells ht)"
  have ok: "ht_ok ht (us @ a # vs)" using snoc.prems(1) by simp
  obtain r d st1 where f: "f (pdata (the (?P a))) st = (r, d, st1)" by (cases "f (pdata (the (?P a))) st")
  let ?remove = "r AND ZEND_HASH_APPLY_REMOVE \<noteq> 0" and ?stop = "r AND ZEND_HASH_APPLY_STOP \<noteq> 0"
  obtain b h1 b1 h2 ws where
    s1: "cells ht a = Some b" "poke (pData_update (\<lambda>_. d)) (Some a) ht = Some h1"
    "cells h1 a = Some b1" "pListNext b1 = fst_or vs None" "pListLast b1 = lst_or None us"
    "zend_hash_apply_deleter h1 a = Some (fst_or vs None, removed a b1 h1)"
    "h2 = (if ?remove then removed a b1 h1 else h1)" and h2: "ht_ok h2 ((us @ ws) @ vs)" "same_meta ht h2"
    "nNextFreeElement h2 = nNextFreeElement ht"
    "ht_destroyed h2 = ht_destroyed ht @ (if pDestructor ht \<and> ?remove then [d] else [])"
    and e2: "entries (pay (cells h2)) us = entries ?P us" "entries (pay (cells h2)) vs = entries ?P vs"
    "entries (pay (cells h2)) ws = (if ?remove then [] else [(key_at ?P a, d)])"
    and pd: "pdata (the (?P a)) = pData b"
    by (rule apply_step [OF ok, of d ?remove])
  have rv: "rev (entries (pay (cells h2)) ws) = entries (pay (cells h2)) ws" using e2(3) by simp
  have step: "reverse_apply_loop f (Some a) ht st =
      (if ?stop then Some (h2, st1) else reverse_apply_loop f (lst_or None us) h2 st1)"
    using s1 f pd by (simp add: reverse_apply_loop.simps [of _ "Some a"])
  have spec: "apply_spec f (rev (entries ?P (us @ [a]))) st =
      (if ?stop then (entries (pay (cells h2)) ws @ rev (entries ?P us), if ?remove then [d] else [], st1)
       else (case apply_spec f (rev (entries ?P us)) st1 of (es', gone', st) \<Rightarrow>
         (entries (pay (cells h2)) ws @ es', (if ?remove then [d] else []) @ gone', st)))"
    using f e2(3) by (simp add: Let_def)
  show ?case
  proof (cases ?stop)
    case True
    then have "es' = rev (entries (pay (cells h2)) (us @ ws))" "gone = (if ?remove then [d] else [])" "st' = st1"
      using spec snoc.prems(2) e2(1) rv by simp_all
    then show ?thesis using True step h2 e2
      by (intro exI [of _ h2] exI [of _ "us @ ws"]) simp
  next
    case False
    have ok2: "ht_ok h2 (us @ (ws @ vs))" using h2(1) by simp
    obtain es1 gone1 st2 where sp: "apply_spec f (rev (entries (pay (cells h2)) us)) st1 = (es1, gone1, st2)"
      by (cases "apply_spec f (rev (entries (pay (cells h2)) us)) st1")
    obtain ht' xs where r: "reverse_apply_loop f (lst_or None us) h2 st1 = Some (ht', st2)"
      "ht_ok ht' (xs @ ws @ vs)" "rev (entries (pay (cells ht')) xs) = es1"
      "entries (pay (cells ht')) (ws @ vs) = entries (pay (cells h2)) (ws @ vs)" "same_meta h2 ht'"
      "nNextFreeElement ht' = nNextFreeElement h2"
      "ht_destroyed ht' = ht_destroyed h2 @ (if pDestructor h2 then gone1 else [])"
      using snoc.IH [OF ok2 sp] by blast
    have "entries (pay (cells ht')) ws = entries (pay (cells h2)) ws \<and>
        entries (pay (cells ht')) vs = entries (pay (cells h2)) vs"
      using r(4) by (simp add: entries_def)
    moreover have "es' = entries (pay (cells h2)) ws @ es1" "gone = (if ?remove then [d] else []) @ gone1" "st' = st2"
      using False spec sp snoc.prems(2) e2(1) by simp_all
    moreover have "pDestructor h2 = pDestructor ht" using h2(2) by (simp add: same_meta_def)
    ultimately show ?thesis
      using False step r h2 e2 rv same_meta_trans [OF h2(2) r(5)]
      by (intro exI [of _ ht'] exI [of _ "xs @ ws"]) simp
  qed
qed

subsection \<open>The guard\<close>

lemma ht_ok_count [simp]: "ht_ok (ht\<lparr>nApplyCount := c\<rparr>) L = ht_ok ht L"
  unfolding ht_ok_def by (simp add: table_ok_def arena_ok_def)

text \<open>Whether the guard lets a function in.\<close>

definition may_enter :: "'d hashtable \<Rightarrow> bool" where
  "may_enter ht \<longleftrightarrow> bApplyProtection ht \<longrightarrow> nApplyCount ht < 3"

text \<open>The table while a function is in.\<close>

definition entered :: "'d hashtable \<Rightarrow> 'd hashtable" where
  "entered ht = (if bApplyProtection ht then ht\<lparr>nApplyCount := nApplyCount ht + 1\<rparr> else ht)"

lemma protect_run: "HASH_PROTECT_RECURSION ht = (if may_enter ht then Inr (entered ht) else Inl Nesting_level_too_deep)"
  by (auto simp: HASH_PROTECT_RECURSION_def may_enter_def entered_def not_le not_less)

lemma entered_simps [simp]:
  "ht_ok (entered ht) L = ht_ok ht L" "cells (entered ht) = cells ht" "pListHead (entered ht) = pListHead ht"
  "pListTail (entered ht) = pListTail ht" "pDestructor (entered ht) = pDestructor ht"
  "ht_destroyed (entered ht) = ht_destroyed ht" "nNextFreeElement (entered ht) = nNextFreeElement ht"
  "nNumOfElements (entered ht) = nNumOfElements ht" "HASH_UNPROTECT_RECURSION (entered ht) = ht"
  by (simp_all add: entered_def HASH_UNPROTECT_RECURSION_def)

lemma unprotect_simps [simp]:
  "ht_ok (HASH_UNPROTECT_RECURSION ht) L = ht_ok ht L" "cells (HASH_UNPROTECT_RECURSION ht) = cells ht"
  "ht_destroyed (HASH_UNPROTECT_RECURSION ht) = ht_destroyed ht"
  "nNextFreeElement (HASH_UNPROTECT_RECURSION ht) = nNextFreeElement ht"
  by (simp_all add: HASH_UNPROTECT_RECURSION_def)

lemma same_meta_left: "same_meta (entered ht) ht' \<Longrightarrow> same_meta ht (HASH_UNPROTECT_RECURSION ht')"
  by (auto simp: same_meta_def entered_def HASH_UNPROTECT_RECURSION_def split: if_splits)

lemma apply_run:
  assumes "ht_rep ht es" and "may_enter ht" and "apply_spec f es st = (es', gone, st')"
  shows "\<exists>ht'. zend_hash_apply ht f st = Some (Inr (ht', st')) \<and> ht_rep ht' es' \<and> same_meta ht ht' \<and>
    nNextFreeElement ht' = nNextFreeElement ht \<and>
    ht_destroyed ht' = ht_destroyed ht @ (if pDestructor ht then gone else [])"
proof -
  obtain L where L: "ht_ok ht L" "es = entries (pay (cells ht)) L" using assms(1) by (auto simp: ht_rep_def)
  have "ht_ok (entered ht) ([] @ L)" using L(1) by simp
  from hash_apply_loop_run [OF this, of f st es' gone st'] assms(3) L(2)
  obtain ht' ws where r: "hash_apply_loop (\<lambda>_. f) (fst_or L None) (entered ht) st = Some (ht', st')"
    "ht_ok ht' ws" "entries (pay (cells ht')) ws = es'" "same_meta (entered ht) ht'"
    "nNextFreeElement ht' = nNextFreeElement ht" "ht_destroyed ht' = ht_destroyed ht @ (if pDestructor ht then gone else [])"
    by auto
  then show ?thesis using assms(2) ht_okD(14) [OF L(1)] same_meta_left [OF r(4)]
    by (auto simp: zend_hash_apply_def hash_apply_with_def protect_run ht_rep_def)
qed

lemma reverse_apply_run:
  assumes "ht_rep ht es" and "may_enter ht" and "apply_spec f (rev es) st = (es', gone, st')"
  shows "\<exists>ht'. zend_hash_reverse_apply ht f st = Some (Inr (ht', st')) \<and> ht_rep ht' (rev es') \<and> same_meta ht ht' \<and>
    nNextFreeElement ht' = nNextFreeElement ht \<and>
    ht_destroyed ht' = ht_destroyed ht @ (if pDestructor ht then gone else [])"
proof -
  obtain L where L: "ht_ok ht L" "es = entries (pay (cells ht)) L" using assms(1) by (auto simp: ht_rep_def)
  have "ht_ok (entered ht) (L @ [])" using L(1) by simp
  from reverse_apply_loop_run [OF this, of f st es' gone st'] assms(3) L(2)
  obtain ht' ws where r: "reverse_apply_loop f (lst_or None L) (entered ht) st = Some (ht', st')"
    "ht_ok ht' ws" "rev (entries (pay (cells ht')) ws) = es'" "same_meta (entered ht) ht'"
    "nNextFreeElement ht' = nNextFreeElement ht" "ht_destroyed ht' = ht_destroyed ht @ (if pDestructor ht then gone else [])"
    by auto
  then show ?thesis using assms(2) ht_okD(15) [OF L(1)] same_meta_left [OF r(4)]
    by (auto simp: zend_hash_reverse_apply_def protect_run ht_rep_def)
qed

end
