(* ===== verification/Zend_Hash_Copy_Correct.thy ===== *)
theory Zend_Hash_Copy_Correct
  imports Zend_Hash_Iter_Correct
begin

text \<open>
  Copying a table into another and merging two tables, against their entries: the source's entries
  are stored one after the other, each through the copy constructor.
\<close>

subsection \<open>The list of a table is determined by its links\<close>

lemma dseg_unique:
  "dseg nx pv p xs None \<Longrightarrow> dseg nx pv p' ys None \<Longrightarrow> fst_or xs None = fst_or ys None \<Longrightarrow> xs = ys"
proof (induction xs arbitrary: p p' ys)
  case Nil
  then show ?case by (cases ys) auto
next
  case (Cons x xs)
  then obtain zs where ys: "ys = x # zs" by (cases ys) auto
  have "fst_or xs None = fst_or zs None" using Cons.prems(1,2) ys by simp
  then show ?case using Cons.IH [of "Some x" "Some x" zs] Cons.prems(1,2) ys by simp
qed

lemma ht_ok_unique: "ht_ok ht L \<Longrightarrow> ht_ok ht L' \<Longrightarrow> L = L'"
  using ht_okD(2) [of ht L] ht_okD(2) [of ht L'] dseg_unique ht_okD(14) by (metis dll_def)

lemma ht_repD: "ht_rep ht es \<Longrightarrow> ht_ok ht L \<Longrightarrow> es = entries (pay (cells ht)) L"
  using ht_ok_unique by (auto simp: ht_rep_def)

lemma ht_ok_pos:
  assumes "ht_ok ht L" and "\<forall>a. p = Some a \<longrightarrow> a \<in> set L"
  shows "ht_ok (ht\<lparr>pInternalPointer := p\<rparr>) L"
proof -
  have "table_ok (ht\<lparr>pInternalPointer := p\<rparr>) = table_ok ht" "arena_ok (ht\<lparr>pInternalPointer := p\<rparr>) = arena_ok ht"
    by (simp_all add: table_ok_def arena_ok_def)
  then show ?thesis using assms unfolding ht_ok_def by (simp del: split_paired_All)
qed

lemma ht_rep_pos:
  assumes "ht_rep ht es"
  shows "ht_rep (ht\<lparr>pInternalPointer := None\<rparr>) es" and ht_rep_head: "ht_rep (ht\<lparr>pInternalPointer := pListHead ht\<rparr>) es"
proof -
  obtain L where L: "ht_ok ht L" "es = entries (pay (cells ht)) L" using assms by (auto simp: ht_rep_def)
  have "ht_ok (ht\<lparr>pInternalPointer := None\<rparr>) L" by (rule ht_ok_pos [OF L(1)]) simp
  then show "ht_rep (ht\<lparr>pInternalPointer := None\<rparr>) es" using L(2) by (auto simp: ht_rep_def)
  have "ht_ok (ht\<lparr>pInternalPointer := pListHead ht\<rparr>) L"
    by (rule ht_ok_pos [OF L(1)]) (use ht_okD(14) [OF L(1)] in \<open>auto dest: fst_or_in\<close>)
  then show "ht_rep (ht\<lparr>pInternalPointer := pListHead ht\<rparr>) es" using L(2) by (auto simp: ht_rep_def)
qed

subsection \<open>Storing one entry\<close>

definition ctor_of :: "('d \<Rightarrow> 'd) option \<Rightarrow> 'd \<Rightarrow> 'd" where
  "ctor_of c d = (case c of None \<Rightarrow> d | Some f \<Rightarrow> f d)"

text \<open>What the copy of one source entry does to the target's entries.\<close>

fun put_spec :: "('d \<Rightarrow> 'd) option \<Rightarrow> bool \<Rightarrow> hkey \<times> 'd \<Rightarrow> (hkey \<times> 'd) list \<Rightarrow> (hkey \<times> 'd) list" where
  "put_spec c only_new (K, d) es =
     (if only_new \<and> map_of es K \<noteq> None then es else AList.update K (ctor_of c d) es)"

lemma length_put_spec: "length (put_spec c new e es) \<le> length es + 1"
  using length_update_le by (cases e) (auto intro: le_SucI)

lemma ctor_run:
  assumes "ht_rep ht (AList.update K d es)" and "dest_of ht K p"
  shows "\<exists>ht'. call_ctor c p ht = Some ht' \<and> ht_rep ht' (AList.update K (ctor_of c d) es) \<and> same_meta ht ht' \<and>
    ht_destroyed ht' = ht_destroyed ht"
proof (cases c)
  case None
  then show ?thesis using assms by (simp add: call_ctor_def ctor_of_def)
next
  case (Some f)
  obtain L a where L: "ht_ok ht L" "addr_of (pay (cells ht)) L K = Some a" "p = Some a"
    using assms(2) by (auto simp: dest_of_def)
  note a = conjunct1 [OF addr_of_SomeD [OF L(2)]]
  obtain C' q where r: "pay (cells ht) a = Some q" "poke (pData_update f) (Some a) ht = Some (ht\<lparr>cells := C'\<rparr>)"
    "ht_ok (ht\<lparr>cells := C'\<rparr>) L" "pay C' = (pay (cells ht))(a \<mapsto> put_data (f (pdata q)) q)"
    using poke_data_run [OF L(1) a, of f] by blast
  have e: "AList.update K d es = entries (pay (cells ht)) L" using ht_repD [OF assms(1) L(1)] .
  have "map_of (entries (pay (cells ht)) L) K = Some d" by (simp add: e [symmetric] update_conv')
  then have d: "pdata q = d" using L(2) r(1) by (simp add: map_of_entries)
  have "entries (pay C') L = AList.update K (f d) (AList.update K d es)"
    using entries_put [OF ht_okD(13,10) [OF L(1)] L(2) r(1), of "f d"] r(4) d e by simp
  then have "ht_rep (ht\<lparr>cells := C'\<rparr>) (AList.update K (f d) es)"
    using r(3) by (auto simp: ht_rep_def update_last)
  then show ?thesis using r(2) L(3) Some by (simp add: call_ctor_def ctor_of_def same_meta_def)
qed

subsection \<open>Storing the entries of a table\<close>

text \<open>A bucket of the source, as the copying loops read it.\<close>

lemma source_bucket:
  assumes ok: "ht_ok src (us @ a # vs)" and b: "cells src a = Some b"
  shows "(nKeyLength b = 0 \<longrightarrow> key_at (pay (cells src)) a = Num (b_h b)) \<and>
    (nKeyLength b \<noteq> 0 \<longrightarrow> (\<exists>k. arKey b = Some k \<and> key_at (pay (cells src)) a = Str (kbytes k) \<and>
      b_h b = zend_inline_hash_func (kbytes (outside k)) \<and> kbytes (outside k) = kbytes k \<and>
      key_valid t (outside k) (nKeyLength b))) \<and>
    pListNext b = fst_or vs None \<and> pdata (the (pay (cells src) a)) = pData b"
proof -
  have p: "pay (cells src) a = Some (payload b)" using b by (simp add: pay_def)
  have po: "pay_ok a (payload b)" using ht_okD(9) [OF ok p] .
  note kb = pay_ok_bucket [OF po]
  have out: "kbytes (outside k) = kbytes k" "own_key (outside k) \<longleftrightarrow> kbytes k \<noteq> [] \<and> length (kbytes k) < 2 ^ 32" for k
    by (cases k; simp)+
  have "\<exists>k. arKey b = Some k \<and> key_at (pay (cells src)) a = Str (kbytes k) \<and>
      b_h b = zend_inline_hash_func (kbytes (outside k)) \<and> kbytes (outside k) = kbytes k \<and>
      key_valid t (outside k) (nKeyLength b)" if n: "nKeyLength b \<noteq> 0"
  proof -
    obtain k where k: "arKey b = Some k" using kb(1) n by blast
    note l = kb(2) [OF k]
    have u: "unat (nKeyLength b) < 2 ^ 32" using unsigned_less [of "nKeyLength b"] by simp
    have "kbytes k \<noteq> []" using l n by (auto simp: unat_eq_0)
    then have "own_key (outside k)" using out(2) l u by simp
    from own_key_valid [OF this, of t] have "key_valid t (outside k) (nKeyLength b)"
      using l by (simp add: klen_def out(1))
    then show ?thesis using k l n p out(1) by (simp add: pkey_bucket)
  qed
  moreover have "pdata (payload b) = pData b" by (simp add: payload_def)
  ultimately show ?thesis using ht_ok_neighbours(1) [OF ok b] p by (auto simp: pkey_bucket)
qed

lemma stored_ctor:
  assumes "stored t es K d new (r, p, t')"
  shows "\<exists>t''. (if r = SUCCESS then call_ctor c p t' else Some t') = Some t'' \<and>
    ht_rep t'' (put_spec c new (K, d) es) \<and> same_meta t t''"
proof (cases "new \<and> map_of es K \<noteq> None")
  case True
  then show ?thesis using assms by (auto simp: stored_def)
next
  case False
  then have s: "r = SUCCESS" "dest_of t' K p" "ht_rep t' (AList.update K d es)" "same_meta t t'"
    using assms by (auto simp: stored_def split: if_splits)
  then show ?thesis using ctor_run [OF s(3,2), of c] same_meta_trans [OF s(4)] False by auto
qed

lemma hash_copy_loop_run:
  assumes "ht_ok src (us @ vs)" and "ht_rep t es" and "length es + length vs < 2 ^ 32"
  shows "\<exists>t'. hash_copy_loop c sp src (fst_or vs None) t = Some t' \<and> same_meta t t' \<and>
    ht_rep t' (fold (put_spec c False) (entries (pay (cells src)) vs) es)"
  using assms
proof (induction vs arbitrary: us t es)
  case Nil
  then show ?case by (simp add: hash_copy_loop.simps [of c sp src None])
next
  case (Cons a vs)
  obtain b where b: "cells src a = Some b" using ht_ok_cell [OF Cons.prems(1), of a] by auto
  define t0 where "t0 = (if sp \<and> pInternalPointer src = Some a then t\<lparr>pInternalPointer := None\<rparr> else t)"
  have t0: "ht_rep t0 es" "same_meta t t0"
    using ht_rep_pos(1) [OF Cons.prems(2)] Cons.prems(2) by (simp_all add: t0_def same_meta_def)
  note sb = source_bucket [OF Cons.prems(1) b, of t0]
  have len: "length es + 1 < 2 ^ 32" using Cons.prems(3) by simp
  let ?K = "key_at (pay (cells src)) a"
  have "\<exists>r p t'. (if nKeyLength b \<noteq> 0 then do {
             k \<leftarrow> arKey b;
             zend_hash_quick_add_or_update t0 (outside k) (nKeyLength b) (b_h b) (pData b) HASH_UPDATE
           }
           else zend_hash_index_update_or_next_insert t0 (b_h b) (pData b) HASH_UPDATE) = Some (r, p, t') \<and>
      stored t0 es ?K (pData b) False (r, p, t')"
    using sb quick_add_or_update_run [OF t0(1) _ len, where d = "pData b" and flag = HASH_UPDATE]
      index_update_or_next_insert_run [OF t0(1) len, where flag = HASH_UPDATE and idx = "b_h b" and d = "pData b"]
    by (cases "nKeyLength b = 0") fastforce+
  then obtain r p t1 where st: "(if nKeyLength b \<noteq> 0 then do {
             k \<leftarrow> arKey b;
             zend_hash_quick_add_or_update t0 (outside k) (nKeyLength b) (b_h b) (pData b) HASH_UPDATE
           }
           else zend_hash_index_update_or_next_insert t0 (b_h b) (pData b) HASH_UPDATE) = Some (r, p, t1)"
      "stored t0 es ?K (pData b) False (r, p, t1)" by blast
  have "r = SUCCESS" using st(2) by (simp add: stored_def)
  then obtain t2 where t2: "call_ctor c p t1 = Some t2" "ht_rep t2 (put_spec c False (?K, pData b) es)" "same_meta t0 t2"
    using stored_ctor [OF st(2), of c] by auto
  have "ht_ok src ((us @ [a]) @ vs)" using Cons.prems(1) by simp
  moreover have "length (put_spec c False (?K, pData b) es) + length vs < 2 ^ 32"
    using Cons.prems(3) length_put_spec [of c False "(?K, pData b)" es] by simp
  ultimately obtain t' where t': "hash_copy_loop c sp src (fst_or vs None) t2 = Some t'" "same_meta t2 t'"
    "ht_rep t' (fold (put_spec c False) (entries (pay (cells src)) vs) (put_spec c False (?K, pData b) es))"
    using Cons.IH [OF _ t2(2)] by blast
  have "hash_copy_loop c sp src (Some a) t = Some t'"
    using b st(1) t2(1) t'(1) sb by (simp add: hash_copy_loop.simps [of c sp src "Some a"] t0_def [symmetric] Let_def)
  then show ?case
    using t'(2,3) sb same_meta_trans [OF same_meta_trans [OF t0(2) t2(3)]] by simp
qed

lemma copy_run:
  assumes "ht_rep src se" and "ht_rep t es" and "length es + length se < 2 ^ 32"
  shows "\<exists>t'. zend_hash_copy t src c = Some t' \<and> same_meta t t' \<and> ht_rep t' (fold (put_spec c False) se es)"
proof -
  obtain L where L: "ht_ok src L" "se = entries (pay (cells src)) L" using assms(1) by (auto simp: ht_rep_def)
  have ok: "ht_ok src ([] @ L)" using L(1) by simp
  have len: "length es + length L < 2 ^ 32" using assms(3) L(2) by (simp add: entries_def)
  obtain t1 where t1: "hash_copy_loop c (pInternalPointer t = None) src (fst_or L None) t = Some t1" "same_meta t t1"
    "ht_rep t1 (fold (put_spec c False) se es)"
    using hash_copy_loop_run [OF ok assms(2) len, of c "pInternalPointer t = None"] L(2) by blast
  have "same_meta t (t1\<lparr>pInternalPointer := x\<rparr>)" for x using t1(2) by (simp add: same_meta_def)
  then show ?thesis
    using t1 ht_rep_head [OF t1(3)] ht_okD(14) [OF L(1)] by (simp add: zend_hash_copy_def)
qed

lemma merge_loop_run:
  assumes "ht_ok src (us @ vs)" and "ht_rep t es" and "length es + length vs < 2 ^ 32"
    and mode: "mode = (if new then HASH_ADD else HASH_UPDATE)"
  shows "\<exists>t'. hash_merge_loop c mode src (fst_or vs None) t = Some t' \<and> same_meta t t' \<and>
    ht_rep t' (fold (put_spec c new) (entries (pay (cells src)) vs) es)"
  using assms(1-3)
proof (induction vs arbitrary: us t es)
  case Nil
  then show ?case by (simp add: hash_merge_loop.simps [of c mode src None])
next
  case (Cons a vs)
  obtain b where b: "cells src a = Some b" using ht_ok_cell [OF Cons.prems(1), of a] by auto
  note sb = source_bucket [OF Cons.prems(1) b, of t]
  have len: "length es + 1 < 2 ^ 32" using Cons.prems(3) by simp
  let ?K = "key_at (pay (cells src)) a"
  have flags: "has_flag mode HASH_ADD = new" "mode = HASH_UPDATE \<longleftrightarrow> \<not> new"
    unfolding mode by (simp_all add: HASH_UPDATE_def HASH_ADD_def has_flag_def)
  let ?step = "if nKeyLength b > 0 then do {
             k \<leftarrow> arKey b;
             (r, t', target) \<leftarrow> zend_hash_quick_add_or_update t (outside k) (nKeyLength b) (b_h b) (pData b) mode;
             if r = SUCCESS then call_ctor c t' target else Some target
           }
           else do {
             present \<leftarrow> zend_hash_index_exists t (b_h b);
             if mode = HASH_UPDATE \<or> \<not> present then do {
               (r, t', target) \<leftarrow> zend_hash_index_update_or_next_insert t (b_h b) (pData b) HASH_UPDATE;
               if r = SUCCESS then call_ctor c t' target else Some target
             } else Some t
           }"
  have "\<exists>t2. ?step = Some t2 \<and> ht_rep t2 (put_spec c new (?K, pData b) es) \<and> same_meta t t2"
  proof (cases "nKeyLength b = 0")
    case True
    then have K: "?K = Num (b_h b)" using sb by blast
    show ?thesis
    proof (cases "new \<and> map_of es ?K \<noteq> None")
      case True
      then show ?thesis using index_find_run(2) [OF Cons.prems(2), of "b_h b"] K flags \<open>nKeyLength b = 0\<close> Cons.prems(2)
        by simp
    next
      case False
      obtain r p t1 where st: "zend_hash_index_update_or_next_insert t (b_h b) (pData b) HASH_UPDATE = Some (r, p, t1)"
        "stored t es ?K (pData b) False (r, p, t1)"
        using index_update_or_next_insert_run [OF Cons.prems(2) len, where flag = HASH_UPDATE and idx = "b_h b" and d = "pData b"] K
        by auto
      moreover have "put_spec c new (?K, pData b) es = put_spec c False (?K, pData b) es" using False by auto
      ultimately show ?thesis
        using stored_ctor [OF st(2), of c] index_find_run(2) [OF Cons.prems(2), of "b_h b"] K flags \<open>nKeyLength b = 0\<close> False
        by auto
    qed
  next
    case False
    then obtain k where k: "arKey b = Some k" "?K = Str (kbytes k)" "b_h b = zend_inline_hash_func (kbytes (outside k))"
      "kbytes (outside k) = kbytes k" "key_valid t (outside k) (nKeyLength b)" using sb by blast
    obtain r p t1 where st: "zend_hash_quick_add_or_update t (outside k) (nKeyLength b) (b_h b) (pData b) mode = Some (r, p, t1)"
      "stored t es ?K (pData b) new (r, p, t1)"
      using quick_add_or_update_run [OF Cons.prems(2) k(5) len, where d = "pData b" and flag = mode] k(2-4) flags by auto
    then show ?thesis using stored_ctor [OF st(2), of c] k(1) False by (auto simp: word_gt_0)
  qed
  then obtain t2 where t2: "?step = Some t2" "ht_rep t2 (put_spec c new (?K, pData b) es)" "same_meta t t2" by blast
  have "ht_ok src ((us @ [a]) @ vs)" using Cons.prems(1) by simp
  moreover have "length (put_spec c new (?K, pData b) es) + length vs < 2 ^ 32"
    using Cons.prems(3) length_put_spec [of c new "(?K, pData b)" es] by simp
  ultimately obtain t' where t': "hash_merge_loop c mode src (fst_or vs None) t2 = Some t'" "same_meta t2 t'"
    "ht_rep t' (fold (put_spec c new) (entries (pay (cells src)) vs) (put_spec c new (?K, pData b) es))"
    using Cons.IH [OF _ t2(2)] by blast
  have "hash_merge_loop c mode src (Some a) t = do { t2 \<leftarrow> ?step; hash_merge_loop c mode src (pListNext b) t2 }"
    using b by (simp add: hash_merge_loop.simps [of c mode src "Some a"])
  also have "\<dots> = Some t'" unfolding t2(1) using t'(1) sb by simp
  finally show ?case using t'(2,3) sb same_meta_trans [OF t2(3)] by simp
qed

lemma merge_run:
  assumes "ht_rep src se" and "ht_rep t es" and "length es + length se < 2 ^ 32"
  shows "\<exists>t'. zend_hash_merge t src c overwrite = Some t' \<and> same_meta t t' \<and>
    ht_rep t' (fold (put_spec c (\<not> overwrite)) se es)"
proof -
  obtain L where L: "ht_ok src L" "se = entries (pay (cells src)) L" using assms(1) by (auto simp: ht_rep_def)
  have ok: "ht_ok src ([] @ L)" using L(1) by simp
  have len: "length es + length L < 2 ^ 32" using assms(3) L(2) by (simp add: entries_def)
  obtain t1 where t1: "hash_merge_loop c (if overwrite then HASH_UPDATE else HASH_ADD) src (fst_or L None) t = Some t1"
    "same_meta t t1" "ht_rep t1 (fold (put_spec c (\<not> overwrite)) se es)"
    using merge_loop_run [OF ok assms(2) len, of "if overwrite then HASH_UPDATE else HASH_ADD" "\<not> overwrite" c] L(2)
    by (cases overwrite) auto
  have "same_meta t (t1\<lparr>pInternalPointer := x\<rparr>)" for x using t1(2) by (simp add: same_meta_def)
  then show ?thesis
    using t1 ht_rep_head [OF t1(3)] ht_okD(14) [OF L(1)] by (simp add: zend_hash_merge_def)
qed

end
