(* ===== verification/Zend_Hash_Sort_Correct.thy ===== *)
theory Zend_Hash_Sort_Correct
  imports Zend_Hash_Copy_Correct Zend_Qsort_Correct
begin

text \<open>
  Sorting, traversing with the internal or an external position, saving and restoring a position,
  and the minimum, against the list of entries.
\<close>

subsection \<open>Sorting without renumbering\<close>

lemma sort_collect_run:
  assumes "ht_ok ht (us @ vs)"
  shows "sort_collect ht (fst_or vs None) = Some (map (\<lambda>a. (a, the (cells ht a))) vs)"
  using assms
proof (induction vs arbitrary: us)
  case Nil
  then show ?case by (simp add: sort_collect.simps [of ht None])
next
  case (Cons a vs)
  obtain b where b: "cells ht a = Some b" using ht_ok_cell [OF Cons.prems, of a] by auto
  then show ?case using Cons.IH [of "us @ [a]"] Cons.prems ht_ok_neighbours(1) [OF Cons.prems b]
    by (simp add: sort_collect.simps [of ht "Some a"])
qed

lemma relink_from_run:
  assumes "distinct as" and "set as \<subseteq> dom (cells ht)"
  shows "\<exists>C. relink_from prev as ht = Some (ht\<lparr>cells := C\<rparr>) \<and> dseg (gnx C) (gpv C) prev as None \<and>
    dom C = dom (cells ht) \<and> cnx C = cnx (cells ht) \<and> cpv C = cpv (cells ht) \<and> pay C = pay (cells ht) \<and>
    (\<forall>x. x \<notin> set as \<longrightarrow> C x = cells ht x)"
  using assms
proof (induction as arbitrary: prev ht)
  case Nil
  then show ?case by (intro exI [of _ "cells ht"]) simp
next
  case (Cons a as)
  obtain b where b: "cells ht a = Some b" using Cons.prems(2) by auto
  define b' where "b' = b\<lparr>pListLast := prev, pListNext := fst_or as None\<rparr>"
  define C1 where "C1 = (cells ht)(a \<mapsto> b')"
  have f1: "cnx C1 = cnx (cells ht)" "cpv C1 = cpv (cells ht)" "pay C1 = pay (cells ht)"
    "gnx C1 a = fst_or as None" "gpv C1 a = prev"
    using field_same [of "cells ht" a b] b by (simp_all add: C1_def b'_def field_upd payload_links)
  have d1: "dom C1 = dom (cells ht)" using b by (auto simp: C1_def)
  have "set as \<subseteq> dom (cells (ht\<lparr>cells := C1\<rparr>))" using Cons.prems(2) d1 by simp
  from Cons.IH [OF _ this, of "Some a"] Cons.prems(1) obtain C where
    C: "relink_from (Some a) as (ht\<lparr>cells := C1\<rparr>) = Some (ht\<lparr>cells := C\<rparr>)" "dseg (gnx C) (gpv C) (Some a) as None"
    "dom C = dom C1" "cnx C = cnx C1" "cpv C = cpv C1" "pay C = pay C1" "\<forall>x. x \<notin> set as \<longrightarrow> C x = C1 x"
    by auto
  have Ca: "C a = C1 a" using C(7) Cons.prems(1) by simp
  then have "gnx C a = fst_or as None" "gpv C a = prev" using f1(4,5) by (simp_all add: gnx_def gpv_def)
  moreover have "relink_from prev (a # as) ht = Some (ht\<lparr>cells := C\<rparr>)"
    using b C(1) by (cases as) (simp_all add: poke_def C1_def b'_def)
  moreover have "\<forall>x. x \<notin> set (a # as) \<longrightarrow> C x = cells ht x" using C(7) by (simp add: C1_def)
  ultimately show ?case using C f1 d1 by (intro exI [of _ C]) simp
qed

text \<open>The entry of a bucket, which the comparison functions look at.\<close>

definition entry_of :: "'d bucket \<Rightarrow> hkey \<times> 'd" where
  "entry_of b = (pkey (payload b), pData b)"

lemma entry_of_cell:
  "ht_ok ht L \<Longrightarrow> a \<in> set L \<Longrightarrow> entry_of (the (cells ht a)) = (key_at (pay (cells ht)) a, pdata (the (pay (cells ht) a)))"
  by (rule ht_ok_cell, assumption+) (simp add: entry_of_def pay_def payload_def)

lemma ht_ok_relinked:
  assumes ok: "ht_ok ht L" and as: "mset as = mset L"
    and C: "dseg (gnx C) (gpv C) None as None" "dom C = dom (cells ht)" "cnx C = cnx (cells ht)"
      "cpv C = cpv (cells ht)" "pay C = pay (cells ht)"
  shows "ht_ok (ht\<lparr>cells := C, pListHead := fst_or as None, pListTail := lst_or None as, pInternalPointer := fst_or as None\<rparr>) as"
    (is "ht_ok ?h as")
proof -
  note o = ht_okD [OF ok]
  have s: "set as = set L" "length as = length L" "distinct as"
    using as o(13) by (metis set_mset_mset, metis size_mset, metis mset_eq_imp_distinct_iff)
  have "table_ok ?h = table_ok ht" "arena_ok ?h = arena_ok ht" using C(2) by (simp_all add: table_ok_def arena_ok_def)
  moreover have "dll (gnx C) (gpv C) (fst_or as None) (lst_or None as) as" using C(1) s(3) by (simp add: dll_def)
  moreover have "\<forall>a. fst_or as None = Some a \<longrightarrow> a \<in> set L" using s(1) by (auto dest: fst_or_in)
  moreover have "nTableMask ht = 0 \<longrightarrow> as = []" using o(7) s(2) by auto
  ultimately show ?thesis
    using o(1-6,8-10,12) s(1,2) unfolding ht_ok_def by (simp add: C(2-5) del: split_paired_All)
qed

lemma sort_run:
  assumes rep: "ht_rep ht es" and few: "int (length es) \<le> INT_MAX"
    and perm: "\<And>xs. length xs = length es \<Longrightarrow> \<exists>ys. sort_func (\<lambda>x y. compar (snd x) (snd y)) xs = Some ys \<and> mset ys = mset xs \<and> R ys"
  shows "\<exists>ht' ys. zend_hash_sort sort_func compar False ht = Some (SUCCESS, ht') \<and> ht_rep ht' (map (entry_of \<circ> snd) ys) \<and>
    mset (map (entry_of \<circ> snd) ys) = mset es \<and> (length es > 1 \<longrightarrow> R ys) \<and> same_meta ht ht' \<and> ht_destroyed ht' = ht_destroyed ht \<and>
    nNextFreeElement ht' = nNextFreeElement ht"
proof -
  obtain L where L: "ht_ok ht L" "es = entries (pay (cells ht)) L" using rep by (auto simp: ht_rep_def)
  note o = ht_okD [OF L(1)]
  let ?el = "\<lambda>a. (a, the (cells ht a))"
  have len: "length es = length L" using L(2) by (simp add: entries_def)
  have es: "map (entry_of \<circ> snd \<circ> ?el) as = entries (pay (cells ht)) as" if "set as = set L" for as
    using that entry_of_cell [OF L(1)] by (simp add: entries_def)
  have num: "nNumOfElements ht > 1 \<longleftrightarrow> length L > 1"
    using o(4,5) by (simp add: word_less_nat_alt unat_of_nat)
  show ?thesis
  proof (cases "length L > 1")
    case False
    have "map (entry_of \<circ> snd) (map ?el L) = es" using es [of L] L(2) by (simp add: comp_def)
    then show ?thesis using False rep num len
      by (intro exI [of _ ht] exI [of _ "map ?el L"]) (simp add: zend_hash_sort_def del: map_map)
  next
    case True
    have ok: "ht_ok ht ([] @ L)" using L(1) by simp
    have col: "sort_collect ht (pListHead ht) = Some (map ?el L)" using sort_collect_run [OF ok] o(14) by simp
    have "length (map ?el L) = length es" using len by simp
    from perm [OF this] obtain ys where ys: "sort_func (\<lambda>x y. compar (snd x) (snd y)) (map ?el L) = Some ys"
      "mset ys = mset (map ?el L)" "R ys" by blast
    define as where "as = map fst ys"
    have as: "mset as = mset L" using arg_cong [OF ys(2), of "image_mset fst"] by (simp add: as_def comp_def flip: mset_map)
    have "y = ?el (fst y)" if "y \<in> set ys" for y
    proof -
      have "y \<in> set (map ?el L)" using that ys(2) by (metis set_mset_mset)
      then show ?thesis by auto
    qed
    then have yas: "ys = map ?el as" by (simp add: as_def map_idI)
    have s: "set as = set L" "distinct as" using as o(13) by (metis set_mset_mset, metis mset_eq_imp_distinct_iff)
    obtain a as' where aas: "as = a # as'" using True as by (cases as) auto
    define k where "k = ht\<lparr>pListHead := Some a, pListTail := None, pInternalPointer := Some a\<rparr>"
    have "set as \<subseteq> dom (cells k)" using s(1) o(3) by (simp add: k_def)
    from relink_from_run [OF s(2) this, of None] obtain C where
      C: "relink_from None as k = Some (k\<lparr>cells := C\<rparr>)" "dseg (gnx C) (gpv C) None as None"
      "dom C = dom (cells ht)" "cnx C = cnx (cells ht)" "cpv C = cpv (cells ht)" "pay C = pay (cells ht)"
      by (auto simp: k_def)
    define h where "h = ht\<lparr>cells := C, pListHead := fst_or as None, pListTail := lst_or None as, pInternalPointer := fst_or as None\<rparr>"
    have h: "ht_ok h as" unfolding h_def by (rule ht_ok_relinked [OF L(1) as C(2-6)])
    have lst: "lst_or None as = Some (last as)" using aas by (simp add: lst_or_def)
    have "map (entry_of \<circ> snd) ys = entries (pay (cells h)) as"
      using es [OF s(1)] by (simp add: yas h_def C(6) comp_def)
    moreover have "mset (entries (pay (cells ht)) as) = mset es"
      using as L(2) by (simp add: entries_def)
    moreover have "zend_hash_sort sort_func compar False ht = Some (SUCCESS, h)"
      using num True col few len ys(1) C(1) aas lst
      by (simp add: zend_hash_sort_def as_def [symmetric] k_def [symmetric])
         (simp add: h_def k_def)
    moreover have "same_meta ht h" "ht_destroyed h = ht_destroyed ht" "nNextFreeElement h = nNextFreeElement ht" "pay (cells h) = pay (cells ht)"
      by (simp_all add: h_def same_meta_def C(6))
    ultimately show ?thesis using h ys(3)
      by (intro exI [of _ h] exI [of _ ys]) (auto simp: ht_rep_def)
  qed
qed

text \<open>With \<open>zend_qsort\<close> and a comparison of the entries, as \<open>ext/standard/array.c\<close> calls it.\<close>

definition by_entry :: "(hkey \<times> 'd \<Rightarrow> hkey \<times> 'd \<Rightarrow> int) \<Rightarrow> 'd bucket \<Rightarrow> 'd bucket \<Rightarrow> int" where
  "by_entry cmp b c = cmp (entry_of b) (entry_of c)"

definition qsort_ptrs :: "('x \<Rightarrow> 'x \<Rightarrow> int) \<Rightarrow> 'x list \<Rightarrow> 'x list option" where
  "qsort_ptrs compare xs = zend_qsort compare 8 xs"

lemma qsort_sort_run:
  assumes "ht_rep ht es" and "int (length es) \<le> INT_MAX"
  shows "\<exists>ht' es'. zend_hash_sort qsort_ptrs (by_entry cmp) False ht = Some (SUCCESS, ht') \<and> ht_rep ht' es' \<and>
    mset es' = mset es \<and> (compare_order cmp (set es) \<longrightarrow> sorted_wrt (\<lambda>x y. cmp x y \<le> 0) es') \<and>
    same_meta ht ht' \<and> ht_destroyed ht' = ht_destroyed ht"
proof -
  let ?e = "\<lambda>x :: nat \<times> 'a bucket. entry_of (snd x)"
  let ?R = "\<lambda>ys :: (nat \<times> 'a bucket) list. compare_order cmp (set (map ?e ys)) \<longrightarrow> sorted_wrt (\<lambda>x y. cmp (?e x) (?e y) \<le> 0) ys"
  have "\<exists>ys. qsort_ptrs (\<lambda>x y. by_entry cmp (snd x) (snd y)) xs = Some ys \<and> mset ys = mset xs \<and> ?R ys"
    if "length xs = length es" for xs :: "(nat \<times> 'a bucket) list"
  proof -
    let ?c = "\<lambda>x y :: nat \<times> 'a bucket. cmp (?e x) (?e y)"
    have "length xs < 2 ^ 64" using assms(2) that by (simp add: INT_MAX_def)
    then obtain ys where ys: "zend_qsort ?c 8 xs = Some ys" "mset ys = mset xs"
      using zend_qsort_total [of 8 xs ?c] by auto
    have st: "set ys = set xs" using ys(2) by (metis set_mset_mset)
    have "?R ys"
    proof
      assume o: "compare_order cmp (set (map ?e ys))"
      have mem: "?e x \<in> set (map ?e ys)" if "x \<in> set xs" for x using that st by simp
      have "compare_order ?c (set xs)"
        unfolding compare_order_def using compare_order.total [OF o, OF mem mem] compare_order.trans [OF o, OF mem mem mem]
        by blast
      from compare_order.qsort_sorted [OF this _ subset_refl ys(1)]
      show "sorted_wrt (\<lambda>x y. cmp (?e x) (?e y) \<le> 0) ys" by simp
    qed
    then show ?thesis using ys by (simp add: qsort_ptrs_def by_entry_def)
  qed
  from sort_run [where sort_func = qsort_ptrs and compar = "by_entry cmp" and R = ?R, OF assms this] obtain ht' ys where
    r: "zend_hash_sort qsort_ptrs (by_entry cmp) False ht = Some (SUCCESS, ht')" "ht_rep ht' (map (entry_of \<circ> snd) ys)"
    "mset (map (entry_of \<circ> snd) ys) = mset es" "length es > 1 \<longrightarrow> ?R ys" "same_meta ht ht'" "ht_destroyed ht' = ht_destroyed ht"
    by blast
  have st: "set (map ?e ys) = set es" using arg_cong [OF r(3), of set_mset] by (simp add: comp_def)
  have len: "length ys = length es" using arg_cong [OF r(3), of size] by simp
  have "sorted_wrt (\<lambda>x y. cmp x y \<le> 0) (map (entry_of \<circ> snd) ys)" if "compare_order cmp (set es)"
  proof (cases "length es > 1")
    case True
    then show ?thesis using r(4) that unfolding st by (simp add: sorted_wrt_map)
  next
    case False
    then have "length ys \<le> 1" using len by simp
    then show ?thesis by (cases ys) auto
  qed
  then show ?thesis using r by blast
qed

subsection \<open>Traversal\<close>

text \<open>
  A \<open>foreach\<close>: from a position of the caller, key and datum of the current element, then
  \<open>zend_hash_move_forward_ex\<close>.
\<close>

fun key_of_current :: "current_key \<Rightarrow> hkey option" where
  "key_of_current (HASH_KEY_IS_STRING s n) = Some (Str s)"
| "key_of_current (HASH_KEY_IS_LONG h) = Some (Num h)"
| "key_of_current HASH_KEY_NON_EXISTANT = None"

partial_function (option) hash_foreach :: "'d hashtable \<Rightarrow> ptr option \<Rightarrow> (hkey \<times> 'd) list option" where
  "hash_foreach ht pos = do {
     k \<leftarrow> zend_hash_get_current_key_ex ht False pos;
     d \<leftarrow> zend_hash_get_current_data_ex ht pos;
     (r, ht', pos') \<leftarrow> zend_hash_move_forward_ex ht pos;
     (case (key_of_current k, d) of
        (Some k, Some d) \<Rightarrow> do { es \<leftarrow> hash_foreach ht' pos'; Some ((k, d) # es) }
      | _ \<Rightarrow> Some [])
   }"

lemma current_run:
  assumes "ht_ok ht (us @ a # vs)" and "ht_pos ht pos = Some a"
  shows "\<exists>k. zend_hash_get_current_key_ex ht False pos = Some k \<and> key_of_current k = Some (key_at (pay (cells ht)) a)"
    "zend_hash_get_current_data_ex ht pos = Some (Some (pdata (the (pay (cells ht) a))))"
    "zend_hash_move_forward_ex ht pos = Some (SUCCESS, ht_set_pos ht pos (fst_or vs None))"
    "zend_hash_move_backwards_ex ht pos = Some (SUCCESS, ht_set_pos ht pos (lst_or None us))"
proof -
  obtain b where b: "cells ht a = Some b" using ht_ok_cell [OF assms(1), of a] by auto
  have p: "pay (cells ht) a = Some (payload b)" using b by (simp add: pay_def)
  note kb = pay_ok_bucket [OF ht_okD(9) [OF assms(1) p]]
  show "\<exists>k. zend_hash_get_current_key_ex ht False pos = Some k \<and> key_of_current k = Some (key_at (pay (cells ht)) a)"
  proof (cases "arKey b")
    case None
    then show ?thesis using kb(1) assms(2) b p by (simp add: zend_hash_get_current_key_ex_def pkey_bucket)
  next
    case (Some k)
    then show ?thesis using kb(1) assms(2) b p by (simp add: zend_hash_get_current_key_ex_def pkey_bucket)
  qed
  show "zend_hash_get_current_data_ex ht pos = Some (Some (pdata (the (pay (cells ht) a))))"
    using assms(2) b p by (simp add: zend_hash_get_current_data_ex_def data_at_def payload_def)
  show "zend_hash_move_forward_ex ht pos = Some (SUCCESS, ht_set_pos ht pos (fst_or vs None))"
    "zend_hash_move_backwards_ex ht pos = Some (SUCCESS, ht_set_pos ht pos (lst_or None us))"
    using assms(2) b ht_ok_neighbours(1,2) [OF assms(1) b]
    by (simp_all add: zend_hash_move_forward_ex_def zend_hash_move_backwards_ex_def)
qed

lemma foreach_from_run:
  assumes "ht_ok ht (us @ vs)"
  shows "hash_foreach ht (Some (fst_or vs None)) = Some (entries (pay (cells ht)) vs)"
  using assms
proof (induction vs arbitrary: us)
  case Nil
  then show ?case
    by (simp add: hash_foreach.simps [of ht "Some None"] zend_hash_get_current_key_ex_def ht_pos_def
        zend_hash_get_current_data_ex_def data_at_def zend_hash_move_forward_ex_def)
next
  case (Cons a vs)
  have "ht_pos ht (Some (Some a)) = Some a" by (simp add: ht_pos_def)
  note c = current_run [OF Cons.prems this]
  have "hash_foreach ht (Some (fst_or vs None)) = Some (entries (pay (cells ht)) vs)"
    using Cons.IH [of "us @ [a]"] Cons.prems by simp
  then show ?case using c(1) by (auto simp: hash_foreach.simps [of ht "Some (Some a)"] c(2,3) ht_set_pos_def)
qed

subsection \<open>Saving and restoring the internal pointer\<close>

lemma chain_has_run:
  assumes "dseg (cnx (cells ht)) pv q c None" and "set c \<subseteq> dom (cells ht)"
  shows "chain_has pos (fst_or c None) ht = Some (\<exists>a \<in> set c. pos = Some a)"
  using assms
proof (induction c arbitrary: q)
  case Nil
  then show ?case by (simp add: chain_has.simps [of pos None])
next
  case (Cons a c)
  then obtain b where b: "cells ht a = Some b" "pNext b = fst_or c None" by (auto simp: cnx_def)
  have "chain_has pos (fst_or c None) ht = Some (\<exists>a \<in> set c. pos = Some a)"
    using Cons by (intro Cons.IH [of "Some a"]) auto
  then show ?case using b by (auto simp: chain_has.simps [of pos "Some a"])
qed

text \<open>Restoring succeeds exactly for \<open>NULL\<close>, the current position, or a live bucket in the slot of the saved hash.\<close>

lemma set_pointer_run:
  fixes ptr :: HashPointer
  assumes ok: "ht_ok ht L"
  defines "found \<equiv> hp_pos ptr = None \<or> hp_pos ptr = pInternalPointer ht \<or>
    (\<exists>a \<in> set L. hp_pos ptr = Some a \<and> slot_of (nTableMask ht) (pay (cells ht)) a = nIndex ht (hp_h ptr))"
  shows "zend_hash_set_pointer ht ptr = Some (if found then (1, ht\<lparr>pInternalPointer := hp_pos ptr\<rparr>) else (0, ht))"
proof -
  note o = ht_okD [OF ok]
  let ?i = "nIndex ht (hp_h ptr)"
  have i: "?i < length (arBuckets ht)" using nIndex_less [OF o(6)] .
  obtain c where c: "dll (cnx (cells ht)) (cpv (cells ht)) (arBuckets ht ! ?i) (lst_or None c) c"
    "set c = {a \<in> set L. slot_of (nTableMask ht) (pay (cells ht)) a = ?i}"
    using chains_okD [OF o(8) i] .
  have "set c \<subseteq> dom (cells ht)" unfolding c(2) o(3) by blast
  then have "chain_has (hp_pos ptr) (arBuckets ht ! ?i) ht = Some (\<exists>a \<in> set c. hp_pos ptr = Some a)"
    using chain_has_run [of ht "cpv (cells ht)" None c "hp_pos ptr"] c(1) by (simp add: dll_def)
  moreover have "(\<exists>a \<in> set c. hp_pos ptr = Some a) \<longleftrightarrow>
      (\<exists>a \<in> set L. hp_pos ptr = Some a \<and> slot_of (nTableMask ht) (pay (cells ht)) a = ?i)"
    unfolding c(2) by blast
  moreover have "get_slot ht ?i = Some (arBuckets ht ! ?i)" using i by (simp add: get_slot_def)
  moreover have "ht = ht\<lparr>pInternalPointer := hp_pos ptr\<rparr>" if "pInternalPointer ht = hp_pos ptr"
    using that by (cases ht) simp
  ultimately show ?thesis by (auto simp: zend_hash_set_pointer_def found_def)
qed

lemma set_pointer_rep:
  assumes "ht_rep ht es"
  shows "\<exists>r ht'. zend_hash_set_pointer ht ptr = Some (r, ht') \<and> ht_rep ht' es \<and> (r = 0 \<longrightarrow> ht' = ht) \<and>
    (r \<noteq> 0 \<longrightarrow> pInternalPointer ht' = hp_pos ptr)"
proof -
  obtain L where L: "ht_ok ht L" "es = entries (pay (cells ht)) L" using assms by (auto simp: ht_rep_def)
  have "ht_rep (ht\<lparr>pInternalPointer := p\<rparr>) es" if "\<forall>a. p = Some a \<longrightarrow> a \<in> set L" for p
    using ht_ok_pos [OF L(1) that] L(2) by (auto simp: ht_rep_def)
  then show ?thesis using set_pointer_run [OF L(1), of ptr] ht_okD(11) [OF L(1)] assms by auto
qed

lemma get_pointer_rep:
  assumes "ht_rep ht es"
  shows "\<exists>r hp. zend_hash_get_pointer ht = Some (r, hp) \<and> hp_pos hp = pInternalPointer ht \<and>
    (r = 0 \<longleftrightarrow> pInternalPointer ht = None) \<and>
    (\<forall>q. ht_rep (ht\<lparr>pInternalPointer := q\<rparr>) es \<longrightarrow> zend_hash_set_pointer (ht\<lparr>pInternalPointer := q\<rparr>) hp = Some (1, ht))"
proof -
  obtain L where L: "ht_ok ht L" using assms by (auto simp: ht_rep_def)
  show ?thesis
  proof (cases "pInternalPointer ht")
    case None
    then show ?thesis by (cases ht) (simp add: zend_hash_get_pointer_def zend_hash_set_pointer_def)
  next
    case (Some a)
    then have aL: "a \<in> set L" using ht_okD(11) [OF L] by simp
    then obtain b where b: "cells ht a = Some b" using ht_ok_cell [OF L] by blast
    let ?hp = "\<lparr>hp_pos = Some a, hp_h = b_h b\<rparr>"
    have sl: "slot_of (nTableMask ht) (pay (cells ht)) a = nIndex ht (b_h b)"
      using b by (simp add: slot_of_def pay_def payload_def nIndex_def)
    have same: "ht\<lparr>pInternalPointer := Some a\<rparr> = ht" using Some by (cases ht) simp
    have "zend_hash_set_pointer (ht\<lparr>pInternalPointer := q\<rparr>) ?hp = Some (1, ht)" if rep: "ht_rep (ht\<lparr>pInternalPointer := q\<rparr>) es" for q
    proof -
      define h where "h = ht\<lparr>pInternalPointer := q\<rparr>"
      obtain L' where L': "ht_ok h L'" using rep by (auto simp: ht_rep_def h_def)
      have "cells h = cells ht" "nTableMask h = nTableMask ht" "\<And>x. nIndex h x = nIndex ht x" by (simp_all add: h_def nIndex_def)
      moreover from this have "a \<in> set L'" using ht_okD(3) [OF L] ht_okD(3) [OF L'] aL by simp
      ultimately have "zend_hash_set_pointer h ?hp = Some (1, h\<lparr>pInternalPointer := Some a\<rparr>)"
        using set_pointer_run [OF L', of ?hp] sl by auto
      then show ?thesis using same by (simp add: h_def)
    qed
    then show ?thesis using Some b by (simp add: zend_hash_get_pointer_def)
  qed
qed

subsection \<open>Minimum and maximum\<close>

text \<open>A comparison whose sign is that of an order: the C functions that compare by three results.\<close>

locale sign_order = compare_order +
  assumes sign: "a \<in> A \<Longrightarrow> b \<in> A \<Longrightarrow> compare a b \<ge> 0 \<longleftrightarrow> compare b a \<le> 0"
begin

text \<open>Keeping the better of a running result and the next element.\<close>

definition better :: "bool \<Rightarrow> 'a \<Rightarrow> 'a \<Rightarrow> 'a" where
  "better flag x y = (if flag then (if compare x y < 0 then y else x) else (if compare x y > 0 then y else x))"

definition dominates :: "bool \<Rightarrow> 'a \<Rightarrow> 'a \<Rightarrow> bool" where
  "dominates flag x y \<longleftrightarrow> (if flag then compare y x \<le> 0 else compare x y \<le> 0)"

lemma better_dominates:
  assumes "x \<in> A" and "y \<in> A"
  shows "better flag x y \<in> {x, y}" "dominates flag (better flag x y) x" "dominates flag (better flag x y) y"
  using assms refl sign [OF assms] sign [OF assms(2,1)] by (auto simp: better_def dominates_def)

lemma dominates_trans:
  "x \<in> A \<Longrightarrow> y \<in> A \<Longrightarrow> z \<in> A \<Longrightarrow> dominates flag x y \<Longrightarrow> dominates flag y z \<Longrightarrow> dominates flag x z"
  using trans [of z y x] trans [of x y z] by (simp add: dominates_def split: if_splits)

lemma fold_better:
  assumes "set (x # xs) \<subseteq> A"
  shows "fold (\<lambda>y r. better flag r y) xs x \<in> set (x # xs) \<and>
    (\<forall>y \<in> set (x # xs). dominates flag (fold (\<lambda>y r. better flag r y) xs x) y)"
  using assms
proof (induction xs arbitrary: x)
  case Nil
  then show ?case using refl by (simp add: dominates_def)
next
  case (Cons z xs)
  define r where "r = fold (\<lambda>y r. better flag r y) xs (better flag x z)"
  have zA: "x \<in> A" "z \<in> A" using Cons.prems by simp_all
  note bd = better_dominates [OF zA, of flag]
  have bA: "better flag x z \<in> A" using bd(1) zA by auto
  have IH: "r \<in> set (better flag x z # xs)" "\<forall>y \<in> set (better flag x z # xs). dominates flag r y"
    using Cons.IH [of "better flag x z"] Cons.prems bA by (simp_all add: r_def)
  have "r \<in> A" using IH(1) bA Cons.prems by auto
  then have "dominates flag r x" "dominates flag r z"
    using dominates_trans [of r "better flag x z" x] dominates_trans [of r "better flag x z" z] bA IH(2) bd(2,3) zA by simp_all
  then have "\<forall>y \<in> set (x # z # xs). dominates flag r y" using IH(2) by simp
  moreover have "r \<in> set (x # z # xs)" using IH(1) bd(1) by auto
  ultimately show ?case by (simp only: r_def fold_simps)
qed

end

text \<open>An order on values gives one on whatever carries the values.\<close>

lemma sign_order_pullback:
  assumes "sign_order c A" and "\<And>x. x \<in> B \<Longrightarrow> f x \<in> A" and "\<And>x y. x \<in> B \<Longrightarrow> y \<in> B \<Longrightarrow> c' x y = c (f x) (f y)"
  shows "sign_order c' B"
proof -
  have co: "compare_order c A" using assms(1) sign_order.axioms(1) by blast
  have f: "x \<in> B \<Longrightarrow> f x \<in> A" for x using assms(2) .
  show ?thesis
  proof (intro sign_order.intro compare_order.intro sign_order_axioms.intro)
    fix x y z assume x: "x \<in> B" and y: "y \<in> B"
    show "0 < c' x y \<Longrightarrow> c' y x \<le> 0" using compare_order.total [OF co f f, of x y] x y by (simp add: assms(3))
    show "(0 \<le> c' x y) = (c' y x \<le> 0)" using sign_order.sign [OF assms(1) f f, of x y] x y by (simp add: assms(3))
    assume z: "z \<in> B"
    show "c' x y \<le> 0 \<Longrightarrow> c' y z \<le> 0 \<Longrightarrow> c' x z \<le> 0"
      using compare_order.trans [OF co f f f, of x y z] x y z by (simp add: assms(3))
  qed
qed

lemma minmax_loop_run:
  assumes "ht_ok ht (us @ vs)"
  shows "minmax_loop compar flag ht res (fst_or vs None) =
    Some (fold (\<lambda>b r. if flag then (if compar r b < 0 then b else r) else (if compar r b > 0 then b else r))
      (map (\<lambda>a. the (cells ht a)) vs) res)"
  using assms
proof (induction vs arbitrary: us res)
  case Nil
  then show ?case by (simp add: minmax_loop.simps [of compar flag ht res None])
next
  case (Cons a vs)
  obtain b where b: "cells ht a = Some b" using ht_ok_cell [OF Cons.prems, of a] by auto
  then show ?case using Cons.IH [of "us @ [a]"] Cons.prems ht_ok_neighbours(1) [OF Cons.prems b]
    by (simp add: minmax_loop.simps [of compar flag ht res "Some a"] Let_def)
qed

lemma minmax_run:
  assumes "ht_rep ht es" and "es \<noteq> []" and "sign_order cmp (set es)"
  shows "\<exists>K d. zend_hash_minmax ht (by_entry cmp) flag = Some (SUCCESS, Some d) \<and> (K, d) \<in> set es \<and>
    (\<forall>e \<in> set es. if flag then cmp e (K, d) \<le> 0 else cmp (K, d) e \<le> 0)"
proof -
  obtain L where L: "ht_ok ht L" "es = entries (pay (cells ht)) L" using assms(1) by (auto simp: ht_rep_def)
  obtain a vs where av: "L = a # vs" using L(2) assms(2) by (cases L) auto
  have ok: "ht_ok ht ([] @ a # vs)" using L(1) av by simp
  let ?C = "\<lambda>a. the (cells ht a)"
  have ee: "map (entry_of \<circ> ?C) L = es" using entry_of_cell [OF L(1)] L(2) by (simp add: entries_def)
  have so: "sign_order (by_entry cmp) (set (map ?C L))"
  proof (rule sign_order_pullback [OF assms(3), where f = entry_of])
    fix b assume "b \<in> set (map ?C L)"
    then show "entry_of b \<in> set es" using ee by force
  qed (simp add: by_entry_def)
  define r where "r = fold (\<lambda>b r. sign_order.better (by_entry cmp) flag r b) (map ?C vs) (?C a)"
  have r: "r \<in> set (map ?C L)" "\<forall>y \<in> set (map ?C L). sign_order.dominates (by_entry cmp) flag r y"
    using sign_order.fold_better [OF so, of "?C a" "map ?C vs" flag] av by (simp_all add: r_def)
  obtain b where b: "cells ht a = Some b" using ht_ok_cell [OF ok, of a] by auto
  have ok1: "ht_ok ht ([a] @ vs)" using ok by simp
  have "minmax_loop (by_entry cmp) flag ht b (fst_or vs None) = Some r"
    using minmax_loop_run [OF ok1, of "by_entry cmp" flag b] b by (simp add: r_def sign_order.better_def [OF so])
  moreover have "unat (nNumOfElements ht) = length L" using ht_okD(4,5) [OF L(1)] by (simp add: unat_of_nat)
  then have "nNumOfElements ht \<noteq> 0" using av by auto
  ultimately have "zend_hash_minmax ht (by_entry cmp) flag = Some (SUCCESS, Some (pData r))"
    using b ht_okD(14) [OF L(1)] ht_ok_neighbours(1) [OF ok b] av by (simp add: zend_hash_minmax_def)
  moreover have "entry_of r \<in> set es" using r(1) ee by force
  moreover have "\<forall>e \<in> set es. if flag then cmp e (entry_of r) \<le> 0 else cmp (entry_of r) e \<le> 0"
  proof
    fix e assume "e \<in> set es"
    then obtain x where "x \<in> set L" "e = entry_of (?C x)" using ee by force
    then show "if flag then cmp e (entry_of r) \<le> 0 else cmp (entry_of r) e \<le> 0"
      using r(2) by (auto simp: sign_order.dominates_def [OF so] by_entry_def)
  qed
  ultimately show ?thesis unfolding entry_of_def by blast
qed

end
