(* ===== verification/Zend_Hash_Props.thy ===== *)
theory Zend_Hash_Props
  imports Zend_Hash_Sort_Correct
begin

text \<open>The properties of iterating over, copying, merging and sorting hash tables.\<close>

lemma hash_values: "zend_inline_hash_func [99, 0] = 5863176" "zend_inline_hash_func [97, 0] = 5863110"
  "zend_inline_hash_func [98, 0] = 5863143"
  by code_simp+

lemma put_meta:
  assumes "ht_rep ht es" and "table_room (length es)"
  shows "index_put h d ht = Some t \<Longrightarrow> map_of es (Num h) = None \<Longrightarrow> same_meta ht t \<and> ht_destroyed t = ht_destroyed ht"
    and "hash_put k d ht = Some t \<Longrightarrow> own_key k \<Longrightarrow> map_of es (Str (kbytes k)) = None \<Longrightarrow>
      same_meta ht t \<and> ht_destroyed t = ht_destroyed ht"
proof -
  have len: "length es + 1 < 2 ^ 32" using assms(2) by (simp add: table_room_def)
  show "index_put h d ht = Some t \<Longrightarrow> map_of es (Num h) = None \<Longrightarrow> same_meta ht t \<and> ht_destroyed t = ht_destroyed ht"
    using index_update_or_next_insert_run [OF assms(1) len, where flag = HASH_UPDATE and idx = h and d = d]
    by (auto simp: index_put_def the_table_def stored_def)
  show "hash_put k d ht = Some t \<Longrightarrow> own_key k \<Longrightarrow> map_of es (Str (kbytes k)) = None \<Longrightarrow>
      same_meta ht t \<and> ht_destroyed t = ht_destroyed ht"
    using quick_add_or_update_run [OF assms(1) own_key_valid len, of k d HASH_UPDATE] hash_put_is_quick [of k d ht]
    by (auto simp: quick_put_def the_table_def stored_def)
qed

lemma sample_table_meta: "nApplyCount sample_table = 0" "pDestructor sample_table" "ht_destroyed sample_table = []"
proof -
  have room: "table_room 0" "table_room (Suc 0)" "table_room (Suc (Suc 0))" by (simp_all add: table_room_def)
  obtain t1 where t1: "index_put 7 10 empty_table = Some t1" "ht_rep t1 [(Num 7, 10 :: int)]"
    using zi.rep_put [OF empty_table_rep, of 7 10] room by auto
  obtain t2 where t2: "hash_put (Outside [97, 0]) 20 t1 = Some t2" "ht_rep t2 [(Num 7, 10), (Str [97, 0], 20)]"
    using zh.rep_put [OF t1(2), of "Outside [97, 0]" 20] room by auto
  obtain t3 where t3: "hash_put (Interned [98, 0]) 30 t2 = Some t3"
    using zh.rep_put [OF t2(2), of "Interned [98, 0]" 30] room by auto
  have s: "sample_table = t3" using t1 t2 t3 by (simp add: sample_table_def)
  have "same_meta empty_table t1 \<and> ht_destroyed t1 = ht_destroyed empty_table"
    by (rule put_meta(1) [OF empty_table_rep _ t1(1)]) (simp_all add: room)
  moreover have "same_meta t1 t2 \<and> ht_destroyed t2 = ht_destroyed t1"
    by (rule put_meta(2) [OF t1(2) _ t2(1)]) (simp_all add: room)
  moreover have "same_meta t2 t3 \<and> ht_destroyed t3 = ht_destroyed t2"
    by (rule put_meta(2) [OF t2(2) _ t3(1)]) (simp_all add: room)
  ultimately show "nApplyCount sample_table = 0" "pDestructor sample_table" "ht_destroyed sample_table = []"
    unfolding s by (simp_all add: same_meta_def empty_table_eq)
qed

text \<open>
  C19: \<open>zend_hash_apply\<close> visits the elements in order, \<open>zend_hash_reverse_apply\<close> in the opposite
  order, up to the one whose callback says stop; they keep the changes the callback makes, take
  exactly the elements out that it says to remove, destroying each once, and leave the recursion
  counter as it was. At the third nested call the guard refuses instead.
\<close>

theorem hash_apply_is_apply_spec:
  assumes "ht_rep ht es" and "apply_spec f (if reverse then rev es else es) st = (es', gone, st')"
  shows "(if reverse then zend_hash_reverse_apply ht f st else zend_hash_apply ht f st) =
      Some (Inl Nesting_level_too_deep) \<and> bApplyProtection ht \<and> nApplyCount ht \<ge> 3 \<or>
    (\<exists>ht'. (if reverse then zend_hash_reverse_apply ht f st else zend_hash_apply ht f st) = Some (Inr (ht', st')) \<and>
      (bApplyProtection ht \<longrightarrow> nApplyCount ht < 3) \<and>
      ht_rep ht' (if reverse then rev es' else es') \<and> nApplyCount ht' = nApplyCount ht \<and>
      ht_destroyed ht' = ht_destroyed ht @ (if pDestructor ht then gone else []))"
proof (cases "may_enter ht")
  case True
  then show ?thesis
    using apply_run [OF assms(1) True, of f st] reverse_apply_run [OF assms(1) True, of f st] assms(2)
    by (cases reverse) (auto simp: may_enter_def same_meta_def)
next
  case False
  then show ?thesis
    by (auto simp: zend_hash_apply_def zend_hash_reverse_apply_def hash_apply_with_def protect_run may_enter_def not_less)
qed

text \<open>Adds up the data, adds one to each, removes those above 20.\<close>

definition sum_and_remove :: "int \<Rightarrow> int \<Rightarrow> int \<times> int \<times> int" where
  "sum_and_remove d acc = (if d > 20 then ZEND_HASH_APPLY_REMOVE else ZEND_HASH_APPLY_KEEP, d + 1, acc + d)"

lemma hash_apply_is_apply_spec_witness:
  "\<exists>ht'. zend_hash_apply sample_table sum_and_remove 0 = Some (Inr (ht', 60)) \<and>
    ht_rep ht' [(Num 7, 11), (Str [97, 0], 21)] \<and> ht_destroyed ht' = [31]"
proof -
  have "apply_spec sum_and_remove sample_entries 0 = ([(Num 7, 11), (Str [97, 0], 21)], [31], 60)" by code_simp
  then show ?thesis
    using hash_apply_is_apply_spec [OF sample_table_rep, of sum_and_remove False 0] by (simp add: sample_table_meta) blast
qed

text \<open>
  C35: copying a table into another, and merging with or without overwriting, stores the source's
  entries one after the other, each through the copy constructor: an entry of the target keeps its
  place and, when merging without overwriting, its datum; every other one is appended. The source is
  only read.
\<close>

theorem hash_copy_and_merge:
  assumes "ht_rep source se" and "ht_rep target te" and "length te + length se < 2 ^ 32"
  shows "(\<exists>t. zend_hash_copy target source ctor = Some t \<and> ht_rep t (fold (put_spec ctor False) se te)) \<and>
    (\<exists>t. zend_hash_merge target source ctor overwrite = Some t \<and> ht_rep t (fold (put_spec ctor (\<not> overwrite)) se te))"
  using copy_run [OF assms, of ctor] merge_run [OF assms, of ctor overwrite] by blast

lemma hash_copy_and_merge_witness:
  "(\<exists>t. zend_hash_copy empty_table sample_table (Some (\<lambda>d. d * 2)) = Some t \<and>
      ht_rep t [(Num 7, 20), (Str [97, 0], 40), (Str [98, 0], 60)]) \<and>
   (\<exists>t. zend_hash_merge sample_table sample_table (Some (\<lambda>d. d * 2)) False = Some t \<and> ht_rep t sample_entries)"
  using hash_copy_and_merge [OF sample_table_rep empty_table_rep, of "Some (\<lambda>d. d * 2)" False]
    hash_copy_and_merge [OF sample_table_rep sample_table_rep, of "Some (\<lambda>d. d * 2)" False]
  by (simp add: sample_entries_def ctor_of_def)

text \<open>
  C36: sorting a table through \<open>zend_qsort\<close> without renumbering permutes its entries, into a sorted
  order when the comparison is a total preorder; both lists of links are intact and nothing is
  destroyed. The table has at most \<open>INT_MAX\<close> elements, which an \<open>int\<close> counts.
\<close>

theorem hash_sort_sorts:
  assumes "ht_rep ht es" and "int (length es) \<le> INT_MAX"
  shows "\<exists>ht' es'. zend_hash_sort qsort_ptrs (by_entry cmp) False ht = Some (SUCCESS, ht') \<and> ht_rep ht' es' \<and>
    mset es' = mset es \<and> (compare_order cmp (set es) \<longrightarrow> sorted_wrt (\<lambda>x y. cmp x y \<le> 0) es') \<and>
    ht_destroyed ht' = ht_destroyed ht"
  using qsort_sort_run [OF assms, of cmp] by blast

lemma hash_sort_sorts_witness:
  "\<exists>ht' es'. zend_hash_sort qsort_ptrs (by_entry (\<lambda>x y. snd y - snd x)) False sample_table = Some (SUCCESS, ht') \<and>
    ht_rep ht' es' \<and> mset es' = mset sample_entries \<and> sorted_wrt (\<lambda>x y. snd y \<le> snd x) es'"
proof -
  have "compare_order (\<lambda>x y :: hkey \<times> int. snd y - snd x) (set sample_entries)"
    by (auto simp: compare_order_def)
  moreover have "int (length sample_entries) \<le> INT_MAX" by (simp add: sample_entries_def INT_MAX_def)
  ultimately show ?thesis using hash_sort_sorts [OF sample_table_rep, of "\<lambda>x y. snd y - snd x"] by simp blast
qed

text \<open>
  A traversal from \<open>zend_hash_internal_pointer_reset_ex\<close> with \<open>zend_hash_move_forward_ex\<close>
  ends and reads each key with its datum exactly once, in order.
\<close>

theorem hash_foreach_reads_all:
  assumes "ht_rep ht es"
  shows "hash_foreach ht (snd (zend_hash_internal_pointer_reset_ex ht (Some p))) = Some es"
proof -
  obtain L where L: "ht_ok ht L" "es = entries (pay (cells ht)) L" using assms by (auto simp: ht_rep_def)
  have "ht_ok ht ([] @ L)" using L(1) by simp
  from foreach_from_run [OF this] show ?thesis
    using ht_okD(14) [OF L(1)] L(2) by (simp add: zend_hash_internal_pointer_reset_ex_def ht_set_pos_def)
qed

lemma hash_foreach_reads_all_witness:
  "hash_foreach sample_table (snd (zend_hash_internal_pointer_reset_ex sample_table (Some None))) =
    Some [(Num 7, 10), (Str [97, 0], 20), (Str [98, 0], 30)]"
  using hash_foreach_reads_all [OF sample_table_rep, of None] by (simp add: sample_entries_def)

text \<open>
  Restoring the internal pointer from a saved position, however stale or wrong, follows live
  buckets only, keeps the entries, and either fails and changes nothing or sets the pointer to the
  saved address; a position just saved is restored wherever the pointer has moved meanwhile.
\<close>

theorem hash_pointer_saved_and_restored:
  assumes "ht_rep ht es"
  shows "(\<exists>r ht'. zend_hash_set_pointer ht ptr = Some (r, ht') \<and> ht_rep ht' es \<and>
      (if r = 0 then ht' = ht else pInternalPointer ht' = hp_pos ptr)) \<and>
    (\<exists>r hp. zend_hash_get_pointer ht = Some (r, hp) \<and> (r = 0 \<longleftrightarrow> pInternalPointer ht = None) \<and>
      (\<forall>q. ht_rep (ht\<lparr>pInternalPointer := q\<rparr>) es \<longrightarrow> zend_hash_set_pointer (ht\<lparr>pInternalPointer := q\<rparr>) hp = Some (1, ht)))"
proof (rule conjI)
  obtain r ht' where r: "zend_hash_set_pointer ht ptr = Some (r, ht')" "ht_rep ht' es" "r = 0 \<longrightarrow> ht' = ht"
    "r \<noteq> 0 \<longrightarrow> pInternalPointer ht' = hp_pos ptr" using set_pointer_rep [OF assms, of ptr] by blast
  show "\<exists>r ht'. zend_hash_set_pointer ht ptr = Some (r, ht') \<and> ht_rep ht' es \<and>
      (if r = 0 then ht' = ht else pInternalPointer ht' = hp_pos ptr)"
    by (rule exI [of _ r], rule exI [of _ ht']) (use r in simp)
  show "\<exists>r hp. zend_hash_get_pointer ht = Some (r, hp) \<and> (r = 0 \<longleftrightarrow> pInternalPointer ht = None) \<and>
      (\<forall>q. ht_rep (ht\<lparr>pInternalPointer := q\<rparr>) es \<longrightarrow> zend_hash_set_pointer (ht\<lparr>pInternalPointer := q\<rparr>) hp = Some (1, ht))"
    using get_pointer_rep [OF assms] by (elim exE conjE) (intro exI conjI, assumption+)
qed

lemma hash_pointer_saved_and_restored_witness:
  "\<exists>r hp. zend_hash_get_pointer sample_table = Some (r, hp) \<and>
    zend_hash_set_pointer (sample_table\<lparr>pInternalPointer := None\<rparr>) hp = Some (1, sample_table)"
  using hash_pointer_saved_and_restored [OF sample_table_rep] ht_rep_pos(1) [OF sample_table_rep] by blast

text \<open>
  \<open>zend_hash_minmax\<close> returns the datum of an entry that is least (or greatest) for the
  comparison, and fails for an empty table only.
\<close>

theorem hash_minmax_is_extreme:
  assumes "ht_rep ht es" and "sign_order cmp (set es)" and "length es < 2 ^ 32"
  shows "if es = [] then zend_hash_minmax ht (by_entry cmp) flag = Some (FAILURE, None)
    else \<exists>K d. zend_hash_minmax ht (by_entry cmp) flag = Some (SUCCESS, Some d) \<and> (K, d) \<in> set es \<and>
      (\<forall>e \<in> set es. if flag then cmp e (K, d) \<le> 0 else cmp (K, d) e \<le> 0)"
proof (cases "es = []")
  case True
  obtain L where L: "ht_ok ht L" "es = entries (pay (cells ht)) L" using assms(1) by (auto simp: ht_rep_def)
  then have "nNumOfElements ht = 0" using ht_okD(5) [OF L(1)] True by (simp add: entries_def)
  then show ?thesis using True by (simp add: zend_hash_minmax_def)
qed (use minmax_run [OF assms(1) _ assms(2), of flag] in simp)

lemma hash_minmax_is_extreme_witness:
  "\<exists>K d. zend_hash_minmax sample_table (by_entry (\<lambda>x y. snd x - snd y)) True = Some (SUCCESS, Some d) \<and>
    (K, d) \<in> set sample_entries \<and> (\<forall>e \<in> set sample_entries. snd e \<le> d)"
proof -
  have "sign_order (\<lambda>x y :: hkey \<times> int. snd x - snd y) (set sample_entries)"
    by (auto simp: sign_order_def sign_order_axioms_def compare_order_def)
  from hash_minmax_is_extreme [OF sample_table_rep this, of True] show ?thesis
    by (simp add: sample_entries_def)
qed

text \<open>
  Sorting with renumbering leaves \<open>arKey\<close> in the buckets it makes numeric. The one-element
  table with the string key \<open>"c"\<close> becomes a list with the index 0, and looking up the interned
  string \<open>"c"\<close> still finds an element in it, because the look-up compares the pointers before it
  looks at the lengths and hashes.
\<close>

theorem hash_sort_renumber_keeps_string_key:
  "\<exists>t t'. hash_put (Interned [99, 0]) (5 :: int) empty_table = Some t \<and>
    zend_hash_sort qsort_ptrs (by_entry (\<lambda>_ _. 0)) True t = Some (SUCCESS, t') \<and>
    zend_hash_index_find t' 0 = Some (Some 5) \<and> nNumOfElements t' = 1 \<and>
    zend_hash_find t' (Interned [99, 0]) 2 = Some (Some 5) \<and> zend_hash_find t' (Outside [99, 0]) 2 = Some None"
  by (simp add: empty_table_eq ht_eval hash_values)
     (simp add: zend_hash_sort_def c_int_def INT_MAX_def sort_collect.simps deref_def qsort_ptrs_def zend_qsort_def qsort_loop.simps poke_def
      renumber_loop.simps zend_hash_rehash_def rehash_loop.simps CONNECT_TO_BUCKET_DLLIST_def poke_if_def get_slot_def
      nIndex_def put_slot_def zend_hash_index_find_def zend_hash_find_def chain_find.simps match_index_def hash_values
      match_key_def data_at_def)

text \<open>
  The ordered comparison of two tables cuts the difference of two numeric keys down to an
  \<open>int\<close>: the tables with the one key 0 and with the one key \<open>2^32\<close>, equal data, compare as equal.
\<close>

theorem hash_compare_confuses_numeric_keys:
  "\<exists>t t' u u'. index_put 0 (5 :: int) empty_table = Some t \<and> index_put (2 ^ 32) 5 empty_table = Some t' \<and>
    zend_hash_compare t t' (\<lambda>a b. a - b) True = Some (Inr (0, u, u'))"
  by (simp add: empty_table_eq ht_eval)
     (simp add: zend_hash_compare_def protect_run may_enter_def entered_def uint_diff_def hash_compare_loop.simps deref_def
      compare_keys_def ulong_diff_def HASH_UNPROTECT_RECURSION_def)

end
