(* ===== verification/Zend_Strcmp.thy ===== *)
theory Zend_Strcmp
  imports Zend_Hash_Iter
begin

text \<open>
  The string comparisons of \<open>Zend/zend_operators.c\<close>. A string is a pointer with the bytes it
  points to; equal pointers are taken for equal strings before anything else is looked at. Lengths
  are \<open>uint\<close>, and the difference of two lengths is cut down to an \<open>int\<close>. \<open>zend_tolower\<close> is
  \<open>tolower\<close> in the C locale.
\<close>

type_synonym cstr = "nat \<times> byte list"

definition zend_tolower :: "byte \<Rightarrow> byte" where
  "zend_tolower c = (if 65 \<le> c \<and> c \<le> 90 then c + 32 else c)"

text \<open>The loop \<open>while (str < end) *result++ = zend_tolower(*str++)\<close> and the terminating NUL.\<close>

fun tolower_loop :: "byte list \<Rightarrow> byte list" where
  "tolower_loop [] = []"
| "tolower_loop (c # s) = zend_tolower c # tolower_loop s"

definition zend_str_tolower_copy :: "byte list \<Rightarrow> uint \<Rightarrow> byte list" where
  "zend_str_tolower_copy source n = tolower_loop (take (unat n) source) @ [0]"

definition zend_str_tolower_dup :: "byte list \<Rightarrow> uint \<Rightarrow> byte list" where
  "zend_str_tolower_dup source n = zend_str_tolower_copy source n"

text \<open>In place: the first \<open>n\<close> bytes change.\<close>

definition zend_str_tolower :: "byte list \<Rightarrow> uint \<Rightarrow> byte list" where
  "zend_str_tolower str n = tolower_loop (take (unat n) str) @ drop (unat n) str"

definition zend_binary_strcmp :: "cstr \<Rightarrow> uint \<Rightarrow> cstr \<Rightarrow> uint \<Rightarrow> int" where
  "zend_binary_strcmp s1 len1 s2 len2 =
     (if fst s1 = fst s2 then 0
      else let retval = memcmp_diff (take (unat (min len1 len2)) (snd s1)) (take (unat (min len1 len2)) (snd s2))
        in if retval = 0 then uint_diff len1 len2 else retval)"

definition zend_binary_strncmp :: "cstr \<Rightarrow> uint \<Rightarrow> cstr \<Rightarrow> uint \<Rightarrow> uint \<Rightarrow> int" where
  "zend_binary_strncmp s1 len1 s2 len2 n =
     (if fst s1 = fst s2 then 0
      else let m = unat (min n (min len1 len2)); retval = memcmp_diff (take m (snd s1)) (take m (snd s2))
        in if retval = 0 then uint_diff (min n len1) (min n len2) else retval)"

text \<open>
  \<open>while (len--)\<close>: \<open>len\<close> is an \<open>int\<close> that starts from a \<open>uint\<close>; lengths of \<open>2^31\<close> and more,
  which would make it negative, are beyond what the engine's strings (of \<open>int\<close> length) have.
  \<open>None\<close> where the bytes run out before \<open>len\<close> does.
\<close>

fun casecmp_loop :: "nat \<Rightarrow> byte list \<Rightarrow> byte list \<Rightarrow> int option" where
  "casecmp_loop 0 s1 s2 = Some 0"
| "casecmp_loop (Suc len) (a # s1) (b # s2) =
     (let c1 = uint (zend_tolower a); c2 = uint (zend_tolower b)
      in if c1 \<noteq> c2 then Some (c1 - c2) else casecmp_loop len s1 s2)"
| "casecmp_loop (Suc len) _ _ = None"

definition zend_binary_strcasecmp :: "cstr \<Rightarrow> uint \<Rightarrow> cstr \<Rightarrow> uint \<Rightarrow> int option" where
  "zend_binary_strcasecmp s1 len1 s2 len2 =
     (if fst s1 = fst s2 then Some 0
      else do {
        r \<leftarrow> casecmp_loop (unat (min len1 len2)) (snd s1) (snd s2);
        Some (if r \<noteq> 0 then r else uint_diff len1 len2)
      })"

definition zend_binary_strncasecmp :: "cstr \<Rightarrow> uint \<Rightarrow> cstr \<Rightarrow> uint \<Rightarrow> uint \<Rightarrow> int option" where
  "zend_binary_strncasecmp s1 len1 s2 len2 n =
     (if fst s1 = fst s2 then Some 0
      else do {
        r \<leftarrow> casecmp_loop (unat (min n (min len1 len2))) (snd s1) (snd s2);
        Some (if r \<noteq> 0 then r else uint_diff (min n len1) (min n len2))
      })"

text \<open>The same on values: the length is that of the value.\<close>

definition zstrlen :: "cstr \<Rightarrow> uint" where
  "zstrlen s = of_nat (length (snd s))"

definition zend_binary_zval_strcmp :: "cstr \<Rightarrow> cstr \<Rightarrow> int" where
  "zend_binary_zval_strcmp s1 s2 = zend_binary_strcmp s1 (zstrlen s1) s2 (zstrlen s2)"

definition zend_binary_zval_strncmp :: "cstr \<Rightarrow> cstr \<Rightarrow> uint \<Rightarrow> int" where
  "zend_binary_zval_strncmp s1 s2 n = zend_binary_strncmp s1 (zstrlen s1) s2 (zstrlen s2) n"

definition zend_binary_zval_strcasecmp :: "cstr \<Rightarrow> cstr \<Rightarrow> int option" where
  "zend_binary_zval_strcasecmp s1 s2 = zend_binary_strcasecmp s1 (zstrlen s1) s2 (zstrlen s2)"

definition zend_binary_zval_strncasecmp :: "cstr \<Rightarrow> cstr \<Rightarrow> uint \<Rightarrow> int option" where
  "zend_binary_zval_strncasecmp s1 s2 n = zend_binary_strncasecmp s1 (zstrlen s1) s2 (zstrlen s2) n"

end
