(* ===== verification/Zend_Strcmp_Correct.thy ===== *)
theory Zend_Strcmp_Correct
  imports Zend_Strcmp Zend_Hash_Sort_Correct "HOL-Library.List_Lexorder"
begin

text \<open>
  The comparisons of strings against the lexicographic order of their bytes, and as the comparison
  functions the sorting routines ask for.
\<close>

subsection \<open>Differences\<close>

lemma uint_diff_lengths:
  assumes "a < 2 ^ 31" and "b < 2 ^ 31"
  shows "uint_diff (of_nat a) (of_nat b) = int a - int b"
proof -
  have "(of_nat a - of_nat b :: 32 word) = word_of_int (int a - int b)" by simp
  then have "uint_diff (of_nat a) (of_nat b) = signed_take_bit 31 (int a - int b)"
    by (simp only: uint_diff_def sint_sbintrunc')
       simp
  also have "\<dots> = int a - int b" using assms by (intro signed_take_bit_int_eq_self) auto
  finally show ?thesis .
qed

lemma uint_eq_byte: "uint a = uint b \<longleftrightarrow> a = (b :: byte)"
  by (simp add: word_uint_eq_iff)

text \<open>
  The byte-wise comparison with the lengths as a tie-break, over strings that are all in memory:
  its sign is that of the lexicographic order.
\<close>

definition byte_compare :: "byte list \<Rightarrow> byte list \<Rightarrow> int" where
  "byte_compare s t =
     (let m = min (length s) (length t); r = memcmp_diff (take m s) (take m t)
      in if r = 0 then int (length s) - int (length t) else r)"

lemma byte_compare_simps [simp]:
  "byte_compare [] [] = 0" "byte_compare [] (b # t) = - 1 - int (length t)" "byte_compare (a # s) [] = 1 + int (length s)"
  "byte_compare (a # s) (b # t) = (if a = b then byte_compare s t else uint a - uint b)"
  by (auto simp: byte_compare_def Let_def uint_eq_byte)

lemma byte_compare_order: "byte_compare s t < 0 \<longleftrightarrow> s < t" "byte_compare s t = 0 \<longleftrightarrow> s = t"
  by (induction s t rule: list_induct2') (auto simp: Cons_less_Cons word_less_def uint_eq_byte)

lemma byte_compare_sign_order: "sign_order byte_compare A"
proof -
  have le: "byte_compare s t \<le> 0 \<longleftrightarrow> s \<le> t" for s t
    using byte_compare_order [of s t] by (auto simp: le_less)
  have gt: "byte_compare s t > 0 \<longleftrightarrow> t < s" for s t
    using byte_compare_order [of s t] by (auto simp: not_less le_less)
  have ge: "byte_compare s t \<ge> 0 \<longleftrightarrow> t \<le> s" for s t
    using byte_compare_order(1) [of s t] by (auto simp: not_less)
  show ?thesis
    unfolding sign_order_def sign_order_axioms_def compare_order_def le gt ge by auto
qed

subsection \<open>The C functions\<close>

text \<open>Strings as the engine has them: below \<open>2^31\<close> bytes, and equal where their pointers are.\<close>

definition c_strings :: "(nat \<Rightarrow> byte list) \<Rightarrow> cstr set" where
  "c_strings mem = {(p, s). s = mem p \<and> length s < 2 ^ 31}"

lemma c_stringsD:
  assumes "x \<in> c_strings mem" and "y \<in> c_strings mem"
  shows "fst x = fst y \<Longrightarrow> snd x = snd y" "unat (zstrlen x) = length (snd x)" "length (snd x) < 2 ^ 31"
    "uint_diff (zstrlen x) (zstrlen y) = int (length (snd x)) - int (length (snd y))"
proof -
  show "fst x = fst y \<Longrightarrow> snd x = snd y" using assms by (cases x; cases y) (simp add: c_strings_def)
  have l: "length (snd x) < 2 ^ 31" "length (snd y) < 2 ^ 31" using assms by (auto simp: c_strings_def)
  then show "length (snd x) < 2 ^ 31" "unat (zstrlen x) = length (snd x)"
    by (simp_all add: zstrlen_def unat_of_nat)
  show "uint_diff (zstrlen x) (zstrlen y) = int (length (snd x)) - int (length (snd y))"
    unfolding zstrlen_def by (rule uint_diff_lengths [OF l])
qed

lemma strcmp_run:
  assumes "x \<in> c_strings mem" and "y \<in> c_strings mem"
  shows "zend_binary_zval_strcmp x y = byte_compare (snd x) (snd y)"
proof (cases "fst x = fst y")
  case True
  then have "byte_compare (snd x) (snd y) = 0" using c_stringsD(1) [OF assms] byte_compare_order(2) by simp
  then show ?thesis using True by (simp add: zend_binary_zval_strcmp_def zend_binary_strcmp_def)
next
  case False
  have "unat (min (zstrlen x) (zstrlen y)) = min (length (snd x)) (length (snd y))"
    using c_stringsD(2) [OF assms] c_stringsD(2) [OF assms(2,1)] by (simp add: min_def word_le_nat_alt)
  then show ?thesis using False c_stringsD(4) [OF assms]
    by (simp add: zend_binary_zval_strcmp_def zend_binary_strcmp_def byte_compare_def Let_def)
qed

text \<open>The comparisons of the first \<open>n\<close> bytes, and without regard to case.\<close>

definition lower :: "byte list \<Rightarrow> byte list" where
  "lower s = map zend_tolower s"

lemma tolower_loop_map: "tolower_loop s = lower s"
  by (induction s) (simp_all add: lower_def)

lemma casecmp_loop_run:
  "len \<le> length s \<Longrightarrow> len \<le> length t \<Longrightarrow>
    casecmp_loop len s t = Some (memcmp_diff (lower (take len s)) (lower (take len t)))"
  by (induction len s t rule: casecmp_loop.induct) (auto simp: lower_def Let_def uint_eq_byte)

lemma prefix_lengths:
  assumes "x \<in> c_strings mem" and "y \<in> c_strings mem"
  shows "unat (min n (min (zstrlen x) (zstrlen y))) =
      min (length (take (unat n) (snd x))) (length (take (unat n) (snd y)))"
    "uint_diff (min n (zstrlen x)) (min n (zstrlen y)) =
      int (length (take (unat n) (snd x))) - int (length (take (unat n) (snd y)))"
proof -
  note l = c_stringsD(2,3) [OF assms] c_stringsD(2,3) [OF assms(2,1)]
  have mu: "unat (min n (zstrlen z)) = min (unat n) (length (snd z))" if "unat (zstrlen z) = length (snd z)" for z
    using that by (simp add: min_def word_le_nat_alt)
  show "unat (min n (min (zstrlen x) (zstrlen y))) =
      min (length (take (unat n) (snd x))) (length (take (unat n) (snd y)))"
    using l by (auto simp: min_def word_le_nat_alt)
  have "min n (zstrlen z) = of_nat (length (take (unat n) (snd z)))" if "unat (zstrlen z) = length (snd z)" for z
  proof -
    have "length (take (unat n) (snd z)) = unat (min n (zstrlen z))" using mu [OF that] by (simp add: min.commute)
    then show ?thesis by (simp only: of_nat_unat ucast_id)
  qed
  then show "uint_diff (min n (zstrlen x)) (min n (zstrlen y)) =
      int (length (take (unat n) (snd x))) - int (length (take (unat n) (snd y)))"
    using l uint_diff_lengths [of "length (take (unat n) (snd x))" "length (take (unat n) (snd y))"] by simp
qed

lemma take_min_length: "take (min (length s) (length t)) s = take (length t) s" "take (min (length s) (length t)) t = take (length s) t"
  by (simp_all add: min_def)

lemma strncmp_run:
  assumes "x \<in> c_strings mem" and "y \<in> c_strings mem"
  shows "zend_binary_zval_strncmp x y n = byte_compare (take (unat n) (snd x)) (take (unat n) (snd y))"
proof (cases "fst x = fst y")
  case True
  then have "byte_compare (take (unat n) (snd x)) (take (unat n) (snd y)) = 0"
    using c_stringsD(1) [OF assms] byte_compare_order(2) by simp
  then show ?thesis using True by (simp add: zend_binary_zval_strncmp_def zend_binary_strncmp_def)
next
  case False
  let ?s = "take (unat n) (snd x)" and ?t = "take (unat n) (snd y)"
  define m where "m = min (length ?s) (length ?t)"
  have "m \<le> unat n" by (simp add: m_def)
  then have t: "take m ?s = take m (snd x)" "take m ?t = take m (snd y)" by (simp_all add: min_absorb1)
  show ?thesis
    using False unfolding zend_binary_zval_strncmp_def zend_binary_strncmp_def byte_compare_def Let_def
      prefix_lengths [OF assms] m_def [symmetric] t by simp
qed

lemma strncasecmp_run:
  assumes "x \<in> c_strings mem" and "y \<in> c_strings mem"
  shows "zend_binary_zval_strncasecmp x y n =
    Some (byte_compare (lower (take (unat n) (snd x))) (lower (take (unat n) (snd y))))"
proof (cases "fst x = fst y")
  case True
  then have "byte_compare (lower (take (unat n) (snd x))) (lower (take (unat n) (snd y))) = 0"
    using c_stringsD(1) [OF assms] byte_compare_order(2) by simp
  then show ?thesis using True by (simp add: zend_binary_zval_strncasecmp_def zend_binary_strncasecmp_def)
next
  case False
  let ?s = "take (unat n) (snd x)" and ?t = "take (unat n) (snd y)"
  define m where "m = min (length ?s) (length ?t)"
  have m: "m \<le> length (snd x)" "m \<le> length (snd y)" "m \<le> unat n" by (simp_all add: m_def)
  have "lower (take m (snd x)) = take m (lower ?s)" "lower (take m (snd y)) = take m (lower ?t)"
    using m(3) by (simp_all add: lower_def take_map min_def)
  moreover have l: "length (lower ?s) = length ?s" "length (lower ?t) = length ?t" by (simp_all add: lower_def)
  ultimately show ?thesis
    using False
    unfolding zend_binary_zval_strncasecmp_def zend_binary_strncasecmp_def byte_compare_def Let_def
      l prefix_lengths [OF assms] m_def [symmetric] casecmp_loop_run [OF m(1,2)] by simp
qed

lemma strcasecmp_run:
  assumes "x \<in> c_strings mem" and "y \<in> c_strings mem"
  shows "zend_binary_zval_strcasecmp x y = Some (byte_compare (lower (snd x)) (lower (snd y)))"
proof -
  define n where "n = max (zstrlen x) (zstrlen y)"
  have "min n (min (zstrlen x) (zstrlen y)) = min (zstrlen x) (zstrlen y)" "min n (zstrlen x) = zstrlen x" "min n (zstrlen y) = zstrlen y"
    by (auto simp: n_def min_def max_def)
  then have "zend_binary_zval_strcasecmp x y = zend_binary_zval_strncasecmp x y n"
    by (simp add: zend_binary_zval_strcasecmp_def zend_binary_strcasecmp_def
        zend_binary_zval_strncasecmp_def zend_binary_strncasecmp_def cong: if_cong)
  moreover have "length (snd x) \<le> unat n" "length (snd y) \<le> unat n"
    using c_stringsD(2) [OF assms] c_stringsD(2) [OF assms(2,1)] by (auto simp: n_def max_def word_le_nat_alt)
  ultimately show ?thesis using strncasecmp_run [OF assms, of n] by simp
qed

interpretation strcmp: sign_order zend_binary_zval_strcmp "c_strings mem" for mem
  by (rule sign_order_pullback [OF byte_compare_sign_order [of UNIV], where f = snd]) (simp_all add: strcmp_run)

interpretation strcasecmp: sign_order "\<lambda>x y. the (zend_binary_zval_strcasecmp x y)" "c_strings mem" for mem
  by (rule sign_order_pullback [OF byte_compare_sign_order [of UNIV], where f = "lower \<circ> snd"])
     (simp_all add: strcasecmp_run)

text \<open>Equal pointers with different lengths are strings of which one is a proper prefix of the other.\<close>

lemma strcmp_same_pointer_ignores_lengths:
  "zend_binary_strcmp (p, [97, 98]) 1 (p, [97, 98]) 2 = 0" "byte_compare [97] [97, 98] < 0"
  by (simp_all add: zend_binary_strcmp_def)

subsection \<open>Properties\<close>

text \<open>
  C37: on strings of less than \<open>2^31\<close> bytes, \<open>zend_binary_strcmp\<close> has the sign of the
  lexicographic order, \<open>zend_binary_strncmp\<close> that of the order of the first \<open>n\<close> bytes, and the
  case-insensitive ones that of the lower-cased bytes; none reads beyond its strings.
\<close>

theorem strcmp_is_lexicographic:
  assumes "x \<in> c_strings mem" and "y \<in> c_strings mem"
  shows "(zend_binary_zval_strcmp x y < 0 \<longleftrightarrow> snd x < snd y) \<and> (zend_binary_zval_strcmp x y = 0 \<longleftrightarrow> snd x = snd y) \<and>
    (zend_binary_zval_strncmp x y n < 0 \<longleftrightarrow> take (unat n) (snd x) < take (unat n) (snd y)) \<and>
    (\<exists>r. zend_binary_zval_strcasecmp x y = Some r \<and> (r < 0 \<longleftrightarrow> lower (snd x) < lower (snd y)) \<and>
      (r = 0 \<longleftrightarrow> lower (snd x) = lower (snd y))) \<and>
    (\<exists>r. zend_binary_zval_strncasecmp x y n = Some r \<and>
      (r < 0 \<longleftrightarrow> lower (take (unat n) (snd x)) < lower (take (unat n) (snd y))))"
  by (simp add: strcmp_run [OF assms] strncmp_run [OF assms] strcasecmp_run [OF assms] strncasecmp_run [OF assms]
      byte_compare_order)

lemma strcmp_is_lexicographic_witness:
  "zend_binary_zval_strcmp (0, [97, 98]) (1, [97, 66, 99]) > 0 \<and> (\<exists>r. zend_binary_zval_strcasecmp (0, [97, 98]) (1, [97, 66, 99]) = Some r \<and> r < 0)"
proof -
  define mem :: "nat \<Rightarrow> byte list" where "mem p = (if p = 0 then [97, 98] else [97, 66, 99])" for p
  have x: "(0, [97, 98]) \<in> c_strings mem" and y: "(1, [97, 66, 99]) \<in> c_strings mem" by (simp_all add: c_strings_def mem_def)
  show ?thesis using strcmp_is_lexicographic [OF x y, of 0] by (auto simp: lower_def zend_tolower_def)
qed

text \<open>
  Sorting strings with \<open>zend_qsort\<close> and \<open>zend_binary_strcmp\<close> gives them in lexicographic
  order.
\<close>

theorem qsort_strcmp_sorts_strings:
  assumes "set xs \<subseteq> c_strings mem" and "0 < siz" and "length xs < 2 ^ 64"
  shows "\<exists>ys. zend_qsort zend_binary_zval_strcmp siz xs = Some ys \<and> mset ys = mset xs \<and> sorted (map snd ys)"
proof -
  obtain ys where ys: "zend_qsort zend_binary_zval_strcmp siz xs = Some ys" "mset ys = mset xs"
    using zend_qsort_total [OF assms(2,3)] by blast
  have sub: "set ys \<subseteq> c_strings mem" using ys(2) assms(1) by (metis set_mset_mset)
  have "snd x \<le> snd y" if "x \<in> set ys" "y \<in> set ys" "zend_binary_zval_strcmp x y \<le> 0" for x y
  proof -
    have "byte_compare (snd x) (snd y) \<le> 0" using that sub strcmp_run [of x mem y] by (metis subsetD)
    then show ?thesis using byte_compare_order [of "snd x" "snd y"] by auto
  qed
  then have "sorted_wrt (\<lambda>x y. snd x \<le> snd y) ys"
    by (rule sorted_wrt_mono_rel [OF _ strcmp.qsort_sorted [OF assms(2,1) ys(1)]])
  then show ?thesis using ys by (auto simp: sorted_wrt_map)
qed

lemma qsort_strcmp_sorts_strings_witness:
  "\<exists>ys. zend_qsort zend_binary_zval_strcmp 8 [(0, [98]), (1, [97, 98]), (2, [97])] = Some ys \<and>
    mset ys = mset [(0, [98]), (1, [97, 98]), (2, [97])] \<and> sorted (map snd ys)"
proof -
  define mem :: "nat \<Rightarrow> byte list" where "mem p = (if p = 0 then [98] else if p = 1 then [97, 98] else [97])" for p
  have "set [(0, [98]), (1, [97, 98]), (2, [97])] \<subseteq> c_strings mem" by (simp add: c_strings_def mem_def)
  from qsort_strcmp_sorts_strings [OF this] show ?thesis by simp
qed

end
