(* ===== verification/Bytes.thy ===== *)
theory Bytes
  imports Zend_Prelude
begin

text \<open>
  Byte buffers, the \<open>ctype\<close> tests in the C locale, hexadecimal digits, and the interface of an
  encoding: a decoder that undoes it and a set of bytes it writes. Reading or writing a buffer out of
  its bounds is undefined behaviour (\<open>None\<close>). A NUL-terminated string is given with its NUL.
\<close>

unbundle bit_operations_syntax

definition rd :: "byte list \<Rightarrow> nat \<Rightarrow> byte option" where
  "rd buf i = (if i < length buf then Some (buf ! i) else None)"

definition wr :: "nat \<Rightarrow> byte \<Rightarrow> byte list \<Rightarrow> byte list option" where
  "wr i v buf = (if i < length buf then Some (buf[i := v]) else None)"

named_theorems buffer_simps \<open>accesses to a buffer within its bounds\<close>

lemma rd_simps [buffer_simps]: "i < length buf \<Longrightarrow> rd buf i = Some (buf ! i)"
  by (simp add: rd_def)

lemma wr_simps [buffer_simps]: "i < length buf \<Longrightarrow> wr i v buf = Some (buf[i := v])"
  by (simp add: wr_def)

lemma take_write: "j < length buf \<Longrightarrow> take (Suc j) (buf[j := v]) = take j buf @ [v]"
  by (simp add: take_Suc_conv_app_nth)

lemma drop_two: "i + 1 < length xs \<Longrightarrow> drop i xs = xs ! i # xs ! (i + 1) # drop (i + 2) xs"
  by (metis Cons_nth_drop_Suc Suc_eq_plus1 add_2_eq_Suc' add_lessD1)

text \<open>
  A string of the engine has an \<open>int\<close> for its length. \<open>RETURN_STRINGL\<close> makes a string of a buffer and an
  \<open>int\<close>: a negative one, or one behind the end of the buffer, makes no string.
\<close>

definition string_length :: "byte list \<Rightarrow> int option" where
  "string_length s = c_int (int (length s))"

definition RETURN_STRINGL :: "byte list \<Rightarrow> int \<Rightarrow> byte list option" where
  "RETURN_STRINGL buf n = (if 0 \<le> n \<and> nat n \<le> length buf then Some (take (nat n) buf) else None)"

lemma string_length_run: "int (length s) \<le> INT_MAX \<Longrightarrow> string_length s = Some (int (length s))"
  by (simp add: string_length_def)

lemma RETURN_STRINGL_run [simp]: "RETURN_STRINGL (s @ t) (int (length s)) = Some s" "RETURN_STRINGL s (int (length s)) = Some s"
  by (simp_all add: RETURN_STRINGL_def)

subsection \<open>Classes of bytes\<close>

definition isdigit :: "byte \<Rightarrow> bool" where
  "isdigit c \<longleftrightarrow> 48 \<le> c \<and> c \<le> 57"

definition isupper :: "byte \<Rightarrow> bool" where
  "isupper c \<longleftrightarrow> 65 \<le> c \<and> c \<le> 90"

definition isxdigit :: "byte \<Rightarrow> bool" where
  "isxdigit c \<longleftrightarrow> isdigit c \<or> 65 \<le> c \<and> c \<le> 70 \<or> 97 \<le> c \<and> c \<le> 102"

definition isspace :: "byte \<Rightarrow> bool" where
  "isspace c \<longleftrightarrow> c = 32 \<or> 9 \<le> c \<and> c \<le> 13"

definition iscntrl :: "byte \<Rightarrow> bool" where
  "iscntrl c \<longleftrightarrow> c < 32 \<or> c = 127"

text \<open>\<open>"0123456789ABCDEF"\<close>, as the encoders index it.\<close>

definition hexchars :: "byte list" where
  "hexchars = [48, 49, 50, 51, 52, 53, 54, 55, 56, 57, 65, 66, 67, 68, 69, 70]"

definition hex_hi :: "byte \<Rightarrow> byte" where "hex_hi c = hexchars ! unat (drop_bit 4 c)"
definition hex_lo :: "byte \<Rightarrow> byte" where "hex_lo c = hexchars ! unat (c AND 15)"

text \<open>A statement about all bytes is checked by going through them.\<close>

lemma all_bytes: "(\<forall>n \<in> set [0..<256]. P (of_nat n :: byte)) \<Longrightarrow> P c"
proof -
  assume "\<forall>n \<in> set [0..<256]. P (of_nat n :: byte)"
  moreover have "unat c \<in> set [0..<256]" using unsigned_less [of c] by simp
  ultimately have "P (of_nat (unat c))" by blast
  then show ?thesis by simp
qed

subsection \<open>Encodings\<close>

locale codec =
  fixes enc :: "byte list \<Rightarrow> byte list option" and dec :: "byte list \<Rightarrow> byte list option"
    and ok :: "byte list \<Rightarrow> bool" and safe :: "byte \<Rightarrow> bool"
  assumes enc_total: "ok s \<Longrightarrow> \<exists>e. enc s = Some e"
    and dec_enc: "ok s \<Longrightarrow> enc s = Some e \<Longrightarrow> dec e = Some s"
    and enc_safe: "ok s \<Longrightarrow> enc s = Some e \<Longrightarrow> c \<in> set e \<Longrightarrow> safe c"

text \<open>Fields put together with a separator, and taken apart again.\<close>

fun join_fields :: "byte \<Rightarrow> byte list list \<Rightarrow> byte list" where
  "join_fields sep [] = []"
| "join_fields sep [f] = f"
| "join_fields sep (f # fs) = f @ sep # join_fields sep fs"

fun split_fields :: "byte \<Rightarrow> byte list \<Rightarrow> byte list list" where
  "split_fields sep [] = [[]]"
| "split_fields sep (c # s) =
     (if c = sep then [] # split_fields sep s
      else (case split_fields sep s of f # fs \<Rightarrow> (c # f) # fs | [] \<Rightarrow> [[c]]))"

lemma split_fields_nonempty [simp]: "split_fields sep s \<noteq> []"
  by (cases s) (auto split: list.split)

lemma split_fields_append:
  "sep \<notin> set f \<Longrightarrow> split_fields sep (f @ sep # s) = f # split_fields sep s"
  by (induction f) auto

lemma split_fields_single: "sep \<notin> set f \<Longrightarrow> split_fields sep f = [f]"
  by (induction f) auto

lemma split_join_fields:
  "fs \<noteq> [] \<Longrightarrow> \<forall>f \<in> set fs. sep \<notin> set f \<Longrightarrow> split_fields sep (join_fields sep fs) = fs"
  by (induction sep fs rule: join_fields.induct) (auto simp: split_fields_append split_fields_single)

context codec
begin

lemma enc_inj:
  assumes "ok s" and "ok t" and "enc s = enc t"
  shows "s = t"
  using enc_total [OF assms(1)] dec_enc [OF assms(1)] dec_enc [OF assms(2)] assms(3) by auto

lemma fields_dec: "\<forall>f \<in> set fs. ok f \<Longrightarrow> map enc fs = map Some es \<Longrightarrow> map dec es = map Some fs \<and> (\<forall>e \<in> set es. \<forall>c \<in> set e. safe c)"
proof (induction fs arbitrary: es)
  case (Cons f fs)
  then obtain e es' where "es = e # es'" by (cases es) auto
  then show ?case using Cons dec_enc [of f e] enc_safe [of f e] by simp
qed simp

lemma fields_roundtrip:
  assumes "fs \<noteq> []" and "\<forall>f \<in> set fs. ok f" and "\<not> safe sep" and "map enc fs = map Some es"
  shows "map dec (split_fields sep (join_fields sep es)) = map Some fs"
proof -
  note d = fields_dec [OF assms(2,4)]
  have "es \<noteq> []" using assms(1,4) by auto
  then have "split_fields sep (join_fields sep es) = es" using d assms(3) by (intro split_join_fields) auto
  then show ?thesis using d by simp
qed

end

end
