(* ===== verification/Url_Codec.thy ===== *)
theory Url_Codec
  imports Bytes
begin

text \<open>
  \<open>ext/standard/url.c\<close>: the URL encodings, and their decoders, which work in place. \<open>char\<close> is
  read as unsigned in the tests.
\<close>

subsection \<open>Encoding\<close>

definition url_escape :: "byte \<Rightarrow> byte list" where
  "url_escape c = [37, hex_hi c, hex_lo c]"

fun url_encode_loop :: "byte list \<Rightarrow> byte list" where
  "url_encode_loop [] = []"
| "url_encode_loop (c # s) =
     (if c = 32 then 43 # url_encode_loop s
      else if (c < 48 \<and> c \<noteq> 45 \<and> c \<noteq> 46) \<or> (c < 65 \<and> c > 57) \<or> (c > 90 \<and> c < 97 \<and> c \<noteq> 95) \<or> c > 122
        then url_escape c @ url_encode_loop s
      else c # url_encode_loop s)"

text \<open>
  The result with its NUL, and \<open>*new_length\<close>, an \<open>int\<close> that \<open>to - start\<close> is cut down to. A length that is
  negative, or that of more bytes than there are, is not defined.
\<close>

definition php_url_encode :: "byte list \<Rightarrow> int \<Rightarrow> (byte list \<times> int) option" where
  "php_url_encode s len =
     (if len < 0 \<or> nat len > length s then None
      else let start = url_encode_loop (take (nat len) s) in Some (start @ [0], to_int (int (length start))))"

fun raw_url_encode_loop :: "byte list \<Rightarrow> byte list" where
  "raw_url_encode_loop [] = []"
| "raw_url_encode_loop (c # s) =
     (if (c < 48 \<and> c \<noteq> 45 \<and> c \<noteq> 46) \<or> (c < 65 \<and> c > 57) \<or> (c > 90 \<and> c < 97 \<and> c \<noteq> 95) \<or> (c > 122 \<and> c \<noteq> 126)
        then url_escape c @ raw_url_encode_loop s
      else c # raw_url_encode_loop s)"

text \<open>Here \<open>y\<close>, the number of bytes written, is counted in an \<open>int\<close>: it must not overflow.\<close>

definition php_raw_url_encode :: "byte list \<Rightarrow> int \<Rightarrow> (byte list \<times> int) option" where
  "php_raw_url_encode s len =
     (if len < 0 \<or> nat len > length s then None
      else do {
        let str = raw_url_encode_loop (take (nat len) s);
        y \<leftarrow> c_int (int (length str));
        Some (str @ [0], y)
      })"

subsection \<open>Decoding\<close>

definition c_tolower :: "byte \<Rightarrow> byte" where
  "c_tolower c = (if isupper c then c + 32 else c)"

definition hex_digit :: "byte \<Rightarrow> int" where
  "hex_digit c = (let c = uint (c_tolower c) in if 48 \<le> c \<and> c \<le> 57 then c - 48 else c - 97 + 10)"

definition php_htoi :: "byte \<Rightarrow> byte \<Rightarrow> int" where
  "php_htoi c d = hex_digit c * 16 + hex_digit d"

text \<open>
  The loop \<open>while (len--)\<close> over the buffer, with \<open>data\<close> and \<open>dest\<close> as indices; \<open>pl\<close> (for the plus sign) is what
  \<open>php_url_decode\<close> has and \<open>php_raw_url_decode\<close> has not. \<open>*dest = '\0'\<close> ends it.
\<close>

function url_decode_loop :: "bool \<Rightarrow> byte list \<Rightarrow> nat \<Rightarrow> nat \<Rightarrow> nat \<Rightarrow> (byte list \<times> nat) option" where
  "url_decode_loop pl str data dest 0 = do { str \<leftarrow> wr dest 0 str; Some (str, dest) }"
| "url_decode_loop pl str data dest (Suc len) = do {
     c \<leftarrow> rd str data;
     if pl \<and> c = 43 then do {
       str \<leftarrow> wr dest 32 str;
       url_decode_loop pl str (data + 1) (dest + 1) len
     }
     else do {
       hex \<leftarrow> (if c = 37 \<and> len \<ge> 2 then do { x \<leftarrow> rd str (data + 1); y \<leftarrow> rd str (data + 2); Some (isxdigit x \<and> isxdigit y) }
              else Some False);
       if hex then do {
         str \<leftarrow> wr dest (of_int (php_htoi (str ! (data + 1)) (str ! (data + 2)))) str;
         url_decode_loop pl str (data + 3) (dest + 1) (len - 2)
       }
       else do {
         str \<leftarrow> wr dest c str;
         url_decode_loop pl str (data + 1) (dest + 1) len
       }
     }
   }"
  by pat_completeness auto
termination
  by (relation "measure (\<lambda>(_, _, _, _, len). len)") auto

text \<open>The result, \<open>dest - str\<close>, is at most \<open>len\<close>; with a negative \<open>len\<close> the loop would run out of the buffer.\<close>

definition php_url_decode :: "byte list \<Rightarrow> int \<Rightarrow> (byte list \<times> int) option" where
  "php_url_decode str len =
     (if len < 0 then None else map_option (\<lambda>(str, dest). (str, to_int (int dest))) (url_decode_loop True str 0 0 (nat len)))"

definition php_raw_url_decode :: "byte list \<Rightarrow> int \<Rightarrow> (byte list \<times> int) option" where
  "php_raw_url_decode str len =
     (if len < 0 then None else map_option (\<lambda>(str, dest). (str, to_int (int dest))) (url_decode_loop False str 0 0 (nat len)))"

text \<open>The PHP functions \<open>urlencode\<close>, \<open>urldecode\<close>, \<open>rawurlencode\<close>, \<open>rawurldecode\<close>.\<close>

definition urlencode :: "byte list \<Rightarrow> byte list option" where
  "urlencode in_str = do {
     in_str_len \<leftarrow> string_length in_str;
     (out_str, out_str_len) \<leftarrow> php_url_encode in_str in_str_len;
     RETURN_STRINGL out_str out_str_len
   }"

definition urldecode :: "byte list \<Rightarrow> byte list option" where
  "urldecode in_str = do {
     in_str_len \<leftarrow> string_length in_str;
     (out_str, out_str_len) \<leftarrow> php_url_decode (in_str @ [0]) in_str_len;
     RETURN_STRINGL out_str out_str_len
   }"

definition rawurlencode :: "byte list \<Rightarrow> byte list option" where
  "rawurlencode in_str = do {
     in_str_len \<leftarrow> string_length in_str;
     (out_str, out_str_len) \<leftarrow> php_raw_url_encode in_str in_str_len;
     RETURN_STRINGL out_str out_str_len
   }"

definition rawurldecode :: "byte list \<Rightarrow> byte list option" where
  "rawurldecode in_str = do {
     in_str_len \<leftarrow> string_length in_str;
     (out_str, out_str_len) \<leftarrow> php_raw_url_decode (in_str @ [0]) in_str_len;
     RETURN_STRINGL out_str out_str_len
   }"

subsection \<open>The decoders as functions on lists\<close>

fun url_decoded :: "bool \<Rightarrow> byte list \<Rightarrow> byte list" where
  "url_decoded pl (c # x # y # s) =
     (if pl \<and> c = 43 then 32 # url_decoded pl (x # y # s)
      else if c = 37 \<and> isxdigit x \<and> isxdigit y then of_int (php_htoi x y) # url_decoded pl s
      else c # url_decoded pl (x # y # s))"
| "url_decoded pl (c # s) = (if pl \<and> c = 43 then 32 else c) # url_decoded pl s"
| "url_decoded pl [] = []"

lemma length_url_decoded: "length (url_decoded pl s) \<le> length s"
  by (induction pl s rule: url_decoded.induct) auto

lemma url_decoded_cons:
  "url_decoded pl (c # s) =
     (if pl \<and> c = 43 then 32 # url_decoded pl s
      else (case s of x # y # r \<Rightarrow> if c = 37 \<and> isxdigit x \<and> isxdigit y then of_int (php_htoi x y) # url_decoded pl r
              else c # url_decoded pl s
            | _ \<Rightarrow> c # url_decoded pl s))"
  by (cases s; cases "tl s") (simp_all split: list.split)

lemma url_decoded_short: "length s < 2 \<Longrightarrow> \<not> (pl \<and> c = 43) \<Longrightarrow> url_decoded pl (c # s) = c # url_decoded pl s"
  by (cases s; cases "tl s") (simp_all add: url_decoded_cons [of pl c])

text \<open>
  The decoder reads at \<open>data\<close>, never before \<open>dest\<close>, where it has written: it decodes the original
  bytes, and stays within the buffer.
\<close>

lemma url_decode_loop_run:
  assumes "data + len < length str" and "dest \<le> data"
  shows "\<exists>str'. url_decode_loop pl str data dest len = Some (str', dest + length (url_decoded pl (take len (drop data str)))) \<and>
    length str' = length str \<and>
    take (dest + length (url_decoded pl (take len (drop data str)))) str' = take dest str @ url_decoded pl (take len (drop data str))"
  using assms
proof (induction len arbitrary: str data dest rule: less_induct)
  case (less len)
  show ?case
  proof (cases len)
    case 0
    then show ?thesis using less.prems by (simp add: wr_simps)
  next
    case (Suc n)
    let ?s = "take n (drop (data + 1) str)"
    define c where "c = str ! data"
    have dl: "dest < length str" using less.prems by simp
    have hd: "take len (drop data str) = c # ?s"
      using less.prems Suc by (simp add: c_def Cons_nth_drop_Suc [symmetric])
    have step: ?thesis
      if d: "url_decoded pl (take len (drop data str)) = v # url_decoded pl (take m (drop (data + k) str))"
        and r: "url_decode_loop pl str data dest len = url_decode_loop pl (str[dest := v]) (data + k) (dest + 1) m"
        and "m < len" "data + k + m < length str" "0 < k" for v k m
    proof -
      have "drop (data + k) (str[dest := v]) = drop (data + k) str" using less.prems that by simp
      moreover have "take (Suc dest) (str[dest := v]) = take dest str @ [v]" using take_write [OF dl] .
      ultimately show ?thesis
        unfolding d r using less.IH [of m "data + k" "str[dest := v]" "dest + 1"] less.prems that(3-5) by auto
    qed
    have one: "n < len" "data + 1 + n < length str" "(0 :: nat) < 1" using Suc less.prems by auto
    have plain: ?thesis if "url_decoded pl (c # ?s) = v # url_decoded pl ?s"
      and "url_decode_loop pl str data dest len = url_decode_loop pl (str[dest := v]) (data + 1) (dest + 1) n" for v
      by (rule step [OF _ that(2) one]) (simp only: hd that(1))
    consider (pl) "pl \<and> c = 43" | (hex) m where "\<not> (pl \<and> c = 43)" "c = 37" "n = Suc (Suc m)"
        "isxdigit (str ! (data + 1))" "isxdigit (str ! (data + 2))"
      | (other) "\<not> (pl \<and> c = 43)" "c = 37 \<longrightarrow> n \<ge> 2 \<longrightarrow> \<not> (isxdigit (str ! (data + 1)) \<and> isxdigit (str ! (data + 2)))"
      by (metis add_2_eq_Suc le_Suc_ex)
    then show ?thesis
    proof cases
      case pl
      show ?thesis
        by (rule plain [of 32]) (use pl Suc less.prems dl in \<open>simp_all add: url_decoded_cons rd_simps wr_simps c_def\<close>)
    next
      case hex
      let ?r = "take m (drop (data + 3) str)"
      have tl: "?s = str ! (data + 1) # str ! (data + 2) # ?r"
        using less.prems Suc hex(3) drop_two [of "data + 1" str] by (simp add: numeral_eq_Suc)
      show ?thesis
      proof (rule step)
        show "url_decoded pl (take len (drop data str)) =
            of_int (php_htoi (str ! (data + 1)) (str ! (data + 2))) # url_decoded pl (take m (drop (data + 3) str))"
          unfolding hd tl using hex by (simp add: url_decoded_cons [of pl c])
        show "url_decode_loop pl str data dest len = url_decode_loop pl
            (str[dest := of_int (php_htoi (str ! (data + 1)) (str ! (data + 2)))]) (data + 3) (dest + 1) m"
          using hex Suc less.prems dl by (simp add: rd_simps wr_simps c_def)
      qed (use hex Suc less.prems in auto)
    next
      case other
      have "url_decoded pl (c # ?s) = c # url_decoded pl ?s"
      proof (cases "n \<ge> 2")
        case True
        then obtain m where "n = Suc (Suc m)" by (metis add_2_eq_Suc le_Suc_ex)
        then have "?s = str ! (data + 1) # str ! (data + 2) # take m (drop (data + 3) str)"
          using less.prems Suc drop_two [of "data + 1" str] by (simp add: numeral_eq_Suc)
        then show ?thesis using other True by (auto simp: url_decoded_cons [of pl c])
      next
        case False
        then have "length ?s < 2" by simp
        then show ?thesis using other(1) by (rule url_decoded_short)
      qed
      then show ?thesis
        by (rule plain) (use other Suc less.prems dl in \<open>auto simp: rd_simps wr_simps c_def\<close>)
    qed
  qed
qed

subsection \<open>The two encodings\<close>

lemma hex_roundtrip: "isxdigit (hex_hi c) \<and> isxdigit (hex_lo c) \<and> of_int (php_htoi (hex_hi c) (hex_lo c)) = c"
  by (rule all_bytes, unfold hex_hi_def) code_simp

text \<open>The bytes an encoder leaves as they are or writes: letters, digits, \<open>-\<close>, \<open>.\<close>, \<open>_\<close> and \<open>%\<close>.\<close>

definition url_safe :: "byte set \<Rightarrow> byte \<Rightarrow> bool" where
  "url_safe extra c \<longleftrightarrow> isdigit c \<or> 65 \<le> c \<and> c \<le> 90 \<or> 97 \<le> c \<and> c \<le> 122 \<or> c \<in> {37, 45, 46, 95} \<union> extra"

lemma hex_safe: "url_safe extra (hex_hi c)" "url_safe extra (hex_lo c)" "url_safe extra 37"
proof -
  have "\<forall>d \<in> set hexchars. isdigit d \<or> 65 \<le> d \<and> d \<le> 90" by code_simp
  moreover have "hex_hi c \<in> set hexchars \<and> hex_lo c \<in> set hexchars"
    by (rule all_bytes, unfold hex_hi_def) code_simp
  ultimately show "url_safe extra (hex_hi c)" "url_safe extra (hex_lo c)" by (auto simp: url_safe_def)
qed (simp add: url_safe_def)

lemma url_decoded_escape: "url_decoded pl (url_escape c @ s) = c # url_decoded pl s"
  using hex_roundtrip [of c] by (simp add: url_escape_def)

lemma url_decoded_plain: "c \<noteq> 37 \<Longrightarrow> \<not> (pl \<and> c = 43) \<Longrightarrow> url_decoded pl (c # s) = c # url_decoded pl s"
  by (simp add: url_decoded_cons split: list.split)

lemma digits_and_above: "\<not> c < (48 :: byte) \<Longrightarrow> c \<noteq> 37 \<and> c \<noteq> 43"
  by auto

lemma url_encode_roundtrip: "url_decoded True (url_encode_loop s) = s"
  by (induction s) (auto simp: url_decoded_escape url_decoded_plain url_decoded_cons [of True 43] dest: digits_and_above)

lemma raw_url_encode_roundtrip: "url_decoded False (raw_url_encode_loop s) = s"
  by (induction s) (auto simp: url_decoded_escape url_decoded_plain dest: digits_and_above)

lemma not_escaped_safe:
  "\<not> ((c < 48 \<and> c \<noteq> 45 \<and> c \<noteq> 46) \<or> (c < 65 \<and> c > 57) \<or> (c > 90 \<and> c < 97 \<and> c \<noteq> 95) \<or> c > 122) \<Longrightarrow> url_safe extra c"
  by (auto simp: url_safe_def isdigit_def not_less)

lemma url_escape_safe: "\<forall>c \<in> set (url_escape d). url_safe extra c"
  using hex_safe by (simp add: url_escape_def)

lemma url_encode_safe: "\<forall>c \<in> set (url_encode_loop s). url_safe {43} c"
proof (induction s)
  case (Cons d s)
  show ?case
  proof (cases "(d < 48 \<and> d \<noteq> 45 \<and> d \<noteq> 46) \<or> (d < 65 \<and> d > 57) \<or> (d > 90 \<and> d < 97 \<and> d \<noteq> 95) \<or> d > 122")
    case True
    then show ?thesis using Cons url_escape_safe [of d "{43}"] by (simp only: url_encode_loop.simps) (simp add: ball_Un url_safe_def)
  next
    case False
    then show ?thesis using Cons not_escaped_safe [OF False, of "{43}"] by (simp only: url_encode_loop.simps) (simp add: url_safe_def)
  qed
qed simp

lemma raw_url_encode_safe: "\<forall>c \<in> set (raw_url_encode_loop s). url_safe {126} c"
proof (induction s)
  case (Cons d s)
  define escaped where "escaped \<longleftrightarrow>
    (d < 48 \<and> d \<noteq> 45 \<and> d \<noteq> 46) \<or> (d < 65 \<and> d > 57) \<or> (d > 90 \<and> d < 97 \<and> d \<noteq> 95) \<or> (d > 122 \<and> d \<noteq> 126)"
  have step: "raw_url_encode_loop (d # s) = (if escaped then url_escape d @ raw_url_encode_loop s else d # raw_url_encode_loop s)"
    unfolding escaped_def by (simp only: raw_url_encode_loop.simps)
  show ?case
  proof (cases escaped)
    case True
    then show ?thesis using Cons url_escape_safe [of d "{126}"] unfolding step by (simp add: ball_Un)
  next
    case False
    have "url_safe {126} d"
    proof (cases "d = 126")
      case False
      then show ?thesis using \<open>\<not> escaped\<close> not_escaped_safe [of d "{126}"] by (simp add: escaped_def)
    qed (simp add: url_safe_def)
    then show ?thesis using Cons False unfolding step by simp
  qed
qed simp

lemma decode_string_run:
  assumes "int (length s) \<le> INT_MAX"
  shows "do {
     len \<leftarrow> string_length s;
     (out, n) \<leftarrow> (if len < 0 then None else map_option (\<lambda>(str, dest). (str, to_int (int dest))) (url_decode_loop pl (s @ [0]) 0 0 (nat len)));
     RETURN_STRINGL out n
   } = Some (url_decoded pl s)"
proof -
  obtain str' where r: "url_decode_loop pl (s @ [0]) 0 0 (length s) = Some (str', length (url_decoded pl s))"
    "length str' = Suc (length s)" "take (length (url_decoded pl s)) str' = url_decoded pl s"
    using url_decode_loop_run [of 0 "length s" "s @ [0]" 0 pl] by auto
  have l: "length (url_decoded pl s) \<le> length s" by (rule length_url_decoded)
  then have "to_int (int (length (url_decoded pl s))) = int (length (url_decoded pl s))"
    using assms by (intro to_int_id) (simp_all add: INT_MAX_def)
  then show ?thesis using r l by (simp add: string_length_run [OF assms] RETURN_STRINGL_def)
qed

lemma urldecode_run: "int (length s) \<le> INT_MAX \<Longrightarrow> urldecode s = Some (url_decoded True s)"
  and rawurldecode_run: "int (length s) \<le> INT_MAX \<Longrightarrow> rawurldecode s = Some (url_decoded False s)"
  using decode_string_run [of s True] decode_string_run [of s False]
  by (simp_all add: urldecode_def rawurldecode_def php_url_decode_def php_raw_url_decode_def)

lemma url_encode_length: "length (url_encode_loop s) \<le> 3 * length s" "length (raw_url_encode_loop s) \<le> 3 * length s"
  by (induction s) (auto simp: url_escape_def)

text \<open>Three bytes for each byte are still an \<open>int\<close>.\<close>

definition url_fits :: "byte list \<Rightarrow> bool" where
  "url_fits s \<longleftrightarrow> 3 * int (length s) \<le> INT_MAX"

lemma url_fits_length:
  assumes "url_fits s"
  shows "int (length s) \<le> INT_MAX" "int (length (url_encode_loop s)) \<le> INT_MAX" "int (length (raw_url_encode_loop s)) \<le> INT_MAX"
  using assms url_encode_length [of s] unfolding url_fits_def by linarith+

lemma urlencode_run: "url_fits s \<Longrightarrow> urlencode s = Some (url_encode_loop s)"
proof -
  assume f: "url_fits s"
  have "to_int (int (length (url_encode_loop s))) = int (length (url_encode_loop s))"
    using url_fits_length(2) [OF f] by (intro to_int_id) (simp_all add: INT_MAX_def)
  then show ?thesis by (simp add: urlencode_def php_url_encode_def string_length_run [OF url_fits_length(1) [OF f]] Let_def)
qed

lemma rawurlencode_run: "url_fits s \<Longrightarrow> rawurlencode s = Some (raw_url_encode_loop s)"
  using url_fits_length(1,3) [of s]
  by (simp add: rawurlencode_def php_raw_url_encode_def string_length_run Let_def)

interpretation url: codec urlencode urldecode url_fits "url_safe {43}"
  by unfold_locales
     (auto simp: urlencode_run urldecode_run url_encode_roundtrip url_fits_length dest: bspec [OF url_encode_safe])

interpretation rawurl: codec rawurlencode rawurldecode url_fits "url_safe {126}"
  by unfold_locales
     (auto simp: rawurlencode_run rawurldecode_run raw_url_encode_roundtrip url_fits_length dest: bspec [OF raw_url_encode_safe])

subsection \<open>Properties\<close>

text \<open>
  C38: decoding in place, on any string, stays within the buffer, is not disturbed by its own writes,
  and undoes the encoding, for \<open>urlencode\<close> and \<open>rawurlencode\<close>; so fields encoded and joined with
  a separator such as \<open>&\<close> are recovered by splitting and decoding. Strings to be encoded are at most a third of
  \<open>INT_MAX\<close> bytes long, for the length of the result to be an \<open>int\<close>.
\<close>

theorem url_codec_roundtrip:
  assumes "int (length t) \<le> INT_MAX" and "3 * int (length s) \<le> INT_MAX" and "\<forall>f \<in> set (f # fs). 3 * int (length f) \<le> INT_MAX"
  shows "urldecode t = Some (url_decoded True t) \<and> rawurldecode t = Some (url_decoded False t) \<and>
   (\<exists>e. urlencode s = Some e \<and> urldecode e = Some s) \<and> (\<exists>e. rawurlencode s = Some e \<and> rawurldecode e = Some s) \<and>
   (\<exists>es. map urlencode (f # fs) = map Some es \<and> map urldecode (split_fields 38 (join_fields 38 es)) = map Some (f # fs))"
proof -
  have s: "url_fits s" and f: "\<forall>f \<in> set (f # fs). url_fits f" using assms(2,3) by (simp_all add: url_fits_def)
  have "map urlencode (f # fs) = map Some (map url_encode_loop (f # fs))" using f by (simp add: urlencode_run)
  moreover then have "map urldecode (split_fields 38 (join_fields 38 (map url_encode_loop (f # fs)))) = map Some (f # fs)"
    by (intro url.fields_roundtrip [OF _ f]) (simp_all add: url_safe_def isdigit_def)
  ultimately show ?thesis
    using urldecode_run [OF assms(1)] rawurldecode_run [OF assms(1)] url.enc_total [OF s] url.dec_enc [OF s]
      rawurl.enc_total [OF s] rawurl.dec_enc [OF s] by blast
qed

theorem url_codec_roundtrip_witness:
  "urlencode [97, 32, 38] = Some [97, 43, 37, 50, 54] \<and> urldecode [97, 43, 37, 50, 54] = Some [97, 32, 38]"
proof -
  have e: "urlencode [97, 32, 38] = Some [97, 43, 37, 50, 54]" by code_simp
  then show ?thesis using url_codec_roundtrip [of "[]" "[97, 32, 38]" "[]" "[]"] by (auto simp: INT_MAX_def)
qed

end
