(* ===== verification/Base64.thy ===== *)
theory Base64
  imports Bytes
begin

text \<open>
  \<open>ext/standard/base64.c\<close>. The decoder reads a NUL-terminated string and writes a buffer of one
  byte more than its length, whose contents are arbitrary at first (\<open>result\<close> of the caller here).
  A result of the decoder is \<open>None\<close> for undefined behaviour, \<open>Some None\<close> for \<open>NULL\<close>.
\<close>

definition base64_table :: "byte list" where
  "base64_table =
    [65, 66, 67, 68, 69, 70, 71, 72, 73, 74, 75, 76, 77,
     78, 79, 80, 81, 82, 83, 84, 85, 86, 87, 88, 89, 90,
     97, 98, 99, 100, 101, 102, 103, 104, 105, 106, 107, 108, 109,
     110, 111, 112, 113, 114, 115, 116, 117, 118, 119, 120, 121, 122,
     48, 49, 50, 51, 52, 53, 54, 55, 56, 57, 43, 47, 0]"

definition base64_pad :: byte where "base64_pad = 61"

definition base64_reverse_table :: "int list" where
  "base64_reverse_table =
    [-2, -2, -2, -2, -2, -2, -2, -2, -2, -1, -1, -2, -2, -1, -2, -2,
     -2, -2, -2, -2, -2, -2, -2, -2, -2, -2, -2, -2, -2, -2, -2, -2,
     -1, -2, -2, -2, -2, -2, -2, -2, -2, -2, -2, 62, -2, -2, -2, 63,
     52, 53, 54, 55, 56, 57, 58, 59, 60, 61, -2, -2, -2, -2, -2, -2,
     -2,  0,  1,  2,  3,  4,  5,  6,  7,  8,  9, 10, 11, 12, 13, 14,
     15, 16, 17, 18, 19, 20, 21, 22, 23, 24, 25, -2, -2, -2, -2, -2,
     -2, 26, 27, 28, 29, 30, 31, 32, 33, 34, 35, 36, 37, 38, 39, 40,
     41, 42, 43, 44, 45, 46, 47, 48, 49, 50, 51, -2, -2, -2, -2, -2,
     -2, -2, -2, -2, -2, -2, -2, -2, -2, -2, -2, -2, -2, -2, -2, -2,
     -2, -2, -2, -2, -2, -2, -2, -2, -2, -2, -2, -2, -2, -2, -2, -2,
     -2, -2, -2, -2, -2, -2, -2, -2, -2, -2, -2, -2, -2, -2, -2, -2,
     -2, -2, -2, -2, -2, -2, -2, -2, -2, -2, -2, -2, -2, -2, -2, -2,
     -2, -2, -2, -2, -2, -2, -2, -2, -2, -2, -2, -2, -2, -2, -2, -2,
     -2, -2, -2, -2, -2, -2, -2, -2, -2, -2, -2, -2, -2, -2, -2, -2,
     -2, -2, -2, -2, -2, -2, -2, -2, -2, -2, -2, -2, -2, -2, -2, -2,
     -2, -2, -2, -2, -2, -2, -2, -2, -2, -2, -2, -2, -2, -2, -2, -2]"

subsection \<open>Encoding\<close>

text \<open>The four table indices of three octets, in \<open>int\<close> arithmetic on non-negative numbers.\<close>

definition b64 :: "nat \<Rightarrow> byte" where "b64 n = base64_table ! n"

fun base64_encode_loop :: "byte list \<Rightarrow> byte list" where
  "base64_encode_loop (c0 # c1 # c2 # current) =
     b64 (drop_bit 2 (unat c0)) # b64 (push_bit 4 (unat c0 AND 3) + drop_bit 4 (unat c1)) #
     b64 (push_bit 2 (unat c1 AND 15) + drop_bit 6 (unat c2)) # b64 (unat c2 AND 63) #
     base64_encode_loop current"
| "base64_encode_loop [c0, c1] =
     [b64 (drop_bit 2 (unat c0)), b64 (push_bit 4 (unat c0 AND 3) + drop_bit 4 (unat c1)),
      b64 (push_bit 2 (unat c1 AND 15)), base64_pad]"
| "base64_encode_loop [c0] =
     [b64 (drop_bit 2 (unat c0)), b64 (push_bit 4 (unat c0 AND 3)), base64_pad, base64_pad]"
| "base64_encode_loop [] = []"

text \<open>
  \<open>Some None\<close> for \<open>NULL\<close>; otherwise the result without its NUL, and \<open>*ret_length\<close>, to which
  \<open>(int)(p - result)\<close> cuts the number of bytes written. \<open>length + 2\<close> is computed in \<open>int\<close>.
\<close>

definition php_base64_encode :: "byte list \<Rightarrow> int \<Rightarrow> (byte list \<times> int) option option" where
  "php_base64_encode str len =
     (if len < 0 then Some None
      else do {
        _ \<leftarrow> c_int (len + 2);
        if nat len > length str then None
        else let result = base64_encode_loop (take (nat len) str) in
          Some (Some (result, to_int (int (length result))))
      })"

subsection \<open>Decoding\<close>

text \<open>\<open>while (isspace(*(++current))) continue;\<close>: the byte that \<open>current\<close> is at is passed over unseen.\<close>

fun skip_after :: "byte list \<Rightarrow> byte list option" where
  "skip_after (_ # c # current) = (if isspace c then skip_after (c # current) else Some (c # current))"
| "skip_after _ = None"

lemma skip_after_length: "skip_after cur = Some cur' \<Longrightarrow> length cur' < length cur"
  by (induction cur rule: skip_after.induct) (auto split: if_splits)

text \<open>The \<open>switch (i % 4)\<close>; \<open>|=\<close> reads the buffer first.\<close>

definition or_at :: "nat \<Rightarrow> nat \<Rightarrow> byte list \<Rightarrow> byte list option" where
  "or_at j v result = do { b \<leftarrow> rd result j; wr j (b OR of_nat v) result }"

definition base64_put :: "nat \<Rightarrow> nat \<Rightarrow> nat \<Rightarrow> byte list \<Rightarrow> (nat \<times> byte list) option" where
  "base64_put i j ch result =
     (if i mod 4 = 0 then do { result \<leftarrow> wr j (of_nat (push_bit 2 ch)) result; Some (j, result) }
      else if i mod 4 = 1 then do {
        result \<leftarrow> or_at j (drop_bit 4 ch) result;
        result \<leftarrow> wr (j + 1) (of_nat (push_bit 4 (ch AND 15))) result;
        Some (j + 1, result)
      }
      else if i mod 4 = 2 then do {
        result \<leftarrow> or_at j (drop_bit 2 ch) result;
        result \<leftarrow> wr (j + 1) (of_nat (push_bit 6 (ch AND 3))) result;
        Some (j + 1, result)
      }
      else do { result \<leftarrow> or_at j ch result; Some (j + 1, result) })"

text \<open>
  \<open>length\<close> is still positive when the body runs, and decremented there; \<open>i\<close> and \<open>j\<close> count up to it, within
  an \<open>int\<close>.
\<close>

function base64_decode_loop :: "bool \<Rightarrow> byte list \<Rightarrow> int \<Rightarrow> nat \<Rightarrow> nat \<Rightarrow> byte list \<Rightarrow>
    (byte \<times> nat \<times> nat \<times> byte list) option option" where
  "base64_decode_loop strict [] len i j result = None"
| "base64_decode_loop strict (ch # current) len i j result =
     (if ch = 0 \<or> \<not> len > 0 then Some (Some (ch, i, j, result))
      else if ch = base64_pad then do {
        next_ch \<leftarrow> rd current 0;
        if next_ch \<noteq> base64_pad \<and> (i mod 4 = 1 \<or> strict \<and> len - 1 > 0) then
          (if i mod 4 \<noteq> 1 then do {
             current \<leftarrow> skip_after current;
             if hd current = 0 then base64_decode_loop strict current (len - 1) i j result else Some None
           }
           else Some None)
        else base64_decode_loop strict current (len - 1) i j result
      }
      else let v = base64_reverse_table ! unat ch in
        if (\<not> strict \<and> v < 0) \<or> v = -1 then base64_decode_loop strict current (len - 1) i j result
        else if v = -2 then Some None
        else do {
          (j, result) \<leftarrow> base64_put i j (nat v) result;
          base64_decode_loop strict current (len - 1) (i + 1) j result
        })"
  by pat_completeness auto
termination
  by (relation "measure (\<lambda>(_, cur, _). length cur)") (auto dest: skip_after_length)

definition php_base64_decode_ex :: "byte list \<Rightarrow> byte list \<Rightarrow> int \<Rightarrow> bool \<Rightarrow> byte list option option" where
  "php_base64_decode_ex result str len strict = do {
     r \<leftarrow> base64_decode_loop strict str len 0 0 result;
     (case r of None \<Rightarrow> Some None
      | Some (ch, i, j, result) \<Rightarrow>
          if ch = base64_pad \<and> i mod 4 = 1 then Some None
          else do {
            result \<leftarrow> (if ch = base64_pad \<and> i mod 4 = 2 then wr (j + 1) 0 result
                      else if ch = base64_pad \<and> i mod 4 = 3 then wr j 0 result else Some result);
            result \<leftarrow> wr j 0 result;
            Some (Some (take j result))
          })
   }"

definition php_base64_decode :: "byte list \<Rightarrow> byte list \<Rightarrow> int \<Rightarrow> byte list option option" where
  "php_base64_decode result str len = php_base64_decode_ex result str len False"

text \<open>
  The PHP functions, on a string of the engine (NUL-terminated, with its length); \<open>Some None\<close> is \<open>FALSE\<close>.
\<close>

definition base64_encode :: "byte list \<Rightarrow> byte list option option" where
  "base64_encode str = do {
     len \<leftarrow> string_length str;
     r \<leftarrow> php_base64_encode (str @ [0]) len;
     (case r of None \<Rightarrow> Some None
      | Some (result, ret_length) \<Rightarrow> map_option Some (RETURN_STRINGL result ret_length))
   }"

definition base64_decode :: "bool \<Rightarrow> byte list \<Rightarrow> byte list option option" where
  "base64_decode strict str = do {
     len \<leftarrow> string_length str;
     php_base64_decode_ex (replicate (length str + 1) 0) (str @ [0]) len strict
   }"

end
