(* ===== verification/Sextets.thy ===== *)
theory Sextets
  imports Bytes
begin

text \<open>
  Three octets as four sextets, the way base64 and uuencode both cut them, and back.
\<close>

lemma and_masks: "(n :: nat) AND 3 = n mod 4" "n AND 15 = n mod 16" "n AND 63 = n mod 64"
  using take_bit_eq_mask [of 2 n] take_bit_eq_mask [of 4 n] take_bit_eq_mask [of 6 n]
  by (simp_all add: take_bit_eq_mod mask_eq_exp_minus_1)

lemma shifts: "drop_bit 2 (n :: nat) = n div 4" "drop_bit 4 n = n div 16" "drop_bit 6 n = n div 64"
  "push_bit 2 n = 4 * n" "push_bit 4 n = 16 * n" "push_bit 6 n = 64 * n"
  by (simp_all add: drop_bit_eq_div push_bit_eq_mult)

lemma join_bits:
  "(of_nat (4 * (unat c div 4)) :: byte) OR of_nat (unat c mod 4) = c"
  "(of_nat (16 * (unat c div 16)) :: byte) OR of_nat (unat c mod 16) = c"
  "(of_nat (64 * (unat c div 64)) :: byte) OR of_nat (unat c mod 64) = c"
proof -
  have "(of_nat (push_bit k (drop_bit k (unat c))) :: byte) OR of_nat (take_bit k (unat c)) = c" for k
    by (rule bit_word_eqI) (auto simp: bit_simps)
  from this [of 2] this [of 4] this [of 6]
  show "(of_nat (4 * (unat c div 4)) :: byte) OR of_nat (unat c mod 4) = c"
    "(of_nat (16 * (unat c div 16)) :: byte) OR of_nat (unat c mod 16) = c"
    "(of_nat (64 * (unat c div 64)) :: byte) OR of_nat (unat c mod 64) = c"
    unfolding shifts by (simp_all add: take_bit_eq_mod)
qed

lemma div_bound: "unat (c :: byte) div 4 < 64" "unat c div 16 < 16" "unat c div 64 < 4"
proof -
  have "unat c < 256" using unsigned_less [of c] by simp
  then show "unat c div 4 < 64" "unat c div 16 < 16" "unat c div 64 < 4" by linarith+
qed

text \<open>The sextets of three octets, and the octets of four sextets.\<close>

definition sextets :: "byte \<Rightarrow> byte \<Rightarrow> byte \<Rightarrow> nat \<times> nat \<times> nat \<times> nat" where
  "sextets c0 c1 c2 = (unat c0 div 4, 16 * (unat c0 mod 4) + unat c1 div 16,
     4 * (unat c1 mod 16) + unat c2 div 64, unat c2 mod 64)"

definition octets :: "nat \<Rightarrow> nat \<Rightarrow> nat \<Rightarrow> nat \<Rightarrow> byte \<times> byte \<times> byte" where
  "octets n0 n1 n2 n3 = (of_nat (4 * n0) OR of_nat (n1 div 16), of_nat (16 * (n1 mod 16)) OR of_nat (n2 div 4),
     of_nat (64 * (n2 mod 4)) OR of_nat n3)"

lemma sextets_bound:
  assumes "sextets c0 c1 c2 = (n0, n1, n2, n3)"
  shows "n0 < 64 \<and> n1 < 64 \<and> n2 < 64 \<and> n3 < 64"
proof -
  have "16 * (a mod 4) + b < 64" if "b < 16" for a b :: nat using that mod_less_divisor [of 4 a] by linarith
  moreover have "4 * (a mod 16) + b < 64" if "b < 4" for a b :: nat using that mod_less_divisor [of 16 a] by linarith
  ultimately show ?thesis using assms div_bound(1) [of c0] div_bound(2) [of c1] div_bound(3) [of c2]
    by (auto simp: sextets_def)
qed

lemma octets_sextets: "sextets c0 c1 c2 = (n0, n1, n2, n3) \<Longrightarrow> octets n0 n1 n2 n3 = (c0, c1, c2)"
  using div_bound [of c1] div_bound [of c2] join_bits by (auto simp: sextets_def octets_def)

end
