(* ===== verification/Base64_Correct.thy ===== *)
theory Base64_Correct
  imports Base64 Sextets
begin

text \<open>The decoder never leaves its buffers, and undoes the encoder.\<close>

subsection \<open>The tables\<close>

lemma b64_table: "n < 64 \<Longrightarrow> b64 n \<noteq> 0 \<and> b64 n \<noteq> base64_pad \<and> base64_reverse_table ! unat (b64 n) = int n"
proof -
  have "\<forall>n \<in> set [0..<64]. b64 n \<noteq> 0 \<and> b64 n \<noteq> base64_pad \<and> base64_reverse_table ! unat (b64 n) = int n"
    by code_simp
  then show "n < 64 \<Longrightarrow> ?thesis" by simp
qed

lemma base64_encode_loop_sextets:
  "base64_encode_loop (c0 # c1 # c2 # s) =
     (case sextets c0 c1 c2 of (n0, n1, n2, n3) \<Rightarrow> b64 n0 # b64 n1 # b64 n2 # b64 n3 # base64_encode_loop s)"
  "base64_encode_loop [c0, c1] = (case sextets c0 c1 0 of (n0, n1, n2, n3) \<Rightarrow> [b64 n0, b64 n1, b64 n2, base64_pad])"
  "base64_encode_loop [c0] = (case sextets c0 0 0 of (n0, n1, n2, n3) \<Rightarrow> [b64 n0, b64 n1, base64_pad, base64_pad])"
  by (simp_all add: sextets_def and_masks shifts)

lemmas decode_loop_step = base64_decode_loop.simps(2)

declare base64_decode_loop.simps(2) [simp del] of_nat_mult [simp del]

lemma decode_char:
  "n < 64 \<Longrightarrow> len > 0 \<Longrightarrow> base64_decode_loop strict (b64 n # cur) len i j result = do {
     (j, result) \<leftarrow> base64_put i j n result;
     base64_decode_loop strict cur (len - 1) (i + 1) j result }"
  using b64_table [of n] by (simp add: Let_def decode_loop_step)

lemma decode_put:
  "n < 64 \<Longrightarrow> len > 0 \<Longrightarrow> base64_put i j n result = Some (j', result') \<Longrightarrow>
    base64_decode_loop strict (b64 n # cur) len i j result = base64_decode_loop strict cur (len - 1) (i + 1) j' result'"
  by (simp add: decode_char)

lemma put_cases:
  "i mod 4 = 0 \<Longrightarrow> j < length result \<Longrightarrow> base64_put i j n result = Some (j, result[j := of_nat (4 * n)])"
  "i mod 4 = 1 \<Longrightarrow> j + 1 < length result \<Longrightarrow>
     base64_put i j n result = Some (j + 1, result[j := result ! j OR of_nat (n div 16), j + 1 := of_nat (16 * (n mod 16))])"
  "i mod 4 = 2 \<Longrightarrow> j + 1 < length result \<Longrightarrow>
     base64_put i j n result = Some (j + 1, result[j := result ! j OR of_nat (n div 4), j + 1 := of_nat (64 * (n mod 4))])"
  "i mod 4 = 3 \<Longrightarrow> j < length result \<Longrightarrow> base64_put i j n result = Some (j + 1, result[j := result ! j OR of_nat n])"
  by (simp_all add: base64_put_def or_at_def rd_simps wr_simps shifts and_masks)

lemma mods: "i mod 4 = 0 \<Longrightarrow> (i + 1) mod 4 = 1 \<and> (i + 2) mod 4 = 2 \<and> (i + 3) mod 4 = 3 \<and> (i + 4) mod 4 = (0 :: nat)"
  by presburger

lemma decode_group:
  assumes n: "n0 < 64" "n1 < 64" "n2 < 64" "n3 < 64" and i: "i mod 4 = 0" and j: "j + 2 < length result" and len: "len > 3"
    and o: "octets n0 n1 n2 n3 = (c0, c1, c2)"
  shows "base64_decode_loop strict (b64 n0 # b64 n1 # b64 n2 # b64 n3 # cur) len i j result =
    base64_decode_loop strict cur (len - 4) (i + 4) (j + 3) (result[j := c0, j + 1 := c1, j + 2 := c2])"
proof -
  have c: "c0 = of_nat (4 * n0) OR of_nat (n1 div 16)" "c1 = of_nat (16 * (n1 mod 16)) OR of_nat (n2 div 4)"
    "c2 = of_nat (64 * (n2 mod 4)) OR of_nat n3"
    using o by (auto simp: octets_def)
  have j': "j < length result" "j + 1 < length result" using j by simp_all
  let ?r1 = "result[j := of_nat (4 * n0)]"
  let ?r2 = "result[j := c0, j + 1 := of_nat (16 * (n1 mod 16))]"
  let ?r3 = "result[j := c0, j + 1 := c1, j + 2 := of_nat (64 * (n2 mod 4))]"
  have "base64_put i j n0 result = Some (j, ?r1)" using i j' by (simp add: put_cases)
  note s1 = decode_put [OF n(1) _ this, of len]
  have "base64_put (i + 1) j n1 ?r1 = Some (j + 1, ?r2)" using mods [OF i] j' c by (simp add: put_cases)
  note s2 = decode_put [OF n(2) _ this, of "len - 1"]
  have "base64_put (i + 2) (j + 1) n2 ?r2 = Some (j + 2, ?r3)" using mods [OF i] j j' c by (simp add: put_cases)
  note s3 = decode_put [OF n(3) _ this, of "len - 2"]
  have "base64_put (i + 3) (j + 2) n3 ?r3 = Some (j + 3, result[j := c0, j + 1 := c1, j + 2 := c2])"
    using put_cases(4) [of "i + 3" "j + 2" ?r3 n3] mods [OF i] j c by simp
  note s4 = decode_put [OF n(4) _ this, of "len - 3"]
  have e: "i + 1 + 1 = i + 2" "i + 2 + 1 = i + 3" "i + 3 + 1 = i + 4" "len - 1 - 1 = len - 2" "len - 2 - 1 = len - 3" "len - 3 - 1 = len - 4"
    by simp_all
  have p: "len > 0" "len - 1 > 0" "len - 2 > 0" "len - 3 > 0" using len by simp_all
  show ?thesis
    unfolding s1 [OF p(1)] s2 [OF p(2), unfolded e] s3 [OF p(3), unfolded e] s4 [OF p(4), unfolded e] by (rule HOL.refl)
qed

subsection \<open>The round trip\<close>

lemma take_three: "j + 2 < length xs \<Longrightarrow> take (j + 3) (xs[j := a, j + 1 := b, j + 2 := c]) = take j xs @ [a, b, c]"
  by (simp add: numeral_3_eq_3 numeral_2_eq_2 take_Suc_conv_app_nth nth_list_update)

lemma decode_two:
  assumes n: "n0 < 64" "n1 < 64" and i: "i mod 4 = 0" and j: "j + 1 < length result" and len: "len > 1"
  shows "base64_decode_loop strict (b64 n0 # b64 n1 # cur) len i j result =
    base64_decode_loop strict cur (len - 2) (i + 2) (j + 1)
      (result[j := of_nat (4 * n0) OR of_nat (n1 div 16), j + 1 := of_nat (16 * (n1 mod 16))])"
proof -
  have "base64_put i j n0 result = Some (j, result[j := of_nat (4 * n0)])" using i j by (simp add: put_cases)
  note s1 = decode_put [OF n(1) _ this, of len]
  have "base64_put (i + 1) j n1 (result[j := of_nat (4 * n0)]) =
      Some (j + 1, result[j := of_nat (4 * n0) OR of_nat (n1 div 16), j + 1 := of_nat (16 * (n1 mod 16))])"
    using mods [OF i] j by (simp add: put_cases)
  note s2 = decode_put [OF n(2) _ this, of "len - 1"]
  have e: "i + 1 + 1 = i + 2" "len - 1 - 1 = len - 2" and p: "len > 0" "len - 1 > 0" using len by simp_all
  show ?thesis unfolding s1 [OF p(1)] s2 [OF p(2), unfolded e] by (rule HOL.refl)
qed

lemma decode_pads:
  assumes "i mod 4 = 2"
  shows "base64_decode_loop strict [base64_pad, base64_pad, 0] 2 i j result = Some (Some (0, i, j, result))"
    "base64_decode_loop strict [base64_pad, 0] 1 i' j result = (if i' mod 4 = 1 then Some None else Some (Some (0, i', j, result)))"
  using assms by (simp_all add: decode_loop_step base64_pad_def rd_def)

lemma decode_encoded:
  assumes "i mod 4 = 0" and "j + length s < length result"
  shows "\<exists>i' result'. base64_decode_loop strict (base64_encode_loop s @ [0]) (int (length (base64_encode_loop s))) i j result =
      Some (Some (0, i', j + length s, result')) \<and> length result' = length result \<and>
      take (j + length s) result' = take j result @ s"
  using assms
proof (induction s arbitrary: i j result rule: base64_encode_loop.induct)
  case (1 c0 c1 c2 s)
  obtain n0 n1 n2 n3 where n: "sextets c0 c1 c2 = (n0, n1, n2, n3)" by (cases "sextets c0 c1 c2")
  note nb = sextets_bound [OF n]
  define r where "r = result[j := c0, j + 1 := c1, j + 2 := c2]"
  have "(i + 4) mod 4 = 0" "j + 3 + length s < length r" using 1 by (simp_all add: r_def)
  from 1(1) [OF this] obtain i' r' where r': "base64_decode_loop strict (base64_encode_loop s @ [0])
      (int (length (base64_encode_loop s))) (i + 4) (j + 3) r = Some (Some (0, i', j + 3 + length s, r'))"
    "length r' = length r" "take (j + 3 + length s) r' = take (j + 3) r @ s" by blast
  have "base64_decode_loop strict (base64_encode_loop (c0 # c1 # c2 # s) @ [0])
      (int (length (base64_encode_loop (c0 # c1 # c2 # s)))) i j result = Some (Some (0, i', j + 3 + length s, r'))"
    unfolding base64_encode_loop_sextets n
    using decode_group [of n0 n1 n2 n3 i j result "int (length (base64_encode_loop s)) + 4"] nb octets_sextets [OF n] 1(2,3) r'(1)
    by (simp add: r_def algebra_simps)
  moreover have "take (j + 3) r = take j result @ [c0, c1, c2]" unfolding r_def using 1(3) by (intro take_three) simp
  ultimately show ?case using r'
    by (intro exI [of _ i'] exI [of _ r']) (simp add: r_def numeral_3_eq_3)
next
  case (2 c0 c1)
  obtain n0 n1 n2 n3 where n: "sextets c0 c1 0 = (n0, n1, n2, n3)" by (cases "sextets c0 c1 0")
  note nb = sextets_bound [OF n]
  have o: "octets n0 n1 n2 n3 = (c0, c1, 0)" using octets_sextets [OF n] .
  let ?r = "result[j := c0, j + 1 := c1]"
  have put: "base64_put (i + 2) (j + 1) n2 (result[j := c0, j + 1 := of_nat (16 * (n1 mod 16))]) =
      Some (j + 2, result[j := c0, j + 1 := c1, j + 2 := of_nat (64 * (n2 mod 4))])"
    using mods [OF 2(1)] 2(2) o by (simp add: put_cases octets_def)
  have "base64_decode_loop strict (base64_encode_loop [c0, c1] @ [0]) (int (length (base64_encode_loop [c0, c1]))) i j result =
      Some (Some (0, i + 3, j + 2, result[j := c0, j + 1 := c1, j + 2 := of_nat (64 * (n2 mod 4))]))"
    unfolding base64_encode_loop_sextets n
    using decode_two [of n0 n1 i j result 4 strict "[b64 n2, base64_pad, 0]"] nb 2 o put mods [OF 2(1)]
    by (simp add: octets_def decode_char decode_pads(2) [of 2] add.commute [of 3])
  then show ?case using 2 by (simp add: take_Suc_conv_app_nth nth_list_update)
next
  case (3 c0)
  obtain n0 n1 n2 n3 where n: "sextets c0 0 0 = (n0, n1, n2, n3)" by (cases "sextets c0 0 0")
  note nb = sextets_bound [OF n]
  have o: "octets n0 n1 n2 n3 = (c0, 0, 0)" using octets_sextets [OF n] .
  have "base64_decode_loop strict (base64_encode_loop [c0] @ [0]) (int (length (base64_encode_loop [c0]))) i j result =
      Some (Some (0, i + 2, j + 1, result[j := c0, j + 1 := of_nat (16 * (n1 mod 16))]))"
    unfolding base64_encode_loop_sextets n
    using decode_two [of n0 n1 i j result 4 strict "[base64_pad, base64_pad, 0]"] nb 3 o mods [OF 3(1)]
    by (simp add: octets_def decode_pads(1))
  then show ?case using 3 by (simp add: take_Suc_conv_app_nth nth_list_update)
next
  case 4
  then show ?case by (simp add: decode_loop_step)
qed

subsection \<open>Any input\<close>

lemma skip_after_run:
  "cur \<noteq> [] \<Longrightarrow> last cur = 0 \<Longrightarrow> length cur > 1 \<Longrightarrow>
    \<exists>cur'. skip_after cur = Some cur' \<and> cur' \<noteq> [] \<and> last cur' = 0"
  by (induction cur rule: skip_after.induct) (auto simp: isspace_def split: if_splits)

text \<open>After \<open>i\<close> sextets, \<open>j\<close> octets are complete.\<close>

definition octets_done :: "nat \<Rightarrow> nat" where
  "octets_done i = 3 * (i div 4) + (i mod 4 - 1)"

lemma octets_done_le: "octets_done i \<le> i"
proof -
  have "i mod 4 - 1 \<le> i mod 4" by simp
  then show ?thesis using div_mult_mod_eq [of i 4] unfolding octets_done_def by linarith
qed

lemma base64_put_run:
  assumes "i < N" and "length result = N + 1"
  shows "\<exists>result'. base64_put i (octets_done i) n result = Some (octets_done (i + 1), result') \<and> length result' = N + 1"
proof -
  have m: "i mod 4 = 0 \<or> i mod 4 = 1 \<or> i mod 4 = 2 \<or> i mod 4 = 3" by presburger
  have "octets_done (i + 1) = octets_done i + (if i mod 4 = 0 then 0 else 1)"
    using m by (auto simp: octets_done_def div_Suc mod_Suc)
  moreover have "octets_done i \<le> i" by (rule octets_done_le)
  ultimately show ?thesis using assms m put_cases [of i "octets_done i" result n] by auto
qed

lemma decode_loop_total:
  assumes "cur \<noteq> []" and "last cur = 0" and "0 \<le> len" and "int (length cur) = len + 1 \<or> hd cur = 0"
    and "length result = N + 1" and "int i + len \<le> int N" and "j = octets_done i"
  shows "\<exists>r. base64_decode_loop strict cur len i j result = Some r \<and>
    (\<forall>ch i' j' result'. r = Some (ch, i', j', result') \<longrightarrow> ch = 0 \<and> j' \<le> N \<and> length result' = N + 1)"
  using assms
proof (induction "length cur" arbitrary: cur len i j result rule: less_induct)
  case less
  note IH = less.hyps and prems = less.prems
  have jN: "j \<le> N" using prems(3,6,7) octets_done_le [of i] by simp
  obtain ch cs where c: "cur = ch # cs" using prems(1) unfolding neq_Nil_conv by blast
  show ?case
  proof (cases "ch = 0")
    case True
    then show ?thesis using prems(5) jN c by (simp add: decode_loop_step)
  next
    case False
    then have len: "int (length cs) = len" using prems(4) c by simp
    have cs: "cs \<noteq> []" "last cs = 0" using prems(2) c False by (auto split: if_splits)
    then have pos: "len > 0" using len by (cases cs) auto
    have short: "length cs < length cur" using c by simp
    have on: "\<exists>r. base64_decode_loop strict cs (len - 1) i j result = Some r \<and>
        (\<forall>ch i' j' result'. r = Some (ch, i', j', result') \<longrightarrow> ch = 0 \<and> j' \<le> N \<and> length result' = N + 1)"
      using cs len pos prems by (intro IH [OF short]) auto
    have "\<exists>cs'. skip_after cs = Some cs' \<and> cs' \<noteq> [] \<and> last cs' = 0 \<and> length cs' < length cur" if "len - 1 > 0"
      using skip_after_run [OF cs] skip_after_length [of cs] that len short by fastforce
    then have skip: "\<exists>cs' r. skip_after cs = Some cs' \<and> (if hd cs' = 0 then base64_decode_loop strict cs' (len - 1) i j result else Some None) = Some r \<and>
        (\<forall>ch i' j' result'. r = Some (ch, i', j', result') \<longrightarrow> ch = 0 \<and> j' \<le> N \<and> length result' = N + 1)"
      if "len - 1 > 0"
      using that prems IH [of _ "len - 1" result i j] by fastforce
    show ?thesis
    proof (cases "ch = base64_pad")
      case True
      then show ?thesis using c pos False cs on skip len
        by (cases cs) (auto simp: decode_loop_step rd_def)
    next
      case not_pad: False
      define v where "v = base64_reverse_table ! unat ch"
      obtain result' where put: "base64_put i j (nat v) result = Some (octets_done (i + 1), result')" "length result' = N + 1"
        using base64_put_run [of i N result "nat v"] prems(5-7) pos by auto
      have more: "\<exists>r. base64_decode_loop strict cs (len - 1) (i + 1) (octets_done (i + 1)) result' = Some r \<and>
          (\<forall>ch i' j' result'. r = Some (ch, i', j', result') \<longrightarrow> ch = 0 \<and> j' \<le> N \<and> length result' = N + 1)"
        using cs len pos prems put(2) by (intro IH [OF short]) auto
      show ?thesis using c pos False not_pad on more put(1)
        by (simp add: decode_loop_step v_def [symmetric] Let_def)
    qed
  qed
qed

text \<open>The bytes decoded, or \<open>None\<close> where the decoder refuses.\<close>

lemma decode_ex_total:
  assumes "length result = length s + 1"
  shows "\<exists>r. php_base64_decode_ex result (s @ [0]) (int (length s)) strict = Some r"
proof -
  obtain r where r: "base64_decode_loop strict (s @ [0]) (int (length s)) 0 0 result = Some r"
    "\<forall>ch i' j' result'. r = Some (ch, i', j', result') \<longrightarrow> ch = 0 \<and> j' \<le> length s \<and> length result' = length s + 1"
    using decode_loop_total [of "s @ [0]" "int (length s)" result "length s" 0 0 strict] assms
    by (auto simp: octets_done_def)
  then show ?thesis
    by (cases r) (auto simp: php_base64_decode_ex_def wr_simps base64_pad_def)
qed

lemma decode_ex_encoded:
  assumes "length result = length (base64_encode_loop s) + 1" and "length s \<le> length (base64_encode_loop s)"
  shows "php_base64_decode_ex result (base64_encode_loop s @ [0]) (int (length (base64_encode_loop s))) strict = Some (Some s)"
proof -
  have "length s < length result" using assms by simp
  with decode_encoded [of 0 0 s result strict] obtain i' result' where
    "base64_decode_loop strict (base64_encode_loop s @ [0]) (int (length (base64_encode_loop s))) 0 0 result =
      Some (Some (0, i', length s, result'))" "length result' = length result" "take (length s) result' = s" by auto
  then show ?thesis using assms by (simp add: php_base64_decode_ex_def base64_pad_def wr_simps)
qed

lemma encode_longer: "length s \<le> length (base64_encode_loop s)"
  by (induction s rule: base64_encode_loop.induct) auto

lemma encoded_length: "length (base64_encode_loop s) = 4 * ((length s + 2) div 3)"
proof (induction s rule: base64_encode_loop.induct)
  case (1 c0 c1 c2 s)
  have "(length (c0 # c1 # c2 # s) + 2) div 3 = (length s + 2) div 3 + 1" by simp
  then show ?case using 1 by simp
qed simp_all

text \<open>The longest string whose encoding has a length that is an \<open>int\<close>.\<close>

definition base64_fits :: "byte list \<Rightarrow> bool" where
  "base64_fits s \<longleftrightarrow> length s \<le> 1610612733"

lemma base64_fits_iff: "base64_fits s \<longleftrightarrow> int (length (base64_encode_loop s)) \<le> INT_MAX"
proof -
  have "4 * d \<le> 2147483647 \<longleftrightarrow> d < 536870912" for d :: nat by linarith
  moreover have "(n + 2) div 3 < 536870912 \<longleftrightarrow> n \<le> 1610612733" for n :: nat
    unfolding div_less_iff_less_mult [of 3, simplified] by linarith
  ultimately have "4 * ((length s + 2) div 3) \<le> 2147483647 \<longleftrightarrow> length s \<le> 1610612733" by blast
  moreover have "int d \<le> 2 ^ 31 - 1 \<longleftrightarrow> d \<le> 2147483647" for d by simp
  ultimately show ?thesis unfolding base64_fits_def encoded_length INT_MAX_def by blast
qed

lemma base64_encode_run: "base64_fits s \<Longrightarrow> base64_encode s = Some (Some (base64_encode_loop s))"
proof -
  assume f: "base64_fits s"
  then have n: "int (length s) + 2 \<le> INT_MAX" by (simp add: base64_fits_def INT_MAX_def)
  have "to_int (int (length (base64_encode_loop s))) = int (length (base64_encode_loop s))"
    using f unfolding base64_fits_iff by (intro to_int_id) (simp_all add: INT_MAX_def)
  then show ?thesis using n by (simp add: base64_encode_def php_base64_encode_def string_length_def Let_def)
qed

text \<open>\<open>FALSE\<close> being \<open>None\<close>.\<close>

definition base64_encoded :: "byte list \<Rightarrow> byte list option" where
  "base64_encoded s = Option.bind (base64_encode s) id"

definition base64_decoded :: "bool \<Rightarrow> byte list \<Rightarrow> byte list option" where
  "base64_decoded strict s = Option.bind (base64_decode strict s) id"

text \<open>The bytes of an encoding.\<close>

definition base64_char :: "byte \<Rightarrow> bool" where
  "base64_char c \<longleftrightarrow> c \<in> set (butlast base64_table) \<or> c = base64_pad"

lemma b64_char: "n < 64 \<Longrightarrow> base64_char (b64 n)"
proof -
  have "\<forall>n \<in> set [0..<64]. b64 n \<in> set (butlast base64_table)" by code_simp
  then show "n < 64 \<Longrightarrow> ?thesis" by (simp add: base64_char_def)
qed

lemma base64_char_pad: "base64_char base64_pad"
  by (simp add: base64_char_def)

lemma base64_encode_chars: "c \<in> set (base64_encode_loop s) \<Longrightarrow> base64_char c"
proof (induction s rule: base64_encode_loop.induct)
  case (1 c0 c1 c2 s)
  obtain n0 n1 n2 n3 where n: "sextets c0 c1 c2 = (n0, n1, n2, n3)" by (cases "sextets c0 c1 c2")
  show ?case using 1 sextets_bound [OF n] b64_char unfolding base64_encode_loop_sextets n by auto
next
  case (2 c0 c1)
  obtain n0 n1 n2 n3 where n: "sextets c0 c1 0 = (n0, n1, n2, n3)" by (cases "sextets c0 c1 0")
  show ?case using 2 sextets_bound [OF n] b64_char base64_char_pad unfolding base64_encode_loop_sextets n by auto
next
  case (3 c0)
  obtain n0 n1 n2 n3 where n: "sextets c0 0 0 = (n0, n1, n2, n3)" by (cases "sextets c0 0 0")
  show ?case using 3 sextets_bound [OF n] b64_char base64_char_pad unfolding base64_encode_loop_sextets n by auto
qed simp

lemma base64_decode_encoded: "base64_fits s \<Longrightarrow> base64_decode strict (base64_encode_loop s) = Some (Some s)"
  by (simp add: base64_decode_def base64_fits_iff string_length_def decode_ex_encoded encode_longer)

interpretation base64: codec base64_encoded "base64_decoded strict" base64_fits base64_char for strict
  by unfold_locales
     (auto simp: base64_encode_run base64_encoded_def base64_decoded_def base64_decode_encoded intro: base64_encode_chars)

text \<open>A strict decoder that lets one byte of any kind through behind a single pad.\<close>

lemma strict_accepts_byte_after_pad: "base64_decode True [81, 81, 61, 33] = Some (Some [65])"
  by code_simp

subsection \<open>Properties\<close>

text \<open>
  C24: on any string, strict or not, \<open>base64_decode\<close> ends and stays within its two buffers, whatever
  the new buffer holds at first; and it gives back what \<open>base64_encode\<close> encoded, whose result
  consists of the 64 characters and the pad. The string encoded has at most 1610612733 bytes: for a
  longer one the length of the result is not an \<open>int\<close>.
\<close>

theorem base64_roundtrip:
  assumes "length result = length t + 1" and "int (length t) \<le> INT_MAX" and "length s \<le> 1610612733"
  shows "(\<exists>r. php_base64_decode_ex result (t @ [0]) (int (length t)) strict = Some r) \<and>
    (\<exists>e. base64_encode s = Some (Some e) \<and> base64_decode strict e = Some (Some s) \<and> (\<forall>c \<in> set e. base64_char c))"
proof -
  have "base64_fits s" using assms(3) by (simp add: base64_fits_def)
  then show ?thesis
    using decode_ex_total [OF assms(1)] base64_encode_run base64_decode_encoded base64_encode_chars by blast
qed

lemma base64_roundtrip_witness:
  "base64_encode [80, 72, 80, 53] = Some (Some [85, 69, 104, 81, 78, 81, 61, 61]) \<and>
   base64_decode True [85, 69, 104, 81, 78, 81, 61, 61] = Some (Some [80, 72, 80, 53])"
proof -
  have e: "base64_encode [80, 72, 80, 53] = Some (Some [85, 69, 104, 81, 78, 81, 61, 61])" by code_simp
  then show ?thesis using base64_roundtrip [of "[0]" "[]" "[80, 72, 80, 53]" True] by (auto simp: INT_MAX_def)
qed

text \<open>One byte more, and \<open>*ret_length\<close> is negative.\<close>

lemma base64_length_overflows: "length s = 1610612734 \<Longrightarrow> base64_encode s = None"
proof -
  assume n: "length s = 1610612734"
  have l: "length (base64_encode_loop s) = 2147483648" unfolding encoded_length n by simp
  have "to_int 2147483648 = - 2147483648" by (simp add: to_int_def signed_take_bit_eq_if_negative)
  then show ?thesis using n l
    by (simp add: base64_encode_def php_base64_encode_def string_length_def c_int_def INT_MAX_def RETURN_STRINGL_def Let_def)
qed

end
