(* ===== verification/Uuencode.thy ===== *)
theory Uuencode
  imports Bytes
begin

text \<open>
  \<open>ext/standard/uuencode.c\<close>. \<open>char\<close> is signed and shifts of negative numbers are arithmetic, as
  gcc has them. The memory that \<open>src\<close> points to is a list of bytes that ends with the NUL of the
  string; reading behind it is undefined behaviour (\<open>None\<close>). \<open>dest\<close> is what has been written so
  far. \<open>(int) floor(len * 1.33)\<close> is \<open>133 * len div 100\<close>: for the lengths here the product of
  doubles is never rounded across an integer.
\<close>

definition PHP_UU_ENC :: "int \<Rightarrow> byte" where
  "PHP_UU_ENC c = (if c \<noteq> 0 then of_int ((c AND 63) + 32) else 96)"

definition PHP_UU_ENC_C2 :: "byte \<Rightarrow> byte \<Rightarrow> byte" where
  "PHP_UU_ENC_C2 c0 c1 = PHP_UU_ENC ((push_bit 4 (sint c0) AND 48) OR (drop_bit 4 (sint c1) AND 15))"

definition PHP_UU_ENC_C3 :: "byte \<Rightarrow> byte \<Rightarrow> byte" where
  "PHP_UU_ENC_C3 c1 c2 = PHP_UU_ENC ((push_bit 2 (sint c1) AND 60) OR (drop_bit 6 (sint c2) AND 3))"

definition PHP_UU_DEC :: "byte \<Rightarrow> nat" where
  "PHP_UU_DEC c = nat ((sint c - 32) AND 63)"

subsection \<open>Encoding\<close>

text \<open>\<open>while (s < ee)\<close>; returns what is written, and \<open>s\<close>.\<close>

function uu_encode_groups :: "byte list \<Rightarrow> nat \<Rightarrow> nat \<Rightarrow> (byte list \<times> nat) option" where
  "uu_encode_groups src s ee =
     (if s < ee then do {
        c0 \<leftarrow> rd src s;
        c1 \<leftarrow> rd src (s + 1);
        c2 \<leftarrow> rd src (s + 2);
        (rest, s') \<leftarrow> uu_encode_groups src (s + 3) ee;
        Some (PHP_UU_ENC (drop_bit 2 (sint c0)) # PHP_UU_ENC_C2 c0 c1 # PHP_UU_ENC_C3 c1 c2 #
          PHP_UU_ENC (sint c2 AND 63) # rest, s')
      } else Some ([], s))"
  by pat_completeness auto
termination
  by (relation "measure (\<lambda>(_, s, ee). ee - s)") auto

declare uu_encode_groups.simps [simp del]

text \<open>\<open>while ((s + 3) < e)\<close>; returns what is written, \<open>s\<close> and \<open>len\<close>.\<close>

partial_function (option) uu_encode_lines :: "byte list \<Rightarrow> nat \<Rightarrow> nat \<Rightarrow> nat \<Rightarrow> (byte list \<times> nat \<times> nat) option" where
  "uu_encode_lines src s e len =
     (if s + 3 < e then do {
        let (ee, len) = (if s + len > e
          then (if (e - s) mod 3 \<noteq> 0 then (s + (e - s) div 3 * 3, e - s) else (e, e - s)) else (s + len, len));
        (groups, s) \<leftarrow> uu_encode_groups src s ee;
        (out, s, len') \<leftarrow> uu_encode_lines src s e len;
        Some (PHP_UU_ENC (int len) # groups @ (if len = 45 then [10] else []) @ out, s, len')
      } else Some ([], s, len))"

definition uu_encode_tail :: "byte list \<Rightarrow> nat \<Rightarrow> nat \<Rightarrow> nat \<Rightarrow> (byte list \<times> nat) option" where
  "uu_encode_tail src s e len =
     (if s < e then do {
        c0 \<leftarrow> rd src s;
        c1 \<leftarrow> rd src (s + 1);
        x3 \<leftarrow> (if e - s > 1 then do { c2 \<leftarrow> rd src (s + 2); Some (PHP_UU_ENC_C3 c1 c2) } else Some (PHP_UU_ENC 0));
        x4 \<leftarrow> (if e - s > 2 then do { c2 \<leftarrow> rd src (s + 2); Some (PHP_UU_ENC (sint c2 AND 63)) } else Some (PHP_UU_ENC 0));
        Some ((if len = 45 then [PHP_UU_ENC (int (e - s))] else []) @
          [PHP_UU_ENC (drop_bit 2 (sint c0)), PHP_UU_ENC_C2 c0 c1, x3, x4], if len = 45 then 0 else len)
      } else Some ([], len))"

text \<open>
  What is written to \<open>*dest\<close>, without its NUL, and the result, the \<open>int\<close> that \<open>p - *dest\<close> is cut down to. The
  size of \<open>*dest\<close> is not defined for a negative \<open>src_len\<close>.
\<close>

definition php_uuencode :: "byte list \<Rightarrow> int \<Rightarrow> (byte list \<times> int) option" where
  "php_uuencode src src_len =
     (if src_len < 0 then None
      else do {
        (lines, s, len) \<leftarrow> uu_encode_lines src 0 (nat src_len) 45;
        (tail, len) \<leftarrow> uu_encode_tail src s (nat src_len) len;
        let dest = lines @ tail @ (if len < 45 then [10] else []) @ [PHP_UU_ENC 0, 10];
        Some (dest, to_int (int (length dest)))
      })"

subsection \<open>Decoding\<close>

function uu_decode_groups :: "byte list \<Rightarrow> nat \<Rightarrow> nat \<Rightarrow> (byte list \<times> nat) option" where
  "uu_decode_groups src s ee =
     (if s < ee then do {
        c0 \<leftarrow> rd src s;
        c1 \<leftarrow> rd src (s + 1);
        c2 \<leftarrow> rd src (s + 2);
        c3 \<leftarrow> rd src (s + 3);
        (rest, s') \<leftarrow> uu_decode_groups src (s + 4) ee;
        Some (of_nat (push_bit 2 (PHP_UU_DEC c0) OR drop_bit 4 (PHP_UU_DEC c1)) #
          of_nat (push_bit 4 (PHP_UU_DEC c1) OR drop_bit 2 (PHP_UU_DEC c2)) #
          of_nat (push_bit 6 (PHP_UU_DEC c2) OR PHP_UU_DEC c3) # rest, s')
      } else Some ([], s))"
  by pat_completeness auto
termination
  by (relation "measure (\<lambda>(_, s, ee). ee - s)") auto

declare uu_decode_groups.simps [simp del]

text \<open>\<open>Inl ()\<close> is the jump to \<open>err\<close>; otherwise \<open>s\<close>, \<open>total_len\<close> and what has been written.\<close>

partial_function (option) uu_decode_lines ::
  "byte list \<Rightarrow> nat \<Rightarrow> nat \<Rightarrow> nat \<Rightarrow> nat \<Rightarrow> byte list \<Rightarrow> (unit + nat \<times> nat \<times> byte list) option" where
  "uu_decode_lines src src_len s e total_len dest =
     (if s < e then do {
        c \<leftarrow> rd src s;
        let len = PHP_UU_DEC c;
        if len = 0 then Some (Inr (s + 1, total_len, dest))
        else if len > src_len then Some (Inl ())
        else do {
          let ee = s + 1 + (if len = 45 then 60 else 133 * len div 100);
          if ee > e then Some (Inl ())
          else do {
            (out, s) \<leftarrow> uu_decode_groups src (s + 1) ee;
            if len < 45 then Some (Inr (s, total_len + len, dest @ out))
            else uu_decode_lines src src_len (s + 1) e (total_len + len) (dest @ out)
          }
        }
      } else Some (Inr (s, total_len, dest)))"

text \<open>
  \<open>Some None\<close> is the return value -1. \<open>len = total_len > (p - *dest)\<close> makes \<open>len\<close> 0 or 1, so
  that at most one byte more is written. The result is the first \<open>total_len\<close> bytes of \<open>*dest\<close>. \<open>src_len\<close> is
  an \<open>int\<close> that is not negative; \<open>total_len\<close> grows by no more than is read, and stays below it.
\<close>

definition php_uudecode :: "byte list \<Rightarrow> nat \<Rightarrow> byte list option option" where
  "php_uudecode src src_len = do {
     r \<leftarrow> uu_decode_lines src src_len 0 src_len 0 [];
     (case r of Inl _ \<Rightarrow> Some None
      | Inr (s, total_len, dest) \<Rightarrow> do {
          dest \<leftarrow> (if total_len > length dest then do {
              c0 \<leftarrow> rd src s;
              c1 \<leftarrow> rd src (s + 1);
              Some (dest @ [of_nat (push_bit 2 (PHP_UU_DEC c0) OR drop_bit 4 (PHP_UU_DEC c1))])
            } else Some dest);
          if total_len \<le> length dest then Some (Some (take total_len dest)) else None
        })
   }"

text \<open>The PHP functions; an empty string, and a failure, give \<open>FALSE\<close> (\<open>None\<close>).\<close>

definition convert_uuencode :: "byte list \<Rightarrow> byte list option option" where
  "convert_uuencode src = do {
     src_len \<leftarrow> string_length src;
     if src_len < 1 then Some None
     else do {
       (dst, dst_len) \<leftarrow> php_uuencode (src @ [0]) src_len;
       map_option Some (RETURN_STRINGL dst dst_len)
     }
   }"

definition convert_uudecode :: "byte list \<Rightarrow> byte list option option" where
  "convert_uudecode src = do {
     src_len \<leftarrow> string_length src;
     if src_len < 1 then Some None else php_uudecode (src @ [0]) (nat src_len)
   }"

end
