(* ===== verification/Uuencode_Correct.thy ===== *)
theory Uuencode_Correct
  imports Uuencode Sextets
begin

text \<open>The uuencoder writes lines of at most 45 bytes, and the decoder reads them back.\<close>

subsection \<open>Characters\<close>

definition uuc :: "nat \<Rightarrow> byte" where
  "uuc n = (if n = 0 then 96 else of_nat (n + 32))"

lemma int_masks: "(x :: int) AND 3 = take_bit 2 x" "x AND 15 = take_bit 4 x" "x AND 63 = take_bit 6 x"
  using take_bit_eq_mask [of 2 x] take_bit_eq_mask [of 4 x] take_bit_eq_mask [of 6 x] by (simp_all add: mask_eq_exp_minus_1)

lemma sint_small: "k < 128 \<Longrightarrow> sint (of_nat k :: byte) = int k"
  by (simp add: signed_of_nat signed_take_bit_int_eq_self)

lemma uu_table:
  assumes "n < 64"
  shows "PHP_UU_DEC (uuc n) = n" "PHP_UU_ENC (int n) = uuc n"
proof -
  have m: "take_bit 6 (int n) = int n" using assms by (simp add: take_bit_int_eq_self)
  have "PHP_UU_DEC 96 = 0" by code_simp
  moreover have "PHP_UU_DEC (of_nat (n + 32)) = n"
    unfolding PHP_UU_DEC_def using assms sint_small [of "n + 32"] by (simp add: int_masks m)
  ultimately show "PHP_UU_DEC (uuc n) = n" by (cases "n = 0") (simp_all add: uuc_def)
  show "PHP_UU_ENC (int n) = uuc n" by (simp add: PHP_UU_ENC_def uuc_def int_masks m)
qed

lemma uuc_safe: "n < 64 \<Longrightarrow> 32 < uuc n \<and> uuc n \<le> 96"
  by (auto simp: uuc_def word_less_nat_alt word_le_nat_alt unat_word_ariths unat_of_nat)

lemma take_sint:
  fixes c :: byte
  shows "take_bit 6 (drop_bit 2 (sint c)) = int (unat c div 4)" "take_bit 4 (drop_bit 4 (sint c)) = int (unat c div 16)"
    "take_bit 2 (drop_bit 6 (sint c)) = int (unat c div 64)" "take_bit 2 (sint c) = int (unat c mod 4)"
    "take_bit 4 (sint c) = int (unat c mod 16)" "take_bit 6 (sint c) = int (unat c mod 64)"
proof -
  have u: "take_bit 8 (sint c) = int (unat c)" using uint_sint [of c] by simp
  have d: "take_bit (8 - k) (drop_bit k (sint c)) = drop_bit k (int (unat c))" if "k \<le> 8" for k
    using that u by (simp add: take_bit_drop_bit)
  have t: "take_bit k (sint c) = take_bit k (int (unat c))" if "k \<le> 8" for k
    using that u [symmetric] by (simp add: take_bit_take_bit min_def)
  show "take_bit 6 (drop_bit 2 (sint c)) = int (unat c div 4)" "take_bit 4 (drop_bit 4 (sint c)) = int (unat c div 16)"
    "take_bit 2 (drop_bit 6 (sint c)) = int (unat c div 64)"
    using d [of 2] d [of 4] d [of 6] by (simp_all add: drop_bit_eq_div zdiv_int)
  show "take_bit 2 (sint c) = int (unat c mod 4)" "take_bit 4 (sint c) = int (unat c mod 16)" "take_bit 6 (sint c) = int (unat c mod 64)"
    using t [of 2] t [of 4] t [of 6] by (simp_all add: take_bit_eq_mod zmod_int)
qed

lemma or_as_sum: "take_bit n b = b \<Longrightarrow> push_bit n a OR b = push_bit n a + (b :: int)"
proof -
  assume b: "take_bit n b = b"
  have "\<not> bit (push_bit n a) i \<or> \<not> bit b i" for i
    by (subst b [symmetric]) (auto simp: bit_simps)
  then show ?thesis by (simp add: disjunctive_add)
qed

lemma uu_quad:
  assumes "sextets c0 c1 c2 = (n0, n1, n2, n3)"
  shows "PHP_UU_ENC (drop_bit 2 (sint c0)) = uuc n0" "PHP_UU_ENC_C2 c0 c1 = uuc n1" "PHP_UU_ENC_C3 c1 c2 = uuc n2"
    "PHP_UU_ENC (sint c2 AND 63) = uuc n3"
proof -
  note nb = sextets_bound [OF assms]
  have n: "n0 = unat c0 div 4" "n1 = 16 * (unat c0 mod 4) + unat c1 div 16" "n2 = 4 * (unat c1 mod 16) + unat c2 div 64" "n3 = unat c2 mod 64"
    using assms by (simp_all add: sextets_def)
  have enc: "PHP_UU_ENC i = uuc m" if "i AND 63 = int m" and "m < 64" and "i = 0 \<longleftrightarrow> m = 0" for i m
    using that by (auto simp: PHP_UU_ENC_def uuc_def)
  have z: "drop_bit 2 (sint c0) = 0 \<longleftrightarrow> n0 = 0"
  proof -
    have "- 128 \<le> sint c0" "sint c0 < 128" using sint_greater_eq [of c0] sint_less [of c0] by simp_all
    then have "- 32 \<le> sint c0 div 4 \<and> sint c0 div 4 < 32" by linarith
    then have "sint c0 div 4 mod 64 = 0 \<longleftrightarrow> sint c0 div 4 = 0"
      using dvd_imp_le_int [of "sint c0 div 4" 64] by (auto simp: mod_eq_0_iff_dvd)
    moreover have "sint c0 div 4 mod 64 = int n0" using take_sint(1) [of c0] n(1) by (simp add: take_bit_eq_mod drop_bit_eq_div)
    ultimately show ?thesis by (simp add: drop_bit_eq_div)
  qed
  show "PHP_UU_ENC (drop_bit 2 (sint c0)) = uuc n0"
    using nb n z by (intro enc) (simp_all add: int_masks take_sint)
  have e: "PHP_UU_ENC (int m) = uuc m" if "m < 64" for m using uu_table(2) [OF that] .
  have a: "push_bit 4 (sint c0) AND 48 = push_bit 4 (take_bit 2 (sint c0))"
    unfolding int_masks(1) [symmetric] by (simp add: push_bit_and)
  have "(push_bit 4 (sint c0) AND 48) OR (drop_bit 4 (sint c1) AND 15) =
      push_bit 4 (take_bit 2 (sint c0)) + take_bit 4 (drop_bit 4 (sint c1))"
    unfolding a int_masks(2) by (rule or_as_sum) simp
  also have "\<dots> = int n1" unfolding take_sint n by (simp add: push_bit_eq_mult)
  finally show "PHP_UU_ENC_C2 c0 c1 = uuc n1" unfolding PHP_UU_ENC_C2_def using e nb by simp
  have b: "push_bit 2 (sint c1) AND 60 = push_bit 2 (take_bit 4 (sint c1))"
    unfolding int_masks(2) [symmetric] by (simp add: push_bit_and)
  have "(push_bit 2 (sint c1) AND 60) OR (drop_bit 6 (sint c2) AND 3) =
      push_bit 2 (take_bit 4 (sint c1)) + take_bit 2 (drop_bit 6 (sint c2))"
    unfolding b int_masks(1) by (rule or_as_sum) simp
  also have "\<dots> = int n2" unfolding take_sint n by (simp add: push_bit_eq_mult)
  finally show "PHP_UU_ENC_C3 c1 c2 = uuc n2" unfolding PHP_UU_ENC_C3_def using e nb by simp
  show "PHP_UU_ENC (sint c2 AND 63) = uuc n3" unfolding int_masks take_sint using e [of n3] nb n by simp
qed

lemma uu_octets:
  assumes "octets n0 n1 n2 n3 = (c0, c1, c2)"
  shows "of_nat (push_bit 2 n0 OR drop_bit 4 n1) = c0" "of_nat (push_bit 4 n1 OR drop_bit 2 n2) = c1"
    "of_nat (push_bit 6 n2 OR n3) = c2"
proof -
  have "(of_nat (16 * n1) :: byte) = of_nat (16 * (n1 mod 16))" "(of_nat (64 * n2) :: byte) = of_nat (64 * (n2 mod 4))"
    using mult_mod_right [of 16 n1 16] mult_mod_right [of 64 n2 4]
    by (simp_all only: word_of_nat_eq_iff) (simp_all add: take_bit_eq_mod)
  then show "of_nat (push_bit 2 n0 OR drop_bit 4 n1) = c0" "of_nat (push_bit 4 n1 OR drop_bit 2 n2) = c1"
    "of_nat (push_bit 6 n2 OR n3) = c2"
    using assms unfolding of_nat_or_eq shifts by (simp_all add: octets_def del: of_nat_mult)
qed


subsection \<open>Lines\<close>

definition quad :: "byte \<Rightarrow> byte \<Rightarrow> byte \<Rightarrow> byte list" where
  "quad c0 c1 c2 = (case sextets c0 c1 c2 of (n0, n1, n2, n3) \<Rightarrow> [uuc n0, uuc n1, uuc n2, uuc n3])"

fun uu_quads :: "byte list \<Rightarrow> byte list" where
  "uu_quads (c0 # c1 # c2 # s) = quad c0 c1 c2 @ uu_quads s"
| "uu_quads [c0, c1] = quad c0 c1 0"
| "uu_quads [c0] = quad c0 0 0"
| "uu_quads [] = []"

function uu_lines :: "byte list \<Rightarrow> byte list" where
  "uu_lines s = (if s = [] then []
     else if length s < 45 then uuc (length s) # uu_quads s @ [10]
     else uuc 45 # uu_quads (take 45 s) @ 10 # uu_lines (drop 45 s))"
  by pat_completeness auto
termination by (relation "measure length") auto

declare uu_lines.simps [simp del]

lemma quad_chars:
  "quad c0 c1 c2 = [PHP_UU_ENC (drop_bit 2 (sint c0)), PHP_UU_ENC_C2 c0 c1, PHP_UU_ENC_C3 c1 c2, PHP_UU_ENC (sint c2 AND 63)]"
  by (cases "sextets c0 c1 c2") (simp add: quad_def uu_quad)

lemma drop_three: "a + 2 < length xs \<Longrightarrow> drop a xs = xs ! a # xs ! (a + 1) # xs ! (a + 2) # drop (a + 3) xs"
  by (simp add: drop_two Cons_nth_drop_Suc [symmetric] numeral_3_eq_3)

lemma encode_groups_run:
  "a + 3 * k \<le> length src \<Longrightarrow> uu_encode_groups src a (a + 3 * k) = Some (uu_quads (take (3 * k) (drop a src)), a + 3 * k)"
proof (induction k arbitrary: a)
  case 0
  then show ?case by (simp add: uu_encode_groups.simps)
next
  case (Suc k)
  have IH: "uu_encode_groups src (a + 3) (a + 3 + 3 * k) = Some (uu_quads (take (3 * k) (drop (a + 3) src)), a + 3 + 3 * k)"
    using Suc by simp
  have t: "take (3 * Suc k) (drop a src) = src ! a # src ! (a + 1) # src ! (a + 2) # take (3 * k) (drop (a + 3) src)"
    using Suc.prems by (subst drop_three) (auto simp: numeral_3_eq_3)
  have e: "a + 3 * Suc k = a + 3 + 3 * k" by simp
  show ?case unfolding t e
    by (subst uu_encode_groups.simps) (use Suc.prems IH in \<open>simp add: rd_simps quad_chars\<close>)
qed

lemma quads_append: "uu_quads (take (3 * k) xs) @ uu_quads (drop (3 * k) xs) = uu_quads xs"
proof (induction k arbitrary: xs)
  case (Suc k)
  have e: "3 * Suc k = Suc (Suc (Suc (3 * k)))" by simp
  show ?case
  proof (cases xs rule: uu_quads.cases)
    case (1 c0 c1 c2 s)
    show ?thesis unfolding 1 e using Suc [of s] by simp
  qed (simp_all add: e)
qed simp

lemma PHP_UU_ENC_0: "PHP_UU_ENC 0 = 96" "uuc 0 = 96"
  by (simp_all add: PHP_UU_ENC_def uuc_def)

lemma encode_tail_run:
  assumes "drop a s \<noteq> []" and "length (drop a s) \<le> 3"
  shows "uu_encode_tail (s @ [0]) a (length s) len =
    Some ((if len = 45 then [uuc (length (drop a s))] else []) @ uu_quads (drop a s), if len = 45 then 0 else len)"
proof -
  have a: "a < length s" using assms(1) by simp
  have r: "(s @ [0]) ! i = (if i < length s then s ! i else 0)" if "i \<le> length s" for i using that by (simp add: nth_append)
  have hdr: "PHP_UU_ENC (int (length s - a)) = uuc (length s - a)" using assms(2) by (intro uu_table) simp
  consider (one) "length s = a + 1" | (two) "length s = a + 2" | (three) "length s = a + 3" using a assms(2) by fastforce
  then show ?thesis
  proof cases
    case one
    then have d: "drop a s = [s ! a]" using Cons_nth_drop_Suc [OF a] by simp
    show ?thesis unfolding uu_encode_tail_def d using one hdr
      by (auto simp: rd_def r quad_chars PHP_UU_ENC_0 PHP_UU_ENC_C3_def)
  next
    case two
    then have d: "drop a s = [s ! a, s ! (a + 1)]" using drop_two [of a s] by simp
    show ?thesis unfolding uu_encode_tail_def d using two hdr
      by (auto simp: rd_def r quad_chars PHP_UU_ENC_0 numeral_2_eq_2)
  next
    case three
    then have d: "drop a s = [s ! a, s ! (a + 1), s ! (a + 2)]" using drop_three [of a s] by simp
    show ?thesis unfolding uu_encode_tail_def d using three hdr
      by (auto simp: rd_def r quad_chars PHP_UU_ENC_0 numeral_3_eq_3)
  qed
qed


lemma encode_groups_at:
  assumes "a + 3 * k \<le> length s"
  shows "uu_encode_groups (s @ [0]) a (a + 3 * k) = Some (uu_quads (take (3 * k) (drop a s)), a + 3 * k)"
  using encode_groups_run [of a k "s @ [0]"] assms by simp

text \<open>What the two loops and the tail write for the bytes from \<open>p\<close> on.\<close>

definition uu_from :: "byte list \<Rightarrow> nat \<Rightarrow> byte list option" where
  "uu_from s p = do {
     (lines, a, len) \<leftarrow> uu_encode_lines (s @ [0]) p (length s) 45;
     (tail, len) \<leftarrow> uu_encode_tail (s @ [0]) a (length s) len;
     Some (lines @ tail @ (if len < 45 then [10] else [])) }"

lemma encode_lines_stop: "\<not> a + 3 < e \<Longrightarrow> uu_encode_lines src a e len = Some ([], a, len)"
  by (subst uu_encode_lines.simps) (simp only: if_False)

lemma encode_line_part:
  assumes "a + 3 < e" and "a + len > e" and "uu_encode_groups src a (if (e - a) mod 3 \<noteq> 0 then a + (e - a) div 3 * 3 else e) = Some (g, a')"
    and "\<not> a' + 3 < e" and "e - a \<noteq> 45"
  shows "uu_encode_lines src a e len = Some (PHP_UU_ENC (int (e - a)) # g, a', e - a)"
  using assms encode_lines_stop [OF assms(4), of src "e - a"] by (subst uu_encode_lines.simps) (auto split: if_splits)

lemma uu_from_short:
  assumes "p \<le> length s" and "length (drop p s) \<le> 3"
  shows "uu_from s p = Some (uu_lines (drop p s))"
proof -
  have l: "uu_encode_lines (s @ [0]) p (length s) 45 = Some ([], p, 45)"
    using assms by (intro encode_lines_stop) simp
  show ?thesis
  proof (cases "drop p s = []")
    case True
    then have "uu_encode_tail (s @ [0]) p (length s) 45 = Some ([], 45)" by (simp add: uu_encode_tail_def)
    then show ?thesis using l True by (simp add: uu_from_def uu_lines.simps)
  next
    case False
    then show ?thesis using l encode_tail_run [OF False assms(2)] assms(2)
      by (subst uu_lines.simps) (simp add: uu_from_def)
  qed
qed

lemma uu_from_part:
  assumes p: "p \<le> length s" and r: "length (drop p s) = r" "3 < r" "r < 45"
  shows "uu_from s p = Some (uu_lines (drop p s))"
proof -
  define k where "k = r div 3"
  define a where "a = p + 3 * k"
  have k: "3 * k \<le> r" "r mod 3 = r - 3 * k" by (simp_all add: k_def minus_div_mult_eq_mod [symmetric] mult.commute)
  have len: "length s - p = r" "p + 3 < length s" "length s < p + 45" using p r by simp_all
  have hdr: "PHP_UU_ENC (int r) = uuc r" using r by (intro uu_table) simp
  have g: "uu_encode_groups (s @ [0]) p a = Some (uu_quads (take (3 * k) (drop p s)), a)"
    unfolding a_def using p r k by (intro encode_groups_at) simp
  have stop: "\<not> a + 3 < length s"
  proof -
    have "r < 3 * k + 3" using div_mult_mod_eq [of r 3] mod_less_divisor [of 3 r] unfolding k_def by linarith
    then show ?thesis unfolding a_def using len by linarith
  qed
  have ee: "(if r mod 3 \<noteq> 0 then p + r div 3 * 3 else length s) = a"
    unfolding a_def k_def using p len k by (auto simp: mult.commute)
  have l: "uu_encode_lines (s @ [0]) p (length s) 45 = Some (uuc r # uu_quads (take (3 * k) (drop p s)), a, r)"
    using encode_line_part [OF len(2), of 45 "s @ [0]", unfolded len(1) ee, OF len(3) g stop] hdr r by simp
  have q: "uu_quads (take (3 * k) (drop p s)) @ uu_quads (drop a s) = uu_quads (drop p s)"
    using quads_append [of k "drop p s"] by (simp add: a_def add.commute)
  have t: "uu_encode_tail (s @ [0]) a (length s) r = Some (uu_quads (drop a s), r)"
  proof (cases "drop a s = []")
    case True
    then show ?thesis by (simp add: uu_encode_tail_def)
  next
    case False
    have "length (drop a s) \<le> 3" unfolding a_def using r k mod_less_divisor [of 3 r] by simp
    then show ?thesis using encode_tail_run [OF False, of r] r by simp
  qed
  show ?thesis using l t q r by (subst uu_lines.simps) (auto simp: uu_from_def)
qed

lemma uu_from_run: "p \<le> length s \<Longrightarrow> uu_from s p = Some (uu_lines (drop p s))"
proof (induction "length s - p" arbitrary: p rule: less_induct)
  case less
  show ?case
  proof (cases "length (drop p s) < 45")
    case True
    then show ?thesis using uu_from_short uu_from_part less.prems by (metis not_le)
  next
    case False
    then have len: "p + 45 \<le> length s" by simp
    have g: "uu_encode_groups (s @ [0]) p (p + 45) = Some (uu_quads (take 45 (drop p s)), p + 45)"
      using encode_groups_at [of p 15 s] len by simp
    have "PHP_UU_ENC 45 = uuc 45" using uu_table(2) [of 45] by simp
    then have "uu_from s p = map_option (\<lambda>out. uuc 45 # uu_quads (take 45 (drop p s)) @ 10 # out) (uu_from s (p + 45))"
      unfolding uu_from_def using len g
      by (subst uu_encode_lines.simps) (auto simp: map_conv_bind_option split: bind_splits)
    also have "uu_from s (p + 45) = Some (uu_lines (drop (p + 45) s))" using less len by simp
    finally show ?thesis using False
      by (subst uu_lines.simps) (auto simp: add.commute)
  qed
qed

lemma uuencode_run: "php_uuencode (s @ [0]) (int (length s)) = Some (uu_lines s @ [96, 10], to_int (int (length (uu_lines s @ [96, 10]))))"
proof -
  have "php_uuencode (s @ [0]) (int (length s)) =
      map_option (\<lambda>out. (out @ [96, 10], to_int (int (length (out @ [96, 10]))))) (uu_from s 0)"
    unfolding php_uuencode_def uu_from_def by (auto simp: PHP_UU_ENC_0 map_conv_bind_option Let_def split: bind_splits)
  then show ?thesis using uu_from_run [of 0 s] by simp
qed


subsection \<open>Reading the lines back\<close>

fun octet_groups :: "byte list \<Rightarrow> byte list" where
  "octet_groups (c0 # c1 # c2 # s) = c0 # c1 # c2 # octet_groups s"
| "octet_groups [c0, c1] = [c0, c1, 0]"
| "octet_groups [c0] = [c0, 0, 0]"
| "octet_groups [] = []"

lemma octet_groups_take: "take (length s) (octet_groups s) = s \<and> length s \<le> length (octet_groups s)"
  by (induction s rule: octet_groups.induct) auto

lemma length_octets: "length (octet_groups xs) = 3 * ((length xs + 2) div 3)"
proof -
  have "(5 + n) div 3 = Suc ((2 + n) div 3)" for n :: nat by presburger
  then show ?thesis by (induction xs rule: octet_groups.induct) auto
qed

lemma decode_quad:
  assumes d: "drop a src = quad c0 c1 c2 @ rest" and "a < ee" and "uu_decode_groups src (a + 4) ee = Some (out, a')"
  shows "uu_decode_groups src a ee = Some (c0 # c1 # c2 # out, a')"
proof -
  obtain n0 n1 n2 n3 where n: "sextets c0 c1 c2 = (n0, n1, n2, n3)" by (cases "sextets c0 c1 c2")
  have u: "PHP_UU_DEC (uuc n0) = n0" "PHP_UU_DEC (uuc n1) = n1" "PHP_UU_DEC (uuc n2) = n2" "PHP_UU_DEC (uuc n3) = n3"
    using sextets_bound [OF n] by (simp_all add: uu_table)
  have "drop a src = [uuc n0, uuc n1, uuc n2, uuc n3] @ rest" using d n by (simp add: quad_def)
  then have "rd src (a + i) = Some (([uuc n0, uuc n1, uuc n2, uuc n3] @ rest) ! i)" if "i < 4" for i
    unfolding rd_def using that length_drop [of a src] nth_drop [of a src i] by fastforce
  from this [of 0] this [of 1] this [of 2] this [of 3]
  have r: "rd src a = Some (uuc n0)" "rd src (a + 1) = Some (uuc n1)" "rd src (a + 2) = Some (uuc n2)" "rd src (a + 3) = Some (uuc n3)"
    by (simp_all add: numeral_2_eq_2 numeral_3_eq_3)
  show ?thesis using assms(2,3) r u uu_octets [OF octets_sextets [OF n]]
    by (subst uu_decode_groups.simps) (simp only: if_True bind.bind_lunit prod.case)
qed

lemma decode_groups_run:
  assumes "drop a src = uu_quads xs @ rest"
    and "xs = [] \<Longrightarrow> ee \<le> a" "xs \<noteq> [] \<Longrightarrow> a + 4 * ((length xs + 2) div 3) < ee + 4 \<and> ee \<le> a + 4 * ((length xs + 2) div 3)"
  shows "uu_decode_groups src a ee = Some (octet_groups xs, a + 4 * ((length xs + 2) div 3))"
  using assms
proof (induction xs arbitrary: a rule: uu_quads.induct)
  case (1 c0 c1 c2 s)
  have l: "(length (c0 # c1 # c2 # s) + 2) div 3 = (length s + 2) div 3 + 1" by simp
  have d: "drop a src = quad c0 c1 c2 @ uu_quads s @ rest" using 1(2) by simp
  have d4: "drop (a + 4) src = uu_quads s @ rest"
  proof -
    have "drop (a + 4) src = drop 4 (drop a src)" by (simp add: add.commute)
    then show ?thesis unfolding d by (simp add: quad_chars)
  qed
  have "uu_decode_groups src (a + 4) ee = Some (octet_groups s, a + 4 + 4 * ((length s + 2) div 3))"
    using 1(4) unfolding l by (intro 1(1) [OF d4]) (auto simp: div_eq_0_iff)
  moreover have "a < ee" using 1(4) unfolding l by simp
  ultimately show ?case using decode_quad [OF d] unfolding l by simp
next
  case (2 c0 c1)
  have d: "drop a src = quad c0 c1 0 @ rest" "a < ee" "\<not> a + 4 < ee" using 2 by simp_all
  have "uu_decode_groups src (a + 4) ee = Some ([], a + 4)" using d by (simp add: uu_decode_groups.simps)
  then show ?case using decode_quad [OF d(1,2)] by simp
next
  case (3 c0)
  have d: "drop a src = quad c0 0 0 @ rest" "a < ee" "\<not> a + 4 < ee" using 3 by simp_all
  have "uu_decode_groups src (a + 4) ee = Some ([], a + 4)" using d by (simp add: uu_decode_groups.simps)
  then show ?case using decode_quad [OF d(1,2)] by simp
next
  case 4
  then show ?case by (simp add: uu_decode_groups.simps)
qed

text \<open>The \<open>1.33\<close> of the decoder: it finds the end of the last group of a short line.\<close>

lemma line_end:
  fixes r :: nat
  assumes "0 < r" and "r < 45"
  shows "4 * ((r + 2) div 3) < 133 * r div 100 + 4 \<and> 133 * r div 100 \<le> 4 * ((r + 2) div 3)"
proof -
  have "3 * ((r + 2) div 3) \<le> r + 2" "r + 2 < 3 * ((r + 2) div 3) + 3" "100 * (133 * r div 100) \<le> 133 * r"
    "133 * r < 100 * (133 * r div 100) + 100"
    using div_mult_mod_eq [of "r + 2" 3] mod_less_divisor [of 3 "r + 2"] div_mult_mod_eq [of "133 * r" 100]
      mod_less_divisor [of 100 "133 * r"] by linarith+
  then show ?thesis using assms by linarith
qed

lemma length_quads: "length (uu_quads xs) = 4 * ((length xs + 2) div 3)"
proof -
  have "(5 + n) div 3 = Suc ((2 + n) div 3)" for n :: nat by presburger
  then show ?thesis by (induction xs rule: uu_quads.induct) (auto simp: quad_chars)
qed


lemma decode_line:
  assumes d: "drop p src = uuc r # uu_quads xs @ rest" and r: "0 < r" "r < 64" "r \<le> n"
    and ee: "ee = p + 1 + (if r = 45 then 60 else 133 * r div 100)" "ee \<le> e" and p: "p < e"
    and g: "uu_decode_groups src (p + 1) ee = Some (octet_groups xs, p + 1 + 4 * ((length xs + 2) div 3))"
  shows "uu_decode_lines src n p e tot dest =
    (if r < 45 then Some (Inr (p + 1 + 4 * ((length xs + 2) div 3), tot + r, dest @ octet_groups xs))
     else uu_decode_lines src n (p + 1 + 4 * ((length xs + 2) div 3) + 1) e (tot + r) (dest @ octet_groups xs))"
proof -
  have c: "rd src p = Some (uuc r)"
    using d length_drop [of p src] nth_drop [of p src 0] by (fastforce simp: rd_def)
  have "PHP_UU_DEC (uuc r) = r" "r \<noteq> 0" "\<not> r > n" "\<not> ee > e" using r ee(2) by (simp_all add: uu_table)
  with p c g show ?thesis
    by (subst uu_decode_lines.simps)
      (simp only: if_True if_False bind.bind_lunit Let_def prod.case ee(1) [symmetric])
qed

lemma drop_line: "drop p src = x # ys @ zs \<Longrightarrow> drop (p + 1 + length ys) src = zs"
proof -
  assume d: "drop p src = x # ys @ zs"
  have "drop (p + 1 + length ys) src = drop (1 + length ys) (drop p src)" by (simp add: add.commute)
  then show ?thesis unfolding d by simp
qed

lemma decode_lines_run:
  assumes "drop p src = uu_lines xs @ [96, 10, 0]" and "e + 1 = length src"
  shows "\<exists>a out. uu_decode_lines src e p e tot dest = Some (Inr (a, tot + length xs, dest @ out)) \<and>
    take (length xs) out = xs \<and> length xs \<le> length out"
  using assms(1)
proof (induction xs arbitrary: p tot dest rule: uu_lines.induct)
  case (1 s)
  have len: "length src - p = length (uu_lines s) + 3" using arg_cong [OF 1(2), of length] by simp
  then have p: "p < e" using assms(2) by simp
  consider (none) "s = []" | (part) "s \<noteq> []" "length s < 45" | (full) "45 \<le> length s" by fastforce
  then show ?case
  proof cases
    case none
    then have "rd src p = Some 96" using 1(2) nth_drop [of p src 0] len by (simp add: rd_def uu_lines.simps)
    moreover have "PHP_UU_DEC 96 = 0" by code_simp
    ultimately show ?thesis using p none by (subst uu_decode_lines.simps) simp
  next
    case part
    let ?r = "length s" and ?ee = "p + 1 + 133 * length s div 100"
    have l: "uu_lines s = uuc ?r # uu_quads s @ [10]" using part by (simp add: uu_lines.simps)
    have d: "drop p src = uuc ?r # uu_quads s @ [10, 96, 10, 0]" using 1(2) l by simp
    have r: "0 < ?r" using part by simp
    have e: "?ee \<le> e" "?r \<le> e" using len assms(2) line_end [OF r part(2)] l length_quads [of s] by simp_all
    have "uu_decode_groups src (p + 1) ?ee = Some (octet_groups s, p + 1 + 4 * ((length s + 2) div 3))"
      using line_end [OF r part(2)] part drop_line [of p src _ "[]"] d
      by (intro decode_groups_run [where rest = "[10, 96, 10, 0]"]) auto
    then show ?thesis
      using decode_line [OF d r _ e(2) _ _ p, of ?ee] part e octet_groups_take [of s] by auto
  next
    case full
    let ?xs = "take 45 s"
    have x: "length ?xs = 45" using full by simp
    have l: "uu_lines s = uuc 45 # uu_quads ?xs @ 10 # uu_lines (drop 45 s)" using full by (subst uu_lines.simps) auto
    have d: "drop p src = uuc 45 # uu_quads ?xs @ 10 # uu_lines (drop 45 s) @ [96, 10, 0]" using 1(2) l by simp
    have q: "length (uu_quads ?xs) = 60" using length_quads [of ?xs] x by simp
    have e: "p + 1 + 60 \<le> e" using len assms(2) l q by simp
    have g: "uu_decode_groups src (p + 1) (p + 1 + 60) = Some (octet_groups ?xs, p + 1 + 4 * ((length ?xs + 2) div 3))"
      using x drop_line [of p src _ "[]"] d
      by (intro decode_groups_run [where rest = "10 # uu_lines (drop 45 s) @ [96, 10, 0]"]) auto
    have dr: "drop (p + 1 + 60 + 1) src = uu_lines (drop 45 s) @ [96, 10, 0]"
      using drop_line [of p src "uuc 45" "uu_quads ?xs @ [10]"] d q by simp
    have "s \<noteq> []" "\<not> length s < 45" using full by auto
    from 1(1) [OF this dr, of "tot + 45" "dest @ octet_groups ?xs"] obtain a out where IH: "uu_decode_lines src e (p + 1 + 60 + 1) e (tot + 45) (dest @ octet_groups ?xs) =
        Some (Inr (a, tot + 45 + length (drop 45 s), (dest @ octet_groups ?xs) @ out))"
      "take (length (drop 45 s)) out = drop 45 s" "length (drop 45 s) \<le> length out"
      by auto
    have "uu_decode_lines src e p e tot dest = uu_decode_lines src e (p + 1 + 60 + 1) e (tot + 45) (dest @ octet_groups ?xs)"
      using decode_line [OF d _ _ _ _ _ p, of e "p + 1 + 60"] e g x by simp
    moreover have o: "octet_groups ?xs = ?xs"
    proof -
      have "length (octet_groups ?xs) = 45" using length_octets [of ?xs] x by simp
      then show ?thesis using octet_groups_take [of ?xs] x by simp
    qed
    moreover have "take (length s) (?xs @ out) = s"
      using IH(2) full append_take_drop_id [of 45 s] by (simp add: min_def)
    ultimately show ?thesis using IH(1,3) full by (intro exI [of _ a] exI [of _ "?xs @ out"]) simp
  qed
qed


subsection \<open>The encoding\<close>

lemma convert_uudecode_run:
  assumes "int (length (uu_lines s @ [96, 10])) \<le> INT_MAX"
  shows "convert_uudecode (uu_lines s @ [96, 10]) = Some (Some s)"
proof -
  let ?src = "(uu_lines s @ [96, 10]) @ [0]" and ?n = "length (uu_lines s @ [96, 10])"
  obtain a out where out: "uu_decode_lines ?src ?n 0 ?n 0 [] = Some (Inr (a, length s, out))" "take (length s) out = s" "length s \<le> length out"
    using decode_lines_run [of 0 ?src s ?n 0 "[]"] by auto
  have "php_uudecode ?src ?n = Some (Some s)" unfolding php_uudecode_def out(1) using out(2,3) by simp
  moreover have "\<not> int ?n < 1" by simp
  ultimately show ?thesis
    unfolding convert_uudecode_def string_length_run [OF assms] by (simp only: Option.bind.bind_lunit if_False nat_int)
qed

lemma quad_safe: "c \<in> set (quad c0 c1 c2) \<Longrightarrow> 32 < c \<and> c \<le> 96"
proof -
  assume c: "c \<in> set (quad c0 c1 c2)"
  obtain n0 n1 n2 n3 where n: "sextets c0 c1 c2 = (n0, n1, n2, n3)" by (cases "sextets c0 c1 c2")
  show ?thesis using c sextets_bound [OF n] uuc_safe by (auto simp: quad_def n)
qed

lemma quads_safe: "c \<in> set (uu_quads s) \<Longrightarrow> 32 < c \<and> c \<le> 96"
  by (induction s rule: uu_quads.induct) (use quad_safe in auto)

lemma lines_safe: "c \<in> set (uu_lines s) \<Longrightarrow> 32 < c \<and> c \<le> 96 \<or> c = 10"
proof (induction s rule: uu_lines.induct)
  case (1 s)
  show ?case
  proof (cases "length s < 45")
    case True
    then show ?thesis using 1(2) uuc_safe [of "length s"] quads_safe
      by (subst (asm) uu_lines.simps) (auto split: if_splits)
  next
    case False
    then have "s \<noteq> []" by auto
    with False show ?thesis using 1 uuc_safe [of 45] quads_safe
      by (subst (asm) uu_lines.simps) (auto split: if_splits)
  qed
qed

lemma lines_length: "100 * length (uu_lines s) \<le> 138 * length s + 500"
proof (induction s rule: uu_lines.induct)
  case (1 s)
  have q: "3 * length (uu_quads xs) \<le> 4 * (length xs + 2)" for xs unfolding length_quads by simp
  show ?case
  proof (cases "length s < 45")
    case True
    then show ?thesis using q [of s] by (subst uu_lines.simps) auto
  next
    case False
    then have "s \<noteq> []" by auto
    moreover have "length (uu_quads (take 45 s)) = 60" using False length_quads [of "take 45 s"] by simp
    ultimately show ?thesis using 1 False by (subst uu_lines.simps) simp
  qed
qed

text \<open>A string that is not empty, and whose encoding has a length that is an \<open>int\<close>.\<close>

definition uu_fits :: "byte list \<Rightarrow> bool" where
  "uu_fits s \<longleftrightarrow> s \<noteq> [] \<and> 138 * int (length s) + 700 \<le> 100 * INT_MAX"

lemma uu_fits_length:
  assumes "uu_fits s"
  shows "int (length s) \<le> INT_MAX" "int (length (uu_lines s @ [96, 10])) \<le> INT_MAX"
  using assms lines_length [of s] by (simp_all add: uu_fits_def INT_MAX_def)

lemma convert_uuencode_run: "uu_fits s \<Longrightarrow> convert_uuencode s = Some (Some (uu_lines s @ [96, 10]))"
proof -
  assume f: "uu_fits s"
  have "to_int (int (length (uu_lines s @ [96, 10]))) = int (length (uu_lines s @ [96, 10]))"
    using uu_fits_length(2) [OF f] by (intro to_int_id) (simp_all add: INT_MAX_def)
  moreover have "\<not> int (length s) < 1" using f by (auto simp: uu_fits_def)
  ultimately show ?thesis
    unfolding convert_uuencode_def string_length_run [OF uu_fits_length(1) [OF f]]
    by (simp only: Option.bind.bind_lunit if_False uuencode_run prod.case RETURN_STRINGL_run option.map)
qed

definition uu_enc :: "byte list \<Rightarrow> byte list option" where
  "uu_enc s = Option.bind (convert_uuencode s) id"

definition uu_dec :: "byte list \<Rightarrow> byte list option" where
  "uu_dec s = Option.bind (convert_uudecode s) id"

interpretation uu: codec uu_enc uu_dec uu_fits "\<lambda>c. 32 < c \<and> c \<le> 96 \<or> c = 10"
proof unfold_locales
  fix s e c assume f: "uu_fits s"
  then show "\<exists>e. uu_enc s = Some e" by (simp add: uu_enc_def convert_uuencode_run)
  assume "uu_enc s = Some e"
  then have e: "e = uu_lines s @ [96, 10]" using f by (simp add: uu_enc_def convert_uuencode_run)
  show "uu_dec e = Some s" using convert_uudecode_run [OF uu_fits_length(2) [OF f]] by (simp add: e uu_dec_def)
  show "c \<in> set e \<Longrightarrow> 32 < c \<and> c \<le> 96 \<or> c = 10" using lines_safe [of c s] by (auto simp: e)
qed

subsection \<open>Properties\<close>

text \<open>
  C25: what \<open>convert_uuencode\<close> writes for a non-empty string fits into its buffer of
  \<open>ceil(1.38 n) + 46\<close> bytes with its NUL, consists of newlines and bytes from 33 to 96, and
  \<open>convert_uudecode\<close> gives the string back, without reading behind it. The string has at most about
  \<open>INT_MAX / 1.38\<close> bytes, for the length of the result to be an \<open>int\<close>.
\<close>

theorem uuencode_roundtrip:
  assumes "s \<noteq> []" and "138 * int (length s) + 700 \<le> 100 * INT_MAX"
  shows "\<exists>e. convert_uuencode s = Some (Some e) \<and> convert_uudecode e = Some (Some s) \<and>
    100 * (length e + 1) \<le> 138 * length s + 4600 \<and> (\<forall>c \<in> set e. 32 < c \<and> c \<le> 96 \<or> c = 10)"
proof (intro exI conjI)
  have f: "uu_fits s" using assms by (simp add: uu_fits_def)
  show "convert_uuencode s = Some (Some (uu_lines s @ [96, 10]))" by (rule convert_uuencode_run [OF f])
  show "convert_uudecode (uu_lines s @ [96, 10]) = Some (Some s)" by (rule convert_uudecode_run [OF uu_fits_length(2) [OF f]])
  show "100 * (length (uu_lines s @ [96, 10]) + 1) \<le> 138 * length s + 4600" using lines_length [of s] by simp
  show "\<forall>c \<in> set (uu_lines s @ [96, 10]). 32 < c \<and> c \<le> 96 \<or> c = 10" using lines_safe by auto
qed

theorem uuencode_roundtrip_witness:
  "\<exists>e. convert_uuencode [116, 101, 115, 116] = Some (Some e) \<and> convert_uudecode e = Some (Some [116, 101, 115, 116])"
  using uuencode_roundtrip [of "[116, 101, 115, 116]"] by (auto simp: INT_MAX_def)

text \<open>A line cut short after its length is read to its end: the decoder reads behind the string.\<close>

lemma uudecode_overreads: "convert_uudecode [33, 97] = None"
proof -
  have l: "PHP_UU_DEC 33 = 1" by code_simp
  have "uu_decode_groups [33, 97, 0] 1 2 = None"
    by (subst uu_decode_groups.simps) (simp add: rd_def)
  then have "uu_decode_lines [33, 97, 0] 2 0 2 0 [] = None"
    using l by (subst uu_decode_lines.simps) (simp add: rd_def Let_def numeral_2_eq_2)
  then show ?thesis by (simp add: convert_uudecode_def string_length_def INT_MAX_def php_uudecode_def numeral_2_eq_2)
qed

end
