(* ===== verification/Zend_Objects.thy ===== *)
theory Zend_Objects
  imports Zend_Prelude
begin

text \<open>
  The store of objects, \<open>Zend/zend_objects_API.c\<close>: a growing array of buckets, a handle being
  an index into it, with the free buckets linked through a union with the object pointer. Function
  pointers are code addresses of a type \<open>'f\<close>; what the code at an address does to the store is
  a parameter (\<open>callbacks\<close>), since destructors run PHP code. A callback returns whether it ended
  in a bailout (\<open>longjmp\<close>). Apart from the fields of the C structures the store has two more: \<open>moves\<close>
  stands for the address of \<open>object_buckets\<close>, which \<open>erealloc\<close> changes, so that a write through a
  pointer into the old array is seen as what it is; \<open>called\<close> records the events of the
  objects' lives. The root buffer of the cycle collector (\<open>GC_OBJ_INIT\<close>,
  \<open>GC_REMOVE_ZOBJ_FROM_BUFFER\<close> and the field \<open>buffered\<close>) is not part of the model.
\<close>

unbundle bit_operations_syntax

datatype 'o first_word = Object "'o option" | Next int

datatype obj_event = Put uint | Dtor uint | Freed uint | Freed_at_end uint

record ('o, 'f) object_bucket =
  destructor_called :: bool
  valid :: bool
  apply_count :: byte
  first_word :: "'o first_word"
  obj_dtor :: "'f option"
  obj_free_storage :: "'f option"
  obj_clone :: "'f option"
  obj_handlers :: ptr
  obj_refcount :: uint

record ('o, 'f) objects_store =
  object_buckets :: "('o, 'f) object_bucket slots option"
  top_handle :: uint
  store_size :: uint
  free_list_head :: int
  moves :: nat
  called :: "obj_event list"

record ('o, 'f) callbacks =
  run_dtor :: "'f \<Rightarrow> 'o option \<Rightarrow> uint \<Rightarrow> ('o, 'f) objects_store \<Rightarrow> (bool \<times> ('o, 'f) objects_store) option"
  run_free :: "'f \<Rightarrow> 'o option \<Rightarrow> ('o, 'f) objects_store \<Rightarrow> (bool \<times> ('o, 'f) objects_store) option"
  run_clone :: "'f \<Rightarrow> 'o option \<Rightarrow> ('o, 'f) objects_store \<Rightarrow> (bool \<times> 'o option \<times> ('o, 'f) objects_store) option"
  destroy_object :: 'f

record zval_object =
  zval_refcount :: uint
  zval_handle :: uint
  zval_handlers :: ptr

subsection \<open>Reading and writing buckets\<close>

definition bucket_at :: "('o, 'f) objects_store \<Rightarrow> uint \<Rightarrow> ('o, 'f) object_bucket option" where
  "bucket_at st h = slot (object_buckets st) (uint h)"

definition set_bucket :: "uint \<Rightarrow> ('o, 'f) object_bucket \<Rightarrow> ('o, 'f) objects_store \<Rightarrow> ('o, 'f) objects_store option" where
  "set_bucket h b st = do {
     bs \<leftarrow> set_slot (object_buckets st) (uint h) (Some b);
     Some (st\<lparr>object_buckets := bs\<rparr>)
   }"

definition change_bucket :: "uint \<Rightarrow> (('o, 'f) object_bucket \<Rightarrow> ('o, 'f) object_bucket) \<Rightarrow>
    ('o, 'f) objects_store \<Rightarrow> ('o, 'f) objects_store option" where
  "change_bucket h f st = do { b \<leftarrow> bucket_at st h; set_bucket h (f b) st }"

definition object_of :: "('o, 'f) object_bucket \<Rightarrow> 'o option option" where
  "object_of b = (case first_word b of Object obj \<Rightarrow> Some obj | Next _ \<Rightarrow> None)"

definition log_event :: "obj_event \<Rightarrow> ('o, 'f) objects_store \<Rightarrow> ('o, 'f) objects_store" where
  "log_event e st = st\<lparr>called := called st @ [e]\<rparr>"

definition call_dtor :: "('o, 'f) callbacks \<Rightarrow> 'f \<Rightarrow> 'o option \<Rightarrow> uint \<Rightarrow> ('o, 'f) objects_store \<Rightarrow>
    (bool \<times> ('o, 'f) objects_store) option" where
  "call_dtor cb f obj h st = run_dtor cb f obj h (log_event (Dtor h) st)"

definition call_free :: "('o, 'f) callbacks \<Rightarrow> 'f option \<Rightarrow> 'o option \<Rightarrow> obj_event \<Rightarrow> ('o, 'f) objects_store \<Rightarrow>
    (bool \<times> ('o, 'f) objects_store) option" where
  "call_free cb f obj e st = (case f of None \<Rightarrow> Some (False, log_event e st)
     | Some f \<Rightarrow> run_free cb f obj (log_event e st))"

subsection \<open>The store\<close>

definition zero_bucket :: "('o, 'f) object_bucket" where
  "zero_bucket = \<lparr>destructor_called = False, valid = False, apply_count = 0, first_word = Object None,
     obj_dtor = None, obj_free_storage = None, obj_clone = None, obj_handlers = None, obj_refcount = 0\<rparr>"

definition zend_objects_store_init :: "uint \<Rightarrow> ('o, 'f) objects_store \<Rightarrow> ('o, 'f) objects_store option" where
  "zend_objects_store_init init_size st =
     set_bucket 0 zero_bucket (st\<lparr>object_buckets := Some (replicate (unat init_size) None),
       top_handle := 1, store_size := init_size, free_list_head := -1\<rparr>)"

definition zend_objects_store_destroy :: "('o, 'f) objects_store \<Rightarrow> ('o, 'f) objects_store" where
  "zend_objects_store_destroy st = st\<lparr>object_buckets := None\<rparr>"

partial_function (option) call_destructors_from ::
  "('o, 'f) callbacks \<Rightarrow> uint \<Rightarrow> ('o, 'f) objects_store \<Rightarrow> (bool \<times> ('o, 'f) objects_store) option" where
  "call_destructors_from cb i st =
     (if i < top_handle st then do {
        b \<leftarrow> bucket_at st i;
        if valid b \<and> \<not> destructor_called b then do {
          st \<leftarrow> change_bucket i (destructor_called_update (\<lambda>_. True)) st;
          obj \<leftarrow> object_of b;
          (if obj_dtor b \<noteq> None \<and> obj \<noteq> None then do {
             st \<leftarrow> change_bucket i (obj_refcount_update (\<lambda>n. n + 1)) st;
             (bailout, st) \<leftarrow> call_dtor cb (the (obj_dtor b)) obj i st;
             (if bailout then Some (True, st)
              else do {
                st \<leftarrow> change_bucket i (obj_refcount_update (\<lambda>n. n - 1)) st;
                call_destructors_from cb (i + 1) st
              })
           } else call_destructors_from cb (i + 1) st)
        } else call_destructors_from cb (i + 1) st
      } else Some (False, st))"

definition zend_objects_store_call_destructors ::
  "('o, 'f) callbacks \<Rightarrow> ('o, 'f) objects_store \<Rightarrow> (bool \<times> ('o, 'f) objects_store) option" where
  "zend_objects_store_call_destructors cb st = call_destructors_from cb 1 st"

partial_function (option) mark_destructed_from ::
  "uint \<Rightarrow> ('o, 'f) objects_store \<Rightarrow> ('o, 'f) objects_store option" where
  "mark_destructed_from i st =
     (if i < top_handle st then do {
        b \<leftarrow> bucket_at st i;
        st \<leftarrow> (if valid b then set_bucket i (b\<lparr>destructor_called := True\<rparr>) st else Some st);
        mark_destructed_from (i + 1) st
      } else Some st)"

definition zend_objects_store_mark_destructed :: "('o, 'f) objects_store \<Rightarrow> ('o, 'f) objects_store option" where
  "zend_objects_store_mark_destructed st =
     (if object_buckets st = None then Some st else mark_destructed_from 1 st)"

partial_function (option) free_object_storage_from ::
  "('o, 'f) callbacks \<Rightarrow> uint \<Rightarrow> ('o, 'f) objects_store \<Rightarrow> (bool \<times> ('o, 'f) objects_store) option" where
  "free_object_storage_from cb i st =
     (if i < top_handle st then do {
        b \<leftarrow> bucket_at st i;
        if valid b then do {
          st \<leftarrow> change_bucket i (valid_update (\<lambda>_. False)) st;
          obj \<leftarrow> object_of b;
          (bailout, st) \<leftarrow> call_free cb (obj_free_storage b) obj (Freed_at_end i) st;
          if bailout then Some (True, st) else free_object_storage_from cb (i + 1) st
        } else free_object_storage_from cb (i + 1) st
      } else Some (False, st))"

definition zend_objects_store_free_object_storage ::
  "('o, 'f) callbacks \<Rightarrow> ('o, 'f) objects_store \<Rightarrow> (bool \<times> ('o, 'f) objects_store) option" where
  "zend_objects_store_free_object_storage cb st = free_object_storage_from cb 1 st"

subsection \<open>Objects\<close>

definition new_object :: "('o, 'f) callbacks \<Rightarrow> 'o option \<Rightarrow> 'f option \<Rightarrow> 'f option \<Rightarrow> 'f option \<Rightarrow> ('o, 'f) object_bucket" where
  "new_object cb obj dtor free_storage clone =
     \<lparr>destructor_called = False, valid = True, apply_count = 0, first_word = Object obj,
      obj_dtor = Some (case dtor of None \<Rightarrow> destroy_object cb | Some f \<Rightarrow> f),
      obj_free_storage = free_storage, obj_clone = clone, obj_handlers = None, obj_refcount = 1\<rparr>"

text \<open>The free bucket at the head of the list, or else a new one at the end of the array.\<close>

definition take_handle :: "('o, 'f) objects_store \<Rightarrow> (uint \<times> ('o, 'f) objects_store) option" where
  "take_handle st =
     (if free_list_head st \<noteq> -1 then do {
        let handle = word_of_int (free_list_head st);
        b \<leftarrow> bucket_at st handle;
        (case first_word b of Object _ \<Rightarrow> None | Next n \<Rightarrow> Some (handle, st\<lparr>free_list_head := n\<rparr>))
      } else do {
        let st = (if top_handle st = store_size st
          then st\<lparr>store_size := push_bit 1 (store_size st),
                  object_buckets := erealloc (object_buckets st) (uint (push_bit 1 (store_size st))),
                  moves := Suc (moves st)\<rparr>
          else st);
        Some (top_handle st, st\<lparr>top_handle := top_handle st + 1\<rparr>)
      })"

definition zend_objects_store_put ::
  "('o, 'f) callbacks \<Rightarrow> 'o option \<Rightarrow> 'f option \<Rightarrow> 'f option \<Rightarrow> 'f option \<Rightarrow> ('o, 'f) objects_store \<Rightarrow>
    (uint \<times> ('o, 'f) objects_store) option" where
  "zend_objects_store_put cb obj dtor free_storage clone st = do {
     (handle, st) \<leftarrow> take_handle st;
     st \<leftarrow> set_bucket handle (new_object cb obj dtor free_storage clone) st;
     Some (handle, log_event (Put handle) st)
   }"

definition zend_objects_store_get_refcount :: "zval_object \<Rightarrow> ('o, 'f) objects_store \<Rightarrow> uint option" where
  "zend_objects_store_get_refcount z st = map_option obj_refcount (bucket_at st (zval_handle z))"

definition zend_objects_store_add_ref_by_handle :: "uint \<Rightarrow> ('o, 'f) objects_store \<Rightarrow> ('o, 'f) objects_store option" where
  "zend_objects_store_add_ref_by_handle handle st = change_bucket handle (obj_refcount_update (\<lambda>n. n + 1)) st"

definition zend_objects_store_add_ref :: "zval_object \<Rightarrow> ('o, 'f) objects_store \<Rightarrow> ('o, 'f) objects_store option" where
  "zend_objects_store_add_ref z st = change_bucket (zval_handle z) (obj_refcount_update (\<lambda>n. n + 1)) st"

definition ZEND_OBJECTS_STORE_ADD_TO_FREE_LIST :: "uint \<Rightarrow> ('o, 'f) objects_store \<Rightarrow> ('o, 'f) objects_store option" where
  "ZEND_OBJECTS_STORE_ADD_TO_FREE_LIST handle st = do {
     st \<leftarrow> change_bucket handle (first_word_update (\<lambda>_. Next (free_list_head st))) st;
     change_bucket handle (valid_update (\<lambda>_. False)) (st\<lparr>free_list_head := sint handle\<rparr>)
   }"

text \<open>The destructor of the last reference, under \<open>zend_try\<close>: whether it failed.\<close>

definition destruct_once :: "('o, 'f) callbacks \<Rightarrow> uint \<Rightarrow> ptr \<Rightarrow> ('o, 'f) objects_store \<Rightarrow>
    (bool \<times> ('o, 'f) objects_store) option" where
  "destruct_once cb handle handlers st = do {
     b \<leftarrow> bucket_at st handle;
     if destructor_called b then Some (False, st)
     else do {
       st \<leftarrow> change_bucket handle (destructor_called_update (\<lambda>_. True)) st;
       (case obj_dtor b of
          None \<Rightarrow> Some (False, st)
        | Some f \<Rightarrow> do {
            st \<leftarrow> (if handlers \<noteq> None \<and> obj_handlers b = None
              then change_bucket handle (obj_handlers_update (\<lambda>_. handlers)) st else Some st);
            obj \<leftarrow> object_of b;
            call_dtor cb f obj handle st
          })
     }
   }"

definition free_once :: "('o, 'f) callbacks \<Rightarrow> uint \<Rightarrow> ('o, 'f) objects_store \<Rightarrow>
    (bool \<times> ('o, 'f) objects_store) option" where
  "free_once cb handle st = do {
     b \<leftarrow> bucket_at st handle;
     if obj_refcount b = 1 then do {
       obj \<leftarrow> object_of b;
       (failure, st) \<leftarrow> call_free cb (obj_free_storage b) obj (Freed handle) st;
       st \<leftarrow> ZEND_OBJECTS_STORE_ADD_TO_FREE_LIST handle st;
       Some (failure, st)
     } else Some (False, st)
   }"

text \<open>
  \<open>obj\<close> points into the array where it was when it was last read, before the storage is freed; the
  final \<open>obj->refcount--\<close> through it is undefined behaviour once the array has moved. The first
  component tells whether it bails out at the end.
\<close>

definition zend_objects_store_del_ref_by_handle_ex ::
  "('o, 'f) callbacks \<Rightarrow> uint \<Rightarrow> ptr \<Rightarrow> ('o, 'f) objects_store \<Rightarrow> (bool \<times> ('o, 'f) objects_store) option" where
  "zend_objects_store_del_ref_by_handle_ex cb handle handlers st =
     (if object_buckets st = None then Some (False, st)
      else do {
        b \<leftarrow> bucket_at st handle;
        (failure, obj, st) \<leftarrow> (if valid b \<and> obj_refcount b = 1 then do {
            (failure1, st) \<leftarrow> destruct_once cb handle handlers st;
            let obj = moves st;
            (failure2, st) \<leftarrow> free_once cb handle st;
            Some (failure1 \<or> failure2, obj, st)
          } else Some (False, moves st, st));
        (if obj \<noteq> moves st then None
         else do {
           st \<leftarrow> change_bucket handle (obj_refcount_update (\<lambda>n. n - 1)) st;
           Some (failure, st)
         })
      })"

definition zend_objects_store_del_ref ::
  "('o, 'f) callbacks \<Rightarrow> zval_object \<Rightarrow> ('o, 'f) objects_store \<Rightarrow> (bool \<times> zval_object \<times> ('o, 'f) objects_store) option" where
  "zend_objects_store_del_ref cb z st = do {
     let z = z\<lparr>zval_refcount := zval_refcount z + 1\<rparr>;
     (bailout, st) \<leftarrow> zend_objects_store_del_ref_by_handle_ex cb (zval_handle z) (zval_handlers z) st;
     Some (bailout, if bailout then z else z\<lparr>zval_refcount := zval_refcount z - 1\<rparr>, st)
   }"

text \<open>\<open>None\<close> as the value: the request ended, with a fatal error or in the callback.\<close>

definition zend_objects_store_clone_obj ::
  "('o, 'f) callbacks \<Rightarrow> zval_object \<Rightarrow> ('o, 'f) objects_store \<Rightarrow> ((uint \<times> ptr) option \<times> ('o, 'f) objects_store) option" where
  "zend_objects_store_clone_obj cb z st = do {
     let handle = zval_handle z;
     b \<leftarrow> bucket_at st handle;
     (case obj_clone b of
        None \<Rightarrow> Some (None, st)
      | Some f \<Rightarrow> do {
          obj \<leftarrow> object_of b;
          (bailout, new, st) \<leftarrow> run_clone cb f obj st;
          (if bailout then Some (None, st)
           else do {
             b \<leftarrow> bucket_at st handle;
             (new_handle, st) \<leftarrow> zend_objects_store_put cb new (obj_dtor b) (obj_free_storage b) (obj_clone b) st;
             st \<leftarrow> change_bucket handle (obj_handlers_update (\<lambda>_. zval_handlers z)) st;
             Some (Some (new_handle, zval_handlers z), st)
           })
        })
   }"

definition zend_object_store_get_object_by_handle :: "uint \<Rightarrow> ('o, 'f) objects_store \<Rightarrow> 'o option option" where
  "zend_object_store_get_object_by_handle handle st = do { b \<leftarrow> bucket_at st handle; object_of b }"

definition zend_object_store_get_object :: "zval_object \<Rightarrow> ('o, 'f) objects_store \<Rightarrow> 'o option option" where
  "zend_object_store_get_object z st = do { b \<leftarrow> bucket_at st (zval_handle z); object_of b }"

definition zend_object_store_set_object :: "zval_object \<Rightarrow> 'o option \<Rightarrow> ('o, 'f) objects_store \<Rightarrow> ('o, 'f) objects_store option" where
  "zend_object_store_set_object z obj st = change_bucket (zval_handle z) (first_word_update (\<lambda>_. Object obj)) st"

definition zend_object_store_ctor_failed :: "zval_object \<Rightarrow> ('o, 'f) objects_store \<Rightarrow> ('o, 'f) objects_store option" where
  "zend_object_store_ctor_failed z st = do {
     st \<leftarrow> change_bucket (zval_handle z) (obj_handlers_update (\<lambda>_. zval_handlers z)) st;
     change_bucket (zval_handle z) (destructor_called_update (\<lambda>_. True)) st
   }"

end
