(* ===== verification/Zend_Objects_Correct.thy ===== *)
theory Zend_Objects_Correct
  imports Zend_Objects
begin

text \<open>
  The life of an object. The invariant says which buckets exist, that the free list goes through
  exactly the free ones, and that the events of every handle follow the order put, destructor,
  storage freed; the handles of objects that are freed at the end of the request stay out of the
  free list. It is kept by every run of the store's operations, with callbacks that themselves
  run operations; \<open>store_run\<close> is that relation.
\<close>

subsection \<open>The array\<close>

definition put_at :: "uint \<Rightarrow> ('o, 'f) object_bucket \<Rightarrow> ('o, 'f) objects_store \<Rightarrow> ('o, 'f) objects_store" where
  "put_at h b st = st\<lparr>object_buckets := map_option (\<lambda>xs. xs[unat h := Some b]) (object_buckets st)\<rparr>"

lemma put_at_fields [simp]:
  "top_handle (put_at h b st) = top_handle st" "store_size (put_at h b st) = store_size st"
  "free_list_head (put_at h b st) = free_list_head st" "moves (put_at h b st) = moves st"
  "called (put_at h b st) = called st"
  by (simp_all add: put_at_def)

lemma log_fields [simp]:
  "top_handle (log_event e st) = top_handle st" "store_size (log_event e st) = store_size st"
  "free_list_head (log_event e st) = free_list_head st" "moves (log_event e st) = moves st"
  "called (log_event e st) = called st @ [e]" "object_buckets (log_event e st) = object_buckets st"
  "bucket_at (log_event e st) = bucket_at st"
  by (simp_all add: log_event_def bucket_at_def fun_eq_iff)

lemma bucket_at_array:
  "object_buckets st = Some bs \<Longrightarrow> bucket_at st h = (if unat h < length bs then bs ! unat h else None)"
  by (simp add: bucket_at_def slot_def)

lemma bucket_at_put:
  "bucket_at st h = Some b0 \<Longrightarrow> bucket_at (put_at h b st) x = (if x = h then Some b else bucket_at st x)"
  by (cases "object_buckets st")
    (auto simp: bucket_at_def slot_def put_at_def nth_list_update split: if_splits dest: unsigned_word_eqI)

lemma set_bucket_run:
  "object_buckets st = Some bs \<Longrightarrow> unat h < length bs \<Longrightarrow> set_bucket h b st = Some (put_at h b st)"
  by (simp add: set_bucket_def set_slot_def put_at_def)

lemma bucket_in_array: "bucket_at st h = Some b \<Longrightarrow> \<exists>bs. object_buckets st = Some bs \<and> unat h < length bs"
  by (cases "object_buckets st") (auto simp: bucket_at_def slot_def split: if_splits)

lemma set_bucket_live: "bucket_at st h = Some b0 \<Longrightarrow> set_bucket h b st = Some (put_at h b st)"
  using bucket_in_array set_bucket_run by blast

lemma change_bucket_live: "bucket_at st h = Some b \<Longrightarrow> change_bucket h f st = Some (put_at h (f b) st)"
  by (simp add: change_bucket_def set_bucket_live)

lemma change_bucketD: "change_bucket h f st = Some st' \<Longrightarrow> \<exists>b. bucket_at st h = Some b \<and> st' = put_at h (f b) st"
  using change_bucket_live [of st h _ f] by (cases "bucket_at st h") (auto simp: change_bucket_def)

subsection \<open>Lives\<close>

datatype phase = Gone | Alive | Destructed | Retired

fun life_step :: "uint \<Rightarrow> obj_event \<Rightarrow> phase \<Rightarrow> phase option" where
  "life_step h (Put x) p = (if x \<noteq> h then Some p else if p = Gone then Some Alive else None)"
| "life_step h (Dtor x) p = (if x \<noteq> h then Some p else if p = Alive then Some Destructed else None)"
| "life_step h (Freed x) p = (if x \<noteq> h then Some p else if p = Alive \<or> p = Destructed then Some Gone else None)"
| "life_step h (Freed_at_end x) p = (if x \<noteq> h then Some p else if p = Alive \<or> p = Destructed then Some Retired else None)"

definition life :: "uint \<Rightarrow> obj_event list \<Rightarrow> phase option" where
  "life h evs = fold (\<lambda>e p. Option.bind p (life_step h e)) evs (Some Gone)"

lemma life_snoc [simp]: "life h (evs @ [e]) = Option.bind (life h evs) (life_step h e)"
  by (simp add: life_def)

lemma life_Nil [simp]: "life h [] = Some Gone"
  by (simp add: life_def)

subsection \<open>The invariant\<close>

definition live :: "('o, 'f) objects_store \<Rightarrow> uint \<Rightarrow> bool" where
  "live st h \<longleftrightarrow> (case bucket_at st h of None \<Rightarrow> False | Some b \<Rightarrow> valid b)"

fun free_chain :: "(uint \<Rightarrow> ('o, 'f) object_bucket option) \<Rightarrow> int \<Rightarrow> uint list \<Rightarrow> bool" where
  "free_chain bk n [] \<longleftrightarrow> n = -1"
| "free_chain bk n (h # hs) \<longleftrightarrow> n = sint h \<and>
     (\<exists>b m. bk h = Some b \<and> first_word b = Next m \<and> free_chain bk m hs)"

text \<open>Freed at the end of the request: the bucket still has the object pointer and is in no list.\<close>

definition retired :: "('o, 'f) objects_store \<Rightarrow> uint \<Rightarrow> bool" where
  "retired st h \<longleftrightarrow> h \<noteq> 0 \<and> (\<exists>b. bucket_at st h = Some b \<and> \<not> valid b \<and> object_of b \<noteq> None)"

definition free_handles :: "('o, 'f) objects_store \<Rightarrow> uint set" where
  "free_handles st = {h. 0 < h \<and> h < top_handle st \<and> \<not> live st h \<and> \<not> retired st h}"

definition array_ok :: "('o, 'f) objects_store \<Rightarrow> bool" where
  "array_ok st \<longleftrightarrow> (\<exists>bs. object_buckets st = Some bs \<and> length bs = unat (store_size st)) \<and>
     0 < top_handle st \<and> top_handle st \<le> store_size st \<and>
     (\<forall>h. bucket_at st h \<noteq> None \<longleftrightarrow> h < top_handle st) \<and> \<not> live st 0 \<and>
     (\<forall>h b. bucket_at st h = Some b \<longrightarrow> valid b \<longrightarrow> object_of b \<noteq> None)"

definition free_list_ok :: "('o, 'f) objects_store \<Rightarrow> bool" where
  "free_list_ok st \<longleftrightarrow> (\<exists>fl. free_chain (bucket_at st) (free_list_head st) fl \<and> distinct fl \<and> set fl = free_handles st)"

text \<open>\<open>H\<close>: the objects whose destruction is under way; \<open>F\<close>: those of them whose storage is being freed.\<close>

definition held_ok :: "uint set \<Rightarrow> uint set \<Rightarrow> ('o, 'f) objects_store \<Rightarrow> bool" where
  "held_ok H F st \<longleftrightarrow> F \<subseteq> H \<and> (\<forall>h \<in> H. \<exists>b. bucket_at st h = Some b \<and> valid b \<and> destructor_called b)"

definition phase_ok :: "uint set \<Rightarrow> ('o, 'f) objects_store \<Rightarrow> uint \<Rightarrow> bool" where
  "phase_ok F st h \<longleftrightarrow> (\<exists>p. life h (called st) = Some p \<and> (p = Gone \<or> p = Retired \<longleftrightarrow> \<not> live st h \<or> h \<in> F) \<and>
     (p = Retired \<longleftrightarrow> retired st h) \<and>
     (\<forall>b. bucket_at st h = Some b \<longrightarrow> valid b \<longrightarrow> \<not> destructor_called b \<longrightarrow> p = Alive))"

definition store_inv :: "uint set \<Rightarrow> uint set \<Rightarrow> ('o, 'f) objects_store \<Rightarrow> bool" where
  "store_inv H F st \<longleftrightarrow> array_ok st \<and> free_list_ok st \<and> held_ok H F st \<and> (\<forall>h. phase_ok F st h)"

lemmas inv_defs = store_inv_def held_ok_def phase_ok_def

lemma live_put: "bucket_at st h = Some b0 \<Longrightarrow> live (put_at h b st) x = (if x = h then valid b else live st x)"
  by (simp add: live_def bucket_at_put)

lemma live_log [simp]: "live (log_event e st) = live st"
  by (simp add: live_def fun_eq_iff)

lemma retired_log [simp]: "retired (log_event e st) = retired st"
  by (simp add: retired_def fun_eq_iff)

lemma retired_dead: "retired st h \<Longrightarrow> \<not> live st h"
  by (auto simp: retired_def live_def)

lemma retired_put:
  "bucket_at st h = Some b \<Longrightarrow> retired (put_at h b' st) x = (if x = h then h \<noteq> 0 \<and> \<not> valid b' \<and> object_of b' \<noteq> None else retired st x)"
  by (simp add: retired_def bucket_at_put)

lemma retired_bucket: "bucket_at st h = Some b \<Longrightarrow> retired st h \<longleftrightarrow> h \<noteq> 0 \<and> \<not> valid b \<and> object_of b \<noteq> None"
  by (simp add: retired_def)

lemma live_bucket: "bucket_at st h = Some b \<Longrightarrow> live st h = valid b"
  by (simp add: live_def)

lemma array_ok_at: "array_ok st \<Longrightarrow> h < top_handle st \<Longrightarrow> \<exists>b. bucket_at st h = Some b"
  unfolding array_ok_def by blast

lemma array_ok_log [simp]: "array_ok (log_event e st) = array_ok st"
  by (simp add: array_ok_def)

lemma free_list_ok_log [simp]: "free_list_ok (log_event e st) = free_list_ok st"
  by (simp add: free_list_ok_def free_handles_def)

lemma free_chain_cong: "free_chain bk n fl \<Longrightarrow> (\<And>h. h \<in> set fl \<Longrightarrow> bk' h = bk h) \<Longrightarrow> free_chain bk' n fl"
  by (induction fl arbitrary: n) auto

text \<open>A bucket changes in other fields.\<close>

lemma array_ok_put:
  assumes "array_ok st" and b: "bucket_at st h = Some b" and "valid b' \<longrightarrow> object_of b' \<noteq> None"
    and "h = 0 \<longrightarrow> \<not> valid b'"
  shows "array_ok (put_at h b' st)"
proof -
  have "\<exists>bs. object_buckets (put_at h b' st) = Some bs \<and> length bs = unat (store_size (put_at h b' st))"
    using assms(1) by (auto simp: array_ok_def put_at_def)
  then show ?thesis using assms by (auto simp: array_ok_def bucket_at_put live_put)
qed

lemma not_free: "free_list_ok st \<Longrightarrow> live st h \<Longrightarrow> free_chain (bucket_at st) n fl \<Longrightarrow> set fl = free_handles st \<Longrightarrow> h \<notin> set fl"
  by (simp add: free_handles_def)

lemma free_chain_change:
  "free_chain bk n fl \<Longrightarrow> bk h = Some b \<Longrightarrow> first_word b' = first_word b \<Longrightarrow> free_chain (bk(h := Some b')) n fl"
  by (induction fl arbitrary: n) auto

lemma free_list_ok_put:
  assumes "free_list_ok st" and b: "bucket_at st h = Some b" and v: "valid b' = valid b"
    and w: "\<not> valid b \<longrightarrow> first_word b' = first_word b"
  shows "free_list_ok (put_at h b' st)"
proof -
  from assms(1) obtain fl where fl: "free_chain (bucket_at st) (free_list_head st) fl" "distinct fl" "set fl = free_handles st"
    by (auto simp: free_list_ok_def)
  have bk: "bucket_at (put_at h b' st) = (bucket_at st)(h := Some b')" using bucket_at_put [OF b] by auto
  have "free_chain (bucket_at (put_at h b' st)) (free_list_head st) fl"
  proof (cases "valid b")
    case True
    then have "h \<notin> set fl" using fl(3) b by (simp add: free_handles_def live_def)
    then show ?thesis unfolding bk by (intro free_chain_cong [OF fl(1)]) auto
  next
    case False
    then show ?thesis unfolding bk using free_chain_change [OF fl(1) b] w by simp
  qed
  moreover have "retired (put_at h b' st) x = retired st x" for x
    using v w retired_bucket [OF b] by (cases "valid b") (auto simp: retired_put [OF b] object_of_def)
  then have "free_handles (put_at h b' st) = free_handles st"
    using b v by (auto simp: free_handles_def live_put live_bucket)
  ultimately show ?thesis using fl by (auto simp: free_list_ok_def)
qed

lemma store_inv_put:
  assumes inv: "store_inv H F st" and b: "bucket_at st h = Some b" and v: "valid b' = valid b"
    and w: "\<not> valid b \<longrightarrow> first_word b' = first_word b" and o: "valid b \<longrightarrow> object_of b' \<noteq> None"
    and d: "destructor_called b \<longrightarrow> destructor_called b'"
  shows "store_inv H F (put_at h b' st)"
proof -
  have z: "h = 0 \<longrightarrow> \<not> valid b'" using inv b v by (auto simp: store_inv_def array_ok_def live_def)
  have "held_ok H F (put_at h b' st)"
    using inv b v d by (auto simp: inv_defs bucket_at_put)
  moreover have "phase_ok F (put_at h b' st) x" for x
  proof -
    have "phase_ok F st x" using inv by (simp add: store_inv_def)
    moreover have "retired (put_at h b' st) x = retired st x"
      using v w retired_bucket [OF b] by (cases "valid b") (auto simp: retired_put [OF b] object_of_def)
    ultimately show ?thesis using b v d by (auto simp: phase_ok_def bucket_at_put live_put live_bucket split: if_splits)
  qed
  ultimately show ?thesis
    using inv array_ok_put [OF _ b _ z] free_list_ok_put [OF _ b v w] v o by (simp add: store_inv_def)
qed


subsection \<open>A new object\<close>

lemma word_top: "h < (t :: uint) \<Longrightarrow> h \<noteq> -1"
  using word_n1_ge [of t] by (auto simp: leD)

lemma free_chain_head:
  assumes "free_chain bk n fl" and "set fl \<subseteq> {h. h < t}" and "n = -1"
  shows "fl = []"
proof (cases fl)
  case (Cons h hs)
  then have "sint h = -1" "h < t" using assms by auto
  then have "h = -1" by (metis signed_minus_1 signed_word_eqI)
  then show ?thesis using word_top [OF \<open>h < t\<close>] by simp
qed

lemma take_free_handle:
  assumes "free_list_ok st" and "free_list_head st \<noteq> -1"
  obtains h hs m b where "free_chain (bucket_at st) m hs" "distinct (h # hs)" "set (h # hs) = free_handles st"
    "free_list_head st = sint h" "bucket_at st h = Some b" "first_word b = Next m"
    "take_handle st = Some (h, st\<lparr>free_list_head := m\<rparr>)"
proof -
  from assms obtain fl where fl: "free_chain (bucket_at st) (free_list_head st) fl" "distinct fl" "set fl = free_handles st"
    by (auto simp: free_list_ok_def)
  with assms(2) obtain h hs where c: "fl = h # hs" by (cases fl) auto
  with fl obtain b m where b: "free_list_head st = sint h" "bucket_at st h = Some b" "first_word b = Next m"
    "free_chain (bucket_at st) m hs" by auto
  have "take_handle st = Some (h, st\<lparr>free_list_head := m\<rparr>)" using assms(2) b by (simp add: take_handle_def)
  then show ?thesis using that [of m hs h b] fl c b by simp
qed

lemma new_object_simps [simp]:
  "destructor_called (new_object cb obj d f c) = False" "valid (new_object cb obj d f c) = True"
  "object_of (new_object cb obj d f c) = Some obj" "obj_refcount (new_object cb obj d f c) = 1"
  "obj_free_storage (new_object cb obj d f c) = f" "obj_clone (new_object cb obj d f c) = c"
  by (simp_all add: new_object_def object_of_def)

text \<open>\<open>st1\<close> is \<open>st\<close> with a handle taken, and its bucket about to be written.\<close>

lemma new_object_inv:
  assumes inv: "store_inv H F st" and nl: "\<not> live st h" "\<not> retired st h"
    and st': "bucket_at st' = (bucket_at st)(h := Some b)" "called st' = called st @ [Put h]"
    and b: "valid b" "\<not> destructor_called b"
  shows "held_ok H F st' \<and> (\<forall>x. phase_ok F st' x)"
proof -
  have h: "h \<notin> H" using inv nl by (fastforce simp: inv_defs live_def)
  then have "held_ok H F st'" using inv st' by (auto simp: inv_defs)
  moreover have "phase_ok F st' x" for x
  proof -
    have hF: "h \<notin> F" using h inv by (auto simp: inv_defs)
    have l: "live st' x = (if x = h then True else live st x)" using st' b by (simp add: live_def)
    have r: "retired st' x = (if x = h then False else retired st x)" using st' b by (simp add: retired_def)
    have "phase_ok F st x" using inv by (simp add: store_inv_def)
    then obtain p where p: "life x (called st) = Some p" "(p = Gone \<or> p = Retired \<longleftrightarrow> \<not> live st x \<or> x \<in> F)" "p = Retired \<longleftrightarrow> retired st x"
      "\<forall>b. bucket_at st x = Some b \<longrightarrow> valid b \<longrightarrow> \<not> destructor_called b \<longrightarrow> p = Alive"
      unfolding phase_ok_def by (elim exE conjE)
    show ?thesis
    proof (cases "x = h")
      case True
      then have "p = Gone" using p(2,3) nl by blast
      moreover have "live st' x" "\<not> retired st' x" using True l r by simp_all
      ultimately show ?thesis using True p(1) b hF by (simp add: phase_ok_def st')
    next
      case False
      then show ?thesis using p by (simp add: phase_ok_def l r st')
    qed
  qed
  ultimately show ?thesis by blast
qed

text \<open>Where a handle comes from: the free list, or the end of the array.\<close>

lemma take_handle_cases:
  assumes inv: "array_ok st" "free_list_ok st" and t: "take_handle st = Some (h, st1)"
  obtains (free) hs m where "free_chain (bucket_at st) m hs" "distinct (h # hs)" "set (h # hs) = free_handles st"
      "st1 = st\<lparr>free_list_head := m\<rparr>" "free_list_head st = sint h"
  | (new) "free_handles st = {}" "free_list_head st = -1" "h = top_handle st" "top_handle st1 = top_handle st + 1"
      "free_list_head st1 = -1" "called st1 = called st"
      "store_size st1 = (if top_handle st = store_size st then push_bit 1 (store_size st) else store_size st)"
      "moves st1 = (if top_handle st = store_size st then Suc (moves st) else moves st)"
      "object_buckets st1 = (if top_handle st = store_size st
        then erealloc (object_buckets st) (uint (push_bit 1 (store_size st))) else object_buckets st)"
proof (cases "free_list_head st = -1")
  case False
  from take_free_handle [OF inv(2) this] obtain h' hs m where f: "free_chain (bucket_at st) m hs"
    "distinct (h' # hs)" "set (h' # hs) = free_handles st"
    "free_list_head st = sint h'" "take_handle st = Some (h', st\<lparr>free_list_head := m\<rparr>)" .
  have e: "h' = h" "st1 = st\<lparr>free_list_head := m\<rparr>" using f(5) t by simp_all
  show ?thesis by (rule free [OF f(1) f(2) [unfolded e(1)] f(3) [unfolded e(1)] e(2) f(4) [unfolded e(1)]])
next
  case True
  then obtain fl where fl: "free_chain (bucket_at st) (free_list_head st) fl" "set fl = free_handles st"
    using inv(2) by (auto simp: free_list_ok_def)
  have "set fl \<subseteq> {h. h < top_handle st}" unfolding fl(2) free_handles_def by blast
  then have "fl = []" by (rule free_chain_head [OF fl(1) _ True])
  then have "free_handles st = {}" using fl(2) by simp
  then show ?thesis using t True by (intro new) (auto simp: take_handle_def Let_def)
qed

lemma erealloc_array:
  assumes "object_buckets st = Some bs" and "object_buckets st1 = erealloc (object_buckets st) (uint n)"
  shows "\<exists>bs1. object_buckets st1 = Some bs1 \<and> length bs1 = unat n"
    "length bs \<le> unat n \<Longrightarrow> bucket_at st1 h = bucket_at st h"
  using assms by (auto simp: erealloc_def bucket_at_def slot_def nth_append)


lemma put_into_free:
  assumes inv: "store_inv H F st" and fc: "free_chain (bucket_at st) m hs" "distinct (h # hs)"
    and fh: "set (h # hs) = free_handles st" and st1: "st1 = st\<lparr>free_list_head := m\<rparr>"
  shows "\<exists>st'. set_bucket h (new_object cb obj d f c) st1 = Some st' \<and>
    bucket_at st' = (bucket_at st)(h := Some (new_object cb obj d f c)) \<and> called st' = called st \<and>
    array_ok st' \<and> free_list_ok st' \<and> 0 < h \<and> h < top_handle st' \<and> \<not> live st h \<and> \<not> retired st h \<and> moves st' = moves st"
proof -
  have h: "0 < h" "h < top_handle st" "\<not> live st h" "\<not> retired st h" using fh by (auto simp: free_handles_def)
  have a: "array_ok st1" using inv by (simp add: st1 store_inv_def array_ok_def bucket_at_def live_def)
  have same: "bucket_at st1 = bucket_at st" "top_handle st1 = top_handle st" "called st1 = called st" "moves st1 = moves st"
    by (simp_all add: st1 bucket_at_def fun_eq_iff)
  obtain b where b: "bucket_at st1 h = Some b" using array_ok_at [OF a] h same by auto
  let ?n = "new_object cb obj d f c" and ?st' = "put_at h (new_object cb obj d f c) st1"
  have bk: "bucket_at ?st' = (bucket_at st)(h := Some ?n)" using bucket_at_put [OF b] same by auto
  have "array_ok ?st'" using h by (intro array_ok_put [OF a b]) auto
  moreover have "free_list_ok ?st'"
    unfolding free_list_ok_def
  proof (intro exI [of _ hs] conjI)
    show "free_chain (bucket_at ?st') (free_list_head ?st') hs"
      using fc(2) by (simp add: st1) (rule free_chain_cong [OF fc(1)], auto simp: bk [unfolded st1])
    show "distinct hs" using fc by simp
    have "free_handles ?st' = free_handles st - {h}"
      using h by (auto simp: free_handles_def live_def retired_def bk same)
    also have "\<dots> = set (h # hs) - {h}" unfolding fh by (rule HOL.refl)
    also have "\<dots> = set hs" using fc(2) by auto
    finally show "set hs = free_handles ?st'" by (rule sym)
  qed
  ultimately show ?thesis using set_bucket_live [OF b] bk h same by (intro exI [of _ ?st']) simp
qed

lemma word_Suc_less: "(t :: uint) < n \<Longrightarrow> x < t + 1 \<longleftrightarrow> x < t \<or> x = t"
proof -
  assume "t < n"
  then have "unat (t + 1) = Suc (unat t)" using unsigned_less [of n, where ?'a = nat] by (simp add: word_less_nat_alt unat_plus_if')
  then show ?thesis by (auto simp: word_less_nat_alt less_Suc_eq dest: unsigned_word_eqI)
qed


lemma grown_array:
  assumes a: "array_ok st" and n: "n = (if top_handle st = store_size st then push_bit 1 (store_size st) else store_size st)"
    and bs1: "object_buckets st1 = (if top_handle st = store_size st
        then erealloc (object_buckets st) (uint (push_bit 1 (store_size st))) else object_buckets st)"
  shows "\<exists>bs. object_buckets st1 = Some bs \<and> length bs = unat n"
    "top_handle st < n \<Longrightarrow> bucket_at st1 = bucket_at st"
proof -
  obtain bs where bs: "object_buckets st = Some bs" "length bs = unat (store_size st)" using a by (auto simp: array_ok_def)
  show "\<exists>bs. object_buckets st1 = Some bs \<and> length bs = unat n"
    using bs bs1 n erealloc_array(1) [OF bs(1), of st1] by (auto split: if_splits)
  show "bucket_at st1 = bucket_at st" if t: "top_handle st < n"
  proof
    fix h
    show "bucket_at st1 h = bucket_at st h"
    proof (cases "top_handle st = store_size st")
      case True
      have "object_buckets st1 = erealloc (object_buckets st) (uint n)" using True bs1 n by simp
      moreover have "length bs \<le> unat n" using bs(2) t True by (simp add: word_less_nat_alt)
      ultimately show ?thesis by (intro erealloc_array(2) [OF bs(1)])
    next
      case False
      then show ?thesis using bs1 by (simp add: bucket_at_def)
    qed
  qed
qed

lemma put_at_end:
  assumes inv: "store_inv H F st" and fh: "free_handles st = {}" "free_list_head st1 = -1"
    and top: "top_handle st1 = top_handle st + 1" and called: "called st1 = called st"
    and size: "store_size st1 = (if top_handle st = store_size st then push_bit 1 (store_size st) else store_size st)"
    and bs1: "object_buckets st1 = (if top_handle st = store_size st
        then erealloc (object_buckets st) (uint (push_bit 1 (store_size st))) else object_buckets st)"
    and room: "top_handle st < store_size st1"
  shows "\<exists>st'. set_bucket (top_handle st) (new_object cb obj d f c) st1 = Some st' \<and>
    bucket_at st' = (bucket_at st)(top_handle st := Some (new_object cb obj d f c)) \<and> called st' = called st \<and>
    array_ok st' \<and> free_list_ok st' \<and> 0 < top_handle st \<and> top_handle st < top_handle st' \<and> \<not> live st (top_handle st) \<and> \<not> retired st (top_handle st) \<and>
    moves st' = moves st1"
proof -
  let ?h = "top_handle st" and ?n = "new_object cb obj d f c"
  have a: "array_ok st" using inv by (simp add: store_inv_def)
  obtain bs where bs: "object_buckets st1 = Some bs" "length bs = unat (store_size st1)"
    using grown_array(1) [OF a size bs1] by blast
  have bk1: "bucket_at st1 = bucket_at st" using grown_array(2) [OF a size bs1 room] .
  let ?st' = "put_at ?h ?n st1"
  have len: "unat ?h < length bs" using room bs(2) by (simp add: word_less_nat_alt)
  have bk: "bucket_at ?st' = (bucket_at st)(?h := Some ?n)"
  proof
    fix x show "bucket_at ?st' x = ((bucket_at st)(?h := Some ?n)) x"
      unfolding bk1 [symmetric] using bs(1) len
      by (auto simp: bucket_at_def slot_def put_at_def nth_list_update dest: unsigned_word_eqI)
  qed
  have top': "x < ?h + 1 \<longleftrightarrow> x < ?h \<or> x = ?h" for x using word_Suc_less [OF room] .
  have pos: "0 < ?h" using a by (simp add: array_ok_def)
  have nl: "\<not> live st ?h" "\<not> retired st ?h" using a by (auto simp: array_ok_def live_def retired_def split: option.split)
  have le: "?h + 1 \<le> store_size st1" using inc_le [OF room] .
  have obj: "\<forall>x b. bucket_at ?st' x = Some b \<longrightarrow> valid b \<longrightarrow> object_of b \<noteq> None"
  proof (intro allI impI)
    fix x b assume "bucket_at ?st' x = Some b" "valid b"
    then show "object_of b \<noteq> None" using a unfolding bk array_ok_def by (cases "x = ?h") auto
  qed
  have dom: "\<forall>x. bucket_at ?st' x \<noteq> None \<longleftrightarrow> x < top_handle ?st'"
  proof
    fix x show "bucket_at ?st' x \<noteq> None \<longleftrightarrow> x < top_handle ?st'"
      using a top top' [of x] unfolding bk array_ok_def by (cases "x = ?h") auto
  qed
  have "\<not> live ?st' 0" using a pos by (auto simp: array_ok_def live_def bk)
  then have "array_ok ?st'"
    unfolding array_ok_def using obj dom bs le pos top top' [of 0] by (simp add: put_at_def)
  moreover have "free_handles ?st' = {}"
    using fh(1) top top' by (auto simp: free_handles_def bk live_def retired_def)
  then have "free_list_ok ?st'" unfolding free_list_ok_def using fh(2) by (intro exI [of _ "[]"]) simp
  ultimately show ?thesis
    using set_bucket_run [OF bs(1) len] bk called pos nl top top' by (intro exI [of _ ?st']) auto
qed

text \<open>What a put does; \<open>st1\<close> is the store with the handle taken.\<close>

lemma take_then_put:
  assumes inv: "store_inv H F st" and t: "take_handle st = Some (h, st1)" and room: "free_list_head st = -1 \<longrightarrow> h < store_size st1"
  shows "\<exists>st2. set_bucket h (new_object cb obj d f c) st1 = Some st2 \<and>
    bucket_at st2 = (bucket_at st)(h := Some (new_object cb obj d f c)) \<and> called st2 = called st \<and>
    array_ok st2 \<and> free_list_ok st2 \<and> 0 < h \<and> h < top_handle st2 \<and> \<not> live st h \<and> \<not> retired st h \<and> moves st2 = moves st1"
proof -
  have a: "array_ok st" "free_list_ok st" using inv by (simp_all add: store_inv_def)
  from a t show ?thesis
  proof (cases rule: take_handle_cases)
    case (free hs m)
    then show ?thesis using put_into_free [OF inv free(1-4)] by simp
  next
    case new
    then show ?thesis using put_at_end [OF inv new(1,5,4,6,7,9)] room by simp
  qed
qed

lemma take_handle_room:
  assumes "store_inv H F st" and t: "take_handle st = Some (h, st1)" and s: "set_bucket h b st1 = Some st2"
  shows "free_list_head st = -1 \<longrightarrow> h < store_size st1"
proof -
  have a: "array_ok st" "free_list_ok st" using assms(1) by (simp_all add: store_inv_def)
  from a t show ?thesis
  proof (cases rule: take_handle_cases)
    case (free hs m)
    then have "h \<in> free_handles st" by auto
    then have "h \<noteq> -1" using word_top by (auto simp: free_handles_def)
    then have "sint h \<noteq> -1" by (metis signed_minus_1 signed_word_eqI)
    then show ?thesis using free by simp
  next
    case new
    obtain bs where bs: "object_buckets st1 = Some bs" "length bs = unat (store_size st1)"
      using grown_array(1) [OF a(1) new(7,9)] by blast
    then show ?thesis using s by (auto simp: set_bucket_def set_slot_def word_less_nat_alt split: if_splits)
  qed
qed

lemma put_run:
  assumes inv: "store_inv H F st" and t: "take_handle st = Some (h, st1)" and room: "free_list_head st = -1 \<longrightarrow> h < store_size st1"
  shows "\<exists>st'. zend_objects_store_put cb obj d f c st = Some (h, st') \<and> store_inv H F st' \<and>
    bucket_at st' = (bucket_at st)(h := Some (new_object cb obj d f c)) \<and> called st' = called st @ [Put h] \<and>
    0 < h \<and> \<not> live st h \<and> \<not> retired st h \<and> moves st' = moves st1"
proof -
  obtain st2 where st2: "set_bucket h (new_object cb obj d f c) st1 = Some st2"
    "bucket_at st2 = (bucket_at st)(h := Some (new_object cb obj d f c))" "called st2 = called st"
    "array_ok st2" "free_list_ok st2" "0 < h" "h < top_handle st2" "\<not> live st h" "\<not> retired st h" "moves st2 = moves st1"
    using take_then_put [OF inv t room] by blast
  have "held_ok H F (log_event (Put h) st2) \<and> (\<forall>x. phase_ok F (log_event (Put h) st2) x)"
    using st2 by (intro new_object_inv [OF inv st2(8,9)]) auto
  then show ?thesis using st2 t
    by (intro exI [of _ "log_event (Put h) st2"]) (simp add: zend_objects_store_put_def store_inv_def)
qed

lemma put_inv:
  assumes inv: "store_inv H F st" and p: "zend_objects_store_put cb obj d f c st = Some (h, st')"
  shows "store_inv H F st' \<and> bucket_at st' = (bucket_at st)(h := Some (new_object cb obj d f c)) \<and>
    called st' = called st @ [Put h] \<and> 0 < h \<and> \<not> live st h"
proof -
  obtain st1 st2 where t: "take_handle st = Some (h, st1)" "set_bucket h (new_object cb obj d f c) st1 = Some st2"
    using p by (auto simp: zend_objects_store_put_def split: bind_splits)
  show ?thesis using put_run [OF inv t(1) take_handle_room [OF inv t], of cb obj d f c] unfolding p by simp
qed


subsection \<open>The last reference\<close>

lemma store_invD:
  assumes "store_inv H F st"
  shows "array_ok st" "free_list_ok st" "F \<subseteq> H"
    "h \<in> H \<Longrightarrow> \<exists>b. bucket_at st h = Some b \<and> valid b \<and> destructor_called b" "phase_ok F st h"
  using assms by (auto simp: store_inv_def held_ok_def)

lemma store_inv_mono: "store_inv H F st \<Longrightarrow> F \<subseteq> H' \<Longrightarrow> H' \<subseteq> H \<Longrightarrow> store_inv H' F st"
  by (auto simp: store_inv_def held_ok_def)

lemma store_inv_hold:
  "store_inv H F st \<Longrightarrow> bucket_at st h = Some b \<Longrightarrow> valid b \<Longrightarrow> destructor_called b \<Longrightarrow> store_inv (insert h H) F st"
  by (auto simp: store_inv_def held_ok_def)

lemma alive_phase:
  assumes "store_inv H F st" and "bucket_at st h = Some b" and "valid b" and "\<not> destructor_called b"
  shows "life h (called st) = Some Alive" "h \<notin> H"
  using store_invD(4,5) [OF assms(1), of h] assms(2-4) by (auto simp: phase_ok_def)

lemma phase_ok_log_other: "phase_ok F st x \<Longrightarrow> e \<in> {Dtor h, Freed h} \<Longrightarrow> x \<noteq> h \<Longrightarrow> phase_ok F (log_event e st) x"
  by (auto simp: phase_ok_def)

lemma log_dtor_inv:
  assumes inv: "store_inv (insert h H) F st" and "life h (called st) = Some Alive" and "h \<notin> F"
  shows "store_inv (insert h H) F (log_event (Dtor h) st)"
proof -
  obtain b where b: "bucket_at st h = Some b" "valid b" "destructor_called b" using store_invD(4) [OF inv] by blast
  have "phase_ok F (log_event (Dtor h) st) x" for x
  proof (cases "x = h")
    case True
    then show ?thesis using assms b by (simp add: phase_ok_def live_def retired_bucket)
  next
    case False
    then show ?thesis using store_invD(5) [OF inv, of x] by (intro phase_ok_log_other) auto
  qed
  then show ?thesis using inv by (simp add: store_inv_def held_ok_def)
qed

lemma log_freed_inv:
  assumes inv: "store_inv (insert h H) F st" and "h \<notin> F"
  shows "store_inv (insert h H) (insert h F) (log_event (Freed h) st)"
proof -
  obtain b where b: "bucket_at st h = Some b" "valid b" "destructor_called b" using store_invD(4) [OF inv] by blast
  have "phase_ok (insert h F) (log_event (Freed h) st) x" for x
  proof (cases "x = h")
    case True
    obtain p where "life h (called st) = Some p" "p \<noteq> Gone" "p \<noteq> Retired"
      using store_invD(5) [OF inv, of h] b assms(2) by (auto simp: phase_ok_def live_bucket)
    moreover then have "p = Alive \<or> p = Destructed" by (cases p) simp_all
    ultimately show ?thesis using True b by (auto simp: phase_ok_def live_bucket retired_bucket)
  next
    case False
    then have "phase_ok F (log_event (Freed h) st) x"
      using store_invD(5) [OF inv, of x] by (intro phase_ok_log_other [where h = h]) auto
    then show ?thesis using False by (simp add: phase_ok_def)
  qed
  then show ?thesis using inv by (auto simp: store_inv_def held_ok_def)
qed

lemma destruct_once_inv:
  assumes inv: "store_inv H F st" and b: "bucket_at st h = Some b" "valid b"
    and cb: "\<And>f obj s fl s'. run_dtor cb f obj h s = Some (fl, s') \<Longrightarrow>
      store_inv (insert h H) F s \<Longrightarrow> store_inv (insert h H) F s'"
    and d: "destruct_once cb h handlers st = Some (fl, st')"
  shows "store_inv (insert h H) F st'"
proof (cases "destructor_called b")
  case True
  then show ?thesis using d b store_inv_hold [OF inv b] by (simp add: destruct_once_def)
next
  case False
  note a = alive_phase [OF inv b False]
  then have hF: "h \<notin> F" using store_invD(3) [OF inv] by blast
  let ?b = "b\<lparr>destructor_called := True\<rparr>"
  obtain obj where obj: "object_of b = Some obj" using store_invD(1) [OF inv] b unfolding array_ok_def by blast
  have obj': "object_of (b'::('a, 'b) object_bucket) = Some obj" if "first_word b' = first_word b" for b'
    using obj that by (simp add: object_of_def)
  have inv': "store_inv (insert h H) F (put_at h b' st)" if "b' = ?b \<or> b' = ?b\<lparr>obj_handlers := handlers\<rparr>" for b'
  proof (rule store_inv_hold)
    show "store_inv H F (put_at h b' st)" using that b obj' by (intro store_inv_put [OF inv b(1)]) auto
    show "bucket_at (put_at h b' st) h = Some b'" using b by (simp add: bucket_at_put)
  qed (use that b in auto)
  show ?thesis
  proof (cases "obj_dtor b")
    case None
    then show ?thesis using d b False inv' [of ?b] by (simp add: destruct_once_def change_bucket_live)
  next
    case (Some f)
    have put2: "put_at h (?b\<lparr>obj_handlers := handlers\<rparr>) (put_at h ?b st) = put_at h (?b\<lparr>obj_handlers := handlers\<rparr>) st"
      by (simp add: put_at_def option.map_comp comp_def)
    obtain b' where b': "b' = ?b \<or> b' = ?b\<lparr>obj_handlers := handlers\<rparr>"
      "call_dtor cb f obj h (put_at h b' st) = Some (fl, st')"
      using d b False Some obj put2
      by (auto simp: destruct_once_def change_bucket_live bucket_at_put split: if_splits)
    have "store_inv (insert h H) F (log_event (Dtor h) (put_at h b' st))"
      using inv' [OF b'(1)] a hF by (intro log_dtor_inv) auto
    then show ?thesis using b'(2) cb unfolding call_dtor_def by blast
  qed
qed

lemma add_to_free_list_inv:
  assumes inv: "store_inv (insert h H) (insert h F) st" and hH: "h \<notin> H" and F: "F \<subseteq> H" "h \<notin> F"
    and d: "ZEND_OBJECTS_STORE_ADD_TO_FREE_LIST h st = Some st'"
  shows "store_inv H F st'"
proof -
  obtain b where b: "bucket_at st h = Some b" "valid b" "destructor_called b" using store_invD(4) [OF inv] by blast
  let ?b = "b\<lparr>first_word := Next (free_list_head st), valid := False\<rparr>"
  obtain bs where bs: "object_buckets st = Some bs" "unat h < length bs" using bucket_in_array [OF b(1)] by blast
  have st': "st' = (put_at h ?b st)\<lparr>free_list_head := sint h\<rparr>"
    using d b(1) bs unfolding ZEND_OBJECTS_STORE_ADD_TO_FREE_LIST_def
    by (auto simp: change_bucket_def set_bucket_def bucket_at_def set_slot_def slot_def put_at_def)
  have bk: "bucket_at st' = (bucket_at st)(h := Some ?b)"
    using bucket_at_put [OF b(1)] by (auto simp: st' bucket_at_def)
  have same: "top_handle st' = top_handle st" "store_size st' = store_size st" "called st' = called st"
    by (simp_all add: st')
  have lv: "live st' x \<longleftrightarrow> live st x \<and> x \<noteq> h" for x by (simp add: live_def bk)
  have rt: "retired st' x \<longleftrightarrow> retired st x \<and> x \<noteq> h" for x by (simp add: retired_def bk object_of_def)
  have nr: "\<not> retired st h" using b by (simp add: retired_bucket)
  have h: "0 < h" "h < top_handle st" "live st h"
    using store_invD(1) [OF inv] b by (auto simp: array_ok_def live_bucket word_neq_0_conv [symmetric])
  have "array_ok (put_at h ?b st)"
    by (intro array_ok_put [OF store_invD(1) [OF inv] b(1)]) auto
  then have a: "array_ok st'" by (simp add: st' array_ok_def live_def bucket_at_def)
  obtain fl where fl: "free_chain (bucket_at st) (free_list_head st) fl" "distinct fl" "set fl = free_handles st"
    using store_invD(2) [OF inv] by (auto simp: free_list_ok_def)
  have hfl: "h \<notin> set fl" using h(3) fl(3) by (simp add: free_handles_def)
  have "free_chain (bucket_at st') (free_list_head st) fl"
    using hfl by (intro free_chain_cong [OF fl(1)]) (auto simp: bk)
  then have "free_chain (bucket_at st') (free_list_head st') (h # fl)" by (simp add: bk) (simp add: st')
  moreover have "set (h # fl) = free_handles st'"
    using h nr fl(3) by (simp add: free_handles_def same lv rt) blast
  ultimately have f: "free_list_ok st'" unfolding free_list_ok_def using fl(2) hfl by (intro exI [of _ "h # fl"]) simp
  have held: "held_ok H F st'" unfolding held_ok_def
  proof (intro conjI ballI)
    fix x assume "x \<in> H"
    then show "\<exists>b. bucket_at st' x = Some b \<and> valid b \<and> destructor_called b"
      using store_invD(4) [OF inv, of x] hH by (auto simp: bk)
  qed (rule F(1))
  have "phase_ok F st' x" for x
    using store_invD(5) [OF inv, of x] F(2) nr by (cases "x = h") (auto simp: phase_ok_def same lv bk rt live_bucket)
  then show ?thesis using a f held by (simp add: store_inv_def)
qed

lemma free_once_inv:
  assumes inv: "store_inv (insert h H) F st" and hH: "h \<notin> H" "F \<subseteq> H"
    and cb: "\<And>f obj s fl s'. run_free cb f obj s = Some (fl, s') \<Longrightarrow>
      store_inv (insert h H) (insert h F) s \<Longrightarrow> store_inv (insert h H) (insert h F) s'"
    and d: "free_once cb h st = Some (fl, st')"
  shows "store_inv H F st'"
proof -
  obtain b where b: "bucket_at st h = Some b" "valid b" using store_invD(4) [OF inv] by blast
  obtain obj where obj: "object_of b = Some obj" using store_invD(1) [OF inv] b unfolding array_ok_def by blast
  have hF: "h \<notin> F" using hH by blast
  show ?thesis
  proof (cases "obj_refcount b = 1")
    case False
    then show ?thesis using d b store_inv_mono [OF inv, of H] hH by (auto simp: free_once_def)
  next
    case True
    then obtain st1 where st1: "call_free cb (obj_free_storage b) obj (Freed h) st = Some (fl, st1)"
      "ZEND_OBJECTS_STORE_ADD_TO_FREE_LIST h st1 = Some st'"
      using d b obj by (auto simp: free_once_def split: bind_splits)
    have "store_inv (insert h H) (insert h F) st1"
      using st1(1) log_freed_inv [OF inv hF] cb by (auto simp: call_free_def split: option.splits)
    then show ?thesis using add_to_free_list_inv [OF _ hH hF st1(2)] by blast
  qed
qed

lemma del_ref_keep:
  assumes b: "bucket_at st h = Some b" and "\<not> (valid b \<and> obj_refcount b = 1)"
  shows "zend_objects_store_del_ref_by_handle_ex cb h handlers st = Some (False, put_at h (obj_refcount_update (\<lambda>n. n - 1) b) st)"
proof -
  obtain bs where "object_buckets st = Some bs" using bucket_in_array [OF b] by blast
  then show ?thesis unfolding zend_objects_store_del_ref_by_handle_ex_def
    using assms by (auto simp: change_bucket_live [OF b])
qed

lemma del_ref_last:
  assumes b: "bucket_at st h = Some b" and "valid b" and "obj_refcount b = 1"
  shows "zend_objects_store_del_ref_by_handle_ex cb h handlers st = do {
    (fl1, st1) \<leftarrow> destruct_once cb h handlers st;
    (fl2, st2) \<leftarrow> free_once cb h st1;
    if moves st1 \<noteq> moves st2 then None
    else do { st3 \<leftarrow> change_bucket h (obj_refcount_update (\<lambda>n. n - 1)) st2; Some (fl1 \<or> fl2, st3) } }"
proof -
  obtain bs where "object_buckets st = Some bs" using bucket_in_array [OF b] by blast
  then show ?thesis unfolding zend_objects_store_del_ref_by_handle_ex_def
    using assms by (cases "destruct_once cb h handlers st") (auto split: bind_splits)
qed

lemma del_ref_inv:
  assumes inv: "store_inv H F st" and guard: "h \<in> H \<longrightarrow> (\<exists>b. bucket_at st h = Some b \<and> obj_refcount b \<noteq> 1)"
    and dtor: "\<And>f obj s fl s'. run_dtor cb f obj h s = Some (fl, s') \<Longrightarrow>
      store_inv (insert h H) F s \<Longrightarrow> store_inv (insert h H) F s'"
    and free: "\<And>f obj s fl s'. run_free cb f obj s = Some (fl, s') \<Longrightarrow>
      store_inv (insert h H) (insert h F) s \<Longrightarrow> store_inv (insert h H) (insert h F) s'"
    and d: "zend_objects_store_del_ref_by_handle_ex cb h handlers st = Some (fl, st')"
  shows "store_inv H F st'"
proof -
  have down: "store_inv H F s'" if s: "store_inv H F s" and c: "change_bucket h (obj_refcount_update (\<lambda>n. n - 1)) s = Some s'" for s s'
  proof -
    obtain b where b: "bucket_at s h = Some b" "s' = put_at h (obj_refcount_update (\<lambda>n. n - 1) b) s"
      using change_bucketD [OF c] by blast
    have "valid b \<longrightarrow> object_of b \<noteq> None" using store_invD(1) [OF s] b unfolding array_ok_def by blast
    then show ?thesis unfolding b(2) by (intro store_inv_put [OF s b(1)]) (auto simp: object_of_def)
  qed
  obtain bs where "object_buckets st = Some bs" using store_invD(1) [OF inv] by (auto simp: array_ok_def)
  then obtain b where b: "bucket_at st h = Some b"
    using d unfolding zend_objects_store_del_ref_by_handle_ex_def by (cases "bucket_at st h") simp_all
  show ?thesis
  proof (cases "valid b \<and> obj_refcount b = 1")
    case False
    then show ?thesis using d del_ref_keep [OF b False] down [OF inv change_bucket_live [OF b]] by simp
  next
    case True
    then have hH: "h \<notin> H" using guard b by auto
    obtain fl1 st1 fl2 st2 where st: "destruct_once cb h handlers st = Some (fl1, st1)" "free_once cb h st1 = Some (fl2, st2)"
      "change_bucket h (obj_refcount_update (\<lambda>n. n - 1)) st2 = Some st'"
      using d del_ref_last [OF b] True by (auto split: bind_splits if_splits)
    have "store_inv (insert h H) F st1" 
      by (rule destruct_once_inv [OF inv b _ _ st(1)]) (use True dtor in blast)+
    then have "store_inv H F st2"
      by (rule free_once_inv [OF _ hH store_invD(3) [OF inv] _ st(2)]) (use free in blast)+
    then show ?thesis using st(3) down by blast
  qed
qed


subsection \<open>Destructors at the end of the request\<close>

lemma change_inv:
  assumes inv: "store_inv H F st" and "live st h" and c: "change_bucket h g st = Some st'"
    and g: "\<And>b. valid b \<Longrightarrow> valid (g b)" "\<And>b. object_of b \<noteq> None \<Longrightarrow> object_of (g b) \<noteq> None"
      "\<And>b. destructor_called b \<Longrightarrow> destructor_called (g b)"
  shows "store_inv H F st'"
proof -
  obtain b where b: "bucket_at st h = Some b" "st' = put_at h (g b) st" using change_bucketD [OF c] by blast
  then have v: "valid b" using assms(2) by (simp add: live_bucket)
  then have "object_of b \<noteq> None" using store_invD(1) [OF inv] b unfolding array_ok_def by blast
  then show ?thesis unfolding b(2) using v g by (intro store_inv_put [OF inv b(1)]) auto
qed

lemma held_live: "store_inv (insert h H) F st \<Longrightarrow> live st h"
  using store_invD(4) [of "insert h H" F st h] by (auto simp: live_def)

text \<open>One object's destructor at the end of the request, with the reference it is given.\<close>

lemma shutdown_dtor_inv:
  assumes inv: "store_inv H F st" and b: "bucket_at st i = Some b" "valid b" "\<not> destructor_called b" "object_of b = Some obj"
    and st1: "change_bucket i (destructor_called_update (\<lambda>_. True)) st = Some st1"
  shows "store_inv H F st1"
    "\<And>st2. change_bucket i (obj_refcount_update (\<lambda>n. n + 1)) st1 = Some st2 \<Longrightarrow>
      store_inv (insert i H) F (log_event (Dtor i) st2)"
proof -
  have lv: "live st i" using b by (simp add: live_bucket)
  show i1: "store_inv H F st1" by (rule change_inv [OF inv lv st1]) (auto simp: object_of_def)
  have st1': "st1 = put_at i (b\<lparr>destructor_called := True\<rparr>) st" using st1 change_bucket_live [OF b(1)] by simp
  fix st2 assume st2: "change_bucket i (obj_refcount_update (\<lambda>n. n + 1)) st1 = Some st2"
  have bk: "bucket_at st1 i = Some (b\<lparr>destructor_called := True\<rparr>)" by (simp add: st1' bucket_at_put [OF b(1)])
  have "store_inv H F st2" by (rule change_inv [OF i1 _ st2]) (auto simp: object_of_def live_bucket [OF bk] b)
  then have "store_inv (insert i H) F st2"
  proof (rule store_inv_hold)
    have "st2 = put_at i (obj_refcount_update (\<lambda>n. n + 1) (b\<lparr>destructor_called := True\<rparr>)) st1"
      using st2 change_bucket_live [OF bk] by simp
    then show "bucket_at st2 i = Some (obj_refcount_update (\<lambda>n. n + 1) (b\<lparr>destructor_called := True\<rparr>))"
      by (simp add: bucket_at_put [OF bk])
  qed (use b in simp_all)
  moreover have "called st2 = called st" using change_bucketD [OF st2] st1' by auto
  ultimately show "store_inv (insert i H) F (log_event (Dtor i) st2)"
    using alive_phase [OF inv b(1-3)] store_invD(3) [OF inv] by (intro log_dtor_inv) auto
qed

definition dtor_keeps :: "uint set \<Rightarrow> uint set \<Rightarrow> ('o, 'f) callbacks \<Rightarrow> bool" where
  "dtor_keeps H F cb \<longleftrightarrow> (\<forall>h f obj s fl s'. run_dtor cb f obj h s = Some (fl, s') \<longrightarrow>
     store_inv (insert h H) F s \<longrightarrow> store_inv (insert h H) F s')"

lemma call_destructors_inv:
  "call_destructors_from cb i st = Some r \<Longrightarrow> dtor_keeps H F cb \<longrightarrow> store_inv H F st \<longrightarrow> store_inv H F (snd r)"
proof (rule call_destructors_from.raw_induct [of "\<lambda>cb i st r. dtor_keeps H F cb \<longrightarrow> store_inv H F st \<longrightarrow> store_inv H F (snd r)"])
  fix loop :: "('a, 'b) callbacks \<Rightarrow> uint \<Rightarrow> ('a, 'b) objects_store \<Rightarrow> (bool \<times> ('a, 'b) objects_store) option"
    and cb :: "('a, 'b) callbacks" and i st and r :: "bool \<times> ('a, 'b) objects_store"
  assume IH: "\<And>cb i st r. loop cb i st = Some r \<Longrightarrow> dtor_keeps H F cb \<longrightarrow> store_inv H F st \<longrightarrow> store_inv H F (snd r)"
    and body: "(if i < top_handle st then do {
        b \<leftarrow> bucket_at st i;
        if valid b \<and> \<not> destructor_called b then do {
          st \<leftarrow> change_bucket i (destructor_called_update (\<lambda>_. True)) st;
          obj \<leftarrow> object_of b;
          (if obj_dtor b \<noteq> None \<and> obj \<noteq> None then do {
             st \<leftarrow> change_bucket i (obj_refcount_update (\<lambda>n. n + 1)) st;
             (bailout, st) \<leftarrow> call_dtor cb (the (obj_dtor b)) obj i st;
             (if bailout then Some (True, st)
              else do { st \<leftarrow> change_bucket i (obj_refcount_update (\<lambda>n. n - 1)) st; loop cb (i + 1) st })
           } else loop cb (i + 1) st)
        } else loop cb (i + 1) st
      } else Some (False, st)) = Some r"
  show "dtor_keeps H F cb \<longrightarrow> store_inv H F st \<longrightarrow> store_inv H F (snd r)"
  proof (intro impI)
  assume keeps: "dtor_keeps H F cb" and inv: "store_inv H F st"
  have loop: "store_inv H F (snd r)" if "loop cb (i + 1) s = Some r" and "store_inv H F s" for s
    using IH [OF that(1)] keeps that(2) by simp
  show "store_inv H F (snd r)"
  proof (cases "i < top_handle st")
    case False
    then show ?thesis using body inv by auto
  next
    case True
    then obtain b where b: "bucket_at st i = Some b" using body by (auto split: bind_splits)
    show ?thesis
    proof (cases "valid b \<and> \<not> destructor_called b")
      case False
      then show ?thesis using body True b loop inv by auto
    next
      case v: True
      then obtain st1 obj where st1: "change_bucket i (destructor_called_update (\<lambda>_. True)) st = Some st1"
        "object_of b = Some obj" using body True b by (auto split: bind_splits)
      note dt = shutdown_dtor_inv [OF inv b conjunct1 [OF v] conjunct2 [OF v] st1(2,1)]
      show ?thesis
      proof (cases "obj_dtor b \<noteq> None \<and> obj \<noteq> None")
        case False
        then show ?thesis using body True b v st1 loop dt(1) by auto
      next
        case d: True
        then obtain st2 fl' st3 where st2: "change_bucket i (obj_refcount_update (\<lambda>n. n + 1)) st1 = Some st2"
          "call_dtor cb (the (obj_dtor b)) obj i st2 = Some (fl', st3)"
          "if fl' then r = (True, st3) else (\<exists>st4. change_bucket i (obj_refcount_update (\<lambda>n. n - 1)) st3 = Some st4 \<and>
            loop cb (i + 1) st4 = Some r)"
          using body True b v st1 d by (simp split: bind_splits) (auto split: bind_splits if_splits)
        have i3: "store_inv (insert i H) F st3"
          using keeps dt(2) [OF st2(1)] st2(2) unfolding dtor_keeps_def call_dtor_def by blast
        then have h3: "store_inv H F st3" using store_invD(3) [OF inv] by (auto elim: store_inv_mono)
        have "store_inv H F st4" if c: "change_bucket i (obj_refcount_update (\<lambda>n. n - 1)) st3 = Some st4" for st4
          by (rule change_inv [OF h3 held_live [OF i3] c]) (auto simp: object_of_def)
        then show ?thesis using st2(3) h3 loop by (auto split: if_splits)
      qed
    qed
  qed
  qed
qed

subsection \<open>The end of the request\<close>

lemma mark_destructed_inv: "mark_destructed_from i st = Some st' \<Longrightarrow> store_inv H F st \<longrightarrow> store_inv H F st'"
proof (rule mark_destructed_from.raw_induct [of "\<lambda>i st st'. store_inv H F st \<longrightarrow> store_inv H F st'"])
  fix loop i and st st' :: "('a, 'b) objects_store"
  assume IH: "\<And>i st st'. loop i st = Some st' \<Longrightarrow> store_inv H F st \<longrightarrow> store_inv H F st'"
    and body: "(if i < top_handle st then do {
        b \<leftarrow> bucket_at st i;
        st \<leftarrow> (if valid b then set_bucket i (b\<lparr>destructor_called := True\<rparr>) st else Some st);
        loop (i + 1) st
      } else Some st) = Some st'"
  show "store_inv H F st \<longrightarrow> store_inv H F st'"
  proof
    assume inv: "store_inv H F st"
    show "store_inv H F st'"
    proof (cases "i < top_handle st")
      case True
      then obtain b where b: "bucket_at st i = Some b" using body by (auto split: bind_splits)
      have "store_inv H F (put_at i (b\<lparr>destructor_called := True\<rparr>) st)" if "valid b"
        using that store_invD(1) [OF inv] b unfolding array_ok_def
        by (intro store_inv_put [OF inv b]) (auto simp: object_of_def)
      then show ?thesis using body True b IH inv by (auto simp: set_bucket_live [OF b] split: if_splits)
    qed (use body inv in auto)
  qed
qed

text \<open>An object goes, its bucket does not.\<close>

lemma freed_at_end_inv:
  assumes inv: "store_inv {} {} st" and b: "bucket_at st i = Some b" "valid b"
  shows "store_inv {} {} (log_event (Freed_at_end i) (put_at i (valid_update (\<lambda>_. False) b) st))"
proof -
  let ?b = "valid_update (\<lambda>_. False) b"
  have o: "object_of b \<noteq> None" "i \<noteq> 0" using store_invD(1) [OF inv] b by (auto simp: array_ok_def live_bucket)
  then have ob: "object_of ?b \<noteq> None" by (simp add: object_of_def)
  have lv: "live (put_at i ?b st) x \<longleftrightarrow> live st x \<and> x \<noteq> i" for x by (simp add: live_put [OF b(1)])
  have rt: "retired (put_at i ?b st) x \<longleftrightarrow> retired st x \<or> x = i" for x using o ob by (simp add: retired_put [OF b(1)])
  have "array_ok (put_at i ?b st)" by (intro array_ok_put [OF store_invD(1) [OF inv] b(1)]) auto
  moreover have "free_list_ok (put_at i ?b st)"
  proof -
    obtain fl where fl: "free_chain (bucket_at st) (free_list_head st) fl" "distinct fl" "set fl = free_handles st"
      using store_invD(2) [OF inv] by (auto simp: free_list_ok_def)
    then have "i \<notin> set fl" using b by (simp add: free_handles_def live_bucket)
    then have "free_chain (bucket_at (put_at i ?b st)) (free_list_head st) fl"
      by (intro free_chain_cong [OF fl(1)]) (auto simp: bucket_at_put [OF b(1)])
    moreover have "free_handles (put_at i ?b st) = free_handles st" using b by (auto simp: free_handles_def lv rt live_bucket)
    ultimately show ?thesis using fl unfolding free_list_ok_def by auto
  qed
  moreover have "phase_ok {} (log_event (Freed_at_end i) (put_at i ?b st)) x" for x
  proof (cases "x = i")
    case True
    obtain p where "life i (called st) = Some p" "p \<noteq> Gone" "p \<noteq> Retired"
      using store_invD(5) [OF inv, of i] b by (auto simp: phase_ok_def live_bucket)
    moreover then have "p = Alive \<or> p = Destructed" by (cases p) simp_all
    ultimately show ?thesis using True b by (auto simp: phase_ok_def lv rt bucket_at_put [OF b(1)])
  next
    case False
    then show ?thesis using store_invD(5) [OF inv, of x] by (auto simp: phase_ok_def lv rt bucket_at_put [OF b(1)])
  qed
  ultimately show ?thesis by (simp add: store_inv_def held_ok_def)
qed

definition free_keeps :: "('o, 'f) callbacks \<Rightarrow> bool" where
  "free_keeps cb \<longleftrightarrow> (\<forall>f obj s fl s'. run_free cb f obj s = Some (fl, s') \<longrightarrow> store_inv {} {} s \<longrightarrow> store_inv {} {} s')"

lemma free_object_storage_inv:
  "free_object_storage_from cb i st = Some r \<Longrightarrow> free_keeps cb \<longrightarrow> store_inv {} {} st \<longrightarrow> store_inv {} {} (snd r)"
proof (rule free_object_storage_from.raw_induct [of "\<lambda>cb i st r. free_keeps cb \<longrightarrow> store_inv {} {} st \<longrightarrow> store_inv {} {} (snd r)"])
  fix loop :: "('a, 'b) callbacks \<Rightarrow> uint \<Rightarrow> ('a, 'b) objects_store \<Rightarrow> (bool \<times> ('a, 'b) objects_store) option"
    and cb :: "('a, 'b) callbacks" and i st and r :: "bool \<times> ('a, 'b) objects_store"
  assume IH: "\<And>cb i st r. loop cb i st = Some r \<Longrightarrow> free_keeps cb \<longrightarrow> store_inv {} {} st \<longrightarrow> store_inv {} {} (snd r)"
    and body: "(if i < top_handle st then do {
        b \<leftarrow> bucket_at st i;
        if valid b then do {
          st \<leftarrow> change_bucket i (valid_update (\<lambda>_. False)) st;
          obj \<leftarrow> object_of b;
          (bailout, st) \<leftarrow> call_free cb (obj_free_storage b) obj (Freed_at_end i) st;
          if bailout then Some (True, st) else loop cb (i + 1) st
        } else loop cb (i + 1) st
      } else Some (False, st)) = Some r"
  show "free_keeps cb \<longrightarrow> store_inv {} {} st \<longrightarrow> store_inv {} {} (snd r)"
  proof (intro impI)
    assume keeps: "free_keeps cb" and inv: "store_inv {} {} st"
    show "store_inv {} {} (snd r)"
    proof (cases "i < top_handle st")
      case True
      then obtain b where b: "bucket_at st i = Some b" using body by (auto split: bind_splits)
      show ?thesis
      proof (cases "valid b")
        case v: True
        then obtain obj fl st1 where st1: "call_free cb (obj_free_storage b) obj (Freed_at_end i) (put_at i (valid_update (\<lambda>_. False) b) st) = Some (fl, st1)"
          "if fl then r = (True, st1) else loop cb (i + 1) st1 = Some r"
          using body True b by (auto simp: change_bucket_live [OF b] split: bind_splits if_splits)
        have "store_inv {} {} st1"
          using st1(1) freed_at_end_inv [OF inv b v] keeps unfolding free_keeps_def call_free_def by (auto split: option.splits)
        then show ?thesis using st1(2) IH keeps by (auto split: if_splits)
      next
        case False
        then show ?thesis using body True b IH keeps inv by auto
      qed
    qed (use body inv in auto)
  qed
qed

subsection \<open>Runs\<close>

lemma other_field_inv:
  assumes inv: "store_inv H F st" and c: "change_bucket h g st = Some st'"
    and g: "\<And>b. valid (g b) = valid b" "\<And>b. first_word (g b) = first_word b"
      "\<And>b. destructor_called b \<Longrightarrow> destructor_called (g b)"
  shows "store_inv H F st'"
proof -
  obtain b where b: "bucket_at st h = Some b" "st' = put_at h (g b) st" using change_bucketD [OF c] by blast
  then have "valid b \<longrightarrow> object_of b \<noteq> None" using store_invD(1) [OF inv] unfolding array_ok_def by blast
  then show ?thesis unfolding b(2) using g by (intro store_inv_put [OF inv b(1)]) (auto simp: object_of_def)
qed

lemma clone_inv:
  assumes inv: "store_inv H F st" and d: "zend_objects_store_clone_obj cb z st = Some (r, st')"
    and cb: "\<forall>f obj s bl new s'. run_clone cb f obj s = Some (bl, new, s') \<longrightarrow> store_inv H F s \<longrightarrow> store_inv H F s'"
  shows "store_inv H F st'"
proof -
  obtain b where b: "bucket_at st (zval_handle z) = Some b" using d by (auto simp: zend_objects_store_clone_obj_def Let_def split: bind_splits)
  show ?thesis
  proof (cases "obj_clone b")
    case None
    then show ?thesis using d b inv by (simp add: zend_objects_store_clone_obj_def Let_def)
  next
    case (Some f)
    obtain obj bl new st1 where st1: "object_of b = Some obj" "run_clone cb f obj st = Some (bl, new, st1)"
      using d b Some by (auto simp: zend_objects_store_clone_obj_def Let_def split: bind_splits)
    then have i1: "store_inv H F st1" using cb inv by blast
    show ?thesis
    proof (cases bl)
      case True
      then show ?thesis using d b Some st1 i1 by (simp add: zend_objects_store_clone_obj_def Let_def)
    next
      case False
      then obtain d1 f1 c1 h st2 where st2: "zend_objects_store_put cb new d1 f1 c1 st1 = Some (h, st2)"
        "change_bucket (zval_handle z) (obj_handlers_update (\<lambda>_. zval_handlers z)) st2 = Some st'"
        using d b Some st1 by (auto simp: zend_objects_store_clone_obj_def Let_def split: bind_splits)
      show ?thesis by (rule other_field_inv [OF conjunct1 [OF put_inv [OF i1 st2(1)]] st2(2)]) simp_all
    qed
  qed
qed

text \<open>
  \<open>store_run H st st'\<close>: operations lead from \<open>st\<close> to \<open>st'\<close> while the objects of \<open>H\<close> are being
  destroyed. A callback is a run too; it drops only references that it does not share with the
  destruction under way, so it never drops the last one of an object of \<open>H\<close>. The storage of all objects
  is freed at the end of the request, when no object is being destroyed.
\<close>

inductive store_run :: "uint set \<Rightarrow> ('o, 'f) objects_store \<Rightarrow> ('o, 'f) objects_store \<Rightarrow> bool" where
  no_step: "store_run H st st"
| put: "store_run H st st1 \<Longrightarrow> zend_objects_store_put cb obj d f c st1 = Some (h, st2) \<Longrightarrow> store_run H st st2"
| add_ref: "store_run H st st1 \<Longrightarrow> zend_objects_store_add_ref_by_handle h st1 = Some st2 \<Longrightarrow> store_run H st st2"
| add_ref_zval: "store_run H st st1 \<Longrightarrow> zend_objects_store_add_ref z st1 = Some st2 \<Longrightarrow> store_run H st st2"
| del_ref: "store_run H st st1 \<Longrightarrow>
    (h \<in> H \<longrightarrow> (\<exists>b. bucket_at st1 h = Some b \<and> obj_refcount b \<noteq> 1)) \<Longrightarrow>
    (\<forall>f obj s fl s'. run_dtor cb f obj h s = Some (fl, s') \<longrightarrow> store_run (insert h H) s s') \<Longrightarrow>
    (\<forall>f obj s fl s'. run_free cb f obj s = Some (fl, s') \<longrightarrow> store_run (insert h H) s s') \<Longrightarrow>
    zend_objects_store_del_ref_by_handle_ex cb h handlers st1 = Some (fl, st2) \<Longrightarrow> store_run H st st2"
| clone_obj: "store_run H st st1 \<Longrightarrow>
    (\<forall>f obj s bl new s'. run_clone cb f obj s = Some (bl, new, s') \<longrightarrow> store_run H s s') \<Longrightarrow>
    zend_objects_store_clone_obj cb z st1 = Some (r, st2) \<Longrightarrow> store_run H st st2"
| set_object: "store_run H st st1 \<Longrightarrow> live st1 (zval_handle z) \<Longrightarrow>
    zend_object_store_set_object z obj st1 = Some st2 \<Longrightarrow> store_run H st st2"
| ctor_failed: "store_run H st st1 \<Longrightarrow> zend_object_store_ctor_failed z st1 = Some st2 \<Longrightarrow> store_run H st st2"
| call_destructors: "store_run H st st1 \<Longrightarrow>
    (\<forall>h f obj s fl s'. run_dtor cb f obj h s = Some (fl, s') \<longrightarrow> store_run (insert h H) s s') \<Longrightarrow>
    zend_objects_store_call_destructors cb st1 = Some (fl, st2) \<Longrightarrow> store_run H st st2"
| mark_destructed: "store_run H st st1 \<Longrightarrow> zend_objects_store_mark_destructed st1 = Some st2 \<Longrightarrow> store_run H st st2"
| free_object_storage: "store_run {} st st1 \<Longrightarrow>
    (\<forall>f obj s fl s'. run_free cb f obj s = Some (fl, s') \<longrightarrow> store_run {} s s') \<Longrightarrow>
    zend_objects_store_free_object_storage cb st1 = Some (fl, st2) \<Longrightarrow> store_run {} st st2"

lemma store_run_inv: "store_run H st st' \<Longrightarrow> store_inv H F st \<Longrightarrow> store_inv H F st'"
proof (induction arbitrary: F rule: store_run.induct)
  case (no_step H st)
  then show ?case .
next
  case (put H st st1 cb obj d f c h st2)
  then show ?case using put_inv by blast
next
  case (add_ref H st st1 h st2)
  show ?case
    by (rule other_field_inv [OF add_ref(3) [OF add_ref(4)], of h "obj_refcount_update (\<lambda>n. n + 1)"])
      (use add_ref(2) in \<open>simp_all add: zend_objects_store_add_ref_by_handle_def\<close>)
next
  case (add_ref_zval H st st1 z st2)
  show ?case
    by (rule other_field_inv [OF add_ref_zval(3) [OF add_ref_zval(4)], of "zval_handle z" "obj_refcount_update (\<lambda>n. n + 1)"])
      (use add_ref_zval(2) in \<open>simp_all add: zend_objects_store_add_ref_def\<close>)
next
  case (del_ref H st st1 h cb handlers fl st2)
  then have "store_inv H F st1" by blast
  then show ?case by (rule del_ref_inv [OF _ _ _ _ del_ref.hyps(3)]) (use del_ref in blast)+
next
  case (clone_obj H st st1 cb z r st2)
  then have "store_inv H F st1" by blast
  then show ?case by (rule clone_inv [OF _ clone_obj.hyps(2)]) (use clone_obj in blast)
next
  case (set_object H st st1 z obj st2)
  then have "store_inv H F st1" by blast
  then show ?case
    by (rule change_inv [OF _ set_object.hyps(2), of _ _ "first_word_update (\<lambda>_. Object obj)"])
      (use set_object.hyps(3) in \<open>simp_all add: zend_object_store_set_object_def object_of_def\<close>)
next
  case (ctor_failed H st st1 z st2)
  then obtain st3 where st3: "change_bucket (zval_handle z) (obj_handlers_update (\<lambda>_. zval_handlers z)) st1 = Some st3"
    "change_bucket (zval_handle z) (destructor_called_update (\<lambda>_. True)) st3 = Some st2" "store_inv H F st1"
    by (auto simp: zend_object_store_ctor_failed_def split: bind_splits)
  have "store_inv H F st3" by (rule other_field_inv [OF st3(3,1)]) simp_all
  then show ?case by (rule other_field_inv [OF _ st3(2)]) simp_all
next
  case (call_destructors H st st1 cb fl st2)
  then have "dtor_keeps H F cb" "store_inv H F st1" by (auto simp: dtor_keeps_def)
  then show ?case using call_destructors_inv [of cb 1 st1 "(fl, st2)" H F] call_destructors.hyps(2)
    by (simp add: zend_objects_store_call_destructors_def)
next
  case (mark_destructed H st st1 st2)
  then show ?case using mark_destructed_inv [of 1 st1 st2 H F]
    by (auto simp: zend_objects_store_mark_destructed_def split: if_splits)
next
  case (free_object_storage st st1 cb fl st2)
  then have F: "F = {}" using store_invD(3) by blast
  then have "free_keeps cb" "store_inv {} {} st1" using free_object_storage by (auto simp: free_keeps_def)
  then show ?case using F free_object_storage_inv [of cb 1 st1 "(fl, st2)"] free_object_storage.hyps(2)
    by (simp add: zend_objects_store_free_object_storage_def)
qed

lemma init_inv:
  assumes i: "zend_objects_store_init n st0 = Some st" and "called st0 = []"
  shows "store_inv {} {} st"
proof -
  have n: "0 < unat n"
    using i by (auto simp: zend_objects_store_init_def set_bucket_def set_slot_def split: bind_splits if_splits)
  have st: "st = st0\<lparr>object_buckets := Some ((replicate (unat n) None)[0 := Some zero_bucket]), top_handle := 1, store_size := n, free_list_head := -1\<rparr>"
    using i n by (auto simp: zend_objects_store_init_def set_bucket_def set_slot_def split: bind_splits if_splits)
  have bk: "bucket_at st h = (if h = 0 then Some zero_bucket else None)" for h
    using n by (auto simp: st bucket_at_def slot_def nth_list_update unat_eq_0)
  have lv: "\<not> live st h" for h by (auto simp: live_def bk zero_bucket_def)
  have rt: "\<not> retired st h" for h by (simp add: retired_def bk)
  have one: "h < 1 \<longleftrightarrow> h = 0" for h :: uint by (simp add: word_less_nat_alt unat_eq_0)
  have "array_ok st" using n
    by (auto simp: array_ok_def bk lv one zero_bucket_def) (simp_all add: st word_le_nat_alt)
  moreover have "free_list_ok st" unfolding free_list_ok_def
    by (rule exI [of _ "[]"]) (use one in \<open>auto simp: st free_handles_def\<close>)
  ultimately show ?thesis using assms(2) by (simp add: store_inv_def held_ok_def phase_ok_def lv rt bk zero_bucket_def) (simp add: st)
qed

end
