(* ===== verification/Zend_Objects_Props.thy ===== *)
theory Zend_Objects_Props
  imports Zend_Objects_Correct
begin

text \<open>What the store of objects promises, and where it breaks.\<close>

subsection \<open>Callbacks that leave the store alone\<close>

definition quiet :: "bool \<Rightarrow> bool \<Rightarrow> ('o, 'f) callbacks \<Rightarrow> bool" where
  "quiet e1 e2 cb \<longleftrightarrow> (\<forall>f obj h s. run_dtor cb f obj h s = Some (e1, s)) \<and> (\<forall>f obj s. run_free cb f obj s = Some (e2, s))"

lemma destruct_quiet:
  assumes b: "bucket_at st h = Some b" "object_of b = Some obj" and q: "quiet e1 e2 cb"
  shows "\<exists>b1 st1. destruct_once cb h handlers st = Some (\<not> destructor_called b \<and> obj_dtor b \<noteq> None \<and> e1, st1) \<and>
    bucket_at st1 = (bucket_at st)(h := Some b1) \<and> valid b1 = valid b \<and> obj_refcount b1 = obj_refcount b \<and>
    first_word b1 = first_word b \<and> obj_free_storage b1 = obj_free_storage b \<and> moves st1 = moves st \<and>
    free_list_head st1 = free_list_head st \<and>
    called st1 = called st @ (if destructor_called b \<or> obj_dtor b = None then [] else [Dtor h])"
proof (cases "destructor_called b")
  case True
  then show ?thesis using b by (intro exI [of _ b] exI [of _ st]) (auto simp: destruct_once_def)
next
  case dc: False
  let ?b = "b\<lparr>destructor_called := True\<rparr>"
  have bk: "bucket_at (put_at h b' st) = (bucket_at st)(h := Some b')" for b' using bucket_at_put [OF b(1)] by auto
  show ?thesis
  proof (cases "obj_dtor b")
    case None
    then show ?thesis using b dc
      by (intro exI [of _ ?b] exI [of _ "put_at h ?b st"]) (simp add: destruct_once_def change_bucket_live bk)
  next
    case (Some f)
    define b1 where "b1 = (if handlers \<noteq> None \<and> obj_handlers b = None then ?b\<lparr>obj_handlers := handlers\<rparr> else ?b)"
    have put2: "put_at h (?b\<lparr>obj_handlers := handlers\<rparr>) (put_at h ?b st) = put_at h (?b\<lparr>obj_handlers := handlers\<rparr>) st"
      by (simp add: put_at_def option.map_comp comp_def)
    have "destruct_once cb h handlers st = Some (e1, log_event (Dtor h) (put_at h b1 st))"
      using b dc Some q put2 by (auto simp: destruct_once_def change_bucket_live bk call_dtor_def quiet_def b1_def)
    then show ?thesis using dc Some
      by (intro exI [of _ b1] exI [of _ "log_event (Dtor h) (put_at h b1 st)"]) (simp add: bk b1_def)
  qed
qed

lemma free_quiet:
  assumes b: "bucket_at st h = Some b" "object_of b = Some obj" "obj_refcount b = 1" and q: "quiet e1 e2 cb"
  shows "\<exists>b1 st1. free_once cb h st = Some (obj_free_storage b \<noteq> None \<and> e2, st1) \<and>
    bucket_at st1 = (bucket_at st)(h := Some b1) \<and> \<not> valid b1 \<and> first_word b1 = Next (free_list_head st) \<and>
    free_list_head st1 = sint h \<and> moves st1 = moves st \<and> called st1 = called st @ [Freed h]"
proof -
  let ?st = "log_event (Freed h) st" and ?b = "b\<lparr>first_word := Next (free_list_head st), valid := False\<rparr>"
  obtain bs where bs: "object_buckets st = Some bs" "unat h < length bs" using bucket_in_array [OF b(1)] by blast
  have "call_free cb (obj_free_storage b) obj (Freed h) st = Some (obj_free_storage b \<noteq> None \<and> e2, ?st)"
    using q by (auto simp: call_free_def quiet_def split: option.split)
  moreover have add: "ZEND_OBJECTS_STORE_ADD_TO_FREE_LIST h ?st = Some ((put_at h ?b ?st)\<lparr>free_list_head := sint h\<rparr>)"
    using b(1) bs unfolding ZEND_OBJECTS_STORE_ADD_TO_FREE_LIST_def
    by (auto simp: change_bucket_def set_bucket_def bucket_at_def set_slot_def slot_def put_at_def log_event_def)
  moreover have "bucket_at (put_at h ?b ?st) = (bucket_at st)(h := Some ?b)" using b(1) by (auto simp: bucket_at_put)
  then have "bucket_at ((put_at h ?b ?st)\<lparr>free_list_head := sint h\<rparr>) = (bucket_at st)(h := Some ?b)"
    by (simp add: bucket_at_def fun_eq_iff)
  ultimately show ?thesis using b
    by (intro exI [of _ ?b] exI [of _ "(put_at h ?b ?st)\<lparr>free_list_head := sint h\<rparr>"]) (simp add: free_once_def)
qed

lemma del_ref_quiet:
  assumes inv: "store_inv H F st" and b: "bucket_at st h = Some b" "valid b" "obj_refcount b = 1" and q: "quiet e1 e2 cb"
  shows "\<exists>b' st'. zend_objects_store_del_ref_by_handle_ex cb h handlers st =
      Some (\<not> destructor_called b \<and> obj_dtor b \<noteq> None \<and> e1 \<or> obj_free_storage b \<noteq> None \<and> e2, st') \<and>
    bucket_at st' = (bucket_at st)(h := Some b') \<and> \<not> valid b' \<and> first_word b' = Next (free_list_head st) \<and>
    free_list_head st' = sint h \<and>
    called st' = called st @ (if destructor_called b \<or> obj_dtor b = None then [] else [Dtor h]) @ [Freed h]"
proof -
  obtain obj where obj: "object_of b = Some obj" using store_invD(1) [OF inv] b unfolding array_ok_def by blast
  obtain b1 st1 where d: "destruct_once cb h handlers st = Some (\<not> destructor_called b \<and> obj_dtor b \<noteq> None \<and> e1, st1)"
    "bucket_at st1 = (bucket_at st)(h := Some b1)" "valid b1" "obj_refcount b1 = 1" "first_word b1 = first_word b"
    "obj_free_storage b1 = obj_free_storage b" "moves st1 = moves st" "free_list_head st1 = free_list_head st"
    "called st1 = called st @ (if destructor_called b \<or> obj_dtor b = None then [] else [Dtor h])"
    using destruct_quiet [OF b(1) obj q] b by metis
  then have b1: "bucket_at st1 h = Some b1" "object_of b1 = Some obj" using obj by (simp_all add: object_of_def)
  obtain b2 st2 where f: "free_once cb h st1 = Some (obj_free_storage b1 \<noteq> None \<and> e2, st2)"
    "bucket_at st2 = (bucket_at st1)(h := Some b2)" "\<not> valid b2" "first_word b2 = Next (free_list_head st1)"
    "free_list_head st2 = sint h" "moves st2 = moves st1" "called st2 = called st1 @ [Freed h]"
    using free_quiet [OF b1 d(4) q] by metis
  have b2: "bucket_at st2 h = Some b2" by (simp add: f)
  let ?b = "obj_refcount_update (\<lambda>n. n - 1) b2"
  have "bucket_at (put_at h ?b st2) = (bucket_at st)(h := Some ?b)"
    using bucket_at_put [OF b2] by (auto simp: f(2) d(2))
  then show ?thesis using d f change_bucket_live [OF b2]
    by (intro exI [of _ ?b] exI [of _ "put_at h ?b st2"]) (simp add: del_ref_last [OF b])
qed

lemma quiet_keeps:
  assumes "quiet e1 e2 cb"
  shows "run_dtor cb f obj h s = Some (fl, s') \<Longrightarrow> s' = s" "run_free cb f obj s = Some (fl, s') \<Longrightarrow> s' = s"
  using assms by (auto simp: quiet_def)

lemma del_then_put:
  assumes inv: "store_inv H F st" and "h \<notin> H" and b: "bucket_at st h = Some b" "valid b" "obj_refcount b = 1"
    and q: "quiet e1 e2 cb" and d: "zend_objects_store_del_ref_by_handle_ex cb h handlers st = Some (fl, st')"
    and st': "bucket_at st' h = Some b'" "first_word b' = Next n" "free_list_head st' = sint h"
  shows "\<exists>st2. zend_objects_store_put cb' obj dt fs c st' = Some (h, st2)"
proof -
  have i: "store_inv H F st'"
    by (rule del_ref_inv [OF inv _ _ _ d]) (use assms(2) quiet_keeps [OF q] in \<open>blast+\<close>)
  have "h < top_handle st" using store_invD(1) [OF inv] b unfolding array_ok_def by blast
  then have "sint h \<noteq> -1" using word_top by (metis signed_minus_1 signed_word_eqI)
  then have "take_handle st' = Some (h, st'\<lparr>free_list_head := n\<rparr>)" "free_list_head st' \<noteq> -1"
    using st' by (simp_all add: take_handle_def)
  then show ?thesis using put_run [OF i, of h] by blast
qed


lemma double_size:
  assumes "(t :: uint) \<le> n" and "0 < t" and "unat n < 2 ^ 31"
  shows "t < (if t = n then push_bit 1 n else n)"
proof -
  have "unat (push_bit 1 n) = 2 * unat n" using assms(3) by (simp add: push_bit_eq_mult unat_word_ariths)
  moreover have "t \<noteq> n \<Longrightarrow> t < n" using assms(1) by simp
  ultimately show ?thesis using assms(2,3) by (cases "t = n") (simp_all add: word_less_nat_alt)
qed

lemma take_handle_returns:
  assumes inv: "store_inv H F st" and room: "free_list_head st \<noteq> -1 \<or> unat (store_size st) < 2 ^ 31"
  shows "\<exists>h st1. take_handle st = Some (h, st1) \<and> (free_list_head st = -1 \<longrightarrow> h < store_size st1)"
proof (cases "free_list_head st = -1")
  case False
  show ?thesis using take_free_handle [OF store_invD(2) [OF inv] False] False by blast
next
  case True
  have "0 < top_handle st" "top_handle st \<le> store_size st" using store_invD(1) [OF inv] by (simp_all add: array_ok_def)
  then have "top_handle st < (if top_handle st = store_size st then push_bit 1 (store_size st) else store_size st)"
    using room True by (intro double_size) auto
  then show ?thesis using True by (auto simp: take_handle_def Let_def)
qed

subsection \<open>Sample stores\<close>

definition blank_store :: "(nat, nat) objects_store" where
  "blank_store = \<lparr>object_buckets = None, top_handle = 0, store_size = 0, free_list_head = 0, moves = 0, called = []\<rparr>"

definition sample_callbacks :: "(nat, nat) callbacks" where
  "sample_callbacks = \<lparr>run_dtor = (\<lambda>f obj h s. Some (False, s)), run_free = (\<lambda>f obj s. Some (False, s)),
     run_clone = (\<lambda>f obj s. Some (False, obj, s)), destroy_object = 7\<rparr>"

definition sample_bucket :: "(nat, nat) object_bucket" where
  "sample_bucket = new_object sample_callbacks (Some 5) None (Some 8) None"

definition sample_store :: "obj_event list \<Rightarrow> (nat, nat) objects_store" where
  "sample_store evs = \<lparr>object_buckets = Some [Some zero_bucket, Some sample_bucket], top_handle = 2, store_size = 2,
     free_list_head = -1, moves = 0, called = evs\<rparr>"

definition first_store :: "(nat, nat) objects_store" where
  "first_store = \<lparr>object_buckets = Some [Some zero_bucket, None], top_handle = 1, store_size = 2,
     free_list_head = -1, moves = 0, called = []\<rparr>"

lemma sample_quiet: "quiet False False sample_callbacks"
  by (simp add: quiet_def sample_callbacks_def)

lemma sample_init: "zend_objects_store_init 2 blank_store = Some first_store"
  by code_simp

lemma sample_put: "zend_objects_store_put sample_callbacks (Some 5) None (Some 8) None first_store = Some (1, sample_store [Put 1])"
  by code_simp

lemma sample_inv: "store_inv {} {} (sample_store [Put 1])"
proof -
  have "store_inv {} {} first_store" by (rule init_inv [OF sample_init]) (simp add: blank_store_def)
  then show ?thesis using put_inv [OF _ sample_put] by blast
qed

lemma sample_at: "bucket_at (sample_store evs) 1 = Some sample_bucket"
  by (simp add: bucket_at_def slot_def sample_store_def)

lemma sample_bucket_simps: "valid sample_bucket" "obj_refcount sample_bucket = 1" "\<not> destructor_called sample_bucket"
  "obj_dtor sample_bucket = Some 7" "object_of sample_bucket = Some (Some 5)" "obj_free_storage sample_bucket = Some 8"
  by (simp_all add: sample_bucket_def) (simp add: new_object_def sample_callbacks_def)

subsection \<open>Properties\<close>

text \<open>
  C7: in every run of the store from its initialisation, through the end of the request, with callbacks that
  are runs themselves, every handle goes through put, destructor (at most once), storage freed (at most once per
  put). The valid buckets are exactly those of objects whose storage has not been freed. The free list links,
  each once, exactly the handles freed with their last reference; a handle whose object is freed by
  \<open>zend_objects_store_free_object_storage\<close> is not in it, and never handed out again.
\<close>

theorem objects_live_once:
  assumes "zend_objects_store_init n st0 = Some st" and "called st0 = []" and "store_run {} st st'"
  shows "(\<forall>h. life h (called st') \<noteq> None) \<and>
    (\<forall>h. live st' h \<longleftrightarrow> life h (called st') \<in> {Some Alive, Some Destructed}) \<and>
    (\<exists>fl. free_chain (bucket_at st') (free_list_head st') fl \<and> distinct fl \<and>
      set fl = {h. 0 < h \<and> h < top_handle st' \<and> life h (called st') = Some Gone})"
proof -
  have inv: "store_inv {} {} st'" by (rule store_run_inv [OF assms(3) init_inv [OF assms(1,2)]])
  have l: "life h (called st') \<noteq> None \<and> (live st' h \<longleftrightarrow> life h (called st') \<in> {Some Alive, Some Destructed}) \<and>
    (\<not> live st' h \<and> \<not> retired st' h \<longleftrightarrow> life h (called st') = Some Gone)" for h
  proof -
    obtain p where "life h (called st') = Some p" "p = Gone \<or> p = Retired \<longleftrightarrow> \<not> live st' h" "p = Retired \<longleftrightarrow> retired st' h"
      using store_invD(5) [OF inv, of h] by (auto simp: phase_ok_def)
    then show ?thesis by (cases p) auto
  qed
  have "free_handles st' = {h. 0 < h \<and> h < top_handle st' \<and> life h (called st') = Some Gone}"
    unfolding free_handles_def using l by blast
  then show ?thesis using l store_invD(2) [OF inv] unfolding free_list_ok_def by blast
qed

theorem objects_live_once_witness:
  "\<exists>st'. store_run {} first_store st' \<and> called st' = [Put 1, Dtor 1, Freed 1] \<and> \<not> live st' 1 \<and>
    life 1 (called st') \<noteq> None"
proof -
  note b = sample_at [of "[Put 1]"]
  obtain b' st' where d: "zend_objects_store_del_ref_by_handle_ex sample_callbacks 1 None (sample_store [Put 1]) = Some (False, st')"
    "bucket_at st' = (bucket_at (sample_store [Put 1]))(1 := Some b')" "\<not> valid b'" "called st' = [Put 1, Dtor 1, Freed 1]"
    using del_ref_quiet [OF sample_inv b sample_bucket_simps(1,2) sample_quiet, of None] sample_bucket_simps
    by (auto simp: sample_store_def)
  have q: "\<forall>f obj s fl s'. run_dtor sample_callbacks f obj 1 s = Some (fl, s') \<longrightarrow> store_run (insert 1 {}) s s'"
    "\<forall>f obj s fl s'. run_free sample_callbacks f obj s = Some (fl, s') \<longrightarrow> store_run (insert 1 {}) s s'"
    by (auto simp: sample_callbacks_def intro: no_step)
  have run: "store_run {} first_store st'"
    by (rule store_run.del_ref [OF store_run.put [OF no_step sample_put] _ q d(1)]) simp
  have "called blank_store = []" by (simp add: blank_store_def)
  then show ?thesis using objects_live_once [OF sample_init _ run] d run
    by (intro exI [of _ st']) (simp add: live_def)
qed

text \<open>
  A new object gets a handle other than 0 that no live object has, with a reference count of 1, and no other
  bucket changes; if no handle is free and the array is full, it doubles.
\<close>

theorem object_put_fresh:
  assumes "store_inv H F st" and "free_list_head st \<noteq> -1 \<or> unat (store_size st) < 2 ^ 31"
  shows "\<exists>h st'. zend_objects_store_put cb obj dtor free_storage clone st = Some (h, st') \<and> store_inv H F st' \<and>
    h \<noteq> 0 \<and> \<not> live st h \<and> bucket_at st' = (bucket_at st)(h := Some (new_object cb obj dtor free_storage clone)) \<and>
    called st' = called st @ [Put h]"
proof -
  obtain h st1 where t: "take_handle st = Some (h, st1)" "free_list_head st = -1 \<longrightarrow> h < store_size st1"
    using take_handle_returns [OF assms] by blast
  obtain st' where "zend_objects_store_put cb obj dtor free_storage clone st = Some (h, st')" "store_inv H F st'"
    "bucket_at st' = (bucket_at st)(h := Some (new_object cb obj dtor free_storage clone))" "called st' = called st @ [Put h]"
    "0 < h" "\<not> live st h"
    using put_run [OF assms(1) t, of cb obj dtor free_storage clone] by blast
  then show ?thesis by (intro exI [of _ h] exI [of _ st']) auto
qed

theorem object_put_fresh_witness:
  "\<exists>h st'. zend_objects_store_put sample_callbacks (Some 9) None None None (sample_store [Put 1]) = Some (h, st') \<and>
    h \<noteq> 0 \<and> h \<noteq> 1"
proof -
  have "free_list_head (sample_store [Put 1]) \<noteq> -1 \<or> unat (store_size (sample_store [Put 1])) < 2 ^ 31"
    by (simp add: sample_store_def)
  from object_put_fresh [OF sample_inv this, of sample_callbacks "Some 9" None None None]
  show ?thesis using sample_at [of "[Put 1]"] sample_bucket_simps(1) by (auto simp: live_def)
qed

text \<open>
  Dropping a reference that is not the last one only counts down. Dropping the last one calls the
  destructor, unless it was called before, then frees the storage, and puts the handle at the head of the free
  list: the next object gets it. A bailout in either callback is passed on, after the object is freed.
\<close>

theorem object_del_ref:
  assumes "store_inv H F st" and "h \<notin> H" and b: "bucket_at st h = Some b" "valid b" and q: "quiet e1 e2 cb"
  shows "if obj_refcount b \<noteq> 1
    then zend_objects_store_del_ref_by_handle_ex cb h handlers st = Some (False, put_at h (obj_refcount_update (\<lambda>n. n - 1) b) st)
    else \<exists>st'. zend_objects_store_del_ref_by_handle_ex cb h handlers st =
        Some (\<not> destructor_called b \<and> obj_dtor b \<noteq> None \<and> e1 \<or> obj_free_storage b \<noteq> None \<and> e2, st') \<and>
      \<not> live st' h \<and> (\<forall>x. x \<noteq> h \<longrightarrow> bucket_at st' x = bucket_at st x) \<and>
      called st' = called st @ (if destructor_called b \<or> obj_dtor b = None then [] else [Dtor h]) @ [Freed h] \<and>
      (\<forall>cb' obj d fs c. \<exists>st2. zend_objects_store_put cb' obj d fs c st' = Some (h, st2))"
proof (cases "obj_refcount b = 1")
  case False
  then show ?thesis using del_ref_keep [OF b(1)] by simp
next
  case True
  obtain b' st' where d: "zend_objects_store_del_ref_by_handle_ex cb h handlers st =
      Some (\<not> destructor_called b \<and> obj_dtor b \<noteq> None \<and> e1 \<or> obj_free_storage b \<noteq> None \<and> e2, st')"
    "bucket_at st' = (bucket_at st)(h := Some b')" "\<not> valid b'" "first_word b' = Next (free_list_head st)"
    "free_list_head st' = sint h"
    "called st' = called st @ (if destructor_called b \<or> obj_dtor b = None then [] else [Dtor h]) @ [Freed h]"
    using del_ref_quiet [OF assms(1) b True q, of handlers] by blast
  have "\<exists>st2. zend_objects_store_put cb' obj dt fs c st' = Some (h, st2)" for cb' obj dt fs c
    by (rule del_then_put [OF assms(1,2) b True q d(1) _ d(4,5)]) (simp add: d(2))
  then show ?thesis using True d by (auto simp: live_def)
qed

theorem object_del_ref_witness:
  "\<exists>st'. zend_objects_store_del_ref_by_handle_ex sample_callbacks 1 None (sample_store [Put 1]) = Some (False, st') \<and>
    called st' = [Put 1, Dtor 1, Freed 1]"
  using object_del_ref [OF sample_inv _ sample_at sample_bucket_simps(1) sample_quiet, of None] sample_bucket_simps
  by (auto simp: sample_store_def)

text \<open>
  A \<open>free_storage\<close> callback that makes the array move (it puts an object while the array is full) makes
  dropping the last reference write through a stale pointer.
\<close>

theorem object_free_storage_may_not_grow:
  assumes b: "bucket_at st h = Some b" "valid b" "obj_refcount b = 1" "destructor_called b" "object_of b = Some obj"
    and f: "obj_free_storage b = Some f" and grows: "run_free cb f obj (log_event (Freed h) st) = Some (fl, st1)" "moves st1 \<noteq> moves st"
  shows "zend_objects_store_del_ref_by_handle_ex cb h handlers st = None"
proof -
  have "destruct_once cb h handlers st = Some (False, st)" using b by (simp add: destruct_once_def)
  moreover have "moves st2 = moves st1" if "ZEND_OBJECTS_STORE_ADD_TO_FREE_LIST h st1 = Some st2" for st2
    using that by (auto simp: ZEND_OBJECTS_STORE_ADD_TO_FREE_LIST_def change_bucket_def set_bucket_def split: bind_splits)
  ultimately show ?thesis using b f grows
    by (cases "ZEND_OBJECTS_STORE_ADD_TO_FREE_LIST h st1") (simp_all add: del_ref_last free_once_def call_free_def)
qed

definition growing_callbacks :: "(nat, nat) callbacks" where
  "growing_callbacks = sample_callbacks\<lparr>run_free := (\<lambda>f obj s. map_option (\<lambda>r. (False, snd r))
     (zend_objects_store_put sample_callbacks (Some 6) None None None s))\<rparr>"

definition full_store :: "(nat, nat) objects_store" where
  "full_store = \<lparr>object_buckets = Some [Some zero_bucket, Some (sample_bucket\<lparr>destructor_called := True\<rparr>)], top_handle = 2, store_size = 2,
     free_list_head = -1, moves = 0, called = [Put 1, Dtor 1]\<rparr>"

theorem object_free_storage_may_not_grow_witness:
  "zend_objects_store_del_ref_by_handle_ex growing_callbacks 1 None full_store = None"
proof (rule object_free_storage_may_not_grow [where b = "sample_bucket\<lparr>destructor_called := True\<rparr>" and obj = "Some 5" and f = 8
      and fl = False and ?st1.0 = "snd (the (zend_objects_store_put sample_callbacks (Some 6) None None None (log_event (Freed 1) full_store)))"])
  show "bucket_at full_store 1 = Some (sample_bucket\<lparr>destructor_called := True\<rparr>)" by (simp add: full_store_def bucket_at_def slot_def)
  show "run_free growing_callbacks 8 (Some 5) (log_event (Freed 1) full_store) = Some (False,
      snd (the (zend_objects_store_put sample_callbacks (Some 6) None None None (log_event (Freed 1) full_store))))" by code_simp
  show "moves (snd (the (zend_objects_store_put sample_callbacks (Some 6) None None None (log_event (Freed 1) full_store)))) \<noteq> moves full_store"
    by code_simp
qed (use sample_bucket_simps in \<open>simp_all add: object_of_def\<close>)

end
