(* ===== verification/Calendar.thy ===== *)
theory Calendar
  imports Zend_Prelude "HOL-Library.Signed_Division"
begin

text \<open>
  \<open>ext/calendar\<close>: the conversions between serial day numbers and the Gregorian, Julian and French
  republican calendars (\<open>gregor.c\<close>, \<open>julian.c\<close>, \<open>french.c\<close>), the day of the week (\<open>dow.c\<close>),
  Easter (\<open>easter.c\<close>) and the functions of \<open>calendar.c\<close> that choose a calendar. Division truncates
  (\<open>sdiv\<close>, \<open>smod\<close>). A \<open>long\<close> has 64 bits and an \<open>int\<close> 32; storing a \<open>long\<close> in an
  \<open>int\<close> keeps its low bits, and arithmetic on \<open>int\<close>s that overflows is undefined (\<open>None\<close>).
\<close>

datatype date = Date (d_year: int) (d_month: int) (d_day: int)

subsection \<open>Gregorian\<close>

definition GREGOR_SDN_OFFSET :: int where "GREGOR_SDN_OFFSET = 32045"
definition DAYS_PER_5_MONTHS :: int where "DAYS_PER_5_MONTHS = 153"
definition DAYS_PER_4_YEARS :: int where "DAYS_PER_4_YEARS = 1461"
definition DAYS_PER_400_YEARS :: int where "DAYS_PER_400_YEARS = 146097"

text \<open>The months from March on, and the years from 4801 B.C. on, as a date; shared text of the two files.\<close>

definition normal_date :: "int \<Rightarrow> int \<Rightarrow> int \<Rightarrow> date option" where
  "normal_date year month day = do {
     (year, month) \<leftarrow> (if month < 10 then Some (year, month + 3)
       else do { year \<leftarrow> c_int (year + 1); Some (year, month - 9) });
     year \<leftarrow> c_int (year - 4800);
     year \<leftarrow> (if year \<le> 0 then c_int (year - 1) else Some year);
     Some (Date year month day)
   }"

definition SdnToGregorian :: "int \<Rightarrow> date option" where
  "SdnToGregorian sdn =
     (if sdn \<le> 0 \<or> sdn > (2 ^ 63 - 1 - 4 * GREGOR_SDN_OFFSET) sdiv 4 then Some (Date 0 0 0)
      else do {
        let temp = (sdn + GREGOR_SDN_OFFSET) * 4 - 1;
        let century = to_int (temp sdiv DAYS_PER_400_YEARS);
        let temp = ((temp smod DAYS_PER_400_YEARS) sdiv 4) * 4 + 3;
        century_years \<leftarrow> c_int (century * 100);
        let year = to_int (century_years + temp sdiv DAYS_PER_4_YEARS);
        let dayOfYear = to_int ((temp smod DAYS_PER_4_YEARS) sdiv 4 + 1);
        let temp = dayOfYear * 5 - 3;
        let month = to_int (temp sdiv DAYS_PER_5_MONTHS);
        let day = to_int ((temp smod DAYS_PER_5_MONTHS) sdiv 5 + 1);
        normal_date year month day
      })"

text \<open>\<open>year\<close> and \<open>month\<close> counted from March.\<close>

definition march_year :: "int \<Rightarrow> int \<Rightarrow> (int \<times> int) option" where
  "march_year inputYear inputMonth = do {
     year \<leftarrow> c_int (if inputYear < 0 then inputYear + 4801 else inputYear + 4800);
     Some (if inputMonth > 2 then (year, inputMonth - 3) else (year - 1, inputMonth + 9))
   }"

definition fields_invalid :: "int \<Rightarrow> int \<Rightarrow> int \<Rightarrow> int \<Rightarrow> bool" where
  "fields_invalid first inputYear inputMonth inputDay \<longleftrightarrow>
     inputYear = 0 \<or> inputYear < first \<or> inputMonth \<le> 0 \<or> inputMonth > 12 \<or> inputDay \<le> 0 \<or> inputDay > 31"

definition GregorianToSdn :: "int \<Rightarrow> int \<Rightarrow> int \<Rightarrow> int option" where
  "GregorianToSdn inputYear inputMonth inputDay =
     (if fields_invalid (-4714) inputYear inputMonth inputDay then Some 0
      else if inputYear = -4714 \<and> (inputMonth < 11 \<or> inputMonth = 11 \<and> inputDay < 25) then Some 0
      else do {
        (year, month) \<leftarrow> march_year inputYear inputMonth;
        c \<leftarrow> c_int ((year sdiv 100) * DAYS_PER_400_YEARS);
        y \<leftarrow> c_int ((year smod 100) * DAYS_PER_4_YEARS);
        c_int (c sdiv 4 + y sdiv 4 + (month * DAYS_PER_5_MONTHS + 2) sdiv 5 + inputDay - GREGOR_SDN_OFFSET)
      })"

subsection \<open>Julian\<close>

definition JULIAN_SDN_OFFSET :: int where "JULIAN_SDN_OFFSET = 32083"

definition SdnToJulian :: "int \<Rightarrow> date option" where
  "SdnToJulian sdn =
     (if sdn \<le> 0 then Some (Date 0 0 0)
      else if sdn > (2 ^ 63 - 1 - JULIAN_SDN_OFFSET * 4 + 1) sdiv 4 \<or> sdn < - (2 ^ 63) sdiv 4 then Some (Date 0 0 0)
      else do {
        temp \<leftarrow> c_long (sdn * 4 + (JULIAN_SDN_OFFSET * 4 - 1));
        let yearl = temp sdiv DAYS_PER_4_YEARS;
        if yearl > INT_MAX \<or> yearl < - (2 ^ 31) then Some (Date 0 0 0)
        else do {
          let year = yearl;
          let dayOfYear = to_int ((temp smod DAYS_PER_4_YEARS) sdiv 4 + 1);
          let temp = dayOfYear * 5 - 3;
          let month = to_int (temp sdiv DAYS_PER_5_MONTHS);
          let day = to_int ((temp smod DAYS_PER_5_MONTHS) sdiv 5 + 1);
          normal_date year month day
        }
      })"

definition JulianToSdn :: "int \<Rightarrow> int \<Rightarrow> int \<Rightarrow> int option" where
  "JulianToSdn inputYear inputMonth inputDay =
     (if fields_invalid (-4713) inputYear inputMonth inputDay then Some 0
      else if inputYear = -4713 \<and> inputMonth = 1 \<and> inputDay = 1 then Some 0
      else do {
        (year, month) \<leftarrow> march_year inputYear inputMonth;
        y \<leftarrow> c_int (year * DAYS_PER_4_YEARS);
        c_int (y sdiv 4 + (month * DAYS_PER_5_MONTHS + 2) sdiv 5 + inputDay - JULIAN_SDN_OFFSET)
      })"

subsection \<open>French republican\<close>

definition FRENCH_SDN_OFFSET :: int where "FRENCH_SDN_OFFSET = 2375474"
definition DAYS_PER_MONTH :: int where "DAYS_PER_MONTH = 30"
definition FIRST_VALID :: int where "FIRST_VALID = 2375840"
definition LAST_VALID :: int where "LAST_VALID = 2380952"

definition SdnToFrench :: "int \<Rightarrow> date option" where
  "SdnToFrench sdn =
     (if sdn < FIRST_VALID \<or> sdn > LAST_VALID then Some (Date 0 0 0)
      else
        let temp = (sdn - FRENCH_SDN_OFFSET) * 4 - 1;
            dayOfYear = to_int ((temp smod DAYS_PER_4_YEARS) sdiv 4)
        in Some (Date (to_int (temp sdiv DAYS_PER_4_YEARS)) (dayOfYear sdiv DAYS_PER_MONTH + 1) (dayOfYear smod DAYS_PER_MONTH + 1)))"

definition FrenchToSdn :: "int \<Rightarrow> int \<Rightarrow> int \<Rightarrow> int option" where
  "FrenchToSdn year month day =
     (if year < 1 \<or> year > 14 \<or> month < 1 \<or> month > 13 \<or> day < 1 \<or> day > 30 then Some 0
      else Some ((year * DAYS_PER_4_YEARS) sdiv 4 + (month - 1) * DAYS_PER_MONTH + day + FRENCH_SDN_OFFSET))"

subsection \<open>Days of the week, and the days of a month\<close>

definition DayOfWeek :: "int \<Rightarrow> int option" where
  "DayOfWeek sdn = do {
     n \<leftarrow> c_long (sdn + 1);
     let dow = to_int (n smod 7);
     Some (if dow \<ge> 0 then dow else dow + 7)
   }"

text \<open>The calendars of \<open>cal_conversion_table\<close>; the Jewish one is not modelled.\<close>

datatype calendar_id = CAL_GREGORIAN | CAL_JULIAN | CAL_FRENCH

fun to_jd :: "calendar_id \<Rightarrow> int \<Rightarrow> int \<Rightarrow> int \<Rightarrow> int option" where
  "to_jd CAL_GREGORIAN = GregorianToSdn"
| "to_jd CAL_JULIAN = JulianToSdn"
| "to_jd CAL_FRENCH = FrenchToSdn"

text \<open>\<open>Some None\<close> is \<open>FALSE\<close>. The \<open>long\<close> arguments are converted to \<open>int\<close> by the calls.\<close>

definition cal_days_in_month :: "calendar_id \<Rightarrow> int \<Rightarrow> int \<Rightarrow> int option option" where
  "cal_days_in_month cal month year = do {
     sdn_start \<leftarrow> to_jd cal (to_int year) (to_int month) 1;
     if sdn_start = 0 then Some None
     else do {
       next_month \<leftarrow> c_long (1 + month);
       sdn_next \<leftarrow> to_jd cal (to_int year) (to_int next_month) 1;
       sdn_next \<leftarrow> (if sdn_next = 0
         then (if year = -1 then to_jd cal 1 1 1
               else do { next_year \<leftarrow> c_long (year + 1); to_jd cal (to_int next_year) 1 1 })
         else Some sdn_next);
       Some (Some (sdn_next - sdn_start))
     }
   }"

subsection \<open>Easter\<close>

datatype easter_method = CAL_EASTER_DEFAULT | CAL_EASTER_ROMAN | CAL_EASTER_ALWAYS_GREGORIAN | CAL_EASTER_ALWAYS_JULIAN

definition wrap_up :: "int \<Rightarrow> int \<Rightarrow> int" where
  "wrap_up n x = (if x < 0 then x + n else x)"

text \<open>The date of the Paschal full moon \<open>pfm\<close> corrected, and the Sunday after it.\<close>

definition easter_sunday :: "int \<Rightarrow> int \<Rightarrow> int \<Rightarrow> int" where
  "easter_sunday golden dom_no pfm =
     (let pfm = (if pfm = 29 \<or> pfm = 28 \<and> golden > 11 then pfm - 1 else pfm);
          tmp = wrap_up 7 ((4 - pfm - dom_no) smod 7)
      in pfm + tmp + 1)"

definition easter_is_julian :: "easter_method \<Rightarrow> int \<Rightarrow> bool" where
  "easter_is_julian method year \<longleftrightarrow> (year \<le> 1582 \<and> method \<noteq> CAL_EASTER_ALWAYS_GREGORIAN) \<or>
     (year \<ge> 1583 \<and> year \<le> 1752 \<and> method \<noteq> CAL_EASTER_ROMAN \<and> method \<noteq> CAL_EASTER_ALWAYS_GREGORIAN) \<or>
     method = CAL_EASTER_ALWAYS_JULIAN"

text \<open>
  \<open>_cal_easter\<close> without the choice of the current year and the conversion to a timestamp: the days
  after March 21. The \<open>long\<close> arithmetic does not overflow for years below \<open>2 ^ 59\<close>.
\<close>

definition cal_easter :: "easter_method \<Rightarrow> int \<Rightarrow> int" where
  "cal_easter method year =
     (let golden = (year smod 19) + 1
      in if easter_is_julian method year
         then easter_sunday golden (wrap_up 7 ((year + year sdiv 4 + 5) smod 7)) (wrap_up 30 ((3 - (11 * golden) - 7) smod 30))
         else
           let dom_no = wrap_up 7 ((year + year sdiv 4 - year sdiv 100 + year sdiv 400) smod 7);
               solar = (year - 1600) sdiv 100 - (year - 1600) sdiv 400;
               lunar = (((year - 1400) sdiv 100) * 8) sdiv 25
           in easter_sunday golden dom_no (wrap_up 30 ((3 - (11 * golden) + solar - lunar) smod 30)))"

end
