(* ===== verification/Calendar_Correct.thy ===== *)
theory Calendar_Correct
  imports Calendar
begin

text \<open>
  The serial day numbers count the days of the calendars: the date of day \<open>n + 1\<close> is the day after
  the date of day \<open>n\<close>, by the lengths of the months and the leap years, and the inverse conversions
  give the numbers back.
\<close>

subsection \<open>Dates\<close>

instantiation date :: linorder
begin

definition less_eq_date :: "date \<Rightarrow> date \<Rightarrow> bool" where
  "less_eq_date a b \<longleftrightarrow> d_year a < d_year b \<or> d_year a = d_year b \<and>
     (d_month a < d_month b \<or> d_month a = d_month b \<and> d_day a \<le> d_day b)"

definition less_date :: "date \<Rightarrow> date \<Rightarrow> bool" where
  "less_date a b \<longleftrightarrow> d_year a < d_year b \<or> d_year a = d_year b \<and>
     (d_month a < d_month b \<or> d_month a = d_month b \<and> d_day a < d_day b)"

instance
  by standard (auto simp: less_eq_date_def less_date_def intro: date.expand)

end

definition astro :: "int \<Rightarrow> int" where
  "astro y = (if y < 0 then y + 1 else y)"

definition month_days :: "bool \<Rightarrow> int \<Rightarrow> int" where
  "month_days leap m = (if m = 2 then (if leap then 29 else 28) else if m \<in> {4, 6, 9, 11} then 30 else 31)"

definition year_after :: "int \<Rightarrow> int" where
  "year_after y = (if y = -1 then 1 else y + 1)"

definition next_date :: "(int \<Rightarrow> bool) \<Rightarrow> date \<Rightarrow> date" where
  "next_date leap dt = (case dt of Date y m d \<Rightarrow>
     if d < month_days (leap (astro y)) m then Date y m (d + 1)
     else if m < 12 then Date y (m + 1) 1 else Date (year_after y) 1 1)"

lemma less_next_date: "dt < next_date leap dt"
  by (cases dt) (auto simp: next_date_def less_date_def year_after_def)

definition leap_gregorian :: "int \<Rightarrow> bool" where
  "leap_gregorian y \<longleftrightarrow> y mod 4 = 0 \<and> (y mod 100 \<noteq> 0 \<or> y mod 400 = 0)"

definition leap_julian :: "int \<Rightarrow> bool" where
  "leap_julian y \<longleftrightarrow> y mod 4 = 0"

subsection \<open>C arithmetic on non-negative numbers\<close>

lemma sdiv_nonneg: "0 \<le> a \<Longrightarrow> 0 < b \<Longrightarrow> a sdiv b = a div (b :: int)"
  by (simp add: signed_divide_int_def sgn_if)

lemma smod_nonneg: "0 \<le> a \<Longrightarrow> 0 < b \<Longrightarrow> a smod b = a mod (b :: int)"
  by (simp add: signed_modulo_int_def sgn_if)

lemmas c_arith = sdiv_nonneg smod_nonneg to_int_id

lemma div_flip:
  fixes K z :: int
  assumes "0 < K"
  shows "(K - 1 - z) div K = - (z div K)"
proof -
  have "(K - 1 - z) div K = (K - 1 - z mod K + - (z div K) * K) div K"
    using div_mult_mod_eq [of z K] by (simp add: algebra_simps)
  also have "\<dots> = (K - 1 - z mod K) div K - z div K" using assms by (subst div_mult_self1) simp_all
  also have "(K - 1 - z mod K) div K = 0" using pos_mod_sign [OF assms, of z] pos_mod_bound [OF assms, of z] by (intro div_pos_pos_trivial) linarith+
  finally show ?thesis by simp
qed

text \<open>The digit of \<open>u\<close> in the sequence \<open>(A * c + b) div K\<close>, and the rest.\<close>

lemma digit:
  fixes A K b u c :: int
  assumes "0 < K" and "0 < A" and c: "c = (K * u + (K - 1 - b)) div A"
  shows "(A * c + b) div K \<le> u" "u < (A * (c + 1) + b) div K"
    "((K * u + (K - 1 - b)) mod A) div K = u - (A * c + b) div K"
proof -
  let ?x = "K * u + (K - 1 - b)"
  have x: "A * c \<le> ?x" "?x < A * (c + 1)"
    using mult_div_mod_eq [of A ?x] pos_mod_sign [OF assms(2), of ?x] pos_mod_bound [OF assms(2), of ?x]
    unfolding c [symmetric] distrib_left by linarith+
  have "A * c + b < K * (u + 1)" using x(1) by (simp add: algebra_simps)
  show "(A * c + b) div K \<le> u"
  proof (rule ccontr)
    assume "\<not> (A * c + b) div K \<le> u"
    then have "K * (u + 1) \<le> K * ((A * c + b) div K)" using assms(1) by (intro mult_left_mono) auto
    also have "\<dots> \<le> A * c + b" using mult_div_mod_eq [of K "A * c + b"] pos_mod_sign [OF assms(1), of "A * c + b"] by linarith
    finally show False using \<open>A * c + b < K * (u + 1)\<close> by simp
  qed
  have "K * (u + 1) \<le> A * (c + 1) + b" using x(2) by (simp add: algebra_simps)
  then show "u < (A * (c + 1) + b) div K" using assms(1) zdiv_mono1 [of "K * (u + 1)" "A * (c + 1) + b" K] by simp
  have e: "?x mod A = (K - 1 - (A * c + b)) + u * K"
    using mult_div_mod_eq [of A ?x] unfolding c [symmetric] by (simp only: mult.commute [of K])
  have "(?x mod A) div K = ((K - 1 - (A * c + b)) + u * K) div K" unfolding e by (rule HOL.refl)
  also have "\<dots> = u - (A * c + b) div K" using assms(1) by (subst div_mult_self1) (simp_all add: div_flip)
  finally show "(?x mod A) div K = u - (A * c + b) div K" .
qed


lemma digit4:
  fixes A u c :: int
  assumes "0 < A" and "c = (4 * u + 3) div A"
  shows "(A * c) div 4 \<le> u" "u < (A * (c + 1)) div 4" "((4 * u + 3) mod A) div 4 = u - (A * c) div 4"
proof -
  have "c = (4 * u + (4 - 1 - 0)) div A" using assms(2) by simp
  note d = digit [OF _ assms(1) this]
  show "(A * c) div 4 \<le> u" using d(1) by simp
  show "u < (A * (c + 1)) div 4" using d(2) by simp
  show "((4 * u + 3) mod A) div 4 = u - (A * c) div 4" using d(3) by simp
qed

text \<open>Bounds of a quotient by numerals.\<close>

lemma quotient_bounds:
  fixes x b c :: int
  assumes "0 < b" and "0 \<le> x" and "x < c * b"
  shows "0 \<le> x div b \<and> x div b < c"
proof
  show "0 \<le> x div b" using assms(1,2) by (simp add: pos_imp_zdiv_nonneg_iff)
  show "x div b < c"
  proof (rule ccontr)
    assume "\<not> x div b < c"
    then have "c * b \<le> x div b * b" using assms(1) by (intro mult_right_mono) auto
    then show False using assms(1,3) div_mult_mod_eq [of x b] pos_mod_sign [OF assms(1), of x] by linarith
  qed
qed

subsection \<open>Years that begin in March\<close>

text \<open>\<open>N Y\<close>: the days before March of year \<open>Y\<close>; \<open>month_start m\<close>: the days before month \<open>m\<close> of such a year.\<close>

definition month_start :: "int \<Rightarrow> int" where
  "month_start m = (153 * m + 2) div 5"

definition march_rep :: "(int \<Rightarrow> int) \<Rightarrow> int \<Rightarrow> int \<Rightarrow> int \<Rightarrow> int \<Rightarrow> bool" where
  "march_rep N u Y m d \<longleftrightarrow> N Y \<le> u \<and> u < N (Y + 1) \<and> 0 \<le> m \<and> m \<le> 11 \<and>
     month_start m \<le> u - N Y \<and> u - N Y < month_start (m + 1) \<and> d = u - N Y - month_start m"

definition march_date :: "int \<Rightarrow> int \<Rightarrow> int \<Rightarrow> date" where
  "march_date Y m d = (let (Y, m) = (if m < 10 then (Y, m + 3) else (Y + 1, m - 9)); y = Y - 4800
     in Date (if y \<le> 0 then y - 1 else y) m (d + 1))"

definition days_gregorian :: "int \<Rightarrow> int" where
  "days_gregorian Y = 365 * Y + Y div 4 - Y div 100 + Y div 400"

definition days_julian :: "int \<Rightarrow> int" where
  "days_julian Y = 365 * Y + Y div 4"

lemma month_start_bounds: "0 \<le> m \<Longrightarrow> m \<le> 11 \<Longrightarrow> 0 \<le> month_start m \<and> month_start m \<le> 337"
  unfolding month_start_def using zdiv_mono1 [of "153 * m + 2" "153 * 11 + 2" 5] by simp

lemma normal_date_run:
  assumes "0 \<le> Y" and "Y < 2 ^ 30" and "m \<le> 11"
  shows "normal_date Y m (d + 1) = Some (march_date Y m d)"
  using assms by (simp add: normal_date_def march_date_def Let_def c_int_def INT_MAX_def)

text \<open>The month and day of a day of the year, as both conversions compute them.\<close>

lemma month_digit:
  assumes "0 \<le> doy" and "doy < 366"
  defines "m \<equiv> (5 * doy + 2) div 153"
  shows "0 \<le> m" "m \<le> 11" "month_start m \<le> doy" "doy < month_start (m + 1)"
    "((5 * doy + 2) mod 153) div 5 = doy - month_start m"
proof -
  show "0 \<le> m" using assms(1) by (simp add: m_def)
  show "m \<le> 11" unfolding m_def using zdiv_mono1 [of "5 * doy + 2" "5 * 365 + 2" 153] assms(2) by simp
  have d: "m = (5 * doy + (5 - 1 - 2)) div 153" by (simp add: m_def)
  show "month_start m \<le> doy" using digit(1) [OF _ _ d] unfolding month_start_def by simp
  show "doy < month_start (m + 1)" using digit(2) [OF _ _ d] unfolding month_start_def by simp
  show "((5 * doy + 2) mod 153) div 5 = doy - month_start m" using digit(3) [OF _ _ d] unfolding month_start_def by simp
qed

lemma march_fields:
  assumes "0 \<le> doy" and "doy < 366"
  shows "let temp = to_int (doy + 1) * 5 - 3 in
    to_int (temp sdiv DAYS_PER_5_MONTHS) = (5 * doy + 2) div 153 \<and>
    to_int ((temp smod DAYS_PER_5_MONTHS) sdiv 5 + 1) = doy - month_start ((5 * doy + 2) div 153) + 1"
proof -
  have e: "to_int (doy + 1) * 5 - 3 = 5 * doy + 2" using assms by (simp add: to_int_id)
  have "((5 * doy + 2) mod 153) div 5 \<le> 30"
    using zdiv_mono1 [of "(5 * doy + 2) mod 153" 152 5] pos_mod_bound [of 153 "5 * doy + 2"] by simp
  moreover have "0 \<le> ((5 * doy + 2) mod 153) div 5" by (simp add: pos_imp_zdiv_nonneg_iff)
  ultimately show ?thesis unfolding Let_def e using assms month_digit [OF assms]
    by (simp add: DAYS_PER_5_MONTHS_def c_arith)
qed


lemma march_repI:
  assumes "N Y \<le> u" and "u < N (Y + 1)" and "u - N Y < 366"
  defines "m \<equiv> (5 * (u - N Y) + 2) div 153"
  shows "march_rep N u Y m (u - N Y - month_start m)"
  using assms month_digit [of "u - N Y"] by (simp add: march_rep_def)

lemma days_gregorian_split:
  assumes "0 \<le> y" and "y < 100"
  shows "days_gregorian (100 * c + y) = (146097 * c) div 4 + (1461 * y) div 4"
proof -
  have q: "(100 * c + y) div 4 = 25 * c + y div 4" "(100 * c + y) div 100 = c" using assms by simp_all
  have q400: "(100 * c + y) div 400 = c div 4" using zdiv_zmult2_eq [of 4 "100 * c + y" 100] q(2) by simp
  have "146097 * c = c + 36524 * c * 4" "1461 * y = y + 365 * y * 4" by simp_all
  then have k: "(146097 * c) div 4 = 36524 * c + c div 4" "(1461 * y) div 4 = 365 * y + y div 4"
    by (simp_all only: div_mult_self1)
  show ?thesis unfolding days_gregorian_def q q400 k by (simp add: algebra_simps)
qed

text \<open>Century, year and day of year, as \<open>SdnToGregorian\<close> computes them from the day \<open>u\<close>.\<close>

lemma gregorian_year:
  assumes "0 \<le> u"
  defines "c \<equiv> (4 * u + 3) div 146097"
  defines "r \<equiv> ((4 * u + 3) mod 146097) div 4"
  defines "y \<equiv> (4 * r + 3) div 1461"
  shows "0 \<le> c" "0 \<le> y" "y < 100" "0 \<le> r" "r \<le> 36524"
    "days_gregorian (100 * c + y) \<le> u" "u < days_gregorian (100 * c + y + 1)"
    "((4 * r + 3) mod 1461) div 4 = u - days_gregorian (100 * c + y)"
proof -
  have c: "(146097 * c) div 4 \<le> u" "u < (146097 * (c + 1)) div 4" "((4 * u + 3) mod 146097) div 4 = u - (146097 * c) div 4"
    by (rule digit4; simp add: c_def)+
  show "0 \<le> c" using assms(1) by (simp add: c_def pos_imp_zdiv_nonneg_iff)
  show r: "0 \<le> r" "r \<le> 36524"
    using quotient_bounds [of 4 "(4 * u + 3) mod 146097" 36525] pos_mod_bound [of 146097 "4 * u + 3"]
    unfolding r_def by simp_all
  show y: "0 \<le> y" "y < 100"
    using r quotient_bounds [of 1461 "4 * r + 3" 100] unfolding y_def by simp_all
  have rc: "r = u - (146097 * c) div 4" using c by (simp add: r_def)
  have d: "(1461 * y) div 4 \<le> r" "r < (1461 * (y + 1)) div 4" "((4 * r + 3) mod 1461) div 4 = r - (1461 * y) div 4"
    by (rule digit4; simp add: y_def)+
  have n: "days_gregorian (100 * c + y) = (146097 * c) div 4 + (1461 * y) div 4"
    using days_gregorian_split [of y c] y by simp
  show "days_gregorian (100 * c + y) \<le> u" using d(1) unfolding n rc by simp
  show "((4 * r + 3) mod 1461) div 4 = u - days_gregorian (100 * c + y)" unfolding d(3) n using rc by simp
  show "u < days_gregorian (100 * c + y + 1)"
  proof (cases "y = 99")
    case True
    have "days_gregorian (100 * c + y + 1) = (146097 * (c + 1)) div 4"
      using days_gregorian_split [of 0 "c + 1"] True by (simp add: algebra_simps)
    then show ?thesis using c by (simp add: algebra_simps)
  next
    case False
    then have "days_gregorian (100 * c + y + 1) = (146097 * c) div 4 + (1461 * (y + 1)) div 4"
      using days_gregorian_split [of "y + 1" c] y by (simp add: algebra_simps)
    then show ?thesis using d(2) rc by simp
  qed
qed


lemma gregorian_run:
  assumes "1 \<le> sdn" and "sdn \<le> 2 ^ 29"
  shows "\<exists>Y m d. SdnToGregorian sdn = Some (march_date Y m d) \<and> march_rep days_gregorian (sdn + 32044) Y m d \<and>
    0 \<le> Y \<and> Y < 1470000"
proof -
  define u where "u = sdn + 32044"
  have u: "0 \<le> u" "u \<le> 2 ^ 29 + 32044" using assms by (simp_all add: u_def)
  define c r y where "c = (4 * u + 3) div 146097" and "r = ((4 * u + 3) mod 146097) div 4" and "y = (4 * r + 3) div 1461"
  note g = gregorian_year [OF u(1), folded c_def r_def, folded y_def]
  have c: "c < 14700" using zdiv_mono1 [of "4 * u + 3" "4 * (2 ^ 29 + 32044) + 3" 146097] u(2) by (simp add: c_def)
  let ?Y = "100 * c + y" and ?doy = "u - days_gregorian (100 * c + y)"
  have doy: "0 \<le> ?doy" "?doy < 366"
    using g(6) g(8) zdiv_mono1 [of "(4 * r + 3) mod 1461" 1460 4] pos_mod_bound [of 1461 "4 * r + 3"] by simp_all
  have t: "(sdn + GREGOR_SDN_OFFSET) * 4 - 1 = 4 * u + 3" by (simp add: u_def GREGOR_SDN_OFFSET_def)
  have sm: "0 \<le> 4 * u + 3" "0 \<le> 4 * r + 3" using u g by simp_all
  have guard: "\<not> (sdn \<le> 0 \<or> sdn > (2 ^ 63 - 1 - 4 * GREGOR_SDN_OFFSET) sdiv 4)"
    using assms by (simp add: GREGOR_SDN_OFFSET_def sdiv_nonneg)
  let ?m = "(5 * ?doy + 2) div 153"
  note mf = march_fields [OF doy, unfolded Let_def]
  have "SdnToGregorian sdn = normal_date ?Y ?m (?doy - month_start ?m + 1)"
  proof -
    have c_eq: "to_int ((4 * u + 3) sdiv DAYS_PER_400_YEARS) = c"
      using sm c g(1) by (simp add: DAYS_PER_400_YEARS_def c_arith c_def [symmetric])
    have r_eq: "((4 * u + 3) smod DAYS_PER_400_YEARS) sdiv 4 * 4 + 3 = 4 * r + 3"
      using sm by (simp add: DAYS_PER_400_YEARS_def c_arith r_def)
    have Y_eq: "to_int (c * 100 + (4 * r + 3) sdiv DAYS_PER_4_YEARS) = ?Y"
      using sm g(1,2,3) c by (simp add: DAYS_PER_4_YEARS_def c_arith y_def [symmetric])
    have doy_eq: "(4 * r + 3) smod DAYS_PER_4_YEARS sdiv 4 = ?doy"
      using sm g(8) by (simp add: DAYS_PER_4_YEARS_def c_arith)
    have c100: "c_int (c * 100) = Some (c * 100)" using g(1) c by (simp add: INT_MAX_def)
    show ?thesis unfolding SdnToGregorian_def if_not_P [OF guard] t Let_def c_eq r_eq c100 doy_eq bind.bind_lunit Y_eq
      using mf by simp
  qed
  also have "\<dots> = Some (march_date ?Y ?m (?doy - month_start ?m))"
    using g(1,2,3) c month_digit(2) [OF doy] by (intro normal_date_run) simp_all
  finally have sdn: "SdnToGregorian sdn = Some (march_date ?Y ?m (?doy - month_start ?m))" .
  have "march_rep days_gregorian u ?Y ?m (?doy - month_start ?m)" by (rule march_repI [OF g(6,7) doy(2)])
  moreover have "0 \<le> ?Y" "?Y < 1470000" using g(1-3) c by linarith+
  ultimately show ?thesis using sdn unfolding u_def by blast
qed

lemma julian_run:
  assumes "1 \<le> sdn" and "sdn \<le> 2 ^ 29"
  shows "\<exists>Y m d. SdnToJulian sdn = Some (march_date Y m d) \<and> march_rep days_julian (sdn + 32082) Y m d \<and>
    0 \<le> Y \<and> Y < 1470000"
proof -
  define u where "u = sdn + 32082"
  have u: "0 \<le> u" "u \<le> 2 ^ 29 + 32082" using assms by (simp_all add: u_def)
  define Y where "Y = (4 * u + 3) div 1461"
  have n: "days_julian Z = (1461 * Z) div 4" for Z
  proof -
    have "1461 * Z = Z + 365 * Z * 4" by simp
    then show ?thesis unfolding days_julian_def by (simp only: div_mult_self1)
  qed
  have Y: "days_julian Y \<le> u" "u < days_julian (Y + 1)" "((4 * u + 3) mod 1461) div 4 = u - days_julian Y"
    unfolding n by (rule digit4; simp add: Y_def)+
  have Yb: "0 \<le> Y" "Y < 1470000"
    using u zdiv_mono1 [of "4 * u + 3" "4 * (2 ^ 29 + 32082) + 3" 1461] by (simp_all add: Y_def pos_imp_zdiv_nonneg_iff)
  let ?doy = "u - days_julian Y" and ?m = "(5 * (u - days_julian Y) + 2) div 153"
  have doy: "0 \<le> ?doy" "?doy < 366"
    using Y(1,3) zdiv_mono1 [of "(4 * u + 3) mod 1461" 1460 4] pos_mod_bound [of 1461 "4 * u + 3"] by simp_all
  have t: "sdn * 4 + (JULIAN_SDN_OFFSET * 4 - 1) = 4 * u + 3" by (simp add: u_def JULIAN_SDN_OFFSET_def)
  have sm: "0 \<le> 4 * u + 3" using u by simp
  have guard: "\<not> sdn \<le> 0" "\<not> (sdn > (2 ^ 63 - 1 - JULIAN_SDN_OFFSET * 4 + 1) sdiv 4 \<or> sdn < - (2 ^ 63) sdiv 4)"
    using assms by (simp_all add: JULIAN_SDN_OFFSET_def signed_divide_int_def)
  note mf = march_fields [OF doy, unfolded Let_def]
  have "SdnToJulian sdn = normal_date Y ?m (?doy - month_start ?m + 1)"
  proof -
    have l: "c_long (4 * u + 3) = Some (4 * u + 3)" using u by (simp add: c_long_def)
    have Y_eq: "(4 * u + 3) sdiv DAYS_PER_4_YEARS = Y" using sm by (simp add: DAYS_PER_4_YEARS_def c_arith Y_def)
    have doy_eq: "(4 * u + 3) smod DAYS_PER_4_YEARS sdiv 4 = ?doy" using sm Y(3) by (simp add: DAYS_PER_4_YEARS_def c_arith)
    have b: "\<not> (Y > INT_MAX \<or> Y < - (2 ^ 31))" using Yb by (simp add: INT_MAX_def)
    show ?thesis
      unfolding SdnToJulian_def if_not_P [OF guard(1)] if_not_P [OF guard(2)] t l bind.bind_lunit Let_def Y_eq doy_eq if_not_P [OF b]
      using mf by simp
  qed
  also have "\<dots> = Some (march_date Y ?m (?doy - month_start ?m))"
    using Yb month_digit(2) [OF doy] by (intro normal_date_run) simp_all
  finally have sdn: "SdnToJulian sdn = Some (march_date Y ?m (?doy - month_start ?m))" .
  have "march_rep days_julian u Y ?m (?doy - month_start ?m)" by (rule march_repI [OF Y(1,2) doy(2)])
  then show ?thesis using sdn Yb unfolding u_def by blast
qed


subsection \<open>The day after\<close>

text \<open>A leap rule in which year \<open>Y\<close> and year \<open>Y - 4800\<close> agree, and the days it gives before each March.\<close>

definition year_rule :: "(int \<Rightarrow> bool) \<Rightarrow> (int \<Rightarrow> int) \<Rightarrow> bool" where
  "year_rule leap N \<longleftrightarrow> (\<forall>Y. N (Y + 1) = N Y + 365 + (if leap (Y + 1) then 1 else 0) \<and> leap (Y - 4800) = leap Y)"

lemma step_div:
  fixes k Y :: int
  assumes "0 < k"
  shows "(Y + 1) div k = Y div k + (if (Y + 1) mod k = 0 then 1 else 0)"
proof -
  let ?r = "Y mod k"
  have Y: "(?r + 1) + Y div k * k = Y + 1" using div_mult_mod_eq [of Y k] by simp
  have r: "0 \<le> ?r" "?r < k" using assms by simp_all
  have "(Y + 1) div k = Y div k + (?r + 1) div k" "(Y + 1) mod k = (?r + 1) mod k"
    unfolding Y [symmetric] div_mult_self1 [OF less_imp_neq [OF assms, symmetric]] mod_mult_self1 by simp_all
  moreover have "(?r + 1) div k = (if ?r + 1 = k then 1 else 0) \<and> ((?r + 1) mod k = 0 \<longleftrightarrow> ?r + 1 = k)"
  proof (cases "?r + 1 = k")
    case False
    then show ?thesis using r by (simp add: div_pos_pos_trivial mod_pos_pos_trivial)
  qed (use assms in simp)
  ultimately show ?thesis by simp
qed

lemma leap_days:
  assumes "c \<longrightarrow> b" "b \<longrightarrow> a"
  shows "365 * (Y + 1) + (p + (if a then 1 else 0)) - (q + (if b then 1 else 0)) + (r + (if c then 1 else 0)) =
    365 * Y + p - q + r + 365 + (if a \<and> (\<not> b \<or> c) then 1 else (0 :: int))"
proof (cases a)
  case False
  then have "\<not> b" "\<not> c" using assms by blast+
  with False show ?thesis by simp
next
  case a: True
  show ?thesis
  proof (cases b)
    case False
    then have "\<not> c" using assms by blast
    with False a show ?thesis by simp
  next
    case True
    with a show ?thesis by simp
  qed
qed

lemma gregorian_rule: "year_rule leap_gregorian days_gregorian"
  unfolding year_rule_def
proof (intro allI conjI)
  fix Y :: int
  have "(Y - 4800) mod k = Y mod k" if "k dvd 4800" for k using that by (simp add: mod_eq_dvd_iff)
  then show "leap_gregorian (Y - 4800) = leap_gregorian Y" unfolding leap_gregorian_def by simp
  have 4: "(Y + 1) div 4 = Y div 4 + (if (Y + 1) mod 4 = 0 then 1 else 0)" by presburger
  have 100: "(Y + 1) div 100 = Y div 100 + (if (Y + 1) mod 100 = 0 then 1 else 0)" by (rule step_div) simp
  have 400: "(Y + 1) div 400 = Y div 400 + (if (Y + 1) mod 400 = 0 then 1 else 0)" by (rule step_div) simp
  define a b c where "a \<longleftrightarrow> (Y + 1) mod 4 = 0" and "b \<longleftrightarrow> (Y + 1) mod 100 = 0" and "c \<longleftrightarrow> (Y + 1) mod 400 = 0"
  have "c \<longrightarrow> b" "b \<longrightarrow> a"
    unfolding a_def b_def c_def mod_eq_0_iff_dvd by (rule impI, erule dvd_trans [rotated], simp)+
  then show "days_gregorian (Y + 1) = days_gregorian Y + 365 + (if leap_gregorian (Y + 1) then 1 else 0)"
    unfolding days_gregorian_def leap_gregorian_def 4 100 400 a_def [symmetric] b_def [symmetric] c_def [symmetric]
    by (rule leap_days)
qed

lemma julian_rule: "year_rule leap_julian days_julian"
  unfolding year_rule_def
proof (intro allI conjI)
  fix Y :: int
  have "(Y - 4800) mod 4 = Y mod 4" by (simp only: mod_eq_dvd_iff) simp
  then show "leap_julian (Y - 4800) = leap_julian Y" unfolding leap_julian_def by simp
  have 4: "(Y + 1) div 4 = Y div 4 + (if (Y + 1) mod 4 = 0 then 1 else 0)" by (rule step_div) simp
  show "days_julian (Y + 1) = days_julian Y + 365 + (if leap_julian (Y + 1) then 1 else 0)"
    unfolding days_julian_def leap_julian_def 4 by simp
qed

lemma month_length:
  assumes "0 \<le> m" and "m < 11"
  shows "month_start (m + 1) - month_start m = month_days l (if m < 10 then m + 3 else m - 9)"
proof -
  have "m \<in> set [0..10]" using assms by simp
  then show ?thesis by (auto simp: month_start_def month_days_def upto.simps)
qed

lemma rule_less:
  assumes "year_rule leap N"
  shows "Y < Y' \<Longrightarrow> N Y < N Y'"
proof -
  have "N Y < N (Y + 1 + int k)" for k
  proof (induction k)
    case 0
    then show ?case using assms by (simp add: year_rule_def)
  next
    case (Suc k)
    have "N (Y + 1 + int k + 1) = N (Y + 1 + int k) + 365 + (if leap (Y + 1 + int k + 1) then 1 else 0)"
      using assms unfolding year_rule_def by blast
    then show ?case using Suc by (simp add: add.commute add.left_commute split: if_splits)
  qed
  from this [of "nat (Y' - Y - 1)"] show "Y < Y' \<Longrightarrow> N Y < N Y'" by simp
qed

lemma month_start_mono: "m \<le> m' \<Longrightarrow> month_start m \<le> month_start m'"
  unfolding month_start_def by (intro zdiv_mono1) auto

lemma year_unique:
  assumes r: "year_rule leap N" and "N Y \<le> u" "u < N (Y + 1)" and "N Y' \<le> u" "u < N (Y' + 1)"
  shows "Y' = Y"
proof -
  have "a \<le> b" if "N a \<le> u" "u < N (b + 1)" for a b
  proof (rule ccontr)
    assume "\<not> a \<le> b"
    then have "N (b + 1) \<le> N a" using rule_less [OF r, of "b + 1" a] by (cases "b + 1 = a") auto
    then show False using that by simp
  qed
  then show ?thesis using assms(2-5) by (meson order_antisym)
qed

lemma march_rep_unique:
  assumes r: "year_rule leap N" and "march_rep N u Y m d" and "march_rep N u Y' m' d'"
  shows "Y' = Y \<and> m' = m \<and> d' = d"
proof -
  have Y: "Y' = Y" using year_unique [OF r] assms(2,3) unfolding march_rep_def by blast
  have "a \<le> b" if "march_rep N u Y a d1" "march_rep N u Y b d2" for a b d1 d2
  proof (rule ccontr)
    assume "\<not> a \<le> b"
    then have "month_start (b + 1) \<le> month_start a" by (intro month_start_mono) simp
    then show False using that by (auto simp: march_rep_def)
  qed
  then have "m' = m" using assms(2,3) Y by (meson order_antisym)
  then show ?thesis using assms(2,3) Y by (simp add: march_rep_def)
qed


lemma ruleD:
  assumes "year_rule leap N"
  shows "N (Y + 1) = N Y + 365 + (if leap (Y + 1) then 1 else 0)" "leap (Y - 4800) = leap Y"
  using assms unfolding year_rule_def by blast+

lemma astro_march: "astro (if Y - 4800 \<le> 0 then Y - 4800 - 1 else Y - 4800) = Y - 4800"
  by (simp add: astro_def)

lemma february:
  assumes "m = 11"
  shows "month_start (m + 1) = 367" "month_start m = 337"
  by (simp_all add: assms month_start_def)

lemma rep_step:
  assumes r: "year_rule leap N" and rep: "march_rep N u Y m d"
  shows "(u + 1 < N (Y + 1) \<and> u + 1 - N Y < month_start (m + 1) \<and> march_rep N (u + 1) Y m (d + 1)) \<or>
    (u + 1 < N (Y + 1) \<and> m < 11 \<and> u + 1 - N Y = month_start (m + 1) \<and> march_rep N (u + 1) Y (m + 1) 0) \<or>
    (m = 11 \<and> u + 1 = N (Y + 1) \<and> march_rep N (u + 1) (Y + 1) 0 0)"
proof -
  have f: "N Y \<le> u" "u < N (Y + 1)" "0 \<le> m" "m \<le> 11" "month_start m \<le> u - N Y" "u - N Y < month_start (m + 1)"
    "d = u - N Y - month_start m" using rep by (simp_all add: march_rep_def)
  have len: "N (Y + 1) = N Y + 365 + (if leap (Y + 1) then 1 else 0)" using ruleD [OF r] by simp
  consider (day) "u + 1 < N (Y + 1)" "u + 1 - N Y < month_start (m + 1)"
    | (month) "u + 1 < N (Y + 1)" "u + 1 - N Y = month_start (m + 1)" | (year) "u + 1 = N (Y + 1)"
    using f(2,6) by linarith
  then show ?thesis
  proof cases
    case day
    then show ?thesis using f by (simp add: march_rep_def)
  next
    case month
    then have m: "m < 11" using february(1) [of m] f(4) len by (cases "m = 11") (auto split: if_splits)
    then have "month_start (m + 1) < month_start (m + 1 + 1)" unfolding month_start_def
      using zdiv_mono1 [of "153 * (m + 1) + 2 + 5" "153 * (m + 1 + 1) + 2" 5] by simp
    then show ?thesis using month f m by (simp add: march_rep_def)
  next
    case year
    have m: "m = 11"
    proof (rule ccontr)
      assume "m \<noteq> 11"
      then have "month_start (m + 1) \<le> month_start 11" using f(4) by (intro month_start_mono) simp
      then show False using february(2) [of 11] f(6) year len by (auto split: if_splits)
    qed
    have "N (Y + 1) < N (Y + 1 + 1)" using ruleD(1) [OF r, of "Y + 1"] by (auto split: if_splits)
    then have "march_rep N (u + 1) (Y + 1) 0 0" using year by (simp add: march_rep_def month_start_def)
    then show ?thesis using year m by simp
  qed
qed

lemma march_date_next:
  assumes r: "year_rule leap N" and rep: "march_rep N u Y m d" and rep': "march_rep N (u + 1) Y' m' d'"
  shows "march_date Y' m' d' = next_date leap (march_date Y m d)"
proof -
  have f: "0 \<le> m" "m \<le> 11" "u - N Y < month_start (m + 1)" "d = u - N Y - month_start m"
    using rep by (simp_all add: march_rep_def)
  have len: "N (Y + 1) = N Y + 365 + (if leap (Y + 1) then 1 else 0)" using ruleD [OF r] by simp
  let ?Y = "if m < 10 then Y else Y + 1" and ?m = "if m < 10 then m + 3 else m - 9"
  let ?y = "if ?Y - 4800 \<le> 0 then ?Y - 4800 - 1 else ?Y - 4800"
  have dt: "march_date Y m d = Date ?y ?m (d + 1)" by (simp add: march_date_def Let_def)
  have lp: "leap (astro ?y) = leap ?Y" unfolding astro_march using ruleD(2) [OF r] .
  have ml: "month_days (leap ?Y) ?m = (if m < 11 then month_start (m + 1) - month_start m else 28 + (if leap (Y + 1) then 1 else 0))"
    using month_length [OF f(1)] f(2) by (auto simp: month_days_def)
  have nd: "next_date leap (march_date Y m d) =
      (if d + 1 < month_days (leap ?Y) ?m then Date ?y ?m (d + 2)
       else if ?m < 12 then Date ?y (?m + 1) 1 else Date (year_after ?y) 1 1)"
    unfolding dt next_date_def lp [symmetric] by simp
  from rep_step [OF r rep] show ?thesis
  proof (elim disjE conjE)
    assume s: "u + 1 < N (Y + 1)" "u + 1 - N Y < month_start (m + 1)" and n: "march_rep N (u + 1) Y m (d + 1)"
    have "d + 1 < month_days (leap ?Y) ?m" unfolding ml using s f len february(2) [of m] by auto
    moreover have "march_date Y' m' d' = march_date Y m (d + 1)" using march_rep_unique [OF r n rep'] by simp
    ultimately show ?thesis unfolding nd by (simp add: march_date_def Let_def)
  next
    assume s: "m < 11" "u + 1 - N Y = month_start (m + 1)" and n: "march_rep N (u + 1) Y (m + 1) 0"
    have "\<not> d + 1 < month_days (leap ?Y) ?m" unfolding ml using s f by auto
    moreover have "march_date Y' m' d' = march_date Y (m + 1) 0" using march_rep_unique [OF r n rep'] by simp
    ultimately show ?thesis unfolding nd using s(1) f(1) by (auto simp: march_date_def Let_def year_after_def)
  next
    assume s: "m = 11" "u + 1 = N (Y + 1)" and n: "march_rep N (u + 1) (Y + 1) 0 0"
    have "\<not> d + 1 < month_days (leap ?Y) ?m" unfolding ml using s f len february(2) [of m] by auto
    moreover have "march_date Y' m' d' = march_date (Y + 1) 0 0" using march_rep_unique [OF r n rep'] by simp
    ultimately show ?thesis unfolding nd using s(1) by (simp add: march_date_def Let_def)
  qed
qed


subsection \<open>Back to the day number\<close>

lemma march_fields_back:
  assumes "0 \<le> m" and "m \<le> 11" and "0 \<le> Y" and "Y < 2 ^ 30"
  shows "march_year (d_year (march_date Y m d)) (d_month (march_date Y m d)) = Some (Y, m)"
    "d_day (march_date Y m d) = d + 1" "1 \<le> d_month (march_date Y m d)" "d_month (march_date Y m d) \<le> 12"
    "d_year (march_date Y m d) \<noteq> 0"
  using assms by (auto simp: march_date_def march_year_def Let_def c_int_def INT_MAX_def)

lemma rep_day_bound:
  assumes r: "year_rule leap N" and rep: "march_rep N u Y m d"
  shows "0 \<le> d \<and> d \<le> 30"
proof -
  have f: "0 \<le> m" "m \<le> 11" "month_start m \<le> u - N Y" "u - N Y < month_start (m + 1)" "d = u - N Y - month_start m" "u < N (Y + 1)"
    using rep by (simp_all add: march_rep_def)
  show ?thesis
  proof (cases "m = 11")
    case True
    then show ?thesis using f february(2) [of m] ruleD(1) [OF r, of Y] by (auto split: if_splits)
  next
    case False
    then have "month_start (m + 1) - month_start m \<le> 31"
      using month_length [of m True] f by (auto simp: month_days_def)
    then show ?thesis using f by linarith
  qed
qed

text \<open>The first day: days before it have no serial day number.\<close>

lemma rep_first_year:
  assumes r: "year_rule leap N" and rep: "march_rep N u Y m d" and n: "N 87 = 31776" and u: "31776 \<le> u"
  shows "87 \<le> Y" "Y = 87 \<Longrightarrow> month_start (m + 1) > u - 31776 \<and> d = u - 31776 - month_start m"
proof -
  have f: "u < N (Y + 1)" "u - N Y < month_start (m + 1)" "d = u - N Y - month_start m" using rep by (simp_all add: march_rep_def)
  show "87 \<le> Y"
  proof (rule ccontr)
    assume "\<not> 87 \<le> Y"
    then have "N (Y + 1) \<le> N 87" using rule_less [OF r, of "Y + 1" 87] by (cases "Y + 1 = 87") auto
    then show False using f(1) n u by simp
  qed
  show "Y = 87 \<Longrightarrow> month_start (m + 1) > u - 31776 \<and> d = u - 31776 - month_start m" using f n by simp
qed

lemma gregorian_formula:
  assumes v: "\<not> fields_invalid (-4714) yr mo day" "\<not> (yr = -4714 \<and> (mo < 11 \<or> mo = 11 \<and> day < 25))"
    and my: "march_year yr mo = Some (Y, m)" and b: "0 \<le> Y" "Y < 1470000" "0 \<le> m" "m \<le> 11" "1 \<le> day" "day \<le> 31"
  shows "GregorianToSdn yr mo day = Some (days_gregorian Y + month_start m + day - 32045)"
proof -
  define c y where "c = Y div 100" and "y = Y mod 100"
  have cy: "0 \<le> c" "c < 14700" "0 \<le> y" "y < 100" "Y = 100 * c + y"
    using quotient_bounds [of 100 Y 14700] b by (simp_all add: c_def y_def)
  have N: "days_gregorian Y = c * 146097 div 4 + y * 1461 div 4" using days_gregorian_split [of y c] cy by (simp add: mult.commute)
  have c4: "c * 146097 sdiv 4 = c * 146097 div 4" "y * 1461 sdiv 4 = y * 1461 div 4" using cy by (simp_all add: sdiv_nonneg)
  have cc: "Y sdiv 100 = c" "Y smod 100 = y" using b by (simp_all add: c_def y_def sdiv_nonneg smod_nonneg)
  have ms: "(m * 153 + 2) sdiv 5 = month_start m" using b by (simp add: sdiv_nonneg month_start_def mult.commute)
  have ci: "c_int (c * 146097) = Some (c * 146097)" "c_int (y * 1461) = Some (y * 1461)" using cy by (simp_all add: INT_MAX_def)
  have "c * 146097 div 4 \<le> 2147480000 div 4" "0 \<le> c * 146097 div 4" "0 \<le> y * 1461 div 4" "y * 1461 div 4 \<le> 146100 div 4"
    using cy by (auto intro!: zdiv_mono1 simp: pos_imp_zdiv_nonneg_iff)
  then have res: "c_int (c * 146097 div 4 + y * 1461 div 4 + month_start m + day - 32045) =
      Some (c * 146097 div 4 + y * 1461 div 4 + month_start m + day - 32045)"
    using month_start_bounds [OF b(3,4)] b by (intro c_int_Some) (simp_all add: INT_MAX_def)
  show ?thesis
    unfolding GregorianToSdn_def if_not_P [OF v(1)] if_not_P [OF v(2)] my bind.bind_lunit prod.case
      DAYS_PER_400_YEARS_def DAYS_PER_4_YEARS_def DAYS_PER_5_MONTHS_def GREGOR_SDN_OFFSET_def cc ci c4 ms res N ..
qed

lemma days_julian_eq: "days_julian Y = Y * 1461 div 4"
proof -
  have "Y * 1461 = Y + 365 * Y * 4" by simp
  then show ?thesis unfolding days_julian_def by (simp only: div_mult_self1)
qed

lemma julian_formula:
  assumes v: "\<not> fields_invalid (-4713) yr mo day" "\<not> (yr = -4713 \<and> mo = 1 \<and> day = 1)"
    and my: "march_year yr mo = Some (Y, m)" and b: "0 \<le> Y" "Y * 1461 \<le> INT_MAX" "0 \<le> m" "m \<le> 11" "1 \<le> day" "day \<le> 31"
  shows "JulianToSdn yr mo day = Some (days_julian Y + month_start m + day - 32083)"
proof -
  have s: "Y * 1461 sdiv 4 = Y * 1461 div 4" using b by (simp add: sdiv_nonneg)
  have ms: "(m * 153 + 2) sdiv 5 = month_start m" using b by (simp add: sdiv_nonneg month_start_def mult.commute)
  have ci: "c_int (Y * 1461) = Some (Y * 1461)" using b by simp
  have "Y * 1461 div 4 \<le> INT_MAX div 4" "0 \<le> Y * 1461 div 4" using b by (auto intro!: zdiv_mono1 simp: pos_imp_zdiv_nonneg_iff)
  then have res: "c_int (Y * 1461 div 4 + month_start m + day - 32083) = Some (Y * 1461 div 4 + month_start m + day - 32083)"
    using month_start_bounds [OF b(3,4)] b by (intro c_int_Some) (simp_all add: INT_MAX_def)
  show ?thesis
    unfolding JulianToSdn_def if_not_P [OF v(1)] if_not_P [OF v(2)] my bind.bind_lunit prod.case
      DAYS_PER_4_YEARS_def DAYS_PER_5_MONTHS_def JULIAN_SDN_OFFSET_def ci s ms res days_julian_eq ..
qed

lemma gregorian_back:
  assumes rep: "march_rep days_gregorian u Y m d" and u: "32045 \<le> u" "u \<le> 2 ^ 29 + 32044" and Y: "Y < 1470000"
  defines "dt \<equiv> march_date Y m d"
  shows "GregorianToSdn (d_year dt) (d_month dt) (d_day dt) = Some (u - 32044)"
proof -
  have f: "days_gregorian Y \<le> u" "0 \<le> m" "m \<le> 11" "d = u - days_gregorian Y - month_start m"
    using rep by (simp_all add: march_rep_def)
  note d = rep_day_bound [OF gregorian_rule rep]
  have n87: "days_gregorian 87 = 31776" by (simp add: days_gregorian_def)
  note y87 = rep_first_year [OF gregorian_rule rep n87]
  have Y0: "87 \<le> Y" using y87(1) u by simp
  note b = march_fields_back [of m Y d, folded dt_def]
  have yr: "-4714 \<le> d_year dt" using Y0 f by (simp add: dt_def march_date_def Let_def)
  have early: "\<not> (d_year dt = -4714 \<and> (d_month dt < 11 \<or> d_month dt = 11 \<and> d_day dt < 25))"
  proof
    assume e: "d_year dt = -4714 \<and> (d_month dt < 11 \<or> d_month dt = 11 \<and> d_day dt < 25)"
    have Y87: "Y = 87" "m < 10" using e Y0 by (auto simp: dt_def march_date_def Let_def split: if_splits)
    note g = y87(2) [OF _ Y87(1)]
    have "m \<le> 7 \<or> m = 8 \<and> d < 24" using e Y87 by (auto simp: dt_def march_date_def Let_def)
    then show False
    proof
      assume "m \<le> 7"
      then have "month_start (m + 1) \<le> month_start 8" by (intro month_start_mono) simp
      then show False using g u by (simp add: month_start_def [of 8])
    next
      assume e: "m = 8 \<and> d < 24"
      have "month_start 8 = 245" by (simp add: month_start_def)
      then show False using g u e by simp
    qed
  qed
  have valid: "\<not> fields_invalid (-4714) (d_year dt) (d_month dt) (d_day dt)"
    using b yr d f Y0 Y by (simp add: fields_invalid_def)
  have my: "march_year (d_year dt) (d_month dt) = Some (Y, m)" using b f Y0 Y by simp
  have dd: "d_day dt = d + 1" using b(2) f(2,3) Y0 Y by simp
  show ?thesis
    using gregorian_formula [OF valid early my _ Y f(2,3)] Y0 f(4) d unfolding dd by simp
qed

lemma julian_back:
  assumes rep: "march_rep days_julian u Y m d" and u: "32083 \<le> u" "u \<le> 536838144 + 32082" and Y: "Y < 1470000"
  defines "dt \<equiv> march_date Y m d"
  shows "JulianToSdn (d_year dt) (d_month dt) (d_day dt) = Some (u - 32082)"
proof -
  have f: "days_julian Y \<le> u" "0 \<le> m" "m \<le> 11" "d = u - days_julian Y - month_start m"
    using rep by (simp_all add: march_rep_def)
  note d = rep_day_bound [OF julian_rule rep]
  have n87: "days_julian 87 = 31776" by (simp add: days_julian_def)
  note y87 = rep_first_year [OF julian_rule rep n87]
  have Y0: "87 \<le> Y" using y87(1) u by simp
  have early: "Y = 87 \<Longrightarrow> 10 \<le> m \<and> (m = 10 \<longrightarrow> 1 \<le> d)"
  proof -
    assume "Y = 87"
    note g = y87(2) [OF _ this]
    have ms: "month_start 10 = 306" by (simp add: month_start_def)
    have "10 \<le> m"
    proof (rule ccontr)
      assume "\<not> 10 \<le> m"
      then have "month_start (m + 1) \<le> month_start 10" by (intro month_start_mono) simp
      then show False using g u ms by simp
    qed
    then show ?thesis using g u ms by auto
  qed
  note b = march_fields_back [of m Y d, folded dt_def]
  have yr: "-4713 \<le> d_year dt \<and> \<not> (d_year dt = -4713 \<and> d_month dt = 1 \<and> d_day dt = 1)"
    using Y0 early f(2) by (cases "Y = 87") (auto simp: dt_def march_date_def Let_def)
  have valid: "\<not> fields_invalid (-4713) (d_year dt) (d_month dt) (d_day dt)"
    using b yr d f Y0 Y by (simp add: fields_invalid_def)
  have my: "march_year (d_year dt) (d_month dt) = Some (Y, m)" using b f Y0 Y by simp
  have "4 * days_julian Y \<ge> 1461 * Y - 3"
    unfolding days_julian_eq using mult_div_mod_eq [of 4 "Y * 1461"] pos_mod_bound [of 4 "Y * 1461"] by linarith
  then have Yb: "Y * 1461 \<le> INT_MAX" using f(1) u(2) by (simp add: INT_MAX_def)
  have dd: "d_day dt = d + 1" using b(2) f(2,3) Y0 Y by simp
  show ?thesis
    using julian_formula [OF valid conjunct2 [OF yr] my _ Yb f(2,3)] Y0 f(4) d unfolding dd by simp
qed

subsection \<open>Calendars\<close>

text \<open>
  What a calendar of \<open>cal_conversion_table\<close> has to do on the serial day numbers from \<open>start\<close> to
  \<open>end_sdn\<close>: count the days of \<open>next\<close> from the date \<open>first\<close> on, and give the numbers back.
\<close>

locale calendar =
  fixes of_sdn :: "int \<Rightarrow> date option" and to_sdn :: "int \<Rightarrow> int \<Rightarrow> int \<Rightarrow> int option"
    and nxt :: "date \<Rightarrow> date" and first :: date and start :: int and end_sdn :: int
  assumes later: "dt < nxt dt"
    and at_start: "start \<le> end_sdn" "of_sdn start = Some first"
    and at_next: "start \<le> n \<Longrightarrow> n < end_sdn \<Longrightarrow> of_sdn n = Some dt \<Longrightarrow> of_sdn (n + 1) = Some (nxt dt)"
    and to_of: "start \<le> n \<Longrightarrow> n \<le> end_sdn \<Longrightarrow> of_sdn n = Some dt \<Longrightarrow> to_sdn (d_year dt) (d_month dt) (d_day dt) = Some n"

context calendar
begin

lemma counts: "start + int k \<le> end_sdn \<Longrightarrow> of_sdn (start + int k) = Some ((nxt ^^ k) first)"
proof (induction k)
  case 0
  then show ?case using at_start by simp
next
  case (Suc k)
  then have "of_sdn (start + int k) = Some ((nxt ^^ k) first)" by simp
  then have "of_sdn (start + int k + 1) = Some (nxt ((nxt ^^ k) first))" using Suc.prems by (intro at_next) auto
  then show ?case by (simp add: add.commute add.left_commute)
qed

lemma counts_from_start:
  assumes "start \<le> n" and "n \<le> end_sdn"
  shows "of_sdn n = Some ((nxt ^^ nat (n - start)) first)"
  using counts [of "nat (n - start)"] assms by simp

lemma roundtrip:
  assumes "start \<le> n" and "n \<le> end_sdn"
  shows "\<exists>dt. of_sdn n = Some dt \<and> to_sdn (d_year dt) (d_month dt) (d_day dt) = Some n"
  using counts_from_start [OF assms] to_of [OF assms] by blast

lemma later_funpow: "0 < k \<Longrightarrow> dt < (nxt ^^ k) dt"
proof (induction k)
  case (Suc k)
  then show ?case using later [of "(nxt ^^ k) dt"] by (cases "k = 0") auto
qed simp

lemma increasing:
  assumes "start \<le> n" and "n < n'" and "n' \<le> end_sdn" and "of_sdn n = Some dt" and "of_sdn n' = Some dt'"
  shows "dt < dt'"
proof -
  have "nat (n' - start) = nat (n' - n) + nat (n - start)" using assms(1,2) by simp
  then have "dt' = (nxt ^^ nat (n' - n)) dt"
    using counts_from_start [of n] counts_from_start [of n'] assms by (simp add: funpow_add)
  then show ?thesis using later_funpow [of "nat (n' - n)" dt] assms(2) by simp
qed

end

end
