(* ===== verification/Calendar_Props.thy ===== *)
theory Calendar_Props
  imports Calendar_Correct
begin

text \<open>The three calendars as instances of the interface, the days of a month, and Easter.\<close>

subsection \<open>Gregorian and Julian\<close>

interpretation gregorian: calendar SdnToGregorian GregorianToSdn "next_date leap_gregorian" "Date (-4714) 11 25" 1 "2 ^ 29"
proof unfold_locales
  show "dt < next_date leap_gregorian dt" for dt by (rule less_next_date)
  show "SdnToGregorian 1 = Some (Date (-4714) 11 25)" by code_simp
  fix n dt assume n: "1 \<le> n" and dt: "SdnToGregorian n = Some dt"
  have dt_rep: "\<exists>Y m d. dt = march_date Y m d \<and> march_rep days_gregorian (n + 32044) Y m d \<and> Y < 1470000" if "n \<le> 2 ^ 29"
    using gregorian_run [OF n that] dt by auto
  show "SdnToGregorian (n + 1) = Some (next_date leap_gregorian dt)" if l: "n < 2 ^ 29"
  proof -
    obtain Y m d where r: "dt = march_date Y m d" "march_rep days_gregorian (n + 32044) Y m d" using dt_rep [OF less_imp_le [OF l]] by blast
    obtain Y' m' d' where r': "SdnToGregorian (n + 1) = Some (march_date Y' m' d')"
      "march_rep days_gregorian (n + 1 + 32044) Y' m' d'" using gregorian_run [of "n + 1"] n l by auto
    have "n + 1 + 32044 = n + 32044 + 1" by simp
    then show ?thesis using march_date_next [OF gregorian_rule r(2)] r r' by metis
  qed
  show "GregorianToSdn (d_year dt) (d_month dt) (d_day dt) = Some n" if "n \<le> 2 ^ 29"
    using dt_rep [OF that] gregorian_back [of "n + 32044"] n that by auto
qed simp

interpretation julian: calendar SdnToJulian JulianToSdn "next_date leap_julian" "Date (-4713) 1 2" 1 536838144
proof unfold_locales
  show "dt < next_date leap_julian dt" for dt by (rule less_next_date)
  show "SdnToJulian 1 = Some (Date (-4713) 1 2)" by code_simp
  fix n dt assume n: "1 \<le> n" and dt: "SdnToJulian n = Some dt"
  have dt_rep: "\<exists>Y m d. dt = march_date Y m d \<and> march_rep days_julian (n + 32082) Y m d \<and> Y < 1470000" if "n \<le> 536838144"
    using julian_run [OF n] that dt by auto
  show "SdnToJulian (n + 1) = Some (next_date leap_julian dt)" if l: "n < 536838144"
  proof -
    obtain Y m d where r: "dt = march_date Y m d" "march_rep days_julian (n + 32082) Y m d" using dt_rep [OF less_imp_le [OF l]] by blast
    obtain Y' m' d' where r': "SdnToJulian (n + 1) = Some (march_date Y' m' d')"
      "march_rep days_julian (n + 1 + 32082) Y' m' d'" using julian_run [of "n + 1"] n l by auto
    have "n + 1 + 32082 = n + 32082 + 1" by simp
    then show ?thesis using march_date_next [OF julian_rule r(2)] r r' by metis
  qed
  show "JulianToSdn (d_year dt) (d_month dt) (d_day dt) = Some n" if "n \<le> 536838144"
    using dt_rep [OF that] julian_back [of "n + 32082"] n that by auto
qed simp

subsection \<open>French republican\<close>

text \<open>Twelve months of 30 days and a thirteenth of 5 or 6; the years 3, 7 and 11 are leap years.\<close>

definition french_month_days :: "int \<Rightarrow> int \<Rightarrow> int" where
  "french_month_days y m = (if m < 13 then 30 else if (y + 1) mod 4 = 0 then 6 else 5)"

definition next_french :: "date \<Rightarrow> date" where
  "next_french dt = (case dt of Date y m d \<Rightarrow>
     if d < french_month_days y m then Date y m (d + 1) else if m < 13 then Date y (m + 1) 1 else Date (y + 1) 1 1)"

definition french_date :: "int \<Rightarrow> int \<Rightarrow> date" where
  "french_date Y doy = Date Y (doy div 30 + 1) (doy mod 30 + 1)"

lemma french_run:
  assumes "FIRST_VALID \<le> n" and "n \<le> LAST_VALID"
  shows "\<exists>Y. SdnToFrench n = Some (french_date Y (n - 2375475 - days_julian Y)) \<and> days_julian Y \<le> n - 2375475 \<and>
    n - 2375475 < days_julian (Y + 1) \<and> 1 \<le> Y \<and> Y \<le> 14"
proof -
  define v where "v = n - 2375475"
  have v: "365 \<le> v" "v \<le> 5477" using assms by (simp_all add: v_def FIRST_VALID_def LAST_VALID_def)
  define Y where "Y = (4 * v + 3) div 1461"
  have d: "days_julian Y \<le> v" "v < days_julian (Y + 1)" "((4 * v + 3) mod 1461) div 4 = v - days_julian Y"
    unfolding days_julian_eq mult.commute [of _ 1461] by (rule digit4; simp add: Y_def)+
  have Y: "1 \<le> Y" "Y \<le> 14"
    using zdiv_mono1 [of 1463 "4 * v + 3" 1461] zdiv_mono1 [of "4 * v + 3" 21911 1461] v by (simp_all add: Y_def)
  let ?doy = "v - days_julian Y"
  have doy: "0 \<le> ?doy" "?doy < 366" using d(1,2) ruleD(1) [OF julian_rule, of Y] by (auto split: if_splits)
  have t: "(n - FRENCH_SDN_OFFSET) * 4 - 1 = 4 * v + 3" by (simp add: v_def FRENCH_SDN_OFFSET_def)
  have y: "to_int ((4 * v + 3) sdiv DAYS_PER_4_YEARS) = Y" using v Y by (simp add: c_arith DAYS_PER_4_YEARS_def Y_def [symmetric])
  have o: "to_int ((4 * v + 3) smod DAYS_PER_4_YEARS sdiv 4) = ?doy"
    using v doy d(3) by (simp add: sdiv_nonneg smod_nonneg DAYS_PER_4_YEARS_def to_int_id)
  have "SdnToFrench n = Some (french_date Y ?doy)"
    unfolding SdnToFrench_def Let_def t y o using assms doy
    by (simp add: french_date_def DAYS_PER_MONTH_def sdiv_nonneg smod_nonneg)
  then show ?thesis using d Y unfolding v_def by blast
qed

lemma french_month_step:
  assumes "0 \<le> doy" and "doy < 365 + (if leap_julian (Y + 1) then 1 else 0)"
  shows "next_french (french_date Y doy) =
    (if doy + 1 < 365 + (if leap_julian (Y + 1) then 1 else 0) then french_date Y (doy + 1) else french_date (Y + 1) 0)"
proof -
  define q r where "q = doy div 30" and "r = doy mod 30"
  have qr: "doy = 30 * q + r" "0 \<le> r" "r < 30" "0 \<le> q" using assms(1) by (simp_all add: q_def r_def pos_imp_zdiv_nonneg_iff)
  have f: "french_date Y (30 * a + b) = Date Y (a + 1) (b + 1)" if "0 \<le> b" "b < 30" for a b
    using that by (simp add: french_date_def)
  have "french_date Y doy = Date Y (q + 1) (r + 1)" using f qr by simp
  moreover have "french_date Y (doy + 1) = (if r = 29 then Date Y (q + 2) 1 else Date Y (q + 1) (r + 2))"
    using f [of 0 "q + 1"] f [of "r + 1" q] qr by (auto simp: algebra_simps)
  moreover have "french_date (Y + 1) 0 = Date (Y + 1) 1 1" by (simp add: french_date_def)
  moreover have "q < 12 \<or> q = 12" using assms(2) qr by (auto split: if_splits)
  ultimately show ?thesis using assms qr
    by (auto simp: next_french_def french_month_days_def leap_julian_def split: if_splits)
qed

lemma french_back:
  assumes "1 \<le> Y" and "Y \<le> 14" and "0 \<le> doy" and "doy < 366"
  shows "FrenchToSdn Y (doy div 30 + 1) (doy mod 30 + 1) = Some (days_julian Y + doy + 2375475)"
proof -
  have q: "0 \<le> doy div 30 \<and> doy div 30 < 13" using assms by (intro quotient_bounds) auto
  have "(doy div 30) * 30 + (doy mod 30) = doy" by simp
  then have e: "Y * 1461 sdiv 4 + (doy div 30 + 1 - 1) * 30 + (doy mod 30 + 1) + 2375474 = days_julian Y + doy + 2375475"
    using assms(1) by (simp add: days_julian_eq sdiv_nonneg)
  have "\<not> (Y < 1 \<or> Y > 14 \<or> doy div 30 + 1 < 1 \<or> doy div 30 + 1 > 13 \<or> doy mod 30 + 1 < 1 \<or> doy mod 30 + 1 > 30)"
    using assms q pos_mod_bound [of 30 doy] pos_mod_sign [of 30 doy] by linarith
  then show ?thesis
    unfolding FrenchToSdn_def DAYS_PER_4_YEARS_def DAYS_PER_MONTH_def FRENCH_SDN_OFFSET_def by (simp only: if_False e)
qed

interpretation french: calendar SdnToFrench FrenchToSdn next_french "Date 1 1 1" FIRST_VALID LAST_VALID
proof unfold_locales
  show "dt < next_french dt" for dt by (cases dt) (auto simp: next_french_def less_date_def)
  show "FIRST_VALID \<le> LAST_VALID" by (simp add: FIRST_VALID_def LAST_VALID_def)
  show "SdnToFrench FIRST_VALID = Some (Date 1 1 1)" by code_simp
  fix n dt assume n: "FIRST_VALID \<le> n" and dt: "SdnToFrench n = Some dt"
  show "SdnToFrench (n + 1) = Some (next_french dt)" if l: "n < LAST_VALID"
  proof -
    obtain Y where Y: "dt = french_date Y (n - 2375475 - days_julian Y)" "days_julian Y \<le> n - 2375475"
      "n - 2375475 < days_julian (Y + 1)" using french_run [OF n] l dt by auto
    obtain Y' where Y': "SdnToFrench (n + 1) = Some (french_date Y' (n + 1 - 2375475 - days_julian Y'))"
      "days_julian Y' \<le> n + 1 - 2375475" "n + 1 - 2375475 < days_julian (Y' + 1)" using french_run [of "n + 1"] n l by auto
    have len: "days_julian (Y + 1) = days_julian Y + 365 + (if leap_julian (Y + 1) then 1 else 0)" using ruleD(1) [OF julian_rule] .
    let ?doy = "n - 2375475 - days_julian Y" and ?len = "365 + (if leap_julian (Y + 1) then 1 else 0)"
    have doy: "0 \<le> ?doy" "?doy < ?len" using Y(2,3) len by simp_all
    note u = year_unique [OF julian_rule _ _ Y'(2,3)]
    have "french_date Y' (n + 1 - 2375475 - days_julian Y') = next_french dt"
    proof (cases "?doy + 1 < ?len")
      case True
      then have "Y' = Y" using len Y(2) by (intro u) linarith+
      then show ?thesis unfolding Y(1) french_month_step [OF doy] if_P [OF True] by (simp add: algebra_simps)
    next
      case False
      then have e: "n + 1 - 2375475 = days_julian (Y + 1)" using doy(2) len by linarith
      then have "Y' = Y + 1" using rule_less [OF julian_rule, of "Y + 1" "Y + 1 + 1"] by (intro u) simp_all
      then show ?thesis unfolding Y(1) french_month_step [OF doy] if_not_P [OF False] e by simp
    qed
    then show ?thesis using Y'(1) by simp
  qed
  show "FrenchToSdn (d_year dt) (d_month dt) (d_day dt) = Some n" if l: "n \<le> LAST_VALID"
  proof -
    obtain Y where Y: "dt = french_date Y (n - 2375475 - days_julian Y)" "days_julian Y \<le> n - 2375475"
      "n - 2375475 < days_julian (Y + 1)" "1 \<le> Y" "Y \<le> 14" using french_run [OF n l] dt by auto
    have "n - 2375475 - days_julian Y < 366" using Y(3) ruleD(1) [OF julian_rule, of Y] by (auto split: if_splits)
    then show ?thesis using french_back [of Y "n - 2375475 - days_julian Y"] Y by (simp add: french_date_def)
  qed
qed


subsection \<open>Days of the week and of the month\<close>

lemma day_of_week:
  assumes "1 \<le> n" and "n \<le> 2 ^ 29"
  shows "DayOfWeek n = Some ((n + 1) mod 7)"
proof -
  have "0 \<le> (n + 1) mod 7" "(n + 1) mod 7 < 7" by simp_all
  then show ?thesis using assms by (simp add: DayOfWeek_def c_long_def smod_nonneg to_int_id Let_def)
qed

text \<open>The number of the first day of a month of the astronomical year \<open>a\<close>.\<close>

definition month_number :: "(int \<Rightarrow> int) \<Rightarrow> int \<Rightarrow> int \<Rightarrow> int \<Rightarrow> int" where
  "month_number N offset a m =
     (if m > 2 then N (a + 4800) + month_start (m - 3) else N (a + 4799) + month_start (m + 9)) + 1 - offset"

lemma march_year_run:
  assumes "y \<noteq> 0" and "-4713 < y" and "y < 1460000" and "1 \<le> m" and "m \<le> 12"
  shows "march_year y m = Some (if m > 2 then (astro y + 4800, m - 3) else (astro y + 4799, m + 9))"
  using assms by (simp add: march_year_def astro_def c_int_def INT_MAX_def)

lemma first_of_month:
  assumes y: "y \<noteq> 0" "-4713 < y" "y < 1460000" and m: "1 \<le> m" "m \<le> 12"
  shows "GregorianToSdn y m 1 = Some (month_number days_gregorian 32045 (astro y) m)"
    "JulianToSdn y m 1 = Some (month_number days_julian 32083 (astro y) m)"
proof -
  define Y k where "Y = (if m > 2 then astro y + 4800 else astro y + 4799)" and "k = (if m > 2 then m - 3 else m + 9)"
  have v: "\<not> fields_invalid (-4714) y m 1" "\<not> fields_invalid (-4713) y m 1" using y m by (simp_all add: fields_invalid_def)
  have my: "march_year y m = Some (Y, k)" using march_year_run [OF y m] by (simp add: Y_def k_def)
  have b: "0 \<le> Y" "Y < 1470000" "Y * 1461 \<le> INT_MAX" "0 \<le> k" "k \<le> 11"
    using y m by (auto simp: Y_def k_def astro_def INT_MAX_def)
  have n: "N Y + month_start k + 1 - offset = month_number N offset (astro y) m" for N offset
    by (simp add: month_number_def Y_def k_def)
  show "GregorianToSdn y m 1 = Some (month_number days_gregorian 32045 (astro y) m)"
    using gregorian_formula [OF v(1) _ my b(1,2,4,5)] y n by simp
  show "JulianToSdn y m 1 = Some (month_number days_julian 32083 (astro y) m)"
    using julian_formula [OF v(2) _ my b(1,3,4,5)] y n by simp
qed

lemma month_13_invalid: "GregorianToSdn y 13 1 = Some 0" "JulianToSdn y 13 1 = Some 0"
  by (simp_all add: GregorianToSdn_def JulianToSdn_def fields_invalid_def)

text \<open>From the first of a month to the first of the next one.\<close>

lemma month_number_step:
  assumes r: "year_rule leap N" and m: "1 \<le> m" "m \<le> 12"
  shows "(if m < 12 then month_number N offset a (m + 1) else month_number N offset (a + 1) 1) - month_number N offset a m =
    month_days (leap a) m"
proof (cases "m = 2")
  case True
  have "leap (a + 4800) = leap a" using ruleD(2) [OF r, of "a + 4800"] by simp
  moreover have "N (a + 4800) = N (a + 4799) + 365 + (if leap (a + 4800) then 1 else 0)"
    using ruleD(1) [OF r, of "a + 4799"] by (simp add: add.assoc)
  ultimately show ?thesis using True by (simp add: month_number_def month_days_def month_start_def)
next
  case False
  define k where "k = (if m > 2 then m - 3 else m + 9)"
  have k: "0 \<le> k" "k < 11" using False m by (auto simp: k_def)
  then have k': "(if k < 10 then k + 3 else k - 9) = m" using False m by (auto simp: k_def)
  have "(if m < 12 then month_number N offset a (m + 1) else month_number N offset (a + 1) 1) - month_number N offset a m =
      month_start (k + 1) - month_start k"
    using False m by (auto simp: month_number_def k_def algebra_simps)
  then show ?thesis using month_length [OF k, of "leap a"] k' by simp
qed

lemma month_number_pos:
  assumes r: "year_rule leap N" and "offset \<le> N 88" and "-4711 \<le> a" and "1 \<le> m" and "m \<le> 12"
  shows "0 < month_number N offset a m"
proof -
  have "N 88 \<le> N Y" if "88 \<le> Y" for Y using rule_less [OF r, of 88 Y] that by (cases "Y = 88") auto
  from this [of "a + 4799"] this [of "a + 4800"] have "offset \<le> N (a + 4799)" "offset \<le> N (a + 4800)"
    using assms(2,3) by simp_all
  then show ?thesis using month_start_bounds [of "m - 3"] month_start_bounds [of "m + 9"] assms(4,5)
    by (auto simp: month_number_def)
qed

lemma days_in_month_run:
  assumes f: "\<And>y m. y \<noteq> 0 \<Longrightarrow> -4713 < y \<Longrightarrow> y < 1460000 \<Longrightarrow> 1 \<le> m \<Longrightarrow> m \<le> 12 \<Longrightarrow>
      to_jd cal y m 1 = Some (month_number N offset (astro y) m)"
    and inv: "\<And>y. to_jd cal y 13 1 = Some 0" and r: "year_rule leap N"
    and pos: "offset \<le> N 88" and y: "y \<noteq> 0" "-4713 < y" "y < 1459999" and m: "1 \<le> m" "m \<le> 12"
  shows "cal_days_in_month cal m y = Some (Some (month_days (leap (astro y)) m))"
proof -
  have id: "to_int y = y" "to_int m = m" "to_int (m + 1) = m + 1" "c_long (m + 1) = Some (m + 1)" "c_long (y + 1) = Some (y + 1)"
    "to_int (y + 1) = y + 1"
    using y m by (simp_all add: to_int_id c_long_def)
  have a: "-4711 \<le> astro y" using y by (simp add: astro_def)
  have s: "to_jd cal y m 1 = Some (month_number N offset (astro y) m)" using f y m by simp
  note p = month_number_pos [OF r pos]
  note step = month_number_step [OF r m, of offset "astro y"]
  show ?thesis
  proof (cases "m < 12")
    case True
    then have n: "to_jd cal y (m + 1) 1 = Some (month_number N offset (astro y) (m + 1))" using f y m by simp
    have "month_number N offset (astro y) (m + 1) > 0" using p a True m by simp
    then show ?thesis using s n id step True p [OF a m] by (simp add: cal_days_in_month_def add.commute [of 1])
  next
    case False
    then have m12: "m = 12" using m by simp
    have n: "(if y = -1 then to_jd cal 1 1 1 else to_jd cal (y + 1) 1 1) = Some (month_number N offset (astro y + 1) 1)"
      using f [of 1 1] f [of "y + 1" 1] y by (auto simp: astro_def)
    show ?thesis using s n id step m12 p [OF a m] inv [of y] by (auto simp: cal_days_in_month_def split: if_splits)
  qed
qed


subsection \<open>Easter\<close>

lemma wrap_smod: "0 < n \<Longrightarrow> wrap_up n (x smod n) = x mod n"
proof -
  assume n: "0 < n"
  show ?thesis
  proof (cases "0 \<le> x")
    case True
    have "\<not> x mod n < 0" using pos_mod_sign [OF n, of x] by linarith
    then show ?thesis unfolding wrap_up_def smod_nonneg [OF True n] by (rule if_not_P)
  next
    case False
    then have e: "x smod n = - ((- x) mod n)" using n by (simp add: signed_modulo_int_def sgn_if)
    show ?thesis
    proof (cases "(- x) mod n = 0")
      case True
      then show ?thesis unfolding wrap_up_def e by (simp add: mod_eq_0_iff_dvd)
    next
      case False
      moreover have "0 \<le> (- x) mod n" using n by simp
      ultimately show ?thesis unfolding wrap_up_def e using zmod_zminus1_eq_if [of "- x" n] by auto
    qed
  qed
qed

lemma easter_sunday_run:
  assumes "0 \<le> pfm" and "pfm < 30"
  shows "\<exists>p. 0 \<le> p \<and> p \<le> 28 \<and> easter_sunday golden (d mod 7) pfm = p + 1 + (4 - p - d) mod 7"
proof -
  define p where "p = (if pfm = 29 \<or> pfm = 28 \<and> golden > 11 then pfm - 1 else pfm)"
  have "(4 - p - d mod 7) mod 7 = (4 - p - d) mod 7" by (rule mod_diff_right_eq)
  then have "easter_sunday golden (d mod 7) pfm = p + 1 + (4 - p - d) mod 7"
    unfolding easter_sunday_def p_def [symmetric] Let_def by (simp add: wrap_smod)
  then show ?thesis using assms by (intro exI [of _ p]) (auto simp: p_def)
qed

definition dominical :: "easter_method \<Rightarrow> int \<Rightarrow> int" where
  "dominical method year = (if easter_is_julian method year then year + year div 4 + 5
     else year + year div 4 - year div 100 + year div 400)"

lemma easter_run:
  assumes "1 \<le> year"
  shows "\<exists>p. 0 \<le> p \<and> p \<le> 28 \<and> cal_easter method year = p + 1 + (4 - p - dominical method year) mod 7"
proof (cases "easter_is_julian method year")
  case True
  then show ?thesis using assms easter_sunday_run [of _ _ "dominical method year"]
    by (simp add: cal_easter_def dominical_def wrap_smod sdiv_nonneg Let_def)
next
  case False
  then show ?thesis using assms easter_sunday_run [of _ _ "dominical method year"]
    by (simp add: cal_easter_def dominical_def wrap_smod sdiv_nonneg Let_def)
qed

text \<open>March 21 of a year, modulo the week.\<close>

lemma march_21:
  assumes "1 \<le> year" and "year < 1460000"
  shows "GregorianToSdn year 3 21 = Some (days_gregorian (year + 4800) + 21 - 32045)"
    "JulianToSdn year 3 21 = Some (days_julian (year + 4800) + 21 - 32083)"
  using gregorian_formula [of year 3 21 "year + 4800" 0] julian_formula [of year 3 21 "year + 4800" 0] assms
  by (simp_all add: fields_invalid_def march_year_def c_int_def INT_MAX_def month_start_def)

lemma march_21_bounds:
  assumes "1 \<le> year" and "year < 1460000"
  shows "1721000 \<le> days_gregorian (year + 4800) + 21 - 32045" "days_gregorian (year + 4800) + 21 - 32045 \<le> 536000000"
    "1721000 \<le> days_julian (year + 4800) + 21 - 32083" "days_julian (year + 4800) + 21 - 32083 \<le> 536000000"
proof -
  have mono: "N 4800 \<le> N (year + 4800) \<and> N (year + 4800) \<le> N 1464800" if "year_rule leap N" for leap N
    using rule_less [OF that, of 4800 "year + 4800"] rule_less [OF that, of "year + 4800" 1464800] assms by simp
  have v: "days_gregorian 4800 = 1753164" "days_gregorian 1464800 = 535007214" "days_julian 4800 = 1753200" "days_julian 1464800 = 535018200"
    by (simp_all add: days_gregorian_def days_julian_def)
  show "1721000 \<le> days_gregorian (year + 4800) + 21 - 32045" "days_gregorian (year + 4800) + 21 - 32045 \<le> 536000000"
    "1721000 \<le> days_julian (year + 4800) + 21 - 32083" "days_julian (year + 4800) + 21 - 32083 \<le> 536000000"
    using mono [OF gregorian_rule] mono [OF julian_rule] v by simp_all
qed

lemma days_mod_week:
  "(days_gregorian (year + 4800) + 21 - 32045 + k + 1) mod 7 = (year + year div 4 - year div 100 + year div 400 - 5 + k) mod 7"
  "(days_julian (year + 4800) + 21 - 32083 + k + 1) mod 7 = (year + year div 4 + k) mod 7"
proof -
  have q: "(year + 4800) div 4 = year div 4 + 1200" "(year + 4800) div 100 = year div 100 + 48" "(year + 4800) div 400 = year div 400 + 12"
    by (simp_all add: div_plus_div_distrib_dvd_right)
  show "(days_gregorian (year + 4800) + 21 - 32045 + k + 1) mod 7 = (year + year div 4 - year div 100 + year div 400 - 5 + k) mod 7"
    unfolding days_gregorian_def q mod_eq_dvd_iff by (rule dvdI [of _ _ "52 * year + 245878"]) simp
  show "(days_julian (year + 4800) + 21 - 32083 + k + 1) mod 7 = (year + year div 4 + k) mod 7"
    unfolding days_julian_def q mod_eq_dvd_iff by (rule dvdI [of _ _ "52 * year + 245877"]) simp
qed


subsection \<open>Properties\<close>

text \<open>
  C26: the serial day numbers count days. Day 1 is November 25, 4714 B.C. in the Gregorian calendar and
  January 2, 4713 B.C. in the Julian one, day 2375840 is the first of Vendemiaire of year 1, and the date of
  every later day, up to the last one for which no \<open>int\<close> overflows on the way back, is as many
  days later by the calendar's own rules for months and leap years; converting the date back gives the day.
\<close>

theorem calendars_count_days:
  assumes "1 \<le> n" and "n \<le> 536838144" and "FIRST_VALID \<le> f" and "f \<le> LAST_VALID"
  shows "\<exists>g j r. SdnToGregorian n = Some g \<and> g = (next_date leap_gregorian ^^ nat (n - 1)) (Date (-4714) 11 25) \<and>
      GregorianToSdn (d_year g) (d_month g) (d_day g) = Some n \<and>
    SdnToJulian n = Some j \<and> j = (next_date leap_julian ^^ nat (n - 1)) (Date (-4713) 1 2) \<and>
      JulianToSdn (d_year j) (d_month j) (d_day j) = Some n \<and>
    SdnToFrench f = Some r \<and> r = (next_french ^^ nat (f - FIRST_VALID)) (Date 1 1 1) \<and>
      FrenchToSdn (d_year r) (d_month r) (d_day r) = Some f"
proof -
  have "n \<le> 2 ^ 29" using assms(2) by simp
  then show ?thesis
    using gregorian.counts_from_start [OF assms(1)] gregorian.roundtrip [OF assms(1)]
      julian.counts_from_start [OF assms(1,2)] julian.roundtrip [OF assms(1,2)]
      french.counts_from_start [OF assms(3,4)] french.roundtrip [OF assms(3,4)] by simp
qed

theorem calendars_count_days_witness:
  "\<exists>g. SdnToGregorian 2447893 = Some g \<and> GregorianToSdn (d_year g) (d_month g) (d_day g) = Some 2447893"
  using calendars_count_days [of 2447893 FIRST_VALID] by (auto simp: FIRST_VALID_def LAST_VALID_def)

text \<open>A later day has a later date, in the order of year, month and day.\<close>

theorem calendars_increasing:
  assumes "1 \<le> n" and "n < n'" and "n' \<le> 536838144"
  shows "\<exists>g g' j j'. SdnToGregorian n = Some g \<and> SdnToGregorian n' = Some g' \<and> g < g' \<and>
    SdnToJulian n = Some j \<and> SdnToJulian n' = Some j' \<and> j < j'"
proof -
  have b: "n \<le> 536838144" "1 \<le> n'" "n \<le> 2 ^ 29" "n' \<le> 2 ^ 29" using assms by simp_all
  obtain g g' j j' where "SdnToGregorian n = Some g" "SdnToGregorian n' = Some g'" "SdnToJulian n = Some j" "SdnToJulian n' = Some j'"
    using gregorian.roundtrip [of n] gregorian.roundtrip [of n'] julian.roundtrip [of n] julian.roundtrip [of n'] assms b by auto
  then show ?thesis using gregorian.increasing [OF assms(1,2) b(4)] julian.increasing [OF assms] by blast
qed

theorem calendars_increasing_witness:
  "\<exists>g g'. SdnToGregorian 2299160 = Some g \<and> SdnToGregorian 2299161 = Some g' \<and> g < g'"
  using calendars_increasing [of 2299160 2299161] by auto

text \<open>
  \<open>cal_days_in_month\<close> gives the length of the month in the Gregorian and the Julian calendar, for
  December of 1 B.C. too, which January of 1 A.D. follows.
\<close>

theorem days_in_month_correct:
  assumes "y \<noteq> 0" and "-4713 < y" and "y < 1459999" and "1 \<le> m" and "m \<le> 12"
  shows "cal_days_in_month CAL_GREGORIAN m y = Some (Some (month_days (leap_gregorian (astro y)) m)) \<and>
    cal_days_in_month CAL_JULIAN m y = Some (Some (month_days (leap_julian (astro y)) m))"
proof
  have o: "(32045 :: int) \<le> days_gregorian 88" "(32083 :: int) \<le> days_julian 88"
    by (simp_all add: days_gregorian_def days_julian_def)
  show "cal_days_in_month CAL_GREGORIAN m y = Some (Some (month_days (leap_gregorian (astro y)) m))"
    by (rule days_in_month_run [OF _ _ gregorian_rule o(1) assms]) (simp_all add: first_of_month month_13_invalid)
  show "cal_days_in_month CAL_JULIAN m y = Some (Some (month_days (leap_julian (astro y)) m))"
    by (rule days_in_month_run [OF _ _ julian_rule o(2) assms]) (simp_all add: first_of_month month_13_invalid)
qed

theorem days_in_month_correct_witness:
  "cal_days_in_month CAL_GREGORIAN 2 1900 = Some (Some 28) \<and> cal_days_in_month CAL_JULIAN 2 1900 = Some (Some 29)"
  using days_in_month_correct [of 1900 2] by (simp add: month_days_def leap_gregorian_def leap_julian_def astro_def)

text \<open>The last month of the French calendar has a negative number of days in \<open>cal_days_in_month\<close>.\<close>

theorem french_last_month_negative: "cal_days_in_month CAL_FRENCH 13 14 = Some (Some (-2380948))"
  by code_simp

text \<open>Easter is a Sunday from March 22 to April 25, in the calendar the method chooses.\<close>

theorem easter_is_sunday:
  assumes "1 \<le> year" and "year < 1460000"
  shows "1 \<le> cal_easter method year \<and> cal_easter method year \<le> 35 \<and>
    Option.bind (if easter_is_julian method year then JulianToSdn year 3 21 else GregorianToSdn year 3 21)
      (\<lambda>n. DayOfWeek (n + cal_easter method year)) = Some 0"
proof -
  obtain p where p: "0 \<le> p" "p \<le> 28" "cal_easter method year = p + 1 + (4 - p - dominical method year) mod 7"
    using easter_run [OF assms(1)] by blast
  have m: "0 \<le> (4 - p - dominical method year) mod 7" "(4 - p - dominical method year) mod 7 < 7" by simp_all
  have e: "1 \<le> cal_easter method year" "cal_easter method year \<le> 35" using p m by simp_all
  have sun: "(dominical method year - 5 + cal_easter method year) mod 7 = 0"
  proof -
    have "(dominical method year - 5 + (p + 1 + (4 - p - dominical method year) mod 7)) mod 7 =
        (dominical method year - 5 + (p + 1 + (4 - p - dominical method year))) mod 7"
      by (simp only: add.assoc [symmetric] mod_add_right_eq)
    then show ?thesis using p(3) by simp
  qed
  define n where "n = (if easter_is_julian method year then days_julian (year + 4800) + 21 - 32083 else days_gregorian (year + 4800) + 21 - 32045)"
  have n: "(if easter_is_julian method year then JulianToSdn year 3 21 else GregorianToSdn year 3 21) = Some n"
    using march_21 [OF assms] by (simp add: n_def)
  have w: "(n + cal_easter method year + 1) mod 7 = 0"
  proof (cases "easter_is_julian method year")
    case True
    then show ?thesis using days_mod_week(2) [of year "cal_easter method year"] sun by (simp add: n_def dominical_def)
  next
    case False
    then show ?thesis using days_mod_week(1) [of year "cal_easter method year"] sun by (simp add: n_def dominical_def)
  qed
  have "DayOfWeek (n + cal_easter method year) = Some ((n + cal_easter method year + 1) mod 7)"
  proof (rule day_of_week)
    have "1721000 \<le> n \<and> n \<le> 536000000" using march_21_bounds [OF assms] by (simp add: n_def)
    then show "1 \<le> n + cal_easter method year" "n + cal_easter method year \<le> 2 ^ 29" using e by simp_all
  qed
  then show ?thesis using e n w by simp
qed

theorem easter_is_sunday_witness:
  "cal_easter CAL_EASTER_DEFAULT 1990 = 25 \<and> Option.bind (GregorianToSdn 1990 3 21) (\<lambda>n. DayOfWeek (n + 25)) = Some 0"
proof -
  have "cal_easter CAL_EASTER_DEFAULT 1990 = 25" "\<not> easter_is_julian CAL_EASTER_DEFAULT 1990" by code_simp+
  then show ?thesis using easter_is_sunday [of 1990 CAL_EASTER_DEFAULT] by simp
qed

end
