(* ===== verification/Spl_Heap.thy ===== *)
theory Spl_Heap
  imports Zend_Prelude
begin

unbundle bit_operations_syntax

text \<open>
  The binary heap of \<open>ext/spl/spl_heap.c\<close> behind \<open>SplMinHeap\<close>, \<open>SplMaxHeap\<close> and
  \<open>SplPriorityQueue\<close>. An element is a pointer to a zval; the heap records the references it takes
  (\<open>ctor\<close>, \<open>Z_ADDREF_P\<close>) and gives up (\<open>dtor\<close>, \<open>zval_ptr_dtor\<close>) in \<open>h_refs\<close>. The
  comparison may call user code: it threads a state \<open>'u\<close>, of which \<open>exc\<close> tells whether an
  exception is pending (\<open>EG(exception)\<close>). It is taken not to enter the same heap again.
\<close>

datatype 'e ref_event = AddRef 'e | DelRef 'e

type_synonym ('e, 'u) cmp_func = "'e \<Rightarrow> 'e \<Rightarrow> 'u \<Rightarrow> int \<times> 'u"

record 'e spl_ptr_heap =
  h_elements :: "'e slots option"
  h_count :: int
  h_max_size :: int
  h_flags :: uint
  h_refs :: "'e ref_event list"

definition PTR_HEAP_BLOCK_SIZE :: int where "PTR_HEAP_BLOCK_SIZE = 64"
definition SPL_HEAP_CORRUPTED :: uint where "SPL_HEAP_CORRUPTED = 1"

definition log_ref :: "'e ref_event \<Rightarrow> 'e spl_ptr_heap \<Rightarrow> 'e spl_ptr_heap" where
  "log_ref r h = h\<lparr>h_refs := h_refs h @ [r]\<rparr>"

definition flag_exception :: "bool \<Rightarrow> 'e spl_ptr_heap \<Rightarrow> 'e spl_ptr_heap" where
  "flag_exception e h = (if e then h\<lparr>h_flags := h_flags h OR SPL_HEAP_CORRUPTED\<rparr> else h)"

definition spl_ptr_heap_init :: "'e spl_ptr_heap" where
  "spl_ptr_heap_init = \<lparr>h_elements = erealloc None PTR_HEAP_BLOCK_SIZE, h_count = 0,
     h_max_size = PTR_HEAP_BLOCK_SIZE, h_flags = 0, h_refs = []\<rparr>"

text \<open>The loop that moves ancestors down until the new element fits.\<close>

partial_function (option) sift_up ::
  "('e, 'u) cmp_func \<Rightarrow> 'e \<Rightarrow> int \<Rightarrow> 'e slots option \<Rightarrow> 'u \<Rightarrow> (int \<times> 'e slots option \<times> 'u) option" where
  "sift_up cmp elem i els u =
     (if i > 0 then do {
        parent \<leftarrow> slot els ((i - 1) div 2);
        let (r, u) = cmp parent elem u;
        (if r < 0 then do {
           els \<leftarrow> set_slot els i (Some parent);
           sift_up cmp elem ((i - 1) div 2) els u
         } else Some (i, els, u))
      } else Some (i, els, u))"

definition spl_ptr_heap_insert ::
  "('e, 'u) cmp_func \<Rightarrow> ('u \<Rightarrow> bool) \<Rightarrow> 'e \<Rightarrow> 'e spl_ptr_heap \<Rightarrow> 'u \<Rightarrow> ('e spl_ptr_heap \<times> 'u) option" where
  "spl_ptr_heap_insert cmp exc elem h u = do {
     h \<leftarrow> (if h_count h + 1 > h_max_size h then do {
            m \<leftarrow> c_int (h_max_size h * 2);
            Some (h\<lparr>h_elements := erealloc (h_elements h) m, h_max_size := m\<rparr>)
          } else Some h);
     let h = log_ref (AddRef elem) h;
     cnt \<leftarrow> c_int (h_count h + 1);
     (i, els, u) \<leftarrow> sift_up cmp elem (h_count h) (h_elements h) u;
     els \<leftarrow> set_slot els i (Some elem);
     Some (flag_exception (exc u) (h\<lparr>h_elements := els, h_count := cnt\<rparr>), u)
   }"

text \<open>The element on top, or \<open>NULL\<close> (\<open>Some None\<close>).\<close>

definition spl_ptr_heap_top :: "'e spl_ptr_heap \<Rightarrow> 'e option option" where
  "spl_ptr_heap_top h = (if h_count h = 0 then Some None else map_option Some (slot (h_elements h) 0))"

text \<open>
  The loop that moves the larger child up until the last element fits. \<open>count\<close> is already the
  new count, so that the slot \<open>elements[count]\<close> still holds \<open>bottom\<close>.
\<close>

definition larger_child ::
  "('e, 'u) cmp_func \<Rightarrow> int \<Rightarrow> int \<Rightarrow> 'e slots option \<Rightarrow> 'u \<Rightarrow> (int \<times> 'u) option" where
  "larger_child cmp cnt j els u =
     (if j \<noteq> cnt then do {
        right \<leftarrow> slot els (j + 1);
        left \<leftarrow> slot els j;
        let (r, u) = cmp right left u;
        Some (if r > 0 then j + 1 else j, u)
      } else Some (j, u))"

partial_function (option) sift_down ::
  "('e, 'u) cmp_func \<Rightarrow> 'e \<Rightarrow> int \<Rightarrow> int \<Rightarrow> int \<Rightarrow> 'e slots option \<Rightarrow> 'u \<Rightarrow> (int \<times> 'e slots option \<times> 'u) option" where
  "sift_down cmp bottom limit cnt i els u =
     (if i < limit then do {
        (j, u) \<leftarrow> larger_child cmp cnt (i * 2 + 1) els u;
        child \<leftarrow> slot els j;
        let (r, u) = cmp bottom child u;
        (if r < 0 then do {
           els \<leftarrow> set_slot els i (Some child);
           sift_down cmp bottom limit cnt j els u
         } else Some (i, els, u))
      } else Some (i, els, u))"

definition spl_ptr_heap_delete_top ::
  "('e, 'u) cmp_func \<Rightarrow> ('u \<Rightarrow> bool) \<Rightarrow> 'e spl_ptr_heap \<Rightarrow> 'u \<Rightarrow> ('e option \<times> 'e spl_ptr_heap \<times> 'u) option" where
  "spl_ptr_heap_delete_top cmp exc h u =
     (if h_count h = 0 then Some (None, h, u)
      else do {
        let limit = (h_count h - 1) div 2;
        top \<leftarrow> slot (h_elements h) 0;
        let cnt = h_count h - 1;
        bottom \<leftarrow> slot (h_elements h) cnt;
        (i, els, u) \<leftarrow> sift_down cmp bottom limit cnt 0 (h_elements h) u;
        els \<leftarrow> set_slot els i (Some bottom);
        let h = flag_exception (exc u) (h\<lparr>h_elements := els, h_count := cnt\<rparr>);
        Some (Some top, log_ref (DelRef top) h, u)
      })"

text \<open>The elements below \<open>count\<close>, in the order of the loops over them.\<close>

fun read_elements :: "'e slots option \<Rightarrow> nat \<Rightarrow> 'e list option" where
  "read_elements els 0 = Some []"
| "read_elements els (Suc n) = do { es \<leftarrow> read_elements els n; e \<leftarrow> slot els (int n); Some (es @ [e]) }"

text \<open>The references of a clone are its own.\<close>

definition spl_ptr_heap_clone :: "'e spl_ptr_heap \<Rightarrow> 'e spl_ptr_heap option" where
  "spl_ptr_heap_clone from = do {
     es \<leftarrow> read_elements (h_elements from) (nat (h_count from));
     Some (from\<lparr>h_refs := map AddRef es\<rparr>)
   }"

definition spl_ptr_heap_destroy :: "'e spl_ptr_heap \<Rightarrow> 'e spl_ptr_heap option" where
  "spl_ptr_heap_destroy h = do {
     es \<leftarrow> read_elements (h_elements h) (nat (h_count h));
     Some (h\<lparr>h_elements := None, h_refs := h_refs h @ map DelRef es\<rparr>)
   }"

definition spl_ptr_heap_count :: "'e spl_ptr_heap \<Rightarrow> int" where
  "spl_ptr_heap_count h = h_count h"

subsection \<open>Comparisons\<close>

text \<open>
  The comparisons of the three classes. A user-defined \<open>compare\<close> (\<open>fptr_cmp\<close>) returns a
  \<open>long\<close>, or nothing when it throws; the C function returns an \<open>int\<close>.
\<close>

definition spl_ptr_heap_cmp_cb ::
  "('e \<Rightarrow> 'e \<Rightarrow> 'u \<Rightarrow> int option \<times> 'u) \<Rightarrow> ('e, 'u) cmp_func" where
  "spl_ptr_heap_cmp_cb cb a b u =
     (case cb a b u of (None, u) \<Rightarrow> (0, u) | (Some lval, u) \<Rightarrow> (to_int lval, u))"

definition spl_ptr_heap_zval_max_cmp ::
  "('e \<Rightarrow> 'e \<Rightarrow> int) \<Rightarrow> ('e \<Rightarrow> 'e \<Rightarrow> 'u \<Rightarrow> int option \<times> 'u) option \<Rightarrow> ('u \<Rightarrow> bool) \<Rightarrow> ('e, 'u) cmp_func" where
  "spl_ptr_heap_zval_max_cmp compare_function fptr_cmp exc a b u =
     (if exc u then (0, u)
      else (case fptr_cmp of Some cb \<Rightarrow> spl_ptr_heap_cmp_cb cb a b u
        | None \<Rightarrow> (to_int (compare_function a b), u)))"

definition spl_ptr_heap_zval_min_cmp ::
  "('e \<Rightarrow> 'e \<Rightarrow> int) \<Rightarrow> ('e \<Rightarrow> 'e \<Rightarrow> 'u \<Rightarrow> int option \<times> 'u) option \<Rightarrow> ('u \<Rightarrow> bool) \<Rightarrow> ('e, 'u) cmp_func" where
  "spl_ptr_heap_zval_min_cmp compare_function fptr_cmp exc a b u =
     (if exc u then (0, u)
      else (case fptr_cmp of Some cb \<Rightarrow> spl_ptr_heap_cmp_cb cb a b u
        | None \<Rightarrow> (to_int (compare_function b a), u)))"

text \<open>A node of a priority queue: the array with the entries \<open>data\<close> and \<open>priority\<close>.\<close>

record 'v pqueue_node =
  pq_data :: 'v
  pq_priority :: 'v

definition spl_ptr_pqueue_zval_cmp ::
  "('v \<Rightarrow> 'v \<Rightarrow> int) \<Rightarrow> ('v \<Rightarrow> 'v \<Rightarrow> 'u \<Rightarrow> int option \<times> 'u) option \<Rightarrow> ('u \<Rightarrow> bool) \<Rightarrow> ('v pqueue_node, 'u) cmp_func" where
  "spl_ptr_pqueue_zval_cmp compare_function fptr_cmp exc a b u =
     (if exc u then (0, u)
      else (case fptr_cmp of Some cb \<Rightarrow> spl_ptr_heap_cmp_cb cb (pq_priority a) (pq_priority b) u
        | None \<Rightarrow> (to_int (compare_function (pq_priority a) (pq_priority b)), u)))"

subsection \<open>The classes\<close>

text \<open>
  An object of the classes: its heap and, for a queue, what to extract. A method returns a value,
  throws a \<open>RuntimeException\<close>, or raises \<open>E_RECOVERABLE_ERROR\<close> and returns \<open>null\<close>.
\<close>

datatype 'r outcome = Returned 'r | Threw string | Recoverable string

record 'e spl_heap_object =
  heap :: "'e spl_ptr_heap"
  extract_flags :: uint

definition heap_corrupted :: "'e spl_heap_object \<Rightarrow> bool" where
  "heap_corrupted this \<longleftrightarrow> h_flags (heap this) AND SPL_HEAP_CORRUPTED \<noteq> 0"

definition corrupted_message :: string where
  "corrupted_message = ''Heap is corrupted, heap properties are no longer ensured.''"

definition spl_heap_object_new :: "uint \<Rightarrow> 'e spl_heap_object" where
  "spl_heap_object_new flags = \<lparr>heap = spl_ptr_heap_init, extract_flags = flags\<rparr>"

text \<open>Cloning an object adds a second reference to each element of the cloned heap.\<close>

definition spl_heap_object_clone :: "'e spl_heap_object \<Rightarrow> 'e spl_heap_object option" where
  "spl_heap_object_clone this = do {
     h \<leftarrow> spl_ptr_heap_clone (heap this);
     es \<leftarrow> read_elements (h_elements h) (nat (h_count h));
     Some (this\<lparr>heap := h\<lparr>h_refs := h_refs h @ map AddRef es\<rparr>\<rparr>)
   }"

definition spl_heap_object_free_storage :: "'e spl_heap_object \<Rightarrow> 'e spl_heap_object option" where
  "spl_heap_object_free_storage this = do {
     es \<leftarrow> read_elements (h_elements (heap this)) (nat (h_count (heap this)));
     h \<leftarrow> spl_ptr_heap_destroy ((heap this)\<lparr>h_refs := h_refs (heap this) @ map DelRef es\<rparr>);
     Some (this\<lparr>heap := h\<rparr>)
   }"

text \<open>\<open>SplHeap::insert\<close>; \<open>SEPARATE_ARG_IF_REF\<close> takes one reference and the heap another.\<close>

definition SplHeap_insert ::
  "('e, 'u) cmp_func \<Rightarrow> ('u \<Rightarrow> bool) \<Rightarrow> 'e \<Rightarrow> 'e spl_heap_object \<Rightarrow> 'u \<Rightarrow>
     (bool outcome \<times> 'e spl_heap_object \<times> 'u) option" where
  "SplHeap_insert cmp exc value this u =
     (if heap_corrupted this then Some (Threw corrupted_message, this, u)
      else do {
        let h = log_ref (AddRef value) (heap this);
        (h, u) \<leftarrow> spl_ptr_heap_insert cmp exc value h u;
        Some (Returned True, this\<lparr>heap := h\<rparr>, u)
      })"

definition SplHeap_extract ::
  "('e, 'u) cmp_func \<Rightarrow> ('u \<Rightarrow> bool) \<Rightarrow> 'e spl_heap_object \<Rightarrow> 'u \<Rightarrow> ('e outcome \<times> 'e spl_heap_object \<times> 'u) option" where
  "SplHeap_extract cmp exc this u =
     (if heap_corrupted this then Some (Threw corrupted_message, this, u)
      else do {
        (value, h, u) \<leftarrow> spl_ptr_heap_delete_top cmp exc (heap this) u;
        (case value of
           None \<Rightarrow> Some (Threw ''Can't extract from an empty heap'', this\<lparr>heap := h\<rparr>, u)
         | Some v \<Rightarrow> Some (Returned v, this\<lparr>heap := log_ref (DelRef v) h\<rparr>, u))
      })"

definition SplHeap_top :: "'e spl_heap_object \<Rightarrow> 'e outcome option" where
  "SplHeap_top this =
     (if heap_corrupted this then Some (Threw corrupted_message)
      else do {
        value \<leftarrow> spl_ptr_heap_top (heap this);
        (case value of None \<Rightarrow> Some (Threw ''Can't peek at an empty heap'') | Some v \<Rightarrow> Some (Returned v))
      })"

definition SplHeap_count :: "'e spl_heap_object \<Rightarrow> int" where
  "SplHeap_count this = spl_ptr_heap_count (heap this)"

definition SplHeap_isEmpty :: "'e spl_heap_object \<Rightarrow> bool" where
  "SplHeap_isEmpty this \<longleftrightarrow> spl_ptr_heap_count (heap this) = 0"

definition SplHeap_recoverFromCorruption :: "'e spl_heap_object \<Rightarrow> 'e spl_heap_object" where
  "SplHeap_recoverFromCorruption this =
     this\<lparr>heap := (heap this)\<lparr>h_flags := h_flags (heap this) AND NOT SPL_HEAP_CORRUPTED\<rparr>\<rparr>"

definition SplHeap_key :: "'e spl_heap_object \<Rightarrow> int" where
  "SplHeap_key this = h_count (heap this) - 1"

definition SplHeap_valid :: "'e spl_heap_object \<Rightarrow> bool" where
  "SplHeap_valid this \<longleftrightarrow> h_count (heap this) \<noteq> 0"

text \<open>\<open>SplHeap::next\<close> removes the top before it looks at its parameters (\<open>params_ok\<close>).\<close>

definition SplHeap_next ::
  "('e, 'u) cmp_func \<Rightarrow> ('u \<Rightarrow> bool) \<Rightarrow> bool \<Rightarrow> 'e spl_heap_object \<Rightarrow> 'u \<Rightarrow> ('e spl_heap_object \<times> 'u) option" where
  "SplHeap_next cmp exc params_ok this u = do {
     (elem, h, u) \<leftarrow> spl_ptr_heap_delete_top cmp exc (heap this) u;
     Some (this\<lparr>heap := (if params_ok then (case elem of None \<Rightarrow> h | Some e \<Rightarrow> log_ref (DelRef e) h) else h)\<rparr>, u)
   }"

text \<open>The value \<open>null\<close> is \<open>None\<close>. The slot is loaded before the count is tested, but only used after.\<close>

definition SplHeap_current :: "'e spl_heap_object \<Rightarrow> 'e option option" where
  "SplHeap_current this =
     (if h_count (heap this) = 0 then Some None else map_option Some (slot (h_elements (heap this)) 0))"

definition spl_heap_it_move_forward ::
  "('e, 'u) cmp_func \<Rightarrow> ('u \<Rightarrow> bool) \<Rightarrow> 'e spl_heap_object \<Rightarrow> 'u \<Rightarrow> (unit outcome \<times> 'e spl_heap_object \<times> 'u) option" where
  "spl_heap_it_move_forward cmp exc this u =
     (if heap_corrupted this then Some (Threw corrupted_message, this, u)
      else do {
        (elem, h, u) \<leftarrow> spl_ptr_heap_delete_top cmp exc (heap this) u;
        Some (Returned (), this\<lparr>heap := (case elem of None \<Rightarrow> h | Some e \<Rightarrow> log_ref (DelRef e) h)\<rparr>, u)
      })"

subsection \<open>Priority queues\<close>

definition SPL_PQUEUE_EXTR_MASK :: uint where "SPL_PQUEUE_EXTR_MASK = 3"
definition SPL_PQUEUE_EXTR_BOTH :: uint where "SPL_PQUEUE_EXTR_BOTH = 3"
definition SPL_PQUEUE_EXTR_DATA :: uint where "SPL_PQUEUE_EXTR_DATA = 1"
definition SPL_PQUEUE_EXTR_PRIORITY :: uint where "SPL_PQUEUE_EXTR_PRIORITY = 2"

datatype 'v extracted = Node "'v pqueue_node" | Part 'v

definition spl_pqueue_extract_helper :: "'v pqueue_node \<Rightarrow> uint \<Rightarrow> 'v extracted option" where
  "spl_pqueue_extract_helper value flags =
     (if flags AND SPL_PQUEUE_EXTR_BOTH = SPL_PQUEUE_EXTR_BOTH then Some (Node value)
      else if flags AND SPL_PQUEUE_EXTR_BOTH > 0 then
        (if flags AND SPL_PQUEUE_EXTR_DATA = SPL_PQUEUE_EXTR_DATA then Some (Part (pq_data value))
         else Some (Part (pq_priority value)))
      else None)"

definition extract_error :: string where
  "extract_error = ''Unable to extract from the PriorityQueue node''"

text \<open>The new node has one reference from its allocation, and the heap takes a second one.\<close>

definition SplPriorityQueue_insert ::
  "('v pqueue_node, 'u) cmp_func \<Rightarrow> ('u \<Rightarrow> bool) \<Rightarrow> 'v \<Rightarrow> 'v \<Rightarrow> 'v pqueue_node spl_heap_object \<Rightarrow> 'u \<Rightarrow>
     (bool outcome \<times> 'v pqueue_node spl_heap_object \<times> 'u) option" where
  "SplPriorityQueue_insert cmp exc data priority this u =
     (if heap_corrupted this then Some (Threw corrupted_message, this, u)
      else do {
        let elem = \<lparr>pq_data = data, pq_priority = priority\<rparr>;
        (h, u) \<leftarrow> spl_ptr_heap_insert cmp exc elem (log_ref (AddRef elem) (heap this)) u;
        Some (Returned True, this\<lparr>heap := h\<rparr>, u)
      })"

definition SplPriorityQueue_extract ::
  "('v pqueue_node, 'u) cmp_func \<Rightarrow> ('u \<Rightarrow> bool) \<Rightarrow> 'v pqueue_node spl_heap_object \<Rightarrow> 'u \<Rightarrow>
     ('v extracted outcome \<times> 'v pqueue_node spl_heap_object \<times> 'u) option" where
  "SplPriorityQueue_extract cmp exc this u =
     (if heap_corrupted this then Some (Threw corrupted_message, this, u)
      else do {
        (value, h, u) \<leftarrow> spl_ptr_heap_delete_top cmp exc (heap this) u;
        (case value of
           None \<Rightarrow> Some (Threw ''Can't extract from an empty heap'', this\<lparr>heap := h\<rparr>, u)
         | Some v \<Rightarrow> Some (case spl_pqueue_extract_helper v (extract_flags this) of
               None \<Rightarrow> Recoverable extract_error | Some out \<Rightarrow> Returned out,
             this\<lparr>heap := log_ref (DelRef v) h\<rparr>, u))
      })"

definition SplPriorityQueue_top ::
  "'v pqueue_node spl_heap_object \<Rightarrow> 'v extracted outcome option" where
  "SplPriorityQueue_top this =
     (if heap_corrupted this then Some (Threw corrupted_message)
      else do {
        value \<leftarrow> spl_ptr_heap_top (heap this);
        Some (case value of
            None \<Rightarrow> Threw ''Can't peek at an empty heap''
          | Some v \<Rightarrow> (case spl_pqueue_extract_helper v (extract_flags this) of
               None \<Rightarrow> Recoverable extract_error | Some out \<Rightarrow> Returned out))
      })"

definition SplPriorityQueue_setExtractFlags ::
  "64 word \<Rightarrow> 'e spl_heap_object \<Rightarrow> uint \<times> 'e spl_heap_object" where
  "SplPriorityQueue_setExtractFlags value this =
     (let flags = ucast (value AND ucast SPL_PQUEUE_EXTR_MASK)
      in (flags, this\<lparr>extract_flags := flags\<rparr>))"

definition SplPriorityQueue_current ::
  "'v pqueue_node spl_heap_object \<Rightarrow> 'v extracted option outcome option" where
  "SplPriorityQueue_current this =
     (if h_count (heap this) = 0 then Some (Returned None)
      else do {
        element \<leftarrow> slot (h_elements (heap this)) 0;
        Some (case spl_pqueue_extract_helper element (extract_flags this) of
            None \<Rightarrow> Recoverable extract_error | Some data \<Rightarrow> Returned (Some data))
      })"

end
