(* ===== verification/Priority_Queue.thy ===== *)
theory Priority_Queue
  imports Zend_Prelude
begin

text \<open>
  The interface of a priority queue: \<open>rep s M\<close> says that the store \<open>s\<close> holds the multiset
  \<open>M\<close>; an extraction takes out some greatest element for \<open>le\<close>, or answers that there is none.
\<close>

datatype 'e pq_op = Insert 'e | Extract

fun run_pq :: "('e \<Rightarrow> 's \<Rightarrow> 's option) \<Rightarrow> ('s \<Rightarrow> ('e option \<times> 's) option) \<Rightarrow> 'e pq_op list \<Rightarrow> 's \<Rightarrow>
    ('e option list \<times> 's) option" where
  "run_pq ins ext [] s = Some ([], s)"
| "run_pq ins ext (Insert x # ops) s = do { s \<leftarrow> ins x s; run_pq ins ext ops s }"
| "run_pq ins ext (Extract # ops) s = do {
     (y, s) \<leftarrow> ext s;
     (ys, s) \<leftarrow> run_pq ins ext ops s;
     Some (y # ys, s)
   }"

text \<open>
  What the answers \<open>ys\<close> to a run of operations on a multiset may be: elements that compare as
  equal may come out in any order.
\<close>

inductive pq_answers :: "('e \<Rightarrow> 'e \<Rightarrow> bool) \<Rightarrow> 'e pq_op list \<Rightarrow> 'e multiset \<Rightarrow> 'e option list \<Rightarrow> 'e multiset \<Rightarrow> bool"
  for le where
  pq_done: "pq_answers le [] M [] M"
| pq_insert: "pq_answers le ops (add_mset x M) ys M' \<Longrightarrow> pq_answers le (Insert x # ops) M ys M'"
| pq_empty: "pq_answers le ops {#} ys M' \<Longrightarrow> pq_answers le (Extract # ops) {#} (None # ys) M'"
| pq_extract: "x \<in># M \<Longrightarrow> (\<And>z. z \<in># M \<Longrightarrow> le z x) \<Longrightarrow> pq_answers le ops (M - {#x#}) ys M' \<Longrightarrow>
    pq_answers le (Extract # ops) M (Some x # ys) M'"

inductive_cases pq_answers_NilE: "pq_answers le [] M ys M'"
inductive_cases pq_answers_ExtractE: "pq_answers le (Extract # ops) M ys M'"
inductive_cases pq_answers_InsertE: "pq_answers le (Insert x # ops) M ys M'"

text \<open>Inserting a list and extracting as many elements sorts it, the greatest first.\<close>

lemma pq_answers_inserts:
  "pq_answers le (map Insert xs @ ops) M ys M' \<longleftrightarrow> pq_answers le ops (mset xs + M) ys M'"
  by (induction xs arbitrary: M) (auto intro: pq_insert elim: pq_answers_InsertE)

lemma pq_answers_drain:
  "pq_answers le (replicate (size M) Extract) M ys M' \<Longrightarrow>
     \<exists>zs. ys = map Some zs \<and> mset zs = M \<and> M' = {#} \<and> sorted_wrt (\<lambda>x y. le y x) zs"
proof (induction "size M" arbitrary: M ys)
  case 0
  then show ?case by (auto elim: pq_answers_NilE)
next
  case (Suc n)
  have d: "pq_answers le (Extract # replicate n Extract) M ys M'" using Suc.prems by (simp flip: Suc.hyps(2))
  from d obtain x ys' where x: "ys = Some x # ys'" "x \<in># M" "\<And>z. z \<in># M \<Longrightarrow> le z x"
    "pq_answers le (replicate n Extract) (M - {#x#}) ys' M'"
    using Suc.hyps(2) by (auto elim: pq_answers_ExtractE)
  have n: "n = size (M - {#x#})" using x(2) Suc.hyps(2) by (simp add: size_Diff_singleton)
  then obtain zs where zs: "ys' = map Some zs" "mset zs = M - {#x#}" "M' = {#}" "sorted_wrt (\<lambda>x y. le y x) zs"
    using Suc.hyps(1) [OF n] x(4) by auto
  have "sorted_wrt (\<lambda>x y. le y x) (x # zs)" using zs(2,4) x(3) by (auto simp flip: set_mset_mset dest: in_diffD)
  then show ?case using x(1,2) zs by (intro exI [of _ "x # zs"]) auto
qed

locale priority_queue =
  fixes rep :: "'s \<Rightarrow> 'e multiset \<Rightarrow> bool"
    and ins :: "'e \<Rightarrow> 's \<Rightarrow> 's option"
    and ext :: "'s \<Rightarrow> ('e option \<times> 's) option"
    and le :: "'e \<Rightarrow> 'e \<Rightarrow> bool"
    and elem :: "'e \<Rightarrow> bool"
    and room :: "nat \<Rightarrow> bool"
  assumes rep_ins: "rep s M \<Longrightarrow> elem x \<Longrightarrow> room (size M) \<Longrightarrow> \<exists>s'. ins x s = Some s' \<and> rep s' (add_mset x M)"
    and rep_ext_empty: "rep s {#} \<Longrightarrow> \<exists>s'. ext s = Some (None, s') \<and> rep s' {#}"
    and rep_ext: "rep s M \<Longrightarrow> M \<noteq> {#} \<Longrightarrow>
      \<exists>x s'. ext s = Some (Some x, s') \<and> x \<in># M \<and> (\<forall>z \<in># M. le z x) \<and> rep s' (M - {#x#})"
begin

lemma run_pq_answers:
  assumes "rep s M" and "\<forall>x. Insert x \<in> set ops \<longrightarrow> elem x" and "\<forall>n < size M + length ops. room n"
  shows "\<exists>ys s' M'. run_pq ins ext ops s = Some (ys, s') \<and> rep s' M' \<and> pq_answers le ops M ys M'"
  using assms
proof (induction ops arbitrary: s M)
  case Nil
  then show ?case by (auto intro: pq_done)
next
  case (Cons op ops)
  show ?case
  proof (cases op)
    case (Insert x)
    obtain k where k: "ins x s = Some k" "rep k (add_mset x M)"
      using rep_ins [OF Cons.prems(1), of x] Cons.prems(2,3) Insert by auto
    obtain ys s' M' where "run_pq ins ext ops k = Some (ys, s')" "rep s' M'" "pq_answers le ops (add_mset x M) ys M'"
      using Cons.IH [OF k(2)] Cons.prems(2,3) by auto
    then show ?thesis using k(1) Insert by (auto intro: pq_insert)
  next
    case Extract
    show ?thesis
    proof (cases "M = {#}")
      case True
      obtain k where k: "ext s = Some (None, k)" "rep k {#}" using rep_ext_empty Cons.prems(1) True by blast
      obtain ys s' M' where "run_pq ins ext ops k = Some (ys, s')" "rep s' M'" "pq_answers le ops {#} ys M'"
        using Cons.IH [OF k(2)] Cons.prems(2,3) True by auto
      then show ?thesis using k(1) Extract True by (auto intro: pq_empty)
    next
      case False
      obtain x k where k: "ext s = Some (Some x, k)" "x \<in># M" "\<forall>z \<in># M. le z x" "rep k (M - {#x#})"
        using rep_ext [OF Cons.prems(1) False] by blast
      have "size (M - {#x#}) + length ops \<le> size M + length (op # ops)" by (simp add: size_Diff_singleton k(2))
      then obtain ys s' M' where r: "run_pq ins ext ops k = Some (ys, s')" "rep s' M'"
        "pq_answers le ops (M - {#x#}) ys M'"
        using Cons.IH [OF k(4)] Cons.prems(2,3) by auto
      then show ?thesis using k Extract pq_extract [OF k(2) _ r(3)] by auto
    qed
  qed
qed

lemma sorts:
  assumes "rep s {#}" and "\<forall>x \<in> set xs. elem x" and "\<forall>n < 2 * length xs. room n"
  shows "\<exists>zs s'. run_pq ins ext (map Insert xs @ replicate (length xs) Extract) s = Some (map Some zs, s') \<and>
    rep s' {#} \<and> mset zs = mset xs \<and> sorted_wrt (\<lambda>x y. le y x) zs"
proof -
  let ?ops = "map Insert xs @ replicate (length xs) (Extract :: 'e pq_op)"
  have "\<forall>x. Insert x \<in> set ?ops \<longrightarrow> elem x" using assms(2) by auto
  then obtain ys s' M' where r: "run_pq ins ext ?ops s = Some (ys, s')" "rep s' M'" "pq_answers le ?ops {#} ys M'"
    using run_pq_answers [OF assms(1), of ?ops] assms(3) by auto
  have "pq_answers le (replicate (size (mset xs)) Extract) (mset xs) ys M'"
    using r(3) by (simp add: pq_answers_inserts)
  from pq_answers_drain [OF this] show ?thesis using r by auto
qed

end

end
