(* ===== verification/Spl_Heap_Correct.thy ===== *)
theory Spl_Heap_Correct
  imports Spl_Heap Priority_Queue Zend_Hash_Sort_Correct
begin

text \<open>
  The heap of \<open>ext/spl/spl_heap.c\<close> keeps its elements whatever the comparison answers; with the
  sign of an order it is a priority queue.

  While an element sinks or rises there is a hole in the array: \<open>hole els n k e ds\<close> says that the
  array of \<open>n\<close> slots holds \<open>ds\<close> once \<open>e\<close> is written at \<open>k\<close>.
\<close>

definition hole :: "'e slots option \<Rightarrow> int \<Rightarrow> nat \<Rightarrow> 'e \<Rightarrow> 'e list \<Rightarrow> bool" where
  "hole els n k e ds \<longleftrightarrow> k < length ds \<and> ds ! k = e \<and>
     (\<exists>els'. set_slot els (int k) (Some e) = Some els' \<and> holds els' n ds)"

lemma holds_Some: "holds els n ds \<Longrightarrow> ds \<noteq> [] \<Longrightarrow> \<exists>xs. els = Some xs"
  by (cases els) (auto simp: holds_def)

lemma nth_of_take: "take m xs = map Some ds \<Longrightarrow> length ds = m \<Longrightarrow> k < m \<Longrightarrow> xs ! k = Some (ds ! k)"
  by (metis length_map nth_map nth_take)

lemma hole_raw:
  "hole (Some xs) n k e ds \<longleftrightarrow> k < length ds \<and> ds ! k = e \<and> length ds \<le> length xs \<and> int (length xs) = n \<and>
     (\<forall>j < length ds. j \<noteq> k \<longrightarrow> xs ! j = Some (ds ! j))"
proof
  assume h: "hole (Some xs) n k e ds"
  then have k: "k < length ds" "ds ! k = e" "k < length xs" "int (length xs) = n" "length ds \<le> length xs"
    "take (length ds) (xs[k := Some e]) = map Some ds"
    by (auto simp: hole_def set_slot_def holds_def split: if_splits)
  have "xs ! j = Some (ds ! j)" if "j < length ds" "j \<noteq> k" for j
    using nth_of_take [OF k(6) refl that(1)] that(2) by simp
  then show "k < length ds \<and> ds ! k = e \<and> length ds \<le> length xs \<and> int (length xs) = n \<and>
     (\<forall>j < length ds. j \<noteq> k \<longrightarrow> xs ! j = Some (ds ! j))" using k by blast
next
  assume r: "k < length ds \<and> ds ! k = e \<and> length ds \<le> length xs \<and> int (length xs) = n \<and>
     (\<forall>j < length ds. j \<noteq> k \<longrightarrow> xs ! j = Some (ds ! j))"
  then have "take (length ds) (xs[k := Some e]) = map Some ds"
    by (intro nth_equalityI) (auto simp: nth_list_update)
  then show "hole (Some xs) n k e ds" using r by (auto simp: hole_def set_slot_def holds_def)
qed

lemma hole_some: "hole els n k e ds \<Longrightarrow> \<exists>xs. els = Some xs"
  by (cases els) (auto simp: hole_def set_slot_def)

lemma hole_read: "hole els n k e ds \<Longrightarrow> j < length ds \<Longrightarrow> j \<noteq> k \<Longrightarrow> slot els (int j) = Some (ds ! j)"
  using hole_some [of els n k e ds] by (auto simp: hole_raw slot_def)

lemma hole_move:
  assumes "hole els n k e ds" and "j < length ds" and "j \<noteq> k"
  shows "\<exists>els'. set_slot els (int k) (Some (ds ! j)) = Some els' \<and> hole els' n j e (ds[k := ds ! j, j := e])"
proof -
  obtain xs where xs: "els = Some xs" using hole_some [OF assms(1)] by blast
  then show ?thesis using assms
    by (intro exI [of _ "Some (xs[k := Some (ds ! j)])"]) (auto simp: hole_raw set_slot_def nth_list_update)
qed

lemma hole_update:
  assumes "holds els n ds" and "k < length ds"
  shows "hole els n k e (ds[k := e])"
proof -
  obtain xs where xs: "els = Some xs" using holds_Some [OF assms(1)] assms(2) by force
  have "\<forall>j < length ds. xs ! j = Some (ds ! j)"
    using assms(1) nth_of_take [OF _ refl] unfolding xs by (auto simp: holds_def)
  then show ?thesis using assms unfolding xs by (auto simp: hole_raw holds_def)
qed

lemma hole_append:
  assumes "holds els n ds" and "int (length ds) < n"
  shows "hole els n (length ds) e (ds @ [e])"
  using holds_set_slot [OF assms] by (auto simp: hole_def)

lemma mset_move: "k < length ds \<Longrightarrow> j < length ds \<Longrightarrow> mset (ds[k := ds ! j, j := ds ! k]) = mset ds"
  by (simp add: mset_swap)

subsection \<open>The order of the heap\<close>

definition heap_upto :: "('e \<Rightarrow> 'e \<Rightarrow> int) \<Rightarrow> 'e list \<Rightarrow> nat \<Rightarrow> bool" where
  "heap_upto f ds m \<longleftrightarrow> (\<forall>k. 0 < k \<longrightarrow> k < m \<longrightarrow> f (ds ! k) (ds ! ((k - 1) div 2)) \<le> 0)"

text \<open>All but the element at \<open>i\<close> and its parent, and its children and its parent.\<close>

definition heap_up :: "('e \<Rightarrow> 'e \<Rightarrow> int) \<Rightarrow> 'e list \<Rightarrow> nat \<Rightarrow> bool" where
  "heap_up f ds i \<longleftrightarrow> (\<forall>k. 0 < k \<longrightarrow> k < length ds \<longrightarrow>
     (k \<noteq> i \<longrightarrow> f (ds ! k) (ds ! ((k - 1) div 2)) \<le> 0) \<and>
     ((k - 1) div 2 = i \<longrightarrow> 0 < i \<longrightarrow> f (ds ! k) (ds ! ((i - 1) div 2)) \<le> 0))"

definition heap_down :: "('e \<Rightarrow> 'e \<Rightarrow> int) \<Rightarrow> 'e list \<Rightarrow> nat \<Rightarrow> nat \<Rightarrow> bool" where
  "heap_down f ds m i \<longleftrightarrow> (\<forall>k. 0 < k \<longrightarrow> k < m \<longrightarrow>
     ((k - 1) div 2 \<noteq> i \<longrightarrow> f (ds ! k) (ds ! ((k - 1) div 2)) \<le> 0) \<and>
     ((k - 1) div 2 = i \<longrightarrow> 0 < i \<longrightarrow> f (ds ! k) (ds ! ((i - 1) div 2)) \<le> 0))"

text \<open>A comparison that only computes.\<close>

definition pure_cmp :: "('e \<Rightarrow> 'e \<Rightarrow> int) \<Rightarrow> ('e, 'u) cmp_func" where
  "pure_cmp f a b u = (f a b, u)"

lemma int_parent: "0 < k \<Longrightarrow> (int k - 1) div 2 = int ((k - 1) div 2)"
  by (simp add: of_nat_diff zdiv_int)

context sign_order
begin

lemma heap_up_step:
  assumes "heap_up compare ds i" and "0 < i" and "i < length ds" and "set ds \<subseteq> A" and "p = (i - 1) div 2"
    and "compare (ds ! p) (ds ! i) < 0"
  shows "heap_up compare (ds[i := ds ! p, p := ds ! i]) p"
proof -
  let ?d = "ds[i := ds ! p, p := ds ! i]"
  have p: "p < i" "p < length ds" using assms by auto
  have inA: "ds ! k \<in> A" if "k < length ds" for k using assms(4) that by auto
  have at: "?d ! k = (if k = p then ds ! i else if k = i then ds ! p else ds ! k)" if "k < length ds" for k
    using that p assms(3) by (auto simp: nth_list_update)
  have h: "compare (ds ! k) (ds ! ((k - 1) div 2)) \<le> 0" if "0 < k" "k < length ds" "k \<noteq> i" for k
    using assms(1) that unfolding heap_up_def by blast
  have c: "compare (ds ! k) (ds ! p) \<le> 0" if "0 < k" "k < length ds" "(k - 1) div 2 = i" for k
    using assms(1,2,5) that unfolding heap_up_def by blast
  have lt: "compare (ds ! p) (ds ! i) \<le> 0" using assms(6) by simp
  show ?thesis unfolding heap_up_def
  proof (intro allI impI conjI)
    fix k assume k: "0 < k" "k < length ?d" "k \<noteq> p"
    then have q: "(k - 1) div 2 < length ds" by auto
    show "compare (?d ! k) (?d ! ((k - 1) div 2)) \<le> 0"
    proof (cases "k = i")
      case True
      then show ?thesis using at [of k] at [of p] p lt assms(5) k by simp
    next
      case ki: False
      consider "(k - 1) div 2 = i" | "(k - 1) div 2 = p" | "(k - 1) div 2 \<noteq> i" "(k - 1) div 2 \<noteq> p" by blast
      then show ?thesis
      proof cases
        case 1
        then show ?thesis using at [of k] at [OF q] c [of k] k ki p by auto
      next
        case 2
        then have "compare (ds ! k) (ds ! i) \<le> 0"
          using trans [of "ds ! k" "ds ! p" "ds ! i"] h [of k] k ki inA p assms(3) lt by auto
        then show ?thesis using at [of k] at [OF q] 2 k ki by simp
      next
        case 3
        then show ?thesis using at [of k] at [OF q] h [of k] k ki by simp
      qed
    qed
  next
    fix k assume k: "0 < k" "k < length ?d" "(k - 1) div 2 = p" "0 < p"
    have pp: "(p - 1) div 2 < p" "(p - 1) div 2 < length ds" using k(4) p by auto
    have g: "compare (ds ! p) (ds ! ((p - 1) div 2)) \<le> 0" using h [of p] k p by auto
    show "compare (?d ! k) (?d ! ((p - 1) div 2)) \<le> 0"
    proof (cases "k = i")
      case True
      then show ?thesis using at [of k] at [OF pp(2)] pp p g k by simp
    next
      case ki: False
      have "k \<noteq> p" using k by auto
      moreover have "compare (ds ! k) (ds ! ((p - 1) div 2)) \<le> 0"
        using trans [of "ds ! k" "ds ! p" "ds ! ((p - 1) div 2)"] h [of k] g k ki inA p pp by auto
      ultimately show ?thesis using at [of k] at [OF pp(2)] pp p k ki by simp
    qed
  qed
qed

lemma heap_up_done:
  assumes "heap_up compare ds i" and "i < length ds" and "set ds \<subseteq> A"
    and "0 < i \<longrightarrow> \<not> compare (ds ! ((i - 1) div 2)) (ds ! i) < 0"
  shows "heap_upto compare ds (length ds)"
  unfolding heap_upto_def
proof (intro allI impI)
  fix k assume k: "0 < k" "k < length ds"
  have "ds ! ((i - 1) div 2) \<in> A" "ds ! i \<in> A" using assms(2,3) by (auto intro!: nth_mem [THEN subsetD [OF assms(3)]])
  then have "compare (ds ! i) (ds ! ((i - 1) div 2)) \<le> 0" if "0 < i"
    using assms(4) that sign [of "ds ! ((i - 1) div 2)" "ds ! i"] by auto
  then show "compare (ds ! k) (ds ! ((k - 1) div 2)) \<le> 0"
    using assms(1) k unfolding heap_up_def by (cases "k = i") auto
qed

lemma heap_down_step:
  assumes "heap_down compare ds m i" and "m \<le> length ds" and "j < m" and "0 < j" and "(j - 1) div 2 = i"
    and "\<forall>k. 0 < k \<longrightarrow> k < m \<longrightarrow> (k - 1) div 2 = i \<longrightarrow> compare (ds ! k) (ds ! j) \<le> 0"
    and "compare (ds ! i) (ds ! j) < 0"
  shows "heap_down compare (ds[i := ds ! j, j := ds ! i]) m j"
proof -
  let ?d = "ds[i := ds ! j, j := ds ! i]"
  have ij: "i < j" "i < length ds" "j < length ds" using assms(2-5) by auto
  have at: "?d ! k = (if k = j then ds ! i else if k = i then ds ! j else ds ! k)" if "k < length ds" for k
    using that ij by (auto simp: nth_list_update)
  have h: "compare (ds ! k) (ds ! ((k - 1) div 2)) \<le> 0" if "0 < k" "k < m" "(k - 1) div 2 \<noteq> i" for k
    using assms(1) that unfolding heap_down_def by blast
  have g: "compare (ds ! j) (ds ! ((i - 1) div 2)) \<le> 0" if "0 < i"
    using assms(1,3,4,5) that unfolding heap_down_def by blast
  show ?thesis unfolding heap_down_def
  proof (intro allI impI conjI)
    fix k assume k: "0 < k" "k < m" "(k - 1) div 2 \<noteq> j"
    then have q: "(k - 1) div 2 < length ds" "k < length ds" "(k - 1) div 2 < k" using assms(2) by auto
    consider "k = i" | "k = j" | "k \<noteq> j" "k \<noteq> i" "(k - 1) div 2 = i" | "k \<noteq> j" "k \<noteq> i" "(k - 1) div 2 \<noteq> i" by blast
    then show "compare (?d ! k) (?d ! ((k - 1) div 2)) \<le> 0"
    proof cases
      case 1
      then show ?thesis using at [OF q(1)] at [OF q(2)] g k ij q(3) by auto
    next
      case 2
      then show ?thesis using at [OF q(1)] at [OF q(2)] assms(5,7) ij by auto
    next
      case 3
      then show ?thesis using at [OF q(1)] at [OF q(2)] assms(6) k ij by auto
    next
      case 4
      then show ?thesis using at [OF q(1)] at [OF q(2)] h [of k] k by auto
    qed
  next
    fix k assume k: "0 < k" "k < m" "(k - 1) div 2 = j" "0 < j"
    have "k < length ds" "k \<noteq> j" "k \<noteq> i" using k assms(2) ij by auto
    moreover have "compare (ds ! k) (ds ! j) \<le> 0" using h [of k] k ij by auto
    ultimately show "compare (?d ! k) (?d ! ((j - 1) div 2)) \<le> 0" using at [of k] at [of i] assms(5) ij by simp
  qed
qed

lemma heap_down_done:
  assumes "heap_down compare ds m i"
    and "\<forall>k. 0 < k \<longrightarrow> k < m \<longrightarrow> (k - 1) div 2 = i \<longrightarrow> compare (ds ! k) (ds ! i) \<le> 0"
  shows "heap_upto compare ds m"
  using assms unfolding heap_down_def heap_upto_def by metis

text \<open>The two cases of the sinking loop, where the larger child may be the stale last slot \<open>m\<close>.\<close>

lemma sink_step:
  assumes "heap_down compare ds m k" and "length ds = Suc m" and "set ds \<subseteq> A" and "ds ! m = ds ! k"
    and j: "j \<le> m" "0 < j" "(j - 1) div 2 = k"
    and "\<forall>i. 0 < i \<longrightarrow> (i - 1) div 2 = k \<longrightarrow> compare (ds ! i) (ds ! j) \<le> 0" and "compare (ds ! k) (ds ! j) < 0"
  shows "heap_down compare (ds[k := ds ! j, j := ds ! k]) m j"
proof -
  have "ds ! k \<in> A" using assms(2,3) j by auto
  then have "j \<noteq> m" using assms(4,9) sign [of "ds ! k" "ds ! k"] by auto
  then show ?thesis using heap_down_step [OF assms(1)] assms(2,8,9) j by simp
qed

lemma sink_done:
  assumes "heap_down compare ds m k" and "length ds = Suc m" and "set ds \<subseteq> A"
    and j: "j \<le> m" "0 < j" "(j - 1) div 2 = k"
    and "\<forall>i. 0 < i \<longrightarrow> (i - 1) div 2 = k \<longrightarrow> compare (ds ! i) (ds ! j) \<le> 0" and "\<not> compare (ds ! k) (ds ! j) < 0"
  shows "heap_upto compare ds m"
proof (rule heap_down_done [OF assms(1)], intro allI impI)
  fix i assume i: "0 < i" "i < m" "(i - 1) div 2 = k"
  have inA: "ds ! i \<in> A" "ds ! j \<in> A" "ds ! k \<in> A" using assms(2,3) i j by auto
  have "compare (ds ! j) (ds ! k) \<le> 0" using assms(8) sign [OF inA(3,2)] by simp
  then show "compare (ds ! i) (ds ! k) \<le> 0" using trans [OF inA(1-3)] assms(7) i by blast
qed

text \<open>The top is a greatest element.\<close>

lemma heap_top:
  assumes "heap_upto compare ds m" and "m \<le> length ds" and "set ds \<subseteq> A" and "k < m"
  shows "compare (ds ! k) (ds ! 0) \<le> 0"
  using assms(4)
proof (induction k rule: less_induct)
  case (less k)
  have inA: "ds ! j \<in> A" if "j < m" for j using assms(2,3) that by auto
  show ?case
  proof (cases "k = 0")
    case True
    then show ?thesis using refl inA less.prems by simp
  next
    case False
    then have p: "(k - 1) div 2 < k" "(k - 1) div 2 < m" using less.prems by auto
    have "compare (ds ! k) (ds ! ((k - 1) div 2)) \<le> 0" using assms(1) False less.prems unfolding heap_upto_def by blast
    then show ?thesis using trans [of "ds ! k" "ds ! ((k - 1) div 2)" "ds ! 0"] less.IH [OF p] inA p less.prems by auto
  qed
qed

end

subsection \<open>The two loops\<close>

lemma sift_up_run:
  assumes "hole els n k e ds"
  shows "\<exists>j els' ds' u'. sift_up cmp e (int k) els u = Some (int j, els', u') \<and> hole els' n j e ds' \<and>
    mset ds' = mset ds \<and>
    (sign_order f A \<longrightarrow> cmp = pure_cmp f \<longrightarrow> set ds \<subseteq> A \<longrightarrow> heap_up f ds k \<longrightarrow> u' = u \<and> heap_upto f ds' (length ds'))"
  using assms
proof (induction k arbitrary: els ds u rule: less_induct)
  case (less k)
  have k: "k < length ds" "ds ! k = e" using less.prems by (auto simp: hole_def)
  show ?case
  proof (cases "k = 0")
    case True
    then have "sift_up cmp e (int k) els u = Some (int k, els, u)" by (simp add: sift_up.simps)
    then show ?thesis using less.prems True k(1) sign_order.heap_up_done [of f A ds 0] by auto
  next
    case False
    let ?p = "(k - 1) div 2"
    have p: "?p < k" "?p < length ds" using False k by auto
    obtain r v where c: "cmp (ds ! ?p) e u = (r, v)" by fastforce
    have s: "sift_up cmp e (int k) els u = (if r < 0 then do {
        els \<leftarrow> set_slot els (int k) (Some (ds ! ?p)); sift_up cmp e (int ?p) els v } else Some (int k, els, v))"
      using False hole_read [OF less.prems p(2)] p c by (simp add: sift_up.simps [of cmp e "int k"] int_parent)
    have pure: "r = f (ds ! ?p) e \<and> v = u" if "cmp = pure_cmp f" using c that by (simp add: pure_cmp_def)
    show ?thesis
    proof (cases "r < 0")
      case True
      let ?d = "ds[k := ds ! ?p, ?p := e]"
      obtain els1 where e1: "set_slot els (int k) (Some (ds ! ?p)) = Some els1" "hole els1 n ?p e ?d"
        using hole_move [OF less.prems p(2)] p by auto
      obtain j els' ds' u' where j: "sift_up cmp e (int ?p) els1 v = Some (int j, els', u')" "hole els' n j e ds'"
        "mset ds' = mset ?d" "sign_order f A \<longrightarrow> cmp = pure_cmp f \<longrightarrow> set ?d \<subseteq> A \<longrightarrow> heap_up f ?d ?p \<longrightarrow>
          u' = v \<and> heap_upto f ds' (length ds')"
        using less.IH [OF p(1) e1(2), of v] by blast
      have m: "mset ?d = mset ds" using mset_move [OF k(1) p(2)] k(2) by simp
      have "set ?d = set ds" using m mset_eq_setD by blast
      then have "sign_order f A \<longrightarrow> cmp = pure_cmp f \<longrightarrow> set ds \<subseteq> A \<longrightarrow> heap_up f ds k \<longrightarrow>
          u' = u \<and> heap_upto f ds' (length ds')"
        using j(4) pure True sign_order.heap_up_step [of f A ds k ?p] False k by auto
      then show ?thesis using s True e1(1) j(1,2,3) m by auto
    next
      case r: False
      have "heap_upto f ds (length ds)" if "sign_order f A" "cmp = pure_cmp f" "set ds \<subseteq> A" "heap_up f ds k"
        using sign_order.heap_up_done [OF that(1,4) k(1) that(3)] pure [OF that(2)] r k(2) by auto
      then show ?thesis using s r less.prems pure by auto
    qed
  qed
qed

lemma sign_order_refl: "sign_order f A \<Longrightarrow> a \<in> A \<Longrightarrow> f a a \<le> 0"
  by (rule compare_order.refl [OF sign_order.axioms(1)])

lemma larger_child_run:
  assumes "hole els n k b ds" and "length ds = Suc m" and "2 * k + 1 < m"
  shows "\<exists>j v. larger_child cmp (int m) (int k * 2 + 1) els u = Some (int j, v) \<and>
    (j = 2 * k + 1 \<or> j = 2 * k + 2) \<and>
    (sign_order f A \<longrightarrow> cmp = pure_cmp f \<longrightarrow> set ds \<subseteq> A \<longrightarrow>
       v = u \<and> f (ds ! (2 * k + 1)) (ds ! j) \<le> 0 \<and> f (ds ! (2 * k + 2)) (ds ! j) \<le> 0)"
proof -
  let ?l = "2 * k + 1" and ?r = "2 * k + 2"
  have rd: "slot els (int ?r) = Some (ds ! ?r)" "slot els (int ?l) = Some (ds ! ?l)"
    by (rule hole_read [OF assms(1)]; use assms(2,3) in simp)+
  obtain r v where c: "cmp (ds ! ?r) (ds ! ?l) u = (r, v)" by fastforce
  have j: "larger_child cmp (int m) (int k * 2 + 1) els u = Some (int (if r > 0 then ?r else ?l), v)"
    using rd c assms(3) by (auto simp: larger_child_def algebra_simps)
  have "v = u \<and> f (ds ! ?l) (ds ! (if r > 0 then ?r else ?l)) \<le> 0 \<and> f (ds ! ?r) (ds ! (if r > 0 then ?r else ?l)) \<le> 0"
    if o: "sign_order f A" "cmp = pure_cmp f" "set ds \<subseteq> A"
  proof -
    have A: "ds ! ?l \<in> A" "ds ! ?r \<in> A" using o(3) assms(2,3) by auto
    then show ?thesis
      using sign_order_refl [OF o(1)] sign_order.sign [OF o(1) A(2,1)] c o(2) by (auto simp: pure_cmp_def)
  qed
  then show ?thesis using j by (intro exI [of _ "if r > 0 then ?r else ?l"] exI [of _ v]) auto
qed

lemma sift_down_run:
  assumes "hole els n k b ds" and "length ds = Suc m" and "ds ! m = b"
  shows "\<exists>j els' ds' u'. sift_down cmp b (int m div 2) (int m) (int k) els u = Some (int j, els', u') \<and>
    hole els' n j b ds' \<and> mset ds' = mset ds \<and> ds' ! m = b \<and>
    (sign_order f A \<longrightarrow> cmp = pure_cmp f \<longrightarrow> set ds \<subseteq> A \<longrightarrow> heap_down f ds m k \<longrightarrow> u' = u \<and> heap_upto f ds' m)"
  using assms
proof (induction "m - k" arbitrary: k els ds u rule: less_induct)
  case (less k els ds u)
  have k: "k < Suc m" "ds ! k = b" using less.prems by (auto simp: hole_def)
  show ?case
  proof (cases "2 * k + 1 < m")
    case leaf: False
    then have "\<not> int k < int m div 2" by auto
    then have "sift_down cmp b (int m div 2) (int m) (int k) els u = Some (int k, els, u)"
      by (simp add: sift_down.simps)
    moreover have "heap_upto f ds m" if "sign_order f A" "heap_down f ds m k"
      by (rule sign_order.heap_down_done [OF that]) (use leaf in auto)
    ultimately show ?thesis using less.prems by blast
  next
    case True
    obtain j v where j: "larger_child cmp (int m) (int k * 2 + 1) els u = Some (int j, v)"
      "j = 2 * k + 1 \<or> j = 2 * k + 2" "sign_order f A \<longrightarrow> cmp = pure_cmp f \<longrightarrow> set ds \<subseteq> A \<longrightarrow>
       v = u \<and> f (ds ! (2 * k + 1)) (ds ! j) \<le> 0 \<and> f (ds ! (2 * k + 2)) (ds ! j) \<le> 0"
      using larger_child_run [OF less.prems(1,2) True, of cmp u f A] by blast
    have jl: "j < length ds" "j \<noteq> k" "k < j" "(j - 1) div 2 = k" "0 < j" using j(2) True less.prems(2) by auto
    obtain r w where c: "cmp b (ds ! j) v = (r, w)" by fastforce
    have lim: "int k < int m div 2" using True by linarith
    have s: "sift_down cmp b (int m div 2) (int m) (int k) els u = (if r < 0 then do {
        els \<leftarrow> set_slot els (int k) (Some (ds ! j)); sift_down cmp b (int m div 2) (int m) (int j) els w }
        else Some (int k, els, w))"
      using lim j(1) hole_read [OF less.prems(1) jl(1,2)] c by (simp add: sift_down.simps [of cmp b "int m div 2" "int m" "int k"])
    have child: "f (ds ! i) (ds ! j) \<le> 0"
      if "sign_order f A" "cmp = pure_cmp f" "set ds \<subseteq> A" "0 < i" "(i - 1) div 2 = k" for i
    proof -
      have "i = 2 * k + 1 \<or> i = 2 * k + 2" using that(4,5) by auto
      then show ?thesis using j(3) that(1-3) by auto
    qed
    show ?thesis
    proof (cases "r < 0")
      case True
      note less_r = True
      let ?d = "ds[k := ds ! j, j := b]"
      obtain els1 where e1: "set_slot els (int k) (Some (ds ! j)) = Some els1" "hole els1 n j b ?d"
        using hole_move [OF less.prems(1) jl(1,2)] by auto
      have d: "length ?d = Suc m" "?d ! m = b" "mset ?d = mset ds"
        using less.prems(2,3) k mset_move [of k ds j] jl by (auto simp: nth_list_update)
      have dec: "m - j < m - k" using jl(1,3) less.prems(2) k(1) by auto
      obtain i els' ds' u' where i: "sift_down cmp b (int m div 2) (int m) (int j) els1 w = Some (int i, els', u')"
        "hole els' n i b ds'" "mset ds' = mset ?d" "ds' ! m = b"
        "sign_order f A \<longrightarrow> cmp = pure_cmp f \<longrightarrow> set ?d \<subseteq> A \<longrightarrow> heap_down f ?d m j \<longrightarrow> u' = w \<and> heap_upto f ds' m"
        using less.hyps [OF dec e1(2) d(1,2), of w] by blast
      have sd: "set ?d = set ds" using d(3) mset_eq_setD by blast
      have "u' = u \<and> heap_upto f ds' m"
        if o: "sign_order f A" "cmp = pure_cmp f" "set ds \<subseteq> A" "heap_down f ds m k"
      proof -
        have "f (ds ! k) (ds ! j) < 0" using c o(2) less_r k(2) by (simp add: pure_cmp_def)
        then have "heap_down f ?d m j"
          using sign_order.sink_step [OF o(1,4) less.prems(2) o(3) _ _ jl(5,4)] child [OF o(1-3)] less.prems(2,3) k(2) jl(1) by simp
        then show ?thesis using i(5) o sd j(3) c by (simp add: pure_cmp_def)
      qed
      then show ?thesis using s less_r e1(1) i(1-4) d(3) by auto
    next
      case ge: False
      have "w = u \<and> heap_upto f ds m"
        if o: "sign_order f A" "cmp = pure_cmp f" "set ds \<subseteq> A" "heap_down f ds m k"
      proof -
        have "\<not> f (ds ! k) (ds ! j) < 0" "w = v" "v = u" using c o(1-3) j(3) ge k(2) by (auto simp: pure_cmp_def)
        then show ?thesis
          using sign_order.sink_done [OF o(1,4) less.prems(2) o(3) _ jl(5,4)] child [OF o(1-3)] jl(1) less.prems(2) by simp
      qed
      then show ?thesis using s ge less.prems by auto
    qed
  qed
qed

subsection \<open>The heap operations\<close>

definition heap_rep :: "'e spl_ptr_heap \<Rightarrow> 'e list \<Rightarrow> bool" where
  "heap_rep h ds \<longleftrightarrow> holds (h_elements h) (h_max_size h) ds \<and> h_count h = int (length ds) \<and>
     0 < h_max_size h \<and> h_max_size h \<le> INT_MAX"

definition heap_room :: "nat \<Rightarrow> bool" where
  "heap_room n \<longleftrightarrow> n < 2 ^ 30"

lemma heap_rep_init: "heap_rep spl_ptr_heap_init []"
  by (simp add: heap_rep_def spl_ptr_heap_init_def holds_def erealloc_def PTR_HEAP_BLOCK_SIZE_def INT_MAX_def)

lemma holds_length: "holds els n ds \<Longrightarrow> int (length ds) \<le> n"
  by (cases els) (auto simp: holds_def)

text \<open>What every operation says of the order, for a comparison that only computes.\<close>

definition ordered_heap :: "('e \<Rightarrow> 'e \<Rightarrow> int) \<Rightarrow> 'e list \<Rightarrow> bool" where
  "ordered_heap f ds \<longleftrightarrow> heap_upto f ds (length ds)"

lemma flag_exception_simps [simp]:
  "h_elements (flag_exception e h) = h_elements h" "h_count (flag_exception e h) = h_count h"
  "h_max_size (flag_exception e h) = h_max_size h" "h_refs (flag_exception e h) = h_refs h"
  "h_flags (flag_exception e h) = (if e then h_flags h OR SPL_HEAP_CORRUPTED else h_flags h)"
  by (simp_all add: flag_exception_def)

lemma log_ref_simps [simp]:
  "h_elements (log_ref r h) = h_elements h" "h_count (log_ref r h) = h_count h"
  "h_max_size (log_ref r h) = h_max_size h" "h_refs (log_ref r h) = h_refs h @ [r]"
  "h_flags (log_ref r h) = h_flags h"
  by (simp_all add: log_ref_def)

lemma heap_rep_log [simp]: "heap_rep (log_ref r h) ds \<longleftrightarrow> heap_rep h ds"
  by (simp add: heap_rep_def)

lemma insert_grow:
  assumes "heap_rep h ds" and "heap_room (length ds)"
  shows "\<exists>h'. (if h_count h + 1 > h_max_size h then do {
            m \<leftarrow> c_int (h_max_size h * 2);
            Some (h\<lparr>h_elements := erealloc (h_elements h) m, h_max_size := m\<rparr>)
          } else Some h) = Some h' \<and> heap_rep h' ds \<and> int (length ds) < h_max_size h' \<and>
      h_refs h' = h_refs h \<and> h_flags h' = h_flags h"
proof (cases "h_count h + 1 > h_max_size h")
  case True
  have h: "holds (h_elements h) (h_max_size h) ds" "h_count h = int (length ds)" "0 < h_max_size h"
    using assms(1) by (auto simp: heap_rep_def)
  then have m: "h_max_size h = int (length ds)" using holds_length [OF h(1)] True by simp
  then have c: "c_int (h_max_size h * 2) = Some (h_max_size h * 2)"
    using assms(2) h(3) by (simp add: heap_room_def INT_MAX_def)
  moreover have "holds (erealloc (h_elements h) (h_max_size h * 2)) (h_max_size h * 2) ds"
    using holds_erealloc [OF h(1)] h(3) by simp
  ultimately show ?thesis using True h m assms(2)
    by (simp add: heap_rep_def heap_room_def INT_MAX_def)
next
  case False
  then show ?thesis using assms by (auto simp: heap_rep_def)
qed

lemma heap_up_append:
  assumes "ordered_heap f ds" shows "heap_up f (ds @ [e]) (length ds)"
  unfolding heap_up_def
proof (intro allI impI conjI)
  fix k assume k: "0 < k" "k < length (ds @ [e])" "k \<noteq> length ds"
  then have "k < length ds" "(k - 1) div 2 < length ds" by auto
  then show "f ((ds @ [e]) ! k) ((ds @ [e]) ! ((k - 1) div 2)) \<le> 0"
    using assms k(1) by (simp add: ordered_heap_def heap_upto_def nth_append)
next
  fix k assume k: "0 < k" "k < length (ds @ [e])" "(k - 1) div 2 = length ds"
  then show "f ((ds @ [e]) ! k) ((ds @ [e]) ! ((length ds - 1) div 2)) \<le> 0" by auto
qed

lemma heap_insert_run:
  assumes "heap_rep h ds" and "heap_room (length ds)"
  shows "\<exists>h' ds' u'. spl_ptr_heap_insert cmp exc e h u = Some (h', u') \<and> heap_rep h' ds' \<and>
    mset ds' = add_mset e (mset ds) \<and> h_refs h' = h_refs h @ [AddRef e] \<and>
    h_flags h' = (if exc u' then h_flags h OR SPL_HEAP_CORRUPTED else h_flags h) \<and>
    (sign_order f A \<longrightarrow> cmp = pure_cmp f \<longrightarrow> set (e # ds) \<subseteq> A \<longrightarrow> ordered_heap f ds \<longrightarrow> u' = u \<and> ordered_heap f ds')"
proof -
  obtain g where g: "(if h_count h + 1 > h_max_size h then do {
            m \<leftarrow> c_int (h_max_size h * 2);
            Some (h\<lparr>h_elements := erealloc (h_elements h) m, h_max_size := m\<rparr>)
          } else Some h) = Some g" "heap_rep g ds" "int (length ds) < h_max_size g"
      "h_refs g = h_refs h" "h_flags g = h_flags h"
    using insert_grow [OF assms] by blast
  have r: "holds (h_elements g) (h_max_size g) ds" "h_count g = int (length ds)" "0 < h_max_size g" "h_max_size g \<le> INT_MAX"
    using g(2) by (auto simp: heap_rep_def)
  have c: "c_int (h_count g + 1) = Some (int (length ds) + 1)"
    using assms(2) r(2) by (simp add: heap_room_def INT_MAX_def)
  obtain j els ds' u' where j: "sift_up cmp e (h_count g) (h_elements g) u = Some (int j, els, u')"
    "hole els (h_max_size g) j e ds'" "mset ds' = mset (ds @ [e])"
    "sign_order f A \<longrightarrow> cmp = pure_cmp f \<longrightarrow> set (ds @ [e]) \<subseteq> A \<longrightarrow> heap_up f (ds @ [e]) (length ds) \<longrightarrow>
      u' = u \<and> heap_upto f ds' (length ds')"
    using sift_up_run [OF hole_append [OF r(1) g(3)], of cmp e u f A] unfolding r(2) by blast
  obtain els' where e: "set_slot els (int j) (Some e) = Some els'" "holds els' (h_max_size g) ds'"
    using j(2) by (auto simp: hole_def)
  have l: "length ds' = Suc (length ds)" using mset_eq_length [OF j(3)] by simp
  let ?h = "flag_exception (exc u') ((log_ref (AddRef e) g)\<lparr>h_elements := els', h_count := int (length ds) + 1\<rparr>)"
  have "spl_ptr_heap_insert cmp exc e h u = Some (?h, u')"
    using g(1) c j(1) e(1) by (simp add: spl_ptr_heap_insert_def Let_def del: of_nat_Suc)
  moreover have "heap_rep ?h ds'" using e(2) l r(3,4) by (simp add: heap_rep_def)
  moreover have "sign_order f A \<longrightarrow> cmp = pure_cmp f \<longrightarrow> set (e # ds) \<subseteq> A \<longrightarrow> ordered_heap f ds \<longrightarrow> u' = u \<and> ordered_heap f ds'"
    using j(4) heap_up_append [of f ds e] by (simp add: ordered_heap_def)
  ultimately show ?thesis using g(4,5) j(3) by auto
qed

lemma delete_top_empty: "heap_rep h [] \<Longrightarrow> spl_ptr_heap_delete_top cmp exc h u = Some (None, h, u)"
  by (simp add: spl_ptr_heap_delete_top_def heap_rep_def)

lemma heap_down_top:
  assumes "ordered_heap f ds" and "length ds = Suc m"
  shows "heap_down f (ds[0 := b]) m 0"
  unfolding heap_down_def
proof (intro allI impI conjI)
  fix k assume k: "0 < k" "k < m" "(k - 1) div 2 \<noteq> 0"
  then show "f (ds[0 := b] ! k) (ds[0 := b] ! ((k - 1) div 2)) \<le> 0"
    using assms by (simp add: ordered_heap_def heap_upto_def)
qed auto

lemma delete_top_run:
  assumes "heap_rep h ds" and "ds \<noteq> []"
  shows "\<exists>h' ds' u'. spl_ptr_heap_delete_top cmp exc h u = Some (Some (ds ! 0), h', u') \<and> heap_rep h' ds' \<and>
    mset ds = add_mset (ds ! 0) (mset ds') \<and> h_refs h' = h_refs h @ [DelRef (ds ! 0)] \<and>
    h_flags h' = (if exc u' then h_flags h OR SPL_HEAP_CORRUPTED else h_flags h) \<and>
    (sign_order f A \<longrightarrow> cmp = pure_cmp f \<longrightarrow> set ds \<subseteq> A \<longrightarrow> ordered_heap f ds \<longrightarrow> u' = u \<and> ordered_heap f ds')"
proof -
  obtain m where m: "length ds = Suc m" using assms(2) by (cases ds) auto
  let ?b = "ds ! m" and ?L = "ds[0 := ds ! m]"
  have r: "holds (h_elements h) (h_max_size h) ds" "h_count h = int (Suc m)" "0 < h_max_size h" "h_max_size h \<le> INT_MAX"
    using assms(1) m by (auto simp: heap_rep_def)
  have s: "slot (h_elements h) 0 = Some (ds ! 0)" "slot (h_elements h) (int m) = Some ?b"
    using holds_slot [OF r(1), of 0] holds_slot [OF r(1), of m] m by auto
  have L: "length ?L = Suc m" "?L ! m = ?b" using m by (auto simp: nth_list_update)
  have h0: "hole (h_elements h) (h_max_size h) 0 ?b ?L" using hole_update [OF r(1), of 0] m by simp
  obtain j els L' u' where j: "sift_down cmp ?b (int m div 2) (int m) (int 0) (h_elements h) u = Some (int j, els, u')"
    "hole els (h_max_size h) j ?b L'" "mset L' = mset ?L" "L' ! m = ?b"
    "sign_order f A \<longrightarrow> cmp = pure_cmp f \<longrightarrow> set ?L \<subseteq> A \<longrightarrow> heap_down f ?L m 0 \<longrightarrow> u' = u \<and> heap_upto f L' m"
    using sift_down_run [OF h0 L, of cmp u f A] by blast
  obtain els' where e: "set_slot els (int j) (Some ?b) = Some els'" "holds els' (h_max_size h) L'"
    using j(2) by (auto simp: hole_def)
  have l: "length L' = Suc m" using mset_eq_length [OF j(3)] L(1) by simp
  then have spl: "L' = butlast L' @ [?b]" using j(4) by (metis append_butlast_last_id diff_Suc_1 last_conv_nth length_0_conv nat.distinct(1))
  let ?h = "log_ref (DelRef (ds ! 0)) (flag_exception (exc u') (h\<lparr>h_elements := els', h_count := int m\<rparr>))"
  have "spl_ptr_heap_delete_top cmp exc h u = Some (Some (ds ! 0), ?h, u')"
    using r(2) s j(1) e(1) by (simp add: spl_ptr_heap_delete_top_def Let_def)
  moreover have "heap_rep ?h (butlast L')" using holds_butlast [of els' "h_max_size h" "butlast L'" ?b] e(2) spl l r(3,4)
    by (simp add: heap_rep_def)
  moreover have "mset ds = add_mset (ds ! 0) (mset (butlast L'))"
  proof -
    have "mset L' = add_mset ?b (mset (butlast L'))" by (subst spl) simp
    moreover have "mset ?L = add_mset ?b (mset ds - {#ds ! 0#})" using m by (simp add: mset_update)
    ultimately have "mset (butlast L') = mset ds - {#ds ! 0#}" using j(3) by simp
    then show ?thesis using m by simp
  qed
  moreover have "u' = u \<and> ordered_heap f (butlast L')" if o: "sign_order f A" "cmp = pure_cmp f" "set ds \<subseteq> A" "ordered_heap f ds"
  proof -
    have "set ?L \<subseteq> A" using o(3) m set_update_subset_insert [of ds 0 ?b] nth_mem [of m ds] by fastforce
    then have "u' = u \<and> heap_upto f L' m" using j(5) o heap_down_top [OF o(4) m] by blast
    then show ?thesis using l by (auto simp: ordered_heap_def heap_upto_def nth_butlast)
  qed
  ultimately show ?thesis by auto
qed

end
