(* ===== verification/Spl_Heap_Props.thy ===== *)
theory Spl_Heap_Props
  imports Spl_Heap_Correct
begin

unbundle bit_operations_syntax

text \<open>
  The methods of the heap classes: references, corruption, and the classes as priority queues.
\<close>

text \<open>References taken less references given up.\<close>

fun ref_change :: "'e \<Rightarrow> 'e ref_event \<Rightarrow> int" where
  "ref_change e (AddRef x) = (if x = e then 1 else 0)"
| "ref_change e (DelRef x) = (if x = e then - 1 else 0)"

definition ref_balance :: "'e ref_event list \<Rightarrow> 'e \<Rightarrow> int" where
  "ref_balance rs e = (\<Sum>r \<leftarrow> rs. ref_change e r)"

lemma ref_balance_simps [simp]:
  "ref_balance [] e = 0" "ref_balance (rs @ rs') e = ref_balance rs e + ref_balance rs' e"
  "ref_balance [r] e = ref_change e r"
  "ref_balance (r # rs) e = ref_change e r + ref_balance rs e"
  by (simp_all add: ref_balance_def)

lemma ref_balance_lists [simp]:
  "ref_balance (map AddRef es) e = int (count (mset es) e)"
  "ref_balance (map DelRef es) e = - int (count (mset es) e)"
  by (induction es) auto

text \<open>An object of the classes holds the multiset \<open>M\<close>, two references to each element.\<close>

definition object_holds :: "'e spl_heap_object \<Rightarrow> 'e list \<Rightarrow> bool" where
  "object_holds this ds \<longleftrightarrow> heap_rep (heap this) ds \<and>
     (\<forall>e. ref_balance (h_refs (heap this)) e = 2 * int (count (mset ds) e))"

lemma corrupted_flag [simp]: "SPL_HEAP_CORRUPTED \<noteq> 0"
  by (simp add: SPL_HEAP_CORRUPTED_def)

lemma insert_object:
  assumes "object_holds this ds" and "heap_room (length ds)" and "\<not> heap_corrupted this"
  shows "\<exists>this' ds' u'. SplHeap_insert cmp exc e this u = Some (Returned True, this', u') \<and> object_holds this' ds' \<and>
    mset ds' = add_mset e (mset ds) \<and> (heap_corrupted this' \<longleftrightarrow> exc u') \<and> extract_flags this' = extract_flags this \<and>
    (sign_order f A \<longrightarrow> cmp = pure_cmp f \<longrightarrow> set (e # ds) \<subseteq> A \<longrightarrow> ordered_heap f ds \<longrightarrow> u' = u \<and> ordered_heap f ds')"
proof -
  have r: "heap_rep (log_ref (AddRef e) (heap this)) ds" using assms(1) by (simp add: object_holds_def)
  obtain h' ds' u' where i: "spl_ptr_heap_insert cmp exc e (log_ref (AddRef e) (heap this)) u = Some (h', u')"
    "heap_rep h' ds'" "mset ds' = add_mset e (mset ds)" "h_refs h' = h_refs (log_ref (AddRef e) (heap this)) @ [AddRef e]"
    "h_flags h' = (if exc u' then h_flags (log_ref (AddRef e) (heap this)) OR SPL_HEAP_CORRUPTED
       else h_flags (log_ref (AddRef e) (heap this)))"
    "sign_order f A \<longrightarrow> cmp = pure_cmp f \<longrightarrow> set (e # ds) \<subseteq> A \<longrightarrow> ordered_heap f ds \<longrightarrow> u' = u \<and> ordered_heap f ds'"
    using heap_insert_run [OF r assms(2), of cmp exc e u f A] by blast
  let ?t = "this\<lparr>heap := h'\<rparr>"
  have "SplHeap_insert cmp exc e this u = Some (Returned True, ?t, u')"
    using assms(3) i(1) by (simp add: SplHeap_insert_def)
  moreover have "object_holds ?t ds'" using assms(1) i(2,3,4) by (auto simp: object_holds_def)
  moreover have "heap_corrupted ?t \<longleftrightarrow> exc u'" using assms(3) i(5) by (auto simp: heap_corrupted_def)
  moreover have "extract_flags ?t = extract_flags this" by simp
  ultimately show ?thesis using i(3,6) by blast
qed

lemma delete_object:
  assumes "object_holds this ds" and "ds \<noteq> []"
  shows "\<exists>h' ds' u'. spl_ptr_heap_delete_top cmp exc (heap this) u = Some (Some (ds ! 0), h', u') \<and>
    object_holds (this\<lparr>heap := log_ref (DelRef (ds ! 0)) h'\<rparr>) ds' \<and> mset ds = add_mset (ds ! 0) (mset ds') \<and>
    h_flags h' = (if exc u' then h_flags (heap this) OR SPL_HEAP_CORRUPTED else h_flags (heap this)) \<and>
    (sign_order f A \<longrightarrow> cmp = pure_cmp f \<longrightarrow> set ds \<subseteq> A \<longrightarrow> ordered_heap f ds \<longrightarrow> u' = u \<and> ordered_heap f ds')"
proof -
  have r: "heap_rep (heap this) ds" using assms(1) by (simp add: object_holds_def)
  obtain h' ds' u' where i: "spl_ptr_heap_delete_top cmp exc (heap this) u = Some (Some (ds ! 0), h', u')"
    "heap_rep h' ds'" "mset ds = add_mset (ds ! 0) (mset ds')" "h_refs h' = h_refs (heap this) @ [DelRef (ds ! 0)]"
    "h_flags h' = (if exc u' then h_flags (heap this) OR SPL_HEAP_CORRUPTED else h_flags (heap this))"
    "sign_order f A \<longrightarrow> cmp = pure_cmp f \<longrightarrow> set ds \<subseteq> A \<longrightarrow> ordered_heap f ds \<longrightarrow> u' = u \<and> ordered_heap f ds'"
    using delete_top_run [OF r assms(2), of cmp exc u f A] by blast
  have "object_holds (this\<lparr>heap := log_ref (DelRef (ds ! 0)) h'\<rparr>) ds'"
    using assms(1) i(2,4) by (auto simp: object_holds_def i(3))
  then show ?thesis using i(1,3,5,6) by blast
qed

lemma extract_object:
  assumes "object_holds this ds" and "ds \<noteq> []" and "\<not> heap_corrupted this"
  shows "\<exists>this' ds' u'. SplHeap_extract cmp exc this u = Some (Returned (ds ! 0), this', u') \<and> object_holds this' ds' \<and>
    mset ds = add_mset (ds ! 0) (mset ds') \<and> (heap_corrupted this' \<longleftrightarrow> exc u') \<and> extract_flags this' = extract_flags this \<and>
    (sign_order f A \<longrightarrow> cmp = pure_cmp f \<longrightarrow> set ds \<subseteq> A \<longrightarrow> ordered_heap f ds \<longrightarrow> u' = u \<and> ordered_heap f ds')"
proof -
  obtain h' ds' u' where d: "spl_ptr_heap_delete_top cmp exc (heap this) u = Some (Some (ds ! 0), h', u')"
    "object_holds (this\<lparr>heap := log_ref (DelRef (ds ! 0)) h'\<rparr>) ds'" "mset ds = add_mset (ds ! 0) (mset ds')"
    "h_flags h' = (if exc u' then h_flags (heap this) OR SPL_HEAP_CORRUPTED else h_flags (heap this))"
    "sign_order f A \<longrightarrow> cmp = pure_cmp f \<longrightarrow> set ds \<subseteq> A \<longrightarrow> ordered_heap f ds \<longrightarrow> u' = u \<and> ordered_heap f ds'"
    using delete_object [OF assms(1,2), of cmp exc u f A] by blast
  let ?t = "this\<lparr>heap := log_ref (DelRef (ds ! 0)) h'\<rparr>"
  have "SplHeap_extract cmp exc this u = Some (Returned (ds ! 0), ?t, u')"
    using assms(3) d(1) by (simp add: SplHeap_extract_def)
  moreover have "heap_corrupted ?t \<longleftrightarrow> exc u'" using assms(3) d(4) by (auto simp: heap_corrupted_def)
  moreover have "extract_flags ?t = extract_flags this" by simp
  ultimately show ?thesis using d(2,3,5) by blast
qed

lemma extract_object_empty:
  assumes "object_holds this []" and "\<not> heap_corrupted this"
  shows "SplHeap_extract cmp exc this u = Some (Threw ''Can't extract from an empty heap'', this, u)"
  using assms delete_top_empty [of "heap this" cmp exc u] by (simp add: SplHeap_extract_def object_holds_def)

lemma corrupted_object_throws:
  assumes "heap_corrupted this"
  shows "SplHeap_insert cmp exc e this u = Some (Threw corrupted_message, this, u)"
    "SplHeap_extract cmp exc this u = Some (Threw corrupted_message, this, u)"
  using assms by (simp_all add: SplHeap_insert_def SplHeap_extract_def)

lemma read_elements_run: "holds els n ds \<Longrightarrow> m \<le> length ds \<Longrightarrow> read_elements els m = Some (take m ds)"
proof (induction m)
  case (Suc m)
  then show ?case using holds_slot [OF Suc.prems(1), of m] by (simp add: take_Suc_conv_app_nth)
qed simp

lemma read_object: "heap_rep h ds \<Longrightarrow> read_elements (h_elements h) (nat (h_count h)) = Some ds"
  using read_elements_run [of "h_elements h" "h_max_size h" ds "length ds"] by (simp add: heap_rep_def)

lemma free_object:
  assumes "object_holds this ds"
  shows "\<exists>this'. spl_heap_object_free_storage this = Some this' \<and> (\<forall>x. ref_balance (h_refs (heap this')) x = 0)"
proof -
  have r: "read_elements (h_elements (heap this)) (nat (h_count (heap this))) = Some ds"
    using assms read_object by (auto simp: object_holds_def)
  have b: "ref_balance (h_refs (heap this)) x = 2 * int (count (mset ds) x)" for x
    using assms by (simp add: object_holds_def)
  let ?h = "(heap this)\<lparr>h_elements := None, h_refs := (h_refs (heap this) @ map DelRef ds) @ map DelRef ds\<rparr>"
  have "spl_heap_object_free_storage this = Some (this\<lparr>heap := ?h\<rparr>)"
    by (simp add: spl_heap_object_free_storage_def spl_ptr_heap_destroy_def r)
  then show ?thesis by (simp add: b)
qed

subsection \<open>As priority queues\<close>

text \<open>The comparisons of the built-in classes only compute, as long as nothing throws.\<close>

lemma built_in_cmp:
  "spl_ptr_heap_zval_max_cmp compare_function None (\<lambda>_. False) = pure_cmp (\<lambda>a b. to_int (compare_function a b))"
  "spl_ptr_heap_zval_min_cmp compare_function None (\<lambda>_. False) = pure_cmp (\<lambda>a b. to_int (compare_function b a))"
  by (intro ext, simp add: spl_ptr_heap_zval_max_cmp_def spl_ptr_heap_zval_min_cmp_def pure_cmp_def)+

text \<open>\<open>insert\<close> and \<open>extract\<close> as operations of a store.\<close>

definition heap_put :: "('e, unit) cmp_func \<Rightarrow> 'e \<Rightarrow> 'e spl_heap_object \<Rightarrow> 'e spl_heap_object option" where
  "heap_put cmp e this = map_option (\<lambda>(_, t, _). t) (SplHeap_insert cmp (\<lambda>_. False) e this ())"

definition heap_take :: "('e, unit) cmp_func \<Rightarrow> 'e spl_heap_object \<Rightarrow> ('e option \<times> 'e spl_heap_object) option" where
  "heap_take cmp this = map_option (\<lambda>(r, t, _). (case r of Returned x \<Rightarrow> Some x | _ \<Rightarrow> None, t))
     (SplHeap_extract cmp (\<lambda>_. False) this ())"

definition queue_rep :: "('e \<Rightarrow> 'e \<Rightarrow> int) \<Rightarrow> 'e set \<Rightarrow> 'e spl_heap_object \<Rightarrow> 'e multiset \<Rightarrow> bool" where
  "queue_rep f A this M \<longleftrightarrow> \<not> heap_corrupted this \<and> set_mset M \<subseteq> A \<and>
     (\<exists>ds. object_holds this ds \<and> mset ds = M \<and> ordered_heap f ds)"

lemma new_object: "object_holds (spl_heap_object_new fl) []" "\<not> heap_corrupted (spl_heap_object_new fl)"
  using heap_rep_init by (auto simp: object_holds_def spl_heap_object_new_def heap_corrupted_def spl_ptr_heap_init_def)

lemma queue_rep_new: "queue_rep f A (spl_heap_object_new fl) {#}"
  using new_object by (auto simp: queue_rep_def ordered_heap_def heap_upto_def intro!: exI [of _ "[]"])

lemma queue_put:
  assumes "sign_order f A" and "queue_rep f A this M" and "x \<in> A" and "heap_room (size M)"
  shows "\<exists>t. heap_put (pure_cmp f) x this = Some t \<and> queue_rep f A t (add_mset x M)"
proof -
  obtain ds where ds: "object_holds this ds" "mset ds = M" "ordered_heap f ds" "\<not> heap_corrupted this" "set ds \<subseteq> A"
    using assms(2) by (auto simp: queue_rep_def)
  have room: "heap_room (length ds)" using assms(4) ds(2) by auto
  obtain t ds' where t: "SplHeap_insert (pure_cmp f) (\<lambda>_. False) x this () = Some (Returned True, t, ())"
    "object_holds t ds'" "mset ds' = add_mset x (mset ds)" "\<not> heap_corrupted t"
    "sign_order f A \<longrightarrow> set (x # ds) \<subseteq> A \<longrightarrow> ordered_heap f ds \<longrightarrow> ordered_heap f ds'"
    using insert_object [OF ds(1) room ds(4), of "pure_cmp f" "\<lambda>_. False" x "()" f A] by auto
  have "ordered_heap f ds'" using t(5) assms(1,3) ds(3,5) by simp
  moreover have "heap_put (pure_cmp f) x this = Some t" using t(1) by (simp add: heap_put_def)
  moreover have "mset ds' = add_mset x M" using t(3) ds(2) by simp
  moreover have "set_mset (add_mset x M) \<subseteq> A" using assms(3) ds(2,5) by auto
  ultimately show ?thesis using t(2,4) unfolding queue_rep_def by blast
qed

lemma queue_take:
  assumes "sign_order f A" and "queue_rep f A this M" and "M \<noteq> {#}"
  shows "\<exists>x t. heap_take (pure_cmp f) this = Some (Some x, t) \<and> x \<in># M \<and> (\<forall>z \<in># M. f z x \<le> 0) \<and>
    queue_rep f A t (M - {#x#})"
proof -
  obtain ds where ds: "object_holds this ds" "mset ds = M" "ordered_heap f ds" "\<not> heap_corrupted this" "set ds \<subseteq> A"
    using assms(2) by (auto simp: queue_rep_def)
  have ne: "ds \<noteq> []" using assms(3) ds(2) by auto
  obtain t ds' where t: "SplHeap_extract (pure_cmp f) (\<lambda>_. False) this () = Some (Returned (ds ! 0), t, ())"
    "object_holds t ds'" "mset ds = add_mset (ds ! 0) (mset ds')" "\<not> heap_corrupted t"
    "sign_order f A \<longrightarrow> set ds \<subseteq> A \<longrightarrow> ordered_heap f ds \<longrightarrow> ordered_heap f ds'"
    using extract_object [OF ds(1) ne ds(4), of "pure_cmp f" "\<lambda>_. False" "()" f A] by auto
  have o: "ordered_heap f ds'" using t(5) assms(1) ds(3,5) by simp
  have top: "f z (ds ! 0) \<le> 0" if "z \<in># M" for z
  proof -
    have "z \<in> set ds" using that ds(2) by auto
    then obtain k where "k < length ds" "z = ds ! k" by (auto simp: in_set_conv_nth)
    then show ?thesis using sign_order.heap_top [OF assms(1), of ds "length ds" k] ds(3,5) by (simp add: ordered_heap_def)
  qed
  have M: "M = add_mset (ds ! 0) (mset ds')" using t(3) ds(2) by simp
  have "set ds' \<subseteq> A" using mset_eq_setD [of ds "ds ! 0 # ds'"] t(3) ds(5) by auto
  then have "queue_rep f A t (M - {#ds ! 0#})" using t(2,4) o M by (auto simp: queue_rep_def)
  then show ?thesis using t(1) top M by (auto simp: heap_take_def)
qed

lemma queue_take_empty:
  assumes "queue_rep f A this {#}"
  shows "heap_take cmp this = Some (None, this)"
  using assms extract_object_empty [of this cmp "\<lambda>_. False" "()"] by (auto simp: queue_rep_def heap_take_def)

lemma queue_store:
  assumes "sign_order f A"
  shows "priority_queue (queue_rep f A) (heap_put (pure_cmp f)) (heap_take (pure_cmp f)) (\<lambda>x y. f x y \<le> 0) (\<lambda>x. x \<in> A) heap_room"
  by unfold_locales
    (use queue_put [OF assms] queue_take [OF assms] queue_take_empty in blast)+

sublocale sign_order \<subseteq> spl: priority_queue "queue_rep compare A" "heap_put (pure_cmp compare)"
  "heap_take (pure_cmp compare)" "\<lambda>x y. compare x y \<le> 0" "\<lambda>x. x \<in> A" heap_room
  by (rule queue_store [OF sign_order_axioms])

lemma queue_runs:
  assumes "sign_order f A" and "\<forall>x. Insert x \<in> set ops \<longrightarrow> x \<in> A" and "length ops < 2 ^ 30"
  shows "\<exists>ys this' M. run_pq (heap_put (pure_cmp f)) (heap_take (pure_cmp f)) ops (spl_heap_object_new fl) = Some (ys, this') \<and>
    pq_answers (\<lambda>x y. f x y \<le> 0) ops {#} ys M \<and> SplHeap_count this' = int (size M)"
proof -
  have room: "\<forall>n < size {#} + length ops. heap_room n" using assms(3) by (auto simp: heap_room_def)
  obtain ys this' M where r: "run_pq (heap_put (pure_cmp f)) (heap_take (pure_cmp f)) ops (spl_heap_object_new fl) = Some (ys, this')"
    "queue_rep f A this' M" "pq_answers (\<lambda>x y. f x y \<le> 0) ops {#} ys M"
    using priority_queue.run_pq_answers [OF queue_store [OF assms(1)] queue_rep_new assms(2) room] by blast
  have "SplHeap_count this' = int (size M)"
    using r(2) by (auto simp: queue_rep_def object_holds_def heap_rep_def SplHeap_count_def spl_ptr_heap_count_def)
  then show ?thesis using r by blast
qed

text \<open>
  Two longs as \<open>compare_function\<close> orders them (\<open>TYPE_PAIR(IS_LONG, IS_LONG)\<close>), and the heaps
  of longs.
\<close>

definition compare_longs :: "int \<Rightarrow> int \<Rightarrow> int" where
  "compare_longs a b = (if a > b then 1 else if a < b then - 1 else 0)"

interpretation max_longs: sign_order compare_longs UNIV
  by unfold_locales (auto simp: compare_longs_def split: if_splits)

interpretation min_longs: sign_order "\<lambda>a b. compare_longs b a" UNIV
  by unfold_locales (auto simp: compare_longs_def split: if_splits)

lemma long_heap_cmp:
  "spl_ptr_heap_zval_max_cmp compare_longs None (\<lambda>_. False) = pure_cmp compare_longs"
  "spl_ptr_heap_zval_min_cmp compare_longs None (\<lambda>_. False) = pure_cmp (\<lambda>a b. compare_longs b a)"
  unfolding built_in_cmp by (intro arg_cong [of _ _ pure_cmp] ext, simp add: compare_longs_def to_int_id)+

subsection \<open>Properties\<close>

text \<open>
  C15: whatever the comparison answers, and whenever it throws, \<open>insert\<close> and \<open>extract\<close> stay
  inside the array, keep every element, hold two references to each, and mark the heap as corrupted
  exactly when an exception is pending; a corrupted heap is left alone, and freeing the object gives
  all references up.
\<close>

theorem spl_heap_keeps_elements:
  assumes "object_holds this ds" and "heap_room (length ds)"
  shows "(if heap_corrupted this
      then SplHeap_insert cmp exc e this u = Some (Threw corrupted_message, this, u) \<and>
        SplHeap_extract cmp exc this u = Some (Threw corrupted_message, this, u)
      else (\<exists>this' ds' u'. SplHeap_insert cmp exc e this u = Some (Returned True, this', u') \<and>
          object_holds this' ds' \<and> mset ds' = add_mset e (mset ds) \<and> (heap_corrupted this' \<longleftrightarrow> exc u')) \<and>
        (if ds = [] then SplHeap_extract cmp exc this u = Some (Threw ''Can't extract from an empty heap'', this, u)
         else \<exists>this' ds' u'. SplHeap_extract cmp exc this u = Some (Returned (ds ! 0), this', u') \<and>
           object_holds this' ds' \<and> mset ds = add_mset (ds ! 0) (mset ds') \<and> (heap_corrupted this' \<longleftrightarrow> exc u'))) \<and>
    (\<exists>this'. spl_heap_object_free_storage this = Some this' \<and> (\<forall>x. ref_balance (h_refs (heap this')) x = 0))"
proof (intro conjI)
  show "\<exists>this'. spl_heap_object_free_storage this = Some this' \<and> (\<forall>x. ref_balance (h_refs (heap this')) x = 0)"
    by (rule free_object [OF assms(1)])
next
  show "if heap_corrupted this
      then SplHeap_insert cmp exc e this u = Some (Threw corrupted_message, this, u) \<and>
        SplHeap_extract cmp exc this u = Some (Threw corrupted_message, this, u)
      else (\<exists>this' ds' u'. SplHeap_insert cmp exc e this u = Some (Returned True, this', u') \<and>
          object_holds this' ds' \<and> mset ds' = add_mset e (mset ds) \<and> (heap_corrupted this' \<longleftrightarrow> exc u')) \<and>
        (if ds = [] then SplHeap_extract cmp exc this u = Some (Threw ''Can't extract from an empty heap'', this, u)
         else \<exists>this' ds' u'. SplHeap_extract cmp exc this u = Some (Returned (ds ! 0), this', u') \<and>
           object_holds this' ds' \<and> mset ds = add_mset (ds ! 0) (mset ds') \<and> (heap_corrupted this' \<longleftrightarrow> exc u'))"
  proof (cases "heap_corrupted this")
    case True
    then show ?thesis by (simp add: corrupted_object_throws)
  next
    case False
    have ins: "\<exists>this' ds' u'. SplHeap_insert cmp exc e this u = Some (Returned True, this', u') \<and>
        object_holds this' ds' \<and> mset ds' = add_mset e (mset ds) \<and> (heap_corrupted this' \<longleftrightarrow> exc u')"
      using insert_object [OF assms False, of cmp exc e u] by blast
    show ?thesis
    proof (cases "ds = []")
      case True
      then have "SplHeap_extract cmp exc this u = Some (Threw ''Can't extract from an empty heap'', this, u)"
        using extract_object_empty [OF _ False] assms(1) by simp
      then show ?thesis unfolding if_not_P [OF False] if_P [OF True] using ins by blast
    next
      case ne: False
      have "\<exists>this' ds' u'. SplHeap_extract cmp exc this u = Some (Returned (ds ! 0), this', u') \<and>
           object_holds this' ds' \<and> mset ds = add_mset (ds ! 0) (mset ds') \<and> (heap_corrupted this' \<longleftrightarrow> exc u')"
        using extract_object [OF assms(1) ne False, of cmp exc u] by blast
      then show ?thesis unfolding if_not_P [OF False] if_not_P [OF ne] using ins by blast
    qed
  qed
qed

text \<open>
  C5: \<open>SplMaxHeap\<close> and \<open>SplMinHeap\<close> are priority queues: for a comparison that orders the
  elements in use, any run of \<open>insert\<close> and \<open>extract\<close> on a new object answers as a multiset
  from which a greatest (a least) element is taken, and \<open>count\<close> is its size.
\<close>

theorem spl_heaps_are_priority_queues:
  assumes order: "\<And>a b. a \<in> A \<Longrightarrow> b \<in> A \<Longrightarrow> f a b \<ge> 0 \<longleftrightarrow> f b a \<le> 0"
    "\<And>a b c. a \<in> A \<Longrightarrow> b \<in> A \<Longrightarrow> c \<in> A \<Longrightarrow> f a b \<le> 0 \<Longrightarrow> f b c \<le> 0 \<Longrightarrow> f a c \<le> 0"
    and small: "\<And>a b. - (2 ^ 31) \<le> f a b \<and> f a b < 2 ^ 31"
    and ops: "\<forall>x. Insert x \<in> set ops \<longrightarrow> x \<in> A" "length ops < 2 ^ 30"
  shows "(\<exists>ys this' M. run_pq (heap_put (spl_ptr_heap_zval_max_cmp f None (\<lambda>_. False)))
      (heap_take (spl_ptr_heap_zval_max_cmp f None (\<lambda>_. False))) ops (spl_heap_object_new 0) = Some (ys, this') \<and>
      pq_answers (\<lambda>x y. f x y \<le> 0) ops {#} ys M \<and> SplHeap_count this' = int (size M)) \<and>
    (\<exists>ys this' M. run_pq (heap_put (spl_ptr_heap_zval_min_cmp f None (\<lambda>_. False)))
      (heap_take (spl_ptr_heap_zval_min_cmp f None (\<lambda>_. False))) ops (spl_heap_object_new 0) = Some (ys, this') \<and>
      pq_answers (\<lambda>x y. f y x \<le> 0) ops {#} ys M \<and> SplHeap_count this' = int (size M))"
proof -
  have trunc: "(\<lambda>a b. to_int (f a b)) = f" "(\<lambda>a b. to_int (f b a)) = (\<lambda>a b. f b a)" using small by (simp_all add: to_int_id)
  have tot: "0 < f a b \<Longrightarrow> f b a \<le> 0" if "a \<in> A" "b \<in> A" for a b using order(1) [OF that] by simp
  have "sign_order f A"
    by (rule sign_order.intro [OF compare_order.intro [OF tot order(2)] sign_order_axioms.intro [OF order(1)]])
  moreover have "sign_order (\<lambda>a b. f b a) A"
    by (rule sign_order.intro [OF compare_order.intro [OF tot] sign_order_axioms.intro [OF order(1)]])
       (auto intro: order(2))
  ultimately have o: "sign_order f A" "sign_order (\<lambda>a b. f b a) A" .
  show ?thesis
    unfolding built_in_cmp trunc using queue_runs [OF o(1) ops, of 0] queue_runs [OF o(2) ops, of 0] by blast
qed

lemma spl_heaps_are_priority_queues_witness:
  "\<exists>ys this' M. run_pq (heap_put (spl_ptr_heap_zval_max_cmp compare_longs None (\<lambda>_. False)))
      (heap_take (spl_ptr_heap_zval_max_cmp compare_longs None (\<lambda>_. False)))
      [Insert 3, Insert 7, Extract] (spl_heap_object_new 0) = Some (ys, this') \<and>
      pq_answers (\<lambda>x y. compare_longs x y \<le> 0) [Insert 3, Insert 7, Extract] {#} ys M \<and> SplHeap_count this' = int (size M)"
  by (rule spl_heaps_are_priority_queues [of UNIV compare_longs "[Insert 3, Insert 7, Extract]", THEN conjunct1])
     (auto simp: compare_longs_def split: if_splits)

text \<open>An object that holds three elements.\<close>

definition sample_heap :: "int spl_heap_object" where
  "sample_heap = the (do {
     a \<leftarrow> heap_put (pure_cmp compare_longs) 5 (spl_heap_object_new 0);
     b \<leftarrow> heap_put (pure_cmp compare_longs) 9 a;
     heap_put (pure_cmp compare_longs) 7 b
   })"

lemma sample_heap_rep: "queue_rep compare_longs UNIV sample_heap {#7, 9, 5#}"
proof -
  obtain a where a: "heap_put (pure_cmp compare_longs) 5 (spl_heap_object_new 0) = Some a" "queue_rep compare_longs UNIV a {#5#}"
    using max_longs.spl.rep_ins [OF queue_rep_new, of 5] by (auto simp: heap_room_def)
  obtain b where b: "heap_put (pure_cmp compare_longs) 9 a = Some b" "queue_rep compare_longs UNIV b {#9, 5#}"
    using max_longs.spl.rep_ins [OF a(2), of 9] by (auto simp: heap_room_def)
  obtain c where c: "heap_put (pure_cmp compare_longs) 7 b = Some c" "queue_rep compare_longs UNIV c {#7, 9, 5#}"
    using max_longs.spl.rep_ins [OF b(2), of 7] by (auto simp: heap_room_def)
  show ?thesis using a(1) b(1) c by (simp add: sample_heap_def)
qed

lemma sample_heap_holds: "\<exists>ds. object_holds sample_heap ds \<and> mset ds = {#7, 9, 5#} \<and> \<not> heap_corrupted sample_heap"
  using sample_heap_rep by (auto simp: queue_rep_def)

lemma spl_heap_keeps_elements_witness:
  "\<exists>this' ds' u'. SplHeap_insert (\<lambda>a b n. (a - b, n + 1)) (\<lambda>n. n > (3 :: nat)) 6 sample_heap (0 :: nat) = Some (Returned True, this', u') \<and>
    object_holds this' ds' \<and> mset ds' = {#6, 7, 9, 5#}"
proof -
  obtain ds where ds: "object_holds sample_heap ds" "mset ds = {#7, 9, 5#}" "\<not> heap_corrupted sample_heap"
    using sample_heap_holds by blast
  have "heap_room (length ds)" using mset_eq_length [of ds "[7, 9, 5]"] ds(2) by (simp add: heap_room_def)
  from spl_heap_keeps_elements [OF ds(1) this, of "\<lambda>a b n. (a - b, n + 1)" "\<lambda>n :: nat. n > 3" 6 0]
  show ?thesis unfolding if_not_P [OF ds(3)] ds(2) by blast
qed

text \<open>
  C39: \<open>SplPriorityQueue::extract\<close> takes the top node out and returns what the extract flags ask
  for; when they ask for nothing, which \<open>setExtractFlags\<close> accepts, the node is lost to an error.
\<close>

theorem pqueue_extracts_by_flags:
  assumes "object_holds this ds" and "ds \<noteq> []" and "\<not> heap_corrupted this"
  shows "\<exists>this' ds' u'. SplPriorityQueue_extract cmp exc (snd (SplPriorityQueue_setExtractFlags value this)) u =
      Some (if value AND 3 = 3 then Returned (Node (ds ! 0))
        else if value AND 3 = 1 then Returned (Part (pq_data (ds ! 0)))
        else if value AND 3 = 2 then Returned (Part (pq_priority (ds ! 0)))
        else Recoverable extract_error, this', u') \<and>
    object_holds this' ds' \<and> mset ds = add_mset (ds ! 0) (mset ds')"
proof -
  let ?v = "value AND 3"
  let ?t = "snd (SplPriorityQueue_setExtractFlags value this)"
  have t: "?t = this\<lparr>extract_flags := ucast ?v\<rparr>"
    by (simp add: SplPriorityQueue_setExtractFlags_def SPL_PQUEUE_EXTR_MASK_def Let_def)
  have "object_holds ?t ds" using assms(1) by (simp add: t object_holds_def)
  from delete_object [OF this assms(2), of cmp exc u]
  obtain h' ds' u' where d: "spl_ptr_heap_delete_top cmp exc (heap ?t) u = Some (Some (ds ! 0), h', u')"
    "object_holds (?t\<lparr>heap := log_ref (DelRef (ds ! 0)) h'\<rparr>) ds'" "mset ds = add_mset (ds ! 0) (mset ds')"
    by blast
  have r: "SplPriorityQueue_extract cmp exc ?t u =
      Some (case spl_pqueue_extract_helper (ds ! 0) (ucast ?v) of None \<Rightarrow> Recoverable extract_error | Some out \<Rightarrow> Returned out,
        ?t\<lparr>heap := log_ref (DelRef (ds ! 0)) h'\<rparr>, u')"
    using d(1) assms(3) by (simp add: t SplPriorityQueue_extract_def heap_corrupted_def)
  have "?v = 0 \<or> ?v = 1 \<or> ?v = 2 \<or> ?v = 3"
  proof -
    have "?v \<le> 3" by (simp add: word_and_le1)
    then have "unat ?v \<le> 3" by (simp add: word_le_nat_alt)
    then have "unat ?v = 0 \<or> unat ?v = 1 \<or> unat ?v = 2 \<or> unat ?v = 3" by auto
    then show ?thesis by (simp add: word_unat_eq_iff)
  qed
  then have "(case spl_pqueue_extract_helper (ds ! 0) (ucast ?v) of None \<Rightarrow> Recoverable extract_error | Some out \<Rightarrow> Returned out) =
      (if ?v = 3 then Returned (Node (ds ! 0)) else if ?v = 1 then Returned (Part (pq_data (ds ! 0)))
        else if ?v = 2 then Returned (Part (pq_priority (ds ! 0))) else Recoverable extract_error)"
    by (elim disjE) (simp_all add: spl_pqueue_extract_helper_def SPL_PQUEUE_EXTR_BOTH_def SPL_PQUEUE_EXTR_DATA_def)
  then show ?thesis using r d(2,3) by auto
qed

lemma pqueue_insert_is_insert:
  "SplPriorityQueue_insert cmp exc d p this u = SplHeap_insert cmp exc \<lparr>pq_data = d, pq_priority = p\<rparr> this u"
  by (simp add: SplPriorityQueue_insert_def SplHeap_insert_def Let_def)

lemma pqueue_extracts_by_flags_witness:
  "\<exists>q q'. SplPriorityQueue_insert (spl_ptr_pqueue_zval_cmp compare_longs None (\<lambda>_. False)) (\<lambda>_. False) 8 1
      (spl_heap_object_new SPL_PQUEUE_EXTR_DATA) () = Some (Returned True, q, ()) \<and>
    SplPriorityQueue_extract (spl_ptr_pqueue_zval_cmp compare_longs None (\<lambda>_. False)) (\<lambda>_. False)
      (snd (SplPriorityQueue_setExtractFlags 0 q)) () = Some (Recoverable extract_error, q', ())"
proof -
  let ?cmp = "spl_ptr_pqueue_zval_cmp compare_longs None (\<lambda>_ :: unit. False)"
  obtain q ds u where q: "SplHeap_insert ?cmp (\<lambda>_. False) \<lparr>pq_data = 8, pq_priority = 1\<rparr> (spl_heap_object_new SPL_PQUEUE_EXTR_DATA) () =
      Some (Returned True, q, u)" "object_holds q ds" "mset ds = {#\<lparr>pq_data = 8, pq_priority = 1\<rparr>#}" "\<not> heap_corrupted q"
    using insert_object [OF new_object(1) _ new_object(2), of ?cmp "\<lambda>_. False" "\<lparr>pq_data = 8, pq_priority = 1\<rparr>"
      SPL_PQUEUE_EXTR_DATA "()"] by (simp add: heap_room_def) blast
  have "ds \<noteq> []" using q(3) by auto
  from pqueue_extracts_by_flags [OF q(2) this q(4), of ?cmp "\<lambda>_. False" 0 "()"]
  show ?thesis using q(1) by (auto simp: pqueue_insert_is_insert)
qed

text \<open>
  \<open>SplHeap::next\<close> with a superfluous parameter takes the top out and keeps its second reference.
\<close>

lemma heap_next_leaks:
  assumes "object_holds this ds" and "ds \<noteq> []"
  shows "\<exists>this' ds' u'. SplHeap_next cmp exc False this u = Some (this', u') \<and> mset ds = add_mset (ds ! 0) (mset ds') \<and>
    heap_rep (heap this') ds' \<and> ref_balance (h_refs (heap this')) (ds ! 0) = 2 * int (count (mset ds') (ds ! 0)) + 1"
proof -
  obtain h' ds' u' where d: "spl_ptr_heap_delete_top cmp exc (heap this) u = Some (Some (ds ! 0), h', u')"
    "object_holds (this\<lparr>heap := log_ref (DelRef (ds ! 0)) h'\<rparr>) ds'" "mset ds = add_mset (ds ! 0) (mset ds')"
    using delete_object [OF assms, of cmp exc u] by blast
  have "heap_rep h' ds'" "\<forall>e. ref_balance (h_refs h') e + ref_change e (DelRef (ds ! 0)) = 2 * int (count (mset ds') e)"
    using d(2) by (simp_all add: object_holds_def)
  then have "heap_rep h' ds'" "ref_balance (h_refs h') (ds ! 0) = 2 * int (count (mset ds') (ds ! 0)) + 1"
    by (simp, force dest: spec [of _ "ds ! 0"])
  then show ?thesis using d(1,3) by (auto simp: SplHeap_next_def)
qed

text \<open>
  A user-defined \<open>compare\<close> that answers in multiples of \<open>2^32\<close> is not heard: its result is
  cut down to an \<open>int\<close>, so that the max heap gives the smaller of two elements first.
\<close>

theorem heap_compare_truncated:
  "\<exists>this'. run_pq (heap_put (spl_ptr_heap_zval_max_cmp compare_longs (Some (\<lambda>a b u. (Some ((a - b) * 2 ^ 32), u))) (\<lambda>_. False)))
      (heap_take (spl_ptr_heap_zval_max_cmp compare_longs (Some (\<lambda>a b u. (Some ((a - b) * 2 ^ 32), u))) (\<lambda>_. False)))
      [Insert 1, Insert 2, Extract] (spl_heap_object_new 0) = Some ([Some 1], this')"
proof -
  have cut: "to_int (x * 2 ^ 32) = 0" for x
  proof -
    have "take_bit (Suc 31) (x * 2 ^ 32) = take_bit (Suc 31) 0" by (simp add: take_bit_eq_mod)
    then have "signed_take_bit 31 (x * 2 ^ 32) = signed_take_bit 31 0" by (simp only: signed_take_bit_eq_iff_take_bit_eq)
    then show ?thesis by (simp add: to_int_def)
  qed
  have t: "to_int (a * 4294967296 - b * 4294967296) = 0" for a b using cut [of "a - b"] by (simp add: left_diff_distrib)
  have c: "spl_ptr_heap_zval_max_cmp compare_longs (Some (\<lambda>a b u. (Some ((a - b) * 2 ^ 32), u))) (\<lambda>_. False) = pure_cmp (\<lambda>_ _. 0)"
    by (intro ext) (simp add: spl_ptr_heap_zval_max_cmp_def spl_ptr_heap_cmp_cb_def pure_cmp_def t)
  show ?thesis unfolding c
    by (simp add: heap_put_def heap_take_def SplHeap_insert_def SplHeap_extract_def spl_ptr_heap_insert_def spl_ptr_heap_delete_top_def
      spl_heap_object_new_def spl_ptr_heap_init_def heap_corrupted_def log_ref_def flag_exception_def erealloc_def PTR_HEAP_BLOCK_SIZE_def
      sift_up.simps sift_down.simps slot_def set_slot_def pure_cmp_def INT_MAX_def)
qed

end
