(* ===== verification/Levenshtein.thy ===== *)
theory Levenshtein
  imports Zend_Prelude
begin

text \<open>
  \<open>ext/standard/levenshtein.c\<close>: the edit distance by two rows of the matrix of prefix distances,
  and its proof against edit scripts. \<open>edited ins rep del xs ys c\<close> says that some script of cost
  \<open>c\<close> turns \<open>xs\<close> into \<open>ys\<close>.
\<close>

definition LEVENSHTEIN_MAX_LENGTH :: nat where "LEVENSHTEIN_MAX_LENGTH = 255"

subsection \<open>Model\<close>

text \<open>\<open>p1[i2] = i2 * cost_ins\<close> for the indices from \<open>i2\<close> to \<open>l2\<close>.\<close>

function lev_init :: "int \<Rightarrow> nat \<Rightarrow> nat \<Rightarrow> int slots option \<Rightarrow> int slots option option" where
  "lev_init cost_ins l2 i2 p1 =
     (if i2 \<le> l2 then do {
        c \<leftarrow> c_int (int i2 * cost_ins);
        p1 \<leftarrow> set_slot p1 (int i2) (Some c);
        lev_init cost_ins l2 (i2 + 1) p1
      } else Some p1)"
  by pat_completeness auto
termination by (relation "measure (\<lambda>(_, l2, i2, _). Suc l2 - i2)") auto

declare lev_init.simps [simp del]

text \<open>One entry of the row: the least of a step along both strings, a deletion and an insertion.\<close>

definition lev_cell :: "byte \<Rightarrow> byte \<Rightarrow> int \<Rightarrow> int \<Rightarrow> int \<Rightarrow> int \<Rightarrow> int \<Rightarrow> int \<Rightarrow> int option" where
  "lev_cell a b cost_ins cost_rep cost_del p1_i p1_next p2_i = do {
     c0 \<leftarrow> c_int (p1_i + (if a = b then 0 else cost_rep));
     c1 \<leftarrow> c_int (p1_next + cost_del);
     let c0 = (if c1 < c0 then c1 else c0);
     c2 \<leftarrow> c_int (p2_i + cost_ins);
     Some (if c2 < c0 then c2 else c0)
   }"

function lev_row :: "byte \<Rightarrow> byte list \<Rightarrow> int \<Rightarrow> int \<Rightarrow> int \<Rightarrow> nat \<Rightarrow> int slots option \<Rightarrow> int slots option \<Rightarrow>
    int slots option option" where
  "lev_row a s2 cost_ins cost_rep cost_del i2 p1 p2 =
     (if i2 < length s2 then do {
        p1_i \<leftarrow> slot p1 (int i2);
        p1_next \<leftarrow> slot p1 (int i2 + 1);
        p2_i \<leftarrow> slot p2 (int i2);
        c \<leftarrow> lev_cell a (s2 ! i2) cost_ins cost_rep cost_del p1_i p1_next p2_i;
        p2 \<leftarrow> set_slot p2 (int i2 + 1) (Some c);
        lev_row a s2 cost_ins cost_rep cost_del (i2 + 1) p1 p2
      } else Some p2)"
  by pat_completeness auto
termination by (relation "measure (\<lambda>(_, s2, _, _, _, i2, _). length s2 - i2)") auto

declare lev_row.simps [simp del]

text \<open>The rows; after each one the two arrays change places.\<close>

fun lev_rows :: "byte list \<Rightarrow> byte list \<Rightarrow> int \<Rightarrow> int \<Rightarrow> int \<Rightarrow> int slots option \<Rightarrow> int slots option \<Rightarrow>
    int slots option option" where
  "lev_rows [] s2 cost_ins cost_rep cost_del p1 p2 = Some p1"
| "lev_rows (a # s1) s2 cost_ins cost_rep cost_del p1 p2 = do {
     p1_0 \<leftarrow> slot p1 0;
     c \<leftarrow> c_int (p1_0 + cost_del);
     p2 \<leftarrow> set_slot p2 0 (Some c);
     p2 \<leftarrow> lev_row a s2 cost_ins cost_rep cost_del 0 p1 p2;
     lev_rows s1 s2 cost_ins cost_rep cost_del p2 p1
   }"

definition reference_levdist :: "byte list \<Rightarrow> byte list \<Rightarrow> int \<Rightarrow> int \<Rightarrow> int \<Rightarrow> int option" where
  "reference_levdist s1 s2 cost_ins cost_rep cost_del =
     (if s1 = [] then c_int (int (length s2) * cost_ins)
      else if s2 = [] then c_int (int (length s1) * cost_del)
      else if length s1 > LEVENSHTEIN_MAX_LENGTH \<or> length s2 > LEVENSHTEIN_MAX_LENGTH then Some (- 1)
      else do {
        p1 \<leftarrow> lev_init cost_ins (length s2) 0 (erealloc None (int (length s2) + 1));
        p1 \<leftarrow> lev_rows s1 s2 cost_ins cost_rep cost_del p1 (erealloc None (int (length s2) + 1));
        slot p1 (int (length s2))
      })"

text \<open>The function: the distance, and whether it warns that a string is too long.\<close>

definition levenshtein :: "byte list \<Rightarrow> byte list \<Rightarrow> (int \<times> int \<times> int) option \<Rightarrow> (int \<times> bool) option" where
  "levenshtein str1 str2 costs = do {
     distance \<leftarrow> (case costs of
         None \<Rightarrow> reference_levdist str1 str2 1 1 1
       | Some (ins, rep, del) \<Rightarrow> reference_levdist str1 str2 (to_int ins) (to_int rep) (to_int del));
     Some (distance, distance < 0)
   }"

subsection \<open>Edit scripts\<close>

inductive edited :: "int \<Rightarrow> int \<Rightarrow> int \<Rightarrow> 'a list \<Rightarrow> 'a list \<Rightarrow> int \<Rightarrow> bool" for ins rep del where
  edited_Nil: "edited ins rep del [] [] 0"
| edited_keep: "edited ins rep del xs ys c \<Longrightarrow> edited ins rep del (xs @ [x]) (ys @ [x]) c"
| edited_replace: "edited ins rep del xs ys c \<Longrightarrow> x \<noteq> y \<Longrightarrow> edited ins rep del (xs @ [x]) (ys @ [y]) (c + rep)"
| edited_delete: "edited ins rep del xs ys c \<Longrightarrow> edited ins rep del (xs @ [x]) ys (c + del)"
| edited_insert: "edited ins rep del xs ys c \<Longrightarrow> edited ins rep del xs (ys @ [y]) (c + ins)"

inductive_simps edited_Nil_Nil: "edited ins rep del [] [] c"
inductive_simps edited_Nil_snoc: "edited ins rep del [] (ys @ [y]) c"
inductive_simps edited_snoc_Nil: "edited ins rep del (xs @ [x]) [] c"
inductive_simps edited_snoc_snoc: "edited ins rep del (xs @ [x]) (ys @ [y]) c"

definition least_cost :: "int \<Rightarrow> int \<Rightarrow> int \<Rightarrow> 'a list \<Rightarrow> 'a list \<Rightarrow> int \<Rightarrow> bool" where
  "least_cost ins rep del xs ys d \<longleftrightarrow> edited ins rep del xs ys d \<and> (\<forall>c. edited ins rep del xs ys c \<longrightarrow> d \<le> c)"

lemma edited_from_Nil: "edited ins rep del [] ys c \<longleftrightarrow> c = int (length ys) * ins"
proof (induction ys arbitrary: c rule: rev_induct)
  case Nil
  then show ?case by (auto simp: edited_Nil_Nil)
next
  case (snoc y ys)
  then show ?case by (auto simp: edited_Nil_snoc algebra_simps)
qed

lemma edited_to_Nil: "edited ins rep del xs [] c \<longleftrightarrow> c = int (length xs) * del"
proof (induction xs arbitrary: c rule: rev_induct)
  case Nil
  then show ?case by (auto simp: edited_Nil_Nil)
next
  case (snoc x xs)
  then show ?case by (auto simp: edited_snoc_Nil algebra_simps)
qed

lemma least_cost_Nil:
  "least_cost ins rep del [] ys (int (length ys) * ins)" "least_cost ins rep del xs [] (int (length xs) * del)"
  by (simp_all add: least_cost_def edited_from_Nil edited_to_Nil)

lemma least_cost_snoc:
  assumes "least_cost ins rep del xs ys d0" and "least_cost ins rep del xs (ys @ [y]) d1"
    and "least_cost ins rep del (xs @ [x]) ys d2"
  shows "least_cost ins rep del (xs @ [x]) (ys @ [y])
    (min (d0 + (if x = y then 0 else rep)) (min (d1 + del) (d2 + ins)))"
proof -
  let ?d = "min (d0 + (if x = y then 0 else rep)) (min (d1 + del) (d2 + ins))"
  have e: "edited ins rep del (xs @ [x]) (ys @ [y]) c \<longleftrightarrow>
      (\<exists>c'. edited ins rep del xs ys c' \<and> c = c' + (if x = y then 0 else rep)) \<or>
      (\<exists>c'. edited ins rep del xs (ys @ [y]) c' \<and> c = c' + del) \<or>
      (\<exists>c'. edited ins rep del (xs @ [x]) ys c' \<and> c = c' + ins)" for c
    by (subst edited_snoc_snoc) (auto split: if_splits)
  have "edited ins rep del (xs @ [x]) (ys @ [y]) ?d"
    unfolding e using assms by (auto simp: least_cost_def min_def)
  moreover have "?d \<le> c" if "edited ins rep del (xs @ [x]) (ys @ [y]) c" for c
    using that assms unfolding e least_cost_def by (fastforce simp: min_le_iff_disj)
  ultimately show ?thesis by (simp add: least_cost_def)
qed

text \<open>Distances stay small.\<close>

lemma edited_bound:
  assumes "edited ins rep del xs ys c" and "\<bar>ins\<bar> \<le> K" and "\<bar>rep\<bar> \<le> K" and "\<bar>del\<bar> \<le> K"
  shows "\<bar>c\<bar> \<le> int (length xs + length ys) * K"
  using assms by (induction rule: edited.induct) (auto simp: algebra_simps)

subsection \<open>The rows are distances of prefixes\<close>

text \<open>Costs and lengths for which no \<open>int\<close> overflows.\<close>

definition lev_costs :: "int \<Rightarrow> int \<Rightarrow> int \<Rightarrow> bool" where
  "lev_costs ins rep del \<longleftrightarrow> \<bar>ins\<bar> \<le> 2 ^ 22 \<and> \<bar>rep\<bar> \<le> 2 ^ 22 \<and> \<bar>del\<bar> \<le> 2 ^ 22"

definition row_rep :: "int \<Rightarrow> int \<Rightarrow> int \<Rightarrow> byte list \<Rightarrow> byte list \<Rightarrow> nat \<Rightarrow> int slots option \<Rightarrow> bool" where
  "row_rep ins rep del xs s2 k els \<longleftrightarrow> (\<exists>ds. holds els (int (length s2) + 1) ds \<and> length ds = Suc k \<and>
     (\<forall>i \<le> k. least_cost ins rep del xs (take i s2) (ds ! i)))"

lemma row_slot:
  "row_rep ins rep del xs s2 k els \<Longrightarrow> i \<le> k \<Longrightarrow> \<exists>d. slot els (int i) = Some d \<and> least_cost ins rep del xs (take i s2) d"
  unfolding row_rep_def using holds_slot by (metis less_Suc_eq_le)

lemma row_set:
  assumes "row_rep ins rep del xs s2 k els" and "k < length s2" and "least_cost ins rep del xs (take (Suc k) s2) d"
  shows "\<exists>els'. set_slot els (int k + 1) (Some d) = Some els' \<and> row_rep ins rep del xs s2 (Suc k) els'"
proof -
  obtain ds where ds: "holds els (int (length s2) + 1) ds" "length ds = Suc k"
    "\<forall>i \<le> k. least_cost ins rep del xs (take i s2) (ds ! i)" using assms(1) by (auto simp: row_rep_def)
  have "\<exists>els'. set_slot els (int k + 1) (Some d) = Some els' \<and> holds els' (int (length s2) + 1) (ds @ [d])"
    using holds_set_slot [OF ds(1), of d] ds(2) assms(2) by (simp add: add.commute)
  moreover have "least_cost ins rep del xs (take i s2) ((ds @ [d]) ! i)" if "i \<le> Suc k" for i
    using that ds(2,3) assms(3) by (cases "i = Suc k") (auto simp: nth_append)
  ultimately show ?thesis using ds(2) unfolding row_rep_def by (metis length_append_singleton)
qed

lemma holds_fresh: "holds (erealloc None n) n []" if "0 \<le> n" for n
  using that by (simp add: holds_def erealloc_def)

lemma row_start:
  assumes "holds els (int (length s2) + 1) ds" and "least_cost ins rep del xs [] d"
  shows "\<exists>els'. set_slot els 0 (Some d) = Some els' \<and> row_rep ins rep del xs s2 0 els'"
proof -
  have "holds els (int (length s2) + 1) []" using assms(1) by (cases els) (auto simp: holds_def)
  from holds_set_slot [OF this, of d] show ?thesis
    using assms(2) by (auto simp: row_rep_def intro!: exI [of _ "[d]"])
qed

lemma lev_init_run:
  assumes "lev_costs ins rep del" and "length s2 \<le> 255"
  shows "row_rep ins rep del [] s2 k p1 \<Longrightarrow> k \<le> length s2 \<Longrightarrow>
    \<exists>p1'. lev_init ins (length s2) (Suc k) p1 = Some p1' \<and> row_rep ins rep del [] s2 (length s2) p1'"
proof (induction "length s2 - k" arbitrary: k p1)
  case 0
  then show ?case by (simp add: lev_init.simps)
next
  case (Suc n)
  then have k: "k < length s2" by simp
  have "\<bar>int (Suc k) * ins\<bar> \<le> 255 * 2 ^ 22"
    unfolding abs_mult using assms k by (intro mult_mono) (auto simp: lev_costs_def)
  then have c: "c_int (int (Suc k) * ins) = Some (int (Suc k) * ins)" by (auto simp: INT_MAX_def)
  have "least_cost ins rep del [] (take (Suc k) s2) (int (Suc k) * ins)"
    using least_cost_Nil(1) [of ins rep del "take (Suc k) s2"] k by simp
  from row_set [OF Suc.prems(1) k this] obtain els' where
    e: "set_slot p1 (int (Suc k)) (Some (int (Suc k) * ins)) = Some els'" "row_rep ins rep del [] s2 (Suc k) els'"
    by (auto simp: add.commute)
  have "lev_init ins (length s2) (Suc k) p1 = lev_init ins (length s2) (Suc (Suc k)) els'"
    using k c e(1) by (subst lev_init.simps) (simp del: of_nat_Suc)
  then show ?case using Suc.hyps(1) [OF _ e(2)] Suc.hyps(2) k by simp
qed

lemma lev_cell_run:
  assumes costs: "lev_costs ins rep del" and len: "length xs \<le> 254" "length ys \<le> 254"
    and d0: "least_cost ins rep del xs ys d0" and d1: "least_cost ins rep del xs (ys @ [b]) d1"
    and d2: "least_cost ins rep del (xs @ [a]) ys d2"
  shows "\<exists>d. lev_cell a b ins rep del d0 d1 d2 = Some d \<and> least_cost ins rep del (xs @ [a]) (ys @ [b]) d"
proof -
  have b: "\<bar>c\<bar> \<le> 509 * 2 ^ 22" if "least_cost ins rep del us vs c" "length us + length vs \<le> 509" for us vs :: "byte list" and c
  proof -
    have "\<bar>c\<bar> \<le> int (length us + length vs) * 2 ^ 22"
      using edited_bound [of ins rep del us vs c "2 ^ 22"] that(1) costs unfolding least_cost_def lev_costs_def by blast
    also have "\<dots> \<le> 509 * 2 ^ 22" using that(2) by simp
    finally show ?thesis .
  qed
  have i: "c_int (c + k) = Some (c + k)" if "\<bar>c\<bar> \<le> 509 * 2 ^ 22" "\<bar>k\<bar> \<le> 2 ^ 22" for c k
    using that by (auto simp: INT_MAX_def)
  have c0: "c_int (d0 + (if a = b then 0 else rep)) = Some (d0 + (if a = b then 0 else rep))"
    using i [OF b [OF d0]] len costs by (simp add: lev_costs_def)
  have c1: "c_int (d1 + del) = Some (d1 + del)" using i [OF b [OF d1]] len costs by (simp add: lev_costs_def)
  have c2: "c_int (d2 + ins) = Some (d2 + ins)" using i [OF b [OF d2]] len costs by (simp add: lev_costs_def)
  have "lev_cell a b ins rep del d0 d1 d2 = Some (min (d0 + (if a = b then 0 else rep)) (min (d1 + del) (d2 + ins)))"
    by (simp add: lev_cell_def c0 c1 c2 min_def)
  then show ?thesis using least_cost_snoc [OF d0 d1 d2] by blast
qed

lemma lev_row_run:
  assumes costs: "lev_costs ins rep del" and len: "length xs \<le> 254" "length s2 \<le> 255"
    and p1: "row_rep ins rep del xs s2 (length s2) p1"
  shows "row_rep ins rep del (xs @ [a]) s2 k p2 \<Longrightarrow> k \<le> length s2 \<Longrightarrow>
    \<exists>p2'. lev_row a s2 ins rep del k p1 p2 = Some p2' \<and> row_rep ins rep del (xs @ [a]) s2 (length s2) p2'"
proof (induction "length s2 - k" arbitrary: k p2)
  case 0
  then show ?case by (simp add: lev_row.simps)
next
  case (Suc n)
  then have k: "k < length s2" by simp
  then have t: "take (Suc k) s2 = take k s2 @ [s2 ! k]" by (simp add: take_Suc_conv_app_nth)
  obtain d0 d1 d2 where d: "slot p1 (int k) = Some d0" "least_cost ins rep del xs (take k s2) d0"
    "slot p1 (int k + 1) = Some d1" "least_cost ins rep del xs (take k s2 @ [s2 ! k]) d1"
    "slot p2 (int k) = Some d2" "least_cost ins rep del (xs @ [a]) (take k s2) d2"
    using row_slot [OF p1, of k] row_slot [OF p1, of "Suc k"] row_slot [OF Suc.prems(1), of k] k t
    by (auto simp: add.commute)
  obtain c where c: "lev_cell a (s2 ! k) ins rep del d0 d1 d2 = Some c"
    "least_cost ins rep del (xs @ [a]) (take k s2 @ [s2 ! k]) c"
    using lev_cell_run [OF costs len(1) _ d(2,4,6)] len(2) k by auto
  from row_set [OF Suc.prems(1) k] c(2) t obtain els' where
    e: "set_slot p2 (int k + 1) (Some c) = Some els'" "row_rep ins rep del (xs @ [a]) s2 (Suc k) els'" by auto
  have "lev_row a s2 ins rep del k p1 p2 = lev_row a s2 ins rep del (Suc k) p1 els'"
    using k d(1,3,5) c(1) e(1) by (subst lev_row.simps) simp
  then show ?case using Suc.hyps(1) [OF _ e(2)] Suc.hyps(2) k by simp
qed

lemma lev_rows_run:
  assumes costs: "lev_costs ins rep del" and len: "length s2 \<le> 255"
  shows "row_rep ins rep del xs s2 (length s2) p1 \<Longrightarrow> holds p2 (int (length s2) + 1) ds \<Longrightarrow> length (xs @ s1) \<le> 255 \<Longrightarrow>
    \<exists>p'. lev_rows s1 s2 ins rep del p1 p2 = Some p' \<and> row_rep ins rep del (xs @ s1) s2 (length s2) p'"
proof (induction s1 arbitrary: xs p1 p2 ds)
  case Nil
  then show ?case by simp
next
  case (Cons a s1)
  obtain d where d: "slot p1 0 = Some d" "least_cost ins rep del xs [] d" using row_slot [OF Cons.prems(1), of 0] by auto
  have l: "d + del = int (length (xs @ [a])) * del" using d(2) by (auto simp: least_cost_def edited_to_Nil algebra_simps)
  have "\<bar>int (length (xs @ [a])) * del\<bar> \<le> 255 * 2 ^ 22"
    unfolding abs_mult using costs Cons.prems(3) by (intro mult_mono) (auto simp: lev_costs_def)
  then have c: "c_int (d + del) = Some (d + del)" unfolding l by (auto simp: INT_MAX_def)
  have "least_cost ins rep del (xs @ [a]) [] (d + del)" unfolding l by (rule least_cost_Nil(2))
  from row_start [OF Cons.prems(2) this] obtain q where
    q: "set_slot p2 0 (Some (d + del)) = Some q" "row_rep ins rep del (xs @ [a]) s2 0 q" by blast
  obtain q' where q': "lev_row a s2 ins rep del 0 p1 q = Some q'" "row_rep ins rep del (xs @ [a]) s2 (length s2) q'"
    using lev_row_run [OF costs _ len Cons.prems(1) q(2)] Cons.prems(3) by auto
  obtain es where "holds p1 (int (length s2) + 1) es" using Cons.prems(1) by (auto simp: row_rep_def)
  from Cons.IH [OF q'(2) this] show ?case using d(1) c q(1) q'(1) Cons.prems(3) by simp
qed

subsection \<open>Properties\<close>

text \<open>
  C23: for strings of at most 255 bytes and costs of at most \<open>2^22\<close>, the two-row computation
  ends without overflow and returns the least cost of a script of insertions, replacements and
  deletions that turns the first string into the second.
\<close>

theorem levenshtein_is_least_cost:
  assumes "length s1 \<le> 255" and "length s2 \<le> 255" and "lev_costs ins rep del"
  shows "\<exists>d. reference_levdist s1 s2 ins rep del = Some d \<and> edited ins rep del s1 s2 d \<and>
    (\<forall>c. edited ins rep del s1 s2 c \<longrightarrow> d \<le> c)"
proof -
  have small: "c_int (int (length s) * k) = Some (int (length s) * k)"
    if "length s \<le> 255" "\<bar>k\<bar> \<le> 2 ^ 22" for s :: "byte list" and k
  proof -
    have "\<bar>int (length s) * k\<bar> \<le> 255 * 2 ^ 22" unfolding abs_mult using that by (intro mult_mono) auto
    then show ?thesis by (auto simp: INT_MAX_def)
  qed
  have c: "\<bar>ins\<bar> \<le> 2 ^ 22" "\<bar>del\<bar> \<le> 2 ^ 22" using assms(3) by (auto simp: lev_costs_def)
  consider "s1 = []" | "s2 = []" | "s1 \<noteq> []" "s2 \<noteq> []" by blast
  then have "\<exists>d. reference_levdist s1 s2 ins rep del = Some d \<and> least_cost ins rep del s1 s2 d"
  proof cases
    case 1
    then show ?thesis using small [OF assms(2) c(1)] least_cost_Nil(1) by (auto simp: reference_levdist_def)
  next
    case 2
    then show ?thesis using small [OF assms(1) c(2)] least_cost_Nil(2) [of ins rep del s1] small [of "[]" ins] c
        least_cost_Nil(2) [of ins rep del "[]"] by (auto simp: reference_levdist_def)
  next
    case 3
    obtain p0 where p0: "set_slot (erealloc None (int (length s2) + 1)) 0 (Some 0) = Some p0" "row_rep ins rep del [] s2 0 p0"
      using row_start [OF holds_fresh, of s2 ins rep del "[]" 0] least_cost_Nil(1) [of ins rep del "[]"] by auto
    have "lev_init ins (length s2) 0 (erealloc None (int (length s2) + 1)) = lev_init ins (length s2) (Suc 0) p0"
      using p0(1) by (subst lev_init.simps) (simp add: INT_MAX_def)
    then obtain p1 where p1: "lev_init ins (length s2) 0 (erealloc None (int (length s2) + 1)) = Some p1"
      "row_rep ins rep del [] s2 (length s2) p1"
      using lev_init_run [OF assms(3,2) p0(2)] by auto
    obtain p' where p': "lev_rows s1 s2 ins rep del p1 (erealloc None (int (length s2) + 1)) = Some p'"
      "row_rep ins rep del s1 s2 (length s2) p'"
      using lev_rows_run [OF assms(3,2) p1(2) holds_fresh] assms(1) by auto
    show ?thesis using row_slot [OF p'(2) order.refl] 3 assms(1,2) p1(1) p'(1)
      by (auto simp: reference_levdist_def LEVENSHTEIN_MAX_LENGTH_def)
  qed
  then show ?thesis by (auto simp: least_cost_def)
qed

lemma levenshtein_is_least_cost_witness:
  "\<exists>d. reference_levdist [107, 105, 116] [115, 105, 116, 115] 1 1 1 = Some d \<and>
    (\<forall>c. edited 1 1 1 [107, 105, 116 :: byte] [115, 105, 116, 115] c \<longrightarrow> d \<le> c)"
  using levenshtein_is_least_cost [of "[107, 105, 116]" "[115, 105, 116, 115]" 1 1 1] by (auto simp: lev_costs_def)

text \<open>A negative cost makes a distance negative, which the function takes for a string that is too long.\<close>

lemma levenshtein_warns_of_negative_costs:
  "levenshtein [] [98] (Some (- 1, 1, 1)) = Some (- 1, True)"
  by (simp add: levenshtein_def reference_levdist_def to_int_id INT_MAX_def)

end
