(* ===== verification/Zend_List.thy ===== *)
theory Zend_List
  imports Zend_Hash_Iter
begin

text \<open>
  Resource lists, \<open>Zend/zend_list.c\<close>: reference-counted resources in a hash table under their
  numbers, and the table of destructors per resource type. An id is a C \<open>int\<close> (a 32-bit word); as
  a hash key it is sign-extended. A pointer to an entry is the address of its bucket. The hash table
  records the entries its destructor was called on; \<open>list_entry_destructor\<close> says what that call
  does.
\<close>

record 'p rsrc_entry =
  rs_ptr :: "'p option"
  rs_type :: int
  rs_refcount :: int

datatype rsrc_list_type = ZEND_RESOURCE_LIST_TYPE_STD | ZEND_RESOURCE_LIST_TYPE_EX

record 'f dtors_entry =
  list_dtor :: "'f option"
  plist_dtor :: "'f option"
  list_dtor_ex :: "'f option"
  plist_dtor_ex :: "'f option"
  type_name :: "byte list option"
  module_number :: int
  resource_id :: int
  dtors_type :: rsrc_list_type

type_synonym 'p rsrc_table = "'p rsrc_entry hashtable"
type_synonym 'f dtors_table = "'f dtors_entry hashtable"

subsection \<open>Resources\<close>

text \<open>The bucket of a number: \<open>zend_hash_index_find\<close> with a pointer into the table.\<close>

definition index_bucket :: "'d hashtable \<Rightarrow> ulong \<Rightarrow> ptr option" where
  "index_bucket ht h = do { p \<leftarrow> get_slot ht (nIndex ht h); chain_find (match_index h) p ht }"

definition id_key :: "32 word \<Rightarrow> ulong" where
  "id_key rid = scast rid"

definition zend_list_insert :: "'p option \<Rightarrow> int \<Rightarrow> 'p rsrc_table \<Rightarrow> (32 word \<times> 'p rsrc_table) option" where
  "zend_list_insert ptr type list = do {
     let le = \<lparr>rs_ptr = ptr, rs_type = type, rs_refcount = 1\<rparr>;
     let index = (ucast (zend_hash_next_free_element list) :: 32 word);
     (_, _, list) \<leftarrow> zend_hash_index_update_or_next_insert list (id_key index) le HASH_UPDATE;
     Some (index, list)
   }"

definition zend_list_delete :: "32 word \<Rightarrow> 'p rsrc_table \<Rightarrow> (int \<times> 'p rsrc_table) option" where
  "zend_list_delete rid list = do {
     p \<leftarrow> index_bucket list (id_key rid);
     (if p \<noteq> None then do {
        le \<leftarrow> deref list p;
        refcount \<leftarrow> c_int (rs_refcount (pData le) - 1);
        list \<leftarrow> poke (pData_update (\<lambda>le. le\<lparr>rs_refcount := refcount\<rparr>)) p list;
        (if refcount \<le> 0 then zend_hash_del_key_or_index list (Outside []) 0 (id_key rid) HASH_DEL_INDEX
         else Some (SUCCESS, list))
      } else Some (FAILURE, list))
   }"

text \<open>The pointer and the type, or \<open>NULL\<close> and \<open>-1\<close>.\<close>

definition zend_list_find :: "32 word \<Rightarrow> 'p rsrc_table \<Rightarrow> ('p option \<times> int) option" where
  "zend_list_find rid list = do {
     p \<leftarrow> index_bucket list (id_key rid);
     (if p \<noteq> None then do { le \<leftarrow> deref list p; Some (rs_ptr (pData le), rs_type (pData le)) }
      else Some (None, - 1))
   }"

definition zend_list_addref :: "32 word \<Rightarrow> 'p rsrc_table \<Rightarrow> (int \<times> 'p rsrc_table) option" where
  "zend_list_addref rid list = do {
     p \<leftarrow> index_bucket list (id_key rid);
     (if p \<noteq> None then do {
        le \<leftarrow> deref list p;
        refcount \<leftarrow> c_int (rs_refcount (pData le) + 1);
        list \<leftarrow> poke (pData_update (\<lambda>le. le\<lparr>rs_refcount := refcount\<rparr>)) p list;
        Some (SUCCESS, list)
      } else Some (FAILURE, list))
   }"

text \<open>A zval as far as resources go.\<close>

datatype rsrc_zval = Resource "32 word" | Not_resource

definition zend_register_resource ::
  "rsrc_zval option \<Rightarrow> 'p option \<Rightarrow> int \<Rightarrow> 'p rsrc_table \<Rightarrow> (32 word \<times> rsrc_zval option \<times> 'p rsrc_table) option" where
  "zend_register_resource rsrc_result ptr type list = do {
     (rsrc_id, list) \<leftarrow> zend_list_insert ptr type list;
     Some (rsrc_id, if rsrc_result \<noteq> None then Some (Resource rsrc_id) else None, list)
   }"

text \<open>The loop over the accepted types.\<close>

fun accepted_type :: "int \<Rightarrow> int list \<Rightarrow> bool" where
  "accepted_type actual [] = False"
| "accepted_type actual (t # types) = (if actual = t then True else accepted_type actual types)"

text \<open>The resource and its type, or \<open>NULL\<close> and whether a warning was raised.\<close>

datatype 'p fetched = Fetched 'p int | Not_fetched bool

definition zend_fetch_resource ::
  "rsrc_zval option \<Rightarrow> 32 word \<Rightarrow> bool \<Rightarrow> int list \<Rightarrow> 'p rsrc_table \<Rightarrow> 'p fetched option" where
  "zend_fetch_resource passed_id default_id has_name types list = do {
     let rid = (if default_id = - 1 then
                 (case passed_id of Some (Resource rid) \<Rightarrow> Some rid | _ \<Rightarrow> None)
               else Some default_id);
     (case rid of
        None \<Rightarrow> Some (Not_fetched has_name)
      | Some rid \<Rightarrow> do {
          (resource, actual) \<leftarrow> zend_list_find rid list;
          Some (case resource of
              None \<Rightarrow> Not_fetched has_name
            | Some ptr \<Rightarrow> if accepted_type actual types then Fetched ptr actual else Not_fetched has_name)
        })
   }"

subsection \<open>Destructors\<close>

text \<open>What the destructor of an entry does: a call, nothing, or a warning.\<close>

datatype ('f, 'p) dtor_call = Called 'f "'p option" | Called_ex 'f "'p rsrc_entry" | Nothing_to_call | Unknown_entry_type

definition entry_destructor ::
  "('f dtors_entry \<Rightarrow> 'f option) \<Rightarrow> ('f dtors_entry \<Rightarrow> 'f option) \<Rightarrow> 'f dtors_table \<Rightarrow> 'p rsrc_entry \<Rightarrow>
     ('f, 'p) dtor_call option" where
  "entry_destructor std ex list_destructors le = do {
     ld \<leftarrow> zend_hash_index_find list_destructors (word_of_int (rs_type le));
     Some (case ld of
         None \<Rightarrow> Unknown_entry_type
       | Some ld \<Rightarrow>
           (case dtors_type ld of
              ZEND_RESOURCE_LIST_TYPE_STD \<Rightarrow> (case std ld of None \<Rightarrow> Nothing_to_call | Some f \<Rightarrow> Called f (rs_ptr le))
            | ZEND_RESOURCE_LIST_TYPE_EX \<Rightarrow> (case ex ld of None \<Rightarrow> Nothing_to_call | Some f \<Rightarrow> Called_ex f le)))
   }"

definition list_entry_destructor :: "'f dtors_table \<Rightarrow> 'p rsrc_entry \<Rightarrow> ('f, 'p) dtor_call option" where
  "list_entry_destructor = entry_destructor list_dtor list_dtor_ex"

definition plist_entry_destructor :: "'f dtors_table \<Rightarrow> 'p rsrc_entry \<Rightarrow> ('f, 'p) dtor_call option" where
  "plist_entry_destructor = entry_destructor plist_dtor plist_dtor_ex"

definition zend_init_rsrc_list :: "'p rsrc_table \<Rightarrow> 'p rsrc_table" where
  "zend_init_rsrc_list list = (zend_hash_init 0 True False list)\<lparr>nNextFreeElement := 1\<rparr>"

definition zend_init_rsrc_plist :: "'p rsrc_table \<Rightarrow> 'p rsrc_table" where
  "zend_init_rsrc_plist list = zend_hash_init_ex 0 True True False list"

definition zend_destroy_rsrc_list :: "'p rsrc_table \<Rightarrow> 'p rsrc_table option" where
  "zend_destroy_rsrc_list ht = zend_hash_graceful_reverse_destroy ht"

definition clean_module_resource :: "'p rsrc_entry \<Rightarrow> int \<Rightarrow> int" where
  "clean_module_resource le rtype = (if rs_type le = rtype then 1 else 0)"

text \<open>
  The callback over the destructors cleans the persistent list; its state is that list, or nothing
  once something went wrong (a nesting error ends the request).
\<close>

definition zend_clean_module_rsrc_dtors_cb ::
  "'f dtors_entry \<Rightarrow> int \<Rightarrow> 'p rsrc_table option \<Rightarrow> int \<times> 'f dtors_entry \<times> 'p rsrc_table option" where
  "zend_clean_module_rsrc_dtors_cb ld module_no plist =
     (if module_number ld = module_no
      then (1, ld, do {
        plist \<leftarrow> plist;
        r \<leftarrow> zend_hash_apply_with_argument plist (\<lambda>le rid (_ :: unit). (clean_module_resource le rid, le, ())) (resource_id ld) ();
        (case r of Inl _ \<Rightarrow> None | Inr (plist, _) \<Rightarrow> Some plist)
      })
      else (0, ld, plist))"

definition zend_clean_module_rsrc_dtors ::
  "int \<Rightarrow> 'f dtors_table \<Rightarrow> 'p rsrc_table \<Rightarrow> ('f dtors_table \<times> 'p rsrc_table) option" where
  "zend_clean_module_rsrc_dtors module_no list_destructors plist = do {
     r \<leftarrow> zend_hash_apply_with_argument list_destructors zend_clean_module_rsrc_dtors_cb module_no (Some plist);
     (case r of Inl _ \<Rightarrow> None | Inr (ld, plist) \<Rightarrow> do { plist \<leftarrow> plist; Some (ld, plist) })
   }"

text \<open>Registering: the new entry gets the next number, which is its type from then on.\<close>

definition register_dtors ::
  "(int \<Rightarrow> 'f dtors_entry) \<Rightarrow> 'f dtors_table \<Rightarrow> (int \<times> 'f dtors_table) option" where
  "register_dtors lde list_destructors = do {
     (r, _, t) \<leftarrow> zend_hash_index_update_or_next_insert list_destructors 0
       (lde (to_int (sint (nNextFreeElement list_destructors)))) HASH_NEXT_INSERT;
     Some (if r = FAILURE then FAILURE else to_int (sint (nNextFreeElement t - 1)), t)
   }"

definition zend_register_list_destructors ::
  "'f option \<Rightarrow> 'f option \<Rightarrow> int \<Rightarrow> 'f dtors_table \<Rightarrow> (int \<times> 'f dtors_table) option" where
  "zend_register_list_destructors ld pld module_no =
     register_dtors (\<lambda>rid. \<lparr>list_dtor = ld, plist_dtor = pld, list_dtor_ex = None, plist_dtor_ex = None,
       type_name = None, module_number = module_no, resource_id = rid, dtors_type = ZEND_RESOURCE_LIST_TYPE_STD\<rparr>)"

definition zend_register_list_destructors_ex ::
  "'f option \<Rightarrow> 'f option \<Rightarrow> byte list option \<Rightarrow> int \<Rightarrow> 'f dtors_table \<Rightarrow> (int \<times> 'f dtors_table) option" where
  "zend_register_list_destructors_ex ld pld name module_no =
     register_dtors (\<lambda>rid. \<lparr>list_dtor = None, plist_dtor = None, list_dtor_ex = ld, plist_dtor_ex = pld,
       type_name = name, module_number = module_no, resource_id = rid, dtors_type = ZEND_RESOURCE_LIST_TYPE_EX\<rparr>)"

text \<open>The traversal with an external position.\<close>

partial_function (option) fetch_dtor_loop :: "byte list \<Rightarrow> 'f dtors_table \<Rightarrow> ptr option \<Rightarrow> int option" where
  "fetch_dtor_loop name ht pos = do {
     lde \<leftarrow> zend_hash_get_current_data_ex ht pos;
     (case lde of
        None \<Rightarrow> Some 0
      | Some lde \<Rightarrow>
          if type_name lde = Some name then Some (resource_id lde)
          else do { (_, ht, pos) \<leftarrow> zend_hash_move_forward_ex ht pos; fetch_dtor_loop name ht pos })
   }"

definition zend_fetch_list_dtor_id :: "byte list \<Rightarrow> 'f dtors_table \<Rightarrow> int option" where
  "zend_fetch_list_dtor_id name list_destructors =
     (case zend_hash_internal_pointer_reset_ex list_destructors (Some None) of (ht, pos) \<Rightarrow> fetch_dtor_loop name ht pos)"

definition zend_init_rsrc_list_dtors :: "'f dtors_table \<Rightarrow> 'f dtors_table" where
  "zend_init_rsrc_list_dtors list_destructors = (zend_hash_init 50 False True list_destructors)\<lparr>nNextFreeElement := 1\<rparr>"

definition zend_destroy_rsrc_list_dtors :: "'f dtors_table \<Rightarrow> 'f dtors_table option" where
  "zend_destroy_rsrc_list_dtors list_destructors = zend_hash_destroy list_destructors"

text \<open>The name of the type of a resource; the type found is looked up even when it has no entry.\<close>

definition zend_rsrc_list_get_rsrc_type ::
  "32 word \<Rightarrow> 'p rsrc_table \<Rightarrow> 'f dtors_table \<Rightarrow> byte list option option" where
  "zend_rsrc_list_get_rsrc_type resource list list_destructors = do {
     (ptr, rsrc_type) \<leftarrow> zend_list_find resource list;
     (if ptr = None then Some None
      else do {
        lde \<leftarrow> zend_hash_index_find list_destructors (word_of_int rsrc_type);
        Some (case lde of None \<Rightarrow> None | Some lde \<Rightarrow> type_name lde)
      })
   }"

end
