(* ===== verification/Simulation.thy ===== *)
theory Simulation
  imports Zend_Prelude
begin

text \<open>
  The interface of a component whose operations answer like those of an abstract state:
  \<open>rep k s a\<close> says that \<open>s\<close> stands for \<open>a\<close> after at most \<open>k\<close> operations.
\<close>

fun run_steps :: "('op \<Rightarrow> 's \<Rightarrow> ('r \<times> 's) option) \<Rightarrow> 'op list \<Rightarrow> 's \<Rightarrow> ('r list \<times> 's) option" where
  "run_steps step [] s = Some ([], s)"
| "run_steps step (op # ops) s = do {
     (r, s) \<leftarrow> step op s;
     (rs, s) \<leftarrow> run_steps step ops s;
     Some (r # rs, s)
   }"

fun run_spec :: "('op \<Rightarrow> 'a \<Rightarrow> 'r \<times> 'a) \<Rightarrow> 'op list \<Rightarrow> 'a \<Rightarrow> 'r list \<times> 'a" where
  "run_spec spec [] a = ([], a)"
| "run_spec spec (op # ops) a =
     (let (r, a) = spec op a; (rs, a) = run_spec spec ops a in (r # rs, a))"

text \<open>What every step of the specification keeps holds after a run.\<close>

lemma run_spec_invariant:
  assumes "\<And>op a. I a \<Longrightarrow> I (snd (spec op a))" and "I a"
  shows "I (snd (run_spec spec ops a))"
  using assms(2)
proof (induction ops arbitrary: a)
  case (Cons op ops)
  then show ?case using assms(1) [of a op] by (auto simp: split_beta Let_def)
qed simp

locale simulation =
  fixes rep :: "nat \<Rightarrow> 's \<Rightarrow> 'a \<Rightarrow> bool"
    and step :: "'op \<Rightarrow> 's \<Rightarrow> ('r \<times> 's) option"
    and spec :: "'op \<Rightarrow> 'a \<Rightarrow> 'r \<times> 'a"
    and limit :: nat
  assumes rep_step: "rep k s a \<Longrightarrow> k < limit \<Longrightarrow>
    \<exists>s'. step op s = Some (fst (spec op a), s') \<and> rep (Suc k) s' (snd (spec op a))"
begin

lemma run_simulates:
  assumes "rep k s a" and "k + length ops \<le> limit"
  shows "\<exists>s'. run_steps step ops s = Some (fst (run_spec spec ops a), s') \<and>
    rep (k + length ops) s' (snd (run_spec spec ops a))"
  using assms
proof (induction ops arbitrary: k s a)
  case Nil
  then show ?case by simp
next
  case (Cons op ops)
  obtain s1 where s1: "step op s = Some (fst (spec op a), s1)" "rep (Suc k) s1 (snd (spec op a))"
    using rep_step [OF Cons.prems(1), of op] Cons.prems(2) by auto
  obtain s2 where s2: "run_steps step ops s1 = Some (fst (run_spec spec ops (snd (spec op a))), s2)"
    "rep (Suc k + length ops) s2 (snd (run_spec spec ops (snd (spec op a))))"
    using Cons.IH [OF s1(2)] Cons.prems(2) by auto
  then show ?case using s1(1) by (auto simp: split_beta Let_def)
qed

end

end
