(* ===== verification/Zend_List_Correct.thy ===== *)
theory Zend_List_Correct
  imports Zend_List Zend_Hash_Sort_Correct Simulation
begin

text \<open>
  Resource lists count references: the list behaves like a table of resources under the numbers
  \<open>1, 2, \<dots>\<close>, each destroyed when its count comes down to zero.
\<close>

subsection \<open>Entries reached by a pointer\<close>

lemma index_bucket_run:
  assumes "ht_ok ht L"
  shows "index_bucket ht h = Some (addr_of (pay (cells ht)) L (Num h))"
  using index_lookup [OF assms, of h] by (auto simp: index_bucket_def)

lemma bucket_modify:
  assumes "ht_rep ht es" and "map_of es (Num h) = Some d"
  shows "\<exists>a b ht'. index_bucket ht h = Some (Some a) \<and> deref ht (Some a) = Some b \<and> pData b = d \<and>
    poke (pData_update g) (Some a) ht = Some ht' \<and> ht_rep ht' (AList.update (Num h) (g d) es) \<and>
    same_meta ht ht' \<and> nNextFreeElement ht' = nNextFreeElement ht \<and> ht_destroyed ht' = ht_destroyed ht"
proof -
  obtain L where L: "ht_ok ht L" "es = entries (pay (cells ht)) L" using assms(1) by (auto simp: ht_rep_def)
  obtain a where a: "addr_of (pay (cells ht)) L (Num h) = Some a" "d = pdata (the (pay (cells ht) a))"
    using assms(2) unfolding L(2) map_of_entries by auto
  then have aL: "a \<in> set L" using addr_of_SomeD by metis
  obtain b where b: "cells ht a = Some b" using ht_ok_cell [OF L(1) aL] .
  obtain C' p where C: "pay (cells ht) a = Some p" "poke (pData_update g) (Some a) ht = Some (ht\<lparr>cells := C'\<rparr>)"
    "ht_ok (ht\<lparr>cells := C'\<rparr>) L" "pay C' = (pay (cells ht))(a \<mapsto> put_data (g (pdata p)) p)"
    using poke_data_run [OF L(1) aL] by blast
  have d: "pdata p = d" "pData b = d" using a(2) C(1) b by (auto simp: pay_def payload_def)
  have "entries (pay C') L = AList.update (Num h) (g d) es"
    unfolding C(4) L(2) d(1) [symmetric] using entries_put [OF ht_okD(13) [OF L(1)] ht_okD(10) [OF L(1)] a(1) C(1)] .
  then have "ht_rep (ht\<lparr>cells := C'\<rparr>) (AList.update (Num h) (g d) es)" using C(3) by (auto simp: ht_rep_def)
  then show ?thesis using index_bucket_run [OF L(1), of h] a(1) b d(2) C(2) by (auto simp: same_meta_def)
qed

lemma bucket_absent:
  assumes "ht_rep ht es" and "map_of es (Num h) = None"
  shows "index_bucket ht h = Some None"
proof -
  obtain L where L: "ht_ok ht L" "es = entries (pay (cells ht)) L" using assms(1) by (auto simp: ht_rep_def)
  then show ?thesis using index_bucket_run [OF L(1)] assms(2) by (simp add: map_of_entries)
qed

subsection \<open>Numbers as keys\<close>

definition num_entries :: "(nat \<times> 'd) list \<Rightarrow> (hkey \<times> 'd) list" where
  "num_entries rs = map (\<lambda>(i, r). (Num (of_nat i), r)) rs"

definition small_ids :: "(nat \<times> 'd) list \<Rightarrow> bool" where
  "small_ids rs \<longleftrightarrow> (\<forall>i \<in> fst ` set rs. i < 2 ^ 31)"

lemma id_key_sint: "sint (id_key rid) = sint rid"
  by (simp add: id_key_def sint_up_scast is_up)

lemma sint_of_nat_64: "i < 2 ^ 31 \<Longrightarrow> sint (of_nat i :: ulong) = int i"
  by (simp add: sint_uint uint_nat unat_of_nat signed_take_bit_int_eq_self)

lemma sint_unat_32: "sint (rid :: 32 word) = int i \<longleftrightarrow> unat rid = i" if "i < 2 ^ 31" for i
proof -
  have n: "uint rid = int (unat rid)" by simp
  have u: "0 \<le> uint rid" "uint rid < 2 ^ 32" using uint_lt2p [of rid] by simp_all
  have s: "sint rid = (uint rid + 2 ^ 31) mod 2 ^ 32 - 2 ^ 31"
    by (simp add: sint_uint signed_take_bit_eq_take_bit_shift take_bit_eq_mod)
  show ?thesis
  proof (cases "uint rid < 2 ^ 31")
    case True
    then have "sint rid = uint rid" using u s by simp
    then show ?thesis using n by (metis of_nat_eq_iff)
  next
    case False
    have "(uint rid + 2 ^ 31) mod 2 ^ 32 = (uint rid - 2 ^ 31) mod 2 ^ 32"
      using mod_add_self2 [of "uint rid - 2 ^ 31" "2 ^ 32"] by (simp add: add.commute)
    also have "\<dots> = uint rid - 2 ^ 31" using u False by (intro mod_pos_pos_trivial) auto
    finally have "sint rid = uint rid - 2 ^ 32" using s by simp
    then have "sint rid \<noteq> int i" using u by linarith
    moreover have "unat rid \<noteq> i"
    proof
      assume "unat rid = i"
      then show False using False that n by simp
    qed
    ultimately show ?thesis by blast
  qed
qed

lemma id_key_eq: "i < 2 ^ 31 \<Longrightarrow> id_key rid = of_nat i \<longleftrightarrow> unat rid = i"
  using sint_inject [of "id_key rid" "of_nat i"] by (simp add: id_key_sint sint_of_nat_64 sint_unat_32)

lemma id_key_ucast: "unat rid < 2 ^ 31 \<Longrightarrow> ucast rid = id_key rid"
  using id_key_eq [of "unat rid" rid] by simp

lemma map_of_num_entries:
  assumes "small_ids rs" shows "map_of (num_entries rs) (Num (id_key rid)) = map_of rs (unat rid)"
  using assms by (induction rs) (auto simp: num_entries_def small_ids_def id_key_eq eq_commute [of "of_nat _" "id_key rid"])

lemma update_num_entries:
  assumes "small_ids rs" and "unat rid < 2 ^ 31"
  shows "AList.update (Num (id_key rid)) d (num_entries rs) = num_entries (AList.update (unat rid) d rs)"
  using assms(1)
proof (induction rs)
  case Nil
  then show ?case using id_key_eq [OF assms(2), of rid] by (simp add: num_entries_def)
next
  case (Cons x rs)
  then show ?case
    by (cases x) (auto simp: num_entries_def small_ids_def id_key_eq eq_commute [of "of_nat _" "id_key rid"])
qed

lemma delete_num_entries:
  assumes "small_ids rs"
  shows "AList.delete (Num (id_key rid)) (num_entries rs) = num_entries (AList.delete (unat rid) rs)"
  using assms
  by (induction rs) (auto simp: num_entries_def small_ids_def id_key_eq id_key_ucast eq_commute [of "of_nat _" "id_key rid"])

lemma num_entries_snoc: "num_entries (rs @ [(n, r)]) = num_entries rs @ [(Num (of_nat n), r)]"
  by (simp add: num_entries_def)

subsection \<open>The specification\<close>

text \<open>The next number, the resources in use, and those destroyed so far.\<close>

record 'p rsrc_state =
  next_id :: nat
  in_use :: "(nat \<times> 'p rsrc_entry) list"
  dead :: "'p rsrc_entry list"

datatype 'p rsrc_op = Insert_rsrc "'p option" int | Addref_rsrc "32 word" | Delete_rsrc "32 word"

definition with_count :: "int \<Rightarrow> 'p rsrc_entry \<Rightarrow> 'p rsrc_entry" where
  "with_count k le = le\<lparr>rs_refcount := rs_refcount le + k\<rparr>"

fun rsrc_spec :: "'p rsrc_op \<Rightarrow> 'p rsrc_state \<Rightarrow> int \<times> 'p rsrc_state" where
  "rsrc_spec (Insert_rsrc ptr type) st = (int (next_id st),
     st\<lparr>next_id := next_id st + 1, in_use := in_use st @ [(next_id st, \<lparr>rs_ptr = ptr, rs_type = type, rs_refcount = 1\<rparr>)]\<rparr>)"
| "rsrc_spec (Addref_rsrc rid) st =
     (case map_of (in_use st) (unat rid) of None \<Rightarrow> (FAILURE, st)
      | Some le \<Rightarrow> (SUCCESS, st\<lparr>in_use := AList.update (unat rid) (with_count 1 le) (in_use st)\<rparr>))"
| "rsrc_spec (Delete_rsrc rid) st =
     (case map_of (in_use st) (unat rid) of None \<Rightarrow> (FAILURE, st)
      | Some le \<Rightarrow> (SUCCESS,
          if rs_refcount le \<le> 1
          then st\<lparr>in_use := AList.delete (unat rid) (in_use st), dead := dead st @ [with_count (- 1) le]\<rparr>
          else st\<lparr>in_use := AList.update (unat rid) (with_count (- 1) le) (in_use st)\<rparr>))"

fun rsrc_step :: "'p rsrc_op \<Rightarrow> 'p rsrc_table \<Rightarrow> (int \<times> 'p rsrc_table) option" where
  "rsrc_step (Insert_rsrc ptr type) list = do { (rid, list) \<leftarrow> zend_list_insert ptr type list; Some (sint rid, list) }"
| "rsrc_step (Addref_rsrc rid) list = zend_list_addref rid list"
| "rsrc_step (Delete_rsrc rid) list = zend_list_delete rid list"

definition rsrc_rep :: "nat \<Rightarrow> 'p rsrc_table \<Rightarrow> 'p rsrc_state \<Rightarrow> bool" where
  "rsrc_rep k list st \<longleftrightarrow> ht_rep list (num_entries (in_use st)) \<and> pDestructor list \<and>
     nNextFreeElement list = of_nat (next_id st) \<and> ht_destroyed list = dead st \<and>
     0 < next_id st \<and> next_id st \<le> Suc k \<and> length (in_use st) \<le> k \<and>
     (\<forall>(i, le) \<in> set (in_use st). 0 < i \<and> i < next_id st \<and> 0 < rs_refcount le \<and> rs_refcount le \<le> int k)"

definition rsrc_limit :: nat where "rsrc_limit = 2 ^ 31 - 2"

lemma rsrc_rep_small: "rsrc_rep k list st \<Longrightarrow> k \<le> rsrc_limit \<Longrightarrow> small_ids (in_use st)"
  by (fastforce simp: rsrc_rep_def small_ids_def rsrc_limit_def)

lemma rsrc_rep_entry:
  assumes "rsrc_rep k list st" and "map_of (in_use st) i = Some le"
  shows "0 < i" "i < next_id st" "0 < rs_refcount le" "rs_refcount le \<le> int k"
  using assms map_of_SomeD [OF assms(2)] by (auto simp: rsrc_rep_def)

lemma set_alist_update: "set (AList.update i d es) \<subseteq> insert (i, d) (set es)"
  by (induction es) auto

lemma set_alist_delete: "set (AList.delete i es) \<subseteq> set es"
  by (induction es) auto

lemma length_update_present: "map_of es i \<noteq> None \<Longrightarrow> length (AList.update i d es) = length es"
  by (induction es) auto

text \<open>Entries that keep their place: the table after an entry is overwritten through its pointer.\<close>

lemma rsrc_rep_count:
  assumes rep: "rsrc_rep k list st" and lim: "k < rsrc_limit" and le: "map_of (in_use st) (unat rid) = Some le"
    and c: "c = 1 \<or> c = - 1 \<and> 1 < rs_refcount le"
    and list': "ht_rep list' (AList.update (Num (id_key rid)) (with_count c le) (num_entries (in_use st)))"
      "same_meta list list'" "nNextFreeElement list' = nNextFreeElement list" "ht_destroyed list' = ht_destroyed list"
  shows "rsrc_rep (Suc k) list' (st\<lparr>in_use := AList.update (unat rid) (with_count c le) (in_use st)\<rparr>)"
proof -
  note e = rsrc_rep_entry [OF rep le]
  have small: "small_ids (in_use st)" "unat rid < 2 ^ 31"
    using rsrc_rep_small [OF rep] lim e(2) rep by (auto simp: rsrc_rep_def rsrc_limit_def)
  have "0 < rs_refcount (with_count c le) \<and> rs_refcount (with_count c le) \<le> int (Suc k)"
    using e(3,4) c by (auto simp: with_count_def)
  moreover have "length (AList.update (unat rid) (with_count c le) (in_use st)) = length (in_use st)"
    using le by (intro length_update_present) simp
  moreover have "set (AList.update (unat rid) (with_count c le) (in_use st)) \<subseteq> insert (unat rid, with_count c le) (set (in_use st))"
    by (rule set_alist_update)
  ultimately show ?thesis
    using rep list' e(1,2) unfolding update_num_entries [OF small]
    by (fastforce simp: rsrc_rep_def same_meta_def)
qed

subsection \<open>The operations follow the specification\<close>

lemma update_absent: "map_of es K = None \<Longrightarrow> AList.update K d es = es @ [(K, d)]"
  by (induction es) (auto split: if_splits)

lemma insert_step:
  assumes rep: "rsrc_rep k list st" and lim: "k < rsrc_limit"
  shows "\<exists>list'. rsrc_step (Insert_rsrc ptr type) list = Some (fst (rsrc_spec (Insert_rsrc ptr type) st), list') \<and>
    rsrc_rep (Suc k) list' (snd (rsrc_spec (Insert_rsrc ptr type) st))"
proof -
  let ?n = "next_id st" and ?le = "\<lparr>rs_ptr = ptr, rs_type = type, rs_refcount = 1\<rparr>"
  let ?rid = "ucast (nNextFreeElement list) :: 32 word"
  have n: "?n < 2 ^ 31" "?n \<le> Suc k" "nNextFreeElement list = of_nat ?n"
    using rep lim by (auto simp: rsrc_rep_def rsrc_limit_def)
  have "unat (of_nat ?n :: ulong) = ?n" using n(1) by (simp add: unat_of_nat)
  then have u: "unat ?rid = ?n" using n(1,3) by (simp add: unsigned_ucast_eq take_bit_eq_mod)
  have key: "id_key ?rid = of_nat ?n" using u n(1) id_key_eq by blast
  have s: "sint ?rid = int ?n" using u n(1) sint_unat_32 by blast
  have "map_of (in_use st) ?n = None"
    using rep by (force simp: rsrc_rep_def map_of_eq_None_iff)
  then have abs: "map_of (num_entries (in_use st)) (Num (id_key ?rid)) = None"
    using map_of_num_entries [OF rsrc_rep_small [OF rep]] lim u by simp
  have len: "length (num_entries (in_use st)) + 1 < 2 ^ 32"
    using rep lim by (simp add: rsrc_rep_def rsrc_limit_def num_entries_def)
  have r: "ht_rep list (num_entries (in_use st))" using rep by (simp add: rsrc_rep_def)
  obtain r0 p list' where i: "zend_hash_index_update_or_next_insert list (id_key ?rid) ?le HASH_UPDATE = Some (r0, p, list')"
    "stored list (num_entries (in_use st)) (Num (id_key ?rid)) ?le False (r0, p, list')"
    "nNextFreeElement list' = (if r0 = SUCCESS then raised (id_key ?rid) (nNextFreeElement list) else nNextFreeElement list)"
    using index_update_or_next_insert_run [OF r len, where flag = HASH_UPDATE and idx = "id_key ?rid" and d = ?le] by auto
  have st: "r0 = SUCCESS" "ht_rep list' (num_entries (in_use st @ [(?n, ?le)]))" "same_meta list list'"
    "ht_destroyed list' = ht_destroyed list"
    using i(2) abs update_absent [OF abs, of ?le] by (auto simp: stored_def num_entries_snoc key)
  have "(of_nat ?n :: ulong) < LONG_MAX" using n(1) by (simp add: word_less_nat_alt unat_of_nat LONG_MAX_def)
  then have "nNextFreeElement list' = of_nat (Suc ?n)" using i(3) st(1) n(3) key by (simp add: raised_def add.commute)
  then have "rsrc_rep (Suc k) list' (snd (rsrc_spec (Insert_rsrc ptr type) st))"
    using rep st n(2) by (auto simp: rsrc_rep_def same_meta_def)
  moreover have "rsrc_step (Insert_rsrc ptr type) list = Some (int ?n, list')"
    using i(1) s by (simp add: zend_list_insert_def zend_hash_next_free_element_def)
  ultimately show ?thesis by auto
qed

lemma absent_step:
  assumes rep: "rsrc_rep k list st" and lim: "k < rsrc_limit" and "map_of (in_use st) (unat rid) = None"
  shows "zend_list_addref rid list = Some (FAILURE, list)" "zend_list_delete rid list = Some (FAILURE, list)"
    "rsrc_rep (Suc k) list st"
proof -
  have "ht_rep list (num_entries (in_use st))" "map_of (num_entries (in_use st)) (Num (id_key rid)) = None"
    using rep map_of_num_entries [OF rsrc_rep_small [OF rep]] lim assms(3) by (auto simp: rsrc_rep_def)
  then have "index_bucket list (id_key rid) = Some None" by (rule bucket_absent)
  then show "zend_list_addref rid list = Some (FAILURE, list)" "zend_list_delete rid list = Some (FAILURE, list)"
    by (simp_all add: zend_list_addref_def zend_list_delete_def)
  show "rsrc_rep (Suc k) list st" using rep by (auto simp: rsrc_rep_def)
qed

text \<open>Both operations on an entry in use change its count through the pointer.\<close>

lemma count_step:
  assumes rep: "rsrc_rep k list st" and lim: "k < rsrc_limit" and le: "map_of (in_use st) (unat rid) = Some le"
    and c: "\<bar>c\<bar> \<le> 1"
  shows "\<exists>a b list'. index_bucket list (id_key rid) = Some (Some a) \<and> deref list (Some a) = Some b \<and>
    rs_refcount (pData b) = rs_refcount le \<and> c_int (rs_refcount (pData b) + c) = Some (rs_refcount le + c) \<and>
    poke (pData_update (\<lambda>x. x\<lparr>rs_refcount := rs_refcount le + c\<rparr>)) (Some a) list = Some list' \<and>
    ht_rep list' (AList.update (Num (id_key rid)) (with_count c le) (num_entries (in_use st))) \<and>
    same_meta list list' \<and> nNextFreeElement list' = nNextFreeElement list \<and> ht_destroyed list' = ht_destroyed list"
proof -
  have r: "ht_rep list (num_entries (in_use st))" using rep by (simp add: rsrc_rep_def)
  have m: "map_of (num_entries (in_use st)) (Num (id_key rid)) = Some le"
    using map_of_num_entries [OF rsrc_rep_small [OF rep]] lim le by simp
  obtain a b list' where ab: "index_bucket list (id_key rid) = Some (Some a)" "deref list (Some a) = Some b" "pData b = le"
    "poke (pData_update (\<lambda>x. x\<lparr>rs_refcount := rs_refcount le + c\<rparr>)) (Some a) list = Some list'"
    "ht_rep list' (AList.update (Num (id_key rid)) (le\<lparr>rs_refcount := rs_refcount le + c\<rparr>) (num_entries (in_use st)))"
    "same_meta list list'" "nNextFreeElement list' = nNextFreeElement list" "ht_destroyed list' = ht_destroyed list"
    using bucket_modify [OF r m, of "\<lambda>x. x\<lparr>rs_refcount := rs_refcount le + c\<rparr>"] by blast
  have "c_int (rs_refcount le + c) = Some (rs_refcount le + c)"
    using rsrc_rep_entry(3,4) [OF rep le] lim c by (simp add: INT_MAX_def rsrc_limit_def)
  then show ?thesis using ab unfolding with_count_def by blast
qed

lemma addref_step:
  assumes rep: "rsrc_rep k list st" and lim: "k < rsrc_limit"
  shows "\<exists>list'. rsrc_step (Addref_rsrc rid) list = Some (fst (rsrc_spec (Addref_rsrc rid) st), list') \<and>
    rsrc_rep (Suc k) list' (snd (rsrc_spec (Addref_rsrc rid) st))"
proof (cases "map_of (in_use st) (unat rid)")
  case None
  then show ?thesis using absent_step [OF rep lim None] by simp
next
  case (Some le)
  obtain a b list' where s: "index_bucket list (id_key rid) = Some (Some a)" "deref list (Some a) = Some b"
    "rs_refcount (pData b) = rs_refcount le" "c_int (rs_refcount (pData b) + 1) = Some (rs_refcount le + 1)"
    "poke (pData_update (\<lambda>x. x\<lparr>rs_refcount := rs_refcount le + 1\<rparr>)) (Some a) list = Some list'"
    "ht_rep list' (AList.update (Num (id_key rid)) (with_count 1 le) (num_entries (in_use st)))"
    "same_meta list list'" "nNextFreeElement list' = nNextFreeElement list" "ht_destroyed list' = ht_destroyed list"
    using count_step [OF rep lim Some, of 1] by auto
  have "rsrc_step (Addref_rsrc rid) list = Some (SUCCESS, list')"
    using s(1,2,4,5) by (simp add: zend_list_addref_def)
  then show ?thesis using Some rsrc_rep_count [OF rep lim Some _ s(6-9)] by simp
qed

lemma delete_step:
  assumes rep: "rsrc_rep k list st" and lim: "k < rsrc_limit"
  shows "\<exists>list'. rsrc_step (Delete_rsrc rid) list = Some (fst (rsrc_spec (Delete_rsrc rid) st), list') \<and>
    rsrc_rep (Suc k) list' (snd (rsrc_spec (Delete_rsrc rid) st))"
proof (cases "map_of (in_use st) (unat rid)")
  case None
  then show ?thesis using absent_step [OF rep lim None] by simp
next
  case (Some le)
  let ?K = "Num (id_key rid)" and ?es = "num_entries (in_use st)"
  obtain a b l1 where s: "index_bucket list (id_key rid) = Some (Some a)" "deref list (Some a) = Some b"
    "rs_refcount (pData b) = rs_refcount le" "c_int (rs_refcount (pData b) - 1) = Some (rs_refcount le - 1)"
    "poke (pData_update (\<lambda>x. x\<lparr>rs_refcount := rs_refcount le - 1\<rparr>)) (Some a) list = Some l1"
    "ht_rep l1 (AList.update ?K (with_count (- 1) le) ?es)"
    "same_meta list l1" "nNextFreeElement l1 = nNextFreeElement list" "ht_destroyed l1 = ht_destroyed list"
    using count_step [OF rep lim Some, of "- 1"] by auto
  have step: "rsrc_step (Delete_rsrc rid) list = (if rs_refcount le - 1 \<le> 0
      then zend_hash_del_key_or_index l1 (Outside []) 0 (id_key rid) HASH_DEL_INDEX else Some (SUCCESS, l1))"
    using s(1,2,4,5) by (simp add: zend_list_delete_def)
  show ?thesis
  proof (cases "rs_refcount le \<le> 1")
    case False
    then show ?thesis using step Some rsrc_rep_count [OF rep lim Some _ s(6-9)] by simp
  next
    case True
    have m: "map_of (AList.update ?K (with_count (- 1) le) ?es) ?K = Some (with_count (- 1) le)" by (simp add: update_conv')
    obtain l2 where d: "zend_hash_del_key_or_index l1 (Outside []) 0 (id_key rid) HASH_DEL_INDEX = Some (SUCCESS, l2)"
      "ht_rep l2 (AList.delete ?K ?es)" "same_meta l1 l2" "nNextFreeElement l2 = nNextFreeElement l1"
      "ht_destroyed l2 = ht_destroyed l1 @ (if pDestructor l1 then [with_count (- 1) le] else [])"
      using del_run [OF s(6) own_del_args(3) [of "id_key rid"]] unfolding m delete_update_same by auto
    have small: "small_ids (in_use st)" using rsrc_rep_small [OF rep] lim by simp
    have "set (AList.delete (unat rid) (in_use st)) \<subseteq> set (in_use st)" by (rule set_alist_delete)
    moreover have "length (AList.delete (unat rid) (in_use st)) \<le> length (in_use st)" by (rule length_delete_le)
    ultimately have "rsrc_rep (Suc k) l2 (snd (rsrc_spec (Delete_rsrc rid) st))"
      using rep Some True d(2-5) s(7-9) unfolding delete_num_entries [OF small]
      by (fastforce simp: rsrc_rep_def same_meta_def)
    then show ?thesis using step True Some d(1) by simp
  qed
qed

interpretation resources: simulation rsrc_rep rsrc_step rsrc_spec rsrc_limit
proof
  show "rsrc_rep k s a \<Longrightarrow> k < rsrc_limit \<Longrightarrow>
    \<exists>s'. rsrc_step op s = Some (fst (rsrc_spec op a), s') \<and> rsrc_rep (Suc k) s' (snd (rsrc_spec op a))" for k s a op
    by (cases op) (use insert_step addref_step delete_step in blast)+
qed

subsection \<open>A new list, and the end of the request\<close>

definition no_resources :: "'p rsrc_state" where
  "no_resources = \<lparr>next_id = 1, in_use = [], dead = []\<rparr>"

lemma ht_rep_next:
  assumes "ht_rep ht []" and "0 \<le> sint n"
  shows "ht_rep (ht\<lparr>nNextFreeElement := n\<rparr>) []"
proof -
  obtain L where L: "ht_ok ht L" "entries (pay (cells ht)) L = []" using assms(1) by (auto simp: ht_rep_def)
  then have "L = []" by (simp add: entries_def)
  then have "ht_ok (ht\<lparr>nNextFreeElement := n\<rparr>) []"
    using L(1) assms(2) by (auto simp: ht_ok_def table_ok_def arena_ok_def next_ok_def pay_def simp del: split_paired_All)
  then show ?thesis by (auto simp: ht_rep_def entries_def)
qed

lemma rsrc_rep_init:
  assumes "cells list = Map.empty" and "ht_destroyed list = []"
  shows "rsrc_rep 0 (zend_init_rsrc_list list) no_resources"
proof -
  have "ht_rep (zend_hash_init 0 True False list) []"
    using ht_ok_init [OF assms(1)] by (auto simp: ht_rep_def entries_def)
  from ht_rep_next [OF this, of 1] show ?thesis using assms(2)
    by (auto simp: rsrc_rep_def no_resources_def zend_init_rsrc_list_def num_entries_def zend_hash_init_def)
qed

lemma data_of_num_entries: "data_of (num_entries rs) = map snd rs"
  by (induction rs) (auto simp: num_entries_def data_of_def)

lemma destroy_resources:
  assumes "rsrc_rep k list st"
  shows "\<exists>list'. zend_destroy_rsrc_list list = Some list' \<and> ht_destroyed list' = dead st @ rev (map snd (in_use st)) \<and>
    cells list' = Map.empty"
  using graceful_reverse_destroy_run [of list "num_entries (in_use st)"] assms
  by (auto simp: rsrc_rep_def zend_destroy_rsrc_list_def data_of_num_entries)

lemma find_step:
  assumes rep: "rsrc_rep k list st" and lim: "k \<le> rsrc_limit"
  shows "zend_list_find rid list = Some (case map_of (in_use st) (unat rid) of None \<Rightarrow> (None, - 1)
    | Some le \<Rightarrow> (rs_ptr le, rs_type le))"
proof -
  have r: "ht_rep list (num_entries (in_use st))" using rep by (simp add: rsrc_rep_def)
  have m: "map_of (num_entries (in_use st)) (Num (id_key rid)) = map_of (in_use st) (unat rid)"
    using map_of_num_entries [OF rsrc_rep_small [OF rep lim]] .
  show ?thesis
  proof (cases "map_of (in_use st) (unat rid)")
    case None
    then show ?thesis using bucket_absent [OF r] m by (simp add: zend_list_find_def)
  next
    case (Some le)
    then obtain a b where "index_bucket list (id_key rid) = Some (Some a)" "deref list (Some a) = Some b" "pData b = le"
      using bucket_modify [OF r, of "id_key rid" le] m by metis
    then show ?thesis using Some by (simp add: zend_list_find_def)
  qed
qed

subsection \<open>Every resource is destroyed once\<close>

definition spec_ptrs :: "'p rsrc_state \<Rightarrow> 'p option multiset" where
  "spec_ptrs st = mset (map rs_ptr (dead st)) + mset (map (rs_ptr \<circ> snd) (in_use st))"

definition ids_ok :: "'p rsrc_state \<Rightarrow> bool" where
  "ids_ok st \<longleftrightarrow> distinct (map fst (in_use st)) \<and> (\<forall>i \<in> set (map fst (in_use st)). i < next_id st)"

fun inserted_ptrs :: "'p rsrc_op list \<Rightarrow> 'p option list" where
  "inserted_ptrs [] = []"
| "inserted_ptrs (Insert_rsrc ptr type # ops) = ptr # inserted_ptrs ops"
| "inserted_ptrs (_ # ops) = inserted_ptrs ops"

lemma with_count_ptr [simp]: "rs_ptr (with_count c le) = rs_ptr le"
  by (simp add: with_count_def)

lemma ptrs_update:
  "map_of es i = Some le \<Longrightarrow> map (rs_ptr \<circ> snd) (AList.update i (with_count c le) es) = map (rs_ptr \<circ> snd) es"
  by (induction es) (auto split: if_splits)

lemma keys_update_present: "map_of es i \<noteq> None \<Longrightarrow> map fst (AList.update i d es) = map fst es"
  by (induction es) auto

lemma ptrs_delete:
  assumes "map_of es i = Some le" and "distinct (map fst es)"
  shows "mset (map (rs_ptr \<circ> snd) es) = add_mset (rs_ptr le) (mset (map (rs_ptr \<circ> snd) (AList.delete i es)))"
  using assms
proof (induction es)
  case (Cons x es)
  show ?case
  proof (cases "fst x = i")
    case True
    then have "i \<notin> fst ` set es" using Cons.prems(2) by auto
    then have "AList.delete i es = es" by (simp add: delete_id)
    then show ?thesis using True Cons.prems(1) by (cases x) (simp add: AList.delete_eq)
  next
    case False
    then show ?thesis using Cons by (cases x) (simp add: AList.delete_eq)
  qed
qed simp

lemma count_keeps_ptrs:
  assumes "map_of (in_use st) i = Some le"
  shows "ids_ok (st\<lparr>in_use := AList.update i (with_count c le) (in_use st)\<rparr>) = ids_ok st"
    "spec_ptrs (st\<lparr>in_use := AList.update i (with_count c le) (in_use st)\<rparr>) = spec_ptrs st"
proof -
  have k: "map fst (AList.update i (with_count c le) (in_use st)) = map fst (in_use st)"
    using assms by (intro keys_update_present) simp
  have p: "map (rs_ptr \<circ> snd) (AList.update i (with_count c le) (in_use st)) = map (rs_ptr \<circ> snd) (in_use st)"
    by (rule ptrs_update [OF assms])
  show "ids_ok (st\<lparr>in_use := AList.update i (with_count c le) (in_use st)\<rparr>) = ids_ok st"
    unfolding ids_ok_def by (simp del: set_map add: k)
  show "spec_ptrs (st\<lparr>in_use := AList.update i (with_count c le) (in_use st)\<rparr>) = spec_ptrs st"
    unfolding spec_ptrs_def by (simp del: mset_map add: p)
qed

lemma spec_step_ptrs:
  assumes "ids_ok st"
  shows "ids_ok (snd (rsrc_spec op st)) \<and> spec_ptrs (snd (rsrc_spec op st)) = mset (inserted_ptrs [op]) + spec_ptrs st"
proof (cases op)
  case (Insert_rsrc ptr type)
  then show ?thesis using assms by (fastforce simp: ids_ok_def spec_ptrs_def)
next
  case (Addref_rsrc rid)
  then show ?thesis using assms count_keeps_ptrs [of st "unat rid" _ 1] by (cases "map_of (in_use st) (unat rid)") simp_all
next
  case (Delete_rsrc rid)
  show ?thesis
  proof (cases "map_of (in_use st) (unat rid)")
    case None
    then show ?thesis using assms Delete_rsrc by simp
  next
    case (Some le)
    let ?d = "AList.delete (unat rid) (in_use st)"
    let ?t = "st\<lparr>in_use := ?d, dead := dead st @ [with_count (- 1) le]\<rparr>"
    have "mset (map (rs_ptr \<circ> snd) (in_use st)) = add_mset (rs_ptr le) (mset (map (rs_ptr \<circ> snd) ?d))"
      by (rule ptrs_delete [OF Some]) (use assms in \<open>simp add: ids_ok_def\<close>)
    then have "spec_ptrs ?t = spec_ptrs st" by (simp add: spec_ptrs_def)
    moreover have "ids_ok ?t" using assms distinct_delete [of "in_use st" "unat rid"] set_alist_delete [of "unat rid" "in_use st"]
      by (auto simp: ids_ok_def)
    ultimately show ?thesis using assms Delete_rsrc Some count_keeps_ptrs [OF Some, of "- 1"] by simp
  qed
qed

lemma run_spec_ptrs:
  assumes "ids_ok st"
  shows "ids_ok (snd (run_spec rsrc_spec ops st)) \<and>
    spec_ptrs (snd (run_spec rsrc_spec ops st)) = mset (inserted_ptrs ops) + spec_ptrs st"
  using assms
proof (induction ops arbitrary: st)
  case (Cons op ops)
  note s = spec_step_ptrs [OF Cons.prems, of op]
  have i: "mset (inserted_ptrs (op # ops)) = mset (inserted_ptrs [op]) + mset (inserted_ptrs ops)" by (cases op) auto
  show ?case using Cons.IH [of "snd (rsrc_spec op st)"] s unfolding i by (auto simp: split_beta Let_def ac_simps)
qed simp

subsection \<open>Properties\<close>

text \<open>
  C16: a new resource list answers any run of registrations, references and deletions like a table
  of reference counts under the numbers \<open>1, 2, \<dots>\<close>: ids are never reused, look-up finds the
  resources in use, and an entry is destroyed when its count comes down to zero.
\<close>

theorem resources_are_counted:
  assumes "cells list = Map.empty" and "ht_destroyed list = []" and "length ops \<le> 2 ^ 31 - 2"
  shows "\<exists>list'. run_steps rsrc_step ops (zend_init_rsrc_list list) = Some (fst (run_spec rsrc_spec ops no_resources), list') \<and>
    ht_destroyed list' = dead (snd (run_spec rsrc_spec ops no_resources)) \<and>
    (\<forall>rid. zend_list_find rid list' =
      Some (case map_of (in_use (snd (run_spec rsrc_spec ops no_resources))) (unat rid) of
          None \<Rightarrow> (None, - 1) | Some le \<Rightarrow> (rs_ptr le, rs_type le)))"
proof -
  obtain list' where r: "run_steps rsrc_step ops (zend_init_rsrc_list list) = Some (fst (run_spec rsrc_spec ops no_resources), list')"
    "rsrc_rep (0 + length ops) list' (snd (run_spec rsrc_spec ops no_resources))"
    using resources.run_simulates [OF rsrc_rep_init [OF assms(1,2)], of ops] assms(3) by (auto simp: rsrc_limit_def)
  have "ht_destroyed list' = dead (snd (run_spec rsrc_spec ops no_resources))" using r(2) by (simp add: rsrc_rep_def)
  moreover have "0 + length ops \<le> rsrc_limit" using assms(3) by (simp add: rsrc_limit_def)
  ultimately show ?thesis using r(1) find_step [OF r(2)] by blast
qed

lemma resources_are_counted_witness:
  "\<exists>list'. run_steps rsrc_step [Insert_rsrc (Some 70) 3, Addref_rsrc 1, Delete_rsrc 1, Delete_rsrc 1, Insert_rsrc (Some 80) 4]
      (zend_init_rsrc_list (empty_table :: int rsrc_table)) = Some ([1, SUCCESS, SUCCESS, SUCCESS, 2], list') \<and>
    ht_destroyed list' = [\<lparr>rs_ptr = Some 70, rs_type = 3, rs_refcount = 0\<rparr>] \<and> zend_list_find 2 list' = Some (Some 80, 4)"
proof -
  have "cells (empty_table :: int rsrc_table) = Map.empty" "ht_destroyed (empty_table :: int rsrc_table) = []"
    by (simp_all add: empty_table_def zend_hash_init_def)
  from resources_are_counted [OF this, of "[Insert_rsrc (Some 70) 3, Addref_rsrc 1, Delete_rsrc 1, Delete_rsrc 1, Insert_rsrc (Some 80) 4]"]
  show ?thesis by (auto simp: no_resources_def with_count_def dest: spec [of _ 2])
qed

text \<open>
  C6: from a new list to the end of the request, whatever is registered, referenced and deleted,
  every registered resource is handed to the destructor exactly once, and no entry is left.
\<close>

theorem resources_destroyed_once:
  assumes "cells list = Map.empty" and "ht_destroyed list = []" and "length ops \<le> 2 ^ 31 - 2"
  shows "\<exists>rs l1 l2. run_steps rsrc_step ops (zend_init_rsrc_list list) = Some (rs, l1) \<and>
    zend_destroy_rsrc_list l1 = Some l2 \<and> mset (map rs_ptr (ht_destroyed l2)) = mset (inserted_ptrs ops) \<and>
    cells l2 = Map.empty"
proof -
  let ?st = "snd (run_spec rsrc_spec ops no_resources)"
  obtain l1 where r: "run_steps rsrc_step ops (zend_init_rsrc_list list) = Some (fst (run_spec rsrc_spec ops no_resources), l1)"
    "rsrc_rep (0 + length ops) l1 ?st"
    using resources.run_simulates [OF rsrc_rep_init [OF assms(1,2)], of ops] assms(3) by (auto simp: rsrc_limit_def)
  obtain l2 where d: "zend_destroy_rsrc_list l1 = Some l2" "ht_destroyed l2 = dead ?st @ rev (map snd (in_use ?st))"
    "cells l2 = Map.empty" using destroy_resources [OF r(2)] by blast
  have "spec_ptrs ?st = mset (inserted_ptrs ops)"
    using run_spec_ptrs [of no_resources ops] by (simp add: ids_ok_def spec_ptrs_def no_resources_def)
  then have "mset (map rs_ptr (ht_destroyed l2)) = mset (inserted_ptrs ops)"
    by (simp add: d(2) spec_ptrs_def multiset.map_comp)
  then show ?thesis using r(1) d(1,3) by blast
qed

lemma resources_destroyed_once_witness:
  "\<exists>rs l1 l2. run_steps rsrc_step [Insert_rsrc (Some 70) 3, Insert_rsrc (Some 80) 4, Delete_rsrc 1]
      (zend_init_rsrc_list (empty_table :: int rsrc_table)) = Some (rs, l1) \<and>
    zend_destroy_rsrc_list l1 = Some l2 \<and> mset (map rs_ptr (ht_destroyed l2)) = {#Some 70, Some 80#}"
proof -
  have "cells (empty_table :: int rsrc_table) = Map.empty" "ht_destroyed (empty_table :: int rsrc_table) = []"
    by (simp_all add: empty_table_def zend_hash_init_def)
  from resources_destroyed_once [OF this, of "[Insert_rsrc (Some 70) 3, Insert_rsrc (Some 80) 4, Delete_rsrc 1]"]
  show ?thesis by auto
qed

text \<open>
  Ids are \<open>int\<close>s and wrap. Once \<open>2^31\<close> numbers are used up, the next two resources get
  the same id \<open>-2^31\<close>, and registering the second destroys the first.
\<close>

theorem resource_ids_wrap:
  assumes "ht_rep list es" and "pDestructor list" and "nNextFreeElement list = 2 ^ 31" and "length es + 2 < 2 ^ 32"
    and "map_of es (Num (- (2 ^ 31))) = None"
  shows "\<exists>l1 l2. zend_list_insert p1 t1 list = Some (2 ^ 31, l1) \<and> zend_list_insert p2 t2 l1 = Some (2 ^ 31, l2) \<and>
    sint (2 ^ 31 :: 32 word) = - (2 ^ 31) \<and>
    ht_destroyed l2 = ht_destroyed list @ [\<lparr>rs_ptr = p1, rs_type = t1, rs_refcount = 1\<rparr>] \<and>
    zend_list_find (2 ^ 31) l2 = Some (p2, t2)"
proof -
  let ?e1 = "\<lparr>rs_ptr = p1, rs_type = t1, rs_refcount = 1\<rparr>" and ?e2 = "\<lparr>rs_ptr = p2, rs_type = t2, rs_refcount = 1\<rparr>"
  let ?h = "- (2 ^ 31) :: ulong"
  have key: "id_key (2 ^ 31) = ?h" by (simp add: id_key_def)
  have cut: "ucast (2 ^ 31 :: ulong) = (2 ^ 31 :: 32 word)" by simp
  have raise: "raised ?h (2 ^ 31) = 2 ^ 31" by (simp add: raised_def)
  obtain r1 q1 l1 where i1: "zend_hash_index_update_or_next_insert list ?h ?e1 HASH_UPDATE = Some (r1, q1, l1)"
    "stored list es (Num ?h) ?e1 False (r1, q1, l1)" "nNextFreeElement l1 = (if r1 = SUCCESS then raised ?h (2 ^ 31) else 2 ^ 31)"
    using index_update_or_next_insert_run [OF assms(1), where flag = HASH_UPDATE and idx = ?h and d = ?e1] assms(3,4) by auto
  have l1: "nNextFreeElement l1 = 2 ^ 31" "ht_rep l1 (AList.update (Num ?h) ?e1 es)" "pDestructor l1"
    "ht_destroyed l1 = ht_destroyed list"
    using i1(2,3) raise assms(2,5) by (auto simp: stored_def same_meta_def)
  have len: "length (AList.update (Num ?h) ?e1 es) + 1 < 2 ^ 32" using length_update_le [of "Num ?h" ?e1 es] assms(4) by simp
  obtain r2 q2 l2 where i2: "zend_hash_index_update_or_next_insert l1 ?h ?e2 HASH_UPDATE = Some (r2, q2, l2)"
    "stored l1 (AList.update (Num ?h) ?e1 es) (Num ?h) ?e2 False (r2, q2, l2)"
    using index_update_or_next_insert_run [OF l1(2) len, where flag = HASH_UPDATE and idx = ?h and d = ?e2] by auto
  have m: "map_of (AList.update (Num ?h) ?e1 es) (Num ?h) = Some ?e1" by (simp add: update_conv')
  have l2: "ht_rep l2 (AList.update (Num ?h) ?e2 (AList.update (Num ?h) ?e1 es))" "ht_destroyed l2 = ht_destroyed l1 @ [?e1]"
    using i2(2) l1(3) unfolding stored_def m by auto
  have "map_of (AList.update (Num ?h) ?e2 (AList.update (Num ?h) ?e1 es)) (Num ?h) = Some ?e2" by (simp add: update_conv')
  from bucket_modify [OF l2(1) this] obtain a b where "index_bucket l2 ?h = Some (Some a)" "deref l2 (Some a) = Some b" "pData b = ?e2"
    by blast
  then have "zend_list_find (2 ^ 31) l2 = Some (p2, t2)" by (simp only: zend_list_find_def key) simp
  moreover have "zend_list_insert p1 t1 list = Some (2 ^ 31, l1)"
    unfolding zend_list_insert_def zend_hash_next_free_element_def assms(3) cut Let_def key i1(1) by simp
  moreover have "zend_list_insert p2 t2 l1 = Some (2 ^ 31, l2)"
    unfolding zend_list_insert_def zend_hash_next_free_element_def l1(1) cut Let_def key i2(1) by simp
  ultimately show ?thesis using l2(2) l1(4) by simp
qed

lemma resource_ids_wrap_witness:
  "\<exists>l1 l2. zend_list_insert (Some 1) 5 ((empty_table :: int rsrc_table)\<lparr>nNextFreeElement := 2 ^ 31\<rparr>) = Some (2 ^ 31, l1) \<and>
    zend_list_insert (Some 2) 5 l1 = Some (2 ^ 31, l2) \<and> ht_destroyed l2 = [\<lparr>rs_ptr = Some 1, rs_type = 5, rs_refcount = 1\<rparr>]"
proof -
  let ?t = "(empty_table :: int rsrc_table)\<lparr>nNextFreeElement := 2 ^ 31\<rparr>"
  have "ht_rep ?t []" by (rule ht_rep_next [OF empty_table_rep]) simp
  moreover have "pDestructor ?t" "nNextFreeElement ?t = 2 ^ 31" "ht_destroyed ?t = []"
    by (simp_all add: empty_table_def zend_hash_init_def)
  ultimately show ?thesis using resource_ids_wrap [of ?t "[]" "Some 1" 5 "Some 2" 5] by auto
qed

end
