(* ===== verification/Gc_Graph.thy ===== *)
theory Gc_Graph
  imports Zend_Prelude
begin

text \<open>
  Trial deletion on a graph of counted nodes, the algorithm of \<open>Zend/zend_gc.c\<close> without its
  pointers: a graph gives every node the list of the nodes it refers to; a state gives every node a
  colour and a reference count. Counts are C \<open>unsigned int\<close>s, so that all sums are modulo
  \<open>2^32\<close>. Each traversal of the collector has a contract here (\<open>paint\<close>, \<open>scan\<close>,
  \<open>gather\<close>), with the lemmas that compose the contracts of its parts, and the last section
  says what the three phases together find.
\<close>

datatype gc_color = GC_BLACK | GC_WHITE | GC_GREY | GC_PURPLE

type_synonym 'n coloring = "'n \<Rightarrow> gc_color"
type_synonym 'n counts = "'n \<Rightarrow> uint"

locale rc_graph =
  fixes kids :: "'n \<Rightarrow> 'n list" and nodes :: "'n set" and zv :: "'n \<Rightarrow> bool"
  assumes finite_nodes: "finite nodes"
    and kids_closed: "m \<in> nodes \<Longrightarrow> set (kids m) \<subseteq> nodes"
begin

definition reach :: "'n \<Rightarrow> 'n \<Rightarrow> bool" where
  "reach = (\<lambda>m k. k \<in> set (kids m))\<^sup>*\<^sup>*"

text \<open>The references to \<open>x\<close> that a set of nodes holds.\<close>

definition edges :: "'n set \<Rightarrow> 'n \<Rightarrow> uint" where
  "edges N x = (\<Sum>m\<in>N. of_nat (count_list (kids m) x))"

lemma edges_union:
  assumes "N1 \<subseteq> nodes" and "N2 \<subseteq> nodes" and "N1 \<inter> N2 = {}"
  shows "edges (N1 \<union> N2) x = edges N1 x + edges N2 x"
  unfolding edges_def using assms finite_nodes by (intro sum.union_disjoint) (auto intro: finite_subset)

lemma edges_insert:
  assumes "N \<subseteq> nodes" and "n \<notin> N"
  shows "edges (insert n N) x = of_nat (count_list (kids n) x) + edges N x"
  unfolding edges_def using assms finite_nodes by (intro sum.insert) (auto intro: finite_subset)

lemma edges_empty [simp]: "edges {} x = 0"
  by (simp add: edges_def)

lemma edges_none: "(\<And>m. m \<in> N \<Longrightarrow> x \<notin> set (kids m)) \<Longrightarrow> edges N x = 0"
  unfolding edges_def by (intro sum.neutral) (auto simp: count_list_0_iff)

lemma reach_refl [intro, simp]: "reach n n"
  by (simp add: reach_def)

lemma reach_kid: "k \<in> set (kids m) \<Longrightarrow> reach k x \<Longrightarrow> reach m x"
  unfolding reach_def by (rule converse_rtranclp_into_rtranclp)

lemma reach_step: "reach m k \<Longrightarrow> x \<in> set (kids k) \<Longrightarrow> reach m x"
  unfolding reach_def by (rule rtranclp.rtrancl_into_rtrancl)

lemma reach_trans: "reach m k \<Longrightarrow> reach k x \<Longrightarrow> reach m x"
  unfolding reach_def by (rule rtranclp_trans)

lemma reach_closed:
  assumes "reach m x" and "m \<in> S" and "\<And>n. n \<in> S \<Longrightarrow> set (kids n) \<subseteq> S"
  shows "x \<in> S"
  using assms(1,2) unfolding reach_def by (induction rule: rtranclp_induct) (use assms(3) in auto)

text \<open>Following a path, knowing that every step still leads to its end.\<close>

lemma reach_back:
  assumes "reach m x" and "m \<in> S" and "\<And>n k. n \<in> S \<Longrightarrow> k \<in> set (kids n) \<Longrightarrow> reach k x \<Longrightarrow> k \<in> S"
  shows "x \<in> S"
  using assms(1,2) unfolding reach_def
  by (induction rule: converse_rtranclp_induct) (use assms(3) in \<open>auto simp: reach_def\<close>)

lemma reach_nodes: "reach m x \<Longrightarrow> m \<in> nodes \<Longrightarrow> x \<in> nodes"
  by (rule reach_closed) (use kids_closed in auto)

subsection \<open>Painting\<close>

text \<open>
  What a traversal that gives every node it meets the colour \<open>c\<close>, and adds \<open>d\<close> to the count of
  each node it is led to, makes of a state: the nodes of \<open>ns\<close> get coloured, \<open>rs\<close> are the
  references counted besides those that the newly coloured nodes hold.
\<close>

definition paint :: "gc_color \<Rightarrow> uint \<Rightarrow> 'n list \<Rightarrow> 'n list \<Rightarrow> 'n coloring \<Rightarrow> 'n counts \<Rightarrow> 'n coloring \<Rightarrow> 'n counts \<Rightarrow> bool" where
  "paint c d rs ns col rc col' rc' \<longleftrightarrow> (\<exists>N. N \<subseteq> nodes \<and> (\<forall>m\<in>N. col m \<noteq> c) \<and>
     col' = (\<lambda>x. if x \<in> N then c else col x) \<and>
     (\<forall>x. rc' x = rc x + d * (of_nat (count_list rs x) + edges N x)) \<and>
     (\<forall>m\<in>N. \<forall>k\<in>set (kids m). col' k = c) \<and> (\<forall>n\<in>set ns. col' n = c) \<and>
     (\<forall>m\<in>N. \<exists>n\<in>set ns. reach n m))"

lemma paint_keeps: "paint c d rs ns col rc col' rc' \<Longrightarrow> col x = c \<Longrightarrow> col' x = c"
  by (auto simp: paint_def)

lemma paint_fewer:
  assumes "paint c d rs ns col rc col' rc'"
  shows "card {x \<in> nodes. col' x \<noteq> c} \<le> card {x \<in> nodes. col x \<noteq> c}"
  using assms finite_nodes by (intro card_mono) (auto simp: paint_def)

lemma paint_Nil: "paint c d [] [] col rc col rc"
  by (auto simp: paint_def intro!: exI [of _ "{}"])

lemma paint_none: "paint c d [] [] col rc col' rc' \<Longrightarrow> col' = col \<and> rc' = rc"
  by (auto simp: paint_def fun_eq_iff)

lemma paint_done: "col n = c \<Longrightarrow> paint c d [] [n] col rc col rc"
  by (auto simp: paint_def intro!: exI [of _ "{}"])

lemma paint_Cons:
  assumes "paint c d [] [n] col (rc(n := rc n + d)) col1 rc1" and "paint c d ns ns col1 rc1 col2 rc2"
  shows "paint c d (n # ns) (n # ns) col rc col2 rc2"
proof -
  obtain N1 where N1: "N1 \<subseteq> nodes" "\<forall>m\<in>N1. col m \<noteq> c" "col1 = (\<lambda>x. if x \<in> N1 then c else col x)"
    "\<forall>x. rc1 x = (rc(n := rc n + d)) x + d * edges N1 x" "\<forall>m\<in>N1. \<forall>k\<in>set (kids m). col1 k = c"
    "col1 n = c" "\<forall>m\<in>N1. reach n m"
    using assms(1) by (auto simp: paint_def)
  obtain N2 where N2: "N2 \<subseteq> nodes" "\<forall>m\<in>N2. col1 m \<noteq> c" "col2 = (\<lambda>x. if x \<in> N2 then c else col1 x)"
    "\<forall>x. rc2 x = rc1 x + d * (of_nat (count_list ns x) + edges N2 x)"
    "\<forall>m\<in>N2. \<forall>k\<in>set (kids m). col2 k = c" "\<forall>n\<in>set ns. col2 n = c" "\<forall>m\<in>N2. \<exists>n\<in>set ns. reach n m"
    using assms(2) by (auto simp: paint_def)
  have disj: "N1 \<inter> N2 = {}" using N1(3) N2(2) by auto
  have rc: "rc2 x = rc x + d * (of_nat (count_list (n # ns) x) + edges (N1 \<union> N2) x)" for x
    unfolding edges_union [OF N1(1) N2(1) disj] N2(4) [rule_format] N1(4) [rule_format]
    by (simp add: algebra_simps)
  have keep: "col1 k = c \<Longrightarrow> col2 k = c" for k using N2(3) by simp
  have kids: "\<forall>m\<in>N1 \<union> N2. \<forall>k\<in>set (kids m). col2 k = c" using N1(5) N2(5) keep by blast
  have n: "col2 n = c" using N1(6) keep by blast
  have from_ns: "\<forall>m\<in>N1 \<union> N2. \<exists>k\<in>set (n # ns). reach k m" using N1(7) N2(7) by auto
  have col: "col2 = (\<lambda>x. if x \<in> N1 \<union> N2 then c else col x)" using N1(3) N2(3) by auto
  have "\<forall>m\<in>N1 \<union> N2. col m \<noteq> c" using N1(2,3) N2(2) by (auto split: if_splits)
  moreover have "N1 \<union> N2 \<subseteq> nodes" "\<forall>k\<in>set (n # ns). col2 k = c" using N1(1) N2(1,6) n by auto
  ultimately show ?thesis using rc kids from_ns col unfolding paint_def by blast
qed

lemma paint_visit:
  assumes "n \<in> nodes" and "col n \<noteq> c" and "paint c d (kids n) (kids n) (col(n := c)) rc col' rc'"
  shows "paint c d [] [n] col rc col' rc'"
proof -
  obtain N where N: "N \<subseteq> nodes" "\<forall>m\<in>N. (col(n := c)) m \<noteq> c" "col' = (\<lambda>x. if x \<in> N then c else (col(n := c)) x)"
    "\<forall>x. rc' x = rc x + d * (of_nat (count_list (kids n) x) + edges N x)"
    "\<forall>m\<in>N. \<forall>k\<in>set (kids m). col' k = c" "\<forall>k\<in>set (kids n). col' k = c" "\<forall>m\<in>N. \<exists>k\<in>set (kids n). reach k m"
    using assms(3) by (auto simp: paint_def)
  have nN: "n \<notin> N" using N(2) by auto
  have from_n: "\<forall>m\<in>insert n N. \<exists>k\<in>set [n]. reach k m" using N(7) by (auto intro: reach_kid)
  have rc: "rc' x = rc x + d * (of_nat (count_list [] x) + edges (insert n N) x)" for x
    unfolding edges_insert [OF N(1) nN] N(4) [rule_format] by simp
  have col: "col' = (\<lambda>x. if x \<in> insert n N then c else col x)" using N(3) by auto
  have "\<forall>m\<in>insert n N. col m \<noteq> c" using N(2) assms(2) by (auto split: if_splits)
  moreover have "insert n N \<subseteq> nodes" "\<forall>k\<in>set [n]. col' k = c" "\<forall>m\<in>insert n N. \<forall>k\<in>set (kids m). col' k = c"
    using N(1,5,6) assms(1) col by auto
  ultimately show ?thesis using rc from_n col unfolding paint_def by blast
qed

text \<open>Roots, one after the other.\<close>

lemma paint_roots:
  assumes "paint c d [] ns1 col rc col1 rc1" and "paint c d [] ns2 col1 rc1 col2 rc2"
  shows "paint c d [] (ns1 @ ns2) col rc col2 rc2"
proof -
  obtain N1 where N1: "N1 \<subseteq> nodes" "\<forall>m\<in>N1. col m \<noteq> c" "col1 = (\<lambda>x. if x \<in> N1 then c else col x)"
    "\<forall>x. rc1 x = rc x + d * edges N1 x" "\<forall>m\<in>N1. \<forall>k\<in>set (kids m). col1 k = c"
    "\<forall>n\<in>set ns1. col1 n = c" "\<forall>m\<in>N1. \<exists>n\<in>set ns1. reach n m"
    using assms(1) by (auto simp: paint_def)
  obtain N2 where N2: "N2 \<subseteq> nodes" "\<forall>m\<in>N2. col1 m \<noteq> c" "col2 = (\<lambda>x. if x \<in> N2 then c else col1 x)"
    "\<forall>x. rc2 x = rc1 x + d * edges N2 x"
    "\<forall>m\<in>N2. \<forall>k\<in>set (kids m). col2 k = c" "\<forall>n\<in>set ns2. col2 n = c" "\<forall>m\<in>N2. \<exists>n\<in>set ns2. reach n m"
    using assms(2) by (auto simp: paint_def)
  have disj: "N1 \<inter> N2 = {}" using N1(3) N2(2) by auto
  have rc: "rc2 x = rc x + d * (of_nat (count_list [] x) + edges (N1 \<union> N2) x)" for x
    unfolding edges_union [OF N1(1) N2(1) disj] N2(4) [rule_format] N1(4) [rule_format]
    by (simp add: algebra_simps)
  have keep: "col1 k = c \<Longrightarrow> col2 k = c" for k using N2(3) by simp
  have kids: "\<forall>m\<in>N1 \<union> N2. \<forall>k\<in>set (kids m). col2 k = c" using N1(5) N2(5) keep by blast
  have ns: "\<forall>k\<in>set (ns1 @ ns2). col2 k = c" using N1(6) N2(6) keep by auto
  have from_ns: "\<forall>m\<in>N1 \<union> N2. \<exists>k\<in>set (ns1 @ ns2). reach k m" using N1(7) N2(7) by auto
  have col: "col2 = (\<lambda>x. if x \<in> N1 \<union> N2 then c else col x)" using N1(3) N2(3) by auto
  have "\<forall>m\<in>N1 \<union> N2. col m \<noteq> c" using N1(2,3) N2(2) by (auto split: if_splits)
  moreover have "N1 \<union> N2 \<subseteq> nodes" using N1(1) N2(1) by auto
  ultimately show ?thesis using rc kids ns from_ns col unfolding paint_def by blast
qed

subsection \<open>Scanning\<close>

text \<open>
  Between two visits of the second phase: \<open>G\<close> is what the first phase made grey and \<open>rcm\<close> the
  counts it left. Black nodes have their references counted again, nothing but what a node with
  references from outside \<open>G\<close> reaches is black, and what is white has none.
\<close>

definition at_rest :: "'n set \<Rightarrow> 'n counts \<Rightarrow> 'n coloring \<Rightarrow> 'n counts \<Rightarrow> bool" where
  "at_rest G rcm col rc \<longleftrightarrow> (\<forall>m\<in>G. col m \<noteq> GC_PURPLE) \<and>
     (\<forall>m\<in>G. col m = GC_BLACK \<longrightarrow> (\<forall>k\<in>set (kids m). col k = GC_BLACK)) \<and>
     (\<forall>x. rc x = rcm x + edges {m \<in> G. col m = GC_BLACK} x) \<and>
     (\<forall>m\<in>G. col m = GC_WHITE \<longrightarrow> rcm m = 0) \<and>
     (\<forall>m\<in>G. col m = GC_BLACK \<longrightarrow> (\<exists>y\<in>G. rcm y \<noteq> 0 \<and> reach y m))"

definition scanned :: "'n set \<Rightarrow> 'n list \<Rightarrow> 'n coloring \<Rightarrow> 'n coloring \<Rightarrow> bool" where
  "scanned G ns col col' \<longleftrightarrow> (\<forall>x. x \<notin> G \<longrightarrow> col' x = col x) \<and> (\<forall>x. col' x = GC_GREY \<longrightarrow> col x = GC_GREY) \<and>
     (\<forall>x. col' x = GC_PURPLE \<longrightarrow> col x = GC_PURPLE) \<and> (\<forall>x\<in>G. col x = GC_BLACK \<longrightarrow> col' x = GC_BLACK) \<and>
     (\<forall>m\<in>G. col m = GC_GREY \<longrightarrow> col' m = GC_WHITE \<longrightarrow> (\<forall>k\<in>set (kids m). col' k \<noteq> GC_GREY)) \<and>
     (\<forall>n\<in>set ns. col' n \<noteq> GC_GREY)"

definition part :: "'n set \<Rightarrow> bool" where
  "part G \<longleftrightarrow> G \<subseteq> nodes \<and> (\<forall>m\<in>G. set (kids m) \<subseteq> G)"

lemma scannedI:
  assumes "\<And>x. x \<notin> G \<Longrightarrow> col' x = col x" and "\<And>x. col' x = GC_GREY \<Longrightarrow> col x = GC_GREY"
    and "\<And>x. col' x = GC_PURPLE \<Longrightarrow> col x = GC_PURPLE" and "\<And>x. x \<in> G \<Longrightarrow> col x = GC_BLACK \<Longrightarrow> col' x = GC_BLACK"
    and "\<And>m k. m \<in> G \<Longrightarrow> col m = GC_GREY \<Longrightarrow> col' m = GC_WHITE \<Longrightarrow> k \<in> set (kids m) \<Longrightarrow> col' k \<noteq> GC_GREY"
    and "\<And>n. n \<in> set ns \<Longrightarrow> col' n \<noteq> GC_GREY"
  shows "scanned G ns col col'"
  unfolding scanned_def using assms by blast

lemma scannedD:
  assumes "scanned G ns col col'"
  shows "x \<notin> G \<Longrightarrow> col' x = col x" and "col' x = GC_GREY \<Longrightarrow> col x = GC_GREY"
    and "col' x = GC_PURPLE \<Longrightarrow> col x = GC_PURPLE" and "x \<in> G \<Longrightarrow> col x = GC_BLACK \<Longrightarrow> col' x = GC_BLACK"
    and "m \<in> G \<Longrightarrow> col m = GC_GREY \<Longrightarrow> col' m = GC_WHITE \<Longrightarrow> k \<in> set (kids m) \<Longrightarrow> col' k \<noteq> GC_GREY"
    and "n \<in> set ns \<Longrightarrow> col' n \<noteq> GC_GREY"
  using assms unfolding scanned_def by blast+

lemma at_restD:
  assumes "at_rest G rcm col rc"
  shows "m \<in> G \<Longrightarrow> col m \<noteq> GC_PURPLE" and "m \<in> G \<Longrightarrow> col m = GC_BLACK \<Longrightarrow> k \<in> set (kids m) \<Longrightarrow> col k = GC_BLACK"
    and "rc x = rcm x + edges {m \<in> G. col m = GC_BLACK} x" and "m \<in> G \<Longrightarrow> col m = GC_WHITE \<Longrightarrow> rcm m = 0"
    and "m \<in> G \<Longrightarrow> col m = GC_BLACK \<Longrightarrow> \<exists>y\<in>G. rcm y \<noteq> 0 \<and> reach y m"
  using assms unfolding at_rest_def by blast+

lemma scanned_Nil: "scanned G [] col col"
  by (simp add: scanned_def)

lemma scanned_skip: "col n \<noteq> GC_GREY \<Longrightarrow> scanned G [n] col col"
  by (simp add: scanned_def)

lemma scanned_append:
  assumes "scanned G ns1 col col1" and "scanned G ns2 col1 col2"
  shows "scanned G (ns1 @ ns2) col col2"
proof (rule scannedI)
  note d1 = scannedD [OF assms(1)] and d2 = scannedD [OF assms(2)]
  show "col2 x = col x" if "x \<notin> G" for x using that d1(1) d2(1) by simp
  show "col x = GC_GREY" if "col2 x = GC_GREY" for x using that d1(2) d2(2) by blast
  show "col x = GC_PURPLE" if "col2 x = GC_PURPLE" for x using that d1(3) d2(3) by blast
  show "col2 x = GC_BLACK" if "x \<in> G" "col x = GC_BLACK" for x using that d1(4) d2(4) by blast
  show "col2 n \<noteq> GC_GREY" if "n \<in> set (ns1 @ ns2)" for n using that d1(6) d2(2,6) by auto
  show "col2 k \<noteq> GC_GREY" if m: "m \<in> G" "col m = GC_GREY" "col2 m = GC_WHITE" "k \<in> set (kids m)" for m k
  proof (cases "col1 m")
    case GC_WHITE
    then show ?thesis using d1(5) [OF m(1,2) _ m(4)] d2(2) by blast
  next
    case GC_GREY
    then show ?thesis using d2(5) [OF m(1) _ m(3,4)] by blast
  next
    case GC_BLACK
    then show ?thesis using d2(4) m(1,3) by fastforce
  next
    case GC_PURPLE
    then show ?thesis using d1(3) m(2) by fastforce
  qed
qed

lemma closed_black_edges:
  assumes "at_rest G rcm col rc" and "n \<in> G" and "col n \<noteq> GC_BLACK"
  shows "rc n = rcm n"
proof -
  have "edges {m \<in> G. col m = GC_BLACK} n = 0" using assms by (intro edges_none) (auto simp: at_rest_def)
  then show ?thesis using assms(1) by (simp add: at_rest_def)
qed

text \<open>A grey node that still has references gets everything it reaches painted black.\<close>

lemma scan_alive:
  assumes "at_rest G rcm col rc" and "part G" and "n \<in> G" and "col n = GC_GREY" and "rc n \<noteq> 0"
    and "paint GC_BLACK 1 [] [n] col rc col' rc'"
  shows "at_rest G rcm col' rc' \<and> scanned G [n] col col'"
proof -
  obtain N where N: "N \<subseteq> nodes" "\<forall>m\<in>N. col m \<noteq> GC_BLACK" "col' = (\<lambda>x. if x \<in> N then GC_BLACK else col x)"
    "\<forall>x. rc' x = rc x + edges N x" "\<forall>m\<in>N. \<forall>k\<in>set (kids m). col' k = GC_BLACK" "col' n = GC_BLACK"
    "\<forall>m\<in>N. reach n m"
    using assms(6) by (auto simp: paint_def)
  have "N \<subseteq> G" using reach_closed [of n _ G] N(7) assms(2,3) by (auto simp: part_def)
  then have black: "{m \<in> G. col' m = GC_BLACK} = {m \<in> G. col m = GC_BLACK} \<union> N" using N(3) by auto
  have "{m \<in> G. col m = GC_BLACK} \<subseteq> nodes" using assms(2) by (auto simp: part_def)
  then have e: "edges {m \<in> G. col' m = GC_BLACK} x = edges {m \<in> G. col m = GC_BLACK} x + edges N x" for x
    unfolding black using N(1,2) by (intro edges_union) auto
  have "rcm n \<noteq> 0" using closed_black_edges [OF assms(1,3)] assms(4,5) by simp
  then have "\<forall>m\<in>N. \<exists>y\<in>G. rcm y \<noteq> 0 \<and> reach y m" using N(7) assms(3) by blast
  note alive = this and d = at_restD [OF assms(1)]
  have "col' k = GC_BLACK" if "m \<in> G" "col' m = GC_BLACK" "k \<in> set (kids m)" for m k
    using that N(3,5) d(2) [of m k] by (cases "m \<in> N") auto
  moreover have "rc' x = rcm x + edges {m \<in> G. col' m = GC_BLACK} x" for x
    unfolding e using N(4) d(3) [of x] by (simp add: add.assoc)
  moreover have "\<exists>y\<in>G. rcm y \<noteq> 0 \<and> reach y m" if "m \<in> G" "col' m = GC_BLACK" for m
    using that N(3) alive d(5) [of m] by (cases "m \<in> N") auto
  moreover have "col' m \<noteq> GC_PURPLE" "col' m = GC_WHITE \<longrightarrow> rcm m = 0" if "m \<in> G" for m
    using that N(3) d(1,4) [of m] by auto
  ultimately have "at_rest G rcm col' rc'" unfolding at_rest_def by blast
  moreover have "scanned G [n] col col'" using N(3,6) \<open>N \<subseteq> G\<close> by (intro scannedI) (auto split: if_splits)
  ultimately show ?thesis ..
qed

text \<open>One that has none becomes white, for now.\<close>

lemma scan_dead:
  assumes "at_rest G rcm col rc" and "n \<in> G" and "col n = GC_GREY" and "rc n = 0"
  shows "at_rest G rcm (col(n := GC_WHITE)) rc"
proof -
  note d = at_restD [OF assms(1)]
  let ?col = "col(n := GC_WHITE)"
  have black: "{m \<in> G. ?col m = GC_BLACK} = {m \<in> G. col m = GC_BLACK}" using assms(3) by auto
  have zero: "rcm n = 0" using closed_black_edges [OF assms(1,2)] assms(3,4) by simp
  have "?col k = GC_BLACK" if "m \<in> G" "?col m = GC_BLACK" "k \<in> set (kids m)" for m k
    using that d(2) [of m k] assms(3) by (auto split: if_splits)
  moreover have "rcm m = 0" if "m \<in> G" "?col m = GC_WHITE" for m using that d(4) zero by (auto split: if_splits)
  moreover have "\<exists>y\<in>G. rcm y \<noteq> 0 \<and> reach y m" if "m \<in> G" "?col m = GC_BLACK" for m
    using that d(5) by (auto split: if_splits)
  moreover have "?col m \<noteq> GC_PURPLE" if "m \<in> G" for m using that d(1) by auto
  ultimately show ?thesis using d(3) unfolding at_rest_def black by blast
qed

lemma scanned_visit:
  assumes "n \<in> G" and "col n = GC_GREY" and "scanned G (kids n) (col(n := GC_WHITE)) col'"
  shows "scanned G [n] col col'"
proof (rule scannedI)
  note d = scannedD [OF assms(3)]
  show "col' k \<noteq> GC_GREY" if "m \<in> G" "col m = GC_GREY" "col' m = GC_WHITE" "k \<in> set (kids m)" for m k
    using that d(5) [of m k] d(6) [of k] by (cases "m = n") auto
  show "col' k \<noteq> GC_GREY" if "k \<in> set [n]" for k using that d(2) [of n] by auto
  show "col' x = col x" if "x \<notin> G" for x using that d(1) [of x] assms(1) by auto
  show "col x = GC_GREY" if "col' x = GC_GREY" for x using that d(2) [of x] by (auto split: if_splits)
  show "col x = GC_PURPLE" if "col' x = GC_PURPLE" for x using that d(3) [of x] by (auto split: if_splits)
  show "col' x = GC_BLACK" if "x \<in> G" "col x = GC_BLACK" for x using that d(4) [of x] assms(2) by (cases "x = n") auto
qed

subsection \<open>Gathering\<close>

text \<open>
  The third phase: the white nodes outside \<open>P\<close> (the roots whose turn is still to come) are taken
  one by one; those that are zvals get their count back and one reference more, and go to the list.
  \<open>X\<close> are zvals put on the list whose visit is still going on.
\<close>

definition done_color :: "'n \<Rightarrow> gc_color" where
  "done_color n = (if zv n then GC_BLACK else GC_PURPLE)"

definition gather :: "'n set \<Rightarrow> 'n set \<Rightarrow> 'n list \<Rightarrow> 'n list \<Rightarrow> 'n coloring \<Rightarrow> 'n counts \<Rightarrow> 'n list \<Rightarrow>
    'n coloring \<Rightarrow> 'n counts \<Rightarrow> 'n list \<Rightarrow> bool" where
  "gather P X rs ns col rc fl col' rc' fl' \<longleftrightarrow> (\<exists>N fs. N \<subseteq> nodes \<and> (\<forall>m\<in>N. col m = GC_WHITE) \<and> (\<forall>m\<in>X. col m \<noteq> GC_WHITE) \<and>
     col' = (\<lambda>x. if x \<in> N then done_color x else col x) \<and>
     (\<forall>x. rc' x = rc x + (if zv x then of_nat (count_list rs x) + edges N x + (if x \<in> N \<union> X then 1 else 0) else 0)) \<and>
     (\<forall>m\<in>N. \<forall>k\<in>set (kids m). col' k \<noteq> GC_WHITE \<or> k \<in> P) \<and> (\<forall>n\<in>set ns. col' n \<noteq> GC_WHITE \<or> n \<in> P) \<and>
     fl' = fs @ fl \<and> distinct fs \<and> set fs = {x \<in> N. zv x} \<union> X)"

lemma gather_Nil: "gather P {} [] [] col rc fl col rc fl"
  by (auto simp: gather_def intro!: exI [of _ "{}"])

lemma gather_skip: "col n \<noteq> GC_WHITE \<or> n \<in> P \<Longrightarrow> gather P {} [] [n] col rc fl col rc fl"
  by (auto simp: gather_def intro!: exI [of _ "{}"])

lemma gather_push: "zv n \<Longrightarrow> col n \<noteq> GC_WHITE \<Longrightarrow> gather P {n} [] [] col rc fl col (rc(n := rc n + 1)) (n # fl)"
  by (auto simp: gather_def intro!: exI [of _ "{}"] exI [of _ "[n]"])

lemma gather_object: "\<not> zv n \<Longrightarrow> gather P X rs ns col rc fl col' rc' fl' \<Longrightarrow> gather P X (n # rs) ns col rc fl col' rc' fl'"
  unfolding gather_def by (elim ex_forward) auto

lemma gather_count:
  assumes "zv n" and "gather P X rs ns col (rc(n := rc n + 1)) fl col' rc' fl'"
  shows "gather P X (n # rs) ns col rc fl col' rc' fl'"
  using assms(2) unfolding gather_def
  by (elim ex_forward) (use assms(1) in \<open>auto simp: algebra_simps\<close>)

lemma gather_append:
  assumes "gather P X1 rs1 ns1 col rc fl col1 rc1 fl1" and "gather P X2 rs2 ns2 col1 rc1 fl1 col2 rc2 fl2"
    and "X1 \<inter> X2 = {}" and "\<forall>n\<in>X2. col n \<noteq> GC_WHITE"
  shows "gather P (X1 \<union> X2) (rs1 @ rs2) (ns1 @ ns2) col rc fl col2 rc2 fl2"
proof -
  obtain N1 f1 where N1: "N1 \<subseteq> nodes" "\<forall>m\<in>N1. col m = GC_WHITE" "\<forall>m\<in>X1. col m \<noteq> GC_WHITE"
    "col1 = (\<lambda>x. if x \<in> N1 then done_color x else col x)"
    "\<forall>x. rc1 x = rc x + (if zv x then of_nat (count_list rs1 x) + edges N1 x + (if x \<in> N1 \<union> X1 then 1 else 0) else 0)"
    "\<forall>m\<in>N1. \<forall>k\<in>set (kids m). col1 k \<noteq> GC_WHITE \<or> k \<in> P" "\<forall>n\<in>set ns1. col1 n \<noteq> GC_WHITE \<or> n \<in> P"
    "fl1 = f1 @ fl" "distinct f1" "set f1 = {x \<in> N1. zv x} \<union> X1"
    using assms(1) unfolding gather_def by blast
  obtain N2 f2 where N2: "N2 \<subseteq> nodes" "\<forall>m\<in>N2. col1 m = GC_WHITE" "\<forall>m\<in>X2. col1 m \<noteq> GC_WHITE"
    "col2 = (\<lambda>x. if x \<in> N2 then done_color x else col1 x)"
    "\<forall>x. rc2 x = rc1 x + (if zv x then of_nat (count_list rs2 x) + edges N2 x + (if x \<in> N2 \<union> X2 then 1 else 0) else 0)"
    "\<forall>m\<in>N2. \<forall>k\<in>set (kids m). col2 k \<noteq> GC_WHITE \<or> k \<in> P" "\<forall>n\<in>set ns2. col2 n \<noteq> GC_WHITE \<or> n \<in> P"
    "fl2 = f2 @ fl1" "distinct f2" "set f2 = {x \<in> N2. zv x} \<union> X2"
    using assms(2) unfolding gather_def by blast
  have dc: "done_color x \<noteq> GC_WHITE" for x by (simp add: done_color_def)
  have disj: "N1 \<inter> N2 = {}" "N2 \<inter> X1 = {}" "N1 \<inter> X2 = {}"
    using N1(2,3,4) N2(2) assms(4) dc by (auto split: if_splits)
  have keep: "col1 k \<noteq> GC_WHITE \<Longrightarrow> col2 k \<noteq> GC_WHITE" for k using N2(4) dc by simp
  have rc: "rc2 x = rc x + (if zv x then of_nat (count_list (rs1 @ rs2) x) + edges (N1 \<union> N2) x +
      (if x \<in> N1 \<union> N2 \<union> (X1 \<union> X2) then 1 else 0) else 0)" for x
    unfolding edges_union [OF N1(1) N2(1) disj(1)] N2(5) [rule_format] N1(5) [rule_format]
    using disj assms(3) by (cases "x \<in> N1 \<union> X1"; cases "x \<in> N2 \<union> X2") (auto simp: algebra_simps)
  have kids: "\<forall>m\<in>N1 \<union> N2. \<forall>k\<in>set (kids m). col2 k \<noteq> GC_WHITE \<or> k \<in> P" using N1(6) N2(6) keep by blast
  have ns: "\<forall>n\<in>set (ns1 @ ns2). col2 n \<noteq> GC_WHITE \<or> n \<in> P" using N1(7) N2(7) keep by auto
  have "\<forall>m\<in>N1 \<union> N2. col m = GC_WHITE" "\<forall>m\<in>X1 \<union> X2. col m \<noteq> GC_WHITE"
    using N1(2,3,4) N2(2) assms(4) dc by (auto split: if_splits)
  moreover have "col2 = (\<lambda>x. if x \<in> N1 \<union> N2 then done_color x else col x)" using N1(4) N2(4) by auto
  moreover have "fl2 = (f2 @ f1) @ fl" "distinct (f2 @ f1)" "set (f2 @ f1) = {x \<in> N1 \<union> N2. zv x} \<union> (X1 \<union> X2)"
    using N1(8-10) N2(8-10) disj assms(3) by auto
  moreover have "N1 \<union> N2 \<subseteq> nodes" using N1(1) N2(1) by simp
  ultimately show ?thesis unfolding gather_def using rc kids ns by blast
qed

lemma gather_visit:
  assumes "n \<in> nodes" and "col n = GC_WHITE" and "n \<notin> X"
    and "gather P (X \<union> (if zv n then {n} else {})) (kids n) (kids n) (col(n := done_color n)) rc fl col' rc' fl'"
  shows "gather P X [] [n] col rc fl col' rc' fl'"
proof -
  let ?X = "X \<union> (if zv n then {n} else {})"
  obtain N fs where N: "N \<subseteq> nodes" "\<forall>m\<in>N. (col(n := done_color n)) m = GC_WHITE" "\<forall>m\<in>?X. (col(n := done_color n)) m \<noteq> GC_WHITE"
    "col' = (\<lambda>x. if x \<in> N then done_color x else (col(n := done_color n)) x)"
    "\<forall>x. rc' x = rc x + (if zv x then of_nat (count_list (kids n) x) + edges N x + (if x \<in> N \<union> ?X then 1 else 0) else 0)"
    "\<forall>m\<in>N. \<forall>k\<in>set (kids m). col' k \<noteq> GC_WHITE \<or> k \<in> P" "\<forall>k\<in>set (kids n). col' k \<noteq> GC_WHITE \<or> k \<in> P"
    "fl' = fs @ fl" "distinct fs" "set fs = {x \<in> N. zv x} \<union> ?X"
    using assms(4) unfolding gather_def by blast
  have dc: "done_color x \<noteq> GC_WHITE" for x by (simp add: done_color_def)
  have nN: "n \<notin> N" using N(2) dc by auto
  have rc: "rc' x = rc x + (if zv x then of_nat (count_list [] x) + edges (insert n N) x +
      (if x \<in> insert n N \<union> X then 1 else 0) else 0)" for x
    unfolding edges_insert [OF N(1) nN] N(5) [rule_format] by (auto simp: algebra_simps)
  have col: "col' = (\<lambda>x. if x \<in> insert n N then done_color x else col x)" using N(4) by auto
  have kids: "\<forall>m\<in>insert n N. \<forall>k\<in>set (kids m). col' k \<noteq> GC_WHITE \<or> k \<in> P" using N(6,7) by blast
  have n: "\<forall>k\<in>set [n]. col' k \<noteq> GC_WHITE \<or> k \<in> P" using col dc by simp
  have white: "\<forall>m\<in>insert n N. col m = GC_WHITE" using N(2) assms(2) dc by (auto split: if_splits)
  have X: "\<forall>m\<in>X. col m \<noteq> GC_WHITE" using N(3) assms(3) by (auto split: if_splits)
  have fs: "set fs = {x \<in> insert n N. zv x} \<union> X" using N(10) by auto
  have "insert n N \<subseteq> nodes" using N(1) assms(1) by simp
  then show ?thesis unfolding gather_def using white X col rc kids n N(8,9) fs by blast
qed

text \<open>When a root is no longer pending, its visit follows.\<close>

lemma gather_root:
  assumes "gather P {} [] ns col rc fl col1 rc1 fl1" and "gather (P - {r}) {} [] [r] col1 rc1 fl1 col2 rc2 fl2"
  shows "gather (P - {r}) {} [] (ns @ [r]) col rc fl col2 rc2 fl2"
proof -
  obtain N1 f1 where N1: "N1 \<subseteq> nodes" "\<forall>m\<in>N1. col m = GC_WHITE" "col1 = (\<lambda>x. if x \<in> N1 then done_color x else col x)"
    "\<forall>x. rc1 x = rc x + (if zv x then edges N1 x + (if x \<in> N1 then 1 else 0) else 0)"
    "\<forall>m\<in>N1. \<forall>k\<in>set (kids m). col1 k \<noteq> GC_WHITE \<or> k \<in> P" "\<forall>n\<in>set ns. col1 n \<noteq> GC_WHITE \<or> n \<in> P"
    "fl1 = f1 @ fl" "distinct f1" "set f1 = {x \<in> N1. zv x}"
    using assms(1) unfolding gather_def by auto
  obtain N2 f2 where N2: "col2 = (\<lambda>x. if x \<in> N2 then done_color x else col1 x)" "col2 r \<noteq> GC_WHITE"
    using assms(2) unfolding gather_def by auto
  have keep: "col1 k \<noteq> GC_WHITE \<Longrightarrow> col2 k \<noteq> GC_WHITE" for k using N2(1) by (simp add: done_color_def)
  have keepP: "col1 k \<noteq> GC_WHITE \<or> k \<in> P \<Longrightarrow> col2 k \<noteq> GC_WHITE \<or> k \<in> P - {r}" for k
    using keep [of k] N2(2) by (cases "k = r") auto
  have "gather (P - {r} \<union> {k. col2 k \<noteq> GC_WHITE}) {} [] ns col rc fl col1 rc1 fl1"
  proof -
    have kids: "\<forall>m\<in>N1. \<forall>k\<in>set (kids m). col1 k \<noteq> GC_WHITE \<or> k \<in> P - {r} \<union> {k. col2 k \<noteq> GC_WHITE}"
      using N1(5) keepP by blast
    have ns: "\<forall>k\<in>set ns. col1 k \<noteq> GC_WHITE \<or> k \<in> P - {r} \<union> {k. col2 k \<noteq> GC_WHITE}" using N1(6) keepP by blast
    show ?thesis using N1(1-4,7-9) unfolding gather_def
      by (intro exI [of _ N1] exI [of _ f1] conjI kids ns) auto
  qed
  moreover have "gather (P - {r} \<union> {k. col2 k \<noteq> GC_WHITE}) {} [] [r] col1 rc1 fl1 col2 rc2 fl2"
    using assms(2) unfolding gather_def by (elim ex_forward) auto
  ultimately have "gather (P - {r} \<union> {k. col2 k \<noteq> GC_WHITE}) ({} \<union> {}) ([] @ []) (ns @ [r]) col rc fl col2 rc2 fl2"
    by (rule gather_append) auto
  then show ?thesis unfolding gather_def by (elim ex_forward) auto
qed

subsection \<open>What the three phases find\<close>

text \<open>Reached from a node of \<open>G\<close> that is referred to from outside \<open>G\<close>.\<close>

definition live :: "'n set \<Rightarrow> 'n counts \<Rightarrow> 'n set" where
  "live G rcm = {m \<in> G. \<exists>y\<in>G. rcm y \<noteq> 0 \<and> reach y m}"

lemma scan_done:
  assumes "at_rest G rcm col rc" and "part G" and "scanned G ns col0 col" and "\<forall>m\<in>G. col0 m = GC_GREY"
    and "set ns \<subseteq> G" and "\<forall>m\<in>G. \<exists>n\<in>set ns. reach n m"
  shows "m \<in> G \<Longrightarrow> col m = (if m \<in> live G rcm then GC_BLACK else GC_WHITE)"
    and "rc x = rcm x + edges (live G rcm) x"
proof -
  note d = at_restD [OF assms(1)] and e = scannedD [OF assms(3)]
  have kids: "k \<in> set (kids n) \<Longrightarrow> n \<in> G \<Longrightarrow> k \<in> G" for n k using assms(2) by (auto simp: part_def)
  have no_grey: "col m \<noteq> GC_GREY" if "m \<in> G" for m
  proof -
    obtain n where n: "n \<in> set ns" "reach n m" using assms(6) \<open>m \<in> G\<close> by blast
    have "m \<in> {m \<in> G. col m \<noteq> GC_GREY}"
    proof (rule reach_closed [OF n(2)])
      show "n \<in> {m \<in> G. col m \<noteq> GC_GREY}" using n(1) e(6) assms(5) by auto
      show "set (kids k) \<subseteq> {m \<in> G. col m \<noteq> GC_GREY}" if "k \<in> {m \<in> G. col m \<noteq> GC_GREY}" for k
      proof
        fix j assume j: "j \<in> set (kids k)"
        show "j \<in> {m \<in> G. col m \<noteq> GC_GREY}"
          using that kids [OF j] d(1,2) [of k] e(5) [of k j] assms(4) j by (cases "col k") auto
      qed
    qed
    then show ?thesis by simp
  qed
  show col: "col m = (if m \<in> live G rcm then GC_BLACK else GC_WHITE)" if m: "m \<in> G" for m
  proof (cases "m \<in> live G rcm")
    case True
    then obtain y where y: "y \<in> G" "rcm y \<noteq> 0" "reach y m" by (auto simp: live_def)
    then have "col y = GC_BLACK" using d(1,4) no_grey [of y] by (cases "col y") auto
    then have "m \<in> {m \<in> G. col m = GC_BLACK}"
      by (intro reach_closed [OF y(3)]) (use y(1) d(2) kids in auto)
    then show ?thesis using True by simp
  next
    case False
    then have "col m \<noteq> GC_BLACK" using d(5) [of m] m by (auto simp: live_def)
    then show ?thesis using False d(1) [OF m] no_grey [OF m] by (cases "col m") auto
  qed
  have "m \<in> live G rcm \<Longrightarrow> m \<in> G" for m by (simp add: live_def)
  then have "{m \<in> G. col m = GC_BLACK} = live G rcm" using col by (auto split: if_splits)
  then show "rc x = rcm x + edges (live G rcm) x" using d(3) by simp
qed

lemma gather_done:
  assumes "gather {} {} [] ns col rc fl col' rc' fl'" and "part G" and "\<forall>x. col x = GC_WHITE \<longrightarrow> x \<in> G"
    and "\<forall>m\<in>G. col m = (if m \<in> live G rcm then GC_BLACK else GC_WHITE)"
    and "set ns \<subseteq> G" and "\<forall>m\<in>G. \<exists>n\<in>set ns. reach n m"
  shows "\<exists>fs. fl' = fs @ fl \<and> distinct fs \<and> set fs = {x \<in> G - live G rcm. zv x} \<and>
    col' = (\<lambda>x. if x \<in> G - live G rcm then done_color x else col x) \<and>
    (\<forall>x. rc' x = rc x + (if zv x then edges (G - live G rcm) x + (if x \<in> G - live G rcm then 1 else 0) else 0))"
proof -
  obtain N fs where N: "N \<subseteq> nodes" "\<forall>m\<in>N. col m = GC_WHITE" "col' = (\<lambda>x. if x \<in> N then done_color x else col x)"
    "\<forall>x. rc' x = rc x + (if zv x then edges N x + (if x \<in> N then 1 else 0) else 0)"
    "\<forall>m\<in>N. \<forall>k\<in>set (kids m). col' k \<noteq> GC_WHITE" "\<forall>n\<in>set ns. col' n \<noteq> GC_WHITE"
    "fl' = fs @ fl" "distinct fs" "set fs = {x \<in> N. zv x}"
    using assms(1) unfolding gather_def by auto
  have kids: "k \<in> set (kids n) \<Longrightarrow> n \<in> G \<Longrightarrow> k \<in> G" for n k using assms(2) by (auto simp: part_def)
  have alive: "k \<in> set (kids n) \<Longrightarrow> n \<in> live G rcm \<Longrightarrow> k \<in> live G rcm" for n k
    using kids [of k n] reach_step by (auto simp: live_def)
  have "m \<in> N" if m: "m \<in> G" "m \<notin> live G rcm" for m
  proof -
    obtain n where n: "n \<in> set ns" "reach n m" using assms(6) m(1) by blast
    have "m \<in> live G rcm \<union> N"
    proof (rule reach_closed [OF n(2)])
      show "n \<in> live G rcm \<union> N" using n(1) assms(4,5) N(3,6) by (auto split: if_splits)
      show "set (kids k) \<subseteq> live G rcm \<union> N" if "k \<in> live G rcm \<union> N" for k
      proof
        fix j assume j: "j \<in> set (kids k)"
        have k: "k \<in> G" using that N(2) assms(3) by (auto simp: live_def)
        show "j \<in> live G rcm \<union> N"
        proof (cases "k \<in> N")
          case True
          then have "col' j \<noteq> GC_WHITE" using N(5) j by blast
          then show ?thesis using N(3) assms(4) kids [OF j k] by (auto split: if_splits)
        next
          case False
          then show ?thesis using that alive [OF j] by auto
        qed
      qed
    qed
    then show ?thesis using m(2) by simp
  qed
  moreover have "m \<in> G \<and> m \<notin> live G rcm" if "m \<in> N" for m
  proof -
    have "col m = GC_WHITE" using N(2) that by blast
    then show ?thesis using assms(3) assms(4) [rule_format, of m] by (auto split: if_splits)
  qed
  ultimately have "N = G - live G rcm" by blast
  then show ?thesis using N(3,4,7-9) by auto
qed

text \<open>The counts after all three phases.\<close>

lemma counts_restored:
  assumes "part G" and "\<forall>x. rcm x = rc0 x - edges G x" and "\<forall>x. rc x = rcm x + edges (live G rcm) x"
  shows "rc x = rc0 x - edges (G - live G rcm) x"
proof -
  have "G = live G rcm \<union> (G - live G rcm)" by (auto simp: live_def)
  then have "edges G x = edges (live G rcm \<union> (G - live G rcm)) x" by simp
  also have "\<dots> = edges (live G rcm) x + edges (G - live G rcm) x"
    using assms(1) by (intro edges_union) (auto simp: part_def live_def)
  finally show ?thesis using assms(2,3) by simp
qed

end

end
