(* ===== verification/Zend_Gc.thy ===== *)
theory Zend_Gc
  imports Gc_Graph
begin

text \<open>
  The cycle collector, \<open>Zend/zend_gc.c\<close> and \<open>Zend/zend_gc.h\<close>. A zval has an address; its
  \<open>u.buffered\<close> is a word that holds an address in its upper and a colour in its two lowest bits
  (\<open>gc_word\<close>), an aligned pointer having the colour black. A hash table is the list of the zvals
  its buckets refer to, from \<open>pListHead\<close> on. The handler \<open>get_gc\<close> of an object answers with an
  array of zvals (some of them \<open>NULL\<close>) and maybe a table of properties; what the handlers answer is
  the function \<open>get_gc\<close> of the heap, \<open>None\<close> for those that leave it out. The counters of \<open>GC_BENCH\<close> are compiled out.

  The recursive functions of the file walk a zval, an object of the store, or the entries of a
  table: these are the \<open>gc_task\<close>s. Jumps to \<open>tail_call\<close> are recursive calls here, so that entries
  that are \<open>NULL\<close> at the end of an array need not be cut off first.
\<close>

datatype root_ptr = Roots | Buf nat

datatype gc_address = Null | Root root_ptr | Next_zval nat | Free_list_end

datatype gc_word = Tagged gc_address gc_color

fun GC_ADDRESS :: "gc_word \<Rightarrow> gc_address" where "GC_ADDRESS (Tagged a c) = a"
fun GC_GET_COLOR :: "gc_word \<Rightarrow> gc_color" where "GC_GET_COLOR (Tagged a c) = c"
fun GC_SET_COLOR :: "gc_color \<Rightarrow> gc_word \<Rightarrow> gc_word" where "GC_SET_COLOR c (Tagged a _) = Tagged a c"
fun GC_SET_ADDRESS :: "gc_address \<Rightarrow> gc_word \<Rightarrow> gc_word" where "GC_SET_ADDRESS a (Tagged _ c) = Tagged a c"

subsection \<open>The heap\<close>

text \<open>
  \<open>handlers_of_zvals\<close> is not a member of \<open>struct _store_object\<close> (its \<open>handlers\<close> may be \<open>NULL\<close>), and no function
  here reads it: it is the handler table that all zvals of the object have from \<open>create_object\<close>, for the
  theorems to speak of.
\<close>

datatype 'h z_value = Is_array nat | Is_object nat 'h | Is_scalar

record 'h gc_zval =
  z_value :: "'h z_value"
  refcount__gc :: uint
  z_u :: gc_word

record 'h gc_object =
  o_valid :: bool
  o_destructor_called :: bool
  o_has_dtor :: bool
  o_refcount :: uint
  o_buffered :: gc_word
  handlers_of_zvals :: 'h

record 'h gc_heap =
  zvals :: "nat \<rightharpoonup> 'h gc_zval"
  tables :: "nat \<rightharpoonup> nat list"
  symbol_table :: nat
  objects :: "'h gc_object slots option"
  get_gc :: "'h \<Rightarrow> (nat \<Rightarrow> nat option list \<times> nat list option) option"
  zval_to_free :: gc_address

definition change_zval :: "('h gc_zval \<Rightarrow> 'h gc_zval) \<Rightarrow> nat \<Rightarrow> 'h gc_heap \<Rightarrow> 'h gc_heap option" where
  "change_zval f pz s = do { z \<leftarrow> zvals s pz; Some (s\<lparr>zvals := (zvals s)(pz \<mapsto> f z)\<rparr>) }"

definition object_at :: "'h gc_heap \<Rightarrow> nat \<Rightarrow> 'h gc_object option" where
  "object_at s h = slot (objects s) (int h)"

definition change_object :: "('h gc_object \<Rightarrow> 'h gc_object) \<Rightarrow> nat \<Rightarrow> 'h gc_heap \<Rightarrow> 'h gc_heap option" where
  "change_object f h s = do {
     ob \<leftarrow> object_at s h;
     bs \<leftarrow> set_slot (objects s) (int h) (Some (f ob));
     Some (s\<lparr>objects := bs\<rparr>)
   }"

definition set_zval_color :: "gc_color \<Rightarrow> nat \<Rightarrow> 'h gc_heap \<Rightarrow> 'h gc_heap option" where
  "set_zval_color c = change_zval (z_u_update (GC_SET_COLOR c))"

definition set_object_color :: "gc_color \<Rightarrow> nat \<Rightarrow> 'h gc_heap \<Rightarrow> 'h gc_heap option" where
  "set_object_color c = change_object (o_buffered_update (GC_SET_COLOR c))"

text \<open>An array that is the global symbol table is not counted.\<close>

definition is_symbol_table :: "'h gc_heap \<Rightarrow> 'h gc_zval \<Rightarrow> bool" where
  "is_symbol_table s z \<longleftrightarrow> z_value z = Is_array (symbol_table s)"

definition count_edge :: "uint \<Rightarrow> nat \<Rightarrow> 'h gc_heap \<Rightarrow> 'h gc_heap option" where
  "count_edge d pz s = do {
     z \<leftarrow> zvals s pz;
     (if is_symbol_table s z then Some s else change_zval (refcount__gc_update (\<lambda>n. n + d)) pz s)
   }"

text \<open>What \<open>get_gc\<close> names, the array first; an object that is not valid has nothing.\<close>

definition gc_entries :: "'h gc_heap \<Rightarrow> 'h gc_object \<Rightarrow> 'h \<Rightarrow> nat \<Rightarrow> (nat option list \<times> nat list option) option" where
  "gc_entries s ob hs h = (if o_valid ob then map_option (\<lambda>f. f h) (get_gc s hs) else None)"

definition all_entries :: "(nat option list \<times> nat list option) option \<Rightarrow> nat option list" where
  "all_entries r = (case r of None \<Rightarrow> [] | Some (table, None) \<Rightarrow> table | Some (table, Some props) \<Rightarrow> table @ map Some props)"

datatype 'h gc_task = Zval nat | Store_object nat 'h | Entries "nat option list"

subsection \<open>Marking\<close>

partial_function (option) scan_black :: "'h gc_task \<Rightarrow> 'h gc_heap \<Rightarrow> 'h gc_heap option" where
  "scan_black t s = (case t of
     Zval pz \<Rightarrow> do {
       s \<leftarrow> set_zval_color GC_BLACK pz s;
       z \<leftarrow> zvals s pz;
       (case z_value z of
          Is_object h hs \<Rightarrow>
            if objects s = None then Some s
            else do {
              s \<leftarrow> change_object (o_refcount_update (\<lambda>n. n + 1)) h s;
              ob \<leftarrow> object_at s h;
              (if GC_GET_COLOR (o_buffered ob) \<noteq> GC_BLACK then scan_black (Store_object h hs) s else Some s)
            }
        | Is_array ht \<Rightarrow>
            if ht = symbol_table s then Some s
            else do { ps \<leftarrow> tables s ht; scan_black (Entries (map Some ps)) s }
        | Is_scalar \<Rightarrow> Some s)
     }
   | Store_object h hs \<Rightarrow> do {
       s \<leftarrow> set_object_color GC_BLACK h s;
       ob \<leftarrow> object_at s h;
       scan_black (Entries (all_entries (gc_entries s ob hs h))) s
     }
   | Entries [] \<Rightarrow> Some s
   | Entries (None # ps) \<Rightarrow> scan_black (Entries ps) s
   | Entries (Some pz # ps) \<Rightarrow> do {
       s \<leftarrow> count_edge 1 pz s;
       z \<leftarrow> zvals s pz;
       s \<leftarrow> (if GC_GET_COLOR (z_u z) \<noteq> GC_BLACK then scan_black (Zval pz) s else Some s);
       scan_black (Entries ps) s
     })"

partial_function (option) mark_grey :: "'h gc_task \<Rightarrow> 'h gc_heap \<Rightarrow> 'h gc_heap option" where
  "mark_grey t s = (case t of
     Zval pz \<Rightarrow> do {
       z \<leftarrow> zvals s pz;
       (if GC_GET_COLOR (z_u z) \<noteq> GC_GREY then do {
          s \<leftarrow> set_zval_color GC_GREY pz s;
          (case z_value z of
             Is_object h hs \<Rightarrow>
               if objects s = None then Some s
               else do {
                 s \<leftarrow> change_object (o_refcount_update (\<lambda>n. n - 1)) h s;
                 mark_grey (Store_object h hs) s
               }
           | Is_array ht \<Rightarrow>
               if ht = symbol_table s then set_zval_color GC_BLACK pz s
               else do { ps \<leftarrow> tables s ht; mark_grey (Entries (map Some ps)) s }
           | Is_scalar \<Rightarrow> Some s)
        } else Some s)
     }
   | Store_object h hs \<Rightarrow> do {
       ob \<leftarrow> object_at s h;
       (if GC_GET_COLOR (o_buffered ob) \<noteq> GC_GREY then do {
          s \<leftarrow> set_object_color GC_GREY h s;
          mark_grey (Entries (all_entries (gc_entries s ob hs h))) s
        } else Some s)
     }
   | Entries [] \<Rightarrow> Some s
   | Entries (None # ps) \<Rightarrow> mark_grey (Entries ps) s
   | Entries (Some pz # ps) \<Rightarrow> do {
       s \<leftarrow> count_edge (- 1) pz s;
       s \<leftarrow> mark_grey (Zval pz) s;
       mark_grey (Entries ps) s
     })"

subsection \<open>Scanning\<close>

partial_function (option) scan_grey :: "'h gc_task \<Rightarrow> 'h gc_heap \<Rightarrow> 'h gc_heap option" where
  "scan_grey t s = (case t of
     Zval pz \<Rightarrow> do {
       z \<leftarrow> zvals s pz;
       (if GC_GET_COLOR (z_u z) = GC_GREY then
          (if refcount__gc z > 0 then scan_black (Zval pz) s
           else do {
             s \<leftarrow> set_zval_color GC_WHITE pz s;
             (case z_value z of
                Is_object h hs \<Rightarrow> if objects s = None then Some s else scan_grey (Store_object h hs) s
              | Is_array ht \<Rightarrow>
                  if ht = symbol_table s then set_zval_color GC_BLACK pz s
                  else do { ps \<leftarrow> tables s ht; scan_grey (Entries (map Some ps)) s }
              | Is_scalar \<Rightarrow> Some s)
           })
        else Some s)
     }
   | Store_object h hs \<Rightarrow> do {
       ob \<leftarrow> object_at s h;
       (if GC_GET_COLOR (o_buffered ob) = GC_GREY then
          (if o_refcount ob > 0 then scan_black (Store_object h hs) s
           else do {
             s \<leftarrow> set_object_color GC_WHITE h s;
             scan_grey (Entries (all_entries (gc_entries s ob hs h))) s
           })
        else Some s)
     }
   | Entries [] \<Rightarrow> Some s
   | Entries (None # ps) \<Rightarrow> scan_grey (Entries ps) s
   | Entries (Some pz # ps) \<Rightarrow> do { s \<leftarrow> scan_grey (Zval pz) s; scan_grey (Entries ps) s })"

subsection \<open>Collecting\<close>

text \<open>The count is restored, one reference added, and \<open>u.next\<close> overwrites \<open>u.buffered\<close>.\<close>

definition put_to_free :: "nat \<Rightarrow> 'h gc_heap \<Rightarrow> 'h gc_heap option" where
  "put_to_free pz s = do {
     s \<leftarrow> change_zval (\<lambda>z. z\<lparr>refcount__gc := refcount__gc z + 1, z_u := Tagged (zval_to_free s) GC_BLACK\<rparr>) pz s;
     Some (s\<lparr>zval_to_free := Next_zval pz\<rparr>)
   }"

partial_function (option) collect_white :: "'h gc_task \<Rightarrow> 'h gc_heap \<Rightarrow> 'h gc_heap option" where
  "collect_white t s = (case t of
     Zval pz \<Rightarrow> do {
       z \<leftarrow> zvals s pz;
       (if z_u z = Tagged Null GC_WHITE then do {
          s \<leftarrow> set_zval_color GC_BLACK pz s;
          (case z_value z of
             Is_object h hs \<Rightarrow>
               if objects s = None then put_to_free pz s
               else do {
                 ob \<leftarrow> object_at s h;
                 (if o_buffered ob = Tagged Null GC_WHITE then do {
                    s \<leftarrow> set_object_color GC_PURPLE h s;
                    (case gc_entries s ob hs h of
                       None \<Rightarrow> put_to_free pz s
                     | Some (table, None) \<Rightarrow> do { s \<leftarrow> put_to_free pz s; collect_white (Entries table) s }
                     | Some (table, Some props) \<Rightarrow> do {
                         s \<leftarrow> collect_white (Entries table) s;
                         s \<leftarrow> put_to_free pz s;
                         collect_white (Entries (map Some props)) s
                       })
                  } else put_to_free pz s)
               }
           | Is_array ht \<Rightarrow> do {
               ps \<leftarrow> tables s ht;
               s \<leftarrow> put_to_free pz s;
               collect_white (Entries (map Some ps)) s
             }
           | Is_scalar \<Rightarrow> put_to_free pz s)
        } else Some s)
     }
   | Store_object h hs \<Rightarrow> do {
       ob \<leftarrow> object_at s h;
       (if o_buffered ob = Tagged Null GC_WHITE then do {
          s \<leftarrow> set_object_color GC_PURPLE h s;
          collect_white (Entries (all_entries (gc_entries s ob hs h))) s
        } else Some s)
     }
   | Entries [] \<Rightarrow> Some s
   | Entries (None # ps) \<Rightarrow> collect_white (Entries ps) s
   | Entries (Some pz # ps) \<Rightarrow> do {
       s \<leftarrow> count_edge 1 pz s;
       s \<leftarrow> collect_white (Zval pz) s;
       collect_white (Entries ps) s
     })"

text \<open>The functions of the file.\<close>

definition zval_scan_black :: "nat \<Rightarrow> 'h gc_heap \<Rightarrow> 'h gc_heap option" where
  "zval_scan_black pz = scan_black (Zval pz)"

definition zobj_scan_black :: "nat \<Rightarrow> 'h \<Rightarrow> 'h gc_heap \<Rightarrow> 'h gc_heap option" where
  "zobj_scan_black h hs = scan_black (Store_object h hs)"

definition zval_mark_grey :: "nat \<Rightarrow> 'h gc_heap \<Rightarrow> 'h gc_heap option" where
  "zval_mark_grey pz = mark_grey (Zval pz)"

definition zobj_mark_grey :: "nat \<Rightarrow> 'h \<Rightarrow> 'h gc_heap \<Rightarrow> 'h gc_heap option" where
  "zobj_mark_grey h hs = mark_grey (Store_object h hs)"

definition zval_scan :: "nat \<Rightarrow> 'h gc_heap \<Rightarrow> 'h gc_heap option" where
  "zval_scan pz = scan_grey (Zval pz)"

definition zobj_scan :: "nat \<Rightarrow> 'h \<Rightarrow> 'h gc_heap \<Rightarrow> 'h gc_heap option" where
  "zobj_scan h hs s = (if objects s = None then Some s else scan_grey (Store_object h hs) s)"

definition zval_collect_white :: "nat \<Rightarrow> 'h gc_heap \<Rightarrow> 'h gc_heap option" where
  "zval_collect_white pz = collect_white (Zval pz)"

definition zobj_collect_white :: "nat \<Rightarrow> 'h \<Rightarrow> 'h gc_heap \<Rightarrow> 'h gc_heap option" where
  "zobj_collect_white h hs s = (if objects s = None then Some s else collect_white (Store_object h hs) s)"

subsection \<open>The buffer of possible roots\<close>

text \<open>
  An entry of the buffer is a zval, or an object when its handle is not 0. The entries in use form a
  ring with the sentinel \<open>roots\<close>; those given back are linked through \<open>prev\<close> from \<open>unused\<close>, and
  those from \<open>first_unused\<close> on have never been used. \<open>first_unused\<close> and \<open>last_unused\<close> are
  offsets into the buffer, both 0 when there is none.
\<close>

datatype 'h root_u = Pz nat | Handlers 'h

record 'h gc_root =
  r_prev :: "root_ptr option"
  r_next :: root_ptr
  r_handle :: nat
  r_u :: "'h root_u"

record 'h gc_globals =
  mem :: "'h gc_heap"
  gc_enabled :: bool
  gc_active :: bool
  buf :: "'h gc_root slots option"
  roots_prev :: "root_ptr option"
  roots_next :: root_ptr
  unused :: "root_ptr option"
  first_unused :: nat
  last_unused :: nat
  free_list :: gc_address
  next_to_free :: gc_address
  gc_runs :: uint
  collected :: uint

definition GC_ROOT_BUFFER_MAX_ENTRIES :: nat where "GC_ROOT_BUFFER_MAX_ENTRIES = 10000"

definition on_mem :: "('h gc_heap \<Rightarrow> 'h gc_heap option) \<Rightarrow> 'h gc_globals \<Rightarrow> 'h gc_globals option" where
  "on_mem f g = do { m \<leftarrow> f (mem g); Some (g\<lparr>mem := m\<rparr>) }"

fun root_at :: "'h gc_globals \<Rightarrow> root_ptr \<Rightarrow> 'h gc_root option" where
  "root_at g Roots = None"
| "root_at g (Buf i) = slot (buf g) (int i)"

fun put_root :: "root_ptr \<Rightarrow> 'h gc_root \<Rightarrow> 'h gc_globals \<Rightarrow> 'h gc_globals option" where
  "put_root Roots r g = None"
| "put_root (Buf i) r g = do { b \<leftarrow> set_slot (buf g) (int i) (Some r); Some (g\<lparr>buf := b\<rparr>) }"

definition next_of :: "root_ptr \<Rightarrow> 'h gc_globals \<Rightarrow> root_ptr option" where
  "next_of p g = (if p = Roots then Some (roots_next g) else map_option r_next (root_at g p))"

definition prev_of :: "root_ptr \<Rightarrow> 'h gc_globals \<Rightarrow> root_ptr option option" where
  "prev_of p g = (if p = Roots then Some (roots_prev g) else map_option r_prev (root_at g p))"

definition set_next :: "root_ptr \<Rightarrow> root_ptr \<Rightarrow> 'h gc_globals \<Rightarrow> 'h gc_globals option" where
  "set_next p q g = (if p = Roots then Some (g\<lparr>roots_next := q\<rparr>)
     else do { r \<leftarrow> root_at g p; put_root p (r\<lparr>r_next := q\<rparr>) g })"

definition set_prev :: "root_ptr \<Rightarrow> root_ptr option \<Rightarrow> 'h gc_globals \<Rightarrow> 'h gc_globals option" where
  "set_prev p q g = (if p = Roots then Some (g\<lparr>roots_prev := q\<rparr>)
     else do { r \<leftarrow> root_at g p; put_root p (r\<lparr>r_prev := q\<rparr>) g })"

definition root_buffer_dtor :: "'h gc_globals \<Rightarrow> 'h gc_globals" where
  "root_buffer_dtor g = (if buf g \<noteq> None then g\<lparr>buf := None\<rparr> else g)"

definition gc_globals_ctor_ex :: "'h gc_globals \<Rightarrow> 'h gc_globals" where
  "gc_globals_ctor_ex g = g\<lparr>gc_enabled := False, gc_active := False, buf := None, roots_next := Roots,
     roots_prev := Some Roots, unused := None, mem := (mem g)\<lparr>zval_to_free := Null\<rparr>, free_list := Null,
     next_to_free := Null, gc_runs := 0, collected := 0\<rparr>"

definition gc_reset :: "'h gc_globals \<Rightarrow> 'h gc_globals" where
  "gc_reset g = (let g = g\<lparr>gc_runs := 0, collected := 0, roots_next := Roots, roots_prev := Some Roots\<rparr>
     in if buf g \<noteq> None then g\<lparr>unused := None, first_unused := 0, mem := (mem g)\<lparr>zval_to_free := Null\<rparr>\<rparr>
        else g\<lparr>unused := None, first_unused := 0, last_unused := 0\<rparr>)"

definition gc_init :: "'h gc_globals \<Rightarrow> 'h gc_globals" where
  "gc_init g = (if buf g = None \<and> gc_enabled g
     then gc_reset (g\<lparr>buf := Some (replicate GC_ROOT_BUFFER_MAX_ENTRIES None), last_unused := GC_ROOT_BUFFER_MAX_ENTRIES\<rparr>)
     else g)"

definition gc_remove_from_buffer :: "root_ptr \<Rightarrow> 'h gc_globals \<Rightarrow> 'h gc_globals option" where
  "gc_remove_from_buffer root g = do {
     nxt \<leftarrow> next_of root g;
     prv \<leftarrow> prev_of root g;
     g \<leftarrow> set_prev nxt prv g;
     prv \<leftarrow> prev_of root g;
     p \<leftarrow> prv;
     nxt \<leftarrow> next_of root g;
     g \<leftarrow> set_next p nxt g;
     g \<leftarrow> set_prev root (unused g) g;
     Some (g\<lparr>unused := Some root\<rparr>)
   }"

text \<open>An address that is no entry of the buffer: the zval is on the list of a running collection.\<close>

fun outside_buffer :: "'h gc_globals \<Rightarrow> gc_address \<Rightarrow> bool" where
  "outside_buffer g (Root (Buf i)) = (i \<ge> last_unused g)"
| "outside_buffer g _ = True"

text \<open>A free entry, if there is one.\<close>

definition free_root :: "'h gc_globals \<Rightarrow> (root_ptr option \<times> 'h gc_globals) option" where
  "free_root g = (case unused g of
     Some r \<Rightarrow> do { p \<leftarrow> prev_of r g; Some (Some r, g\<lparr>unused := p\<rparr>) }
   | None \<Rightarrow>
       if first_unused g \<noteq> last_unused g
       then Some (Some (Buf (first_unused g)), g\<lparr>first_unused := first_unused g + 1\<rparr>)
       else Some (None, g))"

text \<open>The new entry behind the sentinel.\<close>

definition link_root :: "root_ptr \<Rightarrow> nat \<Rightarrow> 'h root_u \<Rightarrow> 'h gc_globals \<Rightarrow> 'h gc_globals option" where
  "link_root newRoot h u g = do {
     g \<leftarrow> put_root newRoot \<lparr>r_prev = Some Roots, r_next = roots_next g, r_handle = h, r_u = u\<rparr> g;
     g \<leftarrow> set_prev (roots_next g) (Some newRoot) g;
     Some (g\<lparr>roots_next := newRoot\<rparr>)
   }"

definition set_zval_address :: "gc_address \<Rightarrow> nat \<Rightarrow> 'h gc_heap \<Rightarrow> 'h gc_heap option" where
  "set_zval_address a = change_zval (z_u_update (GC_SET_ADDRESS a))"

definition set_object_address :: "gc_address \<Rightarrow> nat \<Rightarrow> 'h gc_heap \<Rightarrow> 'h gc_heap option" where
  "set_object_address a = change_object (o_buffered_update (GC_SET_ADDRESS a))"

text \<open>
  The buffer being full, a collection runs (\<open>collect\<close>, with \<open>zv\<close> held by one more reference),
  unless collections are disabled. \<open>black\<close> and \<open>purple\<close> are the writes of the two callers.
\<close>

definition gc_new_root :: "('h gc_globals \<Rightarrow> (int \<times> 'h gc_globals) option) \<Rightarrow> nat \<Rightarrow>
    ('h gc_heap \<Rightarrow> 'h gc_heap option) \<Rightarrow> 'h gc_globals \<Rightarrow> (root_ptr option \<times> 'h gc_globals) option" where
  "gc_new_root collect zv purple g = do {
     (r, g) \<leftarrow> free_root g;
     (if r \<noteq> None then Some (r, g)
      else if \<not> gc_enabled g then do { g \<leftarrow> on_mem (set_zval_color GC_BLACK zv) g; Some (None, g) }
      else do {
        g \<leftarrow> on_mem (change_zval (refcount__gc_update (\<lambda>n. n + 1)) zv) g;
        (_, g) \<leftarrow> collect g;
        g \<leftarrow> on_mem (change_zval (refcount__gc_update (\<lambda>n. n - 1)) zv) g;
        (case unused g of
           None \<Rightarrow> Some (None, g)
         | Some r \<Rightarrow> do {
             g \<leftarrow> on_mem purple g;
             p \<leftarrow> prev_of r g;
             Some (Some r, g\<lparr>unused := p\<rparr>)
           })
      })
   }"

definition gc_zobj_possible_root :: "('h gc_globals \<Rightarrow> (int \<times> 'h gc_globals) option) \<Rightarrow>
    nat \<Rightarrow> nat \<Rightarrow> 'h \<Rightarrow> 'h gc_globals \<Rightarrow> 'h gc_globals option" where
  "gc_zobj_possible_root collect zv h hs g =
     (if get_gc (mem g) hs = None \<or> objects (mem g) = None then Some g
      else do {
        ob \<leftarrow> object_at (mem g) h;
        (if GC_GET_COLOR (o_buffered ob) \<noteq> GC_PURPLE then do {
           g \<leftarrow> on_mem (set_object_color GC_PURPLE h) g;
           (if GC_ADDRESS (o_buffered ob) = Null then do {
              (r, g) \<leftarrow> gc_new_root collect zv (set_object_color GC_PURPLE h) g;
              (case r of
                 None \<Rightarrow> Some g
               | Some newRoot \<Rightarrow> do {
                   g \<leftarrow> link_root newRoot h (Handlers hs) g;
                   on_mem (set_object_address (Root newRoot) h) g
                 })
            } else Some g)
         } else Some g)
      })"

definition gc_zval_possible_root :: "('h gc_globals \<Rightarrow> (int \<times> 'h gc_globals) option) \<Rightarrow>
    nat \<Rightarrow> 'h gc_globals \<Rightarrow> 'h gc_globals option" where
  "gc_zval_possible_root collect zv g = do {
     z \<leftarrow> zvals (mem g) zv;
     (if free_list g \<noteq> Null \<and> GC_ADDRESS (z_u z) \<noteq> Null \<and> GC_GET_COLOR (z_u z) = GC_BLACK \<and>
          outside_buffer g (GC_ADDRESS (z_u z)) then Some g
      else (case z_value z of
        Is_object h hs \<Rightarrow>
          if objects (mem g) = None then Some g
          else do {
            ob \<leftarrow> object_at (mem g) h;
            (if o_valid ob then gc_zobj_possible_root collect zv h hs g else Some g)
          }
      | _ \<Rightarrow>
          if GC_GET_COLOR (z_u z) \<noteq> GC_PURPLE then do {
            g \<leftarrow> on_mem (set_zval_color GC_PURPLE zv) g;
            (if GC_ADDRESS (z_u z) = Null then do {
               (r, g) \<leftarrow> gc_new_root collect zv (set_zval_color GC_PURPLE zv) g;
               (case r of
                  None \<Rightarrow> Some g
                | Some newRoot \<Rightarrow> do {
                    g \<leftarrow> link_root newRoot 0 (Pz zv) g;
                    on_mem (set_zval_address (Root newRoot) zv) g
                  })
             } else Some g)
          } else Some g))
   }"

definition gc_zval_check_possible_root :: "('h gc_globals \<Rightarrow> (int \<times> 'h gc_globals) option) \<Rightarrow>
    nat \<Rightarrow> 'h gc_globals \<Rightarrow> 'h gc_globals option" where
  "gc_zval_check_possible_root collect z g = do {
     zv \<leftarrow> zvals (mem g) z;
     (if z_value zv \<noteq> Is_scalar then gc_zval_possible_root collect z g else Some g)
   }"

definition gc_remove_zval_from_buffer :: "nat \<Rightarrow> 'h gc_globals \<Rightarrow> 'h gc_globals option" where
  "gc_remove_zval_from_buffer zv g = do {
     z \<leftarrow> zvals (mem g) zv;
     (if free_list g \<noteq> Null \<and> GC_GET_COLOR (z_u z) = GC_BLACK \<and> outside_buffer g (GC_ADDRESS (z_u z)) then
        Some (if next_to_free g = Next_zval zv then g\<lparr>next_to_free := GC_ADDRESS (z_u z)\<rparr> else g)
      else (case GC_ADDRESS (z_u z) of
        Root r \<Rightarrow> do {
          g \<leftarrow> gc_remove_from_buffer r g;
          on_mem (change_zval (z_u_update (\<lambda>_. Tagged Null GC_BLACK)) zv) g
        }
      | _ \<Rightarrow> None))
   }"

definition GC_REMOVE_ZVAL_FROM_BUFFER :: "nat \<Rightarrow> 'h gc_globals \<Rightarrow> 'h gc_globals option" where
  "GC_REMOVE_ZVAL_FROM_BUFFER z g = do {
     zv \<leftarrow> zvals (mem g) z;
     (if GC_ADDRESS (z_u zv) \<noteq> Null then gc_remove_zval_from_buffer z g else Some g)
   }"

definition GC_REMOVE_ZOBJ_FROM_BUFFER :: "nat \<Rightarrow> 'h gc_globals \<Rightarrow> 'h gc_globals option" where
  "GC_REMOVE_ZOBJ_FROM_BUFFER h g = do {
     ob \<leftarrow> object_at (mem g) h;
     (case GC_ADDRESS (o_buffered ob) of
        Root r \<Rightarrow>
          if gc_active g then Some g
          else do {
            g \<leftarrow> gc_remove_from_buffer r g;
            on_mem (change_object (o_buffered_update (\<lambda>_. Tagged Null GC_BLACK)) h) g
          }
      | Null \<Rightarrow> Some g
      | _ \<Rightarrow> None)
   }"

subsection \<open>The phases over the roots\<close>

partial_function (option) mark_roots_loop :: "root_ptr \<Rightarrow> 'h gc_globals \<Rightarrow> 'h gc_globals option" where
  "mark_roots_loop current g =
     (if current = Roots then Some g
      else do {
        r \<leftarrow> root_at g current;
        g \<leftarrow> (if r_handle r \<noteq> 0 then
                (if objects (mem g) = None then Some g
                 else do {
                   ob \<leftarrow> object_at (mem g) (r_handle r);
                   (if GC_GET_COLOR (o_buffered ob) = GC_PURPLE then
                      (case r_u r of Handlers hs \<Rightarrow> on_mem (zobj_mark_grey (r_handle r) hs) g | _ \<Rightarrow> None)
                    else do {
                      g \<leftarrow> on_mem (set_object_address Null (r_handle r)) g;
                      gc_remove_from_buffer current g
                    })
                 })
              else (case r_u r of
                Pz pz \<Rightarrow> do {
                  z \<leftarrow> zvals (mem g) pz;
                  (if GC_GET_COLOR (z_u z) = GC_PURPLE then on_mem (zval_mark_grey pz) g
                   else do {
                     g \<leftarrow> on_mem (set_zval_address Null pz) g;
                     gc_remove_from_buffer current g
                   })
                }
              | _ \<Rightarrow> None));
        nxt \<leftarrow> next_of current g;
        mark_roots_loop nxt g
      })"

definition gc_mark_roots :: "'h gc_globals \<Rightarrow> 'h gc_globals option" where
  "gc_mark_roots g = mark_roots_loop (roots_next g) g"

partial_function (option) scan_roots_loop :: "root_ptr \<Rightarrow> 'h gc_globals \<Rightarrow> 'h gc_globals option" where
  "scan_roots_loop current g =
     (if current = Roots then Some g
      else do {
        r \<leftarrow> root_at g current;
        g \<leftarrow> (if r_handle r \<noteq> 0 then
                (case r_u r of Handlers hs \<Rightarrow> on_mem (zobj_scan (r_handle r) hs) g | _ \<Rightarrow> None)
              else (case r_u r of Pz pz \<Rightarrow> on_mem (zval_scan pz) g | _ \<Rightarrow> None));
        nxt \<leftarrow> next_of current g;
        scan_roots_loop nxt g
      })"

definition gc_scan_roots :: "'h gc_globals \<Rightarrow> 'h gc_globals option" where
  "gc_scan_roots g = scan_roots_loop (roots_next g) g"

partial_function (option) collect_roots_loop :: "root_ptr \<Rightarrow> 'h gc_globals \<Rightarrow> 'h gc_globals option" where
  "collect_roots_loop current g =
     (if current = Roots then Some g
      else do {
        r \<leftarrow> root_at g current;
        g \<leftarrow> (if r_handle r \<noteq> 0 then
                (if objects (mem g) = None then Some g
                 else do {
                   g \<leftarrow> on_mem (set_object_address Null (r_handle r)) g;
                   (case r_u r of Handlers hs \<Rightarrow> on_mem (zobj_collect_white (r_handle r) hs) g | _ \<Rightarrow> None)
                 })
              else (case r_u r of
                Pz pz \<Rightarrow> do {
                  g \<leftarrow> on_mem (set_zval_address Null pz) g;
                  on_mem (zval_collect_white pz) g
                }
              | _ \<Rightarrow> None));
        g \<leftarrow> gc_remove_from_buffer current g;
        nxt \<leftarrow> next_of current g;
        collect_roots_loop nxt g
      })"

definition gc_collect_roots :: "'h gc_globals \<Rightarrow> 'h gc_globals option" where
  "gc_collect_roots g = collect_roots_loop (roots_next g) g"

subsection \<open>A collection\<close>

text \<open>The three phases, which end with the list of garbage in \<open>free_list\<close>.\<close>

definition gc_find_garbage :: "'h gc_globals \<Rightarrow> 'h gc_globals option" where
  "gc_find_garbage g = do {
     let g = g\<lparr>gc_runs := gc_runs g + 1, mem := (mem g)\<lparr>zval_to_free := Free_list_end\<rparr>, gc_active := True\<rparr>;
     g \<leftarrow> gc_mark_roots g;
     g \<leftarrow> gc_scan_roots g;
     g \<leftarrow> gc_collect_roots g;
     Some (g\<lparr>free_list := zval_to_free (mem g), mem := (mem g)\<lparr>zval_to_free := Null\<rparr>, gc_active := False\<rparr>)
   }"

text \<open>
  The code a collection calls that is not in \<open>zend_gc.c\<close>: the destructor of an object,
  \<open>zend_objects_store_del_ref_by_handle_ex\<close>, \<open>zend_hash_destroy\<close> with \<open>FREE_HASHTABLE\<close>, and
  \<open>zval_dtor\<close> of a scalar. Each may run PHP code and come back to this file. They are partial
  functions here, given from outside; nothing is stated of a whole \<open>gc_collect_cycles\<close>, only of what it
  does before it calls them.
\<close>

record 'h gc_engine =
  run_dtor :: "nat \<Rightarrow> 'h gc_globals \<Rightarrow> 'h gc_globals option"
  del_ref_by_handle :: "nat \<Rightarrow> 'h \<Rightarrow> 'h gc_globals \<Rightarrow> 'h gc_globals option"
  destroy_table :: "nat \<Rightarrow> 'h gc_globals \<Rightarrow> 'h gc_globals option"
  zval_dtor :: "nat \<Rightarrow> 'h gc_globals \<Rightarrow> 'h gc_globals option"

partial_function (option) call_destructors_loop ::
  "'h gc_engine \<Rightarrow> gc_address \<Rightarrow> int \<Rightarrow> 'h gc_globals \<Rightarrow> (int \<times> 'h gc_globals) option" where
  "call_destructors_loop e p n g = (case p of
     Free_list_end \<Rightarrow> Some (n, g)
   | Next_zval pz \<Rightarrow> do {
       z \<leftarrow> zvals (mem g) pz;
       g \<leftarrow> (case z_value z of
          Is_object h hs \<Rightarrow>
            if objects (mem g) = None then Some g
            else do {
              ob \<leftarrow> object_at (mem g) h;
              (if o_valid ob \<and> o_refcount ob = 0 \<and> o_has_dtor ob \<and> \<not> o_destructor_called ob then do {
                 g \<leftarrow> on_mem (change_object (\<lambda>ob. ob\<lparr>o_destructor_called := True, o_refcount := o_refcount ob + 1\<rparr>) h) g;
                 g \<leftarrow> run_dtor e h g;
                 on_mem (change_object (o_refcount_update (\<lambda>n. n - 1)) h) g
               } else Some g)
            }
        | _ \<Rightarrow> Some g);
       n \<leftarrow> c_int (n + 1);
       z \<leftarrow> zvals (mem g) pz;
       call_destructors_loop e (GC_ADDRESS (z_u z)) n g
     }
   | _ \<Rightarrow> None)"

definition set_null :: "nat \<Rightarrow> 'h gc_heap \<Rightarrow> 'h gc_heap option" where
  "set_null = change_zval (z_value_update (\<lambda>_. Is_scalar))"

partial_function (option) destroy_zvals_loop ::
  "'h gc_engine \<Rightarrow> gc_address \<Rightarrow> 'h gc_globals \<Rightarrow> 'h gc_globals option" where
  "destroy_zvals_loop e p g = (case p of
     Free_list_end \<Rightarrow> Some g
   | Next_zval pz \<Rightarrow> do {
       z \<leftarrow> zvals (mem g) pz;
       let g = g\<lparr>next_to_free := GC_ADDRESS (z_u z)\<rparr>;
       g \<leftarrow> (case z_value z of
          Is_object h hs \<Rightarrow>
            if objects (mem g) = None then Some g
            else do {
              ob \<leftarrow> object_at (mem g) h;
              (if o_valid ob \<and> o_refcount ob = 0 then do {
                 g \<leftarrow> on_mem (change_object (o_refcount_update (\<lambda>_. 1)) h) g;
                 g \<leftarrow> on_mem (set_null pz) g;
                 del_ref_by_handle e h hs g
               } else Some g)
            }
        | Is_array ht \<Rightarrow> do { g \<leftarrow> on_mem (set_null pz) g; destroy_table e ht g }
        | Is_scalar \<Rightarrow> do { g \<leftarrow> zval_dtor e pz g; on_mem (set_null pz) g });
       destroy_zvals_loop e (next_to_free g) g
     }
   | _ \<Rightarrow> None)"

partial_function (option) free_zvals_loop :: "gc_address \<Rightarrow> 'h gc_heap \<Rightarrow> 'h gc_heap option" where
  "free_zvals_loop p s = (case p of
     Free_list_end \<Rightarrow> Some s
   | Next_zval pz \<Rightarrow> do {
       z \<leftarrow> zvals s pz;
       free_zvals_loop (GC_ADDRESS (z_u z)) (s\<lparr>zvals := (zvals s)(pz := None)\<rparr>)
     }
   | _ \<Rightarrow> None)"

definition gc_collect_cycles :: "'h gc_engine \<Rightarrow> 'h gc_globals \<Rightarrow> (int \<times> 'h gc_globals) option" where
  "gc_collect_cycles e g =
     (if roots_next g \<noteq> Roots then
        (if gc_active g then Some (0, g)
         else do {
           let orig_free_list = free_list g;
           let orig_next_to_free = next_to_free g;
           g \<leftarrow> gc_find_garbage g;
           (n, g) \<leftarrow> call_destructors_loop e (free_list g) 0 g;
           g \<leftarrow> destroy_zvals_loop e (free_list g) g;
           g \<leftarrow> on_mem (free_zvals_loop (free_list g)) g;
           Some (n, g\<lparr>collected := collected g + word_of_int n, free_list := orig_free_list,
             next_to_free := orig_next_to_free\<rparr>)
         })
      else Some (0, g))"

end
