(* ===== verification/Zend_Gc_Heap.thy ===== *)
theory Zend_Gc_Heap
  imports Zend_Gc
begin

text \<open>
  The traversals of the collector on the heap keep the contracts of \<open>rc_graph\<close>: the nodes are the
  zvals (other than arrays that are the symbol table) and the objects of the store.
\<close>

subsection \<open>The graph of a heap\<close>

datatype gc_node = Zv nat | Ob nat

definition value_at :: "'h gc_heap \<Rightarrow> nat \<Rightarrow> 'h z_value option" where
  "value_at s p = map_option z_value (zvals s p)"

definition object_info :: "'h gc_heap \<Rightarrow> nat \<Rightarrow> (bool \<times> 'h) option" where
  "object_info s h = map_option (\<lambda>ob. (o_valid ob, handlers_of_zvals ob)) (object_at s h)"

definition is_global :: "'h gc_heap \<Rightarrow> nat \<Rightarrow> bool" where
  "is_global s p \<longleftrightarrow> value_at s p = Some (Is_array (symbol_table s))"

definition entries_of :: "'h gc_heap \<Rightarrow> nat \<Rightarrow> nat option list" where
  "entries_of s h = (case object_info s h of None \<Rightarrow> []
     | Some (v, hs) \<Rightarrow> all_entries (if v then map_option (\<lambda>f. f h) (get_gc s hs) else None))"

fun node_refs :: "'h gc_heap \<Rightarrow> nat option list \<Rightarrow> gc_node list" where
  "node_refs s [] = []"
| "node_refs s (None # ps) = node_refs s ps"
| "node_refs s (Some p # ps) = (if is_global s p then node_refs s ps else Zv p # node_refs s ps)"

definition heap_ok :: "'h gc_heap \<Rightarrow> bool" where
  "heap_ok s \<longleftrightarrow> finite {p. value_at s p \<noteq> None} \<and>
     (\<forall>p ht. value_at s p = Some (Is_array ht) \<longrightarrow> ht \<noteq> symbol_table s \<longrightarrow>
        (\<exists>ps. tables s ht = Some ps \<and> (\<forall>q\<in>set ps. value_at s q \<noteq> None))) \<and>
     (\<forall>p h hs. value_at s p = Some (Is_object h hs) \<longrightarrow> objects s \<noteq> None \<longrightarrow> (\<exists>v. object_info s h = Some (v, hs))) \<and>
     (\<forall>h q. object_info s h \<noteq> None \<longrightarrow> Some q \<in> set (entries_of s h) \<longrightarrow> value_at s q \<noteq> None)"

lemma heap_okD:
  assumes "heap_ok s"
  shows "finite {p. value_at s p \<noteq> None}"
    and "value_at s p = Some (Is_array ht) \<Longrightarrow> ht \<noteq> symbol_table s \<Longrightarrow>
      \<exists>ps. tables s ht = Some ps \<and> (\<forall>q\<in>set ps. value_at s q \<noteq> None)"
    and "value_at s p = Some (Is_object h hs) \<Longrightarrow> objects s \<noteq> None \<Longrightarrow> \<exists>v. object_info s h = Some (v, hs)"
    and "object_info s h \<noteq> None \<Longrightarrow> Some q \<in> set (entries_of s h) \<Longrightarrow> value_at s q \<noteq> None"
  using assms unfolding heap_ok_def by blast+

definition gc_nodes :: "'h gc_heap \<Rightarrow> gc_node set" where
  "gc_nodes s = (if heap_ok s then Zv ` {p. value_at s p \<noteq> None \<and> \<not> is_global s p} \<union> Ob ` {h. object_info s h \<noteq> None} else {})"

definition gc_kids :: "'h gc_heap \<Rightarrow> gc_node \<Rightarrow> gc_node list" where
  "gc_kids s n = (case n of
     Zv p \<Rightarrow> (case value_at s p of
        Some (Is_array ht) \<Rightarrow> if ht = symbol_table s then [] else
          (case tables s ht of None \<Rightarrow> [] | Some ps \<Rightarrow> node_refs s (map Some ps))
      | Some (Is_object h hs) \<Rightarrow> if objects s = None then [] else [Ob h]
      | _ \<Rightarrow> [])
   | Ob h \<Rightarrow> node_refs s (entries_of s h))"

fun is_zval :: "gc_node \<Rightarrow> bool" where
  "is_zval (Zv p) = True"
| "is_zval (Ob h) = False"

lemma object_info_bound: "object_info s h \<noteq> None \<Longrightarrow> \<exists>xs. objects s = Some xs \<and> h < length xs"
  by (auto simp: object_info_def object_at_def slot_def split: option.splits if_splits)

lemma finite_gc_nodes: "finite (gc_nodes s)"
proof (cases "heap_ok s")
  case True
  have "finite {h. object_info s h \<noteq> None}"
  proof (cases "objects s")
    case None
    then have "{h. object_info s h \<noteq> None} = {}" using object_info_bound [of s] by fastforce
    then show ?thesis by simp
  next
    case (Some xs)
    then have "{h. object_info s h \<noteq> None} \<subseteq> {..<length xs}" using object_info_bound [of s] by fastforce
    then show ?thesis by (rule finite_subset) simp
  qed
  moreover have "finite {p. value_at s p \<noteq> None \<and> \<not> is_global s p}"
    using True by (auto simp: heap_ok_def intro: finite_subset [rotated])
  ultimately show ?thesis using True by (simp add: gc_nodes_def)
qed (simp add: gc_nodes_def)

lemma node_refs_in: "n \<in> set (node_refs s ps) \<longleftrightarrow> (\<exists>p. n = Zv p \<and> Some p \<in> set ps \<and> \<not> is_global s p)"
  by (induction s ps rule: node_refs.induct) auto

lemma gc_kids_closed:
  assumes "m \<in> gc_nodes s"
  shows "set (gc_kids s m) \<subseteq> gc_nodes s"
proof -
  have ok: "heap_ok s" using assms by (auto simp: gc_nodes_def split: if_splits)
  have z: "set (node_refs s ps) \<subseteq> gc_nodes s" if "\<forall>q. Some q \<in> set ps \<longrightarrow> value_at s q \<noteq> None" for ps
    using that ok by (auto simp: gc_nodes_def node_refs_in)
  show ?thesis
  proof (cases m)
    case (Ob h)
    then have "object_info s h \<noteq> None" using assms ok by (auto simp: gc_nodes_def)
    then have "\<forall>q. Some q \<in> set (entries_of s h) \<longrightarrow> value_at s q \<noteq> None" using ok unfolding heap_ok_def by blast
    then show ?thesis using z Ob by (simp add: gc_kids_def)
  next
    case (Zv p)
    show ?thesis
    proof (cases "value_at s p")
      case (Some v)
      show ?thesis
      proof (cases v)
        case (Is_array ht)
        show ?thesis
        proof (cases "ht = symbol_table s")
          case False
          then obtain ps where "tables s ht = Some ps" "\<forall>q\<in>set ps. value_at s q \<noteq> None"
            using heap_okD(2) [OF ok, of p ht] Some Is_array by blast
          then show ?thesis using Zv Some Is_array z [of "map Some ps"] by (auto simp: gc_kids_def)
        qed (simp add: gc_kids_def Zv Some Is_array)
      next
        case (Is_object h hs)
        then show ?thesis using heap_okD(3) [OF ok, of p h hs] ok Some Zv by (auto simp: gc_kids_def gc_nodes_def)
      qed (simp add: gc_kids_def Zv Some)
    qed (simp add: gc_kids_def Zv)
  qed
qed

lemma gc_kids_outside:
  assumes "heap_ok s" and "n \<notin> gc_nodes s"
  shows "gc_kids s n = []"
proof (cases n)
  case (Zv p)
  then have "value_at s p = None \<or> value_at s p = Some (Is_array (symbol_table s))"
    using assms by (auto simp: gc_nodes_def is_global_def)
  then show ?thesis using Zv by (auto simp: gc_kids_def)
next
  case (Ob h)
  then have "object_info s h = None" using assms by (auto simp: gc_nodes_def)
  then show ?thesis using Ob by (simp add: gc_kids_def entries_of_def)
qed

interpretation gc: rc_graph "gc_kids s" "gc_nodes s" is_zval for s
  by unfold_locales (auto intro: finite_gc_nodes dest: gc_kids_closed)

abbreviation gc_reach where "gc_reach s \<equiv> rc_graph.reach (gc_kids s)"
abbreviation gc_edges where "gc_edges s \<equiv> rc_graph.edges (gc_kids s)"
abbreviation gc_paint where "gc_paint s \<equiv> rc_graph.paint (gc_kids s) (gc_nodes s)"
abbreviation gc_at_rest where "gc_at_rest s \<equiv> rc_graph.at_rest (gc_kids s)"
abbreviation gc_scanned where "gc_scanned s \<equiv> rc_graph.scanned (gc_kids s)"
abbreviation gc_gather where "gc_gather s \<equiv> rc_graph.gather (gc_kids s) (gc_nodes s) is_zval"
abbreviation gc_done where "gc_done \<equiv> rc_graph.done_color is_zval"
abbreviation gc_part where "gc_part s \<equiv> rc_graph.part (gc_kids s) (gc_nodes s)"
abbreviation gc_live where "gc_live s \<equiv> rc_graph.live (gc_kids s)"

subsection \<open>Colours and counts\<close>

definition col :: "'h gc_heap \<Rightarrow> gc_node \<Rightarrow> gc_color" where
  "col s n = (case n of
     Zv p \<Rightarrow> (case zvals s p of None \<Rightarrow> GC_BLACK | Some z \<Rightarrow> if is_global s p then GC_BLACK else GC_GET_COLOR (z_u z))
   | Ob h \<Rightarrow> (case object_at s h of None \<Rightarrow> GC_BLACK | Some ob \<Rightarrow> GC_GET_COLOR (o_buffered ob)))"

definition rc :: "'h gc_heap \<Rightarrow> gc_node \<Rightarrow> uint" where
  "rc s n = (case n of
     Zv p \<Rightarrow> (case zvals s p of None \<Rightarrow> 0 | Some z \<Rightarrow> if is_global s p then 0 else refcount__gc z)
   | Ob h \<Rightarrow> (case object_at s h of None \<Rightarrow> 0 | Some ob \<Rightarrow> o_refcount ob))"

definition addr :: "'h gc_heap \<Rightarrow> gc_node \<Rightarrow> gc_address option" where
  "addr s n = (case n of
     Zv p \<Rightarrow> map_option (\<lambda>z. GC_ADDRESS (z_u z)) (zvals s p)
   | Ob h \<Rightarrow> map_option (\<lambda>ob. GC_ADDRESS (o_buffered ob)) (object_at s h))"

text \<open>What no traversal changes.\<close>

definition same_shape :: "'h gc_heap \<Rightarrow> 'h gc_heap \<Rightarrow> bool" where
  "same_shape s s' \<longleftrightarrow> value_at s' = value_at s \<and> object_info s' = object_info s \<and> tables s' = tables s \<and>
     symbol_table s' = symbol_table s \<and> get_gc s' = get_gc s \<and> (objects s' = None) = (objects s = None)"

text \<open>The global symbol table is never grey or white between two visits.\<close>

definition globals_quiet :: "'h gc_heap \<Rightarrow> bool" where
  "globals_quiet s \<longleftrightarrow> (\<forall>p z. zvals s p = Some z \<longrightarrow> is_global s p \<longrightarrow> GC_GET_COLOR (z_u z) \<in> {GC_BLACK, GC_PURPLE})"

lemma same_shape_refl [simp]: "same_shape s s"
  by (simp add: same_shape_def)

lemma same_shape_trans: "same_shape s s1 \<Longrightarrow> same_shape s1 s2 \<Longrightarrow> same_shape s s2"
  by (simp add: same_shape_def)

lemma same_shapeD:
  assumes "same_shape s s'"
  shows "value_at s' = value_at s" "object_info s' = object_info s" "tables s' = tables s"
    "symbol_table s' = symbol_table s" "get_gc s' = get_gc s" "(objects s' = None) = (objects s = None)"
    "is_global s' = is_global s" "entries_of s' = entries_of s" "node_refs s' = node_refs s"
    "heap_ok s' = heap_ok s" "gc_nodes s' = gc_nodes s" "gc_kids s' = gc_kids s"
proof -
  show v: "value_at s' = value_at s" "object_info s' = object_info s" "tables s' = tables s"
    "symbol_table s' = symbol_table s" "get_gc s' = get_gc s" "(objects s' = None) = (objects s = None)"
    using assms by (simp_all add: same_shape_def)
  show g: "is_global s' = is_global s" by (simp add: fun_eq_iff is_global_def v)
  show e: "entries_of s' = entries_of s" by (simp add: fun_eq_iff entries_of_def v split: option.split)
  have "node_refs s' ps = node_refs s ps" for ps
  proof (induction ps)
    case (Cons a ps)
    then show ?case by (cases a) (simp_all add: g)
  qed simp
  then show r: "node_refs s' = node_refs s" by (simp add: fun_eq_iff)
  show ok: "heap_ok s' = heap_ok s" by (simp add: heap_ok_def v e)
  show "gc_nodes s' = gc_nodes s" by (simp add: gc_nodes_def ok v g)
  show "gc_kids s' = gc_kids s" by (intro ext) (unfold gc_kids_def v e r, rule refl)
qed

lemma value_at_Some: "value_at s p \<noteq> None \<Longrightarrow> \<exists>z. zvals s p = Some z \<and> value_at s p = Some (z_value z)"
  by (auto simp: value_at_def)

text \<open>The steps of the traversals.\<close>

lemma change_zval_shape:
  assumes "zvals s p = Some z" and "z_value (f z) = z_value z"
  shows "same_shape s (s\<lparr>zvals := (zvals s)(p \<mapsto> f z)\<rparr>)"
  using assms by (auto simp: same_shape_def value_at_def object_info_def object_at_def fun_eq_iff)

lemma change_zval_Some: "zvals s p = Some z \<Longrightarrow> change_zval f p s = Some (s\<lparr>zvals := (zvals s)(p \<mapsto> f z)\<rparr>)"
  by (simp add: change_zval_def)

lemma object_at_Some: "object_at s h = Some ob \<longleftrightarrow> (\<exists>xs. objects s = Some xs \<and> h < length xs \<and> xs ! h = Some ob)"
  by (auto simp: object_at_def slot_def split: option.splits)

lemma change_object_Some:
  assumes "object_at s h = Some ob"
  shows "\<exists>bs. change_object f h s = Some (s\<lparr>objects := Some bs\<rparr>) \<and>
    (\<forall>k. object_at (s\<lparr>objects := Some bs\<rparr>) k = (if k = h then Some (f ob) else object_at s k))"
proof -
  obtain xs where xs: "objects s = Some xs" "h < length xs" "xs ! h = Some ob" using assms by (auto simp: object_at_Some)
  have "change_object f h s = Some (s\<lparr>objects := Some (xs[h := Some (f ob)])\<rparr>)"
    using xs assms by (simp add: change_object_def set_slot_def)
  moreover have "object_at (s\<lparr>objects := Some (xs[h := Some (f ob)])\<rparr>) k = (if k = h then Some (f ob) else object_at s k)" for k
    using xs by (simp add: object_at_def slot_def)
  ultimately show ?thesis by blast
qed

definition frame :: "'h gc_heap \<Rightarrow> 'h gc_heap \<Rightarrow> bool" where
  "frame s s' \<longleftrightarrow> same_shape s s' \<and> addr s' = addr s \<and> zval_to_free s' = zval_to_free s \<and>
     (globals_quiet s \<longrightarrow> globals_quiet s')"

lemma frame_refl [simp]: "frame s s"
  by (simp add: frame_def)

lemma frame_trans: "frame s s1 \<Longrightarrow> frame s1 s2 \<Longrightarrow> frame s s2"
  by (auto simp: frame_def intro: same_shape_trans)

lemma frameD: "frame s s' \<Longrightarrow> same_shape s s'" "frame s s' \<Longrightarrow> addr s' = addr s"
    "frame s s' \<Longrightarrow> zval_to_free s' = zval_to_free s" "frame s s' \<Longrightarrow> globals_quiet s \<Longrightarrow> globals_quiet s'"
  by (simp_all add: frame_def)

lemma GC_word_simps [simp]:
  "GC_GET_COLOR (GC_SET_COLOR c w) = c" "GC_ADDRESS (GC_SET_COLOR c w) = GC_ADDRESS w"
  "GC_GET_COLOR (GC_SET_ADDRESS a w) = GC_GET_COLOR w" "GC_ADDRESS (GC_SET_ADDRESS a w) = a"
  by (cases w; simp)+

text \<open>Colouring a zval; when it is the global symbol table no node changes its colour.\<close>

lemma set_zval_color_step:
  assumes "value_at s p \<noteq> None"
  shows "\<exists>s'. set_zval_color c p s = Some s' \<and> same_shape s s' \<and> addr s' = addr s \<and> zval_to_free s' = zval_to_free s \<and>
    rc s' = rc s \<and> col s' = (if is_global s p then col s else (col s)(Zv p := c)) \<and>
    (is_global s p \<longrightarrow> c \<in> {GC_BLACK, GC_PURPLE} \<longrightarrow> globals_quiet s \<longrightarrow> globals_quiet s') \<and>
    (\<not> is_global s p \<longrightarrow> globals_quiet s \<longrightarrow> globals_quiet s') \<and>
    (\<exists>z. zvals s p = Some z \<and> zvals s' = (zvals s)(p \<mapsto> z_u_update (GC_SET_COLOR c) z) \<and> objects s' = objects s)"
proof -
  obtain z where z: "zvals s p = Some z" using value_at_Some [OF assms] by blast
  let ?s = "s\<lparr>zvals := (zvals s)(p \<mapsto> z_u_update (GC_SET_COLOR c) z)\<rparr>"
  have e: "set_zval_color c p s = Some ?s" using z by (simp add: set_zval_color_def change_zval_Some)
  have sh: "same_shape s ?s" using change_zval_shape [OF z, of "z_u_update (GC_SET_COLOR c)"] by simp
  have g: "is_global ?s = is_global s" using sh by (rule same_shapeD)
  have o: "object_at ?s = object_at s" by (simp add: object_at_def fun_eq_iff)
  have "addr ?s = addr s" "rc ?s = rc s" using z
    by (auto simp: fun_eq_iff addr_def rc_def g o split: gc_node.split option.split)
  moreover have "col ?s = (if is_global s p then col s else (col s)(Zv p := c))" using z
    by (auto simp: fun_eq_iff col_def g o split: gc_node.split option.split)
  moreover have "globals_quiet s \<Longrightarrow> \<not> is_global s p \<or> c \<in> {GC_BLACK, GC_PURPLE} \<Longrightarrow> globals_quiet ?s"
    using z unfolding globals_quiet_def g by simp
  ultimately show ?thesis using e sh z by (intro exI [of _ ?s]) auto
qed

lemma set_object_color_step:
  assumes "object_info s h \<noteq> None"
  shows "\<exists>s'. set_object_color c h s = Some s' \<and> frame s s' \<and> rc s' = rc s \<and> col s' = (col s)(Ob h := c) \<and> zvals s' = zvals s"
proof -
  obtain ob where ob: "object_at s h = Some ob" using assms by (auto simp: object_info_def)
  obtain bs where bs: "set_object_color c h s = Some (s\<lparr>objects := Some bs\<rparr>)"
    "\<forall>k. object_at (s\<lparr>objects := Some bs\<rparr>) k = (if k = h then Some (o_buffered_update (GC_SET_COLOR c) ob) else object_at s k)"
    using change_object_Some [OF ob] unfolding set_object_color_def by blast
  let ?s = "s\<lparr>objects := Some bs\<rparr>"
  have ne: "objects s \<noteq> None" using ob by (auto simp: object_at_def slot_def split: option.splits)
  have sh: "same_shape s ?s" using bs(2) ob ne by (auto simp: same_shape_def value_at_def object_info_def fun_eq_iff)
  have g: "is_global ?s = is_global s" using sh by (rule same_shapeD)
  have "addr ?s = addr s" "rc ?s = rc s" "col ?s = (col s)(Ob h := c)" "globals_quiet ?s = globals_quiet s" using bs(2) ob
    by (auto simp: fun_eq_iff addr_def rc_def col_def g globals_quiet_def split: gc_node.split option.split)
  then show ?thesis using bs(1) sh by (auto simp: frame_def)
qed

lemma count_object_step:
  assumes "object_info s h \<noteq> None"
  shows "\<exists>s'. change_object (o_refcount_update (\<lambda>n. n + d)) h s = Some s' \<and> frame s s' \<and> col s' = col s \<and>
    rc s' = (rc s)(Ob h := rc s (Ob h) + d) \<and> zvals s' = zvals s"
proof -
  obtain ob where ob: "object_at s h = Some ob" using assms by (auto simp: object_info_def)
  obtain bs where bs: "change_object (o_refcount_update (\<lambda>n. n + d)) h s = Some (s\<lparr>objects := Some bs\<rparr>)"
    "\<forall>k. object_at (s\<lparr>objects := Some bs\<rparr>) k = (if k = h then Some (o_refcount_update (\<lambda>n. n + d) ob) else object_at s k)"
    using change_object_Some [OF ob] by blast
  let ?s = "s\<lparr>objects := Some bs\<rparr>"
  have ne: "objects s \<noteq> None" using ob by (auto simp: object_at_def slot_def split: option.splits)
  have sh: "same_shape s ?s" using bs(2) ob ne by (auto simp: same_shape_def value_at_def object_info_def fun_eq_iff)
  have g: "is_global ?s = is_global s" using sh by (rule same_shapeD)
  have "addr ?s = addr s" "col ?s = col s" "rc ?s = (rc s)(Ob h := rc s (Ob h) + d)" "globals_quiet ?s = globals_quiet s"
    using bs(2) ob by (auto simp: fun_eq_iff addr_def rc_def col_def g globals_quiet_def split: gc_node.split option.split)
  then show ?thesis using bs(1) sh by (auto simp: frame_def)
qed

lemma count_edge_step:
  assumes "value_at s p \<noteq> None"
  shows "\<exists>s'. count_edge d p s = Some s' \<and> frame s s' \<and> col s' = col s \<and>
    rc s' = (if is_global s p then rc s else (rc s)(Zv p := rc s (Zv p) + d)) \<and> objects s' = objects s"
proof -
  obtain z where z: "zvals s p = Some z" "value_at s p = Some (z_value z)" using value_at_Some [OF assms] by blast
  show ?thesis
  proof (cases "is_global s p")
    case True
    then have "count_edge d p s = Some s" using z by (simp add: count_edge_def is_symbol_table_def is_global_def)
    then show ?thesis using True by auto
  next
    case False
    let ?s = "s\<lparr>zvals := (zvals s)(p \<mapsto> refcount__gc_update (\<lambda>n. n + d) z)\<rparr>"
    have e: "count_edge d p s = Some ?s"
      using z False by (simp add: count_edge_def is_symbol_table_def is_global_def change_zval_Some)
    have sh: "same_shape s ?s" using change_zval_shape [OF z(1), of "refcount__gc_update (\<lambda>n. n + d)"] by simp
    have g: "is_global ?s = is_global s" using sh by (rule same_shapeD)
    have o: "object_at ?s = object_at s" by (simp add: object_at_def fun_eq_iff)
    have "addr ?s = addr s" "col ?s = col s" "rc ?s = (rc s)(Zv p := rc s (Zv p) + d)" using z False
      by (auto simp: fun_eq_iff addr_def col_def rc_def g o split: gc_node.split option.split)
    moreover have "globals_quiet s \<longrightarrow> globals_quiet ?s" using z False by (auto simp: globals_quiet_def g)
    ultimately show ?thesis using e sh False by (auto simp: frame_def)
  qed
qed

subsection \<open>Induction over the traversals\<close>

lemma task_induct:
  fixes m :: "'h gc_heap \<Rightarrow> nat"
  assumes zval: "\<And>pz s. (\<And>t s'. m s' < m s \<Longrightarrow> P t s') \<Longrightarrow> P (Zval pz) s"
    and object: "\<And>h hs s. (\<And>t s'. m s' < m s \<Longrightarrow> P t s') \<Longrightarrow> P (Store_object h hs) s"
    and nil: "\<And>s. P (Entries []) s"
    and none: "\<And>ps s. P (Entries ps) s \<Longrightarrow> P (Entries (None # ps)) s"
    and some: "\<And>pz ps s. (\<And>s'. m s' \<le> m s \<Longrightarrow> P (Zval pz) s') \<Longrightarrow> (\<And>s'. m s' \<le> m s \<Longrightarrow> P (Entries ps) s') \<Longrightarrow>
      P (Entries (Some pz # ps)) s"
  shows "P t (s :: 'h gc_heap)"
proof -
  have "\<forall>t s. m s = k \<longrightarrow> P t s" for k
  proof (induction k rule: less_induct)
    case (less k)
    have lt: "P t s" if "m s < k" for t s using less.IH [of "m s"] that by blast
    have z: "P (Zval pz) s" if "m s \<le> k" for pz s using zval [of s pz] lt that by simp
    have e: "m s \<le> k \<longrightarrow> P (Entries ps) s" for ps s
    proof (induction ps arbitrary: s)
      case (Cons a ps)
      then show ?case using z some [of s _ ps] none [of ps s] by (cases a) auto
    qed (simp add: nil)
    have "P t s" if "m s = k" for t s
      using z [of s] e [of s] object [of s] lt that by (cases t) auto
    then show ?case by blast
  qed
  then show ?thesis by blast
qed

text \<open>The references a task counts, and the nodes it is led to.\<close>

fun task_refs :: "'h gc_heap \<Rightarrow> 'h gc_task \<Rightarrow> gc_node list" where
  "task_refs s (Zval pz) = []"
| "task_refs s (Store_object h hs) = []"
| "task_refs s (Entries ps) = node_refs s ps"

fun task_nodes :: "'h gc_heap \<Rightarrow> 'h gc_task \<Rightarrow> gc_node list" where
  "task_nodes s (Zval pz) = node_refs s [Some pz]"
| "task_nodes s (Store_object h hs) = [Ob h]"
| "task_nodes s (Entries ps) = node_refs s ps"

fun task_ok :: "'h gc_heap \<Rightarrow> 'h gc_task \<Rightarrow> bool" where
  "task_ok s (Zval pz) = (value_at s pz \<noteq> None)"
| "task_ok s (Store_object h hs) = (\<exists>v. object_info s h = Some (v, hs))"
| "task_ok s (Entries ps) = (\<forall>p. Some p \<in> set ps \<longrightarrow> value_at s p \<noteq> None)"

lemma task_shape:
  assumes "same_shape s s'"
  shows "task_ok s' t = task_ok s t" "task_refs s' t = task_refs s t" "task_nodes s' t = task_nodes s t"
  using same_shapeD [OF assms] by (cases t; simp)+

text \<open>The entries of an object and of an array are the nodes it refers to.\<close>

lemma object_entries:
  assumes "object_at s h = Some ob" and "handlers_of_zvals ob = hs"
  shows "all_entries (gc_entries s ob hs h) = entries_of s h"
  using assms by (auto simp: gc_entries_def entries_of_def object_info_def)

lemma object_task:
  assumes "heap_ok s" and "task_ok s (Store_object h hs)"
  shows "\<exists>ob. object_at s h = Some ob \<and> all_entries (gc_entries s ob hs h) = entries_of s h \<and>
    task_ok s (Entries (entries_of s h)) \<and> task_refs s (Entries (entries_of s h)) = gc_kids s (Ob h) \<and>
    Ob h \<in> gc_nodes s \<and> col s (Ob h) = GC_GET_COLOR (o_buffered ob) \<and> rc s (Ob h) = o_refcount ob"
proof -
  obtain ob where ob: "object_at s h = Some ob" "handlers_of_zvals ob = hs" using assms(2) by (auto simp: object_info_def)
  have "object_info s h \<noteq> None" using assms(2) by auto
  then have "task_ok s (Entries (entries_of s h))" "Ob h \<in> gc_nodes s"
    using heap_okD(4) [OF assms(1)] assms(1) by (auto simp: gc_nodes_def)
  then show ?thesis using ob object_entries [OF ob] by (auto simp: gc_kids_def col_def rc_def)
qed

lemma zval_task:
  assumes "heap_ok s" and "value_at s p \<noteq> None" and "\<not> is_global s p"
  shows "\<exists>z. zvals s p = Some z \<and> Zv p \<in> gc_nodes s \<and> col s (Zv p) = GC_GET_COLOR (z_u z) \<and> rc s (Zv p) = refcount__gc z \<and>
    (case z_value z of
       Is_array ht \<Rightarrow> ht \<noteq> symbol_table s \<and> (\<exists>ps. tables s ht = Some ps \<and> task_ok s (Entries (map Some ps)) \<and>
         gc_kids s (Zv p) = node_refs s (map Some ps))
     | Is_object h hs \<Rightarrow> if objects s = None then gc_kids s (Zv p) = [] else task_ok s (Store_object h hs) \<and> gc_kids s (Zv p) = [Ob h]
     | Is_scalar \<Rightarrow> gc_kids s (Zv p) = [])"
proof -
  obtain z where z: "zvals s p = Some z" "value_at s p = Some (z_value z)" using value_at_Some [OF assms(2)] by blast
  have "case z_value z of
       Is_array ht \<Rightarrow> ht \<noteq> symbol_table s \<and> (\<exists>ps. tables s ht = Some ps \<and> task_ok s (Entries (map Some ps)) \<and>
         gc_kids s (Zv p) = node_refs s (map Some ps))
     | Is_object h hs \<Rightarrow> if objects s = None then gc_kids s (Zv p) = [] else task_ok s (Store_object h hs) \<and> gc_kids s (Zv p) = [Ob h]
     | Is_scalar \<Rightarrow> gc_kids s (Zv p) = []"
  proof (cases "z_value z")
    case (Is_array ht)
    then have "ht \<noteq> symbol_table s" using assms(3) z(2) by (auto simp: is_global_def)
    moreover obtain ps where "tables s ht = Some ps" "\<forall>q\<in>set ps. value_at s q \<noteq> None"
      using heap_okD(2) [OF assms(1), of p ht] z(2) Is_array calculation by auto
    ultimately show ?thesis using Is_array z(2) by (auto simp: gc_kids_def)
  next
    case (Is_object h hs)
    then show ?thesis using heap_okD(3) [OF assms(1), of p h hs] z(2) by (auto simp: gc_kids_def)
  next
    case Is_scalar
    then show ?thesis using z(2) by (simp add: gc_kids_def)
  qed
  then show ?thesis using z assms by (auto simp: gc_nodes_def col_def rc_def)
qed

lemma entries_stay: "object_at s h = Some ob \<Longrightarrow> handlers_of_zvals ob = hs \<Longrightarrow> frame s s1 \<Longrightarrow>
    all_entries (gc_entries s1 ob hs h) = entries_of s h"
  by (simp add: object_entries [symmetric] gc_entries_def same_shapeD [OF frameD(1)])

lemma entries_stay_color:
  assumes "task_ok s (Store_object h hs)" and "object_at s h = Some ob" and "set_object_color c h s = Some s1"
  shows "all_entries (gc_entries s1 ob hs h) = entries_of s h" and "\<exists>ob'. object_at s1 h = Some ob' \<and> all_entries (gc_entries s1 ob' hs h) = entries_of s h"
proof -
  have i: "object_info s h \<noteq> None" "handlers_of_zvals ob = hs" using assms(1,2) by (auto simp: object_info_def)
  have f: "frame s s1" using set_object_color_step [OF i(1), of c] assms(3) by auto
  show "all_entries (gc_entries s1 ob hs h) = entries_of s h" using entries_stay [OF assms(2) i(2) f] .
  have "object_info s1 h = Some (o_valid ob, hs)" using same_shapeD(2) [OF frameD(1) [OF f]] assms(2) i(2) by (simp add: object_info_def)
  then obtain ob' where "object_at s1 h = Some ob'" "o_valid ob' = o_valid ob" "handlers_of_zvals ob' = hs" by (auto simp: object_info_def)
  then show "\<exists>ob'. object_at s1 h = Some ob' \<and> all_entries (gc_entries s1 ob' hs h) = entries_of s h"
    using entries_stay [OF assms(2) i(2) f] by (auto simp: gc_entries_def)
qed

lemma node_refs_append: "node_refs s (ps @ qs) = node_refs s ps @ node_refs s qs"
  by (induction s ps rule: node_refs.induct) auto

end
