(* ===== verification/Zend_Gc_Roots.thy ===== *)
theory Zend_Gc_Roots
  imports Zend_Gc_Heap
begin

text \<open>
  The buffer of possible roots: its entries in use form a ring through the sentinel, the free ones a
  list; taking an entry and giving it back keep both.
\<close>

fun linked :: "(root_ptr \<Rightarrow> root_ptr option) \<Rightarrow> (root_ptr \<Rightarrow> root_ptr option option) \<Rightarrow> root_ptr list \<Rightarrow> bool" where
  "linked nx pv (a # b # xs) = (nx a = Some b \<and> pv b = Some (Some a) \<and> linked nx pv (b # xs))"
| "linked nx pv xs = True"

lemma linked_split: "linked nx pv (xs @ a # ys) \<longleftrightarrow> linked nx pv (xs @ [a]) \<and> linked nx pv (a # ys)"
proof (induction xs)
  case (Cons x xs)
  then show ?case by (cases xs) auto
qed simp

lemma linked_cong:
  "(\<And>a. a \<in> set (butlast xs) \<Longrightarrow> nx' a = nx a) \<Longrightarrow> (\<And>b. b \<in> set (tl xs) \<Longrightarrow> pv' b = pv b) \<Longrightarrow>
    linked nx' pv' xs = linked nx pv xs"
proof (induction nx pv xs rule: linked.induct)
  case (1 nx pv a b xs)
  then show ?case by (cases xs) (auto split: if_splits)
qed auto

text \<open>Short-cutting one element, given that the links differ at its neighbours only.\<close>

lemma linked_remove:
  assumes "linked nx pv (A @ a # x # b # B)" and "a \<notin> set A" and "b \<notin> set (tl (A @ [a]))"
    and "a \<notin> set (butlast (b # B))" and "b \<notin> set B"
    and "\<And>q. q \<in> set (A @ butlast (b # B)) \<Longrightarrow> nx' q = nx q" and "nx' a = Some b"
    and "\<And>q. q \<in> set (tl (A @ [a]) @ B) \<Longrightarrow> pv' q = pv q" and "pv' b = Some (Some a)"
  shows "linked nx' pv' (A @ a # b # B)"
proof -
  have "linked nx pv (A @ [a]) \<and> linked nx pv (a # x # b # B)"
    using assms(1) by (rule linked_split [of nx pv A a "x # b # B", THEN iffD1])
  then have "linked nx pv (A @ [a])" "linked nx pv (b # B)" by simp_all
  moreover have "linked nx' pv' (A @ [a]) = linked nx pv (A @ [a])"
    using assms(2,3,6,8) by (intro linked_cong) auto
  moreover have "linked nx' pv' (b # B) = linked nx pv (b # B)"
    using assms(4-6,8) by (intro linked_cong) auto
  ultimately have "linked nx' pv' (A @ [a]) \<and> linked nx' pv' (a # b # B)" using assms(7,9) by simp
  then show ?thesis by (rule linked_split [of nx' pv' A a "b # B", THEN iffD2])
qed

definition ring :: "'h gc_globals \<Rightarrow> root_ptr list \<Rightarrow> bool" where
  "ring g xs \<longleftrightarrow> distinct (Roots # xs) \<and> linked (\<lambda>p. next_of p g) (\<lambda>p. prev_of p g) (Roots # xs @ [Roots])"

definition root_data :: "'h gc_globals \<Rightarrow> root_ptr \<Rightarrow> (nat \<times> 'h root_u) option" where
  "root_data g p = map_option (\<lambda>r. (r_handle r, r_u r)) (root_at g p)"

text \<open>What the links leave alone.\<close>

definition same_rest :: "'h gc_globals \<Rightarrow> 'h gc_globals \<Rightarrow> bool" where
  "same_rest g g' \<longleftrightarrow> mem g' = mem g \<and> gc_enabled g' = gc_enabled g \<and> gc_active g' = gc_active g \<and>
     first_unused g' = first_unused g \<and> last_unused g' = last_unused g \<and> free_list g' = free_list g \<and>
     next_to_free g' = next_to_free g \<and> gc_runs g' = gc_runs g \<and> collected g' = collected g \<and>
     map_option length (buf g') = map_option length (buf g)"

lemma same_rest_refl [simp]: "same_rest g g"
  by (simp add: same_rest_def)

lemma same_rest_trans: "same_rest g g1 \<Longrightarrow> same_rest g1 g2 \<Longrightarrow> same_rest g g2"
  by (simp add: same_rest_def)

lemma put_root_Some:
  assumes "root_at g p = Some r0"
  shows "\<exists>g'. put_root p r g = Some g' \<and> (\<forall>q. root_at g' q = (if q = p then Some r else root_at g q)) \<and> same_rest g g' \<and>
    roots_next g' = roots_next g \<and> roots_prev g' = roots_prev g \<and> unused g' = unused g"
proof (cases p)
  case (Buf i)
  then obtain xs where xs: "buf g = Some xs" "i < length xs" using assms by (auto simp: slot_def split: option.splits if_splits)
  then have "put_root p r g = Some (g\<lparr>buf := Some (xs[i := Some r])\<rparr>)" using Buf by (simp add: set_slot_def)
  moreover have "root_at (g\<lparr>buf := Some (xs[i := Some r])\<rparr>) q = (if q = p then Some r else root_at g q)" for q
    using xs Buf by (cases q) (auto simp: slot_def)
  ultimately show ?thesis using xs by (auto simp: same_rest_def)
qed (use assms in simp)

lemma set_next_step:
  assumes "p = Roots \<or> root_at g p \<noteq> None"
  shows "\<exists>g'. set_next p v g = Some g' \<and> (\<forall>q. next_of q g' = (if q = p then Some v else next_of q g)) \<and>
    (\<forall>q. prev_of q g' = prev_of q g) \<and> root_data g' = root_data g \<and> same_rest g g' \<and> unused g' = unused g"
proof (cases "p = Roots")
  case True
  have r: "root_at (g\<lparr>roots_next := v\<rparr>) q = root_at g q" for q by (cases q) simp_all
  show ?thesis using True by (auto simp: set_next_def next_of_def prev_of_def root_data_def r same_rest_def fun_eq_iff)
next
  case False
  then obtain r where r: "root_at g p = Some r" using assms by auto
  obtain g' where g': "put_root p (r\<lparr>r_next := v\<rparr>) g = Some g'"
    "\<forall>q. root_at g' q = (if q = p then Some (r\<lparr>r_next := v\<rparr>) else root_at g q)" "same_rest g g'"
    "roots_next g' = roots_next g" "roots_prev g' = roots_prev g" "unused g' = unused g"
    using put_root_Some [OF r] by blast
  then show ?thesis using False r by (auto simp: set_next_def next_of_def prev_of_def root_data_def fun_eq_iff)
qed

lemma set_prev_step:
  assumes "p = Roots \<or> root_at g p \<noteq> None"
  shows "\<exists>g'. set_prev p v g = Some g' \<and> (\<forall>q. prev_of q g' = (if q = p then Some v else prev_of q g)) \<and>
    (\<forall>q. next_of q g' = next_of q g) \<and> root_data g' = root_data g \<and> same_rest g g' \<and> unused g' = unused g"
proof (cases "p = Roots")
  case True
  have r: "root_at (g\<lparr>roots_prev := v\<rparr>) q = root_at g q" for q by (cases q) simp_all
  show ?thesis using True by (auto simp: set_prev_def next_of_def prev_of_def root_data_def r same_rest_def fun_eq_iff)
next
  case False
  then obtain r where r: "root_at g p = Some r" using assms by auto
  obtain g' where g': "put_root p (r\<lparr>r_prev := v\<rparr>) g = Some g'"
    "\<forall>q. root_at g' q = (if q = p then Some (r\<lparr>r_prev := v\<rparr>) else root_at g q)" "same_rest g g'"
    "roots_next g' = roots_next g" "roots_prev g' = roots_prev g" "unused g' = unused g"
    using put_root_Some [OF r] by blast
  then show ?thesis using False r by (auto simp: set_prev_def next_of_def prev_of_def root_data_def fun_eq_iff)
qed

lemma next_of_root: "next_of p g \<noteq> None \<longleftrightarrow> p = Roots \<or> root_at g p \<noteq> None"
  by (auto simp: next_of_def)

lemma prev_of_root: "prev_of p g \<noteq> None \<longleftrightarrow> p = Roots \<or> root_at g p \<noteq> None"
  by (auto simp: prev_of_def)

lemma ring_nodes: "ring g xs \<Longrightarrow> q = Roots \<or> q \<in> set xs \<Longrightarrow> next_of q g \<noteq> None"
proof -
  have "linked nx pv (ys @ [z]) \<Longrightarrow> q \<in> set ys \<Longrightarrow> nx q \<noteq> None" for nx pv ys z
  proof (induction ys)
    case (Cons y ys)
    then show ?case by (cases ys) auto
  qed simp
  from this [of "\<lambda>p. next_of p g" "\<lambda>p. prev_of p g" "Roots # xs" Roots]
  show "ring g xs \<Longrightarrow> q = Roots \<or> q \<in> set xs \<Longrightarrow> next_of q g \<noteq> None" by (auto simp: ring_def)
qed

text \<open>The neighbours of an entry.\<close>

lemma ring_split:
  assumes "ring g (ys @ x # zs)"
  obtains A a b B where "Roots # ys = A @ [a]" and "zs @ [Roots] = b # B" and "next_of x g = Some b" and "prev_of x g = Some (Some a)"
    and "linked (\<lambda>p. next_of p g) (\<lambda>p. prev_of p g) (A @ a # x # b # B)" and "b = hd (zs @ [Roots])"
    and "a = Roots \<or> a \<in> set ys" and "b = Roots \<or> b \<in> set zs" and "A = [] \<or> set (tl A) \<subseteq> set ys" and "butlast (b # B) = zs"
proof -
  obtain A a where A: "Roots # ys = A @ [a]" by (cases "Roots # ys" rule: rev_exhaust) auto
  obtain b B where B: "zs @ [Roots] = b # B" by (cases "zs @ [Roots]") auto
  have "Roots # (ys @ x # zs) @ [Roots] = (Roots # ys) @ x # (zs @ [Roots])" by simp
  also have "\<dots> = A @ a # x # b # B" unfolding A B by simp
  finally have l: "linked (\<lambda>p. next_of p g) (\<lambda>p. prev_of p g) (A @ a # x # b # B)" using assms by (simp add: ring_def)
  from linked_split [of _ _ A a "x # b # B", THEN iffD1, OF l]
  have "next_of x g = Some b" "prev_of x g = Some (Some a)" by simp_all
  moreover note l
  moreover have "b = hd (zs @ [Roots])" "b = Roots \<or> b \<in> set zs" using B by (cases zs; simp)+
  moreover have "a = Roots \<or> a \<in> set ys" using A by (metis last_ConsL last_ConsR last_in_set last_snoc)
  moreover have "A = [] \<or> set (tl A) \<subseteq> set ys" using A by (cases A) auto
  moreover have "butlast (b # B) = zs" unfolding B [symmetric] by simp
  ultimately show thesis using that A B l by blast
qed

text \<open>Giving an entry back.\<close>

lemma gc_remove_from_buffer_ring:
  assumes "ring g (ys @ x # zs)"
  shows "\<exists>g'. gc_remove_from_buffer x g = Some g' \<and> ring g' (ys @ zs) \<and> next_of x g' = Some (hd (zs @ [Roots])) \<and>
    prev_of x g' = Some (unused g) \<and> unused g' = Some x \<and> root_data g' = root_data g \<and> same_rest g g' \<and>
    (\<forall>q. q \<notin> set (x # ys @ zs) \<longrightarrow> q \<noteq> Roots \<longrightarrow> prev_of q g' = prev_of q g)"
proof -
  obtain A a b B where s: "Roots # ys = A @ [a]" "zs @ [Roots] = b # B" "next_of x g = Some b" "prev_of x g = Some (Some a)"
    "linked (\<lambda>p. next_of p g) (\<lambda>p. prev_of p g) (A @ a # x # b # B)" "b = hd (zs @ [Roots])"
    "a = Roots \<or> a \<in> set ys" "b = Roots \<or> b \<in> set zs" "A = [] \<or> set (tl A) \<subseteq> set ys" "butlast (b # B) = zs"
    using ring_split [OF assms] by blast
  have d: "distinct (Roots # ys @ x # zs)" using assms by (simp add: ring_def)
  have ab: "x \<noteq> a" "x \<noteq> b" "x \<noteq> Roots" using d s(7,8) by auto
  have live: "b = Roots \<or> root_at g b \<noteq> None" "a = Roots \<or> root_at g a \<noteq> None" "root_at g x \<noteq> None"
    using ring_nodes [OF assms, of a, unfolded next_of_root] ring_nodes [OF assms, of b, unfolded next_of_root]
      ring_nodes [OF assms, of x, unfolded next_of_root] s(7,8) ab(3) by simp_all blast+
  obtain g1 where g1: "set_prev b (Some a) g = Some g1" "\<forall>q. prev_of q g1 = (if q = b then Some (Some a) else prev_of q g)"
    "\<forall>q. next_of q g1 = next_of q g" "root_data g1 = root_data g" "same_rest g g1" "unused g1 = unused g"
    using set_prev_step [OF live(1)] by metis
  obtain g2 where g2: "set_next a b g1 = Some g2" "\<forall>q. next_of q g2 = (if q = a then Some b else next_of q g1)"
    "\<forall>q. prev_of q g2 = prev_of q g1" "root_data g2 = root_data g1" "same_rest g1 g2" "unused g2 = unused g1"
    using set_next_step [of a g1 b] live(2) g1(3) next_of_root [of a] by metis
  obtain g3 where g3: "set_prev x (unused g2) g2 = Some g3" "\<forall>q. prev_of q g3 = (if q = x then Some (unused g2) else prev_of q g2)"
    "\<forall>q. next_of q g3 = next_of q g2" "root_data g3 = root_data g2" "same_rest g2 g3" "unused g3 = unused g2"
    using set_prev_step [of x g2 "unused g2"] live(3) g1(3) g2(2) ab(1) next_of_root [of x] by metis
  let ?g = "g3\<lparr>unused := Some x\<rparr>"
  have r: "root_at ?g q = root_at g3 q" for q by (cases q) simp_all
  have np: "next_of q ?g = next_of q g3" "prev_of q ?g = prev_of q g3" "root_data ?g = root_data g3" for q
    by (simp_all add: next_of_def prev_of_def root_data_def r fun_eq_iff)
  have e: "gc_remove_from_buffer x g = Some ?g"
    using s(3,4) g1 g2 g3 ab by (simp add: gc_remove_from_buffer_def)
  have nx: "next_of q ?g = (if q = a then Some b else next_of q g)" for q using np(1) g3(3) g2(2) g1(3) by simp
  have pv: "prev_of q ?g = (if q = x then Some (unused g) else if q = b then Some (Some a) else prev_of q g)" for q
    using np(2) g3(2) g2(3,6) g1(2,6) by simp
  have A: "set A \<subseteq> insert Roots (set ys)" "a \<notin> set A" using s(1) d by (auto simp: Cons_eq_append_conv)
  have B: "set B \<subseteq> insert Roots (set zs)" "b \<notin> set B" using s(2) d by (auto simp: append_eq_Cons_conv)
  have tlA: "set (tl (A @ [a])) = set ys" using s(1) by (metis list.sel(3))
  have "linked (\<lambda>p. next_of p ?g) (\<lambda>p. prev_of p ?g) (A @ a # b # B)"
  proof (rule linked_remove [OF s(5)])
    show "a \<notin> set A" "b \<notin> set B" by fact+
    show "b \<notin> set (tl (A @ [a]))" unfolding tlA using s(8) d by auto
    show "a \<notin> set (butlast (b # B))" unfolding s(10) using s(7) d by auto
    show "next_of q ?g = next_of q g" if "q \<in> set (A @ butlast (b # B))" for q
      using that A(2) s(7,10) d nx [of q] by auto
    show "prev_of q ?g = prev_of q g" if "q \<in> set (tl (A @ [a]) @ B)" for q
      using that tlA s(8) d B pv [of q] by auto
  qed (simp_all add: nx pv ab(2) [symmetric])
  moreover have "A @ a # b # B = Roots # (ys @ zs) @ [Roots]" using s(1,2) by simp
  ultimately have "ring ?g (ys @ zs)" using d unfolding ring_def by simp
  moreover have "same_rest g ?g" using g1(5) g2(5) g3(5) by (simp add: same_rest_def)
  moreover have "next_of x ?g = Some b" using nx [of x] ab s(3) by simp
  moreover have "prev_of q ?g = prev_of q g" if "q \<notin> set (x # ys @ zs)" "q \<noteq> Roots" for q
    using that pv [of q] s(8) by auto
  moreover have "root_data ?g = root_data g" using np(3) g1(4) g2(4) g3(4) by simp
  moreover have "prev_of x ?g = Some (unused g)" by (simp add: pv)
  ultimately show ?thesis using e s(6) by auto
qed

end
