(* ===== verification/Zend_Gc_Mark.thy ===== *)
theory Zend_Gc_Mark
  imports Zend_Gc_Heap
begin

text \<open>\<open>mark_grey\<close> and \<open>scan_black\<close> end and paint the nodes they meet, counting references down and up.\<close>

definition unpainted :: "gc_color \<Rightarrow> 'h gc_heap \<Rightarrow> nat" where
  "unpainted c s = card {x \<in> gc_nodes s. col s x \<noteq> c}"

lemma unpainted_less:
  assumes "n \<in> gc_nodes s" and "col s n \<noteq> c" and "same_shape s s1" and "col s1 = (col s)(n := c)"
  shows "unpainted c s1 < unpainted c s"
proof -
  have "{x \<in> gc_nodes s1. col s1 x \<noteq> c} \<subset> {x \<in> gc_nodes s. col s x \<noteq> c}"
    using assms same_shapeD(11) [OF assms(3)] by auto
  then show ?thesis unfolding unpainted_def by (intro psubset_card_mono) (simp_all add: finite_gc_nodes)
qed

lemma unpainted_paint:
  assumes "same_shape s s1" and "gc_paint s c d rs ns (col s) r (col s1) r1"
  shows "unpainted c s1 \<le> unpainted c s"
  unfolding unpainted_def same_shapeD(11) [OF assms(1)] by (rule gc.paint_fewer [OF assms(2)])

lemma unpainted_cong: "same_shape s s1 \<Longrightarrow> col s1 = col s \<Longrightarrow> unpainted c s1 = unpainted c s"
  by (simp add: unpainted_def same_shapeD)

definition paints :: "gc_color \<Rightarrow> uint \<Rightarrow> gc_node list \<Rightarrow> gc_node list \<Rightarrow> ('h gc_heap \<Rightarrow> 'h gc_heap option) \<Rightarrow> 'h gc_heap \<Rightarrow> bool" where
  "paints c d rs ns f s \<longleftrightarrow> (\<exists>s'. f s = Some s' \<and> frame s s' \<and> gc_paint s c d rs ns (col s) (rc s) (col s') (rc s'))"

lemma paintsI:
  "f s = Some s' \<Longrightarrow> frame s s' \<Longrightarrow> gc_paint s c d rs ns (col s) (rc s) (col s') (rc s') \<Longrightarrow> paints c d rs ns f s"
  by (auto simp: paints_def)

lemma paintsE:
  assumes "paints c d rs ns f s1" and "same_shape s s1"
  obtains s2 where "f s1 = Some s2" and "frame s1 s2" and "gc_paint s c d rs ns (col s1) (rc s1) (col s2) (rc s2)"
  using assms by (auto simp: paints_def same_shapeD)

text \<open>One entry after the other; \<open>v\<close> is the visit of one.\<close>

lemma paints_entries:
  assumes "value_at s pz \<noteq> None"
    and "\<And>s'. frame s s' \<Longrightarrow> unpainted c s' \<le> unpainted c s \<Longrightarrow> paints c d [] (node_refs s [Some pz]) v s'"
    and "\<And>s'. frame s s' \<Longrightarrow> unpainted c s' \<le> unpainted c s \<Longrightarrow> paints c d (node_refs s ps) (node_refs s ps) f s'"
  shows "paints c d (node_refs s (Some pz # ps)) (node_refs s (Some pz # ps))
    (\<lambda>s. do { s1 \<leftarrow> count_edge d pz s; s2 \<leftarrow> v s1; f s2 }) s"
proof -
  obtain s1 where s1: "count_edge d pz s = Some s1" "frame s s1" "col s1 = col s"
    "rc s1 = (if is_global s pz then rc s else (rc s)(Zv pz := rc s (Zv pz) + d))"
    using count_edge_step [OF assms(1)] by blast
  have "unpainted c s1 \<le> unpainted c s" using unpainted_cong [OF frameD(1) [OF s1(2)] s1(3)] by simp
  then obtain s2 where s2: "v s1 = Some s2" "frame s1 s2"
    "gc_paint s c d [] (node_refs s [Some pz]) (col s) (rc s1) (col s2) (rc s2)"
    using paintsE [OF assms(2) [OF s1(2)] frameD(1) [OF s1(2)]] s1(3) by metis
  have f2: "frame s s2" using s1(2) s2(2) by (rule frame_trans)
  have "unpainted c s2 \<le> unpainted c s" using frameD(1) [OF f2] s2(3) by (rule unpainted_paint)
  then obtain s3 where s3: "f s2 = Some s3" "frame s2 s3"
    "gc_paint s c d (node_refs s ps) (node_refs s ps) (col s2) (rc s2) (col s3) (rc s3)"
    using paintsE [OF assms(3) [OF f2] frameD(1) [OF f2]] by metis
  have "gc_paint s c d (node_refs s (Some pz # ps)) (node_refs s (Some pz # ps)) (col s) (rc s) (col s3) (rc s3)"
  proof (cases "is_global s pz")
    case True
    then have "col s2 = col s \<and> rc s2 = rc s" using s1(4) s2(3) gc.paint_none [of s] by simp
    then show ?thesis using True s3(3) by simp
  next
    case False
    then show ?thesis using gc.paint_Cons [of s c d "Zv pz" "col s" "rc s" "col s2" "rc s2"] s1(4) s2(3) s3(3) by simp
  qed
  then show ?thesis using s1(1) s2(1) s3(1) frame_trans [OF f2 s3(2)] by (intro paintsI) auto
qed

text \<open>Colouring a node first, then what it refers to.\<close>

lemma paints_visit:
  assumes "n \<in> gc_nodes s" and "col s n \<noteq> c" and "g s = Some s1" and "frame s s1" and "rc s1 = rc s" and "col s1 = (col s)(n := c)"
    and "paints c d (gc_kids s n) (gc_kids s n) f s1"
  shows "paints c d [] [n] (\<lambda>s. do { s1 \<leftarrow> g s; f s1 }) s"
proof -
  obtain s2 where s2: "f s1 = Some s2" "frame s1 s2"
    "gc_paint s c d (gc_kids s n) (gc_kids s n) ((col s)(n := c)) (rc s) (col s2) (rc s2)"
    using paintsE [OF assms(7) frameD(1) [OF assms(4)]] assms(5,6) by metis
  show ?thesis using assms(3) s2(1) frame_trans [OF assms(4) s2(2)] gc.paint_visit [OF assms(1,2) s2(3)]
    by (intro paintsI) auto
qed

lemma paints_nothing: "paints c d [] [] Some s"
  by (rule paintsI) (auto intro: gc.paint_Nil)

lemma set_zval_color_frame:
  assumes "value_at s p \<noteq> None" and "\<not> is_global s p"
  obtains s' where "set_zval_color c p s = Some s'" and "frame s s'" and "rc s' = rc s" and "col s' = (col s)(Zv p := c)"
  using set_zval_color_step [OF assms(1), of c] assms(2) by (auto simp: frame_def)

text \<open>The object a zval refers to: its count, then itself.\<close>

lemma paints_object:
  assumes "object_info s h \<noteq> None"
    and "\<And>s'. frame s s' \<Longrightarrow> col s' = col s \<Longrightarrow> paints c d [] [Ob h] f s'"
  shows "paints c d [Ob h] [Ob h] (\<lambda>s. do { s1 \<leftarrow> change_object (o_refcount_update (\<lambda>n. n + d)) h s; f s1 }) s"
proof -
  obtain s1 where s1: "change_object (o_refcount_update (\<lambda>n. n + d)) h s = Some s1" "frame s s1" "col s1 = col s"
    "rc s1 = (rc s)(Ob h := rc s (Ob h) + d)"
    using count_object_step [OF assms(1)] by blast
  obtain s2 where s2: "f s1 = Some s2" "frame s1 s2" "gc_paint s c d [] [Ob h] (col s) (rc s1) (col s2) (rc s2)"
    using paintsE [OF assms(2) [OF s1(2,3)] frameD(1) [OF s1(2)]] s1(3) by metis
  have "gc_paint s c d [Ob h] [Ob h] (col s) (rc s) (col s2) (rc s2)"
    using gc.paint_Cons [OF _ gc.paint_Nil, of s c d "Ob h" "col s" "rc s" "col s2" "rc s2"] s1(4) s2(3) by simp
  then show ?thesis using s1(1) s2(1) frame_trans [OF s1(2) s2(2)] by (intro paintsI) auto
qed

text \<open>What a zval refers to: \<open>fo\<close> visits an object, \<open>fe\<close> the entries of a table.\<close>

definition walk_value :: "uint \<Rightarrow> (nat \<Rightarrow> 'h \<Rightarrow> 'h gc_heap \<Rightarrow> 'h gc_heap option) \<Rightarrow> (nat option list \<Rightarrow> 'h gc_heap \<Rightarrow> 'h gc_heap option) \<Rightarrow>
    ('h gc_heap \<Rightarrow> 'h gc_heap option) \<Rightarrow> 'h z_value \<Rightarrow> 'h gc_heap \<Rightarrow> 'h gc_heap option" where
  "walk_value d fo fe g v s = (case v of
     Is_object h hs \<Rightarrow> if objects s = None then Some s
       else do { s2 \<leftarrow> change_object (o_refcount_update (\<lambda>n. n + d)) h s; fo h hs s2 }
   | Is_array ht \<Rightarrow> if ht = symbol_table s then g s else do { ps \<leftarrow> tables s ht; fe (map Some ps) s }
   | Is_scalar \<Rightarrow> Some s)"

lemma paints_value:
  assumes "heap_ok s" and "zvals s pz = Some z" and "\<not> is_global s pz" and "frame s s1"
    and "\<And>h hs s2. frame s1 s2 \<Longrightarrow> col s2 = col s1 \<Longrightarrow> task_ok s (Store_object h hs) \<Longrightarrow> paints c d [] [Ob h] (fo h hs) s2"
    and "\<And>ps. task_ok s (Entries ps) \<Longrightarrow> paints c d (node_refs s ps) (node_refs s ps) (fe ps) s1"
  shows "paints c d (gc_kids s (Zv pz)) (gc_kids s (Zv pz)) (walk_value d fo fe g (z_value z)) s1"
proof -
  note sh1 = same_shapeD [OF frameD(1) [OF assms(4)]]
  have "value_at s pz \<noteq> None" using assms(2) by (simp add: value_at_def)
  then have z: "case z_value z of
       Is_array ht \<Rightarrow> ht \<noteq> symbol_table s \<and> (\<exists>ps. tables s ht = Some ps \<and> task_ok s (Entries (map Some ps)) \<and>
         gc_kids s (Zv pz) = node_refs s (map Some ps))
     | Is_object h hs \<Rightarrow> if objects s = None then gc_kids s (Zv pz) = [] else task_ok s (Store_object h hs) \<and> gc_kids s (Zv pz) = [Ob h]
     | Is_scalar \<Rightarrow> gc_kids s (Zv pz) = []"
    using zval_task [OF assms(1) _ assms(3)] assms(2) by auto
  show ?thesis
  proof (cases "z_value z")
    case (Is_array ht)
    then show ?thesis using z assms(6) by (auto simp: sh1 paints_def walk_value_def)
  next
    case (Is_object h hs)
    show ?thesis
    proof (cases "objects s = None")
      case True
      then show ?thesis using z Is_object sh1(6) by (simp add: paints_def gc.paint_Nil walk_value_def)
    next
      case False
      then have kid: "task_ok s (Store_object h hs)" "gc_kids s (Zv pz) = [Ob h]" using z Is_object by auto
      from paints_object [of s1 h, OF _ assms(5) [OF _ _ kid(1)]]
      show ?thesis using kid Is_object False by (auto simp: sh1 paints_def walk_value_def)
    qed
  next
    case Is_scalar
    then show ?thesis using z by (simp add: paints_def gc.paint_Nil walk_value_def)
  qed
qed

text \<open>A visit: \<open>f\<close> does the tasks that come with fewer nodes to paint.\<close>

lemma paints_zval:
  assumes "heap_ok s" and "zvals s pz = Some z" and "\<not> is_global s pz" and "GC_GET_COLOR (z_u z) \<noteq> c"
    and "\<And>t s'. same_shape s s' \<Longrightarrow> unpainted c s' < unpainted c s \<Longrightarrow> task_ok s t \<Longrightarrow>
      paints c d (task_refs s t) (task_nodes s t) (f t) s'"
  shows "paints c d [] [Zv pz] (\<lambda>s0. do {
    s1 \<leftarrow> set_zval_color c pz s0;
    walk_value d (\<lambda>h hs. f (Store_object h hs)) (\<lambda>ps. f (Entries ps)) g (z_value z) s1 }) s"
proof -
  have v: "value_at s pz \<noteq> None" using assms(2) by (simp add: value_at_def)
  have n: "Zv pz \<in> gc_nodes s" "col s (Zv pz) \<noteq> c"
    using zval_task [OF assms(1) v assms(3)] assms(2,4) by auto
  obtain s1 where s1: "set_zval_color c pz s = Some s1" "frame s s1" "rc s1 = rc s" "col s1 = (col s)(Zv pz := c)"
    using set_zval_color_frame [OF v assms(3), of c] by blast
  have less: "unpainted c s1 < unpainted c s" using unpainted_less [OF n frameD(1) [OF s1(2)] s1(4)] .
  have "paints c d (gc_kids s (Zv pz)) (gc_kids s (Zv pz))
    (walk_value d (\<lambda>h hs. f (Store_object h hs)) (\<lambda>ps. f (Entries ps)) g (z_value z)) s1"
  proof (rule paints_value [OF assms(1-3) s1(2)])
    show "paints c d [] [Ob h] (f (Store_object h hs)) s2"
      if "frame s1 s2" "col s2 = col s1" "task_ok s (Store_object h hs)" for h hs s2
      using assms(5) [OF same_shape_trans [OF frameD(1) [OF s1(2)] frameD(1) [OF that(1)]] _ that(3)]
        less unpainted_cong [OF frameD(1) [OF that(1)] that(2)] by simp
    show "paints c d (node_refs s ps) (node_refs s ps) (f (Entries ps)) s1" if "task_ok s (Entries ps)" for ps
      using assms(5) [OF frameD(1) [OF s1(2)] less that] by simp
  qed
  then show ?thesis
    using paints_visit [of "Zv pz" s c "set_zval_color c pz" s1 d
        "walk_value d (\<lambda>h hs. f (Store_object h hs)) (\<lambda>ps. f (Entries ps)) g (z_value z)"] n s1 by simp
qed

lemma paints_store_object:
  assumes "heap_ok s" and "task_ok s (Store_object h hs)" and "col s (Ob h) \<noteq> c"
    and "\<And>t s'. same_shape s s' \<Longrightarrow> unpainted c s' < unpainted c s \<Longrightarrow> task_ok s t \<Longrightarrow>
      paints c d (task_refs s t) (task_nodes s t) (f t) s'"
  shows "paints c d [] [Ob h] (\<lambda>s0. do { s1 \<leftarrow> set_object_color c h s0; f (Entries (entries_of s h)) s1 }) s"
proof -
  have ob: "task_ok s (Entries (entries_of s h))" "gc_kids s (Ob h) = node_refs s (entries_of s h)" "Ob h \<in> gc_nodes s"
    using object_task [OF assms(1,2)] by auto
  have "object_info s h \<noteq> None" using assms(2) by auto
  then obtain s1 where s1: "set_object_color c h s = Some s1" "frame s s1" "rc s1 = rc s" "col s1 = (col s)(Ob h := c)"
    using set_object_color_step by blast
  have "paints c d (gc_kids s (Ob h)) (gc_kids s (Ob h)) (f (Entries (entries_of s h))) s1"
    using assms(4) [OF frameD(1) [OF s1(2)] unpainted_less [OF ob(3) assms(3) frameD(1) [OF s1(2)] s1(4)] ob(1)] ob(2) by simp
  then show ?thesis
    using paints_visit [of "Ob h" s c "set_object_color c h" s1 d "f (Entries (entries_of s h))"] ob(3) assms(3) s1 by simp
qed

subsection \<open>Marking\<close>

lemma add_minus_one: "(\<lambda>n :: uint. n + - 1) = (\<lambda>n. n - 1)"
  by auto

lemma mark_grey_Zval:
  assumes "zvals s pz = Some z"
  shows "mark_grey (Zval pz) s = (if GC_GET_COLOR (z_u z) = GC_GREY then Some s else do {
     s1 \<leftarrow> set_zval_color GC_GREY pz s;
     walk_value (- 1) (\<lambda>h hs. mark_grey (Store_object h hs)) (\<lambda>ps. mark_grey (Entries ps)) (set_zval_color GC_BLACK pz) (z_value z) s1 })"
  unfolding walk_value_def add_minus_one using assms by (subst mark_grey.simps) simp

lemma mark_grey_Store_object:
  assumes "task_ok s (Store_object h hs)" and "object_at s h = Some ob"
  shows "mark_grey (Store_object h hs) s = (if GC_GET_COLOR (o_buffered ob) = GC_GREY then Some s else do {
     s1 \<leftarrow> set_object_color GC_GREY h s; mark_grey (Entries (entries_of s h)) s1 })"
proof -
  have "object_info s h \<noteq> None" using assms(1) by auto
  then obtain s1 where "set_object_color GC_GREY h s = Some s1" using set_object_color_step by blast
  then show ?thesis using assms(2) entries_stay_color(1) [OF assms] by (subst mark_grey.simps) simp
qed

lemma mark_grey_Entries:
  "mark_grey (Entries []) s = Some s" "mark_grey (Entries (None # ps)) s = mark_grey (Entries ps) s"
  "mark_grey (Entries (Some pz # ps)) s = do { s1 \<leftarrow> count_edge (- 1) pz s; s2 \<leftarrow> mark_grey (Zval pz) s1; mark_grey (Entries ps) s2 }"
  by (subst mark_grey.simps, simp)+

lemma mark_global:
  assumes "value_at s pz \<noteq> None" and "is_global s pz"
  shows "paints GC_GREY (- 1) [] [] (mark_grey (Zval pz)) s"
proof -
  obtain z where z: "zvals s pz = Some z" "value_at s pz = Some (z_value z)" using value_at_Some [OF assms(1)] by blast
  have v: "z_value z = Is_array (symbol_table s)" using z assms(2) by (simp add: is_global_def)
  show ?thesis
  proof (cases "GC_GET_COLOR (z_u z) = GC_GREY")
    case True
    then show ?thesis using z by (auto simp: mark_grey_Zval intro!: paintsI gc.paint_Nil)
  next
    case False
    obtain s1 where s1: "set_zval_color GC_GREY pz s = Some s1" "same_shape s s1" "addr s1 = addr s"
      "zval_to_free s1 = zval_to_free s" "rc s1 = rc s" "col s1 = col s"
      "zvals s1 = (zvals s)(pz \<mapsto> z_u_update (GC_SET_COLOR GC_GREY) z)"
      using set_zval_color_step [OF assms(1), of GC_GREY] assms(2) z(1) by auto
    have g1: "value_at s1 pz \<noteq> None" "is_global s1 = is_global s" "symbol_table s1 = symbol_table s"
      using same_shapeD [OF s1(2)] assms by auto
    obtain s2 where s2: "set_zval_color GC_BLACK pz s1 = Some s2" "same_shape s1 s2" "addr s2 = addr s1"
      "zval_to_free s2 = zval_to_free s1" "rc s2 = rc s1" "col s2 = col s1"
      "\<exists>y. zvals s1 pz = Some y \<and> zvals s2 = (zvals s1)(pz \<mapsto> z_u_update (GC_SET_COLOR GC_BLACK) y)"
      using set_zval_color_step [OF g1(1), of GC_BLACK] assms(2) g1(2) by auto
    have sh: "same_shape s s2" using s1(2) s2(2) by (rule same_shape_trans)
    have "globals_quiet s \<Longrightarrow> globals_quiet s2"
      using s1(7) s2(7) unfolding globals_quiet_def same_shapeD(7) [OF sh] by auto
    then have "frame s s2" using sh s1 s2 by (simp add: frame_def)
    moreover have "mark_grey (Zval pz) s = Some s2" using False z(1) v s1(1) s2(1) g1(3) by (simp add: mark_grey_Zval walk_value_def)
    ultimately show ?thesis using s1(5,6) s2(5,6) by (auto intro!: paintsI gc.paint_Nil)
  qed
qed

lemma paints_painted:
  assumes "f s = Some s" and "ns = [] \<or> ns = [n] \<and> col s n = c"
  shows "paints c d [] ns f s"
  using assms gc.paint_done [of "col s" n c s] by (auto intro!: paintsI gc.paint_Nil)

lemma mark_grey_paints:
  "heap_ok s \<Longrightarrow> task_ok s t \<Longrightarrow> paints GC_GREY (- 1) (task_refs s t) (task_nodes s t) (mark_grey t) s"
proof (induction t s rule: task_induct [of "unpainted GC_GREY"])
  case (1 pz s)
  have IH: "paints GC_GREY (- 1) (task_refs s t) (task_nodes s t) (mark_grey t) s'"
    if "same_shape s s'" "unpainted GC_GREY s' < unpainted GC_GREY s" "task_ok s t" for t s'
    using 1(1) [OF that(2), of t] 1(2) that(3) same_shapeD [OF that(1)] task_shape [OF that(1)] by simp
  obtain z where z: "zvals s pz = Some z" using 1(3) by (auto simp: value_at_def)
  show ?case
  proof (cases "is_global s pz")
    case True
    then show ?thesis using mark_global 1(3) by simp
  next
    case False
    then have c: "col s (Zv pz) = GC_GET_COLOR (z_u z)" using zval_task [OF 1(2) _ False] 1(3) z by auto
    show ?thesis
    proof (cases "GC_GET_COLOR (z_u z) = GC_GREY")
      case True
      then show ?thesis using z c False by (auto simp: mark_grey_Zval intro!: paints_painted)
    next
      case white: False
      show ?thesis using paints_zval [OF 1(2) z False white IH] False white
        by (simp add: paints_def mark_grey_Zval [OF z])
    qed
  qed
next
  case (2 h hs s)
  have IH: "paints GC_GREY (- 1) (task_refs s t) (task_nodes s t) (mark_grey t) s'"
    if "same_shape s s'" "unpainted GC_GREY s' < unpainted GC_GREY s" "task_ok s t" for t s'
    using 2(1) [OF that(2), of t] 2(2) that(3) same_shapeD [OF that(1)] task_shape [OF that(1)] by simp
  obtain ob where ob: "object_at s h = Some ob" "col s (Ob h) = GC_GET_COLOR (o_buffered ob)"
    using object_task [OF 2(2,3)] by auto
  show ?case
  proof (cases "GC_GET_COLOR (o_buffered ob) = GC_GREY")
    case True
    then show ?thesis using mark_grey_Store_object [OF 2(3) ob(1)] ob(2) by (auto intro!: paints_painted)
  next
    case False
    show ?thesis using paints_store_object [OF 2(2,3) _ IH] False ob(2)
      by (simp add: paints_def mark_grey_Store_object [OF 2(3) ob(1)])
  qed
next
  case (5 pz ps s)
  have "paints GC_GREY (- 1) (node_refs s (Some pz # ps)) (node_refs s (Some pz # ps))
    (\<lambda>s. do { s1 \<leftarrow> count_edge (- 1) pz s; s2 \<leftarrow> mark_grey (Zval pz) s1; mark_grey (Entries ps) s2 }) s"
  proof (rule paints_entries)
    show "value_at s pz \<noteq> None" using 5(4) by simp
    show "paints GC_GREY (- 1) [] (node_refs s [Some pz]) (mark_grey (Zval pz)) s'"
      if "frame s s'" "unpainted GC_GREY s' \<le> unpainted GC_GREY s" for s'
      using 5(1) [OF that(2)] 5(3,4) same_shapeD [OF frameD(1) [OF that(1)]] by simp
    show "paints GC_GREY (- 1) (node_refs s ps) (node_refs s ps) (mark_grey (Entries ps)) s'"
      if "frame s s'" "unpainted GC_GREY s' \<le> unpainted GC_GREY s" for s'
      using 5(2) [OF that(2)] 5(3,4) same_shapeD [OF frameD(1) [OF that(1)]] by simp
  qed
  then show ?case by (simp add: paints_def mark_grey_Entries)
qed (auto simp: mark_grey_Entries paints_def gc.paint_Nil)

subsection \<open>Painting black\<close>

text \<open>What is black already is not visited.\<close>

fun black_task :: "'h gc_task \<Rightarrow> 'h gc_heap \<Rightarrow> bool" where
  "black_task (Zval pz) s = (\<exists>z. zvals s pz = Some z \<and> GC_GET_COLOR (z_u z) = GC_BLACK)"
| "black_task (Store_object h hs) s = (\<exists>ob. object_at s h = Some ob \<and> GC_GET_COLOR (o_buffered ob) = GC_BLACK)"
| "black_task (Entries ps) s = False"

definition scan_black_if :: "'h gc_task \<Rightarrow> 'h gc_heap \<Rightarrow> 'h gc_heap option" where
  "scan_black_if t s = (if black_task t s then Some s else scan_black t s)"

lemma change_object_at: "change_object f h s = Some s2 \<Longrightarrow> \<exists>ob. object_at s2 h = Some ob"
  using change_object_Some [of s h _ f] by (cases "object_at s h") (force simp: change_object_def)+

lemma scan_black_object_if:
  "do { s2 \<leftarrow> change_object f h s; ob \<leftarrow> object_at s2 h;
     (if GC_GET_COLOR (o_buffered ob) \<noteq> GC_BLACK then scan_black (Store_object h hs) s2 else Some s2) } =
   do { s2 \<leftarrow> change_object f h s; scan_black_if (Store_object h hs) s2 }"
  by (cases "change_object f h s") (auto simp: scan_black_if_def dest: change_object_at)

lemma scan_black_Zval:
  assumes "zvals s pz = Some z"
  shows "scan_black (Zval pz) s = do {
     s1 \<leftarrow> set_zval_color GC_BLACK pz s;
     walk_value 1 (\<lambda>h hs. scan_black_if (Store_object h hs)) (\<lambda>ps. scan_black_if (Entries ps)) Some (z_value z) s1 }"
proof -
  have "value_at s pz \<noteq> None" using assms by (simp add: value_at_def)
  then obtain s1 where s1: "set_zval_color GC_BLACK pz s = Some s1" "value_at s1 pz = value_at s pz"
    using set_zval_color_step [of s pz GC_BLACK] same_shapeD(1) by metis
  then obtain y where y: "zvals s1 pz = Some y" "z_value y = z_value z" using assms by (auto simp: value_at_def)
  have e: "scan_black_if (Entries ps) = scan_black (Entries ps)" for ps by (simp add: fun_eq_iff scan_black_if_def)
  show ?thesis using s1 y by (subst scan_black.simps) (auto simp: walk_value_def scan_black_object_if e split: z_value.split)
qed

lemma scan_black_Store_object:
  assumes "task_ok s (Store_object h hs)" and "object_at s h = Some ob"
  shows "scan_black (Store_object h hs) s = do { s1 \<leftarrow> set_object_color GC_BLACK h s; scan_black_if (Entries (entries_of s h)) s1 }"
proof -
  have "object_info s h \<noteq> None" using assms(1) by auto
  then obtain s1 where s1: "set_object_color GC_BLACK h s = Some s1" using set_object_color_step by blast
  then obtain ob' where "object_at s1 h = Some ob'" "all_entries (gc_entries s1 ob' hs h) = entries_of s h"
    using entries_stay_color(2) [OF assms] by blast
  then show ?thesis using s1 by (subst scan_black.simps) (simp add: scan_black_if_def)
qed

lemma scan_black_Entries:
  "scan_black_if (Entries []) s = Some s" "scan_black_if (Entries (None # ps)) s = scan_black_if (Entries ps) s"
  "value_at s pz \<noteq> None \<Longrightarrow> scan_black_if (Entries (Some pz # ps)) s =
     do { s1 \<leftarrow> count_edge 1 pz s; s2 \<leftarrow> scan_black_if (Zval pz) s1; scan_black_if (Entries ps) s2 }"
proof -
  show "scan_black_if (Entries []) s = Some s" "scan_black_if (Entries (None # ps)) s = scan_black_if (Entries ps) s"
    unfolding scan_black_if_def by (subst scan_black.simps, simp)+
  assume "value_at s pz \<noteq> None"
  then obtain s1 where s1: "count_edge 1 pz s = Some s1" "value_at s1 pz \<noteq> None"
    using count_edge_step [of s pz 1] same_shapeD(1) frameD(1) by metis
  then obtain z where "zvals s1 pz = Some z" by (auto simp: value_at_def)
  then show "scan_black_if (Entries (Some pz # ps)) s =
     do { s1 \<leftarrow> count_edge 1 pz s; s2 \<leftarrow> scan_black_if (Zval pz) s1; scan_black_if (Entries ps) s2 }"
    using s1 unfolding scan_black_if_def by (subst scan_black.simps) simp
qed

text \<open>A global symbol table is painted without a trace on the nodes.\<close>

lemma scan_black_global:
  assumes "value_at s pz \<noteq> None" and "is_global s pz"
  shows "paints GC_BLACK 1 [] [] (scan_black_if (Zval pz)) s"
proof -
  obtain z where z: "zvals s pz = Some z" "value_at s pz = Some (z_value z)" using value_at_Some [OF assms(1)] by blast
  obtain s1 where s1: "set_zval_color GC_BLACK pz s = Some s1" "frame s s1" "rc s1 = rc s" "col s1 = col s"
    using set_zval_color_step [OF assms(1), of GC_BLACK] assms(2) by (auto simp: frame_def)
  have "z_value z = Is_array (symbol_table s1)"
    using z assms(2) same_shapeD(4) [OF frameD(1) [OF s1(2)]] by (simp add: is_global_def)
  then show ?thesis using s1 z by (auto simp: scan_black_if_def scan_black_Zval walk_value_def paints_def gc.paint_Nil)
qed

lemma scan_black_paints:
  "heap_ok s \<Longrightarrow> task_ok s t \<Longrightarrow> paints GC_BLACK 1 (task_refs s t) (task_nodes s t) (scan_black_if t) s"
proof (induction t s rule: task_induct [of "unpainted GC_BLACK"])
  case (1 pz s)
  have IH: "paints GC_BLACK 1 (task_refs s t) (task_nodes s t) (scan_black_if t) s'"
    if "same_shape s s'" "unpainted GC_BLACK s' < unpainted GC_BLACK s" "task_ok s t" for t s'
    using 1(1) [OF that(2), of t] 1(2) that(3) same_shapeD [OF that(1)] task_shape [OF that(1)] by simp
  obtain z where z: "zvals s pz = Some z" using 1(3) by (auto simp: value_at_def)
  show ?case
  proof (cases "is_global s pz")
    case True
    then show ?thesis using scan_black_global 1(3) by simp
  next
    case False
    then have c: "col s (Zv pz) = GC_GET_COLOR (z_u z)" using zval_task [OF 1(2) _ False] 1(3) z by auto
    show ?thesis
    proof (cases "GC_GET_COLOR (z_u z) = GC_BLACK")
      case True
      then show ?thesis using z c False by (auto simp: scan_black_if_def intro!: paints_painted)
    next
      case grey: False
      show ?thesis using paints_zval [OF 1(2) z False grey IH] False grey z
        by (simp add: paints_def scan_black_if_def [of "Zval pz"] scan_black_Zval [OF z])
    qed
  qed
next
  case (2 h hs s)
  have IH: "paints GC_BLACK 1 (task_refs s t) (task_nodes s t) (scan_black_if t) s'"
    if "same_shape s s'" "unpainted GC_BLACK s' < unpainted GC_BLACK s" "task_ok s t" for t s'
    using 2(1) [OF that(2), of t] 2(2) that(3) same_shapeD [OF that(1)] task_shape [OF that(1)] by simp
  obtain ob where ob: "object_at s h = Some ob" "col s (Ob h) = GC_GET_COLOR (o_buffered ob)"
    using object_task [OF 2(2,3)] by auto
  show ?case
  proof (cases "GC_GET_COLOR (o_buffered ob) = GC_BLACK")
    case True
    then show ?thesis using ob by (auto simp: scan_black_if_def intro!: paints_painted)
  next
    case False
    show ?thesis using paints_store_object [OF 2(2,3) _ IH] False ob
      by (simp add: paints_def scan_black_if_def [of "Store_object h hs"] scan_black_Store_object [OF 2(3) ob(1)])
  qed
next
  case (5 pz ps s)
  have "paints GC_BLACK 1 (node_refs s (Some pz # ps)) (node_refs s (Some pz # ps))
    (\<lambda>s. do { s1 \<leftarrow> count_edge 1 pz s; s2 \<leftarrow> scan_black_if (Zval pz) s1; scan_black_if (Entries ps) s2 }) s"
  proof (rule paints_entries)
    show "value_at s pz \<noteq> None" using 5(4) by simp
    show "paints GC_BLACK 1 [] (node_refs s [Some pz]) (scan_black_if (Zval pz)) s'"
      if "frame s s'" "unpainted GC_BLACK s' \<le> unpainted GC_BLACK s" for s'
      using 5(1) [OF that(2)] 5(3,4) same_shapeD [OF frameD(1) [OF that(1)]] by simp
    show "paints GC_BLACK 1 (node_refs s ps) (node_refs s ps) (scan_black_if (Entries ps)) s'"
      if "frame s s'" "unpainted GC_BLACK s' \<le> unpainted GC_BLACK s" for s'
      using 5(2) [OF that(2)] 5(3,4) same_shapeD [OF frameD(1) [OF that(1)]] by simp
  qed
  then show ?case using 5(4) by (simp add: paints_def scan_black_Entries)
qed (auto simp: scan_black_Entries paints_def gc.paint_Nil)

end
