(* ===== verification/Zend_Gc_Scan.thy ===== *)
theory Zend_Gc_Scan
  imports Zend_Gc_Mark
begin

text \<open>\<open>scan_grey\<close> ends and leaves none of the nodes it is led to grey.\<close>

definition scans :: "gc_node set \<Rightarrow> gc_node counts \<Rightarrow> gc_node list \<Rightarrow> ('h gc_heap \<Rightarrow> 'h gc_heap option) \<Rightarrow> 'h gc_heap \<Rightarrow> bool" where
  "scans G rcm ns f s \<longleftrightarrow> (\<exists>s'. f s = Some s' \<and> frame s s' \<and> gc_at_rest s G rcm (col s') (rc s') \<and> gc_scanned s G ns (col s) (col s'))"

definition grey_nodes :: "'h gc_heap \<Rightarrow> nat" where
  "grey_nodes s = card {x \<in> gc_nodes s. col s x = GC_GREY}"

lemma grey_nodes_less:
  assumes "n \<in> gc_nodes s" and "col s n = GC_GREY" and "same_shape s s1" and "col s1 = (col s)(n := GC_WHITE)"
  shows "grey_nodes s1 < grey_nodes s"
proof -
  have "{x \<in> gc_nodes s1. col s1 x = GC_GREY} \<subset> {x \<in> gc_nodes s. col s x = GC_GREY}"
    using assms same_shapeD(11) [OF assms(3)] by auto
  then show ?thesis unfolding grey_nodes_def by (intro psubset_card_mono) (simp_all add: finite_gc_nodes)
qed

lemma grey_nodes_scanned:
  assumes "same_shape s s1" and "gc_scanned s G ns (col s) (col s1)"
  shows "grey_nodes s1 \<le> grey_nodes s"
  unfolding grey_nodes_def same_shapeD(11) [OF assms(1)]
  using gc.scannedD(2) [OF assms(2)] by (intro card_mono) (auto simp: finite_gc_nodes)

text \<open>What a visit may start from.\<close>

definition scan_start :: "gc_node set \<Rightarrow> gc_node counts \<Rightarrow> 'h gc_task \<Rightarrow> 'h gc_heap \<Rightarrow> bool" where
  "scan_start G rcm t s \<longleftrightarrow> heap_ok s \<and> task_ok s t \<and> globals_quiet s \<and> gc_part s G \<and> set (task_nodes s t) \<subseteq> G \<and>
     gc_at_rest s G rcm (col s) (rc s)"

lemma scan_start_frame:
  assumes "scan_start G rcm t s" and "frame s s'" and "gc_at_rest s G rcm (col s') (rc s')" and "task_ok s t'" and "set (task_nodes s t') \<subseteq> G"
  shows "scan_start G rcm t' s'"
  using assms same_shapeD [OF frameD(1) [OF assms(2)]] task_shape [OF frameD(1) [OF assms(2)]] frameD(4) [OF assms(2)]
  by (simp add: scan_start_def)

lemma scans_shape: "scans G rcm ns f s1 \<Longrightarrow> same_shape s s1 \<Longrightarrow> \<exists>s2. f s1 = Some s2 \<and> frame s1 s2 \<and>
    gc_at_rest s G rcm (col s2) (rc s2) \<and> gc_scanned s G ns (col s1) (col s2)"
  by (auto simp: scans_def same_shapeD)

lemma scans_skip:
  assumes "gc_at_rest s G rcm (col s) (rc s)" and "f s = Some s" and "ns = [] \<or> ns = [n] \<and> col s n \<noteq> GC_GREY"
  shows "scans G rcm ns f s"
  using assms gc.scanned_skip [of "col s" n s G] by (auto simp: scans_def gc.scanned_Nil)

text \<open>A node with references left.\<close>

lemma scans_alive:
  assumes "scan_start G rcm t s" and "task_nodes s t = [n]" and "n \<in> G" and "col s n = GC_GREY" and "rc s n \<noteq> 0"
    and "task_refs s t = []" and "scan_black_if t s = f s"
  shows "scans G rcm [n] f s"
proof -
  have "paints GC_BLACK 1 [] [n] (scan_black_if t) s"
    using scan_black_paints [of s t] assms(1,2,6) by (simp add: scan_start_def)
  then obtain s' where s': "f s = Some s'" "frame s s'" "gc_paint s GC_BLACK 1 [] [n] (col s) (rc s) (col s') (rc s')"
    using assms(7) by (auto simp: paints_def)
  then show ?thesis using gc.scan_alive [OF _ _ assms(3-5) s'(3)] assms(1) by (auto simp: scans_def scan_start_def)
qed

text \<open>A node without.\<close>

lemma scans_dead:
  assumes "scan_start G rcm t s" and "n \<in> G" and "col s n = GC_GREY" and "rc s n = 0"
    and "g s = Some s1" and "frame s s1" and "rc s1 = rc s" and "col s1 = (col s)(n := GC_WHITE)"
    and "gc_at_rest s G rcm (col s1) (rc s1) \<Longrightarrow> scans G rcm (gc_kids s n) f s1"
  shows "scans G rcm [n] (\<lambda>s0. do { s1 \<leftarrow> g s0; f s1 }) s"
proof -
  have r: "gc_at_rest s G rcm (col s1) (rc s1)"
    unfolding assms(7,8) using assms(1-4) gc.scan_dead [of s G rcm "col s" "rc s" n] by (simp add: scan_start_def)
  obtain s2 where s2: "f s1 = Some s2" "frame s1 s2" "gc_at_rest s G rcm (col s2) (rc s2)"
    "gc_scanned s G (gc_kids s n) (col s1) (col s2)"
    using scans_shape [OF assms(9) [OF r] frameD(1) [OF assms(6)]] by blast
  have "gc_scanned s G [n] (col s) (col s2)"
    using gc.scanned_visit [of n G "col s" s "col s2"] s2(4) assms(2,3,8) by simp
  then show ?thesis using s2 assms(5) frame_trans [OF assms(6) s2(2)] by (auto simp: scans_def)
qed

lemma scan_grey_Zval:
  assumes "zvals s pz = Some z" and "\<not> is_global s pz"
  shows "scan_grey (Zval pz) s = (if GC_GET_COLOR (z_u z) \<noteq> GC_GREY then Some s
     else if refcount__gc z \<noteq> 0 then scan_black_if (Zval pz) s
     else do {
       s1 \<leftarrow> set_zval_color GC_WHITE pz s;
       (case z_value z of
          Is_object h hs \<Rightarrow> if objects s1 = None then Some s1 else scan_grey (Store_object h hs) s1
        | Is_array ht \<Rightarrow> do { ps \<leftarrow> tables s1 ht; scan_grey (Entries (map Some ps)) s1 }
        | Is_scalar \<Rightarrow> Some s1) })"
proof -
  have "value_at s pz \<noteq> None" using assms by (simp add: value_at_def)
  then obtain s1 where s1: "set_zval_color GC_WHITE pz s = Some s1" "symbol_table s1 = symbol_table s"
    using set_zval_color_step [of s pz GC_WHITE] same_shapeD(4) by metis
  have "z_value z \<noteq> Is_array (symbol_table s1)" using assms s1(2) by (auto simp: is_global_def value_at_def)
  then show ?thesis using assms(1) s1(1)
    by (subst scan_grey.simps) (auto simp: scan_black_if_def word_gt_0 split: z_value.split)
qed

lemma scan_grey_Store_object:
  assumes "task_ok s (Store_object h hs)" and "object_at s h = Some ob"
  shows "scan_grey (Store_object h hs) s = (if GC_GET_COLOR (o_buffered ob) \<noteq> GC_GREY then Some s
     else if o_refcount ob \<noteq> 0 then scan_black_if (Store_object h hs) s
     else do { s1 \<leftarrow> set_object_color GC_WHITE h s; scan_grey (Entries (entries_of s h)) s1 })"
proof -
  have "object_info s h \<noteq> None" using assms(1) by auto
  then obtain s1 where "set_object_color GC_WHITE h s = Some s1" using set_object_color_step by blast
  then show ?thesis using assms(2) entries_stay_color(1) [OF assms]
    by (subst scan_grey.simps) (auto simp: scan_black_if_def word_gt_0)
qed

lemma scan_grey_Entries:
  "scan_grey (Entries []) s = Some s" "scan_grey (Entries (None # ps)) s = scan_grey (Entries ps) s"
  "scan_grey (Entries (Some pz # ps)) s = do { s1 \<leftarrow> scan_grey (Zval pz) s; scan_grey (Entries ps) s1 }"
  by (subst scan_grey.simps, simp)+

text \<open>What a white zval refers to.\<close>

lemma scans_value:
  assumes "scan_start G rcm (Zval pz) s" and "zvals s pz = Some z" and "\<not> is_global s pz" and "frame s s1"
    and "gc_at_rest s G rcm (col s1) (rc s1)"
    and "\<And>t. scan_start G rcm t s1 \<Longrightarrow> scans G rcm (task_nodes s t) (scan_grey t) s1"
  shows "scans G rcm (gc_kids s (Zv pz)) (\<lambda>s1. case z_value z of
      Is_object h hs \<Rightarrow> if objects s1 = None then Some s1 else scan_grey (Store_object h hs) s1
    | Is_array ht \<Rightarrow> do { ps \<leftarrow> tables s1 ht; scan_grey (Entries (map Some ps)) s1 }
    | Is_scalar \<Rightarrow> Some s1) s1"
proof -
  note sh1 = same_shapeD [OF frameD(1) [OF assms(4)]]
  have st: "heap_ok s" "value_at s pz \<noteq> None" "gc_part s G" "Zv pz \<in> G"
    using assms(1,3) by (auto simp: scan_start_def)
  have z: "case z_value z of
       Is_array ht \<Rightarrow> ht \<noteq> symbol_table s \<and> (\<exists>ps. tables s ht = Some ps \<and> task_ok s (Entries (map Some ps)) \<and>
         gc_kids s (Zv pz) = node_refs s (map Some ps))
     | Is_object h hs \<Rightarrow> if objects s = None then gc_kids s (Zv pz) = [] else task_ok s (Store_object h hs) \<and> gc_kids s (Zv pz) = [Ob h]
     | Is_scalar \<Rightarrow> gc_kids s (Zv pz) = []"
    using zval_task [OF st(1,2) assms(3)] assms(2) by auto
  have kids: "set (gc_kids s (Zv pz)) \<subseteq> G" using st(3,4) by (simp add: gc.part_def)
  have task: "scans G rcm (task_nodes s t) (scan_grey t) s1" if "task_ok s t" "set (task_nodes s t) \<subseteq> G" for t
    using assms(6) [OF scan_start_frame [OF assms(1,4,5) that]] .
  have none: "scans G rcm [] Some s1" using assms(5) by (intro scans_skip) (simp_all add: sh1)
  show ?thesis
  proof (cases "z_value z")
    case (Is_array ht)
    then obtain ps where ps: "tables s ht = Some ps" "task_ok s (Entries (map Some ps))" "gc_kids s (Zv pz) = node_refs s (map Some ps)"
      using z by auto
    then show ?thesis using task [of "Entries (map Some ps)"] kids Is_array by (simp add: scans_def sh1)
  next
    case (Is_object h hs)
    then show ?thesis using z task [of "Store_object h hs"] kids none sh1(6) by (cases "objects s = None") (auto simp: scans_def)
  next
    case Is_scalar
    then show ?thesis using z none by (simp add: scans_def)
  qed
qed

lemma scan_grey_scans:
  "scan_start G rcm t s \<Longrightarrow> scans G rcm (task_nodes s t) (scan_grey t) s"
proof (induction t s rule: task_induct [of grey_nodes])
  case (1 pz s)
  have st: "heap_ok s" "value_at s pz \<noteq> None" "globals_quiet s" "gc_at_rest s G rcm (col s) (rc s)"
    using 1(2) by (auto simp: scan_start_def)
  obtain z where z: "zvals s pz = Some z" using st(2) by (auto simp: value_at_def)
  show ?case
  proof (cases "is_global s pz")
    case True
    then have "GC_GET_COLOR (z_u z) \<noteq> GC_GREY" using st(3) z by (fastforce simp: globals_quiet_def)
    then have "scan_grey (Zval pz) s = Some s" using z by (subst scan_grey.simps) simp
    then show ?thesis using True st(4) by (auto intro: scans_skip)
  next
    case False
    have n: "col s (Zv pz) = GC_GET_COLOR (z_u z)" "rc s (Zv pz) = refcount__gc z" "Zv pz \<in> gc_nodes s"
      using zval_task [OF st(1,2) False] z by auto
    have G: "Zv pz \<in> G" using 1(2) False by (simp add: scan_start_def)
    show ?thesis
    proof (cases "GC_GET_COLOR (z_u z) = GC_GREY")
      case grey: True
      show ?thesis
      proof (cases "refcount__gc z = 0")
        case True
        obtain s1 where s1: "set_zval_color GC_WHITE pz s = Some s1" "frame s s1" "rc s1 = rc s" "col s1 = (col s)(Zv pz := GC_WHITE)"
          using set_zval_color_frame [OF st(2) False, of GC_WHITE] by blast
        have "grey_nodes s1 < grey_nodes s" using grey_nodes_less [OF n(3) _ frameD(1) [OF s1(2)] s1(4)] n(1) grey by simp
        then have IH: "scans G rcm (task_nodes s t) (scan_grey t) s1" if "scan_start G rcm t s1" for t
          using 1(1) that task_shape(3) [OF frameD(1) [OF s1(2)]] by metis
        let ?f = "\<lambda>s1. case z_value z of
            Is_object h hs \<Rightarrow> if objects s1 = None then Some s1 else scan_grey (Store_object h hs) s1
          | Is_array ht \<Rightarrow> do { ps \<leftarrow> tables s1 ht; scan_grey (Entries (map Some ps)) s1 }
          | Is_scalar \<Rightarrow> Some s1"
        have "scans G rcm (gc_kids s (Zv pz)) ?f s1" if "gc_at_rest s G rcm (col s1) (rc s1)"
          using IH by (intro scans_value [OF 1(2) z False s1(2) that])
        then have "scans G rcm [Zv pz] (\<lambda>s0. do { s1 \<leftarrow> set_zval_color GC_WHITE pz s0; ?f s1 }) s"
          using scans_dead [of G rcm "Zval pz" s "Zv pz" "set_zval_color GC_WHITE pz" s1 ?f] 1(2) G n grey True s1 by simp
        then show ?thesis using grey True False by (simp add: scans_def scan_grey_Zval [OF z False])
      next
        case refs: False
        then show ?thesis using scans_alive [OF 1(2) _ G, of "scan_grey (Zval pz)"] n False grey
          by (simp add: scan_grey_Zval [OF z False])
      qed
    next
      case grey: False
      then show ?thesis using st(4) n False by (auto simp: scan_grey_Zval [OF z False] intro!: scans_skip)
    qed
  qed
next
  case (2 h hs s)
  have st: "heap_ok s" "task_ok s (Store_object h hs)" "gc_part s G" "gc_at_rest s G rcm (col s) (rc s)" "Ob h \<in> G" "object_info s h \<noteq> None"
    using 2(2) by (auto simp: scan_start_def)
  obtain ob where ob: "object_at s h = Some ob" "Ob h \<in> gc_nodes s" "col s (Ob h) = GC_GET_COLOR (o_buffered ob)" "rc s (Ob h) = o_refcount ob"
    "task_ok s (Entries (entries_of s h))" "gc_kids s (Ob h) = node_refs s (entries_of s h)"
    using object_task [OF st(1,2)] by auto
  note e = scan_grey_Store_object [OF st(2) ob(1)]
  show ?case
  proof (cases "GC_GET_COLOR (o_buffered ob) = GC_GREY")
    case grey: True
    show ?thesis
    proof (cases "o_refcount ob = 0")
      case True
      obtain s1 where s1: "set_object_color GC_WHITE h s = Some s1" "frame s s1" "rc s1 = rc s" "col s1 = (col s)(Ob h := GC_WHITE)"
        using set_object_color_step [OF st(6)] by blast
      have less: "grey_nodes s1 < grey_nodes s" using grey_nodes_less [OF ob(2) _ frameD(1) [OF s1(2)] s1(4)] ob(3) grey by simp
      have "set (gc_kids s (Ob h)) \<subseteq> G" using st(3,5) by (simp add: gc.part_def)
      then have "scans G rcm (gc_kids s (Ob h)) (scan_grey (Entries (entries_of s h))) s1" if "gc_at_rest s G rcm (col s1) (rc s1)"
        using 2(1) [OF less, of "Entries (entries_of s h)"] scan_start_frame [OF 2(2) s1(2) that ob(5)] ob(6)
          task_shape(3) [OF frameD(1) [OF s1(2)], of "Entries (entries_of s h)"] by simp
      then have "scans G rcm [Ob h] (\<lambda>s0. do { s1 \<leftarrow> set_object_color GC_WHITE h s0; scan_grey (Entries (entries_of s h)) s1 }) s"
        using scans_dead [of G rcm "Store_object h hs" s "Ob h" "set_object_color GC_WHITE h" s1 "scan_grey (Entries (entries_of s h))"]
          2(2) st(5) ob grey True s1 by simp
      then show ?thesis using grey True by (simp add: scans_def e)
    next
      case False
      then show ?thesis using scans_alive [OF 2(2) _ st(5), of "scan_grey (Store_object h hs)"] ob grey by (simp add: e)
    qed
  next
    case False
    then show ?thesis using st(4) ob by (auto simp: e intro!: scans_skip)
  qed
next
  case (3 s)
  then show ?case by (auto simp: scan_grey_Entries scan_start_def intro!: scans_skip)
next
  case (4 ps s)
  then show ?case by (simp add: scan_start_def scans_def scan_grey_Entries)
next
  case (5 pz ps s)
  have t: "task_ok s (Zval pz)" "task_ok s (Entries ps)" "set (task_nodes s (Zval pz)) \<subseteq> G" "set (task_nodes s (Entries ps)) \<subseteq> G"
    "gc_at_rest s G rcm (col s) (rc s)"
    using 5(3) by (auto simp: scan_start_def split: if_splits)
  obtain s1 where s1: "scan_grey (Zval pz) s = Some s1" "frame s s1" "gc_at_rest s G rcm (col s1) (rc s1)"
    "gc_scanned s G (task_nodes s (Zval pz)) (col s) (col s1)"
    using 5(1) [OF order_refl scan_start_frame [OF 5(3) frame_refl t(5,1,3)]] by (auto simp: scans_def)
  have "scans G rcm (task_nodes s1 (Entries ps)) (scan_grey (Entries ps)) s1"
    using 5(2) [OF grey_nodes_scanned [OF frameD(1) [OF s1(2)] s1(4)] scan_start_frame [OF 5(3) s1(2,3) t(2,4)]] .
  then obtain s2 where s2: "scan_grey (Entries ps) s1 = Some s2" "frame s1 s2" "gc_at_rest s G rcm (col s2) (rc s2)"
    "gc_scanned s G (node_refs s ps) (col s1) (col s2)"
    using same_shapeD [OF frameD(1) [OF s1(2)]] by (auto simp: scans_def)
  have "gc_scanned s G (node_refs s [Some pz] @ node_refs s ps) (col s) (col s2)"
    using gc.scanned_append [of s G "node_refs s [Some pz]"] s1(4) s2(4) by simp
  moreover have "node_refs s [Some pz] @ node_refs s ps = node_refs s (Some pz # ps)" by simp
  ultimately show ?case using s1 s2 frame_trans [OF s1(2) s2(2)] by (auto simp: scans_def scan_grey_Entries)
qed

end
