(* ===== verification/Zend_Gc_Gather.thy ===== *)
theory Zend_Gc_Gather
  imports Zend_Gc_Heap
begin

text \<open>\<open>collect_white\<close> ends and puts the white zvals it meets on the list, once each.\<close>

text \<open>The list that starts at an address, linked through \<open>u.next\<close>.\<close>

fun chain :: "'h gc_heap \<Rightarrow> gc_address \<Rightarrow> gc_node list \<Rightarrow> bool" where
  "chain s a [] = (a = Free_list_end)"
| "chain s a (n # ns) = (\<exists>p b. n = Zv p \<and> a = Next_zval p \<and> addr s n = Some b \<and> chain s b ns)"

lemma chain_cong: "(\<And>n. n \<in> set ns \<Longrightarrow> addr s' n = addr s n) \<Longrightarrow> chain s' a ns = chain s a ns"
  by (induction ns arbitrary: a) auto

text \<open>Between two visits: \<open>P\<close> are the white nodes that still have an address in the buffer.\<close>

definition gather_inv :: "gc_node set \<Rightarrow> 'h gc_heap \<Rightarrow> gc_node list \<Rightarrow> bool" where
  "gather_inv P s fl \<longleftrightarrow> heap_ok s \<and> globals_quiet s \<and>
     (\<forall>n\<in>gc_nodes s. col s n = GC_WHITE \<longrightarrow> (addr s n = Some Null \<longleftrightarrow> n \<notin> P)) \<and>
     chain s (zval_to_free s) fl \<and> (\<forall>n\<in>set fl. col s n \<noteq> GC_WHITE)"

definition gathers :: "gc_node set \<Rightarrow> gc_node set \<Rightarrow> gc_node list \<Rightarrow> gc_node list \<Rightarrow> ('h gc_heap \<Rightarrow> 'h gc_heap option) \<Rightarrow>
    'h gc_heap \<Rightarrow> gc_node list \<Rightarrow> bool" where
  "gathers P X rs ns f s fl \<longleftrightarrow> (\<exists>s' fl'. f s = Some s' \<and> same_shape s s' \<and> gather_inv P s' fl' \<and>
     (\<forall>n. n \<notin> set fl' \<longrightarrow> addr s' n = addr s n) \<and> (\<forall>n\<in>set fl' - (X \<union> set fl). addr s n = Some Null) \<and>
     gc_gather s P X rs ns (col s) (rc s) fl (col s') (rc s') fl')"

lemma gathersE:
  assumes "gathers P X rs ns f s1 fl" and "same_shape s s1"
  obtains s2 fl2 where "f s1 = Some s2" and "same_shape s s2" and "gather_inv P s2 fl2"
    and "\<forall>n. n \<notin> set fl2 \<longrightarrow> addr s2 n = addr s1 n" and "\<forall>n\<in>set fl2 - (X \<union> set fl). addr s1 n = Some Null"
    and "gc_gather s P X rs ns (col s1) (rc s1) fl (col s2) (rc s2) fl2"
proof -
  obtain s2 fl2 where s2: "f s1 = Some s2" "same_shape s1 s2" "gather_inv P s2 fl2"
    "\<forall>n. n \<notin> set fl2 \<longrightarrow> addr s2 n = addr s1 n" "\<forall>n\<in>set fl2 - (X \<union> set fl). addr s1 n = Some Null"
    "gc_gather s1 P X rs ns (col s1) (rc s1) fl (col s2) (rc s2) fl2"
    using assms(1) unfolding gathers_def by blast
  then show thesis using that [of s2 fl2] same_shape_trans [OF assms(2) s2(2)] same_shapeD [OF assms(2)] by simp
qed

lemma gather_inv_frame:
  assumes "gather_inv P s fl" and "frame s s'" and "col s' = col s"
  shows "gather_inv P s' fl"
  using assms frameD [OF assms(2)] same_shapeD [OF frameD(1) [OF assms(2)]] chain_cong [of fl s' s]
  by (simp add: gather_inv_def)

lemma gathers_Nil: "gather_inv P s fl \<Longrightarrow> gathers P {} [] [] Some s fl"
  by (auto simp: gathers_def intro: gc.gather_Nil)

lemma gathers_skip:
  assumes "gather_inv P s fl" and "col s n \<noteq> GC_WHITE \<or> n \<in> P"
  shows "gathers P {} [] [n] Some s fl"
  using assms gc.gather_skip [of "col s" n P s "rc s" fl] by (auto simp: gathers_def)

lemma gathers_append:
  assumes "gathers P X1 rs1 ns1 f s fl" and "X1 \<inter> X2 = {}" and "\<forall>n\<in>X2. col s n \<noteq> GC_WHITE"
    and "\<And>s1 fl1. same_shape s s1 \<Longrightarrow> gather_inv P s1 fl1 \<Longrightarrow> gc_gather s P X1 rs1 ns1 (col s) (rc s) fl (col s1) (rc s1) fl1 \<Longrightarrow>
      gathers P X2 rs2 ns2 g s1 fl1"
  shows "gathers P (X1 \<union> X2) (rs1 @ rs2) (ns1 @ ns2) (\<lambda>s0. do { s1 \<leftarrow> f s0; g s1 }) s fl"
proof -
  obtain s1 fl1 where s1: "f s = Some s1" "same_shape s s1" "gather_inv P s1 fl1"
    "\<forall>n. n \<notin> set fl1 \<longrightarrow> addr s1 n = addr s n" "\<forall>n\<in>set fl1 - (X1 \<union> set fl). addr s n = Some Null"
    "gc_gather s P X1 rs1 ns1 (col s) (rc s) fl (col s1) (rc s1) fl1"
    using assms(1) by (auto simp: gathers_def)
  obtain s2 fl2 where s2: "g s1 = Some s2" "same_shape s s2" "gather_inv P s2 fl2"
    "\<forall>n. n \<notin> set fl2 \<longrightarrow> addr s2 n = addr s1 n" "\<forall>n\<in>set fl2 - (X2 \<union> set fl1). addr s1 n = Some Null"
    "gc_gather s P X2 rs2 ns2 (col s1) (rc s1) fl1 (col s2) (rc s2) fl2"
    using gathersE [OF assms(4) [OF s1(2,3,6)] s1(2)] by metis
  have "gc_gather s P (X1 \<union> X2) (rs1 @ rs2) (ns1 @ ns2) (col s) (rc s) fl (col s2) (rc s2) fl2"
    by (rule gc.gather_append [OF s1(6) s2(6) assms(2,3)])
  moreover have fl: "set fl1 \<subseteq> set fl2" using s2(6) by (auto simp: gc.gather_def)
  then have "addr s2 n = addr s n" if "n \<notin> set fl2" for n using s1(4) s2(4) that fl by auto
  moreover have "addr s n = Some Null" if "n \<in> set fl2 - (X1 \<union> X2 \<union> set fl)" for n
    using s1(4,5) s2(5) that by (cases "n \<in> set fl1") auto
  ultimately show ?thesis using s1(1) s2(1-3) by (auto simp: gathers_def)
qed

text \<open>Putting a zval on the list whose visit has begun.\<close>

lemma put_to_free_gathers:
  assumes "gather_inv P s fl" and "value_at s p \<noteq> None" and "\<not> is_global s p" and "col s (Zv p) = GC_BLACK" and "Zv p \<notin> set fl"
  shows "gathers P {Zv p} [] [] (put_to_free p) s fl"
proof -
  obtain z where z: "zvals s p = Some z" using value_at_Some [OF assms(2)] by blast
  let ?s0 = "s\<lparr>zvals := (zvals s)(p \<mapsto> z\<lparr>refcount__gc := refcount__gc z + 1, z_u := Tagged (zval_to_free s) GC_BLACK\<rparr>)\<rparr>"
  let ?s = "?s0\<lparr>zval_to_free := Next_zval p\<rparr>"
  have e: "put_to_free p s = Some ?s" using z by (simp add: put_to_free_def change_zval_def)
  have sh: "same_shape s ?s" using z by (auto simp: same_shape_def value_at_def object_info_def object_at_def fun_eq_iff)
  note sh1 = same_shapeD [OF sh]
  have o: "object_at ?s = object_at s" by (simp add: object_at_def fun_eq_iff)
  have c: "col ?s = col s" using z assms(3,4)
    by (auto simp: fun_eq_iff col_def sh1 o split: gc_node.split option.split)
  have r: "rc ?s = (rc s)(Zv p := rc s (Zv p) + 1)" using z assms(3)
    by (auto simp: fun_eq_iff rc_def sh1 o split: gc_node.split option.split)
  have a: "addr ?s = (addr s)(Zv p := Some (zval_to_free s))" using z
    by (auto simp: fun_eq_iff addr_def o split: gc_node.split)
  have "chain ?s (zval_to_free s) fl = chain s (zval_to_free s) fl"
    by (rule chain_cong) (use a assms(5) in auto)
  then have "chain ?s (zval_to_free s) fl" using assms(1) by (simp add: gather_inv_def)
  then have "chain ?s (zval_to_free ?s) (Zv p # fl)" using a by simp
  moreover have "globals_quiet ?s" using assms(1,3) z by (auto simp: gather_inv_def globals_quiet_def sh1)
  ultimately have "gather_inv P ?s (Zv p # fl)" using assms(1,4) by (auto simp: gather_inv_def sh1 c a)
  moreover have "gc_gather s P {Zv p} [] [] (col s) (rc s) fl (col ?s) (rc ?s) (Zv p # fl)"
    unfolding c r using assms(4) by (intro gc.gather_push) auto
  ultimately show ?thesis using e sh a by (auto simp: gathers_def)
qed

text \<open>Colouring a node and then gathering what it refers to.\<close>

lemma gathers_visit:
  assumes "n \<in> gc_nodes s" and "col s n = GC_WHITE" and "n \<notin> X" and "g s = Some s1" and "same_shape s s1"
    and "addr s1 = addr s" and "rc s1 = rc s" and "col s1 = (col s)(n := gc_done n)"
    and "gathers P (X \<union> (if is_zval n then {n} else {})) (gc_kids s n) (gc_kids s n) f s1 fl"
    and "addr s n = Some Null"
  shows "gathers P X [] [n] (\<lambda>s0. do { s1 \<leftarrow> g s0; f s1 }) s fl"
proof -
  obtain s2 fl2 where s2: "f s1 = Some s2" "same_shape s s2" "gather_inv P s2 fl2"
    "\<forall>n. n \<notin> set fl2 \<longrightarrow> addr s2 n = addr s1 n" "\<forall>m\<in>set fl2 - (X \<union> (if is_zval n then {n} else {}) \<union> set fl). addr s1 m = Some Null"
    "gc_gather s P (X \<union> (if is_zval n then {n} else {})) (gc_kids s n) (gc_kids s n) (col s1) (rc s1) fl (col s2) (rc s2) fl2"
    using gathersE [OF assms(9,5)] by metis
  have "gc_gather s P X [] [n] (col s) (rc s) fl (col s2) (rc s2) fl2"
    using gc.gather_visit [where s = s and n = n and col = "col s" and X = X] s2(6) assms(1-3,7,8) by simp
  moreover have "addr s m = Some Null" if "m \<in> set fl2 - (X \<union> set fl)" for m
    using s2(5) that assms(6,10) by (cases "m = n") auto
  ultimately show ?thesis using assms(4,6) s2(1-4) by (auto simp: gathers_def)
qed

definition white_nodes :: "'h gc_heap \<Rightarrow> nat" where
  "white_nodes s = card {x \<in> gc_nodes s. col s x = GC_WHITE}"

lemma white_nodes_less:
  assumes "n \<in> gc_nodes s" and "col s n = GC_WHITE" and "same_shape s s1" and "col s1 = (col s)(n := gc_done n)"
  shows "white_nodes s1 < white_nodes s"
proof -
  have "{x \<in> gc_nodes s1. col s1 x = GC_WHITE} \<subset> {x \<in> gc_nodes s. col s x = GC_WHITE}"
    using assms same_shapeD(11) [OF assms(3)] by (auto simp: gc.done_color_def)
  then show ?thesis unfolding white_nodes_def by (intro psubset_card_mono) (simp_all add: finite_gc_nodes)
qed

lemma gather_white: "gc_gather s P X rs ns c1 r1 fl1 c2 r2 fl2 \<Longrightarrow> c2 n = GC_WHITE \<Longrightarrow> c1 n = GC_WHITE"
  by (auto simp: gc.gather_def gc.done_color_def split: if_splits)

lemma white_nodes_gather:
  assumes "same_shape s s1" and "gc_gather s P X rs ns (col s) r fl (col s1) r1 fl1"
  shows "white_nodes s1 \<le> white_nodes s"
  unfolding white_nodes_def same_shapeD(11) [OF assms(1)]
  using gather_white [OF assms(2)] by (intro card_mono) (auto simp: finite_gc_nodes)

lemma gathers_rs: "gathers P X rs ns f s fl \<Longrightarrow> gathers P X (Ob h # rs) ns f s fl"
  unfolding gathers_def by (elim ex_forward conjE, intro conjI) (auto intro: gc.gather_object)

lemma gathers_cong: "f s = g s \<Longrightarrow> gathers P X rs ns f s fl = gathers P X rs ns g s fl"
  by (simp add: gathers_def)

subsection \<open>The tasks\<close>

lemma collect_white_Entries:
  "collect_white (Entries []) s = Some s" "collect_white (Entries (None # ps)) s = collect_white (Entries ps) s"
  "collect_white (Entries (Some pz # ps)) s = do { s1 \<leftarrow> count_edge 1 pz s; s2 \<leftarrow> collect_white (Zval pz) s1; collect_white (Entries ps) s2 }"
  by (subst collect_white.simps, simp)+

text \<open>What is not white, or still waits for its turn as a root, is left alone.\<close>

lemma exactly_white:
  assumes "gather_inv P s fl"
  shows "value_at s p \<noteq> None \<Longrightarrow> \<not> is_global s p \<Longrightarrow> zvals s p = Some z \<Longrightarrow>
      z_u z = Tagged Null GC_WHITE \<longleftrightarrow> col s (Zv p) = GC_WHITE \<and> Zv p \<notin> P"
    and "object_at s h = Some ob \<Longrightarrow> o_buffered ob = Tagged Null GC_WHITE \<longleftrightarrow> col s (Ob h) = GC_WHITE \<and> Ob h \<notin> P"
proof -
  have inv: "n \<in> gc_nodes s \<Longrightarrow> col s n = GC_WHITE \<Longrightarrow> (addr s n = Some Null) = (n \<notin> P)" "heap_ok s" for n
    using assms by (auto simp: gather_inv_def)
  show "z_u z = Tagged Null GC_WHITE \<longleftrightarrow> col s (Zv p) = GC_WHITE \<and> Zv p \<notin> P"
    if "value_at s p \<noteq> None" "\<not> is_global s p" "zvals s p = Some z"
    using that inv(1) [of "Zv p"] inv(2) by (cases "z_u z") (auto simp: gc_nodes_def col_def addr_def)
  show "o_buffered ob = Tagged Null GC_WHITE \<longleftrightarrow> col s (Ob h) = GC_WHITE \<and> Ob h \<notin> P" if "object_at s h = Some ob"
    using that inv(1) [of "Ob h"] inv(2) by (cases "o_buffered ob") (auto simp: gc_nodes_def col_def addr_def object_info_def)
qed

text \<open>Entries, given that visits and shorter lists of entries gather.\<close>

definition gather_task :: "gc_node set \<Rightarrow> 'h gc_task \<Rightarrow> 'h gc_heap \<Rightarrow> bool" where
  "gather_task P t s \<longleftrightarrow> (\<forall>fl. gather_inv P s fl \<longrightarrow> task_ok s t \<longrightarrow>
     gathers P {} (task_refs s t) (task_nodes s t) (collect_white t) s fl)"

lemma gather_taskE:
  assumes "gather_task P t s'" and "same_shape s s'" and "gather_inv P s' fl" and "task_ok s t"
  shows "gathers P {} (task_refs s t) (task_nodes s t) (collect_white t) s' fl"
  using assms task_shape [OF assms(2)] by (simp add: gather_task_def)

lemma gather_entries:
  fixes s :: "'h gc_heap"
  assumes "gather_inv P s fl" and "task_ok s (Entries (Some pz # ps))"
    and "\<And>s' :: 'h gc_heap. white_nodes s' \<le> white_nodes s \<Longrightarrow> gather_task P (Zval pz) s'"
    and "\<And>s' :: 'h gc_heap. white_nodes s' \<le> white_nodes s \<Longrightarrow> gather_task P (Entries ps) s'"
  shows "gathers P {} (node_refs s (Some pz # ps)) (node_refs s (Some pz # ps)) (collect_white (Entries (Some pz # ps))) s fl"
proof -
  have v: "value_at s pz \<noteq> None" "task_ok s (Entries ps)" using assms(2) by auto
  obtain s1 where s1: "count_edge 1 pz s = Some s1" "frame s s1" "col s1 = col s"
    "rc s1 = (if is_global s pz then rc s else (rc s)(Zv pz := rc s (Zv pz) + 1))"
    using count_edge_step [OF v(1)] by blast
  note sh1 = frameD(1) [OF s1(2)]
  have w1: "white_nodes s1 \<le> white_nodes s" using same_shapeD [OF sh1] s1(3) by (simp add: white_nodes_def)
  have "gathers P {} [] (node_refs s [Some pz]) (collect_white (Zval pz)) s1 fl"
    using gather_taskE [OF assms(3) [OF w1] sh1 gather_inv_frame [OF assms(1) s1(2,3)]] v(1) by simp
  then have "gathers P ({} \<union> {}) ([] @ node_refs s ps) (node_refs s [Some pz] @ node_refs s ps)
      (\<lambda>s0. do { s2 \<leftarrow> collect_white (Zval pz) s0; collect_white (Entries ps) s2 }) s1 fl"
  proof (rule gathers_append)
    fix s2 fl2
    assume s2: "same_shape s1 s2" "gather_inv P s2 fl2"
      "gc_gather s1 P {} [] (node_refs s [Some pz]) (col s1) (rc s1) fl (col s2) (rc s2) fl2"
    have "white_nodes s2 \<le> white_nodes s" using white_nodes_gather [OF s2(1,3)] w1 by simp
    from gather_taskE [OF assms(4) [OF this] same_shape_trans [OF sh1 s2(1)] s2(2) v(2)]
    show "gathers P {} (node_refs s ps) (node_refs s ps) (collect_white (Entries ps)) s2 fl2" by simp
  qed auto
  moreover have "node_refs s [Some pz] @ node_refs s ps = node_refs s (Some pz # ps)" by simp
  ultimately have "gathers P {} (node_refs s ps) (node_refs s (Some pz # ps))
      (\<lambda>s0. do { s2 \<leftarrow> collect_white (Zval pz) s0; collect_white (Entries ps) s2 }) s1 fl" by simp
  from gathersE [OF this sh1] obtain s2 fl2 where s2: "do { s2 \<leftarrow> collect_white (Zval pz) s1; collect_white (Entries ps) s2 } = Some s2"
    "same_shape s s2" "gather_inv P s2 fl2" "\<forall>n. n \<notin> set fl2 \<longrightarrow> addr s2 n = addr s1 n"
    "\<forall>n\<in>set fl2 - ({} \<union> set fl). addr s1 n = Some Null"
    "gc_gather s P {} (node_refs s ps) (node_refs s (Some pz # ps)) (col s1) (rc s1) fl (col s2) (rc s2) fl2"
    by metis
  have "gc_gather s P {} (node_refs s (Some pz # ps)) (node_refs s (Some pz # ps)) (col s) (rc s) fl (col s2) (rc s2) fl2"
    using s2(6) s1(3,4) gc.gather_count [where n = "Zv pz" and s = s] by (cases "is_global s pz") auto
  then show ?thesis using s1(1) s2(1-5) frameD(2) [OF s1(2)] by (auto simp: gathers_def collect_white_Entries)
qed

text \<open>The object of a white zval that is on its way to the list: \<open>X\<close> is that zval.\<close>

lemma gather_store_object:
  fixes s :: "'h gc_heap"
  assumes "gather_inv P s fl" and "task_ok s (Store_object h hs)" and "object_at s h = Some ob"
    and "o_buffered ob = Tagged Null GC_WHITE"
    and "\<And>s' :: 'h gc_heap. same_shape s s' \<Longrightarrow> gather_inv P s' fl \<Longrightarrow> white_nodes s' < white_nodes s \<Longrightarrow>
      col s' = (col s)(Ob h := GC_PURPLE) \<Longrightarrow> gathers P X (gc_kids s (Ob h)) (gc_kids s (Ob h)) f s' fl"
    and "Ob h \<notin> X"
  shows "gathers P X [] [Ob h] (\<lambda>s0. do { s1 \<leftarrow> set_object_color GC_PURPLE h s0; f s1 }) s fl"
proof -
  have i: "object_info s h \<noteq> None" using assms(2) by auto
  have ok: "heap_ok s" using assms(1) by (simp add: gather_inv_def)
  have n: "Ob h \<in> gc_nodes s" "col s (Ob h) = GC_WHITE"
    using object_task [OF ok assms(2)] assms(3,4) by auto
  have a: "addr s (Ob h) = Some Null" using assms(3,4) by (simp add: addr_def)
  obtain s1 where s1: "set_object_color GC_PURPLE h s = Some s1" "frame s s1" "rc s1 = rc s" "col s1 = (col s)(Ob h := GC_PURPLE)"
    using set_object_color_step [OF i] by blast
  note sh = same_shapeD [OF frameD(1) [OF s1(2)]]
  have c: "col s1 = (col s)(Ob h := gc_done (Ob h))" using s1(4) by (simp add: gc.done_color_def)
  have "gather_inv P s1 fl" using assms(1) frameD [OF s1(2)] chain_cong [of fl s1 s] s1(4) by (auto simp: gather_inv_def sh)
  then have g: "gathers P X (gc_kids s (Ob h)) (gc_kids s (Ob h)) f s1 fl"
    using assms(5) [OF frameD(1) [OF s1(2)] _ _ s1(4)] white_nodes_less [OF n frameD(1) [OF s1(2)] c] by blast
  show ?thesis
    using gathers_visit [where n = "Ob h" and g = "set_object_color GC_PURPLE h" and ?s1.0 = s1, OF n assms(6) s1(1) frameD(1,2) [OF s1(2)] s1(3) c]
      g a by simp
qed

lemma collect_white_Store_object:
  assumes "task_ok s (Store_object h hs)" and "object_at s h = Some ob"
  shows "collect_white (Store_object h hs) s = (if o_buffered ob = Tagged Null GC_WHITE then do {
     s1 \<leftarrow> set_object_color GC_PURPLE h s; collect_white (Entries (entries_of s h)) s1 } else Some s)"
proof -
  have "object_info s h \<noteq> None" using assms(1) by auto
  then obtain s1 where "set_object_color GC_PURPLE h s = Some s1" using set_object_color_step by blast
  then show ?thesis using assms(2) entries_stay_color(1) [OF assms]
    by (subst collect_white.simps) simp
qed

text \<open>The object a zval refers to, with the zval put on the list before, between or after its entries.\<close>

definition collect_entries :: "nat \<Rightarrow> (nat option list \<times> nat list option) option \<Rightarrow> 'h gc_heap \<Rightarrow> 'h gc_heap option" where
  "collect_entries pz r s = (case r of
     None \<Rightarrow> put_to_free pz s
   | Some (table, None) \<Rightarrow> do { s \<leftarrow> put_to_free pz s; collect_white (Entries table) s }
   | Some (table, Some props) \<Rightarrow> do {
       s \<leftarrow> collect_white (Entries table) s;
       s \<leftarrow> put_to_free pz s;
       collect_white (Entries (map Some props)) s
     })"

lemma collect_white_Zval:
  assumes "zvals s pz = Some z"
  shows "collect_white (Zval pz) s = (if z_u z = Tagged Null GC_WHITE then do {
     s1 \<leftarrow> set_zval_color GC_BLACK pz s;
     (case z_value z of
        Is_object h hs \<Rightarrow> if objects s1 = None then put_to_free pz s1
          else do {
            ob \<leftarrow> object_at s1 h;
            (if o_buffered ob = Tagged Null GC_WHITE
             then do { s2 \<leftarrow> set_object_color GC_PURPLE h s1; collect_entries pz (gc_entries s2 ob hs h) s2 }
             else put_to_free pz s1)
          }
      | Is_array ht \<Rightarrow> do { ps \<leftarrow> tables s1 ht; s1 \<leftarrow> put_to_free pz s1; collect_white (Entries (map Some ps)) s1 }
      | Is_scalar \<Rightarrow> put_to_free pz s1)
   } else Some s)"
  unfolding collect_entries_def using assms by (subst collect_white.simps) simp

lemma gather_keeps:
  assumes "gc_gather s P X rs ns c1 r1 fl1 c2 r2 fl2" and "c1 n \<noteq> GC_WHITE" and "n \<notin> X"
  shows "c2 n = c1 n" and "n \<notin> set fl1 \<Longrightarrow> n \<notin> set fl2"
  using assms by (auto simp: gc.gather_def)

text \<open>A push and then entries.\<close>

lemma push_then_entries:
  fixes s :: "'h gc_heap"
  assumes "gather_inv P s fl" and "value_at s pz \<noteq> None" and "\<not> is_global s pz" and "col s (Zv pz) = GC_BLACK" and "Zv pz \<notin> set fl"
    and "task_ok s (Entries ps)" and "\<And>s' :: 'h gc_heap. white_nodes s' \<le> white_nodes s \<Longrightarrow> gather_task P (Entries ps) s'"
  shows "gathers P {Zv pz} (node_refs s ps) (node_refs s ps) (\<lambda>s0. do { s1 \<leftarrow> put_to_free pz s0; collect_white (Entries ps) s1 }) s fl"
proof -
  have "gathers P ({Zv pz} \<union> {}) ([] @ node_refs s ps) ([] @ node_refs s ps)
      (\<lambda>s0. do { s1 \<leftarrow> put_to_free pz s0; collect_white (Entries ps) s1 }) s fl"
  proof (rule gathers_append [OF put_to_free_gathers [OF assms(1-5)]])
    fix s1 fl1
    assume s1: "same_shape s s1" "gather_inv P s1 fl1" "gc_gather s P {Zv pz} [] [] (col s) (rc s) fl (col s1) (rc s1) fl1"
    show "gathers P {} (node_refs s ps) (node_refs s ps) (collect_white (Entries ps)) s1 fl1"
      using gather_taskE [OF assms(7) [OF white_nodes_gather [OF s1(1,3)]] s1(1,2) assms(6)] by simp
  qed auto
  then show ?thesis by simp
qed

lemma gather_collect_entries:
  fixes s :: "'h gc_heap"
  assumes "gather_inv P s fl" and "value_at s pz \<noteq> None" and "\<not> is_global s pz" and "col s (Zv pz) = GC_BLACK" and "Zv pz \<notin> set fl"
    and "task_ok s (Entries (all_entries r))"
    and "\<And>ps (s' :: 'h gc_heap). white_nodes s' \<le> white_nodes s \<Longrightarrow> gather_task P (Entries ps) s'"
  shows "gathers P {Zv pz} (node_refs s (all_entries r)) (node_refs s (all_entries r)) (collect_entries pz r) s fl"
proof (cases r)
  case None
  then show ?thesis using put_to_free_gathers [OF assms(1-5)] by (simp add: gathers_def collect_entries_def all_entries_def)
next
  case (Some e)
  obtain tab where e: "e = (tab, None) \<or> (\<exists>props. e = (tab, Some props))" by (cases e; cases "snd e") auto
  then consider "e = (tab, None)" | props where "e = (tab, Some props)" by blast
  then show ?thesis
  proof cases
    case 1
    then have "task_ok s (Entries tab)" using assms(6) Some by (simp add: all_entries_def)
    from push_then_entries [OF assms(1-5) this assms(7)]
    show ?thesis using Some 1 by (simp add: gathers_def collect_entries_def all_entries_def)
  next
    case 2
    then have ok: "task_ok s (Entries tab)" "task_ok s (Entries (map Some props))"
      using assms(6) Some by (auto simp: all_entries_def)
    have "gathers P {} (node_refs s tab) (node_refs s tab) (collect_white (Entries tab)) s fl"
      using gather_taskE [OF assms(7) [OF order_refl] same_shape_refl assms(1) ok(1)] by simp
    then have "gathers P ({} \<union> {Zv pz}) (node_refs s tab @ node_refs s (map Some props)) (node_refs s tab @ node_refs s (map Some props))
        (\<lambda>s0. do { s1 \<leftarrow> collect_white (Entries tab) s0; s2 \<leftarrow> put_to_free pz s1; collect_white (Entries (map Some props)) s2 }) s fl"
    proof (rule gathers_append)
      fix s1 fl1
      assume s1: "same_shape s s1" "gather_inv P s1 fl1"
        "gc_gather s P {} (node_refs s tab) (node_refs s tab) (col s) (rc s) fl (col s1) (rc s1) fl1"
      have k: "col s1 (Zv pz) = GC_BLACK" "Zv pz \<notin> set fl1" using gather_keeps [OF s1(3), of "Zv pz"] assms(4,5) by auto
      have "gather_task P (Entries (map Some props)) s'" if "white_nodes s' \<le> white_nodes s1" for s' :: "'h gc_heap"
        using assms(7) [OF order_trans [OF that white_nodes_gather [OF s1(1,3)]]] .
      then show "gathers P {Zv pz} (node_refs s (map Some props)) (node_refs s (map Some props))
          (\<lambda>s1. do { s2 \<leftarrow> put_to_free pz s1; collect_white (Entries (map Some props)) s2 }) s1 fl1"
        using push_then_entries [OF s1(2) _ _ k, of "map Some props"] assms(2,3) ok(2) same_shapeD [OF s1(1)] task_shape(1) [OF s1(1)]
        by simp
    qed (use assms(4) in auto)
    then show ?thesis using Some 2 by (simp add: gathers_def collect_entries_def all_entries_def node_refs_append)
  qed
qed

text \<open>The object a black zval refers to.\<close>

lemma gather_object_of:
  fixes s :: "'h gc_heap"
  assumes "gather_inv P s fl" and "value_at s pz \<noteq> None" and "\<not> is_global s pz" and "col s (Zv pz) = GC_BLACK" and "Zv pz \<notin> set fl"
    and "\<And>t (s' :: 'h gc_heap). white_nodes s' \<le> white_nodes s \<Longrightarrow> gather_task P t s'"
    and "task_ok s (Store_object h hs)"
  shows "gathers P {Zv pz} [Ob h] [Ob h] (\<lambda>s1. do {
      ob \<leftarrow> object_at s1 h;
      (if o_buffered ob = Tagged Null GC_WHITE
       then do { s2 \<leftarrow> set_object_color GC_PURPLE h s1; collect_entries pz (gc_entries s2 ob hs h) s2 }
       else put_to_free pz s1) }) s fl"
proof -
  have ok: "heap_ok s" using assms(1) by (simp add: gather_inv_def)
  obtain ob where ob: "object_at s h = Some ob" using object_task [OF ok assms(7)] by auto
  show ?thesis
  proof (cases "o_buffered ob = Tagged Null GC_WHITE")
    case True
    obtain s1 where s1: "set_object_color GC_PURPLE h s = Some s1" using set_object_color_step [of s h GC_PURPLE] assms(7) by auto
    note e = entries_stay_color(1) [OF assms(7) ob s1]
    have r: "gc_kids s (Ob h) = node_refs s (all_entries (gc_entries s1 ob hs h))" "task_ok s (Entries (all_entries (gc_entries s1 ob hs h)))"
      using object_task [OF ok assms(7)] e by auto
    have "gathers P {Zv pz} [] [Ob h] (\<lambda>s0. do { s2 \<leftarrow> set_object_color GC_PURPLE h s0; collect_entries pz (gc_entries s1 ob hs h) s2 }) s fl"
    proof (rule gather_store_object [OF assms(1,7) ob True])
      fix s' :: "'h gc_heap"
      assume s': "same_shape s s'" "gather_inv P s' fl" "white_nodes s' < white_nodes s" "col s' = (col s)(Ob h := GC_PURPLE)"
      have "gathers P {Zv pz} (node_refs s' (all_entries (gc_entries s1 ob hs h))) (node_refs s' (all_entries (gc_entries s1 ob hs h)))
          (collect_entries pz (gc_entries s1 ob hs h)) s' fl"
        using assms(2-5) s' same_shapeD [OF s'(1)] r(2) task_shape(1) [OF s'(1)] assms(6)
        by (intro gather_collect_entries) auto
      then show "gathers P {Zv pz} (gc_kids s (Ob h)) (gc_kids s (Ob h)) (collect_entries pz (gc_entries s1 ob hs h)) s' fl"
        using r(1) same_shapeD [OF s'(1)] by simp
    qed simp
    from gathers_rs [OF this, of h] show ?thesis using ob True s1 by (simp add: gathers_def)
  next
    case skip: False
    then have "gathers P ({} \<union> {Zv pz}) ([] @ []) ([Ob h] @ []) (\<lambda>s0. do { s1 \<leftarrow> Some s0; put_to_free pz s1 }) s fl"
    proof (intro gathers_append [OF gathers_skip [OF assms(1)]])
      show "col s (Ob h) \<noteq> GC_WHITE \<or> Ob h \<in> P" using exactly_white(2) [OF assms(1) ob] skip by blast
      show "gathers P {Zv pz} [] [] (put_to_free pz) s1 fl1"
        if "same_shape s s1" "gather_inv P s1 fl1" "gc_gather s P {} [] [Ob h] (col s) (rc s) fl (col s1) (rc s1) fl1" for s1 fl1
        using put_to_free_gathers [OF that(2)] assms(2,3) same_shapeD [OF that(1)] gather_keeps [OF that(3), of "Zv pz"] assms(4,5)
        by simp
    qed (use assms(4) in auto)
    from gathers_rs [OF this, of h] show ?thesis using ob skip by (simp add: gathers_def)
  qed
qed

text \<open>What a zval refers to, once it is black.\<close>

lemma gather_value:
  fixes s :: "'h gc_heap"
  assumes "gather_inv P s fl" and "zvals s pz = Some z" and "\<not> is_global s pz" and "col s (Zv pz) = GC_BLACK" and "Zv pz \<notin> set fl"
    and "\<And>t (s' :: 'h gc_heap). white_nodes s' \<le> white_nodes s \<Longrightarrow> gather_task P t s'"
  shows "gathers P {Zv pz} (gc_kids s (Zv pz)) (gc_kids s (Zv pz)) (\<lambda>s1. case z_value z of
        Is_object h hs \<Rightarrow> if objects s1 = None then put_to_free pz s1
          else do {
            ob \<leftarrow> object_at s1 h;
            (if o_buffered ob = Tagged Null GC_WHITE
             then do { s2 \<leftarrow> set_object_color GC_PURPLE h s1; collect_entries pz (gc_entries s2 ob hs h) s2 }
             else put_to_free pz s1)
          }
      | Is_array ht \<Rightarrow> do { ps \<leftarrow> tables s1 ht; s1 \<leftarrow> put_to_free pz s1; collect_white (Entries (map Some ps)) s1 }
      | Is_scalar \<Rightarrow> put_to_free pz s1) s fl"
proof -
  have v: "value_at s pz \<noteq> None" using assms(2) by (simp add: value_at_def)
  have ok: "heap_ok s" using assms(1) by (simp add: gather_inv_def)
  have z: "case z_value z of
       Is_array ht \<Rightarrow> ht \<noteq> symbol_table s \<and> (\<exists>ps. tables s ht = Some ps \<and> task_ok s (Entries (map Some ps)) \<and>
         gc_kids s (Zv pz) = node_refs s (map Some ps))
     | Is_object h hs \<Rightarrow> if objects s = None then gc_kids s (Zv pz) = [] else task_ok s (Store_object h hs) \<and> gc_kids s (Zv pz) = [Ob h]
     | Is_scalar \<Rightarrow> gc_kids s (Zv pz) = []"
    using zval_task [OF ok v assms(3)] assms(2) by auto
  have push: "gathers P {Zv pz} [] [] (put_to_free pz) s fl" using put_to_free_gathers [OF assms(1) v assms(3-5)] .
  show ?thesis
  proof (cases "z_value z")
    case (Is_array ht)
    then obtain ps where ps: "tables s ht = Some ps" "task_ok s (Entries (map Some ps))" "gc_kids s (Zv pz) = node_refs s (map Some ps)"
      using z by auto
    show ?thesis using push_then_entries [OF assms(1) v assms(3-5) ps(2) assms(6)] Is_array ps(1,3) by (simp add: gathers_def)
  next
    case (Is_object h hs)
    show ?thesis
    proof (cases "objects s = None")
      case True
      then show ?thesis using z Is_object push by (simp add: gathers_def)
    next
      case False
      then have t: "task_ok s (Store_object h hs)" "gc_kids s (Zv pz) = [Ob h]" using z Is_object by auto
      show ?thesis using gather_object_of [OF assms(1) v assms(3-6) t(1)] Is_object False t(2) by (auto simp: gathers_def)
    qed
  next
    case Is_scalar
    then show ?thesis using z push by (simp add: gathers_def)
  qed
qed

lemma collect_white_gathers: "gather_task P t s"
proof (induction t s rule: task_induct [of white_nodes])
  case (1 pz s)
  show ?case unfolding gather_task_def
  proof (intro allI impI)
    fix fl assume inv: "gather_inv P s fl" and "task_ok s (Zval pz)"
    then have v: "value_at s pz \<noteq> None" by simp
    obtain z where z: "zvals s pz = Some z" using value_at_Some [OF v] by blast
    have i: "heap_ok s" "globals_quiet s" "\<forall>n\<in>set fl. col s n \<noteq> GC_WHITE" using inv by (auto simp: gather_inv_def)
    show "gathers P {} (task_refs s (Zval pz)) (task_nodes s (Zval pz)) (collect_white (Zval pz)) s fl"
    proof (cases "is_global s pz")
      case True
      then have "z_u z \<noteq> Tagged Null GC_WHITE" using i(2) z by (fastforce simp: globals_quiet_def)
      then show ?thesis using True z gathers_Nil [OF inv] by (simp add: gathers_def collect_white_Zval)
    next
      case False
      note w = exactly_white(1) [OF inv v False z]
      show ?thesis
      proof (cases "z_u z = Tagged Null GC_WHITE")
        case white: True
        have n: "Zv pz \<in> gc_nodes s" "col s (Zv pz) = GC_WHITE" using zval_task [OF i(1) v False] w white by auto
        have a: "addr s (Zv pz) = Some Null" using z white by (simp add: addr_def)
        obtain s1 where s1: "set_zval_color GC_BLACK pz s = Some s1" "frame s s1" "rc s1 = rc s" "col s1 = (col s)(Zv pz := GC_BLACK)"
          "zvals s1 = (zvals s)(pz \<mapsto> z_u_update (GC_SET_COLOR GC_BLACK) z)"
          using set_zval_color_step [OF v, of GC_BLACK] False z by (auto simp: frame_def)
        note sh = frameD(1) [OF s1(2)]
        have c: "col s1 = (col s)(Zv pz := gc_done (Zv pz))" using s1(4) by (simp add: gc.done_color_def)
        have inv1: "gather_inv P s1 fl"
          using inv frameD [OF s1(2)] chain_cong [of fl s1 s] s1(4) by (auto simp: gather_inv_def same_shapeD [OF sh])
        have "white_nodes s1 < white_nodes s" using white_nodes_less [OF n sh c] .
        then have IH: "gather_task P t s'" if "white_nodes s' \<le> white_nodes s1" for t and s' :: "'a gc_heap"
          using 1 [of s' t] that by simp
        have fl: "Zv pz \<notin> set fl" using i(3) n(2) by auto
        have z1: "zvals s1 pz = Some (z_u_update (GC_SET_COLOR GC_BLACK) z)" "\<not> is_global s1 pz" "col s1 (Zv pz) = GC_BLACK"
          using s1(4,5) False same_shapeD(7) [OF sh] by auto
        note g = gather_value [OF inv1 z1 fl IH, unfolded same_shapeD(12) [OF sh]]
        show ?thesis
          using gathers_visit [where n = "Zv pz" and X = "{}" and g = "set_zval_color GC_BLACK pz" and ?s1.0 = s1,
              OF n _ s1(1) sh frameD(2) [OF s1(2)] s1(3) c, of P _ fl] g white False a
          by (simp add: gathers_def collect_white_Zval [OF z])
      next
        case other: False
        then have "collect_white (Zval pz) s = Some s" by (simp add: collect_white_Zval [OF z])
        then show ?thesis using gathers_skip [OF inv, of "Zv pz"] w False other by (auto simp: gathers_def)
      qed
    qed
  qed
next
  case (2 h hs s)
  show ?case unfolding gather_task_def
  proof (intro allI impI)
    fix fl assume inv: "gather_inv P s fl" and t: "task_ok s (Store_object h hs)"
    have ok: "heap_ok s" using inv by (simp add: gather_inv_def)
    obtain ob where ob: "object_at s h = Some ob" "task_ok s (Entries (entries_of s h))" "gc_kids s (Ob h) = node_refs s (entries_of s h)"
      using object_task [OF ok t] by auto
    show "gathers P {} (task_refs s (Store_object h hs)) (task_nodes s (Store_object h hs)) (collect_white (Store_object h hs)) s fl"
    proof (cases "o_buffered ob = Tagged Null GC_WHITE")
      case True
      have "gathers P {} [] [Ob h] (\<lambda>s0. do { s1 \<leftarrow> set_object_color GC_PURPLE h s0; collect_white (Entries (entries_of s h)) s1 }) s fl"
      proof (rule gather_store_object [OF inv t ob(1) True])
        fix s' :: "'a gc_heap"
        assume s': "same_shape s s'" "gather_inv P s' fl" "white_nodes s' < white_nodes s"
        show "gathers P {} (gc_kids s (Ob h)) (gc_kids s (Ob h)) (collect_white (Entries (entries_of s h))) s' fl"
          using gather_taskE [OF 2 [OF s'(3)] s'(1,2) ob(2)] ob(3) by simp
      qed simp
      then show ?thesis using True by (simp add: gathers_def collect_white_Store_object [OF t ob(1)])
    next
      case False
      then have "collect_white (Store_object h hs) s = Some s" by (simp add: collect_white_Store_object [OF t ob(1)])
      then show ?thesis using gathers_skip [OF inv, of "Ob h"] exactly_white(2) [OF inv ob(1)] False by (auto simp: gathers_def)
    qed
  qed
next
  case (3 s)
  then show ?case using gathers_Nil [of P s] by (simp add: gather_task_def gathers_def collect_white_Entries)
next
  case (4 ps s)
  then show ?case by (simp add: gather_task_def gathers_def collect_white_Entries)
next
  case (5 pz ps s)
  then have "gathers P {} (node_refs s (Some pz # ps)) (node_refs s (Some pz # ps)) (collect_white (Entries (Some pz # ps))) s fl"
    if "gather_inv P s fl" "task_ok s (Entries (Some pz # ps))" for fl
    by (intro gather_entries [OF that]) auto
  then show ?case unfolding gather_task_def by simp
qed

end
