(* ===== verification/Zend_Gc_Buffer.thy ===== *)
theory Zend_Gc_Buffer
  imports Zend_Gc_Roots Zend_Gc_Scan Zend_Gc_Gather
begin

text \<open>
  The entries of the root buffer and the nodes they stand for: every entry of the ring is the
  address of its node, and no other node has an address.
\<close>

fun root_task :: "nat \<times> 'h root_u \<Rightarrow> 'h gc_task" where
  "root_task (h, Pz pz) = Zval pz"
| "root_task (h, Handlers hs) = Store_object h hs"

fun root_key :: "nat \<times> 'h root_u \<Rightarrow> gc_node" where
  "root_key (h, Pz pz) = Zv pz"
| "root_key (h, Handlers hs) = Ob h"

fun root_ok :: "'h gc_heap \<Rightarrow> nat \<times> 'h root_u \<Rightarrow> bool" where
  "root_ok s (h, Pz pz) = (h = 0 \<and> value_at s pz \<noteq> None)"
| "root_ok s (h, Handlers hs) = (h \<noteq> 0 \<and> (\<exists>v. object_info s h = Some (v, hs)))"

definition root_of :: "'h gc_globals \<Rightarrow> root_ptr \<Rightarrow> nat \<times> 'h root_u" where
  "root_of g x = the (root_data g x)"

definition node_of :: "'h gc_globals \<Rightarrow> root_ptr \<Rightarrow> gc_node" where
  "node_of g x = root_key (root_of g x)"

definition buffered :: "'h gc_globals \<Rightarrow> root_ptr list \<Rightarrow> bool" where
  "buffered g xs \<longleftrightarrow> ring g xs \<and> (\<forall>x\<in>set xs. root_data g x \<noteq> None \<and> root_ok (mem g) (root_of g x) \<and>
     addr (mem g) (node_of g x) = Some (Root x))"

definition buffer_inv :: "'h gc_globals \<Rightarrow> root_ptr list \<Rightarrow> bool" where
  "buffer_inv g xs \<longleftrightarrow> buffered g xs \<and> (\<forall>n a. addr (mem g) n = Some a \<longrightarrow> a \<noteq> Null \<longrightarrow> n \<in> node_of g ` set xs)"

text \<open>The nodes the entries lead to, without the global symbol table.\<close>

definition root_nodes :: "'h gc_globals \<Rightarrow> root_ptr list \<Rightarrow> gc_node list" where
  "root_nodes g xs = concat (map (\<lambda>x. task_nodes (mem g) (root_task (root_of g x))) xs)"

lemma root_nodes_simps [simp]: "root_nodes g [] = []"
    "root_nodes g (x # xs) = task_nodes (mem g) (root_task (root_of g x)) @ root_nodes g xs"
    "root_nodes g (xs @ ys) = root_nodes g xs @ root_nodes g ys"
  by (simp_all add: root_nodes_def)

lemma root_ok_task: "root_ok s d \<Longrightarrow> task_ok s (root_task d)"
  by (cases d rule: root_task.cases) auto

lemma task_refs_root [simp]: "task_refs s (root_task d) = []"
  by (cases d rule: root_task.cases) auto

lemma root_ok_node:
  assumes "root_ok s d" and "heap_ok s"
  shows "task_nodes s (root_task d) = (if root_key d \<in> gc_nodes s then [root_key d] else [])"
    and "root_key d \<notin> gc_nodes s \<Longrightarrow> col s (root_key d) = GC_BLACK"
  using assms by (cases d rule: root_task.cases; auto simp: gc_nodes_def col_def split: option.splits)+

lemma col_not_black: "heap_ok s \<Longrightarrow> col s n \<noteq> GC_BLACK \<Longrightarrow> n \<in> gc_nodes s"
  by (auto simp: col_def gc_nodes_def value_at_def object_info_def split: gc_node.splits option.splits if_splits)

lemma root_shape: "same_shape s s' \<Longrightarrow> root_ok s' d = root_ok s d"
  by (cases d rule: root_task.cases) (simp_all add: same_shapeD)

subsection \<open>The buffer and the heap\<close>

lemma mem_update [simp]:
  "root_at (g\<lparr>mem := m\<rparr>) p = root_at g p" "root_data (g\<lparr>mem := m\<rparr>) = root_data g"
  "next_of p (g\<lparr>mem := m\<rparr>) = next_of p g" "prev_of p (g\<lparr>mem := m\<rparr>) = prev_of p g"
  "ring (g\<lparr>mem := m\<rparr>) xs = ring g xs" "root_of (g\<lparr>mem := m\<rparr>) = root_of g" "node_of (g\<lparr>mem := m\<rparr>) = node_of g"
proof -
  show r: "root_at (g\<lparr>mem := m\<rparr>) p = root_at g p" for p by (cases p) simp_all
  show d: "root_data (g\<lparr>mem := m\<rparr>) = root_data g" by (simp add: root_data_def r fun_eq_iff)
  show n: "next_of p (g\<lparr>mem := m\<rparr>) = next_of p g" "prev_of p (g\<lparr>mem := m\<rparr>) = prev_of p g" for p
    by (simp_all add: next_of_def prev_of_def r)
  show "ring (g\<lparr>mem := m\<rparr>) xs = ring g xs" by (simp add: ring_def n)
  show "root_of (g\<lparr>mem := m\<rparr>) = root_of g" "node_of (g\<lparr>mem := m\<rparr>) = node_of g"
    by (simp_all add: root_of_def node_of_def d fun_eq_iff)
qed

lemma on_mem_Some: "f (mem g) = Some m \<Longrightarrow> on_mem f g = Some (g\<lparr>mem := m\<rparr>)"
  by (simp add: on_mem_def)

definition settings :: "'h gc_globals \<Rightarrow> bool \<times> bool \<times> nat \<times> nat \<times> gc_address \<times> gc_address \<times> uint \<times> uint \<times> nat option" where
  "settings g = (gc_enabled g, gc_active g, first_unused g, last_unused g, free_list g, next_to_free g, gc_runs g,
     collected g, map_option length (buf g))"

lemma settings_mem [simp]: "settings (g\<lparr>mem := m\<rparr>) = settings g"
  by (simp add: settings_def)

lemma same_rest_settings: "same_rest g g' \<Longrightarrow> settings g' = settings g \<and> mem g' = mem g"
  by (simp add: same_rest_def settings_def)

text \<open>Giving a node another address.\<close>

definition readdressed :: "gc_node \<Rightarrow> gc_address \<Rightarrow> 'h gc_heap \<Rightarrow> 'h gc_heap \<Rightarrow> bool" where
  "readdressed n a s s' \<longleftrightarrow> same_shape s s' \<and> col s' = col s \<and> rc s' = rc s \<and> addr s' = (addr s)(n := Some a) \<and>
     zval_to_free s' = zval_to_free s \<and> (globals_quiet s \<longrightarrow> globals_quiet s')"

lemma set_zval_address_step:
  assumes "value_at s p \<noteq> None"
  shows "\<exists>s'. set_zval_address a p s = Some s' \<and> readdressed (Zv p) a s s'"
proof -
  obtain z where z: "zvals s p = Some z" using value_at_Some [OF assms] by blast
  let ?s = "s\<lparr>zvals := (zvals s)(p \<mapsto> z_u_update (GC_SET_ADDRESS a) z)\<rparr>"
  have e: "set_zval_address a p s = Some ?s" using z by (simp add: set_zval_address_def change_zval_Some)
  have sh: "same_shape s ?s" using change_zval_shape [OF z, of "z_u_update (GC_SET_ADDRESS a)"] by simp
  have g: "is_global ?s = is_global s" using sh by (rule same_shapeD)
  have o: "object_at ?s = object_at s" by (simp add: object_at_def fun_eq_iff)
  have "col ?s = col s" "rc ?s = rc s" "addr ?s = (addr s)(Zv p := Some a)" using z
    by (auto simp: fun_eq_iff addr_def rc_def col_def g o split: gc_node.split option.split)
  moreover have "globals_quiet s \<longrightarrow> globals_quiet ?s" using z by (auto simp: globals_quiet_def g)
  ultimately show ?thesis using e sh by (auto simp: readdressed_def)
qed

lemma set_object_address_step:
  assumes "object_info s h \<noteq> None"
  shows "\<exists>s'. set_object_address a h s = Some s' \<and> readdressed (Ob h) a s s'"
proof -
  obtain ob where ob: "object_at s h = Some ob" using assms by (auto simp: object_info_def)
  obtain bs where bs: "set_object_address a h s = Some (s\<lparr>objects := Some bs\<rparr>)"
    "\<forall>k. object_at (s\<lparr>objects := Some bs\<rparr>) k = (if k = h then Some (o_buffered_update (GC_SET_ADDRESS a) ob) else object_at s k)"
    using change_object_Some [OF ob] unfolding set_object_address_def by blast
  let ?s = "s\<lparr>objects := Some bs\<rparr>"
  have ne: "objects s \<noteq> None" using ob by (auto simp: object_at_def slot_def split: option.splits)
  have sh: "same_shape s ?s" using bs(2) ob ne by (auto simp: same_shape_def value_at_def object_info_def fun_eq_iff)
  have g: "is_global ?s = is_global s" using sh by (rule same_shapeD)
  have "addr ?s = (addr s)(Ob h := Some a)" "rc ?s = rc s" "col ?s = col s" "globals_quiet ?s = globals_quiet s" using bs(2) ob
    by (auto simp: fun_eq_iff addr_def rc_def col_def g globals_quiet_def split: gc_node.split option.split)
  then show ?thesis using bs(1) sh by (auto simp: readdressed_def)
qed

definition set_root_address :: "gc_address \<Rightarrow> nat \<times> 'h root_u \<Rightarrow> 'h gc_heap \<Rightarrow> 'h gc_heap option" where
  "set_root_address a d = (case d of (h, Pz pz) \<Rightarrow> set_zval_address a pz | (h, Handlers hs) \<Rightarrow> set_object_address a h)"

lemma set_root_address_step: "root_ok s d \<Longrightarrow> \<exists>s'. set_root_address a d s = Some s' \<and> readdressed (root_key d) a s s'"
  using set_zval_address_step [of s _ a] set_object_address_step [of s _ a]
  by (cases d rule: root_task.cases) (auto simp: set_root_address_def)

subsection \<open>What keeps the buffer\<close>

lemma buffer_frame:
  assumes "buffer_inv g xs" and "frame (mem g) s'"
  shows "buffer_inv (g\<lparr>mem := s'\<rparr>) xs"
  using assms frameD(2) [OF assms(2)] root_shape [OF frameD(1) [OF assms(2)]] by (simp add: buffer_inv_def buffered_def)

lemma buffered_keys:
  assumes "buffered g (xs @ x # ys)"
  shows "z \<in> set (xs @ ys) \<Longrightarrow> node_of g z \<noteq> node_of g x" and "next_of x g = Some (hd (ys @ [Roots]))"
proof -
  have d: "distinct (xs @ x # ys)" "addr (mem g) (node_of g x) = Some (Root x)" using assms by (auto simp: buffered_def ring_def)
  show "node_of g z \<noteq> node_of g x" if "z \<in> set (xs @ ys)"
  proof
    assume e: "node_of g z = node_of g x"
    have "addr (mem g) (node_of g z) = Some (Root z)" "z \<noteq> x" using that d(1) assms by (auto simp: buffered_def)
    then show False using d(2) unfolding e by simp
  qed
  show "next_of x g = Some (hd (ys @ [Roots]))"
    using ring_split [of g xs x ys] assms by (metis buffered_def)
qed

lemma buffered_remove:
  assumes "buffered g (xs @ x # ys)" and "\<forall>z\<in>set (xs @ ys). root_ok s' (root_of g z) \<and> addr s' (node_of g z) = Some (Root z)"
  shows "\<exists>g'. gc_remove_from_buffer x (g\<lparr>mem := s'\<rparr>) = Some g' \<and> buffered g' (xs @ ys) \<and> next_of x g' = Some (hd (ys @ [Roots])) \<and>
    mem g' = s' \<and> root_of g' = root_of g \<and> node_of g' = node_of g \<and> settings g' = settings g"
proof -
  have "ring (g\<lparr>mem := s'\<rparr>) (xs @ x # ys)" using assms(1) by (simp add: buffered_def)
  from gc_remove_from_buffer_ring [OF this] obtain g' where g': "gc_remove_from_buffer x (g\<lparr>mem := s'\<rparr>) = Some g'"
    "ring g' (xs @ ys)" "next_of x g' = Some (hd (ys @ [Roots]))" "root_data g' = root_data g" "same_rest (g\<lparr>mem := s'\<rparr>) g'"
    by auto
  have n: "root_of g' = root_of g" "node_of g' = node_of g" by (simp_all add: fun_eq_iff root_of_def node_of_def g'(4))
  have "buffered g' (xs @ ys)" using assms g'(2,4) n same_rest_settings [OF g'(5)] by (auto simp: buffered_def)
  then show ?thesis using g' n same_rest_settings [OF g'(5)] by auto
qed

lemma buffer_remove:
  assumes "buffer_inv g (xs @ x # ys)" and "readdressed (node_of g x) Null (mem g) s'"
  shows "\<exists>g'. gc_remove_from_buffer x (g\<lparr>mem := s'\<rparr>) = Some g' \<and> buffer_inv g' (xs @ ys) \<and> next_of x g' = Some (hd (ys @ [Roots])) \<and>
    mem g' = s' \<and> root_of g' = root_of g \<and> node_of g' = node_of g \<and> settings g' = settings g"
proof -
  have b: "buffered g (xs @ x # ys)" using assms(1) by (simp add: buffer_inv_def)
  have s: "same_shape (mem g) s'" "addr s' = (addr (mem g))(node_of g x := Some Null)" using assms(2) by (simp_all add: readdressed_def)
  have "\<forall>z\<in>set (xs @ ys). root_ok s' (root_of g z) \<and> addr s' (node_of g z) = Some (Root z)"
    using b buffered_keys(1) [OF b] s root_shape [OF s(1)] by (auto simp: buffered_def)
  from buffered_remove [OF b this] obtain g' where g': "gc_remove_from_buffer x (g\<lparr>mem := s'\<rparr>) = Some g'"
    "buffered g' (xs @ ys)" "next_of x g' = Some (hd (ys @ [Roots]))" "mem g' = s'" "root_of g' = root_of g" "node_of g' = node_of g"
    "settings g' = settings g"
    by blast
  have "buffer_inv g' (xs @ ys)" using assms(1) g'(2,4,6) s(2) by (auto simp: buffer_inv_def split: if_splits)
  then show ?thesis using g' by blast
qed

end
