(* ===== verification/Zend_Gc_Phases.thy ===== *)
theory Zend_Gc_Phases
  imports Zend_Gc_Buffer
begin

text \<open>The three phases over the ring of roots.\<close>

definition root_color :: "'h gc_heap \<Rightarrow> nat \<times> 'h root_u \<Rightarrow> gc_color option" where
  "root_color s d = (case d of
     (h, Pz pz) \<Rightarrow> map_option (\<lambda>z. GC_GET_COLOR (z_u z)) (zvals s pz)
   | (h, Handlers hs) \<Rightarrow> map_option (\<lambda>ob. GC_GET_COLOR (o_buffered ob)) (object_at s h))"

lemma root_color_node:
  assumes "root_ok s d" and "root_key d \<in> gc_nodes s"
  shows "root_color s d = Some (col s (root_key d))"
  using assms by (cases d rule: root_task.cases)
    (auto simp: root_color_def col_def gc_nodes_def value_at_def object_info_def split: if_splits)

lemma root_at_data:
  assumes "root_data g x \<noteq> None"
  obtains r where "root_at g x = Some r" and "root_of g x = (r_handle r, r_u r)" and "x \<noteq> Roots"
  using assms by (cases "root_at g x"; cases x) (auto simp: root_data_def root_of_def)

lemma mark_roots_loop_Roots: "mark_roots_loop Roots g = Some g"
  by (subst mark_roots_loop.simps) simp

lemma mark_roots_loop_entry:
  assumes "root_data g x \<noteq> None" and "root_ok (mem g) (root_of g x)"
  shows "mark_roots_loop x g = do {
     g \<leftarrow> (if root_color (mem g) (root_of g x) = Some GC_PURPLE then on_mem (mark_grey (root_task (root_of g x))) g
          else do { g1 \<leftarrow> on_mem (set_root_address Null (root_of g x)) g; gc_remove_from_buffer x g1 });
     nxt \<leftarrow> next_of x g;
     mark_roots_loop nxt g }"
proof -
  obtain r where r: "root_at g x = Some r" "root_of g x = (r_handle r, r_u r)" "x \<noteq> Roots" using root_at_data [OF assms(1)] .
  show ?thesis
  proof (cases "r_u r")
    case (Pz pz)
    then obtain z where "zvals (mem g) pz = Some z" "r_handle r = 0" using assms(2) r(2) value_at_Some [of "mem g" pz] by auto
    then show ?thesis using r Pz
      by (subst mark_roots_loop.simps) (simp add: root_color_def set_root_address_def zval_mark_grey_def)
  next
    case (Handlers hs)
    then obtain v where v: "r_handle r \<noteq> 0" "object_info (mem g) (r_handle r) = Some (v, hs)" using assms(2) r(2) by auto
    then obtain ob where ob: "object_at (mem g) (r_handle r) = Some ob" by (auto simp: object_info_def)
    then obtain bs where "objects (mem g) = Some bs" by (auto simp: object_at_Some)
    then show ?thesis using r Handlers v ob
      by (subst mark_roots_loop.simps) (simp add: root_color_def set_root_address_def zobj_mark_grey_def)
  qed
qed

text \<open>Entries that keep the shape of the heap and the data of the buffer.\<close>

definition later :: "'h gc_globals \<Rightarrow> 'h gc_globals \<Rightarrow> bool" where
  "later g g' \<longleftrightarrow> same_shape (mem g) (mem g') \<and> root_of g' = root_of g \<and> settings g' = settings g \<and>
     (globals_quiet (mem g) \<longrightarrow> globals_quiet (mem g'))"

lemma later_refl [simp]: "later g g"
  by (simp add: later_def)

lemma later_trans: "later g g1 \<Longrightarrow> later g1 g2 \<Longrightarrow> later g g2"
  by (auto simp: later_def intro: same_shape_trans)

lemma later_same:
  assumes "later g g'"
  shows "node_of g' = node_of g" and "root_nodes g' = root_nodes g" and "gc_nodes (mem g') = gc_nodes (mem g)"
    and "gc_kids (mem g') = gc_kids (mem g)" and "heap_ok (mem g') = heap_ok (mem g)"
proof -
  have s: "same_shape (mem g) (mem g')" "root_of g' = root_of g" using assms by (simp_all add: later_def)
  show "node_of g' = node_of g" by (simp add: node_of_def s(2) fun_eq_iff)
  show "root_nodes g' = root_nodes g" by (simp add: root_nodes_def s(2) task_shape [OF s(1)] fun_eq_iff)
  show "gc_nodes (mem g') = gc_nodes (mem g)" "gc_kids (mem g') = gc_kids (mem g)" "heap_ok (mem g') = heap_ok (mem g)"
    using same_shapeD [OF s(1)] by auto
qed

lemma later_frame: "frame (mem g) s' \<Longrightarrow> later g (g\<lparr>mem := s'\<rparr>)"
  by (simp add: later_def frame_def)

lemma later_readdressed: "readdressed n a (mem g) (mem g') \<Longrightarrow> root_of g' = root_of g \<Longrightarrow> settings g' = settings g \<Longrightarrow> later g g'"
  by (simp add: later_def readdressed_def)

subsection \<open>The first phase\<close>

text \<open>One entry: a purple one stays and everything it reaches becomes grey, another one leaves.\<close>

lemma mark_roots_entry:
  assumes "heap_ok (mem g)" and "buffer_inv g (ks @ x # zs)"
  shows "\<exists>g1 ks1. mark_roots_loop x g = mark_roots_loop (hd (zs @ [Roots])) g1 \<and> buffer_inv g1 ((ks @ ks1) @ zs) \<and> later g g1 \<and>
    set ks1 \<subseteq> {x} \<and> zval_to_free (mem g1) = zval_to_free (mem g) \<and> (\<forall>n\<in>set (root_nodes g ks1). col (mem g) n = GC_PURPLE) \<and>
    gc_paint (mem g) GC_GREY (- 1) [] (root_nodes g ks1) (col (mem g)) (rc (mem g)) (col (mem g1)) (rc (mem g1)) \<and>
    (col (mem g) (node_of g x) \<in> {GC_GREY, GC_PURPLE} \<longrightarrow> col (mem g1) (node_of g x) = GC_GREY)"
proof -
  have b: "buffered g (ks @ x # zs)" using assms(2) by (simp add: buffer_inv_def)
  have x: "root_data g x \<noteq> None" "root_ok (mem g) (root_of g x)" using b by (simp_all add: buffered_def)
  note entry = mark_roots_loop_entry [OF x] and nx = buffered_keys(2) [OF b]
  note node = root_ok_node [OF x(2) assms(1)] and c = root_color_node [OF x(2)]
  have t: "task_ok (mem g) (root_task (root_of g x))" using root_ok_task [OF x(2)] .
  show ?thesis
  proof (cases "root_color (mem g) (root_of g x) = Some GC_PURPLE")
    case True
    obtain s1 where s1: "mark_grey (root_task (root_of g x)) (mem g) = Some s1" "frame (mem g) s1"
      "gc_paint (mem g) GC_GREY (- 1) [] (root_nodes g [x]) (col (mem g)) (rc (mem g)) (col s1) (rc s1)"
      using mark_grey_paints [OF assms(1) t] by (auto simp: paints_def)
    have "node_of g x \<notin> gc_nodes (mem g) \<or> col s1 (node_of g x) = GC_GREY"
      using s1(3) node(1) by (auto simp: gc.paint_def node_of_def)
    then have "col (mem g) (node_of g x) \<in> {GC_GREY, GC_PURPLE} \<longrightarrow> col s1 (node_of g x) = GC_GREY"
      using node(2) by (auto simp: node_of_def)
    moreover have "\<forall>n\<in>set (root_nodes g [x]). col (mem g) n = GC_PURPLE" using True c node(1) by auto
    moreover note s1(3)
    ultimately show ?thesis using entry True s1(1,2) nx buffer_frame [OF assms(2) s1(2)] later_frame [OF s1(2)] frameD(3) [OF s1(2)]
      by (intro exI [of _ "g\<lparr>mem := s1\<rparr>"] exI [of _ "[x]"] conjI) (simp_all add: on_mem_Some)
  next
    case False
    obtain s1 where s1: "set_root_address Null (root_of g x) (mem g) = Some s1" "readdressed (node_of g x) Null (mem g) s1"
      using set_root_address_step [OF x(2)] by (auto simp: node_of_def)
    obtain g1 where g1: "gc_remove_from_buffer x (g\<lparr>mem := s1\<rparr>) = Some g1" "buffer_inv g1 (ks @ zs)"
      "next_of x g1 = Some (hd (zs @ [Roots]))" "mem g1 = s1" "root_of g1 = root_of g" "settings g1 = settings g"
      using buffer_remove [OF assms(2) s1(2)] by blast
    have "col (mem g) (node_of g x) \<noteq> GC_PURPLE" using False c node(2)
      unfolding node_of_def by (cases "root_key (root_of g x) \<in> gc_nodes (mem g)") simp_all
    moreover have "col s1 = col (mem g)" "rc s1 = rc (mem g)" "zval_to_free s1 = zval_to_free (mem g)"
      using s1(2) by (simp_all add: readdressed_def)
    ultimately show ?thesis using entry False s1 g1 gc.paint_Nil later_readdressed [of "node_of g x" Null g g1]
      by (intro exI [of _ g1] exI [of _ "[]"]) (simp add: on_mem_Some)
  qed
qed

lemma mark_roots_loop_paints:
  assumes "heap_ok (mem g)" and "buffer_inv g (ks @ zs)"
  shows "\<exists>g' ks'. mark_roots_loop (hd (zs @ [Roots])) g = Some g' \<and> buffer_inv g' (ks @ ks') \<and> later g g' \<and> set ks' \<subseteq> set zs \<and>
    zval_to_free (mem g') = zval_to_free (mem g) \<and> (\<forall>n\<in>set (root_nodes g ks'). col (mem g) n = GC_PURPLE) \<and>
    gc_paint (mem g) GC_GREY (- 1) [] (root_nodes g ks') (col (mem g)) (rc (mem g)) (col (mem g')) (rc (mem g')) \<and>
    (\<forall>z\<in>set zs. col (mem g) (node_of g z) \<in> {GC_GREY, GC_PURPLE} \<longrightarrow> col (mem g') (node_of g z) = GC_GREY)"
  using assms
proof (induction zs arbitrary: g ks)
  case Nil
  then show ?case by (auto simp: mark_roots_loop_Roots gc.paint_Nil intro: exI [of _ "[]"])
next
  case (Cons x zs)
  obtain g1 ks1 where g1: "mark_roots_loop x g = mark_roots_loop (hd (zs @ [Roots])) g1" "buffer_inv g1 ((ks @ ks1) @ zs)" "later g g1"
    "set ks1 \<subseteq> {x}" "zval_to_free (mem g1) = zval_to_free (mem g)" "\<forall>n\<in>set (root_nodes g ks1). col (mem g) n = GC_PURPLE"
    "gc_paint (mem g) GC_GREY (- 1) [] (root_nodes g ks1) (col (mem g)) (rc (mem g)) (col (mem g1)) (rc (mem g1))"
    "col (mem g) (node_of g x) \<in> {GC_GREY, GC_PURPLE} \<longrightarrow> col (mem g1) (node_of g x) = GC_GREY"
    using mark_roots_entry [OF Cons.prems] by blast
  note same = later_same [OF g1(3)]
  have ok1: "heap_ok (mem g1)" using Cons.prems(1) same(5) by simp
  obtain g2 ks2 where g2: "mark_roots_loop (hd (zs @ [Roots])) g1 = Some g2" "buffer_inv g2 ((ks @ ks1) @ ks2)" "later g1 g2"
    "set ks2 \<subseteq> set zs" "zval_to_free (mem g2) = zval_to_free (mem g1)" "\<forall>n\<in>set (root_nodes g ks2). col (mem g1) n = GC_PURPLE"
    "gc_paint (mem g) GC_GREY (- 1) [] (root_nodes g ks2) (col (mem g1)) (rc (mem g1)) (col (mem g2)) (rc (mem g2))"
    "\<forall>z\<in>set zs. col (mem g1) (node_of g z) \<in> {GC_GREY, GC_PURPLE} \<longrightarrow> col (mem g2) (node_of g z) = GC_GREY"
    using Cons.IH [OF ok1 g1(2)] unfolding same by blast
  have p: "gc_paint (mem g) GC_GREY (- 1) [] (root_nodes g (ks1 @ ks2)) (col (mem g)) (rc (mem g)) (col (mem g2)) (rc (mem g2))"
    using gc.paint_roots [OF g1(7) g2(7)] by simp
  have c1: "col (mem g1) n = (if col (mem g1) n = GC_GREY then GC_GREY else col (mem g) n)" for n
    using g1(7) by (auto simp: gc.paint_def)
  have k: "\<forall>n\<in>set (root_nodes g (ks1 @ ks2)). col (mem g) n = GC_PURPLE" using g1(6) g2(6) c1
    by (metis UnE gc_color.distinct(11) root_nodes_simps(3) set_append)
  have "col (mem g2) (node_of g z) = GC_GREY" if "z \<in> set (x # zs)" "col (mem g) (node_of g z) \<in> {GC_GREY, GC_PURPLE}" for z
    using that g1(8) g2(8) gc.paint_keeps [OF g2(7), of "node_of g z"] c1 [of "node_of g z"] by auto
  then show ?case using g1(1-5) g2(1-5) p k later_trans [OF g1(3) g2(3)]
    by (intro exI [of _ g2] exI [of _ "ks1 @ ks2"]) auto
qed

text \<open>What the purple entries reach.\<close>

definition candidates :: "'h gc_globals \<Rightarrow> root_ptr list \<Rightarrow> gc_node set" where
  "candidates g xs = {m. \<exists>x\<in>set xs. col (mem g) (node_of g x) = GC_PURPLE \<and> gc_reach (mem g) (node_of g x) m}"

lemma candidates_part:
  assumes "heap_ok (mem g)"
  shows "gc_part (mem g) (candidates g xs)"
  unfolding gc.part_def candidates_def
  using col_not_black [OF assms] gc.reach_nodes gc.reach_step by fastforce

lemma gc_mark_roots_marks:
  assumes "heap_ok (mem g)" and "buffer_inv g xs" and "\<forall>n. col (mem g) n \<noteq> GC_GREY"
  defines "G \<equiv> candidates g xs"
  shows "\<exists>g' ks. gc_mark_roots g = Some g' \<and> buffer_inv g' ks \<and> later g g' \<and> set ks \<subseteq> set xs \<and>
    zval_to_free (mem g') = zval_to_free (mem g) \<and> set (root_nodes g ks) \<subseteq> G \<and> (\<forall>m\<in>G. \<exists>n\<in>set (root_nodes g ks). gc_reach (mem g) n m) \<and>
    col (mem g') = (\<lambda>n. if n \<in> G then GC_GREY else col (mem g) n) \<and>
    (\<forall>n. rc (mem g') n = rc (mem g) n - gc_edges (mem g) G n)"
proof -
  have "roots_next g = hd (xs @ [Roots])" using assms(2) by (cases xs) (auto simp: buffer_inv_def buffered_def ring_def next_of_def)
  then obtain g' ks where g': "gc_mark_roots g = Some g'" "buffer_inv g' ks" "later g g'" "set ks \<subseteq> set xs"
    "zval_to_free (mem g') = zval_to_free (mem g)" "\<forall>n\<in>set (root_nodes g ks). col (mem g) n = GC_PURPLE"
    "gc_paint (mem g) GC_GREY (- 1) [] (root_nodes g ks) (col (mem g)) (rc (mem g)) (col (mem g')) (rc (mem g'))"
    "\<forall>x\<in>set xs. col (mem g) (node_of g x) \<in> {GC_GREY, GC_PURPLE} \<longrightarrow> col (mem g') (node_of g x) = GC_GREY"
    using mark_roots_loop_paints [OF assms(1), of "[]" xs] assms(2) unfolding gc_mark_roots_def by auto
  obtain N where N: "N \<subseteq> gc_nodes (mem g)" "col (mem g') = (\<lambda>x. if x \<in> N then GC_GREY else col (mem g) x)"
    "\<forall>x. rc (mem g') x = rc (mem g) x - gc_edges (mem g) N x" "\<forall>m\<in>N. \<forall>k\<in>set (gc_kids (mem g) m). col (mem g') k = GC_GREY"
    "\<forall>n\<in>set (root_nodes g ks). col (mem g') n = GC_GREY" "\<forall>m\<in>N. \<exists>n\<in>set (root_nodes g ks). gc_reach (mem g) n m"
    using g'(7) by (auto simp: gc.paint_def)
  have inN: "n \<in> N" if "col (mem g') n = GC_GREY" for n using that N(2) assms(3) by (auto split: if_splits)
  have rn: "n \<in> node_of g ` set ks" if n: "n \<in> set (root_nodes g ks)" for n
  proof -
    obtain x where x: "x \<in> set ks" "n \<in> set (task_nodes (mem g) (root_task (root_of g x)))" using n unfolding root_nodes_def by auto
    have "root_ok (mem g) (root_of g x)" using x(1) g'(4) assms(2) by (auto simp: buffer_inv_def buffered_def)
    then have "n = node_of g x" using root_ok_node(1) [OF _ assms(1)] x(2) by (auto simp: node_of_def split: if_splits)
    then show ?thesis using x(1) by simp
  qed
  have "N = G"
  proof
    show "N \<subseteq> G"
    proof
      fix m assume "m \<in> N"
      then obtain n where n: "n \<in> set (root_nodes g ks)" "gc_reach (mem g) n m" using N(6) by blast
      then obtain x where "x \<in> set ks" "n = node_of g x" using rn by blast
      then show "m \<in> G" using n g'(4,6) by (auto simp: G_def candidates_def)
    qed
    show "G \<subseteq> N"
    proof
      fix m assume "m \<in> G"
      then obtain x where x: "x \<in> set xs" "col (mem g) (node_of g x) = GC_PURPLE" "gc_reach (mem g) (node_of g x) m"
        by (auto simp: G_def candidates_def)
      then have "node_of g x \<in> N" using g'(8) inN by auto
      then show "m \<in> N" using N(4) inN by (intro gc.reach_closed [OF x(3)]) auto
    qed
  qed
  moreover have "set (root_nodes g ks) \<subseteq> N" using N(5) inN by blast
  ultimately show ?thesis using g'(1-5) N(2,3,6) by blast
qed

subsection \<open>The second phase\<close>

lemma scan_roots_loop_Roots: "scan_roots_loop Roots g = Some g"
  by (subst scan_roots_loop.simps) simp

lemma scan_roots_loop_entry:
  assumes "root_data g x \<noteq> None" and "root_ok (mem g) (root_of g x)"
  shows "scan_roots_loop x g = do {
     g \<leftarrow> on_mem (scan_grey (root_task (root_of g x))) g; nxt \<leftarrow> next_of x g; scan_roots_loop nxt g }"
proof -
  obtain r where r: "root_at g x = Some r" "root_of g x = (r_handle r, r_u r)" "x \<noteq> Roots" using root_at_data [OF assms(1)] .
  show ?thesis
  proof (cases "r_u r")
    case (Pz pz)
    then show ?thesis using r assms(2) by (subst scan_roots_loop.simps) (simp add: zval_scan_def)
  next
    case (Handlers hs)
    then obtain bs where "objects (mem g) = Some bs" using assms(2) r(2) by (auto simp: object_info_def object_at_Some)
    then show ?thesis using r Handlers assms(2) by (subst scan_roots_loop.simps) (simp add: zobj_scan_def on_mem_def)
  qed
qed

lemma scan_roots_loop_scans:
  assumes "heap_ok (mem g)" and "globals_quiet (mem g)" and "buffer_inv g (ks @ zs)" and "gc_part (mem g) G"
    and "set (root_nodes g zs) \<subseteq> G" and "gc_at_rest (mem g) G rcm (col (mem g)) (rc (mem g))"
  shows "\<exists>g'. scan_roots_loop (hd (zs @ [Roots])) g = Some g' \<and> buffer_inv g' (ks @ zs) \<and> later g g' \<and>
    zval_to_free (mem g') = zval_to_free (mem g) \<and> gc_at_rest (mem g) G rcm (col (mem g')) (rc (mem g')) \<and>
    gc_scanned (mem g) G (root_nodes g zs) (col (mem g)) (col (mem g'))"
  using assms
proof (induction zs arbitrary: g ks)
  case Nil
  then show ?case by (simp add: scan_roots_loop_Roots gc.scanned_Nil)
next
  case (Cons x zs)
  have b: "buffered g (ks @ x # zs)" using Cons.prems(3) by (simp add: buffer_inv_def)
  have x: "root_data g x \<noteq> None" "root_ok (mem g) (root_of g x)" using b by (simp_all add: buffered_def)
  have "scan_start G rcm (root_task (root_of g x)) (mem g)"
    using Cons.prems root_ok_task [OF x(2)] by (simp add: scan_start_def)
  then obtain s1 where s1: "scan_grey (root_task (root_of g x)) (mem g) = Some s1" "frame (mem g) s1"
    "gc_at_rest (mem g) G rcm (col s1) (rc s1)" "gc_scanned (mem g) G (root_nodes g [x]) (col (mem g)) (col s1)"
    using scan_grey_scans [of G rcm _ "mem g"] by (auto simp: scans_def)
  let ?g = "g\<lparr>mem := s1\<rparr>"
  have l: "later g ?g" using later_frame [OF s1(2)] .
  note same = later_same [OF l]
  have b1: "buffer_inv ?g ((ks @ [x]) @ zs)" using buffer_frame [OF Cons.prems(3) s1(2)] by simp
  have q: "heap_ok s1" "globals_quiet s1" using Cons.prems(1,2) same(5) frameD(4) [OF s1(2)] by simp_all
  obtain g2 where g2: "scan_roots_loop (hd (zs @ [Roots])) ?g = Some g2" "buffer_inv g2 ((ks @ [x]) @ zs)" "later ?g g2"
    "zval_to_free (mem g2) = zval_to_free s1" "gc_at_rest (mem g) G rcm (col (mem g2)) (rc (mem g2))"
    "gc_scanned (mem g) G (root_nodes g zs) (col s1) (col (mem g2))"
    using Cons.IH [OF _ _ b1] Cons.prems(1,4,5) s1(3) q unfolding same by auto
  have "scan_roots_loop x g = Some g2"
    using scan_roots_loop_entry [OF x] s1(1) g2(1) buffered_keys(2) [OF b] by (simp add: on_mem_Some)
  then show ?case using g2 later_trans [OF l g2(3)] frameD(3) [OF s1(2)] gc.scanned_append [OF s1(4) g2(6)] by auto
qed

subsection \<open>The third phase\<close>

lemma collect_roots_loop_Roots: "collect_roots_loop Roots g = Some g"
  by (subst collect_roots_loop.simps) simp

lemma collect_roots_loop_entry:
  assumes "root_data g x \<noteq> None" and "root_ok (mem g) (root_of g x)" and "set_root_address Null (root_of g x) (mem g) = Some s1"
    and "same_shape (mem g) s1"
  shows "collect_roots_loop x g = do {
     s2 \<leftarrow> collect_white (root_task (root_of g x)) s1;
     g1 \<leftarrow> gc_remove_from_buffer x (g\<lparr>mem := s2\<rparr>);
     nxt \<leftarrow> next_of x g1;
     collect_roots_loop nxt g1 }"
proof -
  obtain r where r: "root_at g x = Some r" "root_of g x = (r_handle r, r_u r)" "x \<noteq> Roots" using root_at_data [OF assms(1)] .
  show ?thesis
  proof (cases "r_u r")
    case (Pz pz)
    then show ?thesis using r assms(2,3)
      by (subst collect_roots_loop.simps) (simp add: zval_collect_white_def set_root_address_def on_mem_def)
  next
    case (Handlers hs)
    then obtain bs where "objects (mem g) = Some bs" using assms(2) r(2) by (auto simp: object_info_def object_at_Some)
    then show ?thesis using r Handlers assms(2,3) same_shapeD(6) [OF assms(4)]
      by (subst collect_roots_loop.simps) (auto simp: zobj_collect_white_def set_root_address_def on_mem_def)
  qed
qed

lemma chain_addr: "chain s a ns \<Longrightarrow> n \<in> set ns \<Longrightarrow> addr s n = Some Free_list_end \<or> (\<exists>p. addr s n = Some (Next_zval p))"
proof (induction ns arbitrary: a)
  case (Cons m ns)
  then show ?case by (cases ns) auto
qed simp

text \<open>Between two entries: the roots still to come have their address, the zvals on the list theirs.\<close>

definition collecting :: "'h gc_globals \<Rightarrow> root_ptr list \<Rightarrow> gc_node list \<Rightarrow> bool" where
  "collecting g zs fl \<longleftrightarrow> buffered g zs \<and> gather_inv (node_of g ` set zs) (mem g) fl \<and>
     (\<forall>n a. addr (mem g) n = Some a \<longrightarrow> a \<noteq> Null \<longrightarrow> n \<in> set fl \<or> n \<in> node_of g ` set zs)"

lemma gather_fewer:
  assumes "gc_gather s P X rs ns c r fl c' r' fl'" and "c' n \<noteq> GC_WHITE"
  shows "gc_gather s (P - {n}) X rs ns c r fl c' r' fl'"
proof -
  have "c' k \<noteq> GC_WHITE \<or> k \<in> P \<longleftrightarrow> c' k \<noteq> GC_WHITE \<or> k \<in> P - {n}" for k using assms(2) by auto
  then show ?thesis using assms(1) unfolding gc.gather_def by simp
qed

text \<open>One entry: what it still is the only one to keep is gathered, and the entry leaves.\<close>

lemma collect_roots_entry:
  assumes "collecting g (x # zs) fl"
  shows "\<exists>g1 fl1. collect_roots_loop x g = collect_roots_loop (hd (zs @ [Roots])) g1 \<and> collecting g1 zs fl1 \<and> later g g1 \<and>
    gc_gather (mem g) (node_of g ` set zs) {} [] (root_nodes g [x]) (col (mem g)) (rc (mem g)) fl (col (mem g1)) (rc (mem g1)) fl1"
proof -
  let ?s = "mem g" and ?n = "node_of g x" and ?P = "node_of g ` set zs"
  have b: "buffered g ([] @ x # zs)" using assms by (simp add: collecting_def)
  have x: "root_data g x \<noteq> None" "root_ok ?s (root_of g x)" "addr ?s ?n = Some (Root x)" using b by (simp_all add: buffered_def)
  have inv: "gather_inv (insert ?n ?P) ?s fl" using assms by (simp add: collecting_def)
  then have ok: "heap_ok ?s" by (simp add: gather_inv_def)
  have other: "z \<in> set zs \<Longrightarrow> node_of g z \<noteq> ?n" for z using buffered_keys(1) [OF b] by simp
  obtain s1 where s1: "set_root_address Null (root_of g x) ?s = Some s1" "readdressed ?n Null ?s s1"
    using set_root_address_step [OF x(2)] by (auto simp: node_of_def)
  have sh: "same_shape ?s s1" "col s1 = col ?s" "rc s1 = rc ?s" "addr s1 = (addr ?s)(?n := Some Null)"
    "zval_to_free s1 = zval_to_free ?s" "globals_quiet s1"
    using s1(2) inv by (simp_all add: readdressed_def gather_inv_def)
  have chained: "chain ?s (zval_to_free ?s) fl" using inv by (simp add: gather_inv_def)
  have unlisted: "addr ?s m = Some (Root z) \<Longrightarrow> m \<notin> set fl" for m z using chain_addr [OF chained, of m] by auto
  have ch: "chain s1 a fl = chain ?s a fl" for a by (rule chain_cong) (use sh(4) unlisted [OF x(3)] in auto)
  have nP: "?n \<notin> ?P" using other by (metis imageE)
  have "(addr ?s m = Some Null) = (m \<notin> insert ?n ?P)" if "m \<in> gc_nodes ?s" "col ?s m = GC_WHITE" for m
    using that inv unfolding gather_inv_def by blast
  then have "(addr s1 m = Some Null) = (m \<notin> ?P)" if "m \<in> gc_nodes ?s" "col s1 m = GC_WHITE" for m
    using that nP unfolding sh(2,4) by (cases "m = ?n") simp_all
  then have "gather_inv ?P s1 fl" using inv sh(2,5,6) ch unfolding gather_inv_def same_shapeD [OF sh(1)] by simp
  then have "gathers ?P {} [] (root_nodes g [x]) (collect_white (root_task (root_of g x))) s1 fl"
    using gather_taskE [OF collect_white_gathers sh(1) _ root_ok_task [OF x(2)]] by simp
  then obtain s2 fl2 where s2: "collect_white (root_task (root_of g x)) s1 = Some s2" "same_shape ?s s2"
    "gather_inv ?P s2 fl2" "\<forall>n. n \<notin> set fl2 \<longrightarrow> addr s2 n = addr s1 n" "\<forall>n\<in>set fl2 - ({} \<union> set fl). addr s1 n = Some Null"
    "gc_gather ?s ?P {} [] (root_nodes g [x]) (col s1) (rc s1) fl (col s2) (rc s2) fl2"
    using gathersE [OF _ sh(1), of ?P "{}" "[]" "root_nodes g [x]" "collect_white (root_task (root_of g x))" fl] by blast
  have pending: "addr s2 (node_of g z) = Some (Root z)" if "z \<in> set zs" for z
  proof -
    have a: "addr s1 (node_of g z) = Some (Root z)" "addr ?s (node_of g z) = Some (Root z)"
      using that b other [OF that] sh(4) by (auto simp: buffered_def)
    then have "node_of g z \<notin> set fl2" using s2(5) unlisted [OF a(2)] by fastforce
    then show ?thesis using s2(4) a(1) by simp
  qed
  have "\<forall>z\<in>set ([] @ zs). root_ok s2 (root_of g z) \<and> addr s2 (node_of g z) = Some (Root z)"
    using pending b root_shape [OF s2(2)] by (auto simp: buffered_def)
  from buffered_remove [OF b this] obtain g1 where g1: "gc_remove_from_buffer x (g\<lparr>mem := s2\<rparr>) = Some g1"
    "buffered g1 zs" "next_of x g1 = Some (hd (zs @ [Roots]))" "mem g1 = s2" "root_of g1 = root_of g" "node_of g1 = node_of g"
    "settings g1 = settings g"
    by auto
  have "m \<in> set fl2 \<or> m \<in> ?P" if "addr s2 m = Some a" "a \<noteq> Null" for m a
  proof (rule disjCI)
    assume "m \<notin> ?P"
    have "set fl \<subseteq> set fl2" using s2(6) by (auto simp: gc.gather_def)
    then show "m \<in> set fl2" using that s2(4) sh(4) assms \<open>m \<notin> ?P\<close> by (fastforce simp: collecting_def split: if_splits)
  qed
  then have "collecting g1 zs fl2" using g1 s2(3) by (auto simp: collecting_def)
  moreover have "later g g1" using s2(2,3) g1(4,5,7) by (simp add: later_def gather_inv_def)
  ultimately show ?thesis using collect_roots_loop_entry [OF x(1,2) s1(1) sh(1)] s2(1,6) g1(1,3,4) sh(2,3)
    by (intro exI [of _ g1] exI [of _ fl2]) simp
qed

end
