(* ===== verification/Zend_Gc_Correct.thy ===== *)
theory Zend_Gc_Correct
  imports Zend_Gc_Phases
begin

text \<open>What a collection finds, and that it frees nothing that is still in use.\<close>

lemma collect_roots_loop_gathers:
  assumes "collecting g zs fl" and "gc_gather (mem g) (node_of g ` set zs) {} [] ns c r [] (col (mem g)) (rc (mem g)) fl"
  shows "\<exists>g' fl'. collect_roots_loop (hd (zs @ [Roots])) g = Some g' \<and> collecting g' [] fl' \<and> later g g' \<and>
    gc_gather (mem g) {} {} [] (ns @ root_nodes g zs) c r [] (col (mem g')) (rc (mem g')) fl'"
  using assms
proof (induction zs arbitrary: g fl ns)
  case Nil
  then show ?case by (auto simp: collect_roots_loop_Roots)
next
  case (Cons x zs)
  obtain g1 fl1 where g1: "collect_roots_loop x g = collect_roots_loop (hd (zs @ [Roots])) g1" "collecting g1 zs fl1" "later g g1"
    "gc_gather (mem g) (node_of g ` set zs) {} [] (root_nodes g [x]) (col (mem g)) (rc (mem g)) fl (col (mem g1)) (rc (mem g1)) fl1"
    using collect_roots_entry [OF Cons.prems(1)] by blast
  note same = later_same [OF g1(3)]
  have b: "buffered g ([] @ x # zs)" using Cons.prems(1) by (simp add: collecting_def)
  have x: "root_ok (mem g) (root_of g x)" "heap_ok (mem g)" using b Cons.prems(1) by (auto simp: buffered_def collecting_def gather_inv_def)
  have P: "node_of g ` set (x # zs) - {node_of g x} = node_of g ` set zs" using buffered_keys(1) [OF b] by auto
  have "gc_gather (mem g) (node_of g ` set zs) {} [] (ns @ root_nodes g [x]) c r [] (col (mem g1)) (rc (mem g1)) fl1"
  proof (cases "node_of g x \<in> gc_nodes (mem g)")
    case True
    then have n: "root_nodes g [x] = [node_of g x]" using root_ok_node(1) [OF x] by (simp add: node_of_def)
    show ?thesis using gc.gather_root [where P = "node_of g ` set (x # zs)" and r = "node_of g x", unfolded P, OF Cons.prems(2)]
      g1(4) unfolding n by blast
  next
    case False
    then have n: "root_nodes g [x] = []" "col (mem g) (node_of g x) = GC_BLACK" using root_ok_node [OF x] by (simp_all add: node_of_def)
    have w: "col (mem g) (node_of g x) \<noteq> GC_WHITE" using n(2) by simp
    have "gc_gather (mem g) (node_of g ` set zs) {} [] ns c r [] (col (mem g)) (rc (mem g)) fl"
      using gather_fewer [OF Cons.prems(2) w] unfolding P .
    then have "gc_gather (mem g) (node_of g ` set zs) ({} \<union> {}) ([] @ []) (ns @ []) c r [] (col (mem g1)) (rc (mem g1)) fl1"
      using g1(4) unfolding n(1) by (rule gc.gather_append) auto
    then show ?thesis using n(1) by simp
  qed
  from Cons.IH [OF g1(2), unfolded same, OF this] obtain g2 fl2 where
    "collect_roots_loop (hd (zs @ [Roots])) g1 = Some g2" "collecting g2 [] fl2" "later g1 g2"
    "gc_gather (mem g) {} {} [] ((ns @ root_nodes g [x]) @ root_nodes g zs) c r [] (col (mem g2)) (rc (mem g2)) fl2"
    by blast
  then show ?case using g1(1) later_trans [OF g1(3)] by (intro exI [of _ g2] exI [of _ fl2]) simp
qed

text \<open>
  A state a collection may start from: nothing is grey or white, every address is that of an entry
  of the ring, and the graph is well-formed.
\<close>

definition gc_start :: "'h gc_globals \<Rightarrow> root_ptr list \<Rightarrow> bool" where
  "gc_start g xs \<longleftrightarrow> heap_ok (mem g) \<and> globals_quiet (mem g) \<and> buffer_inv g xs \<and>
     (\<forall>n. col (mem g) n \<noteq> GC_GREY \<and> col (mem g) n \<noteq> GC_WHITE)"

text \<open>
  The counts that the references among the candidates do not explain, and what is garbage: the
  candidates that no node with such a count reaches.
\<close>

definition outer_counts :: "'h gc_globals \<Rightarrow> root_ptr list \<Rightarrow> gc_node \<Rightarrow> uint" where
  "outer_counts g xs n = rc (mem g) n - gc_edges (mem g) (candidates g xs) n"

definition garbage :: "'h gc_globals \<Rightarrow> root_ptr list \<Rightarrow> gc_node set" where
  "garbage g xs = candidates g xs - gc_live (mem g) (candidates g xs) (outer_counts g xs)"

lemma start_collecting:
  assumes "buffer_inv g ks" and "heap_ok (mem g)" and "globals_quiet (mem g)" and "zval_to_free (mem g) = Free_list_end"
  shows "collecting g ks []"
proof -
  have b: "buffered g ks" using assms(1) by (simp add: buffer_inv_def)
  have "(addr (mem g) n = Some Null) = (n \<notin> node_of g ` set ks)" if n: "n \<in> gc_nodes (mem g)" for n
  proof -
    obtain a where a: "addr (mem g) n = Some a"
      using n assms(2) by (auto simp: gc_nodes_def addr_def value_at_def object_info_def)
    then show ?thesis using b assms(1) by (auto simp: buffer_inv_def buffered_def)
  qed
  then show ?thesis using assms b by (auto simp: collecting_def gather_inv_def buffer_inv_def)
qed

text \<open>The phases, one after the other.\<close>

lemma phases_find_garbage:
  assumes "heap_ok (mem g)" and "globals_quiet (mem g)" and "buffer_inv g xs"
    and "\<forall>n. col (mem g) n \<noteq> GC_GREY \<and> col (mem g) n \<noteq> GC_WHITE" and "zval_to_free (mem g) = Free_list_end"
  shows "\<exists>g1 g2 g3 fs. gc_mark_roots g = Some g1 \<and> gc_scan_roots g1 = Some g2 \<and> gc_collect_roots g2 = Some g3 \<and>
    later g g3 \<and> collecting g3 [] fs \<and> distinct fs \<and> set fs = {n \<in> garbage g xs. is_zval n} \<and>
    col (mem g3) = (\<lambda>n. if n \<in> garbage g xs then gc_done n else if n \<in> candidates g xs then GC_BLACK else col (mem g) n) \<and>
    (\<forall>n. rc (mem g3) n = rc (mem g) n - gc_edges (mem g) (garbage g xs) n +
       (if is_zval n then gc_edges (mem g) (garbage g xs) n + (if n \<in> garbage g xs then 1 else 0) else 0))"
proof -
  let ?G = "candidates g xs" and ?s = "mem g" and ?r = "outer_counts g xs"
  have part: "gc_part ?s ?G" using candidates_part [OF assms(1)] .
  obtain g1 ks where g1: "gc_mark_roots g = Some g1" "buffer_inv g1 ks" "later g g1" "zval_to_free (mem g1) = zval_to_free ?s"
    "set (root_nodes g ks) \<subseteq> ?G" "\<forall>m\<in>?G. \<exists>n\<in>set (root_nodes g ks). gc_reach ?s n m"
    "col (mem g1) = (\<lambda>n. if n \<in> ?G then GC_GREY else col ?s n)" "\<forall>n. rc (mem g1) n = rc ?s n - gc_edges ?s ?G n"
    using gc_mark_roots_marks [OF assms(1,3)] assms(4) by blast
  note same1 = later_same [OF g1(3)]
  have r1: "rc (mem g1) = ?r" using g1(8) by (simp add: outer_counts_def fun_eq_iff)
  have ok1: "heap_ok (mem g1)" "globals_quiet (mem g1)" using assms(1,2) same1(5) g1(3) by (simp_all add: later_def)
  have rest: "gc_at_rest ?s ?G ?r (col (mem g1)) (rc (mem g1))"
    unfolding r1 gc.at_rest_def using g1(7) by (simp add: gc.edges_none)
  have next1: "roots_next g1 = hd (ks @ [Roots])" if "buffer_inv g1 ks" for g1 :: "'a gc_globals" and ks
    using that by (cases ks) (auto simp: buffer_inv_def buffered_def ring_def next_of_def)
  obtain g2 where g2: "gc_scan_roots g1 = Some g2" "buffer_inv g2 ks" "later g1 g2" "zval_to_free (mem g2) = zval_to_free (mem g1)"
    "gc_at_rest ?s ?G ?r (col (mem g2)) (rc (mem g2))" "gc_scanned ?s ?G (root_nodes g ks) (col (mem g1)) (col (mem g2))"
    using scan_roots_loop_scans [OF ok1, of "[]" ks ?G ?r] g1(2,5) part rest next1 [OF g1(2)] unfolding gc_scan_roots_def same1 by auto
  note same2 = later_same [OF later_trans [OF g1(3) g2(3)]]
  have l2: "later g g2" using later_trans [OF g1(3) g2(3)] .
  have grey: "\<forall>m\<in>?G. col (mem g1) m = GC_GREY" using g1(7) by simp
  note found = gc.scan_done [OF g2(5) part g2(6) grey g1(5,6)]
  have white: "col (mem g2) n = (if n \<in> ?G then if n \<in> gc_live ?s ?G ?r then GC_BLACK else GC_WHITE else col ?s n)" for n
    using found(1) [of n] gc.scannedD(1) [OF g2(6), of n] g1(7) by simp
  have start: "collecting g2 ks []"
    using start_collecting [OF g2(2)] l2 assms(1,2,5) same2(5) g1(4) g2(4) by (simp add: later_def)
  obtain g3 fl where g3: "gc_collect_roots g2 = Some g3" "collecting g3 [] fl" "later g2 g3"
    "gc_gather ?s {} {} [] (root_nodes g ks) (col (mem g2)) (rc (mem g2)) [] (col (mem g3)) (rc (mem g3)) fl"
    using collect_roots_loop_gathers [OF start gc.gather_Nil] next1 [OF g2(2)] unfolding gc_collect_roots_def same2 append_Nil by metis
  have "\<forall>n. col (mem g2) n = GC_WHITE \<longrightarrow> n \<in> ?G" "\<forall>m\<in>?G. col (mem g2) m = (if m \<in> gc_live ?s ?G ?r then GC_BLACK else GC_WHITE)"
    using white assms(4) by auto
  from gc.gather_done [OF g3(4) part this g1(5,6)] have f: "distinct fl" "set fl = {n \<in> garbage g xs. is_zval n}"
    "col (mem g3) = (\<lambda>n. if n \<in> garbage g xs then gc_done n else col (mem g2) n)"
    "\<forall>n. rc (mem g3) n = rc (mem g2) n + (if is_zval n then gc_edges ?s (garbage g xs) n + (if n \<in> garbage g xs then 1 else 0) else 0)"
    by (auto simp: garbage_def)
  have "rc (mem g2) n = rc ?s n - gc_edges ?s (garbage g xs) n" for n
    unfolding garbage_def
  proof (rule gc.counts_restored [OF part])
    show "\<forall>x. ?r x = rc ?s x - gc_edges ?s ?G x" by (simp add: outer_counts_def)
    show "\<forall>x. rc (mem g2) x = ?r x + gc_edges ?s (gc_live ?s ?G ?r) x" using found(2) by blast
  qed
  then have rcs: "\<forall>n. rc (mem g3) n = rc ?s n - gc_edges ?s (garbage g xs) n +
      (if is_zval n then gc_edges ?s (garbage g xs) n + (if n \<in> garbage g xs then 1 else 0) else 0)" using f(4) by simp
  have cols: "col (mem g3) = (\<lambda>n. if n \<in> garbage g xs then gc_done n else if n \<in> ?G then GC_BLACK else col ?s n)"
    unfolding f(3) using white by (auto simp: garbage_def)
  show ?thesis using g1(1) g2(1) g3(1,2) later_trans [OF l2 g3(3)] f(1,2) cols rcs by blast
qed

end
