(* ===== verification/Zend_Gc_Pool.thy ===== *)
theory Zend_Gc_Pool
  imports Zend_Gc_Phases
begin

text \<open>
  The whole root buffer: the ring of the entries in use, the list of those given back and the entries
  never used share it out, and the functions that add and remove possible roots keep it so.
\<close>

fun unused_list :: "(root_ptr \<Rightarrow> root_ptr option option) \<Rightarrow> root_ptr option \<Rightarrow> root_ptr list \<Rightarrow> bool" where
  "unused_list pv p [] = (p = None)"
| "unused_list pv p (r # us) = (p = Some r \<and> (\<exists>q. pv r = Some q \<and> unused_list pv q us))"

lemma unused_list_cong: "(\<And>r. r \<in> set us \<Longrightarrow> pv' r = pv r) \<Longrightarrow> unused_list pv' p us = unused_list pv p us"
  by (induction us arbitrary: p) auto

text \<open>\<open>rs\<close> are entries taken from the free ones and not yet linked.\<close>

definition pool :: "'h gc_globals \<Rightarrow> root_ptr list \<Rightarrow> root_ptr list \<Rightarrow> root_ptr list \<Rightarrow> bool" where
  "pool g rs xs us \<longleftrightarrow> buffer_inv g xs \<and> unused_list (\<lambda>p. prev_of p g) (unused g) us \<and> distinct (rs @ xs @ us) \<and>
     set (rs @ xs @ us) = Buf ` {..<first_unused g} \<and> first_unused g \<le> last_unused g \<and>
     (\<exists>bs. buf g = Some bs \<and> length bs = last_unused g)"

lemma pool_bound:
  assumes "pool g rs xs us"
  shows "length rs + length xs + length us = first_unused g" and "length xs \<le> last_unused g"
proof -
  have "card (set (rs @ xs @ us)) = length (rs @ xs @ us)" using assms by (intro distinct_card) (simp add: pool_def)
  moreover have "card (set (rs @ xs @ us)) = first_unused g" using assms unfolding pool_def by (simp add: card_image inj_on_def)
  ultimately show "length rs + length xs + length us = first_unused g" by simp
  then show "length xs \<le> last_unused g" using assms by (simp add: pool_def)
qed

text \<open>Updates outside the ring.\<close>

lemma ring_fields:
  fixes g :: "'h gc_globals"
  shows "root_at (g\<lparr>unused := u\<rparr>) p = root_at g p" "root_at (g\<lparr>first_unused := n\<rparr>) p = root_at g p"
    "prev_of p (g\<lparr>unused := u\<rparr>) = prev_of p g" "prev_of p (g\<lparr>first_unused := n\<rparr>) = prev_of p g"
    "next_of p (g\<lparr>unused := u\<rparr>) = next_of p g" "next_of p (g\<lparr>first_unused := n\<rparr>) = next_of p g"
    "buffer_inv (g\<lparr>unused := u\<rparr>) xs = buffer_inv g xs" "buffer_inv (g\<lparr>first_unused := n\<rparr>) xs = buffer_inv g xs"
proof -
  have r: "root_at (g\<lparr>unused := u\<rparr>) p = root_at g p" "root_at (g\<lparr>first_unused := n\<rparr>) p = root_at g p" for p by (cases p; simp)+
  then have d: "root_data (g\<lparr>unused := u\<rparr>) = root_data g" "root_data (g\<lparr>first_unused := n\<rparr>) = root_data g"
    by (simp_all add: root_data_def fun_eq_iff)
  have p: "prev_of p (g\<lparr>unused := u\<rparr>) = prev_of p g" "prev_of p (g\<lparr>first_unused := n\<rparr>) = prev_of p g"
    "next_of p (g\<lparr>unused := u\<rparr>) = next_of p g" "next_of p (g\<lparr>first_unused := n\<rparr>) = next_of p g" for p
    by (simp_all add: prev_of_def next_of_def r)
  show "root_at (g\<lparr>unused := u\<rparr>) p = root_at g p" "root_at (g\<lparr>first_unused := n\<rparr>) p = root_at g p"
    "prev_of p (g\<lparr>unused := u\<rparr>) = prev_of p g" "prev_of p (g\<lparr>first_unused := n\<rparr>) = prev_of p g"
    "next_of p (g\<lparr>unused := u\<rparr>) = next_of p g" "next_of p (g\<lparr>first_unused := n\<rparr>) = next_of p g" by (fact r p)+
  show "buffer_inv (g\<lparr>unused := u\<rparr>) xs = buffer_inv g xs" "buffer_inv (g\<lparr>first_unused := n\<rparr>) xs = buffer_inv g xs"
    by (simp_all add: buffer_inv_def buffered_def ring_def node_of_def root_of_def d p)
qed

text \<open>Taking a free entry.\<close>

lemma free_root_step:
  assumes "pool g [] xs us" and "us \<noteq> [] \<or> first_unused g < last_unused g"
  shows "\<exists>r g1 us1. free_root g = Some (Some r, g1) \<and> pool g1 [r] xs us1 \<and> mem g1 = mem g \<and> (g1 = g\<lparr>unused := unused g1, first_unused := first_unused g1\<rparr>)"
proof (cases us)
  case (Cons r us1)
  then obtain q where q: "unused g = Some r" "prev_of r g = Some q" "unused_list (\<lambda>p. prev_of p g) q us1"
    using assms(1) by (auto simp: pool_def)
  have "pool (g\<lparr>unused := q\<rparr>) [r] xs us1" using assms(1) q(3) Cons by (auto simp: pool_def ring_fields)
  then show ?thesis using q by (intro exI [of _ r] exI [of _ "g\<lparr>unused := q\<rparr>"] exI [of _ us1]) (simp add: free_root_def)
next
  case Nil
  let ?r = "Buf (first_unused g)" and ?g = "g\<lparr>first_unused := first_unused g + 1\<rparr>"
  have lt: "first_unused g < last_unused g" using assms(2) Nil by simp
  have "{..<first_unused g + 1} = insert (first_unused g) {..<first_unused g}" by auto
  then have "pool ?g [?r] xs []" using assms(1) Nil lt by (auto simp: pool_def ring_fields)
  moreover have "unused g = None" using assms(1) Nil by (simp add: pool_def)
  ultimately show ?thesis using lt by (intro exI [of _ ?r] exI [of _ ?g] exI [of _ "[]"]) (simp add: free_root_def)
qed

text \<open>Linking it behind the sentinel.\<close>

lemma put_root_new:
  assumes "buf g = Some bs" and "i < length bs"
  shows "\<exists>g'. put_root (Buf i) r g = Some g' \<and> (\<forall>q. root_at g' q = (if q = Buf i then Some r else root_at g q)) \<and> same_rest g g' \<and>
    roots_next g' = roots_next g \<and> roots_prev g' = roots_prev g \<and> unused g' = unused g"
proof -
  let ?g = "g\<lparr>buf := Some (bs[i := Some r])\<rparr>"
  have "put_root (Buf i) r g = Some ?g" using assms by (simp add: set_slot_def)
  moreover have "root_at ?g q = (if q = Buf i then Some r else root_at g q)" for q
    using assms by (cases q) (auto simp: slot_def)
  ultimately show ?thesis using assms by (auto simp: same_rest_def)
qed

lemma link_root_ring:
  assumes "ring g xs" and "buf g = Some bs" and "i < length bs" and "Buf i \<notin> set xs"
  shows "\<exists>g'. link_root (Buf i) h u g = Some g' \<and> ring g' (Buf i # xs) \<and> root_data g' = (root_data g)(Buf i := Some (h, u)) \<and>
    same_rest g g' \<and> unused g' = unused g \<and> (\<forall>q. q \<notin> set (Buf i # xs) \<longrightarrow> q \<noteq> Roots \<longrightarrow> prev_of q g' = prev_of q g)"
proof -
  let ?r = "Buf i"
  obtain b B where B: "xs @ [Roots] = b # B" by (cases "xs @ [Roots]") auto
  have l: "linked (\<lambda>p. next_of p g) (\<lambda>p. prev_of p g) (Roots # b # B)" "distinct (Roots # xs)"
    using assms(1) B unfolding ring_def by simp_all
  have nb: "roots_next g = b" using l by (simp add: next_of_def)
  obtain g1 where g1: "put_root ?r \<lparr>r_prev = Some Roots, r_next = roots_next g, r_handle = h, r_u = u\<rparr> g = Some g1"
    "\<forall>q. root_at g1 q = (if q = ?r then Some \<lparr>r_prev = Some Roots, r_next = roots_next g, r_handle = h, r_u = u\<rparr> else root_at g q)"
    "same_rest g g1" "roots_next g1 = roots_next g" "roots_prev g1 = roots_prev g" "unused g1 = unused g"
    using put_root_new [OF assms(2,3)] by blast
  have bxs: "b = Roots \<or> b \<in> set xs" using B by (cases xs) auto
  have br: "b \<noteq> ?r" using bxs assms(4) by auto
  have "b = Roots \<or> root_at g1 b \<noteq> None" using ring_nodes [OF assms(1) bxs] br g1(2) next_of_root [of b g] by simp
  then obtain g2 where g2: "set_prev b (Some ?r) g1 = Some g2" "\<forall>q. prev_of q g2 = (if q = b then Some (Some ?r) else prev_of q g1)"
    "\<forall>q. next_of q g2 = next_of q g1" "root_data g2 = root_data g1" "same_rest g1 g2" "unused g2 = unused g1"
    using set_prev_step [of b g1 "Some ?r"] by blast
  let ?g = "g2\<lparr>roots_next := ?r\<rparr>"
  have r: "root_at ?g q = root_at g2 q" for q by (cases q) simp_all
  have e: "link_root ?r h u g = Some ?g" using g1(1,4) g2(1) nb by (simp add: link_root_def)
  have nx1: "next_of q g1 = (if q = ?r then Some b else next_of q g)" for q using g1(2,4) nb by (simp add: next_of_def del: root_at.simps)
  have pv1: "prev_of q g1 = (if q = ?r then Some (Some Roots) else prev_of q g)" for q using g1(2,5) by (simp add: prev_of_def del: root_at.simps)
  have n2: "next_of q ?g = (if q = Roots then Some ?r else next_of q g2)" "prev_of q ?g = prev_of q g2" for q
    by (simp_all add: next_of_def prev_of_def r del: root_at.simps)
  have nx: "next_of q ?g = (if q = Roots then Some ?r else if q = ?r then Some b else next_of q g)" for q
    unfolding n2 using g2(3) nx1 by simp
  have pv: "prev_of q ?g = (if q = b then Some (Some ?r) else if q = ?r then Some (Some Roots) else prev_of q g)" for q
    unfolding n2 using g2(2) pv1 by simp
  have bl: "butlast (b # B) = xs" unfolding B [symmetric] by simp
  have BB: "set B \<subseteq> insert Roots (set xs)" "b \<notin> set B" using B l(2) by (auto simp: append_eq_Cons_conv)
  have "linked (\<lambda>p. next_of p ?g) (\<lambda>p. prev_of p ?g) (b # B) = linked (\<lambda>p. next_of p g) (\<lambda>p. prev_of p g) (b # B)"
  proof (rule linked_cong)
    show "next_of q ?g = next_of q g" if "q \<in> set (butlast (b # B))" for q
      using that assms(4) l(2) nx [of q] unfolding bl by auto
    show "prev_of q ?g = prev_of q g" if "q \<in> set (tl (b # B))" for q using that assms(4) BB pv [of q] by auto
  qed
  then have "linked (\<lambda>p. next_of p ?g) (\<lambda>p. prev_of p ?g) (Roots # ?r # b # B)" using l(1) nx [of Roots] nx [of ?r] pv [of b] pv [of ?r] br by simp
  then have "ring ?g (?r # xs)" using B assms(4) l(2) unfolding ring_def by simp
  moreover have "root_data ?g = (root_data g)(?r := Some (h, u))"
    using g2(4) g1(2) by (auto simp: root_data_def fun_eq_iff r simp del: root_at.simps)
  moreover have "same_rest g ?g" using g1(3) g2(5) by (simp add: same_rest_def)
  moreover have "prev_of q ?g = prev_of q g" if "q \<notin> set (?r # xs)" "q \<noteq> Roots" for q using that pv [of q] bxs by auto
  ultimately show ?thesis using e g1(6) g2(6) by auto
qed

lemma pool_frame: "pool g rs xs us \<Longrightarrow> frame (mem g) s' \<Longrightarrow> pool (g\<lparr>mem := s'\<rparr>) rs xs us"
  by (simp add: pool_def buffer_frame)

lemma pool_lists:
  assumes "same_rest g g'" and "unused g' = unused g" and "\<forall>q\<in>set us. prev_of q g' = prev_of q g"
    and "unused_list (\<lambda>p. prev_of p g) (unused g) us"
  shows "unused_list (\<lambda>p. prev_of p g') (unused g') us"
  using assms unused_list_cong [of us "\<lambda>p. prev_of p g'" "\<lambda>p. prev_of p g"] by simp

lemma link_root_pool:
  assumes "pool g [r] xs us" and "root_ok (mem g) (h, u)" and "addr (mem g) (root_key (h, u)) = Some Null"
  shows "\<exists>g1 s1. link_root r h u g = Some g1 \<and> mem g1 = mem g \<and> set_root_address (Root r) (h, u) (mem g) = Some s1 \<and>
    readdressed (root_key (h, u)) (Root r) (mem g) s1 \<and> pool (g1\<lparr>mem := s1\<rparr>) [] (r # xs) us \<and>
    root_of g1 r = (h, u) \<and> settings g1 = settings g"
proof -
  have p: "buffered g xs" "unused_list (\<lambda>p. prev_of p g) (unused g) us" "distinct (r # xs @ us)"
    "set (r # xs @ us) = Buf ` {..<first_unused g}" "first_unused g \<le> last_unused g" and inv: "buffer_inv g xs"
    using assms(1) by (simp_all add: pool_def buffer_inv_def)
  obtain bs where bs: "buf g = Some bs" "length bs = last_unused g" using assms(1) by (auto simp: pool_def)
  have "r \<in> Buf ` {..<first_unused g}" using p(4) by auto
  then obtain i where i: "r = Buf i" "i < length bs" using p(5) bs(2) by auto
  obtain g1 where g1: "link_root r h u g = Some g1" "ring g1 (r # xs)" "root_data g1 = (root_data g)(r := Some (h, u))"
    "same_rest g g1" "unused g1 = unused g" "\<forall>q. q \<notin> set (r # xs) \<longrightarrow> q \<noteq> Roots \<longrightarrow> prev_of q g1 = prev_of q g"
    using link_root_ring [of g xs bs i h u] p(1,3) bs(1) i by (auto simp: buffered_def)
  note st = same_rest_settings [OF g1(4)]
  obtain s1 where s1: "set_root_address (Root r) (h, u) (mem g) = Some s1" "readdressed (root_key (h, u)) (Root r) (mem g) s1"
    using set_root_address_step [OF assms(2)] by blast
  have sh: "same_shape (mem g) s1" "addr s1 = (addr (mem g))(root_key (h, u) := Some (Root r))" using s1(2) by (simp_all add: readdressed_def)
  have ro: "root_of g1 x = (if x = r then (h, u) else root_of g x)" for x by (simp add: root_of_def g1(3))
  have no: "node_of g1 x = (if x = r then root_key (h, u) else node_of g x)" for x by (simp add: node_of_def ro)
  have "node_of g x \<noteq> root_key (h, u)" if "x \<in> set xs" for x using that p(1) assms(3) by (auto simp: buffered_def)
  then have "buffered (g1\<lparr>mem := s1\<rparr>) (r # xs)"
    using p(1,3) g1(2,3) assms(2) sh(2) ro no root_shape [OF sh(1)] by (auto simp: buffered_def)
  moreover have "n \<in> node_of g1 ` set (r # xs)" if n: "addr s1 n = Some a" "a \<noteq> Null" for n a
  proof (cases "n = root_key (h, u)")
    case True
    then show ?thesis using no [of r] by auto
  next
    case False
    then have "n \<in> node_of g ` set xs" using n sh(2) inv unfolding buffer_inv_def by auto
    then show ?thesis using no p(3) by (auto simp: image_iff)
  qed
  ultimately have "buffer_inv (g1\<lparr>mem := s1\<rparr>) (r # xs)" by (auto simp: buffer_inv_def)
  moreover have "Roots \<notin> set us" using p(4) by auto
  then have "unused_list (\<lambda>p. prev_of p g1) (unused g1) us"
    using g1(6) p(2,3) by (intro pool_lists [OF g1(4,5)]) auto
  moreover have "first_unused g1 = first_unused g" "last_unused g1 = last_unused g" "map_option length (buf g1) = Some (last_unused g)"
    using g1(4) bs by (simp_all add: same_rest_def)
  ultimately have "pool (g1\<lparr>mem := s1\<rparr>) [] (r # xs) us" using p(3-5) by (auto simp: pool_def)
  then show ?thesis using g1(1) st s1 ro [of r] by auto
qed

lemma remove_pool:
  assumes "pool g [] (xs @ x # ys) us" and "same_shape (mem g) s'" and "addr s' = (addr (mem g))(node_of g x := Some Null)"
  shows "\<exists>g1. gc_remove_from_buffer x g = Some g1 \<and> mem g1 = mem g \<and> pool (g1\<lparr>mem := s'\<rparr>) [] (xs @ ys) (x # us) \<and>
    node_of g1 = node_of g \<and> settings g1 = settings g"
proof -
  have p: "buffered g (xs @ x # ys)" "unused_list (\<lambda>p. prev_of p g) (unused g) us" "distinct (xs @ x # ys @ us)"
    "set (xs @ x # ys @ us) = Buf ` {..<first_unused g}" "first_unused g \<le> last_unused g" and inv: "buffer_inv g (xs @ x # ys)"
    using assms(1) by (simp_all add: pool_def buffer_inv_def)
  obtain g1 where g1: "gc_remove_from_buffer x g = Some g1" "ring g1 (xs @ ys)" "prev_of x g1 = Some (unused g)" "unused g1 = Some x"
    "root_data g1 = root_data g" "same_rest g g1" "\<forall>q. q \<notin> set (x # xs @ ys) \<longrightarrow> q \<noteq> Roots \<longrightarrow> prev_of q g1 = prev_of q g"
    using gc_remove_from_buffer_ring p(1) unfolding buffered_def by blast
  note st = same_rest_settings [OF g1(6)]
  have n: "root_of g1 = root_of g" "node_of g1 = node_of g" by (simp_all add: fun_eq_iff root_of_def node_of_def g1(5))
  have "buffered (g1\<lparr>mem := s'\<rparr>) (xs @ ys)"
    using p(1) g1(2,5) n assms(3) buffered_keys(1) [OF p(1)] root_shape [OF assms(2)] by (auto simp: buffered_def)
  moreover have "m \<in> node_of g1 ` set (xs @ ys)" if "addr s' m = Some a" "a \<noteq> Null" for m a
    using that assms(3) inv n by (auto simp: buffer_inv_def split: if_splits)
  ultimately have "buffer_inv (g1\<lparr>mem := s'\<rparr>) (xs @ ys)" by (auto simp: buffer_inv_def)
  moreover have "prev_of q g1 = prev_of q g" if "q \<in> set us" for q
  proof -
    have "q \<in> Buf ` {..<first_unused g}" using that p(4) by auto
    then show ?thesis using g1(7) p(3) that by auto
  qed
  then have "unused_list (\<lambda>p. prev_of p g1) (unused g) us"
    using p(2) unused_list_cong [of us "\<lambda>p. prev_of p g1" "\<lambda>p. prev_of p g"] by simp
  moreover have "map_option length (buf g1) = map_option length (buf g)" "first_unused g1 = first_unused g" "last_unused g1 = last_unused g"
    using g1(6) by (simp_all add: same_rest_def)
  moreover have "map_option length (buf g) = Some (last_unused g)" using assms(1) by (auto simp: pool_def)
  ultimately have "pool (g1\<lparr>mem := s'\<rparr>) [] (xs @ ys) (x # us)" using p(3-5) g1(3,4) by (auto simp: pool_def)
  then show ?thesis using g1(1) st n by auto
qed

subsection \<open>Possible roots\<close>

lemma new_root_pool:
  assumes "pool g [] xs us" and "length xs < last_unused g" and "root_ok (mem g) (h, u)" and "addr (mem g) (root_key (h, u)) = Some Null"
  shows "\<exists>r g2 g3 s3 us3. gc_new_root collect zv purple g = Some (Some r, g2) \<and> link_root r h u g2 = Some g3 \<and>
    set_root_address (Root r) (h, u) (mem g3) = Some s3 \<and> mem g3 = mem g \<and> pool (g3\<lparr>mem := s3\<rparr>) [] (r # xs) us3 \<and> root_of g3 r = (h, u)"
proof -
  have "us \<noteq> [] \<or> first_unused g < last_unused g"
    using pool_bound(1) [OF assms(1)] assms(1,2) by (cases us) (auto simp: pool_def)
  then obtain r g2 us1 where g2: "free_root g = Some (Some r, g2)" "pool g2 [r] xs us1" "mem g2 = mem g"
    using free_root_step [OF assms(1)] by blast
  obtain g3 s3 where "link_root r h u g2 = Some g3" "mem g3 = mem g2" "set_root_address (Root r) (h, u) (mem g2) = Some s3"
    "pool (g3\<lparr>mem := s3\<rparr>) [] (r # xs) us1" "root_of g3 r = (h, u)"
    using link_root_pool [OF g2(2), of h u] assms(3,4) g2(3) by auto
  moreover have "gc_new_root collect zv purple g = Some (Some r, g2)" using g2(1) by (simp add: gc_new_root_def)
  ultimately show ?thesis using g2(3) by auto
qed

lemma root_color_address: "set_root_address a d s = Some s' \<Longrightarrow> root_color s' d = root_color s d"
proof (cases d rule: root_task.cases)
  case (1 h pz)
  then show "set_root_address a d s = Some s' \<Longrightarrow> root_color s' d = root_color s d"
    by (auto simp: set_root_address_def set_zval_address_def change_zval_def root_color_def split: bind_splits)
next
  case (2 h hs)
  show "set_root_address a d s = Some s' \<Longrightarrow> root_color s' d = root_color s d"
  proof -
    assume s': "set_root_address a d s = Some s'"
    then obtain ob where ob: "object_at s h = Some ob"
      using 2 by (auto simp: set_root_address_def set_object_address_def change_object_def split: bind_splits)
    then show ?thesis using change_object_Some [OF ob, of "o_buffered_update (GC_SET_ADDRESS a)"] s' 2
      by (auto simp: set_root_address_def set_object_address_def root_color_def)
  qed
qed

text \<open>What makes a zval, or the object it refers to, a possible root.\<close>

definition possible_root :: "'h gc_heap \<Rightarrow> nat \<Rightarrow> nat \<times> 'h root_u \<Rightarrow> bool" where
  "possible_root s zv d \<longleftrightarrow> (\<exists>z. zvals s zv = Some z \<and> (case z_value z of
     Is_object h hs \<Rightarrow> d = (h, Handlers hs) \<and> h \<noteq> 0 \<and> object_info s h = Some (True, hs) \<and> get_gc s hs \<noteq> None
   | _ \<Rightarrow> d = (0, Pz zv)))"

lemma possible_root_ok:
  assumes "possible_root s zv d"
  shows "root_ok s d"
proof -
  obtain z where z: "zvals s zv = Some z" "case z_value z of
     Is_object h hs \<Rightarrow> d = (h, Handlers hs) \<and> h \<noteq> 0 \<and> object_info s h = Some (True, hs) \<and> get_gc s hs \<noteq> None
   | _ \<Rightarrow> d = (0, Pz zv)"
    using assms by (auto simp: possible_root_def)
  then show ?thesis by (cases "z_value z") (auto simp: value_at_def)
qed

definition set_root_color :: "gc_color \<Rightarrow> nat \<times> 'h root_u \<Rightarrow> 'h gc_heap \<Rightarrow> 'h gc_heap option" where
  "set_root_color c d = (case d of (h, Pz pz) \<Rightarrow> set_zval_color c pz | (h, Handlers hs) \<Rightarrow> set_object_color c h)"

lemma set_root_purple:
  assumes "root_ok s d"
  shows "\<exists>s'. set_root_color GC_PURPLE d s = Some s' \<and> frame s s' \<and> root_color s' d = Some GC_PURPLE"
proof (cases d rule: root_task.cases)
  case (1 h pz)
  then have "value_at s pz \<noteq> None" using assms by auto
  from set_zval_color_step [OF this, of GC_PURPLE] show ?thesis using 1
    by (auto simp: set_root_color_def frame_def root_color_def)
next
  case (2 h hs)
  then obtain ob where ob: "object_at s h = Some ob" "object_info s h \<noteq> None" using assms by (auto simp: object_info_def)
  obtain s' where s': "set_object_color GC_PURPLE h s = Some s'" "frame s s'" using set_object_color_step [OF ob(2)] by blast
  moreover have "root_color s' d = Some GC_PURPLE"
    using change_object_Some [OF ob(1), of "o_buffered_update (GC_SET_COLOR GC_PURPLE)"] s'(1) 2
    by (auto simp: set_object_color_def root_color_def)
  ultimately show ?thesis using 2 by (auto simp: set_root_color_def)
qed

text \<open>Both functions do the same with the node they are about.\<close>

lemma possible_root_step:
  assumes "possible_root (mem g) zv (h, u)" and "free_list g = Null" and "root_color (mem g) (h, u) = Some c"
    and "addr (mem g) (root_key (h, u)) = Some a"
  shows "gc_zval_possible_root collect zv g = (if c \<noteq> GC_PURPLE then do {
       g1 \<leftarrow> on_mem (set_root_color GC_PURPLE (h, u)) g;
       (if a = Null then do {
          (r, g2) \<leftarrow> gc_new_root collect zv (set_root_color GC_PURPLE (h, u)) g1;
          (case r of
             None \<Rightarrow> Some g2
           | Some newRoot \<Rightarrow> do {
               g3 \<leftarrow> link_root newRoot h u g2;
               on_mem (set_root_address (Root newRoot) (h, u)) g3
             })
        } else Some g1)
     } else Some g)"
proof -
  obtain z where z: "zvals (mem g) zv = Some z" "case z_value z of
     Is_object h' hs \<Rightarrow> (h, u) = (h', Handlers hs) \<and> h' \<noteq> 0 \<and> object_info (mem g) h' = Some (True, hs) \<and> get_gc (mem g) hs \<noteq> None
   | _ \<Rightarrow> (h, u) = (0, Pz zv)"
    using assms(1) by (auto simp: possible_root_def)
  show ?thesis
  proof (cases "z_value z")
    case (Is_object h' hs)
    then have d: "h = h'" "u = Handlers hs" "object_info (mem g) h' = Some (True, hs)" "\<exists>f. get_gc (mem g) hs = Some f" using z(2) by auto
    then obtain ob where ob: "object_at (mem g) h = Some ob" "o_valid ob" by (auto simp: object_info_def)
    then obtain bs where "objects (mem g) = Some bs" by (auto simp: object_at_Some)
    moreover have "c = GC_GET_COLOR (o_buffered ob)" "a = GC_ADDRESS (o_buffered ob)"
      using assms(3,4) d ob by (simp_all add: root_color_def addr_def)
    moreover have "set_root_color GC_PURPLE (h', Handlers hs) = set_object_color GC_PURPLE h'"
      "\<And>r. set_root_address (Root r) (h', Handlers hs) = set_object_address (Root r) h'"
      by (simp_all add: set_root_color_def set_root_address_def)
    note both = this
    ultimately show ?thesis unfolding d(1,2) both using z(1) Is_object d ob assms(2)
      by (auto simp: gc_zval_possible_root_def gc_zobj_possible_root_def cong: Option.bind_cong)
  next
    case (Is_array ht)
    then have d: "h = 0" "u = Pz zv" using z(2) by auto
    have both: "set_root_color GC_PURPLE (0, Pz zv) = set_zval_color GC_PURPLE zv"
      "\<And>r. set_root_address (Root r) (0, Pz zv) = set_zval_address (Root r) zv"
      by (simp_all add: set_root_color_def set_root_address_def)
    have "c = GC_GET_COLOR (z_u z)" "a = GC_ADDRESS (z_u z)" using assms(3,4) d z(1) by (simp_all add: root_color_def addr_def)
    then show ?thesis unfolding d both using z(1) Is_array assms(2)
      by (auto simp: gc_zval_possible_root_def cong: Option.bind_cong)
  next
    case Is_scalar
    then have d: "h = 0" "u = Pz zv" using z(2) by auto
    have both: "set_root_color GC_PURPLE (0, Pz zv) = set_zval_color GC_PURPLE zv"
      "\<And>r. set_root_address (Root r) (0, Pz zv) = set_zval_address (Root r) zv"
      by (simp_all add: set_root_color_def set_root_address_def)
    have "c = GC_GET_COLOR (z_u z)" "a = GC_ADDRESS (z_u z)" using assms(3,4) d z(1) by (simp_all add: root_color_def addr_def)
    then show ?thesis unfolding d both using z(1) Is_scalar assms(2)
      by (auto simp: gc_zval_possible_root_def cong: Option.bind_cong)
  qed
qed

lemma possible_root_pool:
  assumes "pool g [] xs us" and "length xs < last_unused g" and "free_list g = Null" and "possible_root (mem g) zv d"
  shows "\<exists>g' xs' us'. gc_zval_possible_root collect zv g = Some g' \<and> pool g' [] xs' us' \<and> set xs \<subseteq> set xs' \<and>
    (root_color (mem g) d \<noteq> Some GC_PURPLE \<longrightarrow> root_color (mem g') d = Some GC_PURPLE \<and> root_key d \<in> node_of g' ` set xs')"
proof -
  obtain h u where d: "d = (h, u)" by (cases d)
  note ok = possible_root_ok [OF assms(4)]
  obtain c a where c: "root_color (mem g) (h, u) = Some c" "addr (mem g) (root_key (h, u)) = Some a"
    using ok d by (cases d rule: root_task.cases) (auto simp: root_color_def addr_def value_at_def object_info_def)
  note step = possible_root_step [OF assms(4) [unfolded d] assms(3) c, of collect]
  show ?thesis
  proof (cases "c = GC_PURPLE")
    case True
    then show ?thesis using step assms(1) c d by (intro exI [of _ g] exI [of _ xs] exI [of _ us]) simp
  next
    case False
    obtain s1 where s1: "set_root_color GC_PURPLE (h, u) (mem g) = Some s1" "frame (mem g) s1" "root_color s1 (h, u) = Some GC_PURPLE"
      using set_root_purple [OF ok] d by blast
    let ?g = "g\<lparr>mem := s1\<rparr>"
    have p1: "pool ?g [] xs us" "root_ok (mem ?g) (h, u)" "addr (mem ?g) (root_key (h, u)) = Some a"
      using pool_frame [OF assms(1) s1(2)] ok d root_shape [OF frameD(1) [OF s1(2)]] frameD(2) [OF s1(2)] c(2) by simp_all
    show ?thesis
    proof (cases "a = Null")
      case True
      obtain r g2 g3 s3 us3 where g3: "gc_new_root collect zv (set_root_color GC_PURPLE (h, u)) ?g = Some (Some r, g2)"
        "link_root r h u g2 = Some g3" "set_root_address (Root r) (h, u) (mem g3) = Some s3" "mem g3 = mem ?g"
        "pool (g3\<lparr>mem := s3\<rparr>) [] (r # xs) us3" "root_of g3 r = (h, u)"
        using new_root_pool [OF p1(1) _ p1(2)] assms(2) p1(3) True by fastforce
      have "root_color s3 (h, u) = Some GC_PURPLE" using root_color_address [OF g3(3)] g3(4) s1(3) by simp
      moreover have "gc_zval_possible_root collect zv g = Some (g3\<lparr>mem := s3\<rparr>)"
        using step False True s1(1) g3(1-3) by (simp add: on_mem_Some)
      ultimately show ?thesis using g3(5,6) d
        by (intro exI [of _ "g3\<lparr>mem := s3\<rparr>"] exI [of _ "r # xs"] exI [of _ us3]) (auto simp: node_of_def)
    next
      case a: False
      have "gc_zval_possible_root collect zv g = Some ?g" using step False a s1(1) by (simp add: on_mem_Some)
      moreover have "root_key (h, u) \<in> node_of g ` set xs" using assms(1) c(2) a by (auto simp: pool_def buffer_inv_def)
      ultimately show ?thesis using p1(1) s1(3) d by (intro exI [of _ ?g] exI [of _ xs] exI [of _ us]) auto
    qed
  qed
qed

text \<open>Taking the zval or the object out of the buffer.\<close>

lemma entry_of_node:
  assumes "buffer_inv g xs" and "addr (mem g) n = Some a" and "a \<noteq> Null"
  obtains ys x zs where "xs = ys @ x # zs" and "node_of g x = n" and "a = Root x" and "filter (\<lambda>y. node_of g y \<noteq> n) xs = ys @ zs"
proof -
  have b: "buffered g xs" using assms(1) by (simp add: buffer_inv_def)
  obtain x where x: "x \<in> set xs" "node_of g x = n" using assms unfolding buffer_inv_def by blast
  then obtain ys zs where xs: "xs = ys @ x # zs" by (meson split_list)
  have "node_of g y \<noteq> n" if "y \<in> set (ys @ zs)" for y
    using buffered_keys(1) [OF b [unfolded xs] that] x(2) by simp
  then have "filter (\<lambda>y. node_of g y \<noteq> n) xs = ys @ zs" using xs x(2) by simp
  moreover have "a = Root x" using b x assms(2) by (auto simp: buffered_def)
  ultimately show thesis using that xs x(2) by blast
qed

lemma filter_absent:
  assumes "buffer_inv g xs" and "addr (mem g) n = Some Null"
  shows "filter (\<lambda>y. node_of g y \<noteq> n) xs = xs"
  using assms by (intro filter_True) (auto simp: buffer_inv_def buffered_def)

lemma clear_zval_step:
  assumes "zvals s p = Some z"
  shows "\<exists>s'. change_zval (z_u_update (\<lambda>_. Tagged Null GC_BLACK)) p s = Some s' \<and> same_shape s s' \<and> addr s' = (addr s)(Zv p := Some Null)"
  using assms change_zval_shape [OF assms, of "z_u_update (\<lambda>_. Tagged Null GC_BLACK)"]
  by (auto simp: change_zval_Some addr_def object_at_def fun_eq_iff split: gc_node.split)

lemma clear_object_step:
  assumes "object_at s h = Some ob"
  shows "\<exists>s'. change_object (o_buffered_update (\<lambda>_. Tagged Null GC_BLACK)) h s = Some s' \<and> same_shape s s' \<and>
    addr s' = (addr s)(Ob h := Some Null)"
proof -
  obtain bs where bs: "change_object (o_buffered_update (\<lambda>_. Tagged Null GC_BLACK)) h s = Some (s\<lparr>objects := Some bs\<rparr>)"
    "\<forall>k. object_at (s\<lparr>objects := Some bs\<rparr>) k = (if k = h then Some (o_buffered_update (\<lambda>_. Tagged Null GC_BLACK) ob) else object_at s k)"
    using change_object_Some [OF assms] by blast
  have ne: "objects s \<noteq> None" using assms by (auto simp: object_at_Some)
  have "same_shape s (s\<lparr>objects := Some bs\<rparr>)" using bs(2) assms ne by (auto simp: same_shape_def value_at_def object_info_def fun_eq_iff)
  moreover have "addr (s\<lparr>objects := Some bs\<rparr>) = (addr s)(Ob h := Some Null)"
    using bs(2) by (auto simp: addr_def fun_eq_iff split: gc_node.split)
  ultimately show ?thesis using bs(1) by blast
qed

lemma remove_zval_pool:
  assumes "pool g [] xs us" and "free_list g = Null" and "zvals (mem g) p = Some z"
  shows "\<exists>g' us'. GC_REMOVE_ZVAL_FROM_BUFFER p g = Some g' \<and> pool g' [] (filter (\<lambda>x. node_of g x \<noteq> Zv p) xs) us' \<and> node_of g' = node_of g"
proof (cases "GC_ADDRESS (z_u z) = Null")
  case True
  then have "addr (mem g) (Zv p) = Some Null" using assms(3) by (simp add: addr_def)
  then show ?thesis using assms True filter_absent [of g xs "Zv p"] by (auto simp: pool_def GC_REMOVE_ZVAL_FROM_BUFFER_def)
next
  case False
  have a: "addr (mem g) (Zv p) = Some (GC_ADDRESS (z_u z))" using assms(3) by (simp add: addr_def)
  have inv: "buffer_inv g xs" using assms(1) by (simp add: pool_def)
  obtain ys x zs where x: "xs = ys @ x # zs" "node_of g x = Zv p" "GC_ADDRESS (z_u z) = Root x" "filter (\<lambda>y. node_of g y \<noteq> Zv p) xs = ys @ zs"
    using entry_of_node [OF inv a False] by blast
  obtain s1 where s1: "change_zval (z_u_update (\<lambda>_. Tagged Null GC_BLACK)) p (mem g) = Some s1" "same_shape (mem g) s1"
    "addr s1 = (addr (mem g))(node_of g x := Some Null)"
    using clear_zval_step [OF assms(3)] x(2) by auto
  from remove_pool [OF assms(1) [unfolded x(1)] s1(2,3)]
  show ?thesis using assms(2,3) False x s1(1)
    by (auto simp: GC_REMOVE_ZVAL_FROM_BUFFER_def gc_remove_zval_from_buffer_def on_mem_def)
qed

lemma remove_object_pool:
  assumes "pool g [] xs us" and "\<not> gc_active g" and "object_at (mem g) h = Some ob"
  shows "\<exists>g' us'. GC_REMOVE_ZOBJ_FROM_BUFFER h g = Some g' \<and> pool g' [] (filter (\<lambda>x. node_of g x \<noteq> Ob h) xs) us' \<and> node_of g' = node_of g"
proof (cases "GC_ADDRESS (o_buffered ob) = Null")
  case True
  then have "addr (mem g) (Ob h) = Some Null" using assms(3) by (simp add: addr_def)
  then show ?thesis using assms True filter_absent [of g xs "Ob h"] by (auto simp: pool_def GC_REMOVE_ZOBJ_FROM_BUFFER_def)
next
  case False
  have a: "addr (mem g) (Ob h) = Some (GC_ADDRESS (o_buffered ob))" using assms(3) by (simp add: addr_def)
  have inv: "buffer_inv g xs" using assms(1) by (simp add: pool_def)
  obtain ys x zs where x: "xs = ys @ x # zs" "node_of g x = Ob h" "GC_ADDRESS (o_buffered ob) = Root x" "filter (\<lambda>y. node_of g y \<noteq> Ob h) xs = ys @ zs"
    using entry_of_node [OF inv a False] by blast
  obtain s1 where s1: "change_object (o_buffered_update (\<lambda>_. Tagged Null GC_BLACK)) h (mem g) = Some s1" "same_shape (mem g) s1"
    "addr s1 = (addr (mem g))(node_of g x := Some Null)"
    using clear_object_step [OF assms(3)] x(2) by auto
  from remove_pool [OF assms(1) [unfolded x(1)] s1(2,3)]
  show ?thesis using assms(2,3) x s1(1) by (auto simp: GC_REMOVE_ZOBJ_FROM_BUFFER_def on_mem_def)
qed

text \<open>A buffer that is set up has no possible roots and \<open>GC_ROOT_BUFFER_MAX_ENTRIES\<close> free entries.\<close>

lemma gc_init_pool:
  assumes "gc_enabled g" and "buf g = None" and "\<forall>n a. addr (mem g) n = Some a \<longrightarrow> a = Null"
  shows "pool (gc_init g) [] [] [] \<and> last_unused (gc_init g) = GC_ROOT_BUFFER_MAX_ENTRIES"
proof -
  have "addr (mem (gc_init g)) = addr (mem g)"
    using assms by (simp add: gc_init_def gc_reset_def Let_def fun_eq_iff addr_def object_at_def split: gc_node.split)
  then show ?thesis using assms
    by (auto simp: pool_def buffer_inv_def buffered_def ring_def next_of_def prev_of_def gc_init_def gc_reset_def Let_def)
qed

text \<open>
  With a full buffer and collections disabled, the colour of an object is left purple while no entry
  stands for it, and a purple object is not considered again.
\<close>

lemma zobj_lost_when_full:
  assumes "object_at (mem g) h = Some ob" and "GC_GET_COLOR (o_buffered ob) = GC_BLACK" and "GC_ADDRESS (o_buffered ob) = Null"
    and "get_gc (mem g) hs \<noteq> None" and "unused g = None" and "first_unused g = last_unused g" and "\<not> gc_enabled g"
    and "zvals (mem g) zv = Some z"
  shows "\<exists>g'. gc_zobj_possible_root collect zv h hs g = Some g' \<and> roots_next g' = roots_next g \<and> buf g' = buf g \<and>
    col (mem g') (Ob h) = GC_PURPLE \<and> addr (mem g') (Ob h) = Some Null \<and> gc_zobj_possible_root collect zv h hs g' = Some g'"
proof -
  obtain bs0 where ne: "objects (mem g) = Some bs0" using assms(1) by (auto simp: object_at_Some)
  obtain bs where bs: "set_object_color GC_PURPLE h (mem g) = Some ((mem g)\<lparr>objects := Some bs\<rparr>)"
    "object_at ((mem g)\<lparr>objects := Some bs\<rparr>) h = Some (o_buffered_update (GC_SET_COLOR GC_PURPLE) ob)"
    using change_object_Some [OF assms(1)] unfolding set_object_color_def by force
  let ?g1 = "g\<lparr>mem := (mem g)\<lparr>objects := Some bs\<rparr>\<rparr>"
  obtain m2 where m2: "set_zval_color GC_BLACK zv (mem ?g1) = Some m2" "objects m2 = Some bs" "get_gc m2 = get_gc (mem g)"
    using assms(8) by (simp add: set_zval_color_def change_zval_def)
  have n: "gc_new_root collect zv f ?g1 = Some (None, g\<lparr>mem := m2\<rparr>)" for f
    using assms(5-7) m2(1) by (simp add: gc_new_root_def free_root_def on_mem_def)
  have ob2: "object_at m2 h = Some (o_buffered_update (GC_SET_COLOR GC_PURPLE) ob)" using bs(2) m2(2) by (simp add: object_at_def)
  have "gc_zobj_possible_root collect zv h hs g = Some (g\<lparr>mem := m2\<rparr>)"
    using assms(1-4) ne bs(1) n by (auto simp: gc_zobj_possible_root_def on_mem_def)
  moreover have "gc_zobj_possible_root collect zv h hs (g\<lparr>mem := m2\<rparr>) = Some (g\<lparr>mem := m2\<rparr>)"
    using assms(4) m2(2,3) ob2 by (auto simp: gc_zobj_possible_root_def)
  ultimately show ?thesis using ob2 assms(3) by (intro exI [of _ "g\<lparr>mem := m2\<rparr>"]) (simp add: col_def addr_def)
qed

end
