(* ===== verification/Zend_Gc_Props.thy ===== *)
theory Zend_Gc_Props
  imports Zend_Gc_Correct Zend_Gc_Pool
begin

text \<open>The properties of the cycle collector.\<close>

subsection \<open>A run of the three phases\<close>

lemma to_free_update:
  "heap_ok (s\<lparr>zval_to_free := a\<rparr>) = heap_ok s" "globals_quiet (s\<lparr>zval_to_free := a\<rparr>) = globals_quiet s"
  "col (s\<lparr>zval_to_free := a\<rparr>) = col s" "rc (s\<lparr>zval_to_free := a\<rparr>) = rc s" "addr (s\<lparr>zval_to_free := a\<rparr>) = addr s"
  "gc_nodes (s\<lparr>zval_to_free := a\<rparr>) = gc_nodes s" "gc_kids (s\<lparr>zval_to_free := a\<rparr>) = gc_kids s" "same_shape s (s\<lparr>zval_to_free := a\<rparr>)"
proof -
  let ?s = "s\<lparr>zval_to_free := a\<rparr>"
  show sh: "same_shape s ?s" by (simp add: same_shape_def value_at_def object_info_def object_at_def fun_eq_iff)
  note same = same_shapeD [OF sh]
  show "heap_ok ?s = heap_ok s" "gc_nodes ?s = gc_nodes s" "gc_kids ?s = gc_kids s" using same by auto
  show "globals_quiet ?s = globals_quiet s" by (simp add: globals_quiet_def same)
  show "col ?s = col s" "rc ?s = rc s" "addr ?s = addr s"
    by (simp_all add: fun_eq_iff col_def rc_def addr_def same object_at_def split: gc_node.split option.split)
qed

lemma root_ok_to_free: "root_ok (s\<lparr>zval_to_free := a\<rparr>) d = root_ok s d"
  using root_shape [OF to_free_update(8)] .

text \<open>Only the memory and the ring count for the buffer.\<close>

lemma buffer_inv_cong:
  assumes "buf g' = buf g" and "roots_next g' = roots_next g" and "roots_prev g' = roots_prev g" and "mem g' = mem g"
  shows "root_of g' = root_of g" and "node_of g' = node_of g" and "ring g' xs = ring g xs" and "buffer_inv g' xs = buffer_inv g xs"
proof -
  have r: "root_at g' p = root_at g p" for p using assms by (cases p) simp_all
  have d: "root_data g' = root_data g" by (simp add: root_data_def r fun_eq_iff)
  then show n: "root_of g' = root_of g" "node_of g' = node_of g" by (simp_all add: root_of_def node_of_def fun_eq_iff)
  have "next_of p g' = next_of p g" "prev_of p g' = prev_of p g" for p using assms r by (cases p; simp add: next_of_def prev_of_def)+
  then show "ring g' xs = ring g xs" by (simp add: ring_def)
  then show "buffer_inv g' xs = buffer_inv g xs" by (simp add: buffer_inv_def buffered_def n d assms)
qed

lemma buffer_inv_to_free: "buffer_inv (g\<lparr>mem := (mem g)\<lparr>zval_to_free := a\<rparr>\<rparr>) xs = buffer_inv g xs"
  by (simp add: buffer_inv_def buffered_def to_free_update root_ok_to_free)

lemma chain_unique: "chain s a ns \<Longrightarrow> chain s a ms \<Longrightarrow> ns = ms"
proof (induction ns arbitrary: a ms)
  case Nil
  then show ?case by (cases ms) auto
next
  case (Cons n ns)
  then show ?case by (cases ms) auto
qed

text \<open>What a collection leaves behind before destructors run.\<close>

definition collected_state :: "'h gc_globals \<Rightarrow> root_ptr list \<Rightarrow> 'h gc_globals \<Rightarrow> gc_node list \<Rightarrow> bool" where
  "collected_state g xs g' fs \<longleftrightarrow> chain (mem g') (free_list g') fs \<and> distinct fs \<and> set fs = {n \<in> garbage g xs. is_zval n} \<and>
     ring g' [] \<and> same_shape (mem g) (mem g') \<and> (\<forall>n a. addr (mem g') n = Some a \<longrightarrow> a \<noteq> Null \<longrightarrow> n \<in> set fs) \<and>
     (\<forall>n. col (mem g') n = (if n \<in> garbage g xs then gc_done n else if n \<in> candidates g xs then GC_BLACK else col (mem g) n)) \<and>
     (\<forall>n. rc (mem g') n = (if is_zval n then rc (mem g) n + (if n \<in> garbage g xs then 1 else 0)
        else rc (mem g) n - gc_edges (mem g) (garbage g xs) n)) \<and>
     \<not> gc_active g' \<and> gc_runs g' = gc_runs g + 1 \<and> zval_to_free (mem g') = Null"

lemma garbage_cong:
  assumes "mem g' = (mem g)\<lparr>zval_to_free := a\<rparr>" and "node_of g' = node_of g"
  shows "candidates g' xs = candidates g xs" and "garbage g' xs = garbage g xs"
proof -
  show c: "candidates g' xs = candidates g xs" by (simp add: candidates_def assms to_free_update)
  have "outer_counts g' xs = outer_counts g xs" by (simp add: outer_counts_def c assms to_free_update fun_eq_iff)
  then show "garbage g' xs = garbage g xs" by (simp add: garbage_def c assms to_free_update)
qed

lemma find_garbage_run:
  assumes "gc_start g xs"
  shows "\<exists>g' fs. gc_find_garbage g = Some g' \<and> collected_state g xs g' fs"
proof -
  let ?g = "g\<lparr>gc_runs := gc_runs g + 1, mem := (mem g)\<lparr>zval_to_free := Free_list_end\<rparr>, gc_active := True\<rparr>"
  have inv: "buffer_inv ?g xs" "node_of ?g = node_of g"
    using assms buffer_inv_cong [of ?g "g\<lparr>mem := (mem g)\<lparr>zval_to_free := Free_list_end\<rparr>\<rparr>"] buffer_inv_to_free [where g = g and a = Free_list_end and xs = xs]
    by (simp_all add: gc_start_def)
  note gar = garbage_cong [OF _ inv(2), where a = Free_list_end]
  have ok: "heap_ok (mem ?g)" "globals_quiet (mem ?g)" "\<forall>n. col (mem ?g) n \<noteq> GC_GREY \<and> col (mem ?g) n \<noteq> GC_WHITE"
    "zval_to_free (mem ?g) = Free_list_end"
    using assms by (simp_all add: gc_start_def to_free_update)
  from phases_find_garbage [OF ok(1,2) inv(1) ok(3,4)]
  obtain g1 g2 g3 fs where p: "gc_mark_roots ?g = Some g1" "gc_scan_roots g1 = Some g2" "gc_collect_roots g2 = Some g3"
    "later ?g g3" "collecting g3 [] fs" "distinct fs" "set fs = {n \<in> garbage ?g xs. is_zval n}"
    "col (mem g3) = (\<lambda>n. if n \<in> garbage ?g xs then gc_done n else if n \<in> candidates ?g xs then GC_BLACK else col (mem ?g) n)"
    "\<forall>n. rc (mem g3) n = rc (mem ?g) n - gc_edges (mem ?g) (garbage ?g xs) n +
       (if is_zval n then gc_edges (mem ?g) (garbage ?g xs) n + (if n \<in> garbage ?g xs then 1 else 0) else 0)"
    by blast
  let ?g' = "g3\<lparr>free_list := zval_to_free (mem g3), mem := (mem g3)\<lparr>zval_to_free := Null\<rparr>, gc_active := False\<rparr>"
  have e: "gc_find_garbage g = Some ?g'" using p(1-3) unfolding gc_find_garbage_def Let_def by simp
  have ring: "ring ?g' [] = ring g3 []"
    using buffer_inv_cong(3) [of ?g' "g3\<lparr>mem := (mem g3)\<lparr>zval_to_free := Null\<rparr>\<rparr>"] by simp
  have "chain (mem ?g') (free_list ?g') fs = chain (mem g3) (zval_to_free (mem g3)) fs"
    using chain_cong [of fs "mem ?g'" "mem g3" "zval_to_free (mem g3)"] by (simp add: to_free_update)
  moreover have "same_shape (mem g) (mem ?g')"
    using p(4) same_shape_trans [OF same_shape_trans [OF to_free_update(8) [of "mem g" Free_list_end]] to_free_update(8) [of "mem g3" Null]]
    by (simp add: later_def)
  moreover have "gc_runs g3 = gc_runs g + 1" using p(4) by (simp add: later_def settings_def)
  moreover have "ring g3 []" "chain (mem g3) (zval_to_free (mem g3)) fs" "\<forall>n a. addr (mem g3) n = Some a \<longrightarrow> a \<noteq> Null \<longrightarrow> n \<in> set fs"
    using p(5) by (auto simp: collecting_def buffered_def gather_inv_def)
  moreover have "rc (mem g3) n = (if is_zval n then rc (mem g) n + (if n \<in> garbage g xs then 1 else 0)
        else rc (mem g) n - gc_edges (mem g) (garbage g xs) n)" for n
    using p(9) by (simp add: gar to_free_update)
  moreover have "col (mem g3) n = (if n \<in> garbage g xs then gc_done n else if n \<in> candidates g xs then GC_BLACK else col (mem g) n)" for n
    using p(8) by (simp add: gar to_free_update)
  ultimately have "collected_state g xs ?g' fs"
    using p(6,7) ring unfolding collected_state_def by (simp add: gar to_free_update)
  then show ?thesis using e by blast
qed

subsection \<open>Counts that tell the truth\<close>

text \<open>A count is the number of references from the heap and, \<open>held\<close>, of those from elsewhere.\<close>

definition counts_true :: "'h gc_heap \<Rightarrow> (gc_node \<Rightarrow> nat) \<Rightarrow> bool" where
  "counts_true s held \<longleftrightarrow> (\<forall>n\<in>gc_nodes s. unat (rc s n) = held n + (\<Sum>m\<in>gc_nodes s. count_list (gc_kids s m) n))"

lemma outer_counts_true:
  assumes "counts_true (mem g) held" and "heap_ok (mem g)" and "n \<in> candidates g xs"
  shows "outer_counts g xs n = of_nat (held n + (\<Sum>m\<in>gc_nodes (mem g) - candidates g xs. count_list (gc_kids (mem g) m) n))"
    and "outer_counts g xs n = 0 \<longleftrightarrow> held n = 0 \<and> (\<forall>m\<in>gc_nodes (mem g) - candidates g xs. n \<notin> set (gc_kids (mem g) m))"
proof -
  let ?G = "candidates g xs" and ?N = "gc_nodes (mem g)" and ?c = "\<lambda>m. count_list (gc_kids (mem g) m) n"
  have G: "?G \<subseteq> ?N" using candidates_part [OF assms(2)] by (simp add: gc.part_def)
  have n: "unat (rc (mem g) n) = held n + (\<Sum>m\<in>?N. ?c m)" using assms(1,3) G by (auto simp: counts_true_def)
  have s: "(\<Sum>m\<in>?N. ?c m) = (\<Sum>m\<in>?N - ?G. ?c m) + (\<Sum>m\<in>?G. ?c m)" using sum.subset_diff [OF G finite_gc_nodes] .
  have "rc (mem g) n = of_nat (unat (rc (mem g) n))" by simp
  also have "\<dots> = of_nat (held n + (\<Sum>m\<in>?N - ?G. ?c m)) + of_nat (\<Sum>m\<in>?G. ?c m)" unfolding n s by simp
  finally have "rc (mem g) n = of_nat (held n + (\<Sum>m\<in>?N - ?G. ?c m)) + of_nat (\<Sum>m\<in>?G. ?c m)" .
  moreover have "gc_edges (mem g) ?G n = of_nat (\<Sum>m\<in>?G. ?c m)" by (simp add: gc.edges_def)
  ultimately show o: "outer_counts g xs n = of_nat (held n + (\<Sum>m\<in>?N - ?G. ?c m))" by (simp add: outer_counts_def)
  have "held n + (\<Sum>m\<in>?N - ?G. ?c m) \<le> unat (rc (mem g) n)" using n s by simp
  then have "held n + (\<Sum>m\<in>?N - ?G. ?c m) < 2 ^ LENGTH(32)" using unsigned_less [of "rc (mem g) n", where ?'a = nat] by simp
  then have "outer_counts g xs n = 0 \<longleftrightarrow> held n + (\<Sum>m\<in>?N - ?G. ?c m) = 0" 
    unfolding o word_of_nat_eq_0_iff by (auto dest: nat_dvd_not_less)
  then show "outer_counts g xs n = 0 \<longleftrightarrow> held n = 0 \<and> (\<forall>m\<in>?N - ?G. n \<notin> set (gc_kids (mem g) m))"
    using finite_gc_nodes [of "mem g"] by (auto simp: sum_eq_0_iff count_list_0_iff)
qed

text \<open>A node that is held, and all that it reaches, is no garbage.\<close>

lemma held_not_garbage:
  assumes "gc_start g xs" and "counts_true (mem g) held" and "held r > 0" and "gc_reach (mem g) r n"
  shows "n \<notin> garbage g xs"
proof
  let ?G = "candidates g xs" and ?N = "gc_nodes (mem g)"
  assume n: "n \<in> garbage g xs"
  have ok: "heap_ok (mem g)" using assms(1) by (simp add: gc_start_def)
  have G: "?G \<subseteq> ?N" "\<And>k. k \<in> ?G \<Longrightarrow> set (gc_kids (mem g) k) \<subseteq> ?G" using candidates_part [OF ok, of xs] by (auto simp: gc.part_def)
  have dead: "outer_counts g xs y = 0" if "y \<in> ?G" "gc_reach (mem g) y n" for y
    using n that by (auto simp: garbage_def gc.live_def)
  have in_N: "r \<in> ?N"
  proof (rule ccontr)
    assume r: "r \<notin> ?N"
    have "n \<in> - ?N"
    proof (rule gc.reach_closed [OF assms(4)])
      show "r \<in> - ?N" using r by simp
      show "set (gc_kids (mem g) k) \<subseteq> - ?N" if "k \<in> - ?N" for k using that gc_kids_outside [OF ok, of k] by simp
    qed
    then show False using n G(1) by (auto simp: garbage_def)
  qed
  have "n \<notin> ?G"
  proof
    assume "n \<in> ?G"
    have "n \<in> ?N - ?G"
    proof (rule gc.reach_back [OF assms(4)])
      show "r \<in> ?N - ?G" using in_N dead [of r] outer_counts_true(2) [OF assms(2) ok, of r xs] assms(3,4) by auto
      show "k \<in> ?N - ?G" if "m \<in> ?N - ?G" "k \<in> set (gc_kids (mem g) m)" "gc_reach (mem g) k n" for m k
        using that dead [of k] outer_counts_true(2) [OF assms(2) ok, of k xs] gc_kids_closed [of m "mem g"] by auto
    qed
    then show False using \<open>n \<in> ?G\<close> by simp
  qed
  then show False using n by (simp add: garbage_def)
qed

text \<open>What only candidates reach, none of them held, is garbage.\<close>

lemma unheld_garbage:
  assumes "gc_start g xs" and "counts_true (mem g) held" and "\<And>y. gc_reach (mem g) y n \<Longrightarrow> held y = 0 \<and> y \<in> candidates g xs"
  shows "n \<in> garbage g xs"
proof -
  have ok: "heap_ok (mem g)" using assms(1) by (simp add: gc_start_def)
  have "outer_counts g xs y = 0" if y: "y \<in> candidates g xs" "gc_reach (mem g) y n" for y
  proof -
    have "y \<notin> set (gc_kids (mem g) m)" if "m \<notin> candidates g xs" for m
      using assms(3) [of m] gc.reach_kid [OF _ y(2), of m] that by blast
    then show ?thesis using outer_counts_true(2) [OF assms(2) ok y(1)] assms(3) [OF y(2)] by blast
  qed
  then show ?thesis using assms(3) [of n] by (auto simp: garbage_def gc.live_def)
qed

subsection \<open>A small heap\<close>

text \<open>
  Zval 1 is an array that holds zval 2, an object whose one entry is zval 1; zval 3 is an array
  that the program still holds. Zvals 1 and 3 have lost a reference and are possible roots.
\<close>

definition small_heap :: "unit gc_heap" where
  "small_heap = \<lparr>zvals = [1 \<mapsto> \<lparr>z_value = Is_array 1, refcount__gc = 1, z_u = Tagged (Root (Buf 0)) GC_PURPLE\<rparr>,
       2 \<mapsto> \<lparr>z_value = Is_object 1 (), refcount__gc = 1, z_u = Tagged Null GC_BLACK\<rparr>,
       3 \<mapsto> \<lparr>z_value = Is_array 2, refcount__gc = 1, z_u = Tagged (Root (Buf 1)) GC_PURPLE\<rparr>],
     tables = [1 \<mapsto> [2], 2 \<mapsto> []], symbol_table = 0,
     objects = Some [None, Some \<lparr>o_valid = True, o_destructor_called = False, o_has_dtor = False, o_refcount = 1,
       o_buffered = Tagged Null GC_BLACK, handlers_of_zvals = ()\<rparr>],
     get_gc = (\<lambda>_. Some (\<lambda>_. ([Some 1], None))), zval_to_free = Null\<rparr>"

definition small_buffer :: "unit gc_globals" where
  "small_buffer = \<lparr>mem = small_heap, gc_enabled = True, gc_active = False,
     buf = Some [Some \<lparr>r_prev = Some (Buf 1), r_next = Roots, r_handle = 0, r_u = Pz 1\<rparr>,
       Some \<lparr>r_prev = Some Roots, r_next = Buf 0, r_handle = 0, r_u = Pz 3\<rparr>, None],
     roots_prev = Some (Buf 0), roots_next = Buf 1, unused = None, first_unused = 2, last_unused = 3, free_list = Null,
     next_to_free = Null, gc_runs = 0, collected = 0\<rparr>"

lemma small_values:
  "value_at small_heap p = (if p = 1 then Some (Is_array 1) else if p = 2 then Some (Is_object 1 ()) else
     if p = 3 then Some (Is_array 2) else None)"
  "object_info small_heap h = (if h = 1 then Some (True, ()) else None)" "\<not> is_global small_heap p"
  "entries_of small_heap h = (if h = 1 then [Some 1] else [])" "objects small_heap \<noteq> None" "symbol_table small_heap = 0"
  "tables small_heap = [1 \<mapsto> [2], 2 \<mapsto> []]"
  by (auto simp: value_at_def object_info_def object_at_def slot_def is_global_def entries_of_def all_entries_def small_heap_def
      nth_Cons' split: if_splits)

lemma small_graph:
  "heap_ok small_heap" "gc_nodes small_heap = {Zv 1, Zv 2, Zv 3, Ob 1}"
  "gc_kids small_heap n = (if n = Zv 1 then [Zv 2] else if n = Zv 2 then [Ob 1] else if n = Ob 1 then [Zv 1] else [])"
proof -
  have "{p. value_at small_heap p \<noteq> None} = {1, 2, 3}" by (auto simp: small_values)
  then have "finite {p. value_at small_heap p \<noteq> None}" by simp
  then show ok: "heap_ok small_heap" unfolding heap_ok_def by (auto simp: small_values split: if_splits)
  have "{p. value_at small_heap p \<noteq> None \<and> \<not> is_global small_heap p} = {1, 2, 3}" "{h. object_info small_heap h \<noteq> None} = {1}"
    by (auto simp: small_values)
  then show "gc_nodes small_heap = {Zv 1, Zv 2, Zv 3, Ob 1}" using ok by (auto simp: gc_nodes_def)
  show "gc_kids small_heap n = (if n = Zv 1 then [Zv 2] else if n = Zv 2 then [Ob 1] else if n = Ob 1 then [Zv 1] else [])"
    by (cases n) (auto simp: gc_kids_def small_values)
qed

lemma small_colors:
  "col small_heap n = (if n \<in> {Zv 1, Zv 3} then GC_PURPLE else GC_BLACK)"
  "rc small_heap n = (if n \<in> {Zv 1, Zv 2, Zv 3, Ob 1} then 1 else 0)"
  "addr small_heap n = (if n = Zv 1 then Some (Root (Buf 0)) else if n = Zv 3 then Some (Root (Buf 1))
     else if n \<in> {Zv 2, Ob 1} then Some Null else None)"
proof -
  have z: "zvals small_heap p = (if p = 1 then Some \<lparr>z_value = Is_array 1, refcount__gc = 1, z_u = Tagged (Root (Buf 0)) GC_PURPLE\<rparr>
      else if p = 2 then Some \<lparr>z_value = Is_object 1 (), refcount__gc = 1, z_u = Tagged Null GC_BLACK\<rparr>
      else if p = 3 then Some \<lparr>z_value = Is_array 2, refcount__gc = 1, z_u = Tagged (Root (Buf 1)) GC_PURPLE\<rparr> else None)" for p
    by (simp add: small_heap_def)
  have ob: "object_at small_heap h = (if h = 1 then Some \<lparr>o_valid = True, o_destructor_called = False, o_has_dtor = False,
      o_refcount = 1, o_buffered = Tagged Null GC_BLACK, handlers_of_zvals = ()\<rparr> else None)" for h
    by (auto simp: small_heap_def object_at_def slot_def nth_Cons' split: if_splits)
  show "col small_heap n = (if n \<in> {Zv 1, Zv 3} then GC_PURPLE else GC_BLACK)"
    by (cases n) (simp_all add: col_def z ob small_values)
  show "rc small_heap n = (if n \<in> {Zv 1, Zv 2, Zv 3, Ob 1} then 1 else 0)"
    by (cases n) (simp_all add: rc_def z ob small_values)
  show "addr small_heap n = (if n = Zv 1 then Some (Root (Buf 0)) else if n = Zv 3 then Some (Root (Buf 1))
     else if n \<in> {Zv 2, Ob 1} then Some Null else None)"
    by (cases n) (simp_all add: addr_def z ob)
qed

lemma small_start: "gc_start small_buffer [Buf 1, Buf 0]"
proof -
  have m: "mem small_buffer = small_heap" by (simp add: small_buffer_def)
  have r: "root_of small_buffer (Buf 0) = (0, Pz 1)" "root_of small_buffer (Buf 1) = (0, Pz 3)"
    "root_data small_buffer (Buf 0) \<noteq> None" "root_data small_buffer (Buf 1) \<noteq> None"
    by (simp_all add: root_of_def root_data_def small_buffer_def slot_def)
  have "ring small_buffer [Buf 1, Buf 0]" by (simp add: ring_def next_of_def prev_of_def small_buffer_def slot_def)
  then have "buffer_inv small_buffer [Buf 1, Buf 0]"
    using r unfolding buffer_inv_def buffered_def m by (auto simp: small_colors node_of_def small_values split: if_splits)
  then show ?thesis by (simp add: gc_start_def m small_graph small_colors globals_quiet_def small_values)
qed

lemma small_candidates: "candidates small_buffer [Buf 1, Buf 0] = {Zv 1, Zv 2, Zv 3, Ob 1}"
proof -
  have m: "mem small_buffer = small_heap" by (simp add: small_buffer_def)
  have n: "node_of small_buffer (Buf 0) = Zv 1" "node_of small_buffer (Buf 1) = Zv 3"
    by (simp_all add: node_of_def root_of_def root_data_def small_buffer_def slot_def)
  have k2: "gc_reach small_heap (Zv 1) (Zv 2)" by (rule gc.reach_kid [OF _ gc.reach_refl]) (simp add: small_graph)
  have k: "gc_reach small_heap (Zv 1) (Ob 1)" by (rule gc.reach_step [OF k2]) (simp add: small_graph)
  have "m \<in> {Zv 1, Zv 2, Zv 3, Ob 1}" if "gc_reach small_heap x m" "x \<in> {Zv 1, Zv 3}" for x m
    by (rule gc.reach_closed [OF that(1)]) (use that(2) in \<open>auto simp: small_graph split: if_splits\<close>)
  then show ?thesis using k k2 by (auto simp: candidates_def m n small_colors simp del: One_nat_def)
qed

lemma small_counts: "counts_true (mem small_buffer) (\<lambda>n. if n = Zv 3 then 1 else 0)"
  by (auto simp: counts_true_def small_buffer_def small_graph small_colors)

lemma small_dead:
  assumes "gc_reach (mem small_buffer) y (Zv 1)"
  shows "y \<in> {Zv 1, Zv 2, Ob 1}"
proof (rule ccontr)
  assume y: "y \<notin> {Zv 1, Zv 2, Ob 1}"
  have "Zv 1 \<in> {y}" by (rule gc.reach_closed [OF assms]) (use y in \<open>auto simp: small_buffer_def small_graph\<close>)
  then show False using y by simp
qed

subsection \<open>The properties\<close>

text \<open>
  C2: the three phases end. The list they leave holds, once each, the zvals among the garbage: the
  nodes a purple possible root reaches and no node with a reference from outside of them does. The
  ring of roots is empty, no zval but those on the list has an address left, the counts are what
  they were, with one more for each zval on the list and without the references garbage holds to
  objects, and the colours are black (purple for the objects of the garbage).
\<close>

theorem gc_finds_garbage:
  assumes "gc_start g xs"
  shows "\<exists>g' fs. gc_find_garbage g = Some g' \<and> chain (mem g') (free_list g') fs \<and> distinct fs \<and>
    set fs = {n \<in> garbage g xs. is_zval n} \<and> ring g' [] \<and>
    (\<forall>n a. addr (mem g') n = Some a \<longrightarrow> a \<noteq> Null \<longrightarrow> n \<in> set fs) \<and>
    (\<forall>n. rc (mem g') n = (if is_zval n then rc (mem g) n + (if n \<in> garbage g xs then 1 else 0)
        else rc (mem g) n - gc_edges (mem g) (garbage g xs) n)) \<and>
    (\<forall>n. col (mem g') n = (if n \<in> garbage g xs then gc_done n else if n \<in> candidates g xs then GC_BLACK else col (mem g) n))"
  using find_garbage_run [OF assms] unfolding collected_state_def by blast

theorem gc_finds_garbage_witness:
  "\<exists>g' fs. gc_find_garbage small_buffer = Some g' \<and> chain (mem g') (free_list g') fs \<and> distinct fs \<and> ring g' []"
  using gc_finds_garbage [OF small_start] by blast

text \<open>
  C3: when every count is the number of references from the heap and of those held elsewhere,
  nothing that a held node reaches is on the list.
\<close>

theorem gc_frees_nothing_in_use:
  assumes "gc_start g xs" and "counts_true (mem g) held" and "gc_find_garbage g = Some g'" and "chain (mem g') (free_list g') fs"
    and "held r > 0" and "gc_reach (mem g) r n"
  shows "n \<notin> set fs"
proof -
  obtain ms where "chain (mem g') (free_list g') ms" "set ms = {n \<in> garbage g xs. is_zval n}"
    using find_garbage_run [OF assms(1)] assms(3) by (auto simp: collected_state_def)
  then show ?thesis using chain_unique assms(4) held_not_garbage [OF assms(1,2,5,6)] by blast
qed

theorem gc_frees_nothing_in_use_witness:
  "\<exists>g' fs. gc_find_garbage small_buffer = Some g' \<and> chain (mem g') (free_list g') fs \<and> Zv 3 \<notin> set fs"
proof -
  obtain g' fs where g': "gc_find_garbage small_buffer = Some g'" "chain (mem g') (free_list g') fs"
    using find_garbage_run [OF small_start] by (auto simp: collected_state_def)
  have "Zv 3 \<notin> set fs"
    by (rule gc_frees_nothing_in_use [OF small_start small_counts g', of "Zv 3"]) simp_all
  then show ?thesis using g' by blast
qed

text \<open>
  C11: a zval that nothing held leads to, such that all that leads to it is reached from the purple
  possible roots, is on the list: cycles do get collected.
\<close>

theorem gc_frees_unused:
  assumes "gc_start g xs" and "counts_true (mem g) held" and "gc_find_garbage g = Some g'" and "chain (mem g') (free_list g') fs"
    and "\<And>y. gc_reach (mem g) y (Zv p) \<Longrightarrow> held y = 0 \<and> y \<in> candidates g xs"
  shows "Zv p \<in> set fs"
proof -
  obtain ms where "chain (mem g') (free_list g') ms" "set ms = {n \<in> garbage g xs. is_zval n}"
    using find_garbage_run [OF assms(1)] assms(3) by (auto simp: collected_state_def)
  moreover have "Zv p \<in> garbage g xs" using unheld_garbage [OF assms(1,2,5)] .
  ultimately show ?thesis using chain_unique [OF assms(4)] by auto
qed

theorem gc_frees_unused_witness:
  "\<exists>g' fs. gc_find_garbage small_buffer = Some g' \<and> chain (mem g') (free_list g') fs \<and> Zv 1 \<in> set fs"
proof -
  obtain g' fs where g': "gc_find_garbage small_buffer = Some g'" "chain (mem g') (free_list g') fs"
    using find_garbage_run [OF small_start] by (auto simp: collected_state_def)
  have "Zv 1 \<in> set fs"
    by (rule gc_frees_unused [OF small_start small_counts g']) (use small_dead small_dead [of "Zv 3"] small_candidates in \<open>auto simp del: One_nat_def\<close>)
  then show ?thesis using g' by blast
qed

lemma small_pool: "pool small_buffer [] [Buf 1, Buf 0] []"
proof -
  have "{..<2 :: nat} = {0, 1}" by auto
  then show ?thesis using small_start by (auto simp: pool_def gc_start_def small_buffer_def)
qed

text \<open>
  C12: as long as the buffer has room, making a zval a possible root keeps the buffer well-formed:
  the ring, the returned entries and the unused ones share it out, and the nodes with an address
  are those of the ring. The zval, or the object it refers to, becomes purple, if it was not, and has
  an entry; no entry is lost.
\<close>

theorem gc_possible_root_is_buffered:
  assumes "pool g [] xs us" and "length xs < last_unused g" and "free_list g = Null" and "possible_root (mem g) zv d"
  shows "\<exists>g' xs' us'. gc_zval_possible_root collect zv g = Some g' \<and> pool g' [] xs' us' \<and> set xs \<subseteq> set xs' \<and>
    (root_color (mem g) d \<noteq> Some GC_PURPLE \<longrightarrow> root_color (mem g') d = Some GC_PURPLE \<and> root_key d \<in> node_of g' ` set xs')"
  using possible_root_pool [OF assms] .

theorem gc_possible_root_is_buffered_witness:
  "\<exists>g' xs' us'. gc_zval_possible_root (\<lambda>g. None) 2 small_buffer = Some g' \<and> pool g' [] xs' us' \<and> Ob 1 \<in> node_of g' ` set xs'"
proof -
  have z: "zvals small_heap 2 = Some \<lparr>z_value = Is_object 1 (), refcount__gc = 1, z_u = Tagged Null GC_BLACK\<rparr>"
    "get_gc small_heap () \<noteq> None" "object_info small_heap 1 = Some (True, ())"
    by (simp_all add: small_heap_def object_info_def object_at_def slot_def)
  then have "possible_root (mem small_buffer) 2 (1, Handlers ())" by (simp add: possible_root_def small_buffer_def)
  moreover have "root_color (mem small_buffer) (1, Handlers ()) = Some GC_BLACK"
    by (simp add: root_color_def small_buffer_def small_heap_def object_at_def slot_def)
  moreover have "length [Buf 1, Buf 0] < last_unused small_buffer" "free_list small_buffer = Null" by (simp_all add: small_buffer_def)
  ultimately show ?thesis using gc_possible_root_is_buffered [OF small_pool, of 2 "(1, Handlers ())" "\<lambda>g. None"] by fastforce
qed

text \<open>
  C40: removing a zval, or an object while no collection runs, from the buffer keeps it well-formed;
  the ring loses the entry of that node and no other.
\<close>

theorem gc_remove_takes_its_entry:
  assumes "pool g [] xs us" and "free_list g = Null" and "\<not> gc_active g"
  shows "(zvals (mem g) p \<noteq> None \<longrightarrow> (\<exists>g' us'. GC_REMOVE_ZVAL_FROM_BUFFER p g = Some g' \<and>
      pool g' [] (filter (\<lambda>x. node_of g x \<noteq> Zv p) xs) us' \<and> node_of g' = node_of g)) \<and>
    (object_at (mem g) h \<noteq> None \<longrightarrow> (\<exists>g' us'. GC_REMOVE_ZOBJ_FROM_BUFFER h g = Some g' \<and>
      pool g' [] (filter (\<lambda>x. node_of g x \<noteq> Ob h) xs) us' \<and> node_of g' = node_of g))"
  using remove_zval_pool [OF assms(1,2)] remove_object_pool [OF assms(1,3)] by auto

theorem gc_remove_takes_its_entry_witness:
  "\<exists>g' us'. GC_REMOVE_ZVAL_FROM_BUFFER 3 small_buffer = Some g' \<and> pool g' [] [Buf 0] us'"
proof -
  have n: "node_of small_buffer (Buf 0) = Zv 1" "node_of small_buffer (Buf 1) = Zv 3"
    by (simp_all add: node_of_def root_of_def root_data_def small_buffer_def slot_def)
  have f: "free_list small_buffer = Null" "\<not> gc_active small_buffer" "zvals (mem small_buffer) 3 \<noteq> None"
    by (simp_all add: small_buffer_def small_heap_def)
  have "filter (\<lambda>x. node_of small_buffer x \<noteq> Zv 3) [Buf 1, Buf 0] = [Buf 0]" using n by (simp del: One_nat_def)
  then show ?thesis using gc_remove_takes_its_entry [OF small_pool f(1,2), of 3 0] f(3) by auto
qed

end
