(* ===== verification/Zend_Mm.thy ===== *)
theory Zend_Mm
  imports Zend_Prelude
begin

text \<open>
  \<open>Zend/zend_alloc.c\<close>, the heap manager, on a 64-bit machine in the release configuration
  (no \<open>ZEND_DEBUG\<close>, so neither cookies nor magic numbers, but \<open>ZEND_MM_SAFE_UNLINKING\<close>; the portable
  code of the bit scans). Memory is split by field: a map from addresses for each member of a block
  header. A pointer to a free block is a \<open>fblk\<close>: \<open>NULL\<close>, one of the two kinds of list heads inside the
  heap structure that the code dresses up as blocks, or the address of a block. A pointer to such a
  pointer is a \<open>fcell\<close>: a root of a tree or a child of a block. \<open>None\<close> is an access to memory that
  was never written, a corrupted heap (\<open>zend_mm_panic\<close> ends the process) or a loop that does not end.
\<close>

unbundle bit_operations_syntax

subsection \<open>Sizes\<close>

definition ZEND_MM_NUM_BUCKETS :: nat where "ZEND_MM_NUM_BUCKETS = 64"
definition ZEND_MM_CACHE_SIZE :: uint where "ZEND_MM_CACHE_SIZE = 64 * 4 * 1024"
definition ZEND_MM_MAX_REST_BLOCKS :: int where "ZEND_MM_MAX_REST_BLOCKS = 16"

definition ZEND_MM_ALIGNED_SIZE :: "ulong \<Rightarrow> ulong" where
  "ZEND_MM_ALIGNED_SIZE sz = (sz + 8 - 1) AND NOT (8 - 1)"

definition ZEND_MM_ALIGNED_HEADER_SIZE :: ulong where "ZEND_MM_ALIGNED_HEADER_SIZE = ZEND_MM_ALIGNED_SIZE 16"
definition ZEND_MM_ALIGNED_SEGMENT_SIZE :: ulong where "ZEND_MM_ALIGNED_SEGMENT_SIZE = ZEND_MM_ALIGNED_SIZE 16"
definition ZEND_MM_ALIGNED_FREE_HEADER_SIZE :: ulong where "ZEND_MM_ALIGNED_FREE_HEADER_SIZE = ZEND_MM_ALIGNED_SIZE 32"
definition ZEND_MM_MIN_ALLOC_BLOCK_SIZE :: ulong where
  "ZEND_MM_MIN_ALLOC_BLOCK_SIZE = ZEND_MM_ALIGNED_SIZE (ZEND_MM_ALIGNED_HEADER_SIZE + 0)"
definition ZEND_MM_ALIGNED_MIN_HEADER_SIZE :: ulong where
  "ZEND_MM_ALIGNED_MIN_HEADER_SIZE = (if ZEND_MM_MIN_ALLOC_BLOCK_SIZE > ZEND_MM_ALIGNED_FREE_HEADER_SIZE
     then ZEND_MM_MIN_ALLOC_BLOCK_SIZE else ZEND_MM_ALIGNED_FREE_HEADER_SIZE)"
definition ZEND_MM_MIN_SIZE :: ulong where
  "ZEND_MM_MIN_SIZE = (if ZEND_MM_ALIGNED_MIN_HEADER_SIZE > ZEND_MM_ALIGNED_HEADER_SIZE + 0
     then ZEND_MM_ALIGNED_MIN_HEADER_SIZE - (ZEND_MM_ALIGNED_HEADER_SIZE + 0) else 0)"
definition ZEND_MM_MAX_SMALL_SIZE :: ulong where
  "ZEND_MM_MAX_SMALL_SIZE = push_bit 3 64 + ZEND_MM_ALIGNED_MIN_HEADER_SIZE"

definition ZEND_MM_TRUE_SIZE :: "ulong \<Rightarrow> ulong" where
  "ZEND_MM_TRUE_SIZE sz = (if sz < ZEND_MM_MIN_SIZE then ZEND_MM_ALIGNED_MIN_HEADER_SIZE
     else ZEND_MM_ALIGNED_SIZE (sz + ZEND_MM_ALIGNED_HEADER_SIZE + 0))"

definition ZEND_MM_BUCKET_INDEX :: "ulong \<Rightarrow> nat" where
  "ZEND_MM_BUCKET_INDEX true_size = unat (drop_bit 3 true_size - drop_bit 3 ZEND_MM_ALIGNED_MIN_HEADER_SIZE)"

definition ZEND_MM_SMALL_SIZE :: "ulong \<Rightarrow> bool" where
  "ZEND_MM_SMALL_SIZE true_size \<longleftrightarrow> true_size < ZEND_MM_MAX_SMALL_SIZE"

text \<open>The bit scans; of 0 the lowest bit is never found.\<close>

function high_bit_loop :: "ulong \<Rightarrow> uint \<Rightarrow> uint" where
  "high_bit_loop sz n = (if sz \<noteq> 0 then high_bit_loop (drop_bit 1 sz) (n + 1) else n)"
  by pat_completeness auto
termination
proof (relation "measure (\<lambda>(sz, n). unat sz)")
  fix sz :: ulong and n :: uint
  assume "sz \<noteq> 0"
  then have "0 < unat sz" by (simp add: unat_gt_0)
  then have "unat (drop_bit 1 sz) < unat sz" unfolding unsigned_drop_bit_eq by (simp add: drop_bit_Suc take_bit_nat_def)
  then show "((drop_bit 1 sz, n + 1), sz, n) \<in> measure (\<lambda>(sz, n). unat sz)" by simp
qed simp

declare high_bit_loop.simps [simp del]

definition zend_mm_high_bit :: "ulong \<Rightarrow> nat" where
  "zend_mm_high_bit sz = unat (high_bit_loop sz 0 - 1)"

definition low_bit_offset :: "nat list" where
  "low_bit_offset = [4, 0, 1, 0, 2, 0, 1, 0, 3, 0, 1, 0, 2, 0, 1, 0]"

partial_function (option) low_bit_loop :: "ulong \<Rightarrow> nat \<Rightarrow> nat option" where
  "low_bit_loop sz index = (let n = low_bit_offset ! unat (sz AND 15)
     in if n = 4 then low_bit_loop (drop_bit 4 sz) (index + 4) else Some (index + n))"

definition zend_mm_low_bit :: "ulong \<Rightarrow> nat option" where
  "zend_mm_low_bit sz = low_bit_loop sz 0"

definition ZEND_MM_LARGE_BUCKET_INDEX :: "ulong \<Rightarrow> nat" where
  "ZEND_MM_LARGE_BUCKET_INDEX S = zend_mm_high_bit S"

subsection \<open>The heap\<close>

datatype fblk = Null | Small nat | Rest | Blk nat
datatype fcell = Root nat | Child nat bool
datatype fparent = No_parent | ZEND_MM_REST_BLOCK | At fcell

text \<open>
  \<open>free_buckets\<close> and \<open>rest_buckets\<close> are the \<open>prev_free_block\<close> and \<open>next_free_block\<close> of their heads
  \<open>Small i\<close> (\<open>ZEND_MM_SMALL_FREE_BUCKET\<close>) and \<open>Rest\<close> (\<open>ZEND_MM_REST_BUCKET\<close>); \<open>large_free_buckets\<close>
  are the cells \<open>Root i\<close>. \<open>bytes\<close> is the contents of the blocks in use.
\<close>

record mm_segment =
  seg_size :: ulong
  next_segment :: ptr

record mm_heap =
  free_bitmap :: ulong
  large_free_bitmap :: ulong
  block_size :: ulong
  segments_list :: ptr
  real_size :: ulong
  real_peak :: ulong
  mm_limit :: ulong
  heap_size :: ulong
  heap_peak :: ulong
  reserve_size :: ulong
  reserve :: ptr
  overflow :: int
  cached :: uint
  cache :: "fblk list"
  rest_count :: int
  blk_size :: "nat \<rightharpoonup> ulong"
  blk_prev :: "nat \<rightharpoonup> ulong"
  prev_free :: "fblk \<rightharpoonup> fblk"
  next_free :: "fblk \<rightharpoonup> fblk"
  parent :: "nat \<rightharpoonup> fparent"
  ftree :: "fcell \<rightharpoonup> fblk"
  segs :: "nat \<rightharpoonup> mm_segment"
  bytes :: "nat \<Rightarrow> byte"

text \<open>Storing through a pointer.\<close>

definition set_prev_free :: "fblk \<Rightarrow> fblk \<Rightarrow> mm_heap \<Rightarrow> mm_heap option" where
  "set_prev_free b v h = (if b = Null then None else Some (h\<lparr>prev_free := (prev_free h)(b \<mapsto> v)\<rparr>))"
definition set_next_free :: "fblk \<Rightarrow> fblk \<Rightarrow> mm_heap \<Rightarrow> mm_heap option" where
  "set_next_free b v h = (if b = Null then None else Some (h\<lparr>next_free := (next_free h)(b \<mapsto> v)\<rparr>))"
definition set_parent :: "nat \<Rightarrow> fparent \<Rightarrow> mm_heap \<Rightarrow> mm_heap" where
  "set_parent a v h = h\<lparr>parent := (parent h)(a \<mapsto> v)\<rparr>"
definition set_cell :: "fcell \<Rightarrow> fblk \<Rightarrow> mm_heap \<Rightarrow> mm_heap" where
  "set_cell p v h = h\<lparr>ftree := (ftree h)(p \<mapsto> v)\<rparr>"

definition blk_addr :: "fblk \<Rightarrow> nat option" where
  "blk_addr b = (case b of Blk a \<Rightarrow> Some a | _ \<Rightarrow> None)"

definition ZEND_MM_FREE_BLOCK :: ulong where "ZEND_MM_FREE_BLOCK = 0"
definition ZEND_MM_USED_BLOCK :: ulong where "ZEND_MM_USED_BLOCK = 1"
definition ZEND_MM_GUARD_BLOCK :: ulong where "ZEND_MM_GUARD_BLOCK = 3"
definition ZEND_MM_TYPE_MASK :: ulong where "ZEND_MM_TYPE_MASK = 3"

definition ZEND_MM_BLOCK_AT :: "nat \<Rightarrow> ulong \<Rightarrow> nat" where
  "ZEND_MM_BLOCK_AT b offset = b + unat offset"

definition ZEND_MM_BLOCK :: "nat \<Rightarrow> ulong \<Rightarrow> ulong \<Rightarrow> mm_heap \<Rightarrow> mm_heap" where
  "ZEND_MM_BLOCK b type sz h = h\<lparr>blk_size := (blk_size h)(b \<mapsto> type OR sz),
     blk_prev := (blk_prev h)(ZEND_MM_BLOCK_AT b sz \<mapsto> type OR sz)\<rparr>"

definition ZEND_MM_LAST_BLOCK :: "nat \<Rightarrow> mm_heap \<Rightarrow> mm_heap" where
  "ZEND_MM_LAST_BLOCK b h = h\<lparr>blk_size := (blk_size h)(b \<mapsto> ZEND_MM_GUARD_BLOCK OR ZEND_MM_ALIGNED_HEADER_SIZE)\<rparr>"

definition ZEND_MM_BLOCK_SIZE :: "nat \<Rightarrow> mm_heap \<Rightarrow> ulong option" where
  "ZEND_MM_BLOCK_SIZE b h = map_option (\<lambda>w. w AND NOT ZEND_MM_TYPE_MASK) (blk_size h b)"

definition ZEND_MM_IS_FREE_BLOCK :: "nat \<Rightarrow> mm_heap \<Rightarrow> bool option" where
  "ZEND_MM_IS_FREE_BLOCK b h = map_option (\<lambda>w. w AND ZEND_MM_USED_BLOCK = 0) (blk_size h b)"

definition ZEND_MM_IS_GUARD_BLOCK :: "nat \<Rightarrow> mm_heap \<Rightarrow> bool option" where
  "ZEND_MM_IS_GUARD_BLOCK b h = map_option (\<lambda>w. w AND ZEND_MM_TYPE_MASK = ZEND_MM_GUARD_BLOCK) (blk_size h b)"

definition ZEND_MM_PREV_BLOCK :: "nat \<Rightarrow> mm_heap \<Rightarrow> nat option" where
  "ZEND_MM_PREV_BLOCK b h = do {
     w \<leftarrow> blk_prev h b;
     let n = unat (w AND NOT ZEND_MM_TYPE_MASK);
     if n \<le> b then Some (b - n) else None
   }"

definition ZEND_MM_PREV_BLOCK_IS_FREE :: "nat \<Rightarrow> mm_heap \<Rightarrow> bool option" where
  "ZEND_MM_PREV_BLOCK_IS_FREE b h = map_option (\<lambda>w. w AND ZEND_MM_USED_BLOCK = 0) (blk_prev h b)"

definition ZEND_MM_MARK_FIRST_BLOCK :: "nat \<Rightarrow> mm_heap \<Rightarrow> mm_heap" where
  "ZEND_MM_MARK_FIRST_BLOCK b h = h\<lparr>blk_prev := (blk_prev h)(b \<mapsto> ZEND_MM_GUARD_BLOCK)\<rparr>"

definition ZEND_MM_IS_FIRST_BLOCK :: "nat \<Rightarrow> mm_heap \<Rightarrow> bool option" where
  "ZEND_MM_IS_FIRST_BLOCK b h = map_option (\<lambda>w. w = ZEND_MM_GUARD_BLOCK) (blk_prev h b)"

definition ZEND_MM_FREE_BLOCK_SIZE :: "fblk \<Rightarrow> mm_heap \<Rightarrow> ulong option" where
  "ZEND_MM_FREE_BLOCK_SIZE b h = do { a \<leftarrow> blk_addr b; blk_size h a }"

definition ZEND_MM_DATA_OF :: "nat \<Rightarrow> nat" where
  "ZEND_MM_DATA_OF p = p + unat ZEND_MM_ALIGNED_HEADER_SIZE"

definition ZEND_MM_HEADER_OF :: "nat \<Rightarrow> nat option" where
  "ZEND_MM_HEADER_OF p = (if unat ZEND_MM_ALIGNED_HEADER_SIZE \<le> p then Some (p - unat ZEND_MM_ALIGNED_HEADER_SIZE) else None)"

text \<open>\<open>ZEND_MM_CHECK_BLOCK_LINKAGE\<close> and \<open>ZEND_MM_CHECK_TREE\<close>.\<close>

definition panic_unless :: "bool \<Rightarrow> unit option" where
  "panic_unless ok = (if ok then Some () else None)"

definition ZEND_MM_CHECK_BLOCK_LINKAGE :: "nat \<Rightarrow> mm_heap \<Rightarrow> unit option" where
  "ZEND_MM_CHECK_BLOCK_LINKAGE b h = do {
     sz \<leftarrow> blk_size h b;
     nxt \<leftarrow> blk_prev h (ZEND_MM_BLOCK_AT b sz);
     panic_unless (sz = nxt);
     first \<leftarrow> ZEND_MM_IS_FIRST_BLOCK b h;
     if first then Some () else do {
       p \<leftarrow> ZEND_MM_PREV_BLOCK b h;
       sz \<leftarrow> blk_size h p;
       prev \<leftarrow> blk_prev h b;
       panic_unless (sz = prev)
     }
   }"

definition parent_cell :: "nat \<Rightarrow> mm_heap \<Rightarrow> fcell option" where
  "parent_cell a h = do { p \<leftarrow> parent h a; (case p of At c \<Rightarrow> Some c | _ \<Rightarrow> None) }"

definition ZEND_MM_CHECK_TREE :: "nat \<Rightarrow> mm_heap \<Rightarrow> unit option" where
  "ZEND_MM_CHECK_TREE a h = do { c \<leftarrow> parent_cell a h; b \<leftarrow> ftree h c; panic_unless (b = Blk a) }"

subsection \<open>Free lists\<close>

text \<open>Into a ring behind \<open>prev\<close>; and out of a ring.\<close>

definition link_behind :: "fblk \<Rightarrow> nat \<Rightarrow> mm_heap \<Rightarrow> mm_heap option" where
  "link_behind prev a h = do {
     nxt \<leftarrow> next_free h prev;
     h \<leftarrow> set_prev_free (Blk a) prev h;
     h \<leftarrow> set_next_free (Blk a) nxt h;
     h \<leftarrow> set_prev_free nxt (Blk a) h;
     set_next_free prev (Blk a) h
   }"

definition unlink :: "fblk \<Rightarrow> fblk \<Rightarrow> mm_heap \<Rightarrow> mm_heap option" where
  "unlink prev nxt h = do {
     h \<leftarrow> set_next_free prev nxt h;
     set_prev_free nxt prev h
   }"

text \<open>A block alone in its place of a tree.\<close>

definition plant :: "fcell \<Rightarrow> nat \<Rightarrow> mm_heap \<Rightarrow> mm_heap option" where
  "plant p a h = do {
     let h = set_parent a (At p) (set_cell p (Blk a) h);
     h \<leftarrow> set_prev_free (Blk a) (Blk a) h;
     set_next_free (Blk a) (Blk a) h
   }"

text \<open>The loop down the tree; the highest bit of \<open>m\<close> is the next bit of the size.\<close>

partial_function (option) insert_large :: "nat \<Rightarrow> ulong \<Rightarrow> ulong \<Rightarrow> fcell \<Rightarrow> mm_heap \<Rightarrow> mm_heap option" where
  "insert_large a sz m p h = do {
     prev \<leftarrow> ftree h p;
     prev_size \<leftarrow> ZEND_MM_FREE_BLOCK_SIZE prev h;
     if prev_size \<noteq> sz then do {
       b \<leftarrow> blk_addr prev;
       let p = Child b (bit m 63);
       q \<leftarrow> ftree h p;
       if q = Null then plant p a h else insert_large a sz (push_bit 1 m) p h
     } else do {
       h \<leftarrow> link_behind prev a h;
       Some (set_parent a No_parent h)
     }
   }"

definition zend_mm_add_to_free_list :: "nat \<Rightarrow> mm_heap \<Rightarrow> mm_heap option" where
  "zend_mm_add_to_free_list a h = do {
     sz \<leftarrow> blk_size h a;
     if \<not> ZEND_MM_SMALL_SIZE sz then do {
       let index = ZEND_MM_LARGE_BUCKET_INDEX sz;
       let p = Root index;
       let h = set_cell (Child a False) Null (set_cell (Child a True) Null h);
       q \<leftarrow> ftree h p;
       if q = Null then do {
         h \<leftarrow> plant p a h;
         Some (h\<lparr>large_free_bitmap := large_free_bitmap h OR push_bit index 1\<rparr>)
       } else insert_large a sz (push_bit (ZEND_MM_NUM_BUCKETS - index) sz) p h
     } else do {
       let index = ZEND_MM_BUCKET_INDEX sz;
       let prev = Small index;
       last \<leftarrow> prev_free h prev;
       let h = (if last = prev then h\<lparr>free_bitmap := free_bitmap h OR push_bit index 1\<rparr> else h);
       link_behind prev a h
     }
   }"

text \<open>\<open>subst_block\<close>: \<open>prev\<close> takes the place of \<open>a\<close> in the tree.\<close>

definition adopt_child :: "nat \<Rightarrow> nat \<Rightarrow> bool \<Rightarrow> mm_heap \<Rightarrow> mm_heap option" where
  "adopt_child a prev i h = do {
     x \<leftarrow> ftree h (Child a i);
     let h = set_cell (Child prev i) x h;
     if x = Null then Some h else do {
       c \<leftarrow> blk_addr x;
       ZEND_MM_CHECK_TREE c h;
       Some (set_parent c (At (Child prev i)) h)
     }
   }"

definition subst_block :: "nat \<Rightarrow> fblk \<Rightarrow> mm_heap \<Rightarrow> mm_heap option" where
  "subst_block a prev h = do {
     ZEND_MM_CHECK_TREE a h;
     c \<leftarrow> parent_cell a h;
     b \<leftarrow> blk_addr prev;
     let h = set_parent b (At c) (set_cell c prev h);
     h \<leftarrow> adopt_child a b False h;
     adopt_child a b True h
   }"

text \<open>From \<open>prev\<close> down to a leaf, to the right where there is a choice: the leaf and the pointer to it.\<close>

partial_function (option) find_leaf :: "fcell \<Rightarrow> nat \<Rightarrow> mm_heap \<Rightarrow> (fcell \<times> nat) option" where
  "find_leaf rp prev h = do {
     right \<leftarrow> ftree h (Child prev True);
     let cp = Child prev (right \<noteq> Null);
     x \<leftarrow> ftree h cp;
     if x = Null then Some (rp, prev) else do {
       b \<leftarrow> blk_addr x;
       find_leaf cp b h
     }
   }"

definition remove_single :: "nat \<Rightarrow> mm_heap \<Rightarrow> mm_heap option" where
  "remove_single a h = do {
     right \<leftarrow> ftree h (Child a True);
     let rp = Child a (right \<noteq> Null);
     prev \<leftarrow> ftree h rp;
     if prev = Null then do {
       sz \<leftarrow> blk_size h a;
       let index = ZEND_MM_LARGE_BUCKET_INDEX sz;
       ZEND_MM_CHECK_TREE a h;
       c \<leftarrow> parent_cell a h;
       let h = set_cell c Null h;
       Some (if c = Root index then h\<lparr>large_free_bitmap := large_free_bitmap h AND NOT (push_bit index 1)\<rparr> else h)
     } else do {
       b \<leftarrow> blk_addr prev;
       (rp, leaf) \<leftarrow> find_leaf rp b h;
       subst_block a (Blk leaf) (set_cell rp Null h)
     }
   }"

definition zend_mm_remove_from_free_list :: "nat \<Rightarrow> mm_heap \<Rightarrow> mm_heap option" where
  "zend_mm_remove_from_free_list a h = do {
     prev \<leftarrow> prev_free h (Blk a);
     nxt \<leftarrow> next_free h (Blk a);
     if prev = Blk a then do {
       panic_unless (nxt = Blk a);
       remove_single a h
     } else do {
       p \<leftarrow> next_free h prev;
       q \<leftarrow> prev_free h nxt;
       panic_unless (p = Blk a \<and> q = Blk a);
       h \<leftarrow> unlink prev nxt h;
       sz \<leftarrow> blk_size h a;
       if ZEND_MM_SMALL_SIZE sz then
         (if prev = nxt then do {
            let index = ZEND_MM_BUCKET_INDEX sz;
            first \<leftarrow> prev_free h (Small index);
            last \<leftarrow> next_free h (Small index);
            Some (if first = last then h\<lparr>free_bitmap := free_bitmap h AND NOT (push_bit index 1)\<rparr> else h)
          } else Some h)
       else do {
         p \<leftarrow> parent h a;
         (case p of ZEND_MM_REST_BLOCK \<Rightarrow> Some (h\<lparr>rest_count := rest_count h - 1\<rparr>)
            | No_parent \<Rightarrow> Some h
            | At c \<Rightarrow> subst_block a prev h)
       }
     }
   }"

text \<open>The rest list keeps what large allocations leave of their segments, the oldest leaving first.\<close>

partial_function (option) spill_rest :: "mm_heap \<Rightarrow> mm_heap option" where
  "spill_rest h = (if rest_count h \<ge> ZEND_MM_MAX_REST_BLOCKS then do {
       p \<leftarrow> next_free h Rest;
       sz \<leftarrow> ZEND_MM_FREE_BLOCK_SIZE p h;
       let h = (if \<not> ZEND_MM_SMALL_SIZE sz then h\<lparr>rest_count := rest_count h - 1\<rparr> else h);
       prev \<leftarrow> prev_free h p;
       nxt \<leftarrow> next_free h p;
       h \<leftarrow> unlink prev nxt h;
       a \<leftarrow> blk_addr p;
       h \<leftarrow> zend_mm_add_to_free_list a h;
       spill_rest h
     } else Some h)"

definition zend_mm_add_to_rest_list :: "nat \<Rightarrow> mm_heap \<Rightarrow> mm_heap option" where
  "zend_mm_add_to_rest_list a h = do {
     h \<leftarrow> spill_rest h;
     sz \<leftarrow> blk_size h a;
     let h = (if \<not> ZEND_MM_SMALL_SIZE sz then set_parent a ZEND_MM_REST_BLOCK h\<lparr>rest_count := rest_count h + 1\<rparr> else h);
     prev \<leftarrow> prev_free h Rest;
     link_behind prev a h
   }"

subsection \<open>The search in the trees\<close>

text \<open>A block that fits better than the best one so far; the comparison with \<open>best_size\<close>, at first \<open>-1\<close>.\<close>

partial_function (option) search_path :: "ulong \<Rightarrow> ulong \<Rightarrow> fblk \<Rightarrow> fblk \<Rightarrow> fblk \<Rightarrow> ulong \<Rightarrow> mm_heap \<Rightarrow>
    (fblk + (fblk \<times> fblk \<times> ulong)) option" where
  "search_path true_size m p rst best_fit best_size h = do {
     sz \<leftarrow> ZEND_MM_FREE_BLOCK_SIZE p h;
     if sz = true_size then do { b \<leftarrow> next_free h p; Some (Inl b) }
     else do {
       let (best_fit, best_size) = (if sz \<ge> true_size \<and> sz < best_size then (p, sz) else (best_fit, best_size));
       a \<leftarrow> blk_addr p;
       c0 \<leftarrow> ftree h (Child a False);
       c1 \<leftarrow> ftree h (Child a True);
       if \<not> bit m 63 then
         (let rst = (if c1 \<noteq> Null then c1 else rst)
          in if c0 \<noteq> Null then search_path true_size (push_bit 1 m) c0 rst best_fit best_size h
             else Some (Inr (rst, best_fit, best_size)))
       else if c1 \<noteq> Null then search_path true_size (push_bit 1 m) c1 rst best_fit best_size h
       else Some (Inr (rst, best_fit, best_size))
     }
   }"

partial_function (option) search_left :: "ulong \<Rightarrow> fblk \<Rightarrow> fblk \<Rightarrow> ulong \<Rightarrow> mm_heap \<Rightarrow> (fblk + fblk) option" where
  "search_left true_size p best_fit best_size h =
     (if p = Null then Some (Inr best_fit)
      else do {
        sz \<leftarrow> ZEND_MM_FREE_BLOCK_SIZE p h;
        if sz = true_size then do { b \<leftarrow> next_free h p; Some (Inl b) }
        else do {
          let (best_fit, best_size) = (if sz > true_size \<and> sz < best_size then (p, sz) else (best_fit, best_size));
          a \<leftarrow> blk_addr p;
          c0 \<leftarrow> ftree h (Child a False);
          p \<leftarrow> ftree h (Child a (c0 = Null));
          search_left true_size p best_fit best_size h
        }
      })"

text \<open>The smallest block of a tree.\<close>

partial_function (option) search_smallest :: "fblk \<Rightarrow> fblk \<Rightarrow> mm_heap \<Rightarrow> fblk option" where
  "search_smallest p best_fit h = do {
     a \<leftarrow> blk_addr p;
     c0 \<leftarrow> ftree h (Child a False);
     p \<leftarrow> ftree h (Child a (c0 = Null));
     if p = Null then Some best_fit else do {
       sz \<leftarrow> ZEND_MM_FREE_BLOCK_SIZE p h;
       best_size \<leftarrow> ZEND_MM_FREE_BLOCK_SIZE best_fit h;
       search_smallest p (if sz < best_size then p else best_fit) h
     }
   }"

definition smallest_from :: "nat \<Rightarrow> ulong \<Rightarrow> mm_heap \<Rightarrow> fblk option" where
  "smallest_from index bitmap h = do {
     n \<leftarrow> zend_mm_low_bit bitmap;
     p \<leftarrow> ftree h (Root (index + n));
     best_fit \<leftarrow> search_smallest p p h;
     next_free h best_fit
   }"

definition zend_mm_search_large_block :: "ulong \<Rightarrow> mm_heap \<Rightarrow> fblk option" where
  "zend_mm_search_large_block true_size h = (let index = ZEND_MM_LARGE_BUCKET_INDEX true_size;
       bitmap = drop_bit index (large_free_bitmap h)
     in if bitmap = 0 then Some Null
        else if bit bitmap 0 then do {
          p \<leftarrow> ftree h (Root index);
          r \<leftarrow> search_path true_size (push_bit (ZEND_MM_NUM_BUCKETS - index) true_size) p Null Null (- 1) h;
          (case r of Inl b \<Rightarrow> Some b
           | Inr (rst, best_fit, best_size) \<Rightarrow> do {
               r \<leftarrow> search_left true_size rst best_fit best_size h;
               (case r of Inl b \<Rightarrow> Some b
                | Inr best_fit \<Rightarrow>
                    if best_fit \<noteq> Null then next_free h best_fit
                    else let bitmap = drop_bit 1 bitmap
                      in if bitmap = 0 then Some Null else smallest_from (index + 1) bitmap h)
             })
        }
        else smallest_from index bitmap h)"

end
