(* ===== verification/Zend_Mm_Words.thy ===== *)
theory Zend_Mm_Words
  imports Zend_Mm
begin

text \<open>The arithmetic of the heap manager: rounding, bucket numbers, bit scans, block headers; and
  the doubly linked rings its lists are.\<close>

subsection \<open>Sizes\<close>

lemma mm_sizes [simp]:
  "ZEND_MM_ALIGNED_HEADER_SIZE = 16" "ZEND_MM_ALIGNED_SEGMENT_SIZE = 16" "ZEND_MM_ALIGNED_MIN_HEADER_SIZE = 32"
  "ZEND_MM_MIN_SIZE = 16" "ZEND_MM_MAX_SMALL_SIZE = 544"
  by code_simp+

lemma unat_add: "unat a + unat b < 2 ^ 64 \<Longrightarrow> unat (a + b :: ulong) = unat a + unat b"
  by (simp add: unat_plus_if_size word_size)

lemma unat_sub: "unat b \<le> unat a \<Longrightarrow> unat (a - b :: ulong) = unat a - unat b"
  by (simp add: unat_sub word_le_nat_alt)

lemma low_bits: "8 dvd unat (w :: ulong) \<longleftrightarrow> \<not> bit w 0 \<and> \<not> bit w 1 \<and> \<not> bit w 2"
proof -
  have "8 dvd unat w \<longleftrightarrow> take_bit 3 (unat w) = 0" by (simp add: take_bit_nat_def dvd_eq_mod_eq_0)
  also have "\<dots> \<longleftrightarrow> take_bit 3 w = 0" by (simp only: unsigned_eq_0_iff flip: unsigned_take_bit_eq)
  also have "\<dots> \<longleftrightarrow> (\<forall>n<3. \<not> bit w n)" by (auto simp: bit_eq_iff bit_simps dest: bit_imp_le_length)
  finally show ?thesis by (auto simp: less_Suc_eq numeral_3_eq_3 numeral_2_eq_2)
qed

lemma and_not_low:
  assumes "unat s < 2 ^ 64" and "n < 64"
  shows "unat ((s :: ulong) AND NOT (mask n)) = unat s div 2 ^ n * 2 ^ n"
proof -
  have "s AND NOT (mask n) = push_bit n (drop_bit n s)" by (rule bit_word_eqI) (auto simp: bit_simps)
  moreover have "unat (drop_bit n s) = unat s div 2 ^ n"
    unfolding unsigned_drop_bit_eq using assms(1) by (simp add: drop_bit_eq_div take_bit_nat_eq_self)
  then have "unat (push_bit n (drop_bit n s)) = take_bit 64 (push_bit n (unat s div 2 ^ n))"
    by (simp add: unsigned_push_bit_eq)
  moreover have "push_bit n (unat s div 2 ^ n) < 2 ^ 64"
    unfolding push_bit_eq_mult using assms(1) le_less_trans [OF div_times_less_eq_dividend] by blast
  ultimately show ?thesis by (simp only: take_bit_nat_eq_self) (simp add: push_bit_eq_mult)
qed

lemma unat_aligned:
  assumes "unat s + 7 < 2 ^ 64"
  shows "unat (ZEND_MM_ALIGNED_SIZE s) = (unat s + 7) div 8 * 8"
proof -
  have "(8 - 1 :: ulong) = mask 3" "(7 :: ulong) = mask 3" by (simp_all add: mask_eq_exp_minus_1)
  then have "unat (ZEND_MM_ALIGNED_SIZE s) = unat (s + 7) div 2 ^ 3 * 2 ^ 3"
    unfolding ZEND_MM_ALIGNED_SIZE_def by (simp only: add_diff_eq [symmetric] and_not_low unsigned_less)
      (subst and_not_low, use unsigned_less [of "s + 7", where ?'a = nat] in simp_all)
  then show ?thesis using assms unat_add [of s 7] by simp
qed

text \<open>What is asked for fits, with a header in front; sizes that do not fit give a small one.\<close>

lemma true_size:
  assumes "unat sz + 23 < 2 ^ 64"
  shows "8 dvd unat (ZEND_MM_TRUE_SIZE sz)" "32 \<le> unat (ZEND_MM_TRUE_SIZE sz)" "unat sz + 16 \<le> unat (ZEND_MM_TRUE_SIZE sz)"
    "unat (ZEND_MM_TRUE_SIZE sz) \<le> unat sz + 32"
proof -
  have "unat (ZEND_MM_TRUE_SIZE sz) = (if unat sz < 16 then 32 else (23 + unat sz) div 8 * 8)"
    using assms unat_add [of sz 16] unat_aligned [of "sz + 16"] by (simp add: ZEND_MM_TRUE_SIZE_def word_less_nat_alt)
  moreover have "16 \<le> n \<Longrightarrow> 8 dvd (23 + n) div 8 * 8 \<and> 32 \<le> (23 + n) div 8 * 8 \<and> n + 16 \<le> (23 + n) div 8 * 8 \<and> (23 + n) div 8 * 8 \<le> n + 32" for n :: nat
    by presburger
  ultimately show "8 dvd unat (ZEND_MM_TRUE_SIZE sz)" "32 \<le> unat (ZEND_MM_TRUE_SIZE sz)" "unat sz + 16 \<le> unat (ZEND_MM_TRUE_SIZE sz)"
    "unat (ZEND_MM_TRUE_SIZE sz) \<le> unat sz + 32" by (auto simp: not_less)
qed

lemma true_size_overflow:
  assumes "2 ^ 64 \<le> unat sz + 23"
  shows "ZEND_MM_TRUE_SIZE sz < sz" "ZEND_MM_SMALL_SIZE (ZEND_MM_TRUE_SIZE sz)"
proof -
  have less: "unat sz < 2 ^ 64" using unsigned_less [of sz, where ?'a = nat] by simp
  have big: "\<not> sz < 16" using assms by (simp add: word_less_nat_alt)
  have m: "(8 - 1 :: ulong) = mask 3" by (simp add: mask_eq_exp_minus_1)
  have "unat (23 + sz) = unat sz + 23 - 2 ^ 64" using assms less by (simp add: unat_plus_if_size word_size)
  then have "unat (23 + sz) < 23" using less by simp
  then have "unat (23 + sz) div 8 * 8 < 23" using div_times_less_eq_dividend le_less_trans by blast
  moreover have "unat (ZEND_MM_TRUE_SIZE sz) = unat (23 + sz) div 2 ^ 3 * 2 ^ 3"
    using big unsigned_less [of "23 + sz", where ?'a = nat] unfolding ZEND_MM_TRUE_SIZE_def ZEND_MM_ALIGNED_SIZE_def m
    by (subst and_not_low [symmetric]) (simp_all add: mask_eq_exp_minus_1)
  ultimately have "unat (ZEND_MM_TRUE_SIZE sz) < 23" by simp
  then show "ZEND_MM_TRUE_SIZE sz < sz" "ZEND_MM_SMALL_SIZE (ZEND_MM_TRUE_SIZE sz)"
    using assms by (simp_all add: ZEND_MM_SMALL_SIZE_def word_less_nat_alt)
qed

lemma small_size: "ZEND_MM_SMALL_SIZE w \<longleftrightarrow> unat w < 544"
  by (simp add: ZEND_MM_SMALL_SIZE_def word_less_nat_alt)

lemma bucket_index:
  assumes "8 dvd unat w" and "32 \<le> unat w" and "ZEND_MM_SMALL_SIZE w"
  shows "ZEND_MM_BUCKET_INDEX w < 64" "unat w = 8 * (ZEND_MM_BUCKET_INDEX w + 4)"
proof -
  have d: "unat (drop_bit 3 w) = unat w div 8" unfolding unsigned_drop_bit_eq
    using unsigned_less [of w, where ?'a = nat] by (simp add: drop_bit_eq_div take_bit_nat_eq_self)
  have "ZEND_MM_BUCKET_INDEX w = unat (drop_bit 3 w - 4)" by (simp add: ZEND_MM_BUCKET_INDEX_def)
  also have "\<dots> = unat w div 8 - 4" using unat_sub [of 4 "drop_bit 3 w"] d assms(2) by simp
  finally have i: "ZEND_MM_BUCKET_INDEX w = unat w div 8 - 4" .
  then show "ZEND_MM_BUCKET_INDEX w < 64" using assms(3) by (simp add: small_size)
  show "unat w = 8 * (ZEND_MM_BUCKET_INDEX w + 4)" using i assms(1,2) by auto
qed

subsection \<open>Bit scans\<close>

lemma high_bit_loop:
  "w \<noteq> 0 \<Longrightarrow> \<exists>i<64. unat w div 2 ^ i = 1 \<and> high_bit_loop w n = n + word_of_nat (Suc i)"
proof (induction w n rule: high_bit_loop.induct)
  case (1 w n)
  have d: "unat (drop_bit 1 w) = unat w div 2" unfolding unsigned_drop_bit_eq
    using unsigned_less [of w, where ?'a = nat] by (simp add: drop_bit_eq_div take_bit_nat_def)
  show ?case
  proof (cases "drop_bit 1 w = 0")
    case True
    then have "unat w div 2 = 0" using d by simp
    then have "unat w = 1" using 1(2) unat_gt_0 [of w] by linarith
    then show ?thesis using True 1(2) by (intro exI [of _ 0]) (simp add: high_bit_loop.simps [of w] high_bit_loop.simps [of "drop_bit 1 w"] high_bit_loop.simps [of 0])
  next
    case False
    then obtain i where i: "i < 64" "unat w div 2 div 2 ^ i = 1" "high_bit_loop (drop_bit 1 w) (n + 1) = n + 1 + word_of_nat (Suc i)"
      using 1 d by auto
    have "unat w div 2 ^ Suc i = 1" using i(2) by (simp add: div_mult2_eq)
    moreover have "Suc i < 64"
    proof (rule ccontr)
      assume "\<not> Suc i < 64"
      then have "(2 :: nat) ^ 64 \<le> 2 ^ Suc i" by (intro power_increasing) simp_all
      then have "unat w div 2 ^ Suc i = 0" using unsigned_less [of w, where ?'a = nat] by (intro div_less) simp
      then show False using calculation by simp
    qed
    ultimately show ?thesis using i(3) 1(2) by (intro exI [of _ "Suc i"]) (simp add: high_bit_loop.simps [of w])
  qed
qed

lemma high_bit:
  assumes "w \<noteq> 0"
  shows "zend_mm_high_bit w < 64" "unat w div 2 ^ zend_mm_high_bit w = 1"
proof -
  obtain i where i: "i < 64" "unat w div 2 ^ i = 1" "high_bit_loop w 0 = word_of_nat (Suc i)"
    using high_bit_loop [OF assms, of 0] by auto
  have "zend_mm_high_bit w = i" using i(1) unfolding zend_mm_high_bit_def i(3) by (simp add: unat_of_nat)
  then show "zend_mm_high_bit w < 64" "unat w div 2 ^ zend_mm_high_bit w = 1" using i by simp_all
qed

lemma high_bit_unique:
  assumes "w \<noteq> 0" and "unat w div 2 ^ i = 1"
  shows "zend_mm_high_bit w = i"
proof -
  have less: "i = j" if n: "n div 2 ^ i = (1 :: nat)" "n div 2 ^ j = 1" and le: "i \<le> j" for i j n
  proof (rule ccontr)
    assume "i \<noteq> j"
    then obtain d where j: "j = i + Suc d" using le less_imp_Suc_add by (metis add_Suc_right le_neq_implies_less)
    have "n div 2 ^ j = n div 2 ^ i div 2 ^ Suc d" unfolding j power_add by (rule div_mult2_eq)
    moreover have "(1 :: nat) < 2 ^ Suc d" by (rule one_less_power) simp_all
    then have "(1 :: nat) div 2 ^ Suc d = 0" by (rule div_less)
    ultimately show False using n by simp
  qed
  show ?thesis using less [OF assms(2) high_bit(2) [OF assms(1)]] less [OF high_bit(2) [OF assms(1)] assms(2)] by (cases "i \<le> zend_mm_high_bit w") auto
qed

lemma low_bit_step:
  "unat ((w :: ulong) AND 15) < 16" "bit (unat (w AND 15)) j \<longleftrightarrow> j < 4 \<and> bit w j"
proof -
  have m: "(15 :: ulong) = mask 4" by (simp add: mask_eq_exp_minus_1)
  have u: "unat (w AND 15) = take_bit 4 (unat w)" unfolding m by (simp only: unsigned_take_bit_eq flip: take_bit_eq_mask)
  then show "unat (w AND 15) < 16" using take_bit_nat_less_exp [of 4 "unat w"] by simp
  show "bit (unat (w AND 15)) j \<longleftrightarrow> j < 4 \<and> bit w j" unfolding u by (auto simp: bit_simps)
qed

lemma low_bit_table: "n < 16 \<Longrightarrow> n \<noteq> 0 \<Longrightarrow> low_bit_offset ! n < 4 \<and> bit n (low_bit_offset ! n) \<and> (\<forall>j<low_bit_offset ! n. \<not> bit n j)"
proof -
  have "list_all (\<lambda>n. low_bit_offset ! n < 4 \<and> bit n (low_bit_offset ! n) \<and> list_all (\<lambda>j. \<not> bit n j) [0..<low_bit_offset ! n]) [1..<16]"
    by code_simp
  then show "n < 16 \<Longrightarrow> n \<noteq> 0 \<Longrightarrow> low_bit_offset ! n < 4 \<and> bit n (low_bit_offset ! n) \<and> (\<forall>j<low_bit_offset ! n. \<not> bit n j)"
    by (auto simp: list_all_iff)
qed

lemma low_bit_loop:
  "w \<noteq> 0 \<Longrightarrow> \<exists>n. low_bit_loop w i = Some (i + n) \<and> bit w n \<and> (\<forall>j<n. \<not> bit w j)"
proof (induction "unat w" arbitrary: w i rule: less_induct)
  case less
  define n where "n = unat (w AND 15)"
  have n: "n < 16" "bit n j \<longleftrightarrow> j < 4 \<and> bit w j" for j using low_bit_step [of w] by (simp_all add: n_def)
  show ?case
  proof (cases "n = 0")
    case False
    let ?k = "low_bit_offset ! n"
    have k: "?k < 4" "bit n ?k" "\<forall>j<?k. \<not> bit n j" using low_bit_table [OF n(1) False] by simp_all
    then have "low_bit_loop w i = Some (i + ?k)" by (simp add: low_bit_loop.simps [of w] n_def [symmetric])
    moreover have "bit w ?k" "\<forall>j<?k. \<not> bit w j" using k n(2) by auto
    ultimately show ?thesis by blast
  next
    case True
    then have low: "\<not> bit w j" if "j < 4" for j using n(2) [of j] that by simp
    have nz: "drop_bit 4 w \<noteq> 0"
    proof
      assume "drop_bit 4 w = 0"
      then have "\<not> bit (drop_bit 4 w) j" for j by simp
      then have "\<not> bit w (4 + j)" for j by (simp add: bit_drop_bit_eq)
      then have "\<not> bit w j" for j using low [of j] by (metis le_add_diff_inverse not_le)
      then show False using less(2) by (simp add: bit_eq_iff)
    qed
    have "unat (drop_bit 4 w) = unat w div 16" unfolding unsigned_drop_bit_eq
      using unsigned_less [of w, where ?'a = nat] by (simp add: drop_bit_eq_div take_bit_nat_eq_self)
    then have "unat (drop_bit 4 w) < unat w" using less(2) by (simp add: unat_gt_0)
    then obtain k where k: "low_bit_loop (drop_bit 4 w) (i + 4) = Some (i + 4 + k)" "bit (drop_bit 4 w) k" "\<forall>j<k. \<not> bit (drop_bit 4 w) j"
      using less(1) [OF _ nz] by blast
    have "low_bit_loop w i = Some (i + (4 + k))" using True k(1) by (simp add: low_bit_loop.simps [of w] low_bit_offset_def n_def [symmetric] add.assoc)
    moreover have "\<not> bit w j" if "j < 4 + k" for j
    proof (cases "j < 4")
      case False
      then have "\<not> bit (drop_bit 4 w) (j - 4)" using k(3) that by auto
      then show ?thesis using False by (simp add: bit_simps)
    qed (use low in simp)
    ultimately show ?thesis using k(2) by (intro exI [of _ "4 + k"]) (simp add: bit_simps)
  qed
qed

lemma low_bit:
  assumes "w \<noteq> 0"
  obtains n where "zend_mm_low_bit w = Some n" "bit w n" "\<forall>j<n. \<not> bit w j"
  using low_bit_loop [OF assms, of 0] by (auto simp: zend_mm_low_bit_def)

subsection \<open>Headers\<close>

text \<open>A multiple of 8 with a type in its lowest bits.\<close>

lemma header_bits:
  assumes "8 dvd unat w"
  shows "(ZEND_MM_FREE_BLOCK OR w) = w" "(w AND NOT ZEND_MM_TYPE_MASK) = w" "((ZEND_MM_USED_BLOCK OR w) AND NOT ZEND_MM_TYPE_MASK) = w"
    "(w AND ZEND_MM_USED_BLOCK) = 0" "((ZEND_MM_USED_BLOCK OR w) AND ZEND_MM_USED_BLOCK) \<noteq> 0"
    "(w AND ZEND_MM_TYPE_MASK) \<noteq> ZEND_MM_GUARD_BLOCK" "((ZEND_MM_USED_BLOCK OR w) AND ZEND_MM_TYPE_MASK) \<noteq> ZEND_MM_GUARD_BLOCK"
    "w \<noteq> ZEND_MM_GUARD_BLOCK" "(ZEND_MM_USED_BLOCK OR w) \<noteq> ZEND_MM_GUARD_BLOCK"
proof -
  have b: "\<not> bit w 0" "\<not> bit w 1" "\<not> bit w (Suc 0)" using assms by (simp_all add: low_bits)
  have m: "ZEND_MM_TYPE_MASK = mask 2" "ZEND_MM_GUARD_BLOCK = mask 2" "ZEND_MM_USED_BLOCK = mask 1"
    by (simp_all add: ZEND_MM_TYPE_MASK_def ZEND_MM_GUARD_BLOCK_def ZEND_MM_USED_BLOCK_def mask_eq_exp_minus_1)
  have p: "bit w n \<Longrightarrow> 0 < n \<and> n \<noteq> Suc 0" for n using b by (cases "n = 0") auto
  have j: "j < 2 \<longleftrightarrow> j = 0 \<or> j = 1" "j < 1 \<longleftrightarrow> j = 0" for j :: nat by auto
  show "(ZEND_MM_FREE_BLOCK OR w) = w" by (simp add: ZEND_MM_FREE_BLOCK_def)
  show "(w AND NOT ZEND_MM_TYPE_MASK) = w" unfolding m using b by (intro bit_word_eqI) (auto simp: bit_simps j dest: p)
  show "((ZEND_MM_USED_BLOCK OR w) AND NOT ZEND_MM_TYPE_MASK) = w" unfolding m using b by (intro bit_word_eqI) (auto simp: bit_simps j dest: p)
  show "(w AND ZEND_MM_USED_BLOCK) = 0" unfolding m using b by (intro bit_word_eqI) (auto simp: bit_simps j dest: p)
  have used: "bit ((ZEND_MM_USED_BLOCK OR w) AND ZEND_MM_USED_BLOCK) 0" unfolding m by (simp add: bit_simps)
  then show "((ZEND_MM_USED_BLOCK OR w) AND ZEND_MM_USED_BLOCK) \<noteq> 0" by (metis bit_0_eq bot_apply bot_bool_def)
  have g: "bit ZEND_MM_GUARD_BLOCK 1" unfolding m by (simp add: bit_simps)
  have n: "\<not> bit (w AND ZEND_MM_TYPE_MASK) 1" "\<not> bit ((ZEND_MM_USED_BLOCK OR w) AND ZEND_MM_TYPE_MASK) 1"
    "\<not> bit w 1" "\<not> bit (ZEND_MM_USED_BLOCK OR w) 1" unfolding m using b by (simp_all add: bit_simps)
  show "(w AND ZEND_MM_TYPE_MASK) \<noteq> ZEND_MM_GUARD_BLOCK" using g n(1) by metis
  show "((ZEND_MM_USED_BLOCK OR w) AND ZEND_MM_TYPE_MASK) \<noteq> ZEND_MM_GUARD_BLOCK" using g n(2) by metis
  show "w \<noteq> ZEND_MM_GUARD_BLOCK" using g n(3) by metis
  show "(ZEND_MM_USED_BLOCK OR w) \<noteq> ZEND_MM_GUARD_BLOCK" using g n(4) by metis
qed

subsection \<open>Doubly linked rings\<close>

text \<open>
  Doubly linked rings over two pointer maps: the nodes in the order of the forward pointers, starting
  anywhere.
\<close>

fun in_line :: "('a \<rightharpoonup> 'a) \<Rightarrow> ('a \<rightharpoonup> 'a) \<Rightarrow> 'a list \<Rightarrow> bool" where
  "in_line pv nx (x # y # zs) \<longleftrightarrow> nx x = Some y \<and> pv y = Some x \<and> in_line pv nx (y # zs)"
| "in_line pv nx _ \<longleftrightarrow> True"

definition blk_ring :: "('a \<rightharpoonup> 'a) \<Rightarrow> ('a \<rightharpoonup> 'a) \<Rightarrow> 'a list \<Rightarrow> bool" where
  "blk_ring pv nx ns \<longleftrightarrow> ns \<noteq> [] \<and> distinct ns \<and> in_line pv nx (ns @ [hd ns])"

lemma linked_append: "in_line pv nx (xs @ y # zs) \<longleftrightarrow> in_line pv nx (xs @ [y]) \<and> in_line pv nx (y # zs)"
proof (induction xs)
  case (Cons x xs)
  then show ?case by (cases xs) auto
qed simp

lemma linked_Cons: "in_line pv nx (x # ys) \<longleftrightarrow> ys = [] \<or> nx x = Some (hd ys) \<and> pv (hd ys) = Some x \<and> in_line pv nx ys"
  by (cases ys) auto

lemma linked_snoc:
  "zs \<noteq> [] \<Longrightarrow> in_line pv nx (zs @ [x]) \<longleftrightarrow> nx (last zs) = Some x \<and> pv x = Some (last zs) \<and> in_line pv nx zs"
proof (cases zs rule: rev_cases)
  case (snoc us l)
  then show ?thesis using linked_append [of pv nx us l "[x]"] by auto
qed simp

lemma links_cong:
  "in_line pv nx ns \<Longrightarrow> \<forall>x\<in>set (butlast ns). nx' x = nx x \<Longrightarrow> \<forall>x\<in>set (tl ns). pv' x = pv x \<Longrightarrow> in_line pv' nx' ns"
proof (induction ns)
  case (Cons x ns)
  then show ?case by (cases ns) (auto simp: linked_Cons)
qed simp

lemma ring_cong:
  assumes "blk_ring pv nx ns" and "\<forall>x\<in>set ns. nx' x = nx x" and "\<forall>x\<in>set ns. pv' x = pv x"
  shows "blk_ring pv' nx' ns"
proof -
  have "\<forall>x\<in>set (tl ns). pv' x = pv x" using assms(3) by (cases ns) auto
  then show ?thesis using assms unfolding blk_ring_def by (auto intro!: links_cong [of pv nx])
qed

lemma ring_rotate:
  assumes "blk_ring pv nx (xs @ ys)"
  shows "blk_ring pv nx (ys @ xs)"
proof (cases "xs = [] \<or> ys = []")
  case False
  then obtain x xs' y ys' where e: "xs = x # xs'" "ys = y # ys'" by (auto simp: neq_Nil_conv)
  have "in_line pv nx ((xs @ y # ys') @ [x])" using assms e by (simp add: blk_ring_def)
  then have "in_line pv nx (xs @ [y])" "in_line pv nx (ys @ [x])"
    using linked_append [of pv nx xs y "ys' @ [x]"] e by simp_all
  then have "in_line pv nx (ys @ xs @ [y])" using linked_append [of pv nx ys x "xs' @ [y]"] e by simp
  then show ?thesis using assms e by (auto simp: blk_ring_def)
qed (use assms in auto)

lemma ring_halves:
  assumes "blk_ring pv nx ns" and "x \<in> set ns"
  obtains us vs where "ns = us @ x # vs" "blk_ring pv nx (x # vs @ us)"
proof -
  obtain us vs where e: "ns = us @ x # vs" using assms(2) by (meson split_list)
  then have "blk_ring pv nx ((x # vs) @ us)" using ring_rotate [of pv nx us "x # vs"] assms(1) by simp
  then show ?thesis using that e by simp
qed

lemma ring_next: "blk_ring pv nx (x # ys) \<Longrightarrow> nx x = Some (hd (ys @ [x]))"
  by (cases ys) (auto simp: blk_ring_def)

lemma ring_prev: "blk_ring pv nx (x # ys) \<Longrightarrow> pv x = Some (last (x # ys))"
  using linked_snoc [of "x # ys" pv nx x] by (simp add: blk_ring_def)

lemma ring_singleton: "blk_ring pv nx [x] \<longleftrightarrow> nx x = Some x \<and> pv x = Some x"
  by (auto simp: blk_ring_def)

lemma ring_first: "blk_ring pv nx (x # ys) \<Longrightarrow> pv (hd (ys @ [x])) = Some x"
  by (cases ys) (auto simp: blk_ring_def)

lemma ring_last: "blk_ring pv nx (x # ys) \<Longrightarrow> nx (last (x # ys)) = Some x"
  using linked_snoc [of "x # ys" pv nx x] by (simp add: blk_ring_def)

text \<open>Taking a node out, and putting one in behind another.\<close>

lemma ring_unlink:
  assumes r: "blk_ring pv nx (x # ys)" and "ys \<noteq> []"
  shows "blk_ring (pv(hd ys \<mapsto> last ys)) (nx(last ys \<mapsto> hd ys)) ys"
proof -
  have d: "distinct ys" using r by (simp add: blk_ring_def)
  have "in_line pv nx ((x # ys) @ [x])" using r by (simp add: blk_ring_def)
  then have "in_line pv nx (x # ys)" by (subst (asm) linked_snoc) simp_all
  then have "in_line pv nx ys" using assms(2) by (simp add: linked_Cons)
  moreover have "last ys \<notin> set (butlast ys)" using d assms(2) by (metis distinct_append not_distinct_conv_prefix append_butlast_last_id)
  moreover have "hd ys \<notin> set (tl ys)" using d assms(2) by (cases ys) auto
  ultimately have "in_line (pv(hd ys \<mapsto> last ys)) (nx(last ys \<mapsto> hd ys)) ys" by (auto intro!: links_cong [of pv nx])
  then show ?thesis using d assms(2) by (simp add: blk_ring_def linked_snoc)
qed

lemma ring_link:
  assumes r: "blk_ring pv nx (p # ys)" and a: "a \<notin> set (p # ys)"
  shows "blk_ring (pv(a \<mapsto> p, hd (ys @ [p]) \<mapsto> a)) (nx(a \<mapsto> hd (ys @ [p]), p \<mapsto> a)) (p # a # ys)"
proof (cases ys)
  case Nil
  then show ?thesis using a by (auto simp: blk_ring_def)
next
  case (Cons y zs)
  let ?pv = "pv(a \<mapsto> p, y \<mapsto> a)" and ?nx = "nx(a \<mapsto> y, p \<mapsto> a)"
  have d: "distinct (p # y # zs)" "a \<notin> {p, y}" "a \<notin> set zs" using r a Cons by (auto simp: blk_ring_def)
  have "in_line pv nx (y # zs @ [p])" using r Cons by (simp add: blk_ring_def)
  then have "in_line ?pv ?nx (y # zs @ [p])"
    by (rule links_cong) (use d in \<open>auto simp: butlast_append\<close>)
  moreover have "p \<noteq> a" using a by auto
  ultimately show ?thesis using d Cons by (simp add: blk_ring_def)
qed

end
