(* ===== verification/Zend_Mm_Trie.thy ===== *)
theory Zend_Mm_Trie
  imports Zend_Mm_Words
begin

text \<open>
  The trees of large free blocks: a node has the blocks of one size in a ring, the first of them being in
  the tree; below it on either side are sizes that agree with it on the bits the path has used up.
\<close>

datatype ftr = Tip | Nd nat "nat list" ftr ftr

fun heads :: "ftr \<Rightarrow> nat list" where
  "heads Tip = []"
| "heads (Nd a ds l r) = a # heads l @ heads r"

fun blks :: "ftr \<Rightarrow> nat list" where
  "blks Tip = []"
| "blks (Nd a ds l r) = a # ds @ blks l @ blks r"

text \<open>The tree below a cell of the heap.\<close>

fun tri :: "mm_heap \<Rightarrow> fcell \<Rightarrow> ftr \<Rightarrow> bool" where
  "tri h c Tip \<longleftrightarrow> ftree h c = Some Null"
| "tri h c (Nd a ds l r) \<longleftrightarrow> ftree h c = Some (Blk a) \<and> parent h a = Some (At c) \<and>
     blk_ring (prev_free h) (next_free h) (map Blk (a # ds)) \<and> (\<forall>d\<in>set ds. parent h d = Some No_parent) \<and>
     tri h (Child a False) l \<and> tri h (Child a True) r"

text \<open>The sizes in a tree where \<open>k\<close> bits are left, the ones above them being \<open>pre\<close>.\<close>

fun keyed :: "(nat \<Rightarrow> nat) \<Rightarrow> nat \<Rightarrow> nat \<Rightarrow> ftr \<Rightarrow> bool" where
  "keyed s k pre Tip \<longleftrightarrow> True"
| "keyed s k pre (Nd a ds l r) \<longleftrightarrow> s a div 2 ^ k = pre \<and> (\<forall>d\<in>set ds. s d = s a) \<and>
     s a \<notin> s ` set (heads l @ heads r) \<and>
     (case k of 0 \<Rightarrow> l = Tip \<and> r = Tip | Suc j \<Rightarrow> keyed s j (2 * pre) l \<and> keyed s j (2 * pre + 1) r)"

definition bsz :: "mm_heap \<Rightarrow> nat \<Rightarrow> nat" where
  "bsz h a = (case blk_size h a of Some w \<Rightarrow> unat w | None \<Rightarrow> 0)"

lemma set_heads: "set (heads t) \<subseteq> set (blks t)"
  by (induction t) auto

lemma keyed_prefix: "keyed s k pre t \<Longrightarrow> b \<in> set (blks t) \<Longrightarrow> s b div 2 ^ k = pre"
proof (induction t arbitrary: k pre)
  case (Nd a ds l r)
  show ?case
  proof (cases "b \<in> set (a # ds)")
    case False
    then obtain j where k: "k = Suc j" using Nd.prems by (cases k) auto
    then have "s b div 2 ^ j = 2 * pre \<or> s b div 2 ^ j = 2 * pre + 1"
      using Nd.prems Nd.IH(1) [of j "2 * pre"] Nd.IH(2) [of j "2 * pre + 1"] False by auto
    moreover have "s b div 2 ^ k = s b div 2 ^ j div 2" unfolding k by (simp add: div_mult2_eq [symmetric] mult.commute)
    ultimately show ?thesis by auto
  qed (use Nd.prems in auto)
qed simp

lemma keyed_distinct: "keyed s k pre t \<Longrightarrow> distinct (map s (heads t))"
proof (induction t arbitrary: k pre)
  case (Nd a ds l r)
  show ?case
  proof (cases k)
    case (Suc j)
    then have k: "keyed s j (2 * pre) l" "keyed s j (2 * pre + 1) r" using Nd.prems by simp_all
    have "s b div 2 ^ j = 2 * pre" if "b \<in> set (heads l)" for b using keyed_prefix [OF k(1)] set_heads that by blast
    moreover have "s b div 2 ^ j = 2 * pre + 1" if "b \<in> set (heads r)" for b using keyed_prefix [OF k(2)] set_heads that by blast
    ultimately have "s ` set (heads l) \<inter> s ` set (heads r) = {}" by force
    then show ?thesis using Nd.prems Nd.IH(1) [OF k(1)] Nd.IH(2) [OF k(2)] by auto
  qed (use Nd.prems in auto)
qed simp

lemma keyed_heads: "keyed s k pre t \<Longrightarrow> b \<in> set (blks t) \<Longrightarrow> \<exists>a\<in>set (heads t). s a = s b"
proof (induction t arbitrary: k pre)
  case (Nd a ds l r)
  show ?case
  proof (cases "b \<in> set (a # ds)")
    case False
    then obtain j where "k = Suc j" using Nd.prems by (cases k) auto
    then show ?thesis using Nd.prems Nd.IH(1) [of j "2 * pre"] Nd.IH(2) [of j "2 * pre + 1"] False by auto
  qed (use Nd.prems in auto)
qed simp

lemma keyed_cong: "keyed s k pre t \<Longrightarrow> \<forall>b\<in>set (blks t). s' b = s b \<Longrightarrow> keyed s' k pre t"
proof (induction t arbitrary: k pre)
  case (Nd a ds l r)
  have "s' ` set (heads l) = s ` set (heads l)" "s' ` set (heads r) = s ` set (heads r)"
    using Nd.prems(2) set_heads [of l] set_heads [of r] by (auto intro!: image_cong)
  then show ?case using Nd.prems Nd.IH by (cases k) auto
qed simp

subsection \<open>What an operation on the links touches\<close>

definition links_only :: "mm_heap \<Rightarrow> mm_heap \<Rightarrow> bool" where
  "links_only h h' \<longleftrightarrow> h' = h\<lparr>prev_free := prev_free h', next_free := next_free h', parent := parent h', ftree := ftree h'\<rparr>"

definition touch :: "nat set \<Rightarrow> fblk set \<Rightarrow> fcell set \<Rightarrow> mm_heap \<Rightarrow> mm_heap \<Rightarrow> bool" where
  "touch B N C h h' \<longleftrightarrow> links_only h h' \<and>
     (\<forall>x. x \<notin> N \<and> x \<notin> Blk ` B \<longrightarrow> prev_free h' x = prev_free h x \<and> next_free h' x = next_free h x) \<and>
     (\<forall>b. b \<notin> B \<longrightarrow> parent h' b = parent h b) \<and>
     (\<forall>c. c \<notin> C \<and> (\<forall>b\<in>B. \<forall>i. c \<noteq> Child b i) \<longrightarrow> ftree h' c = ftree h c)"

lemma links_only_blocks: "links_only h h' \<Longrightarrow> blk_size h' = blk_size h \<and> blk_prev h' = blk_prev h"
  unfolding links_only_def by (cases h; cases h') simp

lemma touch_link:
  "touch B N C h h' \<Longrightarrow> b \<notin> B \<Longrightarrow> Blk b \<notin> N \<Longrightarrow>
     prev_free h' (Blk b) = prev_free h (Blk b) \<and> next_free h' (Blk b) = next_free h (Blk b) \<and> parent h' b = parent h b"
  by (auto simp: touch_def)

lemma touch_head:
  "touch B N C h h' \<Longrightarrow> x \<notin> N \<Longrightarrow> \<forall>b. x \<noteq> Blk b \<Longrightarrow> prev_free h' x = prev_free h x \<and> next_free h' x = next_free h x"
  by (auto simp: touch_def)

lemma touch_child: "touch B N C h h' \<Longrightarrow> b \<notin> B \<Longrightarrow> Child b i \<notin> C \<Longrightarrow> ftree h' (Child b i) = ftree h (Child b i)"
  by (auto simp: touch_def)

lemma touch_cell: "touch B N C h h' \<Longrightarrow> c \<notin> C \<Longrightarrow> \<forall>b\<in>B. \<forall>i. c \<noteq> Child b i \<Longrightarrow> ftree h' c = ftree h c"
  by (auto simp: touch_def)

lemma touch_blocks: "touch B N C h h' \<Longrightarrow> blk_size h' = blk_size h \<and> blk_prev h' = blk_prev h"
  by (simp add: touch_def links_only_blocks)

lemma touch_bsz: "touch B N C h h' \<Longrightarrow> bsz h' = bsz h"
  by (simp add: touch_blocks bsz_def fun_eq_iff)

lemma touch_trans:
  assumes "touch B N C h h1" and "touch B' N' C' h1 h2"
  shows "touch (B \<union> B') (N \<union> N') (C \<union> C') h h2"
proof -
  have "links_only h h1" "links_only h1 h2" using assms by (simp_all add: touch_def)
  then have "links_only h h2" unfolding links_only_def by (cases h; cases h1; cases h2) simp
  then show ?thesis using assms unfolding touch_def by (auto simp: image_Un)
qed

lemma touch_mono:
  assumes "touch B N C h h'" and "B \<subseteq> B'" and "N \<subseteq> N' \<union> Blk ` B'" and "\<forall>c\<in>C. c \<in> C' \<or> (\<exists>b\<in>B'. \<exists>i. c = Child b i)"
  shows "touch B' N' C' h h'"
  unfolding touch_def
proof (intro conjI allI impI)
  show "links_only h h'" using assms(1) by (simp add: touch_def)
next
  fix x assume "x \<notin> N' \<and> x \<notin> Blk ` B'"
  then have "x \<notin> N \<and> x \<notin> Blk ` B" using assms(2,3) by auto
  then show "prev_free h' x = prev_free h x" "next_free h' x = next_free h x" using assms(1) by (simp_all add: touch_def)
next
  fix b assume "b \<notin> B'"
  then show "parent h' b = parent h b" using assms(1,2) by (auto simp: touch_def)
next
  fix c assume c: "c \<notin> C' \<and> (\<forall>b\<in>B'. \<forall>i. c \<noteq> Child b i)"
  then have "c \<notin> C \<and> (\<forall>b\<in>B. \<forall>i. c \<noteq> Child b i)" using assms(2,4) by blast
  then show "ftree h' c = ftree h c" using assms(1) by (simp add: touch_def)
qed

lemma touch_refl: "touch B N C h h"
  by (simp add: touch_def links_only_def)

lemma tri_cong:
  assumes "tri h c t" and "ftree h' c = ftree h c"
    and "\<forall>b\<in>set (blks t). prev_free h' (Blk b) = prev_free h (Blk b) \<and> next_free h' (Blk b) = next_free h (Blk b) \<and>
      parent h' b = parent h b \<and> (\<forall>i. ftree h' (Child b i) = ftree h (Child b i))"
  shows "tri h' c t"
  using assms
proof (induction t arbitrary: c)
  case (Nd a ds l r)
  have "blk_ring (prev_free h') (next_free h') (map Blk (a # ds))"
    by (rule ring_cong) (use Nd.prems in auto)
  then show ?case using Nd by simp
qed simp

lemma tri_touch:
  assumes "tri h c t" and "touch B N C h h'" and "B \<inter> set (blks t) = {}" and "N \<inter> Blk ` set (blks t) = {}"
    and "c \<notin> C" and "\<forall>b\<in>B. \<forall>i. c \<noteq> Child b i" and "\<forall>b\<in>set (blks t). \<forall>i. Child b i \<notin> C"
  shows "tri h' c t"
proof (rule tri_cong [OF assms(1)])
  show "ftree h' c = ftree h c" using touch_cell [OF assms(2,5,6)] .
  show "\<forall>b\<in>set (blks t). prev_free h' (Blk b) = prev_free h (Blk b) \<and> next_free h' (Blk b) = next_free h (Blk b) \<and>
      parent h' b = parent h b \<and> (\<forall>i. ftree h' (Child b i) = ftree h (Child b i))"
  proof
    fix b assume b: "b \<in> set (blks t)"
    then have "b \<notin> B" "Blk b \<notin> N" "\<forall>i. Child b i \<notin> C" using assms(3,4,7) by auto
    then show "prev_free h' (Blk b) = prev_free h (Blk b) \<and> next_free h' (Blk b) = next_free h (Blk b) \<and>
        parent h' b = parent h b \<and> (\<forall>i. ftree h' (Child b i) = ftree h (Child b i))"
      using touch_link [OF assms(2)] touch_child [OF assms(2)] by blast
  qed
qed

subsection \<open>Links\<close>

lemma link_behind:
  assumes r: "blk_ring (prev_free h) (next_free h) (x # ys)" and a: "Blk a \<notin> set (x # ys)" and n: "Null \<notin> set (x # ys)"
  obtains h' where "link_behind x a h = Some h'" "blk_ring (prev_free h') (next_free h') (x # Blk a # ys)"
    "touch {a} (set (x # ys)) {} h h'" "parent h' = parent h" "ftree h' = ftree h"
proof -
  define y where "y = hd (ys @ [x])"
  have y: "y \<in> set (x # ys)" by (cases ys) (auto simp: y_def)
  then have ny: "y \<noteq> Null" "x \<noteq> Null" using n by auto
  have nx: "next_free h x = Some y" using ring_next [OF r] by (simp add: y_def)
  let ?h = "h\<lparr>prev_free := (prev_free h)(Blk a \<mapsto> x, y \<mapsto> Blk a), next_free := (next_free h)(Blk a \<mapsto> y, x \<mapsto> Blk a)\<rparr>"
  have "link_behind x a h = Some ?h"
    using nx ny by (simp add: link_behind_def set_prev_free_def set_next_free_def)
  moreover have "blk_ring (prev_free ?h) (next_free ?h) (x # Blk a # ys)" using ring_link [OF r a] by (simp add: y_def)
  moreover have "touch {a} (set (x # ys)) {} h ?h" using y by (auto simp: touch_def links_only_def)
  ultimately show ?thesis using that by simp
qed

lemma plant:
  assumes "ftree h (Child a False) = Some Null" "ftree h (Child a True) = Some Null" and "\<forall>i. p \<noteq> Child a i"
  obtains h' where "plant p a h = Some h'" "tri h' p (Nd a [] Tip Tip)" "touch {a} {} {p} h h'"
proof -
  let ?h = "h\<lparr>parent := (parent h)(a \<mapsto> At p), ftree := (ftree h)(p \<mapsto> Blk a), prev_free := (prev_free h)(Blk a \<mapsto> Blk a),
    next_free := (next_free h)(Blk a \<mapsto> Blk a)\<rparr>"
  have "plant p a h = Some ?h" by (simp add: plant_def set_prev_free_def set_next_free_def set_parent_def set_cell_def)
  moreover have "tri ?h p (Nd a [] Tip Tip)" using assms(1,2) assms(3) [rule_format, of False] assms(3) [rule_format, of True]
    by (simp add: ring_singleton)
  moreover have "touch {a} {} {p} h ?h" by (auto simp: touch_def links_only_def)
  ultimately show ?thesis using that by simp
qed

subsection \<open>Insertion\<close>

lemma next_bit:
  assumes "unat (sz :: ulong) div 2 ^ Suc j = pre" and "j < 63"
  shows "bit (push_bit (63 - j) sz) 63 \<longleftrightarrow> unat sz div 2 ^ j = 2 * pre + 1"
    and "\<not> bit (push_bit (63 - j) sz) 63 \<longleftrightarrow> unat sz div 2 ^ j = 2 * pre"
proof -
  have "bit (push_bit (63 - j) sz) 63 \<longleftrightarrow> bit sz j" using assms(2) by (simp add: bit_simps)
  also have "\<dots> \<longleftrightarrow> odd (unat sz div 2 ^ j)" by (simp add: bit_unsigned_iff flip: bit_iff_odd)
  finally have b: "bit (push_bit (63 - j) sz) 63 \<longleftrightarrow> odd (unat sz div 2 ^ j)" .
  have q: "unat sz div 2 ^ j div 2 = pre" using assms(1) by (simp add: div_mult2_eq [symmetric] mult.commute)
  have "(n = 2 * q \<or> n = 2 * q + 1) \<and> (odd n \<longleftrightarrow> n = 2 * q + 1)" if "n div 2 = q" for n q :: nat
    using that by presburger
  from this [OF q] show "bit (push_bit (63 - j) sz) 63 \<longleftrightarrow> unat sz div 2 ^ j = 2 * pre + 1"
    "\<not> bit (push_bit (63 - j) sz) 63 \<longleftrightarrow> unat sz div 2 ^ j = 2 * pre"
    unfolding b by auto
qed

lemma insert_large:
  assumes "tri h c t" and "t \<noteq> Tip" and "keyed (bsz h) k pre t" and "k < 64" and "distinct (a # blks t)"
    and "\<forall>b\<in>set (blks t). blk_size h b \<noteq> None" and "blk_size h a = Some sz" and "unat sz div 2 ^ k = pre"
    and "ftree h (Child a False) = Some Null" "ftree h (Child a True) = Some Null"
    and "\<forall>b\<in>set (a # blks t). \<forall>i. c \<noteq> Child b i"
  shows "\<exists>h' t'. insert_large a sz (push_bit (64 - k) sz) c h = Some h' \<and> tri h' c t' \<and> keyed (bsz h) k pre t' \<and>
    mset (blks t') = add_mset a (mset (blks t)) \<and> set (heads t') \<subseteq> insert a (set (heads t)) \<and> t' \<noteq> Tip \<and>
    touch (set (a # blks t)) {} {c} h h'"
  using assms
proof (induction t arbitrary: c k pre)
  case (Nd b ds l r)
  let ?s = "bsz h"
  have a: "?s a = unat sz" using Nd.prems(7) by (simp add: bsz_def)
  have c: "ftree h c = Some (Blk b)" "blk_ring (prev_free h) (next_free h) (Blk b # map Blk ds)" using Nd.prems(1) by simp_all
  obtain w where w: "blk_size h b = Some w" using Nd.prems(6) by auto
  have sb: "?s b = unat w" using w by (simp add: bsz_def)
  show ?case
  proof (cases "w = sz")
    case True
    obtain h1 where h1: "link_behind (Blk b) a h = Some h1" "blk_ring (prev_free h1) (next_free h1) (Blk b # Blk a # map Blk ds)"
      "touch {a} (set (Blk b # map Blk ds)) {} h h1" "parent h1 = parent h" "ftree h1 = ftree h"
      using link_behind [OF c(2), of a] Nd.prems(5) by (auto simp: image_iff)
    let ?h = "set_parent a No_parent h1" and ?t = "Nd b (a # ds) l r"
    have "insert_large a sz (push_bit (64 - k) sz) c h = Some ?h"
      using True w c(1) h1(1) by (simp add: insert_large.simps [of a sz _ c] ZEND_MM_FREE_BLOCK_SIZE_def blk_addr_def)
    moreover have t1: "touch {a} {} {} h1 ?h" by (auto simp: touch_def links_only_def set_parent_def)
    have touch: "touch ({a} \<union> {a}) (set (Blk b # map Blk ds) \<union> {}) ({} \<union> {}) h ?h" by (rule touch_trans [OF h1(3) t1])
    have sub: "tri h (Child b False) l" "tri h (Child b True) r" using Nd.prems(1) by simp_all
    have "tri ?h (Child b False) l"
      by (rule tri_touch [OF sub(1) touch]) (use Nd.prems(5) in \<open>auto simp: image_iff\<close>)
    moreover have "tri ?h (Child b True) r"
      by (rule tri_touch [OF sub(2) touch]) (use Nd.prems(5) in \<open>auto simp: image_iff\<close>)
    ultimately have "tri ?h c ?t" using Nd.prems(1,5) h1(2,4,5) by (auto simp: set_parent_def)
    moreover have "keyed ?s k pre ?t" using Nd.prems(3) a sb True by simp
    moreover have "touch (set (a # blks (Nd b ds l r))) {} {c} h ?h" by (rule touch_mono [OF touch]) auto
    ultimately show ?thesis using \<open>insert_large a sz _ c h = Some ?h\<close> by (intro exI [of _ ?h] exI [of _ ?t]) auto
  next
    case False
    then have ne: "?s a \<noteq> ?s b" using a sb by (simp add: word_unat_eq_iff)
    obtain j where k: "k = Suc j"
    proof (cases k)
      case 0
      then have "?s a = ?s b" using Nd.prems(3,8) a by simp
      then show ?thesis using ne by simp
    qed blast
    define x where "x = bit (push_bit (64 - k) sz) 63"
    define u where "u = (if x then r else l)"
    define p where "p = (if x then 2 * pre + 1 else 2 * pre)"
    have nb: "unat sz div 2 ^ j = p" using next_bit [of sz j pre] Nd.prems(4,8) k by (auto simp: x_def p_def)
    have u: "tri h (Child b x) u" "keyed ?s j p u" "distinct (a # blks u)" "set (blks u) \<subseteq> set (blks (Nd b ds l r))"
      using Nd.prems(1,3,5) k by (auto simp: u_def p_def)
    have loop: "insert_large a sz (push_bit (64 - k) sz) c h =
        (if u = Tip then plant (Child b x) a h else insert_large a sz (push_bit (64 - j) sz) (Child b x) h)"
    proof -
      have m: "push_bit 1 (push_bit (64 - k) sz) = push_bit (64 - j) sz" 
      proof -
        have "1 + (64 - k) = 64 - j" using Nd.prems(4) k by simp
        then show ?thesis by (simp only: push_bit_push_bit)
      qed
      have "(ftree h (Child b x) = Some Null) = (u = Tip)" "ftree h (Child b x) \<noteq> None" using u(1) by (cases u; simp)+
      then show ?thesis using c(1) w False unfolding insert_large.simps [of a sz "push_bit (64 - k) sz" c] m
        by (auto simp: ZEND_MM_FREE_BLOCK_SIZE_def blk_addr_def Let_def m simp flip: x_def)
    qed
    have out: "\<forall>i. Child b x \<noteq> Child a i" using Nd.prems(5) by auto
    have "\<exists>h' u'. (if u = Tip then plant (Child b x) a h else insert_large a sz (push_bit (64 - j) sz) (Child b x) h) = Some h' \<and>
      tri h' (Child b x) u' \<and> keyed ?s j p u' \<and> mset (blks u') = add_mset a (mset (blks u)) \<and>
      set (heads u') \<subseteq> insert a (set (heads u)) \<and> touch (set (a # blks u)) {} {Child b x} h h'"
    proof (cases "u = Tip")
      case True
      obtain h' where "plant (Child b x) a h = Some h'" "tri h' (Child b x) (Nd a [] Tip Tip)" "touch {a} {} {Child b x} h h'"
        using plant [OF Nd.prems(9,10) out] by metis
      moreover have "keyed ?s j p (Nd a [] Tip Tip)" using nb a by (simp split: nat.splits)
      ultimately show ?thesis using True by (intro exI [of _ h'] exI [of _ "Nd a [] Tip Tip"]) simp
    next
      case nonempty: False
      have ih: "\<exists>h' t'. insert_large a sz (push_bit (64 - j) sz) (Child b x) h = Some h' \<and> tri h' (Child b x) t' \<and> keyed ?s j p t' \<and>
          mset (blks t') = add_mset a (mset (blks u)) \<and> set (heads t') \<subseteq> insert a (set (heads u)) \<and> t' \<noteq> Tip \<and>
          touch (set (a # blks u)) {} {Child b x} h h'"
      proof -
        have "\<forall>b\<in>set (blks u). blk_size h b \<noteq> None" "\<forall>y\<in>set (a # blks u). \<forall>i. Child b x \<noteq> Child y i" "j < 64"
          using Nd.prems(4,5,6) u(4) k by (auto simp: u_def)
        then show ?thesis using Nd.IH [of "Child b x" j p] u nonempty nb Nd.prems(7,9,10) by (cases x) (auto simp: u_def)
      qed
      then show ?thesis using nonempty by auto
    qed
    then obtain h' u' where h': "insert_large a sz (push_bit (64 - k) sz) c h = Some h'" "tri h' (Child b x) u'" "keyed ?s j p u'"
      "mset (blks u') = add_mset a (mset (blks u))" "set (heads u') \<subseteq> insert a (set (heads u))" "touch (set (a # blks u)) {} {Child b x} h h'"
      unfolding loop by blast
    let ?t = "if x then Nd b ds l u' else Nd b ds u' r"
    have out_b: "y \<notin> set (a # blks u)" if "y \<in> set (b # ds)" for y using that Nd.prems(5) by (auto simp: u_def split: if_splits)
    have links: "prev_free h' (Blk y) = prev_free h (Blk y) \<and> next_free h' (Blk y) = next_free h (Blk y) \<and> parent h' y = parent h y"
      if "y \<in> set (b # ds)" for y using touch_link [OF h'(6) out_b [OF that]] by simp
    have "blk_ring (prev_free h') (next_free h') (map Blk (b # ds))"
      by (rule ring_cong) (use c(2) links in auto)
    moreover have "ftree h' c = Some (Blk b)" using touch_cell [OF h'(6), of c] c(1) Nd.prems(11) u(4) by auto
    moreover have "tri h' (Child b (\<not> x)) (if x then l else r)"
    proof (rule tri_touch [OF _ h'(6)])
      show "tri h (Child b (\<not> x)) (if x then l else r)" using Nd.prems(1) by simp
      show "set (a # blks u) \<inter> set (blks (if x then l else r)) = {}" using Nd.prems(5) by (auto simp: u_def)
      show "\<forall>y\<in>set (a # blks u). \<forall>i. Child b (\<not> x) \<noteq> Child y i" using out_b [of b] by auto
      show "\<forall>y\<in>set (blks (if x then l else r)). \<forall>i. Child y i \<notin> {Child b x}" using Nd.prems(5) by auto
    qed simp_all
    ultimately have "tri h' c ?t" using Nd.prems(1) links h'(2) by (cases x) auto
    moreover have "keyed ?s k pre ?t"
    proof -
      have "?s b \<notin> ?s ` set (heads u')" using h'(5) ne Nd.prems(3) by (auto simp: u_def split: if_splits)
      then show ?thesis using Nd.prems(3) h'(3) k by (cases x) (auto simp: p_def)
    qed
    moreover have "mset (blks ?t) = add_mset a (mset (blks (Nd b ds l r)))" using h'(4) by (cases x) (simp_all add: u_def)
    moreover have "set (heads ?t) \<subseteq> insert a (set (heads (Nd b ds l r)))" using h'(5) by (cases x) (auto simp: u_def)
    moreover have "touch (set (a # blks (Nd b ds l r))) {} {c} h h'" by (rule touch_mono [OF h'(6)]) (use u(4) in auto)
    ultimately show ?thesis using h'(1) by (intro exI [of _ h'] exI [of _ ?t]) auto
  qed
qed simp

subsection \<open>Taking a block out of a tree\<close>

text \<open>
  Taking a block out of a tree: out of the ring of its node, or with a leaf in its place.
\<close>

lemma unlink_ring:
  assumes r: "blk_ring (prev_free h) (next_free h) (x # ys)" and "ys \<noteq> []" and n: "Null \<notin> set ys"
  obtains h' where "unlink (last ys) (hd ys) h = Some h'" "blk_ring (prev_free h') (next_free h') ys"
    "touch {} (set ys) {} h h'" "parent h' = parent h" "ftree h' = ftree h"
proof -
  let ?h = "h\<lparr>next_free := (next_free h)(last ys \<mapsto> hd ys), prev_free := (prev_free h)(hd ys \<mapsto> last ys)\<rparr>"
  have i: "last ys \<in> set ys" "hd ys \<in> set ys" using assms(2) by simp_all
  then have "last ys \<noteq> Null" "hd ys \<noteq> Null" using n by metis+
  then have "unlink (last ys) (hd ys) h = Some ?h" by (simp add: unlink_def set_prev_free_def set_next_free_def)
  moreover have "blk_ring (prev_free ?h) (next_free ?h) ys" using ring_unlink [OF r assms(2)] by simp
  moreover have "touch {} (set ys) {} h ?h" using i by (auto simp: touch_def links_only_def)
  ultimately show ?thesis using that by simp
qed

lemma adopt_child:
  assumes "tri h (Child a i) u" and "p \<notin> set (a # blks u)" and "distinct (a # blks u)"
  obtains h' where "adopt_child a p i h = Some h'" "tri h' (Child p i) u" "touch (set (blks u)) {} {Child p i} h h'"
    "ftree h' = (ftree h)(Child p i := ftree h (Child a i))"
proof (cases u)
  case Tip
  let ?h = "set_cell (Child p i) Null h"
  have "adopt_child a p i h = Some ?h" using assms(1) Tip by (simp add: adopt_child_def)
  moreover have "touch (set (blks u)) {} {Child p i} h ?h" by (auto simp: touch_def links_only_def set_cell_def)
  ultimately show ?thesis using that assms(1) Tip by (simp add: set_cell_def)
next
  case (Nd b ds l r)
  let ?h1 = "set_cell (Child p i) (Blk b) h"
  let ?h = "set_parent b (At (Child p i)) ?h1"
  have "ZEND_MM_CHECK_TREE b ?h1 = Some ()" using assms(1,2) Nd
    by (auto simp: ZEND_MM_CHECK_TREE_def parent_cell_def set_cell_def panic_unless_def)
  then have "adopt_child a p i h = Some ?h" using assms(1) Nd by (simp add: adopt_child_def blk_addr_def)
  moreover have "tri ?h (Child b False) l" "tri ?h (Child b True) r"
    by (rule tri_cong [of h]; use assms Nd in \<open>auto simp: set_cell_def set_parent_def\<close>)+
  then have "tri ?h (Child p i) u" using assms Nd by (auto simp: set_cell_def set_parent_def)
  moreover have "touch (set (blks u)) {} {Child p i} h ?h" using Nd by (auto simp: touch_def links_only_def set_cell_def set_parent_def)
  ultimately show ?thesis using that assms(1) Nd by (simp add: set_cell_def set_parent_def)
qed

lemma subst_block:
  assumes "tri h (Child a False) l" "tri h (Child a True) r" and c: "ftree h c = Some (Blk a)" "parent h a = Some (At c)"
    and r: "blk_ring (prev_free h) (next_free h) (map Blk (p # ds))" and ds: "\<forall>d\<in>set ds. parent h d = Some No_parent"
    and d: "distinct (a # p # ds @ blks l @ blks r)" and out: "\<forall>b\<in>set (a # p # blks l @ blks r). \<forall>i. c \<noteq> Child b i"
  obtains h' where "subst_block a (Blk p) h = Some h'" "tri h' c (Nd p ds l r)"
    "touch (set (p # blks l @ blks r)) {} {c} h h'"
proof -
  let ?h = "set_parent p (At c) (set_cell c (Blk p) h)"
  have t0: "touch {p} {} {c} h ?h" by (auto simp: touch_def links_only_def set_cell_def set_parent_def)
  have l0: "tri ?h (Child a False) l" by (rule tri_touch [OF assms(1) t0]) (use d out in auto)
  have r0: "tri ?h (Child a True) r" by (rule tri_touch [OF assms(2) t0]) (use d out in auto)
  obtain h1 where h1: "adopt_child a p False ?h = Some h1" "tri h1 (Child p False) l" "touch (set (blks l)) {} {Child p False} ?h h1"
    "ftree h1 = (ftree ?h)(Child p False := ftree ?h (Child a False))"
    using adopt_child [OF l0, of p] d by auto
  have r1: "tri h1 (Child a True) r" by (rule tri_touch [OF r0 h1(3)]) (use d in auto)
  obtain h2 where h2: "adopt_child a p True h1 = Some h2" "tri h2 (Child p True) r" "touch (set (blks r)) {} {Child p True} h1 h2"
    "ftree h2 = (ftree h1)(Child p True := ftree h1 (Child a True))"
    using adopt_child [OF r1, of p] d by auto
  have l2: "tri h2 (Child p False) l" by (rule tri_touch [OF h1(2) h2(3)]) (use d in auto)
  have t: "touch (set (p # blks l @ blks r)) {} {c} h h2"
    by (rule touch_mono [OF touch_trans [OF t0 touch_trans [OF h1(3) h2(3)]]]) auto
  have links: "prev_free h2 (Blk y) = prev_free h (Blk y) \<and> next_free h2 (Blk y) = next_free h (Blk y) \<and> parent h2 y = parent ?h y"
    if "y \<in> set (p # ds)" for y
  proof -
    have "y \<notin> set (blks l)" "y \<notin> set (blks r)" using that d by auto
    then show ?thesis using touch_link [OF h1(3), of y] touch_link [OF h2(3), of y] by (simp add: set_parent_def set_cell_def)
  qed
  have "blk_ring (prev_free h2) (next_free h2) (map Blk (p # ds))" by (rule ring_cong [OF r]) (use links in auto)
  moreover have "ftree h2 c = Some (Blk p)" using h1(4) h2(4) out by (auto simp: set_cell_def set_parent_def)
  moreover have "parent h2 p = Some (At c)" "\<forall>d\<in>set ds. parent h2 d = Some No_parent"
    using links ds d by (auto simp: set_parent_def set_cell_def)
  ultimately have "tri h2 c (Nd p ds l r)" using l2 h2(2) by simp
  moreover have "subst_block a (Blk p) h = Some h2"
  proof -
    have "ZEND_MM_CHECK_TREE a h = Some ()" "parent_cell a h = Some c"
      using c by (simp_all add: ZEND_MM_CHECK_TREE_def parent_cell_def panic_unless_def)
    then show ?thesis using h1(1) h2(1) by (simp add: subst_block_def blk_addr_def)
  qed
  ultimately show ?thesis using that t by blast
qed

subsection \<open>A leaf\<close>

lemma find_leaf:
  assumes "tri h rp t0" and "distinct (blks t0)" and "\<forall>y\<in>set (blks t0). \<forall>i. rp \<noteq> Child y i"
    and "keyed s k pre t0" and "t0 = Nd b ds l r"
  shows "\<exists>rp' leaf lds t. find_leaf rp b h = Some (rp', leaf) \<and> tri (set_cell rp' Null h) rp t \<and> keyed s k pre t \<and>
    mset (blks t0) = mset (leaf # lds) + mset (blks t) \<and> blk_ring (prev_free h) (next_free h) (map Blk (leaf # lds)) \<and>
    (\<forall>d\<in>set lds. parent h d = Some No_parent \<and> s d = s leaf) \<and> leaf \<in> set (heads t0) \<and>
    set (heads t) \<subseteq> set (heads t0) - {leaf} \<and> (rp' = rp \<or> (\<exists>y\<in>set (blks t0). \<exists>i. rp' = Child y i))"
  using assms
proof (induction t0 arbitrary: rp b ds l r k pre)
  case (Nd b0 ds0 l0 r0)
  have e0: "b0 = b" "ds0 = ds" "l0 = l" "r0 = r" using Nd.prems(5) by simp_all
  note IH = Nd.IH [unfolded e0] and p = Nd.prems(1-4) [unfolded e0]
  have sub: "tri h (Child b False) l" "tri h (Child b True) r" using p(1) by simp_all
  have rn: "ftree h (Child b True) = Some Null \<longleftrightarrow> r = Tip" "ftree h (Child b True) \<noteq> None" using sub(2) by (cases r; simp)+
  define x u where "x = (r \<noteq> Tip)" and "u = (if x then r else l)"
  have tu: "tri h (Child b x) u" using sub by (simp add: u_def)
  have un: "ftree h (Child b x) = Some Null \<longleftrightarrow> u = Tip" "ftree h (Child b x) \<noteq> None" using tu by (cases u; simp)+
  have right: "\<exists>v. ftree h (Child b True) = Some v \<and> (v \<noteq> Null) = x" using rn by (auto simp: x_def)
  show ?case
  proof (cases u)
    case Tip
    then have e: "l = Tip" "r = Tip" by (auto simp: u_def x_def split: if_splits)
    have "find_leaf rp b h = Some (rp, b)" using right un Tip by (subst find_leaf.simps) auto
    moreover have "tri (set_cell rp Null h) rp Tip" by (simp add: set_cell_def)
    ultimately show ?thesis unfolding e0 using p e by (intro exI [of _ rp] exI [of _ b] exI [of _ ds] exI [of _ Tip]) auto
  next
    case (Nd b' ds' l' r')
    obtain j where k: "k = Suc j" using p(4) Nd by (cases k) (auto simp: u_def split: if_splits)
    define q where "q = (if x then 2 * pre + 1 else 2 * pre)"
    have ku: "keyed s j q u" using p(4) k by (simp add: u_def q_def)
    have du: "distinct (blks u)" "set (blks u) \<subseteq> set (blks l @ blks r)" "set (heads u) \<subseteq> set (heads l @ heads r)"
      using p(2) by (auto simp: u_def)
    have out: "\<forall>y\<in>set (blks u). \<forall>i. Child b x \<noteq> Child y i" using p(2) du(2) by auto
    have "\<exists>rp' leaf lds t. find_leaf (Child b x) b' h = Some (rp', leaf) \<and> tri (set_cell rp' Null h) (Child b x) t \<and> keyed s j q t \<and>
      mset (blks u) = mset (leaf # lds) + mset (blks t) \<and> blk_ring (prev_free h) (next_free h) (map Blk (leaf # lds)) \<and>
      (\<forall>d\<in>set lds. parent h d = Some No_parent \<and> s d = s leaf) \<and> leaf \<in> set (heads u) \<and> set (heads t) \<subseteq> set (heads u) - {leaf} \<and>
      (rp' = Child b x \<or> (\<exists>y\<in>set (blks u). \<exists>i. rp' = Child y i))"
    proof (cases x)
      case True
      then show ?thesis using IH(2) [of "Child b True" j q b' ds' l' r'] tu ku du(1) out Nd by (simp add: u_def)
    next
      case False
      then show ?thesis using IH(1) [of "Child b False" j q b' ds' l' r'] tu ku du(1) out Nd by (simp add: u_def)
    qed
    then obtain rp' leaf lds t where ih: "find_leaf (Child b x) b' h = Some (rp', leaf)" "tri (set_cell rp' Null h) (Child b x) t"
      "keyed s j q t" "mset (blks u) = mset (leaf # lds) + mset (blks t)" "blk_ring (prev_free h) (next_free h) (map Blk (leaf # lds))"
      "\<forall>d\<in>set lds. parent h d = Some No_parent \<and> s d = s leaf" "leaf \<in> set (heads u)" "set (heads t) \<subseteq> set (heads u) - {leaf}"
      "rp' = Child b x \<or> (\<exists>y\<in>set (blks u). \<exists>i. rp' = Child y i)" by blast
    let ?t = "if x then Nd b ds l t else Nd b ds t r"
    have rp': "\<exists>y\<in>set (blks (Nd b ds l r)). \<exists>i. rp' = Child y i" using ih(9) du(2) by auto
    have "find_leaf rp b h = Some (rp', leaf)" using right un Nd tu ih(1) by (subst find_leaf.simps) (auto simp: blk_addr_def)
    moreover have "tri (set_cell rp' Null h) rp ?t"
    proof -
      have "tri (set_cell rp' Null h) (Child b (\<not> x)) (if x then l else r)"
        by (rule tri_cong [of h]) (use sub ih(9) p(2) in \<open>auto simp: set_cell_def u_def split: if_splits\<close>)
      then show ?thesis using p(1) rp' p(3) ih(2) by (cases x) (auto simp: set_cell_def)
    qed
    moreover have "keyed s k pre ?t"
    proof -
      have "s b \<notin> s ` set (heads t)" using p(4) ih(8) du(3) by auto
      then show ?thesis using p(4) ih(3) k by (cases x) (auto simp: q_def)
    qed
    moreover have "mset (blks (Nd b ds l r)) = mset (leaf # lds) + mset (blks ?t)" using ih(4) by (cases x) (simp_all add: u_def)
    moreover have "set (heads ?t) \<subseteq> set (heads (Nd b ds l r)) - {leaf}"
    proof -
      have "distinct (map s (heads (Nd b ds l r)))" using keyed_distinct [OF p(4)] .
      then have "distinct (heads (Nd b ds l r))" by (simp only: distinct_map)
      then show ?thesis using ih(7,8) by (cases x) (auto simp: u_def)
    qed
    ultimately show ?thesis unfolding e0 using ih(5,6,7) rp' du(3)
      by (intro exI [of _ rp'] exI [of _ leaf] exI [of _ lds] exI [of _ ?t]) auto
  qed
qed simp

subsection \<open>Removal\<close>

text \<open>The root index of a block; a tree that has lost its only block clears the bit of its root.\<close>

definition root_cell :: "mm_heap \<Rightarrow> nat \<Rightarrow> nat" where
  "root_cell h a = (case blk_size h a of Some w \<Rightarrow> ZEND_MM_LARGE_BUCKET_INDEX w | None \<Rightarrow> 0)"

definition clear_root :: "nat \<Rightarrow> mm_heap \<Rightarrow> mm_heap" where
  "clear_root i h = h\<lparr>large_free_bitmap := large_free_bitmap h AND NOT (push_bit i 1)\<rparr>"

text \<open>A node alone in its ring.\<close>

lemma remove_single:
  assumes t: "tri h c (Nd a [] l r)" and k: "keyed (bsz h) k pre (Nd a [] l r)" and d: "distinct (blks (Nd a [] l r))"
    and out: "\<forall>b\<in>set (blks (Nd a [] l r)). \<forall>i. c \<noteq> Child b i" and sz: "blk_size h a \<noteq> None"
  shows "\<exists>h1 t'. remove_single a h = Some (if t' = Tip \<and> c = Root (root_cell h a) then clear_root (root_cell h a) h1 else h1) \<and>
    tri h1 c t' \<and> keyed (bsz h) k pre t' \<and> add_mset a (mset (blks t')) = mset (blks (Nd a [] l r)) \<and>
    set (heads t') \<subseteq> set (heads (Nd a [] l r)) \<and> touch (set (blks (Nd a [] l r))) {} {c} h h1"
proof -
  let ?s = "bsz h"
  have sub: "tri h (Child a False) l" "tri h (Child a True) r" and c: "ftree h c = Some (Blk a)" "parent h a = Some (At c)" using t by simp_all
  have rn: "ftree h (Child a True) = Some Null \<longleftrightarrow> r = Tip" "ftree h (Child a True) \<noteq> None" using sub(2) by (cases r; simp)+
  define x u where "x = (r \<noteq> Tip)" and "u = (if x then r else l)"
  have tu: "tri h (Child a x) u" using sub by (simp add: u_def)
  have right: "\<exists>v. ftree h (Child a True) = Some v \<and> (v \<noteq> Null) = x" using rn by (auto simp: x_def)
  show ?thesis
  proof (cases u)
    case Tip
    then have e: "l = Tip" "r = Tip" by (auto simp: u_def x_def split: if_splits)
    let ?h = "set_cell c Null h"
    have "ZEND_MM_CHECK_TREE a h = Some ()" "parent_cell a h = Some c"
      using c by (simp_all add: ZEND_MM_CHECK_TREE_def parent_cell_def panic_unless_def)
    then have "remove_single a h = Some (if c = Root (root_cell h a) then clear_root (root_cell h a) ?h else ?h)"
      using right sz sub e by (auto simp: remove_single_def Let_def root_cell_def clear_root_def)
    moreover have "touch (set (blks (Nd a [] l r))) {} {c} h ?h" by (auto simp: touch_def links_only_def set_cell_def)
    ultimately show ?thesis using e by (intro exI [of _ ?h] exI [of _ Tip]) (simp add: set_cell_def)
  next
    case (Nd b ds l' r')
    obtain j where kj: "k = Suc j" using k Nd by (cases k) (auto simp: u_def split: if_splits)
    define q where "q = (if x then 2 * pre + 1 else 2 * pre)"
    have ku: "keyed ?s j q u" using k kj by (simp add: u_def q_def)
    have su: "distinct (blks u)" "set (blks u) \<subseteq> set (blks l @ blks r)" "set (heads u) \<subseteq> set (heads l @ heads r)"
      using d by (auto simp: u_def)
    have "\<forall>y\<in>set (blks u). \<forall>i. Child a x \<noteq> Child y i" using d su(2) by auto
    then obtain rp leaf lds v where f: "find_leaf (Child a x) b h = Some (rp, leaf)" "tri (set_cell rp Null h) (Child a x) v" "keyed ?s j q v"
      "mset (blks u) = mset (leaf # lds) + mset (blks v)" "blk_ring (prev_free h) (next_free h) (map Blk (leaf # lds))"
      "\<forall>d\<in>set lds. parent h d = Some No_parent \<and> ?s d = ?s leaf" "leaf \<in> set (heads u)" "set (heads v) \<subseteq> set (heads u) - {leaf}"
      "rp = Child a x \<or> (\<exists>y\<in>set (blks u). \<exists>i. rp = Child y i)"
      using find_leaf [OF tu su(1) _ ku Nd] by blast
    let ?h = "set_cell rp Null h" and ?l = "if x then l else v" and ?r = "if x then v else r"
    have sv: "set (blks u) = set (leaf # lds) \<union> set (blks v)" using arg_cong [OF f(4), of set_mset] by simp
    have m: "mset (blks l @ blks r) = mset (leaf # lds @ blks ?l @ blks ?r)" using f(4) by (cases x) (auto simp: u_def x_def)
    have sm: "set (leaf # lds @ blks ?l @ blks ?r) = set (blks l @ blks r)" using m by (metis set_mset_mset)
    have "distinct (leaf # lds @ blks ?l @ blks ?r)" using mset_eq_imp_distinct_iff [OF m] d by simp
    moreover have "a \<notin> set (leaf # lds @ blks ?l @ blks ?r)" unfolding sm using d by simp
    ultimately have dd: "distinct (a # leaf # lds @ blks ?l @ blks ?r)" by (simp only: distinct.simps simp_thms)
    have h0: "touch {} {} {rp} h ?h" by (auto simp: touch_def links_only_def set_cell_def)
    have other: "tri ?h (Child a (\<not> x)) (if x then l else r)"
      by (rule tri_cong [of h]) (use sub f(9) d in \<open>auto simp: set_cell_def u_def split: if_splits\<close>)
    have rp: "rp \<noteq> c" using f(9) out su(2) by auto
    have lr: "tri ?h (Child a False) ?l" "tri ?h (Child a True) ?r" using f(2) other by (cases x; simp)+
    have "set (blks ?l @ blks ?r) \<union> set (leaf # lds) = set (blks l @ blks r)" using arg_cong [OF m, of set_mset] by auto
    then have out': "\<forall>b\<in>set (a # leaf # blks ?l @ blks ?r). \<forall>i. c \<noteq> Child b i" using out by auto
    obtain h1 where h1: "subst_block a (Blk leaf) ?h = Some h1" "tri h1 c (Nd leaf lds ?l ?r)"
      "touch (set (leaf # blks ?l @ blks ?r)) {} {c} ?h h1"
      by (rule subst_block [OF lr _ _ _ _ dd out']) (use c rp f(5,6) in \<open>auto simp: set_cell_def\<close>)
    have "remove_single a h = Some h1"
      using right tu Nd f(1) h1(1) by (auto simp: remove_single_def Let_def blk_addr_def)
    moreover have "keyed ?s k pre (Nd leaf lds ?l ?r)"
    proof -
      have "leaf \<in> set (blks (Nd a [] l r))" using f(7) su(3) set_heads by fastforce
      then have "?s leaf div 2 ^ k = pre" by (rule keyed_prefix [OF k])
      moreover have "?s leaf \<notin> ?s ` set (heads ?l @ heads ?r)"
      proof
        assume "?s leaf \<in> ?s ` set (heads ?l @ heads ?r)"
        then obtain y where y: "y \<in> set (heads ?l @ heads ?r)" "?s y = ?s leaf" by (metis imageE)
        have "distinct (map ?s (heads (Nd a [] l r)))" using keyed_distinct [OF k] .
        then have "inj_on ?s (set (heads (Nd a [] l r)))" "distinct (heads (Nd a [] l r))" by (simp_all only: distinct_map)
        moreover have "y \<in> set (heads l @ heads r)" "leaf \<in> set (heads l @ heads r)" using y f(7,8) su(3) by (auto simp: u_def split: if_splits)
        ultimately have "y = leaf" using y(2) by (auto dest: inj_onD)
        moreover have "leaf \<notin> set (heads ?l @ heads ?r)"
          using f(7,8) \<open>distinct (heads (Nd a [] l r))\<close> by (cases x) (auto simp: u_def)
        ultimately show False using y(1) by simp
      qed
      moreover have "keyed ?s j (2 * pre) ?l" "keyed ?s j (2 * pre + 1) ?r" using f(3) k kj by (cases x; simp add: q_def)+
      ultimately show ?thesis using f(6) kj by simp
    qed
    moreover have "add_mset a (mset (blks (Nd leaf lds ?l ?r))) = mset (blks (Nd a [] l r))" using m by simp
    moreover have "set (heads (Nd leaf lds ?l ?r)) \<subseteq> set (heads (Nd a [] l r))"
      using f(7,8) by (cases x) (auto simp: u_def split: if_splits)
    moreover have "touch (set (blks (Nd a [] l r))) {} {c} h h1"
      by (rule touch_mono [OF touch_trans [OF h0 h1(3)]]) (use sv su(2) f(9) arg_cong [OF m, of set_mset] in auto)
    ultimately show ?thesis using h1(2)
      by (intro exI [of _ h1] exI [of _ "Nd leaf lds ?l ?r"]) (simp del: tri.simps keyed.simps blks.simps heads.simps)
  qed
qed

text \<open>A block that is not alone in its ring.\<close>

lemma remove_from_ring:
  assumes r: "blk_ring (prev_free h) (next_free h) (Blk a # ys)" and ne: "ys \<noteq> []" and n: "Null \<notin> set ys" and w: "blk_size h a = Some w"
  obtains h1 where "blk_ring (prev_free h1) (next_free h1) ys" "touch {} (set ys) {} h h1" "parent h1 = parent h" "ftree h1 = ftree h"
    "zend_mm_remove_from_free_list a h = (if ZEND_MM_SMALL_SIZE w then
        (if last ys = hd ys then do {
           let index = ZEND_MM_BUCKET_INDEX w;
           first \<leftarrow> prev_free h1 (Small index);
           last \<leftarrow> next_free h1 (Small index);
           Some (if first = last then h1\<lparr>free_bitmap := free_bitmap h1 AND NOT (push_bit index 1)\<rparr> else h1)
         } else Some h1)
      else do {
        p \<leftarrow> parent h a;
        (case p of ZEND_MM_REST_BLOCK \<Rightarrow> Some (h1\<lparr>rest_count := rest_count h1 - 1\<rparr>)
           | No_parent \<Rightarrow> Some h1
           | At c \<Rightarrow> subst_block a (last ys) h1)
      })"
proof -
  obtain h1 where h1: "unlink (last ys) (hd ys) h = Some h1" "blk_ring (prev_free h1) (next_free h1) ys"
    "touch {} (set ys) {} h h1" "parent h1 = parent h" "ftree h1 = ftree h"
    using unlink_ring [OF r ne n] by blast
  have "prev_free h (Blk a) = Some (last ys)" "next_free h (Blk a) = Some (hd ys)" using ring_prev [OF r] ring_next [OF r] ne by simp_all
  moreover have "next_free h (last ys) = Some (Blk a)" "prev_free h (hd ys) = Some (Blk a)" using ring_last [OF r] ring_first [OF r] ne by simp_all
  moreover have "last ys \<noteq> Blk a" using r last_in_set [OF ne] by (metis blk_ring_def distinct.simps(2))
  moreover have "blk_size h1 a = Some w" using w touch_blocks [OF h1(3)] by simp
  ultimately show ?thesis using that [OF h1(2-5)] h1(1,4) by (simp add: zend_mm_remove_from_free_list_def panic_unless_def)
qed

lemma map_Blk_simps: "Null \<notin> set (map Blk xs)" "Small i \<notin> set (map Blk xs)" "Rest \<notin> set (map Blk xs)" "Blk x \<in> set (map Blk xs) \<longleftrightarrow> x \<in> set xs"
  by auto

text \<open>Any block of a tree. It is known to be large.\<close>

lemma remove_from_tree:
  assumes "tri h c t" and "keyed (bsz h) k pre t" and "distinct (blks t)" and "\<forall>b\<in>set (blks t). \<forall>i. c \<noteq> Child b i"
    and "\<forall>b\<in>set (blks t). \<exists>w. blk_size h b = Some w \<and> \<not> ZEND_MM_SMALL_SIZE w" and "a \<in> set (blks t)"
  shows "\<exists>h1 t'. zend_mm_remove_from_free_list a h = Some (if t' = Tip \<and> c = Root (root_cell h a) then clear_root (root_cell h a) h1 else h1) \<and>
    tri h1 c t' \<and> keyed (bsz h) k pre t' \<and> add_mset a (mset (blks t')) = mset (blks t) \<and>
    bsz h ` set (heads t') \<subseteq> bsz h ` set (heads t) \<and> touch (set (blks t)) {} {c} h h1"
  using assms
proof (induction t arbitrary: c k pre)
  case (Nd b ds l r)
  let ?s = "bsz h" and ?t = "Nd b ds l r"
  obtain w where w: "blk_size h a = Some w" "\<not> ZEND_MM_SMALL_SIZE w" using Nd.prems(5,6) by blast
  have rg: "blk_ring (prev_free h) (next_free h) (map Blk (b # ds))" using Nd.prems(1) by simp
  have sub: "tri h (Child b False) l" "tri h (Child b True) r" using Nd.prems(1) by simp_all
  consider "a = b" "ds = []" | "a = b" "ds \<noteq> []" | "a \<in> set ds" | "a \<in> set (blks l @ blks r)" using Nd.prems(6) by auto
  then show ?case
  proof cases
    case 1
    then have "prev_free h (Blk a) = Some (Blk a)" "next_free h (Blk a) = Some (Blk a)" using rg by (simp_all add: ring_singleton)
    then have "zend_mm_remove_from_free_list a h = remove_single a h"
      by (simp add: zend_mm_remove_from_free_list_def panic_unless_def)
    moreover have "blk_size h a \<noteq> None" using w by simp
    ultimately show ?thesis using remove_single [of h c a l r k pre] Nd.prems 1 by (metis image_mono)
  next
    case 2
    obtain ds' p where ds: "ds = ds' @ [p]" using 2(2) by (cases ds rule: rev_cases) auto
    have r1: "blk_ring (prev_free h) (next_free h) (Blk a # map Blk ds)" using rg 2 by simp
    have last: "last (map Blk ds) = Blk p" using ds by simp
    obtain h1 where h1: "blk_ring (prev_free h1) (next_free h1) (map Blk ds)" "touch {} (set (map Blk ds)) {} h h1"
      "parent h1 = parent h" "ftree h1 = ftree h" "zend_mm_remove_from_free_list a h = subst_block a (Blk p) h1"
      using remove_from_ring [OF r1 _ map_Blk_simps(1) w(1)] 2 w(2) Nd.prems(1) unfolding last by (auto simp del: set_map)
    have rp: "blk_ring (prev_free h1) (next_free h1) (map Blk (p # ds'))"
      using ring_rotate [of _ _ "map Blk ds'" "[Blk p]"] h1(1) ds by simp
    have lr: "tri h1 (Child a False) l" "tri h1 (Child a True) r"
      by (rule tri_touch [OF _ h1(2)]; use sub 2 Nd.prems(3) in auto)+
    have dd: "distinct (a # p # ds' @ blks l @ blks r)" using Nd.prems(3) 2 ds by auto
    have out: "\<forall>b\<in>set (a # p # blks l @ blks r). \<forall>i. c \<noteq> Child b i" using Nd.prems(4) 2 ds by auto
    obtain h2 where h2: "subst_block a (Blk p) h1 = Some h2" "tri h2 c (Nd p ds' l r)" "touch (set (p # blks l @ blks r)) {} {c} h1 h2"
      by (rule subst_block [OF lr _ _ rp _ dd out]) (use Nd.prems(1) 2 ds h1(3,4) in auto)
    have "keyed ?s k pre (Nd p ds' l r)" using Nd.prems(2) 2 ds by (auto split: nat.splits)
    moreover have "touch (set (blks ?t)) {} {c} h h2" by (rule touch_mono [OF touch_trans [OF h1(2) h2(3)]]) (use ds in auto)
    moreover have "?s ` set (heads (Nd p ds' l r)) \<subseteq> ?s ` set (heads ?t)" using Nd.prems(2) ds by auto
    ultimately show ?thesis using h1(5) h2(1,2) 2 ds
      by (intro exI [of _ h2] exI [of _ "Nd p ds' l r"]) (simp del: tri.simps keyed.simps heads.simps)
  next
    case 3
    have ab: "a \<noteq> b" using 3 Nd.prems(3) by auto
    obtain us vs where uv: "ds = us @ a # vs" using 3 by (meson split_list)
    let ?ys = "map Blk vs @ map Blk (b # us)"
    have r1: "blk_ring (prev_free h) (next_free h) (Blk a # ?ys)"
      using ring_rotate [of _ _ "map Blk (b # us)" "Blk a # map Blk vs"] rg uv by simp
    have np: "parent h a = Some No_parent" using Nd.prems(1) 3 by simp
    obtain h1 where h1: "blk_ring (prev_free h1) (next_free h1) ?ys" "touch {} (set ?ys) {} h h1"
      "parent h1 = parent h" "ftree h1 = ftree h" "zend_mm_remove_from_free_list a h = Some h1"
      by (rule remove_from_ring [OF r1 _ _ w(1)]) (use w(2) np in auto)
    let ?t' = "Nd b (us @ vs) l r"
    have "blk_ring (prev_free h1) (next_free h1) (map Blk (b # us @ vs))"
      using ring_rotate [OF h1(1)] by simp
    moreover have "tri h1 (Child b False) l" "tri h1 (Child b True) r"
      by (rule tri_touch [OF _ h1(2)]; use sub uv Nd.prems(3) in auto)+
    ultimately have "tri h1 c ?t'" using Nd.prems(1) h1(3,4) uv by simp
    moreover have "keyed ?s k pre ?t'" using Nd.prems(2) uv by simp
    moreover have "touch (set (blks ?t)) {} {c} h h1" by (rule touch_mono [OF h1(2)]) (use uv in auto)
    ultimately show ?thesis using h1(5) uv by (intro exI [of _ h1] exI [of _ ?t']) (simp del: tri.simps keyed.simps)
  next
    case 4
    define x where "x = (a \<in> set (blks r))"
    define u where "u = (if x then r else l)"
    have u: "a \<in> set (blks u)" "set (blks u) \<subseteq> set (blks l @ blks r)" "distinct (blks u)" "tri h (Child b x) u"
      using 4 sub Nd.prems(3) by (auto simp: u_def x_def)
    obtain j where k: "k = Suc j" using Nd.prems(2) u(1) by (cases k) (auto simp: u_def split: if_splits)
    define q where "q = (if x then 2 * pre + 1 else 2 * pre)"
    have ku: "keyed ?s j q u" using Nd.prems(2) k by (simp add: u_def q_def)
    have out_b: "y \<notin> set (blks u)" if "y \<in> set (b # ds)" for y using that Nd.prems(3) u(2) by auto
    have pre: "\<forall>y\<in>set (blks u). \<forall>i. Child b x \<noteq> Child y i" "\<forall>y\<in>set (blks u). \<exists>w. blk_size h y = Some w \<and> \<not> ZEND_MM_SMALL_SIZE w"
      using out_b [of b] Nd.prems(5) u(2) by auto
    have "\<exists>h1 u'. zend_mm_remove_from_free_list a h = Some h1 \<and> tri h1 (Child b x) u' \<and> keyed ?s j q u' \<and>
        add_mset a (mset (blks u')) = mset (blks u) \<and> ?s ` set (heads u') \<subseteq> ?s ` set (heads u) \<and> touch (set (blks u)) {} {Child b x} h h1"
    proof (cases x)
      case True
      then show ?thesis using Nd.IH(2) [of "Child b True" j q] u ku pre by (simp add: u_def)
    next
      case False
      then show ?thesis using Nd.IH(1) [of "Child b False" j q] u ku pre by (simp add: u_def)
    qed
    then obtain h1 u' where h1: "zend_mm_remove_from_free_list a h = Some h1" "tri h1 (Child b x) u'" "keyed ?s j q u'"
      "add_mset a (mset (blks u')) = mset (blks u)" "?s ` set (heads u') \<subseteq> ?s ` set (heads u)" "touch (set (blks u)) {} {Child b x} h h1" by blast
    let ?t' = "if x then Nd b ds l u' else Nd b ds u' r"
    have links: "prev_free h1 (Blk y) = prev_free h (Blk y) \<and> next_free h1 (Blk y) = next_free h (Blk y) \<and> parent h1 y = parent h y"
      if "y \<in> set (b # ds)" for y using touch_link [OF h1(6) out_b [OF that]] by simp
    have "blk_ring (prev_free h1) (next_free h1) (map Blk (b # ds))" by (rule ring_cong [OF rg]) (use links in auto)
    moreover have "ftree h1 c = Some (Blk b)" using touch_cell [OF h1(6), of c] Nd.prems(1,4) u(2) by auto
    moreover have "tri h1 (Child b (\<not> x)) (if x then l else r)"
    proof (rule tri_touch [OF _ h1(6)])
      show "tri h (Child b (\<not> x)) (if x then l else r)" using sub by simp
      show "set (blks u) \<inter> set (blks (if x then l else r)) = {}" using Nd.prems(3) by (auto simp: u_def)
      show "\<forall>y\<in>set (blks u). \<forall>i. Child b (\<not> x) \<noteq> Child y i" using out_b [of b] by auto
      show "\<forall>y\<in>set (blks (if x then l else r)). \<forall>i. Child y i \<notin> {Child b x}" using Nd.prems(3) by auto
    qed simp_all
    ultimately have "tri h1 c ?t'" using Nd.prems(1) links h1(2) by (cases x) auto
    moreover have "keyed ?s k pre ?t'"
    proof -
      have "?s b \<notin> ?s ` set (heads u')" using h1(5) Nd.prems(2) by (auto simp: u_def split: if_splits)
      then show ?thesis using Nd.prems(2) h1(3) k by (cases x) (auto simp: q_def)
    qed
    moreover have "add_mset a (mset (blks ?t')) = mset (blks ?t)" using h1(4) by (cases x) (simp_all add: u_def)
    moreover have "?s ` set (heads ?t') \<subseteq> ?s ` set (heads ?t)" using h1(5) by (cases x) (auto simp: u_def)
    moreover have "touch (set (blks ?t)) {} {c} h h1" by (rule touch_mono [OF h1(6)]) (use u(2) in auto)
    moreover have "?t' \<noteq> Tip" by simp
    ultimately show ?thesis using h1(1)
      by (intro exI [of _ h1] exI [of _ ?t']) (simp only: simp_thms if_False)
  qed
qed simp

end
