(* ===== verification/Zend_Mm_Free.thy ===== *)
theory Zend_Mm_Free
  imports Zend_Mm_Trie
begin

text \<open>
  The free blocks of a heap: a ring for each small size, the rest ring, and the trees. What
  \<open>zend_mm_add_to_free_list\<close>, \<open>zend_mm_remove_from_free_list\<close> and \<open>zend_mm_add_to_rest_list\<close> make of the
  set of free blocks.
\<close>

subsection \<open>The three kinds of lists\<close>

definition sized :: "mm_heap \<Rightarrow> nat \<Rightarrow> bool" where
  "sized h a \<longleftrightarrow> (\<exists>w. blk_size h a = Some w \<and> 8 dvd unat w \<and> 32 \<le> unat w)"

definition small_bucket :: "mm_heap \<Rightarrow> nat \<Rightarrow> nat list \<Rightarrow> bool" where
  "small_bucket h i xs \<longleftrightarrow> blk_ring (prev_free h) (next_free h) (Small i # map Blk xs) \<and> (\<forall>a\<in>set xs. sized h a \<and> bsz h a = 8 * (i + 4))"

definition rest_list :: "mm_heap \<Rightarrow> nat list \<Rightarrow> bool" where
  "rest_list h rs \<longleftrightarrow> blk_ring (prev_free h) (next_free h) (Rest # map Blk rs) \<and>
     (\<forall>a\<in>set rs. sized h a \<and> (544 \<le> bsz h a \<longrightarrow> parent h a = Some ZEND_MM_REST_BLOCK))"

definition tree :: "mm_heap \<Rightarrow> nat \<Rightarrow> ftr \<Rightarrow> bool" where
  "tree h i t \<longleftrightarrow> tri h (Root i) t \<and> keyed (bsz h) i 1 t \<and> distinct (blks t) \<and> (\<forall>b\<in>set (blks t). sized h b \<and> 544 \<le> bsz h b)"

definition large_count :: "mm_heap \<Rightarrow> nat list \<Rightarrow> int" where
  "large_count h rs = int (length (filter (\<lambda>a. 544 \<le> bsz h a) rs))"

text \<open>A bit of \<open>free_bitmap\<close> that is set tells of a block; it may be clear all the same.\<close>

definition free_lists :: "mm_heap \<Rightarrow> (nat \<Rightarrow> nat list) \<Rightarrow> nat list \<Rightarrow> (nat \<Rightarrow> ftr) \<Rightarrow> bool" where
  "free_lists h bk rs tr \<longleftrightarrow> (\<forall>i<64. small_bucket h i (bk i) \<and> set (bk i) \<inter> set rs = {} \<and> (bit (free_bitmap h) i \<longrightarrow> bk i \<noteq> [])) \<and>
     rest_list h rs \<and> rest_count h = large_count h rs \<and>
     (\<forall>i<64. tree h i (tr i) \<and> set (blks (tr i)) \<inter> set rs = {} \<and> (bit (large_free_bitmap h) i \<longleftrightarrow> tr i \<noteq> Tip))"

definition free_blks :: "(nat \<Rightarrow> nat list) \<Rightarrow> nat list \<Rightarrow> (nat \<Rightarrow> ftr) \<Rightarrow> nat set" where
  "free_blks bk rs tr = set rs \<union> (\<Union>i<64. set (bk i) \<union> set (blks (tr i)))"

definition free_ok :: "mm_heap \<Rightarrow> nat set \<Rightarrow> bool" where
  "free_ok h F \<longleftrightarrow> (\<exists>bk rs tr. free_lists h bk rs tr \<and> free_blks bk rs tr = F)"

lemma sized_bsz: "sized h a \<Longrightarrow> \<exists>w. blk_size h a = Some w \<and> unat w = bsz h a \<and> 8 dvd unat w \<and> 32 \<le> unat w"
  by (auto simp: sized_def bsz_def)

lemma sized_large: "sized h a \<Longrightarrow> 544 \<le> bsz h a \<Longrightarrow> \<exists>w. blk_size h a = Some w \<and> \<not> ZEND_MM_SMALL_SIZE w"
  by (auto dest: sized_bsz simp: small_size)

lemma ring_Blk_distinct: "blk_ring pv nx (x # map Blk xs) \<Longrightarrow> distinct xs"
  by (auto simp: blk_ring_def distinct_map)

text \<open>Sizes tell buckets and trees apart.\<close>

lemma bucket_disjoint: "small_bucket h i xs \<Longrightarrow> small_bucket h j ys \<Longrightarrow> i \<noteq> j \<Longrightarrow> set xs \<inter> set ys = {}"
  by (auto simp: small_bucket_def)

lemma bucket_tree_disjoint: "small_bucket h i xs \<Longrightarrow> i < 64 \<Longrightarrow> tree h j t \<Longrightarrow> set xs \<inter> set (blks t) = {}"
  by (fastforce simp: small_bucket_def tree_def)

lemma tree_index:
  assumes "tree h i t" and "b \<in> set (blks t)" and "blk_size h b = Some w"
  shows "ZEND_MM_LARGE_BUCKET_INDEX w = i"
proof -
  have "bsz h b div 2 ^ i = 1" using assms(1,2) keyed_prefix [of "bsz h" i 1 t b] by (simp add: tree_def)
  then have "unat w div 2 ^ i = 1" using assms(3) by (simp add: bsz_def)
  moreover from this have "w \<noteq> 0" by auto
  ultimately show ?thesis using high_bit_unique by (simp add: ZEND_MM_LARGE_BUCKET_INDEX_def)
qed

lemma tree_disjoint: "tree h i t \<Longrightarrow> tree h j u \<Longrightarrow> i \<noteq> j \<Longrightarrow> set (blks t) \<inter> set (blks u) = {}"
proof -
  assume t: "tree h i t" "tree h j u" "i \<noteq> j"
  have "b \<notin> set (blks u)" if b: "b \<in> set (blks t)" for b
  proof
    assume "b \<in> set (blks u)"
    moreover obtain w where "blk_size h b = Some w" using t(1) b by (auto simp: tree_def sized_def)
    ultimately show False using tree_index [OF t(1) b] tree_index [OF t(2)] t(3) by blast
  qed
  then show ?thesis by blast
qed

subsection \<open>Frames\<close>

lemma sized_cong: "blk_size h' = blk_size h \<Longrightarrow> sized h' = sized h"
  by (simp add: sized_def fun_eq_iff)

lemma bsz_cong: "blk_size h' = blk_size h \<Longrightarrow> bsz h' = bsz h"
  by (simp add: bsz_def fun_eq_iff)

lemma bucket_touch:
  assumes "small_bucket h i xs" and "touch B N C h h'" and "B \<inter> set xs = {}" and "Small i \<notin> N" and "N \<inter> Blk ` set xs = {}"
  shows "small_bucket h' i xs"
proof -
  have b: "blk_size h' = blk_size h" using touch_blocks [OF assms(2)] by simp
  have "prev_free h' x = prev_free h x \<and> next_free h' x = next_free h x" if x: "x \<in> set (Small i # map Blk xs)" for x
  proof (cases x)
    case (Blk b)
    then have "b \<notin> B" "Blk b \<notin> N" using x assms(3,5) by auto
    then show ?thesis using touch_link [OF assms(2)] Blk by blast
  qed (use x touch_head [OF assms(2)] assms(4) in auto)
  then have "blk_ring (prev_free h') (next_free h') (Small i # map Blk xs)"
    using assms(1) unfolding small_bucket_def by (blast intro: ring_cong)
  then show ?thesis using assms(1) by (simp add: small_bucket_def sized_cong [OF b] bsz_cong [OF b])
qed

lemma rest_touch:
  assumes "rest_list h rs" and "touch B N C h h'" and "B \<inter> set rs = {}" and "Rest \<notin> N" and "N \<inter> Blk ` set rs = {}"
  shows "rest_list h' rs"
proof -
  have b: "blk_size h' = blk_size h" using touch_blocks [OF assms(2)] by simp
  have "prev_free h' x = prev_free h x \<and> next_free h' x = next_free h x" if x: "x \<in> set (Rest # map Blk rs)" for x
  proof (cases x)
    case (Blk b)
    then have "b \<notin> B" "Blk b \<notin> N" using x assms(3,5) by auto
    then show ?thesis using touch_link [OF assms(2)] Blk by blast
  qed (use x touch_head [OF assms(2)] assms(4) in auto)
  then have "blk_ring (prev_free h') (next_free h') (Rest # map Blk rs)"
    using assms(1) unfolding rest_list_def by (blast intro: ring_cong)
  moreover have "parent h' a = parent h a" if "a \<in> set rs" for a
  proof -
    have "a \<notin> B" "Blk a \<notin> N" using that assms(3,5) by auto
    then show ?thesis using touch_link [OF assms(2)] by blast
  qed
  ultimately show ?thesis using assms(1) by (simp add: rest_list_def sized_cong [OF b] bsz_cong [OF b])
qed

lemma tree_touch:
  assumes "tree h i t" and "touch B N C h h'" and "B \<inter> set (blks t) = {}" and "N \<inter> Blk ` set (blks t) = {}"
    and "Root i \<notin> C" and "\<forall>b j. Child b j \<notin> C"
  shows "tree h' i t"
proof -
  have b: "blk_size h' = blk_size h" using touch_blocks [OF assms(2)] by simp
  have "tri h' (Root i) t" using tri_touch [OF _ assms(2-5)] assms(1,6) by (simp add: tree_def)
  then show ?thesis using assms(1) by (simp add: tree_def sized_cong [OF b] bsz_cong [OF b])
qed

lemma touch_counters:
  "touch B N C h h' \<Longrightarrow> large_free_bitmap h' = large_free_bitmap h \<and> free_bitmap h' = free_bitmap h \<and> rest_count h' = rest_count h"
  unfolding touch_def links_only_def by (cases h; cases h') simp

text \<open>In the form used below: links of the blocks \<open>X\<close> and of the list head \<open>y\<close> change.\<close>

lemma bucket_out:
  "small_bucket h i xs \<Longrightarrow> touch B N C h h' \<Longrightarrow> B \<subseteq> X \<Longrightarrow> N \<subseteq> insert y (Blk ` X) \<Longrightarrow> y \<noteq> Small i \<Longrightarrow> y \<notin> range Blk \<Longrightarrow>
     X \<inter> set xs = {} \<Longrightarrow> small_bucket h' i xs"
  by (rule bucket_touch) blast+

lemma rest_out:
  "rest_list h rs \<Longrightarrow> touch B N C h h' \<Longrightarrow> B \<subseteq> X \<Longrightarrow> N \<subseteq> insert y (Blk ` X) \<Longrightarrow> y \<noteq> Rest \<Longrightarrow> y \<notin> range Blk \<Longrightarrow>
     X \<inter> set rs = {} \<Longrightarrow> rest_list h' rs"
  by (rule rest_touch) blast+

lemma tree_out:
  "tree h i t \<Longrightarrow> touch B N C h h' \<Longrightarrow> B \<subseteq> X \<Longrightarrow> N \<subseteq> insert y (Blk ` X) \<Longrightarrow> C \<subseteq> {Root j} \<Longrightarrow> j \<noteq> i \<or> C = {} \<Longrightarrow> y \<notin> range Blk \<Longrightarrow>
     X \<inter> set (blks t) = {} \<Longrightarrow> tree h' i t"
  by (rule tree_touch) blast+

text \<open>The counters are not part of a list.\<close>

lemma bsz_counters [simp]:
  "bsz (h\<lparr>free_bitmap := x\<rparr>) = bsz h" "bsz (h\<lparr>large_free_bitmap := x\<rparr>) = bsz h" "bsz (h\<lparr>rest_count := c\<rparr>) = bsz h"
  by (simp_all add: bsz_def fun_eq_iff)

lemma tri_counters [simp]:
  "tri (h\<lparr>free_bitmap := x\<rparr>) c t = tri h c t" "tri (h\<lparr>large_free_bitmap := x\<rparr>) c t = tri h c t" "tri (h\<lparr>rest_count := n\<rparr>) c t = tri h c t"
  by (induction t arbitrary: c) simp_all

lemma list_counters [simp]:
  "small_bucket (h\<lparr>free_bitmap := x\<rparr>) = small_bucket h" "small_bucket (h\<lparr>large_free_bitmap := x\<rparr>) = small_bucket h" "small_bucket (h\<lparr>rest_count := c\<rparr>) = small_bucket h"
  "rest_list (h\<lparr>free_bitmap := x\<rparr>) = rest_list h" "rest_list (h\<lparr>large_free_bitmap := x\<rparr>) = rest_list h" "rest_list (h\<lparr>rest_count := c\<rparr>) = rest_list h"
  "tree (h\<lparr>free_bitmap := x\<rparr>) = tree h" "tree (h\<lparr>large_free_bitmap := x\<rparr>) = tree h" "tree (h\<lparr>rest_count := c\<rparr>) = tree h"
  "large_count (h\<lparr>free_bitmap := x\<rparr>) = large_count h" "large_count (h\<lparr>large_free_bitmap := x\<rparr>) = large_count h"
  "large_count (h\<lparr>rest_count := c\<rparr>) = large_count h"
  by (simp_all add: fun_eq_iff small_bucket_def rest_list_def tree_def large_count_def sized_def)

text \<open>An operation on the free lists leaves the rest of the heap as it is; \<open>F\<close> are the blocks it may link.\<close>

definition links_frame :: "nat set \<Rightarrow> mm_heap \<Rightarrow> mm_heap \<Rightarrow> bool" where
  "links_frame F h h' \<longleftrightarrow> h' = h\<lparr>free_bitmap := free_bitmap h', large_free_bitmap := large_free_bitmap h', rest_count := rest_count h',
       prev_free := prev_free h', next_free := next_free h', parent := parent h', ftree := ftree h'\<rparr> \<and>
     (\<forall>b. b \<notin> F \<longrightarrow> prev_free h' (Blk b) = prev_free h (Blk b))"

lemma frame_fields:
  "links_frame F h h' \<Longrightarrow> blk_size h' = blk_size h \<and> blk_prev h' = blk_prev h \<and> segs h' = segs h \<and> segments_list h' = segments_list h \<and>
     cache h' = cache h \<and> cached h' = cached h \<and> bytes h' = bytes h \<and> real_size h' = real_size h \<and> mm_limit h' = mm_limit h \<and>
     block_size h' = block_size h \<and> heap_size h' = heap_size h \<and> reserve h' = reserve h \<and> heap_peak h' = heap_peak h \<and>
     real_peak h' = real_peak h \<and> overflow h' = overflow h \<and> reserve_size h' = reserve_size h"
  unfolding links_frame_def by (cases h; cases h') simp

lemma unframed_refl: "links_frame F h h"
  by (simp add: links_frame_def)

lemma unframed_trans: "links_frame F h h1 \<Longrightarrow> links_frame F h1 h2 \<Longrightarrow> links_frame F h h2"
  unfolding links_frame_def by (cases h; cases h1; cases h2) simp

lemma frame_mono: "links_frame F h h' \<Longrightarrow> F \<subseteq> G \<Longrightarrow> links_frame G h h'"
  by (auto simp: links_frame_def)

lemma touch_frame: "touch B N C h h' \<Longrightarrow> B \<subseteq> F \<Longrightarrow> \<forall>b. Blk b \<in> N \<longrightarrow> b \<in> F \<Longrightarrow> links_frame F h h'"
  unfolding touch_def links_only_def links_frame_def by (cases h; cases h') auto

lemma frame_counters:
  "links_frame F h h' \<Longrightarrow> links_frame F h (h'\<lparr>free_bitmap := x\<rparr>)" "links_frame F h h' \<Longrightarrow> links_frame F h (h'\<lparr>large_free_bitmap := x\<rparr>)"
  "links_frame F h h' \<Longrightarrow> links_frame F h (h'\<lparr>rest_count := c\<rparr>)"
  unfolding links_frame_def by (cases h; cases h'; simp)+

subsection \<open>One list changes\<close>

lemma lists_disjoint:
  assumes "free_lists h bk rs tr" and "i < 64"
  shows "set (bk i) \<inter> set rs = {}" "j < 64 \<Longrightarrow> i \<noteq> j \<Longrightarrow> set (bk i) \<inter> set (bk j) = {}" "j < 64 \<Longrightarrow> set (bk i) \<inter> set (blks (tr j)) = {}"
    "set (blks (tr i)) \<inter> set rs = {}" "j < 64 \<Longrightarrow> i \<noteq> j \<Longrightarrow> set (blks (tr i)) \<inter> set (blks (tr j)) = {}"
proof -
  have b: "small_bucket h k (bk k)" "tree h k (tr k)" if "k < 64" for k using assms(1) that by (simp_all add: free_lists_def)
  show "set (bk i) \<inter> set rs = {}" "set (blks (tr i)) \<inter> set rs = {}" using assms by (simp_all add: free_lists_def)
  show "j < 64 \<Longrightarrow> i \<noteq> j \<Longrightarrow> set (bk i) \<inter> set (bk j) = {}" by (rule bucket_disjoint [OF b(1) b(1)]) (use assms(2) in simp_all)
  show "j < 64 \<Longrightarrow> set (bk i) \<inter> set (blks (tr j)) = {}" by (rule bucket_tree_disjoint [OF b(1) _ b(2)]) (use assms(2) in simp_all)
  show "j < 64 \<Longrightarrow> i \<noteq> j \<Longrightarrow> set (blks (tr i)) \<inter> set (blks (tr j)) = {}" by (rule tree_disjoint [OF b(2) b(2)]) (use assms(2) in simp_all)
qed

lemma in_free_blks:
  "a \<in> free_blks bk rs tr \<longleftrightarrow> a \<in> set rs \<or> (\<exists>i<64. a \<in> set (bk i)) \<or> (\<exists>i<64. a \<in> set (blks (tr i)))"
  by (auto simp: free_blks_def)

lemma lists_bucket:
  assumes "free_lists h bk rs tr" and "i < 64" and t: "touch B N {} h h1" and "B \<subseteq> E \<union> set (bk i)"
    and "N \<subseteq> insert (Small i) (Blk ` (E \<union> set (bk i)))" and e: "E \<inter> free_blks bk rs tr = {}"
    and "small_bucket h1 i xs" and "set xs \<subseteq> E \<union> set (bk i)" and bits: "\<forall>j<64. bit x j \<longrightarrow> (bk(i := xs)) j \<noteq> []"
  shows "free_lists (h1\<lparr>free_bitmap := x\<rparr>) (bk(i := xs)) rs tr"
proof -
  define X where "X = E \<union> set (bk i)"
  have x: "B \<subseteq> X" "N \<subseteq> insert (Small i) (Blk ` X)" "Small i \<notin> range Blk" using assms(4,5) by (auto simp: X_def)
  have out: "X \<inter> set rs = {}" "j < 64 \<Longrightarrow> j \<noteq> i \<Longrightarrow> X \<inter> set (bk j) = {}" "j < 64 \<Longrightarrow> X \<inter> set (blks (tr j)) = {}" for j
    using e lists_disjoint(1,2,3) [OF assms(1,2)] unfolding X_def free_blks_def by blast+
  have l: "j < 64 \<Longrightarrow> small_bucket h j (bk j)" "rest_list h rs" "j < 64 \<Longrightarrow> tree h j (tr j)" for j using assms(1) by (simp_all add: free_lists_def)
  have "small_bucket h1 j (bk j)" if j: "j < 64" "j \<noteq> i" for j
    by (rule bucket_out [OF l(1) [OF j(1)] t x(1,2) _ x(3) out(2) [OF j]]) (use j in simp)
  moreover have "rest_list h1 rs" by (rule rest_out [OF l(2) t x(1,2) _ x(3) out(1)]) simp
  moreover have "tree h1 j (tr j)" if j: "j < 64" for j
    by (rule tree_out [OF l(3) [OF j] t x(1,2) _ _ x(3) out(3) [OF j]]) simp_all
  moreover have "large_free_bitmap h1 = large_free_bitmap h" "rest_count h1 = rest_count h" "large_count h1 rs = large_count h rs"
    using touch_counters [OF t] by (simp_all add: large_count_def touch_bsz [OF t])
  moreover have "set xs \<inter> set rs = {}" using assms(8) out(1) by (auto simp: X_def)
  ultimately show ?thesis using assms(1,7) bits by (simp add: free_lists_def)
qed

lemma lists_tree:
  assumes "free_lists h bk rs tr" and "i < 64" and t: "touch B N {Root i} h h1" and "B \<subseteq> E \<union> set (blks (tr i))"
    and "N \<subseteq> Blk ` (E \<union> set (blks (tr i)))" and e: "E \<inter> free_blks bk rs tr = {}"
    and "tree h1 i u" and "set (blks u) \<subseteq> E \<union> set (blks (tr i))" and bits: "\<forall>j<64. bit x j \<longleftrightarrow> (tr(i := u)) j \<noteq> Tip"
  shows "free_lists (h1\<lparr>large_free_bitmap := x\<rparr>) bk rs (tr(i := u))"
proof -
  define X where "X = E \<union> set (blks (tr i))"
  have x: "B \<subseteq> X" "N \<subseteq> insert Null (Blk ` X)" "Null \<notin> range Blk" using assms(4,5) by (auto simp: X_def)
  have "set (bk j) \<inter> set (blks (tr i)) = {}" if "j < 64" for j using lists_disjoint(3) [OF assms(1) that assms(2)] .
  then have out: "X \<inter> set rs = {}" "j < 64 \<Longrightarrow> X \<inter> set (bk j) = {}" "j < 64 \<Longrightarrow> j \<noteq> i \<Longrightarrow> X \<inter> set (blks (tr j)) = {}" for j
    using e lists_disjoint(4,5) [OF assms(1,2)] unfolding X_def free_blks_def by blast+
  have l: "j < 64 \<Longrightarrow> small_bucket h j (bk j)" "rest_list h rs" "j < 64 \<Longrightarrow> tree h j (tr j)" for j using assms(1) by (simp_all add: free_lists_def)
  have "small_bucket h1 j (bk j)" if j: "j < 64" for j
    by (rule bucket_out [OF l(1) [OF j] t x(1,2) _ x(3) out(2) [OF j]]) simp
  moreover have "rest_list h1 rs" by (rule rest_out [OF l(2) t x(1,2) _ x(3) out(1)]) simp
  moreover have "tree h1 j (tr j)" if j: "j < 64" "j \<noteq> i" for j
    by (rule tree_out [OF l(3) [OF j(1)] t x(1,2) _ _ x(3) out(3) [OF j]]) (use j in auto)
  moreover have "free_bitmap h1 = free_bitmap h" "rest_count h1 = rest_count h" "large_count h1 rs = large_count h rs"
    using touch_counters [OF t] by (simp_all add: large_count_def touch_bsz [OF t])
  moreover have "set (blks u) \<inter> set rs = {}" using assms(8) out(1) by (auto simp: X_def)
  ultimately show ?thesis using assms(1,7) bits by (simp add: free_lists_def)
qed

lemma lists_rest:
  assumes "free_lists h bk rs tr" and t: "touch B N {} h h1" and "B \<subseteq> E \<union> set rs"
    and "N \<subseteq> insert Rest (Blk ` (E \<union> set rs))" and e: "E \<inter> free_blks bk rs tr = {}"
    and "rest_list h1 rs'" and "set rs' \<subseteq> E \<union> set rs"
  shows "free_lists (h1\<lparr>rest_count := large_count h rs'\<rparr>) bk rs' tr"
proof -
  define X where "X = E \<union> set rs"
  have x: "B \<subseteq> X" "N \<subseteq> insert Rest (Blk ` X)" "Rest \<notin> range Blk" using assms(3,4) by (auto simp: X_def)
  have out: "j < 64 \<Longrightarrow> X \<inter> set (bk j) = {}" "j < 64 \<Longrightarrow> X \<inter> set (blks (tr j)) = {}" for j
    using e lists_disjoint(1,4) [OF assms(1)] unfolding X_def free_blks_def by blast+
  have l: "j < 64 \<Longrightarrow> small_bucket h j (bk j)" "j < 64 \<Longrightarrow> tree h j (tr j)" for j using assms(1) by (simp_all add: free_lists_def)
  have "small_bucket h1 j (bk j)" if j: "j < 64" for j
    by (rule bucket_out [OF l(1) [OF j] t x(1,2) _ x(3) out(1) [OF j]]) simp
  moreover have "tree h1 j (tr j)" if j: "j < 64" for j
    by (rule tree_out [OF l(2) [OF j] t x(1,2) _ _ x(3) out(2) [OF j]]) simp_all
  moreover have "large_free_bitmap h1 = large_free_bitmap h" "free_bitmap h1 = free_bitmap h" "large_count h1 rs' = large_count h rs'"
    using touch_counters [OF t] by (simp_all add: large_count_def touch_bsz [OF t])
  moreover have "set (bk j) \<inter> set rs' = {}" "set (blks (tr j)) \<inter> set rs' = {}" if "j < 64" for j
    using assms(7) out(1,2) [OF that] unfolding X_def by blast+
  ultimately show ?thesis using assms(1,6) by (simp add: free_lists_def)
qed

text \<open>The set of free blocks afterwards.\<close>

lemma free_blks_bucket:
  "i < 64 \<Longrightarrow> free_blks (bk(i := xs)) rs tr = set xs \<union> set rs \<union> (\<Union>j\<in>{..<64} - {i}. set (bk j)) \<union> (\<Union>j<64. set (blks (tr j)))"
  by (auto simp: free_blks_def split: if_splits)

lemma free_blks_tree:
  "i < 64 \<Longrightarrow> free_blks bk rs (tr(i := u)) = set (blks u) \<union> set rs \<union> (\<Union>j<64. set (bk j)) \<union> (\<Union>j\<in>{..<64} - {i}. set (blks (tr j)))"
  by (auto simp: free_blks_def split: if_splits)

lemma free_blks_add_bucket: "i < 64 \<Longrightarrow> set xs = insert a (set (bk i)) \<Longrightarrow> free_blks (bk(i := xs)) rs tr = insert a (free_blks bk rs tr)"
  using free_blks_bucket [of i bk xs rs tr] free_blks_bucket [of i bk "bk i" rs tr] by auto

lemma free_blks_add_tree:
  "i < 64 \<Longrightarrow> set (blks u) = insert a (set (blks (tr i))) \<Longrightarrow> free_blks bk rs (tr(i := u)) = insert a (free_blks bk rs tr)"
  using free_blks_tree [of i bk rs tr u] free_blks_tree [of i bk rs tr "tr i"] by auto

lemma free_blks_remove_bucket:
  assumes "free_lists h bk rs tr" and "i < 64" and "a \<in> set (bk i)" and "set xs = set (bk i) - {a}"
  shows "free_blks (bk(i := xs)) rs tr = free_blks bk rs tr - {a}"
proof -
  have "a \<notin> set rs" "j \<in> {..<64} - {i} \<Longrightarrow> a \<notin> set (bk j)" "j < 64 \<Longrightarrow> a \<notin> set (blks (tr j))" for j
    using lists_disjoint(1,2,3) [OF assms(1,2)] assms(3) by blast+
  then show ?thesis using free_blks_bucket [OF assms(2), of bk xs rs tr] free_blks_bucket [OF assms(2), of bk "bk i" rs tr] assms(4) by auto
qed

lemma free_blks_remove_tree:
  assumes "free_lists h bk rs tr" and "i < 64" and "a \<in> set (blks (tr i))" and "set (blks u) = set (blks (tr i)) - {a}"
  shows "free_blks bk rs (tr(i := u)) = free_blks bk rs tr - {a}"
proof -
  have "a \<notin> set rs" "j \<in> {..<64} - {i} \<Longrightarrow> a \<notin> set (blks (tr j))" for j using lists_disjoint(4,5) [OF assms(1,2)] assms(3) by blast+
  moreover have "j < 64 \<Longrightarrow> a \<notin> set (bk j)" for j using lists_disjoint(3) [OF assms(1) _ assms(2), of j] assms(3) by blast
  ultimately show ?thesis using free_blks_tree [OF assms(2), of bk rs tr u] free_blks_tree [OF assms(2), of bk rs tr "tr i"] assms(4) by auto
qed

lemma free_blks_remove_rest:
  assumes "free_lists h bk rs tr" and "a \<in> set rs" and "set rs' = set rs - {a}"
  shows "free_blks bk rs' tr = free_blks bk rs tr - {a}"
proof -
  have "j < 64 \<Longrightarrow> a \<notin> set (bk j)" "j < 64 \<Longrightarrow> a \<notin> set (blks (tr j))" for j using lists_disjoint(1,4) [OF assms(1)] assms(2) by blast+
  then show ?thesis using assms(3) by (auto simp: free_blks_def)
qed

lemma lists_sized: "free_lists h bk rs tr \<Longrightarrow> a \<in> free_blks bk rs tr \<Longrightarrow> sized h a"
  by (auto simp: in_free_blks free_lists_def small_bucket_def rest_list_def tree_def)

subsection \<open>Adding a block\<close>

lemma link_behind_bitmap: "link_behind b a (h\<lparr>free_bitmap := x\<rparr>) = map_option (\<lambda>h. h\<lparr>free_bitmap := x\<rparr>) (link_behind b a h)"
  by (cases "next_free h b") (simp_all add: link_behind_def set_prev_free_def set_next_free_def)

lemma bit_set: "bit (w OR push_bit i 1 :: ulong) j \<longleftrightarrow> bit w j \<or> j = i \<and> i < 64" "bit (w OR 2 ^ i :: ulong) j \<longleftrightarrow> bit w j \<or> j = i \<and> i < 64"
  unfolding push_bit_of_1 [symmetric] by (auto simp: bit_simps simp del: push_bit_of_1)

lemma bit_clear: "bit (w AND NOT (push_bit i 1) :: ulong) j \<longleftrightarrow> bit w j \<and> j \<noteq> i" "bit (w AND NOT (2 ^ i) :: ulong) j \<longleftrightarrow> bit w j \<and> j \<noteq> i"
  unfolding push_bit_of_1 [symmetric] by (auto simp: bit_simps simp del: push_bit_of_1 dest: bit_imp_le_length)

lemma add_small:
  assumes l: "free_lists h bk rs tr" and a: "a \<notin> free_blks bk rs tr" "sized h a" and small: "bsz h a < 544"
  shows "\<exists>h' bk'. zend_mm_add_to_free_list a h = Some h' \<and> free_lists h' bk' rs tr \<and>
    free_blks bk' rs tr = insert a (free_blks bk rs tr) \<and> links_frame (insert a (free_blks bk rs tr)) h h'"
proof -
  obtain w where w: "blk_size h a = Some w" "unat w = bsz h a" "8 dvd unat w" "32 \<le> unat w" using sized_bsz [OF a(2)] by blast
  have sm: "ZEND_MM_SMALL_SIZE w" using w(2) small by (simp add: small_size)
  define i where "i = ZEND_MM_BUCKET_INDEX w"
  have i: "i < 64" "bsz h a = 8 * (i + 4)" using bucket_index [OF w(3,4) sm] w(2) by (simp_all add: i_def)
  have b: "small_bucket h i (bk i)" and bits: "\<forall>j<64. bit (free_bitmap h) j \<longrightarrow> bk j \<noteq> []" using l i(1) by (simp_all add: free_lists_def)
  have r: "blk_ring (prev_free h) (next_free h) (Small i # map Blk (bk i))" using b by (simp add: small_bucket_def)
  have ai: "a \<notin> set (bk i)" using a(1) i(1) by (auto simp: in_free_blks)
  obtain h1 where h1: "link_behind (Small i) a h = Some h1" "blk_ring (prev_free h1) (next_free h1) (Small i # Blk a # map Blk (bk i))"
    "touch {a} (set (Small i # map Blk (bk i))) {} h h1"
    by (rule link_behind [OF r, of a]) (use ai in auto)
  have b1: "small_bucket h1 i (a # bk i)"
    using b h1(2) a(2) i(2) touch_blocks [OF h1(3)] by (simp add: small_bucket_def sized_cong [of h1 h] bsz_cong [of h1 h])
  define x where "x = (if bk i = [] then free_bitmap h OR push_bit i 1 else free_bitmap h)"
  have "(last (Small i # map Blk (bk i)) = Small i) = (bk i = [])" by (cases "bk i" rule: rev_cases) auto
  then have "zend_mm_add_to_free_list a h = Some (h1\<lparr>free_bitmap := x\<rparr>)"
    using w(1) sm ring_prev [OF r] h1(1) touch_counters [OF h1(3)] link_behind_bitmap [of "Small i" a x h]
    by (cases "bk i = []") (simp_all add: zend_mm_add_to_free_list_def Let_def i_def [symmetric] x_def del: push_bit_of_1)
  moreover have "free_lists (h1\<lparr>free_bitmap := x\<rparr>) (bk(i := a # bk i)) rs tr"
    by (rule lists_bucket [OF l i(1) h1(3), of "{a}"]) (use a(1) b1 bits in \<open>auto simp: x_def bit_set split: if_splits\<close>)
  moreover have "free_blks (bk(i := a # bk i)) rs tr = insert a (free_blks bk rs tr)" by (rule free_blks_add_bucket) (use i(1) in simp_all)
  moreover have "links_frame (insert a (free_blks bk rs tr)) h (h1\<lparr>free_bitmap := x\<rparr>)"
    by (rule frame_counters(1) [OF touch_frame [OF h1(3)]]) (use i(1) in \<open>auto simp: in_free_blks\<close>)
  ultimately show ?thesis by blast
qed

lemma add_large:
  assumes l: "free_lists h bk rs tr" and a: "a \<notin> free_blks bk rs tr" "sized h a" and large: "544 \<le> bsz h a"
  shows "\<exists>h' tr'. zend_mm_add_to_free_list a h = Some h' \<and> free_lists h' bk rs tr' \<and>
    free_blks bk rs tr' = insert a (free_blks bk rs tr) \<and> links_frame (insert a (free_blks bk rs tr)) h h'"
proof -
  obtain w where w: "blk_size h a = Some w" "unat w = bsz h a" using sized_bsz [OF a(2)] by blast
  have sm: "\<not> ZEND_MM_SMALL_SIZE w" "w \<noteq> 0" using w(2) large by (auto simp: small_size)
  define i where "i = ZEND_MM_LARGE_BUCKET_INDEX w"
  have i: "i < 64" "unat w div 2 ^ i = 1" using high_bit [OF sm(2)] by (simp_all add: i_def ZEND_MM_LARGE_BUCKET_INDEX_def)
  let ?h = "set_cell (Child a False) Null (set_cell (Child a True) Null h)"
  have t0: "touch {a} {} {Root i} h ?h" by (auto simp: touch_def links_only_def set_cell_def)
  have ai: "a \<notin> set (blks (tr i))" using a(1) i(1) by (auto simp: in_free_blks)
  have t: "tree h i (tr i)" and bits: "\<forall>j<64. bit (large_free_bitmap h) j \<longleftrightarrow> tr j \<noteq> Tip" using l i(1) by (simp_all add: free_lists_def)
  have kids: "ftree ?h (Child a False) = Some Null" "ftree ?h (Child a True) = Some Null" by (simp_all add: set_cell_def)
  have b0: "blk_size ?h = blk_size h" by (simp add: set_cell_def)
  have tri: "tri ?h (Root i) (tr i)" using t ai by (auto simp: tree_def set_cell_def intro!: tri_cong [of h "Root i"])
  have cell: "ftree ?h (Root i) = Some Null \<longleftrightarrow> tr i = Tip" "ftree ?h (Root i) \<noteq> None" using tri by (cases "tr i"; simp)+
  have "\<exists>h1 u. zend_mm_add_to_free_list a h = Some (if tr i = Tip then h1\<lparr>large_free_bitmap := large_free_bitmap h1 OR push_bit i 1\<rparr> else h1) \<and>
    tri h1 (Root i) u \<and> keyed (bsz h) i 1 u \<and> mset (blks u) = add_mset a (mset (blks (tr i))) \<and> u \<noteq> Tip \<and>
    touch (set (a # blks (tr i))) {} {Root i} ?h h1"
  proof (cases "tr i = Tip")
    case True
    obtain h1 where h1: "plant (Root i) a ?h = Some h1" "tri h1 (Root i) (Nd a [] Tip Tip)" "touch {a} {} {Root i} ?h h1"
      using plant [OF kids, of "Root i"] by auto
    have "bsz h a div 2 ^ i = 1" using i(2) w(2) by simp
    then have "keyed (bsz h) i 1 (Nd a [] Tip Tip)" by (simp split: nat.splits)
    moreover have "zend_mm_add_to_free_list a h = Some (h1\<lparr>large_free_bitmap := large_free_bitmap h1 OR push_bit i 1\<rparr>)"
      using w(1) sm(1) cell True h1(1) by (simp add: zend_mm_add_to_free_list_def Let_def i_def [symmetric])
    ultimately show ?thesis using h1(2,3) True by (intro exI [of _ h1] exI [of _ "Nd a [] Tip Tip"]) simp
  next
    case False
    have k: "keyed (bsz ?h) i 1 (tr i)" using t by (simp add: tree_def bsz_cong [OF b0])
    have "\<exists>h1 u. insert_large a w (push_bit (64 - i) w) (Root i) ?h = Some h1 \<and> tri h1 (Root i) u \<and> keyed (bsz ?h) i 1 u \<and>
      mset (blks u) = add_mset a (mset (blks (tr i))) \<and> set (heads u) \<subseteq> insert a (set (heads (tr i))) \<and> u \<noteq> Tip \<and>
      touch (set (a # blks (tr i))) {} {Root i} ?h h1"
      by (rule insert_large [OF tri False k i(1)]) (use t ai w(1) i(2) kids in \<open>auto simp: tree_def b0 sized_def\<close>)
    moreover have "zend_mm_add_to_free_list a h = insert_large a w (push_bit (64 - i) w) (Root i) ?h"
    proof -
      have "ftree ?h (Root i) \<noteq> Some Null" using cell False by simp
      then show ?thesis using w(1) sm(1) cell(2) by (auto simp: zend_mm_add_to_free_list_def Let_def i_def [symmetric] ZEND_MM_NUM_BUCKETS_def)
    qed
    ultimately show ?thesis using False by (simp add: bsz_cong [OF b0]) blast
  qed
  then obtain h1 u where h1: "zend_mm_add_to_free_list a h = Some (if tr i = Tip then h1\<lparr>large_free_bitmap := large_free_bitmap h1 OR push_bit i 1\<rparr> else h1)"
    "tri h1 (Root i) u" "keyed (bsz h) i 1 u" "mset (blks u) = add_mset a (mset (blks (tr i)))" "u \<noteq> Tip"
    "touch (set (a # blks (tr i))) {} {Root i} ?h h1" by blast
  have su: "set (blks u) = insert a (set (blks (tr i)))" using arg_cong [OF h1(4), of set_mset] by simp
  have t1: "touch (set (a # blks (tr i))) {} {Root i} h h1" by (rule touch_mono [OF touch_trans [OF t0 h1(6)]]) auto
  have b1: "blk_size h1 = blk_size h" using touch_blocks [OF t1] by simp
  have "distinct (blks u)"
  proof -
    have "mset (blks u) = mset (a # blks (tr i))" using h1(4) by simp
    then have "distinct (blks u) = distinct (a # blks (tr i))" by (rule mset_eq_imp_distinct_iff)
    then show ?thesis using ai t by (simp add: tree_def)
  qed
  then have u: "tree h1 i u" using h1(2,3) t su a(2) large by (auto simp: tree_def sized_cong [OF b1] bsz_cong [OF b1])
  define x where "x = (if tr i = Tip then large_free_bitmap h1 OR push_bit i 1 else large_free_bitmap h1)"
  have res: "zend_mm_add_to_free_list a h = Some (h1\<lparr>large_free_bitmap := x\<rparr>)" using h1(1) by (simp add: x_def)
  have "bit x j \<longleftrightarrow> (tr(i := u)) j \<noteq> Tip" if "j < 64" for j
    using touch_counters [OF t1] bits that i(1) h1(5) by (cases "j = i") (auto simp: x_def bit_set)
  then have "free_lists (h1\<lparr>large_free_bitmap := x\<rparr>) bk rs (tr(i := u))"
    by (intro lists_tree [OF l i(1) t1, of "{a}"]) (use a(1) u su in auto)
  moreover have "free_blks bk rs (tr(i := u)) = insert a (free_blks bk rs tr)" by (rule free_blks_add_tree) (use i(1) su in simp_all)
  moreover have "links_frame (insert a (free_blks bk rs tr)) h (h1\<lparr>large_free_bitmap := x\<rparr>)"
    by (rule frame_counters(2) [OF touch_frame [OF t1]]) (use i(1) in \<open>auto simp: in_free_blks\<close>)
  ultimately show ?thesis using res by blast
qed

lemma add_to_free_list:
  assumes "free_lists h bk rs tr" and "a \<notin> free_blks bk rs tr" and "sized h a"
  shows "\<exists>h' bk' tr'. zend_mm_add_to_free_list a h = Some h' \<and> free_lists h' bk' rs tr' \<and>
    free_blks bk' rs tr' = insert a (free_blks bk rs tr) \<and> links_frame (insert a (free_blks bk rs tr)) h h'"
  using add_small [OF assms] add_large [OF assms] by (cases "bsz h a < 544") (auto simp: not_less)

subsection \<open>Removing a block\<close>

lemma ring_ends: "blk_ring pv nx (x # ys) \<Longrightarrow> ys \<noteq> [] \<Longrightarrow> last ys = hd ys \<Longrightarrow> \<exists>y. ys = [y]"
  by (cases ys rule: rev_cases; cases "butlast ys") (auto simp: blk_ring_def neq_Nil_conv hd_append split: if_splits)

lemma fewer_bits: "free_lists h bk rs tr \<Longrightarrow> \<forall>j. bit x j \<longrightarrow> bit (free_bitmap h) j \<Longrightarrow> free_lists (h\<lparr>free_bitmap := x\<rparr>) bk rs tr"
  by (auto simp: free_lists_def)

text \<open>Out of the ring of the head \<open>y\<close>.\<close>

lemma out_of_ring:
  assumes r: "blk_ring (prev_free h) (next_free h) (y # map Blk (us @ a # vs))" and w: "blk_size h a = Some w" and y: "y \<noteq> Null"
  obtains h1 where "blk_ring (prev_free h1) (next_free h1) (y # map Blk (us @ vs))" "touch {} (insert y (Blk ` set (us @ vs))) {} h h1"
    "parent h1 = parent h"
    "zend_mm_remove_from_free_list a h = (if ZEND_MM_SMALL_SIZE w then
        (if us @ vs = [] then do {
           let index = ZEND_MM_BUCKET_INDEX w;
           first \<leftarrow> prev_free h1 (Small index);
           last \<leftarrow> next_free h1 (Small index);
           Some (if first = last then h1\<lparr>free_bitmap := free_bitmap h1 AND NOT (push_bit index 1)\<rparr> else h1)
         } else Some h1)
      else do {
        p \<leftarrow> parent h a;
        (case p of ZEND_MM_REST_BLOCK \<Rightarrow> Some (h1\<lparr>rest_count := rest_count h1 - 1\<rparr>)
           | No_parent \<Rightarrow> Some h1
           | At c \<Rightarrow> subst_block a (last (map Blk vs @ y # map Blk us)) h1)
      })"
proof -
  let ?ys = "map Blk vs @ y # map Blk us"
  have r1: "blk_ring (prev_free h) (next_free h) (Blk a # ?ys)"
    using ring_rotate [of _ _ "y # map Blk us" "Blk a # map Blk vs"] r by simp
  obtain h1 where h1: "blk_ring (prev_free h1) (next_free h1) ?ys" "touch {} (set ?ys) {} h h1" "parent h1 = parent h" "ftree h1 = ftree h"
    "zend_mm_remove_from_free_list a h = (if ZEND_MM_SMALL_SIZE w then
        (if last ?ys = hd ?ys then do {
           let index = ZEND_MM_BUCKET_INDEX w;
           first \<leftarrow> prev_free h1 (Small index);
           last \<leftarrow> next_free h1 (Small index);
           Some (if first = last then h1\<lparr>free_bitmap := free_bitmap h1 AND NOT (push_bit index 1)\<rparr> else h1)
         } else Some h1)
      else do {
        p \<leftarrow> parent h a;
        (case p of ZEND_MM_REST_BLOCK \<Rightarrow> Some (h1\<lparr>rest_count := rest_count h1 - 1\<rparr>)
           | No_parent \<Rightarrow> Some h1
           | At c \<Rightarrow> subst_block a (last ?ys) h1)
      })"
    by (rule remove_from_ring [OF r1 _ _ w]) (use y in auto)
  have "last ?ys = hd ?ys \<longleftrightarrow> us @ vs = []"
  proof
    assume "last ?ys = hd ?ys"
    then obtain z where "?ys = [z]" using ring_ends [OF r1] by blast
    then show "us @ vs = []" by (cases vs) auto
  qed simp
  moreover have "blk_ring (prev_free h1) (next_free h1) (y # map Blk (us @ vs))" using ring_rotate [OF h1(1)] by simp
  moreover have "touch {} (insert y (Blk ` set (us @ vs))) {} h h1" by (rule touch_mono [OF h1(2)]) auto
  ultimately show ?thesis using that [of h1] h1(3,5) by simp
qed

lemma remove_small:
  assumes l: "free_lists h bk rs tr" and i: "i < 64" "a \<in> set (bk i)"
  shows "\<exists>h' bk'. zend_mm_remove_from_free_list a h = Some h' \<and> free_lists h' bk' rs tr \<and>
    free_blks bk' rs tr = free_blks bk rs tr - {a} \<and> links_frame (free_blks bk rs tr) h h'"
proof -
  have b: "small_bucket h i (bk i)" and bits: "\<forall>j<64. bit (free_bitmap h) j \<longrightarrow> bk j \<noteq> []" using l i(1) by (simp_all add: free_lists_def)
  obtain us vs where uv: "bk i = us @ a # vs" using i(2) by (meson split_list)
  have a: "sized h a" "bsz h a = 8 * (i + 4)" using b i(2) by (simp_all add: small_bucket_def)
  then obtain w where w: "blk_size h a = Some w" "unat w = 8 * (i + 4)" "8 dvd unat w" "32 \<le> unat w" using sized_bsz [OF a(1)] by auto
  have sm: "ZEND_MM_SMALL_SIZE w" using w(2) i(1) by (simp add: small_size)
  have bi: "ZEND_MM_BUCKET_INDEX w = i" using bucket_index(2) [OF w(3,4) sm] w(2) by simp
  have r: "blk_ring (prev_free h) (next_free h) (Small i # map Blk (us @ a # vs))" using b uv by (simp add: small_bucket_def)
  obtain h1 where h1: "blk_ring (prev_free h1) (next_free h1) (Small i # map Blk (us @ vs))" "touch {} (insert (Small i) (Blk ` set (us @ vs))) {} h h1"
    "zend_mm_remove_from_free_list a h = (if us @ vs = [] then do {
           first \<leftarrow> prev_free h1 (Small i);
           last \<leftarrow> next_free h1 (Small i);
           Some (if first = last then h1\<lparr>free_bitmap := free_bitmap h1 AND NOT (push_bit i 1)\<rparr> else h1)
         } else Some h1)"
    by (rule out_of_ring [OF r w(1)]) (simp_all add: sm bi Let_def)
  have b0: "blk_size h1 = blk_size h" using touch_blocks [OF h1(2)] by simp
  have b1: "small_bucket h1 i (us @ vs)" using b h1(1) uv by (simp add: small_bucket_def sized_cong [OF b0] bsz_cong [OF b0])
  define x where "x = (if us @ vs = [] then free_bitmap h1 AND NOT (push_bit i 1) else free_bitmap h1)"
  have res: "zend_mm_remove_from_free_list a h = Some (h1\<lparr>free_bitmap := x\<rparr>)"
  proof (cases "us @ vs = []")
    case True
    then have "prev_free h1 (Small i) = Some (Small i)" "next_free h1 (Small i) = Some (Small i)" using h1(1) by (simp_all add: ring_singleton)
    then show ?thesis using h1(3) True by (simp add: x_def del: push_bit_of_1)
  next
    case False
    then have "x = free_bitmap h1" by (simp only: x_def if_False)
    then show ?thesis using h1(3) False by (simp only: if_False) simp
  qed
  have "bit x j \<longrightarrow> (bk(i := us @ vs)) j \<noteq> []" if "j < 64" for j
    using touch_counters [OF h1(2)] bits that i(1) by (cases "j = i") (auto simp: x_def bit_clear split: if_splits)
  then have "free_lists (h1\<lparr>free_bitmap := x\<rparr>) (bk(i := us @ vs)) rs tr"
    by (intro lists_bucket [OF l i(1) h1(2), of "{}"]) (use b1 uv in auto)
  moreover have "free_blks (bk(i := us @ vs)) rs tr = free_blks bk rs tr - {a}"
  proof (rule free_blks_remove_bucket [OF l i])
    have "distinct (bk i)" using b ring_Blk_distinct by (auto simp: small_bucket_def)
    then show "set (us @ vs) = set (bk i) - {a}" using uv by auto
  qed
  moreover have "links_frame (free_blks bk rs tr) h (h1\<lparr>free_bitmap := x\<rparr>)"
    by (rule frame_counters(1) [OF touch_frame [OF h1(2)]]) (use i(1) uv in \<open>auto simp: in_free_blks\<close>)
  ultimately show ?thesis using res by blast
qed

lemma remove_rest:
  assumes l: "free_lists h bk rs tr" and a: "a \<in> set rs"
  shows "\<exists>h' rs'. zend_mm_remove_from_free_list a h = Some h' \<and> free_lists h' bk rs' tr \<and>
    free_blks bk rs' tr = free_blks bk rs tr - {a} \<and> links_frame (free_blks bk rs tr) h h'"
proof -
  have b: "rest_list h rs" and rc: "rest_count h = large_count h rs" using l by (simp_all add: free_lists_def)
  obtain us vs where uv: "rs = us @ a # vs" using a by (meson split_list)
  have s: "sized h a" using b a by (simp add: rest_list_def)
  then obtain w where w: "blk_size h a = Some w" "unat w = bsz h a" "8 dvd unat w" "32 \<le> unat w" using sized_bsz [OF s] by auto
  have r: "blk_ring (prev_free h) (next_free h) (Rest # map Blk (us @ a # vs))" using b uv by (simp add: rest_list_def)
  obtain h1 where h1: "blk_ring (prev_free h1) (next_free h1) (Rest # map Blk (us @ vs))" "touch {} (insert Rest (Blk ` set (us @ vs))) {} h h1"
    "parent h1 = parent h"
    "zend_mm_remove_from_free_list a h = (if ZEND_MM_SMALL_SIZE w then
        (if us @ vs = [] then do {
           let index = ZEND_MM_BUCKET_INDEX w;
           first \<leftarrow> prev_free h1 (Small index);
           last \<leftarrow> next_free h1 (Small index);
           Some (if first = last then h1\<lparr>free_bitmap := free_bitmap h1 AND NOT (push_bit index 1)\<rparr> else h1)
         } else Some h1)
      else do {
        p \<leftarrow> parent h a;
        (case p of ZEND_MM_REST_BLOCK \<Rightarrow> Some (h1\<lparr>rest_count := rest_count h1 - 1\<rparr>)
           | No_parent \<Rightarrow> Some h1
           | At c \<Rightarrow> subst_block a (last (map Blk vs @ Rest # map Blk us)) h1)
      })"
    by (rule out_of_ring [OF r w(1)]) simp_all
  have b0: "blk_size h1 = blk_size h" using touch_blocks [OF h1(2)] by simp
  have b1: "rest_list h1 (us @ vs)" using b h1(1,3) uv by (simp add: rest_list_def sized_cong [OF b0] bsz_cong [OF b0])
  let ?h = "h1\<lparr>rest_count := large_count h (us @ vs)\<rparr>"
  have l1: "free_lists ?h bk (us @ vs) tr"
    by (rule lists_rest [OF l h1(2), of "{}"]) (use b1 uv in auto)
  have f1: "links_frame (free_blks bk rs tr) h ?h"
    by (rule frame_counters(3) [OF touch_frame [OF h1(2)]]) (use uv in \<open>auto simp: in_free_blks\<close>)
  have "\<exists>x. zend_mm_remove_from_free_list a h = Some (?h\<lparr>free_bitmap := x\<rparr>) \<and> (\<forall>j. bit x j \<longrightarrow> bit (free_bitmap h1) j)"
  proof (cases "ZEND_MM_SMALL_SIZE w")
    case True
    define i where "i = ZEND_MM_BUCKET_INDEX w"
    have i: "i < 64" using bucket_index(1) [OF w(3,4) True] by (simp add: i_def)
    have "\<not> 544 \<le> bsz h a" using True w(2) by (simp add: small_size)
    then have rc1: "rest_count h1 = large_count h (us @ vs)" using rc uv touch_counters [OF h1(2)] by (simp add: large_count_def)
    have "small_bucket ?h i (bk i)" using l1 i by (simp add: free_lists_def)
    then have "blk_ring (prev_free h1) (next_free h1) (Small i # map Blk (bk i))" by (simp add: small_bucket_def)
    note ring_prev [OF this] ring_next [OF this]
    then obtain p q where pq: "prev_free h1 (Small i) = Some p" "next_free h1 (Small i) = Some q" by blast
    define x where "x = (if us @ vs = [] \<and> p = q then free_bitmap h1 AND NOT (push_bit i 1) else free_bitmap h1)"
    have "zend_mm_remove_from_free_list a h = Some (?h\<lparr>free_bitmap := x\<rparr>)"
      using h1(4) True pq rc1 by (simp add: x_def i_def [symmetric] Let_def del: push_bit_of_1)
    then show ?thesis by (intro exI [of _ x]) (simp add: x_def bit_clear)
  next
    case False
    then have "544 \<le> bsz h a" using w(2) by (simp add: small_size)
    then have "rest_count h1 - 1 = large_count h (us @ vs)" "parent h a = Some ZEND_MM_REST_BLOCK"
      using rc uv touch_counters [OF h1(2)] b by (simp_all add: large_count_def rest_list_def)
    then show ?thesis using h1(4) False by (intro exI [of _ "free_bitmap h1"]) simp
  qed
  then obtain x where x: "zend_mm_remove_from_free_list a h = Some (?h\<lparr>free_bitmap := x\<rparr>)" "\<forall>j. bit x j \<longrightarrow> bit (free_bitmap h1) j" by blast
  have "free_lists (?h\<lparr>free_bitmap := x\<rparr>) bk (us @ vs) tr" by (rule fewer_bits [OF l1]) (use x(2) in simp)
  moreover have "free_blks bk (us @ vs) tr = free_blks bk rs tr - {a}"
  proof (rule free_blks_remove_rest [OF l a])
    have "distinct rs" using b ring_Blk_distinct by (auto simp: rest_list_def)
    then show "set (us @ vs) = set rs - {a}" using uv by auto
  qed
  ultimately show ?thesis using x(1) frame_counters(1) [OF f1] by blast
qed

lemma remove_large:
  assumes l: "free_lists h bk rs tr" and i: "i < 64" "a \<in> set (blks (tr i))"
  shows "\<exists>h' tr'. zend_mm_remove_from_free_list a h = Some h' \<and> free_lists h' bk rs tr' \<and>
    free_blks bk rs tr' = free_blks bk rs tr - {a} \<and> links_frame (free_blks bk rs tr) h h'"
proof -
  have t: "tree h i (tr i)" and bits: "\<forall>j<64. bit (large_free_bitmap h) j \<longleftrightarrow> tr j \<noteq> Tip" using l i(1) by (simp_all add: free_lists_def)
  have tt: "tri h (Root i) (tr i)" "keyed (bsz h) i 1 (tr i)" "distinct (blks (tr i))" "\<forall>b\<in>set (blks (tr i)). \<forall>j. Root i \<noteq> Child b j"
    "\<forall>b\<in>set (blks (tr i)). \<exists>w. blk_size h b = Some w \<and> \<not> ZEND_MM_SMALL_SIZE w"
    using t sized_large by (simp_all add: tree_def)
  obtain w where "blk_size h a = Some w" using tt(5) i(2) by blast
  then have ri: "root_cell h a = i" using tree_index [OF t i(2)] by (simp add: root_cell_def)
  obtain h1 u where h1: "zend_mm_remove_from_free_list a h = Some (if u = Tip then clear_root i h1 else h1)"
    "tri h1 (Root i) u" "keyed (bsz h) i 1 u" "add_mset a (mset (blks u)) = mset (blks (tr i))" "touch (set (blks (tr i))) {} {Root i} h h1"
    using remove_from_tree [OF tt i(2)] unfolding ri by auto
  have m: "mset (a # blks u) = mset (blks (tr i))" using h1(4) by simp
  have d: "distinct (a # blks u)" using mset_eq_imp_distinct_iff [OF m] tt(3) by simp
  have "set (a # blks u) = set (blks (tr i))" using m by (metis set_mset_mset)
  then have su: "set (blks u) = set (blks (tr i)) - {a}" using d by auto
  have b1: "blk_size h1 = blk_size h" using touch_blocks [OF h1(5)] by simp
  have u: "tree h1 i u" using h1(2,3) t su d by (auto simp: tree_def sized_cong [OF b1] bsz_cong [OF b1])
  define x where "x = (if u = Tip then large_free_bitmap h1 AND NOT (push_bit i 1) else large_free_bitmap h1)"
  have res: "zend_mm_remove_from_free_list a h = Some (h1\<lparr>large_free_bitmap := x\<rparr>)" using h1(1) by (simp add: x_def clear_root_def)
  have "tr i \<noteq> Tip" using i(2) by auto
  then have "bit x j \<longleftrightarrow> (tr(i := u)) j \<noteq> Tip" if "j < 64" for j
    using touch_counters [OF h1(5)] bits that i(1) by (cases "j = i") (auto simp: x_def bit_clear)
  then have "free_lists (h1\<lparr>large_free_bitmap := x\<rparr>) bk rs (tr(i := u))"
    by (intro lists_tree [OF l i(1) h1(5), of "{}"]) (use u su in auto)
  moreover have "free_blks bk rs (tr(i := u)) = free_blks bk rs tr - {a}" by (rule free_blks_remove_tree [OF l i su])
  moreover have "links_frame (free_blks bk rs tr) h (h1\<lparr>large_free_bitmap := x\<rparr>)"
    by (rule frame_counters(2) [OF touch_frame [OF h1(5)]]) (use i(1) in \<open>auto simp: in_free_blks\<close>)
  ultimately show ?thesis using res by blast
qed

lemma remove_from_free_list:
  assumes "free_lists h bk rs tr" and "a \<in> free_blks bk rs tr"
  shows "\<exists>h' bk' rs' tr'. zend_mm_remove_from_free_list a h = Some h' \<and> free_lists h' bk' rs' tr' \<and>
    free_blks bk' rs' tr' = free_blks bk rs tr - {a} \<and> links_frame (free_blks bk rs tr) h h'"
  using assms(2) remove_small [OF assms(1)] remove_rest [OF assms(1)] remove_large [OF assms(1)] unfolding in_free_blks by meson

subsection \<open>The rest list\<close>

lemma spill_one:
  assumes l: "free_lists h bk (a # rs) tr"
  shows "\<exists>h1. unlink Rest (hd (map Blk rs @ [Rest])) h = Some h1 \<and>
    free_lists (h1\<lparr>rest_count := large_count h rs\<rparr>) bk rs tr \<and> free_blks bk rs tr = free_blks bk (a # rs) tr - {a} \<and>
    links_frame (free_blks bk (a # rs) tr) h h1"
proof -
  have b: "rest_list h (a # rs)" using l by (simp add: free_lists_def)
  have r: "blk_ring (prev_free h) (next_free h) (Rest # map Blk (a # rs))" using b by (simp add: rest_list_def)
  then have r1: "blk_ring (prev_free h) (next_free h) (Blk a # map Blk rs @ [Rest])"
    using ring_rotate [of _ _ "[Rest]" "Blk a # map Blk rs"] by simp
  obtain h1 where h1: "unlink (last (map Blk rs @ [Rest])) (hd (map Blk rs @ [Rest])) h = Some h1"
    "blk_ring (prev_free h1) (next_free h1) (map Blk rs @ [Rest])" "touch {} (set (map Blk rs @ [Rest])) {} h h1" "parent h1 = parent h"
    by (rule unlink_ring [OF r1]) auto
  have "blk_ring (prev_free h1) (next_free h1) (Rest # map Blk rs)" using ring_rotate [OF h1(2)] by simp
  moreover have b0: "blk_size h1 = blk_size h" using touch_blocks [OF h1(3)] by simp
  ultimately have b1: "rest_list h1 rs" using b h1(4) by (simp add: rest_list_def sized_cong [OF b0] bsz_cong [OF b0])
  have "free_lists (h1\<lparr>rest_count := large_count h rs\<rparr>) bk rs tr"
    by (rule lists_rest [OF l h1(3), of "{}"]) (use b1 in auto)
  moreover have "free_blks bk rs tr = free_blks bk (a # rs) tr - {a}"
  proof (rule free_blks_remove_rest [OF l])
    have "distinct (a # rs)" using ring_Blk_distinct [OF r] .
    then show "set rs = set (a # rs) - {a}" by auto
  qed simp
  moreover have "links_frame (free_blks bk (a # rs) tr) h h1"
    by (rule touch_frame [OF h1(3)]) (auto simp: in_free_blks)
  ultimately show ?thesis using h1(1) by auto
qed

lemma spill_rest:
  assumes "free_lists h bk rs tr"
  shows "\<exists>h' bk' rs' tr'. spill_rest h = Some h' \<and> free_lists h' bk' rs' tr' \<and> free_blks bk' rs' tr' = free_blks bk rs tr \<and>
    links_frame (free_blks bk rs tr) h h'"
  using assms
proof (induction rs arbitrary: h bk tr)
  case Nil
  then have "rest_count h = 0" by (simp add: free_lists_def large_count_def)
  then have "spill_rest h = Some h" by (simp add: spill_rest.simps [of h] ZEND_MM_MAX_REST_BLOCKS_def)
  then show ?case using Nil unframed_refl by blast
next
  case (Cons a rs)
  show ?case
  proof (cases "rest_count h \<ge> ZEND_MM_MAX_REST_BLOCKS")
    case False
    then have "spill_rest h = Some h" by (simp add: spill_rest.simps [of h])
    then show ?thesis using Cons.prems unframed_refl by blast
  next
    case True
    have b: "rest_list h (a # rs)" and rc: "rest_count h = large_count h (a # rs)" using Cons.prems by (simp_all add: free_lists_def)
    have r: "blk_ring (prev_free h) (next_free h) (Rest # Blk a # map Blk rs)" using b by (simp add: rest_list_def)
    have s: "sized h a" using b by (simp add: rest_list_def)
    then obtain w where w: "blk_size h a = Some w" "unat w = bsz h a" using sized_bsz by blast
    obtain h1 where h1: "unlink Rest (hd (map Blk rs @ [Rest])) h = Some h1"
      "free_lists (h1\<lparr>rest_count := large_count h rs\<rparr>) bk rs tr" "free_blks bk rs tr = free_blks bk (a # rs) tr - {a}"
      "links_frame (free_blks bk (a # rs) tr) h h1"
      using spill_one [OF Cons.prems] by auto
    let ?h = "h1\<lparr>rest_count := large_count h rs\<rparr>"
    have b1: "blk_size ?h = blk_size h" using frame_fields [OF h1(4)] by simp
    obtain h2 bk2 tr2 where h2: "zend_mm_add_to_free_list a ?h = Some h2" "free_lists h2 bk2 rs tr2"
      "free_blks bk2 rs tr2 = free_blks bk (a # rs) tr" "links_frame (free_blks bk (a # rs) tr) ?h h2"
    proof -
      have "a \<in> free_blks bk (a # rs) tr" "a \<notin> free_blks bk rs tr" using h1(3) by (simp_all add: in_free_blks)
      then show ?thesis using add_to_free_list [OF h1(2), of a] sized_cong [OF b1] s h1(3) that by (auto simp: insert_absorb)
    qed
    define h0 where "h0 = (if \<not> ZEND_MM_SMALL_SIZE w then h\<lparr>rest_count := rest_count h - 1\<rparr> else h)"
    have rc0: "rest_count h0 = large_count h rs" "h0 = h\<lparr>rest_count := large_count h rs\<rparr>"
      using rc w(2) by (auto simp: h0_def large_count_def small_size)
    have u: "unlink Rest (hd (map Blk rs @ [Rest])) h0 = Some ?h"
      using h1(1) unfolding rc0(2) unlink_def set_next_free_def set_prev_free_def by (auto split: if_splits)
    have "next_free h Rest = Some (Blk a)" using ring_next [OF r] by simp
    moreover have "prev_free h (Blk a) = Some Rest" using ring_first [OF r] by simp
    moreover have "next_free h (Blk a) = Some (hd (map Blk rs @ [Rest]))"
      using ring_next [of "prev_free h" "next_free h" "Blk a" "map Blk rs @ [Rest]"] ring_rotate [of _ _ "[Rest]" "Blk a # map Blk rs"] r
      by (cases rs) simp_all
    moreover have "prev_free h0 = prev_free h" "next_free h0 = next_free h" unfolding rc0(2) by simp_all
    ultimately have "spill_rest h = spill_rest h2"
      using True w(1) u h2(1) unfolding spill_rest.simps [of h]
      by (simp add: ZEND_MM_FREE_BLOCK_SIZE_def blk_addr_def Let_def flip: h0_def)
    moreover obtain h' bk' rs' tr' where "spill_rest h2 = Some h'" "free_lists h' bk' rs' tr'" "free_blks bk' rs' tr' = free_blks bk2 rs tr2"
      "links_frame (free_blks bk2 rs tr2) h2 h'" using Cons.IH [OF h2(2)] by blast
    moreover have "links_frame (free_blks bk (a # rs) tr) h ?h" by (rule frame_counters(3) [OF h1(4)])
    ultimately show ?thesis using h2(3,4) unframed_trans by metis
  qed
qed

lemma add_to_rest_list:
  assumes "free_lists h bk rs tr" and a: "a \<notin> free_blks bk rs tr" "sized h a"
  shows "\<exists>h' bk' rs' tr'. zend_mm_add_to_rest_list a h = Some h' \<and> free_lists h' bk' rs' tr' \<and>
    free_blks bk' rs' tr' = insert a (free_blks bk rs tr) \<and> links_frame (insert a (free_blks bk rs tr)) h h'"
proof -
  obtain h1 bk1 rs1 tr1 where h1: "spill_rest h = Some h1" "free_lists h1 bk1 rs1 tr1" "free_blks bk1 rs1 tr1 = free_blks bk rs tr"
    "links_frame (free_blks bk rs tr) h h1" using spill_rest [OF assms(1)] by blast
  have b1: "blk_size h1 = blk_size h" using frame_fields [OF h1(4)] by simp
  obtain w where w: "blk_size h1 a = Some w" "unat w = bsz h a" using sized_bsz [OF a(2)] b1 by auto
  have rl: "rest_list h1 rs1" and rc: "rest_count h1 = large_count h1 rs1" using h1(2) by (simp_all add: free_lists_def)
  have ar: "a \<notin> free_blks bk1 rs1 tr1" "a \<notin> set rs1" using a(1) unfolding h1(3) [symmetric] by (simp_all add: in_free_blks)
  define h2 where "h2 = (if \<not> ZEND_MM_SMALL_SIZE w then set_parent a ZEND_MM_REST_BLOCK h1 else h1)"
  have t2: "touch {a} {} {} h1 h2" by (auto simp: h2_def touch_def links_only_def set_parent_def)
  have nx: "prev_free h2 = prev_free h1" "next_free h2 = next_free h1" by (simp_all add: h2_def set_parent_def)
  define zs where "zs = (case rev rs1 of [] \<Rightarrow> [] | z # us \<Rightarrow> Rest # map Blk (rev us))"
  define p where "p = last (Rest # map Blk rs1)"
  have pz: "blk_ring (prev_free h1) (next_free h1) (p # zs)" "set (p # zs) = set (Rest # map Blk rs1)"
    "zs @ [p] = (if rs1 = [] then [Rest] else Rest # map Blk rs1)"
  proof -
    have r: "blk_ring (prev_free h1) (next_free h1) (Rest # map Blk rs1)" using rl by (simp add: rest_list_def)
    show "blk_ring (prev_free h1) (next_free h1) (p # zs)"
    proof (cases rs1 rule: rev_cases)
      case (snoc us z)
      then show ?thesis using ring_rotate [of _ _ "Rest # map Blk us" "[Blk z]"] r by (simp add: p_def zs_def)
    qed (use r in \<open>simp add: p_def zs_def\<close>)
    show "set (p # zs) = set (Rest # map Blk rs1)" by (cases rs1 rule: rev_cases) (auto simp: p_def zs_def)
    show "zs @ [p] = (if rs1 = [] then [Rest] else Rest # map Blk rs1)" by (cases rs1 rule: rev_cases) (auto simp: p_def zs_def)
  qed
  have "Blk a \<notin> set (p # zs)" "Null \<notin> set (p # zs)" unfolding pz(2) using ar(2) by auto
  then obtain h3 where h3: "link_behind p a h2 = Some h3" "blk_ring (prev_free h3) (next_free h3) (p # Blk a # zs)"
    "touch {a} (set (p # zs)) {} h2 h3" "parent h3 = parent h2"
    using link_behind [of h2 p zs a] pz(1) unfolding nx by metis
  have t3: "touch {a} (set (Rest # map Blk rs1)) {} h1 h3" by (rule touch_mono [OF touch_trans [OF t2 h3(3)]]) (use pz(2) in auto)
  have b3: "blk_size h3 = blk_size h1" using touch_blocks [OF t3] by simp
  have "blk_ring (prev_free h3) (next_free h3) (Rest # map Blk (rs1 @ [a]))"
  proof (cases rs1 rule: rev_cases)
    case Nil
    then show ?thesis using h3(2) by (simp add: p_def zs_def)
  next
    case (snoc us z)
    then show ?thesis using ring_rotate [of _ _ "[Blk z, Blk a]" "Rest # map Blk us"] h3(2) by (simp add: p_def zs_def)
  qed
  moreover have "parent h3 b = parent h1 b" if "b \<in> set rs1" for b using that ar(2) by (auto simp: h3(4) h2_def set_parent_def)
  moreover have "544 \<le> bsz h1 a \<Longrightarrow> parent h3 a = Some ZEND_MM_REST_BLOCK"
    using w by (simp add: h3(4) h2_def set_parent_def small_size bsz_def)
  ultimately have b4: "rest_list h3 (rs1 @ [a])" using rl a(2) by (auto simp: rest_list_def sized_cong [OF b3] bsz_cong [OF b3] sized_cong [OF b1])
  let ?h = "h3\<lparr>rest_count := large_count h1 (rs1 @ [a])\<rparr>"
  have l: "free_lists ?h bk1 (rs1 @ [a]) tr1"
    by (rule lists_rest [OF h1(2) t3, of "{a}"]) (use ar b4 in auto)
  have "free_blks bk1 (rs1 @ [a]) tr1 = insert a (free_blks bk rs tr)" unfolding h1(3) [symmetric] by (auto simp: free_blks_def)
  moreover have "links_frame (insert a (free_blks bk rs tr)) h ?h"
    by (rule unframed_trans [OF frame_mono [OF h1(4)] frame_counters(3) [OF touch_frame [OF t3]]]) (auto simp: h1(3) [symmetric] in_free_blks)
  moreover have "zend_mm_add_to_rest_list a h = Some ?h"
  proof -
    define c where "c = large_count h1 (rs1 @ [a])"
    have c: "(if \<not> ZEND_MM_SMALL_SIZE w then set_parent a ZEND_MM_REST_BLOCK h1\<lparr>rest_count := rest_count h1 + 1\<rparr> else h1) = h2\<lparr>rest_count := c\<rparr>"
      using rc w(1) by (simp add: h2_def c_def set_parent_def large_count_def small_size bsz_def)
    have nc: "prev_free (h2\<lparr>rest_count := c\<rparr>) = prev_free h1" using nx by simp
    have "blk_ring (prev_free h1) (next_free h1) (Rest # map Blk rs1)" using rl by (simp add: rest_list_def)
    then have "prev_free h1 Rest = Some p" unfolding p_def by (rule ring_prev)
    moreover have "link_behind p a (h2\<lparr>rest_count := c\<rparr>) = Some (h3\<lparr>rest_count := c\<rparr>)"
      using h3(1) unfolding link_behind_def set_next_free_def set_prev_free_def by (cases "next_free h2 p") (auto split: if_splits)
    ultimately show ?thesis using h1(1) w(1) unfolding zend_mm_add_to_rest_list_def c_def [symmetric] Let_def
      by (simp only: Option.bind.bind_lunit c nc)
  qed
  ultimately show ?thesis using l by blast
qed

end
