(* ===== verification/Zend_Mm_Alloc.thy ===== *)
theory Zend_Mm_Alloc
  imports Zend_Mm
begin

text \<open>
  \<open>Zend/zend_alloc.c\<close>: \<open>zend_mm_alloc_int\<close>, \<open>zend_mm_free_int\<close>, \<open>zend_mm_realloc_int\<close> and what they
  use. \<open>ZEND_MM_STORAGE_ALLOC\<close> and \<open>ZEND_MM_STORAGE_REALLOC\<close> are parameters: the address a storage
  handler answers with in a given state, or \<open>NULL\<close>; a segment that is given back, or moved, takes its
  headers along. An allocation ends with a pointer or in \<open>zend_bailout\<close>, the heap then being the one the
  error is reported with.
\<close>

subsection \<open>Segments\<close>

text \<open>The memory of a segment goes, or goes elsewhere.\<close>

definition within :: "nat \<Rightarrow> ulong \<Rightarrow> nat \<Rightarrow> bool" where
  "within a n x \<longleftrightarrow> a \<le> x \<and> x < a + unat n"

definition ZEND_MM_STORAGE_FREE :: "nat \<Rightarrow> mm_heap \<Rightarrow> mm_heap option" where
  "ZEND_MM_STORAGE_FREE a h = do {
     s \<leftarrow> segs h a;
     Some (h\<lparr>segs := (segs h)(a := None),
       blk_size := (\<lambda>x. if within a (seg_size s) x then None else blk_size h x),
       blk_prev := (\<lambda>x. if within a (seg_size s) x then None else blk_prev h x)\<rparr>)
   }"

datatype seg_ref = Segments_list | Next_segment nat

definition seg_at :: "seg_ref \<Rightarrow> mm_heap \<Rightarrow> ptr option" where
  "seg_at p h = (case p of Segments_list \<Rightarrow> Some (segments_list h) | Next_segment a \<Rightarrow> map_option next_segment (segs h a))"

definition set_seg :: "seg_ref \<Rightarrow> ptr \<Rightarrow> mm_heap \<Rightarrow> mm_heap option" where
  "set_seg p v h = (case p of Segments_list \<Rightarrow> Some (h\<lparr>segments_list := v\<rparr>)
     | Next_segment a \<Rightarrow> map_option (\<lambda>s. h\<lparr>segs := (segs h)(a \<mapsto> s\<lparr>next_segment := v\<rparr>)\<rparr>) (segs h a))"

partial_function (option) find_segment :: "nat \<Rightarrow> seg_ref \<Rightarrow> mm_heap \<Rightarrow> seg_ref option" where
  "find_segment a p h = do {
     v \<leftarrow> seg_at p h;
     if v \<noteq> Some a then do { b \<leftarrow> v; find_segment a (Next_segment b) h } else Some p
   }"

definition zend_mm_del_segment :: "nat \<Rightarrow> mm_heap \<Rightarrow> mm_heap option" where
  "zend_mm_del_segment a h = do {
     p \<leftarrow> find_segment a Segments_list h;
     s \<leftarrow> segs h a;
     h \<leftarrow> set_seg p (next_segment s) h;
     ZEND_MM_STORAGE_FREE a (h\<lparr>real_size := real_size h - seg_size s\<rparr>)
   }"

subsection \<open>Giving blocks back\<close>

text \<open>A free neighbour is taken out of its list and joined.\<close>

definition join_next :: "nat \<Rightarrow> ulong \<Rightarrow> mm_heap \<Rightarrow> (ulong \<times> mm_heap) option" where
  "join_next next_block sz h = do {
     free \<leftarrow> ZEND_MM_IS_FREE_BLOCK next_block h;
     if free then do {
       n \<leftarrow> blk_size h next_block;
       h \<leftarrow> zend_mm_remove_from_free_list next_block h;
       Some (sz + n, h)
     } else Some (sz, h)
   }"

definition join_prev :: "nat \<Rightarrow> ulong \<Rightarrow> mm_heap \<Rightarrow> (nat \<times> ulong \<times> mm_heap) option" where
  "join_prev a sz h = do {
     free \<leftarrow> ZEND_MM_PREV_BLOCK_IS_FREE a h;
     if free then do {
       a \<leftarrow> ZEND_MM_PREV_BLOCK a h;
       n \<leftarrow> blk_size h a;
       h \<leftarrow> zend_mm_remove_from_free_list a h;
       Some (a, sz + n, h)
     } else Some (a, sz, h)
   }"

text \<open>The first block of a segment, with the guard behind it; the segment it fills.\<close>

definition fills_segment :: "nat \<Rightarrow> ulong \<Rightarrow> mm_heap \<Rightarrow> bool option" where
  "fills_segment a sz h = do {
     first \<leftarrow> ZEND_MM_IS_FIRST_BLOCK a h;
     if first then ZEND_MM_IS_GUARD_BLOCK (ZEND_MM_BLOCK_AT a sz) h else Some False
   }"

definition segment_of :: "nat \<Rightarrow> nat option" where
  "segment_of a = (if unat ZEND_MM_ALIGNED_SEGMENT_SIZE \<le> a then Some (a - unat ZEND_MM_ALIGNED_SEGMENT_SIZE) else None)"

definition zend_mm_free_int :: "ptr \<Rightarrow> mm_heap \<Rightarrow> mm_heap option" where
  "zend_mm_free_int p h = (case p of None \<Rightarrow> Some h | Some p \<Rightarrow> do {
     a \<leftarrow> ZEND_MM_HEADER_OF p;
     sz \<leftarrow> ZEND_MM_BLOCK_SIZE a h;
     if ZEND_MM_SMALL_SIZE sz \<and> cached h < ZEND_MM_CACHE_SIZE then do {
       let index = ZEND_MM_BUCKET_INDEX sz;
       h \<leftarrow> set_prev_free (Blk a) (cache h ! index) h;
       Some (h\<lparr>cache := (cache h)[index := Blk a], cached := ucast (ucast (cached h) + sz)\<rparr>)
     } else do {
       let h = h\<lparr>heap_size := heap_size h - sz\<rparr>;
       (sz, h) \<leftarrow> join_next (ZEND_MM_BLOCK_AT a sz) sz h;
       (a, sz, h) \<leftarrow> join_prev a sz h;
       whole \<leftarrow> fills_segment a sz h;
       if whole then do { s \<leftarrow> segment_of a; zend_mm_del_segment s h }
       else zend_mm_add_to_free_list a (ZEND_MM_BLOCK a ZEND_MM_FREE_BLOCK sz h)
     }
   })"

text \<open>The blocks of one slot of the cache, from \<open>b\<close> on.\<close>

partial_function (option) free_cached :: "fblk \<Rightarrow> mm_heap \<Rightarrow> mm_heap option" where
  "free_cached b h = (if b = Null then Some h else do {
     a \<leftarrow> blk_addr b;
     sz \<leftarrow> ZEND_MM_BLOCK_SIZE a h;
     q \<leftarrow> prev_free h b;
     let next_block = ZEND_MM_BLOCK_AT a sz;
     let h = h\<lparr>cached := ucast (ucast (cached h) - sz)\<rparr>;
     (a, sz, h) \<leftarrow> join_prev a sz h;
     (sz, h) \<leftarrow> join_next next_block sz h;
     let h = ZEND_MM_BLOCK a ZEND_MM_FREE_BLOCK sz h;
     n \<leftarrow> ZEND_MM_BLOCK_SIZE a h;
     whole \<leftarrow> fills_segment a n h;
     h \<leftarrow> (if whole then do { s \<leftarrow> segment_of a; zend_mm_del_segment s h }
         else zend_mm_add_to_free_list a h);
     free_cached q h
   })"

primrec free_cache_from :: "nat list \<Rightarrow> mm_heap \<Rightarrow> mm_heap option" where
  "free_cache_from [] h = Some h"
| "free_cache_from (i # js) h = do {
     h \<leftarrow> (if cache h ! i \<noteq> Null then do {
         h \<leftarrow> free_cached (cache h ! i) h;
         Some (h\<lparr>cache := (cache h)[i := Null]\<rparr>)
       } else Some h);
     free_cache_from js h
   }"

definition zend_mm_free_cache :: "mm_heap \<Rightarrow> mm_heap option" where
  "zend_mm_free_cache h = free_cache_from [0..<ZEND_MM_NUM_BUCKETS] h"

subsection \<open>Allocation\<close>

datatype mm_result = Mm_ptr nat | Bailout

definition zend_mm_safe_error :: "mm_heap \<Rightarrow> (mm_result \<times> mm_heap) option" where
  "zend_mm_safe_error h = do {
     h \<leftarrow> (if reserve h \<noteq> None then do {
         h \<leftarrow> zend_mm_free_int (reserve h) h;
         Some (h\<lparr>reserve := None\<rparr>)
       } else Some h);
     Some (Bailout, if overflow h = 0 then h\<lparr>overflow := 1\<rparr> else h\<lparr>overflow := 2\<rparr>)
   }"

definition raise_peak :: "mm_heap \<Rightarrow> mm_heap" where
  "raise_peak h = (if heap_peak h < heap_size h then h\<lparr>heap_peak := heap_size h\<rparr> else h)"

definition raise_real_peak :: "mm_heap \<Rightarrow> mm_heap" where
  "raise_real_peak h = (if real_size h > real_peak h then h\<lparr>real_peak := real_size h\<rparr> else h)"

text \<open>The block \<open>a\<close> of \<open>bsz\<close> bytes serves \<open>true_size\<close> of them; what is left is free if it is large enough.
  How many bytes are in use now.\<close>

definition carve :: "nat \<Rightarrow> ulong \<Rightarrow> ulong \<Rightarrow> (nat \<Rightarrow> ulong \<Rightarrow> mm_heap \<Rightarrow> mm_heap option) \<Rightarrow> mm_heap \<Rightarrow> (ulong \<times> mm_heap) option" where
  "carve a bsz true_size add h = (let remaining_size = bsz - true_size
     in if remaining_size < ZEND_MM_ALIGNED_MIN_HEADER_SIZE
        then Some (bsz, ZEND_MM_BLOCK a ZEND_MM_USED_BLOCK bsz h)
        else do {
          let h = ZEND_MM_BLOCK a ZEND_MM_USED_BLOCK true_size h;
          let new_free_block = ZEND_MM_BLOCK_AT a true_size;
          let h = ZEND_MM_BLOCK new_free_block ZEND_MM_FREE_BLOCK remaining_size h;
          h \<leftarrow> add new_free_block remaining_size h;
          Some (true_size, h)
        })"

definition finish_alloc :: "nat \<Rightarrow> ulong \<Rightarrow> ulong \<Rightarrow> bool \<Rightarrow> mm_heap \<Rightarrow> (mm_result \<times> mm_heap) option" where
  "finish_alloc a bsz true_size keep_rest h = do {
     (true_size, h) \<leftarrow> carve a bsz true_size
       (\<lambda>b n. if \<not> keep_rest then zend_mm_add_to_free_list b else zend_mm_add_to_rest_list b) h;
     Some (Mm_ptr (ZEND_MM_DATA_OF a), raise_peak (h\<lparr>heap_size := heap_size h + true_size\<rparr>))
   }"

text \<open>From \<open>zend_mm_finished_searching_for_block\<close> on.\<close>

definition take_free_block :: "fblk \<Rightarrow> ulong \<Rightarrow> mm_heap \<Rightarrow> (mm_result \<times> mm_heap) option" where
  "take_free_block best_fit true_size h = do {
     a \<leftarrow> blk_addr best_fit;
     ZEND_MM_CHECK_BLOCK_LINKAGE a h;
     h \<leftarrow> zend_mm_remove_from_free_list a h;
     bsz \<leftarrow> blk_size h a;
     finish_alloc a bsz true_size False h
   }"

partial_function (option) search_rest :: "ulong \<Rightarrow> fblk \<Rightarrow> fblk \<Rightarrow> ulong \<Rightarrow> mm_heap \<Rightarrow> fblk option" where
  "search_rest true_size p best_fit best_size h =
     (if p = Rest then Some best_fit
      else do {
        sz \<leftarrow> ZEND_MM_FREE_BLOCK_SIZE p h;
        if sz = true_size then Some p
        else do {
          let (best_fit, best_size) = (if sz > true_size \<and> sz < best_size then (p, sz) else (best_fit, best_size));
          p \<leftarrow> prev_free h p;
          search_rest true_size p best_fit best_size h
        }
      })"

text \<open>The segment for a block: a multiple of \<open>block_size\<close> when it needs more than one.\<close>

definition segment_size_for :: "ulong \<Rightarrow> mm_heap \<Rightarrow> ulong" where
  "segment_size_for true_size h =
     (if true_size > block_size h - (ZEND_MM_ALIGNED_SEGMENT_SIZE + ZEND_MM_ALIGNED_HEADER_SIZE)
      then (true_size + ZEND_MM_ALIGNED_SEGMENT_SIZE + ZEND_MM_ALIGNED_HEADER_SIZE + (block_size h - 1)) AND NOT (block_size h - 1)
      else block_size h)"

definition alloc_segment :: "(mm_heap \<Rightarrow> ulong \<Rightarrow> ptr) \<Rightarrow> ulong \<Rightarrow> mm_heap \<Rightarrow> (mm_result \<times> mm_heap) option" where
  "alloc_segment storage true_size h = do {
     let keep_rest = (true_size > block_size h - (ZEND_MM_ALIGNED_SEGMENT_SIZE + ZEND_MM_ALIGNED_HEADER_SIZE));
     let segment_size = segment_size_for true_size h;
     if segment_size < true_size \<or> real_size h + segment_size > mm_limit h then do {
       h \<leftarrow> zend_mm_free_cache h;
       zend_mm_safe_error h
     } else (case storage h segment_size of
       None \<Rightarrow> do { h \<leftarrow> zend_mm_free_cache h; zend_mm_safe_error h }
     | Some s \<Rightarrow> do {
         let h = raise_real_peak (h\<lparr>real_size := real_size h + segment_size\<rparr>);
         let h = h\<lparr>segs := (segs h)(s \<mapsto> \<lparr>seg_size = segment_size, next_segment = segments_list h\<rparr>), segments_list := Some s\<rparr>;
         let best_fit = s + unat ZEND_MM_ALIGNED_SEGMENT_SIZE;
         let h = ZEND_MM_MARK_FIRST_BLOCK best_fit h;
         let bsz = segment_size - ZEND_MM_ALIGNED_SEGMENT_SIZE - ZEND_MM_ALIGNED_HEADER_SIZE;
         let h = ZEND_MM_LAST_BLOCK (ZEND_MM_BLOCK_AT best_fit bsz) h;
         finish_alloc best_fit bsz true_size keep_rest h
       })
   }"

text \<open>The part from \<open>zend_mm_search_large_block\<close> on.\<close>

definition alloc_large :: "(mm_heap \<Rightarrow> ulong \<Rightarrow> ptr) \<Rightarrow> ulong \<Rightarrow> mm_heap \<Rightarrow> (mm_result \<times> mm_heap) option" where
  "alloc_large storage true_size h = do {
     best_fit \<leftarrow> zend_mm_search_large_block true_size h;
     best_fit \<leftarrow> (if best_fit = Null \<and> real_size h \<ge> mm_limit h - block_size h
       then do { p \<leftarrow> prev_free h Rest; search_rest true_size p Null (- 1) h }
       else Some best_fit);
     if best_fit = Null then alloc_segment storage true_size h
     else take_free_block best_fit true_size h
   }"

definition zend_mm_alloc_int :: "(mm_heap \<Rightarrow> ulong \<Rightarrow> ptr) \<Rightarrow> ulong \<Rightarrow> mm_heap \<Rightarrow> (mm_result \<times> mm_heap) option" where
  "zend_mm_alloc_int storage sz h = (let true_size = ZEND_MM_TRUE_SIZE sz
     in if ZEND_MM_SMALL_SIZE true_size then do {
          let index = ZEND_MM_BUCKET_INDEX true_size;
          if true_size < sz then zend_mm_safe_error h
          else if cache h ! index \<noteq> Null then do {
            let best_fit = cache h ! index;
            a \<leftarrow> blk_addr best_fit;
            q \<leftarrow> prev_free h best_fit;
            Some (Mm_ptr (ZEND_MM_DATA_OF a), h\<lparr>cache := (cache h)[index := q], cached := ucast (ucast (cached h) - true_size)\<rparr>)
          } else do {
            let bitmap = drop_bit index (free_bitmap h);
            if bitmap \<noteq> 0 then do {
              n \<leftarrow> zend_mm_low_bit bitmap;
              best_fit \<leftarrow> prev_free h (Small (index + n));
              take_free_block best_fit true_size h
            } else alloc_large storage true_size h
          }
        } else alloc_large storage true_size h)"

subsection \<open>Reallocation\<close>

definition memcpy :: "nat \<Rightarrow> nat \<Rightarrow> ulong \<Rightarrow> mm_heap \<Rightarrow> mm_heap" where
  "memcpy to from n h = h\<lparr>bytes := (\<lambda>x. if within to n x then bytes h (x - to + from) else bytes h x)\<rparr>"

text \<open>A smaller block: the rest of it is given back, joined with a free block behind.\<close>

definition shrink_block :: "nat \<Rightarrow> nat \<Rightarrow> ulong \<Rightarrow> ulong \<Rightarrow> mm_heap \<Rightarrow> (mm_result \<times> mm_heap) option" where
  "shrink_block p a true_size orig_size h = (let remaining_size = orig_size - true_size
     in if remaining_size \<ge> ZEND_MM_ALIGNED_MIN_HEADER_SIZE then do {
          (remaining_size, h) \<leftarrow> join_next (ZEND_MM_BLOCK_AT a orig_size) remaining_size h;
          let h = ZEND_MM_BLOCK a ZEND_MM_USED_BLOCK true_size h;
          let new_free_block = ZEND_MM_BLOCK_AT a true_size;
          let h = ZEND_MM_BLOCK new_free_block ZEND_MM_FREE_BLOCK remaining_size h;
          h \<leftarrow> zend_mm_add_to_free_list new_free_block h;
          Some (Mm_ptr p, h\<lparr>heap_size := heap_size h + (true_size - orig_size)\<rparr>)
        } else Some (Mm_ptr p, h))"

text \<open>A cached block of the new size; the old one goes into the cache.\<close>

definition realloc_cached :: "nat \<Rightarrow> nat \<Rightarrow> ulong \<Rightarrow> ulong \<Rightarrow> mm_heap \<Rightarrow> (mm_result \<times> mm_heap) option" where
  "realloc_cached p a true_size orig_size h = do {
     let index = ZEND_MM_BUCKET_INDEX true_size;
     let best_fit = cache h ! index;
     b \<leftarrow> blk_addr best_fit;
     q \<leftarrow> prev_free h best_fit;
     let h = h\<lparr>cache := (cache h)[index := q]\<rparr>;
     let ptr = ZEND_MM_DATA_OF b;
     let h = memcpy ptr p (orig_size - ZEND_MM_ALIGNED_HEADER_SIZE) h;
     let h = h\<lparr>cached := ucast (ucast (cached h) - (true_size - orig_size))\<rparr>;
     let index = ZEND_MM_BUCKET_INDEX orig_size;
     h \<leftarrow> set_prev_free (Blk a) (cache h ! index) h;
     Some (Mm_ptr ptr, h\<lparr>cache := (cache h)[index := Blk a]\<rparr>)
   }"

text \<open>The first block of a segment and the block behind it, before the guard.\<close>

definition with_next_fills_segment :: "nat \<Rightarrow> nat \<Rightarrow> ulong \<Rightarrow> mm_heap \<Rightarrow> bool option" where
  "with_next_fills_segment a b n h = do {
     first \<leftarrow> ZEND_MM_IS_FIRST_BLOCK a h;
     if first then ZEND_MM_IS_GUARD_BLOCK (ZEND_MM_BLOCK_AT b n) h else Some False
   }"

text \<open>The free block behind, of \<open>n\<close> bytes, is large enough.\<close>

definition grow_block :: "nat \<Rightarrow> nat \<Rightarrow> ulong \<Rightarrow> ulong \<Rightarrow> ulong \<Rightarrow> mm_heap \<Rightarrow> (mm_result \<times> mm_heap) option" where
  "grow_block p a true_size orig_size n h = do {
     h \<leftarrow> zend_mm_remove_from_free_list (ZEND_MM_BLOCK_AT a orig_size) h;
     (true_size, h) \<leftarrow> carve a (orig_size + n) true_size
       (\<lambda>b n h. do {
          whole \<leftarrow> with_next_fills_segment a b n h;
          if whole then zend_mm_add_to_rest_list b h else zend_mm_add_to_free_list b h
        }) h;
     Some (Mm_ptr p, raise_peak (h\<lparr>heap_size := heap_size h + true_size - orig_size\<rparr>))
   }"

text \<open>The segment of \<open>n\<close> bytes at \<open>s\<close> moves to \<open>s'\<close>, with its contents as far as they fit.\<close>

definition ZEND_MM_STORAGE_REALLOC :: "nat \<Rightarrow> nat \<Rightarrow> ulong \<Rightarrow> mm_heap \<Rightarrow> mm_heap option" where
  "ZEND_MM_STORAGE_REALLOC s s' n h = do {
     seg \<leftarrow> segs h s;
     let move = (\<lambda>f x. if within s' n x then (if within s (seg_size seg) (x - s' + s) then f (x - s' + s) else None)
           else if within s (seg_size seg) x then None else f x);
     Some (h\<lparr>segs := (segs h)(s := None, s' \<mapsto> seg), blk_size := move (blk_size h), blk_prev := move (blk_prev h),
       bytes := (\<lambda>x. if within s' n x then bytes h (x - s' + s) else bytes h x)\<rparr>)
   }"

definition realloc_segment :: "(mm_heap \<Rightarrow> nat \<Rightarrow> ulong \<Rightarrow> ptr) \<Rightarrow> nat \<Rightarrow> ulong \<Rightarrow> ulong \<Rightarrow> mm_heap \<Rightarrow> (mm_result \<times> mm_heap) option" where
  "realloc_segment restorage a true_size orig_size h = do {
     let segment_size = segment_size_for true_size h;
     segment_copy \<leftarrow> segment_of a;
     old \<leftarrow> segs h segment_copy;
     if segment_size < true_size \<or> real_size h + segment_size - seg_size old > mm_limit h then do {
       let next_block = ZEND_MM_BLOCK_AT a orig_size;
       free \<leftarrow> ZEND_MM_IS_FREE_BLOCK next_block h;
       h \<leftarrow> (if free then zend_mm_add_to_free_list next_block h else Some h);
       h \<leftarrow> zend_mm_free_cache h;
       zend_mm_safe_error h
     } else (case restorage h segment_copy segment_size of
       None \<Rightarrow> do { h \<leftarrow> zend_mm_free_cache h; zend_mm_safe_error h }
     | Some s \<Rightarrow> do {
         h \<leftarrow> ZEND_MM_STORAGE_REALLOC segment_copy s segment_size h;
         let h = raise_real_peak (h\<lparr>real_size := real_size h + (segment_size - seg_size old)\<rparr>);
         let h = h\<lparr>segs := (segs h)(s \<mapsto> old\<lparr>seg_size := segment_size\<rparr>)\<rparr>;
         (a, h) \<leftarrow> (if s \<noteq> segment_copy then do {
             r \<leftarrow> find_segment segment_copy Segments_list h;
             h \<leftarrow> set_seg r (Some s) h;
             let a = s + unat ZEND_MM_ALIGNED_SEGMENT_SIZE;
             Some (a, ZEND_MM_MARK_FIRST_BLOCK a h)
           } else Some (a, h));
         let bsz = segment_size - ZEND_MM_ALIGNED_SEGMENT_SIZE - ZEND_MM_ALIGNED_HEADER_SIZE;
         let h = ZEND_MM_LAST_BLOCK (ZEND_MM_BLOCK_AT a bsz) h;
         (true_size, h) \<leftarrow> carve a bsz true_size (\<lambda>b n. zend_mm_add_to_rest_list b) h;
         Some (Mm_ptr (ZEND_MM_DATA_OF a), raise_peak (h\<lparr>heap_size := heap_size h + true_size - orig_size\<rparr>))
       })
   }"

text \<open>Somewhere else: allocate, copy, free.\<close>

definition realloc_moved :: "(mm_heap \<Rightarrow> ulong \<Rightarrow> ptr) \<Rightarrow> nat \<Rightarrow> ulong \<Rightarrow> ulong \<Rightarrow> mm_heap \<Rightarrow> (mm_result \<times> mm_heap) option" where
  "realloc_moved storage p orig_size sz h = do {
     (r, h) \<leftarrow> zend_mm_alloc_int storage sz h;
     (case r of Bailout \<Rightarrow> Some (Bailout, h)
      | Mm_ptr ptr \<Rightarrow> do {
          let h = memcpy ptr p (orig_size - ZEND_MM_ALIGNED_HEADER_SIZE) h;
          h \<leftarrow> zend_mm_free_int (Some p) h;
          Some (Mm_ptr ptr, h)
        })
   }"

definition realloc_in_place :: "(mm_heap \<Rightarrow> ulong \<Rightarrow> ptr) \<Rightarrow> (mm_heap \<Rightarrow> nat \<Rightarrow> ulong \<Rightarrow> ptr) \<Rightarrow> nat \<Rightarrow> nat \<Rightarrow> ulong \<Rightarrow> ulong \<Rightarrow> ulong \<Rightarrow>
    mm_heap \<Rightarrow> (mm_result \<times> mm_heap) option" where
  "realloc_in_place storage restorage p a true_size orig_size sz h = do {
     let next_block = ZEND_MM_BLOCK_AT a orig_size;
     free \<leftarrow> ZEND_MM_IS_FREE_BLOCK next_block h;
     if free then do {
       ZEND_MM_CHECK_BLOCK_LINKAGE next_block h;
       n \<leftarrow> blk_size h next_block;
       if orig_size + n \<ge> true_size then grow_block p a true_size orig_size n h
       else do {
         whole \<leftarrow> with_next_fills_segment a next_block n h;
         if whole then do {
           h \<leftarrow> zend_mm_remove_from_free_list next_block h;
           realloc_segment restorage a true_size orig_size h
         } else realloc_moved storage p orig_size sz h
       }
     } else do {
       whole \<leftarrow> fills_segment a orig_size h;
       if whole then realloc_segment restorage a true_size orig_size h
       else realloc_moved storage p orig_size sz h
     }
   }"

definition zend_mm_realloc_int :: "(mm_heap \<Rightarrow> ulong \<Rightarrow> ptr) \<Rightarrow> (mm_heap \<Rightarrow> nat \<Rightarrow> ulong \<Rightarrow> ptr) \<Rightarrow> ptr \<Rightarrow> ulong \<Rightarrow>
    mm_heap \<Rightarrow> (mm_result \<times> mm_heap) option" where
  "zend_mm_realloc_int storage restorage p sz h = (case p of None \<Rightarrow> zend_mm_alloc_int storage sz h | Some p \<Rightarrow> do {
     a \<leftarrow> ZEND_MM_HEADER_OF p;
     let true_size = ZEND_MM_TRUE_SIZE sz;
     orig_size \<leftarrow> ZEND_MM_BLOCK_SIZE a h;
     if true_size < sz then zend_mm_safe_error h
     else if true_size \<le> orig_size then shrink_block p a true_size orig_size h
     else if ZEND_MM_SMALL_SIZE true_size \<and> cache h ! ZEND_MM_BUCKET_INDEX true_size \<noteq> Null
     then realloc_cached p a true_size orig_size h
     else realloc_in_place storage restorage p a true_size orig_size sz h
   })"

definition zend_mm_block_size :: "ptr \<Rightarrow> mm_heap \<Rightarrow> ulong option" where
  "zend_mm_block_size p h = (case p of None \<Rightarrow> Some 0 | Some p \<Rightarrow> do {
     a \<leftarrow> ZEND_MM_HEADER_OF p;
     ZEND_MM_BLOCK_SIZE a h
   })"

subsection \<open>Start and end\<close>

definition zend_mm_init :: "mm_heap \<Rightarrow> mm_heap" where
  "zend_mm_init h = h\<lparr>free_bitmap := 0, large_free_bitmap := 0, cached := 0, cache := replicate ZEND_MM_NUM_BUCKETS Null,
     next_free := (\<lambda>b. case b of Small i \<Rightarrow> if i < ZEND_MM_NUM_BUCKETS then Some (Small i) else next_free h b
        | Rest \<Rightarrow> Some Rest | _ \<Rightarrow> next_free h b),
     prev_free := (\<lambda>b. case b of Small i \<Rightarrow> if i < ZEND_MM_NUM_BUCKETS then Some (Small i) else prev_free h b
        | Rest \<Rightarrow> Some Rest | _ \<Rightarrow> prev_free h b),
     ftree := (\<lambda>c. case c of Root i \<Rightarrow> if i < ZEND_MM_NUM_BUCKETS then Some Null else ftree h c | _ \<Rightarrow> ftree h c),
     rest_count := 0\<rparr>"

text \<open>\<open>malloc\<close>ed, nothing written yet.\<close>

definition new_heap :: mm_heap where
  "new_heap = \<lparr>free_bitmap = 0, large_free_bitmap = 0, block_size = 0, segments_list = None, real_size = 0, real_peak = 0,
     mm_limit = 0, heap_size = 0, heap_peak = 0, reserve_size = 0, reserve = None, overflow = 0, cached = 0, cache = [],
     rest_count = 0, blk_size = Map.empty, blk_prev = Map.empty, prev_free = Map.empty, next_free = Map.empty,
     parent = Map.empty, ftree = Map.empty, segs = Map.empty, bytes = (\<lambda>_. 0)\<rparr>"

definition set_reserve :: "(mm_heap \<Rightarrow> ulong \<Rightarrow> ptr) \<Rightarrow> mm_heap \<Rightarrow> mm_heap option" where
  "set_reserve storage h = (if reserve_size h > 0 then do {
       (r, h) \<leftarrow> zend_mm_alloc_int storage (reserve_size h) h;
       (case r of Mm_ptr p \<Rightarrow> Some (h\<lparr>reserve := Some p\<rparr>) | Bailout \<Rightarrow> None)
     } else Some h)"

text \<open>The heap structure is not inside the heap (\<open>internal\<close> is 0).\<close>

definition zend_mm_startup_ex :: "(mm_heap \<Rightarrow> ulong \<Rightarrow> ptr) \<Rightarrow> ulong \<Rightarrow> ulong \<Rightarrow> mm_heap option" where
  "zend_mm_startup_ex storage bsz rsz = do {
     n \<leftarrow> zend_mm_low_bit bsz;
     panic_unless (n = zend_mm_high_bit bsz);
     let h = zend_mm_init (new_heap\<lparr>block_size := bsz, segments_list := None\<rparr>);
     set_reserve storage (h\<lparr>real_size := 0, overflow := 0, real_peak := 0, mm_limit := push_bit (ZEND_MM_NUM_BUCKETS - 2) 1,
       heap_size := 0, heap_peak := 0, reserve := None, reserve_size := rsz\<rparr>)
   }"

text \<open>Segments go until the list has come to its end, or to the last one.\<close>

partial_function (option) free_segments :: "bool \<Rightarrow> ptr \<Rightarrow> mm_heap \<Rightarrow> (ptr \<times> mm_heap) option" where
  "free_segments keep p h = (case p of None \<Rightarrow> Some (None, h) | Some a \<Rightarrow> do {
     s \<leftarrow> segs h a;
     if keep \<and> next_segment s = None then Some (Some a, h) else do {
       h \<leftarrow> ZEND_MM_STORAGE_FREE a h;
       free_segments keep (next_segment s) h
     }
   })"

definition reset_segment :: "nat \<Rightarrow> mm_heap \<Rightarrow> mm_heap option" where
  "reset_segment s h = do {
     seg \<leftarrow> segs h s;
     let h = h\<lparr>real_size := seg_size seg, real_peak := seg_size seg, heap_size := 0, heap_peak := 0\<rparr>;
     let b = s + unat ZEND_MM_ALIGNED_SEGMENT_SIZE;
     let bsz = seg_size seg - ZEND_MM_ALIGNED_SEGMENT_SIZE - ZEND_MM_ALIGNED_HEADER_SIZE;
     let h = ZEND_MM_MARK_FIRST_BLOCK b h;
     let h = ZEND_MM_LAST_BLOCK (ZEND_MM_BLOCK_AT b bsz) h;
     let h = ZEND_MM_BLOCK b ZEND_MM_FREE_BLOCK bsz h;
     zend_mm_add_to_free_list b h
   }"

text \<open>At the end of a request all is given up but one segment, if the heap has a reserve; a full shutdown is
  the end of the heap.\<close>

definition zend_mm_shutdown :: "(mm_heap \<Rightarrow> ulong \<Rightarrow> ptr) \<Rightarrow> bool \<Rightarrow> mm_heap \<Rightarrow> mm_heap option" where
  "zend_mm_shutdown storage full_shutdown h = do {
     let h = h\<lparr>reserve := None\<rparr>;
     if full_shutdown then do {
       (_, h) \<leftarrow> free_segments False (segments_list h) h;
       Some (h\<lparr>segments_list := None\<rparr>)
     } else do {
       (p, h) \<leftarrow> free_segments (reserve_size h \<noteq> 0) (segments_list h) h;
       let h = zend_mm_init (h\<lparr>segments_list := p\<rparr>);
       h \<leftarrow> (case segments_list h of None \<Rightarrow> Some (h\<lparr>real_size := 0, real_peak := 0, heap_size := 0, heap_peak := 0\<rparr>)
           | Some s \<Rightarrow> reset_segment s h);
       h \<leftarrow> set_reserve storage h;
       Some (h\<lparr>overflow := 0\<rparr>)
     }
   }"

end
