(* ===== verification/Zend_Mm_Search.thy ===== *)
theory Zend_Mm_Search
  imports Zend_Mm_Free Zend_Mm_Alloc
begin

text \<open>
  \<open>zend_mm_search_large_block\<close> finds a best fit: of the large free blocks that are large enough it
  returns one of the least size.
\<close>

text \<open>The best candidate of a set of blocks, in the variables \<open>best_fit\<close> and \<open>best_size\<close>.\<close>

definition best_of :: "(nat \<Rightarrow> nat) \<Rightarrow> nat \<Rightarrow> nat set \<Rightarrow> fblk \<Rightarrow> ulong \<Rightarrow> bool" where
  "best_of s n S best bs \<longleftrightarrow> (best = Null \<and> bs = - 1 \<and> (\<forall>b\<in>S. s b < n)) \<or>
     (\<exists>b\<in>S. best = Blk b \<and> s b = unat bs \<and> n \<le> s b \<and> (\<forall>y\<in>S. n \<le> s y \<longrightarrow> s b \<le> s y))"

lemma best_of_step:
  assumes "best_of s n S best bs" and "s a = unat sz" and "sz \<noteq> - 1"
  shows "best_of s n (insert a S) (if n \<le> unat sz \<and> sz < bs then Blk a else best) (if n \<le> unat sz \<and> sz < bs then sz else bs)"
proof (cases "best = Null")
  case True
  then have b: "bs = - 1" "\<forall>b\<in>S. s b < n" using assms(1) by (auto simp: best_of_def)
  have "sz < - 1" using assms(3) by (simp add: word_order.not_eq_extremum)
  then show ?thesis using True b assms(2) by (auto simp: best_of_def)
next
  case False
  then obtain b where b: "b \<in> S" "best = Blk b" "s b = unat bs" "n \<le> s b" "\<forall>y\<in>S. n \<le> s y \<longrightarrow> s b \<le> s y"
    using assms(1) by (auto simp: best_of_def)
  show ?thesis
  proof (cases "n \<le> unat sz \<and> sz < bs")
    case True
    then have "s a < s b" using b(3) assms(2) by (simp add: word_less_nat_alt)
    then have "\<forall>y\<in>insert a S. n \<le> s y \<longrightarrow> s a \<le> s y" using b(5) by fastforce
    then show ?thesis using True assms(2) by (auto simp: best_of_def)
  next
    case no: False
    then have "n \<le> s a \<longrightarrow> s b \<le> s a" using b(3) assms(2) by (auto simp: word_less_nat_alt)
    then show ?thesis using no b False by (auto simp: best_of_def)
  qed
qed

lemma best_of_more:
  assumes "best_of s n S best bs" and "y \<in> S" and "n \<le> s y" and "\<forall>a\<in>A. s y \<le> s a"
  shows "best_of s n (S \<union> A) best bs"
proof -
  obtain b where b: "b \<in> S" "best = Blk b" "s b = unat bs" "n \<le> s b" "\<forall>y\<in>S. n \<le> s y \<longrightarrow> s b \<le> s y"
    using assms(1-3) by (auto simp: best_of_def)
  then have "s b \<le> s y" using assms(2,3) by simp
  then have "\<forall>a\<in>A. s b \<le> s a" using assms(4) le_trans by blast
  then show ?thesis using b unfolding best_of_def by blast
qed

lemma best_of_less: "best_of s n S best bs \<Longrightarrow> \<forall>a\<in>A. s a < n \<Longrightarrow> best_of s n (S \<union> A) best bs"
  unfolding best_of_def by (fastforce simp: not_less)

text \<open>The two sides of a node.\<close>

lemma keyed_sides:
  assumes "keyed s (Suc j) pre (Nd b ds l r)"
  shows "\<forall>a\<in>set (heads l). s a div 2 ^ j = 2 * pre" "\<forall>a\<in>set (heads r). s a div 2 ^ j = 2 * pre + 1"
  using assms keyed_prefix [of s j "2 * pre" l] keyed_prefix [of s j "2 * pre + 1" r] set_heads by (simp, blast)+

lemma div_less: "(x :: nat) div 2 ^ j < y div 2 ^ j \<Longrightarrow> x < y"
  by (meson div_le_mono leD leI)

lemma tri_next:
  "tri h c t \<Longrightarrow> keyed s k pre t \<Longrightarrow> a \<in> set (heads t) \<Longrightarrow>
     \<exists>b\<in>set (blks t). next_free h (Blk a) = Some (Blk b) \<and> s b = s a"
proof (induction t arbitrary: c k pre)
  case (Nd a' ds l r)
  show ?case
  proof (cases "a = a'")
    case True
    have "next_free h (Blk a) = Some (hd (map Blk ds @ [Blk a]))"
      using ring_next [of "prev_free h" "next_free h" "Blk a" "map Blk ds"] Nd.prems(1) True by simp
    then have "next_free h (Blk a) = Some (Blk (hd (ds @ [a])))" by (cases ds) simp_all
    moreover have "s (hd (ds @ [a])) = s a" "hd (ds @ [a]) \<in> set (a # ds)" using Nd.prems(2) True by (cases ds; simp)+
    ultimately show ?thesis using True by auto
  next
    case False
    then obtain j where k: "k = Suc j" using Nd.prems(2,3) by (cases k) auto
    have "a \<in> set (heads l) \<or> a \<in> set (heads r)" using Nd.prems(3) False by simp
    then show ?thesis using Nd.IH(1) [of "Child a' False" j "2 * pre"] Nd.IH(2) [of "Child a' True" j "2 * pre + 1"] Nd.prems(1,2) k
      by auto
  qed
qed simp

subsection \<open>The path of the size\<close>

definition rest_tree :: "mm_heap \<Rightarrow> nat \<Rightarrow> fblk \<Rightarrow> ftr \<Rightarrow> bool" where
  "rest_tree h n p u \<longleftrightarrow> (\<exists>c j q. tri h c u \<and> ftree h c = Some p \<and> keyed (bsz h) j q u) \<and> u \<noteq> Tip \<and> (\<forall>a\<in>set (heads u). n < bsz h a)"

lemma search_path:
  assumes "tri h c t" and "ftree h c = Some p" and "t \<noteq> Tip" and "keyed (bsz h) k pre t" and "k < 64"
    and "\<forall>b\<in>set (blks t). \<exists>w. blk_size h b = Some w \<and> w \<noteq> - 1" and "unat ts div 2 ^ k = pre" and "best_of (bsz h) (unat ts) S best bs"
  shows "(\<exists>a\<in>set (heads t). \<exists>b. bsz h a = unat ts \<and> next_free h (Blk a) = Some b \<and>
      search_path ts (push_bit (64 - k) ts) p rst best bs h = Some (Inl b)) \<or>
    (\<exists>rst' best' bs' P. search_path ts (push_bit (64 - k) ts) p rst best bs h = Some (Inr (rst', best', bs')) \<and>
      P \<subseteq> set (heads t) \<and> best_of (bsz h) (unat ts) (S \<union> P) best' bs' \<and> (\<forall>a\<in>set (heads t). bsz h a \<noteq> unat ts) \<and>
      (rst' = rst \<and> (\<forall>a\<in>set (heads t) - P. bsz h a < unat ts) \<or>
       (\<exists>u. rest_tree h (unat ts) rst' u \<and> set (heads u) \<subseteq> set (heads t) \<and>
         (\<forall>a\<in>set (heads t) - P - set (heads u). unat ts < bsz h a \<longrightarrow> (\<forall>y\<in>set (heads u). bsz h y \<le> bsz h a)))))"
  using assms
proof (induction t arbitrary: c p k pre rst best bs S)
  case (Nd b ds l r)
  let ?s = "bsz h" and ?n = "unat ts" and ?m = "push_bit (64 - k) ts"
  have p: "p = Blk b" "next_free h (Blk b) \<noteq> None" and sub: "tri h (Child b False) l" "tri h (Child b True) r"
    using Nd.prems(1,2) ring_next [of _ _ "Blk b" "map Blk ds"] by auto
  obtain w where w: "blk_size h b = Some w" "w \<noteq> - 1" using Nd.prems(6) by auto
  have sb: "?s b = unat w" using w by (simp add: bsz_def)
  obtain c0 c1 where cs: "ftree h (Child b False) = Some c0" "ftree h (Child b True) = Some c1" "(c0 = Null) = (l = Tip)" "(c1 = Null) = (r = Tip)"
    using sub by (cases l; cases r) auto
  show ?case
  proof (cases "w = ts")
    case True
    then have "search_path ts ?m p rst best bs h = Option.bind (next_free h (Blk b)) (\<lambda>b. Some (Inl b))"
      using w p by (subst search_path.simps) (simp add: ZEND_MM_FREE_BLOCK_SIZE_def blk_addr_def)
    then show ?thesis using p(2) sb True by auto
  next
    case False
    then have ne: "?s b \<noteq> ?n" using sb by (simp add: word_unat_eq_iff)
    obtain j where k: "k = Suc j"
    proof (cases k)
      case 0
      then show ?thesis using Nd.prems(4,7) ne by simp
    qed blast
    define best1 bs1 where "best1 = (if ?n \<le> unat w \<and> w < bs then Blk b else best)" and "bs1 = (if ?n \<le> unat w \<and> w < bs then w else bs)"
    have best1: "best_of ?s ?n (insert b S) best1 bs1" unfolding best1_def bs1_def by (rule best_of_step [OF Nd.prems(8) sb w(2)])
    have m: "push_bit 1 ?m = push_bit (64 - j) ts"
    proof -
      have "1 + (64 - k) = 64 - j" using Nd.prems(5) k by simp
      then show ?thesis by (simp only: push_bit_push_bit)
    qed
    have loop: "search_path ts ?m p rst best bs h = (if \<not> bit ?m 63 then
        (if c0 \<noteq> Null then search_path ts (push_bit (64 - j) ts) c0 (if c1 \<noteq> Null then c1 else rst) best1 bs1 h
         else Some (Inr (if c1 \<noteq> Null then c1 else rst, best1, bs1)))
      else if c1 \<noteq> Null then search_path ts (push_bit (64 - j) ts) c1 rst best1 bs1 h
      else Some (Inr (rst, best1, bs1)))"
      using w p False cs unfolding search_path.simps [of ts ?m p] m
      by (simp add: ZEND_MM_FREE_BLOCK_SIZE_def blk_addr_def Let_def best1_def bs1_def word_le_nat_alt)
    have kl: "keyed ?s j (2 * pre) l" and kr: "keyed ?s j (2 * pre + 1) r" using Nd.prems(4) k by simp_all
    have sl: "\<forall>a\<in>set (heads l). ?s a div 2 ^ j = 2 * pre" and sr: "\<forall>a\<in>set (heads r). ?s a div 2 ^ j = 2 * pre + 1"
      using keyed_sides [of ?s j pre b ds l r] Nd.prems(4) k by simp_all
    have lr: "?s x < ?s y" if "x \<in> set (heads l)" "y \<in> set (heads r)" for x y by (rule div_less [of _ j]) (use sl sr that in simp)
    have bl: "\<forall>b\<in>set (blks l). \<exists>w. blk_size h b = Some w \<and> w \<noteq> - 1" and br: "\<forall>b\<in>set (blks r). \<exists>w. blk_size h b = Some w \<and> w \<noteq> - 1"
      using Nd.prems(6) by simp_all
    have j: "j < 64" "j < 63" using Nd.prems(5) k by simp_all
    show ?thesis
    proof (cases "bit ?m 63")
      case False
      then have nj: "?n div 2 ^ j = 2 * pre" using next_bit(2) [of ts j pre] Nd.prems(5,7) k by simp
      have right: "?n < ?s a" if "a \<in> set (heads r)" for a by (rule div_less [of _ j]) (use nj sr that in simp)
      have rt: "rest_tree h ?n c1 r" if "r \<noteq> Tip" using that sub(2) cs(2) kr right by (auto simp: rest_tree_def)
      let ?rst = "if c1 \<noteq> Null then c1 else rst"
      show ?thesis
      proof (cases "l = Tip")
        case True
        then have e: "search_path ts ?m p rst best bs h = Some (Inr (?rst, best1, bs1))" using loop False cs(3) by simp
        have "(\<forall>a\<in>set (heads (Nd b ds l r)). ?s a \<noteq> ?n)" using ne right True by fastforce
        moreover have "?rst = rst \<and> (\<forall>a\<in>set (heads (Nd b ds l r)) - {b}. ?s a < ?n) \<or>
          (\<exists>u. rest_tree h ?n ?rst u \<and> set (heads u) \<subseteq> set (heads (Nd b ds l r)) \<and>
           (\<forall>a\<in>set (heads (Nd b ds l r)) - {b} - set (heads u). ?n < ?s a \<longrightarrow> (\<forall>y\<in>set (heads u). ?s y \<le> ?s a)))"
          using True rt cs(4) by (cases "r = Tip") auto
        ultimately show ?thesis using e best1
          by (intro disjI2 exI [of _ ?rst] exI [of _ best1] exI [of _ bs1] exI [of _ "{b}"]) auto
      next
        case l: False
        have e: "search_path ts ?m p rst best bs h = search_path ts (push_bit (64 - j) ts) c0 ?rst best1 bs1 h"
          using loop False l cs(3) by simp
        have cross: "a \<in> set (heads r) \<Longrightarrow> y \<in> set (heads u) \<Longrightarrow> set (heads u) \<subseteq> set (heads l) \<Longrightarrow> ?s y \<le> ?s a" for a y u
          using lr by (meson less_imp_le subsetD)
        from Nd.IH(1) [OF sub(1) cs(1) l kl j(1) bl nj best1, of ?rst] show ?thesis
        proof (elim disjE exE conjE)
          fix rst' best' bs' P
          assume 1: "search_path ts (push_bit (64 - j) ts) c0 ?rst best1 bs1 h = Some (Inr (rst', best', bs'))"
            "P \<subseteq> set (heads l)" "best_of ?s ?n (insert b S \<union> P) best' bs'" "\<forall>a\<in>set (heads l). ?s a \<noteq> ?n" "rst' = ?rst"
            "\<forall>a\<in>set (heads l) - P. ?s a < ?n"
          have "\<forall>a\<in>set (heads (Nd b ds l r)). ?s a \<noteq> ?n" using ne right 1(4) by fastforce
          moreover have "rst' = rst \<and> (\<forall>a\<in>set (heads (Nd b ds l r)) - insert b P. ?s a < ?n) \<or>
            (\<exists>u. rest_tree h ?n rst' u \<and> set (heads u) \<subseteq> set (heads (Nd b ds l r)) \<and>
             (\<forall>a\<in>set (heads (Nd b ds l r)) - insert b P - set (heads u). ?n < ?s a \<longrightarrow> (\<forall>y\<in>set (heads u). ?s y \<le> ?s a)))"
          proof (cases "r = Tip")
            case True
            then show ?thesis using 1(5,6) cs(4) by auto
          next
            case rn: False
            then have "rst' = c1" using 1(5) cs(4) by simp
            moreover have "\<not> ?n < ?s a" if "a \<in> set (heads (Nd b ds l r)) - insert b P - set (heads r)" for a
            proof -
              have "a \<in> set (heads l) - P" using that by auto
              then have "?s a < ?n" using 1(6) by blast
              then show ?thesis by simp
            qed
            ultimately show ?thesis using rt [OF rn] by (intro disjI2 exI [of _ r]) auto
          qed
          ultimately show ?thesis using e 1(1-3)
            by (intro disjI2 exI [of _ rst'] exI [of _ best'] exI [of _ bs'] exI [of _ "insert b P"]) auto
        next
          fix rst' best' bs' P u
          assume 1: "search_path ts (push_bit (64 - j) ts) c0 ?rst best1 bs1 h = Some (Inr (rst', best', bs'))"
            "P \<subseteq> set (heads l)" "best_of ?s ?n (insert b S \<union> P) best' bs'" "\<forall>a\<in>set (heads l). ?s a \<noteq> ?n"
            "rest_tree h ?n rst' u" "set (heads u) \<subseteq> set (heads l)"
            "\<forall>a\<in>set (heads l) - P - set (heads u). ?n < ?s a \<longrightarrow> (\<forall>y\<in>set (heads u). ?s y \<le> ?s a)"
          have "\<forall>a\<in>set (heads (Nd b ds l r)). ?s a \<noteq> ?n" using ne right 1(4) by fastforce
          moreover have "\<forall>a\<in>set (heads (Nd b ds l r)) - insert b P - set (heads u). ?n < ?s a \<longrightarrow> (\<forall>y\<in>set (heads u). ?s y \<le> ?s a)"
            using 1(6,7) cross by auto
          ultimately show ?thesis using e 1(1-3,5,6)
            by (intro disjI2 exI [of _ rst'] exI [of _ best'] exI [of _ bs'] exI [of _ "insert b P"]) auto
        qed (use e in auto)
      qed
    next
      case True
      then have nj: "?n div 2 ^ j = 2 * pre + 1" using next_bit(1) [of ts j pre] Nd.prems(5,7) k by simp
      have left: "?s a < ?n" if "a \<in> set (heads l)" for a by (rule div_less [of _ j]) (use nj sl that in simp)
      show ?thesis
      proof (cases "r = Tip")
        case r: True
        then have e: "search_path ts ?m p rst best bs h = Some (Inr (rst, best1, bs1))" using loop True cs(4) by simp
        have "\<forall>a\<in>set (heads (Nd b ds l r)). ?s a \<noteq> ?n" "\<forall>a\<in>set (heads (Nd b ds l r)) - {b}. ?s a < ?n" using ne left r by fastforce+
        then show ?thesis using e best1
          by (intro disjI2 exI [of _ rst] exI [of _ best1] exI [of _ bs1] exI [of _ "{b}"]) auto
      next
        case r: False
        have e: "search_path ts ?m p rst best bs h = search_path ts (push_bit (64 - j) ts) c1 rst best1 bs1 h"
          using loop True r cs(4) by simp
        from Nd.IH(2) [OF sub(2) cs(2) r kr j(1) br nj best1, of rst] show ?thesis
        proof (elim disjE exE conjE)
          fix rst' best' bs' P
          assume 1: "search_path ts (push_bit (64 - j) ts) c1 rst best1 bs1 h = Some (Inr (rst', best', bs'))"
            "P \<subseteq> set (heads r)" "best_of ?s ?n (insert b S \<union> P) best' bs'" "\<forall>a\<in>set (heads r). ?s a \<noteq> ?n" "rst' = rst"
            "\<forall>a\<in>set (heads r) - P. ?s a < ?n"
          have "\<forall>a\<in>set (heads (Nd b ds l r)). ?s a \<noteq> ?n" "\<forall>a\<in>set (heads (Nd b ds l r)) - insert b P. ?s a < ?n" using ne left 1(4,6) by fastforce+
          then show ?thesis using e 1(1-3,5)
            by (intro disjI2 exI [of _ rst'] exI [of _ best'] exI [of _ bs'] exI [of _ "insert b P"]) auto
        next
          fix rst' best' bs' P u
          assume 1: "search_path ts (push_bit (64 - j) ts) c1 rst best1 bs1 h = Some (Inr (rst', best', bs'))"
            "P \<subseteq> set (heads r)" "best_of ?s ?n (insert b S \<union> P) best' bs'" "\<forall>a\<in>set (heads r). ?s a \<noteq> ?n"
            "rest_tree h ?n rst' u" "set (heads u) \<subseteq> set (heads r)"
            "\<forall>a\<in>set (heads r) - P - set (heads u). ?n < ?s a \<longrightarrow> (\<forall>y\<in>set (heads u). ?s y \<le> ?s a)"
          have "\<forall>a\<in>set (heads (Nd b ds l r)). ?s a \<noteq> ?n" using ne left 1(4) by fastforce
          moreover have "\<forall>a\<in>set (heads (Nd b ds l r)) - insert b P - set (heads u). ?n < ?s a \<longrightarrow> (\<forall>y\<in>set (heads u). ?s y \<le> ?s a)"
            using 1(7) left by fastforce
          ultimately show ?thesis using e 1(1-3,5,6)
            by (intro disjI2 exI [of _ rst'] exI [of _ best'] exI [of _ bs'] exI [of _ "insert b P"]) auto
        qed (use e in auto)
      qed
    qed
  qed
qed simp

subsection \<open>Down the smaller side\<close>

lemma side_below:
  assumes "keyed s k pre (Nd b ds l r)" and "y \<in> set (heads l)" and "x \<in> set (heads r)"
  shows "s y < s x"
proof -
  have "k \<noteq> 0" using assms by (intro notI) simp
  then obtain j where k: "k = Suc j" using not0_implies_Suc by blast
  have "s y div 2 ^ j = 2 * pre" by (rule bspec [OF keyed_sides(1) [OF assms(1) [unfolded k]] assms(2)])
  moreover have "s x div 2 ^ j = 2 * pre + 1" by (rule bspec [OF keyed_sides(2) [OF assms(1) [unfolded k]] assms(3)])
  ultimately have "s y div 2 ^ j < s x div 2 ^ j" by simp
  then show ?thesis by (rule div_less)
qed

lemma search_left:
  assumes "tri h c u" and "ftree h c = Some p" and "keyed (bsz h) k pre u" and "\<forall>a\<in>set (heads u). unat ts < bsz h a"
    and "\<forall>b\<in>set (heads u). \<exists>w. blk_size h b = Some w \<and> w \<noteq> - 1" and "best_of (bsz h) (unat ts) S best bs"
  shows "\<exists>best' bs'. search_left ts p best bs h = Some (Inr best') \<and> best_of (bsz h) (unat ts) (S \<union> set (heads u)) best' bs'"
  using assms
proof (induction u arbitrary: c p k pre best bs S)
  case Tip
  then show ?case by (subst search_left.simps) auto
next
  case (Nd b ds l r)
  let ?s = "bsz h" and ?n = "unat ts"
  have p: "p = Blk b" and sub: "tri h (Child b False) l" "tri h (Child b True) r" using Nd.prems(1,2) by auto
  obtain w where w: "blk_size h b = Some w" "w \<noteq> - 1" using Nd.prems(5) by auto
  have sb: "?s b = unat w" using w by (simp add: bsz_def)
  then have gt: "ts < w" "w \<noteq> ts" using Nd.prems(4) by (auto simp: word_less_nat_alt)
  define best1 bs1 where "best1 = (if ?n \<le> unat w \<and> w < bs then Blk b else best)" and "bs1 = (if ?n \<le> unat w \<and> w < bs then w else bs)"
  have best1: "best_of ?s ?n (insert b S) best1 bs1" unfolding best1_def bs1_def by (rule best_of_step [OF Nd.prems(6) sb w(2)])
  obtain c0 q where cs: "ftree h (Child b False) = Some c0" "(c0 = Null) = (l = Tip)" "ftree h (Child b (c0 = Null)) = Some q"
    using sub by (cases l; cases r) auto
  have loop: "search_left ts p best bs h = search_left ts q best1 bs1 h"
    using w p gt cs by (subst search_left.simps) (simp add: ZEND_MM_FREE_BLOCK_SIZE_def blk_addr_def Let_def best1_def bs1_def word_less_nat_alt)
  define u where "u = (if l = Tip then r else l)"
  have tu: "tri h (Child b (c0 = Null)) u" using sub cs(2) by (auto simp: u_def)
  have bu: "\<forall>b\<in>set (heads u). \<exists>w. blk_size h b = Some w \<and> w \<noteq> - 1" "\<forall>a\<in>set (heads u). ?n < ?s a"
    using Nd.prems(4,5) by (auto simp: u_def)
  have "\<exists>best' bs'. search_left ts q best1 bs1 h = Some (Inr best') \<and> best_of ?s ?n (insert b S \<union> set (heads u)) best' bs'"
  proof (cases "u = Tip")
    case True
    then have "q = Null" using tu cs(3) by simp
    then show ?thesis using best1 True by (subst search_left.simps) auto
  next
    case False
    then obtain j where k: "k = Suc j" using Nd.prems(3) by (cases k) (auto simp: u_def split: if_splits)
    then have "\<exists>q'. keyed ?s j q' u" using Nd.prems(3) by (auto simp: u_def)
    then obtain q' where "keyed ?s j q' u" ..
    show ?thesis
    proof (cases "l = Tip")
      case True
      then have "u = r" by (simp add: u_def)
      then show ?thesis using Nd.IH(2) [OF _ cs(3) _ _ _ best1, of j q'] tu bu \<open>keyed ?s j q' u\<close> by blast
    next
      case False
      then have "u = l" by (simp add: u_def)
      then show ?thesis using Nd.IH(1) [OF _ cs(3) _ _ _ best1, of j q'] tu bu \<open>keyed ?s j q' u\<close> by blast
    qed
  qed
  then obtain best' bs' where r: "search_left ts q best1 bs1 h = Some (Inr best')" "best_of ?s ?n (insert b S \<union> set (heads u)) best' bs'" by blast
  have "best_of ?s ?n (S \<union> set (heads (Nd b ds l r))) best' bs'"
  proof (cases l)
    case Tip
    then show ?thesis using r(2) by (simp add: u_def Un_commute)
  next
    case (Nd y ds' l' r')
    then have y: "y \<in> set (heads l)" "u = l" by (simp_all add: u_def)
    have "best_of ?s ?n ((insert b S \<union> set (heads u)) \<union> set (heads r)) best' bs'"
      by (rule best_of_more [OF r(2), of y]) (use y Nd.prems(4) side_below [OF Nd.prems(3) y(1)] in \<open>auto intro: less_imp_le\<close>)
    then show ?thesis using y(2) by (simp add: ac_simps)
  qed
  then show ?case using loop r(1) by auto
qed

lemma search_smallest:
  assumes "tri h c (Nd b ds l r)" and "keyed (bsz h) k pre (Nd b ds l r)" and "\<forall>b\<in>set (blks (Nd b ds l r)). blk_size h b \<noteq> None"
    and "y \<in> S" and "\<forall>x\<in>S. bsz h y \<le> bsz h x" and "b \<in> S" and "blk_size h y \<noteq> None" and "t = Nd b ds l r"
  shows "\<exists>y'\<in>S \<union> set (heads t). search_smallest (Blk b) (Blk y) h = Some (Blk y') \<and> (\<forall>x\<in>S \<union> set (heads t). bsz h y' \<le> bsz h x)"
  using assms
proof (induction t arbitrary: c b ds l r k pre y S)
  case (Nd b0 ds0 l0 r0)
  have e0: "b0 = b" "ds0 = ds" "l0 = l" "r0 = r" using Nd.prems(8) by simp_all
  note IH = Nd.IH [unfolded e0] and p = Nd.prems(1-7)
  let ?s = "bsz h"
  have sub: "tri h (Child b False) l" "tri h (Child b True) r" using p(1) by simp_all
  obtain c0 q where cs: "ftree h (Child b False) = Some c0" "(c0 = Null) = (l = Tip)" "ftree h (Child b (c0 = Null)) = Some q"
    using sub by (cases l; cases r) auto
  define u where "u = (if l = Tip then r else l)"
  have tu: "tri h (Child b (c0 = Null)) u" using sub cs(2) by (auto simp: u_def)
  have "\<exists>y'\<in>S \<union> set (heads u). search_smallest (Blk b) (Blk y) h = Some (Blk y') \<and> (\<forall>x\<in>S \<union> set (heads u). ?s y' \<le> ?s x)"
  proof (cases u)
    case Tip
    then have "q = Null" using tu cs(3) by simp
    then show ?thesis using Tip p(4,5) cs by (subst search_smallest.simps) (auto simp: blk_addr_def)
  next
    case (Nd b' ds' l' r')
    then have q: "q = Blk b'" using tu cs(3) by simp
    obtain j where k: "k = Suc j" using p(2) Nd by (cases k) (auto simp: u_def split: if_splits)
    then have "\<exists>q'. keyed ?s j q' u" using p(2) by (auto simp: u_def)
    then obtain q' where kq: "keyed ?s j q' u" ..
    obtain w where w: "blk_size h b' = Some w" using p(3) Nd by (auto simp: u_def split: if_splits)
    obtain v where v: "blk_size h y = Some v" using p(7) by auto
    let ?y = "if w < v then b' else y"
    have loop: "search_smallest (Blk b) (Blk y) h = search_smallest (Blk b') (Blk ?y) h"
      using cs q w v by (subst search_smallest.simps) (auto simp: blk_addr_def ZEND_MM_FREE_BLOCK_SIZE_def)
    have wv: "?s b' = unat w" "?s y = unat v" using w v by (simp_all add: bsz_def)
    have y: "?y \<in> insert b' S" "\<forall>x\<in>insert b' S. ?s ?y \<le> ?s x" "b' \<in> insert b' S" "blk_size h ?y \<noteq> None"
      using p(4,5) wv w v by (auto simp: word_less_nat_alt intro: order.trans less_imp_le)
    have bu: "\<forall>b\<in>set (blks u). blk_size h b \<noteq> None" using p(3) by (auto simp: u_def)
    have "\<exists>y'\<in>insert b' S \<union> set (heads u). search_smallest (Blk b') (Blk ?y) h = Some (Blk y') \<and> (\<forall>x\<in>insert b' S \<union> set (heads u). ?s y' \<le> ?s x)"
    proof (cases "l = Tip")
      case True
      then have "u = r" by (simp add: u_def)
      show ?thesis unfolding \<open>u = r\<close>
        by (rule IH(2) [OF tu [unfolded Nd] kq [unfolded Nd] bu [unfolded Nd] y]) (use Nd \<open>u = r\<close> in simp)
    next
      case False
      then have "u = l" by (simp add: u_def)
      show ?thesis unfolding \<open>u = l\<close>
        by (rule IH(1) [OF tu [unfolded Nd] kq [unfolded Nd] bu [unfolded Nd] y]) (use Nd \<open>u = l\<close> in simp)
    qed
    then show ?thesis using loop Nd by auto
  qed
  then obtain y' where y': "y' \<in> S \<union> set (heads u)" "search_smallest (Blk b) (Blk y) h = Some (Blk y')" "\<forall>x\<in>S \<union> set (heads u). ?s y' \<le> ?s x" by blast
  have "?s y' \<le> ?s x" if "x \<in> S \<union> set (heads (Nd b ds l r))" for x
  proof (cases "x \<in> S \<union> set (heads u)")
    case False
    then have x: "x \<in> set (heads r)" "l \<noteq> Tip" using that p(6) by (auto simp: u_def split: if_splits)
    then obtain z where z: "z \<in> set (heads l)" by (cases l) auto
    then have "?s z < ?s x" using side_below [OF p(2) z x(1)] by simp
    moreover have "?s y' \<le> ?s z" using y'(3) z x(2) by (simp add: u_def)
    ultimately show ?thesis by simp
  qed (use y'(3) in simp)
  moreover have "y' \<in> S \<union> set (heads (Nd b ds l r))" using y'(1) by (auto simp: u_def split: if_splits)
  ultimately show ?case using y'(2) unfolding e0 by blast
qed simp

subsection \<open>All trees and the rest list\<close>

text \<open>
  \<open>zend_mm_search_large_block\<close> over all the trees: the answer is \<open>NULL\<close> only if no block is large
  enough, and a block of the least sufficient size otherwise.
\<close>

definition large_blks :: "(nat \<Rightarrow> ftr) \<Rightarrow> nat set" where
  "large_blks tr = (\<Union>i<64. set (blks (tr i)))"

definition fits_best :: "(nat \<Rightarrow> nat) \<Rightarrow> nat \<Rightarrow> nat set \<Rightarrow> fblk \<Rightarrow> bool" where
  "fits_best s n T b \<longleftrightarrow> (b = Null \<and> (\<forall>x\<in>T. s x < n)) \<or>
     (\<exists>a\<in>T. b = Blk a \<and> n \<le> s a \<and> (\<forall>x\<in>T. n \<le> s x \<longrightarrow> s a \<le> s x))"

lemma tree_range: "tree h i t \<Longrightarrow> b \<in> set (blks t) \<Longrightarrow> 2 ^ i \<le> bsz h b \<and> bsz h b < 2 ^ Suc i"
proof -
  assume t: "tree h i t" "b \<in> set (blks t)"
  have q: "bsz h b div 2 ^ i = 1" using keyed_prefix [of "bsz h" i 1 t b] t by (simp add: tree_def)
  have "1 * 2 ^ i \<le> bsz h b" using div_times_less_eq_dividend [of "bsz h b" "2 ^ i"] unfolding q .
  moreover have "bsz h b < 2 ^ i * Suc (bsz h b div 2 ^ i)" using dividend_less_times_div [of "2 ^ i" "bsz h b"] by simp
  ultimately show ?thesis unfolding q by simp
qed

lemma tree_before:
  assumes "tree h i t" "b \<in> set (blks t)" and "tree h j u" "c \<in> set (blks u)" and "i < j"
  shows "bsz h b < bsz h c"
proof -
  have "bsz h b < 2 ^ Suc i" "2 ^ j \<le> bsz h c" using tree_range assms(1-4) by blast+
  moreover have "(2 :: nat) ^ Suc i \<le> 2 ^ j" using assms(5) by (intro power_increasing) simp_all
  ultimately show ?thesis by linarith
qed

lemma tree_heads: "tree h i t \<Longrightarrow> b \<in> set (blks t) \<Longrightarrow> \<exists>a\<in>set (heads t). bsz h a = bsz h b"
  using keyed_heads by (auto simp: tree_def)

lemma tree_next: "tree h i t \<Longrightarrow> a \<in> set (heads t) \<Longrightarrow> \<exists>b\<in>set (blks t). next_free h (Blk a) = Some (Blk b) \<and> bsz h b = bsz h a"
  using tri_next by (auto simp: tree_def)

lemma smallest_from:
  assumes l: "free_lists h bk rs tr" and bm: "drop_bit j (large_free_bitmap h) \<noteq> 0"
  shows "\<exists>a m. smallest_from j (drop_bit j (large_free_bitmap h)) h = Some (Blk a) \<and> j \<le> m \<and> m < 64 \<and> a \<in> set (blks (tr m)) \<and>
    (\<forall>k<64. j \<le> k \<longrightarrow> (\<forall>x\<in>set (blks (tr k)). bsz h a \<le> bsz h x))"
proof -
  obtain n where n: "zend_mm_low_bit (drop_bit j (large_free_bitmap h)) = Some n" "bit (drop_bit j (large_free_bitmap h)) n"
    "\<forall>i<n. \<not> bit (drop_bit j (large_free_bitmap h)) i" using low_bit [OF bm] by blast
  define m where "m = j + n"
  have m: "m < 64" using n(2) by (auto simp: m_def bit_simps dest: bit_imp_le_length)
  have t: "tree h i (tr i)" "bit (large_free_bitmap h) i \<longleftrightarrow> tr i \<noteq> Tip" if "i < 64" for i using l that by (simp_all add: free_lists_def)
  have "tr m \<noteq> Tip" using n(2) t(2) [OF m] by (simp add: m_def bit_simps)
  then obtain b ds u v where tm: "tr m = Nd b ds u v" by (cases "tr m") auto
  have tree: "tree h m (Nd b ds u v)" using t(1) [OF m] tm by simp
  then have parts: "tri h (Root m) (Nd b ds u v)" "keyed (bsz h) m 1 (Nd b ds u v)" "\<forall>x\<in>set (blks (Nd b ds u v)). blk_size h x \<noteq> None"
    by (auto simp: tree_def sized_def simp del: tri.simps keyed.simps)
  have "\<exists>y'\<in>{b} \<union> set (heads (Nd b ds u v)). search_smallest (Blk b) (Blk b) h = Some (Blk y') \<and> (\<forall>x\<in>{b} \<union> set (heads (Nd b ds u v)). bsz h y' \<le> bsz h x)"
    by (rule search_smallest [OF parts]) (use parts(3) in auto)
  then obtain y where y: "y \<in> set (heads (tr m))" "search_smallest (Blk b) (Blk b) h = Some (Blk y)" "\<forall>x\<in>set (heads (tr m)). bsz h y \<le> bsz h x"
    using tm by auto
  obtain a where a: "a \<in> set (blks (tr m))" "next_free h (Blk y) = Some (Blk a)" "bsz h a = bsz h y" using tree_next [OF t(1) [OF m] y(1)] by blast
  have "ftree h (Root m) = Some (Blk b)" using parts(1) by simp
  then have "smallest_from j (drop_bit j (large_free_bitmap h)) h = Some (Blk a)"
    using n(1) y(2) a(2) by (simp add: smallest_from_def m_def)
  moreover have "bsz h a \<le> bsz h x" if k: "k < 64" "j \<le> k" "x \<in> set (blks (tr k))" for k x
  proof -
    have "\<not> k < m"
    proof
      assume "k < m"
      then have "\<not> bit (drop_bit j (large_free_bitmap h)) (k - j)" using n(3) k(2) by (auto simp: m_def)
      then have "tr k = Tip" using t(2) [OF k(1)] k(2) by (simp add: bit_simps)
      then show False using k(3) by simp
    qed
    then consider "k = m" | "m < k" by linarith
    then show ?thesis
    proof cases
      case 1
      then obtain z where "z \<in> set (heads (tr m))" "bsz h z = bsz h x" using tree_heads [OF t(1) [OF m]] k(3) by blast
      then show ?thesis using y(3) a(3) by auto
    next
      case 2
      then show ?thesis using tree_before [OF t(1) [OF m] a(1) t(1) [OF k(1)] k(3)] by simp
    qed
  qed
  ultimately show ?thesis using a(1) m by (intro exI [of _ a] exI [of _ m]) (simp add: m_def)
qed

text \<open>The tree of the size's own root.\<close>

lemma left_done:
  assumes t: "tree h i u" and b: "best_of (bsz h) n (set (heads u)) bf bs"
  shows "bf = Null \<and> (\<forall>x\<in>set (blks u). bsz h x < n) \<or>
    bf \<noteq> Null \<and> (\<exists>b. next_free h bf = Some b \<and> b \<noteq> Null \<and> fits_best (bsz h) n (set (blks u)) b)"
proof (cases "bf = Null")
  case True
  then have "\<forall>a\<in>set (heads u). bsz h a < n" using b by (auto simp: best_of_def)
  then have "\<forall>x\<in>set (blks u). bsz h x < n" using tree_heads [OF t] by metis
  then show ?thesis using True by simp
next
  case False
  then obtain a where a: "a \<in> set (heads u)" "bf = Blk a" "n \<le> bsz h a" "\<forall>y\<in>set (heads u). n \<le> bsz h y \<longrightarrow> bsz h a \<le> bsz h y"
    using b by (auto simp: best_of_def)
  obtain b where b: "b \<in> set (blks u)" "next_free h (Blk a) = Some (Blk b)" "bsz h b = bsz h a" using tree_next [OF t a(1)] by blast
  have "n \<le> bsz h x \<Longrightarrow> bsz h b \<le> bsz h x" if "x \<in> set (blks u)" for x using tree_heads [OF t that] a(4) b(3) by metis
  then have "fits_best (bsz h) n (set (blks u)) (Blk b)" using a(3) b(1,3) by (auto simp: fits_best_def)
  then show ?thesis using a(2) b(2) by simp
qed

lemma search_root:
  assumes t: "tree h i u" "u \<noteq> Tip" "i < 64" and n: "unat ts div 2 ^ i = 1"
    and root: "ftree h (Root i) = Some p"
  shows "\<exists>r. search_path ts (push_bit (64 - i) ts) p Null Null (- 1) h = Some r \<and>
    (case r of Inl b \<Rightarrow> b \<noteq> Null \<and> fits_best (bsz h) (unat ts) (set (blks u)) b
     | Inr (rst, bf, bs) \<Rightarrow> \<exists>r'. search_left ts rst bf bs h = Some (Inr r') \<and>
         (r' = Null \<and> (\<forall>x\<in>set (blks u). bsz h x < unat ts) \<or>
          r' \<noteq> Null \<and> (\<exists>b. next_free h r' = Some b \<and> b \<noteq> Null \<and> fits_best (bsz h) (unat ts) (set (blks u)) b)))"
proof -
  let ?s = "bsz h" and ?n = "unat ts"
  have tri: "tri h (Root i) u" "keyed ?s i 1 u" using t(1) by (simp_all add: tree_def)
  have ok: "\<forall>b\<in>set (blks u). \<exists>w. blk_size h b = Some w \<and> w \<noteq> - 1"
  proof
    fix b assume "b \<in> set (blks u)"
    then obtain w where w: "blk_size h b = Some w" "8 dvd unat w" using t(1) by (auto simp: tree_def sized_def)
    moreover have "w \<noteq> - 1" using w(2) by (auto simp: low_bits)
    ultimately show "\<exists>w. blk_size h b = Some w \<and> w \<noteq> - 1" by blast
  qed
  have start: "best_of ?s ?n {} Null (- 1)" by (simp add: best_of_def)
  note sp = search_path [OF tri(1) root t(2) tri(2) t(3) ok n start, of Null]
  from sp show ?thesis
  proof (elim disjE exE conjE bexE)
    fix a b
    assume a: "a \<in> set (heads u)" "?s a = ?n" "next_free h (Blk a) = Some b" "search_path ts (push_bit (64 - i) ts) p Null Null (- 1) h = Some (Inl b)"
    obtain b' where "b' \<in> set (blks u)" "b = Blk b'" "?s b' = ?n" using tree_next [OF t(1) a(1)] a(2,3) by auto
    then show ?thesis using a(4) by (auto simp: fits_best_def)
  next
    fix rst bf bs P
    assume 1: "search_path ts (push_bit (64 - i) ts) p Null Null (- 1) h = Some (Inr (rst, bf, bs))" "P \<subseteq> set (heads u)"
      "best_of ?s ?n ({} \<union> P) bf bs" "\<forall>a\<in>set (heads u). ?s a \<noteq> ?n" "rst = Null" "\<forall>a\<in>set (heads u) - P. ?s a < ?n"
    have "search_left ts rst bf bs h = Some (Inr bf)" using 1(5) by (subst search_left.simps) simp
    moreover have "best_of ?s ?n (P \<union> (set (heads u) - P)) bf bs" by (rule best_of_less) (use 1 in simp_all)
    then have "best_of ?s ?n (set (heads u)) bf bs" using 1(2) by (simp add: Un_absorb1)
    note left_done [OF t(1) this]
    ultimately show ?thesis using 1(1) by auto
  next
    fix rst bf bs P u'
    assume 1: "search_path ts (push_bit (64 - i) ts) p Null Null (- 1) h = Some (Inr (rst, bf, bs))" "P \<subseteq> set (heads u)"
      "best_of ?s ?n ({} \<union> P) bf bs" "\<forall>a\<in>set (heads u). ?s a \<noteq> ?n" "rest_tree h ?n rst u'" "set (heads u') \<subseteq> set (heads u)"
      "\<forall>a\<in>set (heads u) - P - set (heads u'). ?n < ?s a \<longrightarrow> (\<forall>y\<in>set (heads u'). ?s y \<le> ?s a)"
    obtain c j q where u': "tri h c u'" "ftree h c = Some rst" "keyed ?s j q u'" "u' \<noteq> Tip" "\<forall>a\<in>set (heads u'). ?n < ?s a"
      using 1(5) unfolding rest_tree_def by blast
    have "\<forall>b\<in>set (heads u'). \<exists>w. blk_size h b = Some w \<and> w \<noteq> - 1" using ok 1(6) set_heads [of u] by blast
    moreover have "best_of ?s ?n P bf bs" using 1(3) by simp
    ultimately obtain bf' bs' where sl: "search_left ts rst bf bs h = Some (Inr bf')" "best_of ?s ?n (P \<union> set (heads u')) bf' bs'"
      using search_left [OF u'(1-3,5)] by blast
    let ?A = "{a \<in> set (heads u) - P - set (heads u'). ?n < ?s a}" and ?B = "{a \<in> set (heads u). ?s a < ?n}"
    obtain y where y: "y \<in> set (heads u')" using u'(4) by (cases u') auto
    have "best_of ?s ?n ((P \<union> set (heads u')) \<union> ?A) bf' bs'"
      by (rule best_of_more [OF sl(2), of y]) (use y u'(5) 1(7) in \<open>auto intro: less_imp_le\<close>)
    then have "best_of ?s ?n (((P \<union> set (heads u')) \<union> ?A) \<union> ?B) bf' bs'" by (rule best_of_less) simp
    moreover have "((P \<union> set (heads u')) \<union> ?A) \<union> ?B = set (heads u)" using 1(2,4,6) by auto
    ultimately have "best_of ?s ?n (set (heads u)) bf' bs'" by simp
    note left_done [OF t(1) this]
    then show ?thesis using 1(1) sl(1) by auto
  qed
qed

theorem search_large_block:
  assumes l: "free_lists h bk rs tr" and n: "ts \<noteq> 0"
  shows "\<exists>b. zend_mm_search_large_block ts h = Some b \<and> fits_best (bsz h) (unat ts) (large_blks tr) b"
proof -
  let ?s = "bsz h" and ?n = "unat ts"
  define i where "i = ZEND_MM_LARGE_BUCKET_INDEX ts"
  have i: "i < 64" "?n div 2 ^ i = 1" using high_bit [OF n] by (simp_all add: i_def ZEND_MM_LARGE_BUCKET_INDEX_def)
  have lo: "2 ^ i \<le> ?n" using div_times_less_eq_dividend [of ?n "2 ^ i"] unfolding i(2) by simp
  have hi: "?n < 2 ^ Suc i" using dividend_less_times_div [of "2 ^ i" ?n] unfolding i(2) by simp
  have t: "tree h j (tr j)" "bit (large_free_bitmap h) j \<longleftrightarrow> tr j \<noteq> Tip" if "j < 64" for j using l that by (simp_all add: free_lists_def)
  have below: "?s x < ?n" if "j < i" "x \<in> set (blks (tr j))" for j x
  proof -
    have "?s x < 2 ^ Suc j" using tree_range [OF t(1) that(2)] i(1) that(1) by simp
    moreover have "(2 :: nat) ^ Suc j \<le> 2 ^ i" using that(1) by (intro power_increasing) simp_all
    ultimately show ?thesis using lo by linarith
  qed
  have above: "?n < ?s x" if "j < 64" "i < j" "x \<in> set (blks (tr j))" for j x
  proof -
    have "2 ^ j \<le> ?s x" using tree_range [OF t(1) that(3)] that(1) by simp
    moreover have "(2 :: nat) ^ Suc i \<le> 2 ^ j" using that(2) by (intro power_increasing) simp_all
    ultimately show ?thesis using hi by linarith
  qed
  have none: "tr k = Tip" if "drop_bit j (large_free_bitmap h) = 0" "j \<le> k" "k < 64" for j k
  proof -
    have "\<not> bit (drop_bit j (large_free_bitmap h)) (k - j)" using that(1) by simp
    then show ?thesis using t(2) [OF that(3)] that(2) by (simp add: bit_simps)
  qed
  text \<open>The roots above, once all that came before is too small.\<close>
  have later: "\<exists>b. smallest_from j (drop_bit j (large_free_bitmap h)) h = Some b \<and> fits_best ?s ?n (large_blks tr) b"
    if j: "drop_bit j (large_free_bitmap h) \<noteq> 0" "i \<le> j" "\<forall>k<64. k < j \<longrightarrow> (\<forall>x\<in>set (blks (tr k)). ?s x < ?n)"
      "j = i \<longrightarrow> tr i = Tip" for j
  proof -
    obtain a m where a: "smallest_from j (drop_bit j (large_free_bitmap h)) h = Some (Blk a)" "j \<le> m" "m < 64" "a \<in> set (blks (tr m))"
      "\<forall>k<64. j \<le> k \<longrightarrow> (\<forall>x\<in>set (blks (tr k)). ?s a \<le> ?s x)" using smallest_from [OF l j(1)] by blast
    have "i < m"
    proof (rule ccontr)
      assume "\<not> i < m"
      then have "m = i" "j = i" using a(2) j(2) by simp_all
      then show False using j(4) a(4) by simp
    qed
    then have "?n < ?s a" using above a(3,4) by blast
    moreover have "?n \<le> ?s x \<longrightarrow> ?s a \<le> ?s x" if x: "x \<in> large_blks tr" for x
    proof -
      obtain k where k: "k < 64" "x \<in> set (blks (tr k))" using x by (auto simp: large_blks_def)
      show ?thesis
      proof (cases "k < j")
        case True
        then have "?s x < ?n" using j(3) k by blast
        then show ?thesis by simp
      next
        case False
        then have "?s a \<le> ?s x" using a(5) k by (simp add: not_less)
        then show ?thesis ..
      qed
    qed
    moreover have "a \<in> large_blks tr" using a(3,4) by (auto simp: large_blks_def)
    ultimately have "fits_best ?s ?n (large_blks tr) (Blk a)" by (auto simp: fits_best_def)
    then show ?thesis using a(1) by blast
  qed
  have null: "fits_best ?s ?n (large_blks tr) Null" if "\<forall>k<64. \<forall>x\<in>set (blks (tr k)). ?s x < ?n"
    using that by (auto simp: fits_best_def large_blks_def)
  let ?bm = "drop_bit i (large_free_bitmap h)"
  consider "?bm = 0" | "?bm \<noteq> 0" "\<not> bit ?bm 0" | "?bm \<noteq> 0" "bit ?bm 0" by blast
  then show ?thesis
  proof cases
    case 1
    then have "zend_mm_search_large_block ts h = Some Null" by (simp add: zend_mm_search_large_block_def flip: i_def)
    moreover have "?s x < ?n" if "k < 64" "x \<in> set (blks (tr k))" for k x
      using none [OF 1 _ that(1)] below [of k x] that(2) by (cases "k < i") (auto simp: not_less)
    ultimately show ?thesis using null by blast
  next
    case 2
    then have "tr i = Tip" using t(2) [OF i(1)] by (simp add: bit_simps)
    moreover have "zend_mm_search_large_block ts h = smallest_from i ?bm h"
      using 2 by (simp add: zend_mm_search_large_block_def flip: i_def)
    ultimately show ?thesis using later [OF 2(1)] below by auto
  next
    case 3
    then have ne: "tr i \<noteq> Tip" using t(2) [OF i(1)] by (simp add: bit_simps)
    then obtain p where p: "ftree h (Root i) = Some p" using t(1) [OF i(1)] by (cases "tr i") (auto simp: tree_def)
    have db: "drop_bit 1 ?bm = drop_bit (i + 1) (large_free_bitmap h)" by (simp add: drop_bit_drop_bit add.commute)
    obtain r where r: "search_path ts (push_bit (64 - i) ts) p Null Null (- 1) h = Some r"
      "case r of Inl b \<Rightarrow> b \<noteq> Null \<and> fits_best ?s ?n (set (blks (tr i))) b
       | Inr (rst, bf, bs) \<Rightarrow> \<exists>r'. search_left ts rst bf bs h = Some (Inr r') \<and>
         (r' = Null \<and> (\<forall>x\<in>set (blks (tr i)). ?s x < ?n) \<or>
          r' \<noteq> Null \<and> (\<exists>b. next_free h r' = Some b \<and> b \<noteq> Null \<and> fits_best ?s ?n (set (blks (tr i))) b))"
      using search_root [OF t(1) [OF i(1)] ne i p] by blast
    text \<open>A block of the own tree is smaller than all in the trees above.\<close>
    have lift: "fits_best ?s ?n (large_blks tr) b" if b: "fits_best ?s ?n (set (blks (tr i))) b" "b \<noteq> Null" for b
    proof -
      obtain a where a: "b = Blk a" "a \<in> set (blks (tr i))" "?n \<le> ?s a" "\<forall>x\<in>set (blks (tr i)). ?n \<le> ?s x \<longrightarrow> ?s a \<le> ?s x"
        using b by (auto simp: fits_best_def)
      have "?n \<le> ?s x \<longrightarrow> ?s a \<le> ?s x" if x: "k < 64" "x \<in> set (blks (tr k))" for k x
      proof (cases k i rule: linorder_cases)
        case less
        then show ?thesis using below [OF less x(2)] by simp
      next
        case equal
        then show ?thesis using a(4) x(2) by simp
      next
        case greater
        then show ?thesis using tree_before [OF t(1) [OF i(1)] a(2) t(1) [OF x(1)] x(2)] by simp
      qed
      then show ?thesis using a i(1) by (auto simp: fits_best_def large_blks_def)
    qed
    have step: "zend_mm_search_large_block ts h = (case r of Inl b \<Rightarrow> Some b
           | Inr (rst, bf, bs) \<Rightarrow> do {
               r \<leftarrow> search_left ts rst bf bs h;
               (case r of Inl b \<Rightarrow> Some b
                | Inr bf \<Rightarrow>
                    if bf \<noteq> Null then next_free h bf
                    else let bitmap = drop_bit 1 ?bm
                      in if bitmap = 0 then Some Null else smallest_from (i + 1) bitmap h)
             })"
      using 3 p r(1) by (simp add: zend_mm_search_large_block_def ZEND_MM_NUM_BUCKETS_def flip: i_def)
    show ?thesis
    proof (cases r)
      case (Inl b)
      then have "fits_best ?s ?n (large_blks tr) b" using r(2) lift by simp
      then show ?thesis using step Inl by simp
    next
      case (Inr q)
      obtain rst bf bs where q: "q = (rst, bf, bs)" by (cases q) auto
      then obtain r' where r': "search_left ts rst bf bs h = Some (Inr r')"
        "r' = Null \<and> (\<forall>x\<in>set (blks (tr i)). ?s x < ?n) \<or>
          r' \<noteq> Null \<and> (\<exists>b. next_free h r' = Some b \<and> b \<noteq> Null \<and> fits_best ?s ?n (set (blks (tr i))) b)"
        using r(2) Inr by auto
      from r'(2) show ?thesis
      proof (elim disjE conjE exE)
        fix b assume "r' \<noteq> Null" "next_free h r' = Some b" "b \<noteq> Null" "fits_best ?s ?n (set (blks (tr i))) b"
        then show ?thesis using lift step Inr q r'(1) by simp
      next
        assume small: "r' = Null" "\<forall>x\<in>set (blks (tr i)). ?s x < ?n"
        have upto: "\<forall>k<64. k < i + 1 \<longrightarrow> (\<forall>x\<in>set (blks (tr k)). ?s x < ?n)" using below small(2) by (auto simp: less_Suc_eq)
        show ?thesis
        proof (cases "drop_bit (i + 1) (large_free_bitmap h) = 0")
          case True
          then have "?s x < ?n" if "k < 64" "x \<in> set (blks (tr k))" for k x
            using none [OF True _ that(1)] upto that by (cases "k < i + 1") (auto simp: not_less)
          then show ?thesis using null step Inr q r'(1) small(1) True unfolding db by (simp add: Let_def)
        next
          case False
          then show ?thesis using later [OF False _ upto] step Inr q r'(1) small(1) unfolding db by (simp add: Let_def)
        qed
      qed
    qed
  qed
qed

subsection \<open>The rest list\<close>

lemma ring_back: "blk_ring pv nx (y # xs @ z # zs) \<Longrightarrow> pv z = Some (last (y # xs))"
  using linked_append [of pv nx "y # xs" z "zs @ [y]"] linked_snoc [of "y # xs" pv nx z] by (simp add: blk_ring_def)

lemma search_rest_from:
  assumes "blk_ring (prev_free h) (next_free h) (Rest # map Blk (us @ vs))" and "\<forall>a\<in>set (us @ vs). sized h a"
    and "best_of (bsz h) (unat ts) (set vs) best bs"
  shows "\<exists>b. search_rest ts (last (Rest # map Blk us)) best bs h = Some b \<and> fits_best (bsz h) (unat ts) (set (us @ vs)) b"
  using assms
proof (induction us arbitrary: vs best bs rule: rev_induct)
  case Nil
  then have "fits_best (bsz h) (unat ts) (set vs) best" by (auto simp: best_of_def fits_best_def)
  then show ?case by (subst search_rest.simps) simp
next
  case (snoc x us)
  obtain w where w: "blk_size h x = Some w" "unat w = bsz h x" "8 dvd unat w" using sized_bsz snoc.prems(2) by fastforce
  have m1: "w \<noteq> - 1" using w(3) by (auto simp: low_bits)
  have pv: "prev_free h (Blk x) = Some (last (Rest # map Blk us))"
    using ring_back [of _ _ Rest "map Blk us" "Blk x" "map Blk vs"] snoc.prems(1) by simp
  show ?case
  proof (cases "w = ts")
    case True
    then have "search_rest ts (last (Rest # map Blk (us @ [x]))) best bs h = Some (Blk x)"
      using w(1) by (subst search_rest.simps) (simp add: ZEND_MM_FREE_BLOCK_SIZE_def blk_addr_def)
    moreover have "fits_best (bsz h) (unat ts) (set ((us @ [x]) @ vs)) (Blk x)" using True w(2) by (simp add: fits_best_def)
    ultimately show ?thesis by blast
  next
    case False
    let ?better = "unat ts \<le> unat w \<and> w < bs"
    have "search_rest ts (last (Rest # map Blk (us @ [x]))) best bs h =
        search_rest ts (last (Rest # map Blk us)) (if ?better then Blk x else best) (if ?better then w else bs) h"
      using w(1) False pv by (subst search_rest.simps) (auto simp: ZEND_MM_FREE_BLOCK_SIZE_def blk_addr_def word_less_nat_alt le_less word_unat_eq_iff)
    moreover have "best_of (bsz h) (unat ts) (set (x # vs)) (if ?better then Blk x else best) (if ?better then w else bs)"
      using best_of_step [OF snoc.prems(3) w(2) [symmetric] m1] by simp
    then have "\<exists>b. search_rest ts (last (Rest # map Blk us)) (if ?better then Blk x else best) (if ?better then w else bs) h = Some b \<and>
        fits_best (bsz h) (unat ts) (set (us @ x # vs)) b"
      by (intro snoc.IH) (use snoc.prems in simp_all)
    ultimately show ?thesis by simp
  qed
qed

lemma search_rest:
  assumes "free_lists h bk rs tr"
  shows "\<exists>p b. prev_free h Rest = Some p \<and> search_rest ts p Null (- 1) h = Some b \<and> fits_best (bsz h) (unat ts) (set rs) b"
proof -
  have r: "blk_ring (prev_free h) (next_free h) (Rest # map Blk rs)" "\<forall>a\<in>set rs. sized h a" using assms by (simp_all add: free_lists_def rest_list_def)
  have "best_of (bsz h) (unat ts) (set []) Null (- 1)" by (simp add: best_of_def)
  then show ?thesis using search_rest_from [of h rs "[]"] r ring_prev [OF r(1)] by simp
qed

subsection \<open>The set of free blocks\<close>

lemma free_ok_sized: "free_ok h F \<Longrightarrow> a \<in> F \<Longrightarrow> sized h a"
  using lists_sized by (auto simp: free_ok_def)

lemma free_ok_add:
  assumes "free_ok h F" and "a \<notin> F" and "sized h a"
  obtains h' where "zend_mm_add_to_free_list a h = Some h'" "free_ok h' (insert a F)" "links_frame (insert a F) h h'"
proof -
  obtain bk rs tr where l: "free_lists h bk rs tr" "free_blks bk rs tr = F" using assms(1) by (auto simp: free_ok_def)
  from add_to_free_list [OF l(1) _ assms(3)] assms(2) that show ?thesis unfolding free_ok_def l(2) by metis
qed

lemma free_ok_remove:
  assumes "free_ok h F" and "a \<in> F"
  obtains h' where "zend_mm_remove_from_free_list a h = Some h'" "free_ok h' (F - {a})" "links_frame F h h'"
proof -
  obtain bk rs tr where l: "free_lists h bk rs tr" "free_blks bk rs tr = F" using assms(1) by (auto simp: free_ok_def)
  from remove_from_free_list [OF l(1)] assms(2) that show ?thesis unfolding free_ok_def l(2) by metis
qed

lemma free_ok_add_rest:
  assumes "free_ok h F" and "a \<notin> F" and "sized h a"
  obtains h' where "zend_mm_add_to_rest_list a h = Some h'" "free_ok h' (insert a F)" "links_frame (insert a F) h h'"
proof -
  obtain bk rs tr where l: "free_lists h bk rs tr" "free_blks bk rs tr = F" using assms(1) by (auto simp: free_ok_def)
  from add_to_rest_list [OF l(1) _ assms(3)] assms(2) that show ?thesis unfolding free_ok_def l(2) by metis
qed

lemma free_ok_search:
  assumes "free_ok h F" and "ts \<noteq> 0"
  obtains b where "zend_mm_search_large_block ts h = Some b" "b = Null \<or> (\<exists>a\<in>F. b = Blk a \<and> unat ts \<le> bsz h a)"
proof -
  obtain bk rs tr where l: "free_lists h bk rs tr" "free_blks bk rs tr = F" using assms(1) by (auto simp: free_ok_def)
  obtain b where b: "zend_mm_search_large_block ts h = Some b" "fits_best (bsz h) (unat ts) (large_blks tr) b"
    using search_large_block [OF l(1) assms(2)] by blast
  have "large_blks tr \<subseteq> F" using l(2) by (auto simp: large_blks_def free_blks_def)
  then show ?thesis using b that by (auto simp: fits_best_def)
qed

lemma free_ok_search_rest:
  assumes "free_ok h F"
  obtains p b where "prev_free h Rest = Some p" "search_rest ts p Null (- 1) h = Some b" "b = Null \<or> (\<exists>a\<in>F. b = Blk a \<and> unat ts \<le> bsz h a)"
proof -
  obtain bk rs tr where l: "free_lists h bk rs tr" "free_blks bk rs tr = F" using assms(1) by (auto simp: free_ok_def)
  have "set rs \<subseteq> F" using l(2) by (auto simp: free_blks_def)
  then show ?thesis using search_rest [OF l(1), of ts] that by (fastforce simp: fits_best_def)
qed

lemma free_ok_bucket:
  assumes "free_ok h F" and bm: "drop_bit i (free_bitmap h) \<noteq> 0"
  obtains n a where "zend_mm_low_bit (drop_bit i (free_bitmap h)) = Some n" "prev_free h (Small (i + n)) = Some (Blk a)" "a \<in> F"
    "8 * (i + 4) \<le> bsz h a"
proof -
  obtain bk rs tr where l: "free_lists h bk rs tr" "free_blks bk rs tr = F" using assms(1) by (auto simp: free_ok_def)
  obtain n where n: "zend_mm_low_bit (drop_bit i (free_bitmap h)) = Some n" "bit (drop_bit i (free_bitmap h)) n" using low_bit [OF bm] by blast
  have i: "i + n < 64" "bit (free_bitmap h) (i + n)" using n(2) by (auto simp: bit_simps dest: bit_imp_le_length)
  then have b: "small_bucket h (i + n) (bk (i + n))" "bk (i + n) \<noteq> []" using l(1) by (auto simp: free_lists_def)
  define a where "a = last (bk (i + n))"
  have a: "a \<in> set (bk (i + n))" using b(2) by (simp add: a_def)
  have "blk_ring (prev_free h) (next_free h) (Small (i + n) # map Blk (bk (i + n)))" using b(1) by (simp add: small_bucket_def)
  from ring_prev [OF this] have "prev_free h (Small (i + n)) = Some (Blk a)" using b(2) by (simp add: a_def last_map)
  moreover have "a \<in> F" using a i(1) l(2) by (auto simp: in_free_blks)
  moreover have "8 * (i + 4) \<le> bsz h a" using b(1) a by (simp add: small_bucket_def)
  ultimately show ?thesis using that n(1) by blast
qed

text \<open>Free blocks stay free where the heap changes elsewhere.\<close>

lemma free_ok_cong:
  assumes "free_ok h F" and "\<forall>a\<in>F. blk_size h' a = blk_size h a" and "\<forall>x. (\<forall>a. x = Blk a \<longrightarrow> a \<in> F) \<longrightarrow> prev_free h' x = prev_free h x"
    and "next_free h' = next_free h" "parent h' = parent h" "ftree h' = ftree h"
    and "free_bitmap h' = free_bitmap h" "large_free_bitmap h' = large_free_bitmap h" "rest_count h' = rest_count h"
  shows "free_ok h' F"
proof -
  obtain bk rs tr where l: "free_lists h bk rs tr" "free_blks bk rs tr = F" using assms(1) by (auto simp: free_ok_def)
  have s: "sized h' a = sized h a" "bsz h' a = bsz h a" "prev_free h' (Blk a) = prev_free h (Blk a)" if "a \<in> F" for a
    using assms(2,3) that by (simp_all add: sized_def bsz_def)
  have heads: "prev_free h' (Small i) = prev_free h (Small i)" "prev_free h' Rest = prev_free h Rest" for i using assms(3) by simp_all
  have "small_bucket h' i (bk i)" if i: "i < 64" for i
  proof -
    have f: "\<forall>a\<in>set (bk i). a \<in> F" using i l(2) by (auto simp: in_free_blks)
    then have "\<forall>x\<in>set (Small i # map Blk (bk i)). prev_free h' x = prev_free h x" using heads s(3) by simp
    note ring_cong [of "prev_free h" "next_free h" _ "next_free h'", OF _ _ this]
    then have "blk_ring (prev_free h') (next_free h') (Small i # map Blk (bk i))" using l(1) i assms(4) by (simp add: free_lists_def small_bucket_def)
    then show ?thesis using f l(1) i s by (simp add: free_lists_def small_bucket_def)
  qed
  moreover have rs: "\<forall>a\<in>set rs. a \<in> F" using l(2) by (auto simp: in_free_blks)
  have "rest_list h' rs"
  proof -
    have "\<forall>x\<in>set (Rest # map Blk rs). prev_free h' x = prev_free h x" using heads s(3) rs by simp
    note ring_cong [of "prev_free h" "next_free h" _ "next_free h'", OF _ _ this]
    then have "blk_ring (prev_free h') (next_free h') (Rest # map Blk rs)" using l(1) assms(4) by (simp add: free_lists_def rest_list_def)
    then show ?thesis using rs l(1) s assms(5) by (simp add: free_lists_def rest_list_def)
  qed
  moreover have "large_count h' rs = large_count h rs" using rs s by (simp add: large_count_def cong: filter_cong)
  moreover have "tree h' i (tr i)" if i: "i < 64" for i
  proof -
    have t: "tree h i (tr i)" using l(1) i by (simp add: free_lists_def)
    have f: "\<forall>a\<in>set (blks (tr i)). a \<in> F" using i l(2) by (auto simp: in_free_blks)
    have "tri h' (Root i) (tr i)" by (rule tri_cong [of h]) (use t f s assms(4-6) in \<open>simp_all add: tree_def\<close>)
    moreover have "keyed (bsz h') i 1 (tr i)" by (rule keyed_cong [of "bsz h"]) (use t f s in \<open>simp_all add: tree_def\<close>)
    ultimately show ?thesis using t f s by (simp add: tree_def)
  qed
  ultimately have "free_lists h' bk rs tr" using l(1) assms(7-9) by (simp add: free_lists_def)
  then show ?thesis using l(2) by (auto simp: free_ok_def)
qed

lemma free_ok_init:
  "free_ok (zend_mm_init h) {}"
proof -
  have "free_lists (zend_mm_init h) (\<lambda>_. []) [] (\<lambda>_. Tip)"
    by (simp add: free_lists_def small_bucket_def rest_list_def tree_def ring_singleton zend_mm_init_def ZEND_MM_NUM_BUCKETS_def large_count_def)
  moreover have "free_blks (\<lambda>_. []) [] (\<lambda>_. Tip) = {}" by (simp add: free_blks_def)
  ultimately show ?thesis unfolding free_ok_def by blast
qed

end
