(* ===== verification/Zend_Mm_Heap.thy ===== *)
theory Zend_Mm_Heap
  imports Zend_Mm_Search
begin

text \<open>
  The invariant of the heap manager. First how segments are divided into blocks: a segment is its address, its size and its blocks from the first to
  the one before the guard; a block is its size and whether it is in use. The block headers \<open>_size\<close> and
  \<open>_prev\<close> of neighbours agree. A segment with a hole is one of which some blocks are being rewritten.
\<close>

subsection \<open>Blocks in a row\<close>

type_synonym blocks = "(ulong \<times> bool) list"

definition type_of :: "bool \<Rightarrow> ulong" where
  "type_of u = (if u then ZEND_MM_USED_BLOCK else ZEND_MM_FREE_BLOCK)"

definition hdr :: "ulong \<Rightarrow> bool \<Rightarrow> ulong" where
  "hdr w u = type_of u OR w"

definition proper :: "ulong \<Rightarrow> bool" where
  "proper w \<longleftrightarrow> 8 dvd unat w \<and> 32 \<le> unat w"

definition extent :: "blocks \<Rightarrow> nat" where
  "extent bs = sum_list (map (\<lambda>(w, u). unat w) bs)"

lemma extent_simps [simp]: "extent [] = 0" "extent ((w, u) # bs) = unat w + extent bs" "extent (us @ vs) = extent us + extent vs"
  by (simp_all add: extent_def)

text \<open>Where the blocks are.\<close>

fun place :: "nat \<Rightarrow> blocks \<Rightarrow> (nat \<times> ulong \<times> bool) list" where
  "place a [] = []"
| "place a ((w, u) # bs) = (a, w, u) # place (a + unat w) bs"

lemma place_append [simp]: "place a (us @ vs) = place a us @ place (a + extent us) vs"
  by (induction a us rule: place.induct) (simp_all add: add.assoc)

text \<open>The headers from \<open>a\<close> up to \<open>e\<close>; \<open>pw\<close> is the header before, \<open>qw\<close> the last one.\<close>

fun run :: "mm_heap \<Rightarrow> ulong \<Rightarrow> nat \<Rightarrow> blocks \<Rightarrow> ulong \<Rightarrow> nat \<Rightarrow> bool" where
  "run h pw a [] qw e \<longleftrightarrow> a = e \<and> pw = qw"
| "run h pw a ((w, u) # bs) qw e \<longleftrightarrow> blk_prev h a = Some pw \<and> blk_size h a = Some (hdr w u) \<and> proper w \<and>
     run h (hdr w u) (a + unat w) bs qw e"

definition guard_word :: ulong where
  "guard_word = ZEND_MM_GUARD_BLOCK OR ZEND_MM_ALIGNED_HEADER_SIZE"

text \<open>Up to and with the guard.\<close>

fun headers :: "mm_heap \<Rightarrow> ulong \<Rightarrow> nat \<Rightarrow> blocks \<Rightarrow> nat \<Rightarrow> bool" where
  "headers h pw a [] e \<longleftrightarrow> a = e \<and> blk_prev h a = Some pw \<and> blk_size h a = Some guard_word"
| "headers h pw a ((w, u) # bs) e \<longleftrightarrow> blk_prev h a = Some pw \<and> blk_size h a = Some (hdr w u) \<and> proper w \<and>
     headers h (hdr w u) (a + unat w) bs e"

lemma run_extent: "run h pw a us mw m \<Longrightarrow> m = a + extent us"
  by (induction h pw a us mw m rule: run.induct) auto

lemma chain_extent: "headers h pw a us m \<Longrightarrow> m = a + extent us"
  by (induction h pw a us m rule: headers.induct) auto

lemma run_append: "run h pw a (us @ vs) qw e \<longleftrightarrow> (\<exists>mw. run h pw a us mw (a + extent us) \<and> run h mw (a + extent us) vs qw e)"
  by (induction us arbitrary: pw a) (auto simp: add.assoc)

lemma chain_append: "headers h pw a (us @ vs) e \<longleftrightarrow> (\<exists>mw. run h pw a us mw (a + extent us) \<and> headers h mw (a + extent us) vs e)"
  by (induction us arbitrary: pw a) (auto simp: add.assoc)

lemma chain_prev: "headers h pw a bs e \<Longrightarrow> blk_prev h a = Some pw"
  by (cases bs) auto

lemma run_cong:
  "run h pw a us mw m \<Longrightarrow> \<forall>x. a \<le> x \<and> x < m \<longrightarrow> blk_size h' x = blk_size h x \<and> blk_prev h' x = blk_prev h x \<Longrightarrow> run h' pw a us mw m"
proof (induction h pw a us mw m rule: run.induct)
  case (2 h pw a w u bs qw e)
  then have "run h (hdr w u) (a + unat w) bs qw e" "proper w" by simp_all
  then have "a < e" using run_extent [of h "hdr w u" "a + unat w" bs qw e] by (simp add: proper_def)
  then show ?case using 2 by (simp add: proper_def)
qed simp

lemma headers_cong:
  "headers h pw a us e \<Longrightarrow> \<forall>x. a \<le> x \<and> x \<le> e \<longrightarrow> blk_size h' x = blk_size h x \<and> blk_prev h' x = blk_prev h x \<Longrightarrow> headers h' pw a us e"
proof (induction h pw a us e rule: headers.induct)
  case (2 h pw a w u bs e)
  then have "headers h (hdr w u) (a + unat w) bs e" "proper w" by simp_all
  then have "a < e" using chain_extent [of h "hdr w u" "a + unat w" bs e] by (simp add: proper_def)
  then show ?case using 2 by (simp add: proper_def)
qed simp

text \<open>Only the first \<open>_prev\<close> changes.\<close>

lemma chain_first:
  assumes "headers h pw a us e" and "\<forall>x. a < x \<and> x \<le> e \<longrightarrow> blk_size h' x = blk_size h x \<and> blk_prev h' x = blk_prev h x"
    and "blk_size h' a = blk_size h a" and "blk_prev h' a = Some qw"
  shows "headers h' qw a us e"
proof (cases us)
  case (Cons b bs)
  obtain w u where b: "b = (w, u)" by (cases b)
  have c: "headers h (hdr w u) (a + unat w) bs e" "proper w" using assms(1) Cons b by simp_all
  then have "headers h' (hdr w u) (a + unat w) bs e" by (intro headers_cong [OF c(1)]) (use assms(2) in \<open>auto simp: proper_def\<close>)
  then show ?thesis using assms Cons b by simp
qed (use assms in auto)

lemma place_bounds: "(b, w, u) \<in> set (place a bs) \<Longrightarrow> a \<le> b \<and> b + unat w \<le> a + extent bs"
  by (induction a bs rule: place.induct) auto

lemma run_proper: "run h pw a us mw m \<Longrightarrow> (b, w, u) \<in> set (place a us) \<Longrightarrow> proper w \<and> blk_size h b = Some (hdr w u)"
  by (induction h pw a us mw m rule: run.induct) auto

lemma chain_proper: "headers h pw a us m \<Longrightarrow> (b, w, u) \<in> set (place a us) \<Longrightarrow> proper w \<and> blk_size h b = Some (hdr w u)"
  by (induction h pw a us m rule: headers.induct) auto

lemma place_split: "(b, w, u) \<in> set (place a bs) \<Longrightarrow> \<exists>us vs. bs = us @ (w, u) # vs \<and> b = a + extent us"
proof (induction a bs rule: place.induct)
  case (2 a w' u' bs)
  show ?case
  proof (cases "(b, w, u) = (a, w', u')")
    case True
    then have "(w', u') # bs = [] @ (w, u) # bs \<and> b = a + extent []" by simp
    then show ?thesis by blast
  next
    case False
    then obtain us vs where "bs = us @ (w, u) # vs" "b = a + unat w' + extent us" using 2 by auto
    then show ?thesis by (intro exI [of _ "(w', u') # us"] exI [of _ vs]) simp
  qed
qed simp

text \<open>Writing the header of a block between two others.\<close>

lemma chain_write:
  assumes r: "run h pw s us mw a" and p: "blk_prev h a = Some mw" and c: "headers h xw (a + unat w) vs e" and w: "proper w"
  shows "headers (ZEND_MM_BLOCK a (type_of u) w h) pw s (us @ (w, u) # vs) e"
proof -
  let ?h = "ZEND_MM_BLOCK a (type_of u) w h"
  have w0: "0 < unat w" using w by (simp add: proper_def)
  have a: "a = s + extent us" using run_extent [OF r] .
  have "run ?h pw s us mw a" by (rule run_cong [OF r]) (use w0 in \<open>auto simp: ZEND_MM_BLOCK_def ZEND_MM_BLOCK_AT_def\<close>)
  moreover have "headers ?h (hdr w u) (a + unat w) vs e"
    by (rule chain_first [OF c]) (use w0 in \<open>auto simp: ZEND_MM_BLOCK_def ZEND_MM_BLOCK_AT_def hdr_def\<close>)
  moreover have "blk_prev ?h a = Some mw" "blk_size ?h a = Some (hdr w u)"
    using p w0 by (auto simp: ZEND_MM_BLOCK_def ZEND_MM_BLOCK_AT_def hdr_def)
  ultimately show ?thesis using w unfolding chain_append a [symmetric] by auto
qed

subsection \<open>Segments\<close>

type_synonym segment = "nat \<times> ulong \<times> blocks"

definition seg :: "mm_heap \<Rightarrow> segment \<Rightarrow> bool" where
  "seg h x \<longleftrightarrow> (case x of (s, n, bs) \<Rightarrow> 64 \<le> unat n \<and> headers h ZEND_MM_GUARD_BLOCK (s + 16) bs (s + unat n - 16))"

fun seg_list :: "mm_heap \<Rightarrow> ptr \<Rightarrow> segment list \<Rightarrow> bool" where
  "seg_list h p [] \<longleftrightarrow> p = None"
| "seg_list h p ((s, n, bs) # L) \<longleftrightarrow> p = Some s \<and> (\<exists>q. segs h s = Some \<lparr>seg_size = n, next_segment = q\<rparr> \<and> seg_list h q L)"

definition beside :: "segment \<Rightarrow> segment \<Rightarrow> bool" where
  "beside x y \<longleftrightarrow> (case (x, y) of ((s, n, bs), (s', n', bs')) \<Rightarrow> s + unat n \<le> s' \<or> s' + unat n' \<le> s)"

definition segs_apart :: "segment list \<Rightarrow> bool" where
  "segs_apart L \<longleftrightarrow> sorted_wrt beside L"

definition seg_blocks :: "segment \<Rightarrow> (nat \<times> ulong \<times> bool) set" where
  "seg_blocks x = (case x of (s, n, bs) \<Rightarrow> set (place (s + 16) bs))"

definition all_blocks :: "segment list \<Rightarrow> (nat \<times> ulong \<times> bool) set" where
  "all_blocks L = (\<Union>x\<in>set L. seg_blocks x)"

lemma beside_sym: "beside x y \<longleftrightarrow> beside y x"
  by (auto simp: beside_def split: prod.splits)

lemma beside_simp [simp]: "beside (s, n, bs) (s', n', bs') \<longleftrightarrow> s + unat n \<le> s' \<or> s' + unat n' \<le> s"
  by (simp add: beside_def)

lemma apart_append: "segs_apart (L1 @ x # L2) \<longleftrightarrow> segs_apart (L1 @ L2) \<and> (\<forall>y\<in>set (L1 @ L2). beside x y)"
  by (auto simp: segs_apart_def sorted_wrt_append beside_sym)

lemma all_blocks_simps [simp]:
  "all_blocks [] = {}" "all_blocks (x # L) = seg_blocks x \<union> all_blocks L" "all_blocks (L1 @ L2) = all_blocks L1 \<union> all_blocks L2"
  by (auto simp: all_blocks_def)

lemma seg_list_blocks: "seg_list h p (L1 @ (s, n, bs) # L2) \<Longrightarrow> seg_list h p (L1 @ (s, n, bs') # L2)"
  by (induction L1 arbitrary: p) auto

lemma seg_list_cong: "seg_list h p L \<Longrightarrow> \<forall>(s, n, bs)\<in>set L. segs h' s = segs h s \<Longrightarrow> seg_list h' p L"
  by (induction h p L rule: seg_list.induct) auto

lemma seg_list_at: "seg_list h p L \<Longrightarrow> (s, n, bs) \<in> set L \<Longrightarrow> \<exists>q. segs h s = Some \<lparr>seg_size = n, next_segment = q\<rparr>"
  by (induction h p L rule: seg_list.induct) auto

text \<open>Blocks lie within their segments.\<close>

lemma seg_block_bounds:
  assumes "seg h (s, n, bs)" and "(b, w, u) \<in> seg_blocks (s, n, bs)"
  shows "s + 16 \<le> b" "b + unat w \<le> s + unat n - 16" "proper w" "blk_size h b = Some (hdr w u)" "32 \<le> unat n"
proof -
  have c: "headers h ZEND_MM_GUARD_BLOCK (s + 16) bs (s + unat n - 16)" "32 \<le> unat n" using assms(1) by (simp_all add: seg_def)
  have b: "(b, w, u) \<in> set (place (s + 16) bs)" using assms(2) by (simp add: seg_blocks_def)
  show "s + 16 \<le> b" "b + unat w \<le> s + unat n - 16" using place_bounds [OF b] chain_extent [OF c(1)] by simp_all
  show "proper w" "blk_size h b = Some (hdr w u)" "32 \<le> unat n" using chain_proper [OF c(1) b] c(2) by simp_all
qed

lemma seg_cong:
  assumes "seg h (s, n, bs)" and "\<forall>x. s \<le> x \<and> x < s + unat n \<longrightarrow> blk_size h' x = blk_size h x \<and> blk_prev h' x = blk_prev h x"
  shows "seg h' (s, n, bs)"
proof -
  have c: "headers h ZEND_MM_GUARD_BLOCK (s + 16) bs (s + unat n - 16)" "64 \<le> unat n" using assms(1) by (simp_all add: seg_def)
  have "headers h' ZEND_MM_GUARD_BLOCK (s + 16) bs (s + unat n - 16)" by (rule headers_cong [OF c(1)]) (use assms(2) c(2) in auto)
  then show ?thesis using c(2) by (simp add: seg_def)
qed

subsection \<open>The invariant\<close>

text \<open>
  The invariant of the heap manager: segments, cache, counters and free lists; and the same of a heap of
  which the blocks between two others are about to be written.
\<close>

subsection \<open>The cache and the counters\<close>

fun cached_list :: "mm_heap \<Rightarrow> fblk \<Rightarrow> nat list \<Rightarrow> bool" where
  "cached_list h b [] \<longleftrightarrow> b = Null"
| "cached_list h b (x # xs) \<longleftrightarrow> b = Blk x \<and> (\<exists>q. prev_free h (Blk x) = Some q \<and> cached_list h q xs)"

definition cached_set :: "(nat \<Rightarrow> nat list) \<Rightarrow> nat set" where
  "cached_set C = (\<Union>i<64. set (C i))"

definition cache_ok :: "mm_heap \<Rightarrow> (nat \<times> ulong \<times> bool) set \<Rightarrow> (nat \<Rightarrow> nat list) \<Rightarrow> bool" where
  "cache_ok h B C \<longleftrightarrow> length (cache h) = 64 \<and> (\<forall>i<64. cached_list h (cache h ! i) (C i) \<and> distinct (C i) \<and>
     (\<forall>c\<in>set (C i). \<exists>w. (c, w, True) \<in> B \<and> unat w = 8 * (i + 4)))"

definition total_size :: "segment list \<Rightarrow> ulong" where
  "total_size L = sum_list (map (\<lambda>(s, n, bs). n) L)"

definition block_size_ok :: "mm_heap \<Rightarrow> bool" where
  "block_size_ok h \<longleftrightarrow> 32 \<le> unat (block_size h) \<and> (\<exists>k<64. block_size h = push_bit k 1)"

definition reserve_ok :: "mm_heap \<Rightarrow> (nat \<times> ulong \<times> bool) set \<Rightarrow> (nat \<Rightarrow> nat list) \<Rightarrow> bool" where
  "reserve_ok h B C \<longleftrightarrow> (\<forall>p. reserve h = Some p \<longrightarrow> 16 \<le> p \<and> (\<exists>w. (p - 16, w, True) \<in> B) \<and> p - 16 \<notin> cached_set C)"

definition books :: "mm_heap \<Rightarrow> segment list \<Rightarrow> (nat \<times> ulong \<times> bool) set \<Rightarrow> (nat \<Rightarrow> nat list) \<Rightarrow> bool" where
  "books h L B C \<longleftrightarrow> real_size h = total_size L \<and> block_size_ok h \<and> cache_ok h B C \<and> reserve_ok h B C"

definition layout :: "mm_heap \<Rightarrow> segment list \<Rightarrow> bool" where
  "layout h L \<longleftrightarrow> seg_list h (segments_list h) L \<and> segs_apart L \<and> (\<forall>x\<in>set L. seg h x)"

definition mm :: "mm_heap \<Rightarrow> segment list \<Rightarrow> (nat \<Rightarrow> nat list) \<Rightarrow> bool" where
  "mm h L C \<longleftrightarrow> layout h L \<and> books h L (all_blocks L) C"

text \<open>The blocks around a hole of \<open>m\<close> bytes.\<close>

definition around :: "segment list \<Rightarrow> nat \<Rightarrow> blocks \<Rightarrow> nat \<Rightarrow> blocks \<Rightarrow> segment list \<Rightarrow> (nat \<times> ulong \<times> bool) set" where
  "around L1 s us m vs L2 = all_blocks (L1 @ L2) \<union> set (place (s + 16) us) \<union> set (place (s + 16 + extent us + m) vs)"

definition split_seg :: "mm_heap \<Rightarrow> nat \<Rightarrow> ulong \<Rightarrow> blocks \<Rightarrow> nat \<Rightarrow> blocks \<Rightarrow> bool" where
  "split_seg h s n us m vs \<longleftrightarrow> 64 \<le> unat n \<and> (\<exists>mw xw. run h ZEND_MM_GUARD_BLOCK (s + 16) us mw (s + 16 + extent us) \<and>
     blk_prev h (s + 16 + extent us) = Some mw \<and> headers h xw (s + 16 + extent us + m) vs (s + unat n - 16))"

definition mm_hole :: "mm_heap \<Rightarrow> segment list \<Rightarrow> nat \<Rightarrow> ulong \<Rightarrow> blocks \<Rightarrow> nat \<Rightarrow> blocks \<Rightarrow> segment list \<Rightarrow> (nat \<Rightarrow> nat list) \<Rightarrow> bool" where
  "mm_hole h L1 s n us m vs L2 C \<longleftrightarrow> seg_list h (segments_list h) (L1 @ (s, n, []) # L2) \<and> segs_apart (L1 @ (s, n, []) # L2) \<and>
     (\<forall>x\<in>set (L1 @ L2). seg h x) \<and> split_seg h s n us m vs \<and> books h (L1 @ (s, n, []) # L2) (around L1 s us m vs L2) C"

definition free_of :: "(nat \<times> ulong \<times> bool) set \<Rightarrow> nat set" where
  "free_of B = {a. \<exists>w. (a, w, False) \<in> B}"

definition held_blocks :: "(nat \<times> ulong \<times> bool) set \<Rightarrow> (nat \<Rightarrow> nat list) \<Rightarrow> (nat \<times> nat) set" where
  "held_blocks B C = {(a, unat w) |a w. (a, w, True) \<in> B \<and> a \<notin> cached_set C}"

text \<open>
  A heap whose clients hold the blocks \<open>M\<close>, as addresses and sizes, with \<open>C\<close> in its cache \<open>K\<close> and \<open>R\<close>
  in reserve; these two are given apart, because \<open>zend_mm_free_cache\<close> and \<open>zend_mm_safe_error\<close> work with
  slots they have not cleared yet. And the same with a hole at \<open>p\<close>.
\<close>

definition sound :: "fblk list \<Rightarrow> ptr \<Rightarrow> (nat \<Rightarrow> nat list) \<Rightarrow> mm_heap \<Rightarrow> (nat \<times> nat) set \<Rightarrow> bool" where
  "sound K R C h M \<longleftrightarrow> (\<exists>L. mm (h\<lparr>cache := K, reserve := R\<rparr>) L C \<and> free_ok h (free_of (all_blocks L)) \<and> M = held_blocks (all_blocks L) C)"

definition mm_ok :: "mm_heap \<Rightarrow> (nat \<times> nat) set \<Rightarrow> bool" where
  "mm_ok h M \<longleftrightarrow> (\<exists>C. sound (cache h) (reserve h) C h M)"

definition opened :: "fblk list \<Rightarrow> ptr \<Rightarrow> (nat \<Rightarrow> nat list) \<Rightarrow> mm_heap \<Rightarrow> (nat \<times> nat) set \<Rightarrow> nat \<Rightarrow> nat \<Rightarrow> bool" where
  "opened K R C h M p m \<longleftrightarrow> (\<exists>L1 s n us vs L2. mm_hole (h\<lparr>cache := K, reserve := R\<rparr>) L1 s n us m vs L2 C \<and> free_ok h (free_of (around L1 s us m vs L2)) \<and>
     M = held_blocks (around L1 s us m vs L2) C \<and> p = s + 16 + extent us)"

lemma free_of_simps [simp]: "free_of {} = {}" "free_of (A \<union> B) = free_of A \<union> free_of B" "free_of (insert (a, w, True) B) = free_of B"
  "free_of (insert (a, w, False) B) = insert a (free_of B)"
  by (auto simp: free_of_def)

lemma total_simps: "total_size (L1 @ (s, n, bs) # L2) = total_size (L1 @ L2) + n" "total_size (L1 @ (s, n, bs) # L2) = total_size (L1 @ (s, n, bs') # L2)"
  by (simp_all add: total_size_def)

subsection \<open>What the invariants depend on\<close>

lemma cached_list_cong: "cached_list h b xs \<Longrightarrow> \<forall>c\<in>set xs. prev_free h' (Blk c) = prev_free h (Blk c) \<Longrightarrow> cached_list h' b xs"
  by (induction xs arbitrary: b) auto

lemma books_cong:
  assumes "books h L B C" and "\<forall>c w. (c, w, True) \<in> B \<longrightarrow> (c, w, True) \<in> B'" and "total_size L' = total_size L" and "real_size h' = real_size h" "block_size h' = block_size h"
    "cache h' = cache h" "reserve h' = reserve h" and "\<forall>c\<in>cached_set C. prev_free h' (Blk c) = prev_free h (Blk c)"
  shows "books h' L' B' C"
proof -
  have "cached_list h' (cache h ! i) (C i)" if "i < 64" for i
    by (rule cached_list_cong [of h]) (use assms(1,8) that in \<open>auto simp: books_def cache_ok_def cached_set_def\<close>)
  then have "cache_ok h' B' C" using assms(1,2,6) unfolding books_def cache_ok_def by (simp, meson)
  moreover have "reserve_ok h' B' C" using assms(1,2,7) unfolding books_def reserve_ok_def by (simp, meson)
  ultimately show ?thesis using assms(1,3,4,5) by (simp add: books_def block_size_ok_def)
qed

lemma seg_blocks_only: "seg h x \<Longrightarrow> blk_size h' = blk_size h \<Longrightarrow> blk_prev h' = blk_prev h \<Longrightarrow> seg h' x"
  by (cases x) (auto intro: seg_cong)

lemma mm_cong:
  assumes "mm h L C" and "blk_size h' = blk_size h" "blk_prev h' = blk_prev h" "segs h' = segs h" "segments_list h' = segments_list h"
    "real_size h' = real_size h" "block_size h' = block_size h" "cache h' = cache h" "reserve h' = reserve h"
    and "\<forall>c\<in>cached_set C. prev_free h' (Blk c) = prev_free h (Blk c)"
  shows "mm h' L C"
proof -
  have "seg_list h' (segments_list h') L" using seg_list_cong [of h "segments_list h" L h'] assms by (simp add: mm_def layout_def)
  moreover have "\<forall>x\<in>set L. seg h' x" using assms(1-3) seg_blocks_only by (auto simp: mm_def layout_def)
  moreover have "books h' L (all_blocks L) C" by (rule books_cong [of h L "all_blocks L"]) (use assms in \<open>simp_all add: mm_def\<close>)
  ultimately show ?thesis using assms(1) by (simp add: mm_def layout_def)
qed

lemma split_seg_cong:
  assumes "split_seg h s n us m vs" and "\<forall>x. s \<le> x \<and> x < s + unat n \<longrightarrow> blk_size h' x = blk_size h x \<and> blk_prev h' x = blk_prev h x"
  shows "split_seg h' s n us m vs"
proof -
  obtain mw xw where c: "run h ZEND_MM_GUARD_BLOCK (s + 16) us mw (s + 16 + extent us)" "blk_prev h (s + 16 + extent us) = Some mw"
    "headers h xw (s + 16 + extent us + m) vs (s + unat n - 16)" "64 \<le> unat n" using assms(1) unfolding split_seg_def by blast
  have e: "s + unat n - 16 = s + 16 + extent us + m + extent vs" using chain_extent [OF c(3)] .
  have same: "blk_size h' x = blk_size h x \<and> blk_prev h' x = blk_prev h x" if "s \<le> x" "x \<le> s + unat n - 16" for x
  proof -
    have "x < s + unat n" using that(2) c(4) by simp
    then show ?thesis using assms(2) that(1) by blast
  qed
  have "run h' ZEND_MM_GUARD_BLOCK (s + 16) us mw (s + 16 + extent us)"
    by (rule run_cong [OF c(1)], intro allI impI, rule same) (use e in linarith)+
  moreover have "headers h' xw (s + 16 + extent us + m) vs (s + unat n - 16)"
    by (rule headers_cong [OF c(3)], intro allI impI, rule same) linarith+
  moreover have "blk_prev h' (s + 16 + extent us) = Some mw" using same [of "s + 16 + extent us"] c(2) e by simp
  ultimately show ?thesis using c(4) unfolding split_seg_def by blast
qed

lemma hole_cong:
  assumes "mm_hole h L1 s n us m vs L2 C" and "blk_size h' = blk_size h" "blk_prev h' = blk_prev h" "segs h' = segs h" "segments_list h' = segments_list h"
    "real_size h' = real_size h" "block_size h' = block_size h" "cache h' = cache h" "reserve h' = reserve h"
    and "\<forall>c\<in>cached_set C. prev_free h' (Blk c) = prev_free h (Blk c)"
  shows "mm_hole h' L1 s n us m vs L2 C"
proof -
  have "seg_list h' (segments_list h') (L1 @ (s, n, []) # L2)" using seg_list_cong [of h "segments_list h" "L1 @ (s, n, []) # L2" h'] assms by (simp add: mm_hole_def)
  moreover have "\<forall>x\<in>set (L1 @ L2). seg h' x" using assms(1-3) seg_blocks_only unfolding mm_hole_def by blast
  moreover have "split_seg h' s n us m vs" by (rule split_seg_cong [of h]) (use assms(1-3) in \<open>simp_all add: mm_hole_def\<close>)
  moreover have "books h' (L1 @ (s, n, []) # L2) (around L1 s us m vs L2) C"
    by (rule books_cong [of h "L1 @ (s, n, []) # L2" "around L1 s us m vs L2"]) (use assms in \<open>simp_all add: mm_hole_def\<close>)
  ultimately show ?thesis using assms(1) by (simp add: mm_hole_def)
qed

lemma mm_frame: "mm h L C \<Longrightarrow> links_frame F h h' \<Longrightarrow> F \<inter> cached_set C = {} \<Longrightarrow> mm h' L C"
  using frame_fields [of F h h'] by (elim mm_cong [of h]) (auto simp: links_frame_def)

lemma hole_frame: "mm_hole h L1 s n us m vs L2 C \<Longrightarrow> links_frame F h h' \<Longrightarrow> F \<inter> cached_set C = {} \<Longrightarrow> mm_hole h' L1 s n us m vs L2 C"
  using frame_fields [of F h h'] by (elim hole_cong [of h]) (auto simp: links_frame_def)

subsection \<open>Headers tell blocks apart\<close>

lemma hdr_inj:
  assumes "proper w" "proper w'" and "hdr w u = hdr w' u'"
  shows "w = w' \<and> u = u'"
proof -
  have b: "8 dvd unat w" "8 dvd unat w'" using assms(1,2) by (simp_all add: proper_def)
  have "hdr w u AND NOT ZEND_MM_TYPE_MASK = w" "hdr w' u' AND NOT ZEND_MM_TYPE_MASK = w'"
    using header_bits(1,2,3) [OF b(1)] header_bits(1,2,3) [OF b(2)] by (simp_all add: hdr_def type_of_def)
  moreover have "(hdr w u AND ZEND_MM_USED_BLOCK \<noteq> 0) = u" "(hdr w' u' AND ZEND_MM_USED_BLOCK \<noteq> 0) = u'"
    using header_bits(1,4,5) [OF b(1)] header_bits(1,4,5) [OF b(2)] by (simp_all add: hdr_def type_of_def)
  ultimately show ?thesis using assms(3) by metis
qed

lemma block_header:
  assumes "mm h L C" and "(b, w, u) \<in> all_blocks L"
  shows "blk_size h b = Some (hdr w u)" "proper w"
proof -
  obtain s n bs where "(s, n, bs) \<in> set L" "(b, w, u) \<in> seg_blocks (s, n, bs)" using assms(2) by (auto simp: all_blocks_def)
  then show "blk_size h b = Some (hdr w u)" "proper w" using seg_block_bounds [of h s n bs b w u] assms(1) by (simp_all add: mm_def layout_def)
qed

lemma block_unique: "mm h L C \<Longrightarrow> (b, w, u) \<in> all_blocks L \<Longrightarrow> (b, w', u') \<in> all_blocks L \<Longrightarrow> w = w' \<and> u = u'"
  using block_header [of h L C] hdr_inj by (metis option.inject)

lemma free_not_cached: "mm h L C \<Longrightarrow> free_of (all_blocks L) \<inter> cached_set C = {}"
proof -
  assume m: "mm h L C"
  have "a \<notin> cached_set C" if "(a, w, False) \<in> all_blocks L" for a w
  proof
    assume "a \<in> cached_set C"
    then obtain w' where "(a, w', True) \<in> all_blocks L" using m by (auto simp: mm_def books_def cache_ok_def cached_set_def)
    then show False using block_unique [OF m that] by blast
  qed
  then show ?thesis by (auto simp: free_of_def)
qed

subsection \<open>Holes\<close>

lemma blocks_split:
  "all_blocks (L1 @ (s, n, us @ mid @ vs) # L2) = around L1 s us (extent mid) vs L2 \<union> set (place (s + 16 + extent us) mid)"
  by (auto simp: around_def seg_blocks_def add.assoc)

lemma split_seg_bounds:
  assumes "split_seg h s n us m vs"
  shows "s + 16 + extent us + m + extent vs = s + unat n - 16" "64 \<le> unat n" "s + 16 + extent us + m + extent vs + 16 = s + unat n"
  using assms chain_extent unfolding split_seg_def by fastforce+

lemma around_block:
  assumes ho: "mm_hole h L1 s n us m vs L2 C" and b: "(b, w, u) \<in> around L1 s us m vs L2"
  shows "blk_size h b = Some (hdr w u)" "proper w" "b + unat w \<le> s + 16 + extent us \<or> s + 16 + extent us + m \<le> b"
proof -
  let ?p = "s + 16 + extent us"
  have sp: "split_seg h s n us m vs" and ap: "segs_apart (L1 @ (s, n, []) # L2)" and sg: "\<forall>x\<in>set (L1 @ L2). seg h x"
    using ho by (simp_all add: mm_hole_def)
  obtain mw xw where c: "run h ZEND_MM_GUARD_BLOCK (s + 16) us mw ?p" "headers h xw (?p + m) vs (s + unat n - 16)"
    using sp unfolding split_seg_def by blast
  note sb = split_seg_bounds [OF sp]
  consider "(b, w, u) \<in> all_blocks (L1 @ L2)" | "(b, w, u) \<in> set (place (s + 16) us)" | "(b, w, u) \<in> set (place (?p + m) vs)"
    using b by (auto simp: around_def)
  then have "blk_size h b = Some (hdr w u) \<and> proper w \<and> (b + unat w \<le> ?p \<or> ?p + m \<le> b)"
  proof cases
    case 1
    then obtain s' n' bs where x: "(s', n', bs) \<in> set (L1 @ L2)" "(b, w, u) \<in> seg_blocks (s', n', bs)" by (auto simp: all_blocks_def)
    then have "seg h (s', n', bs)" using sg by blast
    note bb = seg_block_bounds [OF this x(2)]
    have "\<forall>y\<in>set (L1 @ L2). beside (s, n, []) y" using ap unfolding apart_append by blast
    then have "beside (s, n, []) (s', n', bs)" using x(1) by blast
    then show ?thesis using bb sb by auto
  next
    case 2
    then show ?thesis using run_proper [OF c(1)] place_bounds [OF 2] by simp
  next
    case 3
    then show ?thesis using chain_proper [OF c(2)] place_bounds [OF 3] by simp
  qed
  then show "blk_size h b = Some (hdr w u)" "proper w" "b + unat w \<le> ?p \<or> ?p + m \<le> b" by simp_all
qed

lemma around_out: "mm_hole h L1 s n us m vs L2 C \<Longrightarrow> (b, w, u) \<in> around L1 s us m vs L2 \<Longrightarrow> s + 16 + extent us \<le> b \<Longrightarrow> b < s + 16 + extent us + m \<Longrightarrow> False"
  using around_block(2,3) [of h L1 s n us m vs L2 C b w u] by (auto simp: proper_def)

text \<open>Taking blocks out, and writing one or two instead.\<close>

lemma punch:
  assumes m: "mm h (L1 @ (s, n, us @ mid @ vs) # L2) C"
    and out: "\<forall>(b, w, u)\<in>set (place (s + 16 + extent us) mid). b \<notin> cached_set C \<and> reserve h \<noteq> Some (b + 16)"
  shows "mm_hole h L1 s n us (extent mid) vs L2 C"
proof -
  have lay: "seg_list h (segments_list h) (L1 @ (s, n, us @ mid @ vs) # L2)" "segs_apart (L1 @ (s, n, us @ mid @ vs) # L2)"
    "\<forall>x\<in>set (L1 @ (s, n, us @ mid @ vs) # L2). seg h x"
    and bo: "books h (L1 @ (s, n, us @ mid @ vs) # L2) (all_blocks (L1 @ (s, n, us @ mid @ vs) # L2)) C"
    using m by (simp_all add: mm_def layout_def)
  have "segs_apart (L1 @ (s, n, []) # L2)" using lay(2) unfolding apart_append by (auto simp: beside_def)
  moreover have "seg_list h (segments_list h) (L1 @ (s, n, []) # L2)" by (rule seg_list_blocks [OF lay(1)])
  moreover have sp: "split_seg h s n us (extent mid) vs"
  proof -
    have "64 \<le> unat n" "headers h ZEND_MM_GUARD_BLOCK (s + 16) (us @ mid @ vs) (s + unat n - 16)" using lay(3) by (simp_all add: seg_def)
    then obtain mw where "run h ZEND_MM_GUARD_BLOCK (s + 16) us mw (s + 16 + extent us)" "headers h mw (s + 16 + extent us) (mid @ vs) (s + unat n - 16)"
      by (auto simp: chain_append)
    moreover have "blk_prev h (s + 16 + extent us) = Some mw" using chain_prev [OF calculation(2)] .
    moreover obtain xw where "headers h xw (s + 16 + extent us + extent mid) vs (s + unat n - 16)" using calculation(2) by (auto simp: chain_append)
    ultimately show ?thesis using \<open>64 \<le> unat n\<close> unfolding split_seg_def by blast
  qed
  moreover have "books h (L1 @ (s, n, []) # L2) (around L1 s us (extent mid) vs L2) C"
  proof -
    have co: "cache_ok h (around L1 s us (extent mid) vs L2) C"
    proof -
      have "\<exists>w. (c, w, True) \<in> around L1 s us (extent mid) vs L2 \<and> unat w = 8 * (i + 4)" if i: "i < 64" "c \<in> set (C i)" for i c
      proof -
        have "c \<in> cached_set C" using i by (auto simp: cached_set_def)
        moreover obtain w where "(c, w, True) \<in> all_blocks (L1 @ (s, n, us @ mid @ vs) # L2)" "unat w = 8 * (i + 4)"
          using bo i by (auto simp: books_def cache_ok_def)
        ultimately show ?thesis using out unfolding blocks_split by blast
      qed
      then show ?thesis using bo by (simp add: books_def cache_ok_def)
    qed
    have "reserve_ok h (around L1 s us (extent mid) vs L2) C"
      unfolding reserve_ok_def
    proof (intro allI impI)
      fix q assume q: "reserve h = Some q"
      then have r: "16 \<le> q" "q - 16 \<notin> cached_set C" "\<exists>w. (q - 16, w, True) \<in> all_blocks (L1 @ (s, n, us @ mid @ vs) # L2)"
        using bo by (simp_all add: books_def reserve_ok_def)
      then obtain w where w: "(q - 16, w, True) \<in> all_blocks (L1 @ (s, n, us @ mid @ vs) # L2)" by blast
      have "(q - 16, w, True) \<notin> set (place (s + 16 + extent us) mid)" using out q r(1) by fastforce
      then show "16 \<le> q \<and> (\<exists>w. (q - 16, w, True) \<in> around L1 s us (extent mid) vs L2) \<and> q - 16 \<notin> cached_set C"
        using r(1,2) w unfolding blocks_split by blast
    qed
    then show ?thesis using co bo total_simps(2) [of L1 s n _ L2 "[]"] by (simp add: books_def)
  qed
  ultimately show ?thesis using lay(3) by (simp add: mm_hole_def)
qed

lemma fill:
  assumes ho: "mm_hole h L1 s n us (extent mid) vs L2 C"
    and c: "\<forall>mw xw. run h ZEND_MM_GUARD_BLOCK (s + 16) us mw (s + 16 + extent us) \<and> blk_prev h (s + 16 + extent us) = Some mw \<and>
      headers h xw (s + 16 + extent us + extent mid) vs (s + unat n - 16) \<longrightarrow> headers h' ZEND_MM_GUARD_BLOCK (s + 16) (us @ mid @ vs) (s + unat n - 16)"
    and h': "h' = h\<lparr>blk_size := blk_size h', blk_prev := blk_prev h'\<rparr>"
    and out: "\<forall>x. \<not> (s + 16 \<le> x \<and> x < s + unat n) \<longrightarrow> blk_size h' x = blk_size h x \<and> blk_prev h' x = blk_prev h x"
  shows "mm h' (L1 @ (s, n, us @ mid @ vs) # L2) C"
proof -
  have o: "seg_list h (segments_list h) (L1 @ (s, n, []) # L2)" "segs_apart (L1 @ (s, n, []) # L2)" "\<forall>x\<in>set (L1 @ L2). seg h x"
    "split_seg h s n us (extent mid) vs" "books h (L1 @ (s, n, []) # L2) (around L1 s us (extent mid) vs L2) C"
    using ho by (simp_all add: mm_hole_def)
  have e: "segs h' = segs h" "segments_list h' = segments_list h" "real_size h' = real_size h" "block_size h' = block_size h"
    "cache h' = cache h" "reserve h' = reserve h" "prev_free h' = prev_free h" by (subst h', simp)+
  have "seg_list h' (segments_list h') (L1 @ (s, n, us @ mid @ vs) # L2)"
    unfolding e(2) by (rule seg_list_cong [OF seg_list_blocks [OF o(1)]]) (simp add: e(1))
  moreover have "segs_apart (L1 @ (s, n, us @ mid @ vs) # L2)" using o(2) unfolding apart_append by (auto simp: beside_def)
  moreover have "seg h' (s, n, us @ mid @ vs)"
    using o(4) c unfolding split_seg_def seg_def by auto
  moreover have "seg h' x" if x: "x \<in> set (L1 @ L2)" for x
  proof -
    obtain s' n' bs where e: "x = (s', n', bs)" by (cases x)
    have s: "seg h (s', n', bs)" using o(3) x e by blast
    have "\<forall>y\<in>set (L1 @ L2). beside (s, n, []) y" using o(2) unfolding apart_append by blast
    then have b: "s + unat n \<le> s' \<or> s' + unat n' \<le> s" using x e by fastforce
    have "seg h' (s', n', bs)"
    proof (rule seg_cong [OF s], intro allI impI)
      fix y assume "s' \<le> y \<and> y < s' + unat n'"
      then have "\<not> (s + 16 \<le> y \<and> y < s + unat n)" using b by linarith
      then show "blk_size h' y = blk_size h y \<and> blk_prev h' y = blk_prev h y" using out by blast
    qed
    then show ?thesis by (simp only: e)
  qed
  moreover have "books h' (L1 @ (s, n, us @ mid @ vs) # L2) (all_blocks (L1 @ (s, n, us @ mid @ vs) # L2)) C"
    by (rule books_cong [OF o(5)]) (use e total_simps(2) [of L1 s n _ L2 "[]"] in \<open>simp_all add: blocks_split del: all_blocks_simps\<close>)
  ultimately show ?thesis by (auto simp: mm_def layout_def)
qed

lemma fill1:
  assumes ho: "mm_hole h L1 s n us (unat w) vs L2 C" and w: "proper w"
  shows "mm (ZEND_MM_BLOCK (s + 16 + extent us) (type_of u) w h) (L1 @ (s, n, us @ (w, u) # vs) # L2) C"
proof -
  let ?h' = "ZEND_MM_BLOCK (s + 16 + extent us) (type_of u) w h"
  have sp: "split_seg h s n us (unat w) vs" using ho by (simp add: mm_hole_def)
  have "mm ?h' (L1 @ (s, n, us @ [(w, u)] @ vs) # L2) C"
  proof (rule fill)
    show "mm_hole h L1 s n us (extent [(w, u)]) vs L2 C" using ho by simp
    show "\<forall>mw xw. run h ZEND_MM_GUARD_BLOCK (s + 16) us mw (s + 16 + extent us) \<and> blk_prev h (s + 16 + extent us) = Some mw \<and>
      headers h xw (s + 16 + extent us + extent [(w, u)]) vs (s + unat n - 16) \<longrightarrow> headers ?h' ZEND_MM_GUARD_BLOCK (s + 16) (us @ [(w, u)] @ vs) (s + unat n - 16)"
      by (intro allI impI, elim conjE) (use chain_write [of h ZEND_MM_GUARD_BLOCK "s + 16" us _ "s + 16 + extent us" _ w vs "s + unat n - 16" u] w in simp)
    show "?h' = h\<lparr>blk_size := blk_size ?h', blk_prev := blk_prev ?h'\<rparr>" by (simp add: ZEND_MM_BLOCK_def)
    show "\<forall>x. \<not> (s + 16 \<le> x \<and> x < s + unat n) \<longrightarrow> blk_size ?h' x = blk_size h x \<and> blk_prev ?h' x = blk_prev h x"
      using split_seg_bounds [OF sp] by (auto simp: ZEND_MM_BLOCK_def ZEND_MM_BLOCK_AT_def)
  qed
  then show ?thesis by simp
qed

end
