(* ===== verification/Zend_Mm_Blocks.thy ===== *)
theory Zend_Mm_Blocks
  imports Zend_Mm_Heap
begin

text \<open>
  The operations on single blocks: joining free neighbours, cutting a block in two, giving a block to a free
  list, and giving up a whole segment.
\<close>

lemma mm_sound: "mm (h\<lparr>cache := K, reserve := R\<rparr>) L C \<Longrightarrow> free_ok h (free_of (all_blocks L)) \<Longrightarrow> sound K R C h (held_blocks (all_blocks L) C)"
  by (auto simp: sound_def)

lemma frame_cache: "links_frame F h h' \<Longrightarrow> links_frame F (h\<lparr>cache := K, reserve := R\<rparr>) (h'\<lparr>cache := K, reserve := R\<rparr>)"
  unfolding links_frame_def by (cases h; cases h') simp

lemma cached_block: "books h L B C \<Longrightarrow> c \<in> cached_set C \<Longrightarrow> \<exists>w. (c, w, True) \<in> B"
  unfolding books_def cache_ok_def cached_set_def by blast

lemma hole_around_free: "mm_hole h L1 s n us m vs L2 C \<Longrightarrow> free_of (around L1 s us m vs L2) \<inter> cached_set C = {}"
proof -
  assume ho: "mm_hole h L1 s n us m vs L2 C"
  have "a \<notin> cached_set C" if a: "(a, w, False) \<in> around L1 s us m vs L2" for a w
  proof
    assume "a \<in> cached_set C"
    then obtain w' where w': "(a, w', True) \<in> around L1 s us m vs L2" using ho cached_block unfolding mm_hole_def by blast
    have "hdr w' True = hdr w False" using around_block(1) [OF ho w'] around_block(1) [OF ho a] by simp
    then show False using hdr_inj [of w' w True False] around_block(2) [OF ho w'] around_block(2) [OF ho a] by blast
  qed
  then show ?thesis by (auto simp: free_of_def)
qed

text \<open>Nothing that is free, cached or held lies in the hole.\<close>

lemma hole_free_out: "mm_hole h L1 s n us m vs L2 C \<Longrightarrow> s + 16 + extent us \<le> a \<Longrightarrow> a < s + 16 + extent us + m \<Longrightarrow> a \<notin> free_of (around L1 s us m vs L2)"
  using around_out by (fastforce simp: free_of_def)

lemma hole_cached_out: "mm_hole h L1 s n us m vs L2 C \<Longrightarrow> s + 16 + extent us \<le> a \<Longrightarrow> a < s + 16 + extent us + m \<Longrightarrow> a \<notin> cached_set C"
proof
  assume a: "mm_hole h L1 s n us m vs L2 C" "s + 16 + extent us \<le> a" "a < s + 16 + extent us + m" "a \<in> cached_set C"
  then obtain w where "(a, w, True) \<in> around L1 s us m vs L2" using cached_block unfolding mm_hole_def by blast
  then show False using around_out [OF a(1) _ a(2,3)] by blast
qed

lemma opened_apart: "opened K R C h M p m \<Longrightarrow> (b, k) \<in> M \<Longrightarrow> b + k \<le> p \<or> p + m \<le> b"
proof -
  assume o: "opened K R C h M p m" "(b, k) \<in> M"
  then obtain L1 s n us vs L2 w where "mm_hole (h\<lparr>cache := K, reserve := R\<rparr>) L1 s n us m vs L2 C" "p = s + 16 + extent us" "k = unat w"
    "(b, w, True) \<in> around L1 s us m vs L2" by (auto simp: opened_def held_blocks_def)
  then show ?thesis using around_block(3) by blast
qed

lemma write_cache: "ZEND_MM_BLOCK a t w (h\<lparr>cache := K, reserve := R\<rparr>) = (ZEND_MM_BLOCK a t w h)\<lparr>cache := K, reserve := R\<rparr>"
  by (simp add: ZEND_MM_BLOCK_def)

lemma free_ok_write:
  assumes "free_ok h F" and "a \<notin> F"
  shows "free_ok (ZEND_MM_BLOCK a t w h) F"
  by (rule free_ok_cong [OF assms(1)]) (use assms(2) in \<open>auto simp: ZEND_MM_BLOCK_def\<close>)

subsection \<open>Filling a hole\<close>

text \<open>With a block in use.\<close>

lemma close_used:
  assumes o: "opened K R C h M p (unat w)" and w: "proper w"
  shows "sound K R C (ZEND_MM_BLOCK p ZEND_MM_USED_BLOCK w h) (insert (p, unat w) M)"
proof -
  obtain L1 s n us vs L2 where ho: "mm_hole (h\<lparr>cache := K, reserve := R\<rparr>) L1 s n us (unat w) vs L2 C"
    and f: "free_ok h (free_of (around L1 s us (unat w) vs L2))" and m: "M = held_blocks (around L1 s us (unat w) vs L2) C"
    and p: "p = s + 16 + extent us" using o unfolding opened_def by blast
  have w0: "0 < unat w" using w by (simp add: proper_def)
  let ?h = "ZEND_MM_BLOCK p ZEND_MM_USED_BLOCK w h" and ?L = "L1 @ (s, n, us @ (w, True) # vs) # L2"
  have mm: "mm (?h\<lparr>cache := K, reserve := R\<rparr>) ?L C"
    using fill1 [OF ho w, of True] unfolding write_cache p by (simp add: type_of_def)
  have B: "all_blocks ?L = insert (p, w, True) (around L1 s us (unat w) vs L2)"
    using blocks_split [of L1 s n us "[(w, True)]" vs L2] p by simp
  have "free_ok ?h (free_of (all_blocks ?L))"
    unfolding B by (simp, rule free_ok_write [OF f]) (use hole_free_out [OF ho, of p] p w0 in simp)
  moreover have "held_blocks (all_blocks ?L) C = insert (p, unat w) M"
    using hole_cached_out [OF ho, of p] p w0 unfolding B m by (auto simp: held_blocks_def)
  ultimately show ?thesis using mm_sound [OF mm] by simp
qed

text \<open>With one block in use and one that goes to a free list.\<close>

locale free_sink =
  fixes add :: "nat \<Rightarrow> ulong \<Rightarrow> mm_heap \<Rightarrow> mm_heap option"
  assumes add: "free_ok h F \<Longrightarrow> a \<notin> F \<Longrightarrow> sized h a \<Longrightarrow>
    \<exists>h'. add a n h = Some h' \<and> free_ok h' (insert a F) \<and> links_frame (insert a F) h h'"
begin

lemma close_free:
  assumes o: "opened K R C h M p (unat w)" and w: "proper w"
  obtains h' where "add p w (ZEND_MM_BLOCK p ZEND_MM_FREE_BLOCK w h) = Some h'" "sound K R C h' M" "bytes h' = bytes h" "reserve h' = reserve h"
    "cache h' = cache h"
proof -
  obtain L1 s n us vs L2 where ho: "mm_hole (h\<lparr>cache := K, reserve := R\<rparr>) L1 s n us (unat w) vs L2 C"
    and f: "free_ok h (free_of (around L1 s us (unat w) vs L2))" and m: "M = held_blocks (around L1 s us (unat w) vs L2) C"
    and p: "p = s + 16 + extent us" using o unfolding opened_def by blast
  have w0: "0 < unat w" using w by (simp add: proper_def)
  let ?F = "free_of (around L1 s us (unat w) vs L2)"
  let ?h = "ZEND_MM_BLOCK p ZEND_MM_FREE_BLOCK w h" and ?L = "L1 @ (s, n, us @ (w, False) # vs) # L2"
  have mm: "mm (?h\<lparr>cache := K, reserve := R\<rparr>) ?L C"
    using fill1 [OF ho w, of False] unfolding write_cache p by (simp add: type_of_def)
  have B: "all_blocks ?L = insert (p, w, False) (around L1 s us (unat w) vs L2)"
    using blocks_split [of L1 s n us "[(w, False)]" vs L2] p by simp
  have pF: "p \<notin> ?F" using hole_free_out [OF ho, of p] p w0 by simp
  have f1: "free_ok ?h ?F" by (rule free_ok_write [OF f pF])
  have bs: "blk_size ?h p = Some w" using w by (simp add: ZEND_MM_BLOCK_def header_bits proper_def)
  then have "sized ?h p" using w by (simp add: sized_def proper_def)
  then obtain h' where h': "add p w ?h = Some h'" "free_ok h' (insert p ?F)" "links_frame (insert p ?F) ?h h'" using add [OF f1 pF] by blast
  have "insert p ?F \<inter> cached_set C = {}" using free_not_cached [OF mm] unfolding B by simp
  then have "mm (h'\<lparr>cache := K, reserve := R\<rparr>) ?L C" by (rule mm_frame [OF mm frame_cache [OF h'(3)]])
  from mm_sound [OF this] have "sound K R C h' (held_blocks (all_blocks ?L) C)" using h'(2) unfolding B by simp
  moreover have "held_blocks (all_blocks ?L) C = M" unfolding B m by (auto simp: held_blocks_def)
  ultimately show ?thesis using that h'(1) frame_fields [OF h'(3)] by (simp add: ZEND_MM_BLOCK_def)
qed

end

text \<open>Taking one block's worth out of the hole leaves a smaller hole.\<close>

lemma hole_shrink:
  assumes ho: "mm_hole h L1 s n us (unat w + m) vs L2 C" and w: "proper w" and m: "0 < m"
  shows "mm_hole (ZEND_MM_BLOCK (s + 16 + extent us) (type_of u) w h) L1 s n (us @ [(w, u)]) m vs L2 C"
proof -
  let ?p = "s + 16 + extent us"
  let ?h = "ZEND_MM_BLOCK ?p (type_of u) w h"
  have o: "seg_list h (segments_list h) (L1 @ (s, n, []) # L2)" "segs_apart (L1 @ (s, n, []) # L2)" "\<forall>x\<in>set (L1 @ L2). seg h x"
    "split_seg h s n us (unat w + m) vs" "books h (L1 @ (s, n, []) # L2) (around L1 s us (unat w + m) vs L2) C"
    using ho by (simp_all add: mm_hole_def)
  have w0: "0 < unat w" using w by (simp add: proper_def)
  note sb = split_seg_bounds [OF o(4)]
  have at: "blk_size ?h x = blk_size h x \<and> blk_prev ?h x = blk_prev h x" if "x < ?p \<or> ?p + unat w < x" for x
    using that by (auto simp: ZEND_MM_BLOCK_def ZEND_MM_BLOCK_AT_def)
  have p: "blk_size ?h ?p = Some (hdr w u)" "blk_prev ?h ?p = blk_prev h ?p" "blk_prev ?h (?p + unat w) = Some (hdr w u)"
    using w0 by (simp_all add: ZEND_MM_BLOCK_def ZEND_MM_BLOCK_AT_def hdr_def)
  have e: "segs ?h = segs h" "segments_list ?h = segments_list h" by (simp_all add: ZEND_MM_BLOCK_def)
  have "seg_list ?h (segments_list ?h) (L1 @ (s, n, []) # L2)" unfolding e(2) by (rule seg_list_cong [OF o(1)]) (simp add: e(1))
  moreover have "seg ?h x" if x: "x \<in> set (L1 @ L2)" for x
  proof -
    obtain s' n' bs where e: "x = (s', n', bs)" by (cases x)
    have s: "seg h (s', n', bs)" using o(3) x e by blast
    have "\<forall>y\<in>set (L1 @ L2). beside (s, n, []) y" using o(2) unfolding apart_append by blast
    then have b: "s + unat n \<le> s' \<or> s' + unat n' \<le> s" using x e by fastforce
    have "seg ?h (s', n', bs)"
    proof (rule seg_cong [OF s], intro allI impI)
      fix y assume "s' \<le> y \<and> y < s' + unat n'"
      then have "y < ?p \<or> ?p + unat w < y" using b sb(2,3) by linarith
      then show "blk_size ?h y = blk_size h y \<and> blk_prev ?h y = blk_prev h y" by (rule at)
    qed
    then show ?thesis by (simp only: e)
  qed
  moreover have "split_seg ?h s n (us @ [(w, u)]) m vs"
  proof -
    obtain mw xw where c: "run h ZEND_MM_GUARD_BLOCK (s + 16) us mw ?p" "blk_prev h ?p = Some mw"
      "headers h xw (?p + (unat w + m)) vs (s + unat n - 16)" using o(4) unfolding split_seg_def by blast
    have "run ?h ZEND_MM_GUARD_BLOCK (s + 16) us mw ?p" by (rule run_cong [OF c(1)]) (use at in blast)
    then have "run ?h ZEND_MM_GUARD_BLOCK (s + 16) (us @ [(w, u)]) (hdr w u) (s + 16 + extent (us @ [(w, u)]))"
      using c(2) p w by (auto simp: run_append)
    moreover have "headers ?h xw (?p + (unat w + m)) vs (s + unat n - 16)" 
      by (rule headers_cong [OF c(3)], intro allI impI, rule at) (use m in linarith)
    ultimately show ?thesis using sb(2) p(3) unfolding split_seg_def by (auto simp: add.assoc)
  qed
  moreover have "books ?h (L1 @ (s, n, []) # L2) (around L1 s (us @ [(w, u)]) m vs L2) C"
    by (rule books_cong [OF o(5)]) (auto simp: around_def ZEND_MM_BLOCK_def add.assoc)
  ultimately show ?thesis using o(2) by (simp add: mm_hole_def)
qed

lemma open_used:
  assumes o: "opened K R C h M p (unat w + m)" and w: "proper w" and m: "0 < m"
  shows "opened K R C (ZEND_MM_BLOCK p ZEND_MM_USED_BLOCK w h) (insert (p, unat w) M) (p + unat w) m"
proof -
  obtain L1 s n us vs L2 where ho: "mm_hole (h\<lparr>cache := K, reserve := R\<rparr>) L1 s n us (unat w + m) vs L2 C"
    and f: "free_ok h (free_of (around L1 s us (unat w + m) vs L2))" and M: "M = held_blocks (around L1 s us (unat w + m) vs L2) C"
    and p: "p = s + 16 + extent us" using o unfolding opened_def by blast
  have w0: "0 < unat w" using w by (simp add: proper_def)
  let ?h = "ZEND_MM_BLOCK p ZEND_MM_USED_BLOCK w h"
  have h1: "mm_hole (?h\<lparr>cache := K, reserve := R\<rparr>) L1 s n (us @ [(w, True)]) m vs L2 C"
    using hole_shrink [OF ho w m, of True] unfolding write_cache p by (simp add: type_of_def)
  have B: "around L1 s (us @ [(w, True)]) m vs L2 = insert (p, w, True) (around L1 s us (unat w + m) vs L2)"
    using p by (auto simp: around_def add.assoc)
  have "free_ok ?h (free_of (around L1 s us (unat w + m) vs L2))"
    by (rule free_ok_write [OF f]) (use hole_free_out [OF ho, of p] p w0 in simp)
  moreover have "held_blocks (around L1 s (us @ [(w, True)]) m vs L2) C = insert (p, unat w) M"
    using hole_cached_out [OF ho, of p] p w0 unfolding B M by (auto simp: held_blocks_def)
  moreover have "p + unat w = s + 16 + extent (us @ [(w, True)])" using p by simp
  ultimately show ?thesis using h1 unfolding opened_def B
    by (intro exI [of _ L1] exI [of _ s] exI [of _ n] exI [of _ "us @ [(w, True)]"] exI [of _ vs] exI [of _ L2]) (simp add: B)
qed

subsection \<open>Making a hole\<close>

lemma opened_size: "opened K R C h M p m \<Longrightarrow> m < 2 ^ 64"
proof -
  assume "opened K R C h M p m"
  then obtain s n us vs where "split_seg (h\<lparr>cache := K, reserve := R\<rparr>) s n us m vs" by (auto simp: opened_def mm_hole_def)
  note split_seg_bounds(1,2) [OF this]
  then show ?thesis using unsigned_less [of n, where ?'a = nat] by simp
qed

text \<open>A block the client holds.\<close>

lemma open_held:
  assumes so: "sound K R C h M" and a: "(a, k) \<in> M" and r: "R \<noteq> Some (a + 16)"
  obtains w where "unat w = k" "proper w" "blk_size h a = Some (hdr w True)" "opened K R C h (M - {(a, k)}) a k"
proof -
  obtain L where mm: "mm (h\<lparr>cache := K, reserve := R\<rparr>) L C" and f: "free_ok h (free_of (all_blocks L))" and M: "M = held_blocks (all_blocks L) C"
    using so unfolding sound_def by blast
  obtain w where w: "k = unat w" "(a, w, True) \<in> all_blocks L" "a \<notin> cached_set C" using a M by (auto simp: held_blocks_def)
  note bh = block_header [OF mm w(2)]
  have w0: "0 < unat w" using bh(2) by (simp add: proper_def)
  obtain s n bs where "(s, n, bs) \<in> set L" "(a, w, True) \<in> set (place (s + 16) bs)" using w(2) by (auto simp: all_blocks_def seg_blocks_def)
  then obtain L1 L2 us vs where L: "L = L1 @ (s, n, us @ [(w, True)] @ vs) # L2" "a = s + 16 + extent us"
    using split_list [of "(s, n, bs)" L] place_split [of a w True "s + 16" bs] by fastforce
  have ho: "mm_hole (h\<lparr>cache := K, reserve := R\<rparr>) L1 s n us (extent [(w, True)]) vs L2 C"
    by (rule punch) (use mm L w(3) r in auto)
  then have ho: "mm_hole (h\<lparr>cache := K, reserve := R\<rparr>) L1 s n us (unat w) vs L2 C" by simp
  have B: "all_blocks L = insert (a, w, True) (around L1 s us (unat w) vs L2)"
    using blocks_split [of L1 s n us "[(w, True)]" vs L2] unfolding L by simp
  have "(a, w', u) \<notin> around L1 s us (unat w) vs L2" for w' u using around_out [OF ho, of a w' u] L(2) w0 by auto
  then have "held_blocks (around L1 s us (unat w) vs L2) C = M - {(a, k)}" unfolding M B by (auto simp: held_blocks_def w(1))
  moreover have "free_ok h (free_of (around L1 s us (unat w) vs L2))" using f unfolding B by simp
  ultimately have "opened K R C h (M - {(a, k)}) a (unat w)" using ho L(2) unfolding opened_def by metis
  then show ?thesis using that bh w(1) by simp
qed

text \<open>A free block; the check of its neighbours' headers passes.\<close>

lemma chain_linkage:
  assumes "headers h ZEND_MM_GUARD_BLOCK b (us @ (w, u) # vs) e" and "a = b + extent us"
  shows "ZEND_MM_CHECK_BLOCK_LINKAGE a (h :: mm_heap) = Some () \<or> u"
proof (cases u)
  case False
  obtain mw where c: "run h ZEND_MM_GUARD_BLOCK b us mw a" "headers h mw a ((w, u) # vs) e" using assms by (auto simp: chain_append)
  have w: "proper w" "8 dvd unat w" and sz: "blk_size h a = Some w" "blk_prev h a = Some mw" "headers h w (a + unat w) vs e"
    using c(2) False by (auto simp: proper_def hdr_def type_of_def header_bits)
  have nx: "blk_prev h (a + unat w) = Some w" using chain_prev [OF sz(3)] .
  have "(do {
       first \<leftarrow> ZEND_MM_IS_FIRST_BLOCK a h;
       if first then Some () else do {
         p \<leftarrow> ZEND_MM_PREV_BLOCK a h;
         sz \<leftarrow> blk_size h p;
         prev \<leftarrow> blk_prev h a;
         panic_unless (sz = prev)
       }
     }) = Some ()"
  proof (cases us rule: rev_cases)
    case Nil
    then show ?thesis using c(1) sz(2) by (simp add: ZEND_MM_IS_FIRST_BLOCK_def)
  next
    case (snoc us' x)
    obtain w1 u1 where x: "x = (w1, u1)" by (cases x)
    have r: "blk_size h (b + extent us') = Some (hdr w1 u1)" "proper w1" "mw = hdr w1 u1" "a = b + extent us' + unat w1"
      using c(1) snoc x by (auto simp: run_append)
    have m: "8 dvd unat w1" using r(2) by (simp add: proper_def)
    have "unat (mw AND NOT ZEND_MM_TYPE_MASK) = unat w1" using header_bits(1-3) [OF m] unfolding r(3) hdr_def type_of_def by simp
    moreover have "mw \<noteq> ZEND_MM_GUARD_BLOCK" using header_bits(1,8,9) [OF m] unfolding r(3) hdr_def type_of_def by simp
    ultimately show ?thesis using sz(2) r by (simp add: ZEND_MM_IS_FIRST_BLOCK_def ZEND_MM_PREV_BLOCK_def Let_def panic_unless_def)
  qed
  then show ?thesis using sz(1) nx by (simp add: ZEND_MM_CHECK_BLOCK_LINKAGE_def ZEND_MM_BLOCK_AT_def panic_unless_def)
qed simp

lemma open_free:
  assumes mm: "mm (h\<lparr>cache := K, reserve := R\<rparr>) L C" and f: "free_ok h (free_of (all_blocks L))" and a: "a \<in> free_of (all_blocks L)"
  obtains h' w where "blk_size h a = Some w" "proper w" "ZEND_MM_CHECK_BLOCK_LINKAGE a h = Some ()"
    "zend_mm_remove_from_free_list a h = Some h'" "opened K R C h' (held_blocks (all_blocks L) C) a (unat w)" "links_frame (free_of (all_blocks L)) h h'"
proof -
  obtain w where w: "(a, w, False) \<in> all_blocks L" using a by (auto simp: free_of_def)
  note bh = block_header [OF mm w]
  have w0: "0 < unat w" using bh(2) by (simp add: proper_def)
  obtain s n bs where x: "(s, n, bs) \<in> set L" "(a, w, False) \<in> set (place (s + 16) bs)" using w by (auto simp: all_blocks_def seg_blocks_def)
  then obtain L1 L2 us vs where L: "L = L1 @ (s, n, us @ [(w, False)] @ vs) # L2" "a = s + 16 + extent us"
    using split_list [of "(s, n, bs)" L] place_split [of a w False "s + 16" bs] by fastforce
  have ca: "a \<notin> cached_set C" using free_not_cached [OF mm] a by blast
  have "R \<noteq> Some (a + 16)"
  proof
    assume "R = Some (a + 16)"
    then obtain w' where "(a, w', True) \<in> all_blocks L" using mm by (auto simp: mm_def books_def reserve_ok_def)
    then show False using block_unique [OF mm w] by blast
  qed
  then have "mm_hole (h\<lparr>cache := K, reserve := R\<rparr>) L1 s n us (extent [(w, False)]) vs L2 C"
    by (intro punch) (use mm L ca in auto)
  then have ho: "mm_hole (h\<lparr>cache := K, reserve := R\<rparr>) L1 s n us (unat w) vs L2 C" by simp
  have B: "all_blocks L = insert (a, w, False) (around L1 s us (unat w) vs L2)"
    using blocks_split [of L1 s n us "[(w, False)]" vs L2] unfolding L by simp
  have aF: "a \<notin> free_of (around L1 s us (unat w) vs L2)" using hole_free_out [OF ho, of a] L(2) w0 by simp
  obtain h' where h': "zend_mm_remove_from_free_list a h = Some h'" "free_ok h' (free_of (all_blocks L) - {a})" "links_frame (free_of (all_blocks L)) h h'"
    using free_ok_remove [OF f a] by blast
  have "mm_hole (h'\<lparr>cache := K, reserve := R\<rparr>) L1 s n us (unat w) vs L2 C"
    by (rule hole_frame [OF ho frame_cache [OF h'(3)] free_not_cached [OF mm]])
  moreover have "free_of (all_blocks L) - {a} = free_of (around L1 s us (unat w) vs L2)" using aF unfolding B by auto
  moreover have "held_blocks (all_blocks L) C = held_blocks (around L1 s us (unat w) vs L2) C" unfolding B by (auto simp: held_blocks_def)
  ultimately have "opened K R C h' (held_blocks (all_blocks L) C) a (unat w)" using h'(2) L(2) unfolding opened_def by metis
  moreover have "ZEND_MM_CHECK_BLOCK_LINKAGE a h = Some ()"
  proof -
    have "headers (h\<lparr>cache := K, reserve := R\<rparr>) ZEND_MM_GUARD_BLOCK (s + 16) (us @ (w, False) # vs) (s + unat n - 16)"
      using mm L(1) by (simp add: mm_def layout_def seg_def)
    then have "headers h ZEND_MM_GUARD_BLOCK (s + 16) (us @ (w, False) # vs) (s + unat n - 16)" by (rule headers_cong) simp
    from chain_linkage [OF this L(2)] show ?thesis by simp
  qed
  moreover have "blk_size h a = Some w" using bh by (simp add: hdr_def type_of_def header_bits proper_def)
  ultimately show ?thesis using that h'(1,3) bh(2) by blast
qed

subsection \<open>Joining neighbours\<close>

lemma hole_next:
  assumes ho: "mm_hole h L1 s n us m ((w, False) # vs) L2 C"
  shows "mm_hole h L1 s n us (m + unat w) vs L2 C"
proof -
  have "split_seg h s n us (m + unat w) vs" using ho unfolding mm_hole_def split_seg_def by (auto simp: add.assoc)
  moreover have "books h (L1 @ (s, n, []) # L2) (around L1 s us m ((w, False) # vs) L2) C" using ho by (simp add: mm_hole_def)
  then have "books h (L1 @ (s, n, []) # L2) (around L1 s us (m + unat w) vs L2) C"
    by (rule books_cong) (auto simp: around_def add.assoc)
  ultimately show ?thesis using ho by (simp add: mm_hole_def)
qed

lemma hole_prev:
  assumes ho: "mm_hole h L1 s n (us @ [(w, False)]) m vs L2 C"
  shows "mm_hole h L1 s n us (unat w + m) vs L2 C"
proof -
  have "split_seg h s n us (unat w + m) vs" using ho unfolding mm_hole_def split_seg_def by (auto simp: run_append add.assoc)
  moreover have "books h (L1 @ (s, n, []) # L2) (around L1 s (us @ [(w, False)]) m vs L2) C" using ho by (simp add: mm_hole_def)
  then have "books h (L1 @ (s, n, []) # L2) (around L1 s us (unat w + m) vs L2) C"
    by (rule books_cong) (auto simp: around_def add.assoc)
  ultimately show ?thesis using ho by (simp add: mm_hole_def)
qed

lemma guard_bits: "guard_word AND ZEND_MM_USED_BLOCK \<noteq> 0" "guard_word AND ZEND_MM_TYPE_MASK = ZEND_MM_GUARD_BLOCK"
  "ZEND_MM_GUARD_BLOCK AND ZEND_MM_USED_BLOCK \<noteq> 0"
  by code_simp+

lemma hdr_free: "proper w \<Longrightarrow> (hdr w u AND ZEND_MM_USED_BLOCK = 0) = (\<not> u)" "proper w \<Longrightarrow> hdr w False = w"
  "proper w \<Longrightarrow> hdr w u AND NOT ZEND_MM_TYPE_MASK = w" "proper w \<Longrightarrow> hdr w u \<noteq> ZEND_MM_GUARD_BLOCK"
  "proper w \<Longrightarrow> hdr w u AND ZEND_MM_TYPE_MASK \<noteq> ZEND_MM_GUARD_BLOCK"
  using header_bits [of w] by (cases u; simp add: hdr_def type_of_def proper_def)+

lemma proper_add: "proper w \<Longrightarrow> proper w' \<Longrightarrow> unat w + unat w' < 2 ^ 64 \<Longrightarrow> proper (w + w') \<and> unat (w + w') = unat w + unat w'"
  by (simp add: proper_def unat_add)

lemma join_next_any:
  assumes o: "opened K R C h M p (unat m)" and m: "proper m"
  obtains d h' where "\<And>sz. join_next (p + unat m) sz h = Some (sz + d, h')" "opened K R C h' M p (unat (m + d))" "proper (m + d)"
    "unat (m + d) = unat m + unat d" "links_frame UNIV h h'" "ZEND_MM_IS_FREE_BLOCK (p + unat m) h = Some (d \<noteq> 0)"
    "d \<noteq> 0 \<Longrightarrow> blk_size h (p + unat m) = Some d \<and> zend_mm_remove_from_free_list (p + unat m) h = Some h'"
proof -
  obtain L1 s n us vs L2 where ho: "mm_hole (h\<lparr>cache := K, reserve := R\<rparr>) L1 s n us (unat m) vs L2 C"
    and f: "free_ok h (free_of (around L1 s us (unat m) vs L2))" and M: "M = held_blocks (around L1 s us (unat m) vs L2) C"
    and p: "p = s + 16 + extent us" using o unfolding opened_def by blast
  let ?a = "p + unat m"
  obtain xw where c: "headers (h\<lparr>cache := K, reserve := R\<rparr>) xw ?a vs (s + unat n - 16)" using ho p unfolding mm_hole_def split_seg_def by blast
  show ?thesis
  proof (cases "\<exists>w vs'. vs = (w, False) # vs'")
    case False
    then have nf: "ZEND_MM_IS_FREE_BLOCK ?a h = Some False"
      using c by (cases vs) (auto simp: ZEND_MM_IS_FREE_BLOCK_def guard_bits hdr_free)
    then have "join_next ?a sz h = Some (sz + 0, h)" for sz by (simp add: join_next_def)
    then show ?thesis by (rule that [of 0 h]) (use o m unframed_refl nf in simp_all)
  next
    case True
    then obtain w vs' where vs: "vs = (w, False) # vs'" by blast
    have w: "proper w" "blk_size h ?a = Some w" using c vs by (auto simp: hdr_free)
    have h1: "mm_hole (h\<lparr>cache := K, reserve := R\<rparr>) L1 s n us (unat m + unat w) vs' L2 C" by (rule hole_next) (use ho vs in simp)
    have B: "around L1 s us (unat m) vs L2 = insert (?a, w, False) (around L1 s us (unat m + unat w) vs' L2)"
      using p vs by (auto simp: around_def add.assoc)
    have aF: "?a \<in> free_of (around L1 s us (unat m) vs L2)" unfolding B by simp
    have "?a \<notin> free_of (around L1 s us (unat m + unat w) vs' L2)" using hole_free_out [OF h1, of ?a] p w(1) by (simp add: proper_def)
    then have F: "free_of (around L1 s us (unat m) vs L2) - {?a} = free_of (around L1 s us (unat m + unat w) vs' L2)" unfolding B by auto
    obtain h' where h': "zend_mm_remove_from_free_list ?a h = Some h'" "free_ok h' (free_of (around L1 s us (unat m) vs L2) - {?a})"
      "links_frame (free_of (around L1 s us (unat m) vs L2)) h h'" using free_ok_remove [OF f aF] by blast
    have h2: "mm_hole (h'\<lparr>cache := K, reserve := R\<rparr>) L1 s n us (unat m + unat w) vs' L2 C"
      by (rule hole_frame [OF h1 frame_cache [OF h'(3)] hole_around_free [OF ho]])
    have "M = held_blocks (around L1 s us (unat m + unat w) vs' L2) C" unfolding M B by (auto simp: held_blocks_def)
    then have o': "opened K R C h' M p (unat m + unat w)" using h2 h'(2) p unfolding F opened_def by blast
    have mw: "proper (m + w)" "unat (m + w) = unat m + unat w" using proper_add [OF m w(1)] opened_size [OF o'] by simp_all
    have fr: "ZEND_MM_IS_FREE_BLOCK ?a h = Some True" using w hdr_free(1) [OF w(1), of False] hdr_free(2) [OF w(1)] by (simp add: ZEND_MM_IS_FREE_BLOCK_def)
    then have "join_next ?a sz h = Some (sz + w, h')" for sz using w(2) h'(1) by (simp add: join_next_def)
    moreover have "w \<noteq> 0" using w(1) by (auto simp: proper_def)
    ultimately show ?thesis by (intro that [of w h']) (use o' mw frame_mono [OF h'(3)] fr w(2) h'(1) in simp_all)
  qed
qed

lemma join_next:
  assumes o: "opened K R C h M p (unat m)" and m: "proper m"
  obtains m' h' where "join_next (p + unat m) m h = Some (m', h')" "opened K R C h' M p (unat m')" "proper m'" "links_frame UNIV h h'"
  using join_next_any [OF assms] by metis

lemma join_prev:
  assumes o: "opened K R C h M p (unat m)" and m: "proper m"
  obtains p' m' h' where "join_prev p m h = Some (p', m', h')" "opened K R C h' M p' (unat m')" "proper m'" "links_frame UNIV h h'"
    "p' + unat m' = p + unat m"
proof -
  obtain L1 s n us vs L2 where ho: "mm_hole (h\<lparr>cache := K, reserve := R\<rparr>) L1 s n us (unat m) vs L2 C"
    and f: "free_ok h (free_of (around L1 s us (unat m) vs L2))" and M: "M = held_blocks (around L1 s us (unat m) vs L2) C"
    and p: "p = s + 16 + extent us" using o unfolding opened_def by blast
  obtain mw where c: "run (h\<lparr>cache := K, reserve := R\<rparr>) ZEND_MM_GUARD_BLOCK (s + 16) us mw p" "blk_prev h p = Some mw"
    using ho p unfolding mm_hole_def split_seg_def by auto
  show ?thesis
  proof (cases "\<exists>us' w. us = us' @ [(w, False)]")
    case False
    then have "ZEND_MM_PREV_BLOCK_IS_FREE p h = Some False"
      using c by (cases us rule: rev_cases) (auto simp: ZEND_MM_PREV_BLOCK_IS_FREE_def guard_bits hdr_free run_append)
    then have "join_prev p m h = Some (p, m, h)" by (simp add: join_prev_def)
    then show ?thesis using that o m unframed_refl by blast
  next
    case True
    then obtain w us' where us: "us = us' @ [(w, False)]" by blast
    define a where "a = s + 16 + extent us'"
    have w: "proper w" "mw = w" "p = a + unat w" "blk_size h a = Some w" using c(1) p unfolding us by (auto simp: hdr_free run_append a_def)
    have h1: "mm_hole (h\<lparr>cache := K, reserve := R\<rparr>) L1 s n us' (unat w + unat m) vs L2 C" by (rule hole_prev) (use ho us in simp)
    have B: "around L1 s us (unat m) vs L2 = insert (a, w, False) (around L1 s us' (unat w + unat m) vs L2)"
      using us by (auto simp: around_def add.assoc a_def)
    have aF: "a \<in> free_of (around L1 s us (unat m) vs L2)" unfolding B by simp
    have "a \<notin> free_of (around L1 s us' (unat w + unat m) vs L2)" using hole_free_out [OF h1, of a] w(1) by (simp add: proper_def a_def)
    then have F: "free_of (around L1 s us (unat m) vs L2) - {a} = free_of (around L1 s us' (unat w + unat m) vs L2)" unfolding B by auto
    obtain h' where h': "zend_mm_remove_from_free_list a h = Some h'" "free_ok h' (free_of (around L1 s us (unat m) vs L2) - {a})"
      "links_frame (free_of (around L1 s us (unat m) vs L2)) h h'" using free_ok_remove [OF f aF] by blast
    have h2: "mm_hole (h'\<lparr>cache := K, reserve := R\<rparr>) L1 s n us' (unat w + unat m) vs L2 C"
      by (rule hole_frame [OF h1 frame_cache [OF h'(3)] hole_around_free [OF ho]])
    have "M = held_blocks (around L1 s us' (unat w + unat m) vs L2) C" unfolding M B by (auto simp: held_blocks_def)
    then have o': "opened K R C h' M a (unat w + unat m)" using h2 h'(2) a_def unfolding F opened_def by blast
    have mw: "proper (m + w)" "unat (m + w) = unat w + unat m" using proper_add [OF m w(1)] opened_size [OF o'] by simp_all
    have "ZEND_MM_PREV_BLOCK_IS_FREE p h = Some True" using c(2) w(2) hdr_free(1) [OF w(1), of False] hdr_free(2) [OF w(1)] by (simp add: ZEND_MM_PREV_BLOCK_IS_FREE_def)
    moreover have "ZEND_MM_PREV_BLOCK p h = Some a"
      using c(2) w hdr_free(2) [OF w(1)] hdr_free(3) [OF w(1), of False] by (simp add: ZEND_MM_PREV_BLOCK_def)
    ultimately have "join_prev p m h = Some (a, m + w, h')" using w(4) h'(1) by (simp add: join_prev_def)
    then show ?thesis using that o' mw w(3) frame_mono [OF h'(3)] by simp
  qed
qed

subsection \<open>A whole segment\<close>

lemma fills_segment:
  assumes ho: "mm_hole h L1 s n us (unat m) vs L2 C"
  shows "fills_segment (s + 16 + extent us) m h = Some (us = [] \<and> vs = [])"
proof -
  let ?p = "s + 16 + extent us"
  obtain mw xw where c: "run h ZEND_MM_GUARD_BLOCK (s + 16) us mw ?p" "blk_prev h ?p = Some mw"
    "headers h xw (?p + unat m) vs (s + unat n - 16)" using ho unfolding mm_hole_def split_seg_def by blast
  have "ZEND_MM_IS_FIRST_BLOCK ?p h = Some (us = [])"
    using c(1,2) by (cases us rule: rev_cases) (auto simp: ZEND_MM_IS_FIRST_BLOCK_def hdr_free run_append)
  moreover have "ZEND_MM_IS_GUARD_BLOCK (ZEND_MM_BLOCK_AT ?p m) h = Some (vs = [])"
    using c(3) by (cases vs) (auto simp: ZEND_MM_IS_GUARD_BLOCK_def ZEND_MM_BLOCK_AT_def guard_bits hdr_free)
  ultimately show ?thesis unfolding fills_segment_def by (cases "us = []") (simp_all only: Option.bind.bind_lunit if_True if_False simp_thms)
qed

lemma find_segment:
  "seg_list h p (L1 @ (s, n, bs) # L2) \<Longrightarrow> distinct (map fst (L1 @ (s, n, bs) # L2)) \<Longrightarrow> seg_at r h = Some p \<Longrightarrow>
     find_segment s r h = Some (if L1 = [] then r else Next_segment (fst (last L1)))"
proof (induction L1 arbitrary: p r)
  case Nil
  then show ?case by (subst find_segment.simps) simp
next
  case (Cons x L1)
  obtain s' n' bs' where x: "x = (s', n', bs')" by (cases x)
  obtain q where q: "p = Some s'" "segs h s' = Some \<lparr>seg_size = n', next_segment = q\<rparr>" "seg_list h q (L1 @ (s, n, bs) # L2)"
    using Cons.prems(1) x by auto
  have "find_segment s (Next_segment s') h = Some (if L1 = [] then Next_segment s' else Next_segment (fst (last L1)))"
    by (rule Cons.IH [OF q(3)]) (use Cons.prems(2) q(2) in \<open>simp_all add: seg_at_def\<close>)
  moreover have "s' \<noteq> s" using Cons.prems(2) x by auto
  ultimately show ?case using Cons.prems(3) q(1) x by (subst find_segment.simps) simp
qed

lemma apart_distinct: "segs_apart L \<Longrightarrow> \<forall>(s, n, bs)\<in>set L. 0 < unat n \<Longrightarrow> distinct (map fst L)"
proof (induction L)
  case (Cons x L)
  obtain s n bs where x: "x = (s, n, bs)" by (cases x)
  have "s \<notin> fst ` set L"
  proof
    assume "s \<in> fst ` set L"
    then obtain n' bs' where y: "(s, n', bs') \<in> set L" by auto
    have "beside (s, n, bs) (s, n', bs')" using Cons.prems(1) x y by (auto simp: segs_apart_def)
    moreover have "0 < unat n" "0 < unat n'" using Cons.prems(2) x y by fastforce+
    ultimately show False by simp
  qed
  then show ?case using Cons x by (simp add: segs_apart_def)
qed simp

lemma cached_list_real: "cached_list (h\<lparr>cache := K, reserve := R, real_size := x\<rparr>) b xs = cached_list (h\<lparr>cache := K, reserve := R\<rparr>) b xs"
  by (induction xs arbitrary: b) simp_all

lemma seg_list_cut:
  "seg_list h p (L1 @ (s0, n0, b0) # (s, n, bs) # L2) \<Longrightarrow> distinct (map fst (L1 @ (s0, n0, b0) # (s, n, bs) # L2)) \<Longrightarrow>
     segs h s = Some sg \<Longrightarrow> \<forall>x. x \<noteq> s \<longrightarrow> segs h' x = ((segs h)(s0 \<mapsto> \<lparr>seg_size = n0, next_segment = next_segment sg\<rparr>)) x \<Longrightarrow>
     seg_list h' p (L1 @ (s0, n0, b0) # L2)"
proof (induction L1 arbitrary: p)
  case Nil
  then have "seg_list h (next_segment sg) L2" "s0 \<noteq> s" "s0 \<notin> fst ` set L2" "s \<notin> fst ` set L2" by auto
  moreover have "segs h' x = segs h x" if "x \<in> fst ` set L2" for x
  proof -
    have "x \<noteq> s" "x \<noteq> s0" using that Nil.prems(2) by auto
    then show ?thesis using Nil.prems(4) by simp
  qed
  then have "\<forall>(t, n, bs)\<in>set L2. segs h' t = segs h t" by force
  ultimately have "seg_list h' (next_segment sg) L2" "s0 \<noteq> s" using seg_list_cong [of h "next_segment sg" L2 h'] by simp_all
  then show ?case using Nil.prems(1,4) by simp
next
  case (Cons x L1)
  obtain s' n' bs' where x: "x = (s', n', bs')" by (cases x)
  obtain q where q: "p = Some s'" "segs h s' = Some \<lparr>seg_size = n', next_segment = q\<rparr>" "seg_list h q (L1 @ (s0, n0, b0) # (s, n, bs) # L2)"
    using Cons.prems(1) x by auto
  have "seg_list h' q (L1 @ (s0, n0, b0) # L2)" by (rule Cons.IH [OF q(3)]) (use Cons.prems(2-4) in simp_all)
  moreover have "segs h' s' = segs h s'" using Cons.prems(2,4) x by simp
  ultimately show ?case using q x by simp
qed

lemma del_segment:
  assumes ho: "mm_hole (h\<lparr>cache := K, reserve := R\<rparr>) L1 s n [] m [] L2 C" and f: "free_ok h (free_of (all_blocks (L1 @ L2)))"
  obtains h' where "zend_mm_del_segment s h = Some h'" "sound K R C h' (held_blocks (all_blocks (L1 @ L2)) C)" "bytes h' = bytes h" "reserve h' = reserve h"
    "cache h' = cache h"
proof -
  let ?g = "h\<lparr>cache := K, reserve := R\<rparr>"
  have o: "seg_list ?g (segments_list ?g) (L1 @ (s, n, []) # L2)" "segs_apart (L1 @ (s, n, []) # L2)" "\<forall>x\<in>set (L1 @ L2). seg ?g x"
    "split_seg ?g s n [] m []" "books ?g (L1 @ (s, n, []) # L2) (around L1 s [] m [] L2) C"
    using ho by (simp_all add: mm_hole_def)
  have n32: "32 \<le> unat n" using o(4) by (simp add: split_seg_def)
  have all: "segs_apart (L1 @ L2)" "\<forall>y\<in>set (L1 @ L2). beside (s, n, []) y" using o(2) unfolding apart_append by blast+
  have "0 < unat n'" if "(s', n', bs) \<in> set (L1 @ L2)" for s' n' bs
  proof -
    have "seg ?g (s', n', bs)" using o(3) that by blast
    then show ?thesis by (simp add: seg_def)
  qed
  then have pos: "\<forall>(s, n, bs)\<in>set (L1 @ (s, n, []) # L2). 0 < unat n" using n32 by auto
  have d: "distinct (map fst (L1 @ (s, n, []) # L2))" by (rule apart_distinct [OF o(2) pos])
  have l: "seg_list h (segments_list h) (L1 @ (s, n, []) # L2)" using seg_list_cong [OF o(1), of h] by simp
  define r where "r = (if L1 = [] then Segments_list else Next_segment (fst (last L1)))"
  have r: "find_segment s Segments_list h = Some r" using find_segment [OF l d, of Segments_list] by (simp add: r_def seg_at_def)
  obtain q where q: "segs h s = Some \<lparr>seg_size = n, next_segment = q\<rparr>" using seg_list_at [OF l, of s n "[]"] by auto
  define h1 where "h1 = (case r of Segments_list \<Rightarrow> h\<lparr>segments_list := q\<rparr>
     | Next_segment a \<Rightarrow> h\<lparr>segs := (segs h)(a \<mapsto> (the (segs h a))\<lparr>next_segment := q\<rparr>)\<rparr>)"
  have h1: "set_seg r q h = Some h1 \<and> segs h1 s = segs h s \<and>
    (\<forall>x sg. segs h1 x = Some sg \<longrightarrow> (\<exists>sg0. segs h x = Some sg0 \<and> seg_size sg0 = seg_size sg))"
  proof (cases L1 rule: rev_cases)
    case (snoc us x)
    obtain s0 n0 b0 where x: "x = (s0, n0, b0)" by (cases x)
    obtain q0 where "segs h s0 = Some \<lparr>seg_size = n0, next_segment = q0\<rparr>" using seg_list_at [OF l, of s0 n0 b0] snoc x by auto
    moreover have "s0 \<noteq> s" using d snoc x by auto
    ultimately show ?thesis using snoc x by (simp add: h1_def r_def set_seg_def)
  qed (simp add: h1_def r_def set_seg_def)
  define h2 where "h2 = h1\<lparr>real_size := real_size h1 - n\<rparr>"
  define h' where "h' = h2\<lparr>segs := (segs h2)(s := None),
       blk_size := (\<lambda>x. if within s n x then None else blk_size h2 x),
       blk_prev := (\<lambda>x. if within s n x then None else blk_prev h2 x)\<rparr>"
  have run: "zend_mm_del_segment s h = Some h'"
    using r q h1 by (simp add: zend_mm_del_segment_def ZEND_MM_STORAGE_FREE_def h'_def h2_def cong: if_cong)
  have e1: "real_size h1 = real_size h" "block_size h1 = block_size h" "cache h1 = cache h" "reserve h1 = reserve h" "prev_free h1 = prev_free h"
    "blk_size h1 = blk_size h" "blk_prev h1 = blk_prev h" "bytes h1 = bytes h" "next_free h1 = next_free h" "parent h1 = parent h" "ftree h1 = ftree h"
    "free_bitmap h1 = free_bitmap h" "large_free_bitmap h1 = large_free_bitmap h" "rest_count h1 = rest_count h"
    by (simp_all add: h1_def split: seg_ref.splits)
  have out: "blk_size h' x = blk_size h x" "blk_prev h' x = blk_prev h x" if "\<not> within s n x" for x
    using that e1 by (simp_all add: h'_def h2_def)
  have "seg (h'\<lparr>cache := K, reserve := R\<rparr>) x" if x: "x \<in> set (L1 @ L2)" for x
  proof -
    obtain s' n' bs where e: "x = (s', n', bs)" by (cases x)
    have s: "seg ?g (s', n', bs)" using o(3) x e by blast
    have b: "s + unat n \<le> s' \<or> s' + unat n' \<le> s" using all(2) x e by fastforce
    have "seg (h'\<lparr>cache := K, reserve := R\<rparr>) (s', n', bs)"
    proof (rule seg_cong [OF s], intro allI impI)
      fix y assume "s' \<le> y \<and> y < s' + unat n'"
      then have "\<not> within s n y" using b by (auto simp: within_def)
      then show "blk_size (h'\<lparr>cache := K, reserve := R\<rparr>) y = blk_size ?g y \<and> blk_prev (h'\<lparr>cache := K, reserve := R\<rparr>) y = blk_prev ?g y" using out by simp
    qed
    then show ?thesis by (simp only: e)
  qed
  moreover have "seg_list h' (segments_list h') (L1 @ L2)"
  proof (cases L1 rule: rev_cases)
    case Nil
    then have "seg_list h q L2" using l q by simp
    moreover have "s \<notin> fst ` set L2" using d Nil by simp
    moreover have "segs h' x = segs h x" if "x \<noteq> s" for x using that Nil by (simp add: h'_def h2_def h1_def r_def)
    ultimately have "seg_list h' q L2" by (elim seg_list_cong) fastforce
    then show ?thesis using Nil by (simp add: h'_def h2_def h1_def r_def)
  next
    case (snoc us x)
    obtain s0 n0 b0 where x: "x = (s0, n0, b0)" by (cases x)
    obtain q0 where q0: "segs h s0 = Some \<lparr>seg_size = n0, next_segment = q0\<rparr>" using seg_list_at [OF l, of s0 n0 b0] snoc x by auto
    have "seg_list h' (segments_list h) (us @ (s0, n0, b0) # L2)"
      by (rule seg_list_cut [of h _ us s0 n0 b0 s n "[]" L2, OF _ _ q])
        (use l d q0 snoc x in \<open>simp_all add: h'_def h2_def h1_def r_def\<close>)
    then show ?thesis using snoc x by (simp add: h'_def h2_def h1_def r_def)
  qed
  then have "seg_list (h'\<lparr>cache := K, reserve := R\<rparr>) (segments_list (h'\<lparr>cache := K, reserve := R\<rparr>)) (L1 @ L2)" using seg_list_cong [of h' "segments_list h'" "L1 @ L2" "h'\<lparr>cache := K, reserve := R\<rparr>"] by simp
  moreover have B: "around L1 s [] m [] L2 = all_blocks (L1 @ L2)" by (simp add: around_def)
  have "books (h'\<lparr>cache := K, reserve := R\<rparr>) (L1 @ L2) (all_blocks (L1 @ L2)) C"
  proof -
    have "books (?g\<lparr>real_size := real_size h - n\<rparr>) (L1 @ L2) (all_blocks (L1 @ L2)) C"
      using o(5) total_simps(1) [of L1 s n "[]" L2] unfolding B books_def
      by (simp add: block_size_ok_def cache_ok_def reserve_ok_def cached_list_real)
    then show ?thesis by (rule books_cong) (simp_all add: h'_def h2_def e1)
  qed
  ultimately have "mm (h'\<lparr>cache := K, reserve := R\<rparr>) (L1 @ L2) C" using all(1) by (simp add: mm_def layout_def)
  moreover have "free_ok h' (free_of (all_blocks (L1 @ L2)))"
  proof (rule free_ok_cong [OF f])
    show "\<forall>a\<in>free_of (all_blocks (L1 @ L2)). blk_size h' a = blk_size h a"
    proof
      fix a assume "a \<in> free_of (all_blocks (L1 @ L2))"
      then obtain w s' n' bs where x: "(s', n', bs) \<in> set (L1 @ L2)" "(a, w, False) \<in> seg_blocks (s', n', bs)" by (auto simp: free_of_def all_blocks_def)
      have "seg ?g (s', n', bs)" using o(3) x(1) by blast
      note b = seg_block_bounds [OF this x(2)]
      have "s + unat n \<le> s' \<or> s' + unat n' \<le> s" using all(2) x(1) by fastforce
      then have "\<not> within s n a" using b by (auto simp: within_def proper_def)
      then show "blk_size h' a = blk_size h a" by (rule out)
    qed
  qed (simp_all add: h'_def h2_def e1)
  ultimately have "sound K R C h' (held_blocks (all_blocks (L1 @ L2)) C)" by (rule mm_sound)
  then show ?thesis using that run by (simp add: h'_def h2_def e1)
qed

end
