(* ===== verification/Zend_Mm_Free_Correct.thy ===== *)
theory Zend_Mm_Free_Correct
  imports Zend_Mm_Blocks
begin

text \<open>
  \<open>zend_mm_free_int\<close> and \<open>zend_mm_free_cache\<close> keep the heap sound: a block given back goes into the cache,
  or to a free list together with its free neighbours, or away with its segment.
\<close>

subsection \<open>What soundness does not depend on\<close>

lemma sound_cong:
  assumes "sound K R C h M" and "blk_size h' = blk_size h" "blk_prev h' = blk_prev h" "segs h' = segs h" "segments_list h' = segments_list h"
    "real_size h' = real_size h" "block_size h' = block_size h" "prev_free h' = prev_free h" "next_free h' = next_free h" "parent h' = parent h"
    "ftree h' = ftree h" "free_bitmap h' = free_bitmap h" "large_free_bitmap h' = large_free_bitmap h" "rest_count h' = rest_count h"
  shows "sound K R C h' M"
proof -
  obtain L where mm: "mm (h\<lparr>cache := K, reserve := R\<rparr>) L C" and f: "free_ok h (free_of (all_blocks L))" and M: "M = held_blocks (all_blocks L) C"
    using assms(1) unfolding sound_def by blast
  have "mm (h'\<lparr>cache := K, reserve := R\<rparr>) L C" by (rule mm_cong [OF mm]) (use assms in simp_all)
  moreover have "free_ok h' (free_of (all_blocks L))" by (rule free_ok_cong [OF f]) (use assms in simp_all)
  ultimately show ?thesis using M unfolding sound_def by blast
qed

lemma sound_fields [simp]:
  "sound K R C (h\<lparr>heap_size := x\<rparr>) M = sound K R C h M" "sound K R C (h\<lparr>heap_peak := x\<rparr>) M = sound K R C h M"
  "sound K R C (h\<lparr>real_peak := x\<rparr>) M = sound K R C h M" "sound K R C (h\<lparr>cached := c\<rparr>) M = sound K R C h M"
  "sound K R C (h\<lparr>overflow := i\<rparr>) M = sound K R C h M" "sound K R C (h\<lparr>bytes := f\<rparr>) M = sound K R C h M"
  "sound K R C (h\<lparr>cache := K'\<rparr>) M = sound K R C h M" "sound K R C (h\<lparr>reserve := R'\<rparr>) M = sound K R C h M"
  by (rule iffI; erule sound_cong; simp)+

lemma opened_cong:
  assumes "opened K R C h M p m" and "blk_size h' = blk_size h" "blk_prev h' = blk_prev h" "segs h' = segs h" "segments_list h' = segments_list h"
    "real_size h' = real_size h" "block_size h' = block_size h" "prev_free h' = prev_free h" "next_free h' = next_free h" "parent h' = parent h"
    "ftree h' = ftree h" "free_bitmap h' = free_bitmap h" "large_free_bitmap h' = large_free_bitmap h" "rest_count h' = rest_count h"
  shows "opened K R C h' M p m"
proof -
  obtain L1 s n us vs L2 where ho: "mm_hole (h\<lparr>cache := K, reserve := R\<rparr>) L1 s n us m vs L2 C"
    and f: "free_ok h (free_of (around L1 s us m vs L2))" and M: "M = held_blocks (around L1 s us m vs L2) C"
    and p: "p = s + 16 + extent us" using assms(1) unfolding opened_def by blast
  have "mm_hole (h'\<lparr>cache := K, reserve := R\<rparr>) L1 s n us m vs L2 C" by (rule hole_cong [OF ho]) (use assms in simp_all)
  moreover have "free_ok h' (free_of (around L1 s us m vs L2))" by (rule free_ok_cong [OF f]) (use assms in simp_all)
  ultimately show ?thesis using M p unfolding opened_def by blast
qed

lemma opened_fields [simp]:
  "opened K R C (h\<lparr>heap_size := x\<rparr>) M p m = opened K R C h M p m" "opened K R C (h\<lparr>cached := c\<rparr>) M p m = opened K R C h M p m"
  "opened K R C (h\<lparr>heap_peak := x\<rparr>) M p m = opened K R C h M p m"
  by (rule iffI; erule opened_cong; simp)+

lemma sound_reserve: "sound K R C h M \<Longrightarrow> sound K None C h M"
proof -
  assume "sound K R C h M"
  then obtain L where mm: "mm (h\<lparr>cache := K, reserve := R\<rparr>) L C" and f: "free_ok h (free_of (all_blocks L))" and M: "M = held_blocks (all_blocks L) C"
    unfolding sound_def by blast
  have "mm (h\<lparr>cache := K, reserve := None\<rparr>) L C"
  proof -
    have l: "layout (h\<lparr>cache := K, reserve := R\<rparr>) L" "books (h\<lparr>cache := K, reserve := R\<rparr>) L (all_blocks L) C" using mm by (simp_all add: mm_def)
    have "layout (h\<lparr>cache := K, reserve := None\<rparr>) L"
      using l(1) seg_list_cong [of "h\<lparr>cache := K, reserve := R\<rparr>" "segments_list h" L "h\<lparr>cache := K, reserve := None\<rparr>"] seg_blocks_only
      unfolding layout_def by auto
    moreover have "books (h\<lparr>cache := K, reserve := None\<rparr>) L (all_blocks L) C"
      using l(2) cached_list_cong [of "h\<lparr>cache := K, reserve := R\<rparr>" _ _ "h\<lparr>cache := K, reserve := None\<rparr>"]
      unfolding books_def cache_ok_def by (auto simp: block_size_ok_def reserve_ok_def)
    ultimately show ?thesis by (simp add: mm_def)
  qed
  then show ?thesis using f M unfolding sound_def by blast
qed

text \<open>Held blocks do not overlap; a reserve is one of them.\<close>

lemma block_apart:
  assumes mm: "mm h L C" and a: "(a, w, u) \<in> all_blocks L" and b: "(b, w', u') \<in> all_blocks L" and "a \<noteq> b"
  shows "a + unat w \<le> b \<or> b + unat w' \<le> a"
proof -
  obtain s n bs where x: "(s, n, bs) \<in> set L" "(a, w, u) \<in> set (place (s + 16) bs)" using a by (auto simp: all_blocks_def seg_blocks_def)
  then obtain L1 L2 us vs where L: "L = L1 @ (s, n, us @ [(w, u)] @ vs) # L2" "a = s + 16 + extent us"
    using split_list [of "(s, n, bs)" L] place_split [of a w u "s + 16" bs] by fastforce
  have seg: "seg h (s, n, us @ [(w, u)] @ vs)" and ap: "segs_apart L" and sg: "\<forall>x\<in>set L. seg h x" using mm L(1) by (simp_all add: mm_def layout_def)
  then have "headers h ZEND_MM_GUARD_BLOCK (s + 16) (us @ [(w, u)] @ vs) (s + unat n - 16)" "32 \<le> unat n" by (simp_all add: seg_def)
  note e = chain_extent [OF this(1)] this(2)
  have "(b, w', u') \<in> around L1 s us (extent [(w, u)]) vs L2 \<union> set (place (s + 16 + extent us) [(w, u)])"
    using b unfolding L(1) blocks_split .
  then have "(b, w', u') \<in> around L1 s us (unat w) vs L2" using assms(4) L(2) by auto
  then consider "(b, w', u') \<in> all_blocks (L1 @ L2)" | "(b, w', u') \<in> set (place (s + 16) us)" | "(b, w', u') \<in> set (place (s + 16 + extent us + unat w) vs)"
    by (auto simp: around_def)
  then show ?thesis
  proof cases
    case 1
    then obtain s' n' bs' where y: "(s', n', bs') \<in> set (L1 @ L2)" "(b, w', u') \<in> seg_blocks (s', n', bs')" by (auto simp: all_blocks_def)
    then have "seg h (s', n', bs')" using sg L(1) by auto
    note bb = seg_block_bounds [OF this y(2)]
    have "\<forall>y\<in>set (L1 @ L2). beside (s, n, us @ [(w, u)] @ vs) y" using ap unfolding L(1) apart_append by blast
    then have "beside (s, n, us @ [(w, u)] @ vs) (s', n', bs')" using y(1) by blast
    then show ?thesis using bb e L(2) by auto
  next
    case 2
    then show ?thesis using place_bounds [OF 2] L(2) by simp
  next
    case 3
    then show ?thesis using place_bounds [OF 3] L(2) by simp
  qed
qed

lemma held_apart: "sound K R C h M \<Longrightarrow> (a, k) \<in> M \<Longrightarrow> (b, l) \<in> M \<Longrightarrow> (a, k) = (b, l) \<or> a + k \<le> b \<or> b + l \<le> a"
proof -
  assume a: "sound K R C h M" "(a, k) \<in> M" "(b, l) \<in> M"
  then obtain L w v where x: "mm (h\<lparr>cache := K, reserve := R\<rparr>) L C" "(a, w, True) \<in> all_blocks L" "(b, v, True) \<in> all_blocks L" "k = unat w" "l = unat v"
    by (auto simp: sound_def held_blocks_def)
  show ?thesis
  proof (cases "a = b")
    case True
    then show ?thesis using block_unique [OF x(1)] x(2-5) by blast
  qed (use block_apart [OF x(1-3)] x(4,5) in blast)
qed

lemma held_reserve: "sound K (Some p) C h M \<Longrightarrow> 16 \<le> p \<and> (\<exists>k. (p - 16, k) \<in> M)"
  by (auto simp: sound_def held_blocks_def mm_def books_def reserve_ok_def)

lemma held_size: "sound K R C h M \<Longrightarrow> (a, k) \<in> M \<Longrightarrow> 32 \<le> k"
proof -
  assume a: "sound K R C h M" "(a, k) \<in> M"
  then obtain L w where x: "mm (h\<lparr>cache := K, reserve := R\<rparr>) L C" "(a, w, True) \<in> all_blocks L" "k = unat w" by (auto simp: sound_def held_blocks_def)
  then show ?thesis using block_header(2) [OF x(1,2)] by (simp add: proper_def)
qed

subsection \<open>The cache\<close>

lemma cache_push:
  assumes so: "sound K R C h M" and a: "(a, k) \<in> M" and r: "R \<noteq> Some (a + 16)" and k: "k = 8 * (i + 4)" "i < 64"
  shows "sound (K[i := Blk a]) R (C(i := a # C i)) (h\<lparr>prev_free := (prev_free h)(Blk a \<mapsto> K ! i)\<rparr>) (M - {(a, k)})"
proof -
  obtain L where mm: "mm (h\<lparr>cache := K, reserve := R\<rparr>) L C" and f: "free_ok h (free_of (all_blocks L))" and M: "M = held_blocks (all_blocks L) C"
    using so unfolding sound_def by blast
  obtain w where w: "k = unat w" "(a, w, True) \<in> all_blocks L" "a \<notin> cached_set C" using a M by (auto simp: held_blocks_def)
  let ?h = "h\<lparr>prev_free := (prev_free h)(Blk a \<mapsto> K ! i)\<rparr>" and ?C = "C(i := a # C i)" and ?K = "K[i := Blk a]"
  have nc: "a \<notin> set (C j)" if "j < 64" for j using w(3) that by (auto simp: cached_set_def)
  have cs: "cached_set ?C = insert a (cached_set C)" using k(2) by (auto simp: cached_set_def split: if_splits)
  have co: "cache_ok (h\<lparr>cache := K, reserve := R\<rparr>) (all_blocks L) C" using mm by (simp add: mm_def books_def)
  have keep: "cached_list (?h\<lparr>cache := ?K, reserve := R\<rparr>) (K ! j) (C j)" if "j < 64" for j
    by (rule cached_list_cong [of "h\<lparr>cache := K, reserve := R\<rparr>"]) (use co that nc in \<open>auto simp: cache_ok_def\<close>)
  have "cache_ok (?h\<lparr>cache := ?K, reserve := R\<rparr>) (all_blocks L) ?C"
    using co keep nc w k unfolding cache_ok_def by (auto simp: nth_list_update)
  moreover have "reserve_ok (?h\<lparr>cache := ?K, reserve := R\<rparr>) (all_blocks L) ?C"
    using mm r unfolding mm_def books_def reserve_ok_def cs by auto
  ultimately have "books (?h\<lparr>cache := ?K, reserve := R\<rparr>) L (all_blocks L) ?C" using mm by (simp add: mm_def books_def block_size_ok_def)
  moreover have "layout (?h\<lparr>cache := ?K, reserve := R\<rparr>) L"
    using mm seg_list_cong [of "h\<lparr>cache := K, reserve := R\<rparr>" "segments_list h" L "?h\<lparr>cache := ?K, reserve := R\<rparr>"] seg_blocks_only
    unfolding mm_def layout_def by auto
  ultimately have mm': "mm (?h\<lparr>cache := ?K, reserve := R\<rparr>) L ?C" by (simp add: mm_def)
  have "a \<notin> free_of (all_blocks L)" using block_unique [OF mm w(2)] by (auto simp: free_of_def)
  then have "free_ok ?h (free_of (all_blocks L))" by (intro free_ok_cong [OF f]) auto
  from mm_sound [OF mm' this] have "sound ?K R ?C ?h (held_blocks (all_blocks L) ?C)" .
  moreover have "held_blocks (all_blocks L) ?C = M - {(a, k)}" unfolding M held_blocks_def cs using block_unique [OF mm w(2)] w(1) by auto
  ultimately show ?thesis by simp
qed

lemma cache_pop:
  assumes so: "sound K R C h M" and i: "i < 64" and c: "C i = a # cs"
  shows "K ! i = Blk a \<and> (\<exists>q w. prev_free h (Blk a) = Some q \<and> proper w \<and> unat w = 8 * (i + 4) \<and> blk_size h a = Some (hdr w True) \<and>
    sound (K[i := q]) R (C(i := cs)) h (insert (a, 8 * (i + 4)) M)) \<and> a \<notin> fst ` M \<and> R \<noteq> Some (a + 16)"
proof -
  obtain L where mm: "mm (h\<lparr>cache := K, reserve := R\<rparr>) L C" and f: "free_ok h (free_of (all_blocks L))" and M: "M = held_blocks (all_blocks L) C"
    using so unfolding sound_def by blast
  have co: "cache_ok (h\<lparr>cache := K, reserve := R\<rparr>) (all_blocks L) C" using mm by (simp add: mm_def books_def)
  then have l: "length K = 64" "cached_list (h\<lparr>cache := K, reserve := R\<rparr>) (K ! i) (a # cs)" "distinct (a # cs)"
    "\<exists>w. (a, w, True) \<in> all_blocks L \<and> unat w = 8 * (i + 4)" using i c by (auto simp: cache_ok_def)
  then obtain q where q: "K ! i = Blk a" "prev_free h (Blk a) = Some q" "cached_list (h\<lparr>cache := K, reserve := R\<rparr>) q cs" by auto
  obtain w where w: "(a, w, True) \<in> all_blocks L" "unat w = 8 * (i + 4)" using l(4) by blast
  note bh = block_header [OF mm w(1)]
  let ?C = "C(i := cs)" and ?K = "K[i := q]"
  have once: "a \<notin> set (C j)" if "j < 64" "j \<noteq> i" for j
  proof
    assume "a \<in> set (C j)"
    then obtain v where "(a, v, True) \<in> all_blocks L" "unat v = 8 * (j + 4)" using co \<open>j < 64\<close> unfolding cache_ok_def by blast
    then show False using block_unique [OF mm w(1)] w(2) that(2) by fastforce
  qed
  have split: "cached_set D = set (D i) \<union> (\<Union>j\<in>{..<64} - {i}. set (D j))" for D using i by (auto simp: cached_set_def)
  have cs: "cached_set C = insert a (cached_set ?C)" "a \<notin> cached_set ?C" using l(3) once unfolding split c by auto
  have "cached_list (h\<lparr>cache := ?K, reserve := R\<rparr>) (?K ! j) (?C j)" if "j < 64" for j
    by (rule cached_list_cong [of "h\<lparr>cache := K, reserve := R\<rparr>"]) (use co q(3) that l(1) i in \<open>auto simp: cache_ok_def nth_list_update\<close>)
  then have "cache_ok (h\<lparr>cache := ?K, reserve := R\<rparr>) (all_blocks L) ?C"
    using co l(3) c i unfolding cache_ok_def by auto
  moreover have "reserve_ok (h\<lparr>cache := ?K, reserve := R\<rparr>) (all_blocks L) ?C"
    using mm unfolding mm_def books_def reserve_ok_def cs(1) by auto
  ultimately have "books (h\<lparr>cache := ?K, reserve := R\<rparr>) L (all_blocks L) ?C" using mm by (simp add: mm_def books_def block_size_ok_def)
  moreover have "layout (h\<lparr>cache := ?K, reserve := R\<rparr>) L"
    using mm seg_list_cong [of "h\<lparr>cache := K, reserve := R\<rparr>" "segments_list h" L "h\<lparr>cache := ?K, reserve := R\<rparr>"] seg_blocks_only
    unfolding mm_def layout_def by auto
  ultimately have "mm (h\<lparr>cache := ?K, reserve := R\<rparr>) L ?C" by (simp add: mm_def)
  from mm_sound [OF this f] have "sound ?K R ?C h (held_blocks (all_blocks L) ?C)" .
  moreover have "held_blocks (all_blocks L) ?C = insert (a, 8 * (i + 4)) M"
  proof -
    have "v = w" if "(a, v, True) \<in> all_blocks L" for v using block_unique [OF mm w(1) that] by simp
    then have "((b, v, True) \<in> all_blocks L \<and> b \<notin> cached_set ?C) = ((b, v, True) \<in> all_blocks L \<and> b \<notin> cached_set C \<or> b = a \<and> v = w)" for b v
      unfolding cs(1) using cs(2) w(1) by blast
    then show ?thesis unfolding M held_blocks_def w(2) [symmetric] by auto
  qed
  moreover have "a \<notin> fst ` M" unfolding M held_blocks_def cs(1) by auto
  moreover have "R \<noteq> Some (a + 16)" using mm cs(1) by (auto simp: mm_def books_def reserve_ok_def)
  ultimately show ?thesis using q(1,2) bh w(2) by auto
qed

subsection \<open>To the free lists\<close>

interpretation free_list: free_sink "\<lambda>b n. zend_mm_add_to_free_list b"
proof
  fix h F a and n :: ulong
  assume "free_ok h F" "a \<notin> F" "sized h a"
  then show "\<exists>h'. zend_mm_add_to_free_list a h = Some h' \<and> free_ok h' (insert a F) \<and> links_frame (insert a F) h h'"
    by (rule free_ok_add) blast
qed

text \<open>What an operation leaves alone: the contents of the blocks and the reserve.\<close>

definition keeps :: "mm_heap \<Rightarrow> mm_heap \<Rightarrow> bool" where
  "keeps h h' \<longleftrightarrow> bytes h' = bytes h \<and> reserve h' = reserve h \<and> cache h' = cache h"

lemma keeps_refl [simp]: "keeps h h"
  by (simp add: keeps_def)

lemma keeps_trans: "keeps h h1 \<Longrightarrow> keeps h1 h2 \<Longrightarrow> keeps h h2"
  by (simp add: keeps_def)

lemma keeps_fields [simp]:
  "keeps (h\<lparr>heap_size := x\<rparr>) h' = keeps h h'" "keeps (h\<lparr>cached := c\<rparr>) h' = keeps h h'" "keeps (ZEND_MM_BLOCK p t w h) h' = keeps h h'"
  by (simp_all add: keeps_def ZEND_MM_BLOCK_def)

lemma frame_keeps: "links_frame F h h' \<Longrightarrow> keeps h h'"
  using frame_fields by (simp add: keeps_def)

text \<open>A hole that has been given a header in advance is still a hole.\<close>

lemma hole_written:
  assumes ho: "mm_hole h L1 s n us (unat w) vs L2 C" and w: "0 < unat w"
  shows "mm_hole (ZEND_MM_BLOCK (s + 16 + extent us) t w h) L1 s n us (unat w) vs L2 C"
proof -
  let ?p = "s + 16 + extent us"
  let ?h = "ZEND_MM_BLOCK ?p t w h"
  have o: "seg_list h (segments_list h) (L1 @ (s, n, []) # L2)" "segs_apart (L1 @ (s, n, []) # L2)" "\<forall>x\<in>set (L1 @ L2). seg h x"
    "split_seg h s n us (unat w) vs" "books h (L1 @ (s, n, []) # L2) (around L1 s us (unat w) vs L2) C"
    using ho by (simp_all add: mm_hole_def)
  note sb = split_seg_bounds [OF o(4)]
  have at: "blk_size ?h x = blk_size h x \<and> blk_prev ?h x = blk_prev h x" if "x < ?p \<or> ?p + unat w < x" for x
    using that by (auto simp: ZEND_MM_BLOCK_def ZEND_MM_BLOCK_AT_def)
  have "seg_list ?h (segments_list ?h) (L1 @ (s, n, []) # L2)"
    using seg_list_cong [OF o(1), of ?h] by (simp add: ZEND_MM_BLOCK_def)
  moreover have "seg ?h x" if x: "x \<in> set (L1 @ L2)" for x
  proof -
    obtain s' n' bs where e: "x = (s', n', bs)" by (cases x)
    have s: "seg h (s', n', bs)" using o(3) x e by blast
    have "\<forall>y\<in>set (L1 @ L2). beside (s, n, []) y" using o(2) unfolding apart_append by blast
    then have b: "s + unat n \<le> s' \<or> s' + unat n' \<le> s" using x e by fastforce
    have "seg ?h (s', n', bs)"
    proof (rule seg_cong [OF s], intro allI impI)
      fix y assume "s' \<le> y \<and> y < s' + unat n'"
      then have "y < ?p \<or> ?p + unat w < y" using b sb(2,3) by linarith
      then show "blk_size ?h y = blk_size h y \<and> blk_prev ?h y = blk_prev h y" by (rule at)
    qed
    then show ?thesis by (simp only: e)
  qed
  moreover have "split_seg ?h s n us (unat w) vs"
  proof -
    obtain mw xw where c: "run h ZEND_MM_GUARD_BLOCK (s + 16) us mw ?p" "blk_prev h ?p = Some mw"
      "headers h xw (?p + unat w) vs (s + unat n - 16)" using o(4) unfolding split_seg_def by blast
    have "run ?h ZEND_MM_GUARD_BLOCK (s + 16) us mw ?p" by (rule run_cong [OF c(1)]) (use at in blast)
    moreover have "blk_prev ?h ?p = Some mw" using c(2) w by (simp add: ZEND_MM_BLOCK_def ZEND_MM_BLOCK_AT_def)
    moreover have "headers ?h (t OR w) (?p + unat w) vs (s + unat n - 16)"
      by (rule chain_first [OF c(3)]) (use w in \<open>auto simp: ZEND_MM_BLOCK_def ZEND_MM_BLOCK_AT_def\<close>)
    ultimately show ?thesis using sb(2) unfolding split_seg_def by blast
  qed
  moreover have "books ?h (L1 @ (s, n, []) # L2) (around L1 s us (unat w) vs L2) C"
    by (rule books_cong [OF o(5)]) (simp_all add: ZEND_MM_BLOCK_def)
  ultimately show ?thesis using o(2) by (simp add: mm_hole_def)
qed

text \<open>A hole is given up: with its segment, if it fills it, or to a free list.\<close>

lemma release:
  assumes o: "opened K R C h M p (unat w)" and w: "proper w"
  obtains whole where "fills_segment p w h = Some whole" "fills_segment p w (ZEND_MM_BLOCK p t w h) = Some whole"
    "whole \<Longrightarrow> segment_of p \<noteq> None"
    "whole \<Longrightarrow> \<exists>h'. zend_mm_del_segment (the (segment_of p)) h = Some h' \<and> sound K R C h' M \<and> keeps h h'"
    "whole \<Longrightarrow> \<exists>h'. zend_mm_del_segment (the (segment_of p)) (ZEND_MM_BLOCK p t w h) = Some h' \<and> sound K R C h' M \<and> keeps h h'"
    "\<exists>h'. zend_mm_add_to_free_list p (ZEND_MM_BLOCK p ZEND_MM_FREE_BLOCK w h) = Some h' \<and> sound K R C h' M \<and> keeps h h'"
proof -
  obtain L1 s n us vs L2 where ho: "mm_hole (h\<lparr>cache := K, reserve := R\<rparr>) L1 s n us (unat w) vs L2 C"
    and f: "free_ok h (free_of (around L1 s us (unat w) vs L2))" and M: "M = held_blocks (around L1 s us (unat w) vs L2) C"
    and p: "p = s + 16 + extent us" using o unfolding opened_def by blast
  have w0: "0 < unat w" using w by (simp add: proper_def)
  let ?g = "ZEND_MM_BLOCK p t w h"
  have g: "(ZEND_MM_BLOCK p t w h)\<lparr>cache := K, reserve := R\<rparr> = ZEND_MM_BLOCK p t w (h\<lparr>cache := K, reserve := R\<rparr>)" by (simp add: ZEND_MM_BLOCK_def)
  have hg: "mm_hole (?g\<lparr>cache := K, reserve := R\<rparr>) L1 s n us (unat w) vs L2 C" unfolding g unfolding p by (rule hole_written [OF ho w0])
  have fg: "free_ok ?g (free_of (around L1 s us (unat w) vs L2))"
    by (rule free_ok_write [OF f]) (use hole_free_out [OF ho, of p] p w0 in simp)
  have plain: "fills_segment p w (h\<lparr>cache := K, reserve := R\<rparr>) = fills_segment p w h" for h
  proof -
    have "ZEND_MM_IS_FIRST_BLOCK p (h\<lparr>cache := K, reserve := R\<rparr>) = ZEND_MM_IS_FIRST_BLOCK p h"
      "ZEND_MM_IS_GUARD_BLOCK b (h\<lparr>cache := K, reserve := R\<rparr>) = ZEND_MM_IS_GUARD_BLOCK b h" for b
      by (simp_all add: ZEND_MM_IS_FIRST_BLOCK_def ZEND_MM_IS_GUARD_BLOCK_def)
    then show ?thesis by (simp only: fills_segment_def)
  qed
  have so: "segment_of p \<noteq> None" if "us = []" using that p by (simp add: segment_of_def)
  have del: "\<exists>h'. zend_mm_del_segment (the (segment_of p)) h0 = Some h' \<and> sound K R C h' M \<and> keeps h0 h'"
    if e: "us = [] \<and> vs = []" and "mm_hole (h0\<lparr>cache := K, reserve := R\<rparr>) L1 s n us (unat w) vs L2 C"
      "free_ok h0 (free_of (around L1 s us (unat w) vs L2))" for h0
  proof -
    have B: "around L1 s [] (unat w) [] L2 = all_blocks (L1 @ L2)" by (simp add: around_def)
    have "mm_hole (h0\<lparr>cache := K, reserve := R\<rparr>) L1 s n [] (unat w) [] L2 C" "free_ok h0 (free_of (all_blocks (L1 @ L2)))"
      using that unfolding B [symmetric] by simp_all
    from del_segment [OF this] obtain h' where h': "zend_mm_del_segment s h0 = Some h'" "sound K R C h' (held_blocks (all_blocks (L1 @ L2)) C)"
      "bytes h' = bytes h0" "reserve h' = reserve h0" "cache h' = cache h0" by metis
    moreover have "segment_of p = Some s" using e p by (simp add: segment_of_def)
    moreover have "M = held_blocks (all_blocks (L1 @ L2)) C" using M e unfolding B [symmetric] by simp
    ultimately show ?thesis by (simp add: keeps_def)
  qed
  from free_list.close_free [OF o w] obtain h' where "zend_mm_add_to_free_list p (ZEND_MM_BLOCK p ZEND_MM_FREE_BLOCK w h) = Some h'"
    "sound K R C h' M" "bytes h' = bytes h" "reserve h' = reserve h" "cache h' = cache h" by metis
  then have fin: "\<exists>h'. zend_mm_add_to_free_list p (ZEND_MM_BLOCK p ZEND_MM_FREE_BLOCK w h) = Some h' \<and> sound K R C h' M \<and> keeps h h'"
    by (simp add: keeps_def)
  have fs: "fills_segment p w h = Some (us = [] \<and> vs = [])" "fills_segment p w ?g = Some (us = [] \<and> vs = [])"
    using fills_segment [OF ho] fills_segment [OF hg] unfolding p [symmetric] plain .
  show ?thesis by (rule that [OF fs _ del [OF _ ho f] _ fin]) (use so del [OF _ hg fg] in simp_all)
qed

subsection \<open>\<open>zend_mm_free_int\<close>\<close>

lemma header_of: "ZEND_MM_HEADER_OF (a + 16) = Some a"
  by (simp add: ZEND_MM_HEADER_OF_def)

lemma held_block_size: "proper w \<Longrightarrow> blk_size h a = Some (hdr w u) \<Longrightarrow> ZEND_MM_BLOCK_SIZE a h = Some w"
  by (simp add: ZEND_MM_BLOCK_SIZE_def hdr_free)

lemma free_uncached:
  assumes o: "opened K R C h M a (unat w)" and w: "proper w" and k: "cache h = K"
  obtains h' where "do {
     (sz, h) \<leftarrow> join_next (ZEND_MM_BLOCK_AT a w) w h;
     (a, sz, h) \<leftarrow> join_prev a sz h;
     whole \<leftarrow> fills_segment a sz h;
     if whole then do { s \<leftarrow> segment_of a; zend_mm_del_segment s h }
     else zend_mm_add_to_free_list a (ZEND_MM_BLOCK a ZEND_MM_FREE_BLOCK sz h)
   } = Some h'" "sound K R C h' M" "keeps h h'"
proof -
  obtain w1 h1 where n: "join_next (a + unat w) w h = Some (w1, h1)" "opened K R C h1 M a (unat w1)" "proper w1" "links_frame UNIV h h1"
    using join_next [OF o w] by metis
  obtain b w2 h2 where p: "join_prev a w1 h1 = Some (b, w2, h2)" "opened K R C h2 M b (unat w2)" "proper w2" "links_frame UNIV h1 h2"
    using join_prev [OF n(2,3)] by metis
  have k2: "keeps h h2" using n(4) p(4) frame_keeps keeps_trans by blast
  obtain whole where r: "fills_segment b w2 h2 = Some whole" "whole \<Longrightarrow> segment_of b \<noteq> None"
    "whole \<Longrightarrow> \<exists>h'. zend_mm_del_segment (the (segment_of b)) h2 = Some h' \<and> sound K R C h' M \<and> keeps h2 h'"
    "\<exists>h'. zend_mm_add_to_free_list b (ZEND_MM_BLOCK b ZEND_MM_FREE_BLOCK w2 h2) = Some h' \<and> sound K R C h' M \<and> keeps h2 h'"
    using release [OF p(2,3), of ZEND_MM_FREE_BLOCK] by metis
  have eq: "do {
     (sz, h) \<leftarrow> join_next (ZEND_MM_BLOCK_AT a w) w h;
     (a, sz, h) \<leftarrow> join_prev a sz h;
     whole \<leftarrow> fills_segment a sz h;
     if whole then do { s \<leftarrow> segment_of a; zend_mm_del_segment s h }
     else zend_mm_add_to_free_list a (ZEND_MM_BLOCK a ZEND_MM_FREE_BLOCK sz h)
   } = (if whole then do { s \<leftarrow> segment_of b; zend_mm_del_segment s h2 }
     else zend_mm_add_to_free_list b (ZEND_MM_BLOCK b ZEND_MM_FREE_BLOCK w2 h2))"
    using n(1) p(1) r(1) by (simp add: ZEND_MM_BLOCK_AT_def)
  show ?thesis
  proof (cases whole)
    case True
    then obtain s h' where "segment_of b = Some s" "zend_mm_del_segment s h2 = Some h'" "sound K R C h' M" "keeps h2 h'" using r(2,3) by auto
    then show ?thesis using that eq True keeps_trans [OF k2] by simp
  next
    case False
    then show ?thesis using that eq r(4) keeps_trans [OF k2] by auto
  qed
qed

theorem free_int:
  assumes so: "sound (cache h) R C h M" and a: "(a, k) \<in> M" and r: "R \<noteq> Some (a + 16)"
  obtains h' C' where "zend_mm_free_int (Some (a + 16)) h = Some h'" "sound (cache h') R C' h' (M - {(a, k)})"
    "bytes h' = bytes h" "reserve h' = reserve h"
proof -
  obtain w where w: "unat w = k" "proper w" "blk_size h a = Some (hdr w True)" "opened (cache h) R C h (M - {(a, k)}) a k"
    using open_held [OF so a r] by blast
  note bs = held_block_size [OF w(2,3)]
  show ?thesis
  proof (cases "ZEND_MM_SMALL_SIZE w \<and> cached h < ZEND_MM_CACHE_SIZE")
    case True
    define i where "i = ZEND_MM_BUCKET_INDEX w"
    have i: "i < 64" "k = 8 * (i + 4)" using bucket_index [of w] w(1,2) True by (simp_all add: i_def proper_def)
    let ?h = "h\<lparr>prev_free := (prev_free h)(Blk a \<mapsto> cache h ! i)\<rparr>"
    let ?h' = "?h\<lparr>cache := (cache h)[i := Blk a], cached := ucast (ucast (cached h) + w)\<rparr>"
    have "zend_mm_free_int (Some (a + 16)) h = Some ?h'"
      using True bs by (simp add: zend_mm_free_int_def header_of set_prev_free_def Let_def flip: i_def)
    moreover have "sound (cache ?h') R (C(i := a # C i)) ?h' (M - {(a, k)})" using cache_push [OF so a r i(2,1)] by simp
    ultimately show ?thesis using that by simp
  next
    case False
    let ?h = "h\<lparr>heap_size := heap_size h - w\<rparr>"
    have "opened (cache h) R C ?h (M - {(a, k)}) a (unat w)" using w(1,4) by simp
    from free_uncached [OF this w(2)] obtain h' where h': "do {
       (sz, h) \<leftarrow> join_next (ZEND_MM_BLOCK_AT a w) w ?h;
       (a, sz, h) \<leftarrow> join_prev a sz h;
       whole \<leftarrow> fills_segment a sz h;
       if whole then do { s \<leftarrow> segment_of a; zend_mm_del_segment s h }
       else zend_mm_add_to_free_list a (ZEND_MM_BLOCK a ZEND_MM_FREE_BLOCK sz h)
     } = Some h'" "sound (cache h) R C h' (M - {(a, k)})" "keeps ?h h'" by auto
    have k': "bytes h' = bytes h" "reserve h' = reserve h" "cache h' = cache h" using h'(3) by (simp_all add: keeps_def)
    have "zend_mm_free_int (Some (a + 16)) h = Some h'"
      using h'(1) by (simp only: zend_mm_free_int_def header_of Let_def option.case Option.bind.bind_lunit if_not_P [OF False] bs)
    then show ?thesis using that h'(2) k' by metis
  qed
qed

subsection \<open>\<open>zend_mm_free_cache\<close>\<close>

lemma sound_empty: "sound K R C h M \<Longrightarrow> i < 64 \<Longrightarrow> C i = [] \<Longrightarrow> K ! i = Null"
proof -
  assume a: "sound K R C h M" "i < 64" "C i = []"
  then obtain L where "cache_ok (h\<lparr>cache := K, reserve := R\<rparr>) (all_blocks L) C" unfolding sound_def mm_def books_def by blast
  then have "cached_list (h\<lparr>cache := K, reserve := R\<rparr>) (K ! i) (C i)" using a(2) by (simp add: cache_ok_def)
  then show ?thesis using a(3) by simp
qed

lemma free_cached:
  assumes "sound K R C h M" and "i < 64" and "C i = cs" and "length K = 64"
  shows "\<exists>h'. free_cached (K ! i) h = Some h' \<and> sound (K[i := Null]) R (C(i := [])) h' M \<and> keeps h h'"
  using assms
proof (induction cs arbitrary: K C h)
  case Nil
  then have n: "K ! i = Null" using sound_empty by blast
  then have "K[i := Null] = K" by (metis list_update_id)
  moreover have "C(i := []) = C" using Nil.prems(3) by auto
  ultimately show ?case using n Nil.prems(1) by (subst free_cached.simps) simp
next
  case (Cons a cs)
  have pop: "K ! i = Blk a \<and> (\<exists>q w. prev_free h (Blk a) = Some q \<and> proper w \<and> unat w = 8 * (i + 4) \<and> blk_size h a = Some (hdr w True) \<and>
    sound (K[i := q]) R (C(i := cs)) h (insert (a, 8 * (i + 4)) M)) \<and> a \<notin> fst ` M \<and> R \<noteq> Some (a + 16)"
    using cache_pop Cons.prems(1-3) by blast
  then obtain q w where q: "prev_free h (Blk a) = Some q" "proper w" "unat w = 8 * (i + 4)" "blk_size h a = Some (hdr w True)"
    "sound (K[i := q]) R (C(i := cs)) h (insert (a, 8 * (i + 4)) M)" by blast
  have a: "K ! i = Blk a" "a \<notin> fst ` M" "R \<noteq> Some (a + 16)" using pop by simp_all
  let ?K = "K[i := q]" and ?C = "C(i := cs)"
  have "insert (a, 8 * (i + 4)) M - {(a, 8 * (i + 4))} = M" using a(2) by force
  then have "opened ?K R ?C h M a (unat w)" using open_held [OF q(5) _ a(3), of "8 * (i + 4)"] q(3) by (metis insertI1)
  let ?h = "h\<lparr>cached := ucast (ucast (cached h) - w)\<rparr>"
  have o: "opened ?K R ?C ?h M a (unat w)" using \<open>opened ?K R ?C h M a (unat w)\<close> by simp
  obtain b w1 h1 where p: "join_prev a w ?h = Some (b, w1, h1)" "opened ?K R ?C h1 M b (unat w1)" "proper w1" "links_frame UNIV ?h h1"
    "b + unat w1 = a + unat w" using join_prev [OF o q(2)] by metis
  obtain w2 h2 where n: "join_next (b + unat w1) w1 h1 = Some (w2, h2)" "opened ?K R ?C h2 M b (unat w2)" "proper w2" "links_frame UNIV h1 h2"
    using join_next [OF p(2,3)] by metis
  have k2: "keeps h h2" using keeps_trans [OF frame_keeps [OF p(4)] frame_keeps [OF n(4)]] by simp
  let ?g = "ZEND_MM_BLOCK b ZEND_MM_FREE_BLOCK w2 h2"
  obtain whole where r: "fills_segment b w2 ?g = Some whole" "whole \<Longrightarrow> segment_of b \<noteq> None"
    "whole \<Longrightarrow> \<exists>h'. zend_mm_del_segment (the (segment_of b)) ?g = Some h' \<and> sound ?K R ?C h' M \<and> keeps h2 h'"
    "\<exists>h'. zend_mm_add_to_free_list b ?g = Some h' \<and> sound ?K R ?C h' M \<and> keeps h2 h'"
    using release [OF n(2,3), of ZEND_MM_FREE_BLOCK] by metis
  obtain h3 where h3: "(if whole then do { s \<leftarrow> segment_of b; zend_mm_del_segment s ?g } else zend_mm_add_to_free_list b ?g) = Some h3"
    "sound ?K R ?C h3 M" "keeps h2 h3"
    using r(2-4) by (cases whole) auto
  have sz: "ZEND_MM_BLOCK_SIZE b ?g = Some w2" using n(3) hdr_free(3) [OF n(3), of False]
    by (simp add: ZEND_MM_BLOCK_SIZE_def ZEND_MM_BLOCK_def hdr_def type_of_def)
  have "free_cached (K ! i) h = free_cached q h3"
    using a(1) held_block_size [OF q(2,4)] q(1) p(1,5) n(1) sz r(1) h3(1) unfolding free_cached.simps [of "K ! i"]
    by (simp add: blk_addr_def Let_def ZEND_MM_BLOCK_AT_def)
  moreover have "\<exists>h'. free_cached (?K ! i) h3 = Some h' \<and> sound (?K[i := Null]) R (?C(i := [])) h' M \<and> keeps h3 h'"
    by (rule Cons.IH [OF h3(2)]) (use Cons.prems(2,4) in simp_all)
  moreover have "?K ! i = q" using Cons.prems(2,4) by simp
  ultimately show ?case using keeps_trans [OF keeps_trans [OF k2 h3(3)]] by (metis fun_upd_upd list_update_overwrite)
qed

lemma free_cache_from:
  assumes "sound (cache h) R C h M" and "set js \<subseteq> {..<64}" and "length (cache h) = 64"
  shows "\<exists>h' C'. free_cache_from js h = Some h' \<and> sound (cache h') R C' h' M \<and> bytes h' = bytes h \<and> reserve h' = reserve h"
  using assms
proof (induction js arbitrary: h C)
  case (Cons i js)
  show ?case
  proof (cases "cache h ! i = Null")
    case True
    then show ?thesis using Cons by auto
  next
    case False
    obtain h1 where h1: "free_cached (cache h ! i) h = Some h1" "sound ((cache h)[i := Null]) R (C(i := [])) h1 M" "keeps h h1"
      using free_cached [OF Cons.prems(1) _ refl Cons.prems(3), of i] Cons.prems(2) by auto
    let ?h = "h1\<lparr>cache := (cache h1)[i := Null]\<rparr>"
    have c: "cache h1 = cache h" using h1(3) by (simp add: keeps_def)
    have "\<exists>h' C'. free_cache_from js ?h = Some h' \<and> sound (cache h') R C' h' M \<and> bytes h' = bytes ?h \<and> reserve h' = reserve ?h"
      by (rule Cons.IH [of ?h "C(i := [])"]) (use h1(2) c Cons.prems(2,3) in \<open>simp_all add: fun_upd_def\<close>)
    then show ?thesis using h1(1,3) False by (auto simp: keeps_def)
  qed
qed auto

lemma sound_cache_length: "sound K R C h M \<Longrightarrow> length K = 64"
  by (auto simp: sound_def mm_def books_def cache_ok_def)

theorem free_cache:
  assumes "sound (cache h) R C h M"
  obtains h' C' where "zend_mm_free_cache h = Some h'" "sound (cache h') R C' h' M" "bytes h' = bytes h" "reserve h' = reserve h"
proof -
  have "set [0..<64] \<subseteq> {..<64}" by auto
  from free_cache_from [OF assms this sound_cache_length [OF assms]] that show ?thesis
    unfolding zend_mm_free_cache_def ZEND_MM_NUM_BUCKETS_def by blast
qed

end
