(* ===== verification/Zend_Mm_Alloc_Correct.thy ===== *)
theory Zend_Mm_Alloc_Correct
  imports Zend_Mm_Free_Correct
begin

text \<open>
  \<open>zend_mm_alloc_int\<close> answers with a block that is large enough and was not in use, or it bails out; in
  either case the heap is sound.
\<close>

interpretation rest_list: free_sink "\<lambda>b n. zend_mm_add_to_rest_list b"
proof
  fix h F a and n :: ulong
  assume "free_ok h F" "a \<notin> F" "sized h a"
  then show "\<exists>h'. zend_mm_add_to_rest_list a h = Some h' \<and> free_ok h' (insert a F) \<and> links_frame (insert a F) h h'"
    by (rule free_ok_add_rest) blast
qed

interpretation either_list: free_sink "\<lambda>b n. if \<not> k then zend_mm_add_to_free_list b else zend_mm_add_to_rest_list b" for k
  using free_list.free_sink_axioms rest_list.free_sink_axioms by (cases k) simp_all

subsection \<open>Carving\<close>

lemma sound_raise [simp]: "sound K R C (raise_peak h) M = sound K R C h M" "keeps h (raise_peak h') = keeps h h'"
  by (simp_all add: raise_peak_def keeps_def)

context free_sink
begin

lemma carve:
  assumes o: "opened K R C h M p (unat b)" and b: "proper b" and t: "proper t" "unat t \<le> unat b"
  obtains w h' where "carve p b t add h = Some (w, h')" "unat t \<le> unat w" "sound K R C h' (insert (p, unat w) M)" "keeps h h'"
proof -
  have u: "unat (b - t) = unat b - unat t" using t(2) unat_sub by simp
  show ?thesis
  proof (cases "b - t < 32")
    case True
    then have "carve p b t add h = Some (b, ZEND_MM_BLOCK p ZEND_MM_USED_BLOCK b h)" by (simp add: carve_def)
    then show ?thesis using that t(2) close_used [OF o b] by (simp add: keeps_def ZEND_MM_BLOCK_def)
  next
    case False
    then have ge: "32 \<le> unat b - unat t" using u by (simp add: word_less_nat_alt not_less)
    then have pr: "proper (b - t)" using b t u by (simp add: proper_def dvd_diff_nat)
    let ?h = "ZEND_MM_BLOCK p ZEND_MM_USED_BLOCK t h"
    have "opened K R C h M p (unat t + (unat b - unat t))" using o t(2) by simp
    then have "opened K R C ?h (insert (p, unat t) M) (p + unat t) (unat (b - t))"
      using open_used [of K R C h M p t] t(1) ge u by simp
    from close_free [OF this pr] obtain h' where h': "add (p + unat t) (b - t) (ZEND_MM_BLOCK (p + unat t) ZEND_MM_FREE_BLOCK (b - t) ?h) = Some h'"
      "sound K R C h' (insert (p, unat t) M)" "bytes h' = bytes ?h" "reserve h' = reserve ?h" "cache h' = cache ?h" by metis
    have "carve p b t add h = Some (t, h')" using False h'(1) by (simp add: carve_def Let_def ZEND_MM_BLOCK_AT_def)
    then show ?thesis using that h'(2-5) by (simp add: keeps_def ZEND_MM_BLOCK_def)
  qed
qed

text \<open>The \<open>_prev\<close> of the block behind is written in any case.\<close>

lemma carve_behind:
  assumes "proper b" "proper t" "unat t \<le> unat b"
  shows "carve p b t add (h\<lparr>blk_prev := (blk_prev h)(p + unat b \<mapsto> x)\<rparr>) = carve p b t add h"
proof -
  have u: "unat (b - t) = unat b - unat t" using assms(3) unat_sub by simp
  have 1: "ZEND_MM_BLOCK p k b (h\<lparr>blk_prev := (blk_prev h)(p + unat b \<mapsto> x)\<rparr>) = ZEND_MM_BLOCK p k b h" for k
    by (simp add: ZEND_MM_BLOCK_def ZEND_MM_BLOCK_AT_def)
  have 2: "ZEND_MM_BLOCK (p + unat t) k' (b - t) (ZEND_MM_BLOCK p k t (h\<lparr>blk_prev := (blk_prev h)(p + unat b \<mapsto> x)\<rparr>)) =
      ZEND_MM_BLOCK (p + unat t) k' (b - t) (ZEND_MM_BLOCK p k t h)" for k k'
    using u assms(3) by (simp add: ZEND_MM_BLOCK_def ZEND_MM_BLOCK_AT_def fun_upd_twist)
  show ?thesis by (simp only: carve_def Let_def ZEND_MM_BLOCK_AT_def 1 2)
qed

end

lemma finish_alloc:
  assumes "opened K R C h M p (unat b)" and "proper b" and "proper t" "unat t \<le> unat b"
  obtains k h' where "finish_alloc p b t keep h = Some (Mm_ptr (p + 16), h')" "unat t \<le> k" "sound K R C h' (insert (p, k) M)" "keeps h h'"
proof -
  obtain w h1 where c: "carve p b t (\<lambda>b n. if \<not> keep then zend_mm_add_to_free_list b else zend_mm_add_to_rest_list b) h = Some (w, h1)"
    "unat t \<le> unat w" "sound K R C h1 (insert (p, unat w) M)" "keeps h h1"
    by (rule either_list.carve [where k = keep, OF assms])
  let ?h = "raise_peak (h1\<lparr>heap_size := heap_size h1 + w\<rparr>)"
  have "finish_alloc p b t keep h = Some (Mm_ptr (p + 16), ?h)" using c(1) by (simp add: finish_alloc_def ZEND_MM_DATA_OF_def)
  moreover have "sound K R C ?h (insert (p, unat w) M)" "keeps h ?h" using c(3,4) by (simp_all add: keeps_def raise_peak_def)
  ultimately show ?thesis using that c(2) by blast
qed

lemma take_free_block:
  assumes mm: "mm (h\<lparr>cache := K, reserve := R\<rparr>) L C" and f: "free_ok h (free_of (all_blocks L))" and a: "a \<in> free_of (all_blocks L)"
    and t: "proper t" "unat t \<le> bsz h a"
  obtains k h' where "take_free_block (Blk a) t h = Some (Mm_ptr (a + 16), h')" "unat t \<le> k"
    "sound K R C h' (insert (a, k) (held_blocks (all_blocks L) C))" "keeps h h'" "a \<notin> fst ` held_blocks (all_blocks L) C"
proof -
  obtain h1 w where h1: "blk_size h a = Some w" "proper w" "ZEND_MM_CHECK_BLOCK_LINKAGE a h = Some ()"
    "zend_mm_remove_from_free_list a h = Some h1" "opened K R C h1 (held_blocks (all_blocks L) C) a (unat w)" "links_frame (free_of (all_blocks L)) h h1"
    using open_free [OF mm f a] by metis
  have bs: "blk_size h1 a = Some w" using frame_fields [OF h1(6)] h1(1) by simp
  have tw: "unat t \<le> unat w" using t(2) h1(1) by (simp add: bsz_def)
  obtain k h' where k: "finish_alloc a w t False h1 = Some (Mm_ptr (a + 16), h')" "unat t \<le> k" "sound K R C h' (insert (a, k) (held_blocks (all_blocks L) C))" "keeps h1 h'"
    using finish_alloc [OF h1(5,2) t(1) tw] by metis
  have "take_free_block (Blk a) t h = Some (Mm_ptr (a + 16), h')"
    using h1(3,4) bs k(1) by (simp add: take_free_block_def blk_addr_def)
  moreover have "a \<notin> fst ` held_blocks (all_blocks L) C"
  proof
    assume "a \<in> fst ` held_blocks (all_blocks L) C"
    then obtain k where "(a, k) \<in> held_blocks (all_blocks L) C" by auto
    from opened_apart [OF h1(5) this] have "k = 0 \<or> unat w = 0" by linarith
    moreover have "sound K R C h (held_blocks (all_blocks L) C)" by (rule mm_sound [OF mm f])
    from held_size [OF this \<open>(a, k) \<in> held_blocks (all_blocks L) C\<close>] have "32 \<le> k" .
    ultimately show False using h1(2) by (simp add: proper_def)
  qed
  ultimately show ?thesis using that k(2,3) keeps_trans [OF frame_keeps [OF h1(6)] k(4)] by blast
qed

subsection \<open>A new segment\<close>

definition fresh_storage :: "(mm_heap \<Rightarrow> ulong \<Rightarrow> ptr) \<Rightarrow> mm_heap \<Rightarrow> bool" where
  "fresh_storage storage h \<longleftrightarrow> (\<forall>n s. storage h n = Some s \<longrightarrow>
     (\<forall>s' g. segs h s' = Some g \<longrightarrow> s + unat n \<le> s' \<or> s' + unat (seg_size g) \<le> s))"

lemma segment_size:
  assumes bo: "block_size_ok h" and t: "proper t" and n: "n = segment_size_for t h" and ok: "\<not> n < t"
  shows "unat t + 32 \<le> unat n" "8 dvd unat n"
proof -
  obtain k where k: "k < 64" "block_size h = push_bit k 1" "32 \<le> unat (block_size h)" using bo by (auto simp: block_size_ok_def)
  have "(2 :: nat) ^ k < 2 ^ 64" using k(1) by (intro power_strict_increasing) simp_all
  then have ub: "unat (block_size h) = 2 ^ k" using k(1) unfolding k(2) unsigned_push_bit_eq by (simp add: take_bit_nat_eq_self)
  have k5: "5 \<le> k"
  proof (rule ccontr)
    assume "\<not> 5 \<le> k"
    then have "(2 :: nat) ^ k \<le> 2 ^ 4" by (intro power_increasing) simp_all
    then show False using k(3) ub by simp
  qed
  have d8: "8 dvd (2 :: nat) ^ k" using le_imp_power_dvd [of 3 k "2 :: nat"] k5 by simp
  let ?B = "block_size h"
  have big: "unat (?B - 32) = 2 ^ k - 32" using unat_sub [of 32 ?B] k(3) ub by simp
  have "unat t + 32 \<le> unat n \<and> 8 dvd unat n"
  proof (cases "t > ?B - 32")
    case False
    then have "n = ?B" using n by (simp add: segment_size_for_def)
    moreover have "unat t \<le> 2 ^ k - 32" using False big by (simp add: word_less_nat_alt)
    ultimately show ?thesis using ub k(3) d8 by simp
  next
    case True
    have m: "?B - 1 = mask k" using k(2) by (simp add: mask_eq_exp_minus_1)
    have um: "unat (?B - 1) = 2 ^ k - 1" using unat_sub [of 1 ?B] k(3) ub by simp
    define u where "u = 32 + (?B - 1)"
    have uu: "unat u = 31 + 2 ^ k" "unat u < 2 ^ 64"
    proof -
      have "(2 :: nat) ^ k \<le> 2 ^ 63" using k(1) by (intro power_increasing) simp_all
      then show "unat u = 31 + 2 ^ k" "unat u < 2 ^ 64" using unat_add [of 32 "?B - 1"] um k(3) ub by (simp_all add: u_def)
    qed
    have tu: "t + 16 + 16 + (?B - 1) = t + u" by (simp add: u_def)
    have nn: "unat n = unat (t + u) div 2 ^ k * 2 ^ k"
    proof -
      have "n = (t + 16 + 16 + (?B - 1)) AND NOT (?B - 1)"
        using True unfolding n segment_size_for_def mm_sizes by (subst if_P) simp_all
      then have "n = (t + u) AND NOT (mask k)" unfolding tu unfolding m .
      then show ?thesis using and_not_low [of "t + u" k] unsigned_less [of "t + u", where ?'a = nat] k(1) by simp
    qed
    show ?thesis
    proof (cases "unat t + unat u < 2 ^ 64")
      case True
      then have q: "unat (t + u) = unat t + 32 + (2 ^ k - 1)" using unat_add [of t u] uu by simp
      have r: "x \<le> (x + (2 ^ k - 1)) div 2 ^ k * 2 ^ k" for x :: nat
      proof -
        have "(x + (2 ^ k - 1)) div 2 ^ k * 2 ^ k + (x + (2 ^ k - 1)) mod 2 ^ k = x + (2 ^ k - 1)" by (rule div_mult_mod_eq)
        moreover have "(x + (2 ^ k - 1)) mod 2 ^ k < 2 ^ k" by (rule mod_less_divisor) simp
        moreover have "(1 :: nat) \<le> 2 ^ k" by simp
        ultimately show ?thesis by linarith
      qed
      have "unat t + 32 \<le> unat n" using r [of "unat t + 32"] unfolding nn q .
      moreover have "8 dvd unat n" unfolding nn using d8 by simp
      ultimately show ?thesis ..
    next
      case False
      then have "unat (t + u) = unat t + unat u - 2 ^ 64" by (simp add: unat_plus_if_size word_size)
      then have "unat (t + u) < unat t" using uu(2) False by simp
      moreover have "unat n \<le> unat (t + u)" unfolding nn by (rule div_times_less_eq_dividend)
      ultimately show ?thesis using ok by (simp add: word_less_nat_alt)
    qed
  qed
  then show "unat t + 32 \<le> unat n" "8 dvd unat n" by simp_all
qed

text \<open>The segment with nothing in it yet; the word before the guard is not written before the block is.\<close>

lemma new_segment:
  assumes so: "sound K R C h M" and fresh: "\<forall>s' g. segs h s' = Some g \<longrightarrow> s + unat n \<le> s' \<or> s' + unat (seg_size g) \<le> s"
    and n: "64 \<le> unat n"
    and h1: "h1 = ZEND_MM_LAST_BLOCK (s + unat n - 16) (ZEND_MM_MARK_FIRST_BLOCK (s + 16) (h\<lparr>real_size := real_size h + n, real_peak := x,
        segs := (segs h)(s \<mapsto> \<lparr>seg_size = n, next_segment = segments_list h\<rparr>), segments_list := Some s\<rparr>))"
  shows "opened K R C (h1\<lparr>blk_prev := (blk_prev h1)(s + unat n - 16 \<mapsto> 0)\<rparr>) M (s + 16) (unat n - 32)"
proof -
  let ?h = "h1\<lparr>blk_prev := (blk_prev h1)(s + unat n - 16 \<mapsto> 0)\<rparr>"
  obtain L where mm: "mm (h\<lparr>cache := K, reserve := R\<rparr>) L C" and f: "free_ok h (free_of (all_blocks L))" and M: "M = held_blocks (all_blocks L) C"
    using so unfolding sound_def by blast
  let ?g = "h\<lparr>cache := K, reserve := R\<rparr>" and ?g' = "?h\<lparr>cache := K, reserve := R\<rparr>"
  have l: "seg_list h (segments_list h) L" "segs_apart L" "\<forall>x\<in>set L. seg ?g x" "books ?g L (all_blocks L) C"
    using mm seg_list_cong [of ?g "segments_list h" L h] by (auto simp: mm_def layout_def)
  have segs_apart: "s + unat n \<le> s' \<or> s' + unat n' \<le> s" "32 \<le> unat n'" if x: "(s', n', bs) \<in> set L" for s' n' bs
  proof -
    obtain q where "segs h s' = Some \<lparr>seg_size = n', next_segment = q\<rparr>" using seg_list_at [OF l(1) x] by blast
    from fresh [rule_format, OF this] show "s + unat n \<le> s' \<or> s' + unat n' \<le> s" by simp
    have "seg ?g (s', n', bs)" using l(3) x by blast
    then show "32 \<le> unat n'" by (simp add: seg_def)
  qed
  have out: "blk_size ?h x = blk_size h x \<and> blk_prev ?h x = blk_prev h x" if "x < s \<or> s + unat n \<le> x" for x
    using that n by (auto simp: h1 ZEND_MM_LAST_BLOCK_def ZEND_MM_MARK_FIRST_BLOCK_def)
  have "seg_list ?g' (segments_list ?g') ([] @ (s, n, []) # L)"
  proof -
    have "\<forall>(s', n', bs)\<in>set L. s' \<noteq> s" using segs_apart n by fastforce
    then have "seg_list ?g' (segments_list h) L"
      by (intro seg_list_cong [OF l(1)]) (auto simp: h1 ZEND_MM_LAST_BLOCK_def ZEND_MM_MARK_FIRST_BLOCK_def)
    then show ?thesis by (simp add: h1 ZEND_MM_LAST_BLOCK_def ZEND_MM_MARK_FIRST_BLOCK_def)
  qed
  moreover have "segs_apart ([] @ (s, n, []) # L)" unfolding apart_append using l(2) segs_apart by (auto simp: beside_def)
  moreover have "seg ?g' x" if x: "x \<in> set ([] @ L)" for x
  proof -
    obtain s' n' bs where e: "x = (s', n', bs)" by (cases x)
    have s: "seg ?g (s', n', bs)" and b: "s + unat n \<le> s' \<or> s' + unat n' \<le> s" using l(3) segs_apart x e by auto
    have "seg ?g' (s', n', bs)"
    proof (rule seg_cong [OF s], intro allI impI)
      fix y assume "s' \<le> y \<and> y < s' + unat n'"
      then have "y < s \<or> s + unat n \<le> y" using b by linarith
      from out [OF this] show "blk_size ?g' y = blk_size ?g y \<and> blk_prev ?g' y = blk_prev ?g y" by simp
    qed
    then show ?thesis by (simp only: e)
  qed
  moreover have "split_seg ?g' s n [] (unat n - 32) []"
  proof -
    have "s + 16 + (unat n - 32) = s + unat n - 16" "s + 16 \<noteq> s + unat n - 16" using n by simp_all
    then have "headers ?g' 0 (s + 16 + extent [] + (unat n - 32)) [] (s + unat n - 16)" "blk_prev ?g' (s + 16 + extent []) = Some ZEND_MM_GUARD_BLOCK"
      by (simp_all add: h1 ZEND_MM_LAST_BLOCK_def ZEND_MM_MARK_FIRST_BLOCK_def guard_word_def)
    then show ?thesis using n unfolding split_seg_def by auto
  qed
  moreover have B: "around [] s [] (unat n - 32) [] L = all_blocks L" by (simp add: around_def)
  have "books ?g' ([] @ (s, n, []) # L) (around [] s [] (unat n - 32) [] L) C"
  proof -
    have "books (?g\<lparr>real_size := real_size h + n\<rparr>) ((s, n, []) # L) (all_blocks L) C"
      using l(4) unfolding books_def by (simp add: block_size_ok_def cache_ok_def reserve_ok_def cached_list_real total_size_def add.commute)
    then show ?thesis unfolding B
      by (rule books_cong) (simp_all add: h1 ZEND_MM_LAST_BLOCK_def ZEND_MM_MARK_FIRST_BLOCK_def)
  qed
  ultimately have "mm_hole ?g' [] s n [] (unat n - 32) [] L C" unfolding mm_hole_def by blast
  moreover have "free_ok ?h (free_of (all_blocks L))"
  proof (rule free_ok_cong [OF f])
    show "\<forall>a\<in>free_of (all_blocks L). blk_size ?h a = blk_size h a"
    proof
      fix a assume "a \<in> free_of (all_blocks L)"
      then obtain w s' n' bs where x: "(s', n', bs) \<in> set L" "(a, w, False) \<in> seg_blocks (s', n', bs)" by (auto simp: free_of_def all_blocks_def)
      have "seg ?g (s', n', bs)" using l(3) x(1) by blast
      note b = seg_block_bounds [OF this x(2)]
      have "a < s \<or> s + unat n \<le> a" using b segs_apart(1) [OF x(1)] by (auto simp: proper_def)
      from out [OF this] show "blk_size ?h a = blk_size h a" ..
    qed
  qed (simp_all add: h1 ZEND_MM_LAST_BLOCK_def ZEND_MM_MARK_FIRST_BLOCK_def)
  ultimately show ?thesis using M unfolding opened_def B [symmetric]
    by (intro exI [of _ "[]"] exI [of _ s] exI [of _ n] exI [of _ L]) simp
qed

lemma raise_real_peak: "\<exists>x. raise_real_peak (h\<lparr>real_size := n\<rparr>) = h\<lparr>real_size := n, real_peak := x\<rparr>"
proof (cases "n > real_peak h")
  case False
  then have "raise_real_peak (h\<lparr>real_size := n\<rparr>) = h\<lparr>real_size := n, real_peak := real_peak h\<rparr>" by (simp add: raise_real_peak_def)
  then show ?thesis ..
qed (auto simp: raise_real_peak_def)

lemma place_segment:
  assumes so: "sound K R C h M" and fresh: "fresh_storage storage h" and st: "storage h n = Some s"
    and t: "proper t" "unat t + 32 \<le> unat n" "8 dvd unat n"
  obtains k h' where "finish_alloc (s + 16) (n - 16 - 16) t keep
      (ZEND_MM_LAST_BLOCK (ZEND_MM_BLOCK_AT (s + 16) (n - 16 - 16)) (ZEND_MM_MARK_FIRST_BLOCK (s + 16)
        (raise_real_peak (h\<lparr>real_size := real_size h + n\<rparr>)
          \<lparr>segs := (segs h)(s \<mapsto> \<lparr>seg_size = n, next_segment = segments_list h\<rparr>), segments_list := Some s\<rparr>))) = Some (Mm_ptr (s + 32), h')"
    "unat t \<le> k" "sound K R C h' (insert (s + 16, k) M)" "keeps h h'" "s + 16 \<notin> fst ` M"
proof -
  obtain x where x: "raise_real_peak (h\<lparr>real_size := real_size h + n\<rparr>) = h\<lparr>real_size := real_size h + n, real_peak := x\<rparr>"
    using raise_real_peak by blast
  have n64: "64 \<le> unat n" using t(1,2) by (simp add: proper_def)
  have b: "unat (n - 16 - 16) = unat n - 32" using unat_sub [of 16 n] unat_sub [of 16 "n - 16"] n64 by simp
  have e: "s + 16 + (unat n - 32) = s + unat n - 16" using n64 by simp
  have pb: "proper (n - 16 - 16)" using b t(3) n64 by (simp add: proper_def dvd_diff_nat)
  define h1 where "h1 = ZEND_MM_LAST_BLOCK (s + unat n - 16) (ZEND_MM_MARK_FIRST_BLOCK (s + 16) (h\<lparr>real_size := real_size h + n, real_peak := x,
      segs := (segs h)(s \<mapsto> \<lparr>seg_size = n, next_segment = segments_list h\<rparr>), segments_list := Some s\<rparr>))"
  have "\<forall>s' g. segs h s' = Some g \<longrightarrow> s + unat n \<le> s' \<or> s' + unat (seg_size g) \<le> s"
    using fresh st by (simp add: fresh_storage_def)
  from new_segment [OF so this n64 h1_def]
  have o: "opened K R C (h1\<lparr>blk_prev := (blk_prev h1)(s + unat n - 16 \<mapsto> 0)\<rparr>) M (s + 16) (unat (n - 16 - 16))" unfolding b .
  have tb: "unat t \<le> unat (n - 16 - 16)" using b t(2) by simp
  obtain k h' where f: "finish_alloc (s + 16) (n - 16 - 16) t keep (h1\<lparr>blk_prev := (blk_prev h1)(s + unat n - 16 \<mapsto> 0)\<rparr>) = Some (Mm_ptr (s + 16 + 16), h')"
    "unat t \<le> k" "sound K R C h' (insert (s + 16, k) M)" "keeps (h1\<lparr>blk_prev := (blk_prev h1)(s + unat n - 16 \<mapsto> 0)\<rparr>) h'"
    using finish_alloc [OF o pb t(1) tb] by metis
  have "finish_alloc (s + 16) (n - 16 - 16) t keep (h1\<lparr>blk_prev := (blk_prev h1)(s + unat n - 16 \<mapsto> 0)\<rparr>) = finish_alloc (s + 16) (n - 16 - 16) t keep h1"
    unfolding finish_alloc_def using either_list.carve_behind [OF pb t(1) tb, where p = "s + 16" and h = h1 and x = 0 and k = keep] unfolding b e by simp
  moreover have "s + 16 \<notin> fst ` M"
  proof
    assume "s + 16 \<in> fst ` M"
    then obtain k where k: "(s + 16, k) \<in> M" by auto
    have "32 \<le> k" by (rule held_size [OF so k])
    then show False using opened_apart [OF o k] b n64 by simp
  qed
  moreover have "keeps h h'" using f(4) by (simp add: keeps_def h1_def ZEND_MM_LAST_BLOCK_def ZEND_MM_MARK_FIRST_BLOCK_def)
  moreover have "s + 16 + 16 = s + 32" by simp
  ultimately show ?thesis using that f(1-3) unfolding x ZEND_MM_BLOCK_AT_def b e h1_def by simp
qed

subsection \<open>The outcome of an allocation\<close>

definition unreserved :: "mm_heap \<Rightarrow> (nat \<times> nat) set \<Rightarrow> (nat \<times> nat) set" where
  "unreserved h M = {(a, k). (a, k) \<in> M \<and> reserve h \<noteq> Some (a + 16)}"

definition alloc_outcome :: "mm_heap \<Rightarrow> (nat \<times> nat) set \<Rightarrow> nat \<Rightarrow> mm_result \<Rightarrow> mm_heap \<Rightarrow> bool" where
  "alloc_outcome h M n r h' \<longleftrightarrow> bytes h' = bytes h \<and> (case r of
       Mm_ptr p \<Rightarrow> 16 \<le> p \<and> p - 16 \<notin> fst ` M \<and> reserve h' = reserve h \<and> (\<exists>k \<ge> n + 16. mm_ok h' (insert (p - 16, k) M))
     | Bailout \<Rightarrow> reserve h' = None \<and> mm_ok h' (unreserved h M))"

lemma outcome_overflow [simp]: "alloc_outcome h M n r (h'\<lparr>overflow := x\<rparr>) = alloc_outcome h M n r h'"
  by (simp add: alloc_outcome_def mm_ok_def split: mm_result.splits)

lemma safe_error:
  assumes so: "sound (cache h) (reserve h) C h M"
  obtains h' where "zend_mm_safe_error h = Some (Bailout, h')" "alloc_outcome h M n Bailout h'"
proof (cases "reserve h")
  case None
  let ?h = "if overflow h = 0 then h\<lparr>overflow := 1\<rparr> else h\<lparr>overflow := 2\<rparr>"
  have "zend_mm_safe_error h = Some (Bailout, ?h)" using None by (simp add: zend_mm_safe_error_def)
  moreover have "unreserved h M = M" using None by (auto simp: unreserved_def)
  ultimately show ?thesis using that [of ?h] None so by (cases "overflow h = 0") (auto simp: alloc_outcome_def mm_ok_def)
next
  case (Some p)
  obtain k where k: "16 \<le> p" "(p - 16, k) \<in> M" using held_reserve so Some by metis
  obtain h1 C' where h1: "zend_mm_free_int (Some (p - 16 + 16)) h = Some h1" "sound (cache h1) None C' h1 (M - {(p - 16, k)})"
    "bytes h1 = bytes h" "reserve h1 = reserve h"
    by (rule free_int [OF sound_reserve [OF so] k(2)]) simp_all
  let ?h1 = "h1\<lparr>reserve := None\<rparr>"
  let ?h = "if overflow ?h1 = 0 then ?h1\<lparr>overflow := 1\<rparr> else ?h1\<lparr>overflow := 2\<rparr>"
  have "zend_mm_safe_error h = Some (Bailout, ?h)" using Some h1(1) k(1) by (simp add: zend_mm_safe_error_def Let_def)
  moreover have "l = k" if "(p - 16, l) \<in> M" for l
    using held_apart [OF so that k(2)] held_size [OF so that] held_size [OF so k(2)] by auto
  then have "unreserved h M = M - {(p - 16, k)}" using Some k(1) by (auto simp: unreserved_def)
  ultimately show ?thesis using that [of ?h] h1(2,3) by (cases "overflow h1 = 0") (auto simp: alloc_outcome_def mm_ok_def)
qed

lemma give_up:
  assumes so: "sound (cache h) (reserve h) C h M"
  obtains h' where "(do { h \<leftarrow> zend_mm_free_cache h; zend_mm_safe_error h }) = Some (Bailout, h')" "alloc_outcome h M n Bailout h'"
proof -
  obtain h1 C1 where h1: "zend_mm_free_cache h = Some h1" "sound (cache h1) (reserve h) C1 h1 M" "bytes h1 = bytes h" "reserve h1 = reserve h"
    using free_cache [OF so] by metis
  obtain h' where "zend_mm_safe_error h1 = Some (Bailout, h')" "alloc_outcome h1 M n Bailout h'"
    using safe_error [of h1 C1 M] h1(2,4) by metis
  then show ?thesis using that h1 by (auto simp: alloc_outcome_def unreserved_def)
qed

lemma outcome_ptr:
  assumes "sound (cache h) (reserve h) C h' (insert (a, k) M)" and "n + 16 \<le> k" and "keeps h h'" and "a \<notin> fst ` M"
  shows "alloc_outcome h M n (Mm_ptr (a + 16)) h'"
  using assms by (auto simp: alloc_outcome_def keeps_def mm_ok_def intro!: exI [of _ k])

lemma alloc_segment:
  assumes so: "sound (cache h) (reserve h) C h M" and fresh: "fresh_storage storage h" and t: "proper t" "n + 16 \<le> unat t"
  obtains r h' where "alloc_segment storage t h = Some (r, h')" "alloc_outcome h M n r h'"
proof -
  define m where "m = segment_size_for t h"
  have bo: "block_size_ok h" using so by (auto simp: sound_def mm_def books_def block_size_ok_def)
  show ?thesis
  proof (cases "m < t \<or> real_size h + m > mm_limit h \<or> storage h m = None")
    case True
    then have "alloc_segment storage t h = do { h \<leftarrow> zend_mm_free_cache h; zend_mm_safe_error h }"
      by (auto simp: alloc_segment_def Let_def simp flip: m_def split: option.splits)
    then show ?thesis using give_up [OF so, of n] that by metis
  next
    case False
    then obtain s where s: "storage h m = Some s" by auto
    note ms = segment_size [OF bo t(1) m_def]
    have m: "unat t + 32 \<le> unat m" "8 dvd unat m" using ms False by simp_all
    define keep where "keep = (t > block_size h - (ZEND_MM_ALIGNED_SEGMENT_SIZE + ZEND_MM_ALIGNED_HEADER_SIZE))"
    obtain k h' where f: "finish_alloc (s + 16) (m - 16 - 16) t keep
      (ZEND_MM_LAST_BLOCK (ZEND_MM_BLOCK_AT (s + 16) (m - 16 - 16)) (ZEND_MM_MARK_FIRST_BLOCK (s + 16)
        (raise_real_peak (h\<lparr>real_size := real_size h + m\<rparr>)
          \<lparr>segs := (segs h)(s \<mapsto> \<lparr>seg_size = m, next_segment = segments_list h\<rparr>), segments_list := Some s\<rparr>))) = Some (Mm_ptr (s + 32), h')"
      "unat t \<le> k" "sound (cache h) (reserve h) C h' (insert (s + 16, k) M)" "keeps h h'" "s + 16 \<notin> fst ` M"
      using place_segment [OF so fresh s t(1) m] by metis
    have "\<not> (m < t \<or> real_size h + m > mm_limit h)" using False by blast
    moreover have "segs (raise_real_peak (h\<lparr>real_size := real_size h + m\<rparr>)) = segs h" "segments_list (raise_real_peak (h\<lparr>real_size := real_size h + m\<rparr>)) = segments_list h"
      by (simp_all add: raise_real_peak_def)
    ultimately have "alloc_segment storage t h = Some (Mm_ptr (s + 32), h')"
      using f(1) s unfolding alloc_segment_def Let_def m_def [symmetric] keep_def [symmetric] by simp
    moreover have "alloc_outcome h M n (Mm_ptr (s + 16 + 16)) h'" by (rule outcome_ptr [OF f(3)]) (use f t(2) in simp_all)
    moreover have "s + 16 + 16 = s + 32" by simp
    ultimately show ?thesis using that by metis
  qed
qed

lemma take_outcome:
  assumes mm: "mm (h\<lparr>cache := cache h, reserve := reserve h\<rparr>) L C" and f: "free_ok h (free_of (all_blocks L))" and a: "a \<in> free_of (all_blocks L)"
    and t: "proper t" "n + 16 \<le> unat t" "unat t \<le> bsz h a"
  obtains r h' where "take_free_block (Blk a) t h = Some (r, h')" "alloc_outcome h (held_blocks (all_blocks L) C) n r h'"
proof -
  obtain k h' where k: "take_free_block (Blk a) t h = Some (Mm_ptr (a + 16), h')" "unat t \<le> k"
    "sound (cache h) (reserve h) C h' (insert (a, k) (held_blocks (all_blocks L) C))" "keeps h h'" "a \<notin> fst ` held_blocks (all_blocks L) C"
    using take_free_block [OF mm f a t(1,3)] by metis
  from outcome_ptr [OF k(3) _ k(4,5), of n] t(2) k(2) have "alloc_outcome h (held_blocks (all_blocks L) C) n (Mm_ptr (a + 16)) h'" by simp
  then show ?thesis using that k(1) by blast
qed

lemma alloc_large:
  assumes so: "sound (cache h) (reserve h) C h M" and fresh: "fresh_storage storage h" and t: "proper t" "n + 16 \<le> unat t"
  obtains r h' where "alloc_large storage t h = Some (r, h')" "alloc_outcome h M n r h'"
proof -
  obtain L where mm: "mm (h\<lparr>cache := cache h, reserve := reserve h\<rparr>) L C" and f: "free_ok h (free_of (all_blocks L))" and M: "M = held_blocks (all_blocks L) C"
    using so unfolding sound_def by blast
  have t0: "t \<noteq> 0" using t(1) by (auto simp: proper_def)
  obtain b where b: "zend_mm_search_large_block t h = Some b" "b = Null \<or> (\<exists>a\<in>free_of (all_blocks L). b = Blk a \<and> unat t \<le> bsz h a)"
    using free_ok_search [OF f t0] by metis
  obtain p c where c: "prev_free h Rest = Some p" "search_rest t p Null (- 1) h = Some c"
    "c = Null \<or> (\<exists>a\<in>free_of (all_blocks L). c = Blk a \<and> unat t \<le> bsz h a)"
    using free_ok_search_rest [OF f, of t] by metis
  define d where "d = (if b = Null \<and> real_size h \<ge> mm_limit h - block_size h then c else b)"
  have d: "d = Null \<or> (\<exists>a\<in>free_of (all_blocks L). d = Blk a \<and> unat t \<le> bsz h a)" using b(2) c(3) by (simp add: d_def)
  have step: "alloc_large storage t h = (if d = Null then alloc_segment storage t h else take_free_block d t h)"
    using b(1) c(1,2) by (auto simp: alloc_large_def d_def)
  from d show ?thesis
  proof
    assume "d = Null"
    then show ?thesis using alloc_segment [OF so fresh t] step that by metis
  next
    assume "\<exists>a\<in>free_of (all_blocks L). d = Blk a \<and> unat t \<le> bsz h a"
    then obtain a where a: "a \<in> free_of (all_blocks L)" "d = Blk a" "unat t \<le> bsz h a" by blast
    obtain r h' where "take_free_block (Blk a) t h = Some (r, h')" "alloc_outcome h M n r h'"
      using take_outcome [OF mm f a(1) t a(3)] unfolding M by metis
    then show ?thesis using step a(2) that by simp
  qed
qed

theorem alloc_int:
  assumes so: "sound (cache h) (reserve h) C h M" and fresh: "fresh_storage storage h"
  obtains r h' where "zend_mm_alloc_int storage sz h = Some (r, h')" "alloc_outcome h M (unat sz) r h'"
proof -
  define t where "t = ZEND_MM_TRUE_SIZE sz"
  show ?thesis
  proof (cases "ZEND_MM_SMALL_SIZE t")
    case False
    then have "\<not> 2 ^ 64 \<le> unat sz + 23" using true_size_overflow(2) unfolding t_def by blast
    then have "unat sz + 23 < 2 ^ 64" by simp
    then have t: "proper t" "unat sz + 16 \<le> unat t" using true_size [of sz] by (simp_all add: t_def proper_def)
    have "zend_mm_alloc_int storage sz h = alloc_large storage t h" using False by (simp add: zend_mm_alloc_int_def flip: t_def)
    then show ?thesis using alloc_large [OF so fresh t] that by metis
  next
    case small: True
    define i where "i = ZEND_MM_BUCKET_INDEX t"
    show ?thesis
    proof (cases "t < sz")
      case True
      then have "zend_mm_alloc_int storage sz h = zend_mm_safe_error h" using small by (simp add: zend_mm_alloc_int_def flip: t_def)
      then show ?thesis using safe_error [OF so] that by metis
    next
      case False
      then have "\<not> 2 ^ 64 \<le> unat sz + 23" using true_size_overflow(1) unfolding t_def by blast
      then have "unat sz + 23 < 2 ^ 64" by simp
      then have t: "proper t" "unat sz + 16 \<le> unat t" using true_size [of sz] by (simp_all add: t_def proper_def)
      have i: "i < 64" "unat t = 8 * (i + 4)" using bucket_index [of t] t(1) small by (simp_all add: i_def proper_def)
      show ?thesis
      proof (cases "C i")
        case (Cons a cs)
        obtain q where q: "cache h ! i = Blk a" "prev_free h (Blk a) = Some q" "a \<notin> fst ` M"
          "sound ((cache h)[i := q]) (reserve h) (C(i := cs)) h (insert (a, 8 * (i + 4)) M)"
          using cache_pop [of "cache h" "reserve h" C h M i a cs, OF so i(1) Cons] by blast
        let ?h = "h\<lparr>cache := (cache h)[i := q], cached := ucast (ucast (cached h) - t)\<rparr>"
        have "zend_mm_alloc_int storage sz h = Some (Mm_ptr (a + 16), ?h)"
          using small False q(1,2) by (simp add: zend_mm_alloc_int_def blk_addr_def ZEND_MM_DATA_OF_def Let_def flip: t_def i_def)
        moreover have "mm_ok ?h (insert (a, 8 * (i + 4)) M)" using q(4) by (auto simp: mm_ok_def)
        then have "alloc_outcome h M (unat sz) (Mm_ptr (a + 16)) ?h" using q(3) t(2) i(2) by (auto simp: alloc_outcome_def)
        ultimately show ?thesis using that by blast
      next
        case Nil
        then have nc: "cache h ! i = Null" using sound_empty [OF so i(1)] by simp
        show ?thesis
        proof (cases "drop_bit i (free_bitmap h) = 0")
          case True
          then have "zend_mm_alloc_int storage sz h = alloc_large storage t h"
            using small False nc by (simp add: zend_mm_alloc_int_def Let_def flip: t_def i_def)
          then show ?thesis using alloc_large [OF so fresh t] that by metis
        next
          case bm: False
          obtain L where mm: "mm (h\<lparr>cache := cache h, reserve := reserve h\<rparr>) L C" and f: "free_ok h (free_of (all_blocks L))" and M: "M = held_blocks (all_blocks L) C"
            using so unfolding sound_def by blast
          obtain m a where a: "zend_mm_low_bit (drop_bit i (free_bitmap h)) = Some m" "prev_free h (Small (i + m)) = Some (Blk a)"
            "a \<in> free_of (all_blocks L)" "8 * (i + 4) \<le> bsz h a" using free_ok_bucket [OF f bm] by metis
          have "zend_mm_alloc_int storage sz h = take_free_block (Blk a) t h"
            using small False nc bm a(1,2) by (simp add: zend_mm_alloc_int_def Let_def flip: t_def i_def)
          moreover obtain r h' where "take_free_block (Blk a) t h = Some (r, h')" "alloc_outcome h M (unat sz) r h'"
            using take_outcome [OF mm f a(3) t] a(4) i(2) unfolding M by metis
          ultimately show ?thesis using that by simp
        qed
      qed
    qed
  qed
qed

end
