(* ===== verification/Zend_Mm_Realloc_Correct.thy ===== *)
theory Zend_Mm_Realloc_Correct
  imports Zend_Mm_Alloc_Correct
begin

text \<open>
  \<open>zend_mm_realloc_int\<close>: the block it answers with is large enough and has the old contents, other blocks
  and their contents are as before, and the heap is sound.
\<close>

text \<open>The contents of the other blocks, and of the block itself as far as both sizes go.\<close>

definition data_kept :: "mm_heap \<Rightarrow> mm_heap \<Rightarrow> (nat \<times> nat) set \<Rightarrow> bool" where
  "data_kept h h' M \<longleftrightarrow> (\<forall>(b, l)\<in>M. \<forall>x. b + 16 \<le> x \<and> x < b + l \<longrightarrow> bytes h' x = bytes h x)"

definition moved :: "mm_heap \<Rightarrow> (nat \<times> nat) set \<Rightarrow> nat \<Rightarrow> nat \<Rightarrow> nat \<Rightarrow> mm_result \<Rightarrow> mm_heap \<Rightarrow> bool" where
  "moved h M a k n r h' \<longleftrightarrow> (case r of
       Mm_ptr p \<Rightarrow> 16 \<le> p \<and> (p = a + 16 \<or> p - 16 \<notin> fst ` (M - {(a, k)})) \<and> data_kept h h' (M - {(a, k)}) \<and> reserve h' = reserve h \<and>
         (\<forall>j. j < n \<and> j < k - 16 \<longrightarrow> bytes h' (p + j) = bytes h (a + 16 + j)) \<and>
         (\<exists>l \<ge> n + 16. mm_ok h' (insert (p - 16, l) (M - {(a, k)})))
     | Bailout \<Rightarrow> data_kept h h' M \<and> reserve h' = None \<and> mm_ok h' (unreserved h M))"

lemma data_kept_same: "bytes h' = bytes h \<Longrightarrow> data_kept h h' M"
  by (auto simp: data_kept_def)

lemma moved_in_place:
  assumes "sound (cache h) (reserve h) C h' (insert (a, l) (M - {(a, k)}))" and "keeps h h'" and "n + 16 \<le> l"
  shows "moved h M a k n (Mm_ptr (a + 16)) h'"
  using assms by (auto simp: moved_def keeps_def mm_ok_def data_kept_same intro!: exI [of _ l])

lemma moved_elsewhere:
  assumes "data_kept h h' (M - {(a, k)})" and "b \<notin> fst ` (M - {(a, k)})" and "mm_ok h' (insert (b, l) (M - {(a, k)}))" and "n + 16 \<le> l"
    and "\<And>j. j < k - 16 \<Longrightarrow> bytes h' (b + 16 + j) = bytes h (a + 16 + j)" and "reserve h' = reserve h"
  shows "moved h M a k n (Mm_ptr (b + 16)) h'"
  using assms unfolding moved_def by auto

subsection \<open>Smaller\<close>

lemma shrink_block:
  assumes so: "sound (cache h) (reserve h) C h M" and a: "(a, k) \<in> M" and r: "reserve h \<noteq> Some (a + 16)"
    and w: "unat w = k" and t: "proper t" "unat t \<le> k" "n + 16 \<le> unat t"
  obtains r h' where "shrink_block (a + 16) a t w h = Some (r, h')" "moved h M a k n r h'"
proof -
  obtain w' where w': "unat w' = k" "proper w'" "opened (cache h) (reserve h) C h (M - {(a, k)}) a k" using open_held [OF so a r] by blast
  have "w' = w" using w w'(1) by (simp add: word_unat_eq_iff)
  then have pw: "proper w" using w'(2) by simp
  have o: "opened (cache h) (reserve h) C h (M - {(a, k)}) a (unat w)" using w'(3) w by simp
  have u: "unat (w - t) = k - unat t" using unat_sub [of t w] t(2) w by simp
  have same: "insert (a, k) (M - {(a, k)}) = M" using a by auto
  show ?thesis
  proof (cases "w - t \<ge> 32")
    case False
    then have "shrink_block (a + 16) a t w h = Some (Mm_ptr (a + 16), h)" by (simp add: shrink_block_def)
    moreover have "moved h M a k n (Mm_ptr (a + 16)) h"
      by (rule moved_in_place [of _ C _ _ k]) (use so same t in simp_all)
    ultimately show ?thesis using that by blast
  next
    case True
    then have ge: "32 \<le> k - unat t" using u by (simp add: word_le_nat_alt)
    obtain d h1 where d: "\<And>sz. join_next (a + unat w) sz h = Some (sz + d, h1)" "opened (cache h) (reserve h) C h1 (M - {(a, k)}) a (unat (w + d))"
      "proper (w + d)" "unat (w + d) = unat w + unat d" "links_frame UNIV h h1"
      by (rule join_next_any [OF o pw]) blast
    let ?h = "ZEND_MM_BLOCK a ZEND_MM_USED_BLOCK t h1"
    have wd: "w - t + d = (w + d) - t" by simp
    have ur: "unat (w - t + d) = unat (w + d) - unat t" unfolding wd using unat_sub [of t "w + d"] d(4) w t(2) by simp
    have "unat t + (unat (w + d) - unat t) = unat (w + d)" using d(4) w t(2) by simp
    then have o2: "opened (cache h) (reserve h) C h1 (M - {(a, k)}) a (unat t + (unat (w + d) - unat t))" using d(2) by simp
    have "opened (cache h) (reserve h) C ?h (insert (a, unat t) (M - {(a, k)})) (a + unat t) (unat (w - t + d))"
      using open_used [OF o2 t(1)] unfolding ur using d(4) w ge by simp
    moreover have "proper (w - t + d)" using ur d(3,4) t(1) w ge by (simp add: proper_def dvd_diff_nat)
    ultimately obtain h2 where h2: "zend_mm_add_to_free_list (a + unat t) (ZEND_MM_BLOCK (a + unat t) ZEND_MM_FREE_BLOCK (w - t + d) ?h) = Some h2"
      "sound (cache h) (reserve h) C h2 (insert (a, unat t) (M - {(a, k)}))" "bytes h2 = bytes ?h" "reserve h2 = reserve ?h" "cache h2 = cache ?h"
      using free_list.close_free by metis
    let ?h' = "h2\<lparr>heap_size := heap_size h2 + (t - w)\<rparr>"
    have "shrink_block (a + 16) a t w h = Some (Mm_ptr (a + 16), ?h')"
      using True d(1) h2(1) by (simp add: shrink_block_def Let_def ZEND_MM_BLOCK_AT_def)
    moreover have "keeps h ?h'" using h2(3-5) frame_keeps [OF d(5)] by (simp add: keeps_def ZEND_MM_BLOCK_def)
    then have "moved h M a k n (Mm_ptr (a + 16)) ?h'" by (intro moved_in_place [of _ C _ _ "unat t"]) (use h2(2) t(3) in simp_all)
    ultimately show ?thesis using that by blast
  qed
qed

subsection \<open>From the cache\<close>

lemma memcpy_bytes: "bytes (memcpy to from n h) x = (if within to n x then bytes h (x - to + from) else bytes h x)"
  by (simp add: memcpy_def)

lemma sound_memcpy [simp]: "sound K R C (memcpy to from n h) M = sound K R C h M"
  by (simp add: memcpy_def)

lemma copied:
  assumes so: "sound K R C h0 (insert (b, l) M)" and b: "b \<notin> fst ` M" and a: "(a, k) \<in> M" and l: "k \<le> l" and w: "unat w = k"
    and by0: "bytes h1 = bytes h"
  shows "data_kept h (memcpy (b + 16) (a + 16) (w - 16) h1) M"
    and "j < k - 16 \<Longrightarrow> bytes (memcpy (b + 16) (a + 16) (w - 16) h1) (b + 16 + j) = bytes h (a + 16 + j)"
proof -
  have k32: "32 \<le> k" using held_size [OF so, of a k] a by simp
  have u: "unat (w - 16) = k - 16" using unat_sub [of 16 w] w k32 by simp
  show "j < k - 16 \<Longrightarrow> bytes (memcpy (b + 16) (a + 16) (w - 16) h1) (b + 16 + j) = bytes h (a + 16 + j)"
  proof -
    assume "j < k - 16"
    then have "within (b + 16) (w - 16) (b + 16 + j)" unfolding within_def u by simp
    moreover have "b + 16 + j - (b + 16) + (a + 16) = a + 16 + j" by simp
    ultimately show ?thesis by (simp only: memcpy_bytes if_True by0)
  qed
  show "data_kept h (memcpy (b + 16) (a + 16) (w - 16) h1) M"
    unfolding data_kept_def
  proof (intro ballI, clarify)
    fix c m x assume c: "(c, m) \<in> M" "c + 16 \<le> x" "x < c + m"
    have "(c, m) \<noteq> (b, l)" using b c(1) by force
    then have "c + m \<le> b \<or> b + l \<le> c" using held_apart [OF so, of c m b l] c(1) by blast
    then have "\<not> within (b + 16) (w - 16) x" using c(2,3) l k32 unfolding within_def u by linarith
    then show "bytes (memcpy (b + 16) (a + 16) (w - 16) h1) x = bytes h x" by (simp add: memcpy_bytes by0)
  qed
qed

lemma realloc_cached:
  assumes so: "sound (cache h) (reserve h) C h M" and a: "(a, k) \<in> M" and r: "reserve h \<noteq> Some (a + 16)"
    and w: "unat w = k" "proper w" and t: "proper t" "ZEND_MM_SMALL_SIZE t" "k < unat t" "n + 16 \<le> unat t"
    and c: "cache h ! ZEND_MM_BUCKET_INDEX t \<noteq> Null"
  obtains res h' where "realloc_cached (a + 16) a t w h = Some (res, h')" "moved h M a k n res h'"
proof -
  define i where "i = ZEND_MM_BUCKET_INDEX t"
  have i: "i < 64" "unat t = 8 * (i + 4)" using bucket_index [of t] t(1,2) by (simp_all add: i_def proper_def)
  define j where "j = ZEND_MM_BUCKET_INDEX w"
  have sw: "ZEND_MM_SMALL_SIZE w" using t(2,3) w(1) by (simp add: small_size)
  have j: "j < 64" "k = 8 * (j + 4)" using bucket_index [of w] w sw by (simp_all add: j_def proper_def)
  obtain b cs where C: "C i = b # cs" using sound_empty [OF so i(1)] c by (cases "C i") (auto simp: i_def)
  obtain q where q: "cache h ! i = Blk b" "prev_free h (Blk b) = Some q" "b \<notin> fst ` M"
    "sound ((cache h)[i := q]) (reserve h) (C(i := cs)) h (insert (b, unat t) M)"
    using cache_pop [of "cache h" "reserve h" C h M i b cs, OF so i(1) C] unfolding i(2) by blast
  let ?K = "(cache h)[i := q]" and ?C = "C(i := cs)"
  have ab: "a \<noteq> b" using a q(3) by force
  define h1 where "h1 = memcpy (b + 16) (a + 16) (w - 16) (h\<lparr>cache := ?K\<rparr>)\<lparr>cached := ucast (ucast (cached h) - (t - w))\<rparr>"
  have so1: "sound ?K (reserve h) ?C h1 (insert (b, unat t) M)" using q(4) by (simp add: h1_def)
  let ?h' = "h1\<lparr>prev_free := (prev_free h1)(Blk a \<mapsto> ?K ! j), cache := ?K[j := Blk a]\<rparr>"
  have "sound (?K[j := Blk a]) (reserve h) (?C(j := a # ?C j)) (h1\<lparr>prev_free := (prev_free h1)(Blk a \<mapsto> ?K ! j)\<rparr>) (insert (b, unat t) M - {(a, k)})"
    by (rule cache_push [OF so1 _ r j(2,1)]) (use a in simp)
  moreover have "insert (b, unat t) M - {(a, k)} = insert (b, unat t) (M - {(a, k)})" using ab by auto
  ultimately have s2: "sound (?K[j := Blk a]) (reserve h) (?C(j := a # ?C j)) ?h' (insert (b, unat t) (M - {(a, k)}))" by (simp only: sound_fields)
  have "cache ?h' = ?K[j := Blk a]" "reserve ?h' = reserve h" by (simp_all add: h1_def memcpy_def)
  then have "mm_ok ?h' (insert (b, unat t) (M - {(a, k)}))" using s2 unfolding mm_ok_def by metis
  moreover have by0: "bytes (h\<lparr>cache := ?K\<rparr>) = bytes h" by simp
  note cp = copied [OF q(4,3) a _ w(1) by0]
  have "data_kept h ?h' M" using cp(1) t(3) by (simp add: h1_def data_kept_def)
  then have "data_kept h ?h' (M - {(a, k)})" by (auto simp: data_kept_def)
  moreover have "bytes ?h' (b + 16 + x) = bytes h (a + 16 + x)" if "x < k - 16" for x using cp(2) [OF _ that] t(3) by (simp add: h1_def)
  moreover have "b \<notin> fst ` (M - {(a, k)})" using q(3) by auto
  moreover have "reserve ?h' = reserve h" by (simp add: h1_def memcpy_def)
  ultimately have "moved h M a k n (Mm_ptr (b + 16)) ?h'" using t(4) by (auto simp: moved_def)
  moreover have "realloc_cached (a + 16) a t w h = Some (Mm_ptr (b + 16), ?h')"
    using q(1,2) by (simp add: realloc_cached_def Let_def blk_addr_def ZEND_MM_DATA_OF_def set_prev_free_def h1_def memcpy_def flip: i_def j_def)
  ultimately show ?thesis using that by blast
qed

subsection \<open>Into the block behind\<close>

lemma carve_add_cong:
  assumes "\<And>g. \<not> b - t < 32 \<Longrightarrow> g = ZEND_MM_BLOCK (p + unat t) ZEND_MM_FREE_BLOCK (b - t) (ZEND_MM_BLOCK p ZEND_MM_USED_BLOCK t h) \<Longrightarrow> add (p + unat t) (b - t) g = add' (p + unat t) (b - t) g"
  shows "carve p b t add h = carve p b t add' h"
  using assms by (simp add: carve_def Let_def ZEND_MM_BLOCK_AT_def)

lemma opened_fills: "opened K R C h M p (unat m) \<Longrightarrow> proper m \<Longrightarrow> \<exists>whole. fills_segment p m h = Some whole"
  using release by metis

lemma grow_block:
  assumes so: "sound (cache h) (reserve h) C h M" and a: "(a, k) \<in> M" and r: "reserve h \<noteq> Some (a + 16)"
    and w: "unat w = k" and fr: "ZEND_MM_IS_FREE_BLOCK (a + k) h = Some True" and m: "blk_size h (a + k) = Some m"
    and t: "proper t" "k < unat t" "t \<le> w + m" "n + 16 \<le> unat t"
  obtains res h' where "grow_block (a + 16) a t w m h = Some (res, h')" "moved h M a k n res h'"
proof -
  obtain w' where w': "unat w' = k" "proper w'" "opened (cache h) (reserve h) C h (M - {(a, k)}) a k" using open_held [OF so a r] by blast
  have "w' = w" using w w'(1) by (simp add: word_unat_eq_iff)
  then have pw: "proper w" and o: "opened (cache h) (reserve h) C h (M - {(a, k)}) a (unat w)" using w' w by simp_all
  obtain d h1 where d: "opened (cache h) (reserve h) C h1 (M - {(a, k)}) a (unat (w + d))" "proper (w + d)" "unat (w + d) = unat w + unat d"
    "links_frame UNIV h h1" "ZEND_MM_IS_FREE_BLOCK (a + unat w) h = Some (d \<noteq> 0)"
    "d \<noteq> 0 \<Longrightarrow> blk_size h (a + unat w) = Some d \<and> zend_mm_remove_from_free_list (a + unat w) h = Some h1"
    by (rule join_next_any [OF o pw]) blast
  have dm: "d = m" "zend_mm_remove_from_free_list (a + k) h = Some h1" using d(5,6) fr m w by auto
  have tw: "unat t \<le> unat (w + m)" using t(3) by (simp add: word_le_nat_alt)
  obtain whole where fs: "fills_segment a (w + m) h1 = Some whole" using opened_fills d(1,2) dm(1) by blast
  let ?add = "\<lambda>b n h. do { whole \<leftarrow> with_next_fills_segment a b n h; if whole then zend_mm_add_to_rest_list b h else zend_mm_add_to_free_list b h }"
  have eq: "carve a (w + m) t ?add h1 = carve a (w + m) t (\<lambda>b n. if \<not> whole then zend_mm_add_to_free_list b else zend_mm_add_to_rest_list b) h1"
  proof (rule carve_add_cong)
    fix g assume big: "\<not> w + m - t < 32"
      and g: "g = ZEND_MM_BLOCK (a + unat t) ZEND_MM_FREE_BLOCK (w + m - t) (ZEND_MM_BLOCK a ZEND_MM_USED_BLOCK t h1)"
    have e: "a + unat t + unat (w + m - t) = a + unat (w + m)" "unat t < unat (w + m)"
      using unat_sub [OF tw] tw big by (simp_all add: word_less_nat_alt)
    have t0: "0 < unat t" using t(1) by (simp add: proper_def)
    have "blk_prev g a = blk_prev h1 a" using t0 e by (simp add: g ZEND_MM_BLOCK_def ZEND_MM_BLOCK_AT_def)
    moreover have "blk_size g (a + unat (w + m)) = blk_size h1 (a + unat (w + m))" using t0 e(2) by (simp add: g ZEND_MM_BLOCK_def)
    ultimately have "ZEND_MM_IS_FIRST_BLOCK a g = ZEND_MM_IS_FIRST_BLOCK a h1"
      "ZEND_MM_IS_GUARD_BLOCK (ZEND_MM_BLOCK_AT (a + unat t) (w + m - t)) g = ZEND_MM_IS_GUARD_BLOCK (ZEND_MM_BLOCK_AT a (w + m)) h1"
      by (simp_all add: ZEND_MM_IS_FIRST_BLOCK_def ZEND_MM_IS_GUARD_BLOCK_def ZEND_MM_BLOCK_AT_def e(1))
    then have "with_next_fills_segment a (a + unat t) (w + m - t) g = fills_segment a (w + m) h1"
      by (simp only: with_next_fills_segment_def fills_segment_def)
    then show "?add (a + unat t) (w + m - t) g = (if \<not> whole then zend_mm_add_to_free_list (a + unat t) else zend_mm_add_to_rest_list (a + unat t)) g"
      using fs by simp
  qed
  obtain l h2 where c: "carve a (w + m) t (\<lambda>b n. if \<not> whole then zend_mm_add_to_free_list b else zend_mm_add_to_rest_list b) h1 = Some (l, h2)"
    "unat t \<le> unat l" "sound (cache h) (reserve h) C h2 (insert (a, unat l) (M - {(a, k)}))" "keeps h1 h2"
    by (rule either_list.carve [where k = whole, OF d(1) [unfolded dm(1)] d(2) [unfolded dm(1)] t(1) tw])
  let ?h' = "raise_peak (h2\<lparr>heap_size := heap_size h2 + l - w\<rparr>)"
  have "grow_block (a + 16) a t w m h = Some (Mm_ptr (a + 16), ?h')"
    using dm(2) c(1) eq w by (simp add: grow_block_def ZEND_MM_BLOCK_AT_def)
  moreover have "keeps h ?h'" using keeps_trans [OF frame_keeps [OF d(4)] c(4)] by (simp add: keeps_def raise_peak_def)
  then have "moved h M a k n (Mm_ptr (a + 16)) ?h'" by (intro moved_in_place [of _ C _ _ "unat l"]) (use c(2,3) t(4) in simp_all)
  ultimately show ?thesis using that by blast
qed

subsection \<open>Elsewhere\<close>

lemma realloc_moved:
  assumes so: "sound (cache h) (reserve h) C h M" and fresh: "fresh_storage storage h" and a: "(a, k) \<in> M"
    and r: "reserve h \<noteq> Some (a + 16)" and w: "unat w = k" and k: "k \<le> unat sz + 16"
  obtains res h' where "realloc_moved storage (a + 16) w sz h = Some (res, h')" "moved h M a k (unat sz) res h'"
proof -
  obtain res h1 where h1: "zend_mm_alloc_int storage sz h = Some (res, h1)" "alloc_outcome h M (unat sz) res h1" using alloc_int [OF so fresh] by metis
  show ?thesis
  proof (cases res)
    case Bailout
    then have "realloc_moved storage (a + 16) w sz h = Some (Bailout, h1)" using h1(1) by (simp add: realloc_moved_def)
    moreover have "moved h M a k (unat sz) Bailout h1" using h1(2) Bailout by (simp add: moved_def alloc_outcome_def data_kept_same)
    ultimately show ?thesis using that by blast
  next
    case (Mm_ptr q)
    define b where "b = q - 16"
    obtain l C1 where b: "q = b + 16" "b \<notin> fst ` M" "reserve h1 = reserve h" "bytes h1 = bytes h" "unat sz + 16 \<le> l"
      "sound (cache h1) (reserve h1) C1 h1 (insert (b, l) M)"
      using h1(2) Mm_ptr by (auto simp: alloc_outcome_def mm_ok_def b_def)
    let ?h2 = "memcpy (b + 16) (a + 16) (w - 16) h1"
    have "sound (cache ?h2) (reserve h1) C1 ?h2 (insert (b, l) M)" using b(6) by (simp add: memcpy_def)
    from free_int [OF this, of a k] obtain h3 C3 where h3: "zend_mm_free_int (Some (a + 16)) ?h2 = Some h3"
      "sound (cache h3) (reserve h1) C3 h3 (insert (b, l) M - {(a, k)})" "bytes h3 = bytes ?h2" "reserve h3 = reserve ?h2"
      using a r b(3) by auto
    have "a \<noteq> b" using a b(2) by force
    then have m: "insert (b, l) M - {(a, k)} = insert (b, l) (M - {(a, k)})" by auto
    have kl: "k \<le> l" using k b(5) by simp
    note cp = copied [OF b(6,2) a kl w b(4)]
    have "data_kept h h3 (M - {(a, k)})" using cp(1) by (auto simp: data_kept_def h3(3))
    moreover have "bytes h3 (q + j) = bytes h (a + 16 + j)" if "j < k - 16" for j using cp(2) [OF that] by (simp add: h3(3) b(1))
    moreover have "mm_ok h3 (insert (b, l) (M - {(a, k)}))" using h3(2,4) unfolding m by (auto simp: mm_ok_def memcpy_def)
    moreover have "b \<notin> fst ` (M - {(a, k)})" using b(2) by auto
    moreover have "reserve h3 = reserve h" using h3(4) b(3) by (simp add: memcpy_def)
    ultimately have "moved h M a k (unat sz) (Mm_ptr q) h3" using b(1,5) by (auto simp: moved_def)
    moreover have "realloc_moved storage (a + 16) w sz h = Some (Mm_ptr q, h3)"
      using h1(1) Mm_ptr h3(1) b(1) by (simp add: realloc_moved_def)
    ultimately show ?thesis using that by blast
  qed
qed

subsection \<open>With the segment\<close>

fun seg_to :: "mm_heap \<Rightarrow> ptr \<Rightarrow> segment list \<Rightarrow> ptr \<Rightarrow> bool" where
  "seg_to h p [] e \<longleftrightarrow> p = e"
| "seg_to h p ((s, n, bs) # L) e \<longleftrightarrow> p = Some s \<and> (\<exists>q. segs h s = Some \<lparr>seg_size = n, next_segment = q\<rparr> \<and> seg_to h q L e)"

lemma seg_list_append: "seg_list h p (L1 @ L2) \<longleftrightarrow> (\<exists>q. seg_to h p L1 q \<and> seg_list h q L2)"
  by (induction L1 arbitrary: p) fastforce+

lemma seg_to_append: "seg_to h p (L1 @ L2) e \<longleftrightarrow> (\<exists>q. seg_to h p L1 q \<and> seg_to h q L2 e)"
  by (induction L1 arbitrary: p) fastforce+

lemma seg_to_cong: "seg_to h p L e \<Longrightarrow> \<forall>s\<in>fst ` set L. segs h' s = segs h s \<Longrightarrow> seg_to h' p L e"
  by (induction h p L e rule: seg_to.induct) auto

lemma find_segment_to:
  "seg_to h p L (Some s) \<Longrightarrow> s \<notin> fst ` set L \<Longrightarrow> seg_at r h = Some p \<Longrightarrow>
     find_segment s r h = Some (if L = [] then r else Next_segment (fst (last L)))"
proof (induction L arbitrary: p r)
  case Nil
  then show ?case by (subst find_segment.simps) simp
next
  case (Cons x L)
  obtain s' n' bs' where x: "x = (s', n', bs')" by (cases x)
  obtain q where q: "p = Some s'" "segs h s' = Some \<lparr>seg_size = n', next_segment = q\<rparr>" "seg_to h q L (Some s)"
    using Cons.prems(1) x by auto
  have "find_segment s (Next_segment s') h = Some (if L = [] then Next_segment s' else Next_segment (fst (last L)))"
    by (rule Cons.IH [OF q(3)]) (use Cons.prems(2) q(2) in \<open>simp_all add: seg_at_def\<close>)
  moreover have "s' \<noteq> s" using Cons.prems(2) x by auto
  ultimately show ?case using Cons.prems(3) q(1) x by (subst find_segment.simps) simp
qed

text \<open>The pointer to the segment is set anew; nothing happens if it stays where it is.\<close>

lemma relink_segment:
  assumes l: "seg_list h (segments_list h) (L1 @ (s, n, []) # L2)" and d: "distinct (map fst (L1 @ (s, n, []) # L2))"
    and s': "s' \<notin> fst ` set (L1 @ L2)" and q: "segs h s = Some \<lparr>seg_size = n, next_segment = q\<rparr>"
    and g: "segs g = (segs h)(s := None, s' \<mapsto> \<lparr>seg_size = m, next_segment = q\<rparr>)" "segments_list g = segments_list h"
  obtains r g' where "find_segment s Segments_list g = Some r \<or> s' = s"
    "s' \<noteq> s \<Longrightarrow> set_seg r (Some s') g = Some g'" "s' = s \<Longrightarrow> g' = g" "seg_list g' (segments_list g') (L1 @ (s', m, []) # L2)"
    "g' = g\<lparr>segs := segs g', segments_list := segments_list g'\<rparr>"
proof -
  obtain q1 where q1: "seg_to h (segments_list h) L1 q1" "q1 = Some s" "seg_list h q L2"
    using l q unfolding seg_list_append by auto
  have dd: "s \<notin> fst ` set L1" "s \<notin> fst ` set L2" "s' \<notin> fst ` set L1" "s' \<notin> fst ` set L2" "fst ` set L1 \<inter> fst ` set L2 = {}" "distinct (map fst L1)"
    using d s' by auto
  have to: "seg_to g (segments_list h) L1 (Some s)" by (rule seg_to_cong [OF q1(1) [unfolded q1(2)]]) (use dd g(1) in auto)
  define r where "r = (if L1 = [] then Segments_list else Next_segment (fst (last L1)))"
  have fr: "find_segment s Segments_list g = Some r"
    using find_segment_to [OF to dd(1), of Segments_list] g(2) by (simp add: r_def seg_at_def)
  have tail: "seg_list g' (Some s') ((s', m, []) # L2)" if "\<forall>x\<in>insert s' (fst ` set L2). segs g' x = segs g x" for g'
  proof -
    have "\<forall>x\<in>fst ` set L2. segs g' x = segs h x" using that g(1) dd by auto
    then have "seg_list g' q L2" by (intro seg_list_cong [OF q1(3)]) force
    then show ?thesis using that g(1) by simp
  qed
  show ?thesis
  proof (cases "s' = s")
    case True
    have "seg_list g (segments_list g) (L1 @ (s', m, []) # L2)" unfolding seg_list_append g(2) using to tail [of g] True by auto
    then show ?thesis using that [of r g] True by simp
  next
    case False
    show ?thesis
    proof (cases L1 rule: rev_cases)
      case Nil
      let ?g = "g\<lparr>segments_list := Some s'\<rparr>"
      have "set_seg r (Some s') g = Some ?g" using Nil by (simp add: r_def set_seg_def)
      moreover have "seg_list ?g (segments_list ?g) (L1 @ (s', m, []) # L2)" using tail [of ?g] Nil by simp
      ultimately show ?thesis by (intro that [of r ?g]) (use fr False in simp_all)
    next
      case (snoc us x)
      obtain s0 n0 b0 where x: "x = (s0, n0, b0)" by (cases x)
      obtain q0 where us: "seg_to g (segments_list h) us (Some s0)" "segs g s0 = Some \<lparr>seg_size = n0, next_segment = q0\<rparr>" "q0 = Some s"
        using to unfolding snoc x seg_to_append by auto
      let ?g = "g\<lparr>segs := (segs g)(s0 \<mapsto> \<lparr>seg_size = n0, next_segment = Some s'\<rparr>)\<rparr>"
      have "set_seg r (Some s') g = Some ?g" using snoc x us(2) by (simp add: r_def set_seg_def)
      moreover have ne: "s0 \<noteq> s'" "s0 \<notin> fst ` set L2" "s0 \<notin> fst ` set us" using dd snoc x by auto
      have "seg_to ?g (segments_list h) us (Some s0)" by (rule seg_to_cong [OF us(1)]) (use ne in auto)
      then have "seg_to ?g (segments_list h) L1 (Some s')" unfolding snoc x seg_to_append by auto
      moreover have "seg_list ?g (Some s') ((s', m, []) # L2)" by (rule tail) (use ne in auto)
      ultimately have "seg_list ?g (segments_list ?g) (L1 @ (s', m, []) # L2)" "set_seg r (Some s') g = Some ?g"
        unfolding seg_list_append using g(2) by auto
      then show ?thesis by (intro that [of r ?g]) (use fr False in simp_all)
    qed
  qed
qed

text \<open>The segment at its new place, empty up to the guard.\<close>

lemma move_segment:
  assumes ho: "mm_hole (h\<lparr>cache := K, reserve := R\<rparr>) L1 s n [] k [] L2 C" and f: "free_ok h (free_of (all_blocks (L1 @ L2)))"
    and old: "segs h s = Some old" and m: "64 \<le> unat m"
    and fresh: "\<forall>x g. x \<noteq> s \<longrightarrow> segs h x = Some g \<longrightarrow> s' + unat m \<le> x \<or> x + unat (seg_size g) \<le> s'"
  obtains h5 where "do {
       h \<leftarrow> ZEND_MM_STORAGE_REALLOC s s' m h;
       let h = raise_real_peak (h\<lparr>real_size := real_size h + (m - seg_size old)\<rparr>);
       let h = h\<lparr>segs := (segs h)(s' \<mapsto> old\<lparr>seg_size := m\<rparr>)\<rparr>;
       (if s' \<noteq> s then do {
          r \<leftarrow> find_segment s Segments_list h;
          h \<leftarrow> set_seg r (Some s') h;
          let a = s' + unat ZEND_MM_ALIGNED_SEGMENT_SIZE;
          Some (a, ZEND_MM_MARK_FIRST_BLOCK a h)
        } else Some (s + 16, h))
     } = Some (s' + 16, h5)"
    "opened K R C ((ZEND_MM_LAST_BLOCK (s' + unat m - 16) h5)\<lparr>blk_prev := (blk_prev h5)(s' + unat m - 16 \<mapsto> 0)\<rparr>) (held_blocks (all_blocks (L1 @ L2)) C)
      (s' + 16) (unat m - 32)"
    "bytes h5 = (\<lambda>x. if within s' m x then bytes h (x - s' + s) else bytes h x)" "reserve h5 = reserve h" "cache h5 = cache h"
    "\<forall>(b, l)\<in>held_blocks (all_blocks (L1 @ L2)) C. b + l \<le> s' \<or> s' + unat m \<le> b"
proof -
  let ?g = "h\<lparr>cache := K, reserve := R\<rparr>"
  have o: "seg_list ?g (segments_list ?g) (L1 @ (s, n, []) # L2)" "segs_apart (L1 @ (s, n, []) # L2)" "\<forall>x\<in>set (L1 @ L2). seg ?g x"
    "split_seg ?g s n [] k []" "books ?g (L1 @ (s, n, []) # L2) (around L1 s [] k [] L2) C"
    using ho by (simp_all add: mm_hole_def)
  have n32: "32 \<le> unat n" using o(4) by (simp add: split_seg_def)
  have all: "segs_apart (L1 @ L2)" "\<forall>y\<in>set (L1 @ L2). beside (s, n, []) y" using o(2) unfolding apart_append by blast+
  have l: "seg_list h (segments_list h) (L1 @ (s, n, []) # L2)" using seg_list_cong [OF o(1), of h] by simp
  have old: "segs h s = Some \<lparr>seg_size = n, next_segment = next_segment old\<rparr>" "seg_size old = n"
    using seg_list_at [OF l, of s n "[]"] old by auto
  have at: "s' + unat m \<le> t \<or> t + unat n' \<le> s'" "s + unat n \<le> t \<or> t + unat n' \<le> s" "32 \<le> unat n'" if x: "(t, n', bs) \<in> set (L1 @ L2)" for t n' bs
  proof -
    have "seg ?g (t, n', bs)" using o(3) x by blast
    then show n': "32 \<le> unat n'" by (simp add: seg_def)
    show b: "s + unat n \<le> t \<or> t + unat n' \<le> s" using all(2) x by fastforce
    then have "t \<noteq> s" using n' n32 by auto
    moreover obtain q where "segs h t = Some \<lparr>seg_size = n', next_segment = q\<rparr>" using seg_list_at [OF l, of t n' bs] x by auto
    ultimately show "s' + unat m \<le> t \<or> t + unat n' \<le> s'" using fresh by fastforce
  qed
  have "\<forall>(s, n, bs)\<in>set (L1 @ (s, n, []) # L2). 0 < unat n" using at(3) n32 by fastforce
  then have d: "distinct (map fst (L1 @ (s, n, []) # L2))" by (rule apart_distinct [OF o(2)])
  have s': "s' \<notin> fst ` set (L1 @ L2)" using at(1,3) m by fastforce
  define move where "move = (\<lambda>f x. if within s' m x then (if within s n (x - s' + s) then f (x - s' + s) else None)
           else if within s n x then None else f x :: ulong option)"
  define h1 where "h1 = h\<lparr>segs := (segs h)(s := None, s' \<mapsto> old), blk_size := move (blk_size h), blk_prev := move (blk_prev h),
       bytes := (\<lambda>x. if within s' m x then bytes h (x - s' + s) else bytes h x)\<rparr>"
  obtain x where x: "raise_real_peak (h1\<lparr>real_size := real_size h + (m - n)\<rparr>) = h1\<lparr>real_size := real_size h + (m - n), real_peak := x\<rparr>"
    using raise_real_peak by blast
  define h3 where "h3 = h\<lparr>real_size := real_size h + (m - n), real_peak := x,
     segs := (segs h)(s := None, s' \<mapsto> \<lparr>seg_size = m, next_segment = next_segment old\<rparr>), blk_size := move (blk_size h), blk_prev := move (blk_prev h),
     bytes := (\<lambda>x. if within s' m x then bytes h (x - s' + s) else bytes h x)\<rparr>"
  obtain r g' where rl: "find_segment s Segments_list h3 = Some r \<or> s' = s" "s' \<noteq> s \<Longrightarrow> set_seg r (Some s') h3 = Some g'" "s' = s \<Longrightarrow> g' = h3"
    "seg_list g' (segments_list g') (L1 @ (s', m, []) # L2)" "g' = h3\<lparr>segs := segs g', segments_list := segments_list g'\<rparr>"
    by (rule relink_segment [OF l d s' old(1), of h3 m]) (simp_all add: h3_def)
  define h5 where "h5 = (if s' \<noteq> s then ZEND_MM_MARK_FIRST_BLOCK (s' + 16) g' else g')"
  have eq: "(old\<lparr>seg_size := m\<rparr>) = \<lparr>seg_size = m, next_segment = next_segment old\<rparr>" by (cases old) simp
  have step: "do {
       h \<leftarrow> ZEND_MM_STORAGE_REALLOC s s' m h;
       let h = raise_real_peak (h\<lparr>real_size := real_size h + (m - seg_size old)\<rparr>);
       let h = h\<lparr>segs := (segs h)(s' \<mapsto> old\<lparr>seg_size := m\<rparr>)\<rparr>;
       (if s' \<noteq> s then do {
          r \<leftarrow> find_segment s Segments_list h;
          h \<leftarrow> set_seg r (Some s') h;
          let a = s' + unat ZEND_MM_ALIGNED_SEGMENT_SIZE;
          Some (a, ZEND_MM_MARK_FIRST_BLOCK a h)
        } else Some (s + 16, h))
     } = Some (s' + 16, h5)"
  proof -
    have 1: "ZEND_MM_STORAGE_REALLOC s s' m h = Some h1"
      unfolding ZEND_MM_STORAGE_REALLOC_def Let_def using assms(3) old(2) by (simp add: h1_def move_def cong: if_cong)
    have 2: "h1\<lparr>real_size := real_size h + (m - n), real_peak := x\<rparr>\<lparr>segs := (segs (h1\<lparr>real_size := real_size h + (m - n), real_peak := x\<rparr>))(s' \<mapsto> old\<lparr>seg_size := m\<rparr>)\<rparr> = h3"
      unfolding eq by (simp add: h1_def h3_def)
    have 3: "real_size h1 = real_size h" by (simp add: h1_def)
    show ?thesis
      unfolding 1 Option.bind.bind_lunit Let_def old(2) unfolding 3 unfolding x unfolding 2 using rl(1-3) by (auto simp: h5_def)
  qed
  define g where "g = (ZEND_MM_LAST_BLOCK (s' + unat m - 16) h5)\<lparr>blk_prev := (blk_prev h5)(s' + unat m - 16 \<mapsto> 0)\<rparr>"
  let ?G = "g\<lparr>cache := K, reserve := R\<rparr>"
  have e3: "segs g = segs g'" "segments_list g = segments_list g'" by (simp_all add: g_def h5_def ZEND_MM_LAST_BLOCK_def ZEND_MM_MARK_FIRST_BLOCK_def)
  have eg: "real_size g' = real_size h + (m - n)" "block_size g' = block_size h" "cache g' = cache h" "reserve g' = reserve h" "prev_free g' = prev_free h"
    "next_free g' = next_free h" "parent g' = parent h" "ftree g' = ftree h" "free_bitmap g' = free_bitmap h" "large_free_bitmap g' = large_free_bitmap h"
    "rest_count g' = rest_count h" "blk_size g' = move (blk_size h)" "blk_prev g' = move (blk_prev h)"
    "bytes g' = (\<lambda>x. if within s' m x then bytes h (x - s' + s) else bytes h x)"
    by (subst rl(5), simp add: h3_def)+
  have e: "real_size g = real_size h + (m - n)" "block_size g = block_size h" "prev_free g = prev_free h"
    "next_free g = next_free h" "parent g = parent h" "ftree g = ftree h" "free_bitmap g = free_bitmap h" "large_free_bitmap g = large_free_bitmap h"
    "rest_count g = rest_count h"
    using eg by (simp_all add: g_def h5_def ZEND_MM_LAST_BLOCK_def ZEND_MM_MARK_FIRST_BLOCK_def)
  have out: "blk_size g y = blk_size h y \<and> blk_prev g y = blk_prev h y" if "y < s' \<or> s' + unat m \<le> y" "y < s \<or> s + unat n \<le> y" for y
  proof -
    have "y \<noteq> s' + 16" "y \<noteq> s' + unat m - 16" using that(1) m by linarith+
    then have "blk_size g y = move (blk_size h) y" "blk_prev g y = move (blk_prev h) y"
      by (simp_all add: g_def h5_def ZEND_MM_LAST_BLOCK_def ZEND_MM_MARK_FIRST_BLOCK_def eg)
    moreover have "\<not> within s' m y" "\<not> within s n y" using that by (auto simp: within_def)
    ultimately show ?thesis by (simp add: move_def)
  qed
  have "seg_list ?G (segments_list ?G) (L1 @ (s', m, []) # L2)"
    using seg_list_cong [OF rl(4), of ?G] e3 by simp
  moreover have "segs_apart (L1 @ (s', m, []) # L2)" unfolding apart_append using all(1) at(1) by (auto simp: beside_def)
  moreover have "seg ?G y" if y: "y \<in> set (L1 @ L2)" for y
  proof -
    obtain t n' bs where yy: "y = (t, n', bs)" by (cases y)
    have s: "seg ?g (t, n', bs)" using o(3) y yy by blast
    have b: "s' + unat m \<le> t \<or> t + unat n' \<le> s'" "s + unat n \<le> t \<or> t + unat n' \<le> s" using at(1,2) y yy by blast+
    have "seg ?G (t, n', bs)"
    proof (rule seg_cong [OF s], intro allI impI)
      fix z assume "t \<le> z \<and> z < t + unat n'"
      then have "z < s' \<or> s' + unat m \<le> z" "z < s \<or> s + unat n \<le> z" using b by linarith+
      from out [OF this] show "blk_size ?G z = blk_size ?g z \<and> blk_prev ?G z = blk_prev ?g z" by simp
    qed
    then show ?thesis by (simp only: yy)
  qed
  moreover have "split_seg ?G s' m [] (unat m - 32) []"
  proof -
    have q: "s' + 16 + (unat m - 32) = s' + unat m - 16" "s' + 16 \<noteq> s' + unat m - 16" using m by simp_all
    then have "headers ?G 0 (s' + 16 + extent [] + (unat m - 32)) [] (s' + unat m - 16)"
      by (simp add: g_def ZEND_MM_LAST_BLOCK_def guard_word_def)
    moreover have "blk_prev ?G (s' + 16) = Some ZEND_MM_GUARD_BLOCK"
    proof (cases "s' = s")
      case True
      have "blk_prev h (s + 16) = Some ZEND_MM_GUARD_BLOCK" using o(4) by (simp add: split_seg_def)
      then show ?thesis using True q(2) m n32 by (simp add: g_def h5_def ZEND_MM_LAST_BLOCK_def eg move_def within_def add.commute)
    next
      case False
      then show ?thesis using q(2) by (simp add: g_def h5_def ZEND_MM_LAST_BLOCK_def ZEND_MM_MARK_FIRST_BLOCK_def)
    qed
    ultimately show ?thesis using m unfolding split_seg_def by auto
  qed
  moreover have B: "around L1 s [] k [] L2 = all_blocks (L1 @ L2)" "around L1 s' [] (unat m - 32) [] L2 = all_blocks (L1 @ L2)" by (simp_all add: around_def)
  have "books ?G (L1 @ (s', m, []) # L2) (around L1 s' [] (unat m - 32) [] L2) C"
  proof -
    have "books (?g\<lparr>real_size := real_size h + (m - n)\<rparr>) (L1 @ (s', m, []) # L2) (all_blocks (L1 @ L2)) C"
      using o(5) total_simps(1) [of L1 s n "[]" L2] total_simps(1) [of L1 s' m "[]" L2] unfolding B books_def
      by (simp add: block_size_ok_def cache_ok_def reserve_ok_def cached_list_real)
    then show ?thesis unfolding B by (rule books_cong) (simp_all add: e)
  qed
  ultimately have "mm_hole ?G L1 s' m [] (unat m - 32) [] L2 C" unfolding mm_hole_def by blast
  moreover have "free_ok g (free_of (all_blocks (L1 @ L2)))"
  proof (rule free_ok_cong [OF f])
    show "\<forall>a\<in>free_of (all_blocks (L1 @ L2)). blk_size g a = blk_size h a"
    proof
      fix a assume "a \<in> free_of (all_blocks (L1 @ L2))"
      then obtain w t n' bs where y: "(t, n', bs) \<in> set (L1 @ L2)" "(a, w, False) \<in> seg_blocks (t, n', bs)" by (auto simp: free_of_def all_blocks_def)
      have "seg ?g (t, n', bs)" using o(3) y(1) by blast
      note b = seg_block_bounds [OF this y(2)]
      have "a < s' \<or> s' + unat m \<le> a" "a < s \<or> s + unat n \<le> a" using b at(1,2) [OF y(1)] by (auto simp: proper_def)
      from out [OF this] show "blk_size g a = blk_size h a" ..
    qed
  qed (simp_all add: e)
  ultimately have "opened K R C g (held_blocks (all_blocks (L1 @ L2)) C) (s' + 16) (unat m - 32)"
    unfolding opened_def B [symmetric] by (intro exI [of _ L1] exI [of _ s'] exI [of _ m] exI [of _ "[]"] exI [of _ L2]) (simp add: B)
  moreover have "b + l \<le> s' \<or> s' + unat m \<le> b" if bl: "(b, l) \<in> held_blocks (all_blocks (L1 @ L2)) C" for b l
  proof -
    obtain w t n' bs where y: "(t, n', bs) \<in> set (L1 @ L2)" "(b, w, True) \<in> seg_blocks (t, n', bs)" "l = unat w"
      using bl by (auto simp: held_blocks_def all_blocks_def)
    have "seg ?g (t, n', bs)" using o(3) y(1) by blast
    note b = seg_block_bounds [OF this y(2)]
    then show ?thesis using at(1) [OF y(1)] y(3) by auto
  qed
  ultimately show ?thesis
    by (intro that [OF step]) (auto simp: g_def h5_def eg ZEND_MM_MARK_FIRST_BLOCK_def)
qed

lemma moved_bailout: "keeps h h1 \<Longrightarrow> alloc_outcome h1 M m Bailout h' \<Longrightarrow> moved h M a k n Bailout h'"
  by (simp add: moved_def alloc_outcome_def keeps_def unreserved_def data_kept_same)

definition fresh_restorage :: "(mm_heap \<Rightarrow> nat \<Rightarrow> ulong \<Rightarrow> ptr) \<Rightarrow> mm_heap \<Rightarrow> bool" where
  "fresh_restorage restorage h \<longleftrightarrow> (\<forall>s n s'. restorage h s n = Some s' \<longrightarrow>
     (\<forall>x g. x \<noteq> s \<longrightarrow> segs h x = Some g \<longrightarrow> s' + unat n \<le> x \<or> x + unat (seg_size g) \<le> s'))"

lemma realloc_segment:
  assumes o: "opened (cache h) (reserve h) C h (M - {(a, k)}) a (unat v)" and v: "proper v" and fs: "fills_segment a v h = Some True"
    and undo: "\<exists>h'. (do { free \<leftarrow> ZEND_MM_IS_FREE_BLOCK (a + k) h; if free then zend_mm_add_to_free_list (a + k) h else Some h }) = Some h' \<and>
      sound (cache h) (reserve h) C h' M \<and> keeps h h'"
    and fail: "\<forall>s m. restorage h s m = None \<longrightarrow> sound (cache h) (reserve h) C h M" and fresh: "fresh_restorage restorage h"
    and a: "(a, k) \<in> M" and w: "unat w = k" and t: "proper t" "n + 16 \<le> unat t" "k < unat t"
  obtains res h' where "realloc_segment restorage a t w h = Some (res, h')" "moved h M a k n res h'"
proof -
  define m where "m = segment_size_for t h"
  obtain L1 s len us vs L2 where ho: "mm_hole (h\<lparr>cache := cache h, reserve := reserve h\<rparr>) L1 s len us (unat v) vs L2 C"
    and f: "free_ok h (free_of (around L1 s us (unat v) vs L2))" and M: "M - {(a, k)} = held_blocks (around L1 s us (unat v) vs L2) C"
    and p: "a = s + 16 + extent us" using o unfolding opened_def by blast
  have "fills_segment a v (h\<lparr>cache := cache h, reserve := reserve h\<rparr>) = Some (us = [] \<and> vs = [])" using fills_segment [OF ho] unfolding p .
  then have e: "us = []" "vs = []" using fs by simp_all
  have B: "around L1 s [] (unat v) [] L2 = all_blocks (L1 @ L2)" by (simp add: around_def)
  have ho': "mm_hole (h\<lparr>cache := cache h, reserve := reserve h\<rparr>) L1 s len [] (unat v) [] L2 C" and f': "free_ok h (free_of (all_blocks (L1 @ L2)))"
    and M': "M - {(a, k)} = held_blocks (all_blocks (L1 @ L2)) C" and as: "a = s + 16"
    using ho f M p e B by simp_all
  have bo: "block_size_ok h" using ho' by (simp add: mm_hole_def books_def block_size_ok_def)
  have sg: "segment_of a = Some s" using as by (simp add: segment_of_def)
  have "seg_list (h\<lparr>cache := cache h, reserve := reserve h\<rparr>) (segments_list h) (L1 @ (s, len, []) # L2)" using ho' by (simp add: mm_hole_def)
  from seg_list_at [OF this, of s len "[]"] obtain old where old: "segs h s = Some old" by auto
  show ?thesis
  proof (cases "m < t \<or> real_size h + m - seg_size old > mm_limit h")
    case True
    obtain h1 where h1: "(do { free \<leftarrow> ZEND_MM_IS_FREE_BLOCK (a + k) h; if free then zend_mm_add_to_free_list (a + k) h else Some h }) = Some h1"
      "sound (cache h) (reserve h) C h1 M" "keeps h h1" using undo by blast
    have "sound (cache h1) (reserve h1) C h1 M" using h1(2,3) by (simp add: keeps_def)
    then obtain h' where h': "(do { h \<leftarrow> zend_mm_free_cache h1; zend_mm_safe_error h }) = Some (Bailout, h')" "alloc_outcome h1 M n Bailout h'"
      using give_up by metis
    have "realloc_segment restorage a t w h = Option.bind (do { free \<leftarrow> ZEND_MM_IS_FREE_BLOCK (a + k) h; if free then zend_mm_add_to_free_list (a + k) h else Some h })
        (\<lambda>h. do { h \<leftarrow> zend_mm_free_cache h; zend_mm_safe_error h })"
      using True sg old w by (auto simp: realloc_segment_def Let_def ZEND_MM_BLOCK_AT_def simp flip: m_def)
    then have "realloc_segment restorage a t w h = Some (Bailout, h')" using h1(1) h'(1) by simp
    then show ?thesis using that moved_bailout [OF h1(3) h'(2)] by blast
  next
    case False
    show ?thesis
    proof (cases "restorage h s m")
      case None
      then have so: "sound (cache h) (reserve h) C h M" using fail by blast
      obtain h' where h': "(do { h \<leftarrow> zend_mm_free_cache h; zend_mm_safe_error h }) = Some (Bailout, h')" "alloc_outcome h M n Bailout h'"
        using give_up [OF so] by metis
      have "realloc_segment restorage a t w h = Some (Bailout, h')"
        using False sg old None h'(1) by (simp add: realloc_segment_def Let_def flip: m_def)
      then show ?thesis using that moved_bailout [OF keeps_refl h'(2)] by blast
    next
      case (Some s')
      note ms = segment_size [OF bo t(1) m_def]
      have mt: "unat t + 32 \<le> unat m" "8 dvd unat m" using ms False by simp_all
      have m64: "64 \<le> unat m" using mt t(1) by (simp add: proper_def)
      have fr: "\<forall>x g. x \<noteq> s \<longrightarrow> segs h x = Some g \<longrightarrow> s' + unat m \<le> x \<or> x + unat (seg_size g) \<le> s'"
        using fresh Some unfolding fresh_restorage_def by blast
      obtain h5 where h5: "do {
           h \<leftarrow> ZEND_MM_STORAGE_REALLOC s s' m h;
           let h = raise_real_peak (h\<lparr>real_size := real_size h + (m - seg_size old)\<rparr>);
           let h = h\<lparr>segs := (segs h)(s' \<mapsto> old\<lparr>seg_size := m\<rparr>)\<rparr>;
           (if s' \<noteq> s then do {
              r \<leftarrow> find_segment s Segments_list h;
              h \<leftarrow> set_seg r (Some s') h;
              let a = s' + unat ZEND_MM_ALIGNED_SEGMENT_SIZE;
              Some (a, ZEND_MM_MARK_FIRST_BLOCK a h)
            } else Some (s + 16, h))
         } = Some (s' + 16, h5)"
        "opened (cache h) (reserve h) C ((ZEND_MM_LAST_BLOCK (s' + unat m - 16) h5)\<lparr>blk_prev := (blk_prev h5)(s' + unat m - 16 \<mapsto> 0)\<rparr>) (M - {(a, k)})
          (s' + 16) (unat m - 32)"
        "bytes h5 = (\<lambda>x. if within s' m x then bytes h (x - s' + s) else bytes h x)" "reserve h5 = reserve h" "cache h5 = cache h"
        "\<forall>(b, l)\<in>M - {(a, k)}. b + l \<le> s' \<or> s' + unat m \<le> b"
        by (rule move_segment [OF ho' f' old m64 fr, folded M']) (rule that; assumption)
      let ?h6 = "ZEND_MM_LAST_BLOCK (s' + unat m - 16) h5"
      have b: "unat (m - 16 - 16) = unat m - 32" using unat_sub [of 16 m] unat_sub [of 16 "m - 16"] m64 by simp
      have ee: "s' + 16 + (unat m - 32) = s' + unat m - 16" using m64 by simp
      have pb: "proper (m - 16 - 16)" using b mt(2) m64 by (simp add: proper_def dvd_diff_nat)
      have tb: "unat t \<le> unat (m - 16 - 16)" using b mt(1) by simp
      have bp: "blk_prev ?h6 = blk_prev h5" by (simp add: ZEND_MM_LAST_BLOCK_def)
      have o6: "opened (cache h) (reserve h) C (?h6\<lparr>blk_prev := (blk_prev ?h6)(s' + 16 + unat (m - 16 - 16) \<mapsto> 0)\<rparr>) (M - {(a, k)}) (s' + 16) (unat (m - 16 - 16))"
        using h5(2) unfolding b ee bp .
      obtain l h7 where h7: "carve (s' + 16) (m - 16 - 16) t (\<lambda>b n. zend_mm_add_to_rest_list b) (?h6\<lparr>blk_prev := (blk_prev ?h6)(s' + 16 + unat (m - 16 - 16) \<mapsto> 0)\<rparr>) = Some (l, h7)"
        "unat t \<le> unat l" "sound (cache h) (reserve h) C h7 (insert (s' + 16, unat l) (M - {(a, k)}))"
        "keeps (?h6\<lparr>blk_prev := (blk_prev ?h6)(s' + 16 + unat (m - 16 - 16) \<mapsto> 0)\<rparr>) h7"
        using rest_list.carve [OF o6 pb t(1) tb] by metis
      have c: "carve (s' + 16) (m - 16 - 16) t (\<lambda>b n. zend_mm_add_to_rest_list b) ?h6 = Some (l, h7)"
        using h7(1) rest_list.carve_behind [OF pb t(1) tb] by simp
      let ?h' = "raise_peak (h7\<lparr>heap_size := heap_size h7 + l - w\<rparr>)"
      have "realloc_segment restorage a t w h = Some (Mm_ptr (s' + 32), ?h')"
      proof -
        have "realloc_segment restorage a t w h = do {
           h \<leftarrow> ZEND_MM_STORAGE_REALLOC s s' m h;
           let h = raise_real_peak (h\<lparr>real_size := real_size h + (m - seg_size old)\<rparr>);
           let h = h\<lparr>segs := (segs h)(s' \<mapsto> old\<lparr>seg_size := m\<rparr>)\<rparr>;
           (a, h) \<leftarrow> (if s' \<noteq> s then do {
              r \<leftarrow> find_segment s Segments_list h;
              h \<leftarrow> set_seg r (Some s') h;
              let a = s' + unat ZEND_MM_ALIGNED_SEGMENT_SIZE;
              Some (a, ZEND_MM_MARK_FIRST_BLOCK a h)
            } else Some (s + 16, h));
           let bsz = m - ZEND_MM_ALIGNED_SEGMENT_SIZE - ZEND_MM_ALIGNED_HEADER_SIZE;
           let h = ZEND_MM_LAST_BLOCK (ZEND_MM_BLOCK_AT a bsz) h;
           (true_size, h) \<leftarrow> carve a bsz t (\<lambda>b n. zend_mm_add_to_rest_list b) h;
           Some (Mm_ptr (ZEND_MM_DATA_OF a), raise_peak (h\<lparr>heap_size := heap_size h + true_size - w\<rparr>))
         }"
          by (simp only: realloc_segment_def m_def [symmetric] Let_def as sg [unfolded as] old Some False Option.bind.bind_lunit option.case if_False)
        also have "\<dots> = Option.bind (Some (s' + 16, h5)) (\<lambda>(a, h). do {
           let bsz = m - ZEND_MM_ALIGNED_SEGMENT_SIZE - ZEND_MM_ALIGNED_HEADER_SIZE;
           let h = ZEND_MM_LAST_BLOCK (ZEND_MM_BLOCK_AT a bsz) h;
           (true_size, h) \<leftarrow> carve a bsz t (\<lambda>b n. zend_mm_add_to_rest_list b) h;
           Some (Mm_ptr (ZEND_MM_DATA_OF a), raise_peak (h\<lparr>heap_size := heap_size h + true_size - w\<rparr>))
         })" unfolding h5(1) [symmetric] Let_def by (simp only: Option.bind_assoc)
        also have "\<dots> = Some (Mm_ptr (s' + 32), ?h')"
          using c b ee by (simp add: ZEND_MM_BLOCK_AT_def ZEND_MM_DATA_OF_def Let_def)
        finally show ?thesis .
      qed
      moreover have "moved h M a k n (Mm_ptr (s' + 32)) ?h'"
      proof -
        have by7: "bytes ?h' x = (if within s' m x then bytes h (x - s' + s) else bytes h x)" for x
          using h7(4) h5(3) by (simp add: keeps_def raise_peak_def ZEND_MM_LAST_BLOCK_def)
        have "data_kept h ?h' (M - {(a, k)})"
          unfolding data_kept_def
        proof
          fix y assume y: "y \<in> M - {(a, k)}"
          obtain c j where yc: "y = (c, j)" by (cases y)
          have c: "c + j \<le> s' \<or> s' + unat m \<le> c" using h5(6) y yc by auto
          have "bytes ?h' x = bytes h x" if x: "c + 16 \<le> x" "x < c + j" for x
          proof -
            have "\<not> within s' m x" using c x by (auto simp: within_def)
            then show ?thesis by (simp add: by7)
          qed
          then show "case y of (b, l) \<Rightarrow> \<forall>x. b + 16 \<le> x \<and> x < b + l \<longrightarrow> bytes ?h' x = bytes h x" by (simp add: yc)
        qed
        moreover have "bytes ?h' (s' + 16 + 16 + j) = bytes h (a + 16 + j)" if "j < k - 16" for j
        proof -
          have "within s' m (s' + 16 + 16 + j)" using that t(3) mt(1) by (simp add: within_def)
          moreover have "s' + 16 + 16 + j - s' + s = a + 16 + j" using as by simp
          ultimately show ?thesis by (simp only: by7 if_True)
        qed
        moreover have "s' + 16 \<notin> fst ` (M - {(a, k)})"
        proof
          assume "s' + 16 \<in> fst ` (M - {(a, k)})"
          then obtain j where j: "(s' + 16, j) \<in> M - {(a, k)}" by (metis imageE prod.collapse)
          have "32 \<le> j" using held_size [OF h7(3), of "s' + 16" j] j by simp
          then show False using opened_apart [OF o6 j] pb by (simp add: proper_def)
        qed
        moreover have "mm_ok ?h' (insert (s' + 16, unat l) (M - {(a, k)}))"
          using h7(3,4) h5(4,5) by (auto simp: mm_ok_def keeps_def raise_peak_def ZEND_MM_LAST_BLOCK_def)
        moreover have "n + 16 \<le> unat l" using t(2) h7(2) by simp
        moreover have "reserve ?h' = reserve h" using h7(4) h5(4) by (simp add: keeps_def raise_peak_def ZEND_MM_LAST_BLOCK_def)
        ultimately have "moved h M a k n (Mm_ptr (s' + 16 + 16)) ?h'" by (intro moved_elsewhere [where l = "unat l"])
        moreover have "s' + 16 + 16 = s' + 32" by simp
        ultimately show ?thesis by metis
      qed
      ultimately show ?thesis using that by blast
    qed
  qed
qed

subsection \<open>Reallocation as a whole\<close>

text \<open>
  \<open>zend_mm_realloc_int\<close> as a whole: in place, with the free block behind, with the whole segment, or elsewhere.
\<close>

subsection \<open>The block behind\<close>

text \<open>If it is free it can be taken off its list, and put back.\<close>

lemma frame_headers: "links_frame F h h' \<Longrightarrow> blk_size h' = blk_size h" "links_frame F h h' \<Longrightarrow> blk_prev h' = blk_prev h"
  using frame_fields by blast+

lemma next_free:
  assumes so: "sound K R C h M" and a: "(a, k) \<in> M" and r: "R \<noteq> Some (a + 16)"
    and w: "unat w = k" and fr: "ZEND_MM_IS_FREE_BLOCK (a + k) h = Some True"
  obtains d h1 where "blk_size h (a + k) = Some d" "ZEND_MM_CHECK_BLOCK_LINKAGE (a + k) h = Some ()"
    "zend_mm_remove_from_free_list (a + k) h = Some h1" "opened K R C h1 (M - {(a, k)}) a (unat (w + d))" "proper (w + d)"
    "unat (w + d) = k + unat d" "links_frame UNIV h h1"
    "\<exists>h'. zend_mm_add_to_free_list (a + k) h1 = Some h' \<and> sound K R C h' M \<and> keeps h1 h'"
proof -
  obtain L where mm: "mm (h\<lparr>cache := K, reserve := R\<rparr>) L C" and f: "free_ok h (free_of (all_blocks L))" and M: "M = held_blocks (all_blocks L) C"
    using so unfolding sound_def by blast
  obtain v where v: "k = unat v" "(a, v, True) \<in> all_blocks L" using a M by (auto simp: held_blocks_def)
  have vw: "v = w" using v(1) w by (simp add: word_unat_eq_iff)
  obtain s n bs where x: "(s, n, bs) \<in> set L" "(a, w, True) \<in> set (place (s + 16) bs)" using v(2) vw by (auto simp: all_blocks_def seg_blocks_def)
  then obtain us vs where bs: "bs = us @ (w, True) # vs" "a = s + 16 + extent us" using place_split [of a w True "s + 16" bs] by blast
  have "seg (h\<lparr>cache := K, reserve := R\<rparr>) (s, n, bs)" using mm x(1) by (auto simp: mm_def layout_def)
  then have "headers (h\<lparr>cache := K, reserve := R\<rparr>) ZEND_MM_GUARD_BLOCK (s + 16) bs (s + unat n - 16)" by (simp add: seg_def)
  then have "headers h ZEND_MM_GUARD_BLOCK (s + 16) (us @ (w, True) # vs) (s + unat n - 16)" unfolding bs(1) by (rule headers_cong) simp
  then have ch: "headers h (hdr w True) (a + k) vs (s + unat n - 16)" using bs(2) w by (auto simp: chain_append)
  obtain d vs' where vs: "vs = (d, False) # vs'" "proper d"
    using ch fr by (cases vs) (auto simp: ZEND_MM_IS_FREE_BLOCK_def guard_bits hdr_free)
  have c: "blk_size h (a + k) = Some d" "headers h d (a + k + unat d) vs' (s + unat n - 16)" using ch vs hdr_free(2) by auto
  have "(a + k, d, False) \<in> seg_blocks (s, n, bs)" using bs vs(1) w by (auto simp: seg_blocks_def)
  then have "a + k \<in> free_of (all_blocks L)" using x(1) by (auto simp: free_of_def all_blocks_def)
  then obtain h1 where h1: "ZEND_MM_CHECK_BLOCK_LINKAGE (a + k) h = Some ()" "zend_mm_remove_from_free_list (a + k) h = Some h1"
    "opened K R C h1 M (a + k) (unat d)" "links_frame (free_of (all_blocks L)) h h1"
    using open_free [OF mm f, of "a + k"] c(1) unfolding M by (metis option.inject)
  have pw: "proper w" "opened K R C h (M - {(a, k)}) a (unat w)"
    using open_held [OF so a r] w by (metis word_unat_eq_iff)+
  obtain e g where g: "opened K R C g (M - {(a, k)}) a (unat (w + e))" "proper (w + e)" "unat (w + e) = unat w + unat e" "links_frame UNIV h g"
    "ZEND_MM_IS_FREE_BLOCK (a + unat w) h = Some (e \<noteq> 0)"
    "e \<noteq> 0 \<Longrightarrow> blk_size h (a + unat w) = Some e \<and> zend_mm_remove_from_free_list (a + unat w) h = Some g"
    by (rule join_next_any [OF pw(2,1)]) blast
  have e: "e = d" "g = h1" using g(5,6) fr c(1) h1(2) w by auto
  have "blk_size h1 (a + k) = Some d" "blk_prev h1 (a + k + unat d) = Some d"
    using frame_headers [OF h1(4)] c(1) chain_prev [OF c(2)] by simp_all
  then have id: "ZEND_MM_BLOCK (a + k) ZEND_MM_FREE_BLOCK d h1 = h1"
    by (simp add: ZEND_MM_BLOCK_def ZEND_MM_BLOCK_AT_def ZEND_MM_FREE_BLOCK_def map_upd_triv)
  have "\<exists>h'. zend_mm_add_to_free_list (a + k) (ZEND_MM_BLOCK (a + k) ZEND_MM_FREE_BLOCK d h1) = Some h' \<and> sound K R C h' M \<and> keeps h1 h'"
    using release [OF h1(3) vs(2)] by metis
  then have "\<exists>h'. zend_mm_add_to_free_list (a + k) h1 = Some h' \<and> sound K R C h' M \<and> keeps h1 h'" unfolding id .
  then show ?thesis using that c(1) h1(1,2) g(1-4) e w by simp
qed

lemma moved_from: "keeps h h1 \<Longrightarrow> moved h1 M a k n r h' \<Longrightarrow> moved h M a k n r h'"
  by (simp add: moved_def keeps_def data_kept_def unreserved_def cong: mm_result.case_cong)

lemma with_next_fills_segment:
  assumes "links_frame F h h1" and "unat (w + d) = unat w + unat d"
  shows "with_next_fills_segment a (a + unat w) d h = fills_segment a (w + d) h1"
  using frame_headers [OF assms(1)] assms(2)
  by (simp add: with_next_fills_segment_def fills_segment_def ZEND_MM_IS_FIRST_BLOCK_def ZEND_MM_IS_GUARD_BLOCK_def ZEND_MM_BLOCK_AT_def add.assoc cong: if_cong)

subsection \<open>Larger\<close>

lemma realloc_in_place:
  assumes so: "sound (cache h) (reserve h) C h M" and a: "(a, k) \<in> M" and r: "reserve h \<noteq> Some (a + 16)"
    and w: "unat w = k" and t: "proper t" "k < unat t" "unat sz + 16 \<le> unat t" and k: "k \<le> unat sz + 16"
    and fresh: "fresh_storage storage h" "\<And>g. segs g = segs h \<Longrightarrow> fresh_restorage restorage g"
    and fail: "\<And>g s m. ZEND_MM_IS_FREE_BLOCK (a + k) h = Some True \<Longrightarrow> restorage g s m \<noteq> None"
  obtains res h' where "realloc_in_place storage restorage (a + 16) a t w sz h = Some (res, h')" "moved h M a k (unat sz) res h'"
proof -
  obtain w' where w': "unat w' = k" "proper w'" "opened (cache h) (reserve h) C h (M - {(a, k)}) a k" using open_held [OF so a r] by blast
  have "w' = w" using w w'(1) by (simp add: word_unat_eq_iff)
  then have pw: "proper w" and o: "opened (cache h) (reserve h) C h (M - {(a, k)}) a (unat w)" using w' w by simp_all
  have at: "ZEND_MM_BLOCK_AT a w = a + k" using w by (simp add: ZEND_MM_BLOCK_AT_def)
  obtain mres mh where mv: "realloc_moved storage (a + 16) w sz h = Some (mres, mh)" "moved h M a k (unat sz) mres mh"
    by (rule realloc_moved [OF so fresh(1) a r w k])
  obtain nf where nf: "ZEND_MM_IS_FREE_BLOCK (a + k) h = Some nf"
    by (rule join_next_any [OF o pw]) (use that w in simp)
  show ?thesis
  proof (cases nf)
    case True
    then have fr: "ZEND_MM_IS_FREE_BLOCK (a + k) h = Some True" using nf by simp
    obtain d h1 where d: "blk_size h (a + k) = Some d" "ZEND_MM_CHECK_BLOCK_LINKAGE (a + k) h = Some ()"
      "zend_mm_remove_from_free_list (a + k) h = Some h1" "opened (cache h) (reserve h) C h1 (M - {(a, k)}) a (unat (w + d))" "proper (w + d)"
      "unat (w + d) = k + unat d" "links_frame UNIV h h1"
      "\<exists>h'. zend_mm_add_to_free_list (a + k) h1 = Some h' \<and> sound (cache h) (reserve h) C h' M \<and> keeps h1 h'"
      by (rule next_free [OF so a r w fr])
    have k1: "keeps h h1" "cache h1 = cache h" "reserve h1 = reserve h" "segs h1 = segs h"
      using frame_keeps [OF d(7)] frame_fields [OF d(7)] by simp_all
    note step = realloc_in_place_def [unfolded at Let_def]
    show ?thesis
    proof (cases "w + d \<ge> t")
      case True
      then have "t \<le> w + d" by simp
      from grow_block [OF so a r w fr d(1) t(1,2) this t(3)] obtain res h'
        where g: "grow_block (a + 16) a t w d h = Some (res, h')" "moved h M a k (unat sz) res h'" by blast
      then have "realloc_in_place storage restorage (a + 16) a t w sz h = Some (res, h')"
        using True fr d(1,2) by (simp add: realloc_in_place_def Let_def at)
      then show ?thesis using that g(2) by blast
    next
      case small: False
      obtain whole where fs: "fills_segment a (w + d) h1 = Some whole" using opened_fills [OF d(4,5)] by blast
      have wn: "with_next_fills_segment a (a + k) d h = Some whole" using with_next_fills_segment [OF d(7), of w d a] d(6) w fs by simp
      show ?thesis
      proof (cases whole)
        case False
        then have "realloc_in_place storage restorage (a + 16) a t w sz h = Some (mres, mh)"
          using small fr d(1,2) wn mv(1) by (simp add: realloc_in_place_def Let_def at)
        then show ?thesis using that mv(2) by blast
      next
        case True
        have o1: "opened (cache h1) (reserve h1) C h1 (M - {(a, k)}) a (unat (w + d))" using d(4) k1 by simp
        have "ZEND_MM_IS_FREE_BLOCK (a + k) h1 = Some True" using fr frame_headers(1) [OF d(7)] by (simp add: ZEND_MM_IS_FREE_BLOCK_def)
        then have undo: "\<exists>h'. (do { free \<leftarrow> ZEND_MM_IS_FREE_BLOCK (a + k) h1; if free then zend_mm_add_to_free_list (a + k) h1 else Some h1 }) = Some h' \<and>
            sound (cache h1) (reserve h1) C h' M \<and> keeps h1 h'" using d(8) k1 by simp
        have "\<forall>s m. restorage h1 s m = None \<longrightarrow> sound (cache h1) (reserve h1) C h1 M" using fail [OF fr] by blast
        then obtain res h' where g: "realloc_segment restorage a t w h1 = Some (res, h')" "moved h1 M a k (unat sz) res h'"
          using realloc_segment [OF o1 d(5) fs [simplified True] undo _ fresh(2) [OF k1(4)] a w t(1,3,2)] by metis
        then have "realloc_in_place storage restorage (a + 16) a t w sz h = Some (res, h')"
          using small True fr d(1-3) wn by (simp add: realloc_in_place_def Let_def at)
        then show ?thesis using that moved_from [OF k1(1) g(2)] by blast
      qed
    qed
  next
    case False
    obtain whole where fs: "fills_segment a w h = Some whole" using opened_fills [OF o pw] by blast
    show ?thesis
    proof (cases whole)
      case whole: False
      then have "realloc_in_place storage restorage (a + 16) a t w sz h = Some (mres, mh)"
        using nf False fs mv(1) by (simp add: realloc_in_place_def Let_def at)
      then show ?thesis using that mv(2) by blast
    next
      case True
      have undo: "\<exists>h'. (do { free \<leftarrow> ZEND_MM_IS_FREE_BLOCK (a + k) h; if free then zend_mm_add_to_free_list (a + k) h else Some h }) = Some h' \<and>
          sound (cache h) (reserve h) C h' M \<and> keeps h h'" using so nf False by simp
      have "\<forall>s m. restorage h s m = None \<longrightarrow> sound (cache h) (reserve h) C h M" using so by blast
      then obtain res h' where g: "realloc_segment restorage a t w h = Some (res, h')" "moved h M a k (unat sz) res h'"
        using realloc_segment [OF o pw fs [simplified True] undo _ fresh(2) [OF refl] a w t(1,3,2)] by metis
      then have "realloc_in_place storage restorage (a + 16) a t w sz h = Some (res, h')"
        using nf False True fs by (simp add: realloc_in_place_def Let_def at)
      then show ?thesis using that g(2) by blast
    qed
  qed
qed

subsection \<open>Any request\<close>

text \<open>A multiple of 8 below the true size leaves no more than the requested bytes.\<close>

lemma true_size_tight:
  assumes "unat sz + 23 < 2 ^ 64" and "8 dvd k" "32 \<le> k" "k < unat (ZEND_MM_TRUE_SIZE sz)"
  shows "k \<le> unat sz + 16"
proof -
  have "unat (ZEND_MM_TRUE_SIZE sz) = (if unat sz < 16 then 32 else (23 + unat sz) div 8 * 8)"
    using assms(1) unat_add [of sz 16] unat_aligned [of "sz + 16"] by (simp add: ZEND_MM_TRUE_SIZE_def word_less_nat_alt)
  then have "k < (23 + unat sz) div 8 * 8" using assms(3,4) by (auto split: if_splits)
  moreover obtain j where "k = 8 * j" using assms(2) by blast
  ultimately show ?thesis by presburger
qed

theorem realloc_int:
  assumes so: "sound (cache h) (reserve h) C h M" and a: "(a, k) \<in> M" and r: "reserve h \<noteq> Some (a + 16)"
    and fresh: "fresh_storage storage h" "\<And>g. segs g = segs h \<Longrightarrow> fresh_restorage restorage g"
    and fail: "\<And>g s m. ZEND_MM_IS_FREE_BLOCK (a + k) h = Some True \<Longrightarrow> restorage g s m \<noteq> None"
  obtains res h' where "zend_mm_realloc_int storage restorage (Some (a + 16)) sz h = Some (res, h')" "moved h M a k (unat sz) res h'"
proof -
  define t where "t = ZEND_MM_TRUE_SIZE sz"
  obtain w where w: "unat w = k" "proper w" "blk_size h a = Some (hdr w True)" using open_held [OF so a r] by blast
  note step = zend_mm_realloc_int_def [of storage restorage "Some (a + 16)" sz h, simplified header_of held_block_size [OF w(2,3)] option.case
      Option.bind.bind_lunit Let_def, folded t_def]
  show ?thesis
  proof (cases "t < sz")
    case True
    obtain h' where h': "zend_mm_safe_error h = Some (Bailout, h')" "alloc_outcome h M (unat sz) Bailout h'" using safe_error [OF so] by metis
    then show ?thesis using that [of Bailout h'] moved_bailout [OF keeps_refl h'(2)] True by (simp add: step)
  next
    case False
    then have ok: "unat sz + 23 < 2 ^ 64" using true_size_overflow(1) [of sz] unfolding t_def by linarith
    then have t: "proper t" "unat sz + 16 \<le> unat t" using true_size [of sz] by (simp_all add: t_def proper_def)
    show ?thesis
    proof (cases "t \<le> w")
      case True
      obtain res h' where "shrink_block (a + 16) a t w h = Some (res, h')" "moved h M a k (unat sz) res h'"
        using shrink_block [OF so a r w(1) t(1) _ t(2)] True w(1) by (auto simp: word_le_nat_alt)
      then show ?thesis using that False True by (simp add: step)
    next
      case large: False
      then have kt: "k < unat t" using w(1) by (simp add: word_le_nat_alt)
      show ?thesis
      proof (cases "ZEND_MM_SMALL_SIZE t \<and> cache h ! ZEND_MM_BUCKET_INDEX t \<noteq> Null")
        case True
        obtain res h' where "realloc_cached (a + 16) a t w h = Some (res, h')" "moved h M a k (unat sz) res h'"
          using realloc_cached [OF so a r w(1,2) t(1) _ kt t(2)] True by blast
        then show ?thesis using that False large True by (simp add: step)
      next
        case uncached: False
        have "k \<le> unat sz + 16" by (rule true_size_tight [OF ok]) (use w kt in \<open>auto simp: proper_def t_def\<close>)
        from realloc_in_place [OF so a r w(1) t(1) kt t(2) this fresh(1)] fresh(2) fail
        obtain res h' where g: "realloc_in_place storage restorage (a + 16) a t w sz h = Some (res, h')" "moved h M a k (unat sz) res h'" by blast
        then show ?thesis using that False large uncached by (simp only: step if_False)
      qed
    qed
  qed
qed

end
