(* ===== verification/Zend_Mm_Runs.thy ===== *)
theory Zend_Mm_Runs
  imports Zend_Mm_Realloc_Correct
begin

text \<open>
  \<open>zend_mm_startup_ex\<close> makes a sound heap, and \<open>zend_mm_shutdown\<close> at the end of a request leaves one;
  and so does every step of a client.
\<close>

subsection \<open>A new heap\<close>

lemma init_free: "free_ok (zend_mm_init h) {}"
proof -
  let ?h = "zend_mm_init h"
  have l: "free_bitmap ?h = 0" "large_free_bitmap ?h = 0" "rest_count ?h = 0" "prev_free ?h Rest = Some Rest" "next_free ?h Rest = Some Rest"
    by (simp_all add: zend_mm_init_def)
  have "prev_free ?h (Small i) = Some (Small i)" "next_free ?h (Small i) = Some (Small i)" "ftree ?h (Root i) = Some Null" if "i < 64" for i
    using that by (simp_all add: zend_mm_init_def ZEND_MM_NUM_BUCKETS_def)
  then have "free_lists ?h (\<lambda>_. []) [] (\<lambda>_. Tip)"
    using l by (simp add: free_lists_def small_bucket_def rest_list_def tree_def blk_ring_def large_count_def)
  then show ?thesis by (force simp: free_ok_def free_blks_def)
qed

lemma init_ok:
  assumes "segments_list h = None" "real_size h = 0" "reserve h = None" "block_size_ok h"
  shows "mm_ok (zend_mm_init h) {}"
proof -
  let ?h = "zend_mm_init h"
  have l: "segments_list ?h = None" "real_size ?h = 0" "reserve ?h = None" "cache ?h = replicate 64 Null" "block_size ?h = block_size h"
    using assms by (simp_all add: zend_mm_init_def ZEND_MM_NUM_BUCKETS_def)
  have "free_ok ?h (free_of (all_blocks []))" using init_free by (simp add: free_of_def)
  moreover have "mm (?h\<lparr>cache := cache ?h, reserve := reserve ?h\<rparr>) [] (\<lambda>_. [])"
    using l assms(4) by (simp add: mm_def layout_def segs_apart_def books_def total_size_def block_size_ok_def cache_ok_def reserve_ok_def)
  ultimately have "sound (cache ?h) (reserve ?h) (\<lambda>_. []) ?h (held_blocks (all_blocks []) (\<lambda>_. []))" by (intro mm_sound)
  then show ?thesis by (auto simp: mm_ok_def held_blocks_def)
qed

lemma sound_new_reserve: "sound K None C h M \<Longrightarrow> 16 \<le> p \<Longrightarrow> (p - 16, k) \<in> M \<Longrightarrow> sound K (Some p) C h M"
proof -
  assume a: "sound K None C h M" "16 \<le> p" "(p - 16, k) \<in> M"
  then obtain L where mm: "mm (h\<lparr>cache := K, reserve := None\<rparr>) L C" and f: "free_ok h (free_of (all_blocks L))" and M: "M = held_blocks (all_blocks L) C"
    unfolding sound_def by blast
  have l: "layout (h\<lparr>cache := K, reserve := None\<rparr>) L" "books (h\<lparr>cache := K, reserve := None\<rparr>) L (all_blocks L) C" using mm by (simp_all add: mm_def)
  have "layout (h\<lparr>cache := K, reserve := Some p\<rparr>) L"
    using l(1) seg_list_cong [of "h\<lparr>cache := K, reserve := None\<rparr>" "segments_list h" L "h\<lparr>cache := K, reserve := Some p\<rparr>"] seg_blocks_only
    unfolding layout_def by auto
  moreover have "books (h\<lparr>cache := K, reserve := Some p\<rparr>) L (all_blocks L) C"
    using l(2) a(2,3) cached_list_cong [of "h\<lparr>cache := K, reserve := None\<rparr>" _ _ "h\<lparr>cache := K, reserve := Some p\<rparr>"]
    unfolding books_def cache_ok_def M by (auto simp: block_size_ok_def reserve_ok_def held_blocks_def)
  ultimately show ?thesis using f M unfolding sound_def mm_def by blast
qed

lemma set_reserve_ok:
  assumes ok: "mm_ok h {}" and r: "reserve h = None" and fresh: "fresh_storage storage h" and s: "set_reserve storage h = Some h'"
  shows "\<exists>M. mm_ok h' M"
proof (cases "reserve_size h > 0")
  case True
  obtain C where so: "sound (cache h) (reserve h) C h {}" using ok unfolding mm_ok_def by blast
  obtain res h1 where h1: "zend_mm_alloc_int storage (reserve_size h) h = Some (res, h1)" "alloc_outcome h {} (unat (reserve_size h)) res h1"
    by (rule alloc_int [OF so fresh])
  obtain p where p: "res = Mm_ptr p" "h' = h1\<lparr>reserve := Some p\<rparr>" using s h1(1) True by (cases res) (auto simp: set_reserve_def)
  then obtain k where k: "16 \<le> p" "reserve h1 = None" "mm_ok h1 {(p - 16, k)}" using h1(2) r by (auto simp: alloc_outcome_def)
  then obtain C' where "sound (cache h1) None C' h1 {(p - 16, k)}" by (auto simp: mm_ok_def)
  from sound_new_reserve [OF this k(1), of k] have "sound (cache h1) (Some p) C' h1 {(p - 16, k)}" by simp
  then show ?thesis using p(2) by (auto simp: mm_ok_def)
qed (use assms in \<open>auto simp: set_reserve_def\<close>)

lemma startup_ok:
  assumes "zend_mm_startup_ex storage (push_bit k 1) rsz = Some h" and "5 \<le> k" "k < 64"
  shows "\<exists>M. mm_ok h M"
proof -
  let ?h = "(zend_mm_init (new_heap\<lparr>block_size := push_bit k 1, segments_list := None\<rparr>))\<lparr>real_size := 0, overflow := 0, real_peak := 0,
     mm_limit := push_bit (ZEND_MM_NUM_BUCKETS - 2) 1, heap_size := 0, heap_peak := 0, reserve := None, reserve_size := rsz\<rparr>"
  let ?g = "new_heap\<lparr>block_size := push_bit k 1, segments_list := None, mm_limit := push_bit (ZEND_MM_NUM_BUCKETS - 2) 1, reserve_size := rsz\<rparr>"
  have e: "?h = zend_mm_init ?g" by (simp add: zend_mm_init_def new_heap_def cong: fblk.case_cong fcell.case_cong if_cong)
  have s: "set_reserve storage ?h = Some h"
    using assms(1) by (auto simp: zend_mm_startup_ex_def Let_def split: bind_splits)
  have "(2 :: nat) ^ k < 2 ^ 64" using assms(3) by (intro power_strict_increasing) simp_all
  then have "unat (push_bit k 1 :: ulong) = 2 ^ k" using assms(3) unfolding unsigned_push_bit_eq by (simp add: take_bit_nat_eq_self)
  moreover have "(32 :: nat) \<le> 2 ^ k" using power_increasing [of 5 k "2 :: nat"] assms(2) by simp
  ultimately have "block_size_ok ?g" using assms(3) unfolding block_size_ok_def by (intro conjI exI [of _ k]) simp_all
  then have "mm_ok ?h {}" unfolding e by (intro init_ok) (simp_all add: new_heap_def)
  moreover have "fresh_storage storage ?h" by (simp add: fresh_storage_def zend_mm_init_def new_heap_def)
  ultimately show ?thesis using set_reserve_ok [OF _ _ _ s] by simp
qed

subsection \<open>The end of a request\<close>

lemma init_fields:
  "(zend_mm_init h)\<lparr>real_size := x\<rparr> = zend_mm_init (h\<lparr>real_size := x\<rparr>)" "(zend_mm_init h)\<lparr>real_peak := x\<rparr> = zend_mm_init (h\<lparr>real_peak := x\<rparr>)"
  "(zend_mm_init h)\<lparr>heap_size := x\<rparr> = zend_mm_init (h\<lparr>heap_size := x\<rparr>)" "(zend_mm_init h)\<lparr>heap_peak := x\<rparr> = zend_mm_init (h\<lparr>heap_peak := x\<rparr>)"
  by (simp_all add: zend_mm_init_def cong: fblk.case_cong fcell.case_cong if_cong)

lemma init_keeps [simp]:
  "segments_list (zend_mm_init h) = segments_list h" "segs (zend_mm_init h) = segs h" "block_size (zend_mm_init h) = block_size h"
  "reserve (zend_mm_init h) = reserve h" "reserve_size (zend_mm_init h) = reserve_size h" "real_size (zend_mm_init h) = real_size h"
  "blk_size (zend_mm_init h) = blk_size h" "blk_prev (zend_mm_init h) = blk_prev h" "cache (zend_mm_init h) = replicate 64 Null"
  by (simp_all add: zend_mm_init_def ZEND_MM_NUM_BUCKETS_def)

text \<open>Of the segments at most one is left.\<close>

lemma free_segments:
  assumes "seg_list h p L" and "distinct (map fst L)"
  shows "\<exists>q h'. free_segments keep p h = Some (q, h') \<and> h' = h\<lparr>segs := segs h', blk_size := blk_size h', blk_prev := blk_prev h'\<rparr> \<and>
    segs h' \<subseteq>\<^sub>m segs h \<and> (\<forall>s. q = Some s \<longrightarrow> (\<exists>n bs. (s, n, bs) \<in> set L \<and> segs h' s = Some \<lparr>seg_size = n, next_segment = None\<rparr>))"
  using assms
proof (induction L arbitrary: h p)
  case Nil
  then show ?case by (simp add: free_segments.simps)
next
  case (Cons x L)
  obtain s n bs where x: "x = (s, n, bs)" by (cases x)
  then obtain q where q: "p = Some s" "segs h s = Some \<lparr>seg_size = n, next_segment = q\<rparr>" "seg_list h q L" using Cons.prems(1) by auto
  show ?case
  proof (cases "keep \<and> q = None")
    case True
    then have "free_segments keep p h = Some (Some s, h)" using q by (simp add: free_segments.simps)
    then show ?thesis using q x True by (intro exI [of _ "Some s"] exI [of _ h]) auto
  next
    case False
    obtain h1 where h1: "ZEND_MM_STORAGE_FREE s h = Some h1" "h1 = h\<lparr>segs := segs h1, blk_size := blk_size h1, blk_prev := blk_prev h1\<rparr>"
      "segs h1 = (segs h)(s := None)" using q(2) by (simp add: ZEND_MM_STORAGE_FREE_def)
    have "s \<notin> fst ` set L" "distinct (map fst L)" using Cons.prems(2) x by simp_all
    then have l: "\<forall>(t, n, bs)\<in>set L. segs h1 t = segs h t" unfolding h1(3) by force
    obtain q' h' where h': "free_segments keep q h1 = Some (q', h')" "h' = h1\<lparr>segs := segs h', blk_size := blk_size h', blk_prev := blk_prev h'\<rparr>"
      "segs h' \<subseteq>\<^sub>m segs h1" "\<forall>s. q' = Some s \<longrightarrow> (\<exists>n bs. (s, n, bs) \<in> set L \<and> segs h' s = Some \<lparr>seg_size = n, next_segment = None\<rparr>)"
      using Cons.IH [OF seg_list_cong [OF q(3) l] \<open>distinct (map fst L)\<close>] by blast
    have "free_segments keep p h = Some (q', h')" using False q h1(1) h'(1) by (subst free_segments.simps) auto
    moreover have "h' = h\<lparr>segs := segs h', blk_size := blk_size h', blk_prev := blk_prev h'\<rparr>"
      using h1(2) h'(2) by (cases h; cases h1; cases h') simp
    moreover have "segs h' \<subseteq>\<^sub>m segs h" 
      unfolding map_le_def
    proof
      fix x assume x: "x \<in> dom (segs h')"
      then have "segs h' x = ((segs h)(s := None)) x" using h'(3) unfolding h1(3) map_le_def by blast
      then show "segs h' x = segs h x" using x by (cases "x = s") auto
    qed
    ultimately show ?thesis using h'(4) by (intro exI [of _ q'] exI [of _ h'] conjI) (simp_all, blast)
  qed
qed

lemma chain_dvd: "headers h pw a us e \<Longrightarrow> 8 dvd extent us"
  by (induction h pw a us e rule: headers.induct) (auto simp: proper_def)

text \<open>A segment as one free block.\<close>

lemma reset_segment:
  assumes q: "segments_list h = Some s" "segs h s = Some \<lparr>seg_size = n, next_segment = None\<rparr>" and r: "reserve h = None" "block_size_ok h"
    and n: "64 \<le> unat n" "8 dvd unat n"
  shows "\<exists>h'. reset_segment s (zend_mm_init h) = Some h' \<and> mm_ok h' {} \<and> segs h' = segs h \<and> reserve h' = None \<and> reserve_size h' = reserve_size h"
proof -
  let ?g = "h\<lparr>real_size := n, real_peak := n, heap_size := 0, heap_peak := 0\<rparr>"
  define g where "g = ZEND_MM_LAST_BLOCK (s + unat n - 16) (ZEND_MM_MARK_FIRST_BLOCK (s + 16) (zend_mm_init ?g))"
  let ?b = "g\<lparr>blk_prev := (blk_prev g)(s + unat n - 16 \<mapsto> 0)\<rparr>"
  have u: "unat (n - 32) = unat n - 32" using unat_sub [of 32 n] n by simp
  have p: "proper (n - 32)" using n u by (simp add: proper_def dvd_diff_nat)
  have e: "s + 16 + (unat n - 32) = s + unat n - 16" using n by simp
  have "mm_hole (?b\<lparr>cache := replicate 64 Null, reserve := None\<rparr>) [] s n [] (unat n - 32) [] [] (\<lambda>_. [])"
    unfolding mm_hole_def
  proof (intro conjI)
    show "split_seg (?b\<lparr>cache := replicate 64 Null, reserve := None\<rparr>) s n [] (unat n - 32) []"
      using n e by (auto simp: split_seg_def g_def ZEND_MM_LAST_BLOCK_def ZEND_MM_MARK_FIRST_BLOCK_def guard_word_def)
    show "books (?b\<lparr>cache := replicate 64 Null, reserve := None\<rparr>) ([] @ (s, n, []) # []) (around [] s [] (unat n - 32) [] []) (\<lambda>_. [])"
      using r(2) by (simp add: books_def g_def ZEND_MM_LAST_BLOCK_def ZEND_MM_MARK_FIRST_BLOCK_def total_size_def cache_ok_def reserve_ok_def block_size_ok_def)
  qed (use q in \<open>simp_all add: g_def ZEND_MM_LAST_BLOCK_def ZEND_MM_MARK_FIRST_BLOCK_def segs_apart_def\<close>)
  moreover have f: "free_ok ?b {}"
    by (rule free_ok_cong [OF init_free [of ?g]]) (simp_all add: g_def ZEND_MM_LAST_BLOCK_def ZEND_MM_MARK_FIRST_BLOCK_def)
  then have "free_ok ?b (free_of (around [] s [] (unat n - 32) [] []))" by (simp add: around_def free_of_def)
  ultimately have "opened (replicate 64 Null) None (\<lambda>_. []) ?b {} (s + 16) (unat (n - 32))"
    unfolding opened_def u by (intro exI [of _ "[]"] exI [of _ s] exI [of _ n] exI [of _ "[]"] exI [of _ "[]"] exI [of _ "[]"]) (simp add: around_def held_blocks_def)
  from free_list.close_free [OF this p] obtain h' where h': "zend_mm_add_to_free_list (s + 16) (ZEND_MM_BLOCK (s + 16) ZEND_MM_FREE_BLOCK (n - 32) ?b) = Some h'"
    "sound (replicate 64 Null) None (\<lambda>_. []) h' {}" "reserve h' = reserve ?b" "cache h' = cache ?b" by metis
  have w: "ZEND_MM_BLOCK (s + 16) ZEND_MM_FREE_BLOCK (n - 32) ?b = ZEND_MM_BLOCK (s + 16) ZEND_MM_FREE_BLOCK (n - 32) g"
    using e u by (simp add: ZEND_MM_BLOCK_def ZEND_MM_BLOCK_AT_def)
  let ?w = "ZEND_MM_BLOCK (s + 16) ZEND_MM_FREE_BLOCK (n - 32) ?b"
  have "sized ?w (s + 16)" using p by (simp add: sized_def ZEND_MM_BLOCK_def ZEND_MM_FREE_BLOCK_def proper_def)
  then have "links_frame (insert (s + 16) {}) ?w h'" using free_ok_add [OF free_ok_write [OF f], of "s + 16" "s + 16"] h'(1) by fastforce
  then have fr: "segs h' = segs h" "reserve_size h' = reserve_size h"
    using frame_fields [of "insert (s + 16) {}" ?w h'] by (simp_all add: ZEND_MM_BLOCK_def g_def ZEND_MM_LAST_BLOCK_def ZEND_MM_MARK_FIRST_BLOCK_def)
  have "reset_segment s (zend_mm_init h) = zend_mm_add_to_free_list (s + 16) (ZEND_MM_BLOCK (s + 16) ZEND_MM_FREE_BLOCK (n - 32) g)"
    using q(2) e u by (simp add: reset_segment_def init_fields Let_def ZEND_MM_BLOCK_AT_def g_def)
  then have "reset_segment s (zend_mm_init h) = Some h'" using h'(1) unfolding w by simp
  moreover have "mm_ok h' {}" using h'(2-4) r by (auto simp: mm_ok_def g_def ZEND_MM_LAST_BLOCK_def ZEND_MM_MARK_FIRST_BLOCK_def)
  ultimately show ?thesis using h'(3) r fr by (auto simp: g_def ZEND_MM_LAST_BLOCK_def ZEND_MM_MARK_FIRST_BLOCK_def)
qed

text \<open>Only the reserve is allocated again; if that fails the process ends.\<close>

lemma map_option_run: "map_option f (Option.bind m k) = Option.bind m (\<lambda>x. Option.bind (k x) (\<lambda>y. Some (f y)))"
  by (cases m) (simp_all add: map_conv_bind_option o_def)

lemma shutdown_run:
  assumes ok: "mm_ok h M"
  obtains h1 where "zend_mm_shutdown storage False h = map_option (\<lambda>h. h\<lparr>overflow := 0\<rparr>) (set_reserve storage h1)"
    "mm_ok h1 {}" "reserve h1 = None" "segs h1 \<subseteq>\<^sub>m segs h" "reserve_size h1 = reserve_size h"
proof -
  obtain C L where mm: "mm (h\<lparr>cache := cache h, reserve := reserve h\<rparr>) L C" using ok by (auto simp: mm_ok_def sound_def)
  then have l: "seg_list h (segments_list h) L" "segs_apart L" "\<forall>x\<in>set L. seg h x" "block_size_ok h" by (simp_all add: mm_def layout_def books_def)
  have n: "64 \<le> unat n" "8 dvd unat n" if x: "(s, n, bs) \<in> set L" for s n bs
  proof -
    have c: "64 \<le> unat n" "headers h ZEND_MM_GUARD_BLOCK (s + 16) bs (s + unat n - 16)" using l(3) x by (auto simp: seg_def)
    then have "s + unat n - 16 = s + 16 + extent bs" using chain_extent by blast
    then have "unat n = extent bs + 32" using c(1) by simp
    then show "64 \<le> unat n" "8 dvd unat n" using c(1) chain_dvd [OF c(2)] by (simp_all add: dvd_add)
  qed
  then have "\<forall>(s, n, bs)\<in>set L. 0 < unat n" by fastforce
  then have "distinct (map fst L)" by (rule apart_distinct [OF l(2)])
  moreover let ?h = "h\<lparr>reserve := None\<rparr>"
  have "seg_list ?h (segments_list h) L" by (rule seg_list_cong [OF l(1)]) simp
  ultimately obtain q g where g: "free_segments (reserve_size h \<noteq> 0) (segments_list h) ?h = Some (q, g)"
    "g = ?h\<lparr>segs := segs g, blk_size := blk_size g, blk_prev := blk_prev g\<rparr>" "segs g \<subseteq>\<^sub>m segs h"
    "\<forall>s. q = Some s \<longrightarrow> (\<exists>n bs. (s, n, bs) \<in> set L \<and> segs g s = Some \<lparr>seg_size = n, next_segment = None\<rparr>)"
    using free_segments [of ?h "segments_list h" L "reserve_size h \<noteq> 0"] by auto
  have e: "reserve g = None" "block_size g = block_size h" "reserve_size g = reserve_size h" using g(2) by (cases g; cases h; simp)+
  have bo: "block_size_ok g" using l(4) e(2) by (simp add: block_size_ok_def)
  have sh: "zend_mm_shutdown storage False h = map_option (\<lambda>h. h\<lparr>overflow := 0\<rparr>) (Option.bind (case q of
      None \<Rightarrow> Some ((zend_mm_init (g\<lparr>segments_list := q\<rparr>))\<lparr>real_size := 0, real_peak := 0, heap_size := 0, heap_peak := 0\<rparr>)
    | Some s \<Rightarrow> reset_segment s (zend_mm_init (g\<lparr>segments_list := q\<rparr>))) (set_reserve storage))"
    using g(1) by (simp add: zend_mm_shutdown_def Let_def map_option_run cong: option.case_cong)
  show ?thesis
  proof (cases q)
    case None
    let ?g = "g\<lparr>segments_list := None, real_size := 0, real_peak := 0, heap_size := 0, heap_peak := 0\<rparr>"
    have "mm_ok (zend_mm_init ?g) {}" by (rule init_ok) (use e bo in \<open>simp_all add: block_size_ok_def\<close>)
    moreover have "zend_mm_shutdown storage False h = map_option (\<lambda>h. h\<lparr>overflow := 0\<rparr>) (set_reserve storage (zend_mm_init ?g))"
      unfolding sh using None by (simp add: init_fields)
    ultimately show ?thesis using that [of "zend_mm_init ?g"] e g(3) by simp
  next
    case (Some s)
    then obtain n bs where s: "(s, n, bs) \<in> set L" "segs g s = Some \<lparr>seg_size = n, next_segment = None\<rparr>" using g(4) by blast
    obtain h' where h': "reset_segment s (zend_mm_init (g\<lparr>segments_list := q\<rparr>)) = Some h'" "mm_ok h' {}" "segs h' = segs g" "reserve h' = None"
      "reserve_size h' = reserve_size h"
      using reset_segment [of "g\<lparr>segments_list := q\<rparr>" s n] Some s(2) e bo n [OF s(1)] by (auto simp: block_size_ok_def)
    have "zend_mm_shutdown storage False h = map_option (\<lambda>h. h\<lparr>overflow := 0\<rparr>) (set_reserve storage h')"
      unfolding sh using Some h'(1) by simp
    then show ?thesis using that h' g(3) by simp
  qed
qed

lemma heap_ok_overflow [simp]: "mm_ok (h\<lparr>overflow := x\<rparr>) M = mm_ok h M"
  by (simp add: mm_ok_def)

lemma shutdown_ok:
  assumes "mm_ok h M" and fresh: "\<And>g. segs g \<subseteq>\<^sub>m segs h \<Longrightarrow> fresh_storage storage g" and "zend_mm_shutdown storage False h = Some h'"
  shows "\<exists>M'. mm_ok h' M'"
proof -
  obtain h1 where h1: "zend_mm_shutdown storage False h = map_option (\<lambda>h. h\<lparr>overflow := 0\<rparr>) (set_reserve storage h1)"
    "mm_ok h1 {}" "reserve h1 = None" "segs h1 \<subseteq>\<^sub>m segs h" by (rule shutdown_run [OF assms(1)]) blast
  obtain h2 where "set_reserve storage h1 = Some h2" "h' = h2\<lparr>overflow := 0\<rparr>" using assms(3) unfolding h1(1) by auto
  then show ?thesis using set_reserve_ok [OF h1(2,3) fresh [OF h1(4)]] by auto
qed

subsection \<open>Runs of a client\<close>

text \<open>
  Runs of a client on the heap manager: the heap stays sound as long as the client frees, resizes and writes only
  what it was given. The client's view is a map from pointers to the contents of its
  buffers.
\<close>

subsection \<open>Clients\<close>

type_synonym buffers = "nat \<rightharpoonup> byte list"

definition contents :: "mm_heap \<Rightarrow> nat \<Rightarrow> nat \<Rightarrow> byte list" where
  "contents h p n = map (\<lambda>j. bytes h (p + j)) [0..<n]"

lemma contents_simps [simp]: "length (contents h p n) = n" "j < n \<Longrightarrow> contents h p n ! j = bytes h (p + j)"
  by (simp_all add: contents_def)

text \<open>
  What is asked of the storage when a block is resized: it does not put a segment over another one, and it does not
  fail while the block behind is free (that block would be lost, see \<open>realloc_failure_loses_block\<close>).
\<close>

definition next_is_free :: "nat \<Rightarrow> mm_heap \<Rightarrow> bool" where
  "next_is_free p h \<longleftrightarrow> (\<exists>w. ZEND_MM_BLOCK_SIZE (p - 16) h = Some w \<and> ZEND_MM_IS_FREE_BLOCK (p - 16 + unat w) h = Some True)"

definition resizes :: "(mm_heap \<Rightarrow> nat \<Rightarrow> ulong \<Rightarrow> ptr) \<Rightarrow> nat \<Rightarrow> mm_heap \<Rightarrow> bool" where
  "resizes restorage p h \<longleftrightarrow> (\<forall>g. segs g = segs h \<longrightarrow> fresh_restorage restorage g) \<and>
     (next_is_free p h \<longrightarrow> (\<forall>g s m. restorage g s m \<noteq> None))"

text \<open>
  The client allocates, frees and resizes buffers, and writes into them. Memory it is given is as it was found. The
  end of the request takes all buffers away.
\<close>

inductive mm_step :: "mm_heap \<times> buffers \<Rightarrow> mm_heap \<times> buffers \<Rightarrow> bool" where
  alloc: "fresh_storage storage h \<Longrightarrow> zend_mm_alloc_int storage sz h = Some (Mm_ptr p, h') \<Longrightarrow>
    mm_step (h, D) (h', D(p \<mapsto> contents h p (unat sz)))"
| alloc_fails: "fresh_storage storage h \<Longrightarrow> zend_mm_alloc_int storage sz h = Some (Bailout, h') \<Longrightarrow> mm_step (h, D) (h', D)"
| free: "D p = Some bs \<Longrightarrow> zend_mm_free_int (Some p) h = Some h' \<Longrightarrow> mm_step (h, D) (h', D(p := None))"
| realloc: "D p = Some bs \<Longrightarrow> fresh_storage storage h \<Longrightarrow> resizes restorage p h \<Longrightarrow>
    zend_mm_realloc_int storage restorage (Some p) sz h = Some (Mm_ptr q, h') \<Longrightarrow>
    mm_step (h, D) (h', D(p := None, q \<mapsto> take (unat sz) bs @ contents h' (q + length bs) (unat sz - length bs)))"
| realloc_fails: "D p = Some bs \<Longrightarrow> fresh_storage storage h \<Longrightarrow> resizes restorage p h \<Longrightarrow>
    zend_mm_realloc_int storage restorage (Some p) sz h = Some (Bailout, h') \<Longrightarrow> mm_step (h, D) (h', D)"
| store: "D p = Some bs \<Longrightarrow> j < length bs \<Longrightarrow> mm_step (h, D) (h\<lparr>bytes := (bytes h)(p + j := v)\<rparr>, D(p \<mapsto> bs[j := v]))"
| request_end: "(\<And>g. segs g \<subseteq>\<^sub>m segs h \<Longrightarrow> fresh_storage storage g) \<Longrightarrow> zend_mm_shutdown storage False h = Some h' \<Longrightarrow>
    mm_step (h, D) (h', Map.empty)"

abbreviation mm_run :: "mm_heap \<times> buffers \<Rightarrow> mm_heap \<times> buffers \<Rightarrow> bool" where
  "mm_run \<equiv> mm_step\<^sup>*\<^sup>*"

text \<open>Every buffer lies in a block of its own, behind the header, and has the contents the client knows.\<close>

definition holds_buffers :: "mm_heap \<Rightarrow> (nat \<times> nat) set \<Rightarrow> buffers \<Rightarrow> bool" where
  "holds_buffers h M D \<longleftrightarrow> mm_ok h M \<and> (\<forall>p bs. D p = Some bs \<longrightarrow> reserve h \<noteq> Some p \<and> 16 \<le> p \<and>
     (\<exists>k. (p - 16, k) \<in> M \<and> length bs + 16 \<le> k) \<and> (\<forall>j<length bs. bytes h (p + j) = bs ! j))"

lemma heldI:
  assumes "mm_ok h M" and "\<And>p bs. D p = Some bs \<Longrightarrow> reserve h \<noteq> Some p" "\<And>p bs. D p = Some bs \<Longrightarrow> 16 \<le> p"
    "\<And>p bs. D p = Some bs \<Longrightarrow> \<exists>k. (p - 16, k) \<in> M \<and> length bs + 16 \<le> k"
    "\<And>p bs j. D p = Some bs \<Longrightarrow> j < length bs \<Longrightarrow> bytes h (p + j) = bs ! j"
  shows "holds_buffers h M D"
  using assms unfolding holds_buffers_def by blast

lemma heldD:
  assumes "holds_buffers h M D"
  shows "mm_ok h M" "D p = Some bs \<Longrightarrow> reserve h \<noteq> Some p" "D p = Some bs \<Longrightarrow> 16 \<le> p"
    "D p = Some bs \<Longrightarrow> \<exists>k. (p - 16, k) \<in> M \<and> length bs + 16 \<le> k"
    "D p = Some bs \<Longrightarrow> j < length bs \<Longrightarrow> bytes h (p + j) = bs ! j"
  using assms unfolding holds_buffers_def by blast+

lemma buffers_apart:
  assumes i: "holds_buffers h M D" and p: "D p = Some bs" and q: "D q = Some cs" and "p \<noteq> q"
  shows "p + length bs \<le> q \<or> q + length cs \<le> p"
proof -
  obtain k l where k: "(p - 16, k) \<in> M" "length bs + 16 \<le> k" "(q - 16, l) \<in> M" "length cs + 16 \<le> l" using heldD(4) [OF i] p q by blast
  have g: "16 \<le> p" "16 \<le> q" using heldD(3) [OF i] p q by blast+
  obtain C where "sound (cache h) (reserve h) C h M" using heldD(1) [OF i] by (auto simp: mm_ok_def)
  from held_apart [OF this k(1,3)] show ?thesis using k(2,4) g assms(4) by auto
qed

lemma held_once: "mm_ok h M \<Longrightarrow> (a, k) \<in> M \<Longrightarrow> (a, l) \<in> M \<Longrightarrow> k = l"
proof -
  assume a: "mm_ok h M" "(a, k) \<in> M" "(a, l) \<in> M"
  then obtain C where C: "sound (cache h) (reserve h) C h M" by (auto simp: mm_ok_def)
  show "k = l" using held_apart [OF C a(2,3)] held_size [OF C a(2)] held_size [OF C a(3)] by auto
qed

subsection \<open>Every step keeps them\<close>

lemma alloc_keeps:
  assumes i: "holds_buffers h M D" and fresh: "fresh_storage storage h" and r: "zend_mm_alloc_int storage sz h = Some (r, h')"
  shows "case r of Mm_ptr p \<Rightarrow> \<exists>M'. holds_buffers h' M' (D(p \<mapsto> contents h p (unat sz))) | Bailout \<Rightarrow> \<exists>M'. holds_buffers h' M' D"
proof -
  obtain C where so: "sound (cache h) (reserve h) C h M" using heldD(1) [OF i] by (auto simp: mm_ok_def)
  have o: "alloc_outcome h M (unat sz) r h'" using alloc_int [OF so fresh, of sz] r by (metis option.inject prod.inject)
  show ?thesis
  proof (cases r)
    case (Mm_ptr p)
    then obtain k where k: "16 \<le> p" "p - 16 \<notin> fst ` M" "reserve h' = reserve h" "bytes h' = bytes h" "mm_ok h' (insert (p - 16, k) M)" "unat sz + 16 \<le> k"
      using o by (auto simp: alloc_outcome_def)
    have "holds_buffers h' (insert (p - 16, k) M) (D(p \<mapsto> contents h p (unat sz)))"
    proof (rule heldI [OF k(5)])
      fix q cs assume q: "(D(p \<mapsto> contents h p (unat sz))) q = Some cs"
      show "reserve h' \<noteq> Some q"
      proof (cases "q = p")
        case True
        have "(p - 16, x) \<notin> M" for x using k(2) by force
        then show ?thesis using held_reserve [of "cache h" p C h M] so k(3) True by auto
      qed (use q heldD(2) [OF i] k(3) in auto)
      show "16 \<le> q" using q heldD(3) [OF i] k(1) by (auto split: if_splits)
      show "\<exists>l. (q - 16, l) \<in> insert (p - 16, k) M \<and> length cs + 16 \<le> l"
      proof (cases "q = p")
        case False
        then have "D q = Some cs" using q by simp
        then show ?thesis using heldD(4) [OF i] by blast
      qed (use q k(6) in auto)
      show "bytes h' (q + j) = cs ! j" if "j < length cs" for j using q that heldD(5) [OF i] k(4) by (cases "q = p") auto
    qed
    then show ?thesis using Mm_ptr by auto
  next
    case Bailout
    then have k: "bytes h' = bytes h" "reserve h' = None" "mm_ok h' (unreserved h M)" using o by (simp_all add: alloc_outcome_def)
    have "holds_buffers h' (unreserved h M) D"
    proof (rule heldI [OF k(3)])
      fix q cs assume q: "D q = Some cs"
      show "\<exists>l. (q - 16, l) \<in> unreserved h M \<and> length cs + 16 \<le> l"
        using heldD(4) [OF i q] heldD(2,3) [OF i q] by (auto simp: unreserved_def)
    qed (use heldD [OF i] k in auto)
    then show ?thesis using Bailout by auto
  qed
qed

lemma free_keeps_buffers:
  assumes i: "holds_buffers h M D" and p: "D p = Some bs"
  shows "\<exists>h' M'. zend_mm_free_int (Some p) h = Some h' \<and> holds_buffers h' M' (D(p := None))"
proof -
  obtain C where so: "sound (cache h) (reserve h) C h M" using heldD(1) [OF i] by (auto simp: mm_ok_def)
  obtain k where k: "(p - 16, k) \<in> M" "16 \<le> p" "reserve h \<noteq> Some p" using heldD(2-4) [OF i p] by blast
  then have "reserve h \<noteq> Some (p - 16 + 16)" by simp
  from free_int [OF so k(1) this] obtain h' C' where h': "zend_mm_free_int (Some (p - 16 + 16)) h = Some h'" "sound (cache h') (reserve h) C' h' (M - {(p - 16, k)})"
    "bytes h' = bytes h" "reserve h' = reserve h" by blast
  have "mm_ok h' (M - {(p - 16, k)})" using h'(2,4) by (auto simp: mm_ok_def)
  then have "holds_buffers h' (M - {(p - 16, k)}) (D(p := None))"
  proof (rule heldI)
    fix q cs assume q: "(D(p := None)) q = Some cs"
    then have D: "D q = Some cs" "q \<noteq> p" by (auto split: if_splits)
    show "\<exists>l. (q - 16, l) \<in> M - {(p - 16, k)} \<and> length cs + 16 \<le> l" using heldD(3,4) [OF i D(1)] k(2) D(2) by auto
    show "reserve h' \<noteq> Some q" "16 \<le> q" using heldD(2,3) [OF i D(1)] h'(4) by simp_all
    show "bytes h' (q + j) = cs ! j" if "j < length cs" for j using heldD(5) [OF i D(1) that] h'(3) by simp
  qed
  then show ?thesis using h'(1) k(2) by auto
qed

lemma realloc_keeps:
  assumes i: "holds_buffers h M D" and p: "D p = Some bs" and fresh: "fresh_storage storage h" and rs: "resizes restorage p h"
  shows "\<exists>r h' M'. zend_mm_realloc_int storage restorage (Some p) sz h = Some (r, h') \<and> holds_buffers h' M' (case r of
      Mm_ptr q \<Rightarrow> D(p := None, q \<mapsto> take (unat sz) bs @ contents h' (q + length bs) (unat sz - length bs)) | Bailout \<Rightarrow> D)"
proof -
  obtain C where so: "sound (cache h) (reserve h) C h M" using heldD(1) [OF i] by (auto simp: mm_ok_def)
  obtain k where k: "(p - 16, k) \<in> M" "16 \<le> p" "reserve h \<noteq> Some p" "length bs + 16 \<le> k" using heldD(2-4) [OF i p] by blast
  define a where "a = p - 16"
  have pa: "p = a + 16" "(a, k) \<in> M" "reserve h \<noteq> Some (a + 16)" using k by (simp_all add: a_def)
  obtain w where w: "unat w = k" "proper w" "blk_size h a = Some (hdr w True)" using open_held [OF so pa(2,3)] by blast
  have fail: "ZEND_MM_IS_FREE_BLOCK (a + k) h = Some True \<Longrightarrow> restorage g s m \<noteq> None" for g s m
    using rs held_block_size [OF w(2,3)] w(1) unfolding resizes_def next_is_free_def a_def by blast
  have fr: "segs g = segs h \<Longrightarrow> fresh_restorage restorage g" for g using rs by (simp add: resizes_def)
  obtain r h' where r: "zend_mm_realloc_int storage restorage (Some p) sz h = Some (r, h')" "moved h M a k (unat sz) r h'"
    using realloc_int [OF so pa(2,3) fresh fr fail, of sz] unfolding pa(1) by blast
  have other: "bytes h' (q + j) = cs ! j"
    if dk: "data_kept h h' N" and D: "D q = Some cs" "\<exists>l. (q - 16, l) \<in> N \<and> length cs + 16 \<le> l" "j < length cs" for N q cs j
  proof -
    obtain l where l: "(q - 16, l) \<in> N" "length cs + 16 \<le> l" using D(2) by blast
    have "q - 16 + 16 \<le> q + j \<and> q + j < q - 16 + l" using l(2) D(3) heldD(3) [OF i D(1)] by simp
    then have "bytes h' (q + j) = bytes h (q + j)" using dk l(1) unfolding data_kept_def by blast
    then show ?thesis using heldD(5) [OF i D(1,3)] by simp
  qed
  show ?thesis
  proof (cases r)
    case (Mm_ptr q)
    let ?N = "M - {(a, k)}" and ?bs = "take (unat sz) bs @ contents h' (q + length bs) (unat sz - length bs)"
    obtain l where m: "16 \<le> q" "q = a + 16 \<or> q - 16 \<notin> fst ` ?N" "data_kept h h' ?N" "mm_ok h' (insert (q - 16, l) ?N)" "unat sz + 16 \<le> l"
      and pre: "\<And>j. j < unat sz \<and> j < k - 16 \<Longrightarrow> bytes h' (q + j) = bytes h (a + 16 + j)"
      and res: "reserve h' = reserve h"
      using r(2) Mm_ptr unfolding moved_def by auto
    have still: "\<exists>l. (q' - 16, l) \<in> ?N \<and> length cs + 16 \<le> l" if "D q' = Some cs" "q' \<noteq> p" for q' cs
      using heldD(3,4) [OF i that(1)] that(2) k(2) unfolding a_def by auto
    have "holds_buffers h' (insert (q - 16, l) ?N) (D(p := None, q \<mapsto> ?bs))"
    proof (rule heldI [OF m(4)])
      fix q' cs assume q': "(D(p := None, q \<mapsto> ?bs)) q' = Some cs"
      show "\<exists>l'. (q' - 16, l') \<in> insert (q - 16, l) ?N \<and> length cs + 16 \<le> l'"
      proof (cases "q' = q")
        case True
        then have "length cs = unat sz" using q' by auto
        then show ?thesis using True m(5) by auto
      next
        case False
        then have "D q' = Some cs" "q' \<noteq> p" using q' by (auto split: if_splits)
        then show ?thesis using still by blast
      qed
      show "16 \<le> q'" using q' m(1) heldD(3) [OF i] by (auto split: if_splits)
      show "reserve h' \<noteq> Some q'"
      proof (cases "q' = q")
        case True
        show ?thesis
        proof
          assume "reserve h' = Some q'"
          then have "reserve h = Some q" using res True by simp
          then obtain x where "(q - 16, x) \<in> M" using held_reserve [of "cache h" q C h M] so by auto
          moreover have "q \<noteq> a + 16" using \<open>reserve h = Some q\<close> pa(3) by auto
          ultimately show False using m(1,2) by force
        qed
      next
        case False
        then have "D q' = Some cs" using q' by (auto split: if_splits)
        then show ?thesis using heldD(2) [OF i] res by simp
      qed
      show "bytes h' (q' + j) = cs ! j" if j: "j < length cs" for j
      proof (cases "q' = q")
        case True
        then have cs: "cs = ?bs" using q' by simp
        show ?thesis
        proof (cases "j < length bs")
          case less: True
          then have "j < unat sz" using j cs by (auto simp: min_def split: if_splits)
          moreover have "j < k - 16" using less k(4) by simp
          ultimately have "bytes h' (q + j) = bytes h (p + j)" "cs ! j = bs ! j" using pre pa(1) less cs by (simp_all add: nth_append)
          then show ?thesis using True heldD(5) [OF i p less] by simp
        next
          case ge: False
          then have "cs ! j = contents h' (q + length bs) (unat sz - length bs) ! (j - length bs)" "j - length bs < unat sz - length bs"
            using j cs by (auto simp: nth_append min_def split: if_splits)
          then show ?thesis using True ge by simp
        qed
      next
        case False
        then have D: "D q' = Some cs" "q' \<noteq> p" using q' by (auto split: if_splits)
        show ?thesis by (rule other [OF m(3) D(1) still [OF D] j])
      qed
    qed
    then show ?thesis using r(1) Mm_ptr by auto
  next
    case Bailout
    then have k': "data_kept h h' M" "mm_ok h' (unreserved h M)" "reserve h' = None" using r(2) by (simp_all add: moved_def)
    have "holds_buffers h' (unreserved h M) D"
    proof (rule heldI [OF k'(2)])
      fix q cs assume q: "D q = Some cs"
      show "\<exists>l. (q - 16, l) \<in> unreserved h M \<and> length cs + 16 \<le> l"
        using heldD(4) [OF i q] heldD(2,3) [OF i q] by (auto simp: unreserved_def)
      show "bytes h' (q + j) = cs ! j" if "j < length cs" for j by (rule other [OF k'(1) q heldD(4) [OF i q] that])
    qed (use heldD [OF i] k' in auto)
    then show ?thesis using Bailout r(1) by auto
  qed
qed

subsection \<open>Runs\<close>

lemma step_keeps:
  assumes "mm_step (h, D) (h', D')" and i: "holds_buffers h M D"
  shows "\<exists>M'. holds_buffers h' M' D'"
  using assms(1)
proof cases
  case (alloc storage sz p)
  then show ?thesis using alloc_keeps [OF i alloc(2,3)] by auto
next
  case (alloc_fails storage sz)
  then show ?thesis using alloc_keeps [OF i alloc_fails(2,3)] by auto
next
  case (free p bs)
  then show ?thesis using free_keeps_buffers [OF i free(2)] by auto
next
  case (realloc p bs storage restorage sz q)
  then show ?thesis using realloc_keeps [OF i realloc(2,3,4), of sz] by auto
next
  case (realloc_fails p bs storage restorage sz)
  then show ?thesis using realloc_keeps [OF i realloc_fails(2,3,4), of sz] by auto
next
  case (store p bs j v)
  have e: "h' = h\<lparr>bytes := (bytes h)(p + j := v)\<rparr>" "D' = D(p \<mapsto> bs[j := v])" using store by simp_all
  have "mm_ok h' M" using heldD(1) [OF i] by (simp add: mm_ok_def e)
  then have "holds_buffers h' M D'"
  proof (rule heldI)
    fix q cs assume q: "D' q = Some cs"
    show "reserve h' \<noteq> Some q" "16 \<le> q" using q heldD(2,3) [OF i] store(3) by (auto simp: e split: if_splits)
    show "\<exists>k. (q - 16, k) \<in> M \<and> length cs + 16 \<le> k" using q heldD(4) [OF i] store(3) by (auto simp: e split: if_splits)
    show "bytes h' (q + l) = cs ! l" if l: "l < length cs" for l
    proof (cases "q = p")
      case True
      then have cs: "cs = bs[j := v]" using q e(2) by simp
      then have "l < length bs" using l by simp
      then show ?thesis using cs True heldD(5) [OF i store(3)] by (auto simp: e nth_list_update)
    next
      case False
      then have D: "D q = Some cs" using q e(2) by simp
      have "q + l \<noteq> p + j" using buffers_apart [OF i D store(3) False] l store(4) by linarith
      then show ?thesis using heldD(5) [OF i D l] by (simp add: e)
    qed
  qed
  then show ?thesis by blast
next
  case (request_end storage)
  obtain M' where "mm_ok h' M'" using shutdown_ok [OF heldD(1) [OF i] request_end(2,3)] by blast
  then show ?thesis using request_end(1) by (auto simp: holds_buffers_def)
qed

lemma run_keeps:
  assumes "mm_run (h, D) (h', D')" and "holds_buffers h M D"
  shows "\<exists>M'. holds_buffers h' M' D'"
  using assms
proof (induction "(h, D)" arbitrary: h D M rule: converse_rtranclp_induct)
  case (step z)
  then obtain h1 D1 where z: "z = (h1, D1)" by (cases z)
  then obtain M1 where "holds_buffers h1 M1 D1" using step_keeps step(1,4) by blast
  then show ?case using step(3) z by blast
qed blast

text \<open>No operation on such a heap ends in undefined behaviour, and what it gives the client was not in use.\<close>

lemma alloc_serves:
  assumes i: "holds_buffers h M D" and fresh: "fresh_storage storage h"
  shows "\<exists>r h'. zend_mm_alloc_int storage sz h = Some (r, h') \<and> (\<forall>p. r = Mm_ptr p \<longrightarrow> D p = None)"
proof -
  obtain C where so: "sound (cache h) (reserve h) C h M" using heldD(1) [OF i] by (auto simp: mm_ok_def)
  obtain r h' where r: "zend_mm_alloc_int storage sz h = Some (r, h')" "alloc_outcome h M (unat sz) r h'" by (rule alloc_int [OF so fresh])
  have "D p = None" if "r = Mm_ptr p" for p
  proof (rule ccontr)
    assume "D p \<noteq> None"
    then obtain bs where "D p = Some bs" by blast
    then obtain k where "(p - 16, k) \<in> M" using heldD(4) [OF i] by blast
    moreover have "p - 16 \<notin> fst ` M" using r(2) that by (simp add: alloc_outcome_def)
    ultimately show False by force
  qed
  then show ?thesis using r(1) by blast
qed

lemma realloc_serves:
  assumes i: "holds_buffers h M D" and p: "D p = Some bs" and fresh: "fresh_storage storage h" and rs: "resizes restorage p h"
  shows "\<exists>r h'. zend_mm_realloc_int storage restorage (Some p) sz h = Some (r, h') \<and> (\<forall>q. r = Mm_ptr q \<longrightarrow> q = p \<or> D q = None)"
proof -
  obtain C where so: "sound (cache h) (reserve h) C h M" using heldD(1) [OF i] by (auto simp: mm_ok_def)
  obtain k where k: "(p - 16, k) \<in> M" "16 \<le> p" "reserve h \<noteq> Some (p - 16 + 16)" using heldD(2-4) [OF i p] by auto
  obtain w where w: "unat w = k" "proper w" "blk_size h (p - 16) = Some (hdr w True)" using open_held [OF so k(1,3)] by blast
  have fail: "ZEND_MM_IS_FREE_BLOCK (p - 16 + k) h = Some True \<Longrightarrow> restorage g s m \<noteq> None" for g s m
    using rs held_block_size [OF w(2,3)] w(1) unfolding resizes_def next_is_free_def by blast
  have fr: "segs g = segs h \<Longrightarrow> fresh_restorage restorage g" for g using rs by (simp add: resizes_def)
  obtain r h' where r: "zend_mm_realloc_int storage restorage (Some p) sz h = Some (r, h')" "moved h M (p - 16) k (unat sz) r h'"
    using realloc_int [OF so k(1,3) fresh fr fail, of sz] k(2) by auto
  have "q = p \<or> D q = None" if q: "r = Mm_ptr q" for q
  proof (rule ccontr)
    assume "\<not> (q = p \<or> D q = None)"
    then obtain cs where c: "D q = Some cs" "q \<noteq> p" by blast
    then obtain l where "(q - 16, l) \<in> M" "16 \<le> q" using heldD(3,4) [OF i] by blast
    moreover have "q = p - 16 + 16 \<or> q - 16 \<notin> fst ` (M - {(p - 16, k)})" using r(2) q by (simp add: moved_def)
    ultimately show False using c(2) k(2) by force
  qed
  then show ?thesis using r(1) by blast
qed

end
