(* ===== verification/Zend_Mm_Props.thy ===== *)
theory Zend_Mm_Props
  imports Zend_Mm_Runs
begin

text \<open>The properties of the heap manager, with a small heap on which they are seen.\<close>

subsection \<open>When an allocation fails\<close>

definition no_memory :: "(mm_heap \<Rightarrow> ulong \<Rightarrow> ptr) \<Rightarrow> ulong \<Rightarrow> mm_heap \<Rightarrow> bool" where
  "no_memory storage sz h \<longleftrightarrow> (let t = ZEND_MM_TRUE_SIZE sz; n = segment_size_for t h
     in t < sz \<or> n < t \<or> real_size h + n > mm_limit h \<or> storage h n = None)"

lemma take_gives: "take_free_block b t h = Some (r, h') \<Longrightarrow> r \<noteq> Bailout"
  by (auto simp: take_free_block_def finish_alloc_def split: bind_splits)

lemma alloc_fails_for_lack:
  assumes "zend_mm_alloc_int storage sz h = Some (Bailout, h')"
  shows "no_memory storage sz h"
proof -
  let ?t = "ZEND_MM_TRUE_SIZE sz"
  have seg: "no_memory storage sz h" if "alloc_segment storage ?t h = Some (Bailout, h')"
    using that by (auto simp: alloc_segment_def no_memory_def finish_alloc_def Let_def split: bind_splits if_splits option.splits)
  have large: "no_memory storage sz h" if "alloc_large storage ?t h = Some (Bailout, h')"
    using that seg take_gives by (fastforce simp: alloc_large_def split: bind_splits if_splits)
  have "?t < sz \<Longrightarrow> no_memory storage sz h" by (simp add: no_memory_def)
  then show ?thesis
    using assms large take_gives by (fastforce simp: zend_mm_alloc_int_def Let_def split: bind_splits if_splits)
qed

subsection \<open>A small heap\<close>

definition sample_storage :: "mm_heap \<Rightarrow> ulong \<Rightarrow> ptr" where
  "sample_storage h n = (case segments_list h of None \<Rightarrow> Some 65536 | Some s \<Rightarrow> None)"

definition sample_mm :: mm_heap where
  "sample_mm = (zend_mm_init (new_heap\<lparr>block_size := push_bit 18 1, segments_list := None\<rparr>))\<lparr>real_size := 0, overflow := 0, real_peak := 0,
     mm_limit := push_bit 62 1, heap_size := 0, heap_peak := 0, reserve := None, reserve_size := 0\<rparr>"

lemma sample_fields: "real_size sample_mm = 0" "segments_list sample_mm = None" "block_size sample_mm = 262144" "mm_limit sample_mm = 2 ^ 62"
  "segs sample_mm = Map.empty" "bytes sample_mm = (\<lambda>_. 0)" "reserve sample_mm = None"
  by (simp_all add: sample_mm_def zend_mm_init_def new_heap_def)

lemma sample_startup: "zend_mm_startup_ex sample_storage (push_bit 18 1) 0 = Some sample_mm"
proof -
  have "zend_mm_high_bit (push_bit 18 1) = 18" by code_simp
  moreover have "zend_mm_low_bit (push_bit 18 1) = Some 18"
    by (simp add: zend_mm_low_bit_def low_bit_loop.simps low_bit_offset_def)
  ultimately show ?thesis
    by (simp add: zend_mm_startup_ex_def sample_mm_def panic_unless_def set_reserve_def ZEND_MM_NUM_BUCKETS_def Let_def)
qed

lemma sample_ok: "\<exists>M. mm_ok sample_mm M"
  by (rule startup_ok [OF sample_startup]) simp_all

lemma sample_fresh: "fresh_storage sample_storage sample_mm"
  by (simp add: fresh_storage_def sample_fields)

lemma sample_enough: "unat sz \<le> 1000 \<Longrightarrow> \<not> no_memory sample_storage sz sample_mm"
proof -
  assume sz: "unat sz \<le> 1000"
  then have t: "unat sz + 16 \<le> unat (ZEND_MM_TRUE_SIZE sz)" "unat (ZEND_MM_TRUE_SIZE sz) \<le> 1032" using true_size [of sz] by simp_all
  then have "segment_size_for (ZEND_MM_TRUE_SIZE sz) sample_mm = 262144"
    by (simp add: segment_size_for_def sample_fields word_less_nat_alt ZEND_MM_ALIGNED_SEGMENT_SIZE_def ZEND_MM_ALIGNED_HEADER_SIZE_def ZEND_MM_ALIGNED_SIZE_def)
  moreover have "\<not> ZEND_MM_TRUE_SIZE sz < sz" "\<not> 262144 < ZEND_MM_TRUE_SIZE sz" using t by (simp_all add: word_less_nat_alt)
  ultimately show ?thesis by (simp add: no_memory_def sample_fields sample_storage_def Let_def)
qed

lemma sample_alloc:
  assumes "unat sz \<le> 1000"
  shows "\<exists>p h. zend_mm_alloc_int sample_storage sz sample_mm = Some (Mm_ptr p, h)"
proof -
  obtain M C where "sound (cache sample_mm) (reserve sample_mm) C sample_mm M" using sample_ok by (auto simp: mm_ok_def)
  then obtain r h where "zend_mm_alloc_int sample_storage sz sample_mm = Some (r, h)" using alloc_int sample_fresh by blast
  moreover then have "r \<noteq> Bailout" using alloc_fails_for_lack sample_enough [OF assms] by blast
  ultimately show ?thesis by (cases r) auto
qed

subsection \<open>Two defects\<close>

text \<open>
  A small block alone on the rest list: when the bucket of its size holds one block, taking the first off its list
  clears the bit of the bucket, whose block is no longer found.
\<close>

lemma rest_block_clears_bit:
  assumes r: "prev_free h (Blk a) = Some Rest" "next_free h (Blk a) = Some Rest" "next_free h Rest = Some (Blk a)" "prev_free h Rest = Some (Blk a)"
    and a: "blk_size h a = Some w" "ZEND_MM_SMALL_SIZE w" "i = ZEND_MM_BUCKET_INDEX w"
    and b: "prev_free h (Small i) = Some (Blk b)" "next_free h (Small i) = Some (Blk b)"
  shows "\<exists>h'. zend_mm_remove_from_free_list a h = Some h' \<and> prev_free h' (Small i) = Some (Blk b) \<and> \<not> bit (free_bitmap h') i"
  using assms by (auto simp: zend_mm_remove_from_free_list_def unlink_def set_next_free_def set_prev_free_def panic_unless_def Let_def bit_simps)

text \<open>
  A block that is first in its segment is to grow with the segment, and the free block behind it has been unlinked.
  When the storage refuses, the error is raised with that block on no list.
\<close>

lemma realloc_failure_loses_block:
  assumes w: "ZEND_MM_IS_FREE_BLOCK (a + unat w) h = Some True" "blk_size h (a + unat w) = Some n" "ZEND_MM_CHECK_BLOCK_LINKAGE (a + unat w) h = Some ()"
    and small: "w + n < t" and seg: "with_next_fills_segment a (a + unat w) n h = Some True" "segment_of a = Some s" "segs h s = Some g"
    and un: "zend_mm_remove_from_free_list (a + unat w) h = Some h1" "segs h1 = segs h" "real_size h1 = real_size h" "mm_limit h1 = mm_limit h"
      "block_size h1 = block_size h"
    and room: "\<not> segment_size_for t h < t" "\<not> real_size h + segment_size_for t h - seg_size g > mm_limit h"
    and no: "restorage h1 s (segment_size_for t h) = None"
  shows "realloc_in_place storage restorage p a t w sz h = do { h \<leftarrow> zend_mm_free_cache h1; zend_mm_safe_error h }"
proof -
  have "segment_size_for t h1 = segment_size_for t h" using un(5) by (simp add: segment_size_for_def)
  then have "realloc_segment restorage a t w h1 = do { h \<leftarrow> zend_mm_free_cache h1; zend_mm_safe_error h }"
    using seg un room no by (simp add: realloc_segment_def Let_def)
  moreover have "\<not> w + n \<ge> t" using small by simp
  ultimately show ?thesis using w seg(1) un(1) by (simp add: realloc_in_place_def ZEND_MM_BLOCK_AT_def Let_def)
qed

subsection \<open>A heap with one large block\<close>

definition one_block :: mm_heap where
  "one_block = (zend_mm_init new_heap)\<lparr>large_free_bitmap := 1024, blk_size := [1000 \<mapsto> 1024],
     ftree := (ftree (zend_mm_init new_heap))(Root 10 \<mapsto> Blk 1000, Child 1000 False \<mapsto> Null, Child 1000 True \<mapsto> Null),
     prev_free := (prev_free (zend_mm_init new_heap))(Blk 1000 \<mapsto> Blk 1000),
     next_free := (next_free (zend_mm_init new_heap))(Blk 1000 \<mapsto> Blk 1000), parent := [1000 \<mapsto> At (Root 10)]\<rparr>"

lemma one_block_lists: "free_lists one_block (\<lambda>_. []) [] (\<lambda>i. if i = 10 then Nd 1000 [] Tip Tip else Tip)"
proof -
  have l: "free_bitmap one_block = 0" "large_free_bitmap one_block = 2 ^ 10" "rest_count one_block = 0" "prev_free one_block Rest = Some Rest"
    "next_free one_block Rest = Some Rest" "bsz one_block 1000 = 1024" "sized one_block 1000"
    by (simp_all add: one_block_def zend_mm_init_def bsz_def sized_def)
  have i: "prev_free one_block (Small i) = Some (Small i)" "next_free one_block (Small i) = Some (Small i)"
    "i \<noteq> 10 \<Longrightarrow> ftree one_block (Root i) = Some Null" if "i < 64" for i
    using that by (simp_all add: one_block_def zend_mm_init_def ZEND_MM_NUM_BUCKETS_def)
  have "tree one_block 10 (Nd 1000 [] Tip Tip)"
    using l by (simp add: tree_def blk_ring_def) (simp add: one_block_def)
  moreover have "(1024 :: ulong) = 2 ^ 10" by simp
  then have "bit (1024 :: ulong) i = (i = 10)" if "i < 64" for i using that by (simp only: bit_exp_iff possible_bit_word) auto
  ultimately show ?thesis
    using l i by (simp add: free_lists_def small_bucket_def rest_list_def tree_def blk_ring_def large_count_def)
qed

subsection \<open>Properties\<close>



text \<open>
  C9: on a sound heap an allocation returns. Either it gives a block of at least the requested size behind its
  header, apart from all blocks in use, and the heap is sound with it; or there is no memory for it (the size
  overflows, the limit is reached, the storage refuses), the reserve is released, and the heap is sound without it.
  The contents of memory are as before.
\<close>

theorem mm_alloc_gives_block:
  assumes "mm_ok h M" and "fresh_storage storage h"
  shows "\<exists>r h'. zend_mm_alloc_int storage sz h = Some (r, h') \<and> bytes h' = bytes h \<and> (case r of
      Mm_ptr p \<Rightarrow> 16 \<le> p \<and> reserve h' = reserve h \<and> (\<exists>k \<ge> unat sz + 16. mm_ok h' (insert (p - 16, k) M) \<and>
        (\<forall>(b, l) \<in> M. p - 16 + k \<le> b \<or> b + l \<le> p - 16))
    | Bailout \<Rightarrow> no_memory storage sz h \<and> reserve h' = None \<and> mm_ok h' (unreserved h M))"
proof -
  obtain C where so: "sound (cache h) (reserve h) C h M" using assms(1) by (auto simp: mm_ok_def)
  obtain r h' where r: "zend_mm_alloc_int storage sz h = Some (r, h')" "alloc_outcome h M (unat sz) r h'" by (rule alloc_int [OF so assms(2)])
  show ?thesis
  proof (cases r)
    case (Mm_ptr p)
    then obtain k where k: "16 \<le> p" "p - 16 \<notin> fst ` M" "reserve h' = reserve h" "k \<ge> unat sz + 16" "mm_ok h' (insert (p - 16, k) M)"
      using r(2) by (auto simp: alloc_outcome_def)
    obtain C' where C': "sound (cache h') (reserve h') C' h' (insert (p - 16, k) M)" using k(5) by (auto simp: mm_ok_def)
    have "p - 16 + k \<le> b \<or> b + l \<le> p - 16" if "(b, l) \<in> M" for b l
    proof -
      have "(p - 16, k) \<noteq> (b, l)" using k(2) that by force
      then show ?thesis using held_apart [OF C', of "p - 16" k b l] that by blast
    qed
    then show ?thesis using r Mm_ptr k by (auto simp: alloc_outcome_def)
  next
    case Bailout
    then show ?thesis using r alloc_fails_for_lack by (auto simp: alloc_outcome_def)
  qed
qed

theorem mm_alloc_gives_block_witness:
  "\<exists>p h M k. zend_mm_alloc_int sample_storage 600 sample_mm = Some (Mm_ptr p, h) \<and> mm_ok h (insert (p - 16, k) M) \<and> 616 \<le> k"
proof -
  obtain M where M: "mm_ok sample_mm M" using sample_ok by blast
  obtain p h where "zend_mm_alloc_int sample_storage 600 sample_mm = Some (Mm_ptr p, h)" using sample_alloc [of 600] by auto
  then show ?thesis using mm_alloc_gives_block [OF M sample_fresh, of 600] by auto
qed

text \<open>
  C10: the search in the trees is a best fit: \<open>NULL\<close> if no large free block in them suffices, and otherwise a
  sufficient block of which no other is smaller.
\<close>

theorem mm_search_is_best_fit:
  assumes "free_lists h bk rs tr" and "ts \<noteq> 0"
  shows "\<exists>b. zend_mm_search_large_block ts h = Some b \<and> fits_best (bsz h) (unat ts) (large_blks tr) b"
  by (rule search_large_block [OF assms])

theorem mm_search_is_best_fit_witness: "zend_mm_search_large_block 600 one_block = Some (Blk 1000)"
proof -
  let ?tr = "\<lambda>i :: nat. if i = 10 then Nd 1000 [] Tip Tip else Tip"
  have "large_blks ?tr = {1000}" by (auto simp: large_blks_def split: if_splits)
  moreover have "bsz one_block 1000 = 1024" by (simp add: one_block_def bsz_def)
  ultimately show ?thesis using mm_search_is_best_fit [OF one_block_lists, of 600] by (auto simp: fits_best_def)
qed

end
