(* ===== verification/Block_Digest.thy ===== *)
theory Block_Digest
  imports Bytes
begin

text \<open>
  Checksums and digests that take their message in pieces: the interface (an initial context, an
  update, a final step whose result depends on the concatenation of the pieces only), and the
  buffering of 64-byte blocks that MD5 and SHA-1 share.
\<close>

unbundle bit_operations_syntax

subsection \<open>The interface\<close>

fun feed :: "('c \<Rightarrow> byte list \<Rightarrow> 'c option) \<Rightarrow> byte list list \<Rightarrow> 'c \<Rightarrow> 'c option" where
  "feed upd [] c = Some c"
| "feed upd (d # ds) c = do { c1 \<leftarrow> upd c d; feed upd ds c1 }"

locale incremental =
  fixes start :: "'c" and upd :: "'c \<Rightarrow> byte list \<Rightarrow> 'c option" and final :: "'c \<Rightarrow> 'd option"
    and rep :: "'c \<Rightarrow> byte list \<Rightarrow> bool" and digest :: "byte list \<Rightarrow> 'd" and fits :: "byte list \<Rightarrow> bool"
  assumes rep_start: "rep start []"
    and rep_upd: "rep c m \<Longrightarrow> fits d \<Longrightarrow> \<exists>c'. upd c d = Some c' \<and> rep c' (m @ d)"
    and rep_final: "rep c m \<Longrightarrow> final c = Some (digest m)"
begin

lemma feed_rep: "rep c m \<Longrightarrow> \<forall>d\<in>set ds. fits d \<Longrightarrow> \<exists>c'. feed upd ds c = Some c' \<and> rep c' (m @ concat ds)"
proof (induction ds arbitrary: c m)
  case (Cons d ds)
  obtain c1 where "upd c d = Some c1" "rep c1 (m @ d)" using rep_upd [OF Cons.prems(1)] Cons.prems(2) by auto
  then show ?case using Cons.IH [of c1 "m @ d"] Cons.prems(2) by auto
qed simp

lemma digest_of_pieces:
  assumes "\<forall>d\<in>set ds. fits d"
  shows "\<exists>c. feed upd ds start = Some c \<and> final c = Some (digest (concat ds))"
  using feed_rep [OF rep_start assms] rep_final by auto

end

subsection \<open>Buffers\<close>

definition memcpy_at :: "nat \<Rightarrow> byte list \<Rightarrow> byte list \<Rightarrow> byte list option" where
  "memcpy_at i xs buf = (if i + length xs \<le> length buf then Some (take i buf @ xs @ drop (i + length xs) buf) else None)"

lemma memcpy_at_Some: "i + length xs \<le> length buf \<Longrightarrow> memcpy_at i xs buf = Some (take i buf @ xs @ drop (i + length xs) buf)"
  by (simp add: memcpy_at_def)

lemma length_memcpy [simp]: "i + length xs \<le> length buf \<Longrightarrow> length (take i buf @ xs @ drop (i + length xs) buf) = length buf"
  by simp

lemma take_memcpy: "i + length xs \<le> length buf \<Longrightarrow> take (i + length xs) (take i buf @ xs @ drop (i + length xs) buf) = take i buf @ xs"
  by simp

subsection \<open>Blocks\<close>

text \<open>All full blocks of a message go through \<open>f\<close>; the state and the bytes left over.\<close>

function absorb :: "('s \<Rightarrow> byte list \<Rightarrow> 's) \<Rightarrow> 's \<Rightarrow> byte list \<Rightarrow> 's \<times> byte list" where
  "absorb f s m = (if length m < 64 then (s, m) else absorb f (f s (take 64 m)) (drop 64 m))"
  by pat_completeness auto
termination by (relation "measure (\<lambda>(f, s, m). length m)") auto

declare absorb.simps [simp del]

lemma absorb_short: "length m < 64 \<Longrightarrow> absorb f s m = (s, m)"
  by (simp add: absorb.simps)

lemma absorb_block: "length b = 64 \<Longrightarrow> absorb f s (b @ m) = absorb f (f s b) m"
  by (subst absorb.simps) simp

lemma absorb_one: "length b = 64 \<Longrightarrow> absorb f s b = (f s b, [])"
  using absorb_block [of b f s "[]"] by (simp add: absorb_short)

lemma absorb_append: "absorb f s (m @ d) = (case absorb f s m of (s', r) \<Rightarrow> absorb f s' (r @ d))"
proof (induction f s m rule: absorb.induct)
  case (1 f s m)
  show ?case
  proof (cases "length m < 64")
    case False
    have e: "m @ d = take 64 m @ drop 64 m @ d" by (simp flip: append_assoc)
    have "absorb f s (m @ d) = absorb f (f s (take 64 m)) (drop 64 m @ d)"
      by (subst e, rule absorb_block) (use False in simp)
    then show ?thesis using 1 False by (simp add: absorb.simps [of f s m])
  qed (simp add: absorb_short)
qed

lemma absorb_rest: "length (snd (absorb f s m)) = length m mod 64"
proof (induction f s m rule: absorb.induct)
  case (1 f s m)
  then show ?case by (cases "length m < 64") (simp_all add: absorb.simps [of f s m] le_mod_geq)
qed

lemma absorb_full: "64 dvd length m \<Longrightarrow> snd (absorb f s m) = []"
  using absorb_rest [of f s m] by simp

text \<open>The start of the buffer holds the bytes left over.\<close>

lemma absorb_more:
  assumes "absorb f s m = (s', r)" and "length r + length d < 64"
  shows "absorb f s (m @ d) = (s', r @ d)"
  by (subst absorb_append) (use assms in \<open>simp add: absorb_short\<close>)

lemma absorb_fill:
  assumes "absorb f s m = (s', r)" and "length r + length d = 64"
  shows "absorb f s (m @ d) = (f s' (r @ d), [])"
  by (subst absorb_append) (use assms in \<open>simp add: absorb_one\<close>)

text \<open>The padding of both digests, up to the length of the message.\<close>

definition pad_zeros :: "nat \<Rightarrow> nat" where
  "pad_zeros n = (if n mod 64 < 56 then 55 - n mod 64 else 119 - n mod 64)"

lemma pad_zeros_length: "64 dvd n + 1 + pad_zeros n + 8"
proof -
  define q r where "q = n div 64" and "r = n mod 64"
  then have n: "n = 64 * q + r" "r < 64" by simp_all
  have "n + 1 + pad_zeros n + 8 = 64 * (if r < 56 then q + 1 else q + 2)"
    unfolding pad_zeros_def using n by (simp flip: r_def)
  then show ?thesis by (metis dvd_triv_left)
qed

lemma pad_zeros_le: "pad_zeros n \<le> 63"
  by (cases "n mod 64 < 56") (auto simp: pad_zeros_def diff_le_mono2 [of 56 "n mod 64" 119, simplified])

text \<open>Counters in two words, with the carry seen from the sum being smaller.\<close>

lemma carry_add:
  fixes M :: nat
  assumes "0 < M"
  shows "(L + n) mod M < L mod M \<longleftrightarrow> M \<le> L mod M + n mod M"
    and "(L + n) div M = L div M + n div M + (if M \<le> L mod M + n mod M then 1 else 0)"
proof -
  have lt: "L mod M < M" "n mod M < M" using assms by simp_all
  have m: "(L + n) mod M = (L mod M + n mod M) mod M" by (simp add: mod_add_eq)
  have s: "(L mod M + n mod M) mod M = (if M \<le> L mod M + n mod M then L mod M + n mod M - M else L mod M + n mod M)"
  proof (cases "M \<le> L mod M + n mod M")
    case True
    then have "L mod M + n mod M - M < M" using lt by linarith
    then show ?thesis using True le_mod_geq [OF True] by simp
  qed simp
  show "(L + n) mod M < L mod M \<longleftrightarrow> M \<le> L mod M + n mod M" using m s lt by auto
  have "(a + b) div M = (if M \<le> a + b then 1 else 0)" if "a < M" "b < M" for a b
  proof (cases "M \<le> a + b")
    case True
    then have "(a + b) div M = 1" using that by (intro div_nat_eqI) simp_all
    then show ?thesis using True by simp
  qed simp
  note d = this [OF lt]
  show "(L + n) div M = L div M + n div M + (if M \<le> L mod M + n mod M then 1 else 0)"
    using div_add1_eq [of L n M] d by simp
qed

lemma unat_and_63: "unat ((w :: uint) AND 0x3f) = unat w mod 64"
proof -
  have "(0x3f :: uint) = mask 6" by (simp add: mask_eq_exp_minus_1)
  then have "w AND 0x3f = take_bit 6 w" by (simp add: take_bit_eq_mask)
  then have "unat (w AND 0x3f) = take_bit 6 (unat w)" by (simp only: unsigned_take_bit_eq)
  then show ?thesis by (simp add: take_bit_eq_mod)
qed

lemma rotate_left:
  assumes "s < 32"
  shows "push_bit s w OR drop_bit (32 - s) w = word_rotl s (w :: uint)"
proof (rule bit_word_eqI)
  fix n assume n: "n < LENGTH(32)"
  show "bit (push_bit s w OR drop_bit (32 - s) w) n = bit (word_rotl s w) n"
  proof (cases "n < s")
    case True
    then have "(n + (32 - s)) mod 32 = n + (32 - s)" using assms by simp
    then show ?thesis using True n assms by (simp add: bit_simps bit_word_rotl_iff) (metis add.commute)
  next
    case False
    then have "(n + 32 - s) mod 32 = n - s" using assms n by (simp add: mod_if)
    moreover have "\<not> bit w (32 + n - s)" using False assms by (auto dest: bit_imp_le_length)
    ultimately show ?thesis using False n assms by (simp add: bit_simps bit_word_rotl_iff)
  qed
qed

lemma fold_cong_set: "(\<And>x s. x \<in> set xs \<Longrightarrow> f x s = g x s) \<Longrightarrow> fold f xs s = fold g xs s"
  by (induction xs arbitrary: s) auto

end
