(* ===== verification/Md5.thy ===== *)
theory Md5
  imports Block_Digest
begin

text \<open>
  \<open>ext/standard/md5.c\<close>. The four words of the state are a tuple; a \<open>STEP\<close> changes the first of its
  arguments, and as the next one has them rotated by one place the tuple is rotated here. On the
  little-endian machines \<open>SET\<close> and \<open>GET\<close> read the word from the message. \<open>lo\<close> counts bytes modulo
  \<open>2^29\<close>, \<open>hi\<close> the carries.
\<close>

definition MD5_F :: "uint \<Rightarrow> uint \<Rightarrow> uint \<Rightarrow> uint" where "MD5_F x y z = z XOR (x AND (y XOR z))"
definition MD5_G :: "uint \<Rightarrow> uint \<Rightarrow> uint \<Rightarrow> uint" where "MD5_G x y z = y XOR (z AND (x XOR y))"
definition MD5_H :: "uint \<Rightarrow> uint \<Rightarrow> uint \<Rightarrow> uint" where "MD5_H x y z = x XOR y XOR z"
definition MD5_I :: "uint \<Rightarrow> uint \<Rightarrow> uint \<Rightarrow> uint" where "MD5_I x y z = y XOR (x OR NOT z)"

type_synonym md5_state = "uint \<times> uint \<times> uint \<times> uint"

definition md5_step :: "(uint \<Rightarrow> uint \<Rightarrow> uint \<Rightarrow> uint) \<Rightarrow> uint \<Rightarrow> uint \<Rightarrow> nat \<Rightarrow> md5_state \<Rightarrow> md5_state" where
  "md5_step f x t s = (\<lambda>(a, b, c, d).
     let a = a + f b c d + x + t;
         a = push_bit s a OR drop_bit (32 - s) (a AND 0xffffffff);
         a = a + b
     in (d, a, b, c))"

text \<open>Byte \<open>4 n\<close> is the least significant one.\<close>

definition md5_word :: "byte list \<Rightarrow> nat \<Rightarrow> uint" where
  "md5_word p n = ucast (p ! (n * 4)) OR push_bit 8 (ucast (p ! (n * 4 + 1))) OR
     push_bit 16 (ucast (p ! (n * 4 + 2))) OR push_bit 24 (ucast (p ! (n * 4 + 3)))"

definition md5_steps :: "((uint \<Rightarrow> uint \<Rightarrow> uint \<Rightarrow> uint) \<times> nat \<times> uint \<times> nat) list" where
  "md5_steps =
    [(MD5_F, 0, 0xd76aa478, 7), (MD5_F, 1, 0xe8c7b756, 12), (MD5_F, 2, 0x242070db, 17), (MD5_F, 3, 0xc1bdceee, 22), 
     (MD5_F, 4, 0xf57c0faf, 7), (MD5_F, 5, 0x4787c62a, 12), (MD5_F, 6, 0xa8304613, 17), (MD5_F, 7, 0xfd469501, 22), 
     (MD5_F, 8, 0x698098d8, 7), (MD5_F, 9, 0x8b44f7af, 12), (MD5_F, 10, 0xffff5bb1, 17), (MD5_F, 11, 0x895cd7be, 22), 
     (MD5_F, 12, 0x6b901122, 7), (MD5_F, 13, 0xfd987193, 12), (MD5_F, 14, 0xa679438e, 17), (MD5_F, 15, 0x49b40821, 22), 
     (MD5_G, 1, 0xf61e2562, 5), (MD5_G, 6, 0xc040b340, 9), (MD5_G, 11, 0x265e5a51, 14), (MD5_G, 0, 0xe9b6c7aa, 20), 
     (MD5_G, 5, 0xd62f105d, 5), (MD5_G, 10, 0x02441453, 9), (MD5_G, 15, 0xd8a1e681, 14), (MD5_G, 4, 0xe7d3fbc8, 20), 
     (MD5_G, 9, 0x21e1cde6, 5), (MD5_G, 14, 0xc33707d6, 9), (MD5_G, 3, 0xf4d50d87, 14), (MD5_G, 8, 0x455a14ed, 20), 
     (MD5_G, 13, 0xa9e3e905, 5), (MD5_G, 2, 0xfcefa3f8, 9), (MD5_G, 7, 0x676f02d9, 14), (MD5_G, 12, 0x8d2a4c8a, 20), 
     (MD5_H, 5, 0xfffa3942, 4), (MD5_H, 8, 0x8771f681, 11), (MD5_H, 11, 0x6d9d6122, 16), (MD5_H, 14, 0xfde5380c, 23), 
     (MD5_H, 1, 0xa4beea44, 4), (MD5_H, 4, 0x4bdecfa9, 11), (MD5_H, 7, 0xf6bb4b60, 16), (MD5_H, 10, 0xbebfbc70, 23), 
     (MD5_H, 13, 0x289b7ec6, 4), (MD5_H, 0, 0xeaa127fa, 11), (MD5_H, 3, 0xd4ef3085, 16), (MD5_H, 6, 0x04881d05, 23), 
     (MD5_H, 9, 0xd9d4d039, 4), (MD5_H, 12, 0xe6db99e5, 11), (MD5_H, 15, 0x1fa27cf8, 16), (MD5_H, 2, 0xc4ac5665, 23), 
     (MD5_I, 0, 0xf4292244, 6), (MD5_I, 7, 0x432aff97, 10), (MD5_I, 14, 0xab9423a7, 15), (MD5_I, 5, 0xfc93a039, 21), 
     (MD5_I, 12, 0x655b59c3, 6), (MD5_I, 3, 0x8f0ccc92, 10), (MD5_I, 10, 0xffeff47d, 15), (MD5_I, 1, 0x85845dd1, 21), 
     (MD5_I, 8, 0x6fa87e4f, 6), (MD5_I, 15, 0xfe2ce6e0, 10), (MD5_I, 6, 0xa3014314, 15), (MD5_I, 13, 0x4e0811a1, 21), 
     (MD5_I, 4, 0xf7537e82, 6), (MD5_I, 11, 0xbd3af235, 10), (MD5_I, 2, 0x2ad7d2bb, 15), (MD5_I, 9, 0xeb86d391, 21)]"

definition md5_add :: "md5_state \<Rightarrow> md5_state \<Rightarrow> md5_state" where
  "md5_add = (\<lambda>(a, b, c, d) (sa, sb, sc, sd). (a + sa, b + sb, c + sc, d + sd))"

text \<open>One turn of the loop of \<open>body\<close>.\<close>

definition md5_block :: "md5_state \<Rightarrow> byte list \<Rightarrow> md5_state" where
  "md5_block st p = md5_add (fold (\<lambda>(f, n, t, s). md5_step f (md5_word p n) t s) md5_steps st) st"

text \<open>The loop ends when the sz has come down to 0; it starts with a positive multiple of 64.\<close>

function md5_body :: "md5_state \<Rightarrow> byte list \<Rightarrow> ulong \<Rightarrow> (md5_state \<times> byte list) option" where
  "md5_body st ptr sz =
     (if length ptr < 64 then None
      else let st = md5_block st (take 64 ptr); ptr = drop 64 ptr; sz = sz - 64
        in if sz \<noteq> 0 then md5_body st ptr sz else Some (st, ptr))"
  by pat_completeness auto
termination by (relation "measure (\<lambda>(st, ptr, sz). length ptr)") auto

declare md5_body.simps [simp del]

record md5_ctx =
  md5_lo :: uint
  md5_hi :: uint
  md5_st :: md5_state
  md5_buffer :: "byte list"

text \<open>The buffer is not initialised.\<close>

definition PHP_MD5Init :: "byte list \<Rightarrow> md5_ctx" where
  "PHP_MD5Init garbage = \<lparr>md5_lo = 0, md5_hi = 0, md5_st = (0x67452301, 0xefcdab89, 0x98badcfe, 0x10325476), md5_buffer = garbage\<rparr>"

definition md5_count :: "ulong \<Rightarrow> md5_ctx \<Rightarrow> md5_ctx" where
  "md5_count sz c = (let saved_lo = md5_lo c;
       lo = ucast ((ucast saved_lo + sz) AND 0x1fffffff);
       hi = (if lo < saved_lo then md5_hi c + 1 else md5_hi c)
     in c\<lparr>md5_lo := lo, md5_hi := hi + ucast (drop_bit 29 sz)\<rparr>)"

text \<open>The part from \<open>if (size >= 64)\<close> on.\<close>

definition md5_rest :: "byte list \<Rightarrow> md5_ctx \<Rightarrow> md5_ctx option" where
  "md5_rest data c = do {
     (c, data) \<leftarrow> (if length data \<ge> 64
       then do {
         (st, data) \<leftarrow> md5_body (md5_st c) data (word_of_nat (length data) AND NOT 0x3f);
         Some (c\<lparr>md5_st := st\<rparr>, data)
       }
       else Some (c, data));
     b \<leftarrow> memcpy_at 0 data (md5_buffer c);
     Some (c\<lparr>md5_buffer := b\<rparr>)
   }"

definition PHP_MD5Update :: "md5_ctx \<Rightarrow> byte list \<Rightarrow> md5_ctx option" where
  "PHP_MD5Update c data = (let saved_lo = md5_lo c;
       c = md5_count (word_of_nat (length data)) c;
       used = unat (saved_lo AND 0x3f)
     in if used \<noteq> 0 then
          (let free = 64 - used
           in if length data < free then do { b \<leftarrow> memcpy_at used data (md5_buffer c); Some (c\<lparr>md5_buffer := b\<rparr>) }
              else do {
                b \<leftarrow> memcpy_at used (take free data) (md5_buffer c);
                (st, _) \<leftarrow> md5_body (md5_st c) b 64;
                md5_rest (drop free data) (c\<lparr>md5_buffer := b, md5_st := st\<rparr>)
              })
        else md5_rest data c)"

definition le_bytes :: "uint \<Rightarrow> byte list" where
  "le_bytes w = [ucast w, ucast (drop_bit 8 w), ucast (drop_bit 16 w), ucast (drop_bit 24 w)]"

definition PHP_MD5Final :: "md5_ctx \<Rightarrow> byte list option" where
  "PHP_MD5Final c = do {
     let used = unat (md5_lo c AND 0x3f);
     b \<leftarrow> memcpy_at used [0x80] (md5_buffer c);
     let used = used + 1;
     let free = 64 - used;
     (st, b, used, free) \<leftarrow> (if free < 8 then do {
         b \<leftarrow> memcpy_at used (replicate free 0) b;
         (st, _) \<leftarrow> md5_body (md5_st c) b 64;
         Some (st, b, 0, 64)
       } else Some (md5_st c, b, used, free));
     b \<leftarrow> memcpy_at used (replicate (free - 8) 0) b;
     b \<leftarrow> memcpy_at 56 (le_bytes (push_bit 3 (md5_lo c)) @ le_bytes (md5_hi c)) b;
     (st, _) \<leftarrow> md5_body st b 64;
     (case st of (a, b, c, d) \<Rightarrow> Some (le_bytes a @ le_bytes b @ le_bytes c @ le_bytes d))
   }"

text \<open>The digest in hexadecimal, without the NUL behind it.\<close>

definition hexits :: "byte list" where
  "hexits = [48, 49, 50, 51, 52, 53, 54, 55, 56, 57, 97, 98, 99, 100, 101, 102]"

definition make_digest_ex :: "byte list \<Rightarrow> byte list" where
  "make_digest_ex digest = concat (map (\<lambda>c. [hexits ! unat (drop_bit 4 c), hexits ! unat (c AND 0x0F)]) digest)"

text \<open>\<open>md5\<close> of a string.\<close>

definition php_if_md5 :: "byte list \<Rightarrow> byte list \<Rightarrow> bool \<Rightarrow> byte list option" where
  "php_if_md5 garbage arg raw_output = do {
     c \<leftarrow> PHP_MD5Update (PHP_MD5Init garbage) arg;
     digest \<leftarrow> PHP_MD5Final c;
     Some (if raw_output then digest else make_digest_ex digest)
   }"

end
