(* ===== verification/Md5_Correct.thy ===== *)
theory Md5_Correct
  imports Md5
begin

text \<open>
  MD5 against RFC 1321: its functions, its table, its indices and shifts, its padding; and the context
  as an incremental digest.
\<close>

subsection \<open>RFC 1321\<close>

definition rfc_F :: "nat \<Rightarrow> uint \<Rightarrow> uint \<Rightarrow> uint \<Rightarrow> uint" where
  "rfc_F i x y z = (if i < 16 then (x AND y) OR (NOT x AND z) else if i < 32 then (x AND z) OR (y AND NOT z)
     else if i < 48 then x XOR y XOR z else y XOR (x OR NOT z))"

definition rfc_index :: "nat \<Rightarrow> nat" where
  "rfc_index i = (if i < 16 then i else if i < 32 then (5 * i + 1) mod 16 else if i < 48 then (3 * i + 5) mod 16 else 7 * i mod 16)"

definition rfc_shift :: "nat \<Rightarrow> nat" where
  "rfc_shift i = [7, 12, 17, 22, 5, 9, 14, 20, 4, 11, 16, 23, 6, 10, 15, 21] ! (4 * (i div 16) + i mod 4)"

definition rfc_T :: "uint list" where
  "rfc_T =
    [0xd76aa478, 0xe8c7b756, 0x242070db, 0xc1bdceee, 0xf57c0faf, 0x4787c62a, 0xa8304613, 0xfd469501, 
     0x698098d8, 0x8b44f7af, 0xffff5bb1, 0x895cd7be, 0x6b901122, 0xfd987193, 0xa679438e, 0x49b40821, 
     0xf61e2562, 0xc040b340, 0x265e5a51, 0xe9b6c7aa, 0xd62f105d, 0x02441453, 0xd8a1e681, 0xe7d3fbc8, 
     0x21e1cde6, 0xc33707d6, 0xf4d50d87, 0x455a14ed, 0xa9e3e905, 0xfcefa3f8, 0x676f02d9, 0x8d2a4c8a, 
     0xfffa3942, 0x8771f681, 0x6d9d6122, 0xfde5380c, 0xa4beea44, 0x4bdecfa9, 0xf6bb4b60, 0xbebfbc70, 
     0x289b7ec6, 0xeaa127fa, 0xd4ef3085, 0x04881d05, 0xd9d4d039, 0xe6db99e5, 0x1fa27cf8, 0xc4ac5665, 
     0xf4292244, 0x432aff97, 0xab9423a7, 0xfc93a039, 0x655b59c3, 0x8f0ccc92, 0xffeff47d, 0x85845dd1, 
     0x6fa87e4f, 0xfe2ce6e0, 0xa3014314, 0x4e0811a1, 0xf7537e82, 0xbd3af235, 0x2ad7d2bb, 0xeb86d391]"

definition rfc_round :: "byte list \<Rightarrow> nat \<Rightarrow> md5_state \<Rightarrow> md5_state" where
  "rfc_round p i = (\<lambda>(a, b, c, d).
     (d, b + word_rotl (rfc_shift i) (a + rfc_F i b c d + md5_word p (rfc_index i) + rfc_T ! i), b, c))"

definition rfc_compress :: "md5_state \<Rightarrow> byte list \<Rightarrow> md5_state" where
  "rfc_compress st p = md5_add (fold (rfc_round p) [0..<64] st) st"

text \<open>The padding ends with the length in bits, low word first.\<close>

definition md5_length :: "nat \<Rightarrow> byte list" where
  "md5_length n = le_bytes (word_of_nat (8 * n)) @ le_bytes (word_of_nat (8 * n div 2 ^ 32))"

definition rfc_pad :: "byte list \<Rightarrow> byte list" where
  "rfc_pad m = m @ [0x80] @ replicate (pad_zeros (length m)) 0 @ md5_length (length m)"

definition md5_digest :: "md5_state \<Rightarrow> byte list" where
  "md5_digest st = (case st of (a, b, c, d) \<Rightarrow> le_bytes a @ le_bytes b @ le_bytes c @ le_bytes d)"

definition rfc_md5 :: "byte list \<Rightarrow> byte list" where
  "rfc_md5 m = md5_digest (fst (absorb rfc_compress (0x67452301, 0xefcdab89, 0x98badcfe, 0x10325476) (rfc_pad m)))"

subsection \<open>A block\<close>

lemma md5_functions:
  "MD5_F = (\<lambda>x y z. (x AND y) OR (NOT x AND z))" "MD5_G = (\<lambda>x y z. (x AND z) OR (y AND NOT z))"
  "MD5_H = (\<lambda>x y z. x XOR y XOR z)" "MD5_I = (\<lambda>x y z. y XOR (x OR NOT z))"
proof -
  have "z XOR (x AND (y XOR z)) = (x AND y) OR (NOT x AND z)" "y XOR (z AND (x XOR y)) = (x AND z) OR (y AND NOT z)" for x y z :: uint
    by (rule bit_word_eqI, auto simp: bit_simps)+
  then show "MD5_F = (\<lambda>x y z. (x AND y) OR (NOT x AND z))" "MD5_G = (\<lambda>x y z. (x AND z) OR (y AND NOT z))"
    by (simp_all add: MD5_F_def MD5_G_def fun_eq_iff)
qed (simp_all add: MD5_H_def MD5_I_def fun_eq_iff)

lemma md5_step_rotates:
  assumes "s < 32"
  shows "md5_step f x t s = (\<lambda>(a, b, c, d). (d, b + word_rotl s (a + f b c d + x + t), b, c))"
proof -
  have m: "(0xffffffff :: uint) = - 1" by simp
  have "w AND 0xffffffff = w" for w :: uint by (simp only: m and.right_neutral)
  then show ?thesis using rotate_left [OF assms] by (simp add: md5_step_def Let_def fun_eq_iff add.commute)
qed

lemma md5_steps_rfc: "md5_steps = map (\<lambda>i. (rfc_F i, rfc_index i, rfc_T ! i, rfc_shift i)) [0..<64]"
proof -
  have "[0..<64] = [0..<16] @ [16..<32] @ [32..<48] @ [48..<64]" by (simp add: upt_rec)
  moreover have "rfc_F i = (if i < 16 then MD5_F else if i < 32 then MD5_G else if i < 48 then MD5_H else MD5_I)" for i
    by (simp add: rfc_F_def md5_functions fun_eq_iff)
  ultimately show ?thesis by (simp add: md5_steps_def rfc_index_def rfc_T_def rfc_shift_def upt_rec)
qed

lemma md5_block_rfc: "md5_block = rfc_compress"
proof (intro ext)
  fix st p
  have sh: "rfc_shift i < 32" if "i < 64" for i
  proof -
    have "i div 16 < 4" "i mod 4 < 4" using that by (simp_all add: less_mult_imp_div_less)
    then have "4 * (i div 16) + i mod 4 < 16" by linarith
    then have "rfc_shift i \<in> set [7, 12, 17, 22, 5, 9, 14, 20, 4, 11, 16, 23, 6, 10, 15, 21]"
      unfolding rfc_shift_def by (intro nth_mem) simp
    then show ?thesis by auto
  qed
  have "fold (\<lambda>(f, n, t, s). md5_step f (md5_word p n) t s) md5_steps st = fold (rfc_round p) [0..<64] st"
    unfolding md5_steps_rfc fold_map
    by (rule fold_cong_set) (use sh in \<open>simp add: md5_step_rotates rfc_round_def\<close>)
  then show "md5_block st p = rfc_compress st p" by (simp add: md5_block_def rfc_compress_def)
qed

lemma md5_body_absorb:
  assumes "length data = 64 * k" and "0 < k" and "64 * k < 2 ^ 64"
  shows "md5_body st (data @ rest) (word_of_nat (64 * k)) = Some (fst (absorb md5_block st data), rest)"
  using assms
proof (induction k arbitrary: st data)
  case (Suc k)
  obtain b d where d: "data = b @ d" "length b = 64" "length d = 64 * k"
    using Suc.prems(1) that [of "take 64 data" "drop 64 data"] by simp
  have m: "word_of_nat (64 * Suc k) - 64 = (word_of_nat (64 * k) :: ulong)" by simp
  have step: "md5_body st (data @ rest) (word_of_nat (64 * Suc k)) = (if word_of_nat (64 * k) \<noteq> (0 :: ulong)
      then md5_body (md5_block st b) (d @ rest) (word_of_nat (64 * k)) else Some (md5_block st b, d @ rest))"
    using d by (subst md5_body.simps) (simp add: Let_def m del: of_nat_mult of_nat_Suc)
  show ?case
  proof (cases "k = 0")
    case True
    then show ?thesis using step d by (simp add: absorb_one)
  next
    case False
    then have "word_of_nat (64 * k) \<noteq> (0 :: ulong)" using Suc.prems(3) unfolding word_of_nat_eq_0_iff by (auto dest: nat_dvd_not_less)
    then show ?thesis using step Suc.IH [of d "md5_block st b"] False Suc.prems(3) d by (simp add: absorb_block)
  qed
qed simp

subsection \<open>The context\<close>

abbreviation md5_iv :: md5_state where
  "md5_iv \<equiv> (0x67452301, 0xefcdab89, 0x98badcfe, 0x10325476)"

definition md5_rep :: "md5_ctx \<Rightarrow> byte list \<Rightarrow> bool" where
  "md5_rep c m \<longleftrightarrow> length (md5_buffer c) = 64 \<and>
     absorb md5_block md5_iv m = (md5_st c, take (length m mod 64) (md5_buffer c)) \<and>
     md5_lo c = word_of_nat (length m mod 2 ^ 29) \<and> md5_hi c = word_of_nat (length m div 2 ^ 29)"

lemma md5_lo_bounded: "unat (word_of_nat (n mod 2 ^ 29) :: uint) = n mod 2 ^ 29"
proof -
  have "n mod 2 ^ 29 < 2 ^ 32" by (rule less_trans [of _ "2 ^ 29"]) simp_all
  then show ?thesis by (simp add: unat_of_nat)
qed

lemma md5_count_adds:
  assumes "md5_lo c = word_of_nat (L mod 2 ^ 29)" and "md5_hi c = word_of_nat (L div 2 ^ 29)" and "n < 2 ^ 64"
  shows "md5_count (word_of_nat n) c = c\<lparr>md5_lo := word_of_nat ((L + n) mod 2 ^ 29), md5_hi := word_of_nat ((L + n) div 2 ^ 29)\<rparr>"
proof -
  let ?M = "2 ^ 29 :: nat" and ?w = "ucast (md5_lo c) + word_of_nat n :: ulong"
  have lo: "unat (md5_lo c) = L mod ?M" unfolding assms(1) by (rule md5_lo_bounded)
  have w: "?w = word_of_nat (L mod ?M + n)" using lo by (metis of_nat_add of_nat_unat)
  have "(0x1fffffff :: ulong) = mask 29" by (simp add: mask_eq_exp_minus_1)
  then have "?w AND 0x1fffffff = take_bit 29 ?w" by (simp add: take_bit_eq_mask)
  then have "unat (?w AND 0x1fffffff) = take_bit 29 (unat (word_of_nat (L mod ?M + n) :: ulong))"
    unfolding w by (simp only: unsigned_take_bit_eq)
  also have "\<dots> = (L mod ?M + n) mod 2 ^ 64 mod ?M" unfolding unat_of_nat take_bit_nat_def by simp
  also have "\<dots> = (L mod ?M + n) mod ?M" by (rule mod_mod_cancel) (rule le_imp_power_dvd, simp)
  also have "\<dots> = (L + n) mod ?M" by (simp only: mod_add_left_eq)
  finally have u: "unat (?w AND 0x1fffffff) = (L + n) mod ?M" .
  have new: "(ucast (?w AND 0x1fffffff) :: uint) = word_of_nat ((L + n) mod ?M)" unfolding u [symmetric] of_nat_unat ..
  have less: "(ucast (?w AND 0x1fffffff) :: uint) < md5_lo c \<longleftrightarrow> ?M \<le> L mod ?M + n mod ?M"
    unfolding new word_less_nat_alt lo md5_lo_bounded using carry_add(1) [of ?M L n] by simp
  have "unat (drop_bit 29 (word_of_nat n :: ulong)) = n div ?M"
    unfolding unsigned_drop_bit_eq using assms(3) by (simp add: drop_bit_eq_div unat_of_nat take_bit_nat_eq_self)
  then have t: "(ucast (drop_bit 29 (word_of_nat n :: ulong)) :: uint) = word_of_nat (n div ?M)" by (metis of_nat_unat)
  have "(if (ucast (?w AND 0x1fffffff) :: uint) < md5_lo c then md5_hi c + 1 else md5_hi c) + word_of_nat (n div ?M) =
      word_of_nat ((L + n) div ?M)"
    unfolding less assms(2) carry_add(2) [of ?M L n, OF zero_less_power [OF zero_less_numeral]] by simp
  then show ?thesis using new t by (simp add: md5_count_def Let_def)
qed

lemma and_not_63:
  assumes "n < 2 ^ 64"
  shows "(word_of_nat n :: ulong) AND NOT 0x3f = word_of_nat (64 * (n div 64))"
proof -
  let ?w = "word_of_nat n :: ulong"
  have m: "(0x3f :: ulong) = mask 6" by (simp add: mask_eq_exp_minus_1)
  have a: "?w AND NOT 0x3f = push_bit 6 (drop_bit 6 ?w)" unfolding m by (rule bit_word_eqI) (auto simp: bit_simps)
  have "unat (drop_bit 6 ?w) = n div 64"
    unfolding unsigned_drop_bit_eq using assms by (simp add: drop_bit_eq_div unat_of_nat take_bit_nat_eq_self)
  then have "drop_bit 6 ?w = word_of_nat (n div 64)" by (metis of_nat_unat unsigned_ucast_eq ucast_id)
  then show ?thesis unfolding a by (simp add: push_bit_eq_mult mult.commute)
qed

lemma md5_rest_absorbs:
  assumes "length (md5_buffer c) = 64" and "length data < 2 ^ 64"
  shows "\<exists>st b. md5_rest data c = Some (c\<lparr>md5_st := st, md5_buffer := b\<rparr>) \<and> length b = 64 \<and>
    absorb md5_block (md5_st c) data = (st, take (length data mod 64) b)"
proof -
  define k where "k = length data div 64"
  define full tail where "full = take (64 * k) data" and "tail = drop (64 * k) data"
  have d: "data = full @ tail" by (simp add: full_def tail_def)
  have n: "length data = 64 * k + length data mod 64" unfolding k_def by simp
  have l: "length full = 64 * k" "length tail = length data mod 64" unfolding full_def tail_def using n by simp_all
  have t: "length tail < 64" "length tail \<le> length (md5_buffer c)" using l(2) assms(1) by simp_all
  obtain st where st: "absorb md5_block (md5_st c) full = (st, [])"
    using absorb_full [of full md5_block "md5_st c"] l(1) by (cases "absorb md5_block (md5_st c) full") simp
  have a: "absorb md5_block (md5_st c) data = (st, tail)" unfolding d
    by (subst absorb_append) (use t(1) st in \<open>simp add: absorb_short\<close>)
  let ?b = "tail @ drop (length tail) (md5_buffer c)"
  have "md5_rest data c = Some (c\<lparr>md5_st := st, md5_buffer := ?b\<rparr>)"
  proof (cases "k = 0")
    case True
    then have "full = []" "length data < 64" using l n by simp_all
    then show ?thesis using t d st assms(1) by (simp add: md5_rest_def memcpy_at_def absorb_short)
  next
    case False
    then have "64 \<le> length data" using n by simp
    moreover have "md5_body (md5_st c) (full @ tail) (word_of_nat (64 * k)) = Some (st, tail)"
      using st md5_body_absorb [OF l(1), of "md5_st c" tail] False assms(2) n by simp
    then have "md5_body (md5_st c) data (word_of_nat (length data) AND NOT 0x3f) = Some (st, tail)"
      unfolding and_not_63 [OF assms(2)] k_def [symmetric] d [symmetric] .
    ultimately show ?thesis using t assms(1) by (simp add: md5_rest_def memcpy_at_def)
  qed
  moreover have "take (length data mod 64) ?b = tail" "length ?b = 64" using l(2) t assms(1) by auto
  ultimately show ?thesis using a by (intro exI [of _ st] exI [of _ ?b]) simp
qed

lemma md5_update_rep:
  assumes "md5_rep c m" and "length d < 2 ^ 64"
  shows "\<exists>c'. PHP_MD5Update c d = Some c' \<and> md5_rep c' (m @ d)"
proof -
  define used where "used = length m mod 64"
  have r: "length (md5_buffer c) = 64" "absorb md5_block md5_iv m = (md5_st c, take used (md5_buffer c))"
    "md5_lo c = word_of_nat (length m mod 2 ^ 29)" "md5_hi c = word_of_nat (length m div 2 ^ 29)"
    using assms(1) by (simp_all add: md5_rep_def used_def)
  let ?c = "c\<lparr>md5_lo := word_of_nat (length (m @ d) mod 2 ^ 29), md5_hi := word_of_nat (length (m @ d) div 2 ^ 29)\<rparr>"
  have count: "md5_count (word_of_nat (length d)) c = ?c" using md5_count_adds [OF r(3,4) assms(2)] by simp
  have "length m mod 2 ^ 29 mod 64 = used" unfolding used_def by (rule mod_mod_cancel) (simp add: dvd_def)
  then have u: "unat (md5_lo c AND 0x3f) = used" unfolding unat_and_63 r(3) md5_lo_bounded .
  have used: "used < 64" by (simp add: used_def)
  have mod: "length (m @ d) mod 64 = (used + length d) mod 64" unfolding used_def by (simp add: mod_add_left_eq)
  consider "used = 0" | "used \<noteq> 0" "length d < 64 - used" | "used \<noteq> 0" "64 - used \<le> length d" by linarith
  then show ?thesis
  proof cases
    case 1
    obtain st b where b: "md5_rest d ?c = Some (?c\<lparr>md5_st := st, md5_buffer := b\<rparr>)" "length b = 64"
      "absorb md5_block (md5_st c) d = (st, take (length d mod 64) b)"
      using md5_rest_absorbs [of ?c d] r(1) assms(2) by auto
    then have "absorb md5_block md5_iv (m @ d) = (st, take (length (m @ d) mod 64) b)"
      using r(2) 1 unfolding mod by (subst absorb_append) simp
    then show ?thesis using b u 1 by (simp add: PHP_MD5Update_def Let_def count md5_rep_def)
  next
    case 2
    let ?b = "take used (md5_buffer c) @ d @ drop (used + length d) (md5_buffer c)"
    have "absorb md5_block md5_iv (m @ d) = (md5_st c, take used (md5_buffer c) @ d)"
      using 2 used r(1) by (intro absorb_more [OF r(2)]) simp
    moreover have "take (length (m @ d) mod 64) ?b = take used (md5_buffer c) @ d" unfolding mod using 2 used r(1) by simp
    moreover have "PHP_MD5Update c d = Some (?c\<lparr>md5_buffer := ?b\<rparr>)"
      using 2 u used r(1) by (simp add: PHP_MD5Update_def Let_def count memcpy_at_def)
    ultimately show ?thesis using 2 used r(1) by (simp add: md5_rep_def)
  next
    case 3
    define h t where "h = take (64 - used) d" and "t = drop (64 - used) d"
    have d: "d = h @ t" "length h = 64 - used" unfolding h_def t_def using 3 by simp_all
    let ?b = "take used (md5_buffer c) @ h" and ?st = "md5_block (md5_st c) (take used (md5_buffer c) @ h)"
    have full: "absorb md5_block md5_iv (m @ h) = (?st, [])"
      using d(2) used r(1) by (intro absorb_fill [OF r(2)]) simp
    have lb: "length ?b = 64" using d(2) used r(1) by simp
    have body: "md5_body (md5_st c) ?b 64 = Some (?st, [])"
      using md5_body_absorb [of ?b 1 "md5_st c" "[]"] lb by (simp add: absorb_one)
    obtain st b where b: "md5_rest t (?c\<lparr>md5_buffer := ?b, md5_st := ?st\<rparr>) = Some (?c\<lparr>md5_st := st, md5_buffer := b\<rparr>)" "length b = 64"
      "absorb md5_block ?st t = (st, take (length t mod 64) b)"
      using md5_rest_absorbs [of "?c\<lparr>md5_buffer := ?b, md5_st := ?st\<rparr>" t] lb assms(2) d(1) by auto
    have "used + length d = 64 + length t" using d used by simp
    then have "length (m @ d) mod 64 = length t mod 64" unfolding mod by simp
    moreover have "absorb md5_block md5_iv ((m @ h) @ t) = (st, take (length t mod 64) b)"
      using full b(3) by (subst absorb_append) simp
    moreover have "memcpy_at used h (md5_buffer c) = Some ?b" using d(2) used r(1) by (simp add: memcpy_at_def)
    then have "PHP_MD5Update c d = Some (?c\<lparr>md5_st := st, md5_buffer := b\<rparr>)"
      using 3 u body b(1) by (simp add: PHP_MD5Update_def Let_def count flip: h_def t_def)
    ultimately show ?thesis using b(2) d(1) by (simp add: md5_rep_def)
  qed
qed

lemma md5_length_counts:
  "le_bytes (push_bit 3 (word_of_nat (n mod 2 ^ 29))) @ le_bytes (word_of_nat (n div 2 ^ 29)) = md5_length n"
proof -
  have "8 * (n mod 2 ^ 29) = (8 * n) mod 2 ^ 32" using mult_mod_right [of 8 n "2 ^ 29"] by simp
  then have "take_bit 32 (8 * (n mod 2 ^ 29)) = take_bit 32 (8 * n)" by (simp only: take_bit_nat_def mod_mod_trivial)
  then have "(word_of_nat (8 * (n mod 2 ^ 29)) :: uint) = word_of_nat (8 * n)" unfolding word_of_nat_eq_iff by simp
  then have "push_bit 3 (word_of_nat (n mod 2 ^ 29)) = (word_of_nat (8 * n) :: uint)" by (simp add: push_bit_eq_mult mult.commute)
  moreover have "n div 2 ^ 29 = 8 * n div 2 ^ 32" by simp
  ultimately show ?thesis unfolding md5_length_def by (simp only:)
qed

lemma length_le_bytes [simp]: "length (le_bytes w) = 4"
  by (simp add: le_bytes_def)

lemma length_md5_length [simp]: "length (md5_length n) = 8"
  by (simp add: md5_length_def)

text \<open>The last blocks, written into the buffer.\<close>

lemma md5_final_rep:
  assumes "md5_rep c m"
  shows "PHP_MD5Final c = Some (rfc_md5 m)"
proof -
  define used z where "used = length m mod 64" and "z = pad_zeros (length m)"
  define r rest where "r = take used (md5_buffer c)" and "rest = drop (used + 1) (md5_buffer c)"
  have c: "length (md5_buffer c) = 64" "absorb md5_block md5_iv m = (md5_st c, r)"
    "md5_lo c = word_of_nat (length m mod 2 ^ 29)" "md5_hi c = word_of_nat (length m div 2 ^ 29)"
    using assms by (simp_all add: md5_rep_def used_def r_def)
  have "length m mod 2 ^ 29 mod 64 = used" unfolding used_def by (rule mod_mod_cancel) (simp add: dvd_def)
  then have u: "unat (md5_lo c AND 0x3f) = used" unfolding unat_and_63 c(3) md5_lo_bounded .
  have used: "used < 64" by (simp add: used_def)
  have lr: "length r = used" "length rest = 63 - used" using used c(1) by (simp_all add: r_def rest_def)
  have b0: "memcpy_at used [0x80] (md5_buffer c) = Some (r @ 0x80 # rest)" using used c(1) by (simp add: memcpy_at_def r_def rest_def)
  have len: "le_bytes (push_bit 3 (md5_lo c)) @ le_bytes (md5_hi c) = md5_length (length m)" unfolding c(3,4) by (rule md5_length_counts)
  have one: "md5_body st b 64 = Some (md5_block st b, [])" if "length b = 64" for st b
    using md5_body_absorb [of b 1 st "[]"] that by (simp add: absorb_one)
  let ?d = "\<lambda>st. case st of (a, b, c, d) \<Rightarrow> Some (le_bytes a @ le_bytes b @ le_bytes c @ le_bytes d)"
  have pad: "rfc_md5 m = md5_digest (fst (absorb md5_block (md5_st c) (r @ 0x80 # replicate z 0 @ md5_length (length m))))"
    unfolding rfc_md5_def rfc_pad_def md5_block_rfc [symmetric] z_def [symmetric] by (subst absorb_append) (simp add: c(2))
  show ?thesis
  proof (cases "used < 56")
    case True
    let ?b = "r @ 0x80 # replicate (55 - used) 0 @ md5_length (length m)"
    have z: "z = 55 - used" using True by (simp add: z_def pad_zeros_def used_def)
    have "memcpy_at (used + 1) (replicate (63 - used - 8) 0) (r @ 0x80 # rest) = Some (r @ 0x80 # replicate (55 - used) 0 @ drop (55 - used) rest)"
      using lr True Suc_diff_le [of used 55] by (simp add: memcpy_at_def)
    moreover have "memcpy_at 56 (md5_length (length m)) (r @ 0x80 # replicate (55 - used) 0 @ drop (55 - used) rest) = Some ?b"
      using lr True Suc_diff_le [of used 55] by (simp add: memcpy_at_def)
    moreover have "length ?b = 64" using lr True by simp
    moreover have ge: "\<not> 63 - used < 8" using True by simp
    ultimately have "PHP_MD5Final c = ?d (md5_block (md5_st c) ?b)"
      using u b0 len one ge by (simp add: PHP_MD5Final_def Let_def)
    then show ?thesis using pad \<open>length ?b = 64\<close> unfolding z by (simp add: absorb_one md5_digest_def split: prod.splits)
  next
    case False
    let ?b1 = "r @ 0x80 # replicate (63 - used) 0" and ?b2 = "replicate 56 0 @ md5_length (length m)"
    have z: "replicate z 0 = replicate (63 - used) 0 @ replicate 56 (0 :: byte)" using False used
      by (simp add: z_def pad_zeros_def used_def flip: replicate_add)
    have l: "length ?b1 = 64" "length ?b2 = 64" using lr False used by simp_all
    have "memcpy_at (used + 1) (replicate (63 - used) 0) (r @ 0x80 # rest) = Some ?b1"
      using lr False used by (simp add: memcpy_at_def)
    moreover have "memcpy_at 0 (replicate 56 0) ?b1 = Some (replicate 56 0 @ drop 56 ?b1)" using l by (simp add: memcpy_at_def)
    moreover have "memcpy_at 56 (md5_length (length m)) (replicate 56 0 @ drop 56 ?b1) = Some ?b2"
      using l by (simp add: memcpy_at_def)
    moreover have less: "63 - used < 8" using False by simp
    ultimately have "PHP_MD5Final c = ?d (md5_block (md5_block (md5_st c) ?b1) ?b2)"
      using u b0 len one l less by (simp add: PHP_MD5Final_def Let_def)
    moreover have "absorb md5_block (md5_st c) (?b1 @ ?b2) = (md5_block (md5_block (md5_st c) ?b1) ?b2, [])"
      by (simp only: absorb_block [OF l(1)] absorb_one [OF l(2)])
    ultimately show ?thesis using pad unfolding z by (simp add: md5_digest_def split: prod.splits)
  qed
qed

lemma md5_init_rep: "length garbage = 64 \<Longrightarrow> md5_rep (PHP_MD5Init garbage) []"
  by (simp add: md5_rep_def PHP_MD5Init_def absorb_short)

interpretation md5: incremental "PHP_MD5Init (replicate 64 0)" PHP_MD5Update PHP_MD5Final md5_rep rfc_md5 "\<lambda>d. length d < 2 ^ 64"
proof
  show "md5_rep (PHP_MD5Init (replicate 64 0)) []" by (rule md5_init_rep) simp
qed (use md5_update_rep md5_final_rep in blast)+

text \<open>
  C20: MD5 over any number of pieces, from a context whose buffer is not initialised, ends with the RFC 1321
  digest of the pieces put together; no byte outside the input or the buffer is touched on the way.
\<close>

theorem md5_streams:
  assumes "length garbage = 64" and "\<forall>d\<in>set ds. length d < 2 ^ 64"
  shows "\<exists>c. feed PHP_MD5Update ds (PHP_MD5Init garbage) = Some c \<and> PHP_MD5Final c = Some (rfc_md5 (concat ds))"
  using md5.feed_rep [OF md5_init_rep [OF assms(1)] assms(2)] md5_final_rep by fastforce

theorem md5_streams_witness:
  "\<exists>c. feed PHP_MD5Update [[97], [], replicate 70 98] (PHP_MD5Init (replicate 64 7)) = Some c \<and>
     PHP_MD5Final c = Some (rfc_md5 (97 # replicate 70 98))"
  using md5_streams [of "replicate 64 7" "[[97], [], replicate 70 98]"] by simp

end
