(* ===== verification/Sha1.thy ===== *)
theory Sha1
  imports Block_Digest
begin

text \<open>
  \<open>ext/standard/sha1.c\<close>. The five words of the state are a tuple. The eighty lines of
  \<open>SHA1Transform\<close> are one fold: line \<open>i\<close> has the arguments of the line before rotated by one place,
  which the tuple is here, and takes its word from \<open>x[i]\<close> or, from \<open>i = 16\<close> on, from \<open>W(i)\<close>, which
  overwrites one of the sixteen words of \<open>x\<close>. A length is an \<open>unsigned int\<close>.
\<close>

type_synonym sha1_state = "uint \<times> uint \<times> uint \<times> uint \<times> uint"

definition SHA1_F :: "uint \<Rightarrow> uint \<Rightarrow> uint \<Rightarrow> uint" where "SHA1_F x y z = z XOR (x AND (y XOR z))"
definition SHA1_G :: "uint \<Rightarrow> uint \<Rightarrow> uint \<Rightarrow> uint" where "SHA1_G x y z = x XOR y XOR z"
definition SHA1_H :: "uint \<Rightarrow> uint \<Rightarrow> uint \<Rightarrow> uint" where "SHA1_H x y z = (x AND y) OR (z AND (x OR y))"
definition SHA1_I :: "uint \<Rightarrow> uint \<Rightarrow> uint \<Rightarrow> uint" where "SHA1_I x y z = x XOR y XOR z"

definition ROTATE_LEFT :: "uint \<Rightarrow> nat \<Rightarrow> uint" where
  "ROTATE_LEFT x n = push_bit n x OR drop_bit (32 - n) x"

text \<open>The body of \<open>FF\<close>, \<open>GG\<close>, \<open>HH\<close> and \<open>II\<close>.\<close>

definition sha1_ff :: "(uint \<Rightarrow> uint \<Rightarrow> uint \<Rightarrow> uint) \<Rightarrow> uint \<Rightarrow> uint \<Rightarrow> sha1_state \<Rightarrow> sha1_state" where
  "sha1_ff f k w = (\<lambda>(a, b, c, d, e).
     let e = e + (f b c d + w + k);
         e = e + ROTATE_LEFT a 5;
         b = ROTATE_LEFT b 30
     in (e, a, b, c, d))"

text \<open>\<open>W(i)\<close>: the word and the changed array.\<close>

definition sha1_w :: "nat \<Rightarrow> uint list \<Rightarrow> uint \<times> uint list" where
  "sha1_w i x = (let j = \<lambda>k. unat ((word_of_nat i - k :: uint) AND 15);
       tmp = x ! j 3 XOR x ! j 8 XOR x ! j 14 XOR x ! j 0;
       w = ROTATE_LEFT tmp 1
     in (w, x[j 0 := w]))"

definition sha1_line :: "nat \<Rightarrow> sha1_state \<times> uint list \<Rightarrow> sha1_state \<times> uint list" where
  "sha1_line i = (\<lambda>(st, x).
     let (w, x) = (if i < 16 then (x ! i, x) else sha1_w i x)
     in (if i < 20 then sha1_ff SHA1_F 0x5A827999 w st
         else if i < 40 then sha1_ff SHA1_G 0x6ED9EBA1 w st
         else if i < 60 then sha1_ff SHA1_H 0x8F1BBCDC w st
         else sha1_ff SHA1_I 0xCA62C1D6 w st, x))"

definition sha1_decode_word :: "byte list \<Rightarrow> nat \<Rightarrow> uint" where
  "sha1_decode_word p j = ucast (p ! (j + 3)) OR push_bit 8 (ucast (p ! (j + 2))) OR
     push_bit 16 (ucast (p ! (j + 1))) OR push_bit 24 (ucast (p ! j))"

definition SHA1Decode :: "byte list \<Rightarrow> nat \<Rightarrow> uint list" where
  "SHA1Decode input len = map (\<lambda>i. sha1_decode_word input (4 * i)) [0..<len div 4]"

definition sha1_add :: "sha1_state \<Rightarrow> sha1_state \<Rightarrow> sha1_state" where
  "sha1_add = (\<lambda>(s0, s1, s2, s3, s4) (a, b, c, d, e). (s0 + a, s1 + b, s2 + c, s3 + d, s4 + e))"

definition SHA1Transform :: "sha1_state \<Rightarrow> byte list \<Rightarrow> sha1_state" where
  "SHA1Transform state block = sha1_add state (fst (fold sha1_line [0..<80] (state, SHA1Decode block 64)))"

definition sha1_encode_word :: "uint \<Rightarrow> byte list" where
  "sha1_encode_word w = [ucast (drop_bit 24 w AND 0xff), ucast (drop_bit 16 w AND 0xff), ucast (drop_bit 8 w AND 0xff), ucast (w AND 0xff)]"

definition SHA1Encode :: "sha1_state \<Rightarrow> byte list" where
  "SHA1Encode = (\<lambda>(a, b, c, d, e). sha1_encode_word a @ sha1_encode_word b @ sha1_encode_word c @ sha1_encode_word d @ sha1_encode_word e)"

record sha1_ctx =
  sha1_st :: sha1_state
  sha1_count0 :: uint
  sha1_count1 :: uint
  sha1_buffer :: "byte list"

definition PHP_SHA1Init :: "byte list \<Rightarrow> sha1_ctx" where
  "PHP_SHA1Init garbage = \<lparr>sha1_st = (0x67452301, 0xefcdab89, 0x98badcfe, 0x10325476, 0xc3d2e1f0),
     sha1_count0 = 0, sha1_count1 = 0, sha1_buffer = garbage\<rparr>"

definition sha1_count :: "uint \<Rightarrow> sha1_ctx \<Rightarrow> sha1_ctx" where
  "sha1_count inputLen c = (let c0 = sha1_count0 c + push_bit 3 inputLen;
       c1 = (if c0 < push_bit 3 inputLen then sha1_count1 c + 1 else sha1_count1 c)
     in c\<lparr>sha1_count0 := c0, sha1_count1 := c1 + drop_bit 29 inputLen\<rparr>)"

text \<open>The loop over whole blocks; \<open>i + 63\<close> is an \<open>unsigned int\<close>.\<close>

partial_function (option) sha1_blocks :: "uint \<Rightarrow> sha1_state \<Rightarrow> byte list \<Rightarrow> uint \<Rightarrow> (sha1_state \<times> uint) option" where
  "sha1_blocks inputLen st input i =
     (if i + 63 < inputLen
      then if unat i + 64 \<le> length input
        then sha1_blocks inputLen (SHA1Transform st (take 64 (drop (unat i) input))) input (i + 64)
        else None
      else Some (st, i))"

definition PHP_SHA1Update :: "sha1_ctx \<Rightarrow> byte list \<Rightarrow> sha1_ctx option" where
  "PHP_SHA1Update c input = do {
     let inputLen = word_of_nat (length input);
     let index = drop_bit 3 (sha1_count0 c) AND 0x3F;
     let c = sha1_count inputLen c;
     let partLen = 64 - index;
     (c, index, i) \<leftarrow> (if inputLen \<ge> partLen then do {
         b \<leftarrow> memcpy_at (unat index) (take (unat partLen) input) (sha1_buffer c);
         let c = c\<lparr>sha1_buffer := b, sha1_st := SHA1Transform (sha1_st c) b\<rparr>;
         (st, i) \<leftarrow> sha1_blocks inputLen (sha1_st c) input partLen;
         Some (c\<lparr>sha1_st := st\<rparr>, 0, i)
       } else Some (c, index, 0));
     b \<leftarrow> memcpy_at (unat index) (drop (unat i) input) (sha1_buffer c);
     Some (c\<lparr>sha1_buffer := b\<rparr>)
   }"

definition PADDING :: "byte list" where
  "PADDING = 0x80 # replicate 63 0"

definition PHP_SHA1Final :: "sha1_ctx \<Rightarrow> byte list option" where
  "PHP_SHA1Final c = do {
     let bits = sha1_encode_word (sha1_count1 c) @ sha1_encode_word (sha1_count0 c);
     let index = unat (drop_bit 3 (sha1_count0 c) AND 0x3f);
     let padLen = (if index < 56 then 56 - index else 120 - index);
     c \<leftarrow> PHP_SHA1Update c (take padLen PADDING);
     c \<leftarrow> PHP_SHA1Update c bits;
     Some (SHA1Encode (sha1_st c))
   }"

definition php_sha1 :: "byte list \<Rightarrow> byte list \<Rightarrow> byte list option" where
  "php_sha1 garbage arg = do {
     c \<leftarrow> PHP_SHA1Update (PHP_SHA1Init garbage) arg;
     PHP_SHA1Final c
   }"

end
