(* ===== verification/Sha1_Correct.thy ===== *)
theory Sha1_Correct
  imports Sha1
begin

text \<open>
  SHA-1 against FIPS 180: its functions, its constants, its message schedule (a recursion where the
  code overwrites sixteen words in a circle), its padding; and the context as an incremental digest.
\<close>

subsection \<open>FIPS 180\<close>

definition fips_f :: "nat \<Rightarrow> uint \<Rightarrow> uint \<Rightarrow> uint \<Rightarrow> uint" where
  "fips_f t x y z = (if t < 20 then (x AND y) XOR (NOT x AND z)
     else if 40 \<le> t \<and> t < 60 then (x AND y) XOR (x AND z) XOR (y AND z) else x XOR y XOR z)"

definition fips_K :: "nat \<Rightarrow> uint" where
  "fips_K t = [0x5a827999, 0x6ed9eba1, 0x8f1bbcdc, 0xca62c1d6] ! (t div 20)"

function fips_W :: "byte list \<Rightarrow> nat \<Rightarrow> uint" where
  "fips_W p t = (if t < 16 then word_rcat (take 4 (drop (4 * t) p))
     else word_rotl 1 (fips_W p (t - 3) XOR fips_W p (t - 8) XOR fips_W p (t - 14) XOR fips_W p (t - 16)))"
  by pat_completeness auto
termination by (relation "measure snd") auto

declare fips_W.simps [simp del]

definition fips_round :: "byte list \<Rightarrow> nat \<Rightarrow> sha1_state \<Rightarrow> sha1_state" where
  "fips_round p t = (\<lambda>(a, b, c, d, e).
     (word_rotl 5 a + fips_f t b c d + e + fips_K t + fips_W p t, a, word_rotl 30 b, c, d))"

definition fips_compress :: "sha1_state \<Rightarrow> byte list \<Rightarrow> sha1_state" where
  "fips_compress st p = sha1_add st (fold (fips_round p) [0..<80] st)"

text \<open>The padding ends with the length in bits, high word first.\<close>

definition sha1_length :: "nat \<Rightarrow> byte list" where
  "sha1_length n = sha1_encode_word (word_of_nat (8 * n div 2 ^ 32)) @ sha1_encode_word (word_of_nat (8 * n))"

definition fips_pad :: "byte list \<Rightarrow> byte list" where
  "fips_pad m = m @ [0x80] @ replicate (pad_zeros (length m)) 0 @ sha1_length (length m)"

definition fips_sha1 :: "byte list \<Rightarrow> byte list" where
  "fips_sha1 m = SHA1Encode (fst (absorb fips_compress
     (0x67452301, 0xefcdab89, 0x98badcfe, 0x10325476, 0xc3d2e1f0) (fips_pad m)))"

subsection \<open>A block\<close>

lemma sha1_functions:
  "SHA1_F = (\<lambda>x y z. (x AND y) XOR (NOT x AND z))"
  "SHA1_H = (\<lambda>x y z. (x AND y) XOR (x AND z) XOR (y AND z))"
proof -
  have "z XOR (x AND (y XOR z)) = (x AND y) XOR (NOT x AND z)"
    "(x AND y) OR (z AND (x OR y)) = (x AND y) XOR (x AND z) XOR (y AND z)" for x y z :: uint
    by (rule bit_word_eqI, auto simp: bit_simps)+
  then show "SHA1_F = (\<lambda>x y z. (x AND y) XOR (NOT x AND z))"
    "SHA1_H = (\<lambda>x y z. (x AND y) XOR (x AND z) XOR (y AND z))"
    by (simp_all add: SHA1_F_def SHA1_H_def fun_eq_iff)
qed

lemma ROTATE_LEFT_rotl: "n < 32 \<Longrightarrow> ROTATE_LEFT x n = word_rotl n x"
  by (simp add: ROTATE_LEFT_def rotate_left)

lemma sha1_ff_rotates:
  "sha1_ff f k w (a, b, c, d, e) = (word_rotl 5 a + f b c d + e + k + w, a, word_rotl 30 b, c, d)"
  by (simp add: sha1_ff_def ROTATE_LEFT_rotl Let_def)

lemma word_rcat_or:
  fixes a b c d :: byte
  shows "(word_rcat [a, b, c, d] :: uint) = ucast d OR push_bit 8 (ucast c) OR push_bit 16 (ucast b) OR push_bit 24 (ucast a)"
proof -
  have "(word_rcat [a, b, c, d] :: uint) = ucast d + push_bit 8 (ucast c) + push_bit 16 (ucast b) + push_bit 24 (ucast a)"
    by (simp add: word_rcat_def horner_sum_simps push_bit_eq_mult algebra_simps)
  also have "\<dots> = ((ucast d OR push_bit 8 (ucast c)) + push_bit 16 (ucast b)) + push_bit 24 (ucast a)"
    by (subst disjunctive_add) (auto simp: bit_simps dest: bit_imp_le_length)
  also have "\<dots> = ((ucast d OR push_bit 8 (ucast c)) OR push_bit 16 (ucast b)) + push_bit 24 (ucast a)"
    by (subst disjunctive_add) (auto simp: bit_simps dest: bit_imp_le_length)
  also have "\<dots> = ((ucast d OR push_bit 8 (ucast c)) OR push_bit 16 (ucast b)) OR push_bit 24 (ucast a)"
    by (subst disjunctive_add) (auto simp: bit_simps dest: bit_imp_le_length)
  finally show ?thesis by (simp add: or.assoc)
qed

lemma sha1_decode_word_rcat:
  assumes "j + 4 \<le> length p"
  shows "sha1_decode_word p j = word_rcat (take 4 (drop j p))"
proof -
  have "take 4 (drop j p) = [p ! j, p ! (j + 1), p ! (j + 2), p ! (j + 3)]"
    using assms by (intro nth_equalityI) (auto simp: less_Suc_eq numeral_eq_Suc)
  moreover have "sha1_decode_word p j = word_rcat [p ! j, p ! (j + 1), p ! (j + 2), p ! (j + 3)]"
    unfolding sha1_decode_word_def word_rcat_or ..
  ultimately show ?thesis by simp
qed

text \<open>The circle: before line \<open>n\<close> it holds the last sixteen words of the schedule.\<close>

definition schedule :: "byte list \<Rightarrow> nat \<Rightarrow> uint list \<Rightarrow> bool" where
  "schedule p n x \<longleftrightarrow> length x = 16 \<and> (\<forall>s. n \<le> s + 16 \<longrightarrow> s < max n 16 \<longrightarrow> x ! (s mod 16) = fips_W p s)"

lemma schedule_decoded: "length p = 64 \<Longrightarrow> schedule p 0 (SHA1Decode p 64)"
  by (simp add: schedule_def SHA1Decode_def sha1_decode_word_rcat fips_W.simps)

lemma circle_index:
  assumes "k \<le> n" and "n < 2 ^ 32"
  shows "unat ((word_of_nat n - word_of_nat k :: uint) AND 15) = (n - k) mod 16"
proof -
  have "(15 :: uint) = mask 4" by (simp add: mask_eq_exp_minus_1)
  then have "(word_of_nat n - word_of_nat k :: uint) AND 15 = take_bit 4 (word_of_nat (n - k))"
    using assms(1) by (simp only: of_nat_diff flip: take_bit_eq_mask)
  then have "unat ((word_of_nat n - word_of_nat k :: uint) AND 15) = take_bit 4 (unat (word_of_nat (n - k) :: uint))"
    by (simp only: unsigned_take_bit_eq)
  also have "unat (word_of_nat (n - k) :: uint) = n - k" unfolding unat_of_nat using assms(2) by (simp del: of_nat_diff)
  finally show ?thesis by (simp add: take_bit_eq_mod)
qed

lemma sha1_w_schedule:
  assumes x: "schedule p n x" and n: "16 \<le> n" "n < 80"
  shows "fst (sha1_w n x) = fips_W p n" "schedule p (Suc n) (snd (sha1_w n x))"
proof -
  have j: "unat ((word_of_nat n - k :: uint) AND 15) = (n - unat k) mod 16" if "unat k \<le> n" for k
    using circle_index [of "unat k" n] that n by simp
  have w: "x ! ((n - k) mod 16) = fips_W p (n - k)" if "1 \<le> k" "k \<le> 16" for k
    using x n that unfolding schedule_def by simp
  have "n mod 16 = (n - 16) mod 16" using n by (simp add: mod_if)
  then have "x ! (n mod 16) = fips_W p (n - 16)" using w [of 16] by simp
  then have "sha1_w n x = (fips_W p n, x[n mod 16 := fips_W p n])"
    using n w [of 3] w [of 8] w [of 14] j [of 3] j [of 8] j [of 14] j [of 0]
    by (simp add: sha1_w_def Let_def ROTATE_LEFT_rotl fips_W.simps [of p n])
  moreover have "x[n mod 16 := fips_W p n] ! (s mod 16) = fips_W p s" if "Suc n \<le> s + 16" "s < Suc n" for s
  proof (cases "s = n")
    case True
    then show ?thesis using x by (simp add: schedule_def)
  next
    case False
    then have "s < n" "n < s + 16" using that by simp_all
    then have "\<not> 16 dvd n - s" by (auto dest: dvd_imp_le)
    then have "n mod 16 \<noteq> s mod 16" using \<open>s < n\<close> by (simp add: mod_eq_dvd_iff_nat)
    then show ?thesis using x \<open>s < n\<close> \<open>n < s + 16\<close> by (simp add: schedule_def)
  qed
  ultimately show "fst (sha1_w n x) = fips_W p n" "schedule p (Suc n) (snd (sha1_w n x))"
    using x n by (simp_all add: schedule_def)
qed

lemma sha1_line_round:
  assumes "schedule p n x" and "n < 80"
  shows "fst (sha1_line n (st, x)) = fips_round p n st" "schedule p (Suc n) (snd (sha1_line n (st, x)))"
proof -
  obtain a b c d e where st: "st = (a, b, c, d, e)" by (cases st)
  obtain w y where y: "(if n < 16 then (x ! n, x) else sha1_w n x) = (w, y)" by fastforce
  have w: "w = fips_W p n" "schedule p (Suc n) y"
    using y assms sha1_w_schedule [OF assms(1) _ assms(2)] by (auto simp: schedule_def split: if_splits)
  consider "n < 20" "n div 20 = 0" | "20 \<le> n" "n < 40" "n div 20 = 1" | "40 \<le> n" "n < 60" "n div 20 = 2"
    | "60 \<le> n" "n div 20 = 3" using assms(2) by (cases "n < 20"; cases "n < 40"; cases "n < 60") (simp_all add: div_nat_eqI)
  then have "sha1_line n (st, x) = (fips_round p n st, y)"
    unfolding sha1_line_def st prod.case y Let_def w(1)
    by cases (simp_all add: sha1_ff_rotates fips_round_def fips_f_def fips_K_def sha1_functions SHA1_G_def SHA1_I_def)
  then show "fst (sha1_line n (st, x)) = fips_round p n st" "schedule p (Suc n) (snd (sha1_line n (st, x)))"
    using w(2) by simp_all
qed

lemma sha1_lines:
  assumes "schedule p 0 x" and "n \<le> 80"
  shows "\<exists>y. fold sha1_line [0..<n] (st, x) = (fold (fips_round p) [0..<n] st, y) \<and> schedule p n y"
  using assms(2)
proof (induction n)
  case (Suc n)
  then obtain y where y: "fold sha1_line [0..<n] (st, x) = (fold (fips_round p) [0..<n] st, y)" "schedule p n y" by auto
  then show ?case using sha1_line_round [OF y(2), of "fold (fips_round p) [0..<n] st"] Suc.prems
    by (metis (no_types, lifting) Suc_le_lessD fold_append fold_simps(1,2) comp_apply prod.exhaust_sel upt_Suc_append zero_le)
qed (use assms(1) in simp)

lemma SHA1Transform_fips: "length p = 64 \<Longrightarrow> SHA1Transform st p = fips_compress st p"
  using sha1_lines [OF schedule_decoded, of p 80 st] by (auto simp: SHA1Transform_def fips_compress_def)

lemma absorb_fips: "absorb SHA1Transform st m = absorb fips_compress st m"
proof (induction SHA1Transform st m rule: absorb.induct)
  case (1 st m)
  then show ?case by (simp add: absorb.simps [of _ st m] SHA1Transform_fips)
qed

subsection \<open>The context\<close>

abbreviation sha1_iv :: sha1_state where
  "sha1_iv \<equiv> (0x67452301, 0xefcdab89, 0x98badcfe, 0x10325476, 0xc3d2e1f0)"

text \<open>What has been absorbed; the counters hold eight times the length.\<close>

definition sha1_rep :: "sha1_ctx \<Rightarrow> byte list \<Rightarrow> bool" where
  "sha1_rep c m \<longleftrightarrow> length (sha1_buffer c) = 64 \<and>
     absorb SHA1Transform sha1_iv m = (sha1_st c, take (length m mod 64) (sha1_buffer c)) \<and>
     sha1_count0 c = word_of_nat (8 * length m) \<and> sha1_count1 c = word_of_nat (8 * length m div 2 ^ 32)"

lemma unat_uint: "unat (word_of_nat n :: uint) = n mod 2 ^ 32"
  by (simp add: unat_of_nat)

lemma sha1_count_adds:
  assumes "sha1_count0 c = word_of_nat (8 * L)" and "sha1_count1 c = word_of_nat (8 * L div 2 ^ 32)" and n: "n < 2 ^ 32"
  shows "sha1_count (word_of_nat n) c = c\<lparr>sha1_count0 := word_of_nat (8 * (L + n)), sha1_count1 := word_of_nat (8 * (L + n) div 2 ^ 32)\<rparr>"
proof -
  let ?M = "2 ^ 32 :: nat"
  have p: "push_bit 3 (word_of_nat n) = (word_of_nat (8 * n) :: uint)" by (simp add: push_bit_eq_mult mult.commute)
  have s: "sha1_count0 c + word_of_nat (8 * n) = word_of_nat (8 * n + 8 * L)" by (simp add: assms(1) add.commute)
  have less: "(word_of_nat (8 * n + 8 * L) :: uint) < word_of_nat (8 * n) \<longleftrightarrow> ?M \<le> 8 * n mod ?M + 8 * L mod ?M"
    unfolding word_less_nat_alt unat_uint by (rule carry_add(1)) simp
  have "unat (drop_bit 29 (word_of_nat n :: uint)) = n div 2 ^ 29"
    unfolding unsigned_drop_bit_eq using n by (simp add: drop_bit_eq_div unat_of_nat take_bit_nat_eq_self)
  then have d: "drop_bit 29 (word_of_nat n :: uint) = word_of_nat (8 * n div ?M)"
    unfolding word_unat_eq_iff unat_uint using n by simp
  have "(if ?M \<le> 8 * n mod ?M + 8 * L mod ?M then sha1_count1 c + 1 else sha1_count1 c) + word_of_nat (8 * n div ?M) =
      (word_of_nat (8 * n div ?M + 8 * L div ?M + (if ?M \<le> 8 * n mod ?M + 8 * L mod ?M then 1 else 0)) :: uint)"
    unfolding assms(2) by simp
  then have h: "(if ?M \<le> 8 * n mod ?M + 8 * L mod ?M then sha1_count1 c + 1 else sha1_count1 c) + word_of_nat (8 * n div ?M) =
      (word_of_nat ((8 * n + 8 * L) div ?M) :: uint)"
    unfolding carry_add(2) [of ?M "8 * n" "8 * L", OF zero_less_power [OF zero_less_numeral]] .
  have e: "8 * n + 8 * L = 8 * (L + n)" by simp
  show ?thesis unfolding sha1_count_def Let_def p s d unfolding less h unfolding e ..
qed

text \<open>The loop over the blocks; with fewer than \<open>2^32 - 63\<close> bytes its counter does not wrap.\<close>

lemma sha1_blocks_absorb:
  assumes "length input + 63 < 2 ^ 32" and "k \<le> length input"
  shows "\<exists>st' k'. sha1_blocks (word_of_nat (length input)) st input (word_of_nat k) = Some (st', word_of_nat k') \<and>
    k' \<le> length input \<and> absorb SHA1Transform st (drop k input) = (st', drop k' input)"
  using assms(2)
proof (induction "length input - k" arbitrary: k st rule: less_induct)
  case less
  have u: "unat (word_of_nat j :: uint) = j" if "j < 2 ^ 32" for j using that by (simp add: unat_uint)
  have test: "(word_of_nat k + 63 :: uint) < word_of_nat (length input) \<longleftrightarrow> k + 63 < length input"
    using u [of "k + 63"] u [of "length input"] assms(1) less.prems by (simp add: word_less_nat_alt)
  show ?case
  proof (cases "k + 63 < length input")
    case True
    then have ge: "\<not> length (drop k input) < 64" by simp
    have "absorb SHA1Transform st (drop k input) = absorb SHA1Transform (SHA1Transform st (take 64 (drop k input))) (drop (k + 64) input)"
      using ge by (subst absorb.simps) (simp add: add.commute)
    moreover have "(word_of_nat k + 64 :: uint) = word_of_nat (k + 64)" by simp
    ultimately show ?thesis using less.hyps [of "k + 64" "SHA1Transform st (take 64 (drop k input))"] True test u [of k] assms(1)
      by (subst sha1_blocks.simps) simp
  next
    case False
    then show ?thesis using test less.prems by (subst sha1_blocks.simps) (auto simp: absorb_short)
  qed
qed

lemma sha1_index: "unat (drop_bit 3 (word_of_nat (8 * n) :: uint) AND 0x3F) = n mod 64"
proof -
  have "unat (drop_bit 3 (word_of_nat (8 * n) :: uint)) = 8 * n mod 2 ^ 32 div 8"
    unfolding unsigned_drop_bit_eq unat_uint by (simp add: drop_bit_eq_div take_bit_nat_def)
  also have "\<dots> = n mod 2 ^ 29" using mult_mod_right [of 8 n "2 ^ 29"] by simp
  finally have "unat (drop_bit 3 (word_of_nat (8 * n) :: uint) AND 0x3F) = n mod 2 ^ 29 mod 64" by (simp only: unat_and_63)
  also have "\<dots> = n mod 64" by (rule mod_mod_cancel) (simp add: dvd_def)
  finally show ?thesis .
qed

lemma sha1_update_rep:
  assumes "sha1_rep c m" and "length d + 63 < 2 ^ 32"
  shows "\<exists>c'. PHP_SHA1Update c d = Some c' \<and> sha1_rep c' (m @ d)"
proof -
  define used where "used = length m mod 64"
  have r: "length (sha1_buffer c) = 64" "absorb SHA1Transform sha1_iv m = (sha1_st c, take used (sha1_buffer c))"
    "sha1_count0 c = word_of_nat (8 * length m)" "sha1_count1 c = word_of_nat (8 * length m div 2 ^ 32)"
    using assms(1) by (simp_all add: sha1_rep_def used_def)
  let ?c = "c\<lparr>sha1_count0 := word_of_nat (8 * length (m @ d)), sha1_count1 := word_of_nat (8 * length (m @ d) div 2 ^ 32)\<rparr>"
  have count: "sha1_count (word_of_nat (length d)) c = ?c" using sha1_count_adds [OF r(3,4)] assms(2) by simp
  let ?i = "drop_bit 3 (sha1_count0 c) AND 0x3F"
  have u: "unat ?i = used" unfolding r(3) used_def by (rule sha1_index)
  have used: "used < 64" by (simp add: used_def)
  have p: "64 - ?i = word_of_nat (64 - used)" using used by (simp add: of_nat_diff flip: u)
  have mod: "length (m @ d) mod 64 = (used + length d) mod 64" unfolding used_def by (simp add: mod_add_left_eq)
  have ge: "(word_of_nat (64 - used) :: uint) \<le> word_of_nat (length d) \<longleftrightarrow> 64 - used \<le> length d"
    unfolding word_le_nat_alt unat_uint using assms(2) by simp
  have pu: "unat (word_of_nat (64 - used) :: uint) = 64 - used" unfolding unat_uint by simp
  show ?thesis
  proof (cases "64 - used \<le> length d")
    case True
    define h t where "h = take (64 - used) d" and "t = drop (64 - used) d"
    have d: "d = h @ t" "length h = 64 - used" unfolding h_def t_def using True by simp_all
    let ?b = "take used (sha1_buffer c) @ h"
    have full: "absorb SHA1Transform sha1_iv (m @ h) = (SHA1Transform (sha1_st c) ?b, [])"
      using d(2) used r(1) by (intro absorb_fill [OF r(2)]) simp
    have lb: "length ?b = 64" "memcpy_at used h (sha1_buffer c) = Some ?b" using d(2) used r(1) by (simp_all add: memcpy_at_def)
    obtain st k where k: "sha1_blocks (word_of_nat (length d)) (SHA1Transform (sha1_st c) ?b) d (word_of_nat (64 - used)) = Some (st, word_of_nat k)"
      "k \<le> length d" "absorb SHA1Transform (SHA1Transform (sha1_st c) ?b) t = (st, drop k d)"
      using sha1_blocks_absorb [OF assms(2) True] unfolding t_def by blast
    have l: "length (drop k d) = length t mod 64" using absorb_rest [of SHA1Transform "SHA1Transform (sha1_st c) ?b" t] k(3) by simp
    let ?e = "drop k d @ drop (length (drop k d)) ?b"
    have ku: "unat (word_of_nat k :: uint) = k" unfolding unat_uint using k(2) assms(2) by simp
    have "memcpy_at 0 (drop k d) ?b = Some ?e" unfolding memcpy_at_def using l lb(1) by simp
    then have "PHP_SHA1Update c d = Some (?c\<lparr>sha1_buffer := ?e, sha1_st := st\<rparr>)"
      using True k(1) lb(2) unfolding PHP_SHA1Update_def Let_def count p u ge pu h_def [symmetric] by (simp add: ku)
    moreover have "absorb SHA1Transform sha1_iv ((m @ h) @ t) = (st, drop k d)"
      using full k(3) by (subst absorb_append) simp
    moreover have "used + length d = 64 + length t" using d used by simp
    then have "length (m @ d) mod 64 = length (drop k d)" unfolding mod l by simp
    moreover have "length (drop k d) \<le> 64" unfolding l by simp
    then have "length ?e = 64" unfolding length_append [of "drop k d"] length_drop [of _ ?b] lb(1) by simp
    ultimately show ?thesis using d(1) by (simp add: sha1_rep_def)
  next
    case False
    let ?b = "take used (sha1_buffer c) @ d @ drop (used + length d) (sha1_buffer c)"
    have "absorb SHA1Transform sha1_iv (m @ d) = (sha1_st c, take used (sha1_buffer c) @ d)"
      using False used r(1) by (intro absorb_more [OF r(2)]) simp
    moreover have "take (length (m @ d) mod 64) ?b = take used (sha1_buffer c) @ d" unfolding mod using False used r(1) by simp
    moreover have "PHP_SHA1Update c d = Some (?c\<lparr>sha1_buffer := ?b\<rparr>)"
      unfolding PHP_SHA1Update_def Let_def count p u ge using False used r(1) by (simp add: memcpy_at_def u)
    ultimately show ?thesis using False used r(1) by (simp add: sha1_rep_def)
  qed
qed

lemma length_sha1_encode_word [simp]: "length (sha1_encode_word w) = 4"
  by (simp add: sha1_encode_word_def)

lemma length_sha1_length [simp]: "length (sha1_length n) = 8"
  by (simp add: sha1_length_def)

lemma sha1_padding: "take (Suc (pad_zeros n)) PADDING = 0x80 # replicate (pad_zeros n) 0"
proof -
  show ?thesis using pad_zeros_le [of n] by (simp add: PADDING_def min_def)
qed

lemma sha1_final_rep:
  assumes "sha1_rep c m"
  shows "PHP_SHA1Final c = Some (fips_sha1 m)"
proof -
  let ?z = "pad_zeros (length m)"
  have c: "sha1_count0 c = word_of_nat (8 * length m)" "sha1_count1 c = word_of_nat (8 * length m div 2 ^ 32)"
    using assms by (simp_all add: sha1_rep_def)
  let ?i = "unat (drop_bit 3 (sha1_count0 c) AND 0x3F)"
  have i: "?i = length m mod 64" unfolding c(1) by (rule sha1_index)
  have bits: "sha1_encode_word (sha1_count1 c) @ sha1_encode_word (sha1_count0 c) = sha1_length (length m)"
    by (simp add: sha1_length_def c)
  have pad: "(if ?i < 56 then 56 - ?i else 120 - ?i) = Suc ?z" unfolding i pad_zeros_def by auto
  note z = pad_zeros_le [of "length m"]
  obtain c1 where c1: "PHP_SHA1Update c (0x80 # replicate ?z 0) = Some c1" "sha1_rep c1 (m @ 0x80 # replicate ?z 0)"
    using sha1_update_rep [OF assms, of "0x80 # replicate ?z 0"] z by auto
  obtain c2 where c2: "PHP_SHA1Update c1 (sha1_length (length m)) = Some c2"
    "sha1_rep c2 ((m @ 0x80 # replicate ?z 0) @ sha1_length (length m))"
    using sha1_update_rep [OF c1(2), of "sha1_length (length m)"] by auto
  have "fips_sha1 m = SHA1Encode (sha1_st c2)" using c2(2)
    by (simp add: fips_sha1_def fips_pad_def sha1_rep_def absorb_fips)
  then show ?thesis unfolding PHP_SHA1Final_def Let_def bits pad sha1_padding using c1(1) c2(1) by simp
qed

lemma sha1_init_rep: "length garbage = 64 \<Longrightarrow> sha1_rep (PHP_SHA1Init garbage) []"
  by (simp add: sha1_rep_def PHP_SHA1Init_def absorb_short)

interpretation sha1: incremental "PHP_SHA1Init (replicate 64 0)" PHP_SHA1Update PHP_SHA1Final sha1_rep fips_sha1
  "\<lambda>d. length d + 63 < 2 ^ 32"
proof
  show "sha1_rep (PHP_SHA1Init (replicate 64 0)) []" by (rule sha1_init_rep) simp
qed (use sha1_update_rep sha1_final_rep in blast)+

text \<open>
  C21: SHA-1 over any number of pieces, each shorter than \<open>2^32 - 63\<close> bytes, from a context whose
  buffer is not initialised, ends with the FIPS 180 digest of the pieces put together; no byte outside
  the input or the buffer is touched on the way.
\<close>

theorem sha1_streams:
  assumes "length garbage = 64" and "\<forall>d\<in>set ds. length d + 63 < 2 ^ 32"
  shows "\<exists>c. feed PHP_SHA1Update ds (PHP_SHA1Init garbage) = Some c \<and> PHP_SHA1Final c = Some (fips_sha1 (concat ds))"
  using sha1.feed_rep [OF sha1_init_rep [OF assms(1)] assms(2)] sha1_final_rep by fastforce

theorem sha1_streams_witness:
  "\<exists>c. feed PHP_SHA1Update [[97], [], replicate 70 98] (PHP_SHA1Init (replicate 64 7)) = Some c \<and>
     PHP_SHA1Final c = Some (fips_sha1 (97 # replicate 70 98))"
  using sha1_streams [of "replicate 64 7" "[[97], [], replicate 70 98]"] by simp

end
