(* ===== verification/Crc32.thy ===== *)
theory Crc32
  imports Bytes
begin

text \<open>
  \<open>ext/standard/crc32.c\<close> and the table of \<open>crc32.h\<close>; and the checksum as what is left of the message, as a
  polynomial over the field of two elements, after division by the AUTODIN II polynomial.
\<close>

unbundle bit_operations_syntax

subsection \<open>The code\<close>

definition crc32tab :: "uint list" where
  "crc32tab =
    [0x00000000, 0x77073096, 0xee0e612c, 0x990951ba, 0x076dc419, 0x706af48f, 0xe963a535, 0x9e6495a3,
     0x0edb8832, 0x79dcb8a4, 0xe0d5e91e, 0x97d2d988, 0x09b64c2b, 0x7eb17cbd, 0xe7b82d07, 0x90bf1d91,
     0x1db71064, 0x6ab020f2, 0xf3b97148, 0x84be41de, 0x1adad47d, 0x6ddde4eb, 0xf4d4b551, 0x83d385c7,
     0x136c9856, 0x646ba8c0, 0xfd62f97a, 0x8a65c9ec, 0x14015c4f, 0x63066cd9, 0xfa0f3d63, 0x8d080df5,
     0x3b6e20c8, 0x4c69105e, 0xd56041e4, 0xa2677172, 0x3c03e4d1, 0x4b04d447, 0xd20d85fd, 0xa50ab56b,
     0x35b5a8fa, 0x42b2986c, 0xdbbbc9d6, 0xacbcf940, 0x32d86ce3, 0x45df5c75, 0xdcd60dcf, 0xabd13d59,
     0x26d930ac, 0x51de003a, 0xc8d75180, 0xbfd06116, 0x21b4f4b5, 0x56b3c423, 0xcfba9599, 0xb8bda50f,
     0x2802b89e, 0x5f058808, 0xc60cd9b2, 0xb10be924, 0x2f6f7c87, 0x58684c11, 0xc1611dab, 0xb6662d3d,
     0x76dc4190, 0x01db7106, 0x98d220bc, 0xefd5102a, 0x71b18589, 0x06b6b51f, 0x9fbfe4a5, 0xe8b8d433,
     0x7807c9a2, 0x0f00f934, 0x9609a88e, 0xe10e9818, 0x7f6a0dbb, 0x086d3d2d, 0x91646c97, 0xe6635c01,
     0x6b6b51f4, 0x1c6c6162, 0x856530d8, 0xf262004e, 0x6c0695ed, 0x1b01a57b, 0x8208f4c1, 0xf50fc457,
     0x65b0d9c6, 0x12b7e950, 0x8bbeb8ea, 0xfcb9887c, 0x62dd1ddf, 0x15da2d49, 0x8cd37cf3, 0xfbd44c65,
     0x4db26158, 0x3ab551ce, 0xa3bc0074, 0xd4bb30e2, 0x4adfa541, 0x3dd895d7, 0xa4d1c46d, 0xd3d6f4fb,
     0x4369e96a, 0x346ed9fc, 0xad678846, 0xda60b8d0, 0x44042d73, 0x33031de5, 0xaa0a4c5f, 0xdd0d7cc9,
     0x5005713c, 0x270241aa, 0xbe0b1010, 0xc90c2086, 0x5768b525, 0x206f85b3, 0xb966d409, 0xce61e49f,
     0x5edef90e, 0x29d9c998, 0xb0d09822, 0xc7d7a8b4, 0x59b33d17, 0x2eb40d81, 0xb7bd5c3b, 0xc0ba6cad,
     0xedb88320, 0x9abfb3b6, 0x03b6e20c, 0x74b1d29a, 0xead54739, 0x9dd277af, 0x04db2615, 0x73dc1683,
     0xe3630b12, 0x94643b84, 0x0d6d6a3e, 0x7a6a5aa8, 0xe40ecf0b, 0x9309ff9d, 0x0a00ae27, 0x7d079eb1,
     0xf00f9344, 0x8708a3d2, 0x1e01f268, 0x6906c2fe, 0xf762575d, 0x806567cb, 0x196c3671, 0x6e6b06e7,
     0xfed41b76, 0x89d32be0, 0x10da7a5a, 0x67dd4acc, 0xf9b9df6f, 0x8ebeeff9, 0x17b7be43, 0x60b08ed5,
     0xd6d6a3e8, 0xa1d1937e, 0x38d8c2c4, 0x4fdff252, 0xd1bb67f1, 0xa6bc5767, 0x3fb506dd, 0x48b2364b,
     0xd80d2bda, 0xaf0a1b4c, 0x36034af6, 0x41047a60, 0xdf60efc3, 0xa867df55, 0x316e8eef, 0x4669be79,
     0xcb61b38c, 0xbc66831a, 0x256fd2a0, 0x5268e236, 0xcc0c7795, 0xbb0b4703, 0x220216b9, 0x5505262f,
     0xc5ba3bbe, 0xb2bd0b28, 0x2bb45a92, 0x5cb36a04, 0xc2d7ffa7, 0xb5d0cf31, 0x2cd99e8b, 0x5bdeae1d,
     0x9b64c2b0, 0xec63f226, 0x756aa39c, 0x026d930a, 0x9c0906a9, 0xeb0e363f, 0x72076785, 0x05005713,
     0x95bf4a82, 0xe2b87a14, 0x7bb12bae, 0x0cb61b38, 0x92d28e9b, 0xe5d5be0d, 0x7cdcefb7, 0x0bdbdf21,
     0x86d3d2d4, 0xf1d4e242, 0x68ddb3f8, 0x1fda836e, 0x81be16cd, 0xf6b9265b, 0x6fb077e1, 0x18b74777,
     0x88085ae6, 0xff0f6a70, 0x66063bca, 0x11010b5c, 0x8f659eff, 0xf862ae69, 0x616bffd3, 0x166ccf45,
     0xa00ae278, 0xd70dd2ee, 0x4e048354, 0x3903b3c2, 0xa7672661, 0xd06016f7, 0x4969474d, 0x3e6e77db,
     0xaed16a4a, 0xd9d65adc, 0x40df0b66, 0x37d83bf0, 0xa9bcae53, 0xdebb9ec5, 0x47b2cf7f, 0x30b5ffe9,
     0xbdbdf21c, 0xcabac28a, 0x53b39330, 0x24b4a3a6, 0xbad03605, 0xcdd70693, 0x54de5729, 0x23d967bf,
     0xb3667a2e, 0xc4614ab8, 0x5d681b02, 0x2a6f2b94, 0xb40bbe37, 0xc30c8ea1, 0x5a05df1b, 0x2d02ef8d]"

text \<open>One turn of the loop; the character is signed.\<close>

definition crc32_char :: "byte \<Rightarrow> uint \<Rightarrow> uint" where
  "crc32_char p crc = (drop_bit 8 crc AND 0x00FFFFFF) XOR crc32tab ! unat ((crc XOR scast p) AND 0xFF)"

definition php_if_crc32 :: "byte list \<Rightarrow> ulong" where
  "php_if_crc32 p = (let crcinit = 0; crc = crcinit XOR 0xFFFFFFFF; crc = fold crc32_char p crc
     in ucast (crc XOR 0xFFFFFFFF))"

subsection \<open>One bit at a time\<close>

text \<open>The coefficient of the highest power is the lowest bit of the word.\<close>

definition crc_bit :: "bool \<Rightarrow> uint \<Rightarrow> uint" where
  "crc_bit b c = (if bit c 0 \<noteq> b then drop_bit 1 c XOR 0xEDB88320 else drop_bit 1 c)"

definition bits_of :: "byte \<Rightarrow> bool list" where
  "bits_of p = map (bit p) [0..<8]"

abbreviation crc_zeros :: "nat \<Rightarrow> uint \<Rightarrow> uint" where
  "crc_zeros n \<equiv> crc_bit False ^^ n"

lemma crc_bit_linear: "crc_bit False (v XOR w) = crc_bit False v XOR crc_bit False w"
  by (rule bit_word_eqI) (auto simp: crc_bit_def bit_simps)

lemma crc_zeros_linear: "crc_zeros n (v XOR w) = crc_zeros n v XOR crc_zeros n w"
  by (induction n) (simp_all add: crc_bit_linear)

subsection \<open>The table\<close>

text \<open>Each half of the table is the other one with the entry of its first index added.\<close>

lemma crc32tab_doubling:
  "k \<in> {0, 1, 2, 3, 4, 5, 6, 7} \<Longrightarrow>
     take (2 ^ k) (drop (2 ^ k) crc32tab) = map (\<lambda>w. crc32tab ! (2 ^ k) XOR w) (take (2 ^ k) crc32tab)"
  by (auto simp: crc32tab_def)

lemma crc32tab_powers: "k \<in> {0, 1, 2, 3, 4, 5, 6, 7} \<Longrightarrow> crc32tab ! (2 ^ k) = crc_zeros 8 (2 ^ k)"
proof -
  have "list_all (\<lambda>k. crc32tab ! (2 ^ k) = crc_zeros 8 (2 ^ k)) [0, 1, 2, 3, 4, 5, 6, 7]" by code_simp
  then show "k \<in> {0, 1, 2, 3, 4, 5, 6, 7} \<Longrightarrow> crc32tab ! (2 ^ k) = crc_zeros 8 (2 ^ k)" by auto
qed

lemma length_crc32tab: "length crc32tab = 256"
  by (simp add: crc32tab_def)

lemma crc32tab_bits: "k \<le> 8 \<Longrightarrow> n < 2 ^ k \<Longrightarrow> crc32tab ! n = crc_zeros 8 (word_of_nat n)"
proof (induction k arbitrary: n)
  case 0
  then show ?case by (simp add: crc32tab_def eval_nat_numeral crc_bit_def)
next
  case (Suc k)
  show ?case
  proof (cases "n < 2 ^ k")
    case True
    then show ?thesis using Suc by simp
  next
    case False
    define j where "j = n - 2 ^ k"
    have j: "j < 2 ^ k" "n = 2 ^ k + j" using False Suc.prems by (simp_all add: j_def)
    have k: "k \<in> {0, 1, 2, 3, 4, 5, 6, 7}" using Suc.prems(1) by auto
    have "(2 :: nat) ^ Suc k \<le> 2 ^ 8" using Suc.prems(1) by (rule power_increasing) simp
    then have l: "2 ^ k + j < length crc32tab" "j < length crc32tab" using j(1) by (simp_all add: length_crc32tab)
    have "take (2 ^ k) (drop (2 ^ k) crc32tab) ! j = crc32tab ! (2 ^ k) XOR crc32tab ! j"
      unfolding crc32tab_doubling [OF k] using j(1) l by simp
    then have "crc32tab ! n = crc32tab ! (2 ^ k) XOR crc32tab ! j" using j l by simp
    also have "crc32tab ! (2 ^ k) XOR crc32tab ! j = crc_zeros 8 (2 ^ k XOR word_of_nat j)" using crc32tab_powers [OF k] Suc j(1) by (simp add: crc_zeros_linear)
    finally have t: "crc32tab ! n = crc_zeros 8 (2 ^ k XOR word_of_nat j)" .
    have "\<not> bit j k" using j(1) by (simp add: bit_iff_odd)
    then have "(2 ^ k AND word_of_nat j :: uint) = 0" by (intro bit_word_eqI) (auto simp: bit_simps)
    then have "(2 ^ k XOR word_of_nat j :: uint) = 2 ^ k + word_of_nat j" by (rule disjunctive_add_eq_xor [symmetric])
    then show ?thesis using t j(2) by simp
  qed
qed

lemma crc32tab_nth: "unat b < 256 \<Longrightarrow> crc32tab ! unat b = crc_zeros 8 b"
  using crc32tab_bits [of 8 "unat b"] by simp

text \<open>A table lookup feeds eight bits.\<close>

lemma crc_bit_add: "crc_bit False (c XOR w) = crc_bit (bit w 0) c XOR drop_bit 1 w"
  by (rule bit_word_eqI) (auto simp: crc_bit_def bit_simps)

lemma crc_zeros_feed: "crc_zeros n (c XOR w) = fold crc_bit (map (bit w) [0..<n]) c XOR drop_bit n w"
proof (induction n)
  case (Suc n)
  have "crc_zeros (Suc n) (c XOR w) = crc_bit (bit (drop_bit n w) 0) (fold crc_bit (map (bit w) [0..<n]) c) XOR drop_bit 1 (drop_bit n w)"
    by (simp add: Suc crc_bit_add)
  then show ?case by (simp add: bit_drop_bit_eq)
qed simp

lemma crc_zeros_low:
  assumes "take_bit n w = 0"
  shows "crc_zeros n w = drop_bit n w"
proof -
  have b: "\<not> bit w i" if "i < n" for i using assms that by (metis bit_take_bit_iff bit_0_eq bot_apply bot_bool_def)
  have "fold crc_bit (map (bit w) [0..<n]) 0 = 0" using b
  proof (induction n)
    case (Suc n)
    then show ?case by (simp add: crc_bit_def)
  qed simp
  then show ?thesis using crc_zeros_feed [of n 0 w] by simp
qed

lemma drop_push_drop: "drop_bit 8 (push_bit 8 (drop_bit 8 x)) = drop_bit 8 (x :: uint)"
proof (rule bit_word_eqI)
  fix n
  have "bit x (8 + n) \<Longrightarrow> 8 + n < 32" using bit_imp_le_length by fastforce
  then show "bit (drop_bit 8 (push_bit 8 (drop_bit 8 x))) n \<longleftrightarrow> bit (drop_bit 8 x) n" by (auto simp: bit_simps)
qed

lemma crc32_char_bits: "crc32_char p c = fold crc_bit (bits_of p) c"
proof -
  let ?x = "c XOR ucast p"
  have m: "(0xFF :: uint) = mask 8" "(0x00FFFFFF :: uint) = mask 24" by (simp_all add: mask_eq_exp_minus_1)
  have s: "(c XOR scast p) AND 0xFF = take_bit 8 ?x" unfolding m(1)
    by (rule bit_word_eqI) (auto simp: bit_simps)
  have "bit c (8 + n) \<longleftrightarrow> n < 24 \<and> bit c (8 + n)" "\<not> bit p (8 + n)" for n
    by (auto dest: bit_imp_le_length)
  then have d: "drop_bit 8 c AND 0x00FFFFFF = drop_bit 8 ?x" unfolding m(2)
    by (intro bit_word_eqI) (simp add: bit_simps, metis)
  have "unat (take_bit 8 ?x) < 256" unfolding unsigned_take_bit_eq by (simp add: take_bit_nat_def)
  then have t: "crc32_char p c = drop_bit 8 ?x XOR crc_zeros 8 (take_bit 8 ?x)"
    unfolding crc32_char_def s d by (simp add: crc32tab_nth)
  have "take_bit 8 (push_bit 8 (drop_bit 8 ?x)) = 0" by (rule bit_word_eqI) (auto simp: bit_simps)
  then have "crc_zeros 8 (push_bit 8 (drop_bit 8 ?x)) = drop_bit 8 (push_bit 8 (drop_bit 8 ?x))" by (rule crc_zeros_low)
  also have "\<dots> = drop_bit 8 ?x" by (rule drop_push_drop)
  finally have low: "crc_zeros 8 (push_bit 8 (drop_bit 8 ?x)) = drop_bit 8 ?x" .
  note t
  also have "drop_bit 8 ?x XOR crc_zeros 8 (take_bit 8 ?x) = crc_zeros 8 (push_bit 8 (drop_bit 8 ?x)) XOR crc_zeros 8 (take_bit 8 ?x)" unfolding low ..
  also have "crc_zeros 8 (push_bit 8 (drop_bit 8 ?x)) XOR crc_zeros 8 (take_bit 8 ?x) = crc_zeros 8 ?x"
    unfolding crc_zeros_linear [symmetric] by (rule arg_cong [of _ _ "crc_zeros 8"], rule bit_word_eqI) (auto simp: bit_simps)
  also have "\<dots> = fold crc_bit (map (bit (ucast p :: uint)) [0..<8]) c XOR drop_bit 8 (ucast p)" by (rule crc_zeros_feed)
  also have "drop_bit 8 (ucast p :: uint) = 0" by (rule bit_word_eqI) (auto simp: bit_simps dest: bit_imp_le_length)
  also have "map (bit (ucast p :: uint)) [0..<8] = bits_of p" by (simp add: bits_of_def bit_simps)
  finally show ?thesis by simp
qed

subsection \<open>Division of polynomials\<close>

text \<open>A polynomial over two elements is a number, the coefficient of \<open>x^k\<close> its bit \<open>k\<close>.\<close>

definition autodin :: int where
  "autodin = fold (\<lambda>k g. g XOR 2 ^ k) [32, 26, 23, 22, 16, 12, 11, 10, 8, 7, 5, 4, 2, 1, 0] 0"

text \<open>The product with the polynomial whose coefficients are listed from the highest down.\<close>

definition autodin_times :: "bool list \<Rightarrow> int" where
  "autodin_times q = fold (\<lambda>b m. 2 * m XOR (if b then autodin else 0)) q 0"

definition remainder :: "int \<Rightarrow> int \<Rightarrow> bool" where
  "remainder m r \<longleftrightarrow> 0 \<le> r \<and> r < 2 ^ 32 \<and> (\<exists>q. m = autodin_times q XOR r)"

definition polynomial :: "bool list \<Rightarrow> int" where
  "polynomial bs = fold (\<lambda>b m. 2 * m + of_bool b) bs 0"

lemma autodin_value: "autodin = 0x104C11DB7"
  by (simp add: autodin_def)

lemma autodin_bit: "bit autodin k \<Longrightarrow> k \<le> 32"
proof -
  have "autodin = take_bit 33 autodin" by (simp add: autodin_value take_bit_eq_mod)
  then show "bit autodin k \<Longrightarrow> k \<le> 32" by (metis bit_take_bit_iff less_Suc_eq_le numeral_eq_Suc pred_numeral_simps(3))
qed

lemma double_xor: "2 * m XOR 2 * n = 2 * (m XOR n :: int)"
  using push_bit_xor [of 1 m n] by (simp add: push_bit_eq_mult mult.commute)

lemma bit_double: "bit (2 * m :: int) (Suc k) = bit m k"
  by (simp add: bit_Suc)

lemma autodin_times_snoc: "autodin_times (q @ [b]) = 2 * autodin_times q XOR (if b then autodin else 0)"
  by (simp add: autodin_times_def)

text \<open>A multiple other than 0 has a coefficient at \<open>x^32\<close> or above: the remainder is unique.\<close>

lemma autodin_times_degree: "autodin_times q = 0 \<or> (\<exists>k\<ge>32. bit (autodin_times q) k)"
proof (induction q rule: rev_induct)
  case (snoc b q)
  from snoc show ?case
  proof
    assume z: "autodin_times q = 0"
    have "bit autodin 32" by (simp add: autodin_value bit_iff_odd)
    then show ?thesis using z by (auto simp: autodin_times_snoc)
  next
    assume "\<exists>k\<ge>32. bit (autodin_times q) k"
    then obtain k where "32 \<le> k" "bit (autodin_times q) k" by auto
    then have "bit (autodin_times (q @ [b])) (Suc k)" using autodin_bit [of "Suc k"] by (auto simp: autodin_times_snoc bit_xor_iff bit_double)
    then show ?thesis using \<open>32 \<le> k\<close> by (intro disjI2 exI [of _ "Suc k"]) simp
  qed
qed (simp add: autodin_times_def)

lemma autodin_times_pad: "autodin_times (replicate n False @ q) = autodin_times q"
proof -
  have "fold (\<lambda>b m. 2 * m XOR (if b then autodin else 0)) (replicate n False) 0 = 0" by (induction n) simp_all
  then show ?thesis by (simp add: autodin_times_def)
qed

lemma xor_swap: "(a XOR b) XOR (c XOR d) = (a XOR c) XOR (b XOR d :: int)"
  by (simp add: ac_simps)

lemma autodin_times_add_same:
  "length q = length q' \<Longrightarrow> autodin_times q XOR autodin_times q' = autodin_times (map2 (\<noteq>) q q')"
proof (induction q q' rule: rev_induct2)
  case (4 b q b' q')
  then have "2 * autodin_times q XOR 2 * autodin_times q' = 2 * autodin_times (map2 (\<noteq>) q q')" by (simp add: double_xor)
  then show ?case using 4 xor_swap [of "2 * autodin_times q" _ "2 * autodin_times q'"] by (simp add: autodin_times_snoc)
qed (simp_all add: autodin_times_def)

lemma autodin_times_add: "\<exists>q''. autodin_times q XOR autodin_times q' = autodin_times q''"
proof -
  let ?n = "max (length q) (length q')"
  have "autodin_times (replicate (?n - length q) False @ q) XOR autodin_times (replicate (?n - length q') False @ q') =
      autodin_times (map2 (\<noteq>) (replicate (?n - length q) False @ q) (replicate (?n - length q') False @ q'))"
    by (rule autodin_times_add_same) simp
  then show ?thesis unfolding autodin_times_pad by blast
qed

lemma remainder_unique:
  assumes "remainder m r" and "remainder m r'"
  shows "r = r'"
proof -
  obtain q where "m = autodin_times q XOR r" using assms(1) by (auto simp: remainder_def)
  moreover obtain q' where "m = autodin_times q' XOR r'" using assms(2) by (auto simp: remainder_def)
  moreover have "a XOR (a XOR b) = b" for a b :: int by (simp flip: xor.assoc)
  ultimately have "r = autodin_times q XOR m" "r' = autodin_times q' XOR m" by metis+
  then have "r XOR r' = (autodin_times q XOR m) XOR (autodin_times q' XOR m)" by simp
  also have "\<dots> = autodin_times q XOR autodin_times q'" by (metis xor.assoc xor.commute xor.right_neutral xor_self_eq)
  finally obtain q'' where q: "r XOR r' = autodin_times q''" using autodin_times_add by metis
  have "take_bit 32 r = r" "take_bit 32 r' = r'" using assms by (simp_all add: remainder_def take_bit_int_eq_self_iff)
  then have "\<not> bit (r XOR r') k" if "32 \<le> k" for k using that by (metis bit_take_bit_iff bit_xor_iff not_le)
  then have "r XOR r' = 0" using autodin_times_degree [of q''] unfolding q by auto
  then show ?thesis by (metis xor.assoc xor.left_neutral xor.right_neutral xor_self_eq)
qed

subsection \<open>The checksum is a remainder\<close>

text \<open>The word with its bits reversed is the polynomial.\<close>

definition reflected :: "uint \<Rightarrow> int" where
  "reflected c = uint (word_reverse c)"

lemma bit_reflected: "bit (reflected c) k \<longleftrightarrow> k < 32 \<and> bit c (31 - k)"
  by (auto simp: reflected_def bit_simps)

lemma reflected_xor: "reflected (v XOR w) = reflected v XOR reflected w"
  by (rule bit_eqI) (auto simp: bit_reflected bit_simps)

lemma bit_power_literals: "bit (4294967296 :: int) k \<longleftrightarrow> k = 32" "bit (2147483648 :: int) k \<longleftrightarrow> k = 31"
  using bit_exp_iff [of 32 k, where ?'a = int] bit_exp_iff [of 31 k, where ?'a = int] by (simp_all add: eq_commute)

lemma reflected_shift: "reflected (drop_bit 1 c) = 2 * reflected c XOR (if bit c 0 then 2 ^ 32 else 0)"
proof (rule bit_eqI)
  fix k
  have "\<not> bit c 32" by (auto dest: bit_imp_le_length)
  then show "bit (reflected (drop_bit 1 c)) k = bit (2 * reflected c XOR (if bit c 0 then 2 ^ 32 else 0)) k"
  proof (cases k)
    case (Suc i)
    then have "i < 31 \<Longrightarrow> Suc (30 - i) = 31 - i" by simp
    then show ?thesis using Suc \<open>\<not> bit c 32\<close>
      by (cases "i < 31"; cases "i = 31") (auto simp: bit_reflected bit_double bit_simps bit_power_literals)
  qed (auto simp: bit_reflected bit_simps bit_power_literals)
qed

lemma reflected_autodin: "reflected 0xEDB88320 = autodin XOR 2 ^ 32"
  unfolding reflected_def autodin_value by code_simp

lemma reflected_crc_bit:
  "reflected (crc_bit b c) = 2 * reflected c XOR (if b then 2 ^ 32 else 0) XOR (if bit c 0 \<noteq> b then autodin else 0)"
proof (cases "bit c 0 \<noteq> b")
  case True
  then have "crc_bit b c = drop_bit 1 c XOR 0xEDB88320" by (simp add: crc_bit_def)
  then have "reflected (crc_bit b c) = (2 * reflected c XOR (if bit c 0 then 2 ^ 32 else 0)) XOR (autodin XOR 2 ^ 32)"
    by (simp only: reflected_xor reflected_shift reflected_autodin)
  then show ?thesis using True by (cases b) (simp_all add: ac_simps)
next
  case False
  then have "crc_bit b c = drop_bit 1 c" by (simp add: crc_bit_def)
  then show ?thesis using False by (simp only: reflected_shift) simp
qed

lemma polynomial_snoc: "polynomial (bs @ [b]) = 2 * polynomial bs + of_bool b"
  by (simp add: polynomial_def)

lemma crc_bits_remainder:
  "\<exists>q. push_bit 32 (polynomial bs) XOR push_bit (length bs) (reflected c) = autodin_times q XOR reflected (fold crc_bit bs c)"
proof (induction bs rule: rev_induct)
  case Nil
  show ?case by (intro exI [of _ "[]"]) (simp add: polynomial_def autodin_times_def)
next
  case (snoc b bs)
  let ?r = "fold crc_bit bs c"
  obtain q where q: "push_bit 32 (polynomial bs) XOR push_bit (length bs) (reflected c) = autodin_times q XOR reflected ?r"
    using snoc by auto
  have "push_bit 32 (polynomial (bs @ [b])) = 2 * push_bit 32 (polynomial bs) XOR (if b then 2 ^ 32 else 0)"
    using push_bit_xor [of 32 "2 * polynomial bs" 1]
    by (cases b) (simp_all add: polynomial_snoc push_bit_eq_mult xor_one_eq)
  moreover have "push_bit (length (bs @ [b])) (reflected c) = 2 * push_bit (length bs) (reflected c)"
    by (simp add: push_bit_eq_mult)
  moreover have "autodin_times (q @ [bit ?r 0 \<noteq> b]) XOR reflected (fold crc_bit (bs @ [b]) c) =
      2 * (autodin_times q XOR reflected ?r) XOR (if b then 2 ^ 32 else 0)"
    by (auto simp: autodin_times_snoc reflected_crc_bit ac_simps simp flip: double_xor)
  moreover have "(2 * a XOR x) XOR 2 * b = 2 * (a XOR b) XOR x" for a b x :: int
    by (simp add: xor.assoc xor.commute xor.left_commute flip: double_xor)
  ultimately have "push_bit 32 (polynomial (bs @ [b])) XOR push_bit (length (bs @ [b])) (reflected c) =
      autodin_times (q @ [bit ?r 0 \<noteq> b]) XOR reflected (fold crc_bit (bs @ [b]) c)" using q by metis
  then show ?case ..
qed

lemma reflected_bounded: "0 \<le> reflected c" "reflected c < 2 ^ 32"
  using uint_lt2p [of "word_reverse c"] by (simp_all add: reflected_def)

lemma crc32_chars_bits: "fold crc32_char p c = fold crc_bit (concat (map bits_of p)) c"
  by (induction p arbitrary: c) (simp_all add: crc32_char_bits)

lemma length_bits: "length (concat (map bits_of p)) = 8 * length p"
  by (induction p) (simp_all add: bits_of_def)

text \<open>
  C22: \<open>crc32\<close> of a string is a 32-bit number, and it is the CRC of the AUTODIN II polynomial: read from its
  lowest bit up and complemented, it is the one remainder left by the message (each byte from its lowest
  bit up, its first 32 bits complemented, followed by 32 zeros) when it is divided by the polynomial.
\<close>

theorem crc32_is_remainder:
  "php_if_crc32 p < 2 ^ 32 \<and>
     (remainder (push_bit 32 (polynomial (concat (map bits_of p))) XOR push_bit (8 * length p) (mask 32)) r \<longleftrightarrow>
       r = reflected (ucast (php_if_crc32 p)) XOR mask 32)"
proof -
  let ?c = "fold crc32_char p 0xFFFFFFFF" and ?m = "push_bit 32 (polynomial (concat (map bits_of p))) XOR push_bit (8 * length p) (mask 32)"
  have ones: "reflected 0xFFFFFFFF = mask 32" unfolding reflected_def by code_simp
  have crc: "php_if_crc32 p = ucast (?c XOR 0xFFFFFFFF)" by (simp add: php_if_crc32_def Let_def)
  have u: "ucast (ucast x :: ulong) = x" for x :: uint by (rule bit_word_eqI) (auto simp: bit_simps)
  have r: "reflected (ucast (php_if_crc32 p)) XOR mask 32 = reflected ?c"
    unfolding crc u reflected_xor ones xor.assoc xor_self_eq xor.right_neutral ..
  have "remainder ?m (reflected ?c)"
    using crc_bits_remainder [of "concat (map bits_of p)" "0xFFFFFFFF"] reflected_bounded [of ?c]
    unfolding remainder_def length_bits ones crc32_chars_bits by simp
  moreover have "php_if_crc32 p < 2 ^ 32" unfolding crc word_less_nat_alt
    using unsigned_less [of "?c XOR 0xFFFFFFFF", where ?'a = nat]
    by (simp add: unsigned_ucast_eq le_less_trans [OF take_bit_nat_less_eq_self])
  ultimately show ?thesis unfolding r using remainder_unique by blast
qed


end
