(* ===== verification/Spec2Isabelle.thy ===== *)
theory Spec2Isabelle
  imports Zend_Stack_Correct Zend_Llist_Correct Zend_Hash_Func_Correct Zend_Hash_Props Zend_Strcmp_Correct
    Url_Codec Base64_Correct Uuencode_Correct Zend_Objects_Props Calendar_Props Spl_Heap_Props Levenshtein Zend_List_Correct Zend_Gc_Props Zend_Mm_Props Md5_Correct Sha1_Correct Crc32
begin

text \<open>
  A verification development for the PHP interpreter of the App Engine SDK (\<open>php-src/\<close>): the data
  structures and the memory bookkeeping its engine rests on (\<open>php-src/Zend/\<close>) and library routines
  built on them (\<open>php-src/ext/\<close>), translated function by function from the C code into
  executable HOL definitions, with the theorems that make them correct.

  \<^bold>\<open>How the parts interact.\<close> Every array, symbol table and object table of PHP is a hash table
  (\<open>zend_hash.c\<close>); its numeric keys come from \<open>zend_hash.h\<close>, it is sorted by the quicksort of
  \<open>zend_qsort.c\<close>, and the resource lists (\<open>zend_list.c\<close>) are hash tables whose destructor releases
  the resource. Objects live in the objects store (\<open>zend_objects_API.c\<close>), counted by handle. The
  cycle collector (\<open>zend_gc.c\<close>) walks zvals, tables and objects when counts alone do not free
  them. Lists and stacks (\<open>zend_llist.c\<close>, \<open>zend_stack.c\<close>, \<open>zend_ptr_stack.c\<close>) serve the compiler
  and the executor. Below all of them is the memory manager (\<open>zend_alloc.c\<close>), which divides segments of
  storage into blocks. The extensions are clients: heaps (\<open>ext/spl\<close>), calendars (\<open>ext/calendar\<close>),
  string encodings, digests and distances (\<open>ext/standard\<close>).

  \<^bold>\<open>Conventions.\<close> (\<open>Zend_Prelude\<close>, \<open>Bytes\<close>.) C integers are words of their width, or \<open>int\<close> with
  \<open>c_int\<close> where the code relies on signed arithmetic not overflowing; a pointer is \<open>nat option\<close>;
  nodes allocated one by one live in an arena, a partial map whose addresses are not reused; an
  array is a list of slots read through \<open>slot\<close>, \<open>None\<close> outside of it. A definition returns an
  \<open>option\<close>: \<open>None\<close> is undefined behaviour or a loop that does not end, so that every theorem that
  says \<open>f x = Some y\<close> says that the code returns and touches only memory it owns. Failures the
  code reports are values. In all components but the memory manager itself allocation succeeds. Callbacks are function parameters; what theorems
  ask of them is a hypothesis with a name (\<open>sign_order\<close>, \<open>compare_order\<close>, for storage handlers
  \<open>fresh_storage\<close>, \<open>resizes\<close>) and
  every such theorem has a witness with concrete callbacks.

  \<^bold>\<open>Theories, components and what their lemmas show.\<close>

  \<^item> \<open>Zend_Qsort\<close>, \<open>Zend_Qsort_Correct\<close>: \<open>zend_qsort\<close> with its explicit stack of segments and the
    byte-wise swap. It permutes for any comparison, sorts for a total preorder
    (locale \<open>compare_order\<close>), and 64 stack entries are enough since the larger part is put off.
  \<^item> \<open>Zend_Llist\<close>, \<open>Zend_Stack\<close> with their \<open>_Correct\<close> theories: all operations. Representation
    relations to HOL lists; all three structures interpret the locale \<open>lifo\<close> (\<open>Lifo\<close>), whose lemmas
    give the behaviour of any run of pushes and pops. \<open>Dll\<close> has the lemmas on doubly linked
    segments shared with the hash table.
  \<^item> \<open>Zend_Hash_Func\<close>: DJBX33A against its fold; \<open>handle_numeric\<close> against decimal notation.
  \<^item> \<open>Zend_Hash\<close> (look-up, update, insertion, deletion, growth, destruction) and
    \<open>Zend_Hash_Iter\<close> (apply functions, copy, merge, positions, sorting, comparing): the table
    bucket by bucket. \<open>Zend_Hash_Inv\<close> has the invariant and the meaning of a table as an
    association list in insertion order; \<open>Hash_Chains\<close>, \<open>_Insert\<close>, \<open>_Delete\<close>, \<open>_Destroy\<close>, \<open>_Correct\<close>,
    \<open>_Sort_Correct\<close>, \<open>_Copy_Correct\<close>, \<open>_Iter_Correct\<close> that every operation keeps it and what
    it does to the list. \<open>Zend_Hash_Store\<close> interprets the locale \<open>keyed_store\<close> (\<open>Keyed_Store\<close>) in
    four ways: string keys, prehashed keys, numbers, symbol tables.
  \<^item> \<open>Zend_List\<close>: resources. A run of its operations simulates a counted map of resources (locale
    \<open>simulation\<close>), each destroyed once.
  \<^item> \<open>Zend_Objects\<close>: the objects store. The invariant covers the free list and the events of each
    handle (created, destructed, freed), for runs in which callbacks run operations themselves.
  \<^item> \<open>Zend_Gc\<close>: possible roots, their buffer, the three phases, the destruction of the
    garbage. \<open>Gc_Graph\<close> is trial deletion on a counted graph, a locale \<open>rc_graph\<close> with one
    contract per traversal (\<open>paint\<close>, \<open>scanned\<close>, \<open>gather\<close>) and their composition; \<open>Zend_Gc_Heap\<close>
    interprets it on the graph of a heap, and \<open>_Mark\<close>, \<open>_Scan\<close>, \<open>_Gather\<close> show that the C
    functions end and keep the contracts. \<open>_Roots\<close>, \<open>_Buffer\<close>, \<open>_Pool\<close> are about the root buffer,
    \<open>_Phases\<close>, \<open>_Correct\<close>, \<open>_Props\<close> about the three phases: what they find to be garbage, that
    nothing in use is, and that unreachable cycles are.
  \<^item> \<open>Zend_Mm\<close>, \<open>Zend_Mm_Alloc\<close>: the memory manager of a 64-bit release build with its checks of
    linkage, on a memory of bytes and block headers: free lists, trees of large blocks, cache, segments. \<open>_Words\<close>
    has the arithmetic and the rings; \<open>_Trie\<close>, \<open>_Free\<close>, \<open>_Search\<close> are about the free lists: what insertion
    and removal make of the set of free blocks, and that the search is a best fit. \<open>_Heap\<close>, \<open>_Blocks\<close> have
    the invariant (\<open>mm_ok\<close>: blocks tile the segments, headers agree, free lists and cache hold the blocks that
    are not in use) and the locale \<open>free_sink\<close>, a list that a free block can be given to, interpreted on the
    free lists, the rest list and the choice between them. \<open>_Free_Correct\<close>, \<open>_Alloc_Correct\<close>,
    \<open>_Realloc_Correct\<close> show that the operations end and keep it, \<open>_Runs\<close> the same of the start, of the end of a
    request and of the runs of a client, which \<open>_Props\<close> is about.
  \<^item> \<open>Zend_Strcmp\<close>: the binary-safe comparisons of \<open>zend_operators.c\<close> against the lexicographic order.
  \<^item> \<open>Url_Codec\<close>, \<open>Base64\<close>, \<open>Uuencode\<close>: encoders and decoders, each an interpretation of the
    locale \<open>codec\<close> (\<open>Bytes\<close>): decoding undoes encoding, inside the buffers. \<open>Sextets\<close> has the
    arithmetic base64 and uuencode share.
  \<^item> \<open>Md5\<close>, \<open>Sha1\<close>, \<open>Crc32\<close>: digests fed in pieces against RFC 1321 and FIPS 180, both
    interpretations of the locale \<open>incremental\<close> (\<open>Block_Digest\<close>); the table-driven CRC-32 against the
    division of polynomials.
  \<^item> \<open>Levenshtein\<close>: the two-row loop against the least cost of an edit script.
  \<^item> \<open>Calendar\<close>: serial day numbers of three calendars, the locale \<open>calendar\<close> interpreted on
    each; the length of months, weekdays, Easter.
  \<^item> \<open>Spl_Heap\<close>: the heap classes with comparisons that run user code. With any comparison elements
    and references are kept; with the sign of an order the classes interpret the locale
    \<open>priority_queue\<close> (\<open>Priority_Queue\<close>).

  \<^bold>\<open>Loops and bounds.\<close> Structural and measured recursion where the C loop obviously ends;
  \<open>partial_function (option)\<close> for the loops over pointers (lists, chains, the heap walks of the
  collector, the segments of the quicksort, the trees and the cache of the memory manager), with theorems that they end from every well-formed
  state; no fuel is used. Bounds that appear as hypotheses are those of the C types: table sizes up
  to \<open>2^31\<close>, \<open>int\<close> counters up to \<open>INT_MAX\<close>, \<open>uint\<close> counts; the block size of the memory manager is
  \<open>2^k\<close> with \<open>5 \<le> k < 64\<close>.

  \<^bold>\<open>Findings.\<close> The model shows where the code does not do what it means to; among others: numeric keys
  and user-defined comparisons cut down to \<open>int\<close>, a stale string key after a renumbering sort,
  resource ids that wrap onto each other, a dangling result of \<open>zend_llist_remove_tail\<close>, a
  write to freed memory after \<open>free_storage\<close>, an object that the collector never looks at again
  when its buffer was full, a bit of the bitmap of free blocks cleared for a bucket that is not empty,
  a free block lost when a segment cannot be resized. The lemmas that show them stand beside the components.

  \<^bold>\<open>Not modelled.\<close> The compiler, the executor and the object handlers (their opcodes and handlers are
  generated for the larger part, and they need zvals with doubles and class entries); scanners and
  parsers (generated); the storage handlers of the memory manager, its debugging protection and the wrappers around it; streams, output,
  server interfaces and thread safety (input and output); arithmetic on doubles; vendored libraries.
  Of the modelled files, left out are: debugging output, the entry points that only parse PHP
  arguments, builds with threads, the proxy objects of the store, the Jewish calendar.
\<close>

end
